(* ===== verification/P4Prelude.thy ===== *)
theory P4Prelude
  imports Main "HOL-Library.Word"
begin

text \<open>
  Shared vocabulary of the development: the result of a computation that may stop at an
  internal-compiler-error check, the diagnostics a pass reports, the generic facts on integers,
  bits and lists that several components use, and the collections of simp rules their proofs
  name.
\<close>

unbundle bit_operations_syntax

named_theorems comp_simps \<open>rewriting of computations that may hit a BUG\<close>
named_theorems width_simps \<open>facts on values of fixed width\<close>

section \<open>Computations that may hit a BUG\<close>

text \<open>
  \<open>BUG(...)\<close> and a failing \<open>BUG_CHECK(...)\<close> (lib/exceptions.h) throw and abandon the pass:
  they are the value \<open>Bug\<close>.  A call of \<open>::P4::error\<close> or \<open>::P4::warning\<close> only records a
  diagnostic and the code goes on: the diagnostics are collected, in order, beside the result.
\<close>

datatype error_type =
    ERR_INVALID
  | ERR_EXPECTED
  | ERR_TYPE_ERROR
  | ERR_UNSUPPORTED
  | ERR_UNSUPPORTED_ON_TARGET
  | ERR_OVERLIMIT
  | ERR_EXPRESSION
  | ERR_NOT_FOUND

datatype warn_type =
    WARN_OVERFLOW
  | WARN_MISMATCH
  | WARN_PARSER_TRANSITION
  | WARN_INVALID
  | WARN_OVERLIMIT
  | WARN_BRANCH_HINT

datatype diag = Error error_type | Warning warn_type

datatype 'a comp = Bug string | Ok "diag list" 'a

primrec bind_comp :: "'a comp \<Rightarrow> ('a \<Rightarrow> 'b comp) \<Rightarrow> 'b comp" where
  "bind_comp (Bug m) f = Bug m"
| "bind_comp (Ok ds a) f = (case f a of Bug m \<Rightarrow> Bug m | Ok ds' b \<Rightarrow> Ok (ds @ ds') b)"

abbreviation ret :: "'a \<Rightarrow> 'a comp" where
  "ret a \<equiv> Ok [] a"

abbreviation report :: "diag \<Rightarrow> 'a \<Rightarrow> 'a comp" where
  "report d a \<equiv> Ok [d] a"

definition map_comp_result :: "('a \<Rightarrow> 'b) \<Rightarrow> 'a comp \<Rightarrow> 'b comp" where
  "map_comp_result f m = bind_comp m (\<lambda>a. ret (f a))"

primrec result_of :: "'a comp \<Rightarrow> 'a option" where
  "result_of (Bug m) = None"
| "result_of (Ok ds a) = Some a"

primrec diags_of :: "'a comp \<Rightarrow> diag list" where
  "diags_of (Bug m) = []"
| "diags_of (Ok ds a) = ds"

lemma bind_comp_Ok_iff [comp_simps]:
  "bind_comp m f = Ok ds b \<longleftrightarrow>
     (\<exists>ds1 a ds2. m = Ok ds1 a \<and> f a = Ok ds2 b \<and> ds = ds1 @ ds2)"
  by (cases m) (auto split: comp.splits)

lemma bind_comp_OkE:
  assumes "bind_comp m f = Ok ds b"
  obtains ds1 a ds2 where "m = Ok ds1 a" "f a = Ok ds2 b" "ds = ds1 @ ds2"
  using assms by (cases m) (auto split: comp.splits)

lemma result_of_bind [comp_simps]:
  "result_of (bind_comp m f) = Option.bind (result_of m) (\<lambda>a. result_of (f a))"
  by (cases m) (auto split: comp.splits)

lemma bind_comp_cong [fundef_cong]:
  "m = m' \<Longrightarrow> (\<And>ds a. m' = Ok ds a \<Longrightarrow> f a = g a) \<Longrightarrow> bind_comp m f = bind_comp m' g"
  by (cases m') auto

lemma result_of_Some_iff: "result_of m = Some a \<longleftrightarrow> (\<exists>ds. m = Ok ds a)"
  by (cases m) auto

lemma bind_comp_ret [simp]: "bind_comp m ret = m"
  by (cases m) auto

lemma bind_comp_assoc:
  "bind_comp (bind_comp m f) g = bind_comp m (\<lambda>a. bind_comp (f a) g)"
  by (cases m) (auto split: comp.splits)

text \<open>Running a list of computations from left to right, as a loop over children does.\<close>

fun mapM_comp :: "('a \<Rightarrow> 'b comp) \<Rightarrow> 'a list \<Rightarrow> 'b list comp" where
  "mapM_comp f [] = ret []"
| "mapM_comp f (x # xs) =
     bind_comp (f x) (\<lambda>y. bind_comp (mapM_comp f xs) (\<lambda>ys. ret (y # ys)))"

lemma mapM_comp_cong [fundef_cong]:
  "xs = ys \<Longrightarrow> (\<And>x. x \<in> set ys \<Longrightarrow> f x = g x) \<Longrightarrow> mapM_comp f xs = mapM_comp g ys"
proof (induction xs arbitrary: ys)
  case Nil
  then show ?case by auto
next
  case (Cons x xs)
  then show ?case by (cases ys) auto
qed

lemma mapM_comp_Ok_list_all2:
  "mapM_comp f xs = Ok ds ys \<Longrightarrow> list_all2 (\<lambda>x y. \<exists>d. f x = Ok d y) xs ys"
  by (induction xs arbitrary: ds ys) (auto simp: comp_simps)

section \<open>Integers as infinite bit strings\<close>

lemma mask_int_eq: "(mask n :: int) = 2 ^ n - 1"
  by (simp add: mask_eq_exp_minus_1)

lemma and_mask_eq_mod: "(v::int) AND (2 ^ n - 1) = v mod 2 ^ n"
  by (metis mask_int_eq take_bit_eq_mask take_bit_eq_mod)

lemma pow2_sub1_eq_push: "push_bit n (1::int) = 2 ^ n"
  by (simp add: push_bit_eq_mult)

lemma pow2_Suc_pred: "0 < w \<Longrightarrow> (2::int) ^ w = 2 * 2 ^ (w - 1)"
  by (metis Suc_pred' power_Suc)

lemma nat_and_le2: "(v::nat) AND w \<le> w"
  by (metis AND_upper2 of_nat_0_le_iff of_nat_and_eq of_nat_le_iff)

lemma nat_and_pred_less: "0 < v \<Longrightarrow> v AND (v - Suc 0) < (v::nat)"
  using nat_and_le2 [of v "v - Suc 0"] by linarith

section \<open>Lists\<close>

lemma list_all2_map_eq: "list_all2 (\<lambda>x y. y = f x) xs ys \<longleftrightarrow> ys = map f xs"
  by (induction xs arbitrary: ys) (auto simp: list_all2_Cons1)

end
