(* ===== verification/BigInt.thy ===== *)
theory BigInt
  imports P4Prelude
begin

text \<open>
  The arbitrary-precision helpers of lib/big_int_util.h and lib/big_int_util.cpp.  A
  \<open>big_int\<close> (boost's cpp_int) is an \<^typ>\<open>int\<close>: its shifts floor and its bitwise operators see
  an infinite two's complement number, as \<^const>\<open>push_bit\<close>, \<^const>\<open>drop_bit\<close>, AND, OR and XOR do
  on \<^typ>\<open>int\<close>.  An \<open>unsigned\<close> that the code uses as a bit position is a \<^typ>\<open>nat\<close>; where the
  code returns \<open>~0U\<close> or stores -1 in an unsigned field the value 4294967295 is written out.
\<close>

type_synonym big_int = int

abbreviation UINT_MAX :: nat where "UINT_MAX \<equiv> 4294967295"

section \<open>Shifts, masks and slices\<close>

definition shift_left :: "big_int \<Rightarrow> nat \<Rightarrow> big_int" where
  "shift_left v bits = push_bit bits v"

definition shift_right :: "big_int \<Rightarrow> nat \<Rightarrow> big_int" where
  "shift_right v bits = drop_bit bits v"

text \<open>\<open>ripBits\<close> returns the low bits and leaves the shifted value in its reference argument:
  the pair (result, new value).\<close>

definition ripBits :: "big_int \<Rightarrow> nat \<Rightarrow> big_int \<times> big_int" where
  "ripBits value bits =
     (let rv = 1;
          rv = push_bit bits rv;
          rv = rv - 1;
          rv = rv AND value
      in (rv, drop_bit bits value))"

definition mask_bits :: "nat \<Rightarrow> big_int" where
  "mask_bits bits = (let one = 1; result = shift_left one bits in result - 1)"

text \<open>The \<open>std::logic_error\<close> of a wrong argument order is \<open>None\<close>.\<close>

definition maskFromSlice :: "nat \<Rightarrow> nat \<Rightarrow> big_int option" where
  "maskFromSlice m l = (if m < l then None else Some (mask_bits (m + 1) - mask_bits l))"

section \<open>Scanning\<close>

text \<open>boost's \<open>lsb\<close> and \<open>msb\<close>, the positions of the lowest and the highest set bit; the code
  calls them on positive values only.\<close>

fun lsb :: "nat \<Rightarrow> nat" where
  "lsb n = (if n = 0 \<or> odd n then 0 else Suc (lsb (n div 2)))"

fun msb :: "nat \<Rightarrow> nat" where
  "msb n = (if n \<le> 1 then 0 else Suc (msb (n div 2)))"

declare lsb.simps [simp del] msb.simps [simp del]

text \<open>The two loops run on non-negative values only (their callers negate first), so their
  argument is a \<^typ>\<open>nat\<close>.\<close>

function scan0_positive :: "nat \<Rightarrow> nat \<Rightarrow> nat" where
  "scan0_positive val pos = (if bit val pos then scan0_positive val (Suc pos) else pos)"
  by pat_completeness auto
termination
proof (relation "measure (\<lambda>(val, pos). val div 2 ^ pos)")
  fix val pos :: nat
  assume "bit val pos"
  then have "odd (val div 2 ^ pos)" by (simp add: bit_nat_def)
  then have "val div 2 ^ pos div 2 < val div 2 ^ pos" by (simp add: odd_pos)
  then show "((val, Suc pos), val, pos) \<in> measure (\<lambda>(val, pos). val div 2 ^ pos)"
    by (simp add: div_mult2_eq [symmetric] mult.commute)
qed simp

declare scan0_positive.simps [simp del]

text \<open>The second loop of \<open>scan1_positive\<close> walks up to the next set bit.  It is entered with
  \<open>pos \<le> msb val\<close>, which bounds it.\<close>

function scan1_loop :: "nat \<Rightarrow> nat \<Rightarrow> nat" where
  "scan1_loop val pos = (if msb val \<le> pos \<or> bit val pos then pos else scan1_loop val (Suc pos))"
  by pat_completeness auto
termination
  by (relation "measure (\<lambda>(val, pos). msb val - pos)") auto

declare scan1_loop.simps [simp del]

definition scan1_positive :: "nat \<Rightarrow> nat \<Rightarrow> nat" where
  "scan1_positive val pos =
     (if val = 0 \<or> pos > msb val then UINT_MAX
      else if lsb val \<ge> pos then lsb val
      else scan1_loop val pos)"

definition scan0 :: "big_int \<Rightarrow> nat \<Rightarrow> nat" where
  "scan0 val pos =
     (if val < 0 then scan1_positive (nat (- val - 1)) pos else scan0_positive (nat val) pos)"

definition scan1 :: "big_int \<Rightarrow> nat \<Rightarrow> nat" where
  "scan1 val pos =
     (if val < 0 then scan0_positive (nat (- val - 1)) pos else scan1_positive (nat val) pos)"

record BitRange =
  lowIndex :: nat
  highIndex :: nat
  range_value :: big_int

text \<open>\<open>findOnes\<close> calls \<open>maskFromSlice\<close>, whose exception it would let through: \<open>None\<close>.\<close>

definition findOnes :: "big_int \<Rightarrow> BitRange option" where
  "findOnes value =
     (if value \<noteq> 0 then
        let lo = scan1 value 0;
            hi = scan0 value lo - 1
        in (case maskFromSlice hi lo of
              None \<Rightarrow> None
            | Some v \<Rightarrow> Some \<lparr>lowIndex = lo, highIndex = hi, range_value = v\<rparr>)
      else Some \<lparr>lowIndex = UINT_MAX, highIndex = UINT_MAX, range_value = 0\<rparr>)"

section \<open>Counting and logarithms\<close>

text \<open>\<open>bitcount\<close> clears the lowest set bit until nothing is left; the early return deals with
  negative values, so the loop runs on a \<^typ>\<open>nat\<close>.\<close>

function bitcount_loop :: "nat \<Rightarrow> nat \<Rightarrow> nat" where
  "bitcount_loop v rv = (if v \<noteq> 0 then bitcount_loop (v AND (v - 1)) (rv + 1) else rv)"
  by pat_completeness auto
termination
  by (relation "measure (\<lambda>(v, rv). v)") (auto simp: nat_and_pred_less)

declare bitcount_loop.simps [simp del]

definition bitcount :: "big_int \<Rightarrow> nat" where
  "bitcount v = (if v < 0 then UINT_MAX else bitcount_loop (nat v) 0)"

definition ffs :: "big_int \<Rightarrow> int" where
  "ffs v = (if v \<le> 0 then -1 else int (lsb (nat v)))"

function floor_log2_loop :: "big_int \<Rightarrow> int \<Rightarrow> int" where
  "floor_log2_loop v rv = (if v > 0 then floor_log2_loop (v div 2) (rv + 1) else rv)"
  by pat_completeness auto
termination
  by (relation "measure (\<lambda>(v, rv). nat v)") auto

declare floor_log2_loop.simps [simp del]

definition floor_log2 :: "big_int \<Rightarrow> int" where
  "floor_log2 v = floor_log2_loop v (-1)"

definition ceil_log2 :: "big_int \<Rightarrow> int" where
  "ceil_log2 v = (if v \<noteq> 0 then floor_log2 (v - 1) + 1 else -1)"

section \<open>Reading a number\<close>

text \<open>The \<open>switch\<close> of \<open>cvtInt\<close> on one character: a digit, an ignored underscore, or the
  \<open>std::logic_error\<close> of the default branch.\<close>

datatype digit_char = Digit nat | Skip | Bad

definition classify_digit :: "char \<Rightarrow> digit_char" where
  "classify_digit c =
     (let n = of_char c :: nat in
      if of_char (CHR ''0'') \<le> n \<and> n \<le> of_char (CHR ''9'') then Digit (n - of_char (CHR ''0''))
      else if of_char (CHR ''a'') \<le> n \<and> n \<le> of_char (CHR ''f'')
        then Digit (n - of_char (CHR ''a'') + 10)
      else if of_char (CHR ''A'') \<le> n \<and> n \<le> of_char (CHR ''F'')
        then Digit (n - of_char (CHR ''A'') + 10)
      else if c = CHR ''_'' then Skip
      else Bad)"

fun cvtInt_loop :: "string \<Rightarrow> nat \<Rightarrow> big_int \<Rightarrow> big_int option" where
  "cvtInt_loop [] base rv = Some rv"
| "cvtInt_loop (c # s) base rv =
     (case classify_digit c of
        Digit d \<Rightarrow> cvtInt_loop s base (rv * int base + int d)
      | Skip \<Rightarrow> cvtInt_loop s base rv
      | Bad \<Rightarrow> None)"

definition cvtInt :: "string \<Rightarrow> nat \<Rightarrow> big_int option" where
  "cvtInt s base = cvtInt_loop s base 0"

section \<open>What the helpers compute\<close>

lemma shift_left_eq: "shift_left v n = v * 2 ^ n"
  by (simp add: shift_left_def push_bit_eq_mult)

lemma shift_right_eq: "shift_right v n = v div 2 ^ n"
  by (simp add: shift_right_def drop_bit_eq_div)

lemma mask_bits_eq: "mask_bits n = 2 ^ n - 1"
  by (simp add: mask_bits_def shift_left_eq)

lemma mask_bits_nonneg [simp]: "0 \<le> mask_bits n"
  by (simp add: mask_bits_eq)

lemma bit_mask_bits: "bit (mask_bits n) i \<longleftrightarrow> i < n"
  by (simp add: mask_bits_eq flip: mask_int_eq) (simp add: bit_mask_iff)

lemma and_mask_bits: "v AND mask_bits n = v mod 2 ^ n"
  by (simp add: mask_bits_eq and_mask_eq_mod)

lemma ripBits_eq: "ripBits v n = (v mod 2 ^ n, v div 2 ^ n)"
  by (simp add: ripBits_def push_bit_eq_mult drop_bit_eq_div and.commute and_mask_eq_mod)

lemma maskFromSlice_eq: "l \<le> m \<Longrightarrow> maskFromSlice m l = Some (2 ^ (m + 1) - 2 ^ l)"
  by (simp add: maskFromSlice_def mask_bits_eq)

lemma slice_mask_eq_push: "l \<le> m \<Longrightarrow> (2::int) ^ (m + 1) - 2 ^ l = push_bit l (2 ^ (m + 1 - l) - 1)"
  by (simp add: push_bit_eq_mult algebra_simps flip: power_add)

lemma bit_slice_mask: "l \<le> m \<Longrightarrow> bit ((2::int) ^ (m + 1) - 2 ^ l) i \<longleftrightarrow> l \<le> i \<and> i \<le> m"
  unfolding slice_mask_eq_push mask_int_eq [symmetric]
  by (auto simp: bit_push_bit_iff bit_mask_iff)

lemma lsb_odd: "odd n \<Longrightarrow> lsb n = 0" by (simp add: lsb.simps)
lemma lsb_even: "0 < n \<Longrightarrow> even n \<Longrightarrow> lsb n = Suc (lsb (n div 2))"
  by (subst lsb.simps) simp

lemma bit_and_pred: "0 < n \<Longrightarrow> bit (n AND (n - Suc 0)) i \<longleftrightarrow> bit n i \<and> i \<noteq> lsb n"
proof (induction n arbitrary: i rule: lsb.induct)
  case (1 n)
  show ?case
  proof (cases "odd n")
    case True
    then obtain m where n: "n = 2 * m + 1" by (elim oddE)
    have "lsb n = 0" using True by (rule lsb_odd)
    then show ?thesis
      unfolding bit_and_iff n by (cases i) (auto simp: bit_Suc bit_0)
  next
    case False
    with "1.prems" obtain m where n: "n = 2 * m" "0 < m" by (auto elim!: evenE)
    have pred: "n - Suc 0 = 2 * (m - Suc 0) + 1" using n by simp
    have IH: "bit (m AND (m - Suc 0)) j \<longleftrightarrow> bit m j \<and> j \<noteq> lsb m" for j
      using "1.IH" [of j] n by simp
    have "lsb n = Suc (lsb m)" using n by (simp add: lsb_even)
    then show ?thesis
    proof (cases i)
      case 0
      then show ?thesis using n by (simp add: bit_0 even_and_iff)
    next
      case (Suc j)
      have "bit (n - Suc 0) i \<longleftrightarrow> bit (m - Suc 0) j"
        unfolding pred Suc by (simp add: bit_Suc)
      moreover have "bit n i \<longleftrightarrow> bit m j" using Suc n by (simp add: bit_Suc)
      ultimately show ?thesis
        using IH [of j] \<open>lsb n = Suc (lsb m)\<close> Suc by (simp add: bit_and_iff)
    qed
  qed
qed

lemma bit_lsb: "0 < n \<Longrightarrow> bit n (lsb n)"
proof (induction n rule: lsb.induct)
  case (1 n)
  then show ?case
    by (cases "odd n") (auto simp: lsb_odd lsb_even bit_0 bit_Suc elim!: evenE)
qed

lemma not_bit_below_lsb: "i < lsb n \<Longrightarrow> \<not> bit n i"
proof (induction n arbitrary: i rule: lsb.induct)
  case (1 n)
  show ?case
  proof (cases "n = 0 \<or> odd n")
    case True
    with "1.prems" show ?thesis by (auto simp: lsb.simps)
  next
    case False
    with 1 show ?thesis by (cases i) (auto simp: lsb_even bit_0 bit_Suc)
  qed
qed

lemma finite_bits_nat: "finite {i. bit (n::nat) i}"
proof (rule finite_subset)
  show "{i. bit n i} \<subseteq> {..< n}"
    by (auto simp: bit_nat_def) (metis div_less even_zero gr0I less_exp linorder_not_less
        order_le_less_trans)
qed simp

lemma bitcount_loop_card: "bitcount_loop n rv = rv + card {i. bit n i}"
proof (induction n rv rule: bitcount_loop.induct)
  case (1 v rv)
  show ?case
  proof (cases "v = 0")
    case True
    then show ?thesis by (simp add: bitcount_loop.simps)
  next
    case False
    then have set: "{i. bit v i} = insert (lsb v) {i. bit (v AND (v - Suc 0)) i}"
      by (auto simp: bit_and_pred bit_lsb)
    have "card {i. bit v i} = Suc (card {i. bit (v AND (v - Suc 0)) i})"
      unfolding set by (subst card_insert_disjoint) (use False in \<open>auto simp: finite_bits_nat bit_and_pred\<close>)
    then show ?thesis using 1 False by (subst bitcount_loop.simps) simp
  qed
qed

lemma bitcount_card: "0 \<le> v \<Longrightarrow> bitcount v = card {i. bit v i}"
  by (simp add: bitcount_def bitcount_loop_card bit_nat_iff)

lemma floor_log2_loop_bounds:
  "0 < v \<Longrightarrow> \<exists>k. floor_log2_loop v rv = rv + 1 + int k \<and> 2 ^ k \<le> v \<and> v < 2 ^ (k + 1)"
proof (induction v rv rule: floor_log2_loop.induct)
  case (1 v rv)
  show ?case
  proof (cases "v = 1")
    case True
    then show ?thesis by (intro exI [of _ 0]) (simp add: floor_log2_loop.simps)
  next
    case False
    with 1 have "0 < v div 2" by simp
    with 1 obtain k where k: "floor_log2_loop (v div 2) (rv + 1) = rv + 1 + 1 + int k"
      "2 ^ k \<le> v div 2" "v div 2 < 2 ^ (k + 1)" by blast
    have "floor_log2_loop v rv = rv + 1 + int (Suc k)"
      using "1.prems" k(1) by (subst floor_log2_loop.simps) simp
    moreover have "2 ^ Suc k \<le> v" "v < 2 ^ (Suc k + 1)" using k(2,3) by simp_all
    ultimately show ?thesis by blast
  qed
qed

lemma floor_log2_nonpos: "v \<le> 0 \<Longrightarrow> floor_log2 v = -1"
  by (simp add: floor_log2_def floor_log2_loop.simps)

lemma floor_log2_spec:
  assumes "0 < v"
  obtains k where "floor_log2 v = int k" "2 ^ k \<le> v" "v < 2 ^ (k + 1)"
  using floor_log2_loop_bounds [OF assms, of "-1"] that by (auto simp: floor_log2_def)

lemma floor_log2_eqI:
  assumes "2 ^ k \<le> v" "v < 2 ^ (k + 1)"
  shows "floor_log2 v = int k"
proof -
  have "0 < v" using assms(1) by (meson less_le_trans zero_less_numeral zero_less_power)
  then obtain j where j: "floor_log2 v = int j" "2 ^ j \<le> v" "v < 2 ^ (j + 1)"
    by (rule floor_log2_spec)
  have "(2::int) ^ k < 2 ^ (j + 1)" "(2::int) ^ j < 2 ^ (k + 1)" using assms j by linarith+
  then have "k < j + 1" "j < k + 1" by (metis one_less_numeral_iff power_less_imp_less_exp semiring_norm(76))+
  then show ?thesis using j(1) by simp
qed

lemma ceil_log2_spec:
  assumes "1 \<le> v"
  obtains k where "ceil_log2 v = int k" "v \<le> 2 ^ k" "\<And>j. v \<le> 2 ^ j \<Longrightarrow> k \<le> j"
proof (cases "v = 1")
  case True
  then show ?thesis by (intro that [of 0]) (auto simp: ceil_log2_def floor_log2_nonpos)
next
  case False
  with assms have "0 < v - 1" by simp
  then obtain k where k: "floor_log2 (v - 1) = int k" "2 ^ k \<le> v - 1" "v - 1 < 2 ^ (k + 1)"
    by (rule floor_log2_spec)
  show ?thesis
  proof (rule that [of "Suc k"])
    show "ceil_log2 v = int (Suc k)" using k assms by (simp add: ceil_log2_def)
    show "v \<le> 2 ^ Suc k" using k by simp
    fix j assume "v \<le> 2 ^ j"
    with k(2) have "(2::int) ^ k < 2 ^ j" by linarith
    then show "Suc k \<le> j" by (metis Suc_leI one_less_numeral_iff power_less_imp_less_exp semiring_norm(76))
  qed
qed

lemma ffs_spec:
  assumes "0 < v"
  shows "ffs v = int (lsb (nat v))" "bit v (lsb (nat v))" "i < lsb (nat v) \<Longrightarrow> \<not> bit v i"
  using assms bit_lsb [of "nat v"] not_bit_below_lsb [of i "nat v"]
  by (auto simp: ffs_def bit_nat_iff)

lemma msb_bounds: "0 < n \<Longrightarrow> 2 ^ msb n \<le> n \<and> n < 2 ^ (msb n + 1)"
proof (induction n rule: msb.induct)
  case (1 n)
  show ?case
  proof (cases "n = 1")
    case True
    then show ?thesis by (simp add: msb.simps)
  next
    case False
    with 1 have "msb n = Suc (msb (n div 2))" by (subst msb.simps) simp
    moreover have "2 ^ msb (n div 2) \<le> n div 2 \<and> n div 2 < 2 ^ (msb (n div 2) + 1)"
      using 1 False by simp
    ultimately show ?thesis by auto
  qed
qed

lemma scan0_positive_spec:
  "pos \<le> scan0_positive v pos \<and> \<not> bit v (scan0_positive v pos) \<and>
   (\<forall>i. pos \<le> i \<and> i < scan0_positive v pos \<longrightarrow> bit v i)"
proof (induction v pos rule: scan0_positive.induct)
  case (1 v pos)
  show ?case
  proof (cases "bit v pos")
    case True
    then have "scan0_positive v pos = scan0_positive v (Suc pos)"
      by (subst scan0_positive.simps) simp
    then show ?thesis using 1 True by (auto simp: Suc_le_eq) (metis le_neq_implies_less)
  next
    case False
    then show ?thesis by (subst (1 2 3) scan0_positive.simps) auto
  qed
qed

lemma findOnes_spec:
  assumes "0 < v"
  obtains r where "findOnes v = Some r" "lowIndex r \<le> highIndex r"
    "\<And>i. lowIndex r \<le> i \<Longrightarrow> i \<le> highIndex r \<Longrightarrow> bit v i"
    "\<And>i. i < lowIndex r \<Longrightarrow> \<not> bit v i" "\<not> bit v (Suc (highIndex r))"
    "\<And>i. bit (range_value r) i \<longleftrightarrow> lowIndex r \<le> i \<and> i \<le> highIndex r"
proof -
  define lo where "lo = lsb (nat v)"
  define hi where "hi = scan0_positive (nat v) lo"
  have lo: "scan1 v 0 = lo" using assms by (simp add: scan1_def scan1_positive_def lo_def)
  have hi: "scan0 v lo = hi" using assms by (simp add: scan0_def hi_def)
  have sp: "lo \<le> hi" "\<not> bit v hi" "\<And>i. lo \<le> i \<Longrightarrow> i < hi \<Longrightarrow> bit v i"
    using scan0_positive_spec [of lo "nat v"] assms by (auto simp: hi_def bit_nat_iff)
  have "bit v lo" using ffs_spec(2) [OF assms] by (simp add: lo_def)
  with sp have "lo < hi" by (metis le_neq_implies_less)
  then have r: "findOnes v = Some \<lparr>lowIndex = lo, highIndex = hi - 1,
      range_value = 2 ^ (hi - 1 + 1) - 2 ^ lo\<rparr>"
    using assms by (simp add: findOnes_def lo hi maskFromSlice_eq)
  show ?thesis
    by (rule that [OF r])
      (use sp \<open>lo < hi\<close> ffs_spec(3) [OF assms] bit_slice_mask [of lo "hi - 1"] in \<open>auto simp: lo_def\<close>)
qed

end
