(* ===== verification/IR_Expr.thy ===== *)
theory IR_Expr
  imports BigInt
begin

text \<open>
  The part of the compiler's intermediate representation that the expression passes work on:
  P4 types (ir/type.def), expressions (ir/expression.def), the constructor of \<open>IR::Constant\<close>
  with its overflow handling, the conversions to machine integers, the untyped operators of
  \<open>IR::Constant\<close> and \<open>IR::Slice::make\<close> (ir/expression.cpp).

  Every expression node carries its \<open>type\<close> field.  A type map of the code (TypeMap) assigns a
  type to each node; in the model that is the type recorded on the node.  Source positions are
  left out: no pass modelled here computes with them.
\<close>

section \<open>Types\<close>

text \<open>
  \<open>Type_Bits size isSigned\<close> is \<open>bit<size>\<close> or \<open>int<size>\<close>.  The members of a serializable enum
  carry the constant the type checker computed for them: value and printing base.
  \<open>Type_Other\<close> stands for the types that no modelled pass looks into (tables, parsers, ...).
\<close>

datatype p4type =
    Type_Unknown
  | Type_Boolean
  | Type_String
  | Type_InfInt
  | Type_Bits int bool
  | Type_Varbits int
  | Type_Error
  | Type_MatchKind
  | Type_Enum string "string list"
  | Type_SerEnum string p4type "(string \<times> int \<times> nat) list"
  | Type_Struct string "(string \<times> p4type) list"
  | Type_Header string "(string \<times> p4type) list"
  | Type_Stack p4type int
  | Type_List "p4type list"
  | Type_Set p4type
  | Type_Newtype string p4type
  | Type_Name string
  | Type_Other string

fun is_Type_Bits :: "p4type \<Rightarrow> bool" where
  "is_Type_Bits (Type_Bits w s) = True"
| "is_Type_Bits t = False"

text \<open>\<open>width_bits()\<close> of each class; the base class stops with a BUG.\<close>

fun width_bits :: "p4type \<Rightarrow> int comp"
  and sum_widths :: "(string \<times> p4type) list \<Rightarrow> int comp" where
  "width_bits Type_Boolean = ret 1"
| "width_bits Type_InfInt = ret 0"
| "width_bits (Type_Bits w s) = ret w"
| "width_bits (Type_Varbits w) = ret w"
| "width_bits (Type_SerEnum n t ms) = width_bits t"
| "width_bits (Type_Newtype n t) = width_bits t"
| "width_bits (Type_Struct n fs) = sum_widths fs"
| "width_bits (Type_Header n fs) = sum_widths fs"
| "width_bits (Type_Set t) = width_bits t"
| "width_bits (Type_Stack t n) = bind_comp (width_bits t) (\<lambda>w. ret (n * w))"
| "width_bits t = Bug ''width_bits() on type with unknown size''"
| "sum_widths [] = ret 0"
| "sum_widths ((f, t) # fs) =
     bind_comp (width_bits t) (\<lambda>w. bind_comp (sum_widths fs) (\<lambda>r. ret (w + r)))"

section \<open>Expressions\<close>

datatype unop = Neg | UPlus | Cmpl | LNot

datatype binop =
    Mul | Div | Mod | Add | Sub | AddSat | SubSat | Shl | Shr
  | Equ | Neq | Lss | Leq | Grt | Geq
  | BAnd | BOr | BXor | LAnd | LOr | Concat

text \<open>How a method call resolves (MethodInstance): to a method built into the language, by its
  name, or to anything else that may have effects.\<close>

datatype minst = BuiltInMethod string | OtherMethod string

datatype expr =
    Constant p4type int nat
  | BoolLiteral bool
  | StringLiteral string
  | PathExpression p4type string
  | TypeNameExpression p4type
  | ListExpression p4type "expr list"
  | StructExpression p4type "(string \<times> expr) list"
  | HeaderStackExpression p4type "expr list"
  | InvalidHeader p4type
  | Unary unop p4type expr
  | Cast p4type expr
  | Member p4type expr string
  | Binary binop p4type expr expr
  | ArrayIndex p4type expr expr
  | Range p4type expr expr
  | Mask p4type expr expr
  | Mux p4type expr expr expr
  | Slice p4type expr expr expr
  | PlusSlice p4type expr expr expr
  | MethodCallExpression p4type minst expr "expr list"
  | ConstructorCallExpression p4type "expr list"
  | DefaultExpression p4type

text \<open>The \<open>type\<close> field of a node.  Boolean and string literals always carry their own type.\<close>

fun type_of :: "expr \<Rightarrow> p4type" where
  "type_of (Constant t v b) = t"
| "type_of (BoolLiteral b) = Type_Boolean"
| "type_of (StringLiteral s) = Type_String"
| "type_of (PathExpression t p) = t"
| "type_of (TypeNameExpression t) = t"
| "type_of (ListExpression t es) = t"
| "type_of (StructExpression t fs) = t"
| "type_of (HeaderStackExpression t es) = t"
| "type_of (InvalidHeader t) = t"
| "type_of (Unary u t e) = t"
| "type_of (Cast t e) = t"
| "type_of (Member t e m) = t"
| "type_of (Binary b t l r) = t"
| "type_of (ArrayIndex t l r) = t"
| "type_of (Range t l r) = t"
| "type_of (Mask t l r) = t"
| "type_of (Mux t c a b) = t"
| "type_of (Slice t e h l) = t"
| "type_of (PlusSlice t e l w) = t"
| "type_of (MethodCallExpression t m e as) = t"
| "type_of (ConstructorCallExpression t as) = t"
| "type_of (DefaultExpression t) = t"

text \<open>The checked downcasts \<open>e->to<...>()\<close>: the contents of the node, or \<open>None\<close> for another class.\<close>

fun to_Constant :: "expr \<Rightarrow> (p4type \<times> int \<times> nat) option" where
  "to_Constant (Constant t v b) = Some (t, v, b)"
| "to_Constant e = None"

fun to_BoolLiteral :: "expr \<Rightarrow> bool option" where
  "to_BoolLiteral (BoolLiteral b) = Some b"
| "to_BoolLiteral e = None"

fun to_StringLiteral :: "expr \<Rightarrow> string option" where
  "to_StringLiteral (StringLiteral s) = Some s"
| "to_StringLiteral e = None"

fun to_ListExpression :: "expr \<Rightarrow> (p4type \<times> expr list) option" where
  "to_ListExpression (ListExpression t es) = Some (t, es)"
| "to_ListExpression e = None"

fun to_StructExpression :: "expr \<Rightarrow> (p4type \<times> (string \<times> expr) list) option" where
  "to_StructExpression (StructExpression t fs) = Some (t, fs)"
| "to_StructExpression e = None"

fun to_Member :: "expr \<Rightarrow> (p4type \<times> expr \<times> string) option" where
  "to_Member (Member t e m) = Some (t, e, m)"
| "to_Member e = None"

fun to_Type_Bits :: "p4type \<Rightarrow> (int \<times> bool) option" where
  "to_Type_Bits (Type_Bits w s) = Some (w, s)"
| "to_Type_Bits t = None"

lemma to_node_Some [simp]:
  "to_Constant e = Some (t, v, b) \<longleftrightarrow> e = Constant t v b"
  "to_BoolLiteral e = Some p \<longleftrightarrow> e = BoolLiteral p"
  "to_StringLiteral e = Some s \<longleftrightarrow> e = StringLiteral s"
  "to_ListExpression e = Some (t, es) \<longleftrightarrow> e = ListExpression t es"
  "to_StructExpression e = Some (t, fs) \<longleftrightarrow> e = StructExpression t fs"
  "to_Member e = Some (t, x, m) \<longleftrightarrow> e = Member t x m"
  by (cases e; auto)+

lemma to_Type_Bits_Some [simp]: "to_Type_Bits t = Some (w, s) \<longleftrightarrow> t = Type_Bits w s"
  by (cases t) auto

definition is_relation :: "binop \<Rightarrow> bool" where
  "is_relation b \<longleftrightarrow> b \<in> {Equ, Neq, Lss, Leq, Grt, Geq}"

text \<open>The constructors of the binary node classes that fill in the type themselves:
  \<open>Operation_Relation\<close>, LAnd and LOr default to bool, \<open>Concat\<close> adds the widths, and the others
  take the common type of their operands.\<close>

definition mk_concat :: "p4type \<Rightarrow> expr \<Rightarrow> expr \<Rightarrow> expr" where
  "mk_concat t l r =
     (case (type_of l, type_of r) of
        (Type_Bits wl sl, Type_Bits wr sr) \<Rightarrow> Binary Concat (Type_Bits (wl + wr) sl) l r
      | _ \<Rightarrow> Binary Concat t l r)"

definition mk_binary_untyped :: "binop \<Rightarrow> expr \<Rightarrow> expr \<Rightarrow> expr" where
  "mk_binary_untyped b l r =
     Binary b (if type_of l = type_of r then type_of l else Type_Unknown) l r"

section \<open>Visiting the children of a node\<close>

text \<open>
  The generic traversal of \<open>Transform\<close>: \<open>visit_children\<close> of each class replaces the
  subexpressions, from left to right, by what the pass returns for them.
\<close>

fun children :: "expr \<Rightarrow> expr list" where
  "children (ListExpression t es) = es"
| "children (StructExpression t fs) = map snd fs"
| "children (HeaderStackExpression t es) = es"
| "children (Unary u t e) = [e]"
| "children (Cast t e) = [e]"
| "children (Member t e m) = [e]"
| "children (Binary b t l r) = [l, r]"
| "children (ArrayIndex t l r) = [l, r]"
| "children (Range t l r) = [l, r]"
| "children (Mask t l r) = [l, r]"
| "children (Mux t c a b) = [c, a, b]"
| "children (Slice t e h l) = [e, h, l]"
| "children (PlusSlice t e l w) = [e, l, w]"
| "children (MethodCallExpression t m e as) = e # as"
| "children (ConstructorCallExpression t as) = as"
| "children e = []"

fun with_children :: "expr \<Rightarrow> expr list \<Rightarrow> expr" where
  "with_children (ListExpression t es) cs = ListExpression t cs"
| "with_children (StructExpression t fs) cs = StructExpression t (zip (map fst fs) cs)"
| "with_children (HeaderStackExpression t es) cs = HeaderStackExpression t cs"
| "with_children (Unary u t e) cs = Unary u t (cs ! 0)"
| "with_children (Cast t e) cs = Cast t (cs ! 0)"
| "with_children (Member t e m) cs = Member t (cs ! 0) m"
| "with_children (Binary b t l r) cs = Binary b t (cs ! 0) (cs ! 1)"
| "with_children (ArrayIndex t l r) cs = ArrayIndex t (cs ! 0) (cs ! 1)"
| "with_children (Range t l r) cs = Range t (cs ! 0) (cs ! 1)"
| "with_children (Mask t l r) cs = Mask t (cs ! 0) (cs ! 1)"
| "with_children (Mux t c a b) cs = Mux t (cs ! 0) (cs ! 1) (cs ! 2)"
| "with_children (Slice t e h l) cs = Slice t (cs ! 0) (cs ! 1) (cs ! 2)"
| "with_children (PlusSlice t e l w) cs = PlusSlice t (cs ! 0) (cs ! 1) (cs ! 2)"
| "with_children (MethodCallExpression t m e as) cs = MethodCallExpression t m (hd cs) (tl cs)"
| "with_children (ConstructorCallExpression t as) cs = ConstructorCallExpression t cs"
| "with_children e cs = e"

definition visit_children :: "(expr \<Rightarrow> expr comp) \<Rightarrow> expr \<Rightarrow> expr comp" where
  "visit_children f e = bind_comp (mapM_comp f (children e)) (\<lambda>cs. ret (with_children e cs))"

lemma visit_children_cong [fundef_cong]:
  "e = e' \<Longrightarrow> (\<And>x. x \<in> set (children e') \<Longrightarrow> f x = g x) \<Longrightarrow> visit_children f e = visit_children g e'"
  by (auto simp: visit_children_def cong: mapM_comp_cong)

lemma size_field: "(f, x) \<in> set fs \<Longrightarrow> size (x::expr) \<le> size_list (size_prod (\<lambda>_. 0) size) fs"
  by (rule size_list_estimation' [of "(f, x)"]) auto

lemma size_children: "x \<in> set (children e) \<Longrightarrow> size x < size e"
proof (cases e)
  case (StructExpression t fs)
  moreover assume "x \<in> set (children e)"
  ultimately obtain f where "(f, x) \<in> set fs" by auto
  then show ?thesis using StructExpression size_list_estimation' [of "(f, x)" fs _ "size_prod (\<lambda>x. 0) size"]
    by (simp add: less_Suc_eq_le)
qed (auto intro: size_list_estimation' trans_le_add1 simp: less_Suc_eq_le)

lemma with_children_children [simp]: "with_children e (children e) = e"
  by (cases e) (auto simp: zip_map_fst_snd)

lemma expr_children_induct [case_names children]:
  assumes "\<And>e. (\<And>x. x \<in> set (children e) \<Longrightarrow> P x) \<Longrightarrow> P e"
  shows "P (e::expr)"
  by (induction e rule: measure_induct_rule [of size]) (metis assms size_children)

lemma visit_children_ident:
  assumes "visit_children f e = Ok ds e'"
    and "\<And>x ds' x'. x \<in> set (children e) \<Longrightarrow> f x = Ok ds' x' \<Longrightarrow> x' = x \<and> ds' = []"
  shows "e' = e \<and> ds = []"
proof -
  have "mapM_comp f xs = Ok ds' ys \<Longrightarrow> set xs \<subseteq> set (children e) \<Longrightarrow> ys = xs \<and> ds' = []" for xs ds' ys
  proof (induction xs arbitrary: ds' ys)
    case (Cons x xs)
    then show ?case using assms(2) [of x] by (auto simp: comp_simps)
  qed simp
  from this [of "children e"] show ?thesis using assms(1) by (auto simp: visit_children_def comp_simps)
qed

section \<open>Constants\<close>

text \<open>
  \<open>Constant::handleOverflow\<close>: a constant of a fixed-width type is reduced to the range of its
  type, with a warning unless the caller asked for none.  A width that \<open>Type_Bits::get\<close> never
  produces makes the shift of the code throw.
\<close>

definition handleOverflow :: "p4type \<Rightarrow> int \<Rightarrow> bool \<Rightarrow> int comp" where
  "handleOverflow ty value noWarning =
     (case ty of
        Type_InfInt \<Rightarrow> ret value
      | Type_Bits width isSigned \<Rightarrow>
          (if width < 0 \<or> (isSigned \<and> width = 0) then Bug ''negative shift''
           else
             let one = 1;
                 mask = mask_bits (nat width)
             in if isSigned then
                  let max = push_bit (nat (width - 1)) one - 1;
                      min = - push_bit (nat (width - 1)) one
                  in if value < min \<or> value > max then
                       let v = value AND mask;
                           v = (if v > max then v - push_bit (nat width) one else v)
                       in Ok (if noWarning then [] else [Warning WARN_OVERFLOW]) v
                     else ret value
                else
                  let ds = (if value < 0 then (if noWarning then [] else [Warning WARN_MISMATCH])
                            else if value AND mask \<noteq> value
                              then (if noWarning then [] else [Warning WARN_MISMATCH])
                            else []);
                      v = value AND mask
                  in if v < 0 then Bug ''Negative value after masking'' else Ok ds v)
      | _ \<Rightarrow> Bug ''Unexpected type for constant'')"

definition mk_constant :: "p4type \<Rightarrow> int \<Rightarrow> nat \<Rightarrow> bool \<Rightarrow> expr comp" where
  "mk_constant ty v base noWarning =
     bind_comp (handleOverflow ty v noWarning) (\<lambda>v'. ret (Constant ty v' base))"

text \<open>The constructors without a type make an arbitrary-precision constant.\<close>

abbreviation inf_constant :: "int \<Rightarrow> expr" where
  "inf_constant v \<equiv> Constant Type_InfInt v 10"

text \<open>
  \<open>asInt\<close> and \<open>asUnsigned\<close> report a value that does not fit and convert it all the same: the
  conversion of a \<open>big_int\<close> to a signed integer saturates, to an unsigned one it wraps.
\<close>

definition fitsInt :: "int \<Rightarrow> bool" where
  "fitsInt value \<longleftrightarrow> - 2147483648 \<le> value \<and> value \<le> 2147483647"

definition fitsUint :: "int \<Rightarrow> bool" where
  "fitsUint value \<longleftrightarrow> 0 \<le> value \<and> value \<le> 4294967295"

definition asInt :: "int \<Rightarrow> int comp" where
  "asInt value =
     (if \<not> fitsInt value then
        report (Error ERR_OVERLIMIT) (if value < 0 then - 2147483648 else 2147483647)
      else ret value)"

definition asUnsigned :: "int \<Rightarrow> int comp" where
  "asUnsigned value =
     (if \<not> fitsUint value then report (Error ERR_OVERLIMIT) (value mod 4294967296) else ret value)"

text \<open>\<open>getH\<close> and \<open>getL\<close> of \<open>IR::Slice\<close>: both indices have to be constants.\<close>

fun slice_index :: "expr \<Rightarrow> int comp" where
  "slice_index (Constant t v b) = asUnsigned v"
| "slice_index e = Bug ''checkedTo<IR::Constant>''"

text \<open>The operators on constants ignore the type and give an arbitrary-precision constant.\<close>

definition constant_shl :: "int \<Rightarrow> nat \<Rightarrow> expr" where
  "constant_shl value shift = inf_constant (push_bit shift value)"

definition constant_shr :: "int \<Rightarrow> nat \<Rightarrow> expr" where
  "constant_shr value shift = inf_constant (drop_bit shift value)"

definition constant_and :: "int \<Rightarrow> int \<Rightarrow> expr" where
  "constant_and value c = inf_constant (value AND c)"

definition constant_or :: "int \<Rightarrow> int \<Rightarrow> expr" where
  "constant_or value c = inf_constant (value OR c)"

definition constant_xor :: "int \<Rightarrow> int \<Rightarrow> expr" where
  "constant_xor value c = inf_constant (value XOR c)"

definition constant_minus :: "int \<Rightarrow> int \<Rightarrow> expr" where
  "constant_minus value c = inf_constant (value - c)"

definition constant_uminus :: "int \<Rightarrow> expr" where
  "constant_uminus value = inf_constant (- value)"

definition GetMask :: "nat \<Rightarrow> expr" where
  "GetMask width =
     (case constant_shl 1 width of
        Constant t v b \<Rightarrow> constant_minus v 1
      | e \<Rightarrow> e)"

section \<open>Making slices\<close>

text \<open>
  \<open>IR::Slice::make(e, lo, hi)\<close>.  The mask for a constant is computed in 32-bit unsigned
  arithmetic, \<open>(1U << (hi - lo + 1)) - 1\<close>: a shift by 32 or more has no defined result, which
  is a \<open>Bug\<close> here.  The \<open>unsigned\<close> arguments and their sums stay in the int range of the slice
  indices the compiler handles.  The branch for a \<open>PlusSlice\<close> is written as the code has it: it builds the new slice
  from the start index \<open>e1\<close> and the width \<open>e2\<close> of the old one, not from its base and start.
\<close>

definition Slice_mk :: "expr \<Rightarrow> int \<Rightarrow> int \<Rightarrow> expr" where
  "Slice_mk e hi lo =
     Slice (Type_Bits (hi - lo + 1) False) e (inf_constant hi) (inf_constant lo)"

definition Slice_make_rest :: "expr \<Rightarrow> int \<Rightarrow> int \<Rightarrow> expr comp" where
  "Slice_make_rest e lo hi =
     bind_comp
       (case e of
          Slice t e0 e1 e2 \<Rightarrow>
            bind_comp (slice_index e2) (\<lambda>l.
            bind_comp (slice_index e1) (\<lambda>h.
              if lo + l \<ge> l \<and> hi + l \<le> h then ret (e0, lo + l, hi + l)
              else Bug ''MakeSlice slice on slice type mismatch''))
        | _ \<Rightarrow> ret (e, lo, hi))
       (\<lambda>(e, lo, hi).
          (case e of
             PlusSlice t e0 e1 e2 \<Rightarrow>
               (let e2' = (if lo > 0 then mk_binary_untyped Add e2 (inf_constant lo) else e2)
                in ret (PlusSlice (Type_Bits (hi - lo + 1) False) e1 e2' (inf_constant (hi - lo + 1))))
           | _ \<Rightarrow> ret (Slice_mk e hi lo)))"

definition Slice_make :: "expr \<Rightarrow> int \<Rightarrow> int \<Rightarrow> expr comp" where
  "Slice_make e lo hi =
     (case e of
        Constant t v b \<Rightarrow>
          (if hi - lo + 1 \<ge> 32 then Bug ''shift count out of range''
           else
             let m = push_bit (nat (hi - lo + 1)) 1 - 1
             in ret (Constant (Type_Bits (hi - lo + 1) False) (drop_bit (nat lo) v AND m) 10))
      | _ \<Rightarrow>
          bind_comp (width_bits (type_of e)) (\<lambda>src_width.
            if src_width \<noteq> 0 then
              (if lo \<ge> src_width then mk_constant (Type_Bits (hi - lo + 1) False) 0 10 False
               else
                 let hi = (if hi \<ge> src_width then src_width - 1 else hi)
                 in if lo = 0 \<and> hi = src_width - 1 then ret e else Slice_make_rest e lo hi)
            else Slice_make_rest e lo hi))"

section \<open>The value range of a type\<close>

definition norm :: "nat \<Rightarrow> bool \<Rightarrow> int \<Rightarrow> int" where
  "norm w s x = (if s then (x + 2 ^ (w - 1)) mod 2 ^ w - 2 ^ (w - 1) else x mod 2 ^ w)"

definition in_range :: "nat \<Rightarrow> bool \<Rightarrow> int \<Rightarrow> bool" where
  "in_range w s x \<longleftrightarrow> (if s then 0 < w \<and> - (2 ^ (w - 1)) \<le> x \<and> x < 2 ^ (w - 1) else 0 \<le> x \<and> x < 2 ^ w)"

lemma norm_id [width_simps]: "in_range w s x \<Longrightarrow> norm w s x = x"
proof (cases s)
  case True
  assume "in_range w s x"
  with True have "0 \<le> x + 2 ^ (w - 1)" "x + 2 ^ (w - 1) < 2 ^ w" "0 < w"
    by (auto simp: in_range_def pow2_Suc_pred)
  then show ?thesis using True by (simp add: norm_def)
qed (simp add: norm_def in_range_def)

lemma in_range_norm [width_simps]: "0 < w \<or> \<not> s \<Longrightarrow> in_range w s (norm w s x)"
  using pos_mod_sign [of "2 ^ w" "x + 2 ^ (w - 1)"] pos_mod_bound [of "2 ^ w" "x + 2 ^ (w - 1)"]
  by (auto simp: in_range_def norm_def pow2_Suc_pred)

lemma norm_cong: "x mod 2 ^ w = y mod 2 ^ w \<Longrightarrow> norm w s x = norm w s y"
  by (auto simp: norm_def intro: mod_add_cong)

lemma norm_mod [width_simps]: "norm w s (x mod 2 ^ w) = norm w s x"
  by (rule norm_cong) simp

lemma norm_mod_eq [width_simps]: "norm w s x mod 2 ^ w = x mod 2 ^ w"
proof (cases s)
  case True
  have "norm w s x mod 2 ^ w = ((x + 2 ^ (w - 1)) - 2 ^ (w - 1)) mod 2 ^ w"
    unfolding norm_def using True by (simp add: mod_diff_left_eq)
  then show ?thesis by simp
qed (simp add: norm_def)

text \<open>What \<open>handleOverflow\<close> computes: the value of the type congruent to the given one.\<close>

lemma handleOverflow_result:
  assumes "0 \<le> w" "s \<longrightarrow> 0 < w"
  shows "result_of (handleOverflow (Type_Bits w s) v nw) = Some (norm (nat w) s v)"
proof (cases s)
  case False
  then show ?thesis using assms
    by (simp add: handleOverflow_def Let_def and_mask_bits norm_def linorder_not_less)
next
  case True
  define n where "n = nat w"
  with True assms have n: "0 < n" "nat (w - 1) = n - 1" "nat w = n" by auto
  note pw = pow2_Suc_pred [OF n(1)]
  have m: "v AND mask_bits n = v mod 2 ^ n" by (rule and_mask_bits)
  have b: "0 \<le> v mod 2 ^ n" "v mod 2 ^ n < 2 ^ n" by simp_all
  have pp: "(0::int) < 2 ^ (n - 1)" by simp
  show ?thesis
  proof (cases "- (2 ^ (n - 1)) \<le> v \<and> v < 2 ^ (n - 1)")
    case r: True
    then have "norm n s v = v" using True n by (intro norm_id) (simp add: in_range_def)
    then show ?thesis using r assms True n
      by (auto simp: handleOverflow_def Let_def push_bit_eq_mult)
  next
    case r: False
    define u where "u = v mod 2 ^ n"
    have ub: "0 \<le> u" "u < 2 * 2 ^ (n - 1)" using b pw by (auto simp: u_def)
    have "norm n s v = norm n s u" by (simp add: u_def norm_mod)
    also have "\<dots> = (if u > 2 ^ (n - 1) - 1 then u - 2 ^ n else u)"
    proof -
      have "norm n s (if u > 2 ^ (n - 1) - 1 then u - 2 ^ n else u)
          = (if u > 2 ^ (n - 1) - 1 then u - 2 ^ n else u)"
        using ub pw pp n(1) True by (intro norm_id) (auto simp: in_range_def)
      moreover have "norm n s (if u > 2 ^ (n - 1) - 1 then u - 2 ^ n else u) = norm n s u"
        by (rule norm_cong) simp
      ultimately show ?thesis by simp
    qed
    finally show ?thesis using r assms True n
      by (auto simp: handleOverflow_def Let_def push_bit_eq_mult m u_def)
  qed
qed

lemma mk_constant_result:
  assumes "0 \<le> w" "s \<longrightarrow> 0 < w"
  shows "result_of (mk_constant (Type_Bits w s) v b nw)
       = Some (Constant (Type_Bits w s) (norm (nat w) s v) b)"
  using handleOverflow_result [OF assms, of v nw] by (simp add: mk_constant_def comp_simps)

lemma mk_constant_InfInt [simp]: "mk_constant Type_InfInt v b nw = ret (Constant Type_InfInt v b)"
  by (simp add: mk_constant_def handleOverflow_def)

lemma handleOverflow_silent:
  assumes "handleOverflow (Type_Bits w s) v nw = Ok ds v'" "in_range (nat w) s v"
  shows "ds = []"
  using assms pow2_Suc_pred [of "nat w"]
  by (auto simp: handleOverflow_def Let_def push_bit_eq_mult and_mask_bits in_range_def
      nat_diff_distrib split: if_splits)

lemma mk_constant_OkD:
  assumes "mk_constant ty v b nw = Ok ds e"
  obtains (inf) "ty = Type_InfInt" "e = Constant Type_InfInt v b"
  | (bits) w s where "ty = Type_Bits w s" "0 \<le> w" "s \<longrightarrow> 0 < w"
      "e = Constant (Type_Bits w s) (norm (nat w) s v) b"
proof (cases ty)
  case Type_InfInt
  with assms inf show ?thesis by simp
next
  case (Type_Bits w s)
  with assms have l: "0 \<le> w" "s \<longrightarrow> 0 < w"
    by (auto simp: mk_constant_def handleOverflow_def comp_simps split: if_splits)
  from mk_constant_result [OF l, of v b nw] assms Type_Bits
  have "e = Constant (Type_Bits w s) (norm (nat w) s v) b" by simp
  with bits Type_Bits l show ?thesis by blast
qed (use assms in \<open>auto simp: mk_constant_def handleOverflow_def comp_simps\<close>)

end
