(* ===== verification/P4Sem.thy ===== *)
theory P4Sem
  imports IR_Expr
begin

text \<open>
  The abstract specification of the expression passes: what a P4 expression evaluates to.
  Values carry their width and sign; arithmetic on \<open>bit<w>\<close> and \<open>int<w>\<close> wraps (\<^const>\<open>norm\<close>),
  arithmetic on \<open>int\<close> is exact, and an \<open>int\<close> operand takes the type of a sized one.  The
  evaluation is undefined (\<open>None\<close>) where the language defines no result: a negative or zero
  divisor, a negative shift amount, a slice outside its operand, operands of different types.
  Variables and calls are given by an environment.  Serializable enums and members of list
  initializers are outside the specification.
\<close>

datatype val =
    BitsV nat bool int
  | InfV int
  | BoolV bool
  | StrV string
  | EnumV string string
  | TupleV "val list"
  | StructV "(string \<times> val) list"

record sem_env =
  var_val :: "string \<Rightarrow> val option"
  call_val :: "minst \<Rightarrow> val \<Rightarrow> val list \<Rightarrow> val option"

section \<open>Operations on values\<close>

fun unify_ints :: "val \<Rightarrow> val \<Rightarrow> ((nat \<times> bool) option \<times> int \<times> int) option" where
  "unify_ints (BitsV w s a) (BitsV w' s' b) =
     (if w = w' \<and> s = s' then Some (Some (w, s), a, b) else None)"
| "unify_ints (BitsV w s a) (InfV b) = Some (Some (w, s), a, norm w s b)"
| "unify_ints (InfV a) (BitsV w s b) = Some (Some (w, s), norm w s a, b)"
| "unify_ints (InfV a) (InfV b) = Some (None, a, b)"
| "unify_ints _ _ = None"

fun int_val :: "(nat \<times> bool) option \<Rightarrow> int \<Rightarrow> val" where
  "int_val None x = InfV x"
| "int_val (Some (w, s)) x = BitsV w s (norm w s x)"

definition clamp :: "nat \<Rightarrow> bool \<Rightarrow> int \<Rightarrow> int" where
  "clamp w s x =
     (if s then max (- (2 ^ (w - 1))) (min (2 ^ (w - 1) - 1) x) else max 0 (min (2 ^ w - 1) x))"

fun arith :: "binop \<Rightarrow> int \<Rightarrow> int \<Rightarrow> int option" where
  "arith Add a b = Some (a + b)"
| "arith Sub a b = Some (a - b)"
| "arith Mul a b = Some (a * b)"
| "arith BAnd a b = Some (a AND b)"
| "arith BOr a b = Some (a OR b)"
| "arith BXor a b = Some (a XOR b)"
| "arith Div a b = (if 0 \<le> a \<and> 0 < b then Some (a div b) else None)"
| "arith Mod a b = (if 0 \<le> a \<and> 0 < b then Some (a mod b) else None)"
| "arith _ a b = None"

fun compare_ints :: "binop \<Rightarrow> int \<Rightarrow> int \<Rightarrow> bool option" where
  "compare_ints Lss a b = Some (a < b)"
| "compare_ints Leq a b = Some (a \<le> b)"
| "compare_ints Grt a b = Some (a > b)"
| "compare_ints Geq a b = Some (a \<ge> b)"
| "compare_ints _ a b = None"

fun val_eq :: "val \<Rightarrow> val \<Rightarrow> bool option"
  and vals_eq :: "val list \<Rightarrow> val list \<Rightarrow> bool option" where
  "val_eq (BoolV a) (BoolV b) = Some (a = b)"
| "val_eq (StrV a) (StrV b) = Some (a = b)"
| "val_eq (EnumV t a) (EnumV t' b) = (if t = t' then Some (a = b) else None)"
| "val_eq (TupleV xs) (TupleV ys) = vals_eq xs ys"
| "val_eq x y = map_option (\<lambda>(_, a, b). a = b) (unify_ints x y)"
| "vals_eq [] [] = Some True"
| "vals_eq (x # xs) (y # ys) =
     (case (val_eq x y, vals_eq xs ys) of
        (Some p, Some q) \<Rightarrow> Some (p \<and> q)
      | _ \<Rightarrow> None)"
| "vals_eq _ _ = None"

fun shift_amount :: "val \<Rightarrow> nat option" where
  "shift_amount (InfV n) = (if 0 \<le> n then Some (nat n) else None)"
| "shift_amount (BitsV w s n) = (if 0 \<le> n then Some (nat n) else None)"
| "shift_amount _ = None"

fun shift_val :: "binop \<Rightarrow> val \<Rightarrow> nat \<Rightarrow> val option" where
  "shift_val Shl (BitsV w s a) n = Some (BitsV w s (norm w s (a * 2 ^ n)))"
| "shift_val Shl (InfV a) n = Some (InfV (a * 2 ^ n))"
| "shift_val Shr (BitsV w s a) n = Some (BitsV w s (a div 2 ^ n))"
| "shift_val Shr (InfV a) n = Some (InfV (a div 2 ^ n))"
| "shift_val _ _ _ = None"

fun concat_val :: "val \<Rightarrow> val \<Rightarrow> val option" where
  "concat_val (BitsV w s a) (BitsV w' s' b) =
     Some (BitsV (w + w') s (a * 2 ^ w' + b mod 2 ^ w'))"
| "concat_val (StrV a) (StrV b) = Some (StrV (a @ b))"
| "concat_val _ _ = None"

definition binop_val :: "binop \<Rightarrow> val \<Rightarrow> val \<Rightarrow> val option" where
  "binop_val b x y =
     (if b = Equ then map_option BoolV (val_eq x y)
      else if b = Neq then map_option (\<lambda>p. BoolV (\<not> p)) (val_eq x y)
      else if b \<in> {Shl, Shr} then Option.bind (shift_amount y) (shift_val b x)
      else if b = Concat then concat_val x y
      else case unify_ints x y of
             None \<Rightarrow> None
           | Some (t, p, q) \<Rightarrow>
               if b \<in> {Lss, Leq, Grt, Geq} then map_option BoolV (compare_ints b p q)
               else if b \<in> {AddSat, SubSat} then
                 (case t of
                    None \<Rightarrow> None
                  | Some (w, s) \<Rightarrow>
                      Some (BitsV w s (clamp w s (if b = AddSat then p + q else p - q))))
               else map_option (int_val t) (arith b p q))"

fun unop_val :: "unop \<Rightarrow> val \<Rightarrow> val option" where
  "unop_val Neg (BitsV w s a) = Some (BitsV w s (norm w s (- a)))"
| "unop_val Neg (InfV a) = Some (InfV (- a))"
| "unop_val UPlus (BitsV w s a) = Some (BitsV w s a)"
| "unop_val UPlus (InfV a) = Some (InfV a)"
| "unop_val Cmpl (BitsV w s a) = Some (BitsV w s (norm w s (NOT a)))"
| "unop_val LNot (BoolV b) = Some (BoolV (\<not> b))"
| "unop_val _ _ = None"

fun cast_val :: "p4type \<Rightarrow> val \<Rightarrow> val option" where
  "cast_val (Type_Bits w s) (BitsV w' s' a) =
     (if 0 \<le> w \<and> (s \<longrightarrow> 0 < w) then Some (BitsV (nat w) s (norm (nat w) s a)) else None)"
| "cast_val (Type_Bits w s) (InfV a) =
     (if 0 \<le> w \<and> (s \<longrightarrow> 0 < w) then Some (BitsV (nat w) s (norm (nat w) s a)) else None)"
| "cast_val (Type_Bits w s) (BoolV b) =
     (if w = 1 \<and> \<not> s then Some (BitsV 1 False (if b then 1 else 0)) else None)"
| "cast_val Type_InfInt (BitsV w s a) = Some (InfV a)"
| "cast_val Type_InfInt (InfV a) = Some (InfV a)"
| "cast_val Type_Boolean (BoolV b) = Some (BoolV b)"
| "cast_val Type_Boolean (BitsV w s a) = (if w = 1 \<and> \<not> s then Some (BoolV (a = 1)) else None)"
| "cast_val Type_Boolean (InfV a) = (if a \<in> {0, 1} then Some (BoolV (a = 1)) else None)"
| "cast_val (Type_Struct n fs) v = Some v"
| "cast_val (Type_Header n fs) v = Some v"
| "cast_val (Type_Newtype n t) v = Some v"
| "cast_val _ _ = None"

fun index_val :: "val \<Rightarrow> int option" where
  "index_val (InfV n) = Some n"
| "index_val (BitsV w s n) = Some n"
| "index_val _ = None"

fun bool_val :: "val \<Rightarrow> bool option" where
  "bool_val (BoolV b) = Some b"
| "bool_val _ = None"

lemma bool_val_Some [simp]: "bool_val v = Some b \<longleftrightarrow> v = BoolV b"
  by (cases v) auto

fun field_val :: "string \<Rightarrow> val \<Rightarrow> val option" where
  "field_val m (StructV fs) = map_of fs m"
| "field_val m _ = None"

fun nth_val :: "val \<Rightarrow> int \<Rightarrow> val option" where
  "nth_val (TupleV vs) i = (if 0 \<le> i \<and> nat i < length vs then Some (vs ! nat i) else None)"
| "nth_val _ i = None"

text \<open>\<open>bits_of x l n\<close>: the \<open>n\<close> bits of \<open>x\<close> from position \<open>l\<close> on.\<close>

definition bits_of :: "int \<Rightarrow> nat \<Rightarrow> nat \<Rightarrow> int" where
  "bits_of x l n = (x div 2 ^ l) mod 2 ^ n"

definition slice_val :: "val \<Rightarrow> int \<Rightarrow> int \<Rightarrow> val option" where
  "slice_val v h l =
     (if 0 \<le> l \<and> l \<le> h then
        (case v of
           BitsV w s a \<Rightarrow>
             (if h < int w then Some (BitsV (nat (h - l + 1)) False (bits_of a (nat l) (nat (h - l + 1))))
              else None)
         | InfV a \<Rightarrow> Some (BitsV (nat (h - l + 1)) False (bits_of a (nat l) (nat (h - l + 1))))
         | _ \<Rightarrow> None)
      else None)"

fun all_some :: "'a option list \<Rightarrow> 'a list option" where
  "all_some [] = Some []"
| "all_some (x # xs) =
     (case (x, all_some xs) of (Some y, Some ys) \<Rightarrow> Some (y # ys) | _ \<Rightarrow> None)"

lemma all_some_cong [fundef_cong]: "xs = ys \<Longrightarrow> all_some xs = all_some ys"
  by simp

lemma all_some_map_Some [simp]: "all_some (map Some ys) = Some ys"
  by (induction ys) auto

lemma all_some_Some_iff: "all_some xs = Some ys \<longleftrightarrow> xs = map Some ys"
proof
  show "all_some xs = Some ys \<Longrightarrow> xs = map Some ys"
    by (induction xs arbitrary: ys) (auto split: option.splits)
qed simp

section \<open>Evaluation\<close>

fun eval :: "sem_env \<Rightarrow> expr \<Rightarrow> val option" where
  "eval \<rho> (Constant (Type_Bits w s) v b) =
     (if 0 \<le> w \<and> in_range (nat w) s v then Some (BitsV (nat w) s v) else None)"
| "eval \<rho> (Constant Type_InfInt v b) = Some (InfV v)"
| "eval \<rho> (Constant t v b) = None"
| "eval \<rho> (BoolLiteral b) = Some (BoolV b)"
| "eval \<rho> (StringLiteral s) = Some (StrV s)"
| "eval \<rho> (PathExpression t p) = var_val \<rho> p"
| "eval \<rho> (TypeNameExpression t) = None"
| "eval \<rho> (ListExpression t es) = map_option TupleV (all_some (map (eval \<rho>) es))"
| "eval \<rho> (StructExpression t fs) =
     map_option (\<lambda>vs. StructV (zip (map fst fs) vs)) (all_some (map (\<lambda>f. eval \<rho> (snd f)) fs))"
| "eval \<rho> (HeaderStackExpression t es) = map_option TupleV (all_some (map (eval \<rho>) es))"
| "eval \<rho> (InvalidHeader t) = None"
| "eval \<rho> (Unary u t e) = Option.bind (eval \<rho> e) (unop_val u)"
| "eval \<rho> (Cast t e) = Option.bind (eval \<rho> e) (cast_val t)"
| "eval \<rho> (Member t (TypeNameExpression t') m) =
     (case t of Type_Enum n ms \<Rightarrow> Some (EnumV n m) | _ \<Rightarrow> None)"
| "eval \<rho> (Member t e m) = Option.bind (eval \<rho> e) (field_val m)"
| "eval \<rho> (Binary LAnd t l r) =
     Option.bind (Option.bind (eval \<rho> l) bool_val) (\<lambda>p.
       if p then map_option BoolV (Option.bind (eval \<rho> r) bool_val) else Some (BoolV False))"
| "eval \<rho> (Binary LOr t l r) =
     Option.bind (Option.bind (eval \<rho> l) bool_val) (\<lambda>p.
       if p then Some (BoolV True) else map_option BoolV (Option.bind (eval \<rho> r) bool_val))"
| "eval \<rho> (Binary b t l r) =
     Option.bind (eval \<rho> l) (\<lambda>x. Option.bind (eval \<rho> r) (\<lambda>y. binop_val b x y))"
| "eval \<rho> (ArrayIndex t l r) =
     Option.bind (eval \<rho> l) (\<lambda>v. Option.bind (Option.bind (eval \<rho> r) index_val) (nth_val v))"
| "eval \<rho> (Range t l r) = None"
| "eval \<rho> (Mask t l r) = None"
| "eval \<rho> (Mux t c a b) =
     Option.bind (Option.bind (eval \<rho> c) bool_val) (\<lambda>p. if p then eval \<rho> a else eval \<rho> b)"
| "eval \<rho> (Slice t e h l) =
     Option.bind (eval \<rho> e) (\<lambda>v. Option.bind (Option.bind (eval \<rho> h) index_val) (\<lambda>hi.
       Option.bind (Option.bind (eval \<rho> l) index_val) (\<lambda>lo. slice_val v hi lo)))"
| "eval \<rho> (PlusSlice t e l w) =
     Option.bind (eval \<rho> e) (\<lambda>v. Option.bind (Option.bind (eval \<rho> l) index_val) (\<lambda>lo.
       Option.bind (Option.bind (eval \<rho> w) index_val) (\<lambda>n. slice_val v (lo + n - 1) lo)))"
| "eval \<rho> (MethodCallExpression t m e as) =
     Option.bind (eval \<rho> e) (\<lambda>v. Option.bind (all_some (map (eval \<rho>) as)) (call_val \<rho> m v))"
| "eval \<rho> (ConstructorCallExpression t as) = None"
| "eval \<rho> (DefaultExpression t) = None"

lemma eval_Binary_strict:
  "b \<noteq> LAnd \<Longrightarrow> b \<noteq> LOr \<Longrightarrow> eval \<rho> (Binary b t l r) =
     Option.bind (eval \<rho> l) (\<lambda>x. Option.bind (eval \<rho> r) (\<lambda>y. binop_val b x y))"
  by (cases b) auto

lemma eval_Member_field:
  "(\<And>t'. e \<noteq> TypeNameExpression t') \<Longrightarrow>
     eval \<rho> (Member t e m) = Option.bind (eval \<rho> e) (field_val m)"
  by (cases e) auto

lemma eval_Constant_iff:
  "eval \<rho> (Constant t v b) = Some x \<longleftrightarrow>
     (t = Type_InfInt \<and> x = InfV v) \<or>
     (\<exists>w s. t = Type_Bits w s \<and> 0 \<le> w \<and> in_range (nat w) s v \<and> x = BitsV (nat w) s v)"
  by (cases t) auto

text \<open>Values in the range of their type; an environment of such values.\<close>

fun wf_val :: "val \<Rightarrow> bool" where
  "wf_val (BitsV w s a) = in_range w s a"
| "wf_val (TupleV vs) = list_all wf_val vs"
| "wf_val (StructV fs) = list_all (\<lambda>f. wf_val (snd f)) fs"
| "wf_val v = True"

definition wf_env :: "sem_env \<Rightarrow> bool" where
  "wf_env \<rho> \<longleftrightarrow>
     (\<forall>x v. var_val \<rho> x = Some v \<longrightarrow> wf_val v) \<and>
     (\<forall>m v as r. call_val \<rho> m v as = Some r \<longrightarrow> wf_val r)"

end
