(* ===== verification/ConstFold.thy ===== *)
theory ConstFold
  imports P4Sem
begin

text \<open>
  The constant folder of the front end (frontends/common/constantFolding.{h,cpp}): the class
  \<open>DoConstantFolding\<close>, a Transform that visits the children of an expression and then replaces
  the node by a constant where it can.  \<open>EnumInstance::resolve\<close> (frontends/p4/enumInstance.cpp)
  and \<open>Type_Bits::get\<close> (ir/type.cpp) are the parts of the compiler it calls.

  The pass keeps a reference map, the switch \<open>typesKnown\<close> (there is a type map), the switch
  \<open>warnings\<close>, a policy, the map \<open>constants\<close> and the flag \<open>assignmentTarget\<close>.  They are the
  fields of \<open>cf_env\<close>; the flag is an argument of the traversal.
\<close>

text \<open>\<open>errorCount\<close> counts the errors among the diagnostics recorded so far.\<close>

definition errorCount :: "diag list \<Rightarrow> nat" where
  "errorCount ds = length (filter (\<lambda>d. case d of Error e \<Rightarrow> True | Warning w \<Rightarrow> False) ds)"

lemma errorCount_Nil [simp]: "errorCount [] = 0"
  by (simp add: errorCount_def)

lemma errorCount_append [simp]: "errorCount (ds @ ds') = errorCount ds + errorCount ds'"
  by (simp add: errorCount_def)

section \<open>State of the pass\<close>

text \<open>
  What a path may resolve to; a constant declaration is identified by a number.  The folder is its own
  reference map (a \<open>ResolutionContext\<close>), as in each pass list that runs it with one: a name that is
  declared in no enclosing scope is reported as an error (\<open>resolveUnique\<close>, resolveReferences.cpp).
\<close>

datatype decl =
    Declaration_Constant nat p4type expr
  | Declaration_ID "p4type option"
  | P4Table string
  | Declaration_Other string

record cf_env =
  refMap :: "(string \<Rightarrow> decl option) option"
  typesKnown :: bool
  warnings :: bool
  hook :: "expr \<Rightarrow> expr option"
  constants :: "nat \<Rightarrow> expr option"
  maximumWidth :: int

definition Type_Bits_get :: "cf_env \<Rightarrow> int \<Rightarrow> bool \<Rightarrow> p4type comp" where
  "Type_Bits_get cf width isSigned =
     Ok (if width > maximumWidth cf then [Error ERR_UNSUPPORTED] else []) (Type_Bits width isSigned)"

section \<open>Recognizing constants\<close>

fun clone_Constant :: "expr \<Rightarrow> expr comp" where
  "clone_Constant (Constant t v b) =
     (case t of
        Type_Bits w s \<Rightarrow> mk_constant t v b False
      | Type_InfInt \<Rightarrow> mk_constant Type_InfInt v b False
      | _ \<Rightarrow> Bug ''unexpected type for constant'')"
| "clone_Constant e = ret e"

function CloneConstants :: "expr \<Rightarrow> expr comp" where
  "CloneConstants e = bind_comp (visit_children CloneConstants e) clone_Constant"
  by auto
termination by (relation "measure size") (auto simp: size_children)

declare CloneConstants.simps [simp del]

datatype enum_instance =
    SimpleEnumInstance p4type string
  | SerEnumInstance p4type string expr

fun enum_type :: "enum_instance \<Rightarrow> p4type" where
  "enum_type (SimpleEnumInstance t n) = t"
| "enum_type (SerEnumInstance t n v) = t"

fun enum_name :: "enum_instance \<Rightarrow> string" where
  "enum_name (SimpleEnumInstance t n) = n"
| "enum_name (SerEnumInstance t n v) = n"

fun EnumInstance_resolve :: "expr \<Rightarrow> enum_instance option comp" where
  "EnumInstance_resolve (Member t (TypeNameExpression t') m) =
     (case t of
        Type_Enum n ms \<Rightarrow> ret (Some (SimpleEnumInstance t m))
      | Type_SerEnum n ut ms \<Rightarrow>
          (case map_of ms m of
             None \<Rightarrow> Bug ''CHECK_NULL(decl)''
           | Some (v, b) \<Rightarrow> ret (Some (SerEnumInstance t m (Constant ut v b))))
      | _ \<Rightarrow> ret None)"
| "EnumInstance_resolve e = ret None"

text \<open>
  \<open>getConstant\<close> returns the expression itself when it is a compile-time constant, and the null
  pointer otherwise.  A reference map is needed once types are known: without one the code
  dereferences a null pointer.
\<close>

fun getConstant :: "cf_env \<Rightarrow> expr \<Rightarrow> expr option comp"
  and getConstants :: "cf_env \<Rightarrow> expr list \<Rightarrow> bool comp"
  and getConstant_fields :: "cf_env \<Rightarrow> (string \<times> expr) list \<Rightarrow> bool comp" where
  "getConstant cf (Constant t v b) = ret (Some (Constant t v b))"
| "getConstant cf (BoolLiteral b) = ret (Some (BoolLiteral b))"
| "getConstant cf (StringLiteral s) = ret (Some (StringLiteral s))"
| "getConstant cf (ListExpression t es) =
     bind_comp (getConstants cf es) (\<lambda>ok. ret (if ok then Some (ListExpression t es) else None))"
| "getConstant cf (StructExpression t fs) =
     bind_comp (getConstant_fields cf fs)
       (\<lambda>ok. ret (if ok then Some (StructExpression t fs) else None))"
| "getConstant cf (Cast t e) =
     bind_comp (getConstant cf e) (\<lambda>c.
       if c \<noteq> None then bind_comp (CloneConstants (Cast t e)) (\<lambda>c'. ret (Some c')) else ret None)"
| "getConstant cf (Member t e m) =
     (if typesKnown cf then
        bind_comp (EnumInstance_resolve (Member t e m)) (\<lambda>ei.
          ret (if ei \<noteq> None then Some (Member t e m) else None))
      else ret None)"
| "getConstant cf (PathExpression t p) =
     (if typesKnown cf then
        (case refMap cf of
           None \<Rightarrow> Bug ''null reference map''
         | Some rm \<Rightarrow>
             (case rm p of
                None \<Rightarrow> Bug ''Cannot find declaration''
              | Some (Declaration_ID (Some t')) \<Rightarrow>
                  ret (if t' = Type_Error \<or> t' = Type_MatchKind then Some (PathExpression t p) else None)
              | Some d \<Rightarrow> ret None))
      else ret None)"
| "getConstant cf e = ret None"
| "getConstants cf [] = ret True"
| "getConstants cf (e # es) =
     bind_comp (getConstant cf e) (\<lambda>c. if c = None then ret False else getConstants cf es)"
| "getConstant_fields cf [] = ret True"
| "getConstant_fields cf ((f, e) # fs) =
     bind_comp (getConstant cf e) (\<lambda>c. if c = None then ret False else getConstant_fields cf fs)"

lemma CloneConstants_Cast: "CloneConstants (Cast t e) = Ok ds e' \<Longrightarrow> \<exists>x. e' = Cast t x"
  by (subst (asm) CloneConstants.simps) (auto simp: comp_simps visit_children_def)

lemma getConstant_cases:
  assumes "getConstant cf e = Ok ds (Some c)"
  shows "c = e \<or> (\<exists>t x y. e = Cast t x \<and> c = Cast t y)"
  using assms
  by (cases e) (auto simp: comp_simps split: if_splits option.splits decl.splits dest: CloneConstants_Cast)

lemma getConstant_ListExpression:
  "getConstant cf e = Ok ds (Some (ListExpression t es)) \<Longrightarrow> e = ListExpression t es"
  by (drule getConstant_cases) auto

section \<open>Unary operators\<close>

definition fold_Cmpl :: "cf_env \<Rightarrow> p4type \<Rightarrow> expr \<Rightarrow> expr comp" where
  "fold_Cmpl cf t e =
     bind_comp (getConstant cf e) (\<lambda>c.
       case c of None \<Rightarrow> ret (Unary Cmpl t e)
       | Some op \<Rightarrow>
         case to_Constant op of None \<Rightarrow> report (Error ERR_EXPECTED) (Unary Cmpl t e)
         | Some (ct, v, b) \<Rightarrow>
           (if ct = Type_InfInt then report (Error ERR_INVALID) (Unary Cmpl t e)
            else if \<not> is_Type_Bits ct then ret (Unary Cmpl t e)
            else mk_constant ct (NOT v) b True))"

definition fold_Neg :: "cf_env \<Rightarrow> p4type \<Rightarrow> expr \<Rightarrow> expr comp" where
  "fold_Neg cf t e =
     bind_comp (getConstant cf e) (\<lambda>c.
       case c of None \<Rightarrow> ret (Unary Neg t e)
       | Some op \<Rightarrow>
         case to_Constant op of None \<Rightarrow> report (Error ERR_EXPECTED) (Unary Neg t e)
         | Some (ct, v, b) \<Rightarrow>
           (if ct = Type_InfInt then mk_constant ct (- v) b False
            else if \<not> is_Type_Bits ct then ret (Unary Neg t e)
            else mk_constant ct (- v) b True))"

definition fold_UPlus :: "cf_env \<Rightarrow> p4type \<Rightarrow> expr \<Rightarrow> expr comp" where
  "fold_UPlus cf t e =
     bind_comp (getConstant cf e) (\<lambda>c.
       case c of None \<Rightarrow> ret (Unary UPlus t e)
       | Some op \<Rightarrow>
         case to_Constant op of None \<Rightarrow> report (Error ERR_EXPECTED) (Unary UPlus t e)
         | Some (ct, v, b) \<Rightarrow>
           ret (Constant ct v b))"

definition fold_LNot :: "cf_env \<Rightarrow> p4type \<Rightarrow> expr \<Rightarrow> expr comp" where
  "fold_LNot cf t e =
     bind_comp (getConstant cf e) (\<lambda>c.
       case c of None \<Rightarrow> ret (Unary LNot t e)
       | Some op \<Rightarrow>
         case to_BoolLiteral op of None \<Rightarrow> report (Error ERR_EXPECTED) (Unary LNot t e)
         | Some b \<Rightarrow> ret (BoolLiteral (\<not> b)))"

section \<open>Binary operators\<close>

text \<open>\<open>cast\<close>: the constant in another type, which reports a value that does not fit.\<close>

definition cast_constant :: "int \<Rightarrow> nat \<Rightarrow> p4type \<Rightarrow> (int \<times> nat) comp" where
  "cast_constant v base ty = bind_comp (handleOverflow ty v False) (\<lambda>v'. ret (v', base))"

text \<open>The functions the postorder methods pass to \<open>binary\<close>: comparisons give 0 or 1, division
  and modulo report the operands the language excludes and give 0.\<close>

fun fold_func :: "binop \<Rightarrow> int \<Rightarrow> int \<Rightarrow> int comp" where
  "fold_func Add a b = ret (a + b)"
| "fold_func AddSat a b = ret (a + b)"
| "fold_func Sub a b = ret (a - b)"
| "fold_func SubSat a b = ret (a - b)"
| "fold_func Mul a b = ret (a * b)"
| "fold_func BXor a b = ret (a XOR b)"
| "fold_func BAnd a b = ret (a AND b)"
| "fold_func BOr a b = ret (a OR b)"
| "fold_func Lss a b = ret (if a < b then 1 else 0)"
| "fold_func Grt a b = ret (if a > b then 1 else 0)"
| "fold_func Leq a b = ret (if a \<le> b then 1 else 0)"
| "fold_func Geq a b = ret (if a \<ge> b then 1 else 0)"
| "fold_func Equ a b = ret (if a = b then 1 else 0)"
| "fold_func Neq a b = ret (if a \<noteq> b then 1 else 0)"
| "fold_func Div a b =
     (if a < 0 \<or> b < 0 then report (Error ERR_INVALID) 0
      else if b = 0 then report (Error ERR_INVALID) 0 else ret (a div b))"
| "fold_func Mod a b =
     (if a < 0 \<or> b < 0 then report (Error ERR_INVALID) 0
      else if b = 0 then report (Error ERR_INVALID) 0 else ret (a mod b))"
| "fold_func _ a b = Bug ''not a folded operator''"

text \<open>The common type of the operands of \<open>binary\<close>: the values, the type and the base of the
  result.  An operand of arbitrary precision is cast to the type of the other one.\<close>

datatype operands = NotFolded | Operands p4type int int nat

definition cast_operands :: "p4type \<Rightarrow> int \<Rightarrow> nat \<Rightarrow> p4type \<Rightarrow> int \<Rightarrow> operands comp" where
  "cast_operands lt l lbase rt r =
     (let lunk = (lt = Type_InfInt); runk = (rt = Type_InfInt)
      in if \<not> lunk \<and> \<not> is_Type_Bits lt then ret NotFolded
         else if \<not> runk \<and> \<not> is_Type_Bits rt then ret NotFolded
         else if \<not> lunk \<and> \<not> runk then
           (if lt \<noteq> rt then report (Error ERR_INVALID) NotFolded else ret (Operands rt l r lbase))
         else if lunk \<and> runk then ret (Operands lt l r lbase)
         else if lunk then
           bind_comp (cast_constant l lbase rt) (\<lambda>(l', b). ret (Operands rt l' r b))
         else
           bind_comp (cast_constant r lbase lt) (\<lambda>(r', b). ret (Operands lt l r' lbase)))"

definition saturate :: "p4type \<Rightarrow> int \<Rightarrow> int comp" where
  "saturate resultType value =
     (case to_Type_Bits resultType of
        None \<Rightarrow> report (Error ERR_INVALID) value
      | Some (w, isSigned) \<Rightarrow>
          (if w < 0 \<or> (isSigned \<and> w = 0) then Bug ''negative shift''
           else
             let limit = (if isSigned then push_bit (nat (w - 1)) 1 else push_bit (nat w) 1);
                 value = (if isSigned then (if value < - limit then - limit else value)
                          else (if value < 0 then 0 else value))
             in ret (if value \<ge> limit then limit - 1 else value)))"

definition binary :: "cf_env \<Rightarrow> binop \<Rightarrow> p4type \<Rightarrow> expr \<Rightarrow> expr \<Rightarrow> bool \<Rightarrow> expr comp" where
  "binary cf b t l r saturating =
     (let e = Binary b t l r
      in bind_comp (getConstant cf l) (\<lambda>eleft. bind_comp (getConstant cf r) (\<lambda>eright.
       if eleft = None \<or> eright = None then ret e
       else
         case to_Constant (the eleft) of None \<Rightarrow> ret e
         | Some (lt, lv, lb) \<Rightarrow>
         case to_Constant (the eright) of None \<Rightarrow> ret e
         | Some (rt, rv, rb) \<Rightarrow>
           bind_comp (cast_operands lt lv lb rt rv) (\<lambda>ops.
             case ops of
               NotFolded \<Rightarrow> ret e
             | Operands resultType lv' rv' base \<Rightarrow>
                 bind_comp (fold_func b lv' rv') (\<lambda>value.
                 bind_comp (if saturating then saturate resultType value else ret value) (\<lambda>value.
                   if is_relation b then ret (BoolLiteral (value \<noteq> 0))
                   else mk_constant resultType value base True))))))"

text \<open>
  \<open>compare\<close> handles \<open>==\<close> and \<open>!=\<close>.  Lists are compared component by component until one of
  them decides; \<open>compare_lists\<close> is that loop, with \<open>None\<close> when a component is not a literal.
\<close>

function compare :: "cf_env \<Rightarrow> binop \<Rightarrow> p4type \<Rightarrow> expr \<Rightarrow> expr \<Rightarrow> expr comp"
  and compare_lists :: "cf_env \<Rightarrow> binop \<Rightarrow> expr list \<Rightarrow> expr list \<Rightarrow> bool option comp" where
  "compare cf b t l r =
     bind_comp (getConstant cf l) (\<lambda>eleft. bind_comp (getConstant cf r) (\<lambda>eright.
       if eleft = None \<or> eright = None then ret (Binary b t l r)
       else if b \<notin> {Equ, Neq} then Bug ''compare only supports IR::Eq or IR::Neq operators''
       else
         let eqTest = (b = Equ)
         in case to_BoolLiteral (the eleft) of
              Some x \<Rightarrow>
                (case to_BoolLiteral (the eright) of
                   None \<Rightarrow> report (Error ERR_INVALID) (Binary b t l r)
                 | Some y \<Rightarrow> ret (BoolLiteral ((x = y) = eqTest)))
            | None \<Rightarrow>
            case to_StringLiteral (the eleft) of
              Some x \<Rightarrow>
                (case to_StringLiteral (the eright) of
                   None \<Rightarrow> report (Error ERR_INVALID) (Binary b t l r)
                 | Some y \<Rightarrow> ret (BoolLiteral ((x = y) = eqTest)))
            | None \<Rightarrow>
              if \<not> typesKnown cf then binary cf b t l r False
              else bind_comp (EnumInstance_resolve (the eleft)) (\<lambda>le.
                   bind_comp (EnumInstance_resolve (the eright)) (\<lambda>re.
                     if le \<noteq> None \<and> re \<noteq> None then
                       (if enum_type (the le) \<noteq> enum_type (the re)
                        then Bug ''different enum types in comparison''
                        else ret (BoolLiteral ((enum_name (the le) = enum_name (the re)) = eqTest)))
                     else case (to_ListExpression (the eleft), to_ListExpression (the eright)) of
                            (Some (lt, ls), Some (rt, rs)) \<Rightarrow>
                              (if length ls \<noteq> length rs
                               then report (Error ERR_INVALID) (Binary b t l r)
                               else bind_comp (compare_lists cf b ls rs) (\<lambda>res.
                                 case res of
                                   None \<Rightarrow> ret (Binary b t l r)
                                 | Some x \<Rightarrow> ret (BoolLiteral x)))
                          | _ \<Rightarrow> binary cf b t l r False))))"
| "compare_lists cf b (x # xs) (y # ys) =
     bind_comp (compare cf b Type_Boolean x y) (\<lambda>cmp.
       case to_BoolLiteral cmp of
         None \<Rightarrow> ret None
       | Some v \<Rightarrow> (if v \<noteq> (b = Equ) then ret (Some v) else compare_lists cf b xs ys))"
| "compare_lists cf b [] ys = ret (Some (b = Equ))"
| "compare_lists cf b (x # xs) [] = ret (Some (b = Equ))"
  by pat_completeness auto
termination
  by (relation "measure (\<lambda>a. case a of
        Inl (cf, b, t, l, r) \<Rightarrow> 2 * size l | Inr (cf, b, xs, ys) \<Rightarrow> Suc (2 * size_list size xs))")
    (auto simp: eq_commute [of "Some a" "to_ListExpression e" for a e] dest!: getConstant_ListExpression)

declare compare.simps [simp del]

definition fold_LAnd :: "cf_env \<Rightarrow> p4type \<Rightarrow> expr \<Rightarrow> expr \<Rightarrow> expr comp" where
  "fold_LAnd cf t l r =
     bind_comp (getConstant cf l) (\<lambda>c.
       case c of None \<Rightarrow> ret (Binary LAnd t l r)
       | Some left \<Rightarrow>
         case to_BoolLiteral left of None \<Rightarrow> report (Error ERR_EXPECTED) (Binary LAnd t l r)
         | Some v \<Rightarrow> ret (if v then r else BoolLiteral False))"

definition fold_LOr :: "cf_env \<Rightarrow> p4type \<Rightarrow> expr \<Rightarrow> expr \<Rightarrow> expr comp" where
  "fold_LOr cf t l r =
     bind_comp (getConstant cf l) (\<lambda>c.
       case c of None \<Rightarrow> ret (Binary LOr t l r)
       | Some left \<Rightarrow>
         case to_BoolLiteral left of None \<Rightarrow> report (Error ERR_EXPECTED) (Binary LOr t l r)
         | Some v \<Rightarrow> ret (if \<not> v then r else BoolLiteral True))"

definition overflowWidth :: "cf_env \<Rightarrow> int \<Rightarrow> bool comp" where
  "overflowWidth cf width =
     (if width > maximumWidth cf then report (Error ERR_UNSUPPORTED) True else ret False)"

text \<open>
  A negative count of \<open>Util::shift_left\<close> cannot occur here: the amount is an \<open>unsigned\<close> made
  from a non-negative \<open>int\<close>.
\<close>

definition shift_amount_of :: "cf_env \<Rightarrow> expr \<Rightarrow> int option comp" where
  "shift_amount_of cf right =
     (case to_Constant right of
        Some (ct, v, bs) \<Rightarrow> ret (Some v)
      | None \<Rightarrow>
          if typesKnown cf then
            bind_comp (EnumInstance_resolve right) (\<lambda>ei.
              case ei of
                Some (SerEnumInstance et n x) \<Rightarrow>
                  (case to_Constant x of
                     Some (ct, v, bs) \<Rightarrow> ret (Some v)
                   | None \<Rightarrow> Bug ''checkedTo<IR::Constant>'')
              | _ \<Rightarrow> ret None)
          else ret None)"

definition shift_constant :: "cf_env \<Rightarrow> binop \<Rightarrow> p4type \<Rightarrow> int \<Rightarrow> nat \<Rightarrow> int \<Rightarrow> expr comp" where
  "shift_constant cf b lt value base sh =
     (let value = (if b = Shl then shift_left value (nat sh) else shift_right value (nat sh))
      in case to_Type_Bits lt of
           Some (w, isSigned) \<Rightarrow>
             (if w \<le> sh then
                bind_comp (Ok (if warnings cf then [Warning WARN_OVERFLOW] else []) ()) (\<lambda>_.
                  mk_constant lt (if b = Shr \<and> isSigned \<and> value < 0 then - 1 else 0) base False)
              else mk_constant lt value base False)
         | None \<Rightarrow> mk_constant lt value base False)"

definition shift :: "cf_env \<Rightarrow> binop \<Rightarrow> p4type \<Rightarrow> expr \<Rightarrow> expr \<Rightarrow> expr comp" where
  "shift cf b t l r =
     (let e = Binary b t l r
      in bind_comp (getConstant cf r) (\<lambda>right.
        case right of None \<Rightarrow> ret e
        | Some right' \<Rightarrow>
          bind_comp (shift_amount_of cf right') (\<lambda>shift_amt.
            case shift_amt of None \<Rightarrow> ret e
            | Some amt \<Rightarrow>
              if amt < 0 then report (Error ERR_INVALID) e
              else if amt = 0 then ret l
              else bind_comp (getConstant cf l) (\<lambda>left.
                case left of None \<Rightarrow> ret e
                | Some left' \<Rightarrow>
                  case to_Constant left' of None \<Rightarrow> report (Error ERR_EXPECTED) e
                  | Some (lt, value, base) \<Rightarrow>
                    bind_comp (asInt amt) (\<lambda>sh.
                    bind_comp (overflowWidth cf sh) (\<lambda>over.
                      if over then ret e else shift_constant cf b lt value base sh))))))"

definition fold_Concat :: "cf_env \<Rightarrow> p4type \<Rightarrow> expr \<Rightarrow> expr \<Rightarrow> expr comp" where
  "fold_Concat cf t l r =
     (let e = Binary Concat t l r
      in bind_comp (getConstant cf l) (\<lambda>eleft. bind_comp (getConstant cf r) (\<lambda>eright.
        if eleft = None \<or> eright = None then ret e
        else case (to_StringLiteral (the eleft), to_StringLiteral (the eright)) of
          (Some x, Some y) \<Rightarrow> ret (StringLiteral (x @ y))
        | _ \<Rightarrow>
          case (to_Constant (the eleft), to_Constant (the eright)) of
            (Some (lt, lv, lb), Some (rt, rv, rb)) \<Rightarrow>
            (case (to_Type_Bits lt, to_Type_Bits rt) of
               (Some (wl, sl), Some (wr, sr)) \<Rightarrow>
                 bind_comp (if sr then handleOverflow (Type_Bits wr False) rv True else ret rv) (\<lambda>rvalue.
                 bind_comp (Type_Bits_get cf (wl + wr) sl) (\<lambda>resultType.
                 bind_comp (overflowWidth cf (wl + wr)) (\<lambda>over.
                   if over then ret e
                   else mk_constant resultType (push_bit (nat wr) lv OR rvalue) lb False)))
             | _ \<Rightarrow> report (Error ERR_INVALID) e)
          | _ \<Rightarrow> ret e)))"

definition fold_Binary :: "cf_env \<Rightarrow> binop \<Rightarrow> p4type \<Rightarrow> expr \<Rightarrow> expr \<Rightarrow> expr comp" where
  "fold_Binary cf b t l r =
     (case b of
        LAnd \<Rightarrow> fold_LAnd cf t l r
      | LOr \<Rightarrow> fold_LOr cf t l r
      | Equ \<Rightarrow> compare cf b t l r
      | Neq \<Rightarrow> compare cf b t l r
      | Shl \<Rightarrow> shift cf b t l r
      | Shr \<Rightarrow> shift cf b t l r
      | Concat \<Rightarrow> fold_Concat cf t l r
      | AddSat \<Rightarrow> binary cf b t l r True
      | SubSat \<Rightarrow> binary cf b t l r True
      | _ \<Rightarrow> binary cf b t l r False)"

section \<open>Slices, members, casts, conditional expressions\<close>

definition slice_constant :: "cf_env \<Rightarrow> int \<Rightarrow> nat \<Rightarrow> int \<Rightarrow> int \<Rightarrow> expr comp" where
  "slice_constant cf cv cb l w =
     (let value = drop_bit (nat l) cv;
          mask = push_bit (nat w) 1 - 1
      in bind_comp (Type_Bits_get cf w False) (\<lambda>resultType.
           mk_constant resultType (value AND mask) cb True))"

definition fold_Slice :: "cf_env \<Rightarrow> p4type \<Rightarrow> expr \<Rightarrow> expr \<Rightarrow> expr \<Rightarrow> expr comp" where
  "fold_Slice cf t e0 e1 e2 =
     (let e = Slice t e0 e1 e2
      in bind_comp (getConstant cf e1) (\<lambda>msb. bind_comp (getConstant cf e2) (\<lambda>lsb.
        if msb = None \<or> lsb = None then
          Ok (if typesKnown cf then [Error ERR_EXPECTED] else []) e
        else bind_comp (getConstant cf e0) (\<lambda>base.
          case base of None \<Rightarrow> ret e
          | Some base' \<Rightarrow>
            case (to_Constant (the msb), to_Constant (the lsb), to_Constant base') of
              (Some (mt, mv, mb), Some (lt, lv, lb), Some (ct, cv, cb)) \<Rightarrow>
                bind_comp (asInt mv) (\<lambda>m. bind_comp (asInt lv) (\<lambda>l.
                  if m < l then report (Error ERR_EXPECTED) e
                  else if l < 0 then report (Error ERR_EXPECTED) e
                  else bind_comp (overflowWidth cf m) (\<lambda>om.
                    if om then ret e
                    else bind_comp (overflowWidth cf l) (\<lambda>ol.
                      if ol then ret e else slice_constant cf cv cb l (m - l + 1)))))
            | _ \<Rightarrow> report (Error ERR_EXPECTED) e))))"

text \<open>The sum \<open>l + w\<close> of two \<open>int\<close>s: beyond the range of \<open>int\<close> it has no defined value.\<close>

definition fold_PlusSlice :: "cf_env \<Rightarrow> p4type \<Rightarrow> expr \<Rightarrow> expr \<Rightarrow> expr \<Rightarrow> expr comp" where
  "fold_PlusSlice cf t e0 e1 e2 =
     (let e = PlusSlice t e0 e1 e2
      in bind_comp (getConstant cf e0) (\<lambda>base. bind_comp (getConstant cf e1) (\<lambda>lsb.
         bind_comp (getConstant cf e2) (\<lambda>width.
        if width = None then Ok (if typesKnown cf then [Error ERR_EXPECTED] else []) e
        else if base = None \<or> lsb = None then ret e
        else
          case (to_Constant (the lsb), to_Constant (the width), to_Constant (the base)) of
            (Some (lt, lv, lb), Some (wt, wv, wb), Some (ct, cv, cb)) \<Rightarrow>
               bind_comp (asInt wv) (\<lambda>w. bind_comp (asInt lv) (\<lambda>l.
                 if l < 0 then report (Error ERR_EXPECTED) e
                 else bind_comp (overflowWidth cf l) (\<lambda>ol.
                   if ol then ret e
                   else if \<not> fitsInt (l + w) then Bug ''integer overflow''
                   else bind_comp (overflowWidth cf (l + w)) (\<lambda>ow.
                     if ow then ret e
                     else if w < 0 then Bug ''negative shift''
                     else slice_constant cf cv cb l w))))
          | _ \<Rightarrow> report (Error ERR_EXPECTED) e))))"

text \<open>The fields of a struct-like type, and the position of a field in it.\<close>

fun struct_fields :: "p4type \<Rightarrow> (string \<times> p4type) list option" where
  "struct_fields (Type_Struct n fs) = Some fs"
| "struct_fields (Type_Header n fs) = Some fs"
| "struct_fields t = None"

fun field_index :: "string \<Rightarrow> (string \<times> p4type) list \<Rightarrow> nat option" where
  "field_index m [] = None"
| "field_index m ((f, t) # fs) = (if f = m then Some 0 else map_option Suc (field_index m fs))"

fun is_Header :: "p4type \<Rightarrow> bool" where
  "is_Header (Type_Header n fs) = True"
| "is_Header t = False"

fun is_InvalidHeader :: "expr \<Rightarrow> bool" where
  "is_InvalidHeader (InvalidHeader t) = True"
| "is_InvalidHeader e = False"

text \<open>\<open>ty\<close> is the type the type map gives to the unfolded operand of the original node.\<close>

definition member_of_constant :: "p4type \<Rightarrow> p4type \<Rightarrow> expr \<Rightarrow> string \<Rightarrow> expr \<Rightarrow> expr comp" where
  "member_of_constant ty t e m x =
     (case struct_fields ty of
        None \<Rightarrow> Bug ''Expected a struct type''
      | Some flds \<Rightarrow>
          case to_ListExpression x of
            Some (lt, es) \<Rightarrow>
              (case field_index m flds of
                 None \<Rightarrow> Bug ''Could not find field''
               | Some i \<Rightarrow>
                   (if i < length es then CloneConstants (es ! i) else Bug ''at: out of range''))
          | None \<Rightarrow>
            case to_StructExpression x of
              Some (st, fs) \<Rightarrow>
                (if is_Header ty \<and> m = ''isValid'' then ret (Member t e m)
                 else case map_of fs m of
                        None \<Rightarrow> Bug ''Could not find field in initializer''
                      | Some v \<Rightarrow> CloneConstants v)
            | None \<Rightarrow>
                (if is_InvalidHeader x \<and> m = ''isValid'' then ret (Member t e m)
                 else Bug ''Unexpected initializer''))"

definition fold_Member :: "cf_env \<Rightarrow> p4type \<Rightarrow> p4type \<Rightarrow> expr \<Rightarrow> string \<Rightarrow> expr comp" where
  "fold_Member cf ty t e m =
     (if \<not> typesKnown cf then ret (Member t e m)
      else case (ty, m = ''size'') of
        (Type_Stack et n, True) \<Rightarrow> mk_constant t n 10 False
      | _ \<Rightarrow>
        bind_comp (getConstant cf e) (\<lambda>c.
          case c of
            None \<Rightarrow> ret (Member t e m)
          | Some x \<Rightarrow> member_of_constant ty t e m x))"

definition cast_to_bits :: "p4type \<Rightarrow> int \<Rightarrow> bool \<Rightarrow> expr \<Rightarrow> expr \<Rightarrow> expr comp" where
  "cast_to_bits etype w isSigned e x =
     (case to_Constant x of
        Some (ct, v, b) \<Rightarrow> mk_constant etype v b False
      | None \<Rightarrow>
        case to_BoolLiteral x of
          Some v \<Rightarrow>
            bind_comp (Ok (if isSigned \<or> w \<noteq> 1 then [Error ERR_INVALID] else []) ())
              (\<lambda>_. mk_constant etype (if v then 1 else 0) 10 False)
        | None \<Rightarrow>
          case to_Member x of
            Some mem \<Rightarrow>
              bind_comp (EnumInstance_resolve x) (\<lambda>ei.
                case ei of
                  Some (SerEnumInstance et n v) \<Rightarrow> ret v
                | _ \<Rightarrow> ret (Cast etype e))
          | None \<Rightarrow> ret (Cast etype e))"

definition cast_to_bool :: "expr \<Rightarrow> expr \<Rightarrow> expr comp" where
  "cast_to_bool e x =
     (let e' = Cast Type_Boolean e
      in case to_BoolLiteral x of
           Some v \<Rightarrow> ret x
         | None \<Rightarrow>
           case to_Constant x of
             None \<Rightarrow> ret e'
           | Some (ct, v, b) \<Rightarrow>
             case to_Type_Bits ct of
               Some (w, isSigned) \<Rightarrow>
                 (if isSigned then report (Error ERR_INVALID) e'
                  else if w \<noteq> 1 then report (Error ERR_INVALID) e'
                  else bind_comp (asInt v) (\<lambda>v'.
                    if v' < 0 \<or> v' > 1 then report (Error ERR_INVALID) e'
                    else ret (BoolLiteral (v' = 1))))
             | None \<Rightarrow>
                 (if ct \<noteq> Type_InfInt then Bug ''unexpected type for constant''
                  else bind_comp (asInt v) (\<lambda>v'.
                    if v' < 0 \<or> v' > 1 then report (Error ERR_INVALID) e'
                    else ret (BoolLiteral (v' = 1)))))"

definition cast_to_int :: "expr \<Rightarrow> expr \<Rightarrow> expr comp" where
  "cast_to_int e x =
     (case to_Constant x of
        None \<Rightarrow> ret (Cast Type_InfInt e)
      | Some (ct, v, b) \<Rightarrow>
          (if \<not> is_Type_Bits ct \<and> ct \<noteq> Type_InfInt
           then report (Error ERR_INVALID) (Cast Type_InfInt e)
           else mk_constant Type_InfInt v b False))"

definition fold_Cast :: "cf_env \<Rightarrow> p4type \<Rightarrow> expr \<Rightarrow> expr comp" where
  "fold_Cast cf etype e =
     bind_comp (getConstant cf e) (\<lambda>c.
       case c of None \<Rightarrow> ret (Cast etype e)
       | Some x \<Rightarrow>
         case to_Type_Bits etype of
           Some (w, isSigned) \<Rightarrow> cast_to_bits etype w isSigned e x
         | None \<Rightarrow>
             (if etype = Type_InfInt then cast_to_int e x
              else if etype = Type_Boolean then cast_to_bool e x
              else if struct_fields etype \<noteq> None then CloneConstants x
              else ret (Cast etype e)))"

definition fold_Mux :: "cf_env \<Rightarrow> p4type \<Rightarrow> expr \<Rightarrow> expr \<Rightarrow> expr \<Rightarrow> expr comp" where
  "fold_Mux cf t e0 e1 e2 =
     bind_comp (getConstant cf e0) (\<lambda>c.
       case c of None \<Rightarrow> ret (Mux t e0 e1 e2)
       | Some cond \<Rightarrow>
         case to_BoolLiteral cond of None \<Rightarrow> report (Error ERR_EXPECTED) (Mux t e0 e1 e2)
         | Some v \<Rightarrow> ret (if v then e1 else e2))"

fun is_Type_BaseList :: "p4type \<Rightarrow> bool" where
  "is_Type_BaseList (Type_List ts) = True"
| "is_Type_BaseList t = False"

definition fold_ArrayIndex :: "cf_env \<Rightarrow> p4type \<Rightarrow> p4type \<Rightarrow> expr \<Rightarrow> expr \<Rightarrow> expr comp" where
  "fold_ArrayIndex cf ty t l r =
     (let e = ArrayIndex t l r
      in if \<not> typesKnown cf \<or> \<not> is_Type_BaseList ty then ret e
         else bind_comp (getConstant cf r) (\<lambda>init.
           case init of None \<Rightarrow> report (Error ERR_INVALID) e
           | Some i \<Rightarrow>
             case to_Constant i of None \<Rightarrow> ret e
             | Some (ct, v, b) \<Rightarrow>
               (if \<not> fitsInt v then report (Error ERR_INVALID) e
                else bind_comp (asInt v) (\<lambda>index.
                  if index < 0 then report (Error ERR_INVALID) e
                  else bind_comp (getConstant cf l) (\<lambda>value.
                    case Option.bind value to_ListExpression of None \<Rightarrow> ret e
                    | Some (lt, es) \<Rightarrow>
                        (if nat index \<ge> length es then report (Error ERR_INVALID) e
                         else CloneConstants (es ! nat index)))))))"

definition fold_PathExpression :: "cf_env \<Rightarrow> bool \<Rightarrow> p4type \<Rightarrow> string \<Rightarrow> expr comp" where
  "fold_PathExpression cf assignmentTarget t p =
     (let e = PathExpression t p
      in case hook cf e of
           Some r \<Rightarrow> ret r
         | None \<Rightarrow>
             (case refMap cf of None \<Rightarrow> ret e
              | Some rm \<Rightarrow>
                  if assignmentTarget then ret e
                  else case rm p of
                         None \<Rightarrow> report (Error ERR_NOT_FOUND) e
                       | Some (Declaration_Constant d dt init) \<Rightarrow>
                           (case constants cf d of None \<Rightarrow> ret e
                            | Some cst \<Rightarrow>
                                if to_ListExpression cst \<noteq> None \<and> \<not> typesKnown cf then ret e
                                else CloneConstants cst)
                       | _ \<Rightarrow> ret e))"

section \<open>The traversal of an expression\<close>

text \<open>\<open>orig\<close> is the node before its children were folded, for the type map.\<close>

definition postorder :: "cf_env \<Rightarrow> bool \<Rightarrow> expr \<Rightarrow> expr \<Rightarrow> expr comp" where
  "postorder cf assignmentTarget orig e =
     (case e of
        PathExpression t p \<Rightarrow> fold_PathExpression cf assignmentTarget t p
      | Unary u t x \<Rightarrow>
          (case u of
             Cmpl \<Rightarrow> fold_Cmpl cf t x
           | Neg \<Rightarrow> fold_Neg cf t x
           | UPlus \<Rightarrow> fold_UPlus cf t x
           | LNot \<Rightarrow> fold_LNot cf t x)
      | Binary b t l r \<Rightarrow> fold_Binary cf b t l r
      | Slice t e0 e1 e2 \<Rightarrow> fold_Slice cf t e0 e1 e2
      | PlusSlice t e0 e1 e2 \<Rightarrow> fold_PlusSlice cf t e0 e1 e2
      | Member t x m \<Rightarrow> fold_Member cf (type_of (hd (children orig))) t x m
      | Cast t x \<Rightarrow> fold_Cast cf t x
      | Mux t c a b \<Rightarrow> fold_Mux cf t c a b
      | _ \<Rightarrow> ret e)"

function fold_expr :: "cf_env \<Rightarrow> bool \<Rightarrow> expr \<Rightarrow> expr comp" where
  "fold_expr cf assignmentTarget e =
     (case e of
        ArrayIndex t l r \<Rightarrow>
          bind_comp (fold_expr cf assignmentTarget l) (\<lambda>l'.
          bind_comp (fold_expr cf False r) (\<lambda>r'. fold_ArrayIndex cf (type_of l) t l' r'))
      | _ \<Rightarrow>
          bind_comp (visit_children (fold_expr cf assignmentTarget) e) (postorder cf assignmentTarget e))"
  by auto
termination
  by (relation "measure (\<lambda>(cf, a, e). size e)") (auto intro: size_field size_list_estimation' trans_le_add1 simp: less_Suc_eq_le)

declare fold_expr.simps [simp del]

end
