(* ===== verification/ConstFold_Correct.thy ===== *)
theory ConstFold_Correct
  imports ConstFold
begin

text \<open>
  Correctness of the constant folder against the evaluation of \<open>P4Sem\<close>: an expression that
  evaluates to a value is folded to an expression that evaluates to the same value.
\<close>

section \<open>Refinement of expressions\<close>

definition refines :: "sem_env \<Rightarrow> expr \<Rightarrow> expr \<Rightarrow> bool" where
  "refines \<rho> e e' \<longleftrightarrow>
     (\<forall>v. eval \<rho> e = Some v \<longrightarrow> eval \<rho> e' = Some v) \<and> (\<forall>t. e = TypeNameExpression t \<longrightarrow> e' = e)"

lemma refines_refl [simp]: "refines \<rho> e e"
  by (simp add: refines_def)

lemma refinesD: "refines \<rho> e e' \<Longrightarrow> eval \<rho> e = Some v \<Longrightarrow> eval \<rho> e' = Some v"
  by (simp add: refines_def)

lemma refines_trans: "refines \<rho> a b \<Longrightarrow> refines \<rho> b c \<Longrightarrow> refines \<rho> a c"
  by (auto simp: refines_def)

lemma refinesI:
  "(\<And>v. eval \<rho> e = Some v \<Longrightarrow> eval \<rho> e' = Some v) \<Longrightarrow> (\<And>t. e \<noteq> TypeNameExpression t) \<Longrightarrow> refines \<rho> e e'"
  by (auto simp: refines_def)

lemma all_some_refines:
  assumes "list_all2 (refines \<rho>) es cs" "all_some (map (eval \<rho>) es) = Some vs"
  shows "all_some (map (eval \<rho>) cs) = Some vs"
  using assms by (induction arbitrary: vs rule: list_all2_induct) (auto split: option.splits dest: refinesD)

lemma all_some_fields:
  "all_some (map (\<lambda>f. eval \<rho> (snd f)) fs) = all_some (map (eval \<rho>) (map snd fs))"
  by (simp add: comp_def)

lemma list_all2_Cons_cases [simp]:
  "list_all2 P [x, y] cs \<longleftrightarrow> (\<exists>a b. cs = [a, b] \<and> P x a \<and> P y b)"
  "list_all2 P [x, y, z] cs \<longleftrightarrow> (\<exists>a b c. cs = [a, b, c] \<and> P x a \<and> P y b \<and> P z c)"
  "list_all2 P [x] cs \<longleftrightarrow> (\<exists>a. cs = [a] \<and> P x a)"
  by (auto simp: list_all2_Cons1)

lemma bind_refines:
  "Option.bind (eval \<rho> e) f = Some v \<Longrightarrow> refines \<rho> e e' \<Longrightarrow>
     (\<And>x. f x = Some v \<Longrightarrow> g x = Some v) \<Longrightarrow> Option.bind (eval \<rho> e') g = Some v"
  by (auto simp: bind_eq_Some_conv dest: refinesD)

lemma bind2_refines:
  "Option.bind (Option.bind (eval \<rho> e) h) f = Some v \<Longrightarrow> refines \<rho> e e' \<Longrightarrow>
     (\<And>x. f x = Some v \<Longrightarrow> g x = Some v) \<Longrightarrow> Option.bind (Option.bind (eval \<rho> e') h) g = Some v"
  by (auto simp: bind_eq_Some_conv dest: refinesD)

lemma bind_mono_Some:
  "Option.bind m f = Some v \<Longrightarrow> (\<And>x. f x = Some v \<Longrightarrow> g x = Some v) \<Longrightarrow> Option.bind m g = Some v"
  by (auto simp: bind_eq_Some_conv)

lemma map_bind_refines:
  "map_option h (Option.bind (eval \<rho> e) f) = Some v \<Longrightarrow> refines \<rho> e e' \<Longrightarrow>
     map_option h (Option.bind (eval \<rho> e') f) = Some v"
  by (auto simp: bind_eq_Some_conv dest: refinesD)

lemmas refines_elims = bind_refines bind2_refines bind_mono_Some

lemma eval_Binary_refines:
  assumes "refines \<rho> l l'" "refines \<rho> r r'" "eval \<rho> (Binary b t l r) = Some v"
  shows "eval \<rho> (Binary b t l' r') = Some v"
proof (cases "b = LAnd \<or> b = LOr")
  case True
  then show ?thesis using assms
    by (elim disjE)
      (auto simp del: map_option_eq_Some elim!: refines_elims split: if_splits dest: map_bind_refines)
next
  case False
  then show ?thesis using assms
    by (auto simp: eval_Binary_strict elim!: bind_refines)
qed

lemma eval_Member_refines:
  assumes "refines \<rho> e e'" "eval \<rho> (Member t e m) = Some v"
  shows "eval \<rho> (Member t e' m) = Some v"
proof (cases "\<exists>t'. e = TypeNameExpression t'")
  case True
  then show ?thesis using assms by (auto simp: refines_def)
next
  case False
  then obtain x where x: "eval \<rho> e = Some x" "field_val m x = Some v"
    using assms(2) by (auto simp: eval_Member_field bind_eq_Some_conv)
  with assms have x': "eval \<rho> e' = Some x" by (auto dest: refinesD)
  then have "e' \<noteq> TypeNameExpression t'" for t' by auto
  then show ?thesis using x x' by (simp add: eval_Member_field)
qed

lemma with_children_refines:
  assumes "list_all2 (refines \<rho>) (children e) cs"
  shows "refines \<rho> e (with_children e cs)"
  unfolding refines_def
proof (intro conjI allI impI)
  fix v assume v: "eval \<rho> e = Some v"
  show "eval \<rho> (with_children e cs) = Some v"
  proof (cases e)
    case (StructExpression t fs)
    then have l: "list_all2 (refines \<rho>) (map snd fs) cs" using assms by simp
    then have "length cs = length fs" by (auto dest: list_all2_lengthD)
    then have "map snd (zip (map fst fs) cs) = cs" "map fst (zip (map fst fs) cs) = map fst fs" by auto
    then show ?thesis using v StructExpression all_some_refines [OF l]
      by (auto simp: all_some_fields simp del: map_map)
  next
    case (Member t x m)
    with assms v show ?thesis by (auto dest: eval_Member_refines)
  next
    case (Binary b t x y)
    with assms v show ?thesis by (auto dest: eval_Binary_refines)
  next
    case (MethodCallExpression t m x ys)
    then obtain a as where "cs = a # as" "refines \<rho> x a" "list_all2 (refines \<rho>) ys as"
      using assms by (auto simp: list_all2_Cons1)
    then show ?thesis using v MethodCallExpression
      by (auto simp: bind_eq_Some_conv dest: refinesD all_some_refines)
  qed (use assms v in \<open>auto simp: numeral_2_eq_2 elim!: refines_elims dest: refinesD all_some_refines split: if_splits\<close>)
qed (use assms in auto)

lemma mapM_comp_refines:
  assumes "mapM_comp f es = Ok ds cs"
    and "\<And>x d x'. x \<in> set es \<Longrightarrow> f x = Ok d x' \<Longrightarrow> refines \<rho> x x'"
  shows "list_all2 (refines \<rho>) es cs"
  using assms by (induction es arbitrary: ds cs) (auto simp: comp_simps)

lemma visit_children_refines:
  assumes "visit_children f e = Ok ds e'"
    and "\<And>x d x'. x \<in> set (children e) \<Longrightarrow> f x = Ok d x' \<Longrightarrow> refines \<rho> x x'"
  shows "refines \<rho> e e'"
  using assms mapM_comp_refines [of f "children e" _ _ \<rho>]
  by (auto simp: visit_children_def comp_simps intro!: with_children_refines)

section \<open>Constants are themselves\<close>

lemma eval_mk_constant_bits:
  "mk_constant (Type_Bits w s) v b nw = Ok ds e \<Longrightarrow>
     eval \<rho> e = Some (BitsV (nat w) s (norm (nat w) s v)) \<and> 0 \<le> w \<and> (s \<longrightarrow> 0 < w)"
  by (erule mk_constant_OkD) (auto simp: in_range_norm)

lemma clone_Constant_refines: "clone_Constant e = Ok ds e' \<Longrightarrow> refines \<rho> e e'"
  by (cases e) (auto simp: refines_def eval_Constant_iff norm_id split: p4type.splits
      dest: eval_mk_constant_bits [where \<rho> = \<rho>])

lemma CloneConstants_refines: "CloneConstants e = Ok ds e' \<Longrightarrow> refines \<rho> e e'"
proof (induction e arbitrary: ds e' rule: expr_children_induct)
  case (children e)
  then obtain d1 m d2 where m: "visit_children CloneConstants e = Ok d1 m" "clone_Constant m = Ok d2 e'"
    by (subst (asm) CloneConstants.simps) (auto simp: comp_simps)
  show ?case
    using visit_children_refines [OF m(1), of \<rho>] children.IH clone_Constant_refines [OF m(2), of \<rho>]
    by (blast intro: refines_trans)
qed

lemma getConstant_refines: "getConstant cf e = Ok ds (Some c) \<Longrightarrow> refines \<rho> e c"
  by (cases e) (auto simp: comp_simps split: if_splits option.splits decl.splits
      dest: CloneConstants_refines [where \<rho> = \<rho>])

lemma getConstant_eval: "getConstant cf e = Ok ds (Some c) \<Longrightarrow> eval \<rho> e = Some v \<Longrightarrow> eval \<rho> c = Some v"
  using getConstant_refines refinesD by blast

lemma getConstant_evalA:
  "getConstant cf e = Ok ds (Some c) \<Longrightarrow> \<forall>v. eval \<rho> e = Some v \<longrightarrow> eval \<rho> c = Some v"
  using getConstant_eval by blast

lemma handleOverflow_OkD:
  assumes "handleOverflow (Type_Bits w s) v nw = Ok ds v'"
  shows "v' = norm (nat w) s v \<and> 0 \<le> w \<and> (s \<longrightarrow> 0 < w)"
proof -
  from assms have l: "0 \<le> w" "s \<longrightarrow> 0 < w" by (auto simp: handleOverflow_def split: if_splits)
  from handleOverflow_result [OF l, of v nw] assms l show ?thesis by simp
qed

lemma is_Type_Bits_iff: "is_Type_Bits t \<longleftrightarrow> (\<exists>w s. t = Type_Bits w s)"
  by (cases t) auto

section \<open>Unary operators\<close>

text \<open>Where a node is folded, its operand is a constant with the operand's value.\<close>

lemma getConstant_ConstantD:
  assumes "getConstant cf e = Ok ds (Some (Constant t v b))" "eval \<rho> e = Some x"
  obtains (inf) "t = Type_InfInt" "x = InfV v"
  | (bits) w s where "t = Type_Bits w s" "0 \<le> w" "in_range (nat w) s v" "x = BitsV (nat w) s v"
  using getConstant_eval [OF assms] by (auto simp: eval_Constant_iff)

lemma getConstant_BoolLiteralD:
  "getConstant cf e = Ok ds (Some (BoolLiteral b)) \<Longrightarrow> eval \<rho> e = Some x \<Longrightarrow> x = BoolV b"
  by (drule getConstant_eval) auto

lemma getConstant_StringLiteralD:
  "getConstant cf e = Ok ds (Some (StringLiteral b)) \<Longrightarrow> eval \<rho> e = Some x \<Longrightarrow> x = StrV b"
  by (drule getConstant_eval) auto

lemma fold_Cmpl_refines: "fold_Cmpl cf t e = Ok ds e' \<Longrightarrow> refines \<rho> (Unary Cmpl t e) e'"
  by (rule refinesI) (auto simp: fold_Cmpl_def bind_eq_Some_conv eval_Constant_iff is_Type_Bits_iff
      split: option.split_asm if_split_asm
      elim!: bind_comp_OkE dest!: getConstant_evalA [where \<rho> = \<rho>] eval_mk_constant_bits [where \<rho> = \<rho>])

lemma fold_Neg_refines: "fold_Neg cf t e = Ok ds e' \<Longrightarrow> refines \<rho> (Unary Neg t e) e'"
  by (rule refinesI) (auto simp: fold_Neg_def bind_eq_Some_conv eval_Constant_iff is_Type_Bits_iff
      split: option.split_asm if_split_asm
      elim!: bind_comp_OkE dest!: getConstant_evalA [where \<rho> = \<rho>] eval_mk_constant_bits [where \<rho> = \<rho>])

lemma fold_UPlus_refines: "fold_UPlus cf t e = Ok ds e' \<Longrightarrow> refines \<rho> (Unary UPlus t e) e'"
  by (rule refinesI) (auto simp: fold_UPlus_def bind_eq_Some_conv eval_Constant_iff is_Type_Bits_iff
      split: option.split_asm if_split_asm
      elim!: bind_comp_OkE dest!: getConstant_evalA [where \<rho> = \<rho>])

lemma fold_LNot_refines: "fold_LNot cf t e = Ok ds e' \<Longrightarrow> refines \<rho> (Unary LNot t e) e'"
  by (rule refinesI) (auto simp: fold_LNot_def bind_eq_Some_conv eval_Constant_iff is_Type_Bits_iff
      split: option.split_asm if_split_asm
      elim!: bind_comp_OkE dest!: getConstant_evalA [where \<rho> = \<rho>])

section \<open>Binary operators\<close>

lemma cast_operands_unify:
  assumes "cast_operands lt l lb rt r = Ok ds (Operands ty a b base)"
    and "eval \<rho> (Constant lt l lb) = Some x" "eval \<rho> (Constant rt r rb) = Some y"
    and "unify_ints x y = Some (k, p, q)"
  shows "p = a \<and> q = b \<and>
    (case k of None \<Rightarrow> ty = Type_InfInt | Some (w, s) \<Rightarrow> ty = Type_Bits (int w) s \<and> (s \<longrightarrow> 0 < w))"
  using assms
  by (auto simp: cast_operands_def cast_constant_def eval_Constant_iff Let_def in_range_def is_Type_Bits_iff
      split: if_split_asm elim!: bind_comp_OkE dest: handleOverflow_OkD)


lemma fold_func_arith:
  assumes "fold_func b p q = Ok ds x" "arith b p q = Some y"
  shows "x = y"
  using assms by (cases b) (auto split: if_splits)

lemma fold_func_compare:
  assumes "fold_func b p q = Ok ds x" "compare_ints b p q = Some y"
  shows "(x \<noteq> 0) = y"
  using assms by (cases b) (auto split: if_splits)

lemma saturate_clamp:
  assumes "saturate (Type_Bits w s) x = Ok ds y"
  shows "y = clamp (nat w) s x \<and> 0 \<le> w \<and> (s \<longrightarrow> 0 < w)"
  using assms
  by (auto simp: saturate_def clamp_def Let_def push_bit_eq_mult nat_diff_distrib split: if_split_asm)

lemma clamp_in_range: "s \<longrightarrow> 0 < w \<Longrightarrow> in_range w s (clamp w s x)"
  using one_le_power [of "2::int" w] one_le_power [of "2::int" "w - 1"]
  by (auto simp: clamp_def in_range_def min_def max_def)

lemma eval_mk_constant_int_val:
  assumes "mk_constant ty v b nw = Ok ds e"
    and "case k of None \<Rightarrow> ty = Type_InfInt | Some (w, s) \<Rightarrow> ty = Type_Bits (int w) s \<and> (s \<longrightarrow> 0 < w)"
  shows "eval \<rho> e = Some (int_val k v)"
  using assms by (auto split: option.split_asm prod.split_asm dest!: eval_mk_constant_bits [where \<rho> = \<rho>])

lemma binary_refines:
  assumes b: "binary cf b t l r sat = Ok ds e'" and sat: "sat \<longleftrightarrow> b \<in> {AddSat, SubSat}"
    and nl: "b \<notin> {LAnd, LOr, Shl, Shr, Concat}"
  shows "refines \<rho> (Binary b t l r) e'"
proof (rule refinesI)
  fix v assume v: "eval \<rho> (Binary b t l r) = Some v"
  with nl obtain x y where xy: "eval \<rho> l = Some x" "eval \<rho> r = Some y" "binop_val b x y = Some v"
    by (auto simp: eval_Binary_strict bind_eq_Some_conv)
  show "eval \<rho> e' = Some v"
  proof (cases "e' = Binary b t l r")
    case True
    with v show ?thesis by simp
  next
    case False
    with b obtain lt lv lb rt rv rb d0 d1 d2 d3 d4 d5 ty p q base x0 x1 where
      l: "getConstant cf l = Ok d0 (Some (Constant lt lv lb))" and
      r: "getConstant cf r = Ok d1 (Some (Constant rt rv rb))" and
      ops: "cast_operands lt lv lb rt rv = Ok d2 (Operands ty p q base)" and
      f: "fold_func b p q = Ok d3 x0" and
      x1: "(if sat then saturate ty x0 else ret x0) = Ok d4 x1" and
      e': "(if is_relation b then ret (BoolLiteral (x1 \<noteq> 0)) else mk_constant ty x1 base True) = Ok d5 e'"
      by (auto simp: binary_def Let_def split: option.split_asm operands.split_asm if_split_asm
          elim!: bind_comp_OkE)
    have cs: "eval \<rho> (Constant lt lv lb) = Some x" "eval \<rho> (Constant rt rv rb) = Some y"
      using getConstant_eval [OF l xy(1)] getConstant_eval [OF r xy(2)] .
    note u = cast_operands_unify [OF ops cs]
    show ?thesis
    proof (cases "b = Equ \<or> b = Neq")
      case eq: True
      then have nosat: "\<not> sat" and rel: "is_relation b" using sat by (auto simp: is_relation_def)
      from eq xy(3) obtain k where "val_eq x y = Some k" "v = BoolV (if b = Equ then k else \<not> k)"
        by (auto simp: binop_val_def)
      moreover from this(1) cs obtain kk where "unify_ints x y = Some kk" "k = (fst (snd kk) = snd (snd kk))"
        by (auto simp: eval_Constant_iff)
      ultimately show ?thesis using u x1 f e' nosat rel eq
        by (cases kk) (auto split: if_split_asm)
    next
      case neq: False
      with xy(3) nl obtain k p' q' where k: "unify_ints x y = Some (k, p', q')"
        by (auto simp: binop_val_def split: option.split_asm if_split_asm)
      note u = u [OF k]
      have [simp]: "p' = p" "q' = q" using u by auto
      have ty: "case k of None \<Rightarrow> ty = Type_InfInt | Some (w, s) \<Rightarrow> ty = Type_Bits (int w) s \<and> (s \<longrightarrow> 0 < w)"
        using u by simp
      consider (rel) "b \<in> {Lss, Leq, Grt, Geq}" | (sat) "b \<in> {AddSat, SubSat}"
        | (arith) "b \<notin> {Lss, Leq, Grt, Geq}" "b \<notin> {AddSat, SubSat}" by blast
      then show ?thesis
      proof cases
        case rel
        then show ?thesis using xy(3) k f x1 e' sat
          by (auto simp: binop_val_def is_relation_def dest: fold_func_compare)
      next
        case s: sat
        then obtain w sg where ks: "k = Some (w, sg)"
          "v = BitsV w sg (clamp w sg (if b = AddSat then p + q else p - q))"
          using xy(3) k by (auto simp: binop_val_def split: option.split_asm)
        from ty ks have ty': "ty = Type_Bits (int w) sg" "sg \<longrightarrow> 0 < w" by auto
        have x0: "x0 = (if b = AddSat then p + q else p - q)" using f s by (auto split: if_splits)
        have "sat" "\<not> is_relation b" using s assms(2) by (auto simp: is_relation_def)
        with x1 e' ty' have "x1 = clamp w sg x0" "mk_constant ty x1 base True = Ok d5 e'"
          by (auto dest: saturate_clamp)
        then show ?thesis using ty' ks x0 clamp_in_range [of sg w x0]
          by (auto dest!: eval_mk_constant_bits [where \<rho> = \<rho>] simp: norm_id)
      next
        case arith
        then show ?thesis using xy(3) k f x1 e' sat ty neq nl
          by (auto simp: binop_val_def is_relation_def dest!: fold_func_arith
              dest: eval_mk_constant_int_val [where \<rho> = \<rho>] split: if_split_asm)
      qed
    qed
  qed
qed simp

text \<open>\<open>==\<close> and \<open>!=\<close>: the result of \<open>compare\<close> is the comparison of the values.\<close>

definition eq_result :: "binop \<Rightarrow> bool \<Rightarrow> bool" where
  "eq_result b k = (if b = Equ then k else \<not> k)"

lemma eval_eq_op:
  "b \<in> {Equ, Neq} \<Longrightarrow> eval \<rho> (Binary b t l r) = Some v \<longleftrightarrow>
     (\<exists>x y k. eval \<rho> l = Some x \<and> eval \<rho> r = Some y \<and> val_eq x y = Some k \<and> v = BoolV (eq_result b k))"
  by (auto simp: binop_val_def bind_eq_Some_conv eq_result_def)

lemma EnumInstance_resolve_eval:
  assumes "EnumInstance_resolve e = Ok ds (Some i)" "eval \<rho> e = Some v"
  shows "\<exists>n ms. enum_type i = Type_Enum n ms \<and> v = EnumV n (enum_name i)"
  using assms by (cases e rule: EnumInstance_resolve.cases)
    (auto split: p4type.split_asm option.split_asm)

lemma vals_eq_Nil:
  "vals_eq [] ws = Some k \<Longrightarrow> k" "vals_eq vs [] = Some k \<Longrightarrow> k"
  by (cases ws; simp) (cases vs; simp)

lemma compare_refines_aux:
  "compare cf b t l r = Ok ds e' \<Longrightarrow> refines \<rho> (Binary b t l r) e'"
  "compare_lists cf b xs ys = Ok ds' (Some res) \<Longrightarrow> b \<in> {Equ, Neq} \<Longrightarrow>
     all_some (map (eval \<rho>) xs) = Some vs \<Longrightarrow> all_some (map (eval \<rho>) ys) = Some ws \<Longrightarrow>
     vals_eq vs ws = Some k \<Longrightarrow> res = eq_result b k"
proof (induction cf b t l r and cf b xs ys arbitrary: ds e' and ds' res vs ws k
    rule: compare_compare_lists.induct)
  case (1 cf b t l r)
  show ?case
  proof (cases "e' = Binary b t l r")
    case ne: False
    with 1(2) obtain d0 d1 d2 x y where l: "getConstant cf l = Ok d0 (Some x)"
      and r: "getConstant cf r = Ok d1 (Some y)" and b: "b \<in> {Equ, Neq}"
      by (subst (asm) compare.simps) (auto elim!: bind_comp_OkE split: if_split_asm)
    note ev = getConstant_eval [OF l] getConstant_eval [OF r]
    show ?thesis
    proof (rule refinesI)
      fix v assume v: "eval \<rho> (Binary b t l r) = Some v"
      then obtain p q k where pq: "eval \<rho> l = Some p" "eval \<rho> r = Some q" "val_eq p q = Some k"
        "v = BoolV (eq_result b k)" using b by (auto simp: eval_eq_op)
      with ev have xy: "eval \<rho> x = Some p" "eval \<rho> y = Some q" by auto
      have bin: "eval \<rho> e' = Some v" if "binary cf b t l r False = Ok d e'" for d
        using binary_refines [OF that] b v by (auto dest: refinesD)
      have enum: "eval \<rho> e' = Some v"
        if "EnumInstance_resolve x = Ok d (Some i)" "EnumInstance_resolve y = Ok d' (Some j)"
          "enum_type i = enum_type j"
          "e' = BoolLiteral ((enum_name i = enum_name j) = (b = Equ))" for d d' i j
        using EnumInstance_resolve_eval [OF that(1) xy(1)] EnumInstance_resolve_eval [OF that(2) xy(2)]
          that pq by (auto simp: eq_result_def)
      have rest: "eval \<rho> e' = Some v" if nb: "to_BoolLiteral x = None" "to_StringLiteral x = None"
      proof (cases "typesKnown cf")
        case False
        then show ?thesis using 1(2) l r b nb
          by (subst (asm) compare.simps) (auto elim!: bind_comp_OkE intro: bin split: comp.split_asm)
      next
        case tk: True
        with 1(2) l r b nb obtain d3 d4 le re where
          e: "EnumInstance_resolve x = Ok d3 le" "EnumInstance_resolve y = Ok d4 re"
          by (subst (asm) compare.simps) (auto elim!: bind_comp_OkE split: comp.split_asm)
        show ?thesis
        proof (cases "le \<noteq> None \<and> re \<noteq> None")
          case True
          then obtain i j where ij: "le = Some i" "re = Some j" by blast
          then have "enum_type i = enum_type j"
            "e' = BoolLiteral ((enum_name i = enum_name j) = (b = Equ))"
            using 1(2) l r b nb tk e
            by (subst (asm) compare.simps; auto elim!: bind_comp_OkE split: if_split_asm comp.split_asm)+
          then show ?thesis using enum e ij by blast
        next
          case False
          show ?thesis
          proof (cases "\<exists>lt ls rt rs. x = ListExpression lt ls \<and> y = ListExpression rt rs")
            case True
            then obtain lt ls rt rs where xs: "x = ListExpression lt ls" "y = ListExpression rt rs" by blast
            with 1(2) l r b tk e False ne obtain d5 res where
              cl: "length ls = length rs" "compare_lists cf b ls rs = Ok d5 (Some res)" "e' = BoolLiteral res"
              by (subst (asm) compare.simps)
                (auto elim!: bind_comp_OkE split: if_split_asm option.split_asm comp.split_asm)
            from xs xy obtain vs ws where "all_some (map (eval \<rho>) ls) = Some vs" "p = TupleV vs"
              "all_some (map (eval \<rho>) rs) = Some ws" "q = TupleV ws" by auto
            with 1(1) [OF l r] b nb tk e False xs cl pq show ?thesis by auto
          next
            case nl: False
            then have "to_ListExpression x = None \<or> to_ListExpression y = None"
              by (cases x; cases y) auto
            then show ?thesis using 1(2) l r b nb tk e False
              by (subst (asm) compare.simps)
                (auto elim!: bind_comp_OkE intro: bin split: comp.split_asm option.split_asm prod.split_asm)
          qed
        qed
      qed
      show "eval \<rho> e' = Some v"
      proof (cases "to_BoolLiteral x")
        case (Some bx)
        then show ?thesis using 1(2) l r b ne xy pq
          by (subst (asm) compare.simps)
            (auto elim!: bind_comp_OkE simp: eq_result_def split: option.split_asm)
      next
        case nb: None
        show ?thesis
        proof (cases "to_StringLiteral x")
          case (Some sx)
          then show ?thesis using 1(2) l r b ne xy pq
            by (subst (asm) compare.simps)
              (auto elim!: bind_comp_OkE simp: eq_result_def split: option.split_asm)
        qed (use rest nb in blast)
      qed
    qed simp
  qed simp
next
  case (2 cf b x xs y ys)
  from 2(4-) obtain p q vs' ws' m where
    e: "eval \<rho> x = Some p" "eval \<rho> y = Some q" "all_some (map (eval \<rho>) xs) = Some vs'"
      "all_some (map (eval \<rho>) ys) = Some ws'" "vs = p # vs'" "ws = q # ws'"
    by (auto split: option.split_asm)
  with 2(7) obtain k1 k2 where k: "val_eq p q = Some k1" "vals_eq vs' ws' = Some k2" "k = (k1 \<and> k2)"
    by (auto split: option.split_asm)
  from 2(3) obtain d1 d2 v where c: "compare cf b Type_Boolean x y = Ok d1 (BoolLiteral v)"
    and rest: "(if v \<noteq> (b = Equ) then ret (Some v) else compare_lists cf b xs ys) = Ok d2 (Some res)"
    by (auto elim!: bind_comp_OkE split: option.split_asm)
  have "eval \<rho> (Binary b Type_Boolean x y) = Some (BoolV (eq_result b k1))"
    using 2(4) e k by (auto simp: eval_eq_op)
  with 2(1) [OF c] have v: "v = eq_result b k1" by (auto dest: refinesD)
  show ?case
  proof (cases "v = (b = Equ)")
    case True
    then show ?thesis using 2(2) [OF c, of v] rest 2(4) e k v by (auto simp: eq_result_def split: if_split_asm)
  next
    case False
    then show ?thesis using rest v k 2(4) by (auto simp: eq_result_def split: if_split_asm)
  qed
qed (auto simp: eq_result_def dest: vals_eq_Nil)

lemma fold_LAnd_refines: "fold_LAnd cf t l r = Ok ds e' \<Longrightarrow> refines \<rho> (Binary LAnd t l r) e'"
  by (rule refinesI) (auto simp: fold_LAnd_def bind_eq_Some_conv split: option.split_asm if_split_asm
      elim!: bind_comp_OkE dest!: getConstant_evalA [where \<rho> = \<rho>])

lemma fold_LOr_refines: "fold_LOr cf t l r = Ok ds e' \<Longrightarrow> refines \<rho> (Binary LOr t l r) e'"
  by (rule refinesI) (auto simp: fold_LOr_def bind_eq_Some_conv split: option.split_asm if_split_asm
      elim!: bind_comp_OkE dest!: getConstant_evalA [where \<rho> = \<rho>])

lemma fold_Mux_refines: "fold_Mux cf t c a b = Ok ds e' \<Longrightarrow> refines \<rho> (Mux t c a b) e'"
  by (rule refinesI) (auto simp: fold_Mux_def bind_eq_Some_conv split: option.split_asm if_split_asm
      elim!: bind_comp_OkE dest!: getConstant_evalA [where \<rho> = \<rho>])

section \<open>Shifts, concatenation and slices\<close>

text \<open>
  What the theorems need of the configuration: the supported width fits in an \<open>int\<close>, the policy
  replaces a path by an equivalent expression, and the value recorded for a constant declaration
  is the value of the paths that resolve to it.
\<close>

definition cf_ok :: "sem_env \<Rightarrow> cf_env \<Rightarrow> bool" where
  "cf_ok \<rho> cf \<longleftrightarrow>
     maximumWidth cf < 2147483647 \<and>
     (\<forall>t p r. hook cf (PathExpression t p) = Some r \<longrightarrow> refines \<rho> (PathExpression t p) r) \<and>
     (\<forall>rm p d ty init c v. refMap cf = Some rm \<longrightarrow> rm p = Some (Declaration_Constant d ty init) \<longrightarrow>
        constants cf d = Some c \<longrightarrow> var_val \<rho> p = Some v \<longrightarrow> eval \<rho> c = Some v)"

lemma in_range_div: "in_range w s a \<Longrightarrow> in_range w s (a div 2 ^ n)"
proof -
  assume a: "in_range w s a"
  have "a div 2 ^ n \<le> max 0 a \<and> min (- 1) a \<le> a div 2 ^ n"
  proof (cases "0 \<le> a")
    case True
    then have "0 \<le> a div 2 ^ n" "a div 2 ^ n \<le> a"
      by (simp_all add: pos_imp_zdiv_nonneg_iff zdiv_mono2 [of a 1, simplified])
    then show ?thesis by linarith
  next
    case False
    then have "a div 2 ^ n < 0" by (intro div_neg_pos_less0) auto
    moreover have "a \<le> a div 2 ^ n"
      using False zdiv_mono2_neg [of a 1 "2 ^ n"] by simp
    ultimately show ?thesis by linarith
  qed
  moreover have "(1::int) \<le> 2 ^ (w - 1)" "(1::int) \<le> 2 ^ w" by simp_all
  moreover have "\<not> s \<Longrightarrow> 0 \<le> a div 2 ^ n" using a by (simp add: in_range_def pos_imp_zdiv_nonneg_iff)
  ultimately show ?thesis using a unfolding in_range_def by (auto split: if_splits)
qed

lemma asInt_OkD: "asInt v = Ok ds x \<Longrightarrow> x = v \<or> (v < - 2147483648 \<and> x = - 2147483648) \<or> (2147483647 < v \<and> x = 2147483647)"
  by (auto simp: asInt_def fitsInt_def split: if_splits)

lemma overflowWidth_OkD: "overflowWidth cf w = Ok ds x \<Longrightarrow> x \<longleftrightarrow> w > maximumWidth cf"
  by (auto simp: overflowWidth_def split: if_splits)

lemma shift_out_left: "w \<le> n \<Longrightarrow> norm w s (a * 2 ^ n) = norm w s 0"
  by (rule norm_cong) (simp add: dvd_imp_mod_0 dvd_mult le_imp_power_dvd)

lemma shift_out_right: "in_range w s a \<Longrightarrow> w \<le> n \<Longrightarrow> a div 2 ^ n = (if a < 0 then - 1 else 0)"
proof -
  assume a: "in_range w s a" and n: "w \<le> n"
  have p: "(2::int) ^ w \<le> 2 ^ n" "(2::int) ^ (w - 1) \<le> 2 ^ n" using n by (simp_all add: power_increasing)
  have z: "(0::int) \<le> 2 ^ n" by simp
  have "- (2 ^ n) \<le> a \<and> a < 2 ^ n"
  proof (cases s)
    case True
    with a have "- (2 ^ (w - 1)) \<le> a" "a < 2 ^ (w - 1)" by (auto simp: in_range_def)
    with p show ?thesis by linarith
  next
    case False
    with a have "0 \<le> a" "a < 2 ^ w" by (auto simp: in_range_def)
    with p z show ?thesis by linarith
  qed
  then have "- (2 ^ n) \<le> a" "a < 2 ^ n" by auto
  then show ?thesis
    using int_div_pos_eq [of a "2 ^ n" "- 1" "a + 2 ^ n"] by (auto intro: div_pos_pos_trivial)
qed

lemma norm_0 [simp]: "s \<longrightarrow> 0 < w \<Longrightarrow> norm w s 0 = 0"
  by (rule norm_id) (auto simp: in_range_def)

lemma norm_minus1: "0 < w \<Longrightarrow> norm w True (- 1) = - 1"
  by (rule norm_id) (simp add: in_range_def order.strict_trans [of _ 0])

lemma shift_constant_eval:
  assumes "shift_constant cf b lt a base (int n) = Ok ds e" "eval \<rho> (Constant lt a base) = Some x"
    and "shift_val b x n = Some v" "b \<in> {Shl, Shr}"
  shows "eval \<rho> e = Some v"
proof (cases "lt = Type_InfInt")
  case True
  then show ?thesis using assms
    by (auto simp: shift_constant_def Let_def shift_left_eq shift_right_eq push_bit_eq_mult drop_bit_eq_div
        split: if_splits)
next
  case False
  with assms(2) obtain w s where t: "lt = Type_Bits w s" "0 \<le> w" "in_range (nat w) s a" "x = BitsV (nat w) s a"
    by (auto simp: eval_Constant_iff)
  show ?thesis
  proof (cases "w \<le> int n")
    case True
    then show ?thesis using assms t shift_out_left [of "nat w" n s a] shift_out_right [of "nat w" s a n]
      by (auto simp: shift_constant_def Let_def shift_left_eq shift_right_eq push_bit_eq_mult drop_bit_eq_div
          norm_minus1 in_range_def
          split: if_split_asm comp.split_asm elim!: bind_comp_OkE dest!: eval_mk_constant_bits [where \<rho> = \<rho>])
  next
    case False
    then show ?thesis using assms t norm_id [OF in_range_div [OF t(3)], of n]
      by (auto simp: shift_constant_def Let_def shift_left_eq shift_right_eq push_bit_eq_mult drop_bit_eq_div
          split: if_split_asm comp.split_asm dest!: eval_mk_constant_bits [where \<rho> = \<rho>])
  qed
qed

text \<open>Evaluation gives values in the range of their type.\<close>

lemma in_range_norm_same: "in_range w s a \<Longrightarrow> in_range w s (norm w s b)"
  by (rule in_range_norm) (auto simp: in_range_def)

lemma wf_val_unify:
  assumes "unify_ints x y = Some (Some (w, s), p, q)" "wf_val x" "wf_val y"
  shows "in_range w s p \<and> in_range w s q"
  using assms by (cases "(x, y)" rule: unify_ints.cases)
    (auto split: if_split_asm intro: in_range_norm_same)

lemma concat_in_range:
  assumes "in_range w s a"
  shows "in_range (w + w') s (a * 2 ^ w' + b mod 2 ^ w')"
proof -
  define P :: int where "P = 2 ^ w'"
  have P: "0 < P" "0 \<le> b mod P" "b mod P < P" by (simp_all add: P_def)
  show ?thesis
  proof (cases s)
    case True
    with assms have w: "0 < w" "- (2 ^ (w - 1)) \<le> a" "a + 1 \<le> 2 ^ (w - 1)" by (auto simp: in_range_def)
    have e: "(2::int) ^ (w + w' - 1) = 2 ^ (w - 1) * P"
      using w(1) by (simp add: P_def flip: power_add)
    have "- (2 ^ (w - 1)) * P \<le> a * P" "(a + 1) * P \<le> 2 ^ (w - 1) * P"
      using w P by (auto intro: mult_right_mono simp del: mult_minus_left)
    then have "- (2 ^ (w - 1) * P) \<le> a * P" "a * P + P \<le> 2 ^ (w - 1) * P" by (simp_all add: algebra_simps)
    with P w True show ?thesis unfolding in_range_def e P_def [symmetric] by simp
  next
    case False
    with assms have w: "0 \<le> a" "a + 1 \<le> 2 ^ w" by (auto simp: in_range_def)
    have "0 \<le> a * P" "(a + 1) * P \<le> 2 ^ w * P" using w P by (auto intro: mult_right_mono)
    then have "a * P + P \<le> 2 ^ w * P" by (simp add: algebra_simps)
    with P False \<open>0 \<le> a * P\<close> show ?thesis unfolding in_range_def P_def [symmetric]
      by (simp add: power_add flip: P_def)
  qed
qed

lemma wf_val_binop:
  assumes "binop_val b x y = Some v" "wf_val x" "wf_val y"
  shows "wf_val v"
proof -
  have sh: "wf_val v" if "b \<in> {Shl, Shr}"
    using that assms
    by (cases "(b, x, the (shift_amount y))" rule: shift_val.cases)
      (auto simp: binop_val_def bind_eq_Some_conv in_range_div intro: in_range_norm_same)
  have co: "wf_val v" if "b = Concat"
    using that assms by (cases "(x, y)" rule: concat_val.cases) (auto simp: binop_val_def concat_in_range)
  have ar: "wf_val v" if "b \<notin> {Equ, Neq, Shl, Shr, Concat}"
  proof -
    from that assms obtain t p q where u: "unify_ints x y = Some (t, p, q)"
      by (auto simp: binop_val_def split: option.split_asm)
    show ?thesis
    proof (cases t)
      case None
      with u that assms show ?thesis
        by (auto simp: binop_val_def split: if_split_asm)
    next
      case (Some ws)
      obtain w s where ws: "ws = (w, s)" by (cases ws)
      from wf_val_unify [of x y w s p q] u Some ws assms have "s \<longrightarrow> 0 < w" by (auto simp: in_range_def)
      with u that assms Some ws show ?thesis
        by (auto simp: binop_val_def clamp_in_range intro: in_range_norm split: if_split_asm)
    qed
  qed
  have "wf_val v" if "b \<in> {Equ, Neq}" using that assms by (auto simp: binop_val_def)
  with sh co ar show ?thesis by blast
qed

lemma wf_val_slice: "slice_val x h l = Some v \<Longrightarrow> wf_val v"
  by (auto simp: slice_val_def bits_of_def in_range_def split: if_split_asm val.split_asm)

lemma wf_val_unop: "unop_val u x = Some v \<Longrightarrow> wf_val x \<Longrightarrow> wf_val v"
  by (cases "(u, x)" rule: unop_val.cases) (auto intro: in_range_norm_same)

lemma wf_val_cast: "cast_val t x = Some v \<Longrightarrow> wf_val x \<Longrightarrow> wf_val v"
  by (cases "(t, x)" rule: cast_val.cases) (auto simp: in_range_norm in_range_def [of "Suc 0"] split: if_split_asm bool.split)

lemma wf_val_field: "wf_val x \<Longrightarrow> field_val m x = Some v \<Longrightarrow> wf_val v"
  by (cases x) (fastforce simp: list_all_iff dest: map_of_SomeD)+

lemma wf_val_nth: "wf_val x \<Longrightarrow> nth_val x i = Some v \<Longrightarrow> wf_val v"
  by (cases x) (auto simp: list_all_length split: if_split_asm)

lemma all_some_wf:
  assumes "all_some (map (eval \<rho>) es) = Some vs"
    and "\<And>x v. x \<in> set es \<Longrightarrow> eval \<rho> x = Some v \<Longrightarrow> wf_val v"
  shows "list_all wf_val vs"
proof -
  have m: "map (eval \<rho>) es = map Some vs" using assms(1) by (simp add: all_some_Some_iff)
  have "wf_val v" if "v \<in> set vs" for v
  proof -
    from that have "Some v \<in> set (map (eval \<rho>) es)" unfolding m by simp
    then show ?thesis using assms(2) by auto
  qed
  then show ?thesis by (simp add: list_all_iff)
qed

lemma list_all_zip_snd: "list_all P ys \<Longrightarrow> list_all (\<lambda>f. P (snd f)) (zip xs ys)"
  by (auto simp: list_all_iff dest: set_zip_rightD)

lemma eval_wf: "wf_env \<rho> \<Longrightarrow> eval \<rho> e = Some v \<Longrightarrow> wf_val v"
proof (induction e arbitrary: v rule: expr_children_induct)
  case (children e)
  note IH = children.IH [OF _ children.prems(1)]
  show ?case
  proof (cases e)
    case (Member t x m)
    show ?thesis
    proof (cases "\<exists>t'. x = TypeNameExpression t'")
      case True
      then show ?thesis using Member children.prems by (auto split: p4type.split_asm)
    next
      case False
      then show ?thesis using Member children.prems IH
        by (auto simp: eval_Member_field bind_eq_Some_conv intro: wf_val_field)
    qed
  next
    case (Binary b t l r)
    then show ?thesis using children.prems IH
      by (cases "b = LAnd \<or> b = LOr")
        (auto simp: eval_Binary_strict bind_eq_Some_conv intro: wf_val_binop split: if_split_asm)
  next
    case (StructExpression t fs)
    then show ?thesis using children.prems IH all_some_wf [of \<rho> "map snd fs"]
      by (auto simp: all_some_fields list_all_zip_snd simp del: map_map)
  next
    case (MethodCallExpression t m x ys)
    then show ?thesis using children.prems by (auto simp: bind_eq_Some_conv wf_env_def)
  next
    case (PathExpression t p)
    then show ?thesis using children.prems by (auto simp: wf_env_def)
  next
    case (Constant t x b)
    then show ?thesis using children.prems by (auto simp: eval_Constant_iff)
  qed (use children.prems IH in \<open>auto simp: bind_eq_Some_conv split: if_split_asm
         elim!: all_some_wf intro: wf_val_unop wf_val_cast wf_val_slice wf_val_nth\<close>)
qed

lemma shift_val_0: "b \<in> {Shl, Shr} \<Longrightarrow> wf_val x \<Longrightarrow> shift_val b x 0 = Some v \<Longrightarrow> v = x"
  by (cases x) (auto simp: norm_id)

lemma shift_amount_of_eval:
  assumes "shift_amount_of cf r = Ok ds (Some amt)" "eval \<rho> r = Some y" "shift_amount y = Some n"
  shows "amt = int n"
proof (cases "to_Constant r")
  case None
  with assms(1) obtain d i where "EnumInstance_resolve r = Ok d (Some i)"
    "\<exists>et m x. i = SerEnumInstance et m x"
    by (auto simp: shift_amount_of_def elim!: bind_comp_OkE split: if_split_asm option.split_asm enum_instance.split_asm)
  then show ?thesis using assms(2)
    by (cases r rule: EnumInstance_resolve.cases) (auto split: p4type.split_asm option.split_asm)
next
  case (Some c)
  then show ?thesis using assms
    by (cases c) (auto simp: shift_amount_of_def eval_Constant_iff split: if_split_asm)
qed

lemma shift_refines:
  assumes s: "shift cf b t l r = Ok ds e'" and b: "b \<in> {Shl, Shr}" and ok: "cf_ok \<rho> cf" "wf_env \<rho>"
  shows "refines \<rho> (Binary b t l r) e'"
proof (rule refinesI)
  fix v assume v: "eval \<rho> (Binary b t l r) = Some v"
  with b obtain x y n where xy: "eval \<rho> l = Some x" "eval \<rho> r = Some y" "shift_amount y = Some n"
    "shift_val b x n = Some v"
    by (auto simp: binop_val_def bind_eq_Some_conv)
  show "eval \<rho> e' = Some v"
  proof (cases "e' = Binary b t l r")
    case True
    with v show ?thesis by simp
  next
    case False
    with s obtain d0 r' d1 amt where r: "getConstant cf r = Ok d0 (Some r')"
      and amt: "shift_amount_of cf r' = Ok d1 (Some amt)"
      by (auto simp: shift_def Let_def elim!: bind_comp_OkE split: option.split_asm)
    have a: "amt = int n" using shift_amount_of_eval [OF amt getConstant_eval [OF r xy(2)] xy(3)] .
    show ?thesis
    proof (cases "n = 0")
      case True
      then show ?thesis using s r amt a xy shift_val_0 [OF b eval_wf [OF ok(2) xy(1)]]
        by (auto simp: shift_def Let_def)
    next
      case n: False
      with s r amt a False obtain d2 lt la lb d3 sh d4 d5 where
        l: "getConstant cf l = Ok d2 (Some (Constant lt la lb))" and sh: "asInt (int n) = Ok d3 sh" and
        ov: "overflowWidth cf sh = Ok d4 False" and e: "shift_constant cf b lt la lb sh = Ok d5 e'"
        by (auto simp: shift_def Let_def elim!: bind_comp_OkE
            split: option.split_asm if_split_asm comp.split_asm)
      from sh ov ok(1) have "sh = int n"
        by (auto dest!: asInt_OkD overflowWidth_OkD simp: cf_ok_def)
      with e shift_constant_eval [OF _ getConstant_eval [OF l xy(1)] xy(4) b] show ?thesis by auto
    qed
  qed
qed simp

lemma push_or_eq:
  assumes "0 \<le> r" "r < 2 ^ n"
  shows "push_bit n a OR r = a * 2 ^ n + (r::int)"
proof -
  have r: "r = take_bit n r" using assms by (simp add: take_bit_int_eq_self)
  have "push_bit n a AND take_bit n r = 0" by (auto simp: bit_eq_iff bit_simps)
  then have "push_bit n a + take_bit n r = push_bit n a OR take_bit n r" by (rule disjunctive_add_eq_or)
  with r show ?thesis by (simp add: push_bit_eq_mult)
qed

lemma fold_Concat_refines: 
  assumes s: "fold_Concat cf t l r = Ok ds e'"
  shows "refines \<rho> (Binary Concat t l r) e'"
proof (rule refinesI)
  fix v assume v: "eval \<rho> (Binary Concat t l r) = Some v"
  then obtain x y where xy: "eval \<rho> l = Some x" "eval \<rho> r = Some y" "concat_val x y = Some v"
    by (auto simp: binop_val_def bind_eq_Some_conv)
  show "eval \<rho> e' = Some v"
  proof (cases "e' = Binary Concat t l r")
    case True
    with v show ?thesis by simp
  next
    case ne: False
    with s obtain d0 l' d1 r' where l: "getConstant cf l = Ok d0 (Some l')"
      and r: "getConstant cf r = Ok d1 (Some r')"
      by (auto simp: fold_Concat_def Let_def elim!: bind_comp_OkE split: if_split_asm)
    note ev = getConstant_eval [OF l xy(1)] getConstant_eval [OF r xy(2)]
    show ?thesis
    proof (cases "\<exists>a b. l' = StringLiteral a \<and> r' = StringLiteral b")
      case True
      then show ?thesis using s l r ev xy by (auto simp: fold_Concat_def Let_def)
    next
      case False
      with s l r ne obtain wl sl lv lb wr sr rv rb d2 rvalue d3 d4 where
        c: "l' = Constant (Type_Bits wl sl) lv lb" "r' = Constant (Type_Bits wr sr) rv rb" and
        rvalue: "(if sr then handleOverflow (Type_Bits wr False) rv True else ret rv) = Ok d2 rvalue" and
        e: "mk_constant (Type_Bits (wl + wr) sl) (push_bit (nat wr) lv OR rvalue) lb False = Ok d3 e'"
        by (auto simp: fold_Concat_def Let_def Type_Bits_get_def elim!: bind_comp_OkE
            split: option.split_asm prod.split_asm if_split_asm comp.split_asm)
      from ev c have b: "0 \<le> wl" "in_range (nat wl) sl lv" "x = BitsV (nat wl) sl lv"
        "0 \<le> wr" "in_range (nat wr) sr rv" "y = BitsV (nat wr) sr rv"
        by (auto split: if_split_asm)
      then have "rvalue = rv mod 2 ^ nat wr" using rvalue
        by (auto simp: norm_def in_range_def dest!: handleOverflow_OkD split: if_split_asm)
      then have "push_bit (nat wr) lv OR rvalue = lv * 2 ^ nat wr + rv mod 2 ^ nat wr"
        using push_or_eq [of rvalue "nat wr" lv] by simp
      then show ?thesis using e xy b concat_in_range [OF b(2), of "nat wr" rv]
        by (auto dest!: eval_mk_constant_bits [where \<rho> = \<rho>] simp: norm_id nat_add_distrib)
    qed
  qed
qed simp

lemma slice_constant_eval:
  assumes "slice_constant cf cv cb l w = Ok ds e" "0 \<le> l"
  shows "eval \<rho> e = Some (BitsV (nat w) False (bits_of cv (nat l) (nat w)))"
  using assms
  by (auto simp: slice_constant_def Let_def Type_Bits_get_def and_mask_eq_mod push_bit_eq_mult
      drop_bit_eq_div bits_of_def norm_def split: comp.split_asm dest!: eval_mk_constant_bits [where \<rho> = \<rho>])

lemma slice_val_bits:
  assumes "slice_val x h l = Some v" "eval \<rho> (Constant t a b) = Some x"
  shows "v = BitsV (nat (h - l + 1)) False (bits_of a (nat l) (nat (h - l + 1))) \<and> 0 \<le> l \<and> l \<le> h"
  using assms by (auto simp: slice_val_def eval_Constant_iff split: if_split_asm)

lemma index_val_Constant: "eval \<rho> (Constant t a b) = Some x \<Longrightarrow> index_val x = Some i \<Longrightarrow> i = a"
  by (auto simp: eval_Constant_iff)

lemma fold_Slice_refines:
  assumes s: "fold_Slice cf t e0 e1 e2 = Ok ds e'" and ok: "cf_ok \<rho> cf"
  shows "refines \<rho> (Slice t e0 e1 e2) e'"
proof (rule refinesI)
  fix v assume v: "eval \<rho> (Slice t e0 e1 e2) = Some v"
  then obtain x y h z lo where x: "eval \<rho> e0 = Some x" "eval \<rho> e1 = Some y" "index_val y = Some h"
    "eval \<rho> e2 = Some z" "index_val z = Some lo" "slice_val x h lo = Some v"
    by (auto simp: bind_eq_Some_conv)
  show "eval \<rho> e' = Some v"
  proof (cases "e' = Slice t e0 e1 e2")
    case True
    with v show ?thesis by simp
  next
    case False
    with s obtain d0 d1 d2 ct cv cb mt mv mb lt lv lb d3 d4 d5 d6 d7 m l where
      c: "getConstant cf e1 = Ok d0 (Some (Constant mt mv mb))"
        "getConstant cf e2 = Ok d1 (Some (Constant lt lv lb))"
        "getConstant cf e0 = Ok d2 (Some (Constant ct cv cb))" and
      i: "asInt mv = Ok d3 m" "asInt lv = Ok d4 l" "0 \<le> l" and
      o: "overflowWidth cf m = Ok d5 False" "overflowWidth cf l = Ok d6 False" and
      e: "slice_constant cf cv cb l (m - l + 1) = Ok d7 e'"
      by (auto simp: fold_Slice_def Let_def elim!: bind_comp_OkE
          split: option.split_asm if_split_asm prod.split_asm)
    have hl: "h = mv" "lo = lv" using c x by (auto dest!: getConstant_eval intro: index_val_Constant)
    note sv = slice_val_bits [OF x(6) getConstant_eval [OF c(3) x(1)]]
    with i o ok hl have "m = mv \<and> l = lv"
      by (auto dest!: asInt_OkD overflowWidth_OkD simp: cf_ok_def)
    with sv hl show ?thesis using slice_constant_eval [OF e i(3), of \<rho>] by auto
  qed
qed simp

lemma fold_PlusSlice_refines:
  assumes s: "fold_PlusSlice cf t e0 e1 e2 = Ok ds e'" and ok: "cf_ok \<rho> cf"
  shows "refines \<rho> (PlusSlice t e0 e1 e2) e'"
proof (rule refinesI)
  fix v assume v: "eval \<rho> (PlusSlice t e0 e1 e2) = Some v"
  then obtain x y lo z n where x: "eval \<rho> e0 = Some x" "eval \<rho> e1 = Some y" "index_val y = Some lo"
    "eval \<rho> e2 = Some z" "index_val z = Some n" "slice_val x (lo + n - 1) lo = Some v"
    by (auto simp: bind_eq_Some_conv)
  show "eval \<rho> e' = Some v"
  proof (cases "e' = PlusSlice t e0 e1 e2")
    case True
    with v show ?thesis by simp
  next
    case False
    with s obtain d0 d1 d2 ct cv cb wt wv wb lt lv lb d3 d4 d5 d6 d7 w l where
      c: "getConstant cf e0 = Ok d0 (Some (Constant ct cv cb))"
        "getConstant cf e1 = Ok d1 (Some (Constant lt lv lb))"
        "getConstant cf e2 = Ok d2 (Some (Constant wt wv wb))" and
      i: "asInt wv = Ok d3 w" "asInt lv = Ok d4 l" "0 \<le> l" "0 \<le> w" and
      o: "overflowWidth cf l = Ok d5 False" "overflowWidth cf (l + w) = Ok d6 False" and
      e: "slice_constant cf cv cb l w = Ok d7 e'"
      by (auto simp: fold_PlusSlice_def Let_def elim!: bind_comp_OkE
          split: option.split_asm if_split_asm prod.split_asm)
    have hl: "lo = lv" "n = wv" using c x by (auto dest!: getConstant_eval intro: index_val_Constant)
    note sv = slice_val_bits [OF x(6) getConstant_eval [OF c(1) x(1)]]
    with i o ok hl have "w = wv \<and> l = lv"
      by (auto dest!: asInt_OkD overflowWidth_OkD simp: cf_ok_def)
    with sv hl show ?thesis using slice_constant_eval [OF e i(3), of \<rho>] by auto
  qed
qed simp

section \<open>Members, casts, tuples and paths\<close>

lemma map_of_all_some:
  assumes "all_some (map (eval \<rho>) (map snd fs)) = Some vs" "map_of (zip (map fst fs) vs) m = Some v"
  shows "\<exists>e. map_of fs m = Some e \<and> eval \<rho> e = Some v"
  using assms by (induction fs arbitrary: vs) (auto split: option.split_asm if_split_asm)

lemma fold_Member_eval:
  assumes m: "fold_Member cf ty t e m = Ok ds e'" and v: "eval \<rho> (Member t e m) = Some v"
    and st: "\<And>et n. ty = Type_Stack et n \<Longrightarrow> m \<noteq> ''size''"
  shows "eval \<rho> e' = Some v"
proof (cases "e' = Member t e m")
  case True
  with v show ?thesis by simp
next
  case ne: False
  then have tk: "typesKnown cf" using m by (auto simp: fold_Member_def split: if_split_asm)
  have "(case (ty, m = ''size'') of (Type_Stack et n, True) \<Rightarrow> A et n | _ \<Rightarrow> B) = B" for A and B :: "expr comp"
    using st by (cases ty; cases "m = ''size''") auto
  with m tk ne obtain d0 d1 x where x: "getConstant cf e = Ok d0 (Some x)"
    and mc: "member_of_constant ty t e m x = Ok d1 e'"
    by (auto simp: fold_Member_def elim!: bind_comp_OkE split: option.split_asm)
  show ?thesis
  proof (cases "\<exists>t'. e = TypeNameExpression t'")
    case True
    with x show ?thesis by auto
  next
    case False
    then obtain y where y: "eval \<rho> e = Some y" "field_val m y = Some v"
      using v by (auto simp: eval_Member_field bind_eq_Some_conv)
    note xy = getConstant_eval [OF x y(1)]
    from mc ne consider (list) lt es where "x = ListExpression lt es"
      | (struct) s fs c where "x = StructExpression s fs" "map_of fs m = Some c" "CloneConstants c = Ok d1 e'"
      by (auto simp: member_of_constant_def split: option.split_asm if_split_asm)
    then show ?thesis
    proof cases
      case list
      with xy y show ?thesis by auto
    next
      case struct
      with xy y map_of_all_some [of \<rho> fs _ m v] have "eval \<rho> c = Some v"
        by (auto simp: all_some_fields simp del: map_map)
      with struct(3) show ?thesis by (auto dest: CloneConstants_refines [where \<rho> = \<rho>] refinesD)
    qed
  qed
qed

lemma struct_fields_cast: "struct_fields t = Some fs \<Longrightarrow> cast_val t x = Some x"
  by (cases t) auto

lemma fold_Cast_refines:
  assumes c: "fold_Cast cf t e = Ok ds e'"
  shows "refines \<rho> (Cast t e) e'"
proof (rule refinesI)
  fix v assume v: "eval \<rho> (Cast t e) = Some v"
  then obtain y where y: "eval \<rho> e = Some y" "cast_val t y = Some v" by (auto simp: bind_eq_Some_conv)
  show "eval \<rho> e' = Some v"
  proof (cases "e' = Cast t e")
    case True
    with v show ?thesis by simp
  next
    case ne: False
    with c obtain d0 x where x: "getConstant cf e = Ok d0 (Some x)"
      by (auto simp: fold_Cast_def elim!: bind_comp_OkE split: option.split_asm)
    note xy = getConstant_eval [OF x y(1)]
    consider (bits) w s where "t = Type_Bits w s" | (int) "t = Type_InfInt" | (bool) "t = Type_Boolean"
      | (struct) fs where "struct_fields t = Some fs" | (other) "to_Type_Bits t = None" "t \<noteq> Type_InfInt"
        "t \<noteq> Type_Boolean" "struct_fields t = None"
      by (cases t) auto
    then show ?thesis
    proof cases
      case bits
      then have "\<exists>d. cast_to_bits t w s e x = Ok d e'"
        using c x by (auto simp: fold_Cast_def split: comp.split_asm)
      then obtain d where d: "cast_to_bits t w s e x = Ok d e'" by blast
      have "to_Member x = None \<or> (\<forall>d i. EnumInstance_resolve x = Ok d (Some i) \<longrightarrow> False)"
        using xy y(2) bits EnumInstance_resolve_eval [of x _ _ \<rho> y] by fastforce
      with d ne xy y bits show ?thesis
        by (auto simp: cast_to_bits_def eval_Constant_iff norm_def [of "Suc 0" False] elim!: bind_comp_OkE
            split: option.split_asm if_split_asm comp.split_asm enum_instance.split_asm
            dest!: eval_mk_constant_bits [where \<rho> = \<rho>])
    next
      case int
      then show ?thesis using c x ne xy y
        by (auto simp: fold_Cast_def cast_to_int_def eval_Constant_iff split: option.split_asm if_split_asm)
    next
      case bool
      then show ?thesis using c x ne xy y
        by (auto simp: fold_Cast_def cast_to_bool_def Let_def eval_Constant_iff elim!: bind_comp_OkE
            dest!: asInt_OkD split: option.split_asm if_split_asm comp.split_asm)
    next
      case struct
      then have "CloneConstants x = Ok (drop (length d0) ds) e'" using c x
        by (cases t) (auto simp: fold_Cast_def split: comp.split_asm)
      then show ?thesis using xy y struct_fields_cast [OF struct]
        by (auto dest: CloneConstants_refines [where \<rho> = \<rho>] refinesD)
    next
      case other
      with c x ne show ?thesis by (auto simp: fold_Cast_def)
    qed
  qed
qed simp

lemma all_some_nth: "all_some (map (eval \<rho>) es) = Some vs \<Longrightarrow> i < length es \<Longrightarrow> eval \<rho> (es ! i) = Some (vs ! i) \<and> length vs = length es"
  by (auto simp: all_some_Some_iff dest: map_eq_imp_length_eq) (metis length_map nth_map)

lemma fold_ArrayIndex_refines:
  assumes c: "fold_ArrayIndex cf ty t l r = Ok ds e'"
  shows "refines \<rho> (ArrayIndex t l r) e'"
proof (rule refinesI)
  fix v assume v: "eval \<rho> (ArrayIndex t l r) = Some v"
  then obtain x y i where x: "eval \<rho> l = Some x" "eval \<rho> r = Some y" "index_val y = Some i" "nth_val x i = Some v"
    by (auto simp: bind_eq_Some_conv)
  show "eval \<rho> e' = Some v"
  proof (cases "e' = ArrayIndex t l r")
    case True
    with v show ?thesis by simp
  next
    case False
    with c obtain d0 ct cv cb d1 idx d2 lt es d3 where
      r: "getConstant cf r = Ok d0 (Some (Constant ct cv cb))" and
      l: "getConstant cf l = Ok d1 (Some (ListExpression lt es))" and
      i: "asInt cv = Ok d2 idx" "fitsInt cv" "0 \<le> idx" "nat idx < length es" and
      e: "CloneConstants (es ! nat idx) = Ok d3 e'"
      by (auto simp: fold_ArrayIndex_def Let_def bind_eq_Some_conv elim!: bind_comp_OkE
          split: option.split_asm if_split_asm)
    have "i = cv" using getConstant_eval [OF r x(2)] x(3) by (rule index_val_Constant)
    moreover have "idx = cv" using i by (auto simp: asInt_def)
    moreover obtain vs where "x = TupleV vs" "all_some (map (eval \<rho>) es) = Some vs"
      using getConstant_eval [OF l x(1)] by auto
    ultimately have "eval \<rho> (es ! nat idx) = Some v"
      using x(4) i all_some_nth [of \<rho> es vs "nat idx"] by (auto split: if_split_asm)
    with e show ?thesis by (auto dest: CloneConstants_refines [where \<rho> = \<rho>] refinesD)
  qed
qed simp

lemma fold_PathExpression_refines:
  assumes "fold_PathExpression cf a t p = Ok ds e'" "cf_ok \<rho> cf"
  shows "refines \<rho> (PathExpression t p) e'"
proof (rule refinesI)
  fix v assume v: "eval \<rho> (PathExpression t p) = Some v"
  show "eval \<rho> e' = Some v"
  proof (cases "hook cf (PathExpression t p)")
    case (Some r)
    with assms have "refines \<rho> (PathExpression t p) e'" by (auto simp: fold_PathExpression_def cf_ok_def)
    with v show ?thesis by (rule refinesD [rotated])
  next
    case None
    show ?thesis
    proof (cases "e' = PathExpression t p")
      case False
      with assms(1) None obtain rm d ty init c where "refMap cf = Some rm"
        "rm p = Some (Declaration_Constant d ty init)" "constants cf d = Some c" "CloneConstants c = Ok ds e'"
        by (auto simp: fold_PathExpression_def Let_def split: option.split_asm decl.split_asm if_split_asm)
      moreover have "var_val \<rho> p = Some v" using v by simp
      with calculation assms(2) have "eval \<rho> c = Some v" unfolding cf_ok_def by blast
      ultimately show ?thesis using CloneConstants_refines [of c ds e' \<rho>] refinesD by blast
    qed (use v in simp)
  qed
qed simp

section \<open>The traversal\<close>

text \<open>
  Type correctness of the \<open>size\<close> members: the operand of such a member that is typed as a header
  stack is not a structure with a field of that name.
\<close>

function sizes_ok :: "sem_env \<Rightarrow> expr \<Rightarrow> bool" where
  "sizes_ok \<rho> e =
     ((case e of
         Member t x m \<Rightarrow>
           (case type_of x of
              Type_Stack et n \<Rightarrow> m = ''size'' \<longrightarrow> eval \<rho> (Member t x m) = None
            | _ \<Rightarrow> True)
       | _ \<Rightarrow> True) \<and> list_all (sizes_ok \<rho>) (children e))"
  by auto
termination by (relation "measure (\<lambda>(\<rho>, e). size e)") (auto simp: size_children)

declare sizes_ok.simps [simp del]

lemma postorder_eval:
  assumes p: "postorder cf a orig e = Ok ds e'" and ok: "cf_ok \<rho> cf" "wf_env \<rho>"
    and v: "eval \<rho> e = Some v"
    and m: "\<And>t x m et n. e = Member t x m \<Longrightarrow> type_of (hd (children orig)) = Type_Stack et n \<Longrightarrow> m \<noteq> ''size''"
  shows "eval \<rho> e' = Some v"
proof (cases e)
  case (Binary b t l r)
  have "refines \<rho> e e'"
    using p Binary ok
    by (cases b) (auto simp: postorder_def fold_Binary_def intro: fold_LAnd_refines fold_LOr_refines
        compare_refines_aux(1) shift_refines fold_Concat_refines binary_refines)
  with v show ?thesis by (rule refinesD [rotated])
next
  case (Unary u t x)
  have "refines \<rho> e e'"
    using p Unary by (cases u) (auto simp: postorder_def
        intro: fold_Cmpl_refines fold_Neg_refines fold_UPlus_refines fold_LNot_refines)
  with v show ?thesis by (rule refinesD [rotated])
next
  case (Member t x m)
  with p have "fold_Member cf (type_of (hd (children orig))) t x m = Ok ds e'" by (simp add: postorder_def)
  then show ?thesis using v m Member by (auto intro: fold_Member_eval)
qed (use p v ok in \<open>auto simp: postorder_def dest!: fold_PathExpression_refines fold_Cast_refines
      fold_Mux_refines fold_Slice_refines fold_PlusSlice_refines intro: refinesD\<close>)

theorem fold_expr_refines:
  assumes "fold_expr cf a e = Ok ds e'" "cf_ok \<rho> cf" "wf_env \<rho>" "sizes_ok \<rho> e"
  shows "refines \<rho> e e'"
  using assms
proof (induction e arbitrary: a ds e' rule: expr_children_induct)
  case (children e)
  have sub: "sizes_ok \<rho> x" if "x \<in> set (children e)" for x
    using children.prems(4) that by (subst (asm) sizes_ok.simps) (auto simp: list_all_iff)
  note IH = children.IH [OF _ _ children.prems(2,3) sub]
  show ?case
  proof (cases "\<exists>t l r. e = ArrayIndex t l r")
    case True
    then obtain t l r where e: "e = ArrayIndex t l r" by blast
    with children.prems(1) obtain d1 l' d2 r' d3 where
      f: "fold_expr cf a l = Ok d1 l'" "fold_expr cf False r = Ok d2 r'"
        "fold_ArrayIndex cf (type_of l) t l' r' = Ok d3 e'"
      by (subst (asm) fold_expr.simps) (auto elim!: bind_comp_OkE)
    with e IH have "refines \<rho> l l'" "refines \<rho> r r'" by auto
    with e have "refines \<rho> e (ArrayIndex t l' r')"
      using with_children_refines [of \<rho> e "[l', r']"] by simp
    with fold_ArrayIndex_refines [OF f(3)] show ?thesis by (rule refines_trans [rotated])
  next
    case False
    with children.prems(1) obtain d1 m d2 where
      m: "visit_children (fold_expr cf a) e = Ok d1 m" "postorder cf a e m = Ok d2 e'"
      by (subst (asm) fold_expr.simps) (cases e; auto elim!: bind_comp_OkE)
    have em: "refines \<rho> e m" using visit_children_refines [OF m(1)] IH by blast
    show ?thesis
      unfolding refines_def
    proof (intro conjI allI impI)
      fix v assume v: "eval \<rho> e = Some v"
      show "eval \<rho> e' = Some v"
      proof (rule postorder_eval [OF m(2) children.prems(2,3) refinesD [OF em v]])
        fix t x n et k assume mm: "m = Member t x n" "type_of (hd (children e)) = Type_Stack et k"
        then obtain x0 where e: "e = Member t x0 n" 
          using m(1) by (cases e) (auto simp: visit_children_def elim!: bind_comp_OkE)
        with children.prems(4) v mm show "n \<noteq> ''size''"
          by (subst (asm) sizes_ok.simps) auto
      qed
    next
      fix t assume "e = TypeNameExpression t"
      then show "e' = e" using m by (auto simp: visit_children_def postorder_def)
    qed
  qed
qed

end
