(* ===== verification/ConstFold_Stmt.thy ===== *)
theory ConstFold_Stmt
  imports ConstFold_Correct
begin

text \<open>
  The rest of the constant folder (frontends/common/constantFolding.cpp): the widths of types
  given by expressions, the declarations of constants, select expressions of parsers, and
  statements, with what each of them preserves.
\<close>

section \<open>Types whose width is an expression\<close>

text \<open>The fields of a \<open>Type_Bits\<close> or \<open>Type_Varbits\<close> node: \<open>width_expr\<close> is the null pointer once
  the size is known.\<close>

record sized_type =
  bits_size :: int
  bits_signed :: bool
  width_expr :: "expr option"

definition fold_Type_Bits :: "sized_type \<Rightarrow> sized_type comp" where
  "fold_Type_Bits ty =
     (case width_expr ty of None \<Rightarrow> ret ty
      | Some e \<Rightarrow>
          (case to_Constant e of
             None \<Rightarrow> report (Error ERR_EXPECTED) ty
           | Some (ct, v, b) \<Rightarrow>
               bind_comp (asInt v) (\<lambda>size.
                 if size < 0 \<or> (size = 0 \<and> bits_signed ty)
                 then report (Error ERR_INVALID) (ty\<lparr>bits_size := 64, width_expr := None\<rparr>)
                 else ret (ty\<lparr>bits_size := size, width_expr := None\<rparr>))))"

definition fold_Type_Varbits :: "sized_type \<Rightarrow> sized_type comp" where
  "fold_Type_Varbits ty =
     (case width_expr ty of None \<Rightarrow> ret ty
      | Some e \<Rightarrow>
          (case to_Constant e of
             None \<Rightarrow> report (Error ERR_EXPECTED) ty
           | Some (ct, v, b) \<Rightarrow>
               bind_comp (asInt v) (\<lambda>size.
                 Ok (if size < 0 then [Error ERR_INVALID] else [])
                   (ty\<lparr>bits_size := size, width_expr := None\<rparr>))))"

section \<open>Declarations of constants\<close>

text \<open>
  The result is the initializer of the new declaration and the map of the constants.  A value
  already recorded for the declaration is kept (\<open>std::map::emplace\<close>).
\<close>

definition emplace_constant :: "cf_env \<Rightarrow> nat \<Rightarrow> expr \<Rightarrow> cf_env" where
  "emplace_constant cf d init =
     (if constants cf d = None then cf\<lparr>constants := (constants cf)(d := Some init)\<rparr> else cf)"

datatype decl_init = Keep | Init expr

definition retyped_initializer :: "p4type \<Rightarrow> expr \<Rightarrow> decl_init comp" where
  "retyped_initializer dtype init =
     (case to_Constant init of
        None \<Rightarrow> ret (Init init)
      | Some (ct, v, b) \<Rightarrow>
          if is_Type_Bits dtype then
            (if is_Type_Bits ct \<and> dtype \<noteq> ct then report (Error ERR_TYPE_ERROR) (Init init)
             else if ct = Type_InfInt then bind_comp (mk_constant dtype v b False) (\<lambda>c. ret (Init c))
             else ret (Init init))
          else if dtype \<noteq> Type_InfInt then ret Keep
          else if ct \<noteq> Type_InfInt then bind_comp (mk_constant Type_InfInt v b False) (\<lambda>c. ret (Init c))
          else ret (Init init))"

fun is_StructExpression_or_Cast :: "expr \<Rightarrow> bool" where
  "is_StructExpression_or_Cast (StructExpression t fs) = True"
| "is_StructExpression_or_Cast (Cast t e) = True"
| "is_StructExpression_or_Cast e = False"

definition fold_Declaration_Constant ::
  "cf_env \<Rightarrow> nat \<Rightarrow> p4type \<Rightarrow> expr \<Rightarrow> (expr \<times> cf_env) comp" where
  "fold_Declaration_Constant cf d dtype initializer =
     bind_comp (getConstant cf initializer) (\<lambda>c.
       case c of
         None \<Rightarrow> Ok (if typesKnown cf then [Error ERR_INVALID] else []) (initializer, cf)
       | Some init \<Rightarrow>
           if typesKnown cf then ret (initializer, emplace_constant cf d init)
           else bind_comp (retyped_initializer dtype init) (\<lambda>k.
             case k of
               Keep \<Rightarrow> ret (initializer, cf)
             | Init init' \<Rightarrow>
                 if is_StructExpression_or_Cast init' then ret (init', cf)
                 else ret (init', emplace_constant cf d init')))"

lemma retyped_initializer_eval:
  assumes "retyped_initializer dtype init = Ok ds (Init c)" "eval \<rho> init = Some x"
    and "cast_val dtype x = Some v" "\<forall>e. Error e \<notin> set ds" "to_Constant init \<noteq> None"
  shows "eval \<rho> c = Some v"
proof -
  obtain ct n b where init: "init = Constant ct n b" using assms(5) by auto
  have id: "norm (nat w) s y = y" if "in_range (nat w) s y" for w s y using that by (rule norm_id)
  show ?thesis using assms(1-4) init
    by (auto simp: retyped_initializer_def eval_Constant_iff is_Type_Bits_iff id
        elim!: bind_comp_OkE dest!: eval_mk_constant_bits [where \<rho> = \<rho>] split: if_split_asm comp.split_asm)
qed

section \<open>Select expressions\<close>

datatype set_result = Yes | No | DontKnow

fun range_or_mask :: "expr \<Rightarrow> (bool \<times> expr \<times> expr) option" where
  "range_or_mask (Range t l r) = Some (True, l, r)"
| "range_or_mask (Mask t l r) = Some (False, l, r)"
| "range_or_mask e = None"

fun is_DefaultExpression :: "expr \<Rightarrow> bool" where
  "is_DefaultExpression (DefaultExpression t) = True"
| "is_DefaultExpression e = False"

text \<open>The end of \<open>setContains\<close>: the selector is the integer \<open>sv\<close>.\<close>

definition int_setContains :: "cf_env \<Rightarrow> expr \<Rightarrow> int \<Rightarrow> set_result comp" where
  "int_setContains cf keySet sv =
     (case to_Constant keySet of
        Some (kt, kv, kb) \<Rightarrow> ret (if kv = sv then Yes else No)
      | None \<Rightarrow>
          case range_or_mask keySet of None \<Rightarrow> ret DontKnow
          | Some (isRange, l, r) \<Rightarrow>
              bind_comp (getConstant cf l) (\<lambda>left.
                case left of None \<Rightarrow> report (Error ERR_INVALID) DontKnow
                | Some left' \<Rightarrow>
                    bind_comp (getConstant cf r) (\<lambda>right.
                      case right of None \<Rightarrow> report (Error ERR_INVALID) DontKnow
                      | Some right' \<Rightarrow>
                          (case (to_Constant left', to_Constant right') of
                             (Some (lt, lv, lb), Some (rt, rv, rb)) \<Rightarrow>
                               (if isRange then ret (if lv \<le> sv \<and> rv \<ge> sv then Yes else No)
                                else ret (if lv AND rv = rv AND sv then Yes else No))
                           | _ \<Rightarrow> Bug ''null constant''))))"

fun setContains :: "cf_env \<Rightarrow> expr \<Rightarrow> expr \<Rightarrow> set_result comp"
  and setContains_list :: "cf_env \<Rightarrow> expr list \<Rightarrow> expr list \<Rightarrow> set_result comp" where
  "setContains cf keySet (ListExpression t ss) =
     (if is_DefaultExpression keySet then ret Yes
      else case to_ListExpression keySet of
             Some (kt, ks) \<Rightarrow>
               (if length ss \<noteq> length ks then Bug ''size mismatch'' else setContains_list cf ks ss)
           | None \<Rightarrow>
               (case ss of [s] \<Rightarrow> setContains cf keySet s | _ \<Rightarrow> Bug ''mismatch in list size''))"
| "setContains cf keySet (BoolLiteral b) =
     (if is_DefaultExpression keySet then ret Yes
      else bind_comp (getConstant cf keySet) (\<lambda>key.
        case key of
          None \<Rightarrow> report (Error ERR_TYPE_ERROR) No
        | Some k \<Rightarrow>
            (case to_BoolLiteral k of
               None \<Rightarrow> Bug ''expected a boolean''
             | Some kb \<Rightarrow> ret (if b = kb then Yes else No))))"
| "setContains cf keySet (Member t e m) =
     (if is_DefaultExpression keySet then ret Yes
      else bind_comp (getConstant cf keySet) (\<lambda>key.
        case key of
          None \<Rightarrow> report (Error ERR_TYPE_ERROR) No
        | Some k \<Rightarrow>
            bind_comp (getConstant cf (Member t e m)) (\<lambda>sel.
              case sel of
                None \<Rightarrow> Bug ''expected a constant expression''
              | Some s \<Rightarrow> ret (if k = s then Yes else No))))"
| "setContains cf keySet (Constant t v b) =
     (if is_DefaultExpression keySet then ret Yes else int_setContains cf keySet v)"
| "setContains cf keySet e =
     (if is_DefaultExpression keySet then ret Yes else Bug ''expected a constant'')"
| "setContains_list cf (k # ks) (s # ss) =
     bind_comp (setContains cf k s) (\<lambda>r.
       if r = DontKnow \<or> r = No then ret r else setContains_list cf ks ss)"
| "setContains_list cf ks ss = ret Yes"

text \<open>A select case: the key set and the name of the state.  The result of the pass on a select
  expression is a state, or a select expression with other cases.\<close>

datatype select_result = GoTo string | SelectCases "(expr \<times> string) list"

fun select_loop ::
  "cf_env \<Rightarrow> p4type \<Rightarrow> expr \<Rightarrow> bool \<Rightarrow> (expr \<times> string) list \<Rightarrow> bool \<Rightarrow> bool \<Rightarrow> (expr \<times> string) list \<Rightarrow> string option
     \<Rightarrow> (bool \<times> (expr \<times> string) list \<times> string option) comp" where
  "select_loop cf sty sel finished [] someUnknown changes cases result = ret (changes, cases, result)"
| "select_loop cf sty sel finished ((ks, st) # cs) someUnknown changes cases result =
     (if finished then
        bind_comp (Ok (if warnings cf then [Warning WARN_PARSER_TRANSITION] else []) ())
          (\<lambda>_. select_loop cf sty sel finished cs someUnknown changes cases result)
      else bind_comp (setContains cf ks sel) (\<lambda>inside.
        case inside of
          No \<Rightarrow> select_loop cf sty sel finished cs someUnknown True cases result
        | DontKnow \<Rightarrow> select_loop cf sty sel finished cs True changes (cases @ [(ks, st)]) result
        | Yes \<Rightarrow>
            if someUnknown then
              select_loop cf sty sel True cs someUnknown
                (changes \<or> \<not> is_DefaultExpression ks)
                (cases @ [(DefaultExpression sty, st)]) result
            else select_loop cf sty sel True cs someUnknown changes cases (Some st)))"

definition fold_SelectExpression ::
  "cf_env \<Rightarrow> expr \<Rightarrow> (expr \<times> string) list \<Rightarrow> select_result comp" where
  "fold_SelectExpression cf select selectCases =
     (if \<not> typesKnown cf then ret (SelectCases selectCases)
      else bind_comp (getConstant cf select) (\<lambda>c.
        case c of
          None \<Rightarrow> ret (SelectCases selectCases)
        | Some sel \<Rightarrow>
            bind_comp (select_loop cf (type_of select) sel False selectCases False False [] None)
              (\<lambda>(changes, cases, result).
                 let cases' = (if changes then cases else selectCases)
                 in Ok (if changes \<and> cases = [] \<and> result = None \<and> warnings cf
                        then [Warning WARN_PARSER_TRANSITION] else [])
                      (case result of Some st \<Rightarrow> GoTo st | None \<Rightarrow> SelectCases cases'))))"

text \<open>
  When a key set matches a value.  A list matches a tuple component-wise and any other key set
  matches a tuple of one component; integers match by their value (the type checker gives keys
  the type of the selector).  The value sets are run-time configuration: an arbitrary \<open>vs\<close>.
\<close>

fun same_val :: "val \<Rightarrow> val \<Rightarrow> bool" where
  "same_val (BitsV w s a) y = (index_val y = Some a)"
| "same_val (InfV a) y = (index_val y = Some a)"
| "same_val x y = (x = y)"

definition key_int :: "sem_env \<Rightarrow> expr \<Rightarrow> int option" where
  "key_int \<rho> e =
     (case to_Constant e of
        Some (t, a, b) \<Rightarrow> Some a
      | None \<Rightarrow> Option.bind (eval \<rho> e) index_val)"

fun ks_match :: "sem_env \<Rightarrow> (expr \<Rightarrow> val \<Rightarrow> bool) \<Rightarrow> expr \<Rightarrow> val \<Rightarrow> bool"
  and ks_matches :: "sem_env \<Rightarrow> (expr \<Rightarrow> val \<Rightarrow> bool) \<Rightarrow> expr list \<Rightarrow> val list \<Rightarrow> bool"
  and atom_match :: "sem_env \<Rightarrow> (expr \<Rightarrow> val \<Rightarrow> bool) \<Rightarrow> expr \<Rightarrow> val \<Rightarrow> bool" where
  "ks_match \<rho> vs k (TupleV xs) =
     (if is_DefaultExpression k then True
      else case k of
             ListExpression t ks \<Rightarrow> ks_matches \<rho> vs ks xs
           | _ \<Rightarrow> (case xs of [x] \<Rightarrow> ks_match \<rho> vs k x | _ \<Rightarrow> False))"
| "ks_match \<rho> vs k x = atom_match \<rho> vs k x"
| "ks_matches \<rho> vs [] [] = True"
| "ks_matches \<rho> vs (k # ks) (x # xs) = (ks_match \<rho> vs k x \<and> ks_matches \<rho> vs ks xs)"
| "ks_matches \<rho> vs _ _ = False"
| "atom_match \<rho> vs (DefaultExpression t) v = True"
| "atom_match \<rho> vs (Constant t a b) v = (index_val v = Some a)"
| "atom_match \<rho> vs (Range t l r) v =
     (case (key_int \<rho> l, key_int \<rho> r, index_val v) of
        (Some a, Some b, Some x) \<Rightarrow> a \<le> x \<and> x \<le> b
      | _ \<Rightarrow> False)"
| "atom_match \<rho> vs (Mask t l r) v =
     (case (key_int \<rho> l, key_int \<rho> r, index_val v) of
        (Some a, Some b, Some x) \<Rightarrow> a AND b = x AND b
      | _ \<Rightarrow> False)"
| "atom_match \<rho> vs k v = (case eval \<rho> k of Some y \<Rightarrow> same_val y v | None \<Rightarrow> vs k v)"

text \<open>A transition takes the first case whose key set matches.\<close>

fun select_state :: "sem_env \<Rightarrow> (expr \<Rightarrow> val \<Rightarrow> bool) \<Rightarrow> (expr \<times> string) list \<Rightarrow> val \<Rightarrow> string option" where
  "select_state \<rho> vs [] v = None"
| "select_state \<rho> vs ((k, st) # cs) v = (if ks_match \<rho> vs k v then Some st else select_state \<rho> vs cs v)"

lemma select_state_append:
  "select_state \<rho> vs (cs @ ds) v =
     (case select_state \<rho> vs cs v of Some st \<Rightarrow> Some st | None \<Rightarrow> select_state \<rho> vs ds v)"
  by (induction cs) auto

lemma is_DefaultExpression_iff: "is_DefaultExpression k \<longleftrightarrow> (\<exists>t. k = DefaultExpression t)"
  by (cases k) auto

lemma ks_match_Default [simp]: "is_DefaultExpression k \<Longrightarrow> ks_match \<rho> vs k v" "is_DefaultExpression k \<Longrightarrow> atom_match \<rho> vs k v"
  by (cases v; auto simp: is_DefaultExpression_iff) (auto simp: is_DefaultExpression_iff)

text \<open>
  What type checking guarantees of key sets: an enumeration value is written as a member of its
  type, with one name for the type, and a key set that stands for a value set is no constant.
\<close>

fun is_EnumV :: "val option \<Rightarrow> bool" where
  "is_EnumV (Some (EnumV n m)) = True"
| "is_EnumV v = False"

fun key_ok :: "sem_env \<Rightarrow> (string \<Rightarrow> p4type \<times> p4type) \<Rightarrow> expr \<Rightarrow> bool" where
  "key_ok \<rho> tn (Member (Type_Enum n ms) (TypeNameExpression t') m) = (tn n = (Type_Enum n ms, t'))"
| "key_ok \<rho> tn (ListExpression t es) = list_all (key_ok \<rho> tn) es"
| "key_ok \<rho> tn k = (\<not> is_EnumV (eval \<rho> k))"

definition value_sets_ok :: "cf_env \<Rightarrow> (expr \<Rightarrow> val \<Rightarrow> bool) \<Rightarrow> bool" where
  "value_sets_ok cf vs \<longleftrightarrow> (\<forall>k v ds c. vs k v \<longrightarrow> getConstant cf k \<noteq> Ok ds (Some c))"

lemma getConstant_literal:
  "getConstant cf e = Ok ds (Some (Constant t v b)) \<Longrightarrow> e = Constant t v b"
  "getConstant cf e = Ok ds (Some (BoolLiteral p)) \<Longrightarrow> e = BoolLiteral p"
  "getConstant cf e = Ok ds (Some (Member ty x m)) \<Longrightarrow> e = Member ty x m"
  by (drule getConstant_cases; auto)+

lemma int_setContains_correct:
  assumes "int_setContains cf ks a = Ok ds res" "\<forall>e. Error e \<notin> set ds" "index_val v = Some a"
  shows "(res = Yes \<longrightarrow> atom_match \<rho> vs ks v) \<and> (res = No \<longrightarrow> \<not> atom_match \<rho> vs ks v)"
proof (cases "to_Constant ks")
  case (Some c)
  then show ?thesis using assms by (cases c) (auto simp: int_setContains_def split: if_split_asm)
next
  case None
  show ?thesis
  proof (cases "range_or_mask ks")
    case None
    with \<open>to_Constant ks = None\<close> assms show ?thesis by (auto simp: int_setContains_def)
  next
    case (Some c)
    obtain isR l r where c: "c = (isR, l, r)" by (cases c)
    show ?thesis
    proof (cases "res = DontKnow")
      case False
      with assms(1,2) \<open>to_Constant ks = None\<close> Some c obtain d0 d1 lt lv lb rt rv rb where
        "getConstant cf l = Ok d0 (Some (Constant lt lv lb))"
        "getConstant cf r = Ok d1 (Some (Constant rt rv rb))"
        "res = (if isR then if lv \<le> a \<and> a \<le> rv then Yes else No
                else if lv AND rv = rv AND a then Yes else No)"
        by (auto simp: int_setContains_def elim!: bind_comp_OkE split: option.split_asm if_split_asm)
      then have "l = Constant lt lv lb" "r = Constant rt rv rb" and
        res: "res = (if isR then if lv \<le> a \<and> a \<le> rv then Yes else No
                else if lv AND rv = rv AND a then Yes else No)"
        by (auto dest: getConstant_literal)
      then show ?thesis using Some c assms(3)
        by (cases ks) (auto simp: key_int_def and.commute)
    qed simp
  qed
qed

lemma ks_match_atom:
  "(\<And>xs. v \<noteq> TupleV xs) \<Longrightarrow> ks_match \<rho> vs k v = atom_match \<rho> vs k v"
  by (cases v) auto

lemma atom_match_eval:
  assumes "getConstant cf k = Ok ds (Some c)" "value_sets_ok cf vs" "to_Constant k = None"
  shows "atom_match \<rho> vs k v \<longleftrightarrow> (\<exists>y. eval \<rho> k = Some y \<and> same_val y v)"
proof -
  have "\<not> vs k v" using assms(1,2) by (auto simp: value_sets_ok_def)
  then show ?thesis using assms(1,3) by (cases k) (auto split: option.split)
qed

lemma same_val_EnumV: "same_val y (EnumV n m) \<longleftrightarrow> y = EnumV n m"
  by (cases y) auto

lemma eval_EnumV_key:
  assumes "eval \<rho> k = Some (EnumV n m)" "key_ok \<rho> tn k"
  shows "\<exists>ms t'. k = Member (Type_Enum n ms) (TypeNameExpression t') m \<and> tn n = (Type_Enum n ms, t')"
  using assms by (cases "(\<rho>, tn, k)" rule: key_ok.cases) auto

lemma enum_setContains_correct:
  assumes k: "getConstant cf ks = Ok d0 (Some k)" and sel: "getConstant cf (Member t e m) = Ok d1 (Some s)"
    and v: "eval \<rho> (Member t e m) = Some v" and ok: "key_ok \<rho> tn ks" "key_ok \<rho> tn (Member t e m)"
    and vs: "value_sets_ok cf vs"
  shows "ks_match \<rho> vs ks v \<longleftrightarrow> k = s"
proof -
  have s: "s = Member t e m" using sel getConstant_cases [OF sel] by auto
  from sel obtain d i where "EnumInstance_resolve (Member t e m) = Ok d (Some i)"
    by (auto elim!: bind_comp_OkE split: if_split_asm)
  from EnumInstance_resolve_eval [OF this v] obtain n m' where n: "v = EnumV n m'" by blast
  with eval_EnumV_key [of \<rho> "Member t e m"] v ok(2) obtain ms t' where
    e: "Member t e m = Member (Type_Enum n ms) (TypeNameExpression t') m'" "tn n = (Type_Enum n ms, t')"
    by blast
  show ?thesis
  proof (cases "to_Constant ks")
    case (Some c)
    then obtain a b x where c: "ks = Constant a b x" by (cases c) auto
    then show ?thesis using k s n by auto
  next
    case None
    have "ks_match \<rho> vs ks v \<longleftrightarrow> eval \<rho> ks = Some (EnumV n m')"
      using atom_match_eval [OF k vs None] n by (simp add: ks_match_atom same_val_EnumV)
    also have "\<dots> \<longleftrightarrow> k = s"
    proof
      assume "eval \<rho> ks = Some (EnumV n m')"
      from eval_EnumV_key [OF this ok(1)] e have "ks = Member t e m" by auto
      with k s show "k = s" by (auto dest: getConstant_cases simp del: getConstant.simps)
    next
      assume "k = s"
      with k s have "ks = Member t e m" by (auto dest: getConstant_literal)
      with v n show "eval \<rho> ks = Some (EnumV n m')" by simp
    qed
    finally show ?thesis .
  qed
qed

lemma setContains_correct:
  "setContains cf ks sel = Ok ds res \<Longrightarrow> \<forall>e. Error e \<notin> set ds \<Longrightarrow> value_sets_ok cf vs \<Longrightarrow>
     eval \<rho> sel = Some v \<Longrightarrow> key_ok \<rho> tn ks \<Longrightarrow> key_ok \<rho> tn sel \<Longrightarrow>
     (res = Yes \<longrightarrow> ks_match \<rho> vs ks v) \<and> (res = No \<longrightarrow> \<not> ks_match \<rho> vs ks v)"
  "setContains_list cf kss sels = Ok ds' res' \<Longrightarrow> \<forall>e. Error e \<notin> set ds' \<Longrightarrow> value_sets_ok cf vs \<Longrightarrow>
     length kss = length sels \<Longrightarrow> all_some (map (eval \<rho>) sels) = Some vals \<Longrightarrow>
     list_all (key_ok \<rho> tn) kss \<Longrightarrow> list_all (key_ok \<rho> tn) sels \<Longrightarrow>
     (res' = Yes \<longrightarrow> ks_matches \<rho> vs kss vals) \<and> (res' = No \<longrightarrow> \<not> ks_matches \<rho> vs kss vals)"
proof (induction cf ks sel and cf kss sels arbitrary: ds res v and ds' res' vals
    rule: setContains_setContains_list.induct)
  case (1 cf ks t ss)
  show ?case
  proof (cases "is_DefaultExpression ks")
    case True
    then show ?thesis using 1(3) by (cases ks) auto
  next
    case nd: False
    obtain vals where vals: "v = TupleV vals" "all_some (map (eval \<rho>) ss) = Some vals" using 1(6) by auto
    have ok: "list_all (key_ok \<rho> tn) ss" using 1(8) by simp
    show ?thesis
    proof (cases "to_ListExpression ks")
      case (Some p)
      then obtain kt kss where k: "ks = ListExpression kt kss" by (cases p) auto
      with 1(3) have "length kss = length ss" "setContains_list cf kss ss = Ok ds res"
        by (auto split: if_split_asm)
      moreover have "p = (kt, kss)" using Some k by simp
      ultimately show ?thesis using 1(2) [OF nd Some] 1(4,5,7) k vals ok by auto
    next
      case None
      with 1(3) nd obtain x where x: "ss = [x]" "setContains cf ks x = Ok ds res"
        by (auto split: list.split_asm)
      then obtain y where y: "eval \<rho> x = Some y" "vals = [y]" using vals by (auto split: option.split_asm)
      have "ks_match \<rho> vs ks v = ks_match \<rho> vs ks y"
        using None nd vals y by (cases ks) auto
      with 1(1) [OF nd None x(1) refl x(2)] 1(4,5,7) y ok x show ?thesis by auto
    qed
  qed
next
  case (2 cf ks b)
  show ?case
  proof (cases "is_DefaultExpression ks")
    case True
    then show ?thesis using 2(1) by (cases ks) auto
  next
    case False
    with 2(1,2) obtain d kb where "getConstant cf ks = Ok d (Some (BoolLiteral kb))" "res = (if b = kb then Yes else No)"
      by (auto elim!: bind_comp_OkE split: option.split_asm)
    then show ?thesis using 2(4) by (auto dest: getConstant_literal)
  qed
next
  case (3 cf ks t e m)
  show ?case
  proof (cases "is_DefaultExpression ks")
    case True
    then show ?thesis using 3(1) by (cases ks) auto
  next
    case False
    with 3(1,2) obtain d0 k d1 s where k: "getConstant cf ks = Ok d0 (Some k)"
      "getConstant cf (Member t e m) = Ok d1 (Some s)" "res = (if k = s then Yes else No)"
      by (auto elim!: bind_comp_OkE split: option.split_asm simp del: getConstant.simps)
    from enum_setContains_correct [OF k(1,2) 3(4,5,6,3)] k(3) show ?thesis by auto
  qed
next
  case (4 cf ks t n b)
  show ?case
  proof (cases "is_DefaultExpression ks")
    case True
    then show ?thesis using 4(1) by (cases ks) auto
  next
    case False
    moreover have "index_val v = Some n" "\<And>xs. v \<noteq> TupleV xs" using 4(4) by (auto simp: eval_Constant_iff)
    ultimately show ?thesis using 4(1,2) int_setContains_correct [of cf ks n ds res v] by (auto simp: ks_match_atom)
  qed
next
  case (6 cf k ks s ss)
  then obtain y ys where y: "eval \<rho> s = Some y" "all_some (map (eval \<rho>) ss) = Some ys" "vals = y # ys"
    by (auto split: option.split_asm)
  from 6(3) obtain d1 r d2 where r: "setContains cf k s = Ok d1 r"
    "(if r = DontKnow \<or> r = No then ret r else setContains_list cf ks ss) = Ok d2 res'" "ds' = d1 @ d2"
    by (auto elim!: bind_comp_OkE)
  from 6(1) [OF r(1)] 6(4-) y r have a: "(r = Yes \<longrightarrow> ks_match \<rho> vs k y) \<and> (r = No \<longrightarrow> \<not> ks_match \<rho> vs k y)"
    by auto
  show ?case
  proof (cases "r = Yes")
    case True
    with 6(2) [OF r(1)] r 6(4-) y a show ?thesis by auto
  next
    case False
    with r a y show ?thesis by (cases r) auto
  qed
qed (auto split: if_split_asm)

text \<open>
  The loop over the cases: \<open>pre\<close> are the cases that are kept, \<open>cs\<close> those still to come.  Nothing
  is decided before the loop is finished, and a case that is left out does not match.
\<close>

lemma select_loop_finished:
  "select_loop cf sty sel True cs u ch pre r = Ok ds x \<Longrightarrow> x = (ch, pre, r)"
  by (induction cs arbitrary: ds) (auto elim!: bind_comp_OkE split: comp.split_asm)

lemma select_loop_correct:
  assumes "select_loop cf sty sel False cs u ch pre None = Ok ds (ch', pre', r)"
    and "\<forall>e. Error e \<notin> set ds" "value_sets_ok cf vs" "eval \<rho> sel = Some v" "key_ok \<rho> tn sel"
    and "\<forall>c \<in> set cs. key_ok \<rho> tn (fst c)" "u \<longleftrightarrow> pre \<noteq> []"
  shows "(case r of
            Some st \<Rightarrow> pre = [] \<and> select_state \<rho> vs cs v = Some st
          | None \<Rightarrow> select_state \<rho> vs pre' v = select_state \<rho> vs (pre @ cs) v)
         \<and> (\<not> ch' \<longrightarrow> r = None \<longrightarrow> \<not> ch)"
  using assms
proof (induction cs arbitrary: u ch pre ds)
  case (Cons c cs)
  obtain k st where c: "c = (k, st)" by (cases c)
  from Cons.prems(1) c obtain d1 res where sc: "setContains cf k sel = Ok d1 res" and d1: "set d1 \<subseteq> set ds"
    by (auto elim!: bind_comp_OkE)
  have ok: "(res = Yes \<longrightarrow> ks_match \<rho> vs k v) \<and> (res = No \<longrightarrow> \<not> ks_match \<rho> vs k v)"
    using setContains_correct(1) [OF sc _ Cons.prems(3,4)] Cons.prems(2,5,6) d1 c by fastforce
  show ?case
  proof (cases res)
    case No
    with Cons.prems(1) c sc obtain d2 where
      l: "select_loop cf sty sel False cs u True pre None = Ok d2 (ch', pre', r)" "set d2 \<subseteq> set ds"
      by (auto elim!: bind_comp_OkE split: comp.split_asm)
    have "\<forall>e. Error e \<notin> set d2" using Cons.prems(2) l(2) by blast
    from Cons.IH [OF l(1) this Cons.prems(3-5)] Cons.prems(6,7) ok No c show ?thesis
      by (auto simp: select_state_append split: option.splits)
  next
    case DontKnow
    with Cons.prems(1) c sc obtain d2 where
      l: "select_loop cf sty sel False cs True ch (pre @ [(k, st)]) None = Ok d2 (ch', pre', r)" "set d2 \<subseteq> set ds"
      by (auto elim!: bind_comp_OkE split: comp.split_asm)
    have "\<forall>e. Error e \<notin> set d2" using Cons.prems(2) l(2) by blast
    from Cons.IH [OF l(1) this Cons.prems(3-5)] Cons.prems(6) c show ?thesis by (auto split: option.splits)
  next
    case Yes
    show ?thesis
    proof (cases u)
      case True
      with Cons.prems(1) c sc Yes obtain d2 where
        "select_loop cf sty sel True cs u (ch \<or> \<not> is_DefaultExpression k) (pre @ [(DefaultExpression sty, st)]) None
           = Ok d2 (ch', pre', r)"
        by (auto elim!: bind_comp_OkE split: comp.split_asm)
      from select_loop_finished [OF this] ok Yes c show ?thesis
        by (auto simp: select_state_append split: option.splits)
    next
      case False
      with Cons.prems(1) c sc Yes obtain d2 where
        "select_loop cf sty sel True cs u ch pre (Some st) = Ok d2 (ch', pre', r)"
        by (auto elim!: bind_comp_OkE split: comp.split_asm)
      from select_loop_finished [OF this] ok Yes c False Cons.prems(7) show ?thesis by auto
    qed
  qed
qed auto

section \<open>Statements\<close>

text \<open>
  A switch case is a label and an optional statement.  The statements without subexpressions the
  pass looks at are \<open>OtherStatement\<close>.
\<close>

datatype stmt =
    AssignmentStatement expr expr
  | BlockStatement "string list" "stmt list"
  | IfStatement expr stmt "stmt option"
  | SwitchStatement expr "(expr \<times> stmt option) list"
  | MethodCallStatement expr
  | EmptyStatement
  | OtherStatement string

abbreviation likelyAnnotation :: string where "likelyAnnotation \<equiv> ''likely''"
abbreviation unlikelyAnnotation :: string where "unlikelyAnnotation \<equiv> ''unlikely''"
abbreviation disableOptimizationAnnotation :: string where
  "disableOptimizationAnnotation \<equiv> ''disable_optimization''"

text \<open>\<open>FilterLikelyAnnot\<close> drops the branch hints of a block.\<close>

fun filter_annotations :: "string list \<Rightarrow> string list comp" where
  "filter_annotations [] = ret []"
| "filter_annotations (a # as) =
     (if a = likelyAnnotation then filter_annotations as
      else if a = unlikelyAnnotation then
        bind_comp (report (Warning WARN_BRANCH_HINT) ()) (\<lambda>_. filter_annotations as)
      else bind_comp (filter_annotations as) (\<lambda>as'. ret (a # as')))"

fun FilterLikelyAnnot :: "stmt \<Rightarrow> stmt comp" where
  "FilterLikelyAnnot (BlockStatement as ss) =
     bind_comp (filter_annotations as) (\<lambda>as'. ret (BlockStatement as' ss))"
| "FilterLikelyAnnot s = ret s"

definition warn_likely :: "stmt option \<Rightarrow> unit comp" where
  "warn_likely s =
     Ok (case s of
           Some (BlockStatement as ss) \<Rightarrow>
             (if likelyAnnotation \<in> set as then [Warning WARN_BRANCH_HINT] else [])
         | _ \<Rightarrow> []) ()"

definition fold_IfStatement :: "expr \<Rightarrow> stmt \<Rightarrow> stmt option \<Rightarrow> stmt comp" where
  "fold_IfStatement condition ifTrue ifFalse =
     (case to_BoolLiteral condition of
        None \<Rightarrow> ret (IfStatement condition ifTrue ifFalse)
      | Some True \<Rightarrow> bind_comp (warn_likely ifFalse) (\<lambda>_. FilterLikelyAnnot ifTrue)
      | Some False \<Rightarrow>
          bind_comp (warn_likely (Some ifTrue)) (\<lambda>_.
            case ifFalse of None \<Rightarrow> ret EmptyStatement | Some s \<Rightarrow> FilterLikelyAnnot s))"

text \<open>\<open>some_table.apply().action_run\<close>: its cases are labelled with actions.\<close>

fun isActionRun :: "cf_env \<Rightarrow> expr \<Rightarrow> bool comp" where
  "isActionRun cf (Member t (MethodCallExpression t' mi (PathExpression t'' p) as) m) =
     (if m \<noteq> ''action_run'' \<or> mi \<noteq> OtherMethod ''apply'' then ret False
      else case refMap cf of
             None \<Rightarrow> Bug ''null reference map''
           | Some rm \<Rightarrow>
               (case rm p of
                  None \<Rightarrow> report (Error ERR_NOT_FOUND) False
                | Some (P4Table n) \<Rightarrow> ret True
                | Some d \<Rightarrow> ret False))"
| "isActionRun cf e = ret False"

fun fold_stmt :: "cf_env \<Rightarrow> stmt \<Rightarrow> stmt comp"
  and fold_stmts :: "cf_env \<Rightarrow> stmt list \<Rightarrow> stmt list comp"
  and fold_stmt_opt :: "cf_env \<Rightarrow> stmt option \<Rightarrow> stmt option comp"
  and fold_SwitchCases :: "cf_env \<Rightarrow> bool \<Rightarrow> (expr \<times> stmt option) list \<Rightarrow> (expr \<times> stmt option) list comp"
where
  "fold_stmt cf (AssignmentStatement l r) =
     bind_comp (fold_expr cf True l) (\<lambda>l'.
     bind_comp (fold_expr cf False r) (\<lambda>r'. ret (AssignmentStatement l' r')))"
| "fold_stmt cf (BlockStatement as ss) =
     (if disableOptimizationAnnotation \<in> set as then ret (BlockStatement as ss)
      else bind_comp (fold_stmts cf ss) (\<lambda>ss'. ret (BlockStatement as ss')))"
| "fold_stmt cf (IfStatement c a b) =
     bind_comp (fold_expr cf False c) (\<lambda>c'.
     bind_comp (fold_stmt cf a) (\<lambda>a'.
     bind_comp (fold_stmt_opt cf b) (\<lambda>b'. fold_IfStatement c' a' b')))"
| "fold_stmt cf (SwitchStatement e cs) =
     bind_comp (fold_expr cf False e) (\<lambda>e'.
     bind_comp (isActionRun cf e') (\<lambda>keepLabels.
     bind_comp (fold_SwitchCases cf keepLabels cs) (\<lambda>cs'. ret (SwitchStatement e' cs'))))"
| "fold_stmt cf (MethodCallStatement e) =
     bind_comp (fold_expr cf False e) (\<lambda>e'. ret (MethodCallStatement e'))"
| "fold_stmt cf EmptyStatement = ret EmptyStatement"
| "fold_stmt cf (OtherStatement n) = ret (OtherStatement n)"
| "fold_stmts cf [] = ret []"
| "fold_stmts cf (s # ss) =
     bind_comp (fold_stmt cf s) (\<lambda>s'. bind_comp (fold_stmts cf ss) (\<lambda>ss'. ret (s' # ss')))"
| "fold_stmt_opt cf None = ret None"
| "fold_stmt_opt cf (Some s) = bind_comp (fold_stmt cf s) (\<lambda>s'. ret (Some s'))"
| "fold_SwitchCases cf keepLabels [] = ret []"
| "fold_SwitchCases cf keepLabels ((l, s) # cs) =
     bind_comp (if keepLabels then ret l else fold_expr cf False l) (\<lambda>l'.
     bind_comp (fold_stmt_opt cf s) (\<lambda>s'.
     bind_comp (fold_SwitchCases cf keepLabels cs) (\<lambda>cs'. ret ((l', s') # cs'))))"

text \<open>
  The execution of statements: assignments and the opaque statements act on the environment as
  given by \<open>assign\<close> and \<open>act\<close>, and so do calls and switch statements.
\<close>

fun exec :: "(expr \<Rightarrow> val \<Rightarrow> sem_env \<Rightarrow> sem_env option) \<Rightarrow> (stmt \<Rightarrow> sem_env \<Rightarrow> sem_env option) \<Rightarrow>
    stmt \<Rightarrow> sem_env \<Rightarrow> sem_env option"
  and exec_list :: "(expr \<Rightarrow> val \<Rightarrow> sem_env \<Rightarrow> sem_env option) \<Rightarrow> (stmt \<Rightarrow> sem_env \<Rightarrow> sem_env option) \<Rightarrow>
    stmt list \<Rightarrow> sem_env \<Rightarrow> sem_env option" where
  "exec assign act (AssignmentStatement l r) \<rho> = Option.bind (eval \<rho> r) (\<lambda>v. assign l v \<rho>)"
| "exec assign act (BlockStatement as ss) \<rho> = exec_list assign act ss \<rho>"
| "exec assign act (IfStatement c a b) \<rho> =
     (case Option.bind (eval \<rho> c) bool_val of
        None \<Rightarrow> None
      | Some p \<Rightarrow>
          if p then exec assign act a \<rho>
          else (case b of None \<Rightarrow> Some \<rho> | Some s \<Rightarrow> exec assign act s \<rho>))"
| "exec assign act EmptyStatement \<rho> = Some \<rho>"
| "exec assign act (SwitchStatement e cs) \<rho> = act (SwitchStatement e cs) \<rho>"
| "exec assign act (MethodCallStatement e) \<rho> = act (MethodCallStatement e) \<rho>"
| "exec assign act (OtherStatement n) \<rho> = act (OtherStatement n) \<rho>"
| "exec_list assign act [] \<rho> = Some \<rho>"
| "exec_list assign act (s # ss) \<rho> = Option.bind (exec assign act s \<rho>) (exec_list assign act ss)"

lemma exec_FilterLikelyAnnot: "FilterLikelyAnnot s = Ok ds s' \<Longrightarrow> exec assign act s' \<rho> = exec assign act s \<rho>"
  by (cases s) (auto elim!: bind_comp_OkE)

lemma exec_fold_IfStatement:
  assumes "fold_IfStatement c a b = Ok ds s'"
  shows "exec assign act s' \<rho> = exec assign act (IfStatement c a b) \<rho>"
  using assms
  by (auto simp: fold_IfStatement_def warn_likely_def exec_FilterLikelyAnnot
      split: option.split_asm bool.split_asm comp.split_asm option.split elim!: bind_comp_OkE)

section \<open>Properties\<close>

text \<open>A configuration without maps, and an environment with the variable \<open>x :: bit<8>\<close>.\<close>

definition example_cf :: cf_env where
  "example_cf = \<lparr>refMap = Some (\<lambda>p. if p = ''k'' then Some (Declaration_Constant 0 Type_InfInt (inf_constant 3))
       else Some (Declaration_Other p)),
     typesKnown = True, warnings = True, hook = \<lambda>e. None,
     constants = (\<lambda>d. if d = 0 then Some (inf_constant 3) else None), maximumWidth = 2048\<rparr>"

definition example_env :: sem_env where
  "example_env = \<lparr>var_val = (\<lambda>p. if p = ''k'' then Some (InfV 3)
       else if p = ''x'' then Some (BitsV 8 False 5) else None), call_val = \<lambda>m v as. None\<rparr>"

abbreviation u8 :: p4type where "u8 \<equiv> Type_Bits 8 False"

lemma example_ok: "cf_ok example_env example_cf" "wf_env example_env"
  by (auto simp: cf_ok_def wf_env_def example_cf_def example_env_def in_range_def split: if_split_asm)

text \<open>C1: folding an expression preserves its value. When the pass succeeds on an expression that
  evaluates to \<open>v\<close> - in any environment of well-formed values that agrees with the recorded
  constants - the folded expression evaluates to \<open>v\<close>, whether or not types are known and whichever
  warnings are given.\<close>

theorem constant_folding_sound:
  assumes "fold_expr cf assignmentTarget e = Ok ds e'"
    and "cf_ok \<rho> cf" "wf_env \<rho>" "sizes_ok \<rho> e" and "eval \<rho> e = Some v"
  shows "eval \<rho> e' = Some v"
  using fold_expr_refines [OF assms(1-4)] assms(5) by (rule refinesD)

theorem constant_folding_sound_witness:
  "eval example_env (Binary BAnd u8 (PathExpression u8 ''x'') (Constant u8 72 10)) = Some (BitsV 8 False 0)"
proof (rule constant_folding_sound [where cf = example_cf and assignmentTarget = False and ds = "[]"
      and e = "Binary BAnd u8 (PathExpression u8 ''x'')
        (Binary Add u8 (Constant u8 64 10) (Binary Shl u8 (Constant u8 1 10) (PathExpression Type_InfInt ''k'')))"])
  show "fold_expr example_cf False (Binary BAnd u8 (PathExpression u8 ''x'')
        (Binary Add u8 (Constant u8 64 10) (Binary Shl u8 (Constant u8 1 10) (PathExpression Type_InfInt ''k'')))) =
      Ok [] (Binary BAnd u8 (PathExpression u8 ''x'') (Constant u8 72 10))" by code_simp
  show "eval example_env (Binary BAnd u8 (PathExpression u8 ''x'')
        (Binary Add u8 (Constant u8 64 10) (Binary Shl u8 (Constant u8 1 10) (PathExpression Type_InfInt ''k''))))
      = Some (BitsV 8 False 0)" by code_simp
qed (simp_all add: example_ok sizes_ok.simps)

text \<open>C5: folding a select expression preserves the transition. When the folder reports no error,
  the state it replaces the select expression by is the state of the first case that matches the
  selected value, and the cases it keeps lead to the same state as the original cases, for every
  contents \<open>vs\<close> of the value sets.\<close>

theorem select_folding_sound:
  assumes "fold_SelectExpression cf select cases = Ok ds res" "\<forall>e. Error e \<notin> set ds"
    and "value_sets_ok cf vs" "key_ok \<rho> tn select" "\<forall>c \<in> set cases. key_ok \<rho> tn (fst c)"
    and "eval \<rho> select = Some v"
  shows "select_state \<rho> vs cases v =
    (case res of GoTo st \<Rightarrow> Some st | SelectCases cases' \<Rightarrow> select_state \<rho> vs cases' v)"
proof (cases "res = SelectCases cases")
  case False
  with assms(1) obtain d0 sel ds1 ch pre r where
    g: "getConstant cf select = Ok d0 (Some sel)" and
    l: "select_loop cf (type_of select) sel False cases False False [] None = Ok ds1 (ch, pre, r)" and
    d: "\<forall>e. Error e \<in> set ds1 \<longrightarrow> Error e \<in> set ds" and
    r: "res = (case r of Some st \<Rightarrow> GoTo st | None \<Rightarrow> SelectCases (if ch then pre else cases))"
    by (auto simp: fold_SelectExpression_def Let_def elim!: bind_comp_OkE split: if_split_asm option.split_asm)
  have "eval \<rho> sel = Some v" using getConstant_eval [OF g assms(6)] .
  moreover have "key_ok \<rho> tn sel"
    using getConstant_cases [OF g] assms(4,6) \<open>eval \<rho> sel = Some v\<close> by auto
  moreover have "\<forall>e. Error e \<notin> set ds1" using d assms(2) by blast
  ultimately show ?thesis
    using select_loop_correct [OF l _ assms(3), of \<rho> v tn] assms(5) r False by (auto split: option.split_asm if_split_asm)
qed simp

theorem select_folding_sound_witness:
  "select_state example_env (\<lambda>k v. False)
     [(Mask (Type_Set u8) (Constant u8 16 10) (Constant u8 240 10), ''a''),
      (PathExpression (Type_Set u8) ''pvs'', ''b''), (Range (Type_Set u8) (Constant u8 3 10) (Constant u8 9 10), ''c''),
      (Constant u8 5 10, ''d'')] (BitsV 8 False 5) =
   select_state example_env (\<lambda>k v. False)
     [(PathExpression (Type_Set u8) ''pvs'', ''b''), (DefaultExpression u8, ''c'')] (BitsV 8 False 5)"
proof -
  have "fold_SelectExpression example_cf (Constant u8 5 10)
     [(Mask (Type_Set u8) (Constant u8 16 10) (Constant u8 240 10), ''a''),
      (PathExpression (Type_Set u8) ''pvs'', ''b''), (Range (Type_Set u8) (Constant u8 3 10) (Constant u8 9 10), ''c''),
      (Constant u8 5 10, ''d'')] = Ok [Warning WARN_PARSER_TRANSITION]
      (SelectCases [(PathExpression (Type_Set u8) ''pvs'', ''b''), (DefaultExpression u8, ''c'')])"
    by code_simp
  from select_folding_sound [OF this, of "\<lambda>k v. False" example_env "\<lambda>n. (Type_Error, Type_Error)" "BitsV 8 False 5"]
  show ?thesis by (simp add: value_sets_ok_def example_env_def in_range_def)
qed

text \<open>before types are known, the value recorded for a constant declaration is the value of
  its initializer converted to the declared type, or nothing is recorded, unless an error is
  reported. So the later uses of the constant see the declared type and not that of the
  initializer.\<close>

theorem constant_declaration_value:
  assumes "fold_Declaration_Constant cf d dtype init = Ok ds (init', cf')" "\<forall>e. Error e \<notin> set ds"
    and "\<not> typesKnown cf" "constants cf d = None" "constants cf' d = Some c"
    and "eval \<rho> init = Some x" "to_Constant init \<noteq> None" "cast_val dtype x = Some v"
  shows "eval \<rho> c = Some v"
proof -
  from assms(7) obtain ct n b where i: "init = Constant ct n b" by auto
  with assms(1,3,4,5) obtain d1 where "retyped_initializer dtype init = Ok d1 (Init c)" "set d1 \<subseteq> set ds"
    by (auto simp: fold_Declaration_Constant_def emplace_constant_def elim!: bind_comp_OkE
        split: decl_init.split_asm if_split_asm comp.split_asm)
  with retyped_initializer_eval [OF _ assms(6,8) _ assms(7)] assms(2) show ?thesis by blast
qed

theorem constant_declaration_value_witness:
  "eval example_env (Constant u8 1 10) = Some (BitsV 8 False 1)"
  by (rule constant_declaration_value [where cf = "example_cf\<lparr>typesKnown := False\<rparr>" and d = 1 and dtype = u8
        and init = "inf_constant 257" and ds = "[Warning WARN_MISMATCH]" and init' = "Constant u8 1 10"
        and cf' = "emplace_constant (example_cf\<lparr>typesKnown := False\<rparr>) 1 (Constant u8 1 10)" and x = "InfV 257"])
    (auto simp: fold_Declaration_Constant_def retyped_initializer_def mk_constant_def handleOverflow_def Let_def
      mask_bits_eq and_mask_eq_mod emplace_constant_def example_cf_def norm_def)

text \<open>C6: replacing an \<open>if\<close> with a constant condition by the branch it takes does not change the
  execution: the branch hints it drops and the empty statement it leaves have no effect.\<close>

theorem if_folding_sound:
  assumes "fold_IfStatement c a b = Ok ds s'"
  shows "exec assign act s' \<rho> = exec assign act (IfStatement c a b) \<rho>"
  using assms by (rule exec_fold_IfStatement)

theorem if_folding_sound_witness:
  "exec (\<lambda>l v \<rho>. None) (\<lambda>s \<rho>. Some (\<rho>\<lparr>var_val := Map.empty\<rparr>)) (BlockStatement [''name''] [OtherStatement ''s'']) example_env =
   exec (\<lambda>l v \<rho>. None) (\<lambda>s \<rho>. Some (\<rho>\<lparr>var_val := Map.empty\<rparr>))
     (IfStatement (BoolLiteral True) (BlockStatement [''likely'', ''name''] [OtherStatement ''s''])
      (Some (BlockStatement [''likely''] []))) example_env"
  by (rule if_folding_sound [where ds = "[Warning WARN_BRANCH_HINT]"])
    (simp add: fold_IfStatement_def warn_likely_def)

end
