(* ===== verification/SelectRange.thy ===== *)
theory SelectRange
  imports ConstFold_Stmt
begin

text \<open>
  Ranges in select expressions (midend/replaceSelectRange.{h,cpp}): the pass \<open>ReplaceSelectRange\<close>
  replaces a range of a key set by masks that together cover it.  The state of the pass is the set
  \<open>signedIndicesToReplace\<close> of the components whose range was signed; it is threaded through the
  cases.  Type sizes are checked against the maximal width by \<open>Type_Bits::get\<close>.
\<close>

section \<open>A subrange\<close>

text \<open>\<open>while (match_stride > range_size_remaining) match_stride >>= 1\<close>, with a positive remainder.\<close>

function shrink_stride :: "int \<Rightarrow> nat \<Rightarrow> int" where
  "shrink_stride match_stride remaining =
     (if match_stride > int remaining then shrink_stride (drop_bit 1 match_stride) remaining else match_stride)"
  by auto
termination
  by (relation "measure (\<lambda>(s, r). nat s)") (auto simp: drop_bit_Suc)

declare shrink_stride.simps [simp del]

lemma shrink_stride_pos: "1 \<le> s \<Longrightarrow> 0 < r \<Longrightarrow> 1 \<le> shrink_stride s r"
  by (induction s r rule: shrink_stride.induct) (subst shrink_stride.simps, auto simp: drop_bit_Suc)

definition first_stride :: "int \<Rightarrow> int \<Rightarrow> int" where
  "first_stride hi lo = push_bit (nat (if lo = 0 then floor_log2 (hi + 1) else ffs lo)) 1"

lemma first_stride_pos: "1 \<le> first_stride hi lo"
  by (simp add: first_stride_def push_bit_eq_mult)

text \<open>The masks, as pairs of value and mask.\<close>

function expand_loop :: "int \<Rightarrow> int \<Rightarrow> int \<Rightarrow> nat \<Rightarrow> (int \<times> int) list" where
  "expand_loop size_mask hi lo remaining =
     (if remaining > 0 then
        let match_stride = shrink_stride (first_stride hi lo) remaining
        in (lo, NOT (match_stride - 1) AND size_mask)
             # expand_loop size_mask hi (lo + match_stride) (remaining - nat match_stride)
      else [])"
  by auto
termination
proof (relation "measure (\<lambda>(sm, mx, mn, r). r)")
  fix size_mask hi lo remaining match_stride
  assume a: "0 < remaining" "match_stride = shrink_stride (first_stride hi lo) remaining"
  then have "1 \<le> match_stride" using shrink_stride_pos [OF first_stride_pos] by simp
  with a show "((size_mask, hi, lo + match_stride, remaining - nat match_stride), size_mask, hi, lo, remaining)
      \<in> measure (\<lambda>(sm, mx, mn, r). r)" by simp
qed simp

declare expand_loop.simps [simp del]

text \<open>\<open>expandRange\<close>: a subrange that does not cross zero.  The type \<open>rt\<close> of the range node gives
  the width, \<open>base\<close> is the printing base of its left bound.  A value below the values of the type
  would shift by a negative count.\<close>

definition mk_mask :: "p4type \<Rightarrow> nat \<Rightarrow> int \<times> int \<Rightarrow> expr comp" where
  "mk_mask maskType base vm =
     bind_comp (mk_constant maskType (fst vm) base True) (\<lambda>valConst.
     bind_comp (mk_constant maskType (snd vm) base True) (\<lambda>maskConst.
       ret (Mask (Type_Set maskType) valConst maskConst)))"

definition expandRange :: "p4type \<Rightarrow> nat \<Rightarrow> p4type \<Rightarrow> int \<Rightarrow> int \<Rightarrow> expr list comp" where
  "expandRange rt base maskType lo hi =
     bind_comp (width_bits rt) (\<lambda>width.
       if width \<le> 0 then Bug ''zero-width range is not allowed''
       else
         let size_mask = push_bit (nat width) 1 - 1
         in if (lo \<ge> 0) \<noteq> (hi \<ge> 0) then Bug ''Wrong subrange (going over zero)''
            else
              let (lo', hi') = (if lo < 0 then (size_mask + lo + 1, size_mask + hi + 1) else (lo, hi))
              in if lo' > hi' then Bug ''range bounds inverted''
                 else if lo' < 0 then Bug ''negative shift''
                 else mapM_comp (mk_mask maskType base) (expand_loop size_mask hi' lo' (nat (hi' - lo' + 1))))"

section \<open>Ranges and cases\<close>

text \<open>\<open>rangeToMasks\<close>: \<open>None\<close> for the null pointer; the new set of signed indices.\<close>

definition rangeToMasks :: "cf_env \<Rightarrow> p4type \<Rightarrow> expr \<Rightarrow> expr \<Rightarrow> nat \<Rightarrow> nat set \<Rightarrow> (expr list option \<times> nat set) comp" where
  "rangeToMasks cf rt l r keyIndex signedIndices =
     (case to_Constant l of
        None \<Rightarrow> report (Error ERR_UNSUPPORTED_ON_TARGET) (None, signedIndices)
      | Some (lt, left, lb) \<Rightarrow>
          case to_Constant r of
            None \<Rightarrow> report (Error ERR_UNSUPPORTED_ON_TARGET) (None, signedIndices)
          | Some (rrt, right, rb) \<Rightarrow>
              if right < left then report (Warning WARN_INVALID) (Some [], signedIndices)
              else
                case to_Type_Bits lt of
                  None \<Rightarrow> Bug ''Range type is not fixed-width integer''
                | Some (sz, isSigned) \<Rightarrow>
                    bind_comp (if isSigned then Type_Bits_get cf sz False else ret lt) (\<lambda>maskType.
                    bind_comp
                      (if isSigned \<and> left < 0 \<and> right \<ge> 0 then
                         bind_comp (expandRange rt lb maskType left (-1)) (\<lambda>neg.
                         bind_comp (expandRange rt lb maskType 0 right) (\<lambda>pos. ret (neg @ pos)))
                       else expandRange rt lb maskType left right)
                      (\<lambda>masks. ret (Some masks, if isSigned then insert keyIndex signedIndices else signedIndices))))"

text \<open>\<open>cartesianAppend\<close>: every vector extended by every one of the expressions.\<close>

definition cartesianAppend :: "expr list list \<Rightarrow> expr list \<Rightarrow> expr list list" where
  "cartesianAppend vecs masks = concat (map (\<lambda>v. map (\<lambda>mask. v @ [mask]) masks) vecs)"

definition cartesianAppend_one :: "expr list list \<Rightarrow> expr \<Rightarrow> expr list list" where
  "cartesianAppend_one vecs e = map (\<lambda>v. v @ [e]) vecs"

text \<open>The loop over the components of a key set; \<open>None\<close> when a range cannot be replaced.\<close>

fun expand_keys :: "cf_env \<Rightarrow> nat \<Rightarrow> expr list \<Rightarrow> expr list list \<Rightarrow> nat set \<Rightarrow>
    (expr list list option \<times> nat set) comp" where
  "expand_keys cf idx [] newVectors sg = ret (Some newVectors, sg)"
| "expand_keys cf idx (key # keys) newVectors sg =
     (case key of
        Range rt l r \<Rightarrow>
          bind_comp (rangeToMasks cf rt l r idx sg) (\<lambda>(masks, sg).
            case masks of
              None \<Rightarrow> ret (None, sg)
            | Some ms \<Rightarrow> expand_keys cf (Suc idx) keys (cartesianAppend newVectors ms) sg)
      | _ \<Rightarrow> expand_keys cf (Suc idx) keys (cartesianAppend_one newVectors key) sg)"

definition replace_SelectCase :: "cf_env \<Rightarrow> nat \<Rightarrow> nat set \<Rightarrow> expr \<times> string \<Rightarrow>
    ((expr \<times> string) list \<times> nat set) comp" where
  "replace_SelectCase cf MAX_CASES sg sc =
     (case sc of (keyset, state) \<Rightarrow>
        case keyset of
          Range rt l r \<Rightarrow>
            bind_comp (rangeToMasks cf rt l r 0 sg) (\<lambda>(masks, sg).
              case masks of
                None \<Rightarrow> ret ([sc], sg)
              | Some ms \<Rightarrow> ret (map (\<lambda>m. (m, state)) ms, sg))
        | ListExpression t keys \<Rightarrow>
            bind_comp (expand_keys cf 0 keys [[]] sg) (\<lambda>(vectors, sg).
              case vectors of
                None \<Rightarrow> ret ([sc], sg)
              | Some vs \<Rightarrow>
                  Ok (if length vs > MAX_CASES then [Warning WARN_OVERLIMIT] else [])
                    (map (\<lambda>v. (ListExpression (Type_List (map type_of v)) v, state)) vs, sg))
        | _ \<Rightarrow> ret ([sc], sg))"

fun replace_SelectCases :: "cf_env \<Rightarrow> nat \<Rightarrow> nat set \<Rightarrow> (expr \<times> string) list \<Rightarrow>
    ((expr \<times> string) list \<times> nat set) comp" where
  "replace_SelectCases cf MAX_CASES sg [] = ret ([], sg)"
| "replace_SelectCases cf MAX_CASES sg (sc # cases) =
     bind_comp (replace_SelectCase cf MAX_CASES sg sc) (\<lambda>(new, sg).
     bind_comp (replace_SelectCases cf MAX_CASES sg cases) (\<lambda>(rest, sg). ret (new @ rest, sg)))"

section \<open>The select expression\<close>

text \<open>The components with a signed range are cast to the unsigned type of their width.\<close>

fun cast_signed :: "cf_env \<Rightarrow> nat \<Rightarrow> nat set \<Rightarrow> expr list \<Rightarrow> expr list comp" where
  "cast_signed cf idx sg [] = ret []"
| "cast_signed cf idx sg (e # es) =
     bind_comp
       (if idx \<in> sg then
          (case to_Type_Bits (type_of e) of
             None \<Rightarrow> Bug ''Cannot handle select on types other then fixed-width integeral types''
           | Some (sz, s) \<Rightarrow> bind_comp (Type_Bits_get cf sz False) (\<lambda>unsignedType. ret (Cast unsignedType e)))
        else ret e) (\<lambda>e'.
     bind_comp (cast_signed cf (Suc idx) sg es) (\<lambda>es'. ret (e' # es')))"

definition replace_SelectExpression :: "cf_env \<Rightarrow> nat \<Rightarrow> expr list \<Rightarrow> (expr \<times> string) list \<Rightarrow>
    (expr list \<times> (expr \<times> string) list) comp" where
  "replace_SelectExpression cf MAX_CASES select cases =
     bind_comp (replace_SelectCases cf MAX_CASES {} cases) (\<lambda>(newCases, sg).
     bind_comp (if sg \<noteq> {} then cast_signed cf 0 sg select else ret select) (\<lambda>newSelect.
       ret (newSelect, newCases)))"

section \<open>The masks of a subrange\<close>

text \<open>An aligned block \<open>[m, m + 2^k)\<close> and the mask that fixes the bits from \<open>k\<close> on.\<close>

definition covers :: "int \<times> int \<Rightarrow> int \<Rightarrow> bool" where
  "covers vm x \<longleftrightarrow> fst vm AND snd vm = x AND snd vm"

lemma block_mask:
  assumes "0 \<le> x" "x < 2 ^ w" "0 \<le> m" "m < 2 ^ w" "2 ^ k dvd m" "k \<le> w"
  shows "covers (m, NOT (2 ^ k - 1) AND (2 ^ w - 1)) x \<longleftrightarrow> m \<le> x \<and> x < m + 2 ^ k"
proof -
  have xw: "take_bit w x = x" and mw: "take_bit w m = m" using assms by (simp_all add: take_bit_int_eq_self)
  have sel: "y AND (NOT (2 ^ k - 1) AND (2 ^ w - 1)) = push_bit k (drop_bit k (take_bit w y))" for y :: int
    by (rule bit_eqI) (auto simp: bit_simps simp flip: mask_int_eq)
  have "covers (m, NOT (2 ^ k - 1) AND (2 ^ w - 1)) x \<longleftrightarrow> drop_bit k m = drop_bit k x"
    unfolding covers_def fst_conv snd_conv sel xw mw by (simp add: push_bit_eq_mult)
  also have "\<dots> \<longleftrightarrow> m div 2 ^ k = x div 2 ^ k" by (simp add: drop_bit_eq_div)
  also have "\<dots> \<longleftrightarrow> m \<le> x \<and> x < m + 2 ^ k"
  proof -
    from assms(5) obtain q where q: "m = 2 ^ k * q" by (rule dvdE)
    have p: "(0::int) < 2 ^ k" by simp
    have "x div 2 ^ k = q \<longleftrightarrow> 2 ^ k * q \<le> x \<and> x < 2 ^ k * q + 2 ^ k"
    proof
      assume "x div 2 ^ k = q"
      then have "x = 2 ^ k * q + x mod 2 ^ k" by (metis mult_div_mod_eq)
      with p pos_mod_bound [OF p, of x] pos_mod_sign [OF p, of x] show "2 ^ k * q \<le> x \<and> x < 2 ^ k * q + 2 ^ k" by linarith
    next
      assume "2 ^ k * q \<le> x \<and> x < 2 ^ k * q + 2 ^ k"
      then show "x div 2 ^ k = q" by (intro int_div_pos_eq [of _ _ _ "x - 2 ^ k * q"]) auto
    qed
    then show ?thesis by (auto simp: q)
  qed
  finally show ?thesis .
qed

text \<open>The stride of an iteration is a power of two that divides the start of the block, does not
  overshoot, and is the largest such unless the alignment of the start bounds it.\<close>

lemma shrink_stride_power:
  assumes "0 < r"
  shows "\<exists>j \<le> k. shrink_stride (2 ^ k) r = 2 ^ j \<and> 2 ^ j \<le> int r \<and> (j = k \<or> int r < 2 ^ (j + 1))"
proof (induction k)
  case 0
  then show ?case using assms by (subst shrink_stride.simps) auto
next
  case (Suc k)
  show ?case
  proof (cases "(2::int) ^ Suc k > int r")
    case True
    then have "shrink_stride (2 ^ Suc k) r = shrink_stride (2 ^ k) r"
      by (subst shrink_stride.simps) (simp add: drop_bit_Suc)
    with Suc obtain j where "j \<le> k" "shrink_stride (2 ^ Suc k) r = 2 ^ j" "2 ^ j \<le> int r" "j = k \<or> int r < 2 ^ (j + 1)"
      by auto
    with True show ?thesis by (intro exI [of _ j]) auto
  next
    case False
    then show ?thesis by (intro exI [of _ "Suc k"]) (subst shrink_stride.simps, auto)
  qed
qed

text \<open>The alignment of the start: the number of its trailing zeros, and for 0 that of the first
  block.\<close>

definition align :: "int \<Rightarrow> int \<Rightarrow> nat" where
  "align hi lo = nat (if lo = 0 then floor_log2 (hi + 1) else ffs lo)"

lemma first_stride_power: "first_stride hi lo = 2 ^ align hi lo"
  by (simp add: first_stride_def align_def push_bit_eq_mult)

lemma ffs_dvd: "0 < m \<Longrightarrow> 2 ^ nat (ffs m) dvd m"
proof -
  assume m: "0 < m"
  have "take_bit (nat (ffs m)) m = 0"
    using ffs_spec [OF m] by (intro bit_eqI) (auto simp: bit_simps)
  then show ?thesis by (simp add: take_bit_eq_0_iff)
qed

lemma align_dvd: "0 \<le> lo \<Longrightarrow> 2 ^ align hi lo dvd lo"
  using ffs_dvd [of lo] by (auto simp: align_def)

lemma expand_loop_step:
  assumes "0 < r" "0 \<le> lo"
  obtains j where "expand_loop sm hi lo r = (lo, NOT (2 ^ j - 1) AND sm) # expand_loop sm hi (lo + 2 ^ j) (r - 2 ^ j)"
    "2 ^ j \<le> r" "j \<le> align hi lo" "j = align hi lo \<or> r < 2 ^ (j + 1)"
proof -
  from shrink_stride_power [OF assms(1), of "align hi lo"] obtain j where
    j: "j \<le> align hi lo" "shrink_stride (first_stride hi lo) r = 2 ^ j" "(2::int) ^ j \<le> int r"
      "j = align hi lo \<or> int r < 2 ^ (j + 1)" by (auto simp: first_stride_power)
  then have "2 ^ j \<le> r" "j = align hi lo \<or> r < 2 ^ (j + 1)"
    by (metis of_nat_le_iff of_nat_numeral of_nat_power) (metis j(4) of_nat_less_iff of_nat_numeral of_nat_power)
  with j assms show thesis
    by (intro that [of j]) (subst expand_loop.simps, auto simp: Let_def nat_power_eq)
qed

text \<open>Every value of the subrange is covered by exactly one of the masks, no other value by any.\<close>

lemma expand_loop_covers:
  assumes "0 \<le> lo" "lo + int r \<le> 2 ^ w" "0 \<le> x" "x < 2 ^ w"
  shows "length (filter (\<lambda>vm. covers vm x) (expand_loop (2 ^ w - 1) hi lo r)) = (if lo \<le> x \<and> x < lo + int r then 1 else 0)"
  using assms
proof (induction r arbitrary: lo rule: less_induct)
  case (less r)
  show ?case
  proof (cases "r = 0")
    case True
    then show ?thesis by (subst expand_loop.simps) simp
  next
    case False
    then obtain j where j: "expand_loop (2 ^ w - 1) hi lo r =
        (lo, NOT (2 ^ j - 1) AND (2 ^ w - 1)) # expand_loop (2 ^ w - 1) hi (lo + 2 ^ j) (r - 2 ^ j)"
      "2 ^ j \<le> r" "j \<le> align hi lo" using expand_loop_step [of r lo "2 ^ w - 1" hi] less.prems(1) by auto
    have jr: "(2::int) ^ j \<le> int r" using j(2) by (metis of_nat_le_iff of_nat_numeral of_nat_power)
    have dvd: "2 ^ j dvd lo" using align_dvd [OF less.prems(1), of hi] j(3)
      by (meson dvd_trans le_imp_power_dvd)
    have jw: "j \<le> w"
    proof (rule ccontr)
      assume "\<not> j \<le> w"
      then have "(2::int) ^ w < 2 ^ j" by simp
      with jr less.prems(1,2) show False by linarith
    qed
    have c: "covers (lo, NOT (2 ^ j - 1) AND (2 ^ w - 1)) x \<longleftrightarrow> lo \<le> x \<and> x < lo + 2 ^ j"
      using less.prems jr dvd jw False by (intro block_mask) auto
    have n: "length (filter (\<lambda>vm. covers vm x) (expand_loop (2 ^ w - 1) hi (lo + 2 ^ j) (r - 2 ^ j))) =
        (if lo + 2 ^ j \<le> x \<and> x < lo + 2 ^ j + int (r - 2 ^ j) then 1 else 0)"
      using less.prems j(2) False by (intro less.IH) (auto simp: of_nat_diff)
    have p: "(0::int) < 2 ^ j" "int (r - 2 ^ j) = int r - 2 ^ j" using j(2) by (simp_all add: of_nat_diff)
    show ?thesis
    proof (cases "lo + 2 ^ j \<le> x")
      case True
      with p(1) have "lo \<le> x" by linarith
      with True n c j(1) p(2) show ?thesis by simp
    next
      case False
      with jr have "lo \<le> x \<and> x < lo + 2 ^ j \<longleftrightarrow> lo \<le> x \<and> x < lo + int r" by linarith
      with False n c j(1) show ?thesis by simp
    qed
  qed
qed

section \<open>How many masks\<close>

lemma ffs_add_power: "2 ^ k dvd lo \<Longrightarrow> 0 < lo \<Longrightarrow> j < k \<Longrightarrow> ffs (lo + 2 ^ j) = int j"
proof -
  assume a: "2 ^ k dvd lo" "0 < lo" "j < k"
  have tb: "take_bit k lo = 0" using a(1) by (simp add: take_bit_eq_0_iff)
  have lo0: "\<not> bit lo i" if "i < k" for i using tb that by (metis bit_0_eq bit_take_bit_iff bot_apply bot_bool_def)
  have eq: "lo + 2 ^ j = lo OR 2 ^ j"
    using lo0 [OF a(3)] by (subst disjunctive_add) (auto simp: bit_exp_iff)
  have b: "bit (lo + 2 ^ j) i \<longleftrightarrow> bit lo i \<or> i = j" for i
    unfolding eq by (auto simp: bit_or_iff bit_exp_iff)
  have p: "0 < lo + 2 ^ j" using a(2) by (simp add: add_pos_nonneg)
  have "lsb (nat (lo + 2 ^ j)) = j"
  proof (rule antisym)
    show "lsb (nat (lo + 2 ^ j)) \<le> j" using ffs_spec(3) [OF p, of j] b by force
    show "j \<le> lsb (nat (lo + 2 ^ j))"
      using ffs_spec(2) [OF p] b lo0 a(3) by (metis le_eq_less_or_eq less_trans not_less)
  qed
  with ffs_spec(1) [OF p] show ?thesis by simp
qed

lemma expand_loop_down:
  "2 ^ k dvd lo \<Longrightarrow> 0 < lo \<Longrightarrow> k \<le> align hi lo \<Longrightarrow> r < 2 ^ k \<Longrightarrow> length (expand_loop sm hi lo r) \<le> k"
proof (induction k arbitrary: lo r rule: less_induct)
  case (less k)
  show ?case
  proof (cases "r = 0")
    case True
    then show ?thesis by (subst expand_loop.simps) simp
  next
    case False
    with less.prems obtain j where j: "expand_loop sm hi lo r =
        (lo, NOT (2 ^ j - 1) AND sm) # expand_loop sm hi (lo + 2 ^ j) (r - 2 ^ j)"
      "2 ^ j \<le> r" "j = align hi lo \<or> r < 2 ^ (j + 1)" using expand_loop_step [of r lo sm hi] by auto
    have "2 ^ j < (2::nat) ^ k" using j(2) less.prems(4) by linarith
    then have jk: "j < k" by simp
    have ffs: "ffs (lo + 2 ^ j) = int j" by (rule ffs_add_power [OF less.prems(1,2) jk])
    have lo: "0 < lo + 2 ^ j" using less.prems(2) by (simp add: add_pos_nonneg)
    have "length (expand_loop sm hi (lo + 2 ^ j) (r - 2 ^ j)) \<le> j"
    proof (rule less.IH [OF jk])
      show "2 ^ j dvd lo + 2 ^ j" using ffs_dvd [OF lo] ffs by simp
      show "j \<le> align hi (lo + 2 ^ j)" using ffs lo by (simp add: align_def)
      show "r - 2 ^ j < 2 ^ j" using j(2,3) jk less.prems(3) by auto
    qed (rule lo)
    with j(1) jk show ?thesis by simp
  qed
qed

lemma ffs_less: "0 < m \<Longrightarrow> m < 2 ^ w \<Longrightarrow> nat (ffs m) < w"
  using ffs_dvd [of m] zdvd_imp_le [of "2 ^ nat (ffs m)" m] by (meson order_le_less_trans power_less_imp_less_exp one_less_numeral_iff semiring_norm(76))

lemma expand_loop_up:
  "0 < lo \<Longrightarrow> lo + int r \<le> 2 ^ w \<Longrightarrow> length (expand_loop sm hi lo r) \<le> (w - nat (ffs lo)) + w"
proof (induction r arbitrary: lo rule: less_induct)
  case (less r)
  show ?case
  proof (cases "r = 0")
    case True
    then show ?thesis by (subst expand_loop.simps) simp
  next
    case False
    define k where "k = nat (ffs lo)"
    have k: "align hi lo = k" using less.prems(1) by (simp add: align_def k_def)
    have kw: "k < w" using less.prems False unfolding k_def by (intro ffs_less) auto
    show ?thesis
    proof (cases "r < 2 ^ k")
      case True
      have "length (expand_loop sm hi lo r) \<le> k"
        using ffs_dvd [OF less.prems(1)] True less.prems(1) k by (intro expand_loop_down) (auto simp: k_def)
      with kw show ?thesis by (simp add: k_def)
    next
      case big: False
      from False less.prems obtain j where j: "expand_loop sm hi lo r =
          (lo, NOT (2 ^ j - 1) AND sm) # expand_loop sm hi (lo + 2 ^ j) (r - 2 ^ j)"
        "2 ^ j \<le> r" "j \<le> k" "j = k \<or> r < 2 ^ (j + 1)" using expand_loop_step [of r lo sm hi] k by auto
      have jk: "j = k"
      proof (rule ccontr)
        assume "j \<noteq> k"
        with j have "r < 2 ^ (j + 1)" "j + 1 \<le> k" by auto
        then have "r < 2 ^ k" by (meson order_less_le_trans one_le_numeral power_increasing)
        with big show False by simp
      qed
      have jr: "(2::int) ^ j \<le> int r" using j(2) by (metis of_nat_le_iff of_nat_numeral of_nat_power)
      have lo': "0 < lo + 2 ^ j" using less.prems(1) by (simp add: add_pos_nonneg)
      have "length (expand_loop sm hi (lo + 2 ^ j) (r - 2 ^ j)) \<le> (w - nat (ffs (lo + 2 ^ j))) + w"
        using less.prems(2) jr lo' False j(2) by (intro less.IH) (auto simp: of_nat_diff)
      moreover have "k < nat (ffs (lo + 2 ^ j)) \<or> r - 2 ^ j = 0"
      proof -
        have d: "bit lo k" using ffs_spec(1,2) [OF less.prems(1)] by (simp add: k_def)
        have z: "\<not> bit lo i" if "i < k" for i using ffs_spec(1,3) [OF less.prems(1)] that by (simp add: k_def)
        have "2 ^ Suc k dvd lo + 2 ^ k"
        proof -
          have "take_bit (Suc k) lo = 2 ^ k"
            by (rule bit_eqI) (use d z in \<open>auto simp: bit_simps less_Suc_eq\<close>)
          then have "(lo + 2 ^ k) mod 2 ^ Suc k = (2 ^ k + 2 ^ k) mod 2 ^ Suc k"
            by (metis mod_add_left_eq take_bit_eq_mod)
          then show ?thesis by (simp add: mod_eq_0_iff_dvd)
        qed
        then have t: "take_bit (Suc k) (lo + 2 ^ j) = 0" by (simp add: jk take_bit_eq_0_iff)
        have "k < lsb (nat (lo + 2 ^ j))"
        proof (rule ccontr)
          assume "\<not> k < lsb (nat (lo + 2 ^ j))"
          with ffs_spec(2) [OF lo'] have "bit (take_bit (Suc k) (lo + 2 ^ j)) (lsb (nat (lo + 2 ^ j)))"
            by (simp add: bit_take_bit_iff)
          with t show False by simp
        qed
        with ffs_spec(1) [OF lo'] show ?thesis by simp
      qed
      ultimately show ?thesis unfolding j(1) using kw
        by (auto simp: k_def [symmetric] expand_loop.simps [of _ _ _ 0])
    qed
  qed
qed

lemma expand_loop_length:
  assumes "0 \<le> lo" "lo \<le> hi" "hi < 2 ^ w" "0 < w"
  shows "length (expand_loop sm hi lo (nat (hi - lo + 1))) \<le> 2 * w"
proof (cases "lo = 0")
  case False
  with expand_loop_up [of lo "nat (hi - lo + 1)" w sm hi] assms show ?thesis by simp
next
  case True
  define r where "r = nat (hi - lo + 1)"
  have r: "int r = hi + 1" "0 < r" using True assms by (auto simp: r_def)
  obtain k where k: "floor_log2 (hi + 1) = int k" "2 ^ k \<le> hi + 1" "hi + 1 < 2 ^ (k + 1)"
    using assms True by (metis floor_log2_spec le_imp_0_less add.commute)
  have al: "align hi lo = k" using True k(1) by (simp add: align_def)
  from expand_loop_step [OF r(2), of lo sm hi] True obtain j where j: "expand_loop sm hi lo r =
          (lo, NOT (2 ^ j - 1) AND sm) # expand_loop sm hi (lo + 2 ^ j) (r - 2 ^ j)"
        "2 ^ j \<le> r" "j \<le> k" "j = k \<or> r < 2 ^ (j + 1)" using al by auto
  have "int (2 ^ k) \<le> int r" "int r < int (2 ^ (k + 1))" using k r by simp_all
  then have rk: "2 ^ k \<le> r" "r < 2 ^ (k + 1)" by (simp_all only: of_nat_le_iff of_nat_less_iff)
  have jk: "j = k"
  proof (rule ccontr)
    assume "j \<noteq> k"
    with j have "r < 2 ^ (j + 1)" "j + 1 \<le> k" by auto
    then have "r < 2 ^ k" by (meson order_less_le_trans one_le_numeral power_increasing)
    with rk show False by simp
  qed
  have f: "ffs (2 ^ k) = int k"
    using ffs_spec(1,2) [of "2 ^ k"] by (simp add: bit_exp_iff)
  have "length (expand_loop sm hi (lo + 2 ^ j) (r - 2 ^ j)) \<le> k"
    using True jk f rk by (intro expand_loop_down) (auto simp: align_def)
  moreover have "k \<le> w"
  proof (rule ccontr)
    assume "\<not> k \<le> w"
    then have "(2::int) ^ w < 2 ^ k" by simp
    with k(2) assms(3) show False by linarith
  qed
  ultimately show ?thesis using j(1) assms(4) unfolding r_def [symmetric] by simp
qed

end
