(* ===== verification/SelectRange_Correct.thy ===== *)
theory SelectRange_Correct
  imports SelectRange
begin

text \<open>
  Replacing the ranges of a select expression keeps the transition: the masks of a range match the
  values of the range, read as unsigned numbers where the range is signed, and the components of
  the selector with a signed range are cast accordingly.
\<close>

section \<open>The masks of a range\<close>

definition mask_exprs :: "p4type \<Rightarrow> nat \<Rightarrow> (int \<times> int) list \<Rightarrow> expr list" where
  "mask_exprs mt base = map (\<lambda>vm. Mask (Type_Set mt) (Constant mt (fst vm) base) (Constant mt (snd vm) base))"

lemma loop_range:
  "0 \<le> lo \<Longrightarrow> lo + int r \<le> 2 ^ w \<Longrightarrow> (v, m) \<in> set (expand_loop (2 ^ w - 1) hi lo r) \<Longrightarrow>
     0 \<le> v \<and> v < 2 ^ w \<and> 0 \<le> m \<and> m < 2 ^ w"
proof (induction r arbitrary: lo rule: less_induct)
  case (less r)
  show ?case
  proof (cases "r = 0")
    case True
    with less.prems show ?thesis by (simp add: expand_loop.simps)
  next
    case False
    with less.prems obtain j where j: "expand_loop (2 ^ w - 1) hi lo r =
        (lo, NOT (2 ^ j - 1) AND (2 ^ w - 1)) # expand_loop (2 ^ w - 1) hi (lo + 2 ^ j) (r - 2 ^ j)"
      "2 ^ j \<le> r" using expand_loop_step [of r lo "2 ^ w - 1" hi] by auto
    have jr: "(2::int) ^ j \<le> int r" using j(2) by (metis of_nat_le_iff of_nat_numeral of_nat_power)
    have m: "NOT (2 ^ j - 1) AND (2 ^ w - 1) = NOT (2 ^ j - 1) mod (2 ^ w :: int)" by (rule and_mask_eq_mod)
    from less.prems(3) j(1) consider "v = lo" "m = NOT (2 ^ j - 1) mod 2 ^ w"
      | "(v, m) \<in> set (expand_loop (2 ^ w - 1) hi (lo + 2 ^ j) (r - 2 ^ j))" by (auto simp: m)
    then show ?thesis
    proof cases
      case 1
      with less.prems False show ?thesis by auto
    next
      case 2
      with less.IH [of "r - 2 ^ j" "lo + 2 ^ j"] less.prems False jr j(2) show ?thesis
        by (auto simp: of_nat_diff)
    qed
  qed
qed

lemma mapM_mk_mask:
  "mapM_comp (mk_mask (Type_Bits (int w) False) base) vms = Ok ds ms \<Longrightarrow>
     (\<And>v m. (v, m) \<in> set vms \<Longrightarrow> 0 \<le> v \<and> v < 2 ^ w \<and> 0 \<le> m \<and> m < 2 ^ w) \<Longrightarrow>
     ms = mask_exprs (Type_Bits (int w) False) base vms"
proof (induction vms arbitrary: ds ms)
  case Nil
  then show ?case by (simp add: mask_exprs_def)
next
  case (Cons vm vms)
  obtain v m where vm: "vm = (v, m)" by (cases vm)
  from Cons.prems(2) [of v m] vm have r: "norm w False v = v" "norm w False m = m"
    by (auto simp: norm_def)
  from Cons.prems(1) obtain d1 e d2 es where *: "mk_mask (Type_Bits (int w) False) base vm = Ok d1 e"
    "mapM_comp (mk_mask (Type_Bits (int w) False) base) vms = Ok d2 es" "ms = e # es"
    by (auto elim!: bind_comp_OkE split: comp.split_asm)
  have "e = Mask (Type_Set (Type_Bits (int w) False)) (Constant (Type_Bits (int w) False) v base)
      (Constant (Type_Bits (int w) False) m base)"
    using *(1) r unfolding mk_mask_def vm
    by (auto elim!: bind_comp_OkE mk_constant_OkD split: comp.split_asm)
  moreover have "es = mask_exprs (Type_Bits (int w) False) base vms"
    using Cons.IH [OF *(2)] Cons.prems(2) by (metis list.set_intros(2))
  ultimately show ?case using *(3) vm by (simp add: mask_exprs_def)
qed

lemma atom_match_mask:
  "atom_match \<rho> vs (Mask t (Constant mt v b) (Constant mt m b')) (BitsV w s x) \<longleftrightarrow> covers (v, m) x"
  by (simp add: key_int_def covers_def)

lemma expandRange_spec:
  assumes "expandRange rt base (Type_Bits (int w) False) lo hi = Ok ds ms" "width_bits rt = Ok d (int w)"
    and "lo \<le> hi" "- (2 ^ w) \<le> lo" "hi < 2 ^ w" "0 \<le> x" "x < 2 ^ w"
  shows "length (filter (\<lambda>m. atom_match \<rho> vs m (BitsV w False x)) ms) =
      (if (if 0 \<le> lo then lo \<le> x \<and> x \<le> hi else lo + 2 ^ w \<le> x \<and> x \<le> hi + 2 ^ w) then 1 else 0)"
    "length ms \<le> 2 * w" "0 \<le> lo \<or> hi < 0"
proof -
  define lo' hi' where "lo' = (if lo < 0 then 2 ^ w + lo else lo)" and "hi' = (if lo < 0 then 2 ^ w + hi else hi)"
  from assms(1,2) have run: "0 < w" "(0 \<le> lo) = (0 \<le> hi)"
      "mapM_comp (mk_mask (Type_Bits (int w) False) base) (expand_loop (2 ^ w - 1) hi' lo' (nat (hi' - lo' + 1))) = Ok ds ms \<or>
       (\<exists>d'. mapM_comp (mk_mask (Type_Bits (int w) False) base) (expand_loop (2 ^ w - 1) hi' lo' (nat (hi' - lo' + 1))) = Ok d' ms)"
    by (auto simp: expandRange_def Let_def lo'_def hi'_def push_bit_eq_mult split: if_split_asm comp.split_asm)
  from run(3) obtain d' where run': "mapM_comp (mk_mask (Type_Bits (int w) False) base)
      (expand_loop (2 ^ w - 1) hi' lo' (nat (hi' - lo' + 1))) = Ok d' ms" by auto
  show "0 \<le> lo \<or> hi < 0" using run(2) by linarith
  have b: "0 \<le> lo'" "lo' \<le> hi'" "hi' < 2 ^ w" using assms(3-5) run(2) by (auto simp: lo'_def hi'_def)
  have ms: "ms = mask_exprs (Type_Bits (int w) False) base (expand_loop (2 ^ w - 1) hi' lo' (nat (hi' - lo' + 1)))"
    using b by (intro mapM_mk_mask [OF run'] loop_range) auto
  have f: "filter (\<lambda>m. atom_match \<rho> vs m (BitsV w False x)) (mask_exprs (Type_Bits (int w) False) base vms) =
      mask_exprs (Type_Bits (int w) False) base (filter (\<lambda>vm. covers vm x) vms)" for vms
    by (simp add: mask_exprs_def filter_map comp_def atom_match_mask del: atom_match.simps)
  have "length (filter (\<lambda>m. atom_match \<rho> vs m (BitsV w False x)) ms) =
      (if lo' \<le> x \<and> x < lo' + int (nat (hi' - lo' + 1)) then 1 else 0)"
    unfolding ms f using expand_loop_covers [of lo' "nat (hi' - lo' + 1)" w x hi'] b assms(6,7)
    by (simp add: mask_exprs_def)
  then show "length (filter (\<lambda>m. atom_match \<rho> vs m (BitsV w False x)) ms) =
      (if (if 0 \<le> lo then lo \<le> x \<and> x \<le> hi else lo + 2 ^ w \<le> x \<and> x \<le> hi + 2 ^ w) then 1 else 0)"
    using b by (auto simp: lo'_def hi'_def split: if_split_asm)
  show "length ms \<le> 2 * w" unfolding ms mask_exprs_def length_map
    by (rule expand_loop_length [OF b run(1)])
qed

text \<open>A value of a signed type, read as an unsigned number.\<close>

lemma signed_mod: "in_range w True a \<Longrightarrow> a mod 2 ^ w = (if a < 0 then a + 2 ^ w else a)"
proof -
  assume a: "in_range w True a"
  then have w: "(2::int) ^ w = 2 * 2 ^ (w - 1)" by (auto simp: in_range_def pow2_Suc_pred)
  show ?thesis
  proof (cases "a < 0")
    case True
    with a w have "0 \<le> a + 2 ^ w" "a + 2 ^ w < 2 ^ w" by (auto simp: in_range_def)
    then have "(a + 2 ^ w) mod 2 ^ w = a + 2 ^ w" by (rule mod_pos_pos_trivial)
    with True show ?thesis by (simp only: mod_add_self2 if_True)
  next
    case False
    with a w have "a < 2 ^ w" by (auto simp: in_range_def)
    with False show ?thesis by simp
  qed
qed

text \<open>What type checking guarantees of a range key: constant bounds of the type of the selector.\<close>

definition range_typed :: "nat \<Rightarrow> bool \<Rightarrow> expr \<Rightarrow> bool" where
  "range_typed w s key =
     (case key of
        Range rt l r \<Rightarrow>
          (case (to_Constant l, to_Constant r) of
             (Some (lt, a, lb), Some (rrt, b, rb)) \<Rightarrow>
               lt = Type_Bits (int w) s \<and> rt = Type_Set lt \<and> in_range w s a \<and> in_range w s b
           | _ \<Rightarrow> True)
      | _ \<Rightarrow> True)"

lemma in_range_bounds: "in_range w s a \<Longrightarrow> - (2 ^ w) \<le> a \<and> a < 2 ^ w"
  using pow2_Suc_pred [of w] by (cases s) (auto simp: in_range_def)

lemma rangeToMasks_spec:
  assumes run: "rangeToMasks cf rt l r k sg = Ok ds (Some ms, sg')"
    and ty: "range_typed w s (Range rt l r)" and a: "in_range w s a"
  shows "length (filter (\<lambda>m. atom_match \<rho> vs m (BitsV w False (a mod 2 ^ w))) ms) =
      (if atom_match \<rho> vs (Range rt l r) (BitsV w s a) then 1 else 0)"
    "length ms \<le> 4 * w" "\<not> s \<Longrightarrow> sg' = sg" "sg \<subseteq> sg'" "ms \<noteq> [] \<Longrightarrow> s \<Longrightarrow> k \<in> sg'" "sg' \<subseteq> insert k sg"
proof -
  from run obtain lt left lb rrt right rb where lr: "l = Constant lt left lb" "r = Constant rrt right rb"
    by (auto simp: rangeToMasks_def split: option.split_asm)
  with ty have t: "lt = Type_Bits (int w) s" "rt = Type_Set (Type_Bits (int w) s)" "in_range w s left" "in_range w s right"
    by (auto simp: range_typed_def)
  have am: "atom_match \<rho> vs (Range rt l r) (BitsV w s a) \<longleftrightarrow> left \<le> a \<and> a \<le> right"
    by (simp add: lr key_int_def)
  have wb: "width_bits rt = Ok [] (int w)" by (simp add: t)
  note bl = in_range_bounds [OF t(3)] and br = in_range_bounds [OF t(4)]
  define x where "x = a mod 2 ^ w"
  have x: "0 \<le> x" "x < 2 ^ w" by (simp_all add: x_def)
  have xa: "(if 0 \<le> a then x = a else x = a + 2 ^ w)" if s
    using signed_mod [of w a] assms(3) that by (auto simp: x_def)
  have xu: "x = a" if "\<not> s" using assms(3) that by (simp add: x_def in_range_def)
  have mt: "Type_Bits_get cf (int w) False = Ok d' mt \<Longrightarrow> mt = Type_Bits (int w) False" for d' mt
    by (auto simp: Type_Bits_get_def split: if_split_asm)
  consider (empty) "right < left" "ms = []" "sg' = sg"
    | (one) d' where "left \<le> right" "\<not> (s \<and> left < 0 \<and> 0 \<le> right)"
        "expandRange rt lb (Type_Bits (int w) False) left right = Ok d' ms" "sg' = (if s then insert k sg else sg)"
    | (two) d1 neg d2 pos where "s" "left < 0" "0 \<le> right" "ms = neg @ pos" "sg' = insert k sg"
        "expandRange rt lb (Type_Bits (int w) False) left (-1) = Ok d1 neg"
        "expandRange rt lb (Type_Bits (int w) False) 0 right = Ok d2 pos"
    using run unfolding rangeToMasks_def lr
    by (cases s) (auto simp: t(1) elim!: bind_comp_OkE dest!: mt split: comp.split_asm if_split_asm)
  note cases = this
  show "length (filter (\<lambda>m. atom_match \<rho> vs m (BitsV w False (a mod 2 ^ w))) ms) =
      (if atom_match \<rho> vs (Range rt l r) (BitsV w s a) then 1 else 0)"
    unfolding am x_def [symmetric]
  proof (cases rule: cases)
    case empty
    then show "length (filter (\<lambda>m. atom_match \<rho> vs m (BitsV w False x)) ms) = (if left \<le> a \<and> a \<le> right then 1 else 0)" by simp
  next
    case one
    from expandRange_spec(1) [OF one(3) wb one(1) _ _ x] bl br
    have e: "length (filter (\<lambda>m. atom_match \<rho> vs m (BitsV w False x)) ms) =
        (if (if 0 \<le> left then left \<le> x \<and> x \<le> right else left + 2 ^ w \<le> x \<and> x \<le> right + 2 ^ w) then 1 else 0)"
      by simp
    show "length (filter (\<lambda>m. atom_match \<rho> vs m (BitsV w False x)) ms) = (if left \<le> a \<and> a \<le> right then 1 else 0)"
    proof (cases s)
      case True
      with one(2) have "0 \<le> left \<or> right < 0" by auto
      moreover have "(2::int) ^ w = 2 * 2 ^ (w - 1)" using t(3) True by (auto simp: in_range_def pow2_Suc_pred)
      ultimately show ?thesis using xa [OF True] x a t(3,4) True unfolding e in_range_def
        by (auto split: if_split_asm)
    next
      case False
      with t(3) have "0 \<le> left" by (simp add: in_range_def)
      with xu [OF False] show ?thesis unfolding e by auto
    qed
  next
    case two
    from bl br have "(- 1::int) < 2 ^ w" by (meson less_trans neg_less_0_iff_less zero_less_one zero_less_power zero_less_numeral)
    with expandRange_spec(1) [OF two(6) wb _ _ _ x] two(2) bl
    have e1: "length (filter (\<lambda>m. atom_match \<rho> vs m (BitsV w False x)) neg) = (if left + 2 ^ w \<le> x \<and> x \<le> -1 + 2 ^ w then 1 else 0)"
      by simp
    from expandRange_spec(1) [OF two(7) wb _ _ _ x] two(3) br
    have e2: "length (filter (\<lambda>m. atom_match \<rho> vs m (BitsV w False x)) pos) = (if 0 \<le> x \<and> x \<le> right then 1 else 0)"
      by simp
    have w2: "(2::int) ^ w = 2 * 2 ^ (w - 1)" using t(3) two(1) by (auto simp: in_range_def pow2_Suc_pred)
    show "length (filter (\<lambda>m. atom_match \<rho> vs m (BitsV w False x)) ms) = (if left \<le> a \<and> a \<le> right then 1 else 0)"
      using xa [OF two(1)] two(1-4) a t(3,4) w2 x by (auto simp: e1 e2 in_range_def split: if_split_asm)
  qed
  show "length ms \<le> 4 * w"
  proof (cases rule: cases)
    case one
    with expandRange_spec(2) [OF one(3) wb one(1) _ _ x] bl br show ?thesis by simp
  next
    case two
    from expandRange_spec(2) [OF two(6) wb _ _ _ x] two(2) bl have "length neg \<le> 2 * w"
      by (simp add: less_trans [of _ 0])
    moreover from expandRange_spec(2) [OF two(7) wb _ _ _ x] two(3) br have "length pos \<le> 2 * w" by simp
    ultimately show ?thesis using two(4) by simp
  qed simp
  show "\<not> s \<Longrightarrow> sg' = sg" "sg \<subseteq> sg'" "ms \<noteq> [] \<Longrightarrow> s \<Longrightarrow> k \<in> sg'" "sg' \<subseteq> insert k sg"
    by (cases rule: cases; auto)+
qed

section \<open>Key sets\<close>

text \<open>The values of the new selector: the components of a signed range, read as unsigned numbers.\<close>

fun unsigned_val :: "val \<Rightarrow> val" where
  "unsigned_val (BitsV w s a) = BitsV w False (a mod 2 ^ w)"
| "unsigned_val v = v"

fun conv :: "nat \<Rightarrow> nat set \<Rightarrow> val list \<Rightarrow> val list" where
  "conv i sg [] = []"
| "conv i sg (x # xs) = (if i \<in> sg then unsigned_val x else x) # conv (Suc i) sg xs"

lemma conv_empty [simp]: "conv i {} xs = xs"
  by (induction xs arbitrary: i) auto

lemma length_conv [simp]: "length (conv i sg xs) = length xs"
  by (induction xs arbitrary: i) auto

text \<open>The key sets the pass handles: \<open>S\<close> holds the components with a signed range, whose other
  keys are ranges or defaults; a key set of another shape needs \<open>S\<close> to be empty.\<close>

definition sel_key_ok :: "bool \<Rightarrow> val \<Rightarrow> expr \<Rightarrow> bool" where
  "sel_key_ok sd x k =
     (case k of
        Range rt l r \<Rightarrow> (case x of BitsV w s a \<Rightarrow> range_typed w s k \<and> s = sd | _ \<Rightarrow> False)
      | _ \<Rightarrow> is_DefaultExpression k \<or> \<not> sd)"

fun keys_ok :: "nat \<Rightarrow> nat set \<Rightarrow> val list \<Rightarrow> expr list \<Rightarrow> bool" where
  "keys_ok i S [] [] = True"
| "keys_ok i S (x # xs) (k # ks) = (sel_key_ok (i \<in> S) x k \<and> keys_ok (Suc i) S xs ks)"
| "keys_ok i S _ _ = False"

definition case_ok :: "nat set \<Rightarrow> val list \<Rightarrow> expr \<Rightarrow> bool" where
  "case_ok S xs keyset =
     (case keyset of
        ListExpression t ks \<Rightarrow> keys_ok 0 S xs ks
      | Range t l r \<Rightarrow> length xs = 1 \<and> sel_key_ok (0 \<in> S) (hd xs) keyset
      | _ \<Rightarrow> is_DefaultExpression keyset \<or> S = {} \<or> length xs = 1 \<and> 0 \<notin> S)"

lemma ks_match_Mask:
  "ks_match \<rho> vs (Mask t l r) (BitsV w s x) = atom_match \<rho> vs (Mask t l r) (BitsV w s x)"
  by (simp add: ks_match_atom)

lemma rangeToMasks_None:
  "rangeToMasks cf rt l r k sg = Ok ds (None, sg') \<Longrightarrow> Error ERR_UNSUPPORTED_ON_TARGET \<in> set ds"
  by (auto simp: rangeToMasks_def elim!: bind_comp_OkE split: comp.split_asm if_split_asm option.split_asm)

lemma filter_one_iff: "length (filter P xs) = (if Q then 1 else 0) \<Longrightarrow> (\<exists>x\<in>set xs. P x) \<longleftrightarrow> Q"
  by (metis One_nat_def filter_empty_conv length_0_conv nat.distinct(1))

lemma mk_mask_Mask: "mapM_comp (mk_mask mt base) vms = Ok ds ms \<Longrightarrow> m \<in> set ms \<Longrightarrow> \<exists>t l r. m = Mask t l r"
proof (induction vms arbitrary: ds ms)
  case (Cons vm vms)
  then show ?case by (auto simp: mk_mask_def elim!: bind_comp_OkE split: comp.split_asm)
qed simp

lemma expandRange_Mask: "expandRange rt base mt lo hi = Ok ds ms \<Longrightarrow> m \<in> set ms \<Longrightarrow> \<exists>t l r. m = Mask t l r"
  by (auto simp: expandRange_def Let_def elim!: bind_comp_OkE split: if_split_asm dest: mk_mask_Mask)

lemma rangeToMasks_Mask:
  "rangeToMasks cf rt l r i sg = Ok ds (Some ms, sg') \<Longrightarrow> m \<in> set ms \<Longrightarrow> \<exists>t l r. m = Mask t l r"
  by (auto simp: rangeToMasks_def elim!: bind_comp_OkE split: comp.split_asm if_split_asm option.split_asm;
      blast dest: expandRange_Mask)

text \<open>A key that is a range: some mask matches the new value where the range matches the old one.\<close>

lemma range_key_match:
  assumes run: "rangeToMasks cf rt l r i sg0 = Ok ds (Some ms, sg1)"
    and ok: "sel_key_ok (i \<in> S) x (Range rt l r)" and wf: "wf_val x" and sub: "sg1 \<subseteq> sg" "sg \<subseteq> S"
  shows "(\<exists>m\<in>set ms. ks_match \<rho> vs m (if i \<in> sg then unsigned_val x else x)) \<longleftrightarrow> ks_match \<rho> vs (Range rt l r) x"
proof -
  from ok obtain w s a where x: "x = BitsV w s a" and ty: "range_typed w s (Range rt l r)" and s: "s = (i \<in> S)"
    by (auto simp: sel_key_ok_def split: val.split_asm)
  from wf x have a: "in_range w s a" by simp
  note spec = rangeToMasks_spec [OF run ty a]
  have v: "(if i \<in> sg then unsigned_val x else x) = BitsV w False (a mod 2 ^ w)" if "ms \<noteq> []"
    using spec(5) [OF that] s sub a x by (auto simp: in_range_def)
  have "(\<exists>m\<in>set ms. atom_match \<rho> vs m (BitsV w False (a mod 2 ^ w))) \<longleftrightarrow> atom_match \<rho> vs (Range rt l r) (BitsV w s a)"
    by (rule filter_one_iff [OF spec(1)])
  with v show ?thesis unfolding x by (cases "ms = []") (auto simp: ks_match_atom simp del: atom_match.simps)
qed

lemma ks_matches_append1:
  "length v = length ys \<Longrightarrow> ks_matches \<rho> vs (v @ [k]) (ys @ [x]) \<longleftrightarrow> ks_matches \<rho> vs v ys \<and> ks_match \<rho> vs k x"
  by (induction v ys rule: list_induct2) auto

lemma ks_matches_length: "ks_matches \<rho> vs ks xs \<Longrightarrow> length ks = length xs"
proof (induction ks arbitrary: xs)
  case Nil
  then show ?case by (cases xs) auto
next
  case (Cons k ks)
  then show ?case by (cases xs) auto
qed

lemma rangeToMasks_mono: "rangeToMasks cf rt l r k sg = Ok ds (m, sg') \<Longrightarrow> sg \<subseteq> sg'"
  by (auto simp: rangeToMasks_def elim!: bind_comp_OkE split: comp.split_asm if_split_asm option.split_asm)

lemma expand_keys_mono: "expand_keys cf i keys nv sg0 = Ok ds (v, sg1) \<Longrightarrow> sg0 \<subseteq> sg1"
proof (induction keys arbitrary: i nv sg0 ds)
  case (Cons k ks)
  show ?case
  proof (cases "\<exists>rt l r. k = Range rt l r")
    case True
    with Cons.prems obtain rt l r d m sg2 d2 where k: "k = Range rt l r" "rangeToMasks cf rt l r i sg0 = Ok d (m, sg2)"
      "(case m of None \<Rightarrow> ret (None, sg2) | Some ms \<Rightarrow> expand_keys cf (Suc i) ks (cartesianAppend nv ms) sg2) = Ok d2 (v, sg1)"
      by (auto elim!: bind_comp_OkE split: prod.split_asm)
    then have "sg0 \<subseteq> sg2" by (intro rangeToMasks_mono)
    moreover have "sg2 \<subseteq> sg1" using k(3) Cons.IH by (cases m) auto
    ultimately show ?thesis by simp
  next
    case False
    then have "expand_keys cf (Suc i) ks (cartesianAppend_one nv k) sg0 = Ok ds (v, sg1)"
      using Cons.prems by (cases k) auto
    then show ?thesis by (rule Cons.IH)
  qed
qed simp

lemma expand_keys_spec:
  assumes "expand_keys cf i keys nv sg0 = Ok ds (res, sg1)" "Error ERR_UNSUPPORTED_ON_TARGET \<notin> set ds"
    and "keys_ok i S xs keys" "list_all wf_val xs" "sg1 \<subseteq> sg" "sg \<subseteq> S" "\<forall>v\<in>set nv. length v = length ys"
  shows "\<exists>vecs. res = Some vecs \<and>
    ((\<exists>v\<in>set vecs. ks_matches \<rho> vs v (ys @ conv i sg xs)) \<longleftrightarrow> (\<exists>v\<in>set nv. ks_matches \<rho> vs v ys) \<and> ks_matches \<rho> vs keys xs)"
  using assms
proof (induction keys arbitrary: i nv sg0 ds xs ys)
  case Nil
  then show ?case by (cases xs) auto
next
  case (Cons k ks)
  then obtain x xs' where xs: "xs = x # xs'" "sel_key_ok (i \<in> S) x k" "keys_ok (Suc i) S xs' ks" by (cases xs) auto
  define y where "y = (if i \<in> sg then unsigned_val x else x)"
  have step: ?case if nv': "\<forall>v\<in>set nv'. length v = length (ys @ [y])"
    and m: "(\<exists>v\<in>set nv'. ks_matches \<rho> vs v (ys @ [y])) \<longleftrightarrow> (\<exists>v\<in>set nv. ks_matches \<rho> vs v ys) \<and> ks_match \<rho> vs k x"
    and run: "expand_keys cf (Suc i) ks nv' sg2 = Ok d2 (res, sg1)" "set d2 \<subseteq> set ds" for nv' sg2 d2
  proof -
    from Cons.IH [OF run(1) _ xs(3) _ Cons.prems(5,6) nv'] Cons.prems(2,4) run(2) xs(1) obtain vecs where
      "res = Some vecs" "(\<exists>v\<in>set vecs. ks_matches \<rho> vs v ((ys @ [y]) @ conv (Suc i) sg xs')) \<longleftrightarrow>
        (\<exists>v\<in>set nv'. ks_matches \<rho> vs v (ys @ [y])) \<and> ks_matches \<rho> vs ks xs'" by auto
    with m show ?thesis by (auto simp: xs(1) y_def [symmetric])
  qed
  show ?case
  proof (cases "\<exists>rt l r. k = Range rt l r")
    case True
    with Cons.prems(1) obtain rt l r d m sg2 d2 where k: "k = Range rt l r" "rangeToMasks cf rt l r i sg0 = Ok d (m, sg2)"
      "(case m of None \<Rightarrow> ret (None, sg2) | Some ms \<Rightarrow> expand_keys cf (Suc i) ks (cartesianAppend nv ms) sg2) = Ok d2 (res, sg1)"
      "ds = d @ d2" by (auto elim!: bind_comp_OkE split: prod.split_asm)
    with Cons.prems(2) rangeToMasks_None [of cf rt l r i sg0 d sg2] obtain ms where ms: "m = Some ms" by (cases m) auto
    have run: "expand_keys cf (Suc i) ks (cartesianAppend nv ms) sg2 = Ok d2 (res, sg1)" using k(3) ms by simp
    have "sg2 \<subseteq> sg" using expand_keys_mono [OF run] Cons.prems(5) by simp
    from range_key_match [OF k(2) [unfolded ms] _ _ this Cons.prems(6), of x \<rho> vs] xs k(1) Cons.prems(4)
    have m: "(\<exists>m\<in>set ms. ks_match \<rho> vs m y) \<longleftrightarrow> ks_match \<rho> vs k x" by (auto simp: y_def)
    show ?thesis
    proof (rule step [OF _ _ run])
      show "\<forall>v\<in>set (cartesianAppend nv ms). length v = length (ys @ [y])"
        using Cons.prems(7) by (auto simp: cartesianAppend_def)
      show "(\<exists>v\<in>set (cartesianAppend nv ms). ks_matches \<rho> vs v (ys @ [y])) \<longleftrightarrow>
          (\<exists>v\<in>set nv. ks_matches \<rho> vs v ys) \<and> ks_match \<rho> vs k x"
        unfolding m [symmetric] using Cons.prems(7) ks_matches_append1 by (fastforce simp: cartesianAppend_def)
    qed (simp add: k(4))
  next
    case False
    then have run: "expand_keys cf (Suc i) ks (cartesianAppend_one nv k) sg0 = Ok ds (res, sg1)"
      using Cons.prems(1) by (cases k) auto
    have "is_DefaultExpression k \<or> i \<notin> S" using xs(2) False by (cases k) (auto simp: sel_key_ok_def)
    with Cons.prems(6) have m: "ks_match \<rho> vs k y = ks_match \<rho> vs k x" by (auto simp: y_def)
    show ?thesis
    proof (rule step [OF _ _ run])
      show "\<forall>v\<in>set (cartesianAppend_one nv k). length v = length (ys @ [y])"
        using Cons.prems(7) by (auto simp: cartesianAppend_one_def)
      show "(\<exists>v\<in>set (cartesianAppend_one nv k). ks_matches \<rho> vs v (ys @ [y])) \<longleftrightarrow>
          (\<exists>v\<in>set nv. ks_matches \<rho> vs v ys) \<and> ks_match \<rho> vs k x"
        using Cons.prems(7) ks_matches_append1 m by (fastforce simp: cartesianAppend_one_def)
    qed simp
  qed
qed


section \<open>Cases and selectors\<close>

lemma select_state_same:
  "select_state \<rho> vs (map (\<lambda>k. (f k, st)) ks) v = (if \<exists>k\<in>set ks. ks_match \<rho> vs (f k) v then Some st else None)"
  by (induction ks) auto

lemma replace_SelectCase_mono: "replace_SelectCase cf mx sg0 sc = Ok ds (new, sg1) \<Longrightarrow> sg0 \<subseteq> sg1"
  by (cases sc; cases "fst sc")
    (auto simp: replace_SelectCase_def elim!: bind_comp_OkE dest!: rangeToMasks_mono expand_keys_mono
       split: comp.split_asm option.split_asm prod.split_asm)

lemma replace_SelectCases_mono: "replace_SelectCases cf mx sg0 cs = Ok ds (new, sg1) \<Longrightarrow> sg0 \<subseteq> sg1"
proof (induction cs arbitrary: sg0 ds new)
  case (Cons c cs)
  then obtain d1 n1 sg2 d2 n2 where "replace_SelectCase cf mx sg0 c = Ok d1 (n1, sg2)"
    "replace_SelectCases cf mx sg2 cs = Ok d2 (n2, sg1)" by (auto elim!: bind_comp_OkE split: prod.split_asm)
  with Cons.IH replace_SelectCase_mono show ?case by (meson order_trans)
qed simp

lemma ks_match_single:
  "(\<And>t ks. k \<noteq> ListExpression t ks) \<Longrightarrow> ks_match \<rho> vs k (TupleV [x]) \<longleftrightarrow> is_DefaultExpression k \<or> ks_match \<rho> vs k x"
  by (cases k) auto

lemma replace_SelectCase_spec:
  assumes run: "replace_SelectCase cf mx sg0 sc = Ok ds (new, sg1)" "Error ERR_UNSUPPORTED_ON_TARGET \<notin> set ds"
    and ok: "case_ok S xs (fst sc)" "list_all wf_val xs" and sub: "sg1 \<subseteq> sg" "sg \<subseteq> S"
  shows "select_state \<rho> vs new (TupleV (conv 0 sg xs)) = select_state \<rho> vs [sc] (TupleV xs)"
proof -
  obtain ks st where sc: "sc = (ks, st)" by (cases sc)
  consider (range) rt l r where "ks = Range rt l r" | (list) t keys where "ks = ListExpression t keys"
    | (other) "\<forall>rt l r. ks \<noteq> Range rt l r" "\<forall>t keys. ks \<noteq> ListExpression t keys" by blast
  then show ?thesis
  proof cases
    case range
    with ok(1) sc obtain x where x: "xs = [x]" "sel_key_ok (0 \<in> S) x ks" by (auto simp: case_ok_def length_Suc_conv)
    from run range sc obtain d m sg2 d2 where k: "rangeToMasks cf rt l r 0 sg0 = Ok d (m, sg2)" "set d \<subseteq> set ds"
      "(case m of None \<Rightarrow> ret ([sc], sg2) | Some ms \<Rightarrow> ret (map (\<lambda>m. (m, st)) ms, sg2)) = Ok d2 (new, sg1)"
      by (auto simp: replace_SelectCase_def elim!: bind_comp_OkE split: prod.split_asm)
    with run(2) rangeToMasks_None [of cf rt l r 0 sg0 d sg2] obtain ms where ms: "m = Some ms" by (cases m) auto
    with k(3) have new: "new = map (\<lambda>m. (m, st)) ms" "sg2 = sg1" by auto
    note mask = rangeToMasks_Mask [OF k(1) [unfolded ms]]
    have "ks_match \<rho> vs m (TupleV [y]) = ks_match \<rho> vs m y" if "m \<in> set ms" for m y
      using mask [OF that] by auto
    then have "(\<exists>m\<in>set ms. ks_match \<rho> vs m (TupleV (conv 0 sg xs))) \<longleftrightarrow> ks_match \<rho> vs ks (TupleV xs)"
      using range_key_match [OF k(1) [unfolded ms] _ _ _ sub(2), of x \<rho> vs] x range ok(2) sub(1) new(2) by (simp cong: bex_cong)
    then show ?thesis unfolding new sc by (simp add: select_state_same del: ks_match.simps)
  next
    case list
    with ok(1) sc have kok: "keys_ok 0 S xs keys" by (simp add: case_ok_def)
    from run list sc obtain d m sg2 d2 where k: "expand_keys cf 0 keys [[]] sg0 = Ok d (m, sg2)" "set d \<subseteq> set ds"
      "(case m of None \<Rightarrow> ret ([sc], sg2)
        | Some vs \<Rightarrow> Ok (if length vs > mx then [Warning WARN_OVERLIMIT] else [])
                    (map (\<lambda>v. (ListExpression (Type_List (map type_of v)) v, st)) vs, sg2)) = Ok d2 (new, sg1)"
      by (auto simp: replace_SelectCase_def elim!: bind_comp_OkE split: prod.split_asm)
    from k(3) have "sg2 = sg1" by (cases m) auto
    with expand_keys_spec [OF k(1) _ kok ok(2) _ sub(2), of "[]" \<rho> vs] k(2) run(2) sub(1) obtain vecs where
      m: "m = Some vecs" "(\<exists>v\<in>set vecs. ks_matches \<rho> vs v (conv 0 sg xs)) \<longleftrightarrow> ks_matches \<rho> vs keys xs" by auto
    from k(3) m(1) have "new = map (\<lambda>v. (ListExpression (Type_List (map type_of v)) v, st)) vecs" by simp
    with m(2) show ?thesis by (simp add: select_state_same sc list)
  next
    case other
    then have "new = [sc]" "sg1 = sg0" using run(1) sc by (cases ks; simp add: replace_SelectCase_def)+
    moreover have "is_DefaultExpression ks \<or> S = {} \<or> length xs = 1 \<and> 0 \<notin> S"
      using ok(1) other sc by (cases ks) (auto simp: case_ok_def)
    then have "ks_match \<rho> vs ks (TupleV (conv 0 sg xs)) = ks_match \<rho> vs ks (TupleV xs)"
    proof (elim disjE conjE)
      assume "S = {}"
      with sub(2) show ?thesis by simp
    next
      assume "length xs = 1" "0 \<notin> S"
      with sub(2) have "conv 0 sg xs = xs" by (cases xs) auto
      then show ?thesis by simp
    qed (cases ks; simp)
    ultimately show ?thesis by (simp add: sc)
  qed
qed

lemma replace_SelectCases_spec:
  assumes "replace_SelectCases cf mx sg0 cases = Ok ds (new, sg1)" "Error ERR_UNSUPPORTED_ON_TARGET \<notin> set ds"
    and "\<forall>c\<in>set cases. case_ok S xs (fst c)" "list_all wf_val xs" "sg1 \<subseteq> sg" "sg \<subseteq> S"
  shows "select_state \<rho> vs new (TupleV (conv 0 sg xs)) = select_state \<rho> vs cases (TupleV xs)"
  using assms
proof (induction cases arbitrary: sg0 ds new)
  case (Cons c cs)
  from Cons.prems(1) obtain d1 n1 sg2 d2 n2 where k: "replace_SelectCase cf mx sg0 c = Ok d1 (n1, sg2)"
    "replace_SelectCases cf mx sg2 cs = Ok d2 (n2, sg1)" "new = n1 @ n2" "ds = d1 @ d2"
    by (auto elim!: bind_comp_OkE split: prod.split_asm)
  have "select_state \<rho> vs n1 (TupleV (conv 0 sg xs)) = select_state \<rho> vs [c] (TupleV xs)"
    using replace_SelectCases_mono [OF k(2)] Cons.prems k(4)
    by (intro replace_SelectCase_spec [OF k(1) _ _ _ _ Cons.prems(6)]) auto
  moreover have "select_state \<rho> vs n2 (TupleV (conv 0 sg xs)) = select_state \<rho> vs cs (TupleV xs)"
    using Cons.prems k(4) by (intro Cons.IH [OF k(2)]) auto
  ultimately show ?case unfolding k(3)
    by (cases c) (auto simp: select_state_append simp del: ks_match.simps split: if_split_asm)
qed simp

text \<open>The components of the selector have the types of their values.\<close>

definition component_ok :: "expr \<Rightarrow> val \<Rightarrow> bool" where
  "component_ok e x = (case x of BitsV w s a \<Rightarrow> type_of e = Type_Bits (int w) s | _ \<Rightarrow> True)"

lemma cast_signed_spec:
  assumes "cast_signed cf i sg es = Ok ds es'" "all_some (map (eval \<rho>) es) = Some xs" "list_all2 component_ok es xs"
    "list_all wf_val xs" "\<forall>j<length xs. i + j \<in> sg \<longrightarrow> (\<exists>w s a. xs ! j = BitsV w s a)"
  shows "all_some (map (eval \<rho>) es') = Some (conv i sg xs)"
  using assms
proof (induction es arbitrary: i ds es' xs)
  case (Cons e es)
  then obtain x xs' where xs: "xs = x # xs'" "eval \<rho> e = Some x" "all_some (map (eval \<rho>) es) = Some xs'"
    "component_ok e x" "list_all2 component_ok es xs'" by (auto split: option.split_asm)
  from Cons.prems(1) obtain d1 e' d2 r where k: "(if i \<in> sg then (case to_Type_Bits (type_of e) of
             None \<Rightarrow> Bug ''Cannot handle select on types other then fixed-width integeral types''
           | Some (sz, s) \<Rightarrow> bind_comp (Type_Bits_get cf sz False) (\<lambda>unsignedType. ret (Cast unsignedType e)))
        else ret e) = Ok d1 e'" "cast_signed cf (Suc i) sg es = Ok d2 r" "es' = e' # r" by (auto elim!: bind_comp_OkE)
  have "\<forall>j<length xs'. Suc i + j \<in> sg \<longrightarrow> (\<exists>w s a. xs' ! j = BitsV w s a)"
  proof (intro allI impI)
    fix j
    assume "j < length xs'" "Suc i + j \<in> sg"
    with Cons.prems(5) [rule_format, of "Suc j"] xs(1) show "\<exists>w s a. xs' ! j = BitsV w s a" by simp
  qed
  then have "all_some (map (eval \<rho>) r) = Some (conv (Suc i) sg xs')"
    using Cons.IH [OF k(2) xs(3,5)] Cons.prems(4) xs(1) by simp
  moreover have "eval \<rho> e' = Some (if i \<in> sg then unsigned_val x else x)"
  proof (cases "i \<in> sg")
    case True
    with Cons.prems(5) xs(1) obtain w s a where x: "x = BitsV w s a" by (auto dest!: spec [where x = 0])
    with xs(4) have t: "type_of e = Type_Bits (int w) s" by (simp add: component_ok_def)
    from k(1) True t have "e' = Cast (Type_Bits (int w) False) e"
      by (auto simp: Type_Bits_get_def elim!: bind_comp_OkE split: if_split_asm)
    with xs(2) x True show ?thesis by (simp add: norm_def)
  qed (use k xs in auto)
  ultimately show ?case by (simp add: k(3) xs(1))
qed simp

text \<open>A component whose cast is asked for had a signed range, so its value is a sized integer.\<close>

lemma rangeToMasks_sg:
  "rangeToMasks cf rt l r k sg = Ok ds (m, sg') \<Longrightarrow> range_typed w s (Range rt l r) \<Longrightarrow>
     sg' \<subseteq> (if s then insert k sg else sg)"
  by (auto simp: rangeToMasks_def range_typed_def elim!: bind_comp_OkE
      split: comp.split_asm if_split_asm option.split_asm)

definition sized_at :: "nat set \<Rightarrow> val list \<Rightarrow> nat \<Rightarrow> bool" where
  "sized_at S xs j \<longleftrightarrow> j \<in> S \<and> j < length xs \<and> (\<exists>w s a. xs ! j = BitsV w s a)"

lemma range_sized_at:
  assumes "rangeToMasks cf rt l r i sg = Ok ds (m, sg')" "sel_key_ok (i \<in> S) (xs ! i) (Range rt l r)" "i < length xs"
    and "\<forall>j\<in>sg. sized_at S xs j"
  shows "\<forall>j\<in>sg'. sized_at S xs j"
proof -
  from assms(2) obtain w a where x: "xs ! i = BitsV w (i \<in> S) a" "range_typed w (i \<in> S) (Range rt l r)"
    by (cases "xs ! i") (auto simp: sel_key_ok_def)
  then have "i \<in> S \<Longrightarrow> sized_at S xs i" using assms(3) by (auto simp: sized_at_def)
  with rangeToMasks_sg [OF assms(1) x(2)] assms(4) show ?thesis by (auto split: if_split_asm)
qed

lemma expand_keys_sg:
  assumes "expand_keys cf i keys nv sg0 = Ok ds (res, sg1)" "keys_ok i S (drop i xs) keys" "i \<le> length xs"
    and "\<forall>j\<in>sg0. sized_at S xs j"
  shows "\<forall>j\<in>sg1. sized_at S xs j"
  using assms
proof (induction keys arbitrary: i nv sg0 ds)
  case (Cons k ks)
  then have "drop i xs \<noteq> []" by (cases "drop i xs") auto
  then have i: "i < length xs" by simp
  define x where "x = xs ! i"
  with i have xi: "drop i xs = x # drop (Suc i) xs" by (simp add: Cons_nth_drop_Suc)
  have x: "sel_key_ok (i \<in> S) x k" "keys_ok (Suc i) S (drop (Suc i) xs) ks"
    using Cons.prems(2) unfolding xi keys_ok.simps by blast+
  show ?case
  proof (cases "\<exists>rt l r. k = Range rt l r")
    case True
    with Cons.prems obtain rt l r d m sg2 d2 where k: "k = Range rt l r" "rangeToMasks cf rt l r i sg0 = Ok d (m, sg2)"
      "(case m of None \<Rightarrow> ret (None, sg2) | Some ms \<Rightarrow> expand_keys cf (Suc i) ks (cartesianAppend nv ms) sg2) = Ok d2 (res, sg1)"
      by (auto elim!: bind_comp_OkE split: prod.split_asm)
    have s2: "\<forall>j\<in>sg2. sized_at S xs j"
      using x(1) k(1) by (intro range_sized_at [OF k(2) _ i Cons.prems(4)]) (simp add: x_def)
    show ?thesis
    proof (cases m)
      case None
      with k(3) s2 show ?thesis by simp
    next
      case (Some ms)
      with k(3) show ?thesis using Cons.IH [OF _ x(2) _ s2] i by simp
    qed
  next
    case False
    then have "expand_keys cf (Suc i) ks (cartesianAppend_one nv k) sg0 = Ok ds (res, sg1)"
      using Cons.prems(1) by (cases k) auto
    from Cons.IH [OF this x(2) _ Cons.prems(4)] i show ?thesis by simp
  qed
qed simp

lemma replace_SelectCase_sg:
  assumes "replace_SelectCase cf mx sg0 sc = Ok ds (new, sg1)" "case_ok S xs (fst sc)" "\<forall>j\<in>sg0. sized_at S xs j"
  shows "\<forall>j\<in>sg1. sized_at S xs j"
proof -
  obtain ks st where sc: "sc = (ks, st)" by (cases sc)
  consider (range) rt l r where "ks = Range rt l r" | (list) t keys where "ks = ListExpression t keys"
    | (other) "\<forall>rt l r. ks \<noteq> Range rt l r" "\<forall>t keys. ks \<noteq> ListExpression t keys" by blast
  then show ?thesis
  proof cases
    case range
    with assms(2) sc have ok: "sel_key_ok (0 \<in> S) (xs ! 0) (Range rt l r)" "0 < length xs"
      by (auto simp: case_ok_def length_Suc_conv)
    from assms(1) range sc obtain d m where "rangeToMasks cf rt l r 0 sg0 = Ok d (m, sg1)"
      by (auto simp: replace_SelectCase_def elim!: bind_comp_OkE split: prod.split_asm option.split_asm)
    then show ?thesis by (rule range_sized_at [OF _ ok assms(3)])
  next
    case list
    from assms(1) list sc obtain d m where "expand_keys cf 0 keys [[]] sg0 = Ok d (m, sg1)"
      by (auto simp: replace_SelectCase_def elim!: bind_comp_OkE split: prod.split_asm option.split_asm)
    then show ?thesis by (rule expand_keys_sg) (use assms(2,3) list sc in \<open>auto simp: case_ok_def\<close>)
  next
    case other
    then have "sg1 = sg0" using assms(1) sc by (cases ks; simp add: replace_SelectCase_def)+
    with assms(3) show ?thesis by simp
  qed
qed

lemma replace_SelectCases_sg:
  "replace_SelectCases cf mx sg0 cases = Ok ds (new, sg1) \<Longrightarrow> \<forall>c\<in>set cases. case_ok S xs (fst c) \<Longrightarrow>
     \<forall>j\<in>sg0. sized_at S xs j \<Longrightarrow> \<forall>j\<in>sg1. sized_at S xs j"
proof (induction cases arbitrary: sg0 ds new)
  case (Cons c cs)
  from Cons.prems(1) obtain d1 n1 sg2 d2 n2 where k: "replace_SelectCase cf mx sg0 c = Ok d1 (n1, sg2)"
    "replace_SelectCases cf mx sg2 cs = Ok d2 (n2, sg1)"
    by (auto elim!: bind_comp_OkE split: prod.split_asm)
  from Cons.prems(2) have c: "case_ok S xs (fst c)" and cs: "\<forall>c\<in>set cs. case_ok S xs (fst c)" by simp_all
  show ?case by (rule Cons.IH [OF k(2) cs replace_SelectCase_sg [OF k(1) c Cons.prems(3)]])
qed simp

section \<open>The pass keeps the transition\<close>

text \<open>C7: In every state of the parser, \<open>ReplaceSelectRange\<close> keeps the transition of a select
  expression: the state chosen by the new cases for the new selector is the one chosen by the
  original cases, when no range was refused with an error, the bounds of the ranges are constants
  of the type of their component, and the components with a signed range (the set \<open>S\<close>) have no
  keys but ranges and defaults.\<close>
theorem select_ranges_replaced:
  assumes "replace_SelectExpression cf mx select cases = Ok ds (select', cases')"
    and "Error ERR_UNSUPPORTED_ON_TARGET \<notin> set ds"
    and "wf_env \<rho>" "all_some (map (eval \<rho>) select) = Some xs" "list_all2 component_ok select xs"
    and "\<forall>c\<in>set cases. case_ok S xs (fst c)"
  shows "Option.bind (all_some (map (eval \<rho>) select')) (\<lambda>xs'. select_state \<rho> vs cases' (TupleV xs')) =
    select_state \<rho> vs cases (TupleV xs)"
proof -
  from assms(1) obtain d1 sg d2 where k: "replace_SelectCases cf mx {} cases = Ok d1 (cases', sg)"
    "(if sg \<noteq> {} then cast_signed cf 0 sg select else ret select) = Ok d2 select'" "ds = d1 @ d2"
    by (auto simp: replace_SelectExpression_def elim!: bind_comp_OkE split: prod.split_asm)
  have wf: "list_all wf_val xs"
    by (rule all_some_wf [OF assms(4)]) (rule eval_wf [OF assms(3)])
  have at: "\<forall>j\<in>sg. sized_at S xs j" by (rule replace_SelectCases_sg [OF k(1) assms(6)]) simp
  have "all_some (map (eval \<rho>) select') = Some (conv 0 sg xs)"
  proof (cases "sg = {}")
    case True
    with k(2) assms(4) show ?thesis by simp
  next
    case False
    with k(2) have "cast_signed cf 0 sg select = Ok d2 select'" by simp
    from cast_signed_spec [OF this assms(4,5) wf] at show ?thesis by (auto simp: sized_at_def)
  qed
  moreover have "sg \<subseteq> S" using at by (auto simp: sized_at_def)
  ultimately show ?thesis
    using replace_SelectCases_spec [OF k(1) _ assms(6) wf order_refl] assms(2) k(3) by simp
qed

abbreviation i4 :: p4type where "i4 \<equiv> Type_Bits 4 True"

abbreviation range4 :: "int \<Rightarrow> int \<Rightarrow> expr" where
  "range4 a b \<equiv> Range (Type_Set i4) (Constant i4 a 10) (Constant i4 b 10)"

definition select_env :: sem_env where
  "select_env = \<lparr>var_val = (\<lambda>p. if p = ''x'' then Some (BitsV 8 False 5) else if p = ''y'' then Some (BitsV 4 True (-2)) else None),
     call_val = \<lambda>m v as. None\<rparr>"

theorem select_ranges_replaced_witness:
  "Option.bind (all_some (map (eval select_env) [PathExpression u8 ''x'', Cast (Type_Bits 4 False) (PathExpression i4 ''y'')]))
     (\<lambda>xs'. select_state select_env (\<lambda>k v. False)
       (map (\<lambda>(v, m). (ListExpression (Type_List [u8, Type_Set (Type_Bits 4 False)]) [Constant u8 5 10,
           Mask (Type_Set (Type_Bits 4 False)) (Constant (Type_Bits 4 False) v 10) (Constant (Type_Bits 4 False) m 10)], ''a''))
         [(13, 15), (14, 14), (0, 14), (2, 15)] @ [(DefaultExpression u8, ''b'')]) (TupleV xs')) =
   select_state select_env (\<lambda>k v. False)
     [(ListExpression (Type_List [u8, i4]) [Constant u8 5 10, range4 (-3) 2], ''a''), (DefaultExpression u8, ''b'')]
     (TupleV [BitsV 8 False 5, BitsV 4 True (-2)])"
proof (rule select_ranges_replaced [where cf = example_cf and mx = 100 and S = "{1}" and ds = "[]"
      and select = "[PathExpression u8 ''x'', PathExpression i4 ''y'']"])
  show "replace_SelectExpression example_cf 100 [PathExpression u8 ''x'', PathExpression i4 ''y'']
      [(ListExpression (Type_List [u8, i4]) [Constant u8 5 10, range4 (-3) 2], ''a''), (DefaultExpression u8, ''b'')] =
    Ok [] ([PathExpression u8 ''x'', Cast (Type_Bits 4 False) (PathExpression i4 ''y'')],
      map (\<lambda>(v, m). (ListExpression (Type_List [u8, Type_Set (Type_Bits 4 False)]) [Constant u8 5 10,
           Mask (Type_Set (Type_Bits 4 False)) (Constant (Type_Bits 4 False) v 10) (Constant (Type_Bits 4 False) m 10)], ''a''))
         [(13, 15), (14, 14), (0, 14), (2, 15)] @ [(DefaultExpression u8, ''b'')])" by code_simp
  show "wf_env select_env" by (auto simp: wf_env_def select_env_def in_range_def split: if_split_asm)
qed (auto simp: select_env_def component_ok_def case_ok_def sel_key_ok_def range_typed_def in_range_def)

text \<open>C8: The masks of a range cover it exactly and do not overlap: the value of a component, read as
  an unsigned number, matches one of the masks if it is in the range and none otherwise.  There
  are at most \<open>4 * w\<close> of them.\<close>
theorem range_masks_exact:
  assumes "rangeToMasks cf rt l r k sg = Ok ds (Some ms, sg')" "range_typed w s (Range rt l r)" "in_range w s a"
  shows "length (filter (\<lambda>m. atom_match \<rho> vs m (BitsV w False (a mod 2 ^ w))) ms) =
      (if atom_match \<rho> vs (Range rt l r) (BitsV w s a) then 1 else 0) \<and> length ms \<le> 4 * w"
  using rangeToMasks_spec(1,2) [OF assms] by blast

theorem range_masks_exact_witness:
  "length (filter (\<lambda>m. atom_match select_env (\<lambda>k v. False) m (BitsV 4 False (-2 mod 2 ^ 4)))
       (map (\<lambda>(v, m). Mask (Type_Set (Type_Bits 4 False)) (Constant (Type_Bits 4 False) v 10) (Constant (Type_Bits 4 False) m 10))
         [(13, 15), (14, 14), (0, 14), (2, 15)])) =
     (if atom_match select_env (\<lambda>k v. False) (range4 (-3) 2) (BitsV 4 True (-2)) then 1 else 0) \<and>
   length (map (\<lambda>(v, m). Mask (Type_Set (Type_Bits 4 False)) (Constant (Type_Bits 4 False) v 10) (Constant (Type_Bits 4 False) m 10))
         [(13, 15), (14, 14), (0, 14), (2, 15)]) \<le> 4 * 4"
proof (rule range_masks_exact [where cf = example_cf and k = 0 and sg = "{}" and sg' = "{0}" and ds = "[]"])
  show "rangeToMasks example_cf (Type_Set i4) (Constant i4 (- 3) 10) (Constant i4 2 10) 0 {} =
    Ok [] (Some (map (\<lambda>(v, m). Mask (Type_Set (Type_Bits 4 False)) (Constant (Type_Bits 4 False) v 10) (Constant (Type_Bits 4 False) m 10))
         [(13, 15), (14, 14), (0, 14), (2, 15)]), {0})" by code_simp
qed (auto simp: range_typed_def in_range_def)

text \<open>A constant key beside a signed range keeps its signed type, while the component is cast to
  the unsigned one: a negative constant that matched the component does not match its cast.\<close>
theorem signed_constant_key_lost:
  "let cases = [(range4 0 2, ''a''), (Constant i4 (-2) 10, ''b''), (DefaultExpression i4, ''c'')];
       select = [PathExpression i4 ''y'']
   in map_option (\<lambda>(sel, cs). map_option (\<lambda>xs. select_state select_env (\<lambda>k v. False) cs (TupleV xs)) (all_some (map (eval select_env) sel)))
        (result_of (replace_SelectExpression example_cf 100 select cases)) = Some (Some (Some ''c'')) \<and>
      map_option (\<lambda>xs. select_state select_env (\<lambda>k v. False) cases (TupleV xs)) (all_some (map (eval select_env) select)) = Some (Some ''b'')"
  by code_simp

end
