(* ===== verification/StrengthRed.thy ===== *)
theory StrengthRed
  imports ConstFold_Correct
begin

text \<open>
  Strength reduction (frontends/p4/strengthReduction.{h,cpp}): the class \<open>DoStrengthReduction\<close>
  replaces arithmetic and boolean operations by cheaper ones after visiting their operands.  The
  guard \<open>hasSideEffects\<close> is the conservative check of frontends/p4/sideEffects.h.
\<close>

section \<open>Helper methods\<close>

fun side_effect_node :: "expr \<Rightarrow> bool" where
  "side_effect_node (MethodCallExpression t mi e as) =
     (case mi of BuiltInMethod n \<Rightarrow> n \<noteq> ''isValid'' | OtherMethod n \<Rightarrow> True)"
| "side_effect_node (ConstructorCallExpression t as) = True"
| "side_effect_node e = False"

function hasSideEffects :: "expr \<Rightarrow> bool" where
  "hasSideEffects e = (side_effect_node e \<or> list_ex hasSideEffects (children e))"
  by auto
termination by (relation "measure size") (auto simp: size_children)

declare hasSideEffects.simps [simp del]

definition isOne :: "expr \<Rightarrow> bool" where
  "isOne expr = (case to_Constant expr of None \<Rightarrow> False | Some (t, v, b) \<Rightarrow> v = 1)"

definition isZero :: "expr \<Rightarrow> bool" where
  "isZero expr =
     (case to_Type_Bits (type_of expr) of
        Some (w, s) \<Rightarrow>
          w = 0 \<or> (case to_Constant expr of None \<Rightarrow> False | Some (t, v, b) \<Rightarrow> v = 0)
      | None \<Rightarrow> (case to_Constant expr of None \<Rightarrow> False | Some (t, v, b) \<Rightarrow> v = 0))"

definition isTrue :: "expr \<Rightarrow> bool" where
  "isTrue expr = (case to_BoolLiteral expr of None \<Rightarrow> False | Some b \<Rightarrow> b)"

definition isFalse :: "expr \<Rightarrow> bool" where
  "isFalse expr = (case to_BoolLiteral expr of None \<Rightarrow> False | Some b \<Rightarrow> \<not> b)"

text \<open>The lowest and the highest one bit of a power of two are the same.\<close>

definition isPowerOf2 :: "expr \<Rightarrow> int" where
  "isPowerOf2 expr =
     (case to_Constant expr of
        None \<Rightarrow> - 1
      | Some (t, v, b) \<Rightarrow>
          if v \<le> 0 then - 1
          else let log = msb (nat v) in if log \<noteq> lsb (nat v) then - 1 else int log)"

definition isAllOnes :: "expr \<Rightarrow> bool comp" where
  "isAllOnes expr =
     (case to_Constant expr of
        None \<Rightarrow> ret False
      | Some (t, v, b) \<Rightarrow>
          if v \<le> 0 then ret False
          else bind_comp (width_bits t) (\<lambda>w. ret (int (bitcount v) = w)))"

fun to_Unary :: "unop \<Rightarrow> expr \<Rightarrow> expr option" where
  "to_Unary u (Unary u' t e) = (if u = u' then Some e else None)"
| "to_Unary u e = None"

fun to_Binary :: "binop \<Rightarrow> expr \<Rightarrow> (p4type \<times> expr \<times> expr) option" where
  "to_Binary b (Binary b' t l r) = (if b = b' then Some (t, l, r) else None)"
| "to_Binary b e = None"

lemma to_op_Some [simp]:
  "to_Unary u e = Some x \<longleftrightarrow> (\<exists>t. e = Unary u t x)"
  "to_Binary b e = Some (t, l, r) \<longleftrightarrow> e = Binary b t l r"
  by (cases e; auto)+

section \<open>Bitwise and logical operators\<close>

definition sr_Cmpl :: "p4type \<Rightarrow> expr \<Rightarrow> expr comp" where
  "sr_Cmpl t e = ret (case to_Unary Cmpl e of Some x \<Rightarrow> x | None \<Rightarrow> Unary Cmpl t e)"

definition sr_UPlus :: "p4type \<Rightarrow> expr \<Rightarrow> expr comp" where
  "sr_UPlus t e = ret e"

definition sr_BAnd :: "p4type \<Rightarrow> expr \<Rightarrow> expr \<Rightarrow> expr comp" where
  "sr_BAnd t left right =
     (let e = Binary BAnd t left right
      in bind_comp (isAllOnes left) (\<lambda>a. if a then ret right else
         bind_comp (isAllOnes right) (\<lambda>b. if b then ret left else
           ret (case (to_Unary Cmpl left, to_Unary Cmpl right) of
                  (Some l, Some r) \<Rightarrow> Unary Cmpl t (Binary BOr t l r)
                | _ \<Rightarrow>
                    if hasSideEffects e then e
                    else if isZero left then left
                    else if isZero right then right
                    else if left = right then left
                    else e))))"

definition sr_BOr :: "p4type \<Rightarrow> expr \<Rightarrow> expr \<Rightarrow> expr comp" where
  "sr_BOr t left right =
     (let e = Binary BOr t left right
      in ret (if isZero left then right
              else if isZero right then left
              else case (to_Unary Cmpl left, to_Unary Cmpl right) of
                     (Some l, Some r) \<Rightarrow> Unary Cmpl t (Binary BAnd t l r)
                   | _ \<Rightarrow>
                       if hasSideEffects e then e
                       else if left = right then left
                       else e))"

definition sr_BXor :: "p4type \<Rightarrow> expr \<Rightarrow> expr \<Rightarrow> expr comp" where
  "sr_BXor t left right =
     (if isZero left then ret right
      else if isZero right then ret left
      else
        let cmpl = ((to_Unary Cmpl left \<noteq> None) \<noteq> (to_Unary Cmpl right \<noteq> None));
            left = (case to_Unary Cmpl left of Some x \<Rightarrow> x | None \<Rightarrow> left);
            right = (case to_Unary Cmpl right of Some x \<Rightarrow> x | None \<Rightarrow> right);
            e = Binary BXor t left right
        in if cmpl then ret (Unary Cmpl t e)
           else if hasSideEffects e then ret e
           else if left = right \<and> type_of left \<noteq> Type_Unknown
             then mk_constant (type_of left) 0 10 False
           else ret e)"

definition sr_LAnd :: "p4type \<Rightarrow> expr \<Rightarrow> expr \<Rightarrow> expr comp" where
  "sr_LAnd t left right =
     ret (if isFalse left then left
          else if isTrue left then right
          else if isTrue right then left
          else if isFalse right \<and> \<not> hasSideEffects left then right
          else Binary LAnd t left right)"

definition sr_LOr :: "p4type \<Rightarrow> expr \<Rightarrow> expr \<Rightarrow> expr comp" where
  "sr_LOr t left right =
     ret (if isFalse left then right
          else if isTrue left then left
          else if isFalse right then left
          else if isTrue right \<and> \<not> hasSideEffects left then right
          else Binary LOr t left right)"

definition sr_Equ :: "p4type \<Rightarrow> expr \<Rightarrow> expr \<Rightarrow> expr comp" where
  "sr_Equ t left right =
     ret (if isTrue left then right
          else if isTrue right then left
          else if isFalse left then Unary LNot t right
          else if isFalse right then Unary LNot t left
          else Binary Equ t left right)"

definition sr_Neq :: "p4type \<Rightarrow> expr \<Rightarrow> expr \<Rightarrow> expr comp" where
  "sr_Neq t left right =
     ret (if isTrue left then Unary LNot t right
          else if isTrue right then Unary LNot t left
          else if isFalse left then right
          else if isFalse right then left
          else Binary Neq t left right)"

fun negated_relation :: "binop \<Rightarrow> binop option" where
  "negated_relation Equ = Some Neq"
| "negated_relation Neq = Some Equ"
| "negated_relation Leq = Some Grt"
| "negated_relation Geq = Some Lss"
| "negated_relation Lss = Some Geq"
| "negated_relation Grt = Some Leq"
| "negated_relation b = None"

definition sr_LNot :: "p4type \<Rightarrow> expr \<Rightarrow> expr comp" where
  "sr_LNot t e =
     ret (case e of
            Unary LNot t' x \<Rightarrow> x
          | Binary b t' l r \<Rightarrow>
              (case negated_relation b of Some b' \<Rightarrow> Binary b' t l r | None \<Rightarrow> Unary LNot t e)
          | _ \<Rightarrow> Unary LNot t e)"

section \<open>Arithmetic operators\<close>

definition sr_Sub :: "bool \<Rightarrow> p4type \<Rightarrow> expr \<Rightarrow> expr \<Rightarrow> expr comp" where
  "sr_Sub enableSubConstToAdd t left right =
     (let e = Binary Sub t left right
      in if isZero right then ret left
         else if isZero left then ret (Unary Neg t right)
         else case (enableSubConstToAdd, to_Constant right) of
           (True, Some (ct, v, b)) \<Rightarrow>
             bind_comp (mk_constant ct (- v) b True) (\<lambda>neg. ret (Binary Add t left neg))
         | _ \<Rightarrow>
             if hasSideEffects e then ret e
             else if left = right \<and> type_of left \<noteq> Type_Unknown
               then mk_constant (type_of left) 0 10 False
             else ret e)"

definition sr_Add :: "p4type \<Rightarrow> expr \<Rightarrow> expr \<Rightarrow> expr comp" where
  "sr_Add t left right =
     ret (if isZero right then left else if isZero left then right else Binary Add t left right)"

text \<open>Shl and Shr share their shape; \<open>b\<close> is the operator.  The sum of the amounts is built by
  the constructor that takes a type.\<close>

definition sr_shift :: "binop \<Rightarrow> p4type \<Rightarrow> expr \<Rightarrow> expr \<Rightarrow> expr comp" where
  "sr_shift b t left right =
     ret (if isZero right then left
          else case to_Binary b left of
                 Some (t2, a, amt) \<Rightarrow>
                   (if type_of amt = Type_InfInt \<and> type_of right = Type_InfInt
                    then Binary b (type_of a) a (Binary Add (type_of amt) amt right)
                    else if \<not> hasSideEffects right \<and> isZero left then left
                    else Binary b t left right)
               | None \<Rightarrow>
                   if \<not> hasSideEffects right \<and> isZero left then left
                   else Binary b t left right)"

definition sr_Mul :: "p4type \<Rightarrow> expr \<Rightarrow> expr \<Rightarrow> expr comp" where
  "sr_Mul t left right =
     (let e = Binary Mul t left right
      in ret (if isOne left then right
              else if isOne right then left
              else if isPowerOf2 left \<ge> 0 then Binary Shl t right (inf_constant (isPowerOf2 left))
              else if isPowerOf2 right \<ge> 0 then Binary Shl t left (inf_constant (isPowerOf2 right))
              else if hasSideEffects e then e
              else if isZero left then left
              else if isZero right then right
              else e))"

definition sr_Div :: "p4type \<Rightarrow> expr \<Rightarrow> expr \<Rightarrow> expr comp" where
  "sr_Div t left right =
     (if isZero right then report (Error ERR_EXPRESSION) (Binary Div t left right)
      else ret (if isOne right then left
                else if isPowerOf2 right \<ge> 0 then Binary Shr t left (inf_constant (isPowerOf2 right))
                else if isZero left \<and> \<not> hasSideEffects right then left
                else Binary Div t left right))"

definition sr_Mod :: "p4type \<Rightarrow> expr \<Rightarrow> expr \<Rightarrow> expr comp" where
  "sr_Mod t left right =
     (if isZero right then report (Error ERR_EXPRESSION) (Binary Mod t left right)
      else if isZero left \<and> \<not> hasSideEffects right then ret left
      else if isPowerOf2 right \<ge> 0 then
        (let mask = push_bit (nat (isPowerOf2 right)) 1 - 1
         in bind_comp (mk_constant (type_of right) mask 10 False) (\<lambda>amt.
              ret (Binary BAnd t left amt)))
      else ret (Binary Mod t left right))"

section \<open>Key sets, conditional expressions, concatenation, indexing\<close>

definition sr_Range :: "p4type \<Rightarrow> expr \<Rightarrow> expr \<Rightarrow> expr comp" where
  "sr_Range t left right =
     ret (case (to_Constant left, to_Constant right) of
            (Some (t0, v0, b0), Some (t1, v1, b1)) \<Rightarrow>
              (if v0 = v1 then left else Range t left right)
          | _ \<Rightarrow> Range t left right)"

definition sr_Mask :: "p4type \<Rightarrow> expr \<Rightarrow> expr \<Rightarrow> expr comp" where
  "sr_Mask t left right =
     bind_comp (isAllOnes right) (\<lambda>a. ret (if a then left else Mask t left right))"

definition sr_Mux :: "p4type \<Rightarrow> expr \<Rightarrow> expr \<Rightarrow> expr \<Rightarrow> expr comp" where
  "sr_Mux t e0 e1 e2 =
     ret (if isTrue e1 \<and> isFalse e2 then e0
          else if isFalse e1 \<and> isTrue e2 then Unary LNot t e0
          else case to_Unary LNot e0 of
                 Some c \<Rightarrow> Mux t c e2 e1
               | None \<Rightarrow>
                   if \<not> hasSideEffects (Mux t e0 e1 e2) \<and> e1 = e2 then e1
                   else Mux t e0 e1 e2)"

definition is_zero_width :: "expr \<Rightarrow> bool" where
  "is_zero_width e = (case to_Type_Bits (type_of e) of Some (w, s) \<Rightarrow> w = 0 | None \<Rightarrow> False)"

definition sr_Concat :: "p4type \<Rightarrow> expr \<Rightarrow> expr \<Rightarrow> expr comp" where
  "sr_Concat t left right =
     ret (if is_zero_width left then right
          else if is_zero_width right then left
          else Binary Concat t left right)"

definition sr_ArrayIndex :: "p4type \<Rightarrow> expr \<Rightarrow> expr \<Rightarrow> expr comp" where
  "sr_ArrayIndex t left right =
     (let e = ArrayIndex t left right
      in case (left, to_Constant right) of
           (HeaderStackExpression ht es, Some (ct, v, b)) \<Rightarrow>
             bind_comp (asInt v) (\<lambda>index.
               if index < 0 \<or> nat index \<ge> length es then report (Error ERR_EXPRESSION) e
               else ret (es ! nat index))
         | _ \<Rightarrow> ret e)"

section \<open>Slices\<close>

text \<open>
  A slice is rewritten in steps; a step gives the final expression or the new operands of the
  slice.  The indices are read as \<open>unsigned\<close> and their sums wrap; a sum of \<open>int\<close>s that leaves
  the range of \<open>int\<close> has no defined value.  The new slices are no wider than an existing
  operand, so \<open>Type_Bits::get\<close> reports nothing for their types.
\<close>

datatype slice_step = Done expr | Go expr expr expr

definition uint32 :: "int \<Rightarrow> int" where
  "uint32 x = x mod 4294967296"

definition checked_int :: "int \<Rightarrow> int comp" where
  "checked_int x = (if fitsInt x then ret x else Bug ''integer overflow'')"

text \<open>The amount by which a shifted operand moves the bits of the slice, and what is shifted.\<close>

definition slice_shift :: "expr \<Rightarrow> (int \<times> expr) option comp" where
  "slice_shift e0 =
     (case e0 of
        Binary b t x k \<Rightarrow>
          (case to_Constant k of
             None \<Rightarrow> ret None
           | Some (kt, v, kb) \<Rightarrow>
               if b = Shr then bind_comp (asInt v) (\<lambda>n. ret (Some (n, x)))
               else if b = Shl then bind_comp (asInt v) (\<lambda>n. ret (Some (- n, x)))
               else ret None)
      | _ \<Rightarrow> ret None)"

definition shifted_slice :: "p4type \<Rightarrow> expr \<Rightarrow> expr \<Rightarrow> expr \<Rightarrow> expr \<Rightarrow> int \<Rightarrow> int \<Rightarrow> int \<Rightarrow> int \<Rightarrow> slice_step comp" where
  "shifted_slice t e0 e1 e2 shift_of w hi lo shift_amt =
     (if lo + shift_amt \<ge> 0 \<and> hi + shift_amt < w
        then ret (Go shift_of (inf_constant (hi + shift_amt)) (inf_constant (lo + shift_amt)))
      else if hi + shift_amt < 0 then
        (if \<not> hasSideEffects shift_of
         then bind_comp (mk_constant (Type_Bits (hi - lo + 1) False) 0 10 False) (\<lambda>c. ret (Done c))
         else ret (Done (Slice t e0 e1 e2)))
      else if lo + shift_amt < 0 then
        bind_comp (mk_constant (Type_Bits (- (lo + shift_amt)) False) 0 10 False) (\<lambda>c.
          ret (Done (Binary Concat t
            (Slice t shift_of (inf_constant (hi + shift_amt)) (inf_constant 0)) c)))
      else ret (Go e0 e1 e2))"

definition sr_slice_shift :: "p4type \<Rightarrow> expr \<Rightarrow> expr \<Rightarrow> expr \<Rightarrow> slice_step comp" where
  "sr_slice_shift t e0 e1 e2 =
     bind_comp (slice_shift e0) (\<lambda>s.
       case s of None \<Rightarrow> ret (Go e0 e1 e2)
       | Some (shift_amt, shift_of) \<Rightarrow>
         case to_Type_Bits (type_of shift_of) of None \<Rightarrow> ret (Done (Slice t e0 e1 e2))
         | Some (w, isSigned) \<Rightarrow>
           if isSigned \<and> to_Binary Shr e0 \<noteq> None then ret (Done (Slice t e0 e1 e2))
           else
             bind_comp (slice_index e1) (\<lambda>hi. bind_comp (slice_index e2) (\<lambda>lo.
             bind_comp (checked_int (lo + shift_amt)) (\<lambda>_.
             bind_comp (checked_int (hi + shift_amt)) (\<lambda>_.
               shifted_slice t e0 e1 e2 shift_of w hi lo shift_amt)))))"

fun sr_slice_concat :: "p4type \<Rightarrow> expr \<Rightarrow> expr \<Rightarrow> expr \<Rightarrow> slice_step comp" where
  "sr_slice_concat t (Binary b bt left right) e1 e2 =
     (if b \<noteq> Concat then ret (Go (Binary b bt left right) e1 e2)
      else
        bind_comp (width_bits (type_of right)) (\<lambda>w. let rwidth = uint32 w in
        bind_comp (slice_index e2) (\<lambda>l.
          if l \<ge> rwidth then
            (if \<not> hasSideEffects right then
               bind_comp (slice_index e1) (\<lambda>h.
                 sr_slice_concat t left (inf_constant (uint32 (h - rwidth))) (inf_constant (uint32 (l - rwidth))))
             else ret (Go (Binary b bt left right) e1 e2))
          else
            bind_comp (slice_index e1) (\<lambda>h.
              if h < rwidth then
                (if \<not> hasSideEffects left then sr_slice_concat t right e1 e2
                 else ret (Go (Binary b bt left right) e1 e2))
              else ret (Done (Binary Concat t (Slice_mk left (h - rwidth) 0) (Slice_mk right (rwidth - 1) l)))))))"
| "sr_slice_concat t e0 e1 e2 = ret (Go e0 e1 e2)"

fun sr_slice_cast :: "expr \<Rightarrow> expr \<Rightarrow> expr comp" where
  "sr_slice_cast (Cast ct x) e1 =
     (case to_Type_Bits (type_of x) of
        None \<Rightarrow> ret (Cast ct x)
      | Some (w, s) \<Rightarrow>
          bind_comp (slice_index e1) (\<lambda>h.
            if h < w then sr_slice_cast x e1 else ret (Cast ct x)))"
| "sr_slice_cast e0 e1 = ret e0"

definition sr_slice_slice :: "expr \<Rightarrow> expr \<Rightarrow> expr \<Rightarrow> (expr \<times> expr \<times> expr) comp" where
  "sr_slice_slice e0 e1 e2 =
     (case e0 of
        Slice st x h l \<Rightarrow>
          bind_comp (slice_index l) (\<lambda>delta.
            if delta \<noteq> 0 then
              bind_comp (slice_index e1) (\<lambda>hi. bind_comp (slice_index e2) (\<lambda>lo.
                ret (x, inf_constant (uint32 (hi + delta)), inf_constant (uint32 (lo + delta)))))
            else ret (x, e1, e2))
      | _ \<Rightarrow> ret (e0, e1, e2))"

definition sr_slice_full :: "p4type \<Rightarrow> expr \<Rightarrow> expr \<Rightarrow> expr \<Rightarrow> expr comp" where
  "sr_slice_full t e0 e1 e2 =
     bind_comp (slice_index e1) (\<lambda>hi. bind_comp (slice_index e2) (\<lambda>lo.
     bind_comp (width_bits (type_of e0)) (\<lambda>w.
       if uint32 (hi - lo + 1) = uint32 w \<and> \<not> hasSideEffects e1 then
         (case to_Type_Bits (type_of e0) of
            Some (w', isSigned) \<Rightarrow> ret (if isSigned then Cast t e0 else e0)
          | None \<Rightarrow> ret e0)
       else ret (Slice t e0 e1 e2))))"

definition sr_Slice :: "p4type \<Rightarrow> expr \<Rightarrow> expr \<Rightarrow> expr \<Rightarrow> expr comp" where
  "sr_Slice t e0 e1 e2 =
     bind_comp (sr_slice_shift t e0 e1 e2) (\<lambda>s1.
       case s1 of Done e \<Rightarrow> ret e
       | Go e0 e1 e2 \<Rightarrow>
         bind_comp (sr_slice_concat t e0 e1 e2) (\<lambda>s2.
           case s2 of Done e \<Rightarrow> ret e
           | Go e0 e1 e2 \<Rightarrow>
             bind_comp (sr_slice_cast e0 e1) (\<lambda>e0.
             bind_comp (sr_slice_slice e0 e1 e2) (\<lambda>(e0, e1, e2). sr_slice_full t e0 e1 e2))))"

text \<open>
  A \<open>PlusSlice\<close> with constant start and width becomes a slice.  Otherwise the shift of its
  operand is moved into the start, in the type of the start.
\<close>

definition plus_slice_shift :: "binop \<Rightarrow> binop \<Rightarrow> expr \<Rightarrow> expr \<Rightarrow> (expr \<times> expr) option" where
  "plus_slice_shift shift_op move_op e0 e1 =
     (case to_Binary shift_op e0 of
        None \<Rightarrow> Some (e0, e1)
      | Some (st, x, k) \<Rightarrow>
          (case to_Type_Bits (type_of x) of
             None \<Rightarrow> None
           | Some (w, isSigned) \<Rightarrow>
               if shift_op = Shr \<and> isSigned then None
               else Some (x, mk_binary_untyped move_op e1 k)))"

definition sr_PlusSlice :: "p4type \<Rightarrow> expr \<Rightarrow> expr \<Rightarrow> expr \<Rightarrow> expr comp" where
  "sr_PlusSlice t e0 e1 e2 =
     (case (to_Constant e1, to_Constant e2) of
        (Some (t1, v1, b1), Some (t2, v2, b2)) \<Rightarrow>
          bind_comp (asUnsigned v1) (\<lambda>l. bind_comp (asUnsigned v2) (\<lambda>w.
            sr_Slice (Type_Bits (uint32 (l + w - 1) - l + 1) False) e0
              (inf_constant (uint32 (l + w - 1))) (inf_constant l)))
      | _ \<Rightarrow>
          ret (case plus_slice_shift Shr Add e0 e1 of
                 None \<Rightarrow> PlusSlice t e0 e1 e2
               | Some (e0', e1') \<Rightarrow>
                   (case plus_slice_shift Shl Sub e0' e1' of
                      None \<Rightarrow> PlusSlice t e0' e1' e2
                    | Some (e0'', e1'') \<Rightarrow> PlusSlice t e0'' e1'' e2)))"

section \<open>The pass\<close>

definition sr_postorder :: "bool \<Rightarrow> expr \<Rightarrow> expr comp" where
  "sr_postorder enableSub e =
     (case e of
        Unary u t x \<Rightarrow>
          (case u of Cmpl \<Rightarrow> sr_Cmpl t x | UPlus \<Rightarrow> sr_UPlus t x | LNot \<Rightarrow> sr_LNot t x | Neg \<Rightarrow> ret e)
      | Binary b t l r \<Rightarrow>
          (case b of
             BAnd \<Rightarrow> sr_BAnd t l r | BOr \<Rightarrow> sr_BOr t l r | BXor \<Rightarrow> sr_BXor t l r
           | LAnd \<Rightarrow> sr_LAnd t l r | LOr \<Rightarrow> sr_LOr t l r
           | Equ \<Rightarrow> sr_Equ t l r | Neq \<Rightarrow> sr_Neq t l r
           | Sub \<Rightarrow> sr_Sub enableSub t l r | Add \<Rightarrow> sr_Add t l r
           | Shl \<Rightarrow> sr_shift Shl t l r | Shr \<Rightarrow> sr_shift Shr t l r
           | Mul \<Rightarrow> sr_Mul t l r | Div \<Rightarrow> sr_Div t l r | Mod \<Rightarrow> sr_Mod t l r
           | Concat \<Rightarrow> sr_Concat t l r
           | _ \<Rightarrow> ret e)
      | Range t l r \<Rightarrow> sr_Range t l r
      | Mask t l r \<Rightarrow> sr_Mask t l r
      | Mux t c a b \<Rightarrow> sr_Mux t c a b
      | ArrayIndex t l r \<Rightarrow> sr_ArrayIndex t l r
      | Slice t e0 e1 e2 \<Rightarrow> sr_Slice t e0 e1 e2
      | PlusSlice t e0 e1 e2 \<Rightarrow> sr_PlusSlice t e0 e1 e2
      | _ \<Rightarrow> ret e)"

function sr_expr :: "bool \<Rightarrow> expr \<Rightarrow> expr comp" where
  "sr_expr enableSub e = bind_comp (visit_children (sr_expr enableSub) e) (sr_postorder enableSub)"
  by auto
termination by (relation "measure (\<lambda>(b, e). size e)") (auto simp: size_children)

declare sr_expr.simps [simp del]

end
