(* ===== verification/StrengthRed_Typed.thy ===== *)
theory StrengthRed_Typed
  imports StrengthRed
begin

text \<open>
  Correctness of strength reduction against the evaluation of \<open>P4Sem\<close>.  The rewritings read the
  types recorded on the nodes, so they are correct on expressions whose recorded types agree
  with the values: \<open>typed\<close> asks this of the subexpressions that are evaluated.
\<close>

section \<open>Typed expressions\<close>

fun val_type :: "val \<Rightarrow> p4type option" where
  "val_type (BitsV w s a) = Some (Type_Bits (int w) s)"
| "val_type (InfV a) = Some Type_InfInt"
| "val_type (BoolV b) = Some Type_Boolean"
| "val_type (StrV s) = Some Type_String"
| "val_type v = None"

fun width_ok :: "val \<Rightarrow> bool" where
  "width_ok (BitsV w s a) = (int w \<le> 2147483647)"
| "width_ok v = True"

definition has_type :: "val \<Rightarrow> p4type \<Rightarrow> bool" where
  "has_type v t \<longleftrightarrow> width_ok v \<and> (case val_type v of Some t' \<Rightarrow> t = t' | None \<Rightarrow> True)"

text \<open>The operands that are evaluated: a condition decides which branch is.\<close>

fun evaluated :: "sem_env \<Rightarrow> expr \<Rightarrow> expr list" where
  "evaluated \<rho> (Binary b t l r) =
     (if b = LAnd then (if eval \<rho> l = Some (BoolV True) then [l, r] else [l])
      else if b = LOr then (if eval \<rho> l = Some (BoolV False) then [l, r] else [l])
      else [l, r])"
| "evaluated \<rho> (Mux t c a b) =
     (if eval \<rho> c = Some (BoolV True) then [c, a] else [c, b])"
| "evaluated \<rho> e = children e"

lemma evaluated_children: "x \<in> set (evaluated \<rho> e) \<Longrightarrow> x \<in> set (children e)"
  by (cases e) (auto split: if_splits)

text \<open>The operands of arithmetic and bitwise operators have one type: the type checker has cast
  a constant of arbitrary precision to the type of the other operand.  An index of a slice fits
  the \<open>unsigned\<close> the compiler reads it as.\<close>

definition arithmetic :: "binop \<Rightarrow> bool" where
  "arithmetic b \<longleftrightarrow> b \<in> {Add, Sub, Mul, Div, Mod, BAnd, BOr, BXor}"

fun operands_agree :: "sem_env \<Rightarrow> expr \<Rightarrow> bool" where
  "operands_agree \<rho> (Binary b t l r) = (arithmetic b \<longrightarrow> type_of l = type_of r)"
| "operands_agree \<rho> (Slice t e h l) =
     (case Option.bind (eval \<rho> h) index_val of None \<Rightarrow> True | Some i \<Rightarrow> i \<le> 4294967295)"
| "operands_agree \<rho> (PlusSlice t e l n) =
     (case (Option.bind (eval \<rho> l) index_val, Option.bind (eval \<rho> n) index_val) of
        (Some i, Some k) \<Rightarrow> i + k - 1 \<le> 4294967295
      | _ \<Rightarrow> True)"
| "operands_agree \<rho> e = True"

function typed :: "sem_env \<Rightarrow> expr \<Rightarrow> bool" where
  "typed \<rho> e =
     (case eval \<rho> e of
        None \<Rightarrow> True
      | Some v \<Rightarrow> has_type v (type_of e) \<and> operands_agree \<rho> e \<and> list_all (typed \<rho>) (evaluated \<rho> e))"
  by auto
termination
  by (relation "measure (\<lambda>(\<rho>, e). size e)") (auto dest!: evaluated_children simp: size_children)

declare typed.simps [simp del]

text \<open>\<open>evals \<rho> e v\<close>: the expression is typed and evaluates to \<open>v\<close>.\<close>

definition evals :: "sem_env \<Rightarrow> expr \<Rightarrow> val \<Rightarrow> bool" where
  "evals \<rho> e v \<longleftrightarrow> eval \<rho> e = Some v \<and> typed \<rho> e"

lemma evals_iff:
  "evals \<rho> e v \<longleftrightarrow> eval \<rho> e = Some v \<and> has_type v (type_of e) \<and> operands_agree \<rho> e \<and>
     list_all (typed \<rho>) (evaluated \<rho> e)"
  by (subst evals_def, subst typed.simps) auto

lemma evals_type: "evals \<rho> e v \<Longrightarrow> has_type v (type_of e)"
  by (simp add: evals_iff)

lemma evals_Constant:
  "evals \<rho> (Constant t n b) v \<longleftrightarrow> eval \<rho> (Constant t n b) = Some v \<and> width_ok v"
  by (auto simp: evals_iff eval_Constant_iff has_type_def)

lemma evals_BoolLiteral [simp]: "evals \<rho> (BoolLiteral b) v \<longleftrightarrow> v = BoolV b"
  by (auto simp: evals_iff has_type_def)

lemma evals_Unary:
  "evals \<rho> (Unary u t e) v \<longleftrightarrow> (\<exists>x. evals \<rho> e x \<and> unop_val u x = Some v \<and> has_type v t)"
  by (subst evals_iff) (auto simp: evals_def bind_eq_Some_conv)

lemma evals_Binary:
  "b \<noteq> LAnd \<Longrightarrow> b \<noteq> LOr \<Longrightarrow> evals \<rho> (Binary b t l r) v \<longleftrightarrow>
     (\<exists>x y. evals \<rho> l x \<and> evals \<rho> r y \<and> binop_val b x y = Some v \<and> has_type v t \<and>
        (arithmetic b \<longrightarrow> type_of l = type_of r))"
  by (subst evals_iff) (auto simp: evals_def eval_Binary_strict bind_eq_Some_conv)

lemma evals_LAnd:
  "evals \<rho> (Binary LAnd t l r) v \<longleftrightarrow> t = Type_Boolean \<and>
     (evals \<rho> l (BoolV False) \<and> v = BoolV False \<or>
      evals \<rho> l (BoolV True) \<and> (\<exists>b. evals \<rho> r (BoolV b) \<and> v = BoolV b))"
  by (subst evals_iff) (auto simp: evals_def bind_eq_Some_conv has_type_def arithmetic_def split: if_splits)

lemma evals_LOr:
  "evals \<rho> (Binary LOr t l r) v \<longleftrightarrow> t = Type_Boolean \<and>
     (evals \<rho> l (BoolV True) \<and> v = BoolV True \<or>
      evals \<rho> l (BoolV False) \<and> (\<exists>b. evals \<rho> r (BoolV b) \<and> v = BoolV b))"
  by (subst evals_iff) (auto simp: evals_def bind_eq_Some_conv has_type_def arithmetic_def split: if_splits)

lemma evals_Mux:
  "evals \<rho> (Mux t c a b) v \<longleftrightarrow> has_type v t \<and>
     (evals \<rho> c (BoolV True) \<and> evals \<rho> a v \<or> evals \<rho> c (BoolV False) \<and> evals \<rho> b v)"
  by (subst evals_iff) (auto simp: evals_def bind_eq_Some_conv split: if_splits)

lemma evals_Cast:
  "evals \<rho> (Cast t e) v \<longleftrightarrow> (\<exists>x. evals \<rho> e x \<and> cast_val t x = Some v \<and> has_type v t)"
  by (subst evals_iff) (auto simp: evals_def bind_eq_Some_conv)

lemma evals_Slice:
  "evals \<rho> (Slice t e h l) v \<longleftrightarrow>
     (\<exists>x y i z j. evals \<rho> e x \<and> evals \<rho> h y \<and> index_val y = Some i \<and> evals \<rho> l z \<and> index_val z = Some j \<and>
        slice_val x i j = Some v \<and> has_type v t \<and> i \<le> 4294967295)"
  by (subst evals_iff) (auto simp: evals_def bind_eq_Some_conv)

lemma evals_PlusSlice:
  "evals \<rho> (PlusSlice t e l w) v \<longleftrightarrow>
     (\<exists>x y i z j. evals \<rho> e x \<and> evals \<rho> l y \<and> index_val y = Some i \<and> evals \<rho> w z \<and> index_val z = Some j \<and>
        slice_val x (i + j - 1) i = Some v \<and> has_type v t \<and> i + j - 1 \<le> 4294967295)"
  by (subst evals_iff) (auto simp: evals_def bind_eq_Some_conv)

lemma evals_ArrayIndex:
  "evals \<rho> (ArrayIndex t l r) v \<longleftrightarrow>
     (\<exists>x y i. evals \<rho> l x \<and> evals \<rho> r y \<and> index_val y = Some i \<and> nth_val x i = Some v \<and> has_type v t)"
  by (subst evals_iff) (auto simp: evals_def bind_eq_Some_conv)

lemmas evals_simps = evals_Unary evals_Binary evals_LAnd evals_LOr evals_Mux evals_Cast

lemma has_type_simps [simp]:
  "has_type (BitsV w s a) t \<longleftrightarrow> int w \<le> 2147483647 \<and> t = Type_Bits (int w) s"
  "has_type (InfV a) t \<longleftrightarrow> t = Type_InfInt"
  "has_type (BoolV b) t \<longleftrightarrow> t = Type_Boolean"
  "has_type (StrV str) t \<longleftrightarrow> t = Type_String"
  by (auto simp: has_type_def)

text \<open>Two values of one type have the same width and sign.\<close>

lemma unify_same_type:
  assumes "has_type x t" "has_type y t" "unify_ints x y = Some (k, p, q)"
  shows "(k = None \<and> x = InfV p \<and> y = InfV q) \<or> (\<exists>w s. k = Some (w, s) \<and> x = BitsV w s p \<and> y = BitsV w s q)"
  using assms by (cases "(x, y)" rule: unify_ints.cases) (auto split: if_split_asm)

text \<open>The two shapes of an arithmetic operation, and how to build one.\<close>

lemma evals_wf: "wf_env \<rho> \<Longrightarrow> evals \<rho> e v \<Longrightarrow> wf_val v"
  by (auto simp: evals_def intro: eval_wf)

lemma binop_val_arith:
  "arithmetic b \<Longrightarrow> binop_val b x y =
     (case unify_ints x y of None \<Rightarrow> None | Some (t, p, q) \<Rightarrow> map_option (int_val t) (arith b p q))"
  by (auto simp: binop_val_def arithmetic_def split: option.split)

lemma evals_arithE:
  assumes "evals \<rho> (Binary b t l r) v" "arithmetic b" "wf_env \<rho>"
  obtains (inf) p q z where "evals \<rho> l (InfV p)" "evals \<rho> r (InfV q)" "arith b p q = Some z" "v = InfV z"
      "t = Type_InfInt" "type_of l = Type_InfInt" "type_of r = Type_InfInt"
  | (bits) w s p q z where "evals \<rho> l (BitsV w s p)" "evals \<rho> r (BitsV w s q)" "arith b p q = Some z"
      "v = BitsV w s (norm w s z)" "in_range w s p" "in_range w s q" "t = Type_Bits (int w) s"
      "type_of l = t" "type_of r = t" "int w \<le> 2147483647"
proof -
  have nl: "b \<noteq> LAnd" "b \<noteq> LOr" using assms(2) by (auto simp: arithmetic_def)
  from assms(1,2) nl obtain x y where xy: "evals \<rho> l x" "evals \<rho> r y" "binop_val b x y = Some v"
    "has_type v t" "type_of l = type_of r" by (auto simp: evals_Binary)
  from xy(3) assms(2) obtain k p q z where
    u: "unify_ints x y = Some (k, p, q)" "arith b p q = Some z" "v = int_val k z"
    by (auto simp: binop_val_arith split: option.split_asm)
  note ty = evals_type [OF xy(1)] evals_type [OF xy(2)]
  have wf: "wf_val x" "wf_val y" using xy evals_wf [OF assms(3)] by blast+
  from unify_same_type [OF ty(1) _ u(1)] ty(2) xy(5) consider
    "k = None" "x = InfV p" "y = InfV q" | w s where "k = Some (w, s)" "x = BitsV w s p" "y = BitsV w s q"
    by auto
  then show thesis
  proof cases
    case 1
    with xy u ty show thesis by (intro inf [of p q z]) auto
  next
    case 2
    with xy u ty wf show thesis by (intro bits [of w s p q z]) auto
  qed
qed

lemma arithmetic_strict: "arithmetic b \<Longrightarrow> b \<noteq> LAnd \<and> b \<noteq> LOr"
  by (auto simp: arithmetic_def)

lemma evals_arith_inf:
  assumes "evals \<rho> l (InfV p)" "evals \<rho> r (InfV q)" "arithmetic b" "arith b p q = Some z" "t = Type_InfInt"
  shows "evals \<rho> (Binary b t l r) (InfV z)"
proof -
  have "binop_val b (InfV p) (InfV q) = Some (InfV z)" using assms(3,4) by (simp add: binop_val_arith)
  with assms evals_type [OF assms(1)] evals_type [OF assms(2)] arithmetic_strict [OF assms(3)]
  show ?thesis by (subst evals_Binary) (simp, simp, force)
qed

lemma evals_arith_bits:
  assumes "evals \<rho> l (BitsV w s p)" "evals \<rho> r (BitsV w s q)" "arithmetic b" "arith b p q = Some z"
    "t = Type_Bits (int w) s"
  shows "evals \<rho> (Binary b t l r) (BitsV w s (norm w s z))"
proof -
  have "binop_val b (BitsV w s p) (BitsV w s q) = Some (BitsV w s (norm w s z))"
    using assms(3,4) by (simp add: binop_val_arith)
  with assms evals_type [OF assms(1)] evals_type [OF assms(2)] arithmetic_strict [OF assms(3)]
  show ?thesis by (subst evals_Binary) (simp, simp, force)
qed

lemmas evals_arithI = evals_arith_inf evals_arith_bits

section \<open>The helper methods\<close>

lemma evals_ConstantD:
  "evals \<rho> (Constant t n b) (BitsV w s p) \<Longrightarrow> p = n"
  "evals \<rho> (Constant t n b) (InfV p) \<Longrightarrow> p = n"
  by (auto simp: evals_Constant eval_Constant_iff)

lemma isZero_bits: "isZero e \<Longrightarrow> evals \<rho> e (BitsV w s p) \<Longrightarrow> in_range w s p \<Longrightarrow> p = 0"
  by (frule evals_type) (auto simp: isZero_def in_range_def split: option.split_asm if_split_asm
      dest: evals_ConstantD)

lemma isZero_inf: "isZero e \<Longrightarrow> evals \<rho> e (InfV p) \<Longrightarrow> p = 0"
  by (frule evals_type) (auto simp: isZero_def split: option.split_asm dest: evals_ConstantD)

lemma isOne_val: 
  "isOne e \<Longrightarrow> evals \<rho> e (BitsV w s p) \<Longrightarrow> p = 1"
  "isOne e \<Longrightarrow> evals \<rho> e (InfV p) \<Longrightarrow> p = 1"
  by (auto simp: isOne_def split: option.split_asm dest: evals_ConstantD)

lemma isTrue_iff: "isTrue e \<longleftrightarrow> e = BoolLiteral True" and isFalse_iff: "isFalse e \<longleftrightarrow> e = BoolLiteral False"
  by (cases e; simp add: isTrue_def isFalse_def)+

lemma msb_lsb_power:
  assumes "0 < n" "msb n = lsb n"
  shows "n = 2 ^ msb n"
proof -
  have "take_bit (msb n) n = 0"
    unfolding assms(2) by (rule bit_eqI) (auto simp: bit_simps not_bit_below_lsb)
  then have "n mod 2 ^ msb n = 0" by (simp add: take_bit_eq_mod)
  then obtain k where k: "n = 2 ^ msb n * k" by (auto elim: dvdE simp: mod_eq_0_iff_dvd)
  with msb_bounds [OF assms(1)] have "2 ^ msb n * 1 \<le> 2 ^ msb n * k" "2 ^ msb n * k < 2 ^ msb n * 2" by auto
  then have "k = 1" by simp
  with k show ?thesis by simp
qed

lemma isPowerOf2_val:
  assumes "isPowerOf2 e \<ge> 0"
  shows "evals \<rho> e (BitsV w s p) \<Longrightarrow> p = 2 ^ nat (isPowerOf2 e)"
    "evals \<rho> e (InfV p) \<Longrightarrow> p = 2 ^ nat (isPowerOf2 e)"
proof -
  from assms obtain t n b where e: "e = Constant t n b" "0 < n" "msb (nat n) = lsb (nat n)"
    "isPowerOf2 e = int (msb (nat n))"
    by (auto simp: isPowerOf2_def Let_def split: option.split_asm if_split_asm)
  then have "n = 2 ^ nat (isPowerOf2 e)" using msb_lsb_power [of "nat n"]
    by (metis int_nat_eq nat_int of_nat_numeral of_nat_power order_less_imp_le zero_less_nat_eq)
  moreover have "evals \<rho> e (BitsV w s p) \<Longrightarrow> p = n" "evals \<rho> e (InfV p) \<Longrightarrow> p = n"
    unfolding e(1) by (rule evals_ConstantD; assumption)+
  ultimately show "evals \<rho> e (BitsV w s p) \<Longrightarrow> p = 2 ^ nat (isPowerOf2 e)"
    "evals \<rho> e (InfV p) \<Longrightarrow> p = 2 ^ nat (isPowerOf2 e)" by simp_all
qed

lemma bitcount_le: 
  assumes "0 \<le> n" "n < 2 ^ w"
  shows "bitcount n \<le> w" "bitcount n = w \<Longrightarrow> n = 2 ^ w - 1"
proof -
  have n: "take_bit w n = n" using assms by (simp add: take_bit_int_eq_self)
  have "i < w" if "bit n i" for i using bit_take_bit_iff [of w n i] n that by simp
  then have sub: "{i. bit n i} \<subseteq> {..<w}" by auto
  then have "card {i. bit n i} \<le> card {..<w}" by (intro card_mono) auto
  then show "bitcount n \<le> w" using assms by (simp add: bitcount_card)
  assume "bitcount n = w"
  then have "card {i. bit n i} = card {..<w}" using assms by (simp add: bitcount_card)
  with sub have "{i. bit n i} = {..<w}" by (intro card_subset_eq) auto
  then have b: "bit n i \<longleftrightarrow> i < w" for i by (metis mem_Collect_eq lessThan_iff)
  have "n = mask w" by (rule bit_eqI) (simp add: b bit_mask_iff)
  then show "n = 2 ^ w - 1" by (simp add: mask_int_eq)
qed

lemma isAllOnes_val:
  assumes "isAllOnes e = Ok ds True" "evals \<rho> e x"
  shows "\<exists>w. x = BitsV w False (2 ^ w - 1)"
proof -
  from assms(1) obtain t n b d where e: "e = Constant t n b" "0 < n" "width_bits t = Ok d (int (bitcount n))"
    by (auto simp: isAllOnes_def elim!: bind_comp_OkE split: option.split_asm if_split_asm)
  from assms(2) e(1) have "eval \<rho> (Constant t n b) = Some x" by (simp add: evals_def)
  then consider "t = Type_InfInt" | w s where "t = Type_Bits w s" "0 \<le> w" "in_range (nat w) s n"
    "x = BitsV (nat w) s n" by (auto simp: eval_Constant_iff)
  then show ?thesis
  proof cases
    case 1
    with e have "{i. bit n i} = {}" using finite_bits_nat [of "nat n"]
      by (auto simp: bitcount_card bit_nat_iff)
    then have "n = 0" by (auto simp: bit_eq_iff)
    with e show ?thesis by simp
  next
    case 2
    with e have bc: "bitcount n = nat w" by auto
    show ?thesis
    proof (cases s)
      case True
      with 2 have "n < 2 ^ (nat w - 1)" "0 < nat w" by (auto simp: in_range_def)
      with bitcount_le(1) [of n "nat w - 1"] e bc show ?thesis by simp
    next
      case False
      with 2 have "n < 2 ^ nat w" by (auto simp: in_range_def)
      with bitcount_le(2) [of n "nat w"] e bc 2 False show ?thesis by auto
    qed
  qed
qed

section \<open>Bitwise and logical operators\<close>

lemma evals_det: "evals \<rho> e v \<Longrightarrow> evals \<rho> e w \<Longrightarrow> v = w"
  by (simp add: evals_def)

text \<open>Bitwise operations act on values modulo a power of two.\<close>

lemma bitwise_mod:
  "(a AND b) mod 2 ^ n = ((a mod 2 ^ n) AND (b mod 2 ^ n) :: int)"
  "(a OR b) mod 2 ^ n = ((a mod 2 ^ n) OR (b mod 2 ^ n) :: int)"
  "(a XOR b) mod 2 ^ n = ((a mod 2 ^ n) XOR (b mod 2 ^ n) :: int)"
  by (simp_all flip: take_bit_eq_mod)

lemma not_mod: "(NOT a) mod 2 ^ n = (NOT (a mod 2 ^ n)) mod (2 ^ n :: int)"
  by (simp add: take_bit_not_take_bit flip: take_bit_eq_mod)

lemma norm_norm_not [simp]: "norm w s (NOT (norm w s a)) = norm w s (NOT a)"
  by (rule norm_cong) (metis not_mod norm_mod_eq)

lemma norm_bitwise [simp]:
  "norm w s (norm w s a AND b) = norm w s (a AND b)" "norm w s (b AND norm w s a) = norm w s (b AND a)"
  "norm w s (norm w s a OR b) = norm w s (a OR b)" "norm w s (b OR norm w s a) = norm w s (b OR a)"
  "norm w s (norm w s a XOR b) = norm w s (a XOR b)" "norm w s (b XOR norm w s a) = norm w s (b XOR a)"
  by (rule norm_cong; simp add: bitwise_mod norm_mod_eq)+

lemma norm_not_xor [simp]:
  "norm w s (NOT (norm w s a XOR b)) = norm w s (NOT (a XOR b))"
  "norm w s (NOT (b XOR norm w s a)) = norm w s (NOT (b XOR a))"
  by (metis norm_bitwise(5) norm_norm_not, metis norm_bitwise(6) norm_norm_not)

lemma not_not_norm: "in_range w s p \<Longrightarrow> norm w s (NOT (norm w s (NOT p))) = p"
  by (simp add: norm_id)

lemma sr_Cmpl_evals:
  assumes "sr_Cmpl t e = Ok ds e'" "evals \<rho> (Unary Cmpl t e) v" "wf_env \<rho>"
  shows "evals \<rho> e' v"
proof (cases "to_Unary Cmpl e")
  case None
  with assms show ?thesis by (simp add: sr_Cmpl_def)
next
  case (Some x)
  then obtain t' where e: "e = Unary Cmpl t' x" by auto
  with assms(2) obtain y where y: "evals \<rho> x y" "Option.bind (unop_val Cmpl y) (unop_val Cmpl) = Some v"
    by (auto simp: evals_Unary bind_eq_Some_conv)
  then have "v = y" using evals_wf [OF assms(3) y(1)]
    by (cases y) (auto simp: norm_id)
  with y assms(1) Some show ?thesis by (simp add: sr_Cmpl_def)
qed

lemma sr_UPlus_evals: "sr_UPlus t e = Ok ds e' \<Longrightarrow> evals \<rho> (Unary UPlus t e) v \<Longrightarrow> evals \<rho> e' v"
  by (auto simp: sr_UPlus_def evals_Unary elim: unop_val.elims)

lemma unop_Cmpl_bits [simp]: "unop_val Cmpl x = Some (BitsV w s v) \<longleftrightarrow> (\<exists>a. x = BitsV w s a \<and> v = norm w s (NOT a))"
  by (cases x) auto

lemma evals_CmplD:
  "evals \<rho> (Unary Cmpl t x) (BitsV w s p) \<Longrightarrow> \<exists>a. evals \<rho> x (BitsV w s a) \<and> p = norm w s (NOT a)"
  "\<not> evals \<rho> (Unary Cmpl t x) (InfV n)"
  by (auto simp: evals_Unary elim: unop_val.elims)

lemma evals_strip_Cmpl:
  "evals \<rho> e (BitsV w s p) \<Longrightarrow>
     \<exists>a. evals \<rho> (case to_Unary Cmpl e of Some x \<Rightarrow> x | None \<Rightarrow> e) (BitsV w s a) \<and>
       (if to_Unary Cmpl e \<noteq> None then p = norm w s (NOT a) else p = a)"
  by (cases "to_Unary Cmpl e") (auto dest: evals_CmplD(1))

lemma evals_CmplI: "evals \<rho> x (BitsV w s a) \<Longrightarrow> t = Type_Bits (int w) s \<Longrightarrow>
    evals \<rho> (Unary Cmpl t x) (BitsV w s (norm w s (NOT a)))"
  using evals_type [of \<rho> x "BitsV w s a"] by (auto simp: evals_Unary)

lemma and_all_ones: "in_range w False p \<Longrightarrow> (2 ^ w - 1) AND p = p" "in_range w False p \<Longrightarrow> p AND (2 ^ w - 1) = p"
  by (auto simp: and_mask_eq_mod in_range_def and.commute [of "2 ^ w - 1"])

lemma sr_BAnd_evals:
  assumes s: "sr_BAnd t l r = Ok ds e'" and v: "evals \<rho> (Binary BAnd t l r) v" and wf: "wf_env \<rho>"
  shows "evals \<rho> e' v"
proof (cases "e' = Binary BAnd t l r")
  case ne: False
  have all: "(\<exists>d. isAllOnes l = Ok d True \<and> e' = r) \<or> (\<exists>d. isAllOnes r = Ok d True \<and> e' = l) \<or>
      (\<exists>t1 x t2 y. l = Unary Cmpl t1 x \<and> r = Unary Cmpl t2 y \<and> e' = Unary Cmpl t (Binary BOr t x y)) \<or>
      (isZero l \<and> e' = l) \<or> (isZero r \<and> e' = r) \<or> (l = r \<and> e' = l)"
    using s ne by (auto simp: sr_BAnd_def Let_def elim!: bind_comp_OkE
        split: if_split_asm option.split_asm)
  show ?thesis
  proof (cases rule: evals_arithE [OF v _ wf])
    case 1
    then show ?case by (simp add: arithmetic_def)
  next
    case (2 p q z)
    then show ?thesis using all
      by (auto dest: isAllOnes_val isZero_inf evals_det simp: evals_CmplD)
  next
    case (3 w s p q z)
    have "evals \<rho> e' (BitsV w s (norm w s (p AND q)))"
      using all
    proof (elim disjE exE conjE)
      fix d assume a: "isAllOnes l = Ok d True" "e' = r"
      from isAllOnes_val [OF a(1) 3(1)] 3(5,6) have "s = False" "p = 2 ^ w - 1" by auto
      with 3 a show ?thesis by (simp add: and_all_ones norm_id)
    next
      fix d assume a: "isAllOnes r = Ok d True" "e' = l"
      from isAllOnes_val [OF a(1) 3(2)] 3(5,6) have "s = False" "q = 2 ^ w - 1" by auto
      with 3 a show ?thesis by (simp add: and_all_ones norm_id)
    next
      fix t1 x t2 y assume a: "l = Unary Cmpl t1 x" "r = Unary Cmpl t2 y" "e' = Unary Cmpl t (Binary BOr t x y)"
      with 3 obtain a b where ab: "evals \<rho> x (BitsV w s a)" "p = norm w s (NOT a)"
        "evals \<rho> y (BitsV w s b)" "q = norm w s (NOT b)" by (meson evals_CmplD(1))
      have "evals \<rho> (Binary BOr t x y) (BitsV w s (norm w s (a OR b)))"
        using ab 3 by (intro evals_arith_bits) (auto simp: arithmetic_def)
      from evals_CmplI [OF this 3(7)] ab show ?thesis by (simp add: a)
    next
      assume "isZero l" "e' = l"
      with isZero_bits [of l \<rho> w s p] 3 show ?thesis by (simp add: norm_id)
    next
      assume "isZero r" "e' = r"
      with isZero_bits [of r \<rho> w s q] 3 show ?thesis by (simp add: norm_id)
    next
      assume "l = r" "e' = l"
      with 3 evals_det [OF 3(1), of "BitsV w s q"] show ?thesis by (simp add: norm_id)
    qed
    with 3 show ?thesis by simp
  qed
qed (use v in simp)

lemma sr_BOr_evals:
  assumes s: "sr_BOr t l r = Ok ds e'" and v: "evals \<rho> (Binary BOr t l r) v" and wf: "wf_env \<rho>"
  shows "evals \<rho> e' v"
proof (cases "e' = Binary BOr t l r")
  case ne: False
  have all: "(\<exists>t1 x t2 y. l = Unary Cmpl t1 x \<and> r = Unary Cmpl t2 y \<and> e' = Unary Cmpl t (Binary BAnd t x y)) \<or>
      (isZero l \<and> e' = r) \<or> (isZero r \<and> e' = l) \<or> (l = r \<and> e' = l)"
    using s ne by (auto simp: sr_BOr_def Let_def split: if_split_asm option.split_asm)
  show ?thesis
  proof (cases rule: evals_arithE [OF v _ wf])
    case 1
    then show ?case by (simp add: arithmetic_def)
  next
    case (2 p q z)
    then show ?thesis using all by (auto dest: isZero_inf evals_det simp: evals_CmplD)
  next
    case (3 w s p q z)
    have "evals \<rho> e' (BitsV w s (norm w s (p OR q)))"
      using all
    proof (elim disjE exE conjE)
      fix t1 x t2 y assume a: "l = Unary Cmpl t1 x" "r = Unary Cmpl t2 y" "e' = Unary Cmpl t (Binary BAnd t x y)"
      with 3 obtain a b where ab: "evals \<rho> x (BitsV w s a)" "p = norm w s (NOT a)"
        "evals \<rho> y (BitsV w s b)" "q = norm w s (NOT b)" by (meson evals_CmplD(1))
      have "evals \<rho> (Binary BAnd t x y) (BitsV w s (norm w s (a AND b)))"
        using ab 3 by (intro evals_arith_bits) (auto simp: arithmetic_def)
      from evals_CmplI [OF this 3(7)] ab show ?thesis by (simp add: a)
    next
      assume "isZero l" "e' = r"
      with isZero_bits [of l \<rho> w s p] 3 show ?thesis by (simp add: norm_id)
    next
      assume "isZero r" "e' = l"
      with isZero_bits [of r \<rho> w s q] 3 show ?thesis by (simp add: norm_id)
    next
      assume "l = r" "e' = l"
      with 3 evals_det [OF 3(1), of "BitsV w s q"] show ?thesis by (simp add: norm_id)
    qed
    with 3 show ?thesis by simp
  qed
qed (use v in simp)

lemma evals_constant_bits:
  "mk_constant (Type_Bits (int w) s) c b nw = Ok ds e \<Longrightarrow> int w \<le> 2147483647 \<Longrightarrow>
     evals \<rho> e (BitsV w s (norm w s c))"
  by (erule mk_constant_OkD) (auto simp: evals_Constant in_range_norm)

lemma evals_inf_constant [simp]: "evals \<rho> (Constant Type_InfInt c b) v \<longleftrightarrow> v = InfV c"
  by (auto simp: evals_Constant)

lemma sr_BXor_evals:
  assumes s: "sr_BXor t l r = Ok ds e'" and v: "evals \<rho> (Binary BXor t l r) v" and wf: "wf_env \<rho>"
  shows "evals \<rho> e' v"
proof -
  define l' where "l' = (case to_Unary Cmpl l of Some x \<Rightarrow> x | None \<Rightarrow> l)"
  define r' where "r' = (case to_Unary Cmpl r of Some x \<Rightarrow> x | None \<Rightarrow> r)"
  define cl where "cl \<longleftrightarrow> to_Unary Cmpl l \<noteq> None"
  define cr where "cr \<longleftrightarrow> to_Unary Cmpl r \<noteq> None"
  have all: "(isZero l \<and> e' = r) \<or> (isZero r \<and> e' = l) \<or>
      (cl \<noteq> cr \<and> e' = Unary Cmpl t (Binary BXor t l' r')) \<or> (cl = cr \<and> e' = Binary BXor t l' r') \<or>
      (cl = cr \<and> l' = r' \<and> (\<exists>d. mk_constant (type_of l') 0 10 False = Ok d e'))"
    using s unfolding sr_BXor_def Let_def cl_def cr_def
    by (auto simp: l'_def r'_def split: if_split_asm)
  show ?thesis
  proof (cases rule: evals_arithE [OF v _ wf])
    case 1
    then show ?case by (simp add: arithmetic_def)
  next
    case (2 p q z)
    have c: "\<not> cl" "\<not> cr" "l' = l" "r' = r" using 2 unfolding cl_def cr_def l'_def r'_def
      by (auto split: option.split simp: evals_CmplD(2))
    from all have "(isZero l \<and> e' = r) \<or> (isZero r \<and> e' = l) \<or> e' = Binary BXor t l r \<or>
        (l = r \<and> e' = Constant Type_InfInt 0 10)" unfolding c(3,4) 2(6) using c(1,2) by auto
    then show ?thesis
    proof (elim disjE conjE)
      assume "isZero l" "e' = r"
      with isZero_inf [of l \<rho> p] 2 show ?thesis by simp
    next
      assume "isZero r" "e' = l"
      with isZero_inf [of r \<rho> q] 2 show ?thesis by simp
    next
      assume lr: "l = r" "e' = Constant Type_InfInt 0 10"
      have "InfV p = InfV q" by (rule evals_det [OF 2(1)]) (simp only: lr(1) 2(2))
      then have "p = q" by simp
      then have "z = 0" using 2(3) by simp
      then show ?thesis using 2(4) lr(2) by simp
    qed (use v in simp)
  next
    case (3 w s p q z)
    have l: "\<exists>a. evals \<rho> l' (BitsV w s a) \<and> (if cl then p = norm w s (NOT a) else p = a)"
      unfolding l'_def cl_def by (rule evals_strip_Cmpl [OF 3(1)])
    have r: "\<exists>a. evals \<rho> r' (BitsV w s a) \<and> (if cr then q = norm w s (NOT a) else q = a)"
      unfolding r'_def cr_def by (rule evals_strip_Cmpl [OF 3(2)])
    from l r obtain a b where a: "evals \<rho> l' (BitsV w s a)" "if cl then p = norm w s (NOT a) else p = a"
      and b: "evals \<rho> r' (BitsV w s b)" "if cr then q = norm w s (NOT b) else q = b" by blast
    have x: "evals \<rho> (Binary BXor t l' r') (BitsV w s (norm w s (a XOR b)))"
      using a b 3 by (intro evals_arith_bits) (auto simp: arithmetic_def)
    have val: "norm w s (p XOR q) = (if cl = cr then norm w s (a XOR b) else norm w s (NOT (a XOR b)))"
      using a(2) b(2) by (cases cl; cases cr) simp_all
    have "evals \<rho> e' (BitsV w s (norm w s (p XOR q)))"
      using all
    proof (elim disjE exE conjE)
      assume "isZero l" "e' = r"
      with isZero_bits [of l \<rho> w s p] 3 show ?thesis by (simp add: norm_id)
    next
      assume "isZero r" "e' = l"
      with isZero_bits [of r \<rho> w s q] 3 show ?thesis by (simp add: norm_id)
    next
      assume "cl \<noteq> cr" "e' = Unary Cmpl t (Binary BXor t l' r')"
      then show ?thesis using evals_CmplI [OF x 3(7)] val by simp
    next
      assume "cl = cr" "e' = Binary BXor t l' r'"
      then show ?thesis using x val by simp
    next
      fix d assume c: "cl = cr" "l' = r'" "mk_constant (type_of l') 0 10 False = Ok d e'"
      from c(2) a(1) b(1) have "a = b" by (auto dest: evals_det)
      moreover have "type_of l' = Type_Bits (int w) s" using evals_type [OF a(1)] by simp
      ultimately show ?thesis using c val evals_constant_bits [of w s 0 10 False d e' \<rho>] 3(10) by simp
    qed
    with 3 show ?thesis by simp
  qed
qed

end
