(* ===== verification/StrengthRed_Correct.thy ===== *)
theory StrengthRed_Correct
  imports StrengthRed_Typed
begin

text \<open>
  Strength reduction of the logical, relational and arithmetic operators, of shifts, conditional
  expressions, concatenation and indexing: each rewriting keeps the value of the node.
\<close>

section \<open>Logical operators and relations\<close>

lemma evals_LNot:
  "evals \<rho> (Unary LNot t e) v \<longleftrightarrow> (\<exists>b. evals \<rho> e (BoolV b) \<and> v = BoolV (\<not> b) \<and> t = Type_Boolean)"
  by (auto simp: evals_Unary elim: unop_val.elims)

lemma sr_LAnd_evals:
  "sr_LAnd t l r = Ok ds e' \<Longrightarrow> evals \<rho> (Binary LAnd t l r) v \<Longrightarrow> evals \<rho> e' v"
  by (auto simp: sr_LAnd_def isTrue_iff isFalse_iff evals_LAnd split: if_split_asm)

lemma sr_LOr_evals:
  "sr_LOr t l r = Ok ds e' \<Longrightarrow> evals \<rho> (Binary LOr t l r) v \<Longrightarrow> evals \<rho> e' v"
  by (auto simp: sr_LOr_def isTrue_iff isFalse_iff evals_LOr split: if_split_asm)

lemma val_eq_BoolV [simp]:
  "val_eq (BoolV a) y = Some c \<longleftrightarrow> (\<exists>b. y = BoolV b \<and> c = (a = b))"
  "val_eq x (BoolV b) = Some c \<longleftrightarrow> (\<exists>a. x = BoolV a \<and> c = (a = b))"
  by (cases y, auto) (cases x, auto)

lemma evals_Equ:
  "evals \<rho> (Binary Equ t l r) v \<longleftrightarrow>
     (\<exists>x y c. evals \<rho> l x \<and> evals \<rho> r y \<and> val_eq x y = Some c \<and> v = BoolV c \<and> t = Type_Boolean)"
  "evals \<rho> (Binary Neq t l r) v \<longleftrightarrow>
     (\<exists>x y c. evals \<rho> l x \<and> evals \<rho> r y \<and> val_eq x y = Some c \<and> v = BoolV (\<not> c) \<and> t = Type_Boolean)"
  by (auto simp: evals_Binary binop_val_def arithmetic_def simp del: val_eq_BoolV) blast+

lemma sr_Equ_evals:
  "sr_Equ t l r = Ok ds e' \<Longrightarrow> evals \<rho> (Binary Equ t l r) v \<Longrightarrow> evals \<rho> e' v"
  by (cases "e' = Binary Equ t l r")
    (auto simp: sr_Equ_def isTrue_iff isFalse_iff evals_Equ evals_LNot split: if_split_asm)

lemma sr_Neq_evals:
  "sr_Neq t l r = Ok ds e' \<Longrightarrow> evals \<rho> (Binary Neq t l r) v \<Longrightarrow> evals \<rho> e' v"
  by (cases "e' = Binary Neq t l r")
    (auto simp: sr_Neq_def isTrue_iff isFalse_iff evals_Equ evals_LNot split: if_split_asm)

text \<open>A relation and its negation.\<close>

lemma binop_val_negated:
  assumes "negated_relation b = Some b'" "binop_val b x y = Some (BoolV c)"
  shows "binop_val b' x y = Some (BoolV (\<not> c))"
  using assms by (cases b) (auto simp: binop_val_def not_le not_less split: option.split_asm)

lemma negated_relation_strict:
  "negated_relation b = Some b' \<Longrightarrow> b \<noteq> LAnd \<and> b \<noteq> LOr \<and> b' \<noteq> LAnd \<and> b' \<noteq> LOr \<and>
     \<not> arithmetic b'"
  by (cases b) (auto simp: arithmetic_def)

lemma evals_negated:
  assumes "negated_relation b = Some b'" "evals \<rho> (Binary b t l r) (BoolV c)"
  shows "evals \<rho> (Binary b' t l r) (BoolV (\<not> c))"
proof -
  note s = negated_relation_strict [OF assms(1)]
  from assms(2) s obtain x y where xy: "evals \<rho> l x" "evals \<rho> r y" "binop_val b x y = Some (BoolV c)"
    "t = Type_Boolean" by (auto simp: evals_Binary)
  with binop_val_negated [OF assms(1) xy(3)] s show ?thesis by (subst evals_Binary) auto
qed

lemma sr_LNot_cases:
  assumes "sr_LNot t e = Ok ds e'"
  shows "(\<exists>t' x. e = Unary LNot t' x \<and> e' = x) \<or>
    (\<exists>b b' t' l r. e = Binary b t' l r \<and> negated_relation b = Some b' \<and> e' = Binary b' t l r) \<or>
    e' = Unary LNot t e"
  using assms by (auto simp: sr_LNot_def split: expr.splits unop.splits option.splits)

lemma sr_LNot_evals:
  assumes "sr_LNot t e = Ok ds e'" "evals \<rho> (Unary LNot t e) v"
  shows "evals \<rho> e' v"
proof -
  from assms(2) obtain c where c: "evals \<rho> e (BoolV c)" "v = BoolV (\<not> c)" "t = Type_Boolean"
    by (auto simp: evals_LNot)
  from sr_LNot_cases [OF assms(1)] show ?thesis
  proof (elim disjE exE conjE)
    fix t' x assume "e = Unary LNot t' x" "e' = x"
    with c show ?thesis by (auto simp: evals_LNot)
  next
    fix b b' t' l r assume e: "e = Binary b t' l r" "negated_relation b = Some b'" "e' = Binary b' t l r"
    have "t' = Type_Boolean" using evals_type [OF c(1)] e(1) by simp
    with evals_negated [OF e(2), of \<rho> t' l r c] c e show ?thesis by simp
  qed (use assms in simp)
qed

section \<open>Sums, products and shifts\<close>

lemma norm_add_norm [simp]:
  "norm w s (norm w s a + b) = norm w s (a + b)" "norm w s (b + norm w s a) = norm w s (b + a)"
  by (rule norm_cong; metis mod_add_eq norm_mod_eq)+

lemma norm_mult_norm [simp]:
  "norm w s (norm w s a * b) = norm w s (a * b)" "norm w s (b * norm w s a) = norm w s (b * a)"
  by (rule norm_cong; metis mod_mult_eq norm_mod_eq)+

lemma sr_Add_evals:
  assumes s: "sr_Add t l r = Ok ds e'" and v: "evals \<rho> (Binary Add t l r) v" and wf: "wf_env \<rho>"
  shows "evals \<rho> e' v"
proof (cases rule: evals_arithE [OF v _ wf])
  case 1
  then show ?case by (simp add: arithmetic_def)
next
  case (2 p q z)
  with s v isZero_inf [of l \<rho> p] isZero_inf [of r \<rho> q] show ?thesis
    by (simp add: sr_Add_def split: if_split_asm)
next
  case (3 w s' p q z)
  with s v isZero_bits [of l \<rho> w s' p] isZero_bits [of r \<rho> w s' q] show ?thesis
    by (simp add: sr_Add_def norm_id split: if_split_asm)
qed

lemma evals_NegI:
  "evals \<rho> e (BitsV w s q) \<Longrightarrow> evals \<rho> (Unary Neg (Type_Bits (int w) s) e) (BitsV w s (norm w s (- q)))"
  "evals \<rho> e (InfV q) \<Longrightarrow> evals \<rho> (Unary Neg Type_InfInt e) (InfV (- q))"
  using evals_type [of \<rho> e "BitsV w s q"] by (auto simp: evals_Unary)

lemma evals_mk_constant_bits:
  "mk_constant (Type_Bits (int w) s) c b nw = Ok d e \<Longrightarrow> int w \<le> 2147483647 \<Longrightarrow>
     evals \<rho> e (BitsV w s (norm w s c)) \<and> type_of e = Type_Bits (int w) s"
  by (frule evals_constant_bits, assumption) (auto dest: evals_type)

lemma sr_Sub_cases:
  assumes "sr_Sub en t l r = Ok ds e'"
  shows "(isZero r \<and> e' = l) \<or> (isZero l \<and> e' = Unary Neg t r) \<or>
    (\<exists>ct c b d neg. r = Constant ct c b \<and> mk_constant ct (- c) b True = Ok d neg \<and> e' = Binary Add t l neg) \<or>
    (l = r \<and> (\<exists>d. mk_constant (type_of l) 0 10 False = Ok d e')) \<or> e' = Binary Sub t l r"
  using assms by (cases "to_Constant r")
    (auto simp: sr_Sub_def Let_def elim!: bind_comp_OkE split: if_split_asm bool.splits option.split_asm comp.split_asm)

lemma sr_Sub_evals:
  assumes s: "sr_Sub en t l r = Ok ds e'" and v: "evals \<rho> (Binary Sub t l r) v" and wf: "wf_env \<rho>"
  shows "evals \<rho> e' v"
proof (cases rule: evals_arithE [OF v _ wf])
  case 1
  then show ?case by (simp add: arithmetic_def)
next
  case (2 p q z)
  from sr_Sub_cases [OF s] show ?thesis
  proof (elim disjE exE conjE)
    assume "isZero r" "e' = l"
    with isZero_inf [of r \<rho> q] 2 show ?thesis by simp
  next
    assume "isZero l" "e' = Unary Neg t r"
    with isZero_inf [of l \<rho> p] 2 show ?thesis using evals_NegI(2) [of \<rho> r q] by simp
  next
    fix ct c b d neg assume a: "r = Constant ct c b" "mk_constant ct (- c) b True = Ok d neg" "e' = Binary Add t l neg"
    have c: "q = c" using evals_ConstantD(2) 2(2) unfolding a(1) by blast
    have "ct = Type_InfInt" using 2(7) a(1) by simp
    with a c have "evals \<rho> neg (InfV (- q))" by auto
    from evals_arith_inf [OF 2(1) this, of Add "p - q" t] 2 a(3) show ?thesis by (simp add: arithmetic_def)
  next
    fix d assume a: "l = r" "mk_constant (type_of l) 0 10 False = Ok d e'"
    have "InfV p = InfV q" by (rule evals_det [OF 2(1)]) (simp only: a(1) 2(2))
    moreover have "e' = Constant Type_InfInt 0 10" using a(2) unfolding 2(6) by simp
    ultimately show ?thesis using 2(3,4) by simp
  qed (use v in simp)
next
  case (3 w sg p q z)
  from sr_Sub_cases [OF s] show ?thesis
  proof (elim disjE exE conjE)
    assume "isZero r" "e' = l"
    with isZero_bits [of r \<rho> w sg q] 3 show ?thesis by (simp add: norm_id)
  next
    assume "isZero l" "e' = Unary Neg t r"
    with isZero_bits [of l \<rho> w sg p] 3 show ?thesis using evals_NegI(1) [of \<rho> r w sg q] by simp
  next
    fix ct c b d neg assume a: "r = Constant ct c b" "mk_constant ct (- c) b True = Ok d neg" "e' = Binary Add t l neg"
    have c: "q = c" using evals_ConstantD(1) 3(2) unfolding a(1) by blast
    have "ct = Type_Bits (int w) sg" using 3(7,9) a(1) by simp
    with a(2) c have n: "evals \<rho> neg (BitsV w sg (norm w sg (- q)))"
      using evals_constant_bits [of w sg "- c" b True d neg \<rho>] 3(10) by simp
    from evals_arith_bits [OF 3(1) n, of Add "p + norm w sg (- q)" t] 3 a(3)
    show ?thesis by (simp add: arithmetic_def)
  next
    fix d assume a: "l = r" "mk_constant (type_of l) 0 10 False = Ok d e'"
    have "BitsV w sg p = BitsV w sg q" by (rule evals_det [OF 3(1)]) (simp only: a(1) 3(2))
    moreover have "evals \<rho> e' (BitsV w sg (norm w sg 0))"
      using a(2) 3(7,8,10) evals_constant_bits [of w sg 0 10 False d e' \<rho>] by simp
    ultimately show ?thesis using 3(3,4) by simp
  qed (use v in simp)
qed

lemma evals_shift:
  "b \<in> {Shl, Shr} \<Longrightarrow> evals \<rho> (Binary b t l r) v \<longleftrightarrow>
     (\<exists>x y n. evals \<rho> l x \<and> evals \<rho> r y \<and> shift_amount y = Some n \<and> shift_val b x n = Some v \<and> has_type v t)"
  by (auto simp: evals_Binary arithmetic_def binop_val_def bind_eq_Some_conv; blast)

lemma evals_ShlI:
  "evals \<rho> l (BitsV w s p) \<Longrightarrow> 0 \<le> k \<Longrightarrow> t = Type_Bits (int w) s \<Longrightarrow>
     evals \<rho> (Binary Shl t l (inf_constant k)) (BitsV w s (norm w s (p * 2 ^ nat k)))"
  "evals \<rho> l (InfV p) \<Longrightarrow> 0 \<le> k \<Longrightarrow> t = Type_InfInt \<Longrightarrow>
     evals \<rho> (Binary Shl t l (inf_constant k)) (InfV (p * 2 ^ nat k))"
  using evals_type [of \<rho> l "BitsV w s p"]
  by (subst evals_shift; force)+

lemma evals_ShrI:
  "evals \<rho> l (BitsV w s p) \<Longrightarrow> 0 \<le> k \<Longrightarrow> t = Type_Bits (int w) s \<Longrightarrow>
     evals \<rho> (Binary Shr t l (inf_constant k)) (BitsV w s (p div 2 ^ nat k))"
  "evals \<rho> l (InfV p) \<Longrightarrow> 0 \<le> k \<Longrightarrow> t = Type_InfInt \<Longrightarrow>
     evals \<rho> (Binary Shr t l (inf_constant k)) (InfV (p div 2 ^ nat k))"
  using evals_type [of \<rho> l "BitsV w s p"]
  by (subst evals_shift; force)+

lemma isZero_val:
  "isZero e \<Longrightarrow> evals \<rho> e x \<Longrightarrow> wf_val x \<Longrightarrow> case x of BitsV w s p \<Rightarrow> p = 0 | InfV p \<Rightarrow> p = 0 | _ \<Rightarrow> True"
  using isZero_bits [of e \<rho>] isZero_inf [of e \<rho>] by (cases x) auto

lemma isZero_amount: "isZero e \<Longrightarrow> evals \<rho> e y \<Longrightarrow> wf_val y \<Longrightarrow> shift_amount y = Some n \<Longrightarrow> n = 0"
  by (drule (2) isZero_val) (cases y, auto)

lemma isZero_shifted:
  "isZero e \<Longrightarrow> evals \<rho> e x \<Longrightarrow> wf_val x \<Longrightarrow> shift_val b x n = Some v \<Longrightarrow> v = x"
  by (drule (2) isZero_val) (cases "(b, x, n)" rule: shift_val.cases; auto simp: norm_id)

lemma shift_by_0: "wf_val x \<Longrightarrow> shift_val b x 0 = Some v \<Longrightarrow> v = x"
  by (cases "(b, x, 0::nat)" rule: shift_val.cases) (auto simp: norm_id)

lemma shift_val_shift_val:
  "shift_val b x m = Some u \<Longrightarrow> shift_val b u n = Some v \<Longrightarrow> shift_val b x (m + n) = Some v"
  by (cases "(b, x, m)" rule: shift_val.cases)
    (auto simp: power_add mult.assoc zdiv_zmult2_eq)

lemma shift_val_type: "shift_val b x n = Some v \<Longrightarrow> has_type x t \<longleftrightarrow> has_type v t"
  by (cases "(b, x, n)" rule: shift_val.cases) auto

lemma has_type_InfInt: "has_type y Type_InfInt \<Longrightarrow> shift_amount y = Some n \<Longrightarrow> y = InfV (int n)"
  by (cases y) (auto split: if_split_asm)

lemma sr_shift_cases:
  assumes "sr_shift b t l r = Ok ds e'"
  shows "(isZero r \<and> e' = l) \<or>
    (\<exists>t2 a amt. l = Binary b t2 a amt \<and> type_of amt = Type_InfInt \<and> type_of r = Type_InfInt \<and>
        e' = Binary b (type_of a) a (Binary Add (type_of amt) amt r)) \<or>
    (isZero l \<and> e' = l) \<or> e' = Binary b t l r"
  using assms by (auto simp: sr_shift_def split: if_split_asm option.split_asm)

lemma sr_shift_evals:
  assumes s: "sr_shift b t l r = Ok ds e'" and b: "b \<in> {Shl, Shr}"
    and v: "evals \<rho> (Binary b t l r) v" and wf: "wf_env \<rho>"
  shows "evals \<rho> e' v"
proof -
  from v b obtain x y n where xy: "evals \<rho> l x" "evals \<rho> r y" "shift_amount y = Some n"
    "shift_val b x n = Some v" "has_type v t" by (auto simp: evals_shift)
  note wfv = evals_wf [OF wf xy(1)] evals_wf [OF wf xy(2)]
  from sr_shift_cases [OF s] show ?thesis
  proof (elim disjE exE conjE)
    assume "isZero r" "e' = l"
    with isZero_amount [OF _ xy(2) wfv(2) xy(3)] shift_by_0 [OF wfv(1)] xy show ?thesis by auto
  next
    assume "isZero l" "e' = l"
    with isZero_shifted [OF _ xy(1) wfv(1) xy(4)] xy show ?thesis by simp
  next
    fix t2 a amt assume a: "l = Binary b t2 a amt" "type_of amt = Type_InfInt" "type_of r = Type_InfInt"
      "e' = Binary b (type_of a) a (Binary Add (type_of amt) amt r)"
    from xy(1) b a(1) obtain z k m where z: "evals \<rho> a z" "evals \<rho> amt k" "shift_amount k = Some m"
      "shift_val b z m = Some x" by (auto simp: evals_shift)
    have "k = InfV (int m)" "y = InfV (int n)"
      using has_type_InfInt z xy evals_type a(2,3) by metis+
    then have add: "evals \<rho> (Binary Add (type_of amt) amt r) (InfV (int m + int n))"
      using z xy a(2) by (intro evals_arith_inf) (auto simp: arithmetic_def)
    note sv = shift_val_shift_val [OF z(4) xy(4)]
    have "has_type v (type_of a)" using shift_val_type [OF sv, of "type_of a"] evals_type [OF z(1)] by simp
    with z(1) add sv show ?thesis unfolding a(4) evals_shift [OF b] by (fastforce simp: nat_add_distrib)
  qed (use v in simp)
qed

lemma sr_Mul_cases:
  assumes "sr_Mul t l r = Ok ds e'"
  shows "(isOne l \<and> e' = r) \<or> (isOne r \<and> e' = l) \<or>
    (isPowerOf2 l \<ge> 0 \<and> e' = Binary Shl t r (inf_constant (isPowerOf2 l))) \<or>
    (isPowerOf2 r \<ge> 0 \<and> e' = Binary Shl t l (inf_constant (isPowerOf2 r))) \<or>
    (isZero l \<and> e' = l) \<or> (isZero r \<and> e' = r) \<or> e' = Binary Mul t l r"
  using assms by (auto simp: sr_Mul_def Let_def split: if_split_asm)

lemma sr_Mul_evals:
  assumes s: "sr_Mul t l r = Ok ds e'" and v: "evals \<rho> (Binary Mul t l r) v" and wf: "wf_env \<rho>"
  shows "evals \<rho> e' v"
proof (cases rule: evals_arithE [OF v _ wf])
  case 1
  then show ?case by (simp add: arithmetic_def)
next
  case (2 p q z)
  from sr_Mul_cases [OF s] show ?thesis
    using 2 v isOne_val(2) [of l \<rho> p] isOne_val(2) [of r \<rho> q] isZero_inf [of l \<rho> p] isZero_inf [of r \<rho> q]
      isPowerOf2_val(2) [of l \<rho> p] isPowerOf2_val(2) [of r \<rho> q]
      evals_ShlI(2) [OF 2(2), of "isPowerOf2 l" t] evals_ShlI(2) [OF 2(1), of "isPowerOf2 r" t]
    by (elim disjE) (auto simp: mult.commute)
next
  case (3 w sg p q z)
  have nrm: "norm w sg p = p" "norm w sg q = q" and z: "z = p * q" using 3 by (auto simp: norm_id)
  from sr_Mul_cases [OF s] show ?thesis
  proof (elim disjE conjE)
    assume "isOne l" "e' = r"
    with isOne_val(1) [of l \<rho> w sg p] 3 nrm z show ?thesis by simp
  next
    assume "isOne r" "e' = l"
    with isOne_val(1) [of r \<rho> w sg q] 3 nrm z show ?thesis by simp
  next
    assume a: "0 \<le> isPowerOf2 l" "e' = Binary Shl t r (inf_constant (isPowerOf2 l))"
    have "v = BitsV w sg (norm w sg (q * 2 ^ nat (isPowerOf2 l)))"
      unfolding 3(4) z isPowerOf2_val(1) [OF a(1) 3(1)] by (simp only: mult.commute)
    then show ?thesis using evals_ShlI(1) [OF 3(2) a(1) 3(7)] a(2) by (simp only:)
  next
    assume a: "0 \<le> isPowerOf2 r" "e' = Binary Shl t l (inf_constant (isPowerOf2 r))"
    have "v = BitsV w sg (norm w sg (p * 2 ^ nat (isPowerOf2 r)))"
      unfolding 3(4) z isPowerOf2_val(1) [OF a(1) 3(2)] ..
    then show ?thesis using evals_ShlI(1) [OF 3(1) a(1) 3(7)] a(2) by (simp only:)
  next
    assume a: "isZero l" "e' = l"
    with isZero_bits [OF a(1) 3(1,5)] 3 nrm z show ?thesis by simp
  next
    assume a: "isZero r" "e' = r"
    with isZero_bits [OF a(1) 3(2,6)] 3 nrm z show ?thesis by simp
  qed (use v in simp)
qed

lemma sr_Div_cases:
  assumes "sr_Div t l r = Ok ds e'"
  shows "(isOne r \<and> e' = l) \<or> (isPowerOf2 r \<ge> 0 \<and> e' = Binary Shr t l (inf_constant (isPowerOf2 r))) \<or>
    (isZero l \<and> e' = l) \<or> e' = Binary Div t l r"
  using assms by (auto simp: sr_Div_def split: if_split_asm)

lemma in_range_quot: "in_range w s p \<Longrightarrow> 0 \<le> p \<Longrightarrow> 0 < q \<Longrightarrow> in_range w s (p div q)"
  using zdiv_mono2 [of p 1 q, unfolded div_by_1] pos_imp_zdiv_nonneg_iff [of q p]
  unfolding in_range_def by (smt (verit) zero_le_power)

lemma sr_Div_evals:
  assumes s: "sr_Div t l r = Ok ds e'" and v: "evals \<rho> (Binary Div t l r) v" and wf: "wf_env \<rho>"
  shows "evals \<rho> e' v"
proof (cases rule: evals_arithE [OF v _ wf])
  case 1
  then show ?case by (simp add: arithmetic_def)
next
  case (2 p q z)
  then have z: "0 \<le> p" "0 < q" "z = p div q" by (auto split: if_split_asm)
  from sr_Div_cases [OF s] show ?thesis
    using 2 z v isOne_val(2) [of r \<rho> q] isZero_inf [of l \<rho> p] isPowerOf2_val(2) [of r \<rho> q]
      evals_ShrI(2) [OF 2(1), of "isPowerOf2 r" t]
    by (elim disjE) auto
next
  case (3 w sg p q z)
  then have z: "0 \<le> p" "0 < q" "z = p div q" by (auto split: if_split_asm)
  have "norm w sg z = z" "norm w sg p = p" using in_range_quot [OF 3(5) z(1,2)] z(3) 3(5) by (auto simp: norm_id)
  with sr_Div_cases [OF s] show ?thesis
    using 3 z v isOne_val(1) [of r \<rho> w sg q] isZero_bits [of l \<rho> w sg p]
      isPowerOf2_val(1) [of r \<rho> w sg q] evals_ShrI(1) [OF 3(1), of "isPowerOf2 r" t]
    by (elim disjE) (simp add: norm_id, simp, force simp: norm_id, simp)
qed

lemma sr_Mod_cases:
  assumes "sr_Mod t l r = Ok ds e'"
  shows "(isZero l \<and> e' = l) \<or>
    (\<exists>d m. isPowerOf2 r \<ge> 0 \<and> mk_constant (type_of r) (2 ^ nat (isPowerOf2 r) - 1) 10 False = Ok d m \<and>
       e' = Binary BAnd t l m) \<or> e' = Binary Mod t l r"
  using assms by (auto simp: sr_Mod_def Let_def push_bit_eq_mult elim!: bind_comp_OkE
      split: if_split_asm comp.split_asm)

lemma sr_Mod_evals:
  assumes s: "sr_Mod t l r = Ok ds e'" and v: "evals \<rho> (Binary Mod t l r) v" and wf: "wf_env \<rho>"
  shows "evals \<rho> e' v"
proof (cases rule: evals_arithE [OF v _ wf])
  case 1
  then show ?case by (simp add: arithmetic_def)
next
  case (2 p q z)
  then have z: "0 \<le> p" "0 < q" "z = p mod q" by (auto split: if_split_asm)
  from sr_Mod_cases [OF s] show ?thesis
  proof (elim disjE exE conjE)
    assume "isZero l" "e' = l"
    with isZero_inf [of l \<rho> p] 2 z show ?thesis by simp
  next
    fix d m assume a: "0 \<le> isPowerOf2 r" "mk_constant (type_of r) (2 ^ nat (isPowerOf2 r) - 1) 10 False = Ok d m"
      "e' = Binary BAnd t l m"
    from a(2) have "evals \<rho> m (InfV (q - 1))" using isPowerOf2_val(2) [OF a(1) 2(2)] 2(7) by auto
    from evals_arith_inf [OF 2(1) this, of BAnd "p AND (q - 1)" t] 2 a(3) z isPowerOf2_val(2) [OF a(1) 2(2)]
    show ?thesis by (simp add: arithmetic_def and_mask_eq_mod)
  qed (use v in simp)
next
  case (3 w sg p q z)
  then have z: "0 \<le> p" "0 < q" "z = p mod q" by (auto split: if_split_asm)
  from sr_Mod_cases [OF s] show ?thesis
  proof (elim disjE exE conjE)
    assume "isZero l" "e' = l"
    with isZero_bits [of l \<rho> w sg p] 3 z show ?thesis by (simp add: norm_id)
  next
    fix d m assume a: "0 \<le> isPowerOf2 r" "mk_constant (type_of r) (2 ^ nat (isPowerOf2 r) - 1) 10 False = Ok d m"
      "e' = Binary BAnd t l m"
    note q = isPowerOf2_val(1) [OF a(1) 3(2)]
    from a(2) have "evals \<rho> m (BitsV w sg (norm w sg (q - 1)))"
      using evals_constant_bits [of w sg _ 10 False d m \<rho>] 3(7,9,10) unfolding q by simp
    from evals_arith_bits [OF 3(1) this, of BAnd "p AND norm w sg (q - 1)" t] 3 a(3) z q
    show ?thesis by (simp add: arithmetic_def and_mask_eq_mod)
  qed (use v in simp)
qed

section \<open>Conditional expressions, concatenation, indexing\<close>

lemma sr_Mux_evals:
  assumes "sr_Mux t c a b = Ok ds e'" "evals \<rho> (Mux t c a b) v"
  shows "evals \<rho> e' v"
proof (cases "e' = Mux t c a b")
  case False
  with assms show ?thesis
    by (auto simp: sr_Mux_def isTrue_iff isFalse_iff evals_Mux evals_LNot
        split: if_split_asm option.split_asm)
qed (use assms in simp)

lemma evals_Concat:
  "evals \<rho> (Binary Concat t l r) v \<longleftrightarrow>
     (\<exists>x y. evals \<rho> l x \<and> evals \<rho> r y \<and> concat_val x y = Some v \<and> has_type v t)"
  by (auto simp: evals_Binary arithmetic_def binop_val_def; blast)

text \<open>An empty left operand is dropped; its sign is then lost.  The type checker never builds a
  concatenation of an empty unsigned operand with a signed one in the programs covered here.\<close>

fun sign_kept :: "expr \<Rightarrow> bool" where
  "sign_kept (Binary b t l r) =
     (b = Concat \<and> is_zero_width l \<longrightarrow>
        (case to_Type_Bits (type_of r) of Some (w, s) \<Rightarrow> \<not> s | None \<Rightarrow> True))"
| "sign_kept e = True"

lemma sr_Concat_evals:
  assumes s: "sr_Concat t l r = Ok ds e'" and v: "evals \<rho> (Binary Concat t l r) v"
    and k: "sign_kept (Binary Concat t l r)" and wf: "wf_env \<rho>"
  shows "evals \<rho> e' v"
proof -
  from v obtain x y where xy: "evals \<rho> l x" "evals \<rho> r y" "concat_val x y = Some v" "has_type v t"
    by (auto simp: evals_Concat)
  note wfv = evals_wf [OF wf xy(1)] evals_wf [OF wf xy(2)]
  note ty = evals_type [OF xy(1)] evals_type [OF xy(2)]
  from s consider "is_zero_width l" "e' = r" | "is_zero_width r" "e' = l" | "e' = Binary Concat t l r"
    by (auto simp: sr_Concat_def split: if_split_asm)
  then show ?thesis
  proof cases
    case 1
    with xy wfv ty k have "v = y"
      by (cases "(x, y)" rule: concat_val.cases) (auto simp: is_zero_width_def in_range_def split: if_split_asm)
    with xy 1 show ?thesis by simp
  next
    case 2
    with xy wfv ty have "v = x"
      by (cases "(x, y)" rule: concat_val.cases) (auto simp: is_zero_width_def in_range_def)
    with xy 2 show ?thesis by simp
  qed (use v in simp)
qed

lemma evals_HeaderStackExpression:
  assumes "evals \<rho> (HeaderStackExpression t es) x"
  obtains vs where "x = TupleV vs" "list_all2 (evals \<rho>) es vs"
proof -
  from assms obtain vs where "all_some (map (eval \<rho>) es) = Some vs" "x = TupleV vs" "list_all (typed \<rho>) es"
    by (auto simp: evals_iff)
  with that [of vs] show thesis
    by (auto simp: all_some_Some_iff list_all2_conv_all_nth list_all_length evals_def list_eq_iff_nth_eq)
qed

lemma sr_ArrayIndex_evals:
  assumes s: "sr_ArrayIndex t l r = Ok ds e'" and v: "evals \<rho> (ArrayIndex t l r) v"
    and ne: "\<forall>t. Error t \<notin> set ds"
  shows "evals \<rho> e' v"
proof (cases "e' = ArrayIndex t l r")
  case False
  with s obtain ht es ct k b d i where a: "l = HeaderStackExpression ht es" "r = Constant ct k b"
    "asInt k = Ok d i" "0 \<le> i" "nat i < length es" "e' = es ! nat i" "ds = d"
    by (auto simp: sr_ArrayIndex_def Let_def elim!: bind_comp_OkE
        split: expr.splits option.split_asm if_split_asm comp.split_asm)
  from v obtain x j where x: "evals \<rho> l x" "evals \<rho> r (InfV j) \<or> (\<exists>w s. evals \<rho> r (BitsV w s j))" "nth_val x j = Some v"
    by (auto simp: evals_ArrayIndex elim!: index_val.elims)
  have j: "j = k" using x(2) a(2) evals_ConstantD by blast
  from x(1) a(1) obtain vs where vs: "x = TupleV vs" "list_all2 (evals \<rho>) es vs"
    by (auto elim: evals_HeaderStackExpression)
  with x(3) j have "0 \<le> k" "nat k < length vs" "v = vs ! nat k" by (auto split: if_split_asm)
  moreover have "i = k" if "nat i < length es" using a(3,7) ne
    by (auto simp: asInt_def fitsInt_def split: if_split_asm)
  ultimately show ?thesis using a vs by (auto simp: list_all2_conv_all_nth)
qed (use v in simp)

end
