(* ===== verification/StrengthRed_Slice.thy ===== *)
theory StrengthRed_Slice
  imports StrengthRed_Correct
begin

text \<open>
  Strength reduction of slices: moving a slice through shifts, concatenations, casts and other
  slices selects the same bits.  The facts on \<^const>\<open>bits_of\<close> are stated bit by bit.
\<close>

section \<open>Selecting bits\<close>

lemma bit_bits_of: "bit (bits_of x l n) i \<longleftrightarrow> i < n \<and> bit x (l + i)"
  by (auto simp: bits_of_def bit_simps simp flip: take_bit_eq_mod drop_bit_eq_div)

lemma take_bit_norm [width_simps]: "k \<le> w \<Longrightarrow> take_bit k (norm w s x) = take_bit k x"
  by (metis min.absorb1 norm_mod_eq take_bit_eq_mod take_bit_take_bit)

lemma bit_norm: "i < w \<Longrightarrow> bit (norm w s x) i \<longleftrightarrow> bit x i"
  by (metis bit_take_bit_iff order_refl take_bit_norm)

lemma concat_bits: "a * 2 ^ n + b mod 2 ^ n = concat_bit n b a"
  by (simp add: concat_bit_eq push_bit_eq_mult take_bit_eq_mod)

lemma bits_of_norm: "l + n \<le> w \<Longrightarrow> bits_of (norm w s x) l n = bits_of x l n"
  by (rule bit_eqI) (auto simp: bit_bits_of bit_norm)

lemma bits_of_div: "bits_of (a div 2 ^ k) l n = bits_of a (l + k) n"
  by (rule bit_eqI) (auto simp: bit_bits_of bit_simps ac_simps simp flip: drop_bit_eq_div)

lemma bits_of_mult:
  "k \<le> l \<Longrightarrow> bits_of (a * 2 ^ k) l n = bits_of a (l - k) n"
  "l + n \<le> k \<Longrightarrow> bits_of (a * 2 ^ k) l n = 0"
  "l \<le> k \<Longrightarrow> k \<le> l + n \<Longrightarrow> bits_of (a * 2 ^ k) l n = concat_bit (k - l) 0 (bits_of a 0 (l + n - k))"
  by (rule bit_eqI; auto simp: bit_bits_of bit_simps bit_concat_bit_iff simp flip: push_bit_eq_mult;
      (simp add: add.commute)?)+

lemma bits_of_concat:
  "k \<le> l \<Longrightarrow> bits_of (concat_bit k b a) l n = bits_of a (l - k) n"
  "l + n \<le> k \<Longrightarrow> bits_of (concat_bit k b a) l n = bits_of b l n"
  "l \<le> k \<Longrightarrow> k \<le> l + n \<Longrightarrow>
     bits_of (concat_bit k b a) l n = concat_bit (k - l) (bits_of b l (k - l)) (bits_of a 0 (l + n - k))"
  by (rule bit_eqI; auto simp: bit_bits_of bit_concat_bit_iff; (simp add: algebra_simps)?)+

lemma bits_of_bits_of: "l + n \<le> m \<Longrightarrow> bits_of (bits_of x k m) l n = bits_of x (k + l) n"
  by (rule bit_eqI) (auto simp: bit_bits_of ac_simps)

lemma bits_of_all: "0 \<le> a \<Longrightarrow> a < 2 ^ w \<Longrightarrow> bits_of a 0 w = a"
  by (simp add: bits_of_def)

lemma bits_of_bound: "0 \<le> bits_of x l n" "bits_of x l n < 2 ^ n"
  by (simp_all add: bits_of_def)

section \<open>Slices of values\<close>

lemma slice_val_iff:
  "slice_val x h l = Some v \<longleftrightarrow> 0 \<le> l \<and> l \<le> h \<and>
     (\<exists>a. ((\<exists>w s. x = BitsV w s a \<and> h < int w) \<or> x = InfV a) \<and>
        v = BitsV (nat (h - l + 1)) False (bits_of a (nat l) (nat (h - l + 1))))"
  by (cases x) (auto simp: slice_val_def)

lemma slice_val_Shr:
  "slice_val (BitsV w s (a div 2 ^ n)) h l = Some v \<Longrightarrow> h + int n < int w \<Longrightarrow>
     slice_val (BitsV w s a) (h + int n) (l + int n) = Some v"
  by (auto simp: slice_val_iff bits_of_div nat_add_distrib)

lemma slice_val_Shl:
  "slice_val (BitsV w s (norm w s (a * 2 ^ n))) h l = Some v \<Longrightarrow> int n \<le> l \<Longrightarrow>
     slice_val (BitsV w s a) (h - int n) (l - int n) = Some v"
  by (auto simp: slice_val_iff bits_of_norm bits_of_mult nat_diff_distrib le_nat_iff)

lemma slice_val_Shl_zero:
  "slice_val (BitsV w s (norm w s (a * 2 ^ n))) h l = Some v \<Longrightarrow> h < int n \<Longrightarrow>
     v = BitsV (nat (h - l + 1)) False 0"
  by (auto simp: slice_val_iff bits_of_norm intro!: bits_of_mult(2))

lemma slice_val_Shl_part:
  assumes "slice_val (BitsV w s (norm w s (a * 2 ^ n))) h l = Some v" "l < int n" "int n \<le> h"
  shows "slice_val (BitsV w s a) (h - int n) 0 = Some (BitsV (nat (h - int n + 1)) False (bits_of a 0 (nat (h - int n + 1))))"
    "concat_val (BitsV (nat (h - int n + 1)) False (bits_of a 0 (nat (h - int n + 1)))) (BitsV (nat (int n - l)) False 0) = Some v"
proof -
  show "slice_val (BitsV w s a) (h - int n) 0 = Some (BitsV (nat (h - int n + 1)) False (bits_of a 0 (nat (h - int n + 1))))"
    using assms by (auto simp: slice_val_iff)
  have b: "bits_of (a * 2 ^ n) (nat l) (nat (h - l + 1)) = concat_bit (n - nat l) 0 (bits_of a 0 (nat l + nat (h - l + 1) - n))"
    using assms by (intro bits_of_mult(3)) auto
  have i: "nat l + nat (h - l + 1) - n = nat (h - int n + 1)" "n - nat l = nat (int n - l)"
    "nat (h - int n + 1) + nat (int n - l) = nat (h - l + 1)" using assms by (auto simp: slice_val_iff)
  show "concat_val (BitsV (nat (h - int n + 1)) False (bits_of a 0 (nat (h - int n + 1)))) (BitsV (nat (int n - l)) False 0) = Some v"
    using assms b unfolding i by (auto simp: slice_val_iff bits_of_norm i concat_bit_eq push_bit_eq_mult)
qed

lemma slice_val_Concat:
  assumes "slice_val (BitsV (w + w') s (concat_bit w' b a)) h l = Some v"
  shows "int w' \<le> l \<Longrightarrow> slice_val (BitsV w s a) (h - int w') (l - int w') = Some v"
    "h < int w' \<Longrightarrow> slice_val (BitsV w' s' b) h l = Some v"
    "l < int w' \<Longrightarrow> int w' \<le> h \<Longrightarrow>
       slice_val (BitsV w s a) (h - int w') 0 = Some (BitsV (nat (h - int w' + 1)) False (bits_of a 0 (nat (h - int w' + 1)))) \<and>
       slice_val (BitsV w' s' b) (int w' - 1) l = Some (BitsV (nat (int w' - l)) False (bits_of b (nat l) (nat (int w' - l)))) \<and>
       concat_val (BitsV (nat (h - int w' + 1)) False (bits_of a 0 (nat (h - int w' + 1))))
         (BitsV (nat (int w' - l)) False (bits_of b (nat l) (nat (int w' - l)))) = Some v"
proof -
  show "int w' \<le> l \<Longrightarrow> slice_val (BitsV w s a) (h - int w') (l - int w') = Some v"
    using assms by (auto simp: slice_val_iff bits_of_concat nat_diff_distrib le_nat_iff)
  show "h < int w' \<Longrightarrow> slice_val (BitsV w' s' b) h l = Some v"
    using assms by (auto simp: slice_val_iff intro!: bits_of_concat(2))
  assume l: "l < int w'" "int w' \<le> h"
  have c: "bits_of (concat_bit w' b a) (nat l) (nat (h - l + 1)) =
    concat_bit (w' - nat l) (bits_of b (nat l) (w' - nat l)) (bits_of a 0 (nat l + nat (h - l + 1) - w'))"
    using assms l by (intro bits_of_concat(3)) (auto simp: slice_val_iff)
  have i: "nat l + nat (h - l + 1) - w' = nat (h - int w' + 1)" "w' - nat l = nat (int w' - l)"
    "nat (h - int w' + 1) + nat (int w' - l) = nat (h - l + 1)" using assms l by (auto simp: slice_val_iff)
  show "slice_val (BitsV w s a) (h - int w') 0 = Some (BitsV (nat (h - int w' + 1)) False (bits_of a 0 (nat (h - int w' + 1)))) \<and>
       slice_val (BitsV w' s' b) (int w' - 1) l = Some (BitsV (nat (int w' - l)) False (bits_of b (nat l) (nat (int w' - l)))) \<and>
       concat_val (BitsV (nat (h - int w' + 1)) False (bits_of a 0 (nat (h - int w' + 1))))
         (BitsV (nat (int w' - l)) False (bits_of b (nat l) (nat (int w' - l)))) = Some v"
    using assms l c unfolding i by (auto simp: slice_val_iff i concat_bits)
qed

section \<open>The steps\<close>

definition no_error :: "diag list \<Rightarrow> bool" where
  "no_error ds \<longleftrightarrow> (\<forall>t. Error t \<notin> set ds)"

lemma no_error_errorCount: "errorCount ds = 0 \<longleftrightarrow> no_error ds"
  by (auto simp: errorCount_def no_error_def filter_empty_conv split: diag.splits)

lemma no_error_append [simp]: "no_error (xs @ ys) \<longleftrightarrow> no_error xs \<and> no_error ys" "no_error []"
  by (auto simp: no_error_def)

lemma asUnsigned_exact: "asUnsigned v = Ok d i \<Longrightarrow> no_error d \<Longrightarrow> i = v"
  by (auto simp: asUnsigned_def no_error_def split: if_split_asm)

lemma asInt_exact: "asInt v = Ok d i \<Longrightarrow> no_error d \<Longrightarrow> i = v"
  by (auto simp: asInt_def no_error_def split: if_split_asm)

lemma slice_index_exact:
  assumes "slice_index e = Ok d i" "no_error d" "evals \<rho> e y" "index_val y = Some k"
  shows "i = k"
proof -
  from assms(1) obtain t v b where e: "e = Constant t v b" "asUnsigned v = Ok d i"
    by (cases e rule: slice_index.cases) auto
  have "v = k" using assms(3,4) evals_ConstantD [of \<rho> t v b] unfolding e(1) by (cases y) auto
  with asUnsigned_exact [OF e(2) assms(2)] show ?thesis by simp
qed

lemma evals_SliceI:
  "evals \<rho> e x \<Longrightarrow> slice_val x h l = Some v \<Longrightarrow> has_type v t \<Longrightarrow> h \<le> 4294967295 \<Longrightarrow>
     evals \<rho> (Slice t e (inf_constant h) (inf_constant l)) v"
  by (subst evals_Slice) force

lemma evals_SliceE:
  assumes "evals \<rho> (Slice t e h l) v"
  obtains x i j where "evals \<rho> e x" "slice_val x i j = Some v" "has_type v t" "0 \<le> j" "j \<le> i" "i \<le> 4294967295"
    "\<And>d k. slice_index h = Ok d k \<Longrightarrow> no_error d \<Longrightarrow> k = i"
    "\<And>d k. slice_index l = Ok d k \<Longrightarrow> no_error d \<Longrightarrow> k = j"
    "\<And>e' x'. evals \<rho> e' x' \<Longrightarrow> slice_val x' i j = Some v \<Longrightarrow> evals \<rho> (Slice t e' h l) v"
proof -
  from assms obtain x y i z j where *: "evals \<rho> e x" "evals \<rho> h y" "index_val y = Some i" "evals \<rho> l z"
    "index_val z = Some j" "slice_val x i j = Some v" "has_type v t" "i \<le> 4294967295" by (auto simp: evals_Slice)
  show thesis
  proof (rule that [of x i j])
    show "0 \<le> j" "j \<le> i" "i \<le> 4294967295" using *(6,8) by (auto simp: slice_val_iff)
    show "evals \<rho> (Slice t e' h l) v" if "evals \<rho> e' x'" "slice_val x' i j = Some v" for e' x'
      unfolding evals_Slice using that * by blast
  qed (use * slice_index_exact in blast)+
qed

lemma width_of_bits: "evals \<rho> e (BitsV w s a) \<Longrightarrow> type_of e = Type_Bits (int w) s \<and> int w \<le> 2147483647"
  by (auto dest: evals_type)

lemma uint32_id [simp]: "0 \<le> x \<Longrightarrow> x < 4294967296 \<Longrightarrow> uint32 x = x"
  by (simp add: uint32_def)

text \<open>Concatenations: the slice goes to one operand or to both.\<close>

lemma sr_slice_concat_evals:
  assumes "sr_slice_concat t e0 e1 e2 = Ok ds st" "no_error ds" "evals \<rho> (Slice t e0 e1 e2) v"
  shows "case st of Done e \<Rightarrow> evals \<rho> e v | Go a b c \<Rightarrow> evals \<rho> (Slice t a b c) v"
  using assms
proof (induction e0 arbitrary: e1 e2 ds)
  case (Binary b bt left right)
  show ?case
  proof (cases "b = Concat")
    case False
    with Binary.prems show ?thesis by auto
  next
    case True
    from Binary.prems(3) obtain x i j where x: "evals \<rho> (Binary Concat bt left right) x" "slice_val x i j = Some v"
      "has_type v t" "0 \<le> j" "j \<le> i"
      and i: "\<And>d k. slice_index e1 = Ok d k \<Longrightarrow> no_error d \<Longrightarrow> k = i"
      and j: "\<And>d k. slice_index e2 = Ok d k \<Longrightarrow> no_error d \<Longrightarrow> k = j"
      and keep: "\<And>e' x'. evals \<rho> e' x' \<Longrightarrow> slice_val x' i j = Some v \<Longrightarrow> evals \<rho> (Slice t e' e1 e2) v"
      unfolding True by (rule evals_SliceE) auto
    from x(1) obtain p q where pq: "evals \<rho> left p" "evals \<rho> right q" "concat_val p q = Some x"
      by (auto simp: evals_Concat)
    with x(2) obtain w s a w' s' c where bits: "p = BitsV w s a" "q = BitsV w' s' c"
      "x = BitsV (w + w') s (concat_bit w' c a)"
      by (cases "(p, q)" rule: concat_val.cases) (auto simp: slice_val_def concat_bits split: if_split_asm)
    note wl = width_of_bits [OF pq(1) [unfolded bits(1)]]
    note wr = width_of_bits [OF pq(2) [unfolded bits(2)]]
    note ij = slice_val_Concat [OF x(2) [unfolded bits(3)]]
    have r: "uint32 (int w') = int w'" using wr by simp
    have inx: "i < int w + int w'" using x(2) bits(3) by (auto simp: slice_val_iff)
    show ?thesis
    proof (cases "int w' \<le> j")
      case up: True
      show ?thesis
      proof (cases "hasSideEffects right")
        case True
        with Binary.prems up wr r \<open>b = Concat\<close> j show ?thesis
          by (auto simp: Let_def elim!: bind_comp_OkE split: if_split_asm comp.split_asm)
      next
        case False
        let ?h = "inf_constant (i - int w')" and ?l = "inf_constant (j - int w')"
        have "evals \<rho> (Slice t left ?h ?l) v"
          using pq(1) ij(1) [OF up] x(3) wl inx unfolding bits(1) by (intro evals_SliceI) auto
        moreover obtain d where "sr_slice_concat t left ?h ?l = Ok d st" "no_error d"
          using Binary.prems up wr wl r \<open>b = Concat\<close> False i j x(4,5) inx
          by (auto simp: Let_def elim!: bind_comp_OkE split: if_split_asm comp.split_asm)
        ultimately show ?thesis using Binary.IH(1) by blast
      qed
    next
      case low: False
      show ?thesis
      proof (cases "i < int w'")
        case True
        have s: "evals \<rho> (Slice t right e1 e2) v"
          using pq(2) ij(2) [OF True] unfolding bits(2) by (rule keep)
        show ?thesis
        proof (cases "hasSideEffects left")
          case se: True
          with Binary.prems low True wr r \<open>b = Concat\<close> i j show ?thesis
            by (auto simp: Let_def elim!: bind_comp_OkE split: if_split_asm comp.split_asm)
        next
          case se: False
          obtain d where "sr_slice_concat t right e1 e2 = Ok d st" "no_error d"
            using Binary.prems low True wr r \<open>b = Concat\<close> se i j
            by (auto simp: Let_def elim!: bind_comp_OkE split: if_split_asm comp.split_asm)
          then show ?thesis using Binary.IH(2) s by blast
        qed
      next
        case both: False
        with low have *: "j < int w'" "int w' \<le> i" by auto
        note c = ij(3) [OF *, of s']
        have "st = Done (Binary Concat t (Slice_mk left (i - int w') 0) (Slice_mk right (int w' - 1) j))"
          using Binary.prems low both wr r \<open>b = Concat\<close> i j
          by (auto simp: Let_def elim!: bind_comp_OkE split: if_split_asm comp.split_asm)
        moreover have "evals \<rho> (Slice_mk left (i - int w') 0) (BitsV (nat (i - int w' + 1)) False (bits_of a 0 (nat (i - int w' + 1))))"
          using pq(1) c wl inx * unfolding Slice_mk_def bits(1) by (intro evals_SliceI) auto
        moreover have "evals \<rho> (Slice_mk right (int w' - 1) j) (BitsV (nat (int w' - j)) False (bits_of c (nat j) (nat (int w' - j))))"
          using pq(2) c wr x(4) * unfolding Slice_mk_def bits(2) by (intro evals_SliceI) auto
        ultimately show ?thesis using c x(3) by (auto simp: evals_Concat simp del: concat_val.simps)
      qed
    qed
  qed
qed auto

text \<open>Shifts.  A slice that straddles the bits shifted in by a left shift becomes a concatenation
  whose left operand keeps the type of the whole slice: its value is right, its recorded type is
  not.\<close>

definition straddles :: "expr \<Rightarrow> expr \<Rightarrow> expr \<Rightarrow> bool" where
  "straddles e0 e1 e2 =
     (case (to_Binary Shl e0, to_Constant e1, to_Constant e2) of
        (Some (t, x, k), Some (ht, h, hb), Some (lt, l, lb)) \<Rightarrow>
          (case to_Constant k of Some (kt, n, kb) \<Rightarrow> l < n \<and> n \<le> h | None \<Rightarrow> False)
      | _ \<Rightarrow> False)"

lemma slice_index_Constant:
  "slice_index e = Ok d i \<Longrightarrow> no_error d \<Longrightarrow> \<exists>t b. e = Constant t i b"
  by (cases e rule: slice_index.cases) (auto dest: asUnsigned_exact)

lemma slice_shift_Some:
  assumes "slice_shift e0 = Ok d (Some (amt, x))" "no_error d"
  obtains b t kt n kb where "e0 = Binary b t x (Constant kt n kb)" "b \<in> {Shl, Shr}"
    "amt = (if b = Shr then n else - n)"
  using assms asInt_exact
  by (auto simp: slice_shift_def elim!: bind_comp_OkE split: expr.split_asm option.split_asm if_split_asm
      comp.split_asm)

lemma checked_int_OkD: "checked_int x = Ok d y \<Longrightarrow> y = x"
  by (auto simp: checked_int_def split: if_split_asm)

lemma sr_slice_shift_run:
  assumes st: "sr_slice_shift t e0 e1 e2 = Ok ds st" and s: "slice_shift e0 = Ok d1 (Some (amt, x))"
    and ty: "type_of x = Type_Bits w sg" "\<not> (sg \<and> to_Binary Shr e0 \<noteq> None)" and ne: "no_error ds"
  obtains hi lo d3 d4 d7 where "slice_index e1 = Ok d3 hi" "slice_index e2 = Ok d4 lo" "no_error d3" "no_error d4"
    "shifted_slice t e0 e1 e2 x w hi lo amt = Ok d7 st"
  using assms by (auto simp: sr_slice_shift_def elim!: bind_comp_OkE split: comp.split_asm)

lemma sr_slice_shift_evals:
  assumes st: "sr_slice_shift t e0 e1 e2 = Ok ds st" and ne: "no_error ds"
    and v: "evals \<rho> (Slice t e0 e1 e2) v" and wf: "wf_env \<rho>"
  shows "case st of
      Done e \<Rightarrow> eval \<rho> e = Some v \<and> (\<not> straddles e0 e1 e2 \<longrightarrow> evals \<rho> e v)
    | Go a b c \<Rightarrow> evals \<rho> (Slice t a b c) v"
proof -
  have orig: "eval \<rho> (Slice t e0 e1 e2) = Some v" using v by (simp add: evals_def)
  from st obtain d1 s d2 where s: "slice_shift e0 = Ok d1 s" "ds = d1 @ d2"
    by (auto simp: sr_slice_shift_def elim!: bind_comp_OkE split: comp.split_asm)
  with ne have ne1: "no_error d1" by simp
  show ?thesis
  proof (cases s)
    case None
    with st s v show ?thesis by (auto simp: sr_slice_shift_def split: comp.split_asm)
  next
    case (Some p)
    then obtain amt x where p: "s = Some (amt, x)" by (cases p) auto
    from slice_shift_Some [OF s(1) [unfolded p] ne1] obtain b t0 kt n kb where
      e0: "e0 = Binary b t0 x (Constant kt n kb)" "b \<in> {Shl, Shr}" "amt = (if b = Shr then n else - n)" by metis
    from v obtain y i j where y: "evals \<rho> e0 y" "slice_val y i j = Some v" "has_type v t" "0 \<le> j" "j \<le> i"
      and i: "\<And>d k. slice_index e1 = Ok d k \<Longrightarrow> no_error d \<Longrightarrow> k = i"
      and j: "\<And>d k. slice_index e2 = Ok d k \<Longrightarrow> no_error d \<Longrightarrow> k = j"
      by (rule evals_SliceE) blast
    from y(1) e0(2) obtain z k m where z: "evals \<rho> x z" "evals \<rho> (Constant kt n kb) k" "shift_amount k = Some m"
      "shift_val b z m = Some y" unfolding e0(1) by (auto simp: evals_shift)
    have m: "0 \<le> n" "m = nat n" using z(2,3) evals_ConstantD [of \<rho> kt n kb] by (cases k; force split: if_split_asm)+
    show ?thesis
    proof (cases "\<exists>w sg. type_of x = Type_Bits w sg \<and> \<not> (sg \<and> b = Shr)")
      case False
      then have "st = Done (Slice t e0 e1 e2)" using st s p e0
        by (auto simp: sr_slice_shift_def split: comp.split_asm option.split_asm)
      with v orig show ?thesis by simp
    next
      case True
      then obtain w sg where tx: "type_of x = Type_Bits w sg" "\<not> (sg \<and> b = Shr)" by blast
      with z(4) evals_type [OF z(1)] obtain a where a: "z = BitsV (nat w) sg a" "0 \<le> w" "w \<le> 2147483647"
        by (cases z; cases b) auto
      have "\<not> (sg \<and> to_Binary Shr e0 \<noteq> None)" using tx(2) e0 by auto
      from sr_slice_shift_run [OF st s(1) [unfolded p] tx(1) this ne] i j obtain d3 d4 d7 where
        run: "slice_index e1 = Ok d3 i" "slice_index e2 = Ok d4 j"
        "shifted_slice t e0 e1 e2 x w i j amt = Ok d7 st" "no_error d3" "no_error d4"
        by metis
      note run(3) [unfolded shifted_slice_def]
      note run = run(1,2) this run(4,5)
      from e0(2) consider "b = Shr" | "b = Shl" by auto
      then show ?thesis
      proof cases
        case 1
        then have sg: "sg = False" and amt: "amt = n" using tx e0 by auto
        have yv: "y = BitsV (nat w) False (a div 2 ^ nat n)" using z(4) 1 a sg m by simp
        show ?thesis
        proof (cases "i + n < w")
          case True
          with slice_val_Shr [OF y(2) [unfolded yv]] a m have "slice_val z (i + n) (j + n) = Some v"
            by (simp add: sg)
          with True run(3) y m amt z(1) a(3) show ?thesis by (auto intro!: evals_SliceI [OF z(1)])
        next
          case False
          with run(3) y m amt v show ?thesis by auto
        qed
      next
        case 2
        then have amt: "amt = - n" using e0 by auto
        have yv: "y = BitsV (nat w) sg (norm (nat w) sg (a * 2 ^ nat n))" using z(4) 2 a m by simp
        have iw: "i < w" using y(2) a(2) unfolding yv by (auto simp: slice_val_iff)
        have vw: "v = BitsV (nat (i - j + 1)) False (bits_of (norm (nat w) sg (a * 2 ^ nat n)) (nat j) (nat (i - j + 1)))"
          using y(2) unfolding yv by (auto simp: slice_val_iff)
        consider "n \<le> j" | "i < n" | "j < n" "n \<le> i" by linarith
        then show ?thesis
        proof cases
          case 1
          with slice_val_Shl [OF y(2) [unfolded yv]] a m have "slice_val z (i - n) (j - n) = Some v" by simp
          with 1 run(3) y m amt z(1) iw a(3) show ?thesis by (auto intro!: evals_SliceI [OF z(1)])
        next
          case c: 2
          with slice_val_Shl_zero [OF y(2) [unfolded yv]] m have vz: "v = BitsV (nat (i - j + 1)) False 0" by simp
          have ty: "Type_Bits (i - j + 1) False = Type_Bits (int (nat (i - j + 1))) False"
            "int (nat (i - j + 1)) \<le> 2147483647" using y iw a by auto
          show ?thesis
          proof (cases "hasSideEffects x")
            case True
            with c run(3) y(4,5) m amt have "st = Done (Slice t e0 e1 e2)" by auto
            with v orig show ?thesis by simp
          next
            case False
            with c run(3) y(4,5) m amt obtain d e where e: "mk_constant (Type_Bits (i - j + 1) False) 0 10 False = Ok d e"
              "st = Done e" by (auto elim!: bind_comp_OkE split: comp.split_asm)
            from evals_constant_bits [OF e(1) [unfolded ty(1)] ty(2), of \<rho>] have "evals \<rho> e v"
              by (simp add: vz norm_def)
            with e(2) show ?thesis by (simp add: evals_def)
          qed
        next
          case c: 3
          then have c': "j < int (nat n)" "int (nat n) \<le> i" using m by auto
          note part = slice_val_Shl_part [OF y(2) [unfolded yv] c']
          have n: "int (nat n) = n" using m by simp
          from c run(3) y(4,5) m amt obtain d e where e: "mk_constant (Type_Bits (n - j) False) 0 10 False = Ok d e"
            "st = Done (Binary Concat t (Slice t x (inf_constant (i - n)) (inf_constant 0)) e)"
            by (auto elim!: bind_comp_OkE split: comp.split_asm)
          have ty: "Type_Bits (n - j) False = Type_Bits (int (nat (n - j))) False"
            "int (nat (n - j)) \<le> 2147483647" using c y iw a by auto
          from evals_constant_bits [OF e(1) [unfolded ty(1)] ty(2), of \<rho>]
          have ee: "eval \<rho> e = Some (BitsV (nat (n - j)) False 0)" by (simp add: norm_def evals_def)
          have ex: "eval \<rho> x = Some z" using z(1) by (simp add: evals_def)
          have "straddles e0 e1 e2"
            using slice_index_Constant [OF run(1,4)] slice_index_Constant [OF run(2,5)] c e0 2
            by (auto simp: straddles_def)
          with e ee ex part show ?thesis unfolding n
            by (auto simp: a binop_val_def eval_Binary_strict simp del: concat_val.simps)
        qed
      qed
    qed
  qed
qed

text \<open>Casts, slices of slices, slices of everything.\<close>

lemma slice_val_cast:
  assumes "cast_val ct (BitsV w s a) = Some y" "slice_val y i j = Some v" "i < int w"
  shows "slice_val (BitsV w s a) i j = Some v"
  using assms by (cases ct) (auto simp: slice_val_iff bits_of_norm split: if_split_asm)

lemma sr_slice_cast_evals:
  assumes "sr_slice_cast e0 e1 = Ok ds e0'" "no_error ds" "evals \<rho> (Slice t e0 e1 e2) v"
  shows "evals \<rho> (Slice t e0' e1 e2) v"
  using assms
proof (induction e0 arbitrary: ds)
  case (Cast ct x)
  show ?case
  proof (cases "e0' = Cast ct x")
    case False
    with Cast.prems(1,2) obtain w s d1 h d2 where *: "type_of x = Type_Bits w s" "slice_index e1 = Ok d1 h" "h < w"
      "sr_slice_cast x e1 = Ok d2 e0'" "no_error d1" "no_error d2"
      by (auto elim!: bind_comp_OkE split: option.split_asm if_split_asm comp.split_asm)
    from Cast.prems(3) obtain y i j where y: "evals \<rho> (Cast ct x) y" "slice_val y i j = Some v"
      and i: "\<And>d k. slice_index e1 = Ok d k \<Longrightarrow> no_error d \<Longrightarrow> k = i"
      and keep: "\<And>e' x'. evals \<rho> e' x' \<Longrightarrow> slice_val x' i j = Some v \<Longrightarrow> evals \<rho> (Slice t e' e1 e2) v"
      by (rule evals_SliceE) blast
    from y(1) obtain z where z: "evals \<rho> x z" "cast_val ct z = Some y" by (auto simp: evals_Cast)
    have "i < w" using i [OF *(2,5)] *(3) by simp
    have "slice_val z i j = Some v"
    proof (cases "\<exists>a. z = BitsV (nat w) s a")
      case True
      then obtain a where a: "z = BitsV (nat w) s a" by blast
      with evals_type [OF z(1)] *(1) have "int (nat w) = w" by simp
      with \<open>i < w\<close> slice_val_cast [OF z(2) [unfolded a] y(2)] a show ?thesis by simp
    next
      case False
      with evals_type [OF z(1)] *(1) z(2) y(2) show ?thesis
        by (cases z; cases ct) (auto simp: slice_val_iff split: if_split_asm)
    qed
    from keep [OF z(1) this] Cast.IH [OF *(4,6)] show ?thesis by blast
  qed (use Cast.prems in simp)
qed auto

lemma slice_val_slice:
  assumes "slice_val x h l = Some y" "slice_val y i j = Some v"
  shows "slice_val x (i + l) (j + l) = Some v" "i + l \<le> h"
proof -
  from assms(1) obtain a where a: "0 \<le> l" "l \<le> h" "(\<exists>w s. x = BitsV w s a \<and> h < int w) \<or> x = InfV a"
    "y = BitsV (nat (h - l + 1)) False (bits_of a (nat l) (nat (h - l + 1)))" by (auto simp: slice_val_iff)
  from assms(2) a have b: "0 \<le> j" "j \<le> i" "i < h - l + 1"
    "v = BitsV (nat (i - j + 1)) False (bits_of (bits_of a (nat l) (nat (h - l + 1))) (nat j) (nat (i - j + 1)))"
    by (auto simp: slice_val_iff)
  then show "i + l \<le> h" by simp
  have "bits_of (bits_of a (nat l) (nat (h - l + 1))) (nat j) (nat (i - j + 1)) = bits_of a (nat l + nat j) (nat (i - j + 1))"
    using a b by (intro bits_of_bits_of) auto
  with a b show "slice_val x (i + l) (j + l) = Some v"
    by (auto simp: slice_val_iff nat_add_distrib add.commute)
qed

lemma sr_slice_slice_evals:
  assumes st: "sr_slice_slice e0 e1 e2 = Ok ds (a, b, c)" and ne: "no_error ds" and v: "evals \<rho> (Slice t e0 e1 e2) v"
  shows "evals \<rho> (Slice t a b c) v"
proof (cases "(a, b, c) = (e0, e1, e2)")
  case False
  with st obtain tt x h l where e0: "e0 = Slice tt x h l" by (auto simp: sr_slice_slice_def split: expr.split_asm)
  from v obtain y i j where y: "evals \<rho> e0 y" "slice_val y i j = Some v" "has_type v t" "0 \<le> j" "j \<le> i"
      and i: "\<And>d k. slice_index e1 = Ok d k \<Longrightarrow> no_error d \<Longrightarrow> k = i"
      and j: "\<And>d k. slice_index e2 = Ok d k \<Longrightarrow> no_error d \<Longrightarrow> k = j"
      and keep: "\<And>e' x'. evals \<rho> e' x' \<Longrightarrow> slice_val x' i j = Some v \<Longrightarrow> evals \<rho> (Slice t e' e1 e2) v"
      by (rule evals_SliceE) blast
  from y(1) [unfolded e0] obtain z h' l' where z: "evals \<rho> x z" "slice_val z h' l' = Some y" "h' \<le> 4294967295" "0 \<le> l'"
      and l: "\<And>d k. slice_index l = Ok d k \<Longrightarrow> no_error d \<Longrightarrow> k = l'"
      by (rule evals_SliceE) blast
  note s = slice_val_slice [OF z(2) y(2)]
  from st ne e0 l obtain d where d: "slice_index l = Ok d l'" "no_error d"
    by (auto simp: sr_slice_slice_def elim!: bind_comp_OkE split: comp.split_asm if_split_asm)
  show ?thesis
  proof (cases "l' = 0")
    case True
    with st e0 d have "(a, b, c) = (x, e1, e2)" by (simp add: sr_slice_slice_def)
    with keep [OF z(1)] s(1) True show ?thesis by simp
  next
    case False
    with st ne e0 d i j have "a = x" "b = inf_constant (uint32 (i + l'))" "c = inf_constant (uint32 (j + l'))"
      by (auto simp: sr_slice_slice_def elim!: bind_comp_OkE split: comp.split_asm)
    with evals_SliceI [OF z(1) s(1) y(3)] s(2) z(3,4) y(4,5) show ?thesis by simp
  qed
qed (use v in simp)

lemma sr_slice_full_evals:
  assumes st: "sr_slice_full t e0 e1 e2 = Ok ds e'" and ne: "no_error ds" and v: "evals \<rho> (Slice t e0 e1 e2) v"
    and wf: "wf_env \<rho>"
  shows "evals \<rho> e' v"
proof (cases "e' = Slice t e0 e1 e2")
  case False
  from v obtain y i j where y: "evals \<rho> e0 y" "slice_val y i j = Some v" "has_type v t" "0 \<le> j" "j \<le> i" "i \<le> 4294967295"
      and i: "\<And>d k. slice_index e1 = Ok d k \<Longrightarrow> no_error d \<Longrightarrow> k = i"
      and j: "\<And>d k. slice_index e2 = Ok d k \<Longrightarrow> no_error d \<Longrightarrow> k = j"
      by (rule evals_SliceE) blast
  from st ne i j False obtain w d where w: "width_bits (type_of e0) = Ok d w" "uint32 (i - j + 1) = uint32 w"
    "e' = (case to_Type_Bits (type_of e0) of Some (w', isSigned) \<Rightarrow> if isSigned then Cast t e0 else e0 | None \<Rightarrow> e0)"
    by (auto simp: sr_slice_full_def elim!: bind_comp_OkE split: comp.split_asm if_split_asm option.split_asm)
  show ?thesis
  proof (cases y)
    case (BitsV n s a)
    with evals_type [OF y(1)] w have ty: "type_of e0 = Type_Bits (int n) s" "w = int n" "int n \<le> 2147483647" by auto
    have "i < int n" using y(2) BitsV by (auto simp: slice_val_iff)
    with w(2) ty y(4,5) have ij: "i = int n - 1" "j = 0" by auto
    have vn: "v = BitsV n False (a mod 2 ^ n)" using y(2) ij unfolding BitsV by (auto simp: slice_val_iff bits_of_def)
    show ?thesis
    proof (cases s)
      case True
      with w(3) ty have "e' = Cast t e0" by simp
      moreover have "cast_val t y = Some v" using y(3) BitsV unfolding vn by (auto simp: norm_def)
      ultimately show ?thesis using y(1,3) by (auto simp: evals_Cast)
    next
      case False
      with evals_wf [OF wf y(1)] BitsV have "a mod 2 ^ n = a" by (simp add: in_range_def)
      with False w(3) ty vn BitsV y(1) show ?thesis by simp
    qed
  next
    case (InfV a)
    with evals_type [OF y(1)] w have "uint32 (i - j + 1) = 0" by (auto simp: uint32_def)
    moreover have "i - j + 1 \<le> 2147483647" using y(2,3,5) InfV by (auto simp: slice_val_iff)
    ultimately show ?thesis using y(4,5) by simp
  qed (use y(2) in \<open>auto simp: slice_val_iff\<close>)
qed (use v in simp)

lemma sr_Slice_evals:
  assumes st: "sr_Slice t e0 e1 e2 = Ok ds e'" and ne: "no_error ds" and v: "evals \<rho> (Slice t e0 e1 e2) v"
    and wf: "wf_env \<rho>"
  shows "eval \<rho> e' = Some v" "\<not> straddles e0 e1 e2 \<Longrightarrow> evals \<rho> e' v"
proof -
  from st obtain s1 d1 d2 where s1: "sr_slice_shift t e0 e1 e2 = Ok d1 s1" "ds = d1 @ d2"
    "(case s1 of Done e \<Rightarrow> ret e
       | Go e0 e1 e2 \<Rightarrow>
         bind_comp (sr_slice_concat t e0 e1 e2) (\<lambda>s2.
           case s2 of Done e \<Rightarrow> ret e
           | Go e0 e1 e2 \<Rightarrow>
             bind_comp (sr_slice_cast e0 e1) (\<lambda>e0.
             bind_comp (sr_slice_slice e0 e1 e2) (\<lambda>(e0, e1, e2). sr_slice_full t e0 e1 e2)))) = Ok d2 e'"
    unfolding sr_Slice_def by (rule bind_comp_OkE) blast
  note shift = sr_slice_shift_evals [OF s1(1) _ v wf]
  have "eval \<rho> e' = Some v \<and> (\<not> straddles e0 e1 e2 \<longrightarrow> evals \<rho> e' v)"
  proof (cases s1)
    case (Done e)
    with shift s1 ne show ?thesis by auto
  next
    case (Go a b c)
    with shift s1(2) ne have g: "evals \<rho> (Slice t a b c) v" by simp
    from s1(3) Go obtain s2 d3 d4 where s2: "sr_slice_concat t a b c = Ok d3 s2" "d2 = d3 @ d4"
      "(case s2 of Done e \<Rightarrow> ret e
           | Go e0 e1 e2 \<Rightarrow>
             bind_comp (sr_slice_cast e0 e1) (\<lambda>e0.
             bind_comp (sr_slice_slice e0 e1 e2) (\<lambda>(e0, e1, e2). sr_slice_full t e0 e1 e2))) = Ok d4 e'"
      by (auto elim: bind_comp_OkE)
    note concat = sr_slice_concat_evals [OF s2(1) _ g]
    have "evals \<rho> e' v"
    proof (cases s2)
      case (Done e)
      with concat s1(2) s2 ne show ?thesis by auto
    next
      case (Go p q r)
      with concat s1(2) s2(2) ne have g: "evals \<rho> (Slice t p q r) v" by simp
      from s2(3) Go obtain d5 p1 d6 a b c d7 where s: "sr_slice_cast p q = Ok d5 p1"
        "sr_slice_slice p1 q r = Ok d6 (a, b, c)" "sr_slice_full t a b c = Ok d7 e'" "d4 = d5 @ d6 @ d7"
        by (auto elim!: bind_comp_OkE split: comp.split_asm)
      have n: "no_error d5" "no_error d6" "no_error d7" using ne s1(2) s2(2) s(4) by auto
      from sr_slice_full_evals [OF s(3) n(3) sr_slice_slice_evals [OF s(2) n(2) sr_slice_cast_evals [OF s(1) n(1) g]] wf]
      show ?thesis .
    qed
    then show ?thesis by (simp add: evals_def)
  qed
  then show "eval \<rho> e' = Some v" "\<not> straddles e0 e1 e2 \<Longrightarrow> evals \<rho> e' v" by auto
qed

end
