(* ===== verification/StrengthRed_Pass.thy ===== *)
theory StrengthRed_Pass
  imports StrengthRed_Slice
begin

text \<open>
  The whole strength-reduction pass: the children are visited first, then the node is rewritten.
  Visiting the children keeps the value of the node, and so does each rewriting.
\<close>

section \<open>The pass on a node whose children are done\<close>

definition exact_node :: "expr \<Rightarrow> bool" where
  "exact_node e =
     (case e of
        Slice t e0 e1 e2 \<Rightarrow> \<not> straddles e0 e1 e2
      | PlusSlice t e0 e1 e2 \<Rightarrow>
          (case (to_Constant e1, to_Constant e2) of
             (Some (t1, v1, b1), Some (t2, v2, b2)) \<Rightarrow>
               \<not> straddles e0 (inf_constant (v1 + v2 - 1)) (inf_constant v1)
           | _ \<Rightarrow> to_Binary Shr e0 = None \<and> to_Binary Shl e0 = None)
      | _ \<Rightarrow> sign_kept e)"

lemma exact_node_simps [simp]:
  "exact_node (Slice t e0 e1 e2) = (\<not> straddles e0 e1 e2)"
  "exact_node (PlusSlice t e0 e1 e2) =
     (case (to_Constant e1, to_Constant e2) of
        (Some (t1, v1, b1), Some (t2, v2, b2)) \<Rightarrow>
          \<not> straddles e0 (inf_constant (v1 + v2 - 1)) (inf_constant v1)
      | _ \<Rightarrow> to_Binary Shr e0 = None \<and> to_Binary Shl e0 = None)"
  "exact_node (Binary b t l r) = sign_kept (Binary b t l r)"
  by (simp_all add: exact_node_def)

lemma sr_PlusSlice_evals:
  assumes st: "sr_PlusSlice t e0 e1 e2 = Ok ds e'" and ne: "no_error ds"
    and v: "evals \<rho> (PlusSlice t e0 e1 e2) v" and wf: "wf_env \<rho>" and x: "exact_node (PlusSlice t e0 e1 e2)"
  shows "evals \<rho> e' v"
proof (cases "to_Constant e1 \<noteq> None \<and> to_Constant e2 \<noteq> None")
  case False
  with x have "to_Binary Shr e0 = None" "to_Binary Shl e0 = None" by (auto split: option.split_asm)
  with False st have "e' = PlusSlice t e0 e1 e2"
    by (auto simp: sr_PlusSlice_def plus_slice_shift_def split: option.split_asm)
  with v show ?thesis by simp
next
  case True
  then obtain t1 v1 b1 t2 v2 b2 where c: "e1 = Constant t1 v1 b1" "e2 = Constant t2 v2 b2" by auto
  from v obtain a y i z j where a: "evals \<rho> e0 a" "evals \<rho> e1 y" "index_val y = Some i" "evals \<rho> e2 z"
    "index_val z = Some j" "slice_val a (i + j - 1) i = Some v" "has_type v t" "i + j - 1 \<le> 4294967295"
    by (auto simp: evals_PlusSlice)
  have ij: "i = v1" "j = v2" using a(2-5) c evals_ConstantD by (cases y; cases z; auto)+
  have le: "0 \<le> i" "0 \<le> i + j - 1" using a(6) by (auto simp: slice_val_iff)
  from st c ne obtain l w d1 d2 d where lw: "asUnsigned v1 = Ok d1 l" "no_error d1" "asUnsigned v2 = Ok d2 w" "no_error d2"
    and d: "sr_Slice (Type_Bits (uint32 (l + w - 1) - l + 1) False) e0
      (inf_constant (uint32 (l + w - 1))) (inf_constant l) = Ok d e'" "no_error d"
    by (auto simp: sr_PlusSlice_def elim!: bind_comp_OkE split: comp.split_asm)
  have "l = i" "w = j" "uint32 (i + j - 1) = i + j - 1"
    using asUnsigned_exact [OF lw(1,2)] asUnsigned_exact [OF lw(3,4)] ij le a(8) by auto
  note d = d [unfolded this]
  have "t = Type_Bits ((i + j - 1) - i + 1) False" using a(6,7) by (auto simp: slice_val_iff)
  with evals_SliceI [OF a(1,6,7,8)] sr_Slice_evals(2) [OF d] wf x c ij show ?thesis by simp
qed

lemma sr_Unary_evals:
  assumes "sr_postorder en (Unary u t x) = Ok ds e'" "evals \<rho> (Unary u t x) v" "wf_env \<rho>"
  shows "evals \<rho> e' v"
  using assms by (cases u) (auto simp: sr_postorder_def intro: sr_Cmpl_evals sr_UPlus_evals sr_LNot_evals)

lemma sr_Binary_evals:
  assumes "sr_postorder en (Binary b t l r) = Ok ds e'" "evals \<rho> (Binary b t l r) v" "wf_env \<rho>"
    "exact_node (Binary b t l r)"
  shows "evals \<rho> e' v"
proof -
  note rules = sr_BAnd_evals sr_BOr_evals sr_BXor_evals sr_LAnd_evals sr_LOr_evals sr_Equ_evals sr_Neq_evals
    sr_Sub_evals sr_Add_evals sr_Mul_evals sr_Div_evals sr_Mod_evals sr_Concat_evals
  have shift: "b \<in> {Shl, Shr} \<Longrightarrow> sr_postorder en (Binary b t l r) = sr_shift b t l r"
    by (auto simp: sr_postorder_def)
  show ?thesis
  proof (cases "b \<in> {Shl, Shr}")
    case True
    with assms shift show ?thesis by (metis sr_shift_evals)
  next
    case False
    with assms show ?thesis by (cases b) (auto simp: sr_postorder_def intro: rules)
  qed
qed

lemma sr_postorder_evals:
  assumes "sr_postorder en e = Ok ds e'" "no_error ds" "evals \<rho> e v" "wf_env \<rho>" "exact_node e"
  shows "evals \<rho> e' v"
proof (cases e)
  case (Unary u t x)
  with assms sr_Unary_evals show ?thesis by blast
next
  case (Binary b t l r)
  with assms sr_Binary_evals show ?thesis by blast
next
  case (Mux t c a b)
  with assms sr_Mux_evals show ?thesis by (auto simp: sr_postorder_def)
next
  case (ArrayIndex t l r)
  with assms sr_ArrayIndex_evals show ?thesis by (auto simp: sr_postorder_def no_error_def)
next
  case (Slice t e0 e1 e2)
  with assms sr_Slice_evals(2) show ?thesis by (auto simp: sr_postorder_def)
next
  case (PlusSlice t e0 e1 e2)
  with assms sr_PlusSlice_evals show ?thesis by (simp add: sr_postorder_def del: exact_node_simps)
next
  case (Range t l r)
  with assms(3) show ?thesis by (simp add: evals_def)
next
  case (Mask t l r)
  with assms(3) show ?thesis by (simp add: evals_def)
qed (use assms in \<open>auto simp: sr_postorder_def\<close>)

section \<open>Visiting the children\<close>

text \<open>What a visit may do to a child: keep its values; type names stay.\<close>

definition keeps :: "sem_env \<Rightarrow> expr \<Rightarrow> expr \<Rightarrow> bool" where
  "keeps \<rho> x c \<longleftrightarrow> (\<forall>u. evals \<rho> x u \<longrightarrow> evals \<rho> c u) \<and> (\<forall>t. x = TypeNameExpression t \<longrightarrow> c = x)"

lemma keepsD: "keeps \<rho> x c \<Longrightarrow> evals \<rho> x u \<Longrightarrow> evals \<rho> c u"
  by (simp add: keeps_def)

lemma list_all2_keeps: "list_all2 (keeps \<rho>) xs cs \<Longrightarrow> list_all2 (evals \<rho>) xs vs \<Longrightarrow> list_all2 (evals \<rho>) cs vs"
  unfolding list_all2_conv_all_nth by (metis keepsD)

lemma list_all2_evals: "all_some (map (eval \<rho>) es) = Some vs \<and> list_all (typed \<rho>) es \<longleftrightarrow> list_all2 (evals \<rho>) es vs"
  by (auto simp: all_some_Some_iff list_all2_conv_all_nth list_all_length evals_def list_eq_iff_nth_eq)

lemma has_type_composite [simp]: "has_type (TupleV vs) t" "has_type (StructV fs) t" "has_type (EnumV n m) t"
  by (simp_all add: has_type_def)

lemma evals_lists:
  "evals \<rho> (ListExpression t es) v \<longleftrightarrow> (\<exists>vs. list_all2 (evals \<rho>) es vs \<and> v = TupleV vs)"
  "evals \<rho> (HeaderStackExpression t es) v \<longleftrightarrow> (\<exists>vs. list_all2 (evals \<rho>) es vs \<and> v = TupleV vs)"
  "evals \<rho> (StructExpression t fs) v \<longleftrightarrow>
     (\<exists>vs. list_all2 (evals \<rho>) (map snd fs) vs \<and> v = StructV (zip (map fst fs) vs))"
  unfolding list_all2_evals [symmetric] by (auto simp: evals_iff comp_def)

lemma evals_call:
  "evals \<rho> (MethodCallExpression t m e as) v \<longleftrightarrow>
     (\<exists>x vs. evals \<rho> e x \<and> list_all2 (evals \<rho>) as vs \<and> call_val \<rho> m x vs = Some v \<and> has_type v t)"
  unfolding list_all2_evals [symmetric] by (subst evals_iff) (auto simp: evals_def bind_eq_Some_conv)

lemma evals_Member:
  "(\<And>t'. e \<noteq> TypeNameExpression t') \<Longrightarrow>
     evals \<rho> (Member t e m) v \<longleftrightarrow> (\<exists>x. evals \<rho> e x \<and> field_val m x = Some v \<and> has_type v t)"
  by (subst evals_iff) (auto simp: evals_def eval_Member_field bind_eq_Some_conv)

lemma evals_not_TypeName: "evals \<rho> c u \<Longrightarrow> c \<noteq> TypeNameExpression t"
  by (auto simp: evals_def)

lemma evals_arith_keeps:
  assumes v: "evals \<rho> (Binary b t l r) v" and b: "arithmetic b" and wf: "wf_env \<rho>"
    and k: "keeps \<rho> l l'" "keeps \<rho> r r'"
  shows "evals \<rho> (Binary b t l' r') v"
proof (cases rule: evals_arithE [OF v b wf])
  case (1 p q z)
  with b evals_arith_inf keepsD [OF k(1)] keepsD [OF k(2)] show ?thesis by metis
next
  case (2 w s p q z)
  with b evals_arith_bits keepsD [OF k(1)] keepsD [OF k(2)] show ?thesis by metis
qed

lemma evals_Binary_keeps:
  assumes v: "evals \<rho> (Binary b t l r) v" and wf: "wf_env \<rho>" and k: "keeps \<rho> l l'" "keeps \<rho> r r'"
  shows "evals \<rho> (Binary b t l' r') v"
proof -
  note kd = keepsD [OF k(1)] keepsD [OF k(2)]
  consider "arithmetic b" | "b = LAnd" | "b = LOr" | "\<not> arithmetic b" "b \<noteq> LAnd" "b \<noteq> LOr" by blast
  then show ?thesis
  proof cases
    case 1
    with evals_arith_keeps [OF v _ wf k] show ?thesis by simp
  next
    case 2
    with v kd show ?thesis by (auto simp: evals_LAnd)
  next
    case 3
    with v kd show ?thesis by (auto simp: evals_LOr)
  next
    case 4
    with v kd show ?thesis by (auto simp: evals_Binary; blast)
  qed
qed

lemma list_all2_3: "list_all2 P [a, b, c] cs \<Longrightarrow> \<exists>x y z. cs = [x, y, z] \<and> P a x \<and> P b y \<and> P c z"
  by (auto simp: list_all2_Cons1)

lemma with_children_keeps:
  assumes k: "list_all2 (keeps \<rho>) (children e) cs" and v: "evals \<rho> e v" and wf: "wf_env \<rho>"
  shows "evals \<rho> (with_children e cs) v"
proof (cases e)
  case (ListExpression t es)
  with assms list_all2_keeps show ?thesis by (force simp: evals_lists)
next
  case (HeaderStackExpression t es)
  with assms list_all2_keeps show ?thesis by (force simp: evals_lists)
next
  case (StructExpression t fs)
  with v obtain vs where v: "list_all2 (evals \<rho>) (children e) vs" "v = StructV (zip (map fst fs) vs)"
    by (auto simp: evals_lists)
  from list_all2_keeps [OF k v(1)] list_all2_lengthD [OF k] StructExpression v(2)
  have *: "list_all2 (evals \<rho>) cs vs" "v = StructV (zip (map fst fs) vs)" "length cs = length fs" by auto
  then have "map snd (zip (map fst fs) cs) = cs" "map fst (zip (map fst fs) cs) = map fst fs" by simp_all
  with * StructExpression show ?thesis by (auto simp: evals_lists)
next
  case (MethodCallExpression t m x as)
  with k v obtain x' as' u vs where "cs = x' # as'" "keeps \<rho> x x'" "list_all2 (keeps \<rho>) as as'"
      "evals \<rho> x u" "list_all2 (evals \<rho>) as vs" "call_val \<rho> m u vs = Some v" "has_type v t"
    by (auto simp: evals_call list_all2_Cons1)
  with MethodCallExpression show ?thesis
    by (auto simp: evals_call; blast dest: keepsD list_all2_keeps)
next
  case (Member t x m)
  with k obtain x' where x': "cs = [x']" "keeps \<rho> x x'" by (auto simp: list_all2_Cons1)
  show ?thesis
  proof (cases "\<exists>t'. x = TypeNameExpression t'")
    case True
    with x' Member v show ?thesis by (auto simp: keeps_def)
  next
    case False
    then have nt: "x \<noteq> TypeNameExpression t'" for t' by auto
    from v Member obtain u where u: "evals \<rho> x u" "field_val m u = Some v" "has_type v t"
      using evals_Member [OF nt] by auto
    from keepsD [OF x'(2) u(1)] evals_Member [OF evals_not_TypeName] u x'(1) Member show ?thesis by auto
  qed
next
  case (Unary u t x)
  with k v show ?thesis by (auto simp: evals_Unary list_all2_Cons1; blast dest: keepsD)
next
  case (Cast t x)
  with k v show ?thesis by (auto simp: evals_Cast list_all2_Cons1; blast dest: keepsD)
next
  case (Binary b t l r)
  with k v evals_Binary_keeps [OF _ wf] show ?thesis by (auto simp: list_all2_Cons1)
next
  case (ArrayIndex t l r)
  with k v show ?thesis by (auto simp: evals_ArrayIndex list_all2_Cons1; blast dest: keepsD)
next
  case (Mux t c a b)
  with list_all2_3 [of "keeps \<rho>" c a b cs] k obtain c' a' b' where "cs = [c', a', b']" "keeps \<rho> c c'"
    "keeps \<rho> a a'" "keeps \<rho> b b'" by auto
  with v Mux show ?thesis by (auto simp: evals_Mux dest: keepsD)
next
  case (Slice t x h l)
  with list_all2_3 [of "keeps \<rho>" x h l cs] k obtain c' a' b' where c: "cs = [c', a', b']" "keeps \<rho> x c'"
    "keeps \<rho> h a'" "keeps \<rho> l b'" by auto
  note kd = keepsD [OF c(2)] keepsD [OF c(3)] keepsD [OF c(4)]
  from v Slice c(1) show ?thesis by (auto simp: evals_Slice; blast dest: kd)
next
  case (PlusSlice t x h l)
  with list_all2_3 [of "keeps \<rho>" x h l cs] k obtain c' a' b' where c: "cs = [c', a', b']" "keeps \<rho> x c'"
    "keeps \<rho> h a'" "keeps \<rho> l b'" by auto
  note kd = keepsD [OF c(2)] keepsD [OF c(3)] keepsD [OF c(4)]
  from v PlusSlice c(1) show ?thesis by (auto simp: evals_PlusSlice; blast dest: kd)
qed (use v in \<open>auto simp: evals_def\<close>)

section \<open>The pass\<close>

text \<open>No node of the run is one of the shapes whose rewriting is not exact: a slice straddling a
  left shift, a slice with a start that is not constant over a shift, a concatenation that loses
  the sign of an empty operand.\<close>

function sr_exact :: "bool \<Rightarrow> expr \<Rightarrow> bool" where
  "sr_exact en e =
     (list_all (sr_exact en) (children e) \<and>
      (case visit_children (sr_expr en) e of Bug m \<Rightarrow> True | Ok ds e1 \<Rightarrow> exact_node e1))"
  by auto
termination by (relation "measure (\<lambda>(b, e). size e)") (auto simp: size_children)

declare sr_exact.simps [simp del]

lemma mapM_comp_Ok_diags:
  "mapM_comp f xs = Ok ds ys \<Longrightarrow> list_all2 (\<lambda>x y. \<exists>d. f x = Ok d y \<and> set d \<subseteq> set ds) xs ys"
proof (induction xs arbitrary: ds ys)
  case (Cons x xs)
  then obtain d1 y d2 zs where *: "f x = Ok d1 y" "mapM_comp f xs = Ok d2 zs" "ds = d1 @ d2" "ys = y # zs"
    by (auto elim!: bind_comp_OkE split: comp.split_asm)
  from Cons.IH [OF *(2)] have "list_all2 (\<lambda>x y. \<exists>d. f x = Ok d y \<and> set d \<subseteq> set ds) xs zs"
    by (rule list_all2_mono) (use *(3) in auto)
  with * show ?case by auto
qed simp

lemma no_error_mono: "no_error ds \<Longrightarrow> set d \<subseteq> set ds \<Longrightarrow> no_error d"
  by (auto simp: no_error_def)

lemma sr_expr_TypeName: "sr_expr en (TypeNameExpression t) = ret (TypeNameExpression t)"
  by (simp add: sr_expr.simps visit_children_def sr_postorder_def)

lemma sr_expr_evals:
  "sr_expr en e = Ok ds e' \<Longrightarrow> no_error ds \<Longrightarrow> sr_exact en e \<Longrightarrow> wf_env \<rho> \<Longrightarrow> evals \<rho> e v \<Longrightarrow> evals \<rho> e' v"
proof (induction e arbitrary: ds e' v rule: expr_children_induct)
  case (children e)
  from children.prems(1) obtain d1 cs d2 where run: "mapM_comp (sr_expr en) (children e) = Ok d1 cs"
    "sr_postorder en (with_children e cs) = Ok d2 e'" "ds = d1 @ d2"
    by (subst (asm) sr_expr.simps) (auto simp: visit_children_def elim!: bind_comp_OkE split: comp.split_asm)
  have ex: "list_all (sr_exact en) (children e)" "exact_node (with_children e cs)"
    using children.prems(3) run(1) by (subst (asm) sr_exact.simps, simp add: visit_children_def)+
  have "list_all2 (keeps \<rho>) (children e) cs"
  proof (rule list.rel_mono_strong [OF mapM_comp_Ok_diags [OF run(1)]])
    fix x c assume x: "x \<in> set (children e)" and "\<exists>d. sr_expr en x = Ok d c \<and> set d \<subseteq> set d1"
    then obtain d where d: "sr_expr en x = Ok d c" "no_error d"
      using children.prems(2) run(3) by (auto intro: no_error_mono)
    have "sr_exact en x" using ex(1) x by (auto simp: list_all_iff)
    with children.IH [OF x d _ children.prems(4)] d sr_expr_TypeName show "keeps \<rho> x c"
      by (auto simp: keeps_def)
  qed
  from with_children_keeps [OF this children.prems(5,4)]
  have "evals \<rho> (with_children e cs) v" .
  with sr_postorder_evals [OF run(2)] children.prems(2,4) run(3) ex(2) show ?case by simp
qed

section \<open>What the pass promises\<close>

text \<open>An environment with \<open>x :: bit<8>\<close>, \<open>y :: bit<8>\<close>, \<open>i :: bit<2>\<close>.\<close>

abbreviation b8 :: p4type where "b8 \<equiv> Type_Bits 8 False"

definition sr_env :: sem_env where
  "sr_env = \<lparr>var_val = (\<lambda>p. if p = ''x'' then Some (BitsV 8 False 77)
       else if p = ''y'' then Some (BitsV 8 False 5)
       else if p = ''i'' then Some (BitsV 2 False 3) else None), call_val = \<lambda>m v as. None\<rparr>"

lemma wf_sr_env: "wf_env sr_env"
  by (auto simp: wf_env_def sr_env_def in_range_def split: if_split_asm)

text \<open>C2: strength reduction preserves values. When the pass reports no error on an expression whose
  recorded types are those of its values, the reduced expression evaluates to the same value and
  its recorded types are again those of its values. The run has to avoid the shapes that
  \<open>sr_exact\<close> excludes.\<close>

theorem strength_reduction_sound:
  assumes "sr_expr enableSub e = Ok ds e'" "no_error ds" "sr_exact enableSub e"
    and "wf_env \<rho>" "typed \<rho> e" "eval \<rho> e = Some v"
  shows "eval \<rho> e' = Some v \<and> typed \<rho> e'"
  using sr_expr_evals [OF assms(1-4)] assms(5,6) by (simp add: evals_def)

definition sr_example :: expr where
  "sr_example = Slice (Type_Bits 6 False)
     (Binary Concat (Type_Bits 16 False)
       (Binary Mod b8 (PathExpression b8 ''x'') (Constant b8 8 10))
       (Binary Sub b8 (Binary Mul b8 (PathExpression b8 ''y'') (Constant b8 4 10)) (Constant b8 1 10)))
     (inf_constant 10) (inf_constant 5)"

definition sr_example' :: expr where
  "sr_example' = Binary Concat (Type_Bits 6 False)
     (Slice (Type_Bits 3 False) (Binary BAnd b8 (PathExpression b8 ''x'') (Constant b8 7 10)) (inf_constant 2) (inf_constant 0))
     (Slice (Type_Bits 3 False) (Binary Add b8 (Binary Shl b8 (PathExpression b8 ''y'') (inf_constant 2)) (Constant b8 255 10))
       (inf_constant 7) (inf_constant 5))"

theorem strength_reduction_sound_witness:
  "eval sr_env sr_example' = Some (BitsV 6 False 40) \<and> typed sr_env sr_example'"
proof (rule strength_reduction_sound [where enableSub = True and e = sr_example and ds = "[]"])
  show "sr_expr True sr_example = Ok [] sr_example'" by code_simp
  show "no_error []" by simp
  show "sr_exact True sr_example" by code_simp
  show "typed sr_env sr_example" by code_simp
  show "eval sr_env sr_example = Some (BitsV 6 False 40)" by code_simp
qed (rule wf_sr_env)

text \<open>the slice rewritings select the same bits, also where a slice straddles the zeros shifted
  in by a left shift.\<close>

theorem slice_reduction_sound:
  assumes "sr_Slice t e0 e1 e2 = Ok ds e'" "no_error ds"
    and "wf_env \<rho>" "typed \<rho> (Slice t e0 e1 e2)" "eval \<rho> (Slice t e0 e1 e2) = Some v"
  shows "eval \<rho> e' = Some v"
  using sr_Slice_evals(1) [OF assms(1,2) _ assms(3)] assms(4,5) by (simp add: evals_def)

theorem slice_reduction_sound_witness:
  "eval sr_env (Binary Concat (Type_Bits 6 False)
     (Slice (Type_Bits 6 False) (PathExpression b8 ''x'') (inf_constant 3) (inf_constant 0))
     (Constant (Type_Bits 2 False) 0 10)) = Some (BitsV 6 False 52)"
proof (rule slice_reduction_sound [of "Type_Bits 6 False"
      "Binary Shl b8 (PathExpression b8 ''x'') (inf_constant 3)" "inf_constant 6" "inf_constant 1" "[]"])
  show "sr_Slice (Type_Bits 6 False) (Binary Shl b8 (PathExpression b8 ''x'') (inf_constant 3)) (inf_constant 6) (inf_constant 1) =
     Ok [] (Binary Concat (Type_Bits 6 False)
     (Slice (Type_Bits 6 False) (PathExpression b8 ''x'') (inf_constant 3) (inf_constant 0))
     (Constant (Type_Bits 2 False) 0 10))" by code_simp
  show "no_error []" by simp
  show "typed sr_env (Slice (Type_Bits 6 False) (Binary Shl b8 (PathExpression b8 ''x'') (inf_constant 3))
     (inf_constant 6) (inf_constant 1))" by code_simp
  show "eval sr_env (Slice (Type_Bits 6 False) (Binary Shl b8 (PathExpression b8 ''x'') (inf_constant 3))
     (inf_constant 6) (inf_constant 1)) = Some (BitsV 6 False 52)" by code_simp
qed (rule wf_sr_env)

definition plus_slice_example :: expr where
  "plus_slice_example = PlusSlice (Type_Bits 1 False)
     (Binary Shr b8 (PathExpression b8 ''y'') (inf_constant 3))
     (PathExpression (Type_Bits 2 False) ''i'') (inf_constant 1)"

text \<open>The case excluded for slices with a start that is not constant is one where the pass
  changes the program: \<open>(x >> 3)[i +: 1]\<close> with \<open>i :: bit<2>\<close> is turned into \<open>x[i + 3 +: 1]\<close>, and the
  new start is computed in the type of \<open>i\<close>, where it wraps. At \<open>i = 3\<close> the pass reads bit 2 of \<open>x\<close>
  where the program reads bit 6.\<close>

theorem plus_slice_start_wraps:
  "eval sr_env plus_slice_example = Some (BitsV 1 False 0) \<and> typed sr_env plus_slice_example \<and>
   (case sr_expr enableSub plus_slice_example of
      Bug m \<Rightarrow> False
    | Ok ds e' \<Rightarrow> ds = [] \<and> eval sr_env e' = Some (BitsV 1 False 1))"
proof -
  have "sr_expr True plus_slice_example = Ok [] (PlusSlice (Type_Bits 1 False) (PathExpression b8 ''y'')
     (Binary Add Type_Unknown (PathExpression (Type_Bits 2 False) ''i'') (inf_constant 3)) (inf_constant 1))"
    "sr_expr False plus_slice_example = Ok [] (PlusSlice (Type_Bits 1 False) (PathExpression b8 ''y'')
     (Binary Add Type_Unknown (PathExpression (Type_Bits 2 False) ''i'') (inf_constant 3)) (inf_constant 1))"
    by code_simp+
  then have "sr_expr enableSub plus_slice_example = Ok [] (PlusSlice (Type_Bits 1 False) (PathExpression b8 ''y'')
     (Binary Add Type_Unknown (PathExpression (Type_Bits 2 False) ''i'') (inf_constant 3)) (inf_constant 1))"
    by (cases enableSub) simp_all
  moreover have "eval sr_env plus_slice_example = Some (BitsV 1 False 0)" "typed sr_env plus_slice_example"
    "eval sr_env (PlusSlice (Type_Bits 1 False) (PathExpression b8 ''y'')
     (Binary Add Type_Unknown (PathExpression (Type_Bits 2 False) ''i'') (inf_constant 3)) (inf_constant 1)) =
     Some (BitsV 1 False 1)" by code_simp+
  ultimately show ?thesis by simp
qed

end
