(* ===== verification/BitVec.thy ===== *)
theory BitVec
  imports BigInt
begin

text \<open>
  Growable bit vectors (lib/bitvec.h, lib/bitvec.cpp).  The state of a \<open>bitvec\<close> is its words, each
  of \<open>bits_per_unit\<close> = 64 bits, the lowest first.  A vector of one word keeps the word in place of
  the pointer (the union of \<open>data\<close> and \<open>ptr\<close>): that is the same list, so the two branches of the
  code that only differ in where the word is are one equation here.  Sizes and positions are
  natural numbers: the code's \<open>size_t\<close> does not wrap for vectors that fit in memory.
\<close>

type_synonym bvunit = "64 word"
type_synonym bitvec = "bvunit list"

abbreviation bits_per_unit :: nat where "bits_per_unit \<equiv> 64"

abbreviation bv_empty :: bitvec where "bv_empty \<equiv> [0]"

definition bv_word :: "bitvec \<Rightarrow> nat \<Rightarrow> bvunit" where
  "bv_word v i = (if i < length v then v ! i else 0)"

text \<open>The compiler's built-ins count_trailing_zeroes, count_leading_zeroes, popcount; the first two
  on words other than 0.\<close>

definition ctz :: "bvunit \<Rightarrow> nat" where "ctz w = lsb (unat w)"
definition clz :: "bvunit \<Rightarrow> nat" where "clz w = bits_per_unit - 1 - msb (unat w)"
definition word_popcount :: "bvunit \<Rightarrow> nat" where "word_popcount w = bitcount_loop (unat w) 0"

section \<open>Growing\<close>

text \<open>\<open>expand\<close> rounds the new size up to at most \<open>7 * 2^k\<close> words.\<close>

definition smear :: "int \<Rightarrow> int" where
  "smear m =
     (let m = m OR drop_bit 1 m;
          m = m OR drop_bit 2 m;
          m = m OR drop_bit 4 m;
          m = m OR drop_bit 8 m
      in m OR drop_bit 16 m)"

definition round_size :: "nat \<Rightarrow> nat" where
  "round_size newsize =
     (let m = drop_bit 3 (int newsize)
      in if m \<noteq> 0 then nat ((int newsize + smear m) AND NOT (smear m)) else newsize)"

definition expand :: "bitvec \<Rightarrow> nat \<Rightarrow> bitvec" where
  "expand v newsize = v @ replicate (round_size newsize - length v) 0"

text \<open>The guard \<open>if (needed > size * bits_per_unit) expand(...)\<close>.\<close>

definition reserve :: "bitvec \<Rightarrow> nat \<Rightarrow> nat \<Rightarrow> bitvec" where
  "reserve v bits newsize = (if bits > length v * bits_per_unit then expand v newsize else v)"

section \<open>Single bits\<close>

definition getbit :: "bitvec \<Rightarrow> nat \<Rightarrow> bool" where
  "getbit v idx = (drop_bit (idx mod bits_per_unit) (bv_word v (idx div bits_per_unit)) AND 1 \<noteq> 0)"

definition setbit :: "bitvec \<Rightarrow> nat \<Rightarrow> bitvec" where
  "setbit v idx =
     (let v = reserve v (idx + 1) (1 + idx div bits_per_unit);
          i = idx div bits_per_unit
      in v[i := v ! i OR push_bit (idx mod bits_per_unit) 1])"

definition clrbit :: "bitvec \<Rightarrow> nat \<Rightarrow> bitvec" where
  "clrbit v idx =
     (if idx \<ge> length v * bits_per_unit then v
      else let i = idx div bits_per_unit
           in v[i := v ! i AND NOT (push_bit (idx mod bits_per_unit) 1)])"

text \<open>\<open>nonconst_bitref::operator=\<close> and \<open>set\<close>: the new vector, and the old bit.\<close>

definition bitref_assign :: "bitvec \<Rightarrow> nat \<Rightarrow> bool \<Rightarrow> bitvec" where
  "bitref_assign v idx b = (if b then setbit v idx else clrbit v idx)"

definition bitref_set :: "bitvec \<Rightarrow> nat \<Rightarrow> bool \<Rightarrow> bool \<times> bitvec" where
  "bitref_set v idx b = (getbit v idx, if b then setbit v idx else clrbit v idx)"

definition bv_clear :: "bitvec \<Rightarrow> bitvec" where
  "bv_clear v = replicate (length v) 0"

section \<open>Ranges\<close>

text \<open>\<open>~(~1 << (sz - 1))\<close>: the lowest \<open>sz\<close> bits, for \<open>0 < sz \<le> 64\<close>.\<close>

definition low_mask :: "nat \<Rightarrow> bvunit" where
  "low_mask sz = NOT (push_bit (sz - 1) (NOT 1))"

text \<open>The loop \<open>while (++i < limit && i < size) ptr[i] = w\<close>, entered with \<open>i + 1\<close>.\<close>

function fill_words :: "bitvec \<Rightarrow> nat \<Rightarrow> nat \<Rightarrow> bvunit \<Rightarrow> bitvec" where
  "fill_words v i limit w =
     (if i < limit \<and> i < length v then fill_words (v[i := w]) (Suc i) limit w else v)"
  by auto
termination by (relation "measure (\<lambda>(v, i, limit, w). limit - i)") auto

declare fill_words.simps [simp del]

definition setrange :: "bitvec \<Rightarrow> nat \<Rightarrow> nat \<Rightarrow> bitvec" where
  "setrange v idx sz =
     (if sz = 0 then v
      else
        let v = reserve v (idx + sz) (1 + (idx + sz - 1) div bits_per_unit);
            i = idx div bits_per_unit
        in if i = (idx + sz - 1) div bits_per_unit then
             v[i := v ! i OR push_bit (idx mod bits_per_unit) (low_mask sz)]
           else
             let v = v[i := v ! i OR push_bit (idx mod bits_per_unit) (NOT 0)];
                 last = (idx + sz) div bits_per_unit;
                 v = fill_words v (Suc i) last (NOT 0)
             in if last < length v
                then v[last := v ! last OR (push_bit ((idx + sz) mod bits_per_unit) 1 - 1)]
                else v)"

definition clrrange :: "bitvec \<Rightarrow> nat \<Rightarrow> nat \<Rightarrow> bitvec" where
  "clrrange v idx sz =
     (if sz = 0 then v
      else
        let sz = (if length v < sz div bits_per_unit then length v * bits_per_unit else sz)
        in if idx \<ge> length v * bits_per_unit then v
           else if length v = 1 then
             (if idx + sz < bits_per_unit
              then [v ! 0 AND NOT (push_bit idx (low_mask sz))]
              else [v ! 0 AND NOT (push_bit idx (NOT 0))])
           else
             let i = idx div bits_per_unit
             in if i = (idx + sz - 1) div bits_per_unit then
                  v[i := v ! i AND NOT (push_bit (idx mod bits_per_unit) (low_mask sz))]
                else
                  let v = v[i := v ! i AND NOT (push_bit (idx mod bits_per_unit) (NOT 0))];
                      last = (idx + sz) div bits_per_unit;
                      v = fill_words v (Suc i) last 0
                  in if last < length v
                     then v[last := v ! last AND NOT (push_bit ((idx + sz) mod bits_per_unit) 1 - 1)]
                     else v)"

text \<open>\<open>getrange\<close> and \<open>putrange\<close> move up to 64 bits (\<open>uintmax_t\<close>): at most two words, so the loops
  run at most once.\<close>

definition getrange :: "bitvec \<Rightarrow> nat \<Rightarrow> nat \<Rightarrow> bvunit" where
  "getrange v idx sz =
     (if idx \<ge> length v * bits_per_unit then 0
      else
        let shift = idx mod bits_per_unit;
            i = idx div bits_per_unit;
            rv = drop_bit shift (v ! i);
            rv = (if bits_per_unit - shift < sz \<and> Suc i < length v
                  then rv OR push_bit (bits_per_unit - shift) (v ! Suc i) else rv)
        in rv AND low_mask sz)"

definition putrange :: "bitvec \<Rightarrow> nat \<Rightarrow> nat \<Rightarrow> bvunit \<Rightarrow> bitvec" where
  "putrange v idx sz val =
     (let mask = drop_bit (bits_per_unit - sz) (NOT 0);
          val = val AND mask;
          v = reserve v (idx + sz) (1 + (idx + sz - 1) div bits_per_unit);
          shift = idx mod bits_per_unit;
          i = idx div bits_per_unit;
          v = v[i := (v ! i AND NOT (push_bit shift mask)) OR push_bit shift val]
      in if bits_per_unit - shift < sz
         then v[Suc i := (v ! Suc i AND NOT (drop_bit (bits_per_unit - shift) mask))
                           OR drop_bit (bits_per_unit - shift) val]
         else v)"

text \<open>
  \<open>getslice\<close>.  A slice of more than one word is copied word by word into a vector that \<open>expand\<close>
  has sized: iteration \<open>i\<close> completes the word \<open>i - 1\<close> and starts the word \<open>i\<close>.  The loop runs over
  the size of the result, which \<open>expand\<close> may have rounded up beyond the words of the source:
  such a read is outside the array, \<open>None\<close>.
\<close>

fun slice_loop :: "bitvec \<Rightarrow> nat \<Rightarrow> nat \<Rightarrow> nat \<Rightarrow> nat \<Rightarrow> bitvec \<Rightarrow> bitvec option" where
  "slice_loop v idx shift i 0 rv = Some rv"
| "slice_loop v idx shift i (Suc n) rv =
     (if idx + i \<ge> length v then None
      else
        let rv = (if shift \<noteq> 0 \<and> i \<noteq> 0
                  then rv[i - 1 := rv ! (i - 1) OR push_bit (bits_per_unit - shift) (v ! (idx + i))] else rv)
        in slice_loop v idx shift (Suc i) n (rv[i := drop_bit shift (v ! (idx + i))]))"

definition getslice :: "bitvec \<Rightarrow> nat \<Rightarrow> nat \<Rightarrow> bitvec option" where
  "getslice v idx sz =
     (if sz = 0 then Some bv_empty
      else if idx \<ge> length v * bits_per_unit then Some bv_empty
      else
        let sz = (if idx + sz > length v * bits_per_unit then length v * bits_per_unit - idx else sz)
        in if length v > 1 then
             let shift = idx mod bits_per_unit;
                 i = idx div bits_per_unit
             in if sz > bits_per_unit then
                  let rv = expand bv_empty ((sz - 1) div bits_per_unit + 1)
                  in map_option (\<lambda>rv.
                       if sz mod bits_per_unit \<noteq> 0
                       then rv[length rv - 1 := rv ! (length rv - 1) AND low_mask (sz mod bits_per_unit)]
                       else rv) (slice_loop v i shift 0 (length rv) rv)
                else
                  let d = drop_bit shift (v ! i);
                      d = (if shift \<noteq> 0 \<and> Suc i < length v
                           then d OR push_bit (bits_per_unit - shift) (v ! Suc i) else d)
                  in Some [d AND low_mask sz]
           else Some [drop_bit idx (v ! 0) AND low_mask sz])"

section \<open>Searching\<close>

text \<open>\<open>ffs\<close>: the first set bit from \<open>start\<close> on, -1 for none.\<close>

function ffs_loop :: "bitvec \<Rightarrow> nat \<Rightarrow> bvunit \<Rightarrow> int" where
  "ffs_loop v idx val =
     (if idx < length v then
        let val = val AND bv_word v idx
        in if val = 0 then ffs_loop v (Suc idx) (NOT 0)
           else int (idx * bits_per_unit + ctz val)
      else - 1)"
  by auto
termination by (relation "measure (\<lambda>(v, idx, val). length v - idx)") auto

declare ffs_loop.simps [simp del]

definition bv_ffs :: "bitvec \<Rightarrow> nat \<Rightarrow> int" where
  "bv_ffs v start =
     ffs_loop v (start div bits_per_unit) (push_bit (start mod bits_per_unit) (NOT 0))"

text \<open>\<open>ffz\<close>: the first clear bit; beyond the vector every bit is clear.\<close>

function ffz_loop :: "bitvec \<Rightarrow> nat \<Rightarrow> bvunit \<Rightarrow> nat" where
  "ffz_loop v idx val =
     (let val = val OR bv_word v idx
      in if NOT val = 0 \<and> idx < length v then ffz_loop v (Suc idx) 0
         else idx * bits_per_unit + ctz (NOT val))"
  by auto
termination by (relation "measure (\<lambda>(v, idx, val). length v - idx)") auto

declare ffz_loop.simps [simp del]

definition bv_ffz :: "bitvec \<Rightarrow> nat \<Rightarrow> nat" where
  "bv_ffz v start =
     ffz_loop v (start div bits_per_unit) (NOT (push_bit (start mod bits_per_unit) (NOT 0)))"

text \<open>\<open>bitref::operator++\<close> and \<open>--\<close>: the next and the previous set bit.\<close>

function bitref_next_loop :: "bitvec \<Rightarrow> nat \<Rightarrow> int" where
  "bitref_next_loop v idx =
     (if idx < length v * bits_per_unit then
        let w = drop_bit (idx mod bits_per_unit) (bv_word v (idx div bits_per_unit))
        in if w \<noteq> 0 then int (idx + ctz w)
           else bitref_next_loop v (idx div bits_per_unit * bits_per_unit + bits_per_unit)
      else - 1)"
  by auto
termination
proof (relation "measure (\<lambda>(v, idx). length v * 64 - idx)")
  fix v :: bitvec and idx :: nat
  assume "idx < length v * bits_per_unit"
  moreover have "idx < idx div 64 * 64 + 64"
    using div_mult_mod_eq [of idx 64] mod_less_divisor [of 64 idx] by linarith
  ultimately show "((v, idx div bits_per_unit * bits_per_unit + bits_per_unit), v, idx)
      \<in> measure (\<lambda>(v, idx). length v * 64 - idx)" by simp
qed simp

declare bitref_next_loop.simps [simp del]

definition bitref_next :: "bitvec \<Rightarrow> int \<Rightarrow> int" where
  "bitref_next v idx = bitref_next_loop v (nat (idx + 1))"

function bitref_prev_loop :: "bitvec \<Rightarrow> int \<Rightarrow> int" where
  "bitref_prev_loop v idx =
     (if idx \<ge> 0 then
        let n = nat idx;
            w = push_bit (bits_per_unit - 1 - n mod bits_per_unit) (bv_word v (n div bits_per_unit))
        in if w \<noteq> 0 then idx - int (clz w)
           else bitref_prev_loop v (int (n div bits_per_unit * bits_per_unit) - 1)
      else idx)"
  by auto
termination
proof (relation "measure (\<lambda>(v, idx). nat (idx + 1))")
  fix v :: bitvec and idx :: int and n :: nat
  assume a: "0 \<le> idx" "n = nat idx"
  then have "int (n div 64 * 64) \<le> idx" using div_times_less_eq_dividend [of n 64] by simp
  with a show "((v, int (n div bits_per_unit * bits_per_unit) - 1), v, idx) \<in> measure (\<lambda>(v, idx). nat (idx + 1))"
    by simp
qed simp

declare bitref_prev_loop.simps [simp del]

definition bitref_prev :: "bitvec \<Rightarrow> int \<Rightarrow> int" where
  "bitref_prev v idx =
     bitref_prev_loop v ((if idx < 0 then int (length v * bits_per_unit) else idx) - 1)"

definition min_index :: "bitvec \<Rightarrow> int" where
  "min_index v = bv_ffs v 0"

definition max_index :: "bitvec \<Rightarrow> int" where
  "max_index v = bitref_prev v (int (length v * bits_per_unit))"

text \<open>The loop \<open>for (auto i : v)\<close>: from \<open>begin\<close> by \<open>++\<close> until the index is that of \<open>end\<close>, -1.  The index
  grows and is below the number of bits, which bounds the iterations.\<close>

function iterate_from :: "bitvec \<Rightarrow> int \<Rightarrow> nat list" where
  "iterate_from v idx =
     (if 0 \<le> idx \<and> (bitref_next v idx = - 1 \<or> idx < bitref_next v idx \<and> bitref_next v idx < int (length v * bits_per_unit))
      then nat idx # iterate_from v (bitref_next v idx) else [])"
  by auto
termination
  by (relation "measure (\<lambda>(v, idx). if idx < 0 then 0 else Suc (length v * 64 - nat idx))")
    (auto simp: nat_less_iff)

declare iterate_from.simps [simp del]

definition iterate :: "bitvec \<Rightarrow> nat list" where
  "iterate v = iterate_from v (min_index v)"

section \<open>Construction and raw access\<close>

definition bv_of_word :: "bvunit \<Rightarrow> bitvec" where
  "bv_of_word w = [w]"

text \<open>From an integer wider than a word, here of two words.\<close>

definition bv_of_wide :: "128 word \<Rightarrow> bitvec" where
  "bv_of_wide w =
     (let data = ucast w :: bvunit
      in if (ucast data :: 128 word) \<noteq> w then [ucast w, ucast (drop_bit bits_per_unit w)] else [data])"

definition bv_of_range :: "nat \<Rightarrow> nat \<Rightarrow> bitvec" where
  "bv_of_range lo cnt = setrange bv_empty lo cnt"

definition setraw :: "bitvec \<Rightarrow> bvunit \<Rightarrow> bitvec" where
  "setraw v raw = raw # replicate (length v - 1) 0"

definition setraw_wide :: "bitvec \<Rightarrow> 128 word \<Rightarrow> bitvec" where
  "setraw_wide v raw =
     (let v = (if 2 > length v then expand v 2 else v)
      in map (\<lambda>i. ucast (drop_bit (bits_per_unit * i) raw)) [0..<length v])"

text \<open>From an array; a vector of one word reads the first element, whether or not there is one.\<close>

definition setraw_array :: "bitvec \<Rightarrow> bvunit list \<Rightarrow> bitvec option" where
  "setraw_array v raw =
     (let v = (if length raw > length v then expand v (length raw) else v)
      in if length v = 1 then (case raw of [] \<Rightarrow> None | w # ws \<Rightarrow> Some [w])
         else Some (raw @ replicate (length v - length raw) 0))"

definition setraw_wide_array :: "bitvec \<Rightarrow> 128 word list \<Rightarrow> bitvec" where
  "setraw_wide_array v raw =
     (let v = (if 2 * length raw > length v then expand v (2 * length raw) else v)
      in map (\<lambda>i. ucast (drop_bit (i mod 2 * bits_per_unit) (raw ! (i div 2)))) [0..<2 * length raw]
           @ replicate (length v - 2 * length raw) 0)"

section \<open>Set operations\<close>

text \<open>The assignments return whether the vector changed.\<close>

definition bv_is_empty :: "bitvec \<Rightarrow> bool" where
  "bv_is_empty v \<longleftrightarrow> list_all (\<lambda>w. w = 0) v"

fun and_assign :: "bitvec \<Rightarrow> bitvec \<Rightarrow> bool \<times> bitvec" where
  "and_assign [] a = (False, [])"
| "and_assign (x # xs) [] = (list_ex (\<lambda>w. w \<noteq> 0) (x # xs), replicate (length (x # xs)) 0)"
| "and_assign (x # xs) (y # ys) =
     (let (rv, zs) = and_assign xs ys in (x AND y \<noteq> x \<or> rv, (x AND y) # zs))"

definition bv_and :: "bitvec \<Rightarrow> bitvec \<Rightarrow> bitvec" where
  "bv_and v a = (if length v \<le> length a then snd (and_assign v a) else snd (and_assign a v))"

fun or_words :: "bitvec \<Rightarrow> bitvec \<Rightarrow> bool \<times> bitvec" where
  "or_words [] a = (False, [])"
| "or_words (x # xs) [] = (False, x # xs)"
| "or_words (x # xs) (y # ys) =
     (let (rv, zs) = or_words xs ys in (x OR y \<noteq> x \<or> rv, (x OR y) # zs))"

definition grow_to :: "bitvec \<Rightarrow> bitvec \<Rightarrow> bitvec" where
  "grow_to v a = (if length v < length a then expand v (length a) else v)"

definition or_assign :: "bitvec \<Rightarrow> bitvec \<Rightarrow> bool \<times> bitvec" where
  "or_assign v a = or_words (grow_to v a) a"

definition or_assign_word :: "bitvec \<Rightarrow> bvunit \<Rightarrow> bool \<times> bitvec" where
  "or_assign_word v w = (v ! 0 OR w \<noteq> v ! 0, v[0 := v ! 0 OR w])"

definition bv_or :: "bitvec \<Rightarrow> bitvec \<Rightarrow> bitvec" where
  "bv_or v a = snd (or_assign v a)"

fun xor_words :: "bitvec \<Rightarrow> bitvec \<Rightarrow> bitvec" where
  "xor_words [] a = []"
| "xor_words (x # xs) [] = x # xs"
| "xor_words (x # xs) (y # ys) = (x XOR y) # xor_words xs ys"

definition bv_xor :: "bitvec \<Rightarrow> bitvec \<Rightarrow> bitvec" where
  "bv_xor v a = xor_words (grow_to v a) a"

fun minus_assign :: "bitvec \<Rightarrow> bitvec \<Rightarrow> bool \<times> bitvec" where
  "minus_assign [] a = (False, [])"
| "minus_assign (x # xs) [] = (False, x # xs)"
| "minus_assign (x # xs) (y # ys) =
     (let (rv, zs) = minus_assign xs ys in (x AND NOT y \<noteq> x \<or> rv, (x AND NOT y) # zs))"

definition bv_minus :: "bitvec \<Rightarrow> bitvec \<Rightarrow> bitvec" where
  "bv_minus v a = snd (minus_assign v a)"

definition bv_eq :: "bitvec \<Rightarrow> bitvec \<Rightarrow> bool" where
  "bv_eq v a \<longleftrightarrow> list_all (\<lambda>i. bv_word v i = bv_word a i) [0..<max (length v) (length a)]"

fun less_loop :: "bitvec \<Rightarrow> bitvec \<Rightarrow> nat \<Rightarrow> bool" where
  "less_loop v a 0 = False"
| "less_loop v a (Suc i) =
     (if bv_word v i < bv_word a i then True
      else if bv_word v i > bv_word a i then False
      else less_loop v a i)"

definition bv_less :: "bitvec \<Rightarrow> bitvec \<Rightarrow> bool" where
  "bv_less v a = less_loop v a (max (length v) (length a))"

definition bv_intersects :: "bitvec \<Rightarrow> bitvec \<Rightarrow> bool" where
  "bv_intersects v a \<longleftrightarrow> list_ex (\<lambda>i. bv_word v i AND bv_word a i \<noteq> 0) [0..<min (length v) (length a)]"

definition bv_contains :: "bitvec \<Rightarrow> bitvec \<Rightarrow> bool" where
  "bv_contains v a \<longleftrightarrow>
     list_all (\<lambda>i. bv_word v i AND bv_word a i = bv_word a i) [0..<min (length v) (length a)] \<and>
     list_all (\<lambda>i. bv_word a i = 0) [length v..<length a]"

definition bv_popcount :: "bitvec \<Rightarrow> nat" where
  "bv_popcount v = sum_list (map word_popcount v)"

definition is_contiguous :: "bitvec \<Rightarrow> bool" where
  "is_contiguous v =
     (if bv_is_empty v then False else max_index v - min_index v + 1 = int (bv_popcount v))"

section \<open>Shifts and rotation\<close>

text \<open>\<open>while (size > 1 && !ptr[size - 1]) size--\<close>\<close>

function drop_zero_words :: "bitvec \<Rightarrow> bitvec" where
  "drop_zero_words v = (if length v > 1 \<and> last v = 0 then drop_zero_words (butlast v) else v)"
  by auto
termination by (relation "measure length") auto

declare drop_zero_words.simps [simp del]

definition shr_word :: "bitvec \<Rightarrow> nat \<Rightarrow> nat \<Rightarrow> nat \<Rightarrow> bvunit" where
  "shr_word v off c i =
     (if i + off < length v then
        let w = drop_bit c (v ! (i + off))
        in if c \<noteq> 0 \<and> i + off + 1 < length v
           then w OR push_bit (bits_per_unit - c) (v ! (i + off + 1)) else w
      else 0)"

definition shr_assign :: "bitvec \<Rightarrow> nat \<Rightarrow> bitvec" where
  "shr_assign v count =
     (if length v = 1 then (if count \<ge> bits_per_unit then [0] else [drop_bit count (v ! 0)])
      else drop_zero_words
             (map (shr_word v (count div bits_per_unit) (count mod bits_per_unit)) [0..<length v]))"

text \<open>Shifting left: the highest index gives the size needed.  \<open>None\<close> is the shift of a word by
  its width or more, which is undefined: it happens for an empty vector of one word shifted by 64.\<close>

definition shl_word :: "bitvec \<Rightarrow> nat \<Rightarrow> nat \<Rightarrow> nat \<Rightarrow> bvunit" where
  "shl_word v off c i =
     (if i \<ge> off then
        let w = push_bit c (v ! (i - off))
        in if c \<noteq> 0 \<and> i > off
           then w OR drop_bit (bits_per_unit - c) (v ! (i - off - 1)) else w
      else 0)"

definition shl_assign :: "bitvec \<Rightarrow> nat \<Rightarrow> bitvec option" where
  "shl_assign v count =
     (let needsize = nat (max_index v + int count + int bits_per_unit) div bits_per_unit;
          v = (if needsize > length v then expand v needsize else v)
      in if length v = 1 then (if count < bits_per_unit then Some [push_bit count (v ! 0)] else None)
         else Some (map (shl_word v (count div bits_per_unit) (count mod bits_per_unit)) [0..<length v]))"

text \<open>The assertion \<open>start_bit <= rotation_idx && rotation_idx < end_bit\<close> and the undefined shift are
  \<open>None\<close>.\<close>

definition rotate_right_helper :: "bitvec \<Rightarrow> nat \<Rightarrow> nat \<Rightarrow> nat \<Rightarrow> bitvec option" where
  "rotate_right_helper v start_bit rotation_idx end_bit =
     (if \<not> (start_bit \<le> rotation_idx \<and> rotation_idx < end_bit) then None
      else
        let rot_mask = bv_of_range start_bit (end_bit - start_bit);
            rotation_section = bv_and v rot_mask;
            down_shift = rotation_idx - start_bit;
            up_shift = (end_bit - start_bit) - down_shift
        in map_option (\<lambda>up. bv_and (bv_or (shr_assign rotation_section down_shift) up) rot_mask)
             (shl_assign rotation_section up_shift))"

definition rotate_right :: "bitvec \<Rightarrow> nat \<Rightarrow> nat \<Rightarrow> nat \<Rightarrow> bitvec option" where
  "rotate_right v start_bit rotation_idx end_bit =
     map_option (\<lambda>rot_section. bv_or (clrrange v start_bit (end_bit - start_bit)) rot_section)
       (rotate_right_helper v start_bit rotation_idx end_bit)"

definition rotate_right_copy :: "bitvec \<Rightarrow> nat \<Rightarrow> nat \<Rightarrow> nat \<Rightarrow> bitvec option" where
  "rotate_right_copy v start_bit rotation_idx end_bit =
     map_option (\<lambda>rot_section. bv_or rot_section (bv_minus v (bv_of_range start_bit (end_bit - start_bit))))
       (rotate_right_helper v start_bit rotation_idx end_bit)"

section \<open>Hexadecimal text\<close>

definition hex_digits :: string where
  "hex_digits = ''0123456789abcdef''"

fun hex_nat :: "nat \<Rightarrow> string" where
  "hex_nat n = (if n < 16 then [hex_digits ! n] else hex_nat (n div 16) @ [hex_digits ! (n mod 16)])"

declare hex_nat.simps [simp del]

text \<open>\<open>hex(w, width, '0')\<close> (lib/hex.h): the digits of the word, filled to the width.\<close>

definition hex_padded :: "nat \<Rightarrow> bvunit \<Rightarrow> string" where
  "hex_padded width w =
     (let ds = hex_nat (unat w) in replicate (width - length ds) (CHR ''0'') @ ds)"

fun print_words :: "bool \<Rightarrow> bvunit list \<Rightarrow> string" where
  "print_words first [] = (if first then ''0'' else [])"
| "print_words first (w # ws) =
     (if first then (if w = 0 then print_words True ws else hex_padded 0 w @ print_words False ws)
      else hex_padded 16 w @ print_words False ws)"

definition bv_print :: "bitvec \<Rightarrow> string" where
  "bv_print v = (if length v = 1 then hex_padded 0 (v ! 0) else print_words True (rev v))"

definition hex_digit_val :: "char \<Rightarrow> bvunit option" where
  "hex_digit_val c =
     (let n = of_char c :: nat
      in if 48 \<le> n \<and> n \<le> 57 then Some (of_nat (n - 48))
         else if 97 \<le> n \<and> n \<le> 102 then Some (of_nat (n - 97 + 10))
         else if 65 \<le> n \<and> n \<le> 70 then Some (of_nat (n - 65 + 10))
         else None)"

text \<open>\<open>operator>>(const char *, bitvec &)\<close>: whether the text was hexadecimal, and the vector, which
  holds the digits before the first other character.\<close>

fun parse_loop :: "string \<Rightarrow> bitvec \<Rightarrow> (bool \<times> bitvec) option" where
  "parse_loop [] v = Some (True, v)"
| "parse_loop (c # cs) v =
     (case hex_digit_val c of
        None \<Rightarrow> Some (False, v)
      | Some d \<Rightarrow> Option.bind (shl_assign v 4) (\<lambda>v. parse_loop cs (snd (or_assign_word v d))))"

definition bv_parse :: "string \<Rightarrow> bitvec \<Rightarrow> (bool \<times> bitvec) option" where
  "bv_parse s v = parse_loop s (bv_clear v)"

text \<open>\<open>operator>>(std::istream &, bitvec &)\<close>: white space is skipped, the digits are read up to the
  first other character, which stays in the stream; a stream that starts with another character
  fails and keeps the vector.  Reading past the end sets the fail bit, also after a digit.  The
  result has the fail bit, the vector and the rest of the stream.\<close>

definition is_space :: "char \<Rightarrow> bool" where
  "is_space c = (let n = of_char c :: nat in n = 32 \<or> 9 \<le> n \<and> n \<le> 13)"

fun read_digits :: "string \<Rightarrow> bitvec \<Rightarrow> (bool \<times> bitvec \<times> string) option" where
  "read_digits [] v = Some (True, v, [])"
| "read_digits (c # cs) v =
     (case hex_digit_val c of
        None \<Rightarrow> Some (False, v, c # cs)
      | Some d \<Rightarrow> Option.bind (shl_assign v 4) (\<lambda>v. read_digits cs (snd (or_assign_word v d))))"

definition bv_read :: "string \<Rightarrow> bitvec \<Rightarrow> (bool \<times> bitvec \<times> string) option" where
  "bv_read s v =
     (case dropWhile is_space s of
        [] \<Rightarrow> Some (True, v, [])
      | c # cs \<Rightarrow>
          if hex_digit_val c = None then Some (True, v, c # cs)
          else read_digits (c # cs) (bv_clear v))"

section \<open>Byte masks\<close>

text \<open>\<open>bitmask2bytemask\<close> (lib/bitops.h): a bit per byte of the vector with a bit set; \<open>1 << i\<close> is
  undefined from 32 on, \<open>None\<close>.\<close>

definition bitmask2bytemask :: "bitvec \<Rightarrow> 32 word option" where
  "bitmask2bytemask a =
     (let m = max_index a
      in if m < 0 then Some 0
         else foldl (\<lambda>rv i. Option.bind rv (\<lambda>rv.
                if getrange a (i * 8) 8 \<noteq> 0 then (if i < 32 then Some (rv OR push_bit i 1) else None)
                else Some rv)) (Some 0) [0..<Suc (nat m div 8)])"

end
