(* ===== verification/BitVec_Spec.thy ===== *)
theory BitVec_Spec
  imports BitVec
begin

text \<open>
  What the operations of a bit vector compute, over its value: the non-negative integer whose
  binary digits are the bits of the vector.
\<close>

section \<open>Bits and value\<close>

fun bv_val :: "bitvec \<Rightarrow> int" where
  "bv_val [] = 0"
| "bv_val (w # ws) = uint w + 2 ^ 64 * bv_val ws"

lemma getbit_nth: "getbit v i \<longleftrightarrow> i div 64 < length v \<and> bit (v ! (i div 64)) (i mod 64)"
  by (simp add: getbit_def bv_word_def bit_iff_odd_drop_bit and_one_eq odd_iff_mod_2_eq_one)

lemma getbit_Nil [simp]: "\<not> getbit [] i"
  by (simp add: getbit_nth)

lemma getbit_Cons: "getbit (w # ws) i \<longleftrightarrow> (if i < 64 then bit w i else getbit ws (i - 64))"
proof (cases "i < 64")
  case False
  then have "i div 64 = Suc ((i - 64) div 64)" "i mod 64 = (i - 64) mod 64"
    by (simp_all add: le_div_geq le_mod_geq)
  with False show ?thesis by (simp add: getbit_nth)
qed (simp add: getbit_nth)

lemma getbit_length: "getbit v i \<Longrightarrow> i < 64 * length v"
  by (auto simp: getbit_nth)

lemma bv_val_nonneg [simp]: "0 \<le> bv_val v"
  by (induction v) auto

lemma bit_add_exp:
  fixes u x :: int
  assumes "0 \<le> u" "u < 2 ^ n"
  shows "bit (u + 2 ^ n * x) i \<longleftrightarrow> (if i < n then bit u i else bit x (i - n))"
proof -
  have t: "take_bit n (u + 2 ^ n * x) = u" using assms by (simp add: take_bit_eq_mod)
  have d: "drop_bit n (u + 2 ^ n * x) = x" using assms by (simp add: drop_bit_eq_div)
  show ?thesis
  proof (cases "i < n")
    case True
    then have "bit (u + 2 ^ n * x) i = bit (take_bit n (u + 2 ^ n * x)) i" by (simp add: bit_take_bit_iff)
    with True show ?thesis by (simp add: t)
  next
    case False
    then have "bit (u + 2 ^ n * x) i = bit (drop_bit n (u + 2 ^ n * x)) (i - n)" by (simp add: bit_drop_bit_eq)
    with False show ?thesis by (simp add: d)
  qed
qed

lemma bit_bv_val: "bit (bv_val v) i \<longleftrightarrow> getbit v i"
proof (induction v arbitrary: i)
  case (Cons w ws)
  have "uint w < 2 ^ 64" using uint_lt2p [of w] by simp
  with Cons show ?case
    by (simp add: bit_add_exp [of "uint w" 64, simplified] getbit_Cons bit_uint_iff)
qed simp

lemma bv_val_eqI: "(\<And>i. getbit v i = bit x i) \<Longrightarrow> bv_val v = x"
  by (rule bit_eqI) (simp add: bit_bv_val)

lemma bv_val_eq_iff: "bv_val v = bv_val a \<longleftrightarrow> (\<forall>i. getbit v i = getbit a i)"
  by (simp add: bit_eq_iff bit_bv_val)

lemma bv_val_less: "bv_val v < 2 ^ (64 * length v)"
proof -
  have "take_bit (64 * length v) (bv_val v) = bv_val v"
    by (rule bit_eqI) (auto simp: bit_take_bit_iff bit_bv_val dest: getbit_length)
  then show ?thesis by (metis take_bit_int_less_exp)
qed

lemma getbit_update: "k < length v \<Longrightarrow> getbit (v[k := w]) i \<longleftrightarrow> (if i div 64 = k then bit w (i mod 64) else getbit v i)"
  by (auto simp: getbit_nth)

lemma getbit_map_upt: "getbit (map f [0..<n]) i \<longleftrightarrow> i div 64 < n \<and> bit (f (i div 64)) (i mod 64)"
  by (auto simp: getbit_nth)

lemma bit_word_of: "i div 64 < length v \<Longrightarrow> bit (v ! (i div 64)) (i mod 64) \<longleftrightarrow> getbit v i"
  by (simp add: getbit_nth)

lemma bit_nth: "k < length v \<Longrightarrow> n < 64 \<Longrightarrow> bit (v ! k) n \<longleftrightarrow> getbit v (64 * k + n)"
  by (simp add: getbit_nth)

lemma bit_bv_word: "n < 64 \<Longrightarrow> bit (bv_word v k) n \<longleftrightarrow> getbit v (64 * k + n)"
  by (simp add: getbit_nth bv_word_def)

section \<open>Growing\<close>

lemma and_not_eq_diff: "x AND NOT m = x - (x AND m)" for x m :: int
proof -
  have "(x AND NOT m) AND (x AND m) = 0" "(x AND NOT m) OR (x AND m) = x"
    by (rule bit_eqI; auto simp: bit_simps)+
  with plus_and_or [of "x AND NOT m" "x AND m"] show ?thesis by simp
qed

lemma round_size_ge: "n \<le> round_size n"
proof -
  have p: "0 \<le> smear (drop_bit 3 (int n))" by (simp add: smear_def Let_def)
  have "(int n + smear (drop_bit 3 (int n))) AND smear (drop_bit 3 (int n)) \<le> smear (drop_bit 3 (int n))"
    using p by (simp add: AND_upper2)
  then have "int n \<le> (int n + smear (drop_bit 3 (int n))) AND NOT (smear (drop_bit 3 (int n)))"
    by (simp add: and_not_eq_diff)
  then show ?thesis by (auto simp: round_size_def Let_def le_nat_iff)
qed

lemma length_expand: "length (expand v n) = max (length v) (round_size n)"
  by (simp add: expand_def)

lemma getbit_append_zeros [simp]: "getbit (v @ replicate n 0) i \<longleftrightarrow> getbit v i"
  by (auto simp: getbit_nth nth_append split: if_split_asm)

lemma getbit_expand [simp]: "getbit (expand v n) i \<longleftrightarrow> getbit v i"
  by (simp add: expand_def)

lemma getbit_reserve [simp]: "getbit (reserve v b n) i \<longleftrightarrow> getbit v i"
  by (simp add: reserve_def)

lemma length_reserve: "b \<le> 64 * n \<Longrightarrow> b \<le> 64 * length (reserve v b n)"
  using round_size_ge [of n] by (auto simp: reserve_def length_expand)

section \<open>Single bits\<close>

lemma reserve_index: "idx < b \<Longrightarrow> b \<le> 64 * n \<Longrightarrow> idx div 64 < length (reserve v b n)"
  using length_reserve [of b n v] by (simp add: less_mult_imp_div_less mult.commute)

lemma split64:
  obtains k r where "i = 64 * k + r" "r < 64" "i div 64 = k" "i mod 64 = (r::nat)"
  by (rule that [of "i div 64" "i mod 64"]) simp_all

lemma getbit_update_iff:
  assumes "k < length v" "\<And>n. n < 64 \<Longrightarrow> bit w n \<longleftrightarrow> P (64 * k + n)" "\<And>j. j div 64 \<noteq> k \<Longrightarrow> P j = getbit v j"
  shows "getbit (v[k := w]) i = P i"
proof (cases "i div 64 = k")
  case True
  with assms(1) have "getbit (v[k := w]) i = bit w (i mod 64)" by (simp add: getbit_nth)
  also have "\<dots> = P (64 * k + i mod 64)" by (rule assms(2)) simp
  also have "64 * k + i mod 64 = i" using True by (metis mult_div_mod_eq)
  finally show ?thesis .
next
  case False
  with assms(1,3) show ?thesis by (simp add: getbit_nth)
qed

lemma getbit_setbit: "getbit (setbit v idx) i \<longleftrightarrow> i = idx \<or> getbit v i"
proof -
  obtain k r where k: "idx = 64 * k + r" "r < 64" "idx div 64 = k" "idx mod 64 = r" by (rule split64)
  define u where "u = reserve v (idx + 1) (1 + k)"
  have l: "k < length u" unfolding u_def using reserve_index [of idx "idx + 1" "1 + k" v] k by simp
  have "getbit (u[k := u ! k OR push_bit r 1]) i = (i = idx \<or> getbit u i)"
    by (rule getbit_update_iff [OF l]) (use k l in \<open>auto simp: bit_simps bit_nth\<close>)
  then show ?thesis by (simp add: setbit_def Let_def k(3,4) u_def [symmetric]) (simp add: u_def)
qed

lemma getbit_clrbit: "getbit (clrbit v idx) i \<longleftrightarrow> i \<noteq> idx \<and> getbit v i"
proof (cases "idx \<ge> length v * 64")
  case True
  then show ?thesis by (auto simp: clrbit_def dest: getbit_length)
next
  case False
  obtain k r where k: "idx = 64 * k + r" "r < 64" "idx div 64 = k" "idx mod 64 = r" by (rule split64)
  with False have l: "k < length v" by simp
  have "getbit (v[k := v ! k AND NOT (push_bit r 1)]) i = (i \<noteq> idx \<and> getbit v i)"
    by (rule getbit_update_iff [OF l]) (use k l in \<open>auto simp: bit_simps bit_nth\<close>)
  with False show ?thesis by (simp add: clrbit_def Let_def k(3,4))
qed

lemma getbit_clear [simp]: "\<not> getbit (bv_clear v) i"
  by (auto simp: bv_clear_def getbit_nth)

section \<open>Ranges\<close>

lemma bit_low_mask: "0 < sz \<Longrightarrow> n < 64 \<Longrightarrow> bit (low_mask sz) n \<longleftrightarrow> n < sz"
  by (auto simp: low_mask_def bit_simps)

lemma getbit_fill_words:
  "getbit (fill_words v a lim w) i \<longleftrightarrow>
     (if a \<le> i div 64 \<and> i div 64 < min lim (length v) then bit w (i mod 64) else getbit v i)"
proof (induction v a lim w rule: fill_words.induct)
  case (1 v a lim w)
  show ?case
  proof (cases "a < lim \<and> a < length v")
    case True
    then have "fill_words v a lim w = fill_words (v[a := w]) (Suc a) lim w" by (subst fill_words.simps) simp
    with 1 [OF True] True show ?thesis by (auto simp: getbit_update not_le less_Suc_eq_le Suc_le_eq)
  qed (auto simp: fill_words.simps)
qed

lemma length_fill_words [simp]: "length (fill_words v a lim w) = length v"
proof (induction v a lim w rule: fill_words.induct)
  case (1 v a lim w)
  then show ?case by (subst fill_words.simps) simp
qed

lemma le64: "r < 64 \<Longrightarrow> b < 64 \<Longrightarrow> 64 * k + r \<le> 64 * a + b \<longleftrightarrow> k < a \<or> k = a \<and> r \<le> (b::nat)"
  by linarith

lemma less64: "r < 64 \<Longrightarrow> b < 64 \<Longrightarrow> 64 * k + r < 64 * a + b \<longleftrightarrow> k < a \<or> k = a \<and> r < (b::nat)"
  by linarith

lemma eq64: "r < 64 \<Longrightarrow> b < 64 \<Longrightarrow> 64 * k + r = 64 * a + b \<longleftrightarrow> k = a \<and> r = (b::nat)"
proof -
  assume rb: "r < 64" "b < 64"
  then have "(64 * k + r) div 64 = k" "(64 * a + b) div 64 = a" by simp_all
  then show ?thesis by (metis add_left_cancel)
qed

lemma Suc64:
  assumes "64 * q + t = Suc (64 * l + m)" "t < 64" "m < (64::nat)"
  shows "q = l \<and> t = Suc m \<or> q = Suc l \<and> t = 0 \<and> m = 63"
proof (cases "m = 63")
  case True
  with assms have "64 * q + t = 64 * Suc l + 0" by simp
  with assms(2) True show ?thesis by (subst (asm) eq64) auto
next
  case False
  with assms have "64 * q + t = 64 * l + Suc m" by simp
  with assms(2,3) False show ?thesis by (subst (asm) eq64) auto
qed

lemmas index64 = le64 less64 eq64

lemma getbit_update64:
  "k < length v \<Longrightarrow> b < 64 \<Longrightarrow> getbit (v[k := w]) (64 * a + b) \<longleftrightarrow> (if a = k then bit w b else getbit v (64 * a + b))"
  by (auto simp: getbit_nth)

lemma getbit_fill64:
  "b < 64 \<Longrightarrow> getbit (fill_words v k lim w) (64 * a + b) \<longleftrightarrow>
     (if k \<le> a \<and> a < min lim (length v) then bit w b else getbit v (64 * a + b))"
  by (simp add: getbit_fill_words)

lemma low_bits: "b < 64 \<Longrightarrow> bit (2 ^ t - 1 :: bvunit) b \<longleftrightarrow> b < t"
  by (simp add: bit_mask_iff flip: mask_eq_exp_minus_1)

lemma getbit_setrange: "getbit (setrange v idx sz) i \<longleftrightarrow> idx \<le> i \<and> i < idx + sz \<or> getbit v i"
proof (cases "sz = 0")
  case True
  then show ?thesis by (auto simp: setrange_def)
next
  case False
  obtain k r where k: "idx = 64 * k + r" "r < 64" "idx div 64 = k" "idx mod 64 = r" by (rule split64)
  obtain l m where l: "idx + sz - 1 = 64 * l + m" "m < 64" "(idx + sz - 1) div 64 = l" "(idx + sz - 1) mod 64 = m"
    by (rule split64)
  obtain q t where q: "idx + sz = 64 * q + t" "t < 64" "(idx + sz) div 64 = q" "(idx + sz) mod 64 = t"
    by (rule split64)
  obtain a b where i: "i = 64 * a + b" "b < 64" by (rule split64)
  define u where "u = reserve v (idx + sz) (1 + l)"
  have ul: "l < length u"
    unfolding u_def using reserve_index [of "idx + sz - 1" "idx + sz" "1 + l" v] False l by simp
  have gu: "getbit u j = getbit v j" for j by (simp add: u_def)
  have kl: "64 * k + r \<le> 64 * l + m" using k(1) l(1) False by linarith
  then have kl': "k \<le> l" using k(2) l(2) by (simp add: index64) linarith
  have e: "64 * q + t = Suc (64 * l + m)" using q(1) l(1) False by linarith
  have range: "idx \<le> i \<and> i < idx + sz \<longleftrightarrow> (k < a \<or> k = a \<and> r \<le> b) \<and> (a < q \<or> a = q \<and> b < t)"
    unfolding q(1) unfolding k(1) i(1) by (simp add: index64 k(2) q(2) i(2))
  have ql: "q = l \<and> t = Suc m \<or> q = Suc l \<and> t = 0 \<and> m = 63" using Suc64 [OF e q(2) l(2)] .
  note unf = setrange_def Let_def k(3,4) l(3) q(3,4) u_def [symmetric] gu
  show ?thesis
  proof (cases "k = l")
    case True
    then have "getbit (u[k := u ! k OR push_bit r (low_mask sz)]) i \<longleftrightarrow> idx \<le> i \<and> i < idx + sz \<or> getbit u i"
      unfolding range unfolding i(1) using ul i(2) k(1,2) l(1,2) ql False
      by (auto simp: getbit_update64 bit_simps bit_nth bit_low_mask)
    with False True show ?thesis by (simp add: unf del: One_nat_def)
  next
    case kl: False
    with kl' have kl: "k < l" by simp
    define u1 where "u1 = u[k := u ! k OR push_bit r (NOT 0)]"
    define u2 where "u2 = fill_words u1 (Suc k) q (NOT 0)"
    have len: "length u1 = length u" "length u2 = length u" by (simp_all add: u1_def u2_def)
    have g1: "getbit u1 i \<longleftrightarrow> a = k \<and> r \<le> b \<or> getbit u i"
      unfolding i(1) u1_def using ul kl i(2) k(2) by (auto simp: getbit_update64 bit_simps bit_nth)
    have g2: "getbit u2 i \<longleftrightarrow> k < a \<and> a < q \<or> getbit u1 i"
      unfolding u2_def i(1) using i(2) ql ul by (auto simp: getbit_fill64 bit_simps len)
    have g3: "getbit (u2[q := u2 ! q OR (push_bit t 1 - 1)]) i \<longleftrightarrow> a = q \<and> b < t \<or> getbit u2 i" if "q < length u"
      using that i(2) unfolding i(1) by (auto simp: getbit_update64 bit_or_iff low_bits bit_nth len)
    have "getbit (if q < length u2 then u2[q := u2 ! q OR (push_bit t 1 - 1)] else u2) i \<longleftrightarrow> idx \<le> i \<and> i < idx + sz \<or> getbit u i"
      using g1 g2 g3 ql kl ul i(2) unfolding range len by auto
    then show ?thesis
      unfolding unf u1_def [symmetric] u2_def [symmetric] using False kl by simp
  qed
qed

lemma clrrange_words:
  assumes "0 < sz" "idx < 64 * length v"
  shows "getbit
     (let i = idx div bits_per_unit
      in if i = (idx + sz - 1) div bits_per_unit then
           v[i := v ! i AND NOT (push_bit (idx mod bits_per_unit) (low_mask sz))]
         else
           let v = v[i := v ! i AND NOT (push_bit (idx mod bits_per_unit) (NOT 0))];
               last = (idx + sz) div bits_per_unit;
               v = fill_words v (Suc i) last 0
           in if last < length v
              then v[last := v ! last AND NOT (push_bit ((idx + sz) mod bits_per_unit) 1 - 1)]
              else v) i \<longleftrightarrow> getbit v i \<and> \<not> (idx \<le> i \<and> i < idx + sz)"
proof -
  obtain k r where k: "idx = 64 * k + r" "r < 64" "idx div 64 = k" "idx mod 64 = r" by (rule split64)
  obtain l m where l: "idx + sz - 1 = 64 * l + m" "m < 64" "(idx + sz - 1) div 64 = l" "(idx + sz - 1) mod 64 = m"
    by (rule split64)
  obtain q t where q: "idx + sz = 64 * q + t" "t < 64" "(idx + sz) div 64 = q" "(idx + sz) mod 64 = t"
    by (rule split64)
  obtain a b where i: "i = 64 * a + b" "b < 64" by (rule split64)
  have kv: "k < length v" using assms(2) k by simp
  have kl: "64 * k + r \<le> 64 * l + m" using k(1) l(1) assms(1) by linarith
  then have kl': "k \<le> l" using k(2) l(2) by (simp add: index64) linarith
  have e: "64 * q + t = Suc (64 * l + m)" using q(1) l(1) assms(1) by linarith
  have range: "idx \<le> i \<and> i < idx + sz \<longleftrightarrow> (k < a \<or> k = a \<and> r \<le> b) \<and> (a < q \<or> a = q \<and> b < t)"
    unfolding q(1) unfolding k(1) i(1) by (simp add: index64 k(2) q(2) i(2))
  note ql = Suc64 [OF e q(2) l(2)]
  note unf = Let_def k(3,4) l(3) q(3,4)
  have out: "length v \<le> a \<Longrightarrow> \<not> getbit v i" using i by (auto dest!: getbit_length)
  show ?thesis
  proof (cases "k = l")
    case True
    then have "getbit (v[k := v ! k AND NOT (push_bit r (low_mask sz))]) i \<longleftrightarrow> getbit v i \<and> \<not> (idx \<le> i \<and> i < idx + sz)"
      unfolding range unfolding i(1) using kv i(2) k(1,2) l(1,2) ql assms(1)
      by (auto simp: getbit_update64 bit_simps bit_nth bit_low_mask)
    with True show ?thesis by (simp add: unf del: One_nat_def)
  next
    case False
    with kl' have kl: "k < l" by simp
    define u1 where "u1 = v[k := v ! k AND NOT (push_bit r (NOT 0))]"
    define u2 where "u2 = fill_words u1 (Suc k) q 0"
    have len: "length u1 = length v" "length u2 = length v" by (simp_all add: u1_def u2_def)
    have g1: "getbit u1 i \<longleftrightarrow> \<not> (a = k \<and> r \<le> b) \<and> getbit v i"
      unfolding i(1) u1_def using kv i(2) k(2) by (auto simp: getbit_update64 bit_simps bit_nth)
    have g2: "getbit u2 i \<longleftrightarrow> \<not> (k < a \<and> a < q \<and> a < length v) \<and> getbit u1 i"
      unfolding u2_def i(1) using i(2) by (auto simp: getbit_fill64 len)
    have g3: "getbit (u2[q := u2 ! q AND NOT (push_bit t 1 - 1)]) i \<longleftrightarrow> \<not> (a = q \<and> b < t) \<and> getbit u2 i" if "q < length v"
      using that i(2) unfolding i(1) by (auto simp: getbit_update64 bit_and_iff bit_not_iff low_bits bit_nth len)
    have "getbit (if q < length u2 then u2[q := u2 ! q AND NOT (push_bit t 1 - 1)] else u2) i \<longleftrightarrow> getbit v i \<and> \<not> (idx \<le> i \<and> i < idx + sz)"
      using g1 g2 g3 ql kl i(2) out unfolding range len by auto
    then show ?thesis
      unfolding unf u1_def [symmetric] u2_def [symmetric] using kl by simp
  qed
qed

lemma getbit_single: "getbit [w] i \<longleftrightarrow> i < 64 \<and> bit w i"
  by (simp add: getbit_Cons)

lemma getbit_clrrange: "getbit (clrrange v idx sz) i \<longleftrightarrow> getbit v i \<and> \<not> (idx \<le> i \<and> i < idx + sz)"
proof -
  define sz' where "sz' = (if length v < sz div bits_per_unit then length v * bits_per_unit else sz)"
  have len: "getbit v i \<Longrightarrow> i < 64 * length v" by (rule getbit_length)
  have big: "64 * length v < sz" if "length v < sz div 64" using that div_mult_mod_eq [of sz 64] by linarith
  have eq: "getbit v i \<and> \<not> (idx \<le> i \<and> i < idx + sz') \<longleftrightarrow> getbit v i \<and> \<not> (idx \<le> i \<and> i < idx + sz)"
    using len big by (auto simp: sz'_def)
  consider "sz = 0" | "64 * length v \<le> idx" | (one) "sz \<noteq> 0" "idx < 64 * length v" "length v = 1"
    | (more) "sz \<noteq> 0" "idx < 64 * length v" "length v \<noteq> 1" by linarith
  then show ?thesis
  proof cases
    case one
    then obtain w where v: "v = [w]" by (auto simp: length_Suc_conv)
    have "sz' \<noteq> 0" using one by (simp add: sz'_def)
    then have "getbit (clrrange v idx sz) i \<longleftrightarrow> getbit v i \<and> \<not> (idx \<le> i \<and> i < idx + sz')"
      using one(1,2) unfolding clrrange_def sz'_def [symmetric] unfolding v
      by (auto simp: Let_def getbit_single bit_simps bit_low_mask)
    then show ?thesis using eq by simp
  next
    case more
    then have "0 < sz'" by (auto simp: sz'_def)
    from clrrange_words [OF this more(2), of i] eq more show ?thesis
      unfolding clrrange_def sz'_def [symmetric] by simp
  qed (auto simp: clrrange_def dest: getbit_length)
qed

lemma bit_getrange:
  assumes "0 < sz" "sz \<le> 64" "n < 64"
  shows "bit (getrange v idx sz) n \<longleftrightarrow> n < sz \<and> getbit v (idx + n)"
proof (cases "64 * length v \<le> idx")
  case True
  then show ?thesis by (auto simp: getrange_def dest: getbit_length)
next
  case False
  obtain k r where k: "idx = 64 * k + r" "r < 64" "idx div 64 = k" "idx mod 64 = r" by (rule split64)
  have kv: "k < length v" using False k by simp
  show ?thesis
  proof (cases "n + r < 64")
    case True
    then have "bit (v ! k) (r + n) = getbit v (idx + n)" using kv k(1) by (simp add: bit_nth add.assoc)
    with True kv False assms show ?thesis
      by (auto simp: getrange_def k(3,4) Let_def bit_simps bit_low_mask)
  next
    case carry: False
    then have e: "idx + n = 64 * Suc k + (n + r - 64)" using k(1) by simp
    have no: "\<not> bit (v ! k) (r + n)" using carry by (auto dest: bit_imp_le_length)
    show ?thesis
    proof (cases "Suc k < length v")
      case True
      have "bit (v ! Suc k) (n + r - 64) = getbit v (idx + n)" unfolding e using True k(2) assms(3) by (simp add: bit_nth)
      with no carry True kv False assms k(2) show ?thesis
        by (auto simp: getrange_def k(3,4) Let_def bit_simps bit_low_mask)
    next
      case last: False
      then have "\<not> getbit v (idx + n)" unfolding e using k(2) by (auto dest: getbit_length)
      with no carry last kv False assms k(2) show ?thesis
        by (auto simp: getrange_def k(3,4) Let_def bit_simps bit_low_mask)
    qed
  qed
qed

lemma uint_getrange: "0 < sz \<Longrightarrow> sz \<le> 64 \<Longrightarrow> uint (getrange v idx sz) = take_bit sz (drop_bit idx (bv_val v))"
  by (rule bit_eqI) (auto simp: bit_uint_iff bit_take_bit_iff bit_drop_bit_eq bit_bv_val bit_getrange)

lemma getbit_putrange:
  assumes "0 < sz" "sz \<le> 64"
  shows "getbit (putrange v idx sz x) i \<longleftrightarrow> (if idx \<le> i \<and> i < idx + sz then bit x (i - idx) else getbit v i)"
proof -
  obtain k r where k: "idx = 64 * k + r" "r < 64" "idx div 64 = k" "idx mod 64 = r" by (rule split64)
  obtain l m where l: "idx + sz - 1 = 64 * l + m" "m < 64" "(idx + sz - 1) div 64 = l" "(idx + sz - 1) mod 64 = m"
    by (rule split64)
  obtain a b where i: "i = 64 * a + b" "b < 64" by (rule split64)
  define mk :: bvunit where "mk = drop_bit (64 - sz) (NOT 0)"
  define y where "y = x AND mk"
  have mk: "bit mk n \<longleftrightarrow> n < sz" for n using assms by (auto simp: mk_def bit_simps)
  have y: "bit y n \<longleftrightarrow> n < sz \<and> bit x n" for n by (auto simp: y_def bit_and_iff mk)
  define u where "u = reserve v (idx + sz) (1 + l)"
  have ul: "l < length u"
    unfolding u_def using reserve_index [of "idx + sz - 1" "idx + sz" "1 + l" v] assms l by simp
  have gu: "getbit u j = getbit v j" for j by (simp add: u_def)
  have rsz: "k = l \<and> r + sz \<le> 64 \<or> l = Suc k \<and> 64 < r + sz"
  proof (cases "r + sz \<le> 64")
    case True
    with k l(1,2) assms have "64 * k + (r + sz - 1) = 64 * l + m" "r + sz - 1 < 64" by simp_all
    with l(2) eq64 [of "r + sz - 1" m k l] True show ?thesis by simp
  next
    case False
    with k l(1,2) assms have "64 * Suc k + (r + sz - 65) = 64 * l + m" "r + sz - 65 < 64" by simp_all
    with l(2) eq64 [of "r + sz - 65" m "Suc k" l] False show ?thesis by simp
  qed
  have ku: "k < length u" using ul rsz by auto
  define u1 where "u1 = u[k := (u ! k AND NOT (push_bit r mk)) OR push_bit r y]"
  have len: "length u1 = length u" by (simp add: u1_def)
  have g1: "getbit u1 i \<longleftrightarrow> (if a = k \<and> r \<le> b \<and> b - r < sz then bit x (b - r) else getbit u i)"
    unfolding i(1) u1_def using ku i(2) k(2)
    by (auto simp: getbit_update64 bit_simps bit_nth mk y)
  show ?thesis
  proof (cases "64 - r < sz")
    case True
    with rsz k(2) have ls: "l = Suc k" by auto
    have g2: "getbit (u1[Suc k := (u1 ! Suc k AND NOT (drop_bit (64 - r) mk)) OR drop_bit (64 - r) y]) i \<longleftrightarrow>
        (if a = Suc k \<and> 64 - r + b < sz then bit x (64 - r + b) else getbit u1 i)"
      unfolding i(1) using ul ls i(2) k(2)
      by (auto simp: getbit_update64 bit_simps bit_nth mk y len)
    have "idx \<le> i \<and> i < idx + sz \<longleftrightarrow> a = k \<and> r \<le> b \<or> a = Suc k \<and> 64 - r + b < sz"
      unfolding k(1) i(1) using True k(2) i(2) assms by (auto simp: index64)
    moreover have "a = k \<Longrightarrow> r \<le> b \<Longrightarrow> i - idx = b - r" "a = Suc k \<Longrightarrow> i - idx = 64 - r + b"
      using k(1,2) i(1) by auto
    moreover have "r \<le> b \<Longrightarrow> b - r < sz" using True i(2) by linarith
    ultimately show ?thesis
      using g1 g2 True gu unfolding putrange_def Let_def k(3,4) l(3) u_def [symmetric] mk_def [symmetric] y_def [symmetric] u1_def [symmetric]
      by auto
  next
    case False
    then have "idx \<le> i \<and> i < idx + sz \<longleftrightarrow> a = k \<and> r \<le> b \<and> b - r < sz"
      unfolding k(1) i(1) using k(2) i(2) assms by (auto simp: index64)
    moreover have "a = k \<Longrightarrow> r \<le> b \<Longrightarrow> i - idx = b - r" using k(1,2) i(1) by auto
    ultimately show ?thesis
      using g1 False gu unfolding putrange_def Let_def k(3,4) l(3) u_def [symmetric] mk_def [symmetric] y_def [symmetric] u1_def [symmetric]
      by auto
  qed
qed

end
