(* ===== verification/BitVec_Ops.thy ===== *)
theory BitVec_Ops
  imports BitVec_Spec
begin

text \<open>Searching, the set operations, the shifts and the slices of a bit vector.\<close>

section \<open>Set and unset bits of a word\<close>

lemma bit_unat: "bit (unat w) n \<longleftrightarrow> bit w n" for w :: bvunit
  by (simp add: bit_unsigned_iff)

lemma unat_pos: "w \<noteq> 0 \<Longrightarrow> 0 < unat w" for w :: bvunit
  by (simp add: unat_gt_0)

lemma ctz_spec: "w \<noteq> 0 \<Longrightarrow> bit w (ctz w) \<and> (\<forall>j<ctz w. \<not> bit w j) \<and> ctz w < 64"
  using bit_lsb [OF unat_pos, of w] not_bit_below_lsb [of _ "unat w"]
  by (auto simp: ctz_def bit_unat dest: bit_imp_le_length)

lemma clz_spec: "w \<noteq> 0 \<Longrightarrow> clz w < 64 \<and> bit w (63 - clz w) \<and> (\<forall>j. 63 - clz w < j \<longrightarrow> \<not> bit w j)"
proof -
  assume w: "w \<noteq> 0"
  note b = msb_bounds [OF unat_pos [OF w]]
  have hi: "\<not> bit w j" if "msb (unat w) < j" for j
  proof -
    have "take_bit j (unat w) = unat w"
      using b that power_increasing [of "msb (unat w) + 1" j "2::nat"] by (intro take_bit_nat_eq_self) simp
    then show ?thesis by (metis bit_take_bit_iff bit_unat less_irrefl)
  qed
  have "unat w div 2 ^ msb (unat w) = 1"
    using b by (intro div_nat_eqI) simp_all
  then have "bit (unat w) (msb (unat w))" by (simp add: bit_iff_odd)
  then have lo: "bit w (msb (unat w))" by (simp add: bit_unat)
  then have "msb (unat w) < 64" by (auto dest: bit_imp_le_length)
  with hi lo show ?thesis by (auto simp: clz_def)
qed

lemma word_popcount_card: "word_popcount w = card {i. bit w i}"
  by (simp add: word_popcount_def bitcount_loop_card bit_unat)

section \<open>Searching\<close>

lemma word_0_iff: "w = 0 \<longleftrightarrow> (\<forall>n<64. \<not> bit w n)" for w :: bvunit
  by (simp add: bit_eq_iff)

definition first_bit :: "(nat \<Rightarrow> bool) \<Rightarrow> nat \<Rightarrow> int \<Rightarrow> bool" where
  "first_bit P start n \<longleftrightarrow>
     n = -1 \<and> (\<forall>i\<ge>start. \<not> P i) \<or>
     (\<exists>m. n = int m \<and> start \<le> m \<and> P m \<and> (\<forall>i. start \<le> i \<and> i < m \<longrightarrow> \<not> P i))"

lemma first_bit_skip: "start \<le> next \<Longrightarrow> first_bit P next n \<Longrightarrow> (\<And>i. start \<le> i \<Longrightarrow> i < next \<Longrightarrow> \<not> P i) \<Longrightarrow> first_bit P start n"
  unfolding first_bit_def by (metis le_trans not_le_imp_less)

lemma first_bit_none: "64 * length v \<le> start \<Longrightarrow> first_bit (getbit v) start (-1)"
  by (auto simp: first_bit_def dest!: getbit_length)

lemma first_bit_word:
  assumes "\<And>n. n < 64 \<Longrightarrow> bit w n \<longleftrightarrow> start \<le> 64 * idx + n \<and> P (64 * idx + n)" "64 * idx \<le> start" "w \<noteq> 0"
  shows "first_bit P start (int (64 * idx + ctz w))"
proof -
  note c = ctz_spec [OF assms(3)]
  have "\<not> P i" if "start \<le> i" "i < 64 * idx + ctz w" for i
  proof -
    have "i - 64 * idx < ctz w" "64 * idx \<le> i" using that assms(2) by linarith+
    with c assms(1) [of "i - 64 * idx"] that show ?thesis by auto
  qed
  with c assms(1) [of "ctz w"] show ?thesis unfolding first_bit_def by blast
qed

lemma zero_word_skip:
  assumes "\<And>n. n < 64 \<Longrightarrow> bit w n \<longleftrightarrow> start \<le> 64 * idx + n \<and> P (64 * idx + n)" "64 * idx \<le> start" "w = 0"
    and "start \<le> i" "i < 64 * Suc idx"
  shows "\<not> P i"
  using assms(1) [of "i - 64 * idx"] assms(2-5) by (simp add: algebra_simps)

lemma ffs_loop_spec:
  assumes "\<And>n. n < 64 \<Longrightarrow> bit val n \<longleftrightarrow> start \<le> 64 * idx + n" "64 * idx \<le> start" "start \<le> 64 * Suc idx"
  shows "first_bit (getbit v) start (ffs_loop v idx val)"
  using assms
proof (induction v idx val arbitrary: start rule: ffs_loop.induct)
  case (1 v idx val)
  show ?case
  proof (cases "idx < length v")
    case False
    with 1(3) show ?thesis by (subst ffs_loop.simps) (simp add: first_bit_none)
  next
    case True
    define w where "w = val AND bv_word v idx"
    have w: "bit w n \<longleftrightarrow> start \<le> 64 * idx + n \<and> getbit v (64 * idx + n)" if "n < 64" for n
      using that 1(2) by (simp add: w_def bit_and_iff bit_bv_word)
    show ?thesis
    proof (cases "w = 0")
      case zero: True
      have "first_bit (getbit v) (64 * Suc idx) (ffs_loop v (Suc idx) (NOT 0))"
        using 1(1) [OF True w_def zero, of "64 * Suc idx"] by (simp add: bit_not_iff)
      then have "first_bit (getbit v) start (ffs_loop v (Suc idx) (NOT 0))"
        using zero_word_skip [OF w 1(3) zero] 1(4) by (rule_tac first_bit_skip) auto
      then show ?thesis using True zero by (subst ffs_loop.simps) (simp add: w_def Let_def)
    next
      case False
      then have "ffs_loop v idx val = int (64 * idx + ctz w)"
        using True by (subst ffs_loop.simps) (simp add: w_def Let_def mult.commute)
      with first_bit_word [OF w 1(3) False] show ?thesis by simp
    qed
  qed
qed

lemma bv_ffs_first: "first_bit (getbit v) start (bv_ffs v start)"
proof -
  obtain k r where k: "start = 64 * k + r" "r < 64" "start div 64 = k" "start mod 64 = r" by (rule split64)
  then show ?thesis unfolding bv_ffs_def k(3,4)
    by (intro ffs_loop_spec) (auto simp: bit_simps)
qed

lemma ffz_loop_spec:
  assumes "\<And>n. n < 64 \<Longrightarrow> bit val n \<longleftrightarrow> 64 * idx + n < start" "64 * idx \<le> start" "start < 64 * Suc idx"
  shows "first_bit (\<lambda>i. \<not> getbit v i) start (int (ffz_loop v idx val))"
  using assms
proof (induction v idx val arbitrary: start rule: ffz_loop.induct)
  case (1 v idx val)
  define w where "w = val OR bv_word v idx"
  have w: "bit (NOT w) n \<longleftrightarrow> start \<le> 64 * idx + n \<and> \<not> getbit v (64 * idx + n)" if "n < 64" for n
    using that 1(2) by (auto simp: w_def bit_or_iff bit_not_iff bit_and_iff bit_bv_word)
  show ?case
  proof (cases "NOT w = 0")
    case zero: True
    have "idx < length v"
    proof (rule ccontr)
      assume "\<not> idx < length v"
      then have "\<not> getbit v start" using 1(3) by (auto dest: getbit_length)
      with w [of "start - 64 * idx"] 1(3,4) have "bit (NOT w) (start - 64 * idx)" by simp
      with zero show False by simp
    qed
    have "first_bit (\<lambda>i. \<not> getbit v i) (64 * Suc idx) (int (ffz_loop v (Suc idx) 0))"
      using 1(1) [OF w_def, of "64 * Suc idx"] zero \<open>idx < length v\<close> by simp
    then have "first_bit (\<lambda>i. \<not> getbit v i) start (int (ffz_loop v (Suc idx) 0))"
      using zero_word_skip [where P = "\<lambda>i. \<not> getbit v i", OF w 1(3) zero] 1(4) by (rule_tac first_bit_skip) auto
    then show ?thesis using zero \<open>idx < length v\<close> by (subst ffz_loop.simps) (simp add: w_def Let_def)
  next
    case False
    then have "int (ffz_loop v idx val) = int (64 * idx + ctz (NOT w))"
      by (subst ffz_loop.simps) (simp add: w_def Let_def mult.commute)
    with first_bit_word [where P = "\<lambda>i. \<not> getbit v i", OF w 1(3) False] show ?thesis by simp
  qed
qed

lemma bv_ffz_first: "first_bit (\<lambda>i. \<not> getbit v i) start (int (bv_ffz v start))"
proof -
  obtain k r where k: "start = 64 * k + r" "r < 64" "start div 64 = k" "start mod 64 = r" by (rule split64)
  then show ?thesis unfolding bv_ffz_def k(3,4)
    by (intro ffz_loop_spec) (auto simp: bit_simps)
qed

text \<open>The iterator: the next and the previous set bit.\<close>

lemma bit_drop_word:
  assumes "n < 64"
  shows "bit (drop_bit (idx mod 64) (bv_word v (idx div 64))) n \<longleftrightarrow> idx mod 64 + n < 64 \<and> getbit v (idx + n)"
proof (cases "idx mod 64 + n < 64")
  case True
  have "64 * (idx div 64) + (idx mod 64 + n) = idx + n" by (simp add: add.assoc [symmetric])
  with True bit_bv_word [OF True, of v "idx div 64"] show ?thesis by (simp add: bit_drop_bit_eq)
next
  case False
  then show ?thesis by (auto simp: bit_drop_bit_eq dest: bit_imp_le_length)
qed

lemma bitref_next_loop_spec: "first_bit (getbit v) idx (bitref_next_loop v idx)"
proof (induction v idx rule: bitref_next_loop.induct)
  case (1 v idx)
  define w where "w = drop_bit (idx mod 64) (bv_word v (idx div 64))"
  have w: "n < 64 \<Longrightarrow> bit w n \<longleftrightarrow> idx mod 64 + n < 64 \<and> getbit v (idx + n)" for n
    unfolding w_def by (rule bit_drop_word)
  show ?case
  proof (cases "idx < length v * 64")
    case False
    then show ?thesis by (subst bitref_next_loop.simps) (simp add: first_bit_none)
  next
    case True
    show ?thesis
    proof (cases "w = 0")
      case zero: True
      let ?n = "idx div 64 * 64 + 64"
      have "\<not> getbit v i" if "idx \<le> i" "i < ?n" for i
      proof -
        have "idx mod 64 + (i - idx) < 64" "i - idx < 64" using that div_mult_mod_eq [of idx 64] by linarith+
        with w [of "i - idx"] zero that show ?thesis by simp
      qed
      moreover have "idx \<le> ?n" using div_mult_mod_eq [of idx 64] mod_less_divisor [of 64 idx] by linarith
      ultimately have "first_bit (getbit v) idx (bitref_next_loop v ?n)"
        using 1 [OF True w_def] zero by (rule_tac first_bit_skip [of _ ?n]) auto
      then show ?thesis using True zero by (subst bitref_next_loop.simps) (simp add: w_def Let_def)
    next
      case False
      then have e: "bitref_next_loop v idx = int (idx + ctz w)"
        using True by (subst bitref_next_loop.simps) (simp add: w_def Let_def)
      note c = ctz_spec [OF False]
      have "\<not> getbit v i" if "idx \<le> i" "i < idx + ctz w" for i
      proof -
        have "idx mod 64 + ctz w < 64" using c w [of "ctz w"] by simp
        then have "idx mod 64 + (i - idx) < 64" "i - idx < ctz w" "i - idx < 64" using that c by linarith+
        with w [of "i - idx"] c that show ?thesis by simp
      qed
      with c w [of "ctz w"] show ?thesis unfolding e first_bit_def by (intro disjI2 exI [of _ "idx + ctz w"]) auto
    qed
  qed
qed

lemma bitref_next_first: "- 1 \<le> idx \<Longrightarrow> first_bit (getbit v) (nat (idx + 1)) (bitref_next v idx)"
  unfolding bitref_next_def by (rule bitref_next_loop_spec)

definition last_bit :: "(nat \<Rightarrow> bool) \<Rightarrow> nat \<Rightarrow> int \<Rightarrow> bool" where
  "last_bit P lim n \<longleftrightarrow>
     n = -1 \<and> (\<forall>i<lim. \<not> P i) \<or>
     (\<exists>m<lim. n = int m \<and> P m \<and> (\<forall>i. m < i \<and> i < lim \<longrightarrow> \<not> P i))"

lemma last_bit_skip: "next \<le> lim \<Longrightarrow> last_bit P next n \<Longrightarrow> (\<And>i. next \<le> i \<Longrightarrow> i < lim \<Longrightarrow> \<not> P i) \<Longrightarrow> last_bit P lim n"
  unfolding last_bit_def by (metis le_neq_implies_less less_le_trans not_le_imp_less)

lemma bit_push_word:
  assumes "n < 64" "r < 64"
  shows "bit (push_bit (63 - r) (bv_word v k)) n \<longleftrightarrow> 63 - r \<le> n \<and> getbit v (64 * k + (n + r - 63))"
proof (cases "63 - r \<le> n")
  case True
  then have "n - (63 - r) = n + r - 63" using assms by linarith
  with True assms bit_bv_word [of "n + r - 63" v k] show ?thesis by (simp add: bit_simps)
next
  case False
  then show ?thesis by (simp add: bit_simps)
qed

lemma nat_int_mult_64 [simp]: "nat (int k * 64) = k * 64"
  by (simp add: nat_mult_distrib)

lemma bitref_prev_loop_spec: "- 1 \<le> idx \<Longrightarrow> last_bit (getbit v) (nat (idx + 1)) (bitref_prev_loop v idx)"
proof (induction v idx rule: bitref_prev_loop.induct)
  case (1 v idx)
  show ?case
  proof (cases "idx \<ge> 0")
    case False
    with 1(2) show ?thesis by (subst bitref_prev_loop.simps) (simp add: last_bit_def)
  next
    case True
    define n where "n = nat idx"
    obtain k r where k: "n = 64 * k + r" "r < 64" "n div 64 = k" "n mod 64 = r" by (rule split64)
    have idx: "idx = int n" "nat (idx + 1) = Suc n" using True by (simp_all add: n_def)
    define w where "w = push_bit (63 - r) (bv_word v k)"
    have w: "j < 64 \<Longrightarrow> bit w j \<longleftrightarrow> 63 - r \<le> j \<and> getbit v (64 * k + (j + r - 63))" for j
      unfolding w_def by (rule bit_push_word) (use k in auto)
    have wd: "w = push_bit (64 - 1 - n mod 64) (bv_word v (n div 64))" by (simp add: w_def k(3,4))
    show ?thesis
    proof (cases "w = 0")
      case zero: True
      have nz: "\<not> getbit v i" if "64 * k \<le> i" "i < Suc n" for i
      proof -
        have "64 * k + ((i - 64 * k + 63 - r) + r - 63) = i" "i - 64 * k + 63 - r < 64" "63 - r \<le> i - 64 * k + 63 - r"
          using that k(1,2) by linarith+
        with w [of "i - 64 * k + 63 - r"] zero show ?thesis by simp
      qed
      have "last_bit (getbit v) (64 * k) (bitref_prev_loop v (int (n div 64 * 64) - 1))"
        using 1(1) [OF True n_def wd] zero by (simp add: k(3) mult.commute)
      then have "last_bit (getbit v) (Suc n) (bitref_prev_loop v (int (n div 64 * 64) - 1))"
        using nz k(1) by (rule_tac last_bit_skip [of "64 * k"]) auto
      then show ?thesis unfolding idx(2) using True zero
        by (subst bitref_prev_loop.simps) (simp add: Let_def k(3,4) n_def [symmetric] w_def [symmetric])
    next
      case False
      then have e: "bitref_prev_loop v idx = idx - int (clz w)"
        using True by (subst bitref_prev_loop.simps) (simp add: Let_def k(3,4) n_def [symmetric] w_def [symmetric])
      note c = clz_spec [OF False]
      from c w [of "63 - clz w"] have m: "63 - r \<le> 63 - clz w" "getbit v (64 * k + (63 - clz w + r - 63))" by auto
      then have le: "clz w \<le> r" and e2: "64 * k + (63 - clz w + r - 63) = n - clz w" using c k(1,2) by linarith+
      have "\<not> getbit v i" if "n - clz w < i" "i < Suc n" for i
      proof -
        have "64 * k + ((i + 63 - n) + r - 63) = i" "i + 63 - n < 64" "63 - clz w < i + 63 - n"
          "63 - r \<le> i + 63 - n" using that k(1,2) le c by linarith+
        with w [of "i + 63 - n"] c show ?thesis by simp
      qed
      moreover have "idx - int (clz w) = int (n - clz w)" using idx le k(1) by simp
      ultimately show ?thesis using m(2) unfolding e idx(2) e2 last_bit_def by auto
    qed
  qed
qed

lemma max_index_last: "last_bit (getbit v) (64 * length v) (max_index v)"
  using bitref_prev_loop_spec [of "int (length v * 64) - 1" v]
  by (simp add: max_index_def bitref_prev_def mult.commute)

section \<open>Iteration and counting\<close>

definition bits_list :: "bitvec \<Rightarrow> nat list" where
  "bits_list v = filter (getbit v) [0..<64 * length v]"

lemma set_bits_list: "set (bits_list v) = {i. getbit v i}"
  by (auto simp: bits_list_def dest: getbit_length)

lemma finite_bits [simp]: "finite {i. getbit v i}"
  unfolding set_bits_list [symmetric] by simp

lemma filter_upt_first:
  assumes "first_bit P start n" "\<And>i. P i \<Longrightarrow> i < len"
  shows "filter P [start..<len] = (if n = -1 then [] else nat n # filter P [Suc (nat n)..<len])"
proof (cases "n = -1")
  case True
  with assms(1) show ?thesis by (auto simp: first_bit_def filter_empty_conv)
next
  case False
  with assms(1) obtain m where m: "n = int m" "start \<le> m" "P m" "\<forall>i. start \<le> i \<and> i < m \<longrightarrow> \<not> P i"
    by (auto simp: first_bit_def)
  then have "[start..<len] = [start..<m] @ m # [Suc m..<len]"
    using assms(2) [OF m(3)] upt_add_eq_append [OF m(2), of "len - m"] by (simp add: upt_conv_Cons)
  then have "filter P [start..<len] = filter P [start..<m] @ m # filter P [Suc m..<len]"
    using m(3) by simp
  moreover have "filter P [start..<m] = []" using m(4) by (auto simp: filter_empty_conv)
  ultimately show ?thesis using False m(1) by simp
qed

lemma iterate_from_spec:
  "n = -1 \<or> 0 \<le> n \<and> getbit v (nat n) \<Longrightarrow>
     iterate_from v n = (if n = -1 then [] else filter (getbit v) [nat n..<64 * length v])"
proof (induction v n rule: iterate_from.induct)
  case (1 v n)
  show ?case
  proof (cases "n = -1")
    case True
    then show ?thesis by (subst iterate_from.simps) simp
  next
    case False
    with 1(2) have n: "0 \<le> n" "getbit v (nat n)" by auto
    define m where "m = bitref_next v n"
    have f: "first_bit (getbit v) (Suc (nat n)) m"
      using bitref_next_first [of n v] n(1) by (simp add: m_def nat_add_distrib)
    then have m: "m = -1 \<or> n < m \<and> m < int (length v * 64) \<and> 0 \<le> m \<and> getbit v (nat m)"
      by (auto simp: first_bit_def dest: getbit_length)
    then have g: "0 \<le> n \<and> (bitref_next v n = - 1 \<or> n < bitref_next v n \<and> bitref_next v n < int (length v * bits_per_unit))"
      using n(1) by (auto simp: m_def)
    have "iterate_from v n = nat n # iterate_from v m"
      unfolding iterate_from.simps [of v n] m_def if_P [OF g] by (rule refl)
    also have "iterate_from v m = filter (getbit v) [Suc (nat n)..<64 * length v]"
      using 1(1) [OF g] m filter_upt_first [OF f getbit_length]
      by (auto simp: m_def [symmetric]) (metis getbit_length upt_conv_Cons filter.simps(2))
    also have "nat n # \<dots> = filter (getbit v) [nat n..<64 * length v]"
      using n(2) getbit_length [OF n(2)] by (simp add: upt_conv_Cons)
    finally show ?thesis using False by simp
  qed
qed

lemma iterate_bits: "iterate v = bits_list v"
proof -
  have f: "first_bit (getbit v) 0 (min_index v)" unfolding min_index_def by (rule bv_ffs_first)
  then have "min_index v = -1 \<or> 0 \<le> min_index v \<and> getbit v (nat (min_index v))" by (auto simp: first_bit_def)
  from iterate_from_spec [OF this] filter_upt_first [OF f getbit_length] this show ?thesis
    unfolding iterate_def bits_list_def
    by (auto) (metis getbit_length upt_conv_Cons filter.simps(2))
qed

lemma bits_Cons: "{i. getbit (w # ws) i} = {i. bit w i} \<union> (\<lambda>i. i + 64) ` {i. getbit ws i}"
proof (intro set_eqI iffI)
  fix i
  assume "i \<in> {i. getbit (w # ws) i}"
  then show "i \<in> {i. bit w i} \<union> (\<lambda>i. i + 64) ` {i. getbit ws i}"
    by (cases "i < 64") (auto simp: getbit_Cons intro!: image_eqI [of _ _ "i - 64"])
qed (auto simp: getbit_Cons dest: bit_imp_le_length)

lemma popcount_card: "bv_popcount v = card {i. getbit v i}"
proof (induction v)
  case (Cons w ws)
  have "finite {i. bit w i}" by (rule finite_subset [of _ "{..<64}"]) (auto dest: bit_imp_le_length)
  moreover have "{i. bit w i} \<inter> (\<lambda>i. i + 64) ` {i. getbit ws i} = {}" by (auto dest: bit_imp_le_length)
  ultimately show ?case
    unfolding bits_Cons by (subst card_Un_disjoint) (use Cons in \<open>auto simp: bv_popcount_def word_popcount_card card_image\<close>)
qed (simp add: bv_popcount_def)

lemma is_empty_iff: "bv_is_empty v \<longleftrightarrow> (\<forall>i. \<not> getbit v i)"
proof (induction v)
  case (Cons w ws)
  have "w = 0 \<longleftrightarrow> (\<forall>i<64. \<not> getbit (w # ws) i)" by (simp add: word_0_iff getbit_Cons)
  moreover have "(\<forall>i. \<not> getbit ws i) \<longleftrightarrow> (\<forall>i\<ge>64. \<not> getbit (w # ws) i)"
    by (auto simp: getbit_Cons) (metis add_diff_cancel_right' le_add2 not_le)
  ultimately show ?case using Cons by (auto simp: bv_is_empty_def) (metis not_le_imp_less)+
qed (simp add: bv_is_empty_def)

lemma is_empty_val: "bv_is_empty v \<longleftrightarrow> bv_val v = 0"
  by (simp add: is_empty_iff bit_eq_iff bit_bv_val)

text \<open>A vector is contiguous if its bits are a non-empty interval.\<close>

lemma is_contiguous_iff: "is_contiguous v \<longleftrightarrow> (\<exists>a b. a < b \<and> (\<forall>i. getbit v i \<longleftrightarrow> a \<le> i \<and> i < b))"
proof (cases "bv_is_empty v")
  case True
  then show ?thesis by (auto simp: is_contiguous_def is_empty_iff)
next
  case False
  then obtain i0 where i0: "getbit v i0" by (auto simp: is_empty_iff)
  have "first_bit (getbit v) 0 (min_index v)" unfolding min_index_def by (rule bv_ffs_first)
  then obtain lo where lo: "min_index v = int lo" "getbit v lo" "\<forall>i<lo. \<not> getbit v i"
    using i0 by (auto simp: first_bit_def)
  from max_index_last [of v] i0 getbit_length obtain hi where
    hi: "max_index v = int hi" "getbit v hi" "\<forall>i. hi < i \<and> i < 64 * length v \<longrightarrow> \<not> getbit v i"
    by (auto simp: last_bit_def)
  have hi3: "\<not> getbit v i" if "hi < i" for i using hi(3) that getbit_length by blast
  have sub: "{i. getbit v i} \<subseteq> {lo..hi}" using lo(3) hi3 by (auto simp: not_less [symmetric])
  have le: "lo \<le> hi" using lo hi by (meson not_le)
  have "is_contiguous v \<longleftrightarrow> card {i. getbit v i} = card {lo..hi}"
    using False le by (simp add: is_contiguous_def lo hi popcount_card) linarith
  also have "\<dots> \<longleftrightarrow> {i. getbit v i} = {lo..hi}" using card_subset_eq [OF finite_atLeastAtMost sub] by metis
  also have "\<dots> \<longleftrightarrow> (\<exists>a b. a < b \<and> (\<forall>i. getbit v i \<longleftrightarrow> a \<le> i \<and> i < b))"
  proof
    assume "{i. getbit v i} = {lo..hi}"
    then show "\<exists>a b. a < b \<and> (\<forall>i. getbit v i \<longleftrightarrow> a \<le> i \<and> i < b)"
      using le by (intro exI [of _ lo] exI [of _ "Suc hi"]) (simp add: set_eq_iff less_Suc_eq_le)
  next
    assume "\<exists>a b. a < b \<and> (\<forall>i. getbit v i \<longleftrightarrow> a \<le> i \<and> i < b)"
    then obtain a b where ab: "\<forall>i. getbit v i \<longleftrightarrow> a \<le> i \<and> i < b" by blast
    with lo hi have "a \<le> lo" "hi < b" by auto
    with sub ab show "{i. getbit v i} = {lo..hi}" by auto
  qed
  finally show ?thesis .
qed

end
