(* ===== verification/BitVec_Arith.thy ===== *)
theory BitVec_Arith
  imports BitVec_Ops
begin

text \<open>The operations of a bit vector on whole vectors: set operations, comparison, shifts, rotation,
  slices and text.\<close>

section \<open>Set operations\<close>

lemma and_assign_length [simp]: "length (snd (and_assign v a)) = length v"
  by (induction v a rule: and_assign.induct) (auto split: prod.split)

lemma getbit_zeros [simp]: "\<not> getbit (replicate n 0) i"
  by (auto simp: getbit_nth)

lemma getbit_and_assign: "getbit (snd (and_assign v a)) i \<longleftrightarrow> getbit v i \<and> getbit a i"
proof (induction v a arbitrary: i rule: and_assign.induct)
  case (2 x xs)
  then show ?case by (auto simp: getbit_Cons)
next
  case (3 x xs y ys)
  then show ?case by (simp add: getbit_Cons bit_and_iff case_prod_beta Let_def)
qed auto

lemma and_assign_changed: "fst (and_assign v a) \<longleftrightarrow> snd (and_assign v a) \<noteq> v"
proof (induction v a rule: and_assign.induct)
  case (2 x xs)
  have "(list_ex (\<lambda>w. w \<noteq> 0) ys) = (replicate (length ys) 0 \<noteq> ys)" for ys :: bitvec
    by (induction ys) auto
  from this [of "x # xs"] show ?case by simp
qed (auto split: prod.split)

lemma or_words_length [simp]: "length (snd (or_words v a)) = length v"
  by (induction v a rule: or_words.induct) (auto split: prod.split)

lemma getbit_or_words: "length a \<le> length v \<Longrightarrow> getbit (snd (or_words v a)) i \<longleftrightarrow> getbit v i \<or> getbit a i"
  by (induction v a arbitrary: i rule: or_words.induct) (auto simp: getbit_Cons bit_or_iff split: prod.split)

lemma or_words_changed: "fst (or_words v a) \<longleftrightarrow> snd (or_words v a) \<noteq> v"
  by (induction v a rule: or_words.induct) (auto split: prod.split)

lemma getbit_grow_to [simp]: "getbit (grow_to v a) i \<longleftrightarrow> getbit v i"
  by (simp add: grow_to_def)

lemma length_grow_to: "length a \<le> length (grow_to v a)" "length v \<le> length (grow_to v a)"
  using round_size_ge [of "length a"] by (auto simp: grow_to_def length_expand)

lemma getbit_or_assign: "getbit (snd (or_assign v a)) i \<longleftrightarrow> getbit v i \<or> getbit a i"
  by (simp add: or_assign_def getbit_or_words length_grow_to)

text \<open>The result of an assignment tells whether a bit changed.\<close>

lemma same_length_eq: "length v = length a \<Longrightarrow> v = a \<longleftrightarrow> (\<forall>i. getbit v i = getbit a i)"
proof (induction v a rule: list_induct2)
  case (Cons x xs y ys)
  have "x = y \<longleftrightarrow> (\<forall>i<64. getbit (x # xs) i = getbit (y # ys) i)"
    by (simp add: getbit_Cons bit_eq_iff)
  moreover have "(\<forall>i. getbit xs i = getbit ys i) \<longleftrightarrow> (\<forall>i\<ge>64. getbit (x # xs) i = getbit (y # ys) i)"
    by (auto simp: getbit_Cons) (metis add_diff_cancel_right' le_add2)+
  ultimately show ?case using Cons by (metis list.inject not_le_imp_less)
qed simp

lemma same_length_val: "length v = length a \<Longrightarrow> v = a \<longleftrightarrow> bv_val v = bv_val a"
  by (simp add: same_length_eq bv_val_eq_iff)

lemma and_assign_val: "bv_val (snd (and_assign v a)) = bv_val v AND bv_val a"
  by (rule bv_val_eqI) (simp add: getbit_and_assign bit_and_iff bit_bv_val)

lemma and_assign_flag: "fst (and_assign v a) \<longleftrightarrow> bv_val v AND bv_val a \<noteq> bv_val v"
  by (simp add: and_assign_changed same_length_val and_assign_val)

lemma or_assign_val: "bv_val (snd (or_assign v a)) = bv_val v OR bv_val a"
  by (rule bv_val_eqI) (simp add: getbit_or_assign bit_or_iff bit_bv_val)

lemma bv_val_grow_to [simp]: "bv_val (grow_to v a) = bv_val v"
  by (simp add: bv_val_eq_iff)

lemma or_assign_flag: "fst (or_assign v a) \<longleftrightarrow> bv_val v OR bv_val a \<noteq> bv_val v"
  using or_assign_val [of v a] by (simp add: or_assign_def or_words_changed same_length_val)

lemma getbit_bv_and: "getbit (bv_and v a) i \<longleftrightarrow> getbit v i \<and> getbit a i"
  by (auto simp: bv_and_def getbit_and_assign)

lemma getbit_bv_or: "getbit (bv_or v a) i \<longleftrightarrow> getbit v i \<or> getbit a i"
  by (simp add: bv_or_def getbit_or_assign)

lemma xor_words_length [simp]: "length (xor_words v a) = length v"
  by (induction v a rule: xor_words.induct) auto

lemma getbit_xor_words: "length a \<le> length v \<Longrightarrow> getbit (xor_words v a) i \<longleftrightarrow> getbit v i \<noteq> getbit a i"
  by (induction v a arbitrary: i rule: xor_words.induct) (auto simp: getbit_Cons bit_xor_iff)

lemma getbit_bv_xor: "getbit (bv_xor v a) i \<longleftrightarrow> getbit v i \<noteq> getbit a i"
  by (simp add: bv_xor_def getbit_xor_words length_grow_to)

lemma minus_assign_length [simp]: "length (snd (minus_assign v a)) = length v"
  by (induction v a rule: minus_assign.induct) (auto split: prod.split)

lemma getbit_minus_assign: "getbit (snd (minus_assign v a)) i \<longleftrightarrow> getbit v i \<and> \<not> getbit a i"
  by (induction v a arbitrary: i rule: minus_assign.induct)
    (simp_all add: getbit_Cons bit_and_iff bit_not_iff case_prod_beta Let_def)

lemma minus_assign_changed: "fst (minus_assign v a) \<longleftrightarrow> snd (minus_assign v a) \<noteq> v"
  by (induction v a rule: minus_assign.induct) (auto split: prod.split)

lemma getbit_bv_minus: "getbit (bv_minus v a) i \<longleftrightarrow> getbit v i \<and> \<not> getbit a i"
  by (simp add: bv_minus_def getbit_minus_assign)

lemma minus_assign_val: "bv_val (snd (minus_assign v a)) = bv_val v AND NOT (bv_val a)"
  by (rule bv_val_eqI) (simp add: getbit_minus_assign bit_and_iff bit_not_iff bit_bv_val)

lemma minus_assign_flag: "fst (minus_assign v a) \<longleftrightarrow> bv_val v AND NOT (bv_val a) \<noteq> bv_val v"
  by (simp add: minus_assign_changed same_length_val minus_assign_val)

lemma getbit_or_assign_word:
  "v \<noteq> [] \<Longrightarrow> getbit (snd (or_assign_word v w)) i \<longleftrightarrow> getbit v i \<or> bit w i"
  by (cases v) (auto simp: or_assign_word_def getbit_Cons bit_or_iff dest: bit_imp_le_length)

section \<open>Comparison\<close>

lemma word_cong: "(\<forall>n<64. bit (x :: bvunit) n = bit y n) \<longleftrightarrow> x = y"
  by (simp add: bit_eq_iff)

lemma getbit_word: "getbit v i \<longleftrightarrow> bit (bv_word v (i div 64)) (i mod 64)"
  by (simp add: getbit_nth bv_word_def)

lemma words_eq_iff: "(\<forall>i. getbit v i = getbit a i) \<longleftrightarrow> (\<forall>k. bv_word v k = bv_word a k)"
proof
  assume a: "\<forall>i. getbit v i = getbit a i"
  show "\<forall>k. bv_word v k = bv_word a k"
    using a by (auto simp: word_cong [symmetric] bit_bv_word)
qed (simp add: getbit_word)

lemma bv_word_beyond: "length v \<le> k \<Longrightarrow> bv_word v k = 0"
  by (simp add: bv_word_def)

lemma bv_eq_iff: "bv_eq v a \<longleftrightarrow> bv_val v = bv_val a"
proof -
  have "bv_eq v a \<longleftrightarrow> (\<forall>k. bv_word v k = bv_word a k)"
  proof
    assume "bv_eq v a"
    then have "bv_word v k = bv_word a k" if "k < max (length v) (length a)" for k
      using that by (simp add: bv_eq_def list_all_iff)
    then show "\<forall>k. bv_word v k = bv_word a k" by (metis bv_word_beyond max.bounded_iff not_le_imp_less)
  qed (simp add: bv_eq_def list_all_iff)
  then show ?thesis by (simp add: bv_val_eq_iff words_eq_iff)
qed

lemma take_bit_words: "take_bit (64 * Suc k) (bv_val v) = take_bit (64 * k) (bv_val v) + 2 ^ (64 * k) * uint (bv_word v k)"
proof -
  have "bit (take_bit (64 * k) (bv_val v) + 2 ^ (64 * k) * uint (bv_word v k)) i \<longleftrightarrow>
      bit (take_bit (64 * Suc k) (bv_val v)) i" for i
    by (subst bit_add_exp)
      (auto simp: bit_take_bit_iff bit_bv_val bit_uint_iff bit_bv_word dest: bit_imp_le_length)
  then show ?thesis by (auto intro: bit_eqI)
qed

lemma less_loop_val:
  "less_loop v a k \<longleftrightarrow> take_bit (64 * k) (bv_val v) < take_bit (64 * k) (bv_val a)"
proof (induction k)
  case (Suc k)
  have m: "take_bit (64 * k) x < 2 ^ (64 * k)" "0 \<le> take_bit (64 * k) x" for x :: int by simp_all
  have lex: "x + b * p < y + b * q \<longleftrightarrow> p < q \<or> p = q \<and> x < y"
    if "0 \<le> x" "x < b" "0 \<le> y" "y < b" for x y p q b :: int
  proof -
    have "b * p + b \<le> b * q" if "p < q"
      using that \<open>0 \<le> x\<close> \<open>x < b\<close> mult_left_mono [of "p + 1" q b] by (simp add: algebra_simps)
    moreover have "b * q + b \<le> b * p" if "q < p"
      using that \<open>0 \<le> x\<close> \<open>x < b\<close> mult_left_mono [of "q + 1" p b] by (simp add: algebra_simps)
    ultimately show ?thesis using that by (cases p q rule: linorder_cases) auto
  qed
  show ?case unfolding take_bit_words lex [OF m(2,1) m(2,1)] less_loop.simps
    using Suc by (auto simp: word_less_def)
qed simp

lemma bv_less_iff: "bv_less v a \<longleftrightarrow> bv_val v < bv_val a"
proof -
  let ?m = "max (length v) (length a)"
  have "take_bit (64 * ?m) (bv_val x) = bv_val x" if "length x \<le> ?m" for x
    using less_le_trans [OF bv_val_less [of x] power_increasing [of "64 * length x" "64 * ?m" "2::int"]] that
    by (intro take_bit_int_eq_self) simp_all
  then show ?thesis by (simp add: bv_less_def less_loop_val)
qed

lemma getbit_both_words: "bv_word v k AND bv_word a k \<noteq> 0 \<longleftrightarrow> (\<exists>n<64. getbit v (64 * k + n) \<and> getbit a (64 * k + n))"
  by (auto simp: word_0_iff bit_and_iff bit_bv_word)

lemma bv_intersects_iff: "bv_intersects v a \<longleftrightarrow> bv_val v AND bv_val a \<noteq> 0"
proof -
  have "bv_intersects v a \<longleftrightarrow> (\<exists>k<min (length v) (length a). \<exists>n<64. getbit v (64 * k + n) \<and> getbit a (64 * k + n))"
    by (auto simp: bv_intersects_def list_ex_iff getbit_both_words)
  also have "\<dots> \<longleftrightarrow> (\<exists>i. getbit v i \<and> getbit a i)"
  proof
    assume "\<exists>i. getbit v i \<and> getbit a i"
    then obtain i where i: "getbit v i" "getbit a i" by blast
    obtain k r where "i = 64 * k + r" "r < 64" by (rule split64)
    with i getbit_length [OF i(1)] getbit_length [OF i(2)]
    show "\<exists>k<min (length v) (length a). \<exists>n<64. getbit v (64 * k + n) \<and> getbit a (64 * k + n)"
      by (intro exI [of _ k]) auto
  qed blast
  finally show ?thesis by (simp add: bit_eq_iff bit_and_iff bit_bv_val)
qed

lemma bv_contains_iff: "bv_contains v a \<longleftrightarrow> (\<forall>i. getbit a i \<longrightarrow> getbit v i)"
proof -
  have "bv_contains v a \<longleftrightarrow> (\<forall>k. bv_word v k AND bv_word a k = bv_word a k)"
  proof
    assume c: "bv_contains v a"
    show "\<forall>k. bv_word v k AND bv_word a k = bv_word a k"
    proof
      fix k
      consider "k < min (length v) (length a)" | "length v \<le> k" "k < length a" | "length a \<le> k" by linarith
      then show "bv_word v k AND bv_word a k = bv_word a k"
        using c by cases (auto simp: bv_contains_def list_all_iff bv_word_beyond)
    qed
  next
    assume c: "\<forall>k. bv_word v k AND bv_word a k = bv_word a k"
    then have "bv_word a k = 0" if "length v \<le> k" for k using bv_word_beyond [OF that] by (metis and_zero_eq and.left_neutral bit.conj_zero_left)
    with c show "bv_contains v a" by (auto simp: bv_contains_def list_all_iff)
  qed
  also have "\<dots> \<longleftrightarrow> (\<forall>k. \<forall>n<64. getbit a (64 * k + n) \<longrightarrow> getbit v (64 * k + n))"
    by (auto simp: word_cong [symmetric] bit_and_iff bit_bv_word)
  also have "\<dots> \<longleftrightarrow> (\<forall>i. getbit a i \<longrightarrow> getbit v i)" by (metis split64)
  finally show ?thesis .
qed

end
