(* ===== verification/BitVec_Shift.thy ===== *)
theory BitVec_Shift
  imports BitVec_Arith
begin

text \<open>Shifts, rotation, slices and text of a bit vector.\<close>

section \<open>Shifts\<close>

lemma drop_zero_words_spec: "v \<noteq> [] \<Longrightarrow> drop_zero_words v \<noteq> [] \<and> (\<forall>i. getbit (drop_zero_words v) i = getbit v i)"
proof (induction v rule: drop_zero_words.induct)
  case (1 v)
  show ?case
  proof (cases "length v > 1 \<and> last v = 0")
    case True
    then have "v = butlast v @ replicate 1 0" by (metis append_butlast_last_id list.size(3) not_less_zero replicate_0 One_nat_def replicate_Suc)
    then have "getbit v i = getbit (butlast v) i" for i by (metis getbit_append_zeros)
    moreover have "butlast v \<noteq> []" using True by (metis length_butlast length_greater_0_conv zero_less_diff)
    ultimately show ?thesis using 1(1) [OF True] True by (subst (1 2) drop_zero_words.simps) simp
  next
    case False
    then have "drop_zero_words v = v" by (subst drop_zero_words.simps) (simp only: if_False)
    with 1(2) show ?thesis by simp
  qed
qed

lemma bit_shr_word:
  assumes "n < 64" "c < 64"
  shows "bit (shr_word v off c k) n \<longleftrightarrow> getbit v (64 * (k + off) + (n + c))"
proof (cases "n + c < 64")
  case True
  have no: "\<not> bit (push_bit (64 - c) x) n" for x :: bvunit using True by (auto simp: bit_push_bit_iff)
  show ?thesis
  proof (cases "k + off < length v")
    case l: True
    then show ?thesis using True no bit_nth [OF l True]
      by (simp add: shr_word_def Let_def bit_or_iff bit_drop_bit_eq add.commute)
  next
    case False
    then have "\<not> getbit v (64 * (k + off) + (n + c))" by (auto dest: getbit_length)
    with False show ?thesis by (simp add: shr_word_def)
  qed
next
  case False
  have e: "64 * (k + off) + (n + c) = 64 * (k + off + 1) + (n + c - 64)" using False by simp
  have no: "\<not> bit (drop_bit c (x :: bvunit)) n" for x using False by (auto simp: bit_drop_bit_eq dest: bit_imp_le_length)
  show ?thesis
  proof (cases "k + off + 1 < length v")
    case l: True
    have "bit (push_bit (64 - c) (v ! (k + off + 1))) n = getbit v (64 * (k + off + 1) + (n + c - 64))"
      using assms False bit_nth [OF l, of "n + c - 64"] by (auto simp: bit_push_bit_iff)
    then show ?thesis unfolding e using l False no assms by (simp add: shr_word_def Let_def bit_or_iff)
  next
    case l: False
    then have "\<not> getbit v (64 * (k + off + 1) + (n + c - 64))" by (auto dest: getbit_length)
    with l no show ?thesis unfolding e by (simp add: shr_word_def Let_def)
  qed
qed

lemma getbit_shr_assign:
  assumes "v \<noteq> []"
  shows "shr_assign v count \<noteq> []" "getbit (shr_assign v count) i \<longleftrightarrow> getbit v (i + count)"
proof -
  obtain off c where c: "count = 64 * off + c" "c < 64" "count div 64 = off" "count mod 64 = c" by (rule split64)
  obtain a b where i: "i = 64 * a + b" "b < 64" "i div 64 = a" "i mod 64 = b" by (rule split64)
  let ?m = "map (shr_word v off c) [0..<length v]"
  have m: "getbit ?m i \<longleftrightarrow> getbit v (i + count)"
  proof (cases "a < length v")
    case True
    have "64 * (a + off) + (b + c) = i + count" using c(1) i(1) by simp
    with True bit_shr_word [OF i(2) c(2), of v off a] show ?thesis by (simp add: getbit_map_upt i(3,4))
  next
    case False
    then have "\<not> getbit v (i + count)" using i by (auto dest!: getbit_length)
    with False show ?thesis by (simp add: getbit_map_upt i(3))
  qed
  have ne: "?m \<noteq> []" using assms by simp
  note d = drop_zero_words_spec [OF ne]
  show "shr_assign v count \<noteq> []" using d by (simp add: shr_assign_def c(3,4))
  show "getbit (shr_assign v count) i \<longleftrightarrow> getbit v (i + count)"
  proof (cases "length v = 1")
    case True
    then obtain w where "v = [w]" by (auto simp: length_Suc_conv)
    then show ?thesis by (auto simp: shr_assign_def getbit_single bit_drop_bit_eq add.commute dest: bit_imp_le_length)
  next
    case False
    with d m show ?thesis by (simp add: shr_assign_def c(3,4))
  qed
qed

lemma shr_assign_val: "v \<noteq> [] \<Longrightarrow> bv_val (shr_assign v count) = bv_val v div 2 ^ count"
  by (simp add: bv_val_eqI getbit_shr_assign bit_drop_bit_eq bit_bv_val add.commute flip: drop_bit_eq_div)

lemma bit_shl_word:
  assumes "n < 64" "c < 64" "k < length v"
  shows "bit (shl_word v off c k) n \<longleftrightarrow> 64 * off + c \<le> 64 * k + n \<and> getbit v (64 * k + n - (64 * off + c))"
proof (cases "off \<le> k")
  case False
  then have "\<not> 64 * off + c \<le> 64 * k + n" using assms(1) by linarith
  with False show ?thesis by (simp add: shl_word_def)
next
  case ko: True
  have l: "k - off < length v" using assms(3) by simp
  show ?thesis
  proof (cases "c \<le> n")
    case True
    have e: "64 * off + c \<le> 64 * k + n" "64 * k + n - (64 * off + c) = 64 * (k - off) + (n - c)"
      using ko True by (simp_all add: diff_mult_distrib2)
    have no: "\<not> bit (drop_bit (64 - c) (x :: bvunit)) n" for x using True by (auto simp: bit_drop_bit_eq dest: bit_imp_le_length)
    from True assms l no e show ?thesis by (simp add: shl_word_def Let_def bit_or_iff bit_push_bit_iff bit_nth ko)
  next
    case False
    have no: "\<not> bit (push_bit c (x :: bvunit)) n" for x using False by (simp add: bit_simps)
    show ?thesis
    proof (cases "off < k")
      case True
      have e: "64 * off + c \<le> 64 * k + n" "64 * k + n - (64 * off + c) = 64 * (k - off - 1) + (64 - c + n)"
        using True False assms by (auto simp: diff_mult_distrib2) 
      from True False assms no e show ?thesis by (simp add: shl_word_def Let_def bit_or_iff bit_drop_bit_eq bit_nth)
    next
      case False
      with ko have "k = off" by simp
      with no \<open>\<not> c \<le> n\<close> show ?thesis by (simp add: shl_word_def Let_def)
    qed
  qed
qed

lemma shl_assign_spec:
  assumes "v \<noteq> []" "\<not> (bv_val v = 0 \<and> length v = 1 \<and> count = 64)"
  obtains r where "shl_assign v count = Some r" "r \<noteq> []" "\<And>i. getbit r i \<longleftrightarrow> count \<le> i \<and> getbit v (i - count)"
    "length v \<le> length r"
proof -
  obtain off c where c: "count = 64 * off + c" "c < 64" "count div 64 = off" "count mod 64 = c" by (rule split64)
  define needsize where "needsize = nat (max_index v + int count + int 64) div 64"
  define u where "u = (if needsize > length v then expand v needsize else v)"
  have gu: "getbit u i = getbit v i" for i by (simp add: u_def)
  have lu: "needsize \<le> length u" "length v \<le> length u" "u \<noteq> []"
    using round_size_ge [of needsize] assms(1) by (auto simp: u_def length_expand expand_def)
  have fits: "i + count < 64 * length u" if "getbit v i" for i
  proof -
    from max_index_last [of v] that getbit_length [OF that] have "int i \<le> max_index v"
      unfolding last_bit_def by (metis not_le of_nat_le_iff)
    then have "i + count + 64 \<le> nat (max_index v + int count + int 64)" by linarith
    then have "i + count + 64 < 64 * (needsize + 1)" unfolding needsize_def using mod_less_divisor [of 64] div_mult_mod_eq [of _ 64]
      by (metis (no_types, lifting) dividend_less_times_div distrib_left le_less_trans mult.right_neutral zero_less_numeral add.commute)
    moreover have "64 * (needsize + 1) \<le> 64 * (length u + 1)" using lu(1) by (intro mult_le_mono) simp_all
    ultimately show ?thesis by simp
  qed
  define r where "r = map (shl_word u off c) [0..<length u]"
  have gr: "getbit r i \<longleftrightarrow> count \<le> i \<and> getbit v (i - count)" for i
  proof -
    obtain a b where i: "i = 64 * a + b" "b < 64" "i div 64 = a" "i mod 64 = b" by (rule split64)
    show ?thesis
    proof (cases "a < length u")
      case True
      from bit_shl_word [OF i(2) c(2) True, of off] True show ?thesis
        by (simp add: r_def getbit_map_upt i(3,4) gu c(1) [symmetric] i(1) [symmetric])
    next
      case False
      then have "\<not> (count \<le> i \<and> getbit v (i - count))" using fits [of "i - count"] i by auto
      with False show ?thesis by (simp add: r_def getbit_map_upt i(3))
    qed
  qed
  show thesis
  proof (cases "length u = 1")
    case False
    then have "shl_assign v count = Some r"
      unfolding shl_assign_def Let_def needsize_def [symmetric] u_def [symmetric] c(3,4) r_def by simp
    with gr lu show thesis by (intro that [of r]) (auto simp: r_def)
  next
    case True
    then obtain w where w: "u = [w]" by (auto simp: length_Suc_conv)
    with lu(2) assms(1) have l1: "length v = 1" by (cases v) auto
    have small: "count < 64"
    proof (rule ccontr)
      assume big: "\<not> count < 64"
      show False
      proof (cases "bv_is_empty v")
        case True
        then have "max_index v = -1" using max_index_last [of v] by (auto simp: last_bit_def is_empty_iff)
        then have "needsize = (count + 63) div 64" by (simp add: needsize_def nat_add_distrib algebra_simps) 
        moreover have "count \<noteq> 64" using assms(2) l1 True by (simp add: is_empty_val)
        ultimately have "1 < needsize" using big by (simp add: less_eq_div_iff_mult_less_eq less_eq_Suc_le)
        with lu(1) \<open>length u = 1\<close> show False by simp
      next
        case False
        then obtain i where "getbit v i" by (auto simp: is_empty_iff)
        from fits [OF this] True big show False by simp
      qed
    qed
    have s: "shl_assign v count = Some [push_bit count (u ! 0)]"
      using small True unfolding shl_assign_def Let_def needsize_def [symmetric] u_def [symmetric] by simp
    have "getbit [push_bit count (u ! 0)] i \<longleftrightarrow> count \<le> i \<and> getbit v (i - count)" for i
      using gu [of "i - count"] fits [of "i - count"] True unfolding w by (auto simp: getbit_single bit_simps dest: bit_imp_le_length)
    with s l1 show thesis by (intro that [OF s]) auto
  qed
qed

lemma shl_val: "(\<And>i. getbit r i \<longleftrightarrow> count \<le> i \<and> getbit v (i - count)) \<Longrightarrow> bv_val r = bv_val v * 2 ^ count"
  by (rule bv_val_eqI) (simp add: bit_push_bit_iff bit_bv_val flip: push_bit_eq_mult)

section \<open>Rotation\<close>

lemma getbit_bv_of_range: "getbit (bv_of_range lo cnt) i \<longleftrightarrow> lo \<le> i \<and> i < lo + cnt"
  by (simp add: bv_of_range_def getbit_setrange getbit_single)

lemma length_reserve_le: "length v \<le> length (reserve v b n)"
  by (simp add: reserve_def length_expand)

lemma setrange_nonempty: "v \<noteq> [] \<Longrightarrow> setrange v idx sz \<noteq> []"
proof -
  assume v: "v \<noteq> []"
  have "length v \<le> length (setrange v idx sz)"
    by (simp add: setrange_def Let_def length_reserve_le)
  with v show ?thesis by auto
qed

lemma bv_or_nonempty: "v \<noteq> [] \<Longrightarrow> bv_or v a \<noteq> []"
proof -
  assume v: "v \<noteq> []"
  have "length (bv_or v a) = length (grow_to v a)" by (simp add: bv_or_def or_assign_def)
  with length_grow_to(2) [of v a] v show ?thesis by auto
qed

lemma bv_and_nonempty: "v \<noteq> [] \<Longrightarrow> a \<noteq> [] \<Longrightarrow> bv_and v a \<noteq> []"
  using and_assign_length [of v a] and_assign_length [of a v]
  by (auto simp: bv_and_def simp del: and_assign_length)

text \<open>The bit at \<open>rotation_idx\<close> moves to \<open>start_bit\<close>.\<close>

lemma rotate_right_helper_spec:
  assumes "v \<noteq> []" "s \<le> ro" "ro < e" "e - s - (ro - s) \<noteq> 64 \<or> 1 < length (bv_and v (bv_of_range s (e - s)))
      \<or> (\<exists>i. s \<le> i \<and> i < e \<and> getbit v i)"
  obtains r where "rotate_right_helper v s ro e = Some r"
    "\<And>i. getbit r i \<longleftrightarrow> s \<le> i \<and> i < e \<and> getbit v (if i + (ro - s) < e then i + (ro - s) else i + (ro - s) - (e - s))"
proof -
  let ?m = "bv_of_range s (e - s)"
  define d where "d = ro - s"
  obtain u where e: "e = s + d + u" and u: "0 < u" using assms(2,3) less_imp_add_positive [of ro e] by (auto simp: d_def)
  have diffs: "ro - s = d" "e - s = d + u" "e - s - (ro - s) = u" "d + u - d = u" using assms(2) by (simp_all add: d_def e)
  define w where "w = bv_and v ?m"
  have gm: "getbit ?m i \<longleftrightarrow> s \<le> i \<and> i < e" for i using assms(2,3) by (auto simp: getbit_bv_of_range)
  have gw: "getbit w i \<longleftrightarrow> getbit v i \<and> s \<le> i \<and> i < e" for i by (simp add: w_def getbit_bv_and gm)
  have wne: "w \<noteq> []" unfolding w_def
    by (intro bv_and_nonempty assms(1)) (simp add: bv_of_range_def setrange_nonempty)
  have "\<not> (bv_val w = 0 \<and> length w = 1 \<and> u = 64)"
    using assms(4) unfolding diffs(3) by (auto simp: is_empty_val [symmetric] is_empty_iff gw w_def [symmetric])
  from shl_assign_spec [OF wne this] obtain up where up: "shl_assign w u = Some up"
    "\<And>i. getbit up i \<longleftrightarrow> u \<le> i \<and> getbit w (i - u)" by metis
  define r where "r = bv_and (bv_or (shr_assign w d) up) ?m"
  have run: "rotate_right_helper v s ro e = Some r"
    unfolding rotate_right_helper_def Let_def w_def [symmetric] diffs(3) up(1) r_def d_def using assms(2,3) by simp
  have "getbit r i \<longleftrightarrow> s \<le> i \<and> i < e \<and> getbit v (if i + d < e then i + d else i + d - (d + u))" for i
  proof (cases "s \<le> i \<and> i < e")
    case False
    then show ?thesis by (auto simp: r_def getbit_bv_and gm)
  next
    case True
    have "getbit r i \<longleftrightarrow> getbit w (i + d) \<or> u \<le> i \<and> getbit w (i - u)"
      using True by (simp add: r_def getbit_bv_and getbit_bv_or gm getbit_shr_assign [OF wne] up(2))
    moreover have "getbit w (i + d) \<longleftrightarrow> i + d < e \<and> getbit v (i + d)"
      using True by (auto simp: gw)
    moreover have "u \<le> i \<and> getbit w (i - u) \<longleftrightarrow> \<not> i + d < e \<and> getbit v (i - u)"
      using True u unfolding gw e by auto
    ultimately show ?thesis using True by auto
  qed
  then show thesis using run by (intro that [of r]) (simp_all add: diffs)
qed

section \<open>Slices\<close>

text \<open>A slice of at most one word.\<close>

lemma bit_two_words:
  assumes "r < 64" "n < 64" "k < length v"
  shows "bit (let d = drop_bit r (v ! k) in
           if r \<noteq> 0 \<and> Suc k < length v then d OR push_bit (64 - r) (v ! Suc k) else d) n \<longleftrightarrow> getbit v (64 * k + r + n)"
proof (cases "r + n < 64")
  case True
  then have no: "\<not> bit (push_bit (64 - r) x) n" for x :: bvunit by (auto simp: bit_push_bit_iff)
  show ?thesis using no bit_nth [OF assms(3) True] by (simp add: Let_def bit_or_iff bit_drop_bit_eq add.assoc)
next
  case False
  then have no: "\<not> bit (drop_bit r (x :: bvunit)) n" for x by (auto simp: bit_drop_bit_eq dest: bit_imp_le_length)
  have e: "64 * k + r + n = 64 * Suc k + (r + n - 64)" using False by simp
  show ?thesis
  proof (cases "Suc k < length v")
    case True
    have "bit (push_bit (64 - r) (v ! Suc k)) n = getbit v (64 * k + r + n)"
      unfolding e using assms False bit_nth [OF True, of "r + n - 64"] by (auto simp: bit_push_bit_iff add.commute)
    with True no False assms(2) show ?thesis by (simp add: Let_def bit_or_iff)
  next
    case False
    then have "\<not> getbit v (64 * k + r + n)" unfolding e by (auto dest: getbit_length)
    with False no show ?thesis by (simp add: Let_def)
  qed
qed

lemma getslice_word:
  assumes "0 < sz" "sz \<le> 64" "v \<noteq> []"
  shows "\<exists>w. getslice v idx sz = Some [w] \<and> (\<forall>n. bit w n \<longleftrightarrow> n < sz \<and> getbit v (idx + n))"
proof (cases "length v * 64 \<le> idx")
  case True
  then have "\<not> getbit v (idx + n)" for n by (auto dest: getbit_length)
  with True assms show ?thesis by (simp add: getslice_def)
next
  case False
  obtain k r where k: "idx = 64 * k + r" "r < 64" "idx div 64 = k" "idx mod 64 = r" by (rule split64)
  have kv: "k < length v" using False k by simp
  define sz' where "sz' = (if idx + sz > length v * bits_per_unit then length v * bits_per_unit - idx else sz)"
  have sz': "0 < sz'" "sz' \<le> 64" "n < sz' \<and> getbit v (idx + n) \<longleftrightarrow> n < sz \<and> getbit v (idx + n)" for n
    using assms False getbit_length [of v "idx + n"] by (auto simp: sz'_def)
  define w where "w = (let d = drop_bit r (v ! k) in
           if r \<noteq> 0 \<and> Suc k < length v then d OR push_bit (64 - r) (v ! Suc k) else d) AND low_mask sz'"
  have bw: "bit w n \<longleftrightarrow> n < sz \<and> getbit v (idx + n)" for n
  proof (cases "n < 64")
    case True
    then show ?thesis unfolding w_def bit_and_iff bit_two_words [OF k(2) True kv] k(1) [symmetric]
      using sz' by (simp add: bit_low_mask) blast
  next
    case False
    then show ?thesis using assms(2) by (auto dest: bit_imp_le_length)
  qed
  have "getslice v idx sz = Some [w]"
  proof (cases "length v > 1")
    case True
    then show ?thesis using False assms(1) sz'(2)
      unfolding getslice_def sz'_def [symmetric] k(3,4) by (simp add: Let_def w_def)
  next
    case one: False
    with assms(3) have l: "length v = 1" by (cases v) auto
    with kv k have "k = 0" "r = idx" by simp_all
    then show ?thesis using False assms(1) one l
      unfolding getslice_def sz'_def [symmetric] by (simp add: Let_def w_def)
  qed
  with bw show ?thesis by blast
qed

text \<open>The words of a longer slice; the last one lacks what the next word of the source contributes.\<close>

definition slice_word :: "bitvec \<Rightarrow> nat \<Rightarrow> nat \<Rightarrow> nat \<Rightarrow> nat \<Rightarrow> bvunit" where
  "slice_word v k s n j =
     drop_bit s (v ! (k + j)) OR (if s \<noteq> 0 \<and> Suc j < n then push_bit (64 - s) (v ! (k + Suc j)) else 0)"

lemma slice_loop_words:
  "i + n = length rv \<Longrightarrow> k + length rv \<le> length v \<Longrightarrow>
     slice_loop v k s i n rv = Some (map (\<lambda>j.
       if Suc j < i then rv ! j
       else if Suc j = i then rv ! j OR (if s \<noteq> 0 \<and> 0 < n then push_bit (64 - s) (v ! (k + i)) else 0)
       else slice_word v k s (length rv) j) [0..<length rv])"
proof (induction n arbitrary: i rv)
  case 0
  then show ?case by (auto intro!: nth_equalityI)
next
  case (Suc n)
  define r1 where "r1 = (if s \<noteq> 0 \<and> i \<noteq> 0 then rv[i - 1 := rv ! (i - 1) OR push_bit (64 - s) (v ! (k + i))] else rv)"
  define r2 where "r2 = r1[i := drop_bit s (v ! (k + i))]"
  have len: "length r1 = length rv" "length r2 = length rv" by (simp_all add: r1_def r2_def)
  have step: "slice_loop v k s i (Suc n) rv = slice_loop v k s (Suc i) n r2"
    using Suc.prems by (simp add: Let_def r1_def r2_def)
  have ih: "slice_loop v k s (Suc i) n r2 = Some (map (\<lambda>j.
       if Suc j < Suc i then r2 ! j
       else if Suc j = Suc i then r2 ! j OR (if s \<noteq> 0 \<and> 0 < n then push_bit (64 - s) (v ! (k + Suc i)) else 0)
       else slice_word v k s (length rv) j) [0..<length rv])"
    using Suc.IH [of "Suc i" r2] Suc.prems by (simp add: len)
  show ?case
    unfolding step ih option.inject
  proof (rule map_cong [OF refl])
    fix j
    assume "j \<in> set [0..<length rv]"
    then consider "Suc j < i" | "Suc j = i" | "j = i" | "i < j" by fastforce
    then show "(if Suc j < Suc i then r2 ! j
       else if Suc j = Suc i then r2 ! j OR (if s \<noteq> 0 \<and> 0 < n then push_bit (64 - s) (v ! (k + Suc i)) else 0)
       else slice_word v k s (length rv) j) =
      (if Suc j < i then rv ! j
       else if Suc j = i then rv ! j OR (if s \<noteq> 0 \<and> 0 < Suc n then push_bit (64 - s) (v ! (k + i)) else 0)
       else slice_word v k s (length rv) j)"
      by cases (use Suc.prems in \<open>auto simp: r1_def r2_def slice_word_def\<close>)
  qed
qed

lemma bit_slice_word:
  assumes "s < 64" "b < 64" "k + j < length v" "Suc j < n \<Longrightarrow> k + Suc j < length v" "s + b < 64 \<or> Suc j < n"
  shows "bit (slice_word v k s n j) b \<longleftrightarrow> getbit v (64 * (k + j) + s + b)"
proof (cases "s + b < 64")
  case True
  then have no: "\<not> bit (push_bit (64 - s) x) b" for x :: bvunit by (auto simp: bit_push_bit_iff)
  show ?thesis using no bit_nth [OF assms(3) True] by (simp add: slice_word_def bit_or_iff bit_drop_bit_eq add.assoc)
next
  case False
  then have no: "\<not> bit (drop_bit s (x :: bvunit)) b" for x by (auto simp: bit_drop_bit_eq dest: bit_imp_le_length)
  from False assms(4,5) have n: "Suc j < n" "k + Suc j < length v" by auto
  have e: "64 * (k + j) + s + b = 64 * (k + Suc j) + (s + b - 64)" using False by simp
  have "bit (push_bit (64 - s) (v ! (k + Suc j))) b = getbit v (64 * (k + j) + s + b)"
    unfolding e using assms(1,2) False bit_nth [OF n(2), of "s + b - 64"] by (auto simp: bit_push_bit_iff add.commute)
  with n no False assms(2) show ?thesis by (simp add: slice_word_def bit_or_iff)
qed

lemma round_size_small: "n < 8 \<Longrightarrow> round_size n = n"
  by (simp add: round_size_def drop_bit_eq_div)

lemma getslice_long:
  assumes "64 < sz" "idx + sz \<le> 64 * length v" "sz \<le> 448" "idx mod 64 + (sz - 1) mod 64 < 64"
  shows "\<exists>r. getslice v idx sz = Some r \<and> (\<forall>i. getbit r i \<longleftrightarrow> i < sz \<and> getbit v (idx + i))"
proof -
  obtain k s where k: "idx = 64 * k + s" "s < 64" "idx div 64 = k" "idx mod 64 = s" by (rule split64)
  obtain l m where l: "sz - 1 = 64 * l + m" "m < 64" "(sz - 1) div 64 = l" "(sz - 1) mod 64 = m" by (rule split64)
  have sm: "s + m < 64" using assms(4) by (simp only: k(4) l(4))
  have sz: "sz = 64 * l + m + 1" using l(1) assms(1) by simp
  have l7: "l < 7" "0 < l" using sz assms(1,3) l(2) by linarith+
  have kl: "k + l < length v" using assms(2) unfolding k(1) sz by linarith
  define rv where "rv = expand bv_empty (l + 1)"
  have len: "length rv = l + 1" using l7 by (simp add: rv_def length_expand round_size_small)
  define ws where "ws = map (slice_word v k s (l + 1)) [0..<l + 1]"
  have loop: "slice_loop v k s 0 (length rv) rv = Some ws"
    using slice_loop_words [of 0 "length rv" rv k v s] kl by (simp add: len ws_def cong: map_cong)
  have gw: "getbit ws (64 * a + b) \<longleftrightarrow> getbit v (64 * (k + a) + s + b)" if "a < l \<or> a = l \<and> b \<le> m" "b < 64" for a b
    using that bit_slice_word [of s b k a v "l + 1"] k(2) kl sm unfolding ws_def getbit_map_upt by auto
  have wl: "length ws = l + 1" by (simp add: ws_def)
  define r where "r = (if sz mod 64 \<noteq> 0 then ws[length ws - 1 := ws ! (length ws - 1) AND low_mask (sz mod 64)] else ws)"
  have szm: "sz mod 64 = (if m = 63 then 0 else m + 1)" using l(2) by (auto simp: sz mod_Suc)
  have "getslice v idx sz = Some r"
    using assms(1,2) kl loop l7
    unfolding getslice_def k(3,4) Let_def r_def
    by (simp add: l(3) rv_def [symmetric] flip: One_nat_def)
  moreover have "getbit r i \<longleftrightarrow> i < sz \<and> getbit v (idx + i)" for i
  proof -
    obtain a b where i: "i = 64 * a + b" "b < 64" "i div 64 = a" "i mod 64 = b" by (rule split64)
    have ii: "idx + i = 64 * (k + a) + s + b" by (simp add: k(1) i(1))
    have isz: "i < sz \<longleftrightarrow> a < l \<or> a = l \<and> b \<le> m"
      unfolding sz i(1) less_Suc_eq_le Suc_eq_plus1 [symmetric] using i(2) l(2) by (simp add: le64)
    have "getbit r i \<longleftrightarrow> (a < l \<or> a = l \<and> b \<le> m) \<and> getbit ws i"
    proof (cases "m = 63")
      case True
      then show ?thesis using i getbit_length [of ws i] wl unfolding r_def szm by auto
    next
      case False
      have "getbit (ws[l := ws ! l AND low_mask (m + 1)]) (64 * a + b) \<longleftrightarrow> (if a = l then b \<le> m \<and> getbit ws i else getbit ws i)"
        using i(2) wl by (subst getbit_update64) (auto simp: bit_and_iff bit_low_mask bit_nth i(1))
      then show ?thesis using False i getbit_length [of ws i] wl unfolding r_def szm by auto
    qed
    moreover have "(a < l \<or> a = l \<and> b \<le> m) \<Longrightarrow> getbit ws i \<longleftrightarrow> getbit v (64 * (k + a) + s + b)"
      unfolding i(1) using i(2) by (intro gw)
    ultimately show ?thesis unfolding isz ii by blast
  qed
  ultimately show ?thesis by blast
qed

section \<open>Text\<close>

lemma hex_digit_val_digits: "n < 16 \<Longrightarrow> hex_digit_val (hex_digits ! n) = Some (of_nat n)"
proof -
  have "list_all (\<lambda>n. hex_digit_val (hex_digits ! n) = Some (of_nat n)) [0..<16]" by code_simp
  then show "n < 16 \<Longrightarrow> ?thesis" by (simp add: list_all_iff)
qed

text \<open>Reading digits multiplies the value by 16 and adds the digit.\<close>

lemma or_digit_val:
  assumes "v \<noteq> []" "d < 16"
  obtains r where "shl_assign v 4 = Some r" "r \<noteq> []" "snd (or_assign_word r (of_nat d)) \<noteq> []"
    "bv_val (snd (or_assign_word r (of_nat d))) = 16 * bv_val v + int d"
proof -
  have "\<not> (bv_val v = 0 \<and> length v = 1 \<and> (4::nat) = 64)" by simp
  from shl_assign_spec [OF assms(1) this] obtain r where r: "shl_assign v 4 = Some r" "r \<noteq> []"
    "\<And>i. getbit r i \<longleftrightarrow> 4 \<le> i \<and> getbit v (i - 4)" by metis
  have small: "\<not> bit (int d) i" if "4 \<le> i" for i
  proof -
    have "take_bit 4 (int d) = int d" using assms(2) by (simp add: take_bit_int_eq_self)
    then show ?thesis using that by (metis bit_take_bit_iff not_le)
  qed
  have w: "bit (of_nat d :: bvunit) i \<longleftrightarrow> bit (int d) i" for i
  proof -
    have "uint (of_nat d :: bvunit) = int d" using assms(2) by (simp add: uint_nat unat_of_nat)
    then show ?thesis using small [of i] bit_uint_iff [of "of_nat d :: bvunit" i] by (cases "i < 64") (auto dest: bit_imp_le_length)
  qed
  define u where "u = snd (or_assign_word r (of_nat d))"
  have "bv_val u = int d + 2 ^ 4 * bv_val v"
    unfolding u_def
    by (rule bv_val_eqI, subst bit_add_exp)
      (use assms(2) r(2,3) small in \<open>auto simp: getbit_or_assign_word w bit_bv_val\<close>)
  moreover have "u \<noteq> []" using r(2) by (simp add: u_def or_assign_word_def)
  ultimately show thesis using r by (intro that [of r]) (simp_all add: u_def)
qed

definition digits_val :: "int \<Rightarrow> nat list \<Rightarrow> int" where
  "digits_val x ds = foldl (\<lambda>x d. 16 * x + int d) x ds"

definition hex_text :: "nat list \<Rightarrow> string" where
  "hex_text ds = map (\<lambda>d. hex_digits ! d) ds"

lemma parse_hex_text:
  "list_all (\<lambda>d. d < 16) ds \<Longrightarrow> v \<noteq> [] \<Longrightarrow>
     \<exists>r. parse_loop (hex_text ds) v = Some (True, r) \<and> r \<noteq> [] \<and> bv_val r = digits_val (bv_val v) ds"
proof (induction ds arbitrary: v)
  case (Cons d ds)
  from Cons.prems have "d < 16" by simp
  from or_digit_val [OF Cons.prems(2) this] obtain r where r: "shl_assign v 4 = Some r"
    "snd (or_assign_word r (of_nat d)) \<noteq> []" "bv_val (snd (or_assign_word r (of_nat d))) = 16 * bv_val v + int d" by metis
  from Cons.IH [OF _ r(2)] Cons.prems obtain q where
    "parse_loop (hex_text ds) (snd (or_assign_word r (of_nat d))) = Some (True, q)" "q \<noteq> []"
    "bv_val q = digits_val (16 * bv_val v + int d) ds" using r(3) by auto
  then show ?case using \<open>d < 16\<close> r(1)
    by (intro exI [of _ q]) (simp add: hex_text_def digits_val_def hex_digit_val_digits)
qed (simp add: hex_text_def digits_val_def)

fun digs :: "nat \<Rightarrow> nat list" where
  "digs n = (if n < 16 then [n] else digs (n div 16) @ [n mod 16])"

declare digs.simps [simp del]

lemma hex_nat_digs: "hex_nat n = hex_text (digs n)"
proof (induction n rule: digs.induct)
  case (1 n)
  then show ?case
    by (subst hex_nat.simps, subst digs.simps) (simp add: hex_text_def)
qed

lemma digs_less: "list_all (\<lambda>d. d < 16) (digs n)"
proof (induction n rule: digs.induct)
  case (1 n)
  then show ?case by (subst digs.simps) simp
qed

lemma digits_val_append: "digits_val x (as @ bs) = digits_val (digits_val x as) bs"
  by (simp add: digits_val_def)

lemma digs_val: "digits_val x (digs n) = 16 ^ length (digs n) * x + int n"
proof (induction n arbitrary: x rule: digs.induct)
  case (1 n)
  show ?case
  proof (cases "n < 16")
    case True
    then show ?thesis by (subst (1 2) digs.simps) (simp add: digits_val_def)
  next
    case False
    have "int n = 16 * int (n div 16) + int (n mod 16)" by (metis mult_div_mod_eq of_nat_add of_nat_mult of_nat_numeral)
    with 1 [OF False, of x] False show ?thesis
      by (subst (1 2) digs.simps) (simp add: digits_val_append, simp add: digits_val_def algebra_simps)
  qed
qed

lemma length_digs: "n < 16 ^ m \<Longrightarrow> 0 < m \<Longrightarrow> length (digs n) \<le> m"
proof (induction m arbitrary: n)
  case (Suc m)
  show ?case
  proof (cases "n < 16")
    case True
    then show ?thesis by (subst digs.simps) simp
  next
    case False
    then have "n div 16 < 16 ^ m" "0 < m" using Suc.prems by (auto simp: less_mult_imp_div_less mult.commute intro!: gr0I)
    from Suc.IH [OF this] False show ?thesis by (subst digs.simps) simp
  qed
qed simp

definition padded_digs :: "nat \<Rightarrow> bvunit \<Rightarrow> nat list" where
  "padded_digs width w = replicate (width - length (digs (unat w))) 0 @ digs (unat w)"

lemma hex_padded_digs: "hex_padded width w = hex_text (padded_digs width w)"
  by (simp add: hex_padded_def padded_digs_def hex_nat_digs Let_def) (simp add: hex_text_def hex_digits_def)

lemma padded_digs_less: "list_all (\<lambda>d. d < 16) (padded_digs width w)"
  using digs_less [of "unat w"] by (auto simp: padded_digs_def list_all_iff)

lemma digits_val_zeros: "digits_val x (replicate n 0) = 16 ^ n * x"
proof (induction n arbitrary: x)
  case (Suc n)
  from Suc [of "16 * x"] show ?case by (simp add: digits_val_def)
qed (simp add: digits_val_def)

lemma padded_digs_0: "digits_val 0 (padded_digs 0 w) = uint w"
  by (simp add: padded_digs_def digs_val)

lemma padded_digs_16: "digits_val x (padded_digs 16 w) = 2 ^ 64 * x + uint w"
proof -
  have "length (digs (unat w)) \<le> 16" using unsigned_less [of w] by (intro length_digs) simp_all
  then have "16 ^ length (digs (unat w)) * (16 ^ (16 - length (digs (unat w))) * x) = 16 ^ 16 * x"
    by (metis le_add_diff_inverse mult.assoc power_add)
  then show ?thesis by (simp add: padded_digs_def digits_val_append digits_val_zeros digs_val)
qed

fun print_digs :: "bool \<Rightarrow> bvunit list \<Rightarrow> nat list" where
  "print_digs first [] = (if first then [0] else [])"
| "print_digs first (w # ws) =
     (if first then (if w = 0 then print_digs True ws else padded_digs 0 w @ print_digs False ws)
      else padded_digs 16 w @ print_digs False ws)"

lemma print_words_digs: "print_words first ws = hex_text (print_digs first ws)"
proof (induction ws arbitrary: first)
  case (Cons w ws)
  show ?case by (cases first) (simp_all add: Cons hex_padded_digs, simp_all add: hex_text_def)
qed (simp add: hex_text_def hex_digits_def)

lemma print_digs_less: "list_all (\<lambda>d. d < 16) (print_digs first ws)"
  by (induction ws arbitrary: first) (auto simp: padded_digs_less)

lemma print_digs_False: "digits_val x (print_digs False ws) = foldl (\<lambda>x w. 2 ^ 64 * x + uint w) x ws"
  by (induction ws arbitrary: x) (simp_all add: digits_val_append padded_digs_16 digits_val_def [of _ "[]"])

lemma print_digs_True: "digits_val 0 (print_digs True ws) = foldl (\<lambda>x w. 2 ^ 64 * x + uint w) 0 ws"
  by (induction ws) (simp_all add: digits_val_append padded_digs_0 print_digs_False digits_val_def [of _ "[0]"])

lemma bv_val_foldl: "foldl (\<lambda>x w. 2 ^ 64 * x + uint w) 0 (rev v) = bv_val v"
  by (induction v) simp_all

lemma print_digs_rev: "digits_val 0 (print_digs True (rev v)) = bv_val v"
  unfolding print_digs_True by (rule bv_val_foldl)

lemma bv_print_digs: "\<exists>ds. bv_print v = hex_text ds \<and> list_all (\<lambda>d. d < 16) ds \<and> digits_val 0 ds = bv_val v"
proof (cases "length v = 1")
  case True
  then obtain w where v: "v = [w]" by (auto simp: length_Suc_conv)
  then show ?thesis
    by (intro exI [of _ "padded_digs 0 w"]) (simp add: bv_print_def hex_padded_digs padded_digs_less padded_digs_0)
next
  case False
  then show ?thesis
    by (intro exI [of _ "print_digs True (rev v)"])
      (simp add: bv_print_def print_words_digs print_digs_less print_digs_rev)
qed

lemma bv_val_clear: "bv_val (bv_clear v) = 0"
  by (simp add: bv_val_eqI)

lemma bv_parse_print_val:
  "v \<noteq> [] \<Longrightarrow> \<exists>r. bv_parse (bv_print a) v = Some (True, r) \<and> bv_val r = bv_val a"
proof -
  assume "v \<noteq> []"
  then have c: "bv_clear v \<noteq> []" by (simp add: bv_clear_def)
  obtain ds where "bv_print a = hex_text ds" "list_all (\<lambda>d. d < 16) ds" "digits_val 0 ds = bv_val a"
    using bv_print_digs by blast
  with parse_hex_text [OF _ c, of ds] show ?thesis by (auto simp: bv_parse_def bv_val_clear)
qed

end
