(* ===== verification/BitVec_Props.thy ===== *)
theory BitVec_Props
  imports BitVec_Shift
begin

text \<open>The properties of the bit vectors of lib/bitvec.h, over the value \<^const>\<open>bv_val\<close>.\<close>

section \<open>Values of the range operations\<close>

lemma setrange_val: "bv_val (setrange v idx sz) = bv_val v OR push_bit idx (mask sz)"
  by (rule bv_val_eqI) (auto simp: getbit_setrange bit_or_iff bit_push_bit_iff bit_mask_iff bit_bv_val)

lemma clrrange_val: "bv_val (clrrange v idx sz) = bv_val v AND NOT (push_bit idx (mask sz))"
  by (rule bv_val_eqI)
    (auto simp: getbit_clrrange bit_and_iff bit_not_iff bit_push_bit_iff bit_mask_iff bit_bv_val)

lemma putrange_val:
  "0 < sz \<Longrightarrow> sz \<le> 64 \<Longrightarrow>
     bv_val (putrange v idx sz x) = (bv_val v AND NOT (push_bit idx (mask sz))) OR push_bit idx (take_bit sz (uint x))"
  by (rule bv_val_eqI)
    (auto simp: getbit_putrange bit_or_iff bit_and_iff bit_not_iff bit_push_bit_iff bit_mask_iff bit_bv_val
      bit_take_bit_iff bit_uint_iff)

lemma sorted_le_last: "x \<in> set ys \<Longrightarrow> sorted ys \<Longrightarrow> x \<le> last ys" for ys :: "nat list"
  by (induction ys) auto

section \<open>Properties\<close>

text \<open>C12: The set operations on bit vectors of any two lengths are the Boolean operations on their
  values, and the assigning ones report exactly whether the vector changed.\<close>
theorem bitvec_set_operations:
  "and_assign v a = (bv_val v AND bv_val a \<noteq> bv_val v, snd (and_assign v a)) \<and>
   bv_val (snd (and_assign v a)) = bv_val v AND bv_val a \<and>
   or_assign v a = (bv_val v OR bv_val a \<noteq> bv_val v, snd (or_assign v a)) \<and>
   bv_val (snd (or_assign v a)) = bv_val v OR bv_val a \<and>
   minus_assign v a = (bv_val v AND NOT (bv_val a) \<noteq> bv_val v, snd (minus_assign v a)) \<and>
   bv_val (snd (minus_assign v a)) = bv_val v AND NOT (bv_val a) \<and>
   bv_val (bv_and v a) = bv_val v AND bv_val a \<and>
   bv_val (bv_or v a) = bv_val v OR bv_val a \<and>
   bv_val (bv_xor v a) = bv_val v XOR bv_val a \<and>
   bv_val (bv_minus v a) = bv_val v AND NOT (bv_val a)"
proof -
  have "bv_val (bv_and v a) = bv_val v AND bv_val a" "bv_val (bv_xor v a) = bv_val v XOR bv_val a"
    by (rule bv_val_eqI; simp add: getbit_bv_and getbit_bv_xor bit_and_iff bit_xor_iff bit_bv_val)+
  then show ?thesis
    by (simp add: prod_eq_iff and_assign_val and_assign_flag or_assign_val or_assign_flag minus_assign_val
        minus_assign_flag bv_or_def bv_minus_def)
qed

text \<open>C13: The range operations on bit vectors set, clear, read and write the bits from \<open>idx\<close> to
  \<open>idx + sz\<close> and no others, across word boundaries and beyond the end of the vector.\<close>
theorem bitvec_ranges:
  "bv_val (setrange v idx sz) = bv_val v OR push_bit idx (mask sz) \<and>
   bv_val (clrrange v idx sz) = bv_val v AND NOT (push_bit idx (mask sz)) \<and>
   (0 < sz \<and> sz \<le> 64 \<longrightarrow>
      uint (getrange v idx sz) = take_bit sz (drop_bit idx (bv_val v)) \<and>
      bv_val (putrange v idx sz x) = (bv_val v AND NOT (push_bit idx (mask sz))) OR push_bit idx (take_bit sz (uint x)))"
  by (simp add: setrange_val clrrange_val putrange_val uint_getrange)

theorem bitvec_ranges_witness:
  "uint (getrange (putrange [0, 0] 60 12 0xABC) 60 12) = 0xABC"
proof -
  have "uint (getrange (putrange [0, 0] 60 12 0xABC) 60 12) =
      take_bit 12 (drop_bit 60 (bv_val (putrange [0, 0] 60 12 0xABC)))"
    using bitvec_ranges [of "putrange [0, 0] 60 12 0xABC" 60 12] by simp
  also have "\<dots> = 0xABC" by code_simp
  finally show ?thesis .
qed

text \<open>The searches of a bit vector and its iterator agree with the set of its bits: \<open>ffs\<close> finds the
  first set and \<open>ffz\<close> the first clear bit from a position on, iteration visits the set bits in
  increasing order, \<open>max\<close> is the last of them, \<open>popcount\<close> is their number and \<open>is_contiguous\<close>
  holds for the non-empty intervals.\<close>
theorem bitvec_search:
  "first_bit (getbit v) start (bv_ffs v start) \<and>
   first_bit (\<lambda>i. \<not> getbit v i) start (int (bv_ffz v start)) \<and>
   iterate v = sorted_list_of_set {i. getbit v i} \<and>
   max_index v = (if iterate v = [] then - 1 else int (last (iterate v))) \<and>
   bv_popcount v = length (iterate v) \<and>
   is_contiguous v = (\<exists>a b. a < b \<and> {i. getbit v i} = {a..<b})"
proof -
  have d: "distinct (bits_list v)" "sorted (bits_list v)" by (simp_all add: bits_list_def sorted_wrt_filter)
  have it: "iterate v = sorted_list_of_set {i. getbit v i}"
    unfolding iterate_bits set_bits_list [symmetric] using d
    by (simp add: sorted_list_of_set.idem_if_sorted_distinct)
  have "max_index v = (if iterate v = [] then - 1 else int (last (iterate v)))"
  proof (cases "iterate v = []")
    case True
    then have "\<not> getbit v i" for i using set_bits_list [of v] by (auto simp: iterate_bits)
    with max_index_last [of v] True show ?thesis by (auto simp: last_bit_def)
  next
    case False
    have s: "set (iterate v) = {i. getbit v i}" by (simp add: iterate_bits set_bits_list)
    then have l: "getbit v (last (iterate v))" using False last_in_set by blast
    have mx: "i \<le> last (iterate v)" if "getbit v i" for i
    proof -
      have "i \<in> set (iterate v)" using that s by simp
      with d(2) show ?thesis unfolding iterate_bits by (rule sorted_le_last [rotated])
    qed
    from max_index_last [of v] l getbit_length [OF l] obtain m where
      m: "max_index v = int m" "getbit v m" "\<forall>i. m < i \<and> i < 64 * length v \<longrightarrow> \<not> getbit v i"
      by (auto simp: last_bit_def)
    have "m = last (iterate v)" using mx [OF m(2)] m(3) l getbit_length [OF l] by (metis le_neq_implies_less)
    with m(1) False show ?thesis by simp
  qed
  moreover have "bv_popcount v = length (iterate v)"
    using d(1) by (simp add: popcount_card iterate_bits distinct_card flip: set_bits_list)
  moreover have "is_contiguous v = (\<exists>a b. a < b \<and> {i. getbit v i} = {a..<b})"
    by (auto simp: is_contiguous_iff set_eq_iff)
  ultimately show ?thesis using bv_ffs_first bv_ffz_first it by simp
qed

text \<open>Comparing bit vectors, of any two lengths, compares their values: \<open>==\<close>, \<open><\<close>, \<open>intersects\<close>
  and \<open>contains\<close>.\<close>
theorem bitvec_comparison:
  "bv_eq v a = (bv_val v = bv_val a) \<and> bv_less v a = (bv_val v < bv_val a) \<and>
   bv_intersects v a = (bv_val v AND bv_val a \<noteq> 0) \<and>
   bv_contains v a = (bv_val v AND bv_val a = bv_val a)"
proof -
  have "bv_contains v a = (bv_val v AND bv_val a = bv_val a)"
    by (auto simp: bv_contains_iff bit_eq_iff bit_and_iff bit_bv_val)
  then show ?thesis by (simp add: bv_eq_iff bv_less_iff bv_intersects_iff)
qed

text \<open>C14: Shifting a bit vector divides or multiplies its value by a power of two, growing the vector
  as needed.  The one shift without a result is that of an empty vector of one word by exactly 64,
  which shifts the word by its width.\<close>
theorem bitvec_shifts:
  assumes "v \<noteq> []"
  shows "bv_val (shr_assign v count) = bv_val v div 2 ^ count \<and>
    map_option bv_val (shl_assign v count) =
      (if bv_val v = 0 \<and> length v = 1 \<and> count = 64 then None else Some (bv_val v * 2 ^ count))"
proof
  show "bv_val (shr_assign v count) = bv_val v div 2 ^ count" by (rule shr_assign_val [OF assms])
  show "map_option bv_val (shl_assign v count) =
      (if bv_val v = 0 \<and> length v = 1 \<and> count = 64 then None else Some (bv_val v * 2 ^ count))"
  proof (cases "bv_val v = 0 \<and> length v = 1 \<and> count = 64")
    case True
    then have "v = [0]" by (auto simp: length_Suc_conv uint_0_iff)
    moreover have "shl_assign [0] 64 = None" by code_simp
    ultimately show ?thesis using True by simp
  next
    case False
    from shl_assign_spec [OF assms this] obtain r where "shl_assign v count = Some r"
      "\<And>i. getbit r i \<longleftrightarrow> count \<le> i \<and> getbit v (i - count)" by metis
    with False shl_val [of r count v] show ?thesis by auto
  qed
qed

theorem bitvec_shifts_witness:
  "bv_val (shr_assign [0, 5] 66) = 1 \<and> map_option bv_val (shl_assign [3] 100) = Some (3 * 2 ^ 100)"
  using bitvec_shifts [of "[0, 5]" 66] bitvec_shifts [of "[3]" 100] by simp

text \<open>C15: Printing a bit vector as hexadecimal text and parsing the text gives a vector of the same
  value, whatever the vector held before.\<close>
theorem bitvec_print_parse:
  assumes "v \<noteq> []"
  shows "map_option (\<lambda>(ok, r). (ok, bv_val r)) (bv_parse (bv_print a) v) = Some (True, bv_val a)"
  using bv_parse_print_val [OF assms, of a] by auto

theorem bitvec_print_parse_witness:
  "map_option (\<lambda>(ok, r). (ok, bv_val r)) (bv_parse ''2a0000000000000001'' [7]) = Some (True, 42 * 2 ^ 64 + 1)"
proof -
  have "bv_print [1, 42] = ''2a0000000000000001''" by code_simp
  with bitvec_print_parse [of "[7]" "[1, 42]"] show ?thesis by simp
qed

text \<open>\<open>rotate_right_copy\<close> moves the bit at \<open>rotation_idx\<close> to \<open>start_bit\<close> and rotates the bits
  between \<open>start_bit\<close> and \<open>end_bit\<close> accordingly, as \<open>std::rotate_copy\<close> does; the bits outside stay.
  \<open>rotate_right\<close> gives the same bits.\<close>
theorem bitvec_rotation:
  assumes "v \<noteq> []" "s \<le> ro" "ro < e" "e - ro \<noteq> 64 \<or> (\<exists>i\<in>{s..<e}. getbit v i)"
  shows "\<exists>r r'. rotate_right_copy v s ro e = Some r \<and> rotate_right v s ro e = Some r' \<and>
     (\<forall>i. getbit r i = getbit v (if s \<le> i \<and> i < e then s + (i - s + (ro - s)) mod (e - s) else i)) \<and>
     bv_val r = bv_val r'"
proof -
  have d: "e - s - (ro - s) = e - ro" using assms(2,3) by simp
  have c: "e - s - (ro - s) \<noteq> 64 \<or> 1 < length (bv_and v (bv_of_range s (e - s))) \<or> (\<exists>i. s \<le> i \<and> i < e \<and> getbit v i)"
    using assms(4) unfolding d by auto
  from rotate_right_helper_spec [OF assms(1,2,3) c] obtain h where
    h: "rotate_right_helper v s ro e = Some h" "\<And>i. getbit h i \<longleftrightarrow> s \<le> i \<and> i < e \<and>
       getbit v (if i + (ro - s) < e then i + (ro - s) else i + (ro - s) - (e - s))" by metis
  have idx: "(if i + (ro - s) < e then i + (ro - s) else i + (ro - s) - (e - s)) = s + (i - s + (ro - s)) mod (e - s)"
    if si: "s \<le> i" "i < e" for i
  proof (cases "i + (ro - s) < e")
    case True
    then have "i - s + (ro - s) < e - s" using si by linarith
    with True si show ?thesis by simp
  next
    case False
    obtain x where x: "i = s + x" using le_Suc_ex [OF si(1)] by blast
    obtain y where y: "ro = s + y" using le_Suc_ex [OF assms(2)] by blast
    obtain l where l: "e = s + l" using le_Suc_ex [of s e] assms(2,3) by auto
    have "l \<le> x + y" "x + y - l < l" using False si assms(3) by (auto simp: x y l)
    then have "(x + y) mod l = x + y - l" by (simp add: le_mod_geq)
    with False show ?thesis by (simp add: x y l)
  qed
  have r: "getbit (bv_or h (bv_minus v (bv_of_range s (e - s)))) i =
      getbit v (if s \<le> i \<and> i < e then s + (i - s + (ro - s)) mod (e - s) else i)" for i
    using idx [of i] assms(2,3) by (auto simp: getbit_bv_or getbit_bv_minus getbit_bv_of_range h(2))
  have r': "getbit (bv_or (clrrange v s (e - s)) h) i = getbit (bv_or h (bv_minus v (bv_of_range s (e - s)))) i" for i
    using assms(2,3) by (auto simp: getbit_bv_or getbit_bv_minus getbit_bv_of_range getbit_clrrange)
  show ?thesis
    by (intro exI [of _ "bv_or h (bv_minus v (bv_of_range s (e - s)))"] exI [of _ "bv_or (clrrange v s (e - s)) h"])
      (simp add: rotate_right_copy_def rotate_right_def h(1) r r' bv_val_eq_iff)
qed

theorem bitvec_rotation_witness:
  "\<exists>r r'. rotate_right_copy [6] 1 2 5 = Some r \<and> rotate_right [6] 1 2 5 = Some r' \<and>
     (\<forall>i. getbit r i = getbit [6] (if 1 \<le> i \<and> i < 5 then 1 + (i - 1 + (2 - 1)) mod (5 - 1) else i)) \<and>
     bv_val r = bv_val r'"
  by (rule bitvec_rotation) simp_all

text \<open>C16: A slice of a bit vector has the bits from \<open>idx\<close> to \<open>idx + sz\<close>, when it has at most 64 bits,
  or more than 64 and at most 448 inside the vector of which the last do not come from two words.\<close>
theorem bitvec_slice:
  assumes "v \<noteq> []" "0 < sz"
    and "sz \<le> 64 \<or> sz \<le> 448 \<and> idx + sz \<le> 64 * length v \<and> idx mod 64 + (sz - 1) mod 64 < 64"
  shows "map_option bv_val (getslice v idx sz) = Some (take_bit sz (drop_bit idx (bv_val v)))"
proof -
  have "\<exists>r. getslice v idx sz = Some r \<and> (\<forall>i. getbit r i \<longleftrightarrow> i < sz \<and> getbit v (idx + i))"
  proof (cases "sz \<le> 64")
    case True
    obtain w where "getslice v idx sz = Some [w]" "\<forall>n. bit w n \<longleftrightarrow> n < sz \<and> getbit v (idx + n)"
      using getslice_word [OF assms(2) True assms(1), of idx] by blast
    moreover have "getbit [w] i \<longleftrightarrow> i < sz \<and> getbit v (idx + i)" for i
    proof (cases "i < 64")
      case True
      with calculation(2) show ?thesis unfolding getbit_single by blast
    next
      case False
      with \<open>sz \<le> 64\<close> show ?thesis unfolding getbit_single by auto
    qed
    ultimately show ?thesis by blast
  next
    case False
    with assms(3) show ?thesis by (intro getslice_long) auto
  qed
  then obtain r where r: "getslice v idx sz = Some r" "\<forall>i. getbit r i \<longleftrightarrow> i < sz \<and> getbit v (idx + i)" by blast
  have "bv_val r = take_bit sz (drop_bit idx (bv_val v))"
    by (rule bv_val_eqI) (simp add: r(2) bit_bv_val bit_take_bit_iff bit_drop_bit_eq)
  with r(1) show ?thesis by simp
qed

theorem bitvec_slice_witness:
  "map_option bv_val (getslice [0x123456789ABCDEF0, 0xFF, 1] 60 10) = Some 0x3F1"
proof -
  have "take_bit 10 (drop_bit 60 (bv_val [0x123456789ABCDEF0, 0xFF, 1])) = 0x3F1" by code_simp
  with bitvec_slice [of "[0x123456789ABCDEF0, 0xFF, 1]" 10 60] show ?thesis by simp
qed

text \<open>A longer slice whose last word straddles two words of the vector loses the bits of the second
  one, and a slice of more than seven words reads beyond the end of the vector.\<close>
theorem bitvec_slice_loses_bits:
  "map_option bv_val (getslice [- 1, - 1, - 1] 4 128) = Some (2 ^ 124 - 1) \<and>
   take_bit 128 (drop_bit 4 (bv_val [- 1, - 1, - 1])) = 2 ^ 128 - 1 \<and>
   getslice (replicate 17 1) 0 1088 = None"
proof -
  have "expand bv_empty 17 = replicate 20 0" by code_simp
  moreover have "slice_loop (replicate 17 1) 0 0 0 20 (replicate 20 0) = None" by code_simp
  ultimately have "getslice (replicate 17 1) 0 1088 = None" by (simp add: getslice_def Let_def)
  moreover have "map_option bv_val (getslice [- 1, - 1, - 1] 4 128) = Some (2 ^ 124 - 1)" by code_simp
  moreover have "take_bit 128 (drop_bit 4 (bv_val [- 1, - 1, - 1])) = 2 ^ 128 - 1" by code_simp
  ultimately show ?thesis by blast
qed

end
