(* ===== verification/BitMatrix.thy ===== *)
theory BitMatrix
  imports BitVec_Props
begin

text \<open>
  Triangular bit matrices held in a bit vector: \<open>LTBitMatrix\<close> (lib/ltbitmatrix.h), with the entries
  on and below the diagonal, and \<open>SymBitMatrix\<close> (lib/symbitmatrix.h), which uses them for both
  halves.  The client code only relies on what a lookup returns after an update: the locale
  \<open>bit_store\<close> states it and holds the facts on the packing of a triangle.  Rows and columns are
  natural numbers; the code's \<open>r * r + r\<close> does not wrap below 65536 rows.
\<close>

section \<open>The interface of a bit store\<close>

locale bit_store =
  fixes get :: "'s \<Rightarrow> nat \<Rightarrow> bool"
    and put :: "'s \<Rightarrow> nat \<Rightarrow> bool \<Rightarrow> 's"
  assumes get_put: "get (put s i b) j = (if j = i then b else get s j)"
begin

lemma get_put_same: "get (put s i b) i = b"
  by (simp add: get_put)

lemma get_put_other: "j \<noteq> i \<Longrightarrow> get (put s i b) j = get s j"
  by (simp add: get_put)

lemma get_fold_put: "get (fold (\<lambda>i s. put s (f i) True) is s) j \<longleftrightarrow> j \<in> f ` set is \<or> get s j"
  by (induction "is" arbitrary: s) (auto simp: get_put)

end

locale packed_store = bit_store +
  fixes pack :: "nat \<Rightarrow> nat \<Rightarrow> nat" and valid :: "nat \<Rightarrow> nat \<Rightarrow> bool"
  assumes pack_inj: "valid r c \<Longrightarrow> valid r' c' \<Longrightarrow> pack r c = pack r' c' \<Longrightarrow> r = r' \<and> c = c'"
begin

lemma packed_get_put:
  "valid r c \<Longrightarrow> valid r' c' \<Longrightarrow>
     get (put s (pack r c) b) (pack r' c') = (if r' = r \<and> c' = c then b else get s (pack r' c'))"
  using pack_inj by (auto simp: get_put)

lemma packed_get_fold:
  "valid r' c' \<Longrightarrow> (\<And>c. c \<in> set cs \<Longrightarrow> valid r c) \<Longrightarrow>
     get (fold (\<lambda>c s. put s (pack r c) True) cs s) (pack r' c') \<longleftrightarrow> r' = r \<and> c' \<in> set cs \<or> get s (pack r' c')"
  using get_fold_put [of "pack r" cs s "pack r' c'"] pack_inj by (auto; blast)

end

section \<open>Lower-triangular matrices\<close>

text \<open>Row \<open>r\<close> starts after the rows of lengths 1, ..., \<open>r\<close>.\<close>

definition row_start :: "nat \<Rightarrow> nat" where
  "row_start r = (r * r + r) div 2"

definition tri_index :: "nat \<Rightarrow> nat \<Rightarrow> nat" where
  "tri_index r c = row_start r + c"

definition lt_get :: "bitvec \<Rightarrow> nat \<Rightarrow> nat \<Rightarrow> bool" where
  "lt_get m r c = (if r \<ge> c then getbit m (tri_index r c) else False)"

text \<open>Assigning through the reference \<open>m(r, c)\<close>; above the diagonal it is \<open>end()\<close>, whose assignment
  fails an assertion.\<close>

definition lt_put :: "bitvec \<Rightarrow> nat \<Rightarrow> nat \<Rightarrow> bool \<Rightarrow> bitvec option" where
  "lt_put m r c b = (if r \<ge> c then Some (bitref_assign m (tri_index r c) b) else None)"

text \<open>\<open>while ((r * r + r) / 2 <= m) r++\<close>\<close>

function size_loop :: "nat \<Rightarrow> nat \<Rightarrow> nat" where
  "size_loop m r = (if row_start r \<le> m then size_loop m (Suc r) else r)"
  by auto
termination
proof (relation "measure (\<lambda>(m, r). Suc m - r)")
  fix m r :: nat
  assume a: "row_start r \<le> m"
  have "r \<le> row_start r" by (simp add: row_start_def) (metis div_le_mono le_add2 mult_2 add_le_cancel_right
    le_square nonzero_mult_div_cancel_left zero_neq_numeral)
  with a show "((m, Suc r), m, r) \<in> measure (\<lambda>(m, r). Suc m - r)" by auto
qed simp

declare size_loop.simps [simp del]

definition mat_size :: "bitvec \<Rightarrow> nat" where
  "mat_size m = (if bv_is_empty m then 0 else size_loop (nat (max_index m)) 1)"

text \<open>A row as a truth value and as a bit vector; \<open>None\<close> where \<open>getslice\<close> reads outside its array.\<close>

definition lt_row_bool :: "bitvec \<Rightarrow> nat \<Rightarrow> bool option" where
  "lt_row_bool m row =
     (if row < bits_per_unit then Some (getrange m (row_start row) (row + 1) \<noteq> 0)
      else map_option (\<lambda>s. \<not> bv_is_empty s) (getslice m (row_start row) (row + 1)))"

definition lt_row :: "bitvec \<Rightarrow> nat \<Rightarrow> bitvec option" where
  "lt_row m row = getslice m (row_start row) (row + 1)"

text \<open>\<open>m[row] |= a\<close>: the loop breaks at the first index beyond the row.\<close>

fun lt_row_or_loop :: "bitvec \<Rightarrow> nat \<Rightarrow> nat list \<Rightarrow> bitvec" where
  "lt_row_or_loop m row [] = m"
| "lt_row_or_loop m row (v # vs) =
     (if v > row then m else lt_row_or_loop (bitref_assign m (tri_index row v) True) row vs)"

definition lt_row_or :: "bitvec \<Rightarrow> nat \<Rightarrow> bitvec \<Rightarrow> bitvec" where
  "lt_row_or m row a = lt_row_or_loop m row (iterate a)"

text \<open>The text of a matrix: the rows from 1 on without their diagonal.\<close>

definition lt_print :: "bitvec \<Rightarrow> string" where
  "lt_print bm =
     concat (map (\<lambda>i. (if i > 1 then '' '' else []) @
                        map (\<lambda>j. if lt_get bm i j then CHR ''1'' else CHR ''0'') [0..<i])
               [1..<mat_size bm])"

fun lt_parse_loop :: "string \<Rightarrow> nat \<Rightarrow> bitvec \<Rightarrow> (bool \<times> bitvec)" where
  "lt_parse_loop [] i rv = (True, rv)"
| "lt_parse_loop (p # ps) i rv =
     (if p = CHR '' '' then lt_parse_loop ps i rv
      else if p = CHR ''0'' then lt_parse_loop ps (Suc i) rv
      else if p = CHR ''1'' then lt_parse_loop ps (Suc i) (bitref_assign rv i True)
      else (False, rv))"

text \<open>A text with another character leaves the matrix as it was.\<close>

definition lt_parse :: "string \<Rightarrow> bitvec \<Rightarrow> bool \<times> bitvec" where
  "lt_parse p bm = (case lt_parse_loop p 0 bv_empty of (ok, rv) \<Rightarrow> (ok, if ok then rv else bm))"

section \<open>Symmetric matrices\<close>

definition sym_index :: "nat \<Rightarrow> nat \<Rightarrow> nat" where
  "sym_index r c = (if r < c then tri_index c r else tri_index r c)"

definition sym_get :: "bitvec \<Rightarrow> nat \<Rightarrow> nat \<Rightarrow> bool" where
  "sym_get m r c = getbit m (sym_index r c)"

definition sym_put :: "bitvec \<Rightarrow> nat \<Rightarrow> nat \<Rightarrow> bool \<Rightarrow> bitvec" where
  "sym_put m r c b = bitref_assign m (sym_index r c) b"

definition sym_row_bool :: "bitvec \<Rightarrow> nat \<Rightarrow> bool option" where
  "sym_row_bool m row =
     map_option (\<lambda>b. b \<or> list_ex (\<lambda>c. sym_get m row c) [row + 1..<mat_size m]) (lt_row_bool m row)"

definition sym_row :: "bitvec \<Rightarrow> nat \<Rightarrow> bitvec option" where
  "sym_row m row =
     map_option (\<lambda>rv. fold (\<lambda>c rv. if sym_get m row c then bitref_assign rv c True else rv) [row + 1..<mat_size m] rv)
       (getslice m (row_start row) (row + 1))"

definition sym_row_or :: "bitvec \<Rightarrow> nat \<Rightarrow> bitvec \<Rightarrow> bitvec" where
  "sym_row_or m row a = fold (\<lambda>v m. sym_put m row v True) (iterate a) m"

section \<open>The packing\<close>

lemma getbit_assign: "getbit (bitref_assign v i b) j = (if j = i then b else getbit v j)"
  by (auto simp: bitref_assign_def getbit_setbit getbit_clrbit)

interpretation bits: bit_store getbit bitref_assign
  by unfold_locales (rule getbit_assign)

lemma row_start_Suc: "row_start (Suc r) = row_start r + Suc r"
proof -
  have "Suc r * Suc r + Suc r = (r * r + r) + Suc r * 2" by (simp add: algebra_simps)
  then show ?thesis unfolding row_start_def by (simp only: div_mult_self3 div_mult_self1 zero_neq_numeral not_False_eq_True add.commute)
qed

lemma row_start_mono: "r < r' \<Longrightarrow> row_start r + r < row_start r'"
proof (induction r')
  case (Suc r')
  then show ?case by (cases "r = r'") (auto simp: row_start_Suc)
qed simp

lemma tri_index_inj:
  "c \<le> r \<Longrightarrow> c' \<le> r' \<Longrightarrow> tri_index r c = tri_index r' c' \<Longrightarrow> r = r' \<and> c = c'"
  using row_start_mono [of r r'] row_start_mono [of r' r]
  by (cases r r' rule: linorder_cases) (auto simp: tri_index_def)

interpretation lt: packed_store getbit bitref_assign tri_index "\<lambda>r c. c \<le> r"
  by unfold_locales (blast dest: tri_index_inj)+

lemma sym_index_commute: "sym_index r c = sym_index c r"
  by (auto simp: sym_index_def)

lemma sym_index_inj: "sym_index r c = sym_index r' c' \<Longrightarrow> r = r' \<and> c = c' \<or> r = c' \<and> c = r'"
  by (auto simp: sym_index_def split: if_split_asm dest!: tri_index_inj [rotated -1])

lemma sym_get_put: "sym_get (sym_put m r c b) r' c' = (if r' = r \<and> c' = c \<or> r' = c \<and> c' = r then b else sym_get m r' c')"
  using sym_index_inj [of r' c' r c] sym_index_commute
  by (auto simp: sym_get_def sym_put_def bits.get_put)

lemma size_loop_spec: "1 \<le> r \<Longrightarrow> row_start (r - 1) \<le> m \<Longrightarrow>
   row_start (size_loop m r - 1) \<le> m \<and> m < row_start (size_loop m r) \<and> 1 \<le> size_loop m r"
proof (induction m r rule: size_loop.induct)
  case (1 m r)
  show ?case
  proof (cases "row_start r \<le> m")
    case True
    then have "size_loop m r = size_loop m (Suc r)" by (subst size_loop.simps) simp
    with 1(1) [OF True] True show ?thesis by simp
  next
    case False
    then have "size_loop m r = r" by (subst size_loop.simps) simp
    with 1(2,3) False show ?thesis by simp
  qed
qed

lemma tri_index_cover: "\<exists>r c. c \<le> r \<and> tri_index r c = i"
proof (induction i)
  case 0
  show ?case by (intro exI [of _ 0]) (simp add: tri_index_def row_start_def)
next
  case (Suc i)
  then obtain r c where rc: "c \<le> r" "tri_index r c = i" by blast
  show ?case
  proof (cases "c = r")
    case True
    with rc show ?thesis by (intro exI [of _ "Suc r"] exI [of _ 0]) (simp add: tri_index_def row_start_Suc)
  next
    case False
    with rc show ?thesis by (intro exI [of _ r] exI [of _ "Suc c"]) (simp add: tri_index_def)
  qed
qed

lemma mat_size_spec:
  "lt_get m r c \<Longrightarrow> r < mat_size m"
  "mat_size m = Suc r \<Longrightarrow> \<exists>c\<le>r. lt_get m r c"
proof -
  have spec: "(\<forall>r c. lt_get m r c \<longrightarrow> r < mat_size m) \<and> (\<forall>r. mat_size m = Suc r \<longrightarrow> (\<exists>c\<le>r. lt_get m r c))"
  proof (cases "bv_is_empty m")
    case True
    then show ?thesis by (auto simp: mat_size_def lt_get_def is_empty_iff split: if_split_asm)
  next
    case False
    then obtain i0 where i0: "getbit m i0" by (auto simp: is_empty_iff)
    from max_index_last [of m] i0 getbit_length obtain hi where
      hi: "max_index m = int hi" "getbit m hi" "\<forall>i. hi < i \<and> i < 64 * length m \<longrightarrow> \<not> getbit m i"
      by (auto simp: last_bit_def)
    have le: "i \<le> hi" if "getbit m i" for i using that hi(3) getbit_length not_le_imp_less by blast
    define n where "n = size_loop hi 1"
    have n: "row_start (n - 1) \<le> hi" "hi < row_start n" "1 \<le> n"
      using size_loop_spec [of 1 hi] by (auto simp: n_def row_start_def)
    have sz: "mat_size m = n" using False hi(1) by (simp add: mat_size_def n_def)
    have "r < n" if "lt_get m r c" for r c
    proof (rule ccontr)
      assume "\<not> r < n"
      then have "row_start n \<le> row_start r" using row_start_mono [of n r] by (cases "n = r") auto
      moreover have "row_start r \<le> hi" using le [of "tri_index r c"] that by (auto simp: lt_get_def tri_index_def split: if_split_asm)
      ultimately show False using n(2) by simp
    qed
    moreover have "\<exists>c\<le>r. lt_get m r c" if "n = Suc r" for r
    proof -
      have "row_start r \<le> hi" "hi < row_start (Suc r)" using n that by simp_all
      then have "hi - row_start r \<le> r" "tri_index r (hi - row_start r) = hi"
        by (simp_all add: row_start_Suc tri_index_def)
      with hi(2) show ?thesis by (intro exI [of _ "hi - row_start r"]) (simp add: lt_get_def)
    qed
    ultimately show ?thesis using sz by blast
  qed
  then show "lt_get m r c \<Longrightarrow> r < mat_size m" "mat_size m = Suc r \<Longrightarrow> \<exists>c\<le>r. lt_get m r c" by blast+
qed

lemma row_bool_spec: "row < 64 \<Longrightarrow> lt_row_bool m row = Some (\<exists>c\<le>row. lt_get m row c)"
proof -
  assume r: "row < 64"
  have "getrange m (row_start row) (row + 1) \<noteq> 0 \<longleftrightarrow> (\<exists>n<64. n < row + 1 \<and> getbit m (row_start row + n))"
    using r by (auto simp: word_0_iff bit_getrange)
  also have "\<dots> \<longleftrightarrow> (\<exists>c\<le>row. lt_get m row c)" using r by (auto simp: lt_get_def tri_index_def less_Suc_eq_le) (meson le_less_trans)
  finally show ?thesis using r by (simp add: lt_row_bool_def)
qed

lemma sym_get_lt: "sym_get m r c = (if c \<le> r then lt_get m r c else lt_get m c r)"
  by (auto simp: sym_get_def sym_index_def lt_get_def)

lemma row_or_spec:
  "sorted vs \<Longrightarrow> c' \<le> r' \<Longrightarrow>
     getbit (lt_row_or_loop m row vs) (tri_index r' c') \<longleftrightarrow> r' = row \<and> c' \<in> set vs \<or> getbit m (tri_index r' c')"
proof (induction vs arbitrary: m)
  case (Cons v vs)
  then show ?case by (auto simp: lt.packed_get_put)
qed simp

lemma iterate_set: "set (iterate a) = {i. getbit a i}"
  by (simp add: iterate_bits set_bits_list)

lemma iterate_sorted: "sorted (iterate a)"
  by (simp add: iterate_bits bits_list_def sorted_wrt_filter)

section \<open>Properties\<close>

text \<open>C17: An update of a triangular matrix changes one entry, an update of a symmetric matrix that
  entry and its mirror image, so a symmetric matrix is always symmetric; or-ing a bit vector into
  a row sets the entries of that row (below the diagonal of a triangular matrix) at its bits.\<close>
theorem matrix_updates:
  "(lt_put m r c b = None \<longleftrightarrow> r < c) \<and>
   (\<forall>m'. lt_put m r c b = Some m' \<longrightarrow> lt_get m' r' c' = (if r' = r \<and> c' = c then b else lt_get m r' c')) \<and>
   (lt_get (lt_row_or m r a) r' c' \<longleftrightarrow> r' = r \<and> c' \<le> r' \<and> getbit a c' \<or> lt_get m r' c') \<and>
   sym_get (sym_put m r c b) r' c' = (if r' = r \<and> c' = c \<or> r' = c \<and> c' = r then b else sym_get m r' c') \<and>
   sym_get m r c = sym_get m c r \<and>
   (sym_get (sym_row_or m r a) r' c' \<longleftrightarrow> r' = r \<and> getbit a c' \<or> c' = r \<and> getbit a r' \<or> sym_get m r' c')"
proof (intro conjI)
  show "lt_get (lt_row_or m r a) r' c' \<longleftrightarrow> r' = r \<and> c' \<le> r' \<and> getbit a c' \<or> lt_get m r' c'"
    using row_or_spec [OF iterate_sorted, of c' r' m r] iterate_set by (auto simp: lt_get_def lt_row_or_def)
  have "sym_get (fold (\<lambda>v m. sym_put m r v True) vs m) r' c' \<longleftrightarrow> r' = r \<and> c' \<in> set vs \<or> c' = r \<and> r' \<in> set vs \<or> sym_get m r' c'" for vs
    by (induction vs arbitrary: m) (auto simp: sym_get_put)
  then show "sym_get (sym_row_or m r a) r' c' \<longleftrightarrow> r' = r \<and> getbit a c' \<or> c' = r \<and> getbit a r' \<or> sym_get m r' c'"
    by (simp add: sym_row_or_def iterate_set)
  show "sym_get (sym_put m r c b) r' c' = (if r' = r \<and> c' = c \<or> r' = c \<and> c' = r then b else sym_get m r' c')"
    by (rule sym_get_put)
  show "sym_get m r c = sym_get m c r" by (simp add: sym_get_def sym_index_commute [of r c])
qed (auto simp: lt_put_def lt_get_def lt.packed_get_put split: if_split_asm)

theorem matrix_updates_witness:
  "\<exists>m'. lt_put [0] 2 1 True = Some m' \<and> lt_get m' 2 1 \<and> \<not> lt_get m' 1 1"
proof -
  obtain m' where m': "lt_put [0] 2 1 True = Some m'" by (simp add: lt_put_def)
  with matrix_updates [of "[0]" 2 1 True 2 1] matrix_updates [of "[0]" 2 1 True 1 1]
  have "lt_get m' 2 1" "lt_get m' 1 1 = lt_get [0] 1 1" by simp_all
  moreover have "\<not> lt_get [0] 1 1" by code_simp
  ultimately show ?thesis using m' by blast
qed

text \<open>The size of a matrix is the number of rows up to the last one with an entry, and a row of
  number less than 64 is true if it has an entry.\<close>
theorem matrix_rows:
  "(\<forall>r c. lt_get m r c \<longrightarrow> r < mat_size m) \<and>
   (\<forall>r. mat_size m = Suc r \<longrightarrow> (\<exists>c\<le>r. lt_get m r c)) \<and>
   (\<forall>row<64. lt_row_bool m row = Some (\<exists>c. lt_get m row c) \<and> sym_row_bool m row = Some (\<exists>c. sym_get m row c))"
proof (intro conjI)
  show "\<forall>r c. lt_get m r c \<longrightarrow> r < mat_size m" "\<forall>r. mat_size m = Suc r \<longrightarrow> (\<exists>c\<le>r. lt_get m r c)"
    using mat_size_spec by blast+
  show "\<forall>row<64. lt_row_bool m row = Some (\<exists>c. lt_get m row c) \<and> sym_row_bool m row = Some (\<exists>c. sym_get m row c)"
  proof (intro allI impI conjI)
    fix row :: nat
    assume r: "row < 64"
    have lt: "(\<exists>c\<le>row. lt_get m row c) \<longleftrightarrow> (\<exists>c. lt_get m row c)" by (auto simp: lt_get_def)
    with r show "lt_row_bool m row = Some (\<exists>c. lt_get m row c)" by (simp add: row_bool_spec)
    have "(\<exists>c. lt_get m row c) \<or> (\<exists>c. row < c \<and> c < mat_size m \<and> sym_get m row c) \<longleftrightarrow> (\<exists>c. sym_get m row c)"
      using mat_size_spec(1) by (auto simp: sym_get_lt) (auto simp: lt_get_def split: if_split_asm)
    with r lt show "sym_row_bool m row = Some (\<exists>c. sym_get m row c)"
      by (auto simp: sym_row_bool_def row_bool_spec list_ex_iff Suc_le_eq)
  qed
qed

theorem matrix_rows_witness: "lt_row_bool [4] 1 = Some (\<exists>c. lt_get [4] 1 c)"
  using matrix_rows [of "[4]"] by simp

text \<open>From row 96 on, the slice behind a row can miss its last entries: a row with an entry counts
  as empty.\<close>
theorem matrix_large_row_lost:
  "let m = setbit bv_empty (tri_index 96 90) in lt_get m 96 90 \<and> lt_row_bool m 96 = Some False"
proof -
  have t: "tri_index 96 90 = 4746" "row_start 96 = 4656" by (simp_all add: tri_index_def row_start_def)
  have "round_size 75 = 80" by code_simp
  then have m: "setbit bv_empty (tri_index 96 90) = (replicate 80 0)[74 := 1024]"
    by (simp add: t setbit_def reserve_def expand_def Let_def flip: replicate_Suc)
  have "expand bv_empty 2 = [0, 0]" by code_simp
  then have "getslice ((replicate 80 0)[74 := 1024]) 4656 97 = Some [0, 0]"
    by (simp add: getslice_def Let_def numeral_2_eq_2)
  then have "lt_row_bool (setbit bv_empty (tri_index 96 90)) 96 = Some False"
    unfolding m by (simp add: lt_row_bool_def t bv_is_empty_def)
  moreover have "lt_get (setbit bv_empty (tri_index 96 90)) 96 90" by (simp add: lt_get_def getbit_setbit)
  ultimately show ?thesis unfolding Let_def by blast
qed

text \<open>The text printed for a triangular matrix leaves out the diagonal, and the parser reads every
  digit as the next entry, the diagonal included: reading back a printed matrix moves its entries.\<close>
theorem lt_text_moves_entries:
  "let m = setbit bv_empty (tri_index 1 0); (ok, m') = lt_parse (lt_print m) bv_empty
   in ok \<and> lt_get m 1 0 \<and> \<not> lt_get m' 1 0 \<and> lt_get m' 0 0"
  by code_simp

end
