(* ===== verification/SatElim.thy ===== *)
theory SatElim
  imports P4Sem
begin

text \<open>
  Elimination of saturating arithmetic (midend/saturationElim.{h,cpp}) and the bounds of the fixed-width
  types it uses (ir/irutils.cpp): an \<open>AddSat\<close> or \<open>SubSat\<close> becomes a conditional expression over the
  wrapping operation.
\<close>

section \<open>The largest and the smallest value of a type\<close>

text \<open>\<open>getMaxBvVal\<close> and \<open>getMinBvVal\<close>; a negative exponent is outside the domain of \<open>pow\<close> and of the
  shift.\<close>

definition max_bv_width :: "int \<Rightarrow> int comp" where
  "max_bv_width bitWidth = (if bitWidth < 0 then Bug ''negative exponent'' else ret (2 ^ nat bitWidth - 1))"

definition getMaxBvVal :: "p4type \<Rightarrow> int comp" where
  "getMaxBvVal t =
     (case t of
        Type_Bits w s \<Rightarrow> (if s then max_bv_width (w - 1) else max_bv_width w)
      | Type_Boolean \<Rightarrow> ret 1
      | _ \<Rightarrow> Bug ''Maximum value calculation for type not implemented'')"

definition getMinBvVal :: "p4type \<Rightarrow> int comp" where
  "getMinBvVal t =
     (case t of
        Type_Bits w s \<Rightarrow>
          (if s then (if w - 1 < 0 then Bug ''negative shift'' else ret (- push_bit (nat (w - 1)) 1)) else ret 0)
      | Type_Boolean \<Rightarrow> ret 0
      | _ \<Rightarrow> Bug ''Maximum value calculation for type not implemented'')"

section \<open>The conditions\<close>

text \<open>\<open>overflowCondition\<close> and \<open>underflowCondition\<close> of the code, over the operands, the constants and the
  wrapping result \<open>e\<close>.\<close>

abbreviation rel :: "binop \<Rightarrow> expr \<Rightarrow> expr \<Rightarrow> expr" where
  "rel b x y \<equiv> Binary b Type_Boolean x y"

definition add_overflow :: "p4type \<Rightarrow> bool \<Rightarrow> expr \<Rightarrow> expr \<Rightarrow> expr \<Rightarrow> expr \<Rightarrow> expr \<Rightarrow> expr" where
  "add_overflow bitType isSigned left right e zero overflowNumber =
     (if isSigned then rel LAnd (rel Grt left zero) (rel LAnd (rel Grt right zero) (rel Leq e zero))
      else rel Grt left (Binary Sub bitType overflowNumber right))"

definition add_underflow :: "bool \<Rightarrow> expr \<Rightarrow> expr \<Rightarrow> expr \<Rightarrow> expr \<Rightarrow> expr" where
  "add_underflow isSigned left right e zero =
     (if isSigned then rel LAnd (rel Geq e zero) (rel LAnd (rel Lss left zero) (rel Lss right zero))
      else BoolLiteral False)"

definition sub_overflow :: "bool \<Rightarrow> expr \<Rightarrow> expr \<Rightarrow> expr \<Rightarrow> expr \<Rightarrow> expr" where
  "sub_overflow isSigned left right e zero =
     (if isSigned then rel LAnd (rel Grt left zero) (rel LAnd (rel Leq right zero) (rel Leq e zero))
      else BoolLiteral False)"

definition sub_underflow :: "bool \<Rightarrow> expr \<Rightarrow> expr \<Rightarrow> expr \<Rightarrow> expr \<Rightarrow> expr" where
  "sub_underflow isSigned left right e zero =
     (if isSigned then rel LAnd (rel Lss left zero) (rel LAnd (rel Geq right zero) (rel Geq e zero))
      else rel Lss left right)"

section \<open>The elimination\<close>

definition isSaturationOperation :: "expr \<Rightarrow> bool" where
  "isSaturationOperation e = (case e of Binary b t l r \<Rightarrow> b = AddSat \<or> b = SubSat | _ \<Rightarrow> False)"

definition eliminate :: "binop \<Rightarrow> p4type \<Rightarrow> expr \<Rightarrow> expr \<Rightarrow> expr comp" where
  "eliminate b ty left right =
     (if \<not> isSaturationOperation (Binary b ty left right)
      then Bug ''Cannot do saturation elimination on a non-saturating operation''
      else
        case to_Type_Bits ty of
          None \<Rightarrow> Bug ''Unsupported type for conversion''
        | Some (sz, isSigned) \<Rightarrow>
            bind_comp (bind_comp (getMaxBvVal ty) (\<lambda>v. mk_constant ty v 10 False)) (\<lambda>overflowNumber.
            bind_comp (mk_constant ty 0 10 False) (\<lambda>zero.
            bind_comp (if isSigned then bind_comp (getMinBvVal ty) (\<lambda>v. mk_constant ty v 10 False) else ret zero)
              (\<lambda>underflowNumber.
              let e = Binary (if b = AddSat then Add else Sub) ty left right;
                  overflowCondition = (if b = AddSat then add_overflow ty isSigned left right e zero overflowNumber
                                       else sub_overflow isSigned left right e zero);
                  underflowCondition = (if b = AddSat then add_underflow isSigned left right e zero
                                        else sub_underflow isSigned left right e zero)
              in ret (Mux ty overflowCondition overflowNumber (Mux ty underflowCondition underflowNumber e))))))"

section \<open>Evaluation\<close>

lemma eval_rel:
  assumes "eval \<rho> x = Some (BitsV w s a)" "eval \<rho> y = Some (BitsV w s b)"
  shows "eval \<rho> (rel Grt x y) = Some (BoolV (a > b))" "eval \<rho> (rel Geq x y) = Some (BoolV (a \<ge> b))"
    "eval \<rho> (rel Lss x y) = Some (BoolV (a < b))" "eval \<rho> (rel Leq x y) = Some (BoolV (a \<le> b))"
  using assms by (simp_all add: binop_val_def)

lemma eval_rel_LAnd:
  assumes "eval \<rho> x = Some (BoolV p)" "eval \<rho> y = Some (BoolV q)"
  shows "eval \<rho> (rel LAnd x y) = Some (BoolV (p \<and> q))"
  using assms by simp

lemma eval_wrapping:
  assumes "eval \<rho> x = Some (BitsV w s a)" "eval \<rho> y = Some (BitsV w s b)"
  shows "eval \<rho> (Binary Add t x y) = Some (BitsV w s (norm w s (a + b)))"
    "eval \<rho> (Binary Sub t x y) = Some (BitsV w s (norm w s (a - b)))"
  using assms by (simp_all add: binop_val_def)

text \<open>Wrapping a sum or difference of two values of the type.\<close>

lemma norm_shift: "norm w s (x + 2 ^ w) = norm w s x" "norm w s (x - 2 ^ w) = norm w s x"
  by (rule norm_cong; simp)+

lemma norm_wrap:
  assumes "in_range w s a" "in_range w s b"
  shows "norm w s (a + b) = (if in_range w s (a + b) then a + b else if 0 \<le> a + b then a + b - 2 ^ w else a + b + 2 ^ w)"
    "norm w s (a - b) = (if in_range w s (a - b) then a - b else if 0 \<le> a - b then a - b - 2 ^ w else a - b + 2 ^ w)"
proof -
  have w2: "s \<Longrightarrow> (2::int) ^ w = 2 * 2 ^ (w - 1)" using assms(1) pow2_Suc_pred [of w] by (simp add: in_range_def)
  have *: "norm w s c = (if in_range w s c then c else if 0 \<le> c then c - 2 ^ w else c + 2 ^ w)"
    if "in_range w s (if in_range w s c then c else if 0 \<le> c then c - 2 ^ w else c + 2 ^ w)" for c
    using norm_id [OF that] by (auto simp: norm_shift split: if_split_asm)
  have "in_range w s (if in_range w s c then c else if 0 \<le> c then c - 2 ^ w else c + 2 ^ w)"
    if "c = a + b \<or> c = a - b" for c
    using that assms w2 by (cases s) (auto simp: in_range_def)
  then show "norm w s (a + b) = (if in_range w s (a + b) then a + b else if 0 \<le> a + b then a + b - 2 ^ w else a + b + 2 ^ w)"
    "norm w s (a - b) = (if in_range w s (a - b) then a - b else if 0 \<le> a - b then a - b - 2 ^ w else a - b + 2 ^ w)"
    using * by blast+
qed

text \<open>The conditions recognize the results that leave the range of the type.\<close>

lemma saturation_signed:
  assumes "in_range w True a" "in_range w True b"
  shows "clamp w True (a + b) = (if a > 0 \<and> b > 0 \<and> norm w True (a + b) \<le> 0 then 2 ^ (w - 1) - 1
      else if norm w True (a + b) \<ge> 0 \<and> a < 0 \<and> b < 0 then - (2 ^ (w - 1)) else norm w True (a + b))"
    "\<not> (a = 0 \<and> b = - (2 ^ (w - 1))) \<Longrightarrow>
     clamp w True (a - b) = (if a > 0 \<and> b \<le> 0 \<and> norm w True (a - b) \<le> 0 then 2 ^ (w - 1) - 1
      else if a < 0 \<and> b \<ge> 0 \<and> norm w True (a - b) \<ge> 0 then - (2 ^ (w - 1)) else norm w True (a - b))"
proof -
  have w2: "(2::int) ^ w = 2 * 2 ^ (w - 1)" using assms(1) pow2_Suc_pred [of w] by (simp add: in_range_def)
  show "clamp w True (a + b) = (if a > 0 \<and> b > 0 \<and> norm w True (a + b) \<le> 0 then 2 ^ (w - 1) - 1
      else if norm w True (a + b) \<ge> 0 \<and> a < 0 \<and> b < 0 then - (2 ^ (w - 1)) else norm w True (a + b))"
    unfolding norm_wrap(1) [OF assms] using assms w2 by (auto simp: clamp_def in_range_def)
  show "\<not> (a = 0 \<and> b = - (2 ^ (w - 1))) \<Longrightarrow>
     clamp w True (a - b) = (if a > 0 \<and> b \<le> 0 \<and> norm w True (a - b) \<le> 0 then 2 ^ (w - 1) - 1
      else if a < 0 \<and> b \<ge> 0 \<and> norm w True (a - b) \<ge> 0 then - (2 ^ (w - 1)) else norm w True (a - b))"
    unfolding norm_wrap(2) [OF assms] using assms w2 by (auto simp: clamp_def in_range_def)
qed

lemma saturation_unsigned:
  assumes "in_range w False a" "in_range w False b"
  shows "clamp w False (a + b) = (if a > norm w False (2 ^ w - 1 - b) then 2 ^ w - 1 else norm w False (a + b))"
    "clamp w False (a - b) = (if a < b then 0 else norm w False (a - b))"
proof -
  have "in_range w False (2 ^ w - 1 - b)" using assms(2) by (simp add: in_range_def)
  then have "norm w False (2 ^ w - 1 - b) = 2 ^ w - 1 - b" by (rule norm_id)
  then show "clamp w False (a + b) = (if a > norm w False (2 ^ w - 1 - b) then 2 ^ w - 1 else norm w False (a + b))"
    using assms norm_wrap(1) [OF assms] by (auto simp: clamp_def in_range_def)
  show "clamp w False (a - b) = (if a < b then 0 else norm w False (a - b))"
    using assms norm_wrap(2) [OF assms] by (auto simp: clamp_def in_range_def)
qed

section \<open>Properties\<close>

text \<open>C18: The conditional expression that replaces a saturating operation evaluates to the saturated
  result, for operands of the type of the operation, signed and unsigned - except for the signed
  subtraction of the smallest value from 0.\<close>
theorem saturation_eliminated:
  assumes "b = AddSat \<or> b = SubSat" "eval \<rho> l = Some (BitsV w s x)" "eval \<rho> r = Some (BitsV w s y)"
    and "in_range w s x" "in_range w s y"
    and "\<not> (b = SubSat \<and> s \<and> x = 0 \<and> y = - (2 ^ (w - 1)))"
  shows "\<exists>e. eliminate b (Type_Bits (int w) s) l r = Ok [] e \<and>
     eval \<rho> e = eval \<rho> (Binary b (Type_Bits (int w) s) l r) \<and> eval \<rho> e \<noteq> None"
proof -
  let ?t = "Type_Bits (int w) s"
  have sw: "s \<Longrightarrow> 0 < w" using assms(4) by (simp add: in_range_def)
  define mx where "mx = (if s then 2 ^ (w - 1) - 1 else 2 ^ w - 1 :: int)"
  define mn where "mn = (if s then - (2 ^ (w - 1)) else 0 :: int)"
  have w2: "s \<Longrightarrow> (2::int) ^ w = 2 * 2 ^ (w - 1)" using sw pow2_Suc_pred by blast
  have r: "in_range w s mx" "in_range w s mn" "in_range w s 0"
    using sw w2 by (auto simp: in_range_def mx_def mn_def)
  have c: "mk_constant ?t v 10 False = ret (Constant ?t v 10)" "eval \<rho> (Constant ?t v 10) = Some (BitsV w s v)"
    if v: "in_range w s v" for v
  proof -
    have "result_of (mk_constant ?t v 10 False) = Some (Constant ?t v 10)"
      using mk_constant_result [of "int w" s v 10 False] sw norm_id [OF v] by simp
    then obtain ds where ds: "mk_constant ?t v 10 False = Ok ds (Constant ?t v 10)" by (auto simp: result_of_Some_iff)
    then obtain v' where "handleOverflow ?t v False = Ok ds v'"
      by (auto simp: mk_constant_def elim!: bind_comp_OkE)
    with handleOverflow_silent [of "int w" s v False ds v'] v ds
    show "mk_constant ?t v 10 False = ret (Constant ?t v 10)" by simp
    show "eval \<rho> (Constant ?t v 10) = Some (BitsV w s v)" using v by simp
  qed
  note k = c [OF r(1)] c [OF r(2)] c [OF r(3)]
  define wr where "wr = Binary (if b = AddSat then Add else Sub) ?t l r"
  define z where "z = (if b = AddSat then x + y else x - y)"
  have ewr: "eval \<rho> wr = Some (BitsV w s (norm w s z))"
    using assms(1) eval_wrapping [OF assms(2,3)] by (auto simp: wr_def z_def)
  have sat: "eval \<rho> (Binary b ?t l r) = Some (BitsV w s (clamp w s z))"
    using assms(1-3) by (auto simp: binop_val_def z_def)
  define c1 where "c1 = (if b = AddSat then add_overflow ?t s l r wr (Constant ?t 0 10) (Constant ?t mx 10)
      else sub_overflow s l r wr (Constant ?t 0 10))"
  define c2 where "c2 = (if b = AddSat then add_underflow s l r wr (Constant ?t 0 10)
      else sub_underflow s l r wr (Constant ?t 0 10))"
  have run: "eliminate b ?t l r = ret (Mux ?t c1 (Constant ?t mx 10) (Mux ?t c2 (Constant ?t mn 10) wr))"
  proof -
    have g: "getMaxBvVal ?t = ret mx" "getMinBvVal ?t = ret mn"
      using sw by (auto simp: getMaxBvVal_def getMinBvVal_def max_bv_width_def mx_def mn_def push_bit_eq_mult nat_diff_distrib)
    have u: "(if s then bind_comp (getMinBvVal ?t) (\<lambda>v. mk_constant ?t v 10 False) else ret (Constant ?t 0 10)) =
        ret (Constant ?t mn 10)"
    proof (cases s)
      case True
      show ?thesis unfolding if_P [OF True] g(2) by (simp add: k(3))
    next
      case False
      then show ?thesis unfolding if_not_P [OF False] by (simp add: mn_def)
    qed
    have "isSaturationOperation (Binary b ?t l r)" using assms(1) by (auto simp: isSaturationOperation_def)
    then show ?thesis
      unfolding eliminate_def Let_def wr_def c1_def c2_def by (simp add: g k(1,5) u)
  qed
  note rels = eval_rel [OF assms(2) k(6)] eval_rel [OF assms(3) k(6)] eval_rel [OF ewr k(6)] eval_rel [OF assms(2,3)]
    eval_rel [OF assms(2) eval_wrapping(2) [OF k(2) assms(3)]]
  have conds: "\<exists>p q. eval \<rho> c1 = Some (BoolV p) \<and> eval \<rho> c2 = Some (BoolV q) \<and>
      clamp w s z = (if p then mx else if q then mn else norm w s z)"
  proof (cases s)
    case True
    note lands = eval_rel_LAnd [OF rels(1) eval_rel_LAnd [OF rels(5) rels(12)]]
      eval_rel_LAnd [OF rels(10) eval_rel_LAnd [OF rels(3) rels(7)]]
      eval_rel_LAnd [OF rels(1) eval_rel_LAnd [OF rels(8) rels(12)]]
      eval_rel_LAnd [OF rels(3) eval_rel_LAnd [OF rels(6) rels(10)]]
    from assms(1) show ?thesis
    proof
      assume b: "b = AddSat"
      show ?thesis
        unfolding c1_def c2_def add_overflow_def add_underflow_def if_P [OF True] if_P [OF b]
        by (intro exI conjI, rule lands(1), rule lands(2))
          (use saturation_signed(1) [of w x y] assms(4,5) True b in \<open>simp add: mx_def mn_def z_def\<close>)
    next
      assume b: "b = SubSat"
      then have nb: "b \<noteq> AddSat" by simp
      show ?thesis
        unfolding c1_def c2_def sub_overflow_def sub_underflow_def if_P [OF True] if_not_P [OF nb]
        by (intro exI conjI, rule lands(3), rule lands(4))
          (use saturation_signed(2) [of w x y] assms(4,5,6) True b in \<open>auto simp: mx_def mn_def z_def\<close>)
    qed
  next
    case False
    have f: "eval \<rho> (BoolLiteral False) = Some (BoolV False)" by simp
    from assms(1) show ?thesis
    proof
      assume b: "b = AddSat"
      show ?thesis
        unfolding c1_def c2_def add_overflow_def add_underflow_def if_not_P [OF False] if_P [OF b]
        by (intro exI conjI, rule rels(17), rule f)
          (use saturation_unsigned(1) [of w x y] assms(4,5) False b in \<open>simp add: mx_def mn_def z_def\<close>)
    next
      assume b: "b = SubSat"
      then have nb: "b \<noteq> AddSat" by simp
      show ?thesis
        unfolding c1_def c2_def sub_overflow_def sub_underflow_def if_not_P [OF False] if_not_P [OF nb]
        by (intro exI conjI, rule f, rule rels(15))
          (use saturation_unsigned(2) [of w x y] assms(4,5) False b in \<open>simp add: mx_def mn_def z_def\<close>)
    qed
  qed
  then obtain p q where pq: "eval \<rho> c1 = Some (BoolV p)" "eval \<rho> c2 = Some (BoolV q)"
    "clamp w s z = (if p then mx else if q then mn else norm w s z)" by blast
  have "eval \<rho> (Mux ?t c1 (Constant ?t mx 10) (Mux ?t c2 (Constant ?t mn 10) wr)) = Some (BitsV w s (clamp w s z))"
    using k(2,4) by (simp add: pq ewr)
  with run sat show ?thesis by simp
qed

definition sat_env :: sem_env where
  "sat_env = \<lparr>var_val = (\<lambda>p. if p = ''x'' then Some (BitsV 8 True (-100)) else if p = ''y'' then Some (BitsV 8 True 50)
     else if p = ''z'' then Some (BitsV 8 True 0) else Some (BitsV 8 True (-128))), call_val = \<lambda>m v as. None\<rparr>"

abbreviation i8 :: p4type where "i8 \<equiv> Type_Bits 8 True"

theorem saturation_eliminated_witness:
  "\<exists>e. eliminate SubSat i8 (PathExpression i8 ''x'') (PathExpression i8 ''y'') = Ok [] e \<and>
     eval sat_env e = eval sat_env (Binary SubSat i8 (PathExpression i8 ''x'') (PathExpression i8 ''y'')) \<and> eval sat_env e \<noteq> None"
  using saturation_eliminated [of SubSat sat_env "PathExpression i8 ''x''" 8 True "-100" "PathExpression i8 ''y''" 50]
  by (simp add: sat_env_def in_range_def)

text \<open>A signed saturating subtraction of the smallest value from 0 has the largest value as its
  result; the expression that replaces it evaluates to the smallest one.\<close>
theorem saturation_of_zero_minus_min:
  "map_option (eval sat_env) (result_of (eliminate SubSat i8 (PathExpression i8 ''z'') (PathExpression i8 ''m''))) =
     Some (Some (BitsV 8 True (-128))) \<and>
   eval sat_env (Binary SubSat i8 (PathExpression i8 ''z'') (PathExpression i8 ''m'')) = Some (BitsV 8 True 127)"
  by code_simp

end
