(* ===== verification/TernaryMatch.thy ===== *)
theory TernaryMatch
  imports BigInt
begin

text \<open>
  Ternary matches (lib/match.{h,cpp}): a pair of bit masks, of the bits that may be 0 and the bits
  that may be 1.  Negative masks stand for infinitely many bits, as \<open>big_int\<close> has them.
\<close>

record match_t =
  word0 :: int
  word1 :: int

section \<open>Construction and matching\<close>

definition match_true :: "match_t \<Rightarrow> bool" where
  "match_true m \<longleftrightarrow> word0 m OR word1 m \<noteq> 0"

definition matches :: "match_t \<Rightarrow> int \<Rightarrow> bool" where
  "matches m v \<longleftrightarrow> v OR word1 m = word1 m \<and> (NOT v AND word1 m) OR word0 m = word0 m"

definition setwidth :: "match_t \<Rightarrow> nat \<Rightarrow> match_t" where
  "setwidth m bits =
     (let msk = push_bit bits 1 - 1;
          w0 = word0 m AND msk;
          w1 = word1 m AND msk;
          msk = msk AND NOT (w0 OR w1)
      in \<lparr>word0 = w0 OR msk, word1 = w1 OR msk\<rparr>)"

definition mk_match :: "nat \<Rightarrow> int \<Rightarrow> int \<Rightarrow> match_t" where
  "mk_match size_bits val care = setwidth \<lparr>word0 = NOT val AND care, word1 = val AND care\<rparr> size_bits"

definition dont_care :: "nat \<Rightarrow> match_t" where
  "dont_care size_bits = mk_match size_bits 0 0"

section \<open>Text\<close>

text \<open>\<open>chkmask\<close>: the position of the highest digit when no digit of \<open>maskbits\<close> bits is partly a don't
  care, -1 otherwise.  On a negative msk the loop does not end.\<close>

partial_function (option) chkmask_loop :: "match_t \<Rightarrow> nat \<Rightarrow> int \<Rightarrow> int \<Rightarrow> int option" where
  "chkmask_loop m maskbits msk shift =
     (if msk \<noteq> 0 \<and> drop_bit (nat shift) (word0 m OR word1 m) \<noteq> 0 then
        let both = msk AND word0 m AND word1 m
        in if both \<noteq> 0 \<and> both \<noteq> msk then Some (- 1)
           else chkmask_loop m maskbits (push_bit maskbits msk) (shift + int maskbits)
      else Some (shift - int maskbits))"

definition chkmask :: "match_t \<Rightarrow> nat \<Rightarrow> int option" where
  "chkmask m maskbits = chkmask_loop m maskbits (push_bit maskbits 1 - 1) 0"

definition digit_chars :: string where
  "digit_chars = ''0123456789abcdef''"

text \<open>The digits from the highest down; a digit has at least one bit, so the msk decreases.\<close>

function print_loop :: "match_t \<Rightarrow> nat \<Rightarrow> int \<Rightarrow> int \<Rightarrow> string" where
  "print_loop m bits shift msk =
     (if msk > 0 \<and> bits > 0 then
        (if msk AND word0 m AND word1 m \<noteq> 0 then CHR ''*''
         else digit_chars ! nat (drop_bit (nat shift) (word1 m AND msk)))
          # print_loop m bits (shift - int bits) (drop_bit bits msk)
      else [])"
  by auto
termination
proof (relation "measure (\<lambda>(m, bits, shift, msk). nat msk)")
  fix m :: match_t and bits :: nat and shift msk :: int
  assume a: "0 < msk \<and> 0 < bits"
  have "msk div 2 ^ bits < msk" using a by (intro int_div_less_self) (auto simp: one_less_power)
  with a show "((m, bits, shift - int bits, drop_bit bits msk), m, bits, shift, msk)
      \<in> measure (\<lambda>(m, bits, shift, msk). nat msk)" by (simp add: drop_bit_eq_div)
qed simp

declare print_loop.simps [simp del]

definition print_digits :: "match_t \<Rightarrow> nat \<Rightarrow> int \<Rightarrow> string" where
  "print_digits m bits shift = print_loop m bits shift (push_bit (nat shift) (push_bit bits 1 - 1))"

definition match_print :: "match_t \<Rightarrow> string option" where
  "match_print m =
     (if \<not> match_true m then Some ''*''
      else Option.bind (chkmask m 4) (\<lambda>shift.
        if shift \<ge> 0 then Some (''0x'' @ print_digits m 4 shift)
        else Option.bind (chkmask m 3) (\<lambda>shift.
          if shift \<ge> 0 then Some (''0o'' @ print_digits m 3 shift)
          else Option.bind (chkmask m 1) (\<lambda>shift.
            if shift \<ge> 0 then Some (''0b'' @ print_digits m 1 shift)
            else Some (print_digits m 1 0)))))"

text \<open>\<open>operator>>\<close>: a character is skipped, a digit, a don't care, or an error.\<close>

datatype mchar = Skip | Digit int | Star | Invalid

definition classify_char :: "char \<Rightarrow> mchar" where
  "classify_char c =
     (let n = of_char c :: int
      in if c = CHR ''_'' then Skip
         else if 48 \<le> n \<and> n \<le> 57 then Digit (n - 48)
         else if 97 \<le> n \<and> n \<le> 102 then Digit (n - 97 + 10)
         else if 65 \<le> n \<and> n \<le> 70 then Digit (n - 65 + 10)
         else if c = CHR ''*'' then Star
         else Invalid)"

definition add_digit :: "int \<Rightarrow> int \<Rightarrow> int \<Rightarrow> match_t \<Rightarrow> match_t" where
  "add_digit base digit msk rv =
     \<lparr>word0 = (word0 rv * base) OR (digit XOR msk), word1 = (word1 rv * base) OR digit\<rparr>"

fun match_parse_loop :: "int \<Rightarrow> string \<Rightarrow> match_t \<Rightarrow> match_t option" where
  "match_parse_loop base [] rv = Some rv"
| "match_parse_loop base (p # ps) rv =
     (case classify_char p of
        Skip \<Rightarrow> match_parse_loop base ps rv
      | Digit digit \<Rightarrow> match_parse_loop base ps (add_digit base digit (base - 1) rv)
      | Star \<Rightarrow> if base = 10 then None else match_parse_loop base ps (add_digit base (base - 1) 0 rv)
      | Invalid \<Rightarrow> None)"

definition base_of :: "string \<Rightarrow> int \<times> string" where
  "base_of p =
     (case p of
        c0 # c1 # ps \<Rightarrow>
          if c0 = CHR ''0'' then
            if c1 = CHR ''x'' \<or> c1 = CHR ''X'' then (16, ps)
            else if c1 = CHR ''o'' \<or> c1 = CHR ''O'' then (8, ps)
            else if c1 = CHR ''b'' \<or> c1 = CHR ''B'' then (2, ps)
            else (10, p)
          else (10, p)
      | _ \<Rightarrow> (10, p))"

definition match_parse :: "string \<Rightarrow> match_t option" where
  "match_parse p =
     (case base_of p of (base, ps) \<Rightarrow>
        map_option (\<lambda>rv. if base = 10 then rv\<lparr>word0 := NOT (word1 rv)\<rparr> else rv)
          (match_parse_loop base ps \<lparr>word0 = 0, word1 = 0\<rparr>))"

section \<open>Matching, bit by bit\<close>

lemma or_absorb_iff: "a OR b = b \<longleftrightarrow> (\<forall>i. bit a i \<longrightarrow> bit b i)" for a b :: int
  by (auto simp: bit_eq_iff bit_or_iff)

lemma matches_iff:
  "matches m v \<longleftrightarrow> (\<forall>i. if bit v i then bit (word1 m) i else bit (word1 m) i \<longrightarrow> bit (word0 m) i)"
  by (auto simp: matches_def or_absorb_iff bit_and_iff bit_not_iff)

lemma bit_setwidth:
  "bit (word0 (setwidth m n)) i \<longleftrightarrow> i < n \<and> (bit (word0 m) i \<or> \<not> bit (word1 m) i)"
  "bit (word1 (setwidth m n)) i \<longleftrightarrow> i < n \<and> (bit (word1 m) i \<or> \<not> bit (word0 m) i)"
  by (auto simp: setwidth_def Let_def bit_or_iff bit_and_iff bit_not_iff bit_mask_iff push_bit_eq_mult
      simp flip: mask_int_eq)

section \<open>The digits of a match\<close>

text \<open>The digit \<open>j\<close> of \<open>b\<close> bits of \<open>x\<close>.\<close>

definition dig :: "nat \<Rightarrow> nat \<Rightarrow> int \<Rightarrow> int" where
  "dig b j x = take_bit b (drop_bit (b * j) x)"

lemma bit_dig: "bit (dig b j x) i \<longleftrightarrow> i < b \<and> bit x (b * j + i)"
  by (simp add: dig_def bit_take_bit_iff bit_drop_bit_eq)

lemma bit_low [simp]: "bit (2 ^ b - 1 :: int) i \<longleftrightarrow> i < b"
  by (simp add: bit_mask_iff flip: mask_int_eq)

lemma bit_digit_mask: "bit (push_bit s (2 ^ b - 1 :: int)) i \<longleftrightarrow> s \<le> i \<and> i < s + b"
  by (auto simp: bit_push_bit_iff)

definition star_digit :: "match_t \<Rightarrow> nat \<Rightarrow> nat \<Rightarrow> bool" where
  "star_digit m b j \<longleftrightarrow> dig b j (word0 m AND word1 m) \<noteq> 0"

definition whole :: "match_t \<Rightarrow> nat \<Rightarrow> nat \<Rightarrow> bool" where
  "whole m b j \<longleftrightarrow> dig b j (word0 m AND word1 m) \<in> {0, 2 ^ b - 1}"

lemma mask_and_digit:
  "push_bit (b * j) (2 ^ b - 1) AND x = push_bit (b * j) (dig b j x)"
  by (rule bit_eqI) (auto simp: bit_and_iff bit_digit_mask bit_push_bit_iff bit_dig)

lemma digit_mask_pos: "0 < b \<Longrightarrow> 0 < push_bit s (2 ^ b - 1 :: int)"
  by (simp add: push_bit_eq_mult one_less_power)

lemma print_loop_step:
  assumes "0 < b"
  shows "print_loop m b (int (b * j)) (push_bit (b * j) (2 ^ b - 1)) =
    (if star_digit m b j then CHR ''*'' else digit_chars ! nat (dig b j (word1 m)))
      # print_loop m b (int (b * j) - int b) (drop_bit b (push_bit (b * j) (2 ^ b - 1)))"
proof -
  have "push_bit (b * j) (2 ^ b - 1) AND word0 m AND word1 m = push_bit (b * j) (dig b j (word0 m AND word1 m))"
    by (metis mask_and_digit and.assoc)
  then have st: "push_bit (b * j) (2 ^ b - 1) AND word0 m AND word1 m \<noteq> 0 \<longleftrightarrow> star_digit m b j"
    by (simp add: star_digit_def push_bit_eq_mult)
  have d: "drop_bit (nat (int (b * j))) (word1 m AND push_bit (b * j) (2 ^ b - 1)) = dig b j (word1 m)"
    unfolding nat_int by (rule bit_eqI) (auto simp: bit_drop_bit_eq bit_and_iff bit_digit_mask bit_dig)
  show ?thesis
    by (subst print_loop.simps) (simp only: digit_mask_pos [OF assms] assms st d if_True simp_thms split: if_split)
qed

lemma print_loop_digits:
  assumes "0 < b"
  shows "print_loop m b (int (b * j)) (push_bit (b * j) (2 ^ b - 1)) =
    map (\<lambda>j. if star_digit m b j then CHR ''*'' else digit_chars ! nat (dig b j (word1 m))) (rev [0..<Suc j])"
proof (induction j)
  case 0
  have "drop_bit b (push_bit (b * 0) (2 ^ b - 1 :: int)) = 0"
    by (rule bit_eqI) (simp only: bit_drop_bit_eq comp_def bit_digit_mask, simp)
  moreover have "print_loop m b sh 0 = []" for sh by (subst print_loop.simps) simp
  ultimately show ?case unfolding print_loop_step [OF assms] by simp
next
  case (Suc j)
  have "drop_bit b (push_bit (b * Suc j) (2 ^ b - 1 :: int)) = push_bit (b * j) (2 ^ b - 1)"
    by (rule bit_eqI) (simp only: bit_drop_bit_eq comp_def bit_digit_mask, auto)
  moreover have "int (b * Suc j) - int b = int (b * j)" by simp
  ultimately show ?case unfolding print_loop_step [OF assms] using Suc.IH by simp
qed


section \<open>The check of the digits\<close>

lemma whole_iff:
  "push_bit (b * n) (2 ^ b - 1) AND word0 m AND word1 m \<noteq> 0 \<and>
     push_bit (b * n) (2 ^ b - 1) AND word0 m AND word1 m \<noteq> push_bit (b * n) (2 ^ b - 1) \<longleftrightarrow> \<not> whole m b n"
proof -
  have "push_bit (b * n) (2 ^ b - 1) AND word0 m AND word1 m = push_bit (b * n) (dig b n (word0 m AND word1 m))"
    by (metis mask_and_digit and.assoc)
  then show ?thesis by (auto simp: whole_def push_bit_eq_mult)
qed

lemma chkmask_loop_spec:
  assumes "0 < b" "0 \<le> word0 m OR word1 m"
  shows "\<exists>r. chkmask_loop m b (push_bit (b * n) (2 ^ b - 1)) (int (b * n)) = Some r \<and>
    (r = - 1 \<and> (\<exists>j. \<not> whole m b j) \<or>
     (\<exists>k\<ge>n. r = int (b * k) - int b \<and> drop_bit (b * k) (word0 m OR word1 m) = 0 \<and>
       (\<forall>j. n \<le> j \<and> j < k \<longrightarrow> whole m b j \<and> drop_bit (b * j) (word0 m OR word1 m) \<noteq> 0)))"
proof (induction "nat (drop_bit (b * n) (word0 m OR word1 m))" arbitrary: n rule: less_induct)
  case less
  let ?W = "word0 m OR word1 m" and ?mk = "push_bit (b * n) (2 ^ b - 1) :: int"
  have mk: "?mk \<noteq> 0" using digit_mask_pos [OF assms(1), of "b * n"] by (metis less_irrefl)
  show ?case
  proof (cases "drop_bit (b * n) ?W = 0")
    case True
    then have "chkmask_loop m b ?mk (int (b * n)) = Some (int (b * n) - int b)"
      by (subst chkmask_loop.simps) (simp only: nat_int simp_thms if_False)
    with True show ?thesis by (intro exI conjI disjI2, auto)
  next
    case nz: False
    show ?thesis
    proof (cases "whole m b n")
      case False
      then have "chkmask_loop m b ?mk (int (b * n)) = Some (- 1)"
        using whole_iff [of b n m] nz mk by (subst chkmask_loop.simps) (simp only: Let_def nat_int simp_thms if_True)
      with False show ?thesis by blast
    next
      case True
      have pos: "0 < drop_bit (b * n) ?W" 
        using nz assms(2) drop_bit_nonnegative_int_iff [of "b * n" ?W] by linarith
      have "drop_bit (b * Suc n) ?W = drop_bit (b * n) ?W div 2 ^ b"
        by (simp only: drop_bit_drop_bit drop_bit_eq_div [symmetric] mult_Suc_right)
      moreover have "drop_bit (b * n) ?W div 2 ^ b < drop_bit (b * n) ?W"
        using pos assms(1) by (intro int_div_less_self) (auto simp: one_less_power)
      ultimately have lt: "nat (drop_bit (b * Suc n) ?W) < nat (drop_bit (b * n) ?W)" using pos by simp
      have nxt: "push_bit b ?mk = push_bit (b * Suc n) (2 ^ b - 1)" "int (b * n) + int b = int (b * Suc n)"
        by (simp_all add: push_bit_push_bit)
      have "chkmask_loop m b ?mk (int (b * n)) = chkmask_loop m b (push_bit (b * Suc n) (2 ^ b - 1)) (int (b * Suc n))"
        using whole_iff [of b n m] nz mk True by (subst chkmask_loop.simps) (simp only: Let_def nat_int simp_thms if_True if_False nxt)
      moreover from less [OF lt] obtain r where r: "chkmask_loop m b (push_bit (b * Suc n) (2 ^ b - 1)) (int (b * Suc n)) = Some r"
        "r = - 1 \<and> (\<exists>j. \<not> whole m b j) \<or>
         (\<exists>k\<ge>Suc n. r = int (b * k) - int b \<and> drop_bit (b * k) ?W = 0 \<and>
           (\<forall>j. Suc n \<le> j \<and> j < k \<longrightarrow> whole m b j \<and> drop_bit (b * j) ?W \<noteq> 0))" by blast
      ultimately show ?thesis using True nz
        by (metis Suc_leI Suc_leD le_neq_implies_less)
    qed
  qed
qed

lemma chkmask_spec:
  assumes "0 < b" "0 \<le> word0 m" "0 \<le> word1 m" "match_true m"
  shows "chkmask m b = Some (- 1) \<and> (\<exists>j. \<not> whole m b j) \<or>
    (\<exists>k. chkmask m b = Some (int (b * k)) \<and> drop_bit (b * Suc k) (word0 m OR word1 m) = 0 \<and> (\<forall>j\<le>k. whole m b j))"
proof -
  have W: "0 \<le> word0 m OR word1 m" using assms(2,3) by simp
  from chkmask_loop_spec [OF assms(1) W, of 0] obtain r where r: "chkmask m b = Some r"
    "r = - 1 \<and> (\<exists>j. \<not> whole m b j) \<or> (\<exists>k. r = int (b * k) - int b \<and> drop_bit (b * k) (word0 m OR word1 m) = 0 \<and>
       (\<forall>j<k. whole m b j))" by (auto simp: chkmask_def)
  from r(2) show ?thesis
  proof
    assume "r = - 1 \<and> (\<exists>j. \<not> whole m b j)"
    with r(1) show ?thesis by blast
  next
    assume "\<exists>k. r = int (b * k) - int b \<and> drop_bit (b * k) (word0 m OR word1 m) = 0 \<and> (\<forall>j<k. whole m b j)"
    then obtain k where k: "r = int (b * k) - int b" "drop_bit (b * k) (word0 m OR word1 m) = 0" "\<forall>j<k. whole m b j" by blast
    from k(2) assms(4) obtain k' where "k = Suc k'" by (cases k) (auto simp: match_true_def)
    with k r(1) show ?thesis by (intro disjI2 exI [of _ k']) (simp add: less_Suc_eq_le algebra_simps)
  qed
qed

lemma whole_1: "whole m 1 j"
proof -
  have "dig 1 j x = 0 \<or> dig 1 j x = 1" for x by (auto simp: dig_def take_bit_Suc)
  then show ?thesis by (simp add: whole_def)
qed

section \<open>Reading the digits back\<close>

text \<open>The match that is read back: every bit of the digits may be 0 that may not be 1.\<close>

definition filled :: "nat \<Rightarrow> match_t \<Rightarrow> match_t" where
  "filled n m = \<lparr>word0 = take_bit n (NOT (word1 m) OR word0 m), word1 = word1 m\<rparr>"

lemma drop_dig: "drop_bit (b * Suc j) y * 2 ^ b OR dig b j y = drop_bit (b * j) y" for y :: int
proof (rule bit_eqI)
  fix i
  show "bit (drop_bit (b * Suc j) y * 2 ^ b OR dig b j y) i = bit (drop_bit (b * j) y) i"
    unfolding push_bit_eq_mult [symmetric]
    by (cases "i < b") (auto simp: bit_or_iff bit_push_bit_iff bit_drop_bit_eq bit_dig algebra_simps)
qed

lemma classify_digit: "d < 16 \<Longrightarrow> classify_char (digit_chars ! d) = Digit (int d)"
proof -
  have "list_all (\<lambda>d. classify_char (digit_chars ! d) = Digit (int d)) [0..<16]" by code_simp
  then show "d < 16 \<Longrightarrow> ?thesis" by (simp add: list_all_iff)
qed

lemma classify_star: "classify_char (CHR ''*'') = Star"
  by code_simp

lemma parse_digits:
  assumes "0 < b" "b \<le> 4" "b \<noteq> 0" "(2::int) ^ b \<noteq> 10" "\<forall>j<k. whole m b j"
  shows "n \<le> k \<Longrightarrow> match_parse_loop (2 ^ b)
     (map (\<lambda>j. if star_digit m b j then CHR ''*'' else digit_chars ! nat (dig b j (word1 m))) (rev [0..<n]))
     \<lparr>word0 = drop_bit (b * n) (word0 (filled (b * k) m)), word1 = drop_bit (b * n) (word1 m)\<rparr> =
   Some (filled (b * k) m)"
proof (induction n)
  case 0
  then show ?case by (simp add: filled_def)
next
  case (Suc j)
  let ?x = "word0 (filled (b * k) m)" and ?rv = "\<lparr>word0 = drop_bit (b * Suc j) (word0 (filled (b * k) m)), word1 = drop_bit (b * Suc j) (word1 m)\<rparr>"
  have bk: "b * j + i < b * k" if "i < b" for i
  proof -
    have "b * Suc j \<le> b * k" using Suc.prems by (intro mult_le_mono) auto
    with that show ?thesis by simp
  qed
  have x: "bit (dig b j ?x) i \<longleftrightarrow> i < b \<and> (\<not> bit (word1 m) (b * j + i) \<or> bit (word0 m) (b * j + i))" for i
    using bk [of i] by (auto simp: bit_dig filled_def bit_take_bit_iff bit_or_iff bit_not_iff)
  have wh: "whole m b j" using assms(5) Suc.prems by simp
  have IH: "match_parse_loop (2 ^ b)
     (map (\<lambda>j. if star_digit m b j then CHR ''*'' else digit_chars ! nat (dig b j (word1 m))) (rev [0..<j]))
     (add_digit (2 ^ b) (dig b j (word1 m)) msk ?rv) = Some (filled (b * k) m)"
    if "dig b j (word1 m) XOR msk = dig b j ?x" for msk
    using Suc by (simp add: add_digit_def that drop_dig del: mult_Suc_right)
  show ?case
  proof (cases "star_digit m b j")
    case True
    then have all1: "dig b j (word0 m AND word1 m) = 2 ^ b - 1" using wh by (auto simp: whole_def star_digit_def)
    then have bits: "bit (word0 m) (b * j + i) \<and> bit (word1 m) (b * j + i)" if "i < b" for i
      using that bit_dig [of b j "word0 m AND word1 m" i] by (simp add: bit_and_iff)
    have "dig b j (word1 m) = 2 ^ b - 1" "dig b j ?x = 2 ^ b - 1"
      by (rule bit_eqI; use bits x in \<open>auto simp: bit_dig\<close>)+
    with IH [of 0] True assms(4) show ?thesis by (simp add: classify_star del: mult_Suc_right)
  next
    case False
    then have none: "dig b j (word0 m AND word1 m) = 0" by (simp add: star_digit_def)
    then have bits: "\<not> (bit (word0 m) (b * j + i) \<and> bit (word1 m) (b * j + i))" if "i < b" for i
      using that bit_dig [of b j "word0 m AND word1 m" i] by (auto simp: bit_and_iff)
    have e: "dig b j (word1 m) XOR (2 ^ b - 1) = dig b j ?x"
      by (rule bit_eqI) (use bits x in \<open>auto simp: bit_dig bit_xor_iff\<close>)
    have d: "0 \<le> dig b j (word1 m)" "dig b j (word1 m) < 2 ^ b" by (simp_all add: dig_def)
    moreover have "(2::int) ^ b \<le> 2 ^ 4" using assms(2) by (intro power_increasing) simp_all
    ultimately have "nat (dig b j (word1 m)) < 16" by simp
    from classify_digit [OF this] d(1) IH [OF e] False show ?thesis by (simp del: mult_Suc_right)
  qed
qed

lemma filled_matches:
  assumes "drop_bit n (word0 m OR word1 m) = 0"
  shows "matches (filled n m) v \<longleftrightarrow> matches m v"
proof -
  have "\<not> bit (word1 m) i" if "n \<le> i" for i
  proof -
    have "\<not> bit (drop_bit n (word0 m OR word1 m)) (i - n)" using assms by simp
    with that show ?thesis by (simp add: bit_drop_bit_eq bit_or_iff)
  qed
  then have "i < n" if "bit (word1 m) i" for i using that not_le by blast
  then show ?thesis by (auto simp: matches_iff filled_def bit_take_bit_iff bit_or_iff bit_not_iff)
qed

lemma print_parse_digits:
  assumes "0 < b" "b \<le> 4" "(2::int) ^ b \<noteq> 10" "chkmask m b = Some (int (b * k))"
    "drop_bit (b * Suc k) (word0 m OR word1 m) = 0" "\<forall>j\<le>k. whole m b j"
  shows "match_parse_loop (2 ^ b) (print_digits m b (int (b * k))) \<lparr>word0 = 0, word1 = 0\<rparr> = Some (filled (b * Suc k) m)"
proof -
  have z: "drop_bit (b * Suc k) (word0 (filled (b * Suc k) m)) = 0" "drop_bit (b * Suc k) (word1 m) = 0"
  proof -
    show "drop_bit (b * Suc k) (word0 (filled (b * Suc k) m)) = 0"
      by (rule bit_eqI) (simp only: filled_def match_t.select_convs bit_drop_bit_eq comp_def bit_take_bit_iff, simp)
    show "drop_bit (b * Suc k) (word1 m) = 0"
    proof (rule bit_eqI)
      fix i
      have "\<not> bit (drop_bit (b * Suc k) (word0 m OR word1 m)) i" unfolding assms(5) by simp
      then show "bit (drop_bit (b * Suc k) (word1 m)) i = bit 0 i" by (simp add: bit_drop_bit_eq bit_or_iff)
    qed
  qed
  have "match_parse_loop (2 ^ b)
     (map (\<lambda>j. if star_digit m b j then CHR ''*'' else digit_chars ! nat (dig b j (word1 m))) (rev [0..<Suc k]))
     \<lparr>word0 = drop_bit (b * Suc k) (word0 (filled (b * Suc k) m)), word1 = drop_bit (b * Suc k) (word1 m)\<rparr> =
   Some (filled (b * Suc k) m)"
    using assms by (intro parse_digits) (auto simp: less_Suc_eq_le)
  then show ?thesis unfolding z print_digits_def nat_int push_bit_of_1 print_loop_digits [OF assms(1)] .
qed

section \<open>Properties\<close>

text \<open>The condition of the comment on \<open>match_t\<close>.\<close>

definition documented_match :: "match_t \<Rightarrow> int \<Rightarrow> bool" where
  "documented_match m v \<longleftrightarrow> (v XOR word1 m) AND (word0 m XOR word1 m) = 0"

text \<open>C19: A match built from a value and a mask of a width matches the non-negative values of that
  width that agree with the value on the mask.  For a match that has been given a width, \<open>matches\<close> is the
  formula of the documentation, \<open>(input ^ word1) & (word0 ^ word1) == 0\<close>, with the condition that the value
  fits in the width, which the formula does not have: the formula holds for a value exactly when the match
  accepts its low bits, so on values that do not fit comment and code disagree.\<close>
theorem ternary_match_spec:
  assumes "0 \<le> v"
  shows "(matches (mk_match n val care) v \<longleftrightarrow> v < 2 ^ n \<and> take_bit n (v AND care) = take_bit n (val AND care)) \<and>
    (matches (setwidth m n) v \<longleftrightarrow> v < 2 ^ n \<and> documented_match (setwidth m n) v) \<and>
    (documented_match (setwidth m n) v \<longleftrightarrow> matches (setwidth m n) (take_bit n v))"
proof -
  have small: "v < 2 ^ n \<longleftrightarrow> (\<forall>i. bit v i \<longrightarrow> i < n)"
  proof -
    have "v < 2 ^ n \<longleftrightarrow> take_bit n v = v" using assms by (metis take_bit_int_eq_self take_bit_int_less_exp)
    also have "\<dots> \<longleftrightarrow> (\<forall>i. bit v i \<longrightarrow> i < n)" by (auto simp: bit_eq_iff bit_take_bit_iff)
    finally show ?thesis .
  qed
  have m: "matches (setwidth m n) u \<longleftrightarrow>
      (\<forall>i. if bit u i then i < n \<and> (bit (word1 m) i \<or> \<not> bit (word0 m) i)
           else i < n \<and> (bit (word1 m) i \<or> \<not> bit (word0 m) i) \<longrightarrow> bit (word0 m) i \<or> \<not> bit (word1 m) i)" for m u
    by (auto simp: matches_iff bit_setwidth)
  have "matches (mk_match n val care) v \<longleftrightarrow> (\<forall>i. bit v i \<longrightarrow> i < n) \<and>
      (\<forall>i<n. bit care i \<longrightarrow> bit v i = bit val i)"
    unfolding mk_match_def m by (auto simp: bit_and_iff bit_not_iff)
  also have "(\<forall>i<n. bit care i \<longrightarrow> bit v i = bit val i) \<longleftrightarrow> take_bit n (v AND care) = take_bit n (val AND care)"
    by (auto simp: bit_eq_iff bit_take_bit_iff bit_and_iff)
  finally have 1: "matches (mk_match n val care) v \<longleftrightarrow> v < 2 ^ n \<and> take_bit n (v AND care) = take_bit n (val AND care)"
    by (simp add: small)
  have doc: "documented_match (setwidth m n) u \<longleftrightarrow> (\<forall>i<n. (bit u i \<longrightarrow> bit (word1 m) i \<or> \<not> bit (word0 m) i) \<and>
      (\<not> bit u i \<longrightarrow> bit (word1 m) i \<or> \<not> bit (word0 m) i \<longrightarrow> bit (word0 m) i \<or> \<not> bit (word1 m) i))" for u
    unfolding documented_match_def by (auto simp: bit_eq_iff bit_and_iff bit_xor_iff bit_setwidth)
  have 2: "matches (setwidth m n) v \<longleftrightarrow> v < 2 ^ n \<and> documented_match (setwidth m n) v"
    unfolding small doc m by auto
  have "documented_match (setwidth m n) v \<longleftrightarrow> matches (setwidth m n) (take_bit n v)"
    unfolding doc m by (auto simp: bit_take_bit_iff)
  with 1 2 show ?thesis by blast
qed

text \<open>The value \<open>0x15A\<close> does not fit in the width 8.\<close>

theorem ternary_match_spec_witness:
  "matches (mk_match 8 0x50 0xF0) 0x5A \<and> \<not> matches (mk_match 8 0x50 0xF0) 0x6A \<and>
   documented_match (setwidth \<lparr>word0 = 0xA0, word1 = 0x50\<rparr> 8) 0x15A \<and> \<not> matches (setwidth \<lparr>word0 = 0xA0, word1 = 0x50\<rparr> 8) 0x15A"
proof -
  let ?m = "\<lparr>word0 = 0xA0, word1 = 0x50\<rparr>"
  have "matches (mk_match 8 0x50 0xF0) 0x5A" "\<not> matches (mk_match 8 0x50 0xF0) 0x6A"
    using ternary_match_spec [of "0x5A" 8 "0x50" "0xF0" ?m, THEN conjunct1]
      ternary_match_spec [of "0x6A" 8 "0x50" "0xF0" ?m, THEN conjunct1] by simp_all
  moreover have "matches (setwidth ?m 8) (take_bit 8 0x15A)" by code_simp
  then have "documented_match (setwidth ?m 8) 0x15A" "\<not> matches (setwidth ?m 8) 0x15A"
    using ternary_match_spec [of "0x15A" 8 0 0 ?m, THEN conjunct2] by simp_all
  ultimately show ?thesis by blast
qed

text \<open>C20: Printing a ternary match whose words are not negative and reading the text gives a match for the same
  values, for every match but the empty one, whose text \<open>*\<close> is not read.\<close>
theorem ternary_print_parse:
  assumes "0 \<le> word0 m" "0 \<le> word1 m" "match_true m"
  shows "\<exists>s m'. match_print m = Some s \<and> match_parse s = Some m' \<and> (\<forall>v. matches m' v = matches m v)"
proof -
  note ck = chkmask_spec [OF _ assms]
  have fin: ?thesis if b: "b = 4 \<and> c = CHR ''x'' \<or> b = 3 \<and> c = CHR ''o'' \<or> b = 1 \<and> c = CHR ''b''"
    and k: "chkmask m b = Some (int (b * k))" "drop_bit (b * Suc k) (word0 m OR word1 m) = 0" "\<forall>j\<le>k. whole m b j"
    and p: "match_print m = Some (CHR ''0'' # c # print_digits m b (int (b * k)))" for b c k
  proof -
    have bb: "0 < b" "b \<le> 4" "(2::int) ^ b \<noteq> 10" using b by auto
    have "base_of (CHR ''0'' # c # print_digits m b (int (b * k))) = (2 ^ b, print_digits m b (int (b * k)))"
      using b by (auto simp: base_of_def)
    with print_parse_digits [OF bb k] bb(3)
    have "match_parse (CHR ''0'' # c # print_digits m b (int (b * k))) = Some (filled (b * Suc k) m)"
      by (simp add: match_parse_def)
    with p filled_matches [OF k(2)] show ?thesis by blast
  qed
  from ck [of 4] consider (hex) k where "chkmask m 4 = Some (int (4 * k))" "drop_bit (4 * Suc k) (word0 m OR word1 m) = 0" "\<forall>j\<le>k. whole m 4 j"
    | (no) "chkmask m 4 = Some (- 1)" by auto
  then show ?thesis
  proof cases
    case hex
    then show ?thesis using assms(3) by (intro fin [of 4 "CHR ''x''" k]) (auto simp: match_print_def)
  next
    case no4: no
    from ck [of 3] consider (oct) k where "chkmask m 3 = Some (int (3 * k))" "drop_bit (3 * Suc k) (word0 m OR word1 m) = 0" "\<forall>j\<le>k. whole m 3 j"
      | (no) "chkmask m 3 = Some (- 1)" by auto
    then show ?thesis
    proof cases
      case oct
      then show ?thesis using assms(3) no4 by (intro fin [of 3 "CHR ''o''" k]) (auto simp: match_print_def)
    next
      case no3: no
      from ck [of 1] obtain k where "chkmask m 1 = Some (int (1 * k))" "drop_bit (1 * Suc k) (word0 m OR word1 m) = 0" "\<forall>j\<le>k. whole m 1 j"
        using whole_1 [of m] by auto
      then show ?thesis using assms(3) no4 no3 by (intro fin [of 1 "CHR ''b''" k]) (auto simp: match_print_def)
    qed
  qed
qed

theorem ternary_print_parse_witness:
  "\<exists>s m'. match_print (mk_match 12 0xA05 0xF0F) = Some s \<and> match_parse s = Some m' \<and>
     (\<forall>v. matches m' v = matches (mk_match 12 0xA05 0xF0F) v)"
proof (rule ternary_print_parse)
  show "0 \<le> word0 (mk_match 12 0xA05 0xF0F)" "0 \<le> word1 (mk_match 12 0xA05 0xF0F)" "match_true (mk_match 12 0xA05 0xF0F)"
    by code_simp+
qed

lemma not_or_self: "NOT x OR x = (-1 :: int)"
  by (rule bit_eqI) (auto simp: bit_simps)

lemma not_and_self: "x AND NOT y AND y = (0 :: int)"
  by (rule bit_eqI) (auto simp: bit_simps)

text \<open>A decimal number of more than one digit is not read as its value: the digits are or-ed, not
  added.  And printing a match read from a decimal text does not end, because its mask of the bits
  that may be 0 is negative.\<close>
theorem decimal_match_text:
  "map_option word1 (match_parse ''12'') = Some 10 \<and>
   (\<forall>s m. base_of s = (10, s) \<and> match_parse s = Some m \<longrightarrow> match_print m = None)"
proof -
  have stuck: "word0 m = NOT (word1 m) \<and> 0 < b \<and> msk \<noteq> 0 \<longrightarrow> False" if "chkmask_loop m b msk sh = Some r" for m b msk sh r
  proof (rule chkmask_loop.raw_induct [OF _ that], goal_cases)
    case (1 f m b msk sh r)
    show ?case
    proof
      assume a: "word0 m = NOT (word1 m) \<and> 0 < b \<and> msk \<noteq> 0"
      then have "drop_bit (nat sh) (word0 m OR word1 m) \<noteq> 0" "msk AND word0 m AND word1 m = 0"
        by (simp_all add: not_or_self not_and_self)
      moreover have "push_bit b msk \<noteq> 0" using a by (simp add: push_bit_eq_mult)
      ultimately show False using 1(1) [of m b "push_bit b msk" "sh + int b" r] 1(2) a by (simp add: Let_def)
    qed
  qed
  have "match_print m = None" if "base_of s = (10, s)" "match_parse s = Some m" for s m
  proof -
    have w: "word0 m = NOT (word1 m)" using that by (auto simp: match_parse_def)
    then have "match_true m" by (simp add: match_true_def not_or_self)
    moreover have "chkmask m 4 = None" using stuck [of m 4 15 0] w by (cases "chkmask m 4") (auto simp: chkmask_def)
    ultimately show ?thesis by (simp add: match_print_def)
  qed
  moreover have "map_option word1 (match_parse ''12'') = Some 10" by code_simp
  ultimately show ?thesis by blast
qed

theorem decimal_match_text_witness: "match_print \<lparr>word0 = -8, word1 = 7\<rparr> = None"
proof -
  have "base_of ''7'' = (10, ''7'')" "match_parse ''7'' = Some \<lparr>word0 = -8, word1 = 7\<rparr>" by code_simp+
  with decimal_match_text show ?thesis by blast
qed

end
