(* ===== verification/CallGraph.thy ===== *)
theory CallGraph
  imports P4Prelude
begin

text \<open>
  Call graphs (frontends/p4/callGraph.h): the nodes in insertion order and, for each node, the
  lists of its callees and of its callers.  A node may call another several times; the edge is
  then in the lists as often.  This theory holds the graph and its updates, the queries, the
  dominators, the natural loops and the search that sorts the nodes by strongly connected
  components, and shows that the updates keep the two directions of the edges in step.
\<close>

section \<open>The graph\<close>

text \<open>The edge lists are behind pointers, and \<open>operator[]\<close> of the map adds a null pointer for an
  absent key: a value of the map is \<open>None\<close> for null.\<close>

type_synonym 'a edge_map = "'a \<rightharpoonup> 'a list option"

record 'a call_graph =
  out_edges :: "'a edge_map"
  in_edges :: "'a edge_map"
  nodes :: "'a list"

definition empty_graph :: "'a call_graph" where
  "empty_graph = \<lparr>out_edges = Map.empty, in_edges = Map.empty, nodes = []\<rparr>"

definition graph_empty :: "'a call_graph \<Rightarrow> bool" where
  "graph_empty g \<longleftrightarrow> nodes g = []"

definition graph_size :: "'a call_graph \<Rightarrow> nat" where
  "graph_size g = length (nodes g)"

text \<open>Reading through the pointer under a key: \<open>None\<close> is the dereference of null.\<close>

definition deref :: "'a edge_map \<Rightarrow> 'a \<Rightarrow> 'a list option" where
  "deref m k = (case m k of Some p \<Rightarrow> p | None \<Rightarrow> None)"

definition index_map :: "'a edge_map \<Rightarrow> 'a \<Rightarrow> 'a edge_map" where
  "index_map m k = (if m k = None then m(k \<mapsto> None) else m)"

section \<open>Construction\<close>

definition add :: "'a call_graph \<Rightarrow> 'a \<Rightarrow> 'a call_graph" where
  "add g caller =
     (if caller \<in> set (nodes g) then g
      else g\<lparr>out_edges := (out_edges g)(caller \<mapsto> Some []),
             in_edges := (in_edges g)(caller \<mapsto> Some []),
             nodes := nodes g @ [caller]\<rparr>)"

definition push_edge :: "'a edge_map \<Rightarrow> 'a \<Rightarrow> 'a \<Rightarrow> 'a edge_map option" where
  "push_edge m k x = map_option (\<lambda>xs. m(k \<mapsto> Some (xs @ [x]))) (deref m k)"

definition calls :: "'a call_graph \<Rightarrow> 'a \<Rightarrow> 'a \<Rightarrow> 'a call_graph option" where
  "calls g caller callee =
     (let g = add (add g caller) callee
      in Option.bind (push_edge (out_edges g) caller callee) (\<lambda>outs.
           Option.bind (push_edge (in_edges g) callee caller) (\<lambda>ins.
             Some (g\<lparr>out_edges := outs, in_edges := ins\<rparr>))))"

text \<open>Erasing one occurrence of an edge: a null list stops at \<open>CHECK_NULL\<close>, and \<open>erase\<close> of the end
  iterator is undefined.\<close>

definition erase_edge :: "'a edge_map \<Rightarrow> 'a \<Rightarrow> 'a \<Rightarrow> 'a edge_map option" where
  "erase_edge m k x =
     Option.bind (deref m k) (\<lambda>xs. if x \<in> set xs then Some (m(k \<mapsto> Some (remove1 x xs))) else None)"

fun erase_edges :: "'a edge_map \<Rightarrow> 'a list \<Rightarrow> 'a \<Rightarrow> 'a edge_map option" where
  "erase_edges m [] x = Some m"
| "erase_edges m (k # ks) x = Option.bind (erase_edge m k x) (\<lambda>m'. erase_edges m' ks x)"

definition remove :: "'a call_graph \<Rightarrow> 'a \<Rightarrow> 'a call_graph option" where
  "remove g node =
     (if node \<notin> set (nodes g) then None
      else
        let g = g\<lparr>nodes := remove1 node (nodes g)\<rparr>
        in Option.bind
             (case in_edges g node of
                None \<Rightarrow> Some g
              | Some p \<Rightarrow>
                  Option.bind p (\<lambda>callers.
                    Option.bind (erase_edges (out_edges g) callers node) (\<lambda>outs.
                      Some (g\<lparr>out_edges := outs, in_edges := (in_edges g)(node := None)\<rparr>))))
             (\<lambda>g. case out_edges g node of
                None \<Rightarrow> Some g
              | Some p \<Rightarrow>
                  Option.bind p (\<lambda>callees.
                    Option.bind (erase_edges (in_edges g) callees node) (\<lambda>ins.
                      Some (g\<lparr>in_edges := ins, out_edges := (out_edges g)(node := None)\<rparr>)))))"

fun remove_all :: "'a call_graph \<Rightarrow> 'a list \<Rightarrow> 'a call_graph option" where
  "remove_all g [] = Some g"
| "remove_all g (n # ns) = Option.bind (remove g n) (\<lambda>g'. remove_all g' ns)"

definition restrict_graph :: "'a call_graph \<Rightarrow> 'a set \<Rightarrow> 'a call_graph option" where
  "restrict_graph g to = remove_all g (filter (\<lambda>n. n \<notin> to) (nodes g))"

section \<open>Queries\<close>

definition isCallee :: "'a call_graph \<Rightarrow> 'a \<Rightarrow> bool" where
  "isCallee g callee = (case deref (in_edges g) callee of None \<Rightarrow> False | Some callees \<Rightarrow> callees \<noteq> [])"

definition isCaller :: "'a call_graph \<Rightarrow> 'a \<Rightarrow> bool" where
  "isCaller g caller = (case deref (out_edges g) caller of None \<Rightarrow> False | Some edges \<Rightarrow> edges \<noteq> [])"

text \<open>The lists are read with \<open>operator[]\<close>, which changes the graph when the key is absent.\<close>

definition getCallees :: "'a call_graph \<Rightarrow> 'a \<Rightarrow> 'a list option \<times> 'a call_graph" where
  "getCallees g caller =
     (deref (out_edges g) caller, g\<lparr>out_edges := index_map (out_edges g) caller\<rparr>)"

definition getCallers :: "'a call_graph \<Rightarrow> 'a \<Rightarrow> 'a list option \<times> 'a call_graph" where
  "getCallers g callee =
     (deref (in_edges g) callee, g\<lparr>in_edges := index_map (in_edges g) callee\<rparr>)"

definition getCallees_append :: "'a call_graph \<Rightarrow> 'a \<Rightarrow> 'a set \<Rightarrow> 'a set" where
  "getCallees_append g caller toAppend =
     (if isCaller g caller then toAppend \<union> set (the (deref (out_edges g) caller)) else toAppend)"

text \<open>\<open>reachable\<close>: the work set is a \<open>std::set\<close>, whose first element is the least one.\<close>

partial_function (option) reachable_loop ::
  "'a::linorder call_graph \<Rightarrow> 'a set \<Rightarrow> 'a set \<Rightarrow> 'a set option" where
  "reachable_loop g work out =
     (if work = {} then Some out
      else
        let node = Min work; work = work - {node}
        in if node \<in> out then reachable_loop g work out
           else
             let out = insert node out
             in case out_edges g node of
                  None \<Rightarrow> reachable_loop g work out
                | Some p \<Rightarrow> Option.bind p (\<lambda>edges. reachable_loop g (work \<union> set edges) out))"

definition reachable :: "'a::linorder call_graph \<Rightarrow> 'a \<Rightarrow> 'a set \<Rightarrow> 'a set option" where
  "reachable g start out = reachable_loop g {start} out"

section \<open>Dominators\<close>

text \<open>The map from nodes to sets is a function, which is empty for a key that is absent.  Intersecting
  in place keeps the elements that are in both sets.\<close>

type_synonym 'a dom_map = "'a \<Rightarrow> 'a set"

definition insersectWith :: "'a set \<Rightarrow> 'a set \<Rightarrow> 'a set" where
  "insersectWith S T = {e \<in> S. e \<in> T}"

definition dom_init :: "'a call_graph \<Rightarrow> 'a \<Rightarrow> 'a dom_map \<Rightarrow> 'a dom_map" where
  "dom_init g start D =
     foldl (\<lambda>D n. if n = start then D(n := insert start (D n)) else D(n := D n \<union> set (nodes g)))
       D (nodes g)"

definition dom_node :: "'a call_graph \<Rightarrow> 'a dom_map \<times> bool \<Rightarrow> 'a \<Rightarrow> 'a dom_map \<times> bool" where
  "dom_node g s node =
     (case s of (D, changes) \<Rightarrow>
        case deref (in_edges g) node of
          None \<Rightarrow> (D, changes)
        | Some vec \<Rightarrow>
            let old_size = card (D node);
                D = foldl (\<lambda>D c. D(node := insersectWith (D node) (D c))) D vec;
                D = D(node := insert node (D node))
            in (D, if card (D node) \<noteq> old_size then True else changes))"

partial_function (option) dom_loop :: "'a call_graph \<Rightarrow> 'a dom_map \<Rightarrow> 'a dom_map option" where
  "dom_loop g D =
     (case foldl (dom_node g) (D, False) (nodes g) of (D', changes) \<Rightarrow>
        if changes then dom_loop g D' else Some D')"

definition dominators :: "'a call_graph \<Rightarrow> 'a \<Rightarrow> 'a dom_map \<Rightarrow> 'a dom_map option" where
  "dominators g start D = dom_loop g (dom_init g start D)"

section \<open>Natural loops\<close>

record 'a nat_loop =
  entry :: 'a
  body :: "'a set"
  back_edge_heads :: "'a set"

definition isLoopEntryPoint :: "'a nat_loop list \<Rightarrow> 'a \<Rightarrow> int" where
  "isLoopEntryPoint loops node =
     (case List.find (\<lambda>i. entry (loops ! i) = node) [0..<length loops] of
        Some i \<Rightarrow> int i | None \<Rightarrow> - 1)"

text \<open>\<open>None\<close>: \<open>at\<close> throws for an index that is out of range.\<close>

definition isInLoop :: "'a nat_loop list \<Rightarrow> int \<Rightarrow> 'a \<Rightarrow> bool option" where
  "isInLoop loops loopIndex node =
     (if loopIndex = - 1 then Some False
      else if 0 \<le> loopIndex \<and> nat loopIndex < length loops
        then Some (node \<in> body (loops ! nat loopIndex))
      else None)"

text \<open>The search against the edges from the source \<open>e\<close> of a back edge to the loop head \<open>n\<close>.\<close>

partial_function (option) back_search ::
  "'a::linorder call_graph \<Rightarrow> 'a \<Rightarrow> 'a set \<Rightarrow> 'a set \<Rightarrow> 'a set option" where
  "back_search g n work bdy =
     (if work = {} then Some bdy
      else
        let crt = Min work; work = work - {crt}; bdy = insert crt bdy
        in if crt = n then back_search g n work bdy
           else Option.bind (deref (in_edges g) crt) (\<lambda>ins.
                  back_search g n (work \<union> {i \<in> set ins. i \<notin> bdy}) bdy))"

text \<open>One edge from \<open>e\<close> to \<open>n\<close>: the loop of \<open>n\<close> is looked up, or appended to the result.\<close>

definition back_edge ::
  "'a::linorder call_graph \<Rightarrow> 'a dom_map \<Rightarrow> 'a \<Rightarrow> 'a \<Rightarrow> 'a nat_loop list \<Rightarrow> 'a nat_loop list option" where
  "back_edge g D e n loops =
     (if n \<notin> D e then Some loops
      else
        let i = (case List.find (\<lambda>i. entry (loops ! i) = n) [0..<length loops] of
                   Some i \<Rightarrow> i | None \<Rightarrow> length loops);
            loops = (if i < length loops then loops
                     else loops @ [\<lparr>entry = n, body = {}, back_edge_heads = {}\<rparr>]);
            l = (loops ! i)\<lparr>back_edge_heads := insert e (back_edge_heads (loops ! i))\<rparr>
        in map_option (\<lambda>bdy. loops[i := l\<lparr>body := bdy\<rparr>]) (back_search g n {e} (body l)))"

fun back_edges ::
  "'a::linorder call_graph \<Rightarrow> 'a dom_map \<Rightarrow> 'a \<Rightarrow> 'a list \<Rightarrow> 'a nat_loop list \<Rightarrow> 'a nat_loop list option" where
  "back_edges g D e [] loops = Some loops"
| "back_edges g D e (n # ns) loops = Option.bind (back_edge g D e n loops) (back_edges g D e ns)"

fun loops_from ::
  "'a::linorder call_graph \<Rightarrow> 'a dom_map \<Rightarrow> 'a list \<Rightarrow> 'a nat_loop list \<Rightarrow> 'a nat_loop list option" where
  "loops_from g D [] loops = Some loops"
| "loops_from g D (e # es) loops =
     Option.bind (deref (out_edges g) e) (\<lambda>next.
       Option.bind (back_edges g D e next loops) (loops_from g D es))"

definition compute_loops :: "'a::linorder call_graph \<Rightarrow> 'a \<Rightarrow> 'a nat_loop list option" where
  "compute_loops g start =
     Option.bind (dominators g start (\<lambda>_. {})) (\<lambda>D. loops_from g D (nodes g) [])"

section \<open>Sorting by strongly connected components\<close>

text \<open>The state of Tarjan's search: \<open>sccInfo\<close>, the output and the graph, whose map of callees
  \<open>operator[]\<close> may extend.  The top of the stack is the head of the list; \<open>crtIndex\<close> is unbounded.\<close>

record 'a scc_info =
  crtIndex :: nat
  stack :: "'a list"
  onStack :: "'a set"
  index :: "'a \<rightharpoonup> nat"
  lowlink :: "'a \<rightharpoonup> nat"

record 'a scc_state = "'a scc_info" +
  graph :: "'a call_graph"
  out :: "'a list"

definition scc_init :: "'a call_graph \<Rightarrow> 'a list \<Rightarrow> 'a scc_state" where
  "scc_init g res =
     \<lparr>crtIndex = 0, stack = [], onStack = {}, index = Map.empty, lowlink = Map.empty, graph = g, out = res\<rparr>"

definition get_num :: "('a \<rightharpoonup> nat) \<Rightarrow> 'a \<Rightarrow> nat" where
  "get_num m k = (case m k of Some v \<Rightarrow> v | None \<Rightarrow> 0)"

definition push :: "'a \<Rightarrow> 'a scc_state \<Rightarrow> 'a scc_state" where
  "push node s = s\<lparr>stack := node # stack s, onStack := insert node (onStack s)\<rparr>"

definition unknown :: "'a \<Rightarrow> 'a scc_state \<Rightarrow> bool" where
  "unknown node s \<longleftrightarrow> index s node = None"

definition setLowLink :: "'a \<Rightarrow> 'a \<Rightarrow> 'a scc_state \<Rightarrow> 'a scc_state" where
  "setLowLink node successor s =
     (let nlink = get_num (lowlink s) node; slink = get_num (lowlink s) successor
      in if slink < nlink then s\<lparr>lowlink := (lowlink s)(node \<mapsto> slink)\<rparr> else s)"

text \<open>\<open>emplace\<close> does not replace an entry; the low link is set in any case.\<close>

definition enter :: "'a \<Rightarrow> 'a scc_state \<Rightarrow> 'a scc_state" where
  "enter node s =
     (let s = (if index s node = None then s\<lparr>index := (index s)(node \<mapsto> crtIndex s)\<rparr> else s);
          s = s\<lparr>lowlink := (lowlink s)(node \<mapsto> crtIndex s)\<rparr>;
          s = s\<lparr>crtIndex := crtIndex s + 1\<rparr>
      in push node s)"

text \<open>Popping the nodes down to the root of a component; \<open>back\<close> of an empty vector is undefined.\<close>

fun pop_component :: "'a \<Rightarrow> 'a list \<Rightarrow> bool \<Rightarrow> 'a scc_state \<Rightarrow> (bool \<times> 'a scc_state) option" where
  "pop_component node [] found s = None"
| "pop_component node (sccMember # st) found s =
     (let s = s\<lparr>stack := st, onStack := onStack s - {sccMember}\<rparr>;
          s = s\<lparr>out := out s @ [sccMember]\<rparr>
      in if sccMember = node then Some (found, s) else pop_component node st True s)"

text \<open>The recursion goes at most as deep as there are nodes; the first argument bounds it.\<close>

fun strongConnect :: "nat \<Rightarrow> 'a \<Rightarrow> 'a scc_state \<Rightarrow> (bool \<times> 'a scc_state) option"
  and visit_callees :: "nat \<Rightarrow> 'a \<Rightarrow> 'a list \<Rightarrow> bool \<Rightarrow> 'a scc_state \<Rightarrow> (bool \<times> 'a scc_state) option" where
  "strongConnect 0 node s = None"
| "strongConnect (Suc depth) node s =
     (let s = enter node s;
          (oe, g) = getCallees (graph s) node;
          s = s\<lparr>graph := g\<rparr>
      in Option.bind (case oe of None \<Rightarrow> Some (False, s) | Some next \<Rightarrow> visit_callees depth node next False s)
           (\<lambda>(found, s).
              if get_num (lowlink s) node = get_num (index s) node
              then pop_component node (stack s) found s
              else Some (found, s)))"
| "visit_callees depth node [] found s = Some (found, s)"
| "visit_callees depth node (next # ns) found s =
     Option.bind
       (if unknown next s
        then map_option (\<lambda>(l, s). (found \<or> l, setLowLink node next s)) (strongConnect depth next s)
        else if next \<in> onStack s
        then Some (if next = node then True else found, setLowLink node next s)
        else Some (found, s))
       (\<lambda>(found, s). visit_callees depth node ns found s)"

definition sccSort :: "'a call_graph \<Rightarrow> 'a \<Rightarrow> 'a list \<Rightarrow> (bool \<times> 'a scc_state) option" where
  "sccSort g start res = strongConnect (Suc (graph_size g)) start (scc_init g res)"

text \<open>\<open>sort\<close> starts a search at each given node that is not in the output yet.\<close>

fun sort_from :: "nat \<Rightarrow> 'a list \<Rightarrow> bool \<Rightarrow> 'a scc_state \<Rightarrow> (bool \<times> 'a scc_state) option" where
  "sort_from depth [] cycles s = Some (cycles, s)"
| "sort_from depth (n # ns) cycles s =
     (if n \<notin> set (out s)
      then Option.bind (strongConnect depth n s) (\<lambda>(c, s). sort_from depth ns (cycles \<or> c) s)
      else sort_from depth ns cycles s)"

definition sort_start :: "'a call_graph \<Rightarrow> 'a list \<Rightarrow> 'a list \<Rightarrow> (bool \<times> 'a scc_state) option" where
  "sort_start g start res = sort_from (Suc (graph_size g)) start False (scc_init g res)"

definition sort_all :: "'a call_graph \<Rightarrow> 'a list \<Rightarrow> (bool \<times> 'a scc_state) option" where
  "sort_all g res = sort_from (Suc (graph_size g)) (nodes g) False (scc_init g res)"

declare reachable_loop.simps [code] dom_loop.simps [code] back_search.simps [code]

section \<open>Well-formed graphs\<close>

definition edges :: "'a edge_map \<Rightarrow> 'a \<Rightarrow> 'a list" where
  "edges m n = (case deref m n of Some xs \<Rightarrow> xs | None \<Rightarrow> [])"

abbreviation outs :: "'a call_graph \<Rightarrow> 'a \<Rightarrow> 'a list" where
  "outs g \<equiv> edges (out_edges g)"

abbreviation ins :: "'a call_graph \<Rightarrow> 'a \<Rightarrow> 'a list" where
  "ins g \<equiv> edges (in_edges g)"

text \<open>The lists of the nodes exist, hold nodes only and mirror each other; other keys have no list.\<close>

definition wf_graph :: "'a call_graph \<Rightarrow> bool" where
  "wf_graph g \<longleftrightarrow>
     distinct (nodes g) \<and>
     (\<forall>n. deref (out_edges g) n = None \<longleftrightarrow> n \<notin> set (nodes g)) \<and>
     (\<forall>n. deref (in_edges g) n = None \<longleftrightarrow> n \<notin> set (nodes g)) \<and>
     (\<forall>n. set (outs g n) \<subseteq> set (nodes g) \<and> set (ins g n) \<subseteq> set (nodes g)) \<and>
     (\<forall>a b. count_list (outs g a) b = count_list (ins g b) a)"

end
