(* ===== verification/CallGraph_Updates.thy ===== *)
theory CallGraph_Updates
  imports CallGraph
begin

text \<open>
  What the updates of a call graph do: adding nodes and edges, removing nodes and restricting the
  graph keep the two directions of the edges in step, and change the number of edges between two
  nodes as a reader of the code expects.  Then the nodes reachable from a start node.
\<close>

section \<open>Edge lists\<close>

lemma deref_upd [simp]: "deref (m(k \<mapsto> p)) n = (if n = k then p else deref m n)"
  by (simp add: deref_def)

lemma deref_del [simp]: "deref (m(k := None)) n = (if n = k then None else deref m n)"
  by (simp add: deref_def)

lemma deref_empty [simp]: "deref Map.empty n = None"
  by (simp add: deref_def)

lemma edges_upd [simp]: "edges (m(k \<mapsto> Some xs)) n = (if n = k then xs else edges m n)"
  by (simp add: edges_def)

lemma edges_del [simp]: "edges (m(k := None)) n = (if n = k then [] else edges m n)"
  by (simp add: edges_def)

lemma edges_deref: "deref m n = Some xs \<Longrightarrow> edges m n = xs"
  by (simp add: edges_def)

lemma edges_None: "deref m n = None \<Longrightarrow> edges m n = []"
  by (simp add: edges_def)

lemma edges_empty [simp]: "edges Map.empty n = []"
  by (simp add: edges_None)

lemma count_list_remove1: "count_list (remove1 x xs) y = count_list xs y - (if y = x then 1 else 0)"
  by (induction xs) (auto simp: count_list_0_iff)

lemma count_list_pos: "0 < count_list xs x \<longleftrightarrow> x \<in> set xs"
  using count_list_0_iff [of xs x] by auto

lemma erase_edge_Some:
  assumes "x \<in> set (edges m k)"
  obtains m' where "erase_edge m k x = Some m'" "\<And>n. deref m' n = None \<longleftrightarrow> deref m n = None"
    "\<And>n b. count_list (edges m' n) b = count_list (edges m n) b - (if n = k \<and> b = x then 1 else 0)"
proof -
  from assms obtain xs where d: "deref m k = Some xs" by (cases "deref m k") (auto simp: edges_None)
  then have "erase_edge m k x = Some (m(k \<mapsto> Some (remove1 x xs)))"
    using assms by (simp add: erase_edge_def edges_deref)
  moreover have "count_list (edges (m(k \<mapsto> Some (remove1 x xs))) n) b =
      count_list (edges m n) b - (if n = k \<and> b = x then 1 else 0)" for n b
    using edges_deref [OF d] by (simp add: count_list_remove1)
  moreover have "deref (m(k \<mapsto> Some (remove1 x xs))) n = None \<longleftrightarrow> deref m n = None" for n
    using d by simp
  ultimately show ?thesis using that by blast
qed

lemma erase_edges_Some:
  assumes "\<And>k. count_list ks k \<le> count_list (edges m k) x"
  shows "\<exists>m'. erase_edges m ks x = Some m' \<and> (\<forall>n. deref m' n = None \<longleftrightarrow> deref m n = None) \<and>
    (\<forall>n b. count_list (edges m' n) b = count_list (edges m n) b - (if b = x then count_list ks n else 0))"
  using assms
proof (induction ks arbitrary: m)
  case Nil
  then show ?case by simp
next
  case (Cons k ks)
  from Cons.prems [of k] have "x \<in> set (edges m k)" by (simp flip: count_list_pos)
  then obtain m1 where m1: "erase_edge m k x = Some m1" "\<And>n. deref m1 n = None \<longleftrightarrow> deref m n = None"
    "\<And>n b. count_list (edges m1 n) b = count_list (edges m n) b - (if n = k \<and> b = x then 1 else 0)"
    by (rule erase_edge_Some) blast
  have "count_list ks n \<le> count_list (edges m1 n) x" for n
    using Cons.prems [of n] by (auto simp: m1(3) split: if_split_asm)
  from Cons.IH [OF this] obtain m2 where m2: "erase_edges m1 ks x = Some m2"
    "\<And>n. deref m2 n = None \<longleftrightarrow> deref m1 n = None"
    "\<And>n b. count_list (edges m2 n) b = count_list (edges m1 n) b - (if b = x then count_list ks n else 0)" by blast
  show ?case
  proof (intro exI conjI allI)
    show "erase_edges m (k # ks) x = Some m2" by (simp add: m1(1) m2(1))
    show "deref m2 n = None \<longleftrightarrow> deref m n = None" for n by (simp add: m1(2) m2(2))
    show "count_list (edges m2 n) b = count_list (edges m n) b - (if b = x then count_list (k # ks) n else 0)" for n b
      by (auto simp: m1(3) m2(3))
  qed
qed

section \<open>Updates\<close>

text \<open>What a well-formed graph means: its nodes, and the number of calls between two of them.\<close>

definition mult :: "'a call_graph \<Rightarrow> 'a \<Rightarrow> 'a \<Rightarrow> nat" where
  "mult g a b = count_list (outs g a) b"

lemma wf_graphI:
  assumes "distinct (nodes g)"
    and "\<And>n. deref (out_edges g) n = None \<longleftrightarrow> n \<notin> set (nodes g)"
    and "\<And>n. deref (in_edges g) n = None \<longleftrightarrow> n \<notin> set (nodes g)"
    and "\<And>a b. count_list (outs g a) b = count_list (ins g b) a"
  shows "wf_graph g"
proof -
  have c: "b \<in> set (outs g a) \<longleftrightarrow> a \<in> set (ins g b)" for a b
    using assms(4) [of a b] by (simp flip: count_list_pos)
  have "set (outs g a) \<subseteq> set (nodes g)" for a
    using c [of _ a] assms(3) edges_None by (metis empty_iff list.set(1) subsetI)
  moreover have "set (ins g a) \<subseteq> set (nodes g)" for a
    using c [of a] assms(2) edges_None by (metis empty_iff list.set(1) subsetI)
  ultimately show ?thesis using assms by (simp add: wf_graph_def)
qed

lemma wf_graphD:
  assumes "wf_graph g"
  shows "distinct (nodes g)" "deref (out_edges g) n = None \<longleftrightarrow> n \<notin> set (nodes g)"
    "deref (in_edges g) n = None \<longleftrightarrow> n \<notin> set (nodes g)" "set (outs g n) \<subseteq> set (nodes g)"
    "set (ins g n) \<subseteq> set (nodes g)" "count_list (ins g b) a = mult g a b"
    "b \<in> set (outs g a) \<longleftrightarrow> a \<in> set (ins g b)"
proof -
  show "distinct (nodes g)" "deref (out_edges g) n = None \<longleftrightarrow> n \<notin> set (nodes g)"
    "deref (in_edges g) n = None \<longleftrightarrow> n \<notin> set (nodes g)" "set (outs g n) \<subseteq> set (nodes g)"
    "set (ins g n) \<subseteq> set (nodes g)" "count_list (ins g b) a = mult g a b"
    using assms by (auto simp: wf_graph_def mult_def)
  have "count_list (outs g a) b = count_list (ins g b) a" using assms by (simp add: wf_graph_def)
  then show "b \<in> set (outs g a) \<longleftrightarrow> a \<in> set (ins g b)" by (simp flip: count_list_pos)
qed

lemma wf_deref:
  assumes "wf_graph g" "n \<in> set (nodes g)"
  shows "deref (out_edges g) n = Some (outs g n)" "deref (in_edges g) n = Some (ins g n)"
  using wf_graphD(2,3) [OF assms(1), of n] assms(2) by (auto simp: edges_def)

lemma wf_empty: "wf_graph empty_graph"
  by (rule wf_graphI) (auto simp: empty_graph_def)

lemma mult_nonzero: "0 < mult g a b \<longleftrightarrow> b \<in> set (outs g a)"
  by (simp add: mult_def count_list_pos)

lemma wf_add:
  assumes "wf_graph g"
  shows "wf_graph (add g a)" "set (nodes (add g a)) = insert a (set (nodes g))" "mult (add g a) = mult g"
proof -
  note w = wf_graphD [OF assms]
  have e: "a \<notin> set (nodes g) \<Longrightarrow> outs g a = [] \<and> ins g a = []" using w(2,3) by (simp add: edges_None)
  show "set (nodes (add g a)) = insert a (set (nodes g))" by (auto simp: add_def)
  show m: "mult (add g a) = mult g" using e by (auto simp: add_def mult_def fun_eq_iff)
  show "wf_graph (add g a)"
  proof (rule wf_graphI)
    show "count_list (outs (add g a) x) b = count_list (ins (add g a) b) x" for x b
      using e w(6) [of b x] by (auto simp: add_def mult_def)
  qed (use w in \<open>auto simp: add_def\<close>)
qed

lemma calls_ok:
  assumes "wf_graph g"
  shows "\<exists>g'. calls g a b = Some g' \<and> wf_graph g' \<and> set (nodes g') = {a, b} \<union> set (nodes g) \<and>
    (\<forall>x y. mult g' x y = mult g x y + (if x = a \<and> y = b then 1 else 0))"
proof -
  define h where "h = add (add g a) b"
  have h: "wf_graph h" "set (nodes h) = {a, b} \<union> set (nodes g)" "mult h = mult g"
    using wf_add [OF assms, of a] wf_add [of "add g a" b] by (auto simp: h_def)
  note w = wf_graphD [OF h(1)]
  have d: "deref (out_edges h) a = Some (outs h a)" "deref (in_edges h) b = Some (ins h b)"
    using wf_deref [OF h(1)] h(2) by auto
  define g' where "g' = h\<lparr>out_edges := (out_edges h)(a \<mapsto> Some (outs h a @ [b])),
    in_edges := (in_edges h)(b \<mapsto> Some (ins h b @ [a]))\<rparr>"
  have "calls g a b = Some g'"
    by (simp add: calls_def h_def [symmetric] push_edge_def d g'_def)
  moreover have "wf_graph g'"
  proof (rule wf_graphI)
    show "count_list (outs g' x) y = count_list (ins g' y) x" for x y
      using w(6) [of y x] by (auto simp: g'_def mult_def)
  qed (use w h(2) in \<open>auto simp: g'_def\<close>)
  moreover have "mult g' x y = mult g x y + (if x = a \<and> y = b then 1 else 0)" for x y
    by (simp add: h(3) [symmetric] mult_def g'_def)
  ultimately show ?thesis using h(2) by (auto simp: g'_def)
qed

lemma remove_ok:
  assumes "wf_graph g" "n \<in> set (nodes g)"
  shows "\<exists>g'. remove g n = Some g' \<and> wf_graph g' \<and> nodes g' = remove1 n (nodes g) \<and>
    (\<forall>x y. mult g' x y = (if x = n \<or> y = n then 0 else mult g x y))"
proof -
  note w = wf_graphD [OF assms(1)]
  have sym: "count_list (ins g b) a = count_list (outs g a) b" for a b using w(6) by (simp add: mult_def)
  obtain po where po: "out_edges g n = Some (Some po)" "outs g n = po"
    using wf_deref(1) [OF assms] by (auto simp: deref_def split: option.split_asm)
  obtain pi where pi: "in_edges g n = Some (Some pi)" "ins g n = pi"
    using wf_deref(2) [OF assms] by (auto simp: deref_def split: option.split_asm)
  have "count_list (ins g n) k \<le> count_list (outs g k) n" for k using sym by simp
  from erase_edges_Some [OF this] obtain mo where mo: "erase_edges (out_edges g) (ins g n) n = Some mo"
    "\<And>k. deref mo k = None \<longleftrightarrow> deref (out_edges g) k = None"
    "\<And>k b. count_list (edges mo k) b = count_list (outs g k) b - (if b = n then count_list (ins g n) k else 0)"
    by blast
  have mo3: "count_list (edges mo k) b = (if b = n then 0 else count_list (outs g k) b)" for k b
    by (simp add: mo(3) sym)
  have "deref mo n \<noteq> None" using mo(2) po(1) by (simp add: deref_def)
  then obtain qo where qo: "mo n = Some (Some qo)" "edges mo n = qo"
    by (auto simp: deref_def edges_def split: option.split_asm)
  let ?mi = "(in_edges g)(n := None)"
  have "count_list (edges mo n) k \<le> count_list (edges ?mi k) n" for k using sym mo3 by auto
  from erase_edges_Some [OF this] obtain mi where mi: "erase_edges ?mi (edges mo n) n = Some mi"
    "\<And>k. deref mi k = None \<longleftrightarrow> deref ?mi k = None"
    "\<And>k b. count_list (edges mi k) b = count_list (edges ?mi k) b - (if b = n then count_list (edges mo n) k else 0)" by blast
  define g' where "g' = g\<lparr>nodes := remove1 n (nodes g), in_edges := mi, out_edges := mo(n := None)\<rparr>"
  have "remove g n = Some g'"
    using assms(2) mo(1) mi(1) by (simp add: remove_def Let_def po pi qo g'_def)
  moreover have "wf_graph g'"
  proof (rule wf_graphI)
    show "count_list (outs g' a) b = count_list (ins g' b) a" for a b
      using sym [of b a] by (auto simp: g'_def mo3 mi(3))
  qed (use w(1-3) mo(2) mi(2) in \<open>auto simp: g'_def\<close>)
  moreover have "mult g' x y = (if x = n \<or> y = n then 0 else mult g x y)" for x y
    by (auto simp: mult_def g'_def mo3)
  ultimately show ?thesis by (auto simp: g'_def)
qed

lemma remove_all_ok:
  assumes "wf_graph g" "distinct ns" "set ns \<subseteq> set (nodes g)"
  shows "\<exists>g'. remove_all g ns = Some g' \<and> wf_graph g' \<and> nodes g' = filter (\<lambda>n. n \<notin> set ns) (nodes g) \<and>
    (\<forall>x y. mult g' x y = (if x \<in> set ns \<or> y \<in> set ns then 0 else mult g x y))"
  using assms
proof (induction ns arbitrary: g)
  case Nil
  then show ?case by simp
next
  case (Cons n ns)
  from remove_ok [of g n] Cons.prems obtain g1 where g1: "remove g n = Some g1" "wf_graph g1"
    "nodes g1 = remove1 n (nodes g)" "\<forall>x y. mult g1 x y = (if x = n \<or> y = n then 0 else mult g x y)" by auto
  from Cons.prems g1(3) have sub: "set ns \<subseteq> set (nodes g1)"
    using wf_graphD(1) [OF Cons.prems(1)] by auto
  have "filter (\<lambda>x. x \<notin> set ns) (remove1 n (nodes g)) = filter (\<lambda>x. x \<notin> set (n # ns)) (nodes g)"
    using wf_graphD(1) [OF Cons.prems(1)]
    by (simp add: distinct_remove1_removeAll removeAll_filter_not_eq conj_commute eq_commute)
  with Cons.IH [OF g1(2) _ sub] Cons.prems(2) g1 show ?case by fastforce
qed

section \<open>Reachable nodes\<close>

definition edge_rel :: "'a call_graph \<Rightarrow> ('a \<times> 'a) set" where
  "edge_rel g = {(a, b). b \<in> set (outs g a)}"

lemma edge_rel_nodes: "wf_graph g \<Longrightarrow> (a, b) \<in> edge_rel g \<Longrightarrow> a \<in> set (nodes g) \<and> b \<in> set (nodes g)"
  using wf_graphD(4,5,7) [of g] by (fastforce simp: edge_rel_def)

lemma closed_rtrancl:
  assumes "(a, b) \<in> E\<^sup>*" "a \<in> R" "\<And>x y. x \<in> R \<Longrightarrow> (x, y) \<in> E \<Longrightarrow> y \<in> R"
  shows "b \<in> R"
  using assms by (induction rule: rtrancl_induct) auto

lemma Min_in_work: "finite W \<Longrightarrow> W \<noteq> {} \<Longrightarrow> W \<subseteq> U \<Longrightarrow> Min W \<in> W \<and> Min W \<in> U"
  using Min_in by blast

lemma reachable_loop_ok:
  fixes g :: "'a::linorder call_graph"
  assumes U: "finite U" "\<And>x. x \<in> U \<Longrightarrow> out_edges g x \<noteq> Some None" "\<And>x. x \<in> U \<Longrightarrow> set (outs g x) \<subseteq> U"
    and "work \<subseteq> U" "\<And>x. x \<in> res \<Longrightarrow> set (outs g x) \<subseteq> res \<union> work"
  shows "\<exists>R. reachable_loop g work res = Some R \<and> res \<union> work \<subseteq> R \<and> R \<subseteq> (edge_rel g)\<^sup>* `` (res \<union> work) \<and>
    (\<forall>x\<in>R. set (outs g x) \<subseteq> R)"
  using assms(4,5)
proof (induction "card (U - res) * Suc (card U) + card work" arbitrary: work res rule: less_induct)
  case less
  show ?case
  proof (cases "work = {}")
    case True
    then show ?thesis using less.prems by (subst reachable_loop.simps) auto
  next
    case False
    define node where "node = Min work"
    have fin: "finite work" using less.prems(1) U(1) finite_subset by blast
    have node: "node \<in> work" "node \<in> U" using Min_in_work [OF fin False less.prems(1)] by (auto simp: node_def)
    have small: "card (work - {node}) < card work" by (rule card_Diff1_less) (use node(1) fin in auto)
    show ?thesis
    proof (cases "node \<in> res")
      case True
      have "\<exists>R. reachable_loop g (work - {node}) res = Some R \<and> res \<union> (work - {node}) \<subseteq> R \<and>
          R \<subseteq> (edge_rel g)\<^sup>* `` (res \<union> (work - {node})) \<and> (\<forall>x\<in>R. set (outs g x) \<subseteq> R)"
        by (rule less.hyps) (use less.prems True small in auto)
      moreover have "reachable_loop g work res = reachable_loop g (work - {node}) res"
        using False True by (subst reachable_loop.simps) (simp add: node_def [symmetric])
      moreover have "res \<union> (work - {node}) = res \<union> work" using True by blast
      ultimately show ?thesis by simp
    next
      case nres: False
      define W where "W = work - {node} \<union> set (outs g node)"
      have WU: "W \<subseteq> U" using less.prems(1) U(3) [OF node(2)] by (auto simp: W_def)
      have step: "reachable_loop g work res = reachable_loop g W (insert node res)"
        using False nres U(2) [OF node(2)]
        by (subst reachable_loop.simps)
           (auto simp: node_def [symmetric] W_def edges_def deref_def split: option.split)
      have c1: "Suc (card (U - insert node res)) = card (U - res)"
        using node(2) nres U(1) by (metis Diff_insert card_Suc_Diff1 finite_Diff DiffI)
      have "card W \<le> card U" using WU U(1) by (rule card_mono [rotated])
      then have lt: "card (U - insert node res) * Suc (card U) + card W < card (U - res) * Suc (card U) + card work"
        by (simp flip: c1)
      have inv: "set (outs g x) \<subseteq> insert node res \<union> W" if "x \<in> insert node res" for x
        using that less.prems(2) [of x] by (auto simp: W_def)
      from less.hyps [OF lt WU inv] obtain R where R: "reachable_loop g W (insert node res) = Some R"
        "insert node res \<union> W \<subseteq> R" "R \<subseteq> (edge_rel g)\<^sup>* `` (insert node res \<union> W)" "\<forall>x\<in>R. set (outs g x) \<subseteq> R" by blast
      have "(edge_rel g)\<^sup>* `` (insert node res \<union> W) \<subseteq> (edge_rel g)\<^sup>* `` (res \<union> work)"
      proof
        fix y assume "y \<in> (edge_rel g)\<^sup>* `` (insert node res \<union> W)"
        then obtain x where x: "x \<in> insert node res \<union> W" "(x, y) \<in> (edge_rel g)\<^sup>*" by blast
        show "y \<in> (edge_rel g)\<^sup>* `` (res \<union> work)"
        proof (cases "x \<in> set (outs g node)")
          case True
          then have "(node, y) \<in> (edge_rel g)\<^sup>*" using x(2) by (auto simp: edge_rel_def intro: converse_rtrancl_into_rtrancl)
          then show ?thesis using node(1) by blast
        next
          case False
          then show ?thesis using x node(1) by (auto simp: W_def)
        qed
      qed
      then show ?thesis using R node(1) step by (auto simp: W_def)
    qed
  qed
qed

section \<open>Properties\<close>

text \<open>C21: The updates of a call graph keep the lists of callees and callers in step.  Adding a node
  or a call adds just that; removing a node removes it with its calls, is a BUG for a node that is not
  in the graph, and restricting the graph keeps the calls between the nodes that are left.\<close>
theorem call_graph_updates:
  assumes "wf_graph g"
  shows "(wf_graph (add g a) \<and> set (nodes (add g a)) = insert a (set (nodes g)) \<and> mult (add g a) = mult g) \<and>
    (\<exists>g'. calls g a b = Some g' \<and> wf_graph g' \<and> set (nodes g') = {a, b} \<union> set (nodes g) \<and>
       (\<forall>x y. mult g' x y = mult g x y + (if x = a \<and> y = b then 1 else 0))) \<and>
    (if a \<in> set (nodes g)
     then \<exists>g'. remove g a = Some g' \<and> wf_graph g' \<and> nodes g' = remove1 a (nodes g) \<and>
            (\<forall>x y. mult g' x y = (if x = a \<or> y = a then 0 else mult g x y))
     else remove g a = None) \<and>
    (\<exists>g'. restrict_graph g to = Some g' \<and> wf_graph g' \<and> nodes g' = filter (\<lambda>n. n \<in> to) (nodes g) \<and>
       (\<forall>x y. mult g' x y = (if x \<in> to \<and> y \<in> to then mult g x y else 0)))"
proof -
  have "distinct (filter (\<lambda>n. n \<notin> to) (nodes g))" using wf_graphD(1) [OF assms] by simp
  from remove_all_ok [OF assms this] obtain g' where g': "restrict_graph g to = Some g'" "wf_graph g'"
    "nodes g' = filter (\<lambda>n. n \<notin> set (filter (\<lambda>n. n \<notin> to) (nodes g))) (nodes g)"
    "\<forall>x y. mult g' x y = (if x \<in> set (filter (\<lambda>n. n \<notin> to) (nodes g)) \<or> y \<in> set (filter (\<lambda>n. n \<notin> to) (nodes g)) then 0
       else mult g x y)" by (auto simp: restrict_graph_def)
  have "nodes g' = filter (\<lambda>n. n \<in> to) (nodes g)" using g'(3) by (auto intro: filter_cong)
  moreover have "mult g x y = 0" if "x \<notin> set (nodes g) \<or> y \<notin> set (nodes g)" for x y
    using that edge_rel_nodes [OF assms, of x y] mult_nonzero [of g x y] by (auto simp: edge_rel_def)
  then have "\<forall>x y. mult g' x y = (if x \<in> to \<and> y \<in> to then mult g x y else 0)" using g'(4) by auto
  ultimately have rst: "\<exists>g'. restrict_graph g to = Some g' \<and> wf_graph g' \<and> nodes g' = filter (\<lambda>n. n \<in> to) (nodes g) \<and>
       (\<forall>x y. mult g' x y = (if x \<in> to \<and> y \<in> to then mult g x y else 0))" using g'(1,2) by blast
  have rmv: "if a \<in> set (nodes g)
     then \<exists>g'. remove g a = Some g' \<and> wf_graph g' \<and> nodes g' = remove1 a (nodes g) \<and>
            (\<forall>x y. mult g' x y = (if x = a \<or> y = a then 0 else mult g x y))
     else remove g a = None" using remove_ok [OF assms, of a] by (simp add: remove_def)
  have added: "wf_graph (add g a) \<and> set (nodes (add g a)) = insert a (set (nodes g)) \<and> mult (add g a) = mult g"
    using wf_add [OF assms] by (intro conjI)
  show ?thesis by (rule conjI [OF added conjI [OF calls_ok [OF assms] conjI [OF rmv rst]]])
qed

theorem call_graph_updates_witness:
  "\<exists>g'. calls (add empty_graph 1) 1 2 = Some g' \<and> wf_graph g' \<and>
     set (nodes g') = {1, 2} \<union> set (nodes (add empty_graph (1::nat))) \<and>
     (\<forall>x y. mult g' x y = mult (add empty_graph 1) x y + (if x = 1 \<and> y = 2 then 1 else 0))"
  by (rule call_graph_updates [OF wf_add(1) [OF wf_empty], THEN conjunct2, THEN conjunct1])

text \<open>C22: \<open>reachable\<close> returns, with the nodes to which a path leads from the start node.\<close>
theorem reachable_spec:
  assumes "wf_graph g" "start \<in> set (nodes g) \<or> out_edges g start = None"
  shows "reachable g start {} = Some ((edge_rel g)\<^sup>* `` {start})"
proof -
  let ?U = "insert start (set (nodes g))"
  note w = wf_graphD [OF assms(1)]
  have "out_edges g x \<noteq> Some None" if "x \<in> ?U" for x
    using that assms(2) w(2) [of x] by (auto simp: deref_def)
  moreover have "set (outs g x) \<subseteq> ?U" for x using w(4) by blast
  ultimately obtain R where R: "reachable_loop g {start} {} = Some R" "{start} \<subseteq> R"
    "R \<subseteq> (edge_rel g)\<^sup>* `` {start}" "\<forall>x\<in>R. set (outs g x) \<subseteq> R"
    using reachable_loop_ok [of ?U g "{start}" "{}"] by auto
  have "(edge_rel g)\<^sup>* `` {start} \<subseteq> R"
  proof
    fix y assume "y \<in> (edge_rel g)\<^sup>* `` {start}"
    then show "y \<in> R" using R(2,4) closed_rtrancl [of start y "edge_rel g" R] by (auto simp: edge_rel_def)
  qed
  with R(1,3) show ?thesis by (simp add: reachable_def)
qed

definition two_calls :: "nat call_graph" where
  "two_calls = the (Option.bind (calls empty_graph 1 2) (\<lambda>g. calls g 2 3))"

lemma wf_two_calls: "wf_graph two_calls"
proof -
  from calls_ok [OF wf_empty, of 1 "2::nat"] obtain g where g: "calls empty_graph 1 (2::nat) = Some g" "wf_graph g" by blast
  from calls_ok [OF g(2), of 2 3] show ?thesis unfolding two_calls_def g(1) bind.bind_lunit by auto
qed

theorem reachable_spec_witness: "reachable two_calls 2 {} = Some ((edge_rel two_calls)\<^sup>* `` {2})"
proof (rule reachable_spec)
  show "wf_graph two_calls" by (rule wf_two_calls)
  show "2 \<in> set (nodes two_calls) \<or> out_edges two_calls 2 = None" by code_simp
qed

end
