(* ===== verification/CallGraph_Dom.thy ===== *)
theory CallGraph_Dom
  imports CallGraph_Updates
begin

text \<open>
  Dominators and natural loops.  The walks of the graph are an inductive predicate; a node dominates
  another when it is on every walk to it from the start node, which is how callGraph.h defines it.
  The iteration over the sets of dominators ends and reaches exactly this relation, and the loops
  found from it are the natural loops of the graph, with one for each target of an edge between nodes that
  are not reachable.
\<close>

section \<open>Walks\<close>

inductive walk :: "'a call_graph \<Rightarrow> 'a \<Rightarrow> 'a list \<Rightarrow> 'a \<Rightarrow> bool" for g where
  walk_start: "walk g a [a] a"
| walk_step: "walk g a p b \<Longrightarrow> c \<in> set (outs g b) \<Longrightarrow> walk g a (p @ [c]) c"

inductive_cases walkE: "walk g a p b"

definition dominates :: "'a call_graph \<Rightarrow> 'a \<Rightarrow> 'a \<Rightarrow> 'a \<Rightarrow> bool" where
  "dominates g start d n \<longleftrightarrow> (\<forall>p. walk g start p n \<longrightarrow> d \<in> set p)"

lemma walk_ends: "walk g a p b \<Longrightarrow> p \<noteq> [] \<and> hd p = a \<and> last p = b"
  by (induction rule: walk.induct) auto

lemma walk_in: "walk g a p b \<Longrightarrow> a \<in> set p \<and> b \<in> set p"
  using walk_ends hd_in_set last_in_set by metis

lemma walk_Cons: "walk g b p c \<Longrightarrow> b \<in> set (outs g a) \<Longrightarrow> walk g a (a # p) c"
proof (induction rule: walk.induct)
  case (walk_start b)
  then show ?case using walk.intros(2) [OF walk.intros(1)] by fastforce
next
  case (walk_step b p d c)
  then show ?case using walk.intros(2) by fastforce
qed

lemma walk_append: "walk g b q c \<Longrightarrow> walk g a p b \<Longrightarrow> walk g a (p @ tl q) c"
proof (induction rule: walk.induct)
  case (walk_start b)
  then show ?case by simp
next
  case (walk_step b q d c)
  then show ?case using walk.intros(2) [of g a "p @ tl q" d c] walk_ends [of g b q d] by simp
qed

lemma walk_rtrancl: "(\<exists>p. walk g a p b) \<longleftrightarrow> (a, b) \<in> (edge_rel g)\<^sup>*"
proof
  show "\<exists>p. walk g a p b \<Longrightarrow> (a, b) \<in> (edge_rel g)\<^sup>*"
  proof (erule exE)
    show "walk g a p b \<Longrightarrow> (a, b) \<in> (edge_rel g)\<^sup>*" for p
      by (induction rule: walk.induct) (auto simp: edge_rel_def intro: rtrancl_into_rtrancl)
  qed
  show "(a, b) \<in> (edge_rel g)\<^sup>* \<Longrightarrow> \<exists>p. walk g a p b"
    by (induction rule: rtrancl_induct) (auto simp: edge_rel_def intro: walk.intros)
qed

text \<open>The part of a walk after its last visit to a node.\<close>

lemma walk_suffix:
  assumes "walk g a q e" "n \<in> set q"
  shows "\<exists>p. walk g n p e \<and> n \<notin> set (tl p)"
  using assms
proof (induction rule: walk.induct)
  case (walk_start a)
  then show ?case using walk.intros(1) [of g a] by fastforce
next
  case (walk_step a p b c)
  show ?case
  proof (cases "n = c")
    case True
    then show ?thesis using walk.intros(1) [of g c] by fastforce
  next
    case False
    then obtain r where r: "walk g n r b" "n \<notin> set (tl r)" using walk_step by auto
    then have "walk g n (r @ [c]) c" using walk_step.hyps(2) by (auto intro: walk.intros)
    moreover have "n \<notin> set (tl (r @ [c]))" using r False walk_ends [OF r(1)] by simp
    ultimately show ?thesis by blast
  qed
qed

section \<open>Dominators\<close>

lemma dom_init_eq:
  assumes "distinct (nodes g)" "n \<in> set (nodes g)"
  shows "dom_init g start (\<lambda>_. {}) n = (if n = start then {start} else set (nodes g))"
proof -
  have "foldl (\<lambda>D n. if n = start then D(n := insert start (D n)) else D(n := D n \<union> V)) D ns n =
      (if n \<in> set ns then if n = start then insert start (D n) else D n \<union> V else D n)"
    if "distinct ns" for ns V and D :: "'a dom_map"
    using that by (induction ns arbitrary: D) auto
  then show ?thesis using assms by (simp add: dom_init_def)
qed

lemma intersect_all:
  "foldl (\<lambda>D c. D(node := insersectWith (D node) (D c))) D vec = D(node := {e \<in> D node. \<forall>c\<in>set vec. e \<in> D c})"
proof (induction vec arbitrary: D)
  case (Cons c vec)
  show ?case unfolding foldl_Cons Cons.IH by (auto simp: insersectWith_def fun_eq_iff)
qed simp

lemma dom_node_eq:
  assumes "wf_graph g" "node \<in> set (nodes g)"
  shows "dom_node g (D, ch) node =
    (let S = insert node {e \<in> D node. \<forall>c\<in>set (ins g node). e \<in> D c}
     in (D(node := S), ch \<or> card S \<noteq> card (D node)))"
  using wf_deref(2) [OF assms] by (simp add: dom_node_def intersect_all Let_def)

text \<open>Sets of nodes with at least the dominators: the invariant of the iteration.\<close>

definition over_dom :: "'a call_graph \<Rightarrow> 'a \<Rightarrow> 'a dom_map \<Rightarrow> bool" where
  "over_dom g start D \<longleftrightarrow>
     (\<forall>n\<in>set (nodes g). {d \<in> set (nodes g). dominates g start d n} \<subseteq> D n \<and> D n \<subseteq> set (nodes g) \<and>
        n \<in> D n \<and> (n = start \<longrightarrow> D n = {start}))"

definition stable :: "'a call_graph \<Rightarrow> 'a dom_map \<Rightarrow> 'a \<Rightarrow> bool" where
  "stable g D n \<longleftrightarrow> (\<forall>c\<in>set (ins g n). D n \<subseteq> insert n (D c))"

lemma dominates_pred:
  assumes "wf_graph g" "dominates g start d n" "d \<noteq> n" "c \<in> set (ins g n)"
  shows "dominates g start d c"
  unfolding dominates_def
proof (intro allI impI)
  fix p assume "walk g start p c"
  then have "walk g start (p @ [n]) n" using assms(4) wf_graphD(7) [OF assms(1)] by (auto intro: walk.intros)
  then show "d \<in> set p" using assms(2,3) by (force simp: dominates_def)
qed

lemma dom_node_step:
  assumes "wf_graph g" "node \<in> set (nodes g)" "over_dom g start D" "dom_node g (D, ch) node = (D', ch')"
  shows "over_dom g start D'" "D' \<le> D" "ch' \<longleftrightarrow> ch \<or> D' \<noteq> D" "D' = D \<Longrightarrow> stable g D node"
    "\<And>n. n \<notin> set (nodes g) \<Longrightarrow> D' n = D n"
proof -
  obtain S where S: "S = insert node {e \<in> D node. \<forall>c\<in>set (ins g node). e \<in> D c}" by blast
  have D': "D' = D(node := S)" "ch' \<longleftrightarrow> ch \<or> card S \<noteq> card (D node)"
    using assms(4) unfolding dom_node_eq [OF assms(1,2)] Let_def S [symmetric] by auto
  have o: "node \<in> D node" "D node \<subseteq> set (nodes g)" "node = start \<Longrightarrow> D node = {start}"
    using assms(2,3) by (auto simp: over_dom_def)
  have sub: "S \<subseteq> D node" using o(1) by (auto simp: S)
  then show "D' \<le> D" by (simp add: D'(1) le_fun_def)
  have "finite (D node)" using o(2) finite_subset by blast
  then have "card S \<noteq> card (D node) \<longleftrightarrow> S \<noteq> D node" using sub card_subset_eq by blast
  moreover have "D(node := S) \<noteq> D \<longleftrightarrow> S \<noteq> D node" by (metis fun_upd_idem_iff)
  ultimately show "ch' \<longleftrightarrow> ch \<or> D' \<noteq> D" using D' by simp
  show "D' = D \<Longrightarrow> stable g D node"
  proof -
    assume "D' = D"
    then have "D node = S" using D'(1) by (metis fun_upd_idem_iff)
    then show "stable g D node" by (auto simp: stable_def S)
  qed
  show "\<And>n. n \<notin> set (nodes g) \<Longrightarrow> D' n = D n" using D'(1) assms(2) by auto
  show "over_dom g start D'"
    unfolding over_dom_def
  proof (intro ballI)
    fix n assume n: "n \<in> set (nodes g)"
    show "{d \<in> set (nodes g). dominates g start d n} \<subseteq> D' n \<and> D' n \<subseteq> set (nodes g) \<and> n \<in> D' n \<and>
        (n = start \<longrightarrow> D' n = {start})"
    proof (cases "n = node")
      case False
      then show ?thesis using assms(3) n by (auto simp: D'(1) over_dom_def)
    next
      case True
      have "d \<in> S" if "d \<in> set (nodes g)" "dominates g start d node" for d
      proof (cases "d = node")
        case False
        have "d \<in> D node" using that assms(2,3) by (auto simp: over_dom_def)
        moreover have "d \<in> D c" if c: "c \<in> set (ins g node)" for c
        proof -
          have "dominates g start d c" by (rule dominates_pred [OF assms(1) _ False c]) fact
          moreover have "c \<in> set (nodes g)" using wf_graphD(5) [OF assms(1)] c by blast
          ultimately show ?thesis using assms(3) \<open>d \<in> set (nodes g)\<close> unfolding over_dom_def by blast
        qed
        ultimately show ?thesis by (simp add: S)
      qed (simp add: S)
      moreover have "node \<in> S" by (simp add: S)
      ultimately show ?thesis using o sub True by (auto simp: D'(1))
    qed
  qed
qed

lemma dom_round:
  assumes "wf_graph g" "set ns \<subseteq> set (nodes g)" "over_dom g start D"
    "foldl (dom_node g) (D, ch) ns = (D', ch')"
  shows "over_dom g start D' \<and> D' \<le> D \<and> (ch' \<longleftrightarrow> ch \<or> D' \<noteq> D) \<and> (D' = D \<longrightarrow> (\<forall>n\<in>set ns. stable g D n)) \<and>
    (\<forall>n. n \<notin> set (nodes g) \<longrightarrow> D' n = D n)"
  using assms(2-)
proof (induction ns arbitrary: D ch)
  case Nil
  then show ?case by auto
next
  case (Cons n ns)
  obtain D1 ch1 where D1: "dom_node g (D, ch) n = (D1, ch1)" by fastforce
  have n: "n \<in> set (nodes g)" using Cons.prems(1) by simp
  note s = dom_node_step [OF assms(1) n Cons.prems(2) D1]
  have fold: "foldl (dom_node g) (D1, ch1) ns = (D', ch')" using Cons.prems(3) D1 by simp
  from Cons.IH [OF _ s(1) fold] Cons.prems(1) have r: "over_dom g start D'" "D' \<le> D1" "ch' \<longleftrightarrow> ch1 \<or> D' \<noteq> D1"
    "D' = D1 \<longrightarrow> (\<forall>n\<in>set ns. stable g D1 n)" "\<forall>n. n \<notin> set (nodes g) \<longrightarrow> D' n = D1 n" by auto
  have "D' = D \<Longrightarrow> D1 = D" using r(2) s(2) by (simp add: order_antisym)
  then show ?case using r s by auto
qed

lemma stable_walk:
  assumes "wf_graph g" "\<forall>n\<in>set (nodes g). stable g D n" "walk g a p n" "a \<in> set (nodes g)" "D a = {a}"
  shows "n \<in> set (nodes g) \<and> D n \<subseteq> set p"
  using assms(3-)
proof (induction rule: walk.induct)
  case (walk_start a)
  then show ?case by simp
next
  case (walk_step a p b c)
  then have "b \<in> set (ins g c)" "c \<in> set (nodes g)" using wf_graphD(4,7) [OF assms(1)] by blast+
  with walk_step assms(2) show ?case by (fastforce simp: stable_def)
qed

lemma walk_from_nonnode: "walk g a p n \<Longrightarrow> wf_graph g \<Longrightarrow> a \<notin> set (nodes g) \<Longrightarrow> n = a"
proof (induction rule: walk.induct)
  case (walk_step a p b c)
  then show ?case using wf_graphD(2) [of g a] by (simp add: edges_None)
qed simp

lemma dom_loop_ok:
  assumes "wf_graph g" "over_dom g start D"
  shows "\<exists>D'. dom_loop g D = Some D' \<and> (\<forall>n\<in>set (nodes g). D' n = {d \<in> set (nodes g). dominates g start d n})"
  using assms(2)
proof (induction "\<Sum>n\<in>set (nodes g). card (D n)" arbitrary: D rule: less_induct)
  case less
  obtain D1 ch where D1: "foldl (dom_node g) (D, False) (nodes g) = (D1, ch)" by fastforce
  from dom_round [OF assms(1) order_refl less.prems D1]
  have r: "over_dom g start D1" "D1 \<le> D" "ch \<longleftrightarrow> D1 \<noteq> D" "D1 = D \<Longrightarrow> \<forall>n\<in>set (nodes g). stable g D n"
    "\<forall>n. n \<notin> set (nodes g) \<longrightarrow> D1 n = D n" by auto
  show ?case
  proof (cases "D1 = D")
    case True
    have "D n = {d \<in> set (nodes g). dominates g start d n}" if n: "n \<in> set (nodes g)" for n
    proof
      show "{d \<in> set (nodes g). dominates g start d n} \<subseteq> D n" using less.prems n by (auto simp: over_dom_def)
      show "D n \<subseteq> {d \<in> set (nodes g). dominates g start d n}"
      proof
        fix d assume d: "d \<in> D n"
        have "d \<in> set p" if p: "walk g start p n" for p
        proof -
          have "start \<in> set (nodes g)" using walk_from_nonnode [OF p assms(1)] n by blast
          moreover from this have "D start = {start}" using less.prems by (auto simp: over_dom_def)
          ultimately show ?thesis using stable_walk [OF assms(1) r(4) [OF True] p] d by blast
        qed
        then show "d \<in> {d \<in> set (nodes g). dominates g start d n}"
          using d less.prems n by (auto simp: dominates_def over_dom_def)
      qed
    qed
    then show ?thesis using D1 True r(3) by (subst dom_loop.simps) simp
  next
    case False
    then obtain n where n: "D1 n \<noteq> D n" by (auto simp: fun_eq_iff)
    then have nV: "n \<in> set (nodes g)" using r(5) by blast
    have fin: "finite (D m)" if "m \<in> set (nodes g)" for m
      using that less.prems finite_subset by (fastforce simp: over_dom_def)
    have "(\<Sum>n\<in>set (nodes g). card (D1 n)) < (\<Sum>n\<in>set (nodes g). card (D n))"
    proof (rule sum_strict_mono_ex1)
      show "\<forall>m\<in>set (nodes g). card (D1 m) \<le> card (D m)"
        using r(2) fin by (auto simp: le_fun_def intro: card_mono)
      have "D1 n \<subset> D n" using n r(2) by (auto simp: le_fun_def)
      then show "\<exists>m\<in>set (nodes g). card (D1 m) < card (D m)" using nV fin psubset_card_mono by blast
    qed simp
    from less.hyps [OF this r(1)] show ?thesis using D1 False r(3) by (subst dom_loop.simps) simp
  qed
qed

lemma over_dom_init: "wf_graph g \<Longrightarrow> over_dom g start (dom_init g start (\<lambda>_. {}))"
  using walk_start [of g start] wf_graphD(1) [of g]
  by (auto simp: over_dom_def dom_init_eq dominates_def)

section \<open>Natural loops\<close>

text \<open>The nodes from which a walk leads to one of the nodes \<open>W\<close> without coming back to \<open>n\<close>.\<close>

definition avoiding :: "'a call_graph \<Rightarrow> 'a \<Rightarrow> 'a set \<Rightarrow> 'a set" where
  "avoiding g n W = {m. \<exists>e\<in>W. \<exists>p. walk g m p e \<and> n \<notin> set (tl p)}"

lemma avoiding_base: "W \<subseteq> avoiding g n W"
  using walk_start by (fastforce simp: avoiding_def)

lemma avoiding_Un: "avoiding g n (A \<union> B) = avoiding g n A \<union> avoiding g n B"
  by (auto simp: avoiding_def)

lemma avoiding_mono: "A \<subseteq> B \<Longrightarrow> avoiding g n A \<subseteq> avoiding g n B"
  by (auto simp: avoiding_def)

lemma avoiding_pred:
  assumes "wf_graph g" "crt \<noteq> n" "i \<in> set (ins g crt)"
  shows "avoiding g n {i} \<subseteq> avoiding g n {crt}"
proof
  fix m assume "m \<in> avoiding g n {i}"
  then obtain p where p: "walk g m p i" "n \<notin> set (tl p)" by (auto simp: avoiding_def)
  have "walk g m (p @ [crt]) crt" using p(1) assms(3) wf_graphD(7) [OF assms(1)] by (auto intro: walk.intros)
  moreover have "n \<notin> set (tl (p @ [crt]))" using p walk_ends [OF p(1)] assms(2) by simp
  ultimately show "m \<in> avoiding g n {crt}" by (auto simp: avoiding_def)
qed

lemma avoiding_closed:
  assumes "wf_graph g" "m \<in> avoiding g n W" "m \<noteq> n" "i \<in> set (ins g m)"
  shows "i \<in> avoiding g n W"
proof -
  from assms(2) obtain e p where p: "e \<in> W" "walk g m p e" "n \<notin> set (tl p)" by (auto simp: avoiding_def)
  have "walk g i (i # p) e" using walk_Cons [OF p(2)] assms(4) wf_graphD(7) [OF assms(1)] by blast
  moreover have "n \<notin> set (tl (i # p))" using p(3) assms(3) walk_ends [OF p(2)] by (cases p) auto
  ultimately show ?thesis using p(1) unfolding avoiding_def by blast
qed

lemma avoiding_least:
  assumes "wf_graph g" "W \<subseteq> B" "\<And>x. x \<in> B \<Longrightarrow> x \<noteq> n \<Longrightarrow> set (ins g x) \<subseteq> B"
  shows "avoiding g n W \<subseteq> B"
proof -
  have "n \<notin> set (tl p) \<Longrightarrow> e \<in> B \<Longrightarrow> m \<in> B" if "walk g m p e" for m p e
    using that
  proof (induction rule: walk.induct)
    case (walk_step a p b c)
    have "c \<noteq> n" "n \<notin> set (tl p)" using walk_step.prems(1) walk_ends [OF walk_step.hyps(1)] by auto
    moreover have "b \<in> set (ins g c)" using walk_step.hyps(2) wf_graphD(7) [OF assms(1)] by blast
    ultimately show ?case using assms(3) walk_step.prems(2) walk_step.IH by blast
  qed simp
  then show ?thesis using assms(2) by (auto simp: avoiding_def)
qed

lemma back_search_ok:
  fixes g :: "'a::linorder call_graph"
  assumes "wf_graph g" "work \<subseteq> set (nodes g)" "bdy \<subseteq> set (nodes g)"
    "\<And>x. x \<in> bdy \<Longrightarrow> x \<noteq> n \<Longrightarrow> set (ins g x) \<subseteq> bdy \<union> work"
  shows "\<exists>B. back_search g n work bdy = Some B \<and> bdy \<union> work \<subseteq> B \<and> B \<subseteq> bdy \<union> avoiding g n work \<and>
    B \<subseteq> set (nodes g) \<and> (\<forall>x\<in>B. x \<noteq> n \<longrightarrow> set (ins g x) \<subseteq> B)"
  using assms(2-)
proof (induction "card (set (nodes g) - bdy) * Suc (length (nodes g)) + card work" arbitrary: work bdy rule: less_induct)
  case less
  show ?case
  proof (cases "work = {}")
    case True
    then show ?thesis using less.prems by (subst back_search.simps) auto
  next
    case False
    define crt where "crt = Min work"
    have fin: "finite work" using less.prems(1) finite_subset by blast
    have crt: "crt \<in> work" "crt \<in> set (nodes g)" using Min_in_work [OF fin False less.prems(1)] by (auto simp: crt_def)
    define W where "W = work - {crt} \<union> (if crt = n then {} else {i \<in> set (ins g crt). i \<notin> insert crt bdy})"
    have step: "back_search g n work bdy = back_search g n W (insert crt bdy)"
      using False wf_deref(2) [OF assms(1) crt(2)]
      by (subst back_search.simps) (auto simp: crt_def [symmetric] W_def Let_def)
    have WV: "W \<subseteq> set (nodes g)" using less.prems(1) wf_graphD(5) [OF assms(1), of crt] by (auto simp: W_def)
    have lt: "card (set (nodes g) - insert crt bdy) * Suc (length (nodes g)) + card W
        < card (set (nodes g) - bdy) * Suc (length (nodes g)) + card work"
    proof (cases "crt \<in> bdy")
      case True
      then have "W \<subseteq> work - {crt}" using less.prems(3) [OF True] by (auto simp: W_def)
      then have "card W < card work" using crt(1) fin by (metis card_Diff1_less card_mono finite_Diff le_less_trans)
      with True show ?thesis by (simp add: insert_absorb)
    next
      case nb: False
      have "Suc (card (set (nodes g) - insert crt bdy)) = card (set (nodes g) - bdy)"
        using crt(2) nb by (metis Diff_insert card_Suc_Diff1 finite_Diff DiffI List.finite_set)
      moreover have "card W \<le> length (nodes g)" using WV by (metis List.finite_set card_length card_mono le_trans)
      ultimately show ?thesis by (simp flip: \<open>Suc _ = _\<close>)
    qed
    have inv: "set (ins g x) \<subseteq> insert crt bdy \<union> W" if "x \<in> insert crt bdy" "x \<noteq> n" for x
      using that less.prems(3) [of x] by (auto simp: W_def)
    have bV: "insert crt bdy \<subseteq> set (nodes g)" using less.prems(2) crt(2) by simp
    from less.hyps [OF lt WV bV inv] obtain B where B: "back_search g n W (insert crt bdy) = Some B"
      "insert crt bdy \<union> W \<subseteq> B" "B \<subseteq> insert crt bdy \<union> avoiding g n W" "B \<subseteq> set (nodes g)"
      "\<forall>x\<in>B. x \<noteq> n \<longrightarrow> set (ins g x) \<subseteq> B" by blast
    have "avoiding g n W \<subseteq> avoiding g n work"
    proof
      fix m assume "m \<in> avoiding g n W"
      then obtain e p where e: "e \<in> W" "walk g m p e" "n \<notin> set (tl p)" unfolding avoiding_def by blast
      show "m \<in> avoiding g n work"
      proof (cases "e \<in> work")
        case True
        then show ?thesis using e(2,3) unfolding avoiding_def by blast
      next
        case False
        then have "crt \<noteq> n" "e \<in> set (ins g crt)" using e(1) by (auto simp: W_def split: if_split_asm)
        moreover have "m \<in> avoiding g n {e}" using e(2,3) unfolding avoiding_def by blast
        ultimately have "m \<in> avoiding g n {crt}" using avoiding_pred [OF assms(1)] by blast
        then show ?thesis using avoiding_mono [of "{crt}" work] crt(1) by blast
      qed
    qed
    moreover have "crt \<in> avoiding g n work" by (rule subsetD [OF avoiding_base crt(1)])
    moreover have "work \<subseteq> B" using B(2) by (auto simp: W_def)
    moreover have "crt \<in> B" "W \<subseteq> B" using B(2) by auto
    ultimately have "bdy \<union> work \<subseteq> B \<and> B \<subseteq> bdy \<union> avoiding g n work"
      using B(2,3) by (intro conjI) auto
    with B(1,4,5) step show ?thesis by simp
  qed
qed

text \<open>The loops found from a set of edges: one for each head of a back edge, with its natural body.\<close>

definition loops_ok :: "'a call_graph \<Rightarrow> 'a dom_map \<Rightarrow> ('a \<times> 'a) set \<Rightarrow> 'a nat_loop list \<Rightarrow> bool" where
  "loops_ok g D P loops \<longleftrightarrow>
     distinct (map entry loops) \<and>
     entry ` set loops = {n. \<exists>e. (e, n) \<in> P \<and> n \<in> D e} \<and>
     (\<forall>l\<in>set loops. back_edge_heads l = {e. (e, entry l) \<in> P \<and> entry l \<in> D e} \<and>
        body l = avoiding g (entry l) (back_edge_heads l))"

lemma find_index:
  "List.find (\<lambda>i. f (xs ! i) = y) [0..<length xs] = None \<longleftrightarrow> y \<notin> f ` set xs"
  "List.find (\<lambda>i. f (xs ! i) = y) [0..<length xs] = Some i \<Longrightarrow> i < length xs \<and> f (xs ! i) = y"
proof -
  have "y \<in> f ` set xs \<longleftrightarrow> (\<exists>i<length xs. f (xs ! i) = y)" by (force simp: in_set_conv_nth)
  then show "List.find (\<lambda>i. f (xs ! i) = y) [0..<length xs] = None \<longleftrightarrow> y \<notin> f ` set xs"
    by (auto simp: find_None_iff)
  show "List.find (\<lambda>i. f (xs ! i) = y) [0..<length xs] = Some i \<Longrightarrow> i < length xs \<and> f (xs ! i) = y"
    by (auto simp: find_Some_iff)
qed

lemma avoiding_nodes:
  assumes "wf_graph g" "W \<subseteq> set (nodes g)"
  shows "avoiding g n W \<subseteq> set (nodes g)"
  by (rule avoiding_least [OF assms(1,2) wf_graphD(5) [OF assms(1)]])

lemma search_adds:
  fixes g :: "'a::linorder call_graph"
  assumes "wf_graph g" "H \<subseteq> set (nodes g)" "e \<in> set (nodes g)"
  shows "back_search g n {e} (avoiding g n H) = Some (avoiding g n (insert e H))"
proof -
  have "set (ins g x) \<subseteq> avoiding g n H \<union> {e}" if "x \<in> avoiding g n H" "x \<noteq> n" for x
    using avoiding_closed [OF assms(1) that] by blast
  with back_search_ok [OF assms(1) _ avoiding_nodes [OF assms(1,2)], of "{e}" n n] assms(3)
  obtain B where B: "back_search g n {e} (avoiding g n H) = Some B" "avoiding g n H \<union> {e} \<subseteq> B"
    "B \<subseteq> avoiding g n H \<union> avoiding g n {e}" "\<forall>x\<in>B. x \<noteq> n \<longrightarrow> set (ins g x) \<subseteq> B" by auto
  have eq: "insert e H = H \<union> {e}" by simp
  have "H \<subseteq> B" using avoiding_base [of H g n] B(2) by blast
  then have "avoiding g n (H \<union> {e}) \<subseteq> B"
    by (intro avoiding_least [OF assms(1)]) (use B(2,4) in auto)
  with B(1,3) show ?thesis unfolding eq avoiding_Un by (metis order_antisym)
qed

lemma back_edge_ok:
  fixes g :: "'a::linorder call_graph"
  assumes "wf_graph g" "loops_ok g D P loops" "e \<in> set (nodes g)" "P \<subseteq> edge_rel g"
  shows "\<exists>loops'. back_edge g D e n loops = Some loops' \<and> loops_ok g D (insert (e, n) P) loops'"
proof (cases "n \<in> D e")
  case False
  then have "loops_ok g D (insert (e, n) P) loops" using assms(2) unfolding loops_ok_def by (auto cong: conj_cong)
  with False show ?thesis by (simp add: back_edge_def)
next
  case True
  have ok1: "distinct (map entry loops)" and ok2: "entry ` set loops = {n. \<exists>e. (e, n) \<in> P \<and> n \<in> D e}"
    and ok3: "\<And>l. l \<in> set loops \<Longrightarrow> back_edge_heads l = {e. (e, entry l) \<in> P \<and> entry l \<in> D e} \<and>
        body l = avoiding g (entry l) (back_edge_heads l)"
    using assms(2) unfolding loops_ok_def by blast+
  define H where "H = {x. (x, n) \<in> P \<and> n \<in> D x}"
  have HV: "H \<subseteq> set (nodes g)" using assms(4) edge_rel_nodes [OF assms(1)] by (auto simp: H_def)
  note search = search_adds [OF assms(1) HV assms(3), of n]
  have H': "{x. (x, n) \<in> insert (e, n) P \<and> n \<in> D x} = insert e H" using True by (auto simp: H_def)
  have other: "m \<noteq> n \<Longrightarrow> {x. (x, m) \<in> insert (e, n) P \<and> m \<in> D x} = {x. (x, m) \<in> P \<and> m \<in> D x}" for m by auto
  define l' where "l' = \<lparr>entry = n, body = avoiding g n (insert e H), back_edge_heads = insert e H\<rparr>"
  have ent: "insert n {n. \<exists>e. (e, n) \<in> P \<and> n \<in> D e} = {m. \<exists>x. (x, m) \<in> insert (e, n) P \<and> m \<in> D x}" using True by auto
  show ?thesis
  proof (cases "List.find (\<lambda>i. entry (loops ! i) = n) [0..<length loops]")
    case None
    then have new: "n \<notin> entry ` set loops" by (simp only: find_index(1) simp_thms)
    then have "H = {}" unfolding ok2 H_def by blast
    then have "back_edge g D e n loops = Some (loops @ [l'])"
      using None True search by (simp add: back_edge_def l'_def avoiding_def)
    moreover have "loops_ok g D (insert (e, n) P) (loops @ [l'])"
      unfolding loops_ok_def
    proof (intro conjI)
      show "distinct (map entry (loops @ [l']))" using ok1 new by (simp add: l'_def)
      show "entry ` set (loops @ [l']) = {m. \<exists>x. (x, m) \<in> insert (e, n) P \<and> m \<in> D x}"
        unfolding ent [symmetric] set_append image_Un ok2 by (simp add: l'_def)
      show "\<forall>l\<in>set (loops @ [l']). back_edge_heads l = {x. (x, entry l) \<in> insert (e, n) P \<and> entry l \<in> D x} \<and>
          body l = avoiding g (entry l) (back_edge_heads l)"
      proof
        fix l assume "l \<in> set (loops @ [l'])"
        then consider "l = l'" | "l \<in> set loops" "entry l \<noteq> n" using new by auto
        then show "back_edge_heads l = {x. (x, entry l) \<in> insert (e, n) P \<and> entry l \<in> D x} \<and>
            body l = avoiding g (entry l) (back_edge_heads l)"
        proof cases
          case 1
          then show ?thesis unfolding 1 l'_def nat_loop.simps H' by blast
        next
          case 2
          then show ?thesis using ok3 [OF 2(1)] other [OF 2(2)] by simp
        qed
      qed
    qed
    ultimately show ?thesis by blast
  next
    case (Some i)
    then have i: "i < length loops" "entry (loops ! i) = n" using find_index(2) by fastforce+
    from ok3 [of "loops ! i"] i have li: "back_edge_heads (loops ! i) = H" "body (loops ! i) = avoiding g n H"
      by (simp_all add: H_def)
    have "loops ! i = \<lparr>entry = n, body = avoiding g n H, back_edge_heads = H\<rparr>"
      using li i(2) by (cases "loops ! i") simp
    then have eq: "back_edge g D e n loops = Some (loops[i := l'])"
      using Some True i(1) search by (simp add: back_edge_def l'_def)
    have ment: "map entry (loops[i := l']) = map entry loops"
      using i by (simp add: map_update l'_def list_update_same_conv)
    have old: "l \<in> set loops \<and> entry l \<noteq> n" if "l \<in> set (loops[i := l'])" "l \<noteq> l'" for l
    proof -
      from that(1) obtain j where "j < length loops" "l = loops[i := l'] ! j" by (auto simp: in_set_conv_nth)
      with that(2) have j: "j < length loops" "l = loops ! j" "j \<noteq> i" by (cases "j = i"; simp)+
      then have "entry l \<noteq> entry (loops ! i)" using ok1 i(1) by (simp add: distinct_conv_nth)
      with j i show ?thesis by auto
    qed
    have "loops_ok g D (insert (e, n) P) (loops[i := l'])"
      unfolding loops_ok_def
    proof (intro conjI)
      show "distinct (map entry (loops[i := l']))" using ok1 ment by simp
      have "entry ` set (loops[i := l']) = entry ` set loops" using ment by (metis list.set_map)
      moreover have "n \<in> entry ` set loops" using i by (metis imageI nth_mem)
      ultimately show "entry ` set (loops[i := l']) = {m. \<exists>x. (x, m) \<in> insert (e, n) P \<and> m \<in> D x}"
        unfolding ent [symmetric] ok2 [symmetric] by (simp add: insert_absorb)
      show "\<forall>l\<in>set (loops[i := l']). back_edge_heads l = {x. (x, entry l) \<in> insert (e, n) P \<and> entry l \<in> D x} \<and>
          body l = avoiding g (entry l) (back_edge_heads l)"
      proof
        fix l assume l: "l \<in> set (loops[i := l'])"
        show "back_edge_heads l = {x. (x, entry l) \<in> insert (e, n) P \<and> entry l \<in> D x} \<and>
            body l = avoiding g (entry l) (back_edge_heads l)"
        proof (cases "l = l'")
          case True
          then show ?thesis using H' by (simp add: l'_def)
        next
          case False
          then show ?thesis using old [OF l False] ok3 [of l] other [of "entry l"] by simp
        qed
      qed
    qed
    with eq show ?thesis by blast
  qed
qed

lemma back_edges_ok:
  fixes g :: "'a::linorder call_graph"
  assumes "wf_graph g" "loops_ok g D P loops" "e \<in> set (nodes g)" "P \<subseteq> edge_rel g" "set ns \<subseteq> set (outs g e)"
  shows "\<exists>loops'. back_edges g D e ns loops = Some loops' \<and> loops_ok g D (P \<union> {e} \<times> set ns) loops'"
  using assms(2,4,5)
proof (induction ns arbitrary: P loops)
  case Nil
  then show ?case by simp
next
  case (Cons n ns)
  from back_edge_ok [OF assms(1) Cons.prems(1) assms(3) Cons.prems(2), of n] obtain loops1 where
    l1: "back_edge g D e n loops = Some loops1" "loops_ok g D (insert (e, n) P) loops1" by blast
  have "insert (e, n) P \<subseteq> edge_rel g" "set ns \<subseteq> set (outs g e)" using Cons.prems by (auto simp: edge_rel_def)
  from Cons.IH [OF l1(2) this] l1(1) show ?case by (simp add: insert_commute)
qed

lemma loops_from_ok:
  fixes g :: "'a::linorder call_graph"
  assumes "wf_graph g" "loops_ok g D P loops" "set es \<subseteq> set (nodes g)" "P \<subseteq> edge_rel g"
  shows "\<exists>loops'. loops_from g D es loops = Some loops' \<and>
    loops_ok g D (P \<union> {(e, n). e \<in> set es \<and> n \<in> set (outs g e)}) loops'"
  using assms(2-)
proof (induction es arbitrary: P loops)
  case Nil
  then show ?case by simp
next
  case (Cons e es)
  have e: "e \<in> set (nodes g)" using Cons.prems(2) by simp
  from back_edges_ok [OF assms(1) Cons.prems(1) e Cons.prems(3) order_refl] obtain loops1 where
    l1: "back_edges g D e (outs g e) loops = Some loops1" "loops_ok g D (P \<union> {e} \<times> set (outs g e)) loops1" by blast
  have sub: "P \<union> {e} \<times> set (outs g e) \<subseteq> edge_rel g" using Cons.prems(3) by (auto simp: edge_rel_def)
  have "P \<union> {e} \<times> set (outs g e) \<union> {(e, n). e \<in> set es \<and> n \<in> set (outs g e)} =
      P \<union> {(x, n). x \<in> set (e # es) \<and> n \<in> set (outs g x)}" by auto
  with Cons.IH [OF l1(2) _ sub] Cons.prems(2) l1(1) wf_deref(1) [OF assms(1) e] show ?case by simp
qed

lemma loops_ok_cong:
  assumes "loops_ok g D P loops" "\<And>e n. (e, n) \<in> P \<Longrightarrow> D e = D' e"
  shows "loops_ok g D' P loops"
proof -
  have "(e, n) \<in> P \<and> n \<in> D e \<longleftrightarrow> (e, n) \<in> P \<and> n \<in> D' e" for e n using assms(2) by blast
  with assms(1) show ?thesis by (simp add: loops_ok_def)
qed

section \<open>Properties\<close>

text \<open>C23: The dominator iteration ends, and the set it finds for a node holds the nodes that lie on
  every path to it from the start node.\<close>
theorem dominators_spec:
  assumes "wf_graph g"
  shows "\<exists>D. dominators g start (\<lambda>_. {}) = Some D \<and>
    (\<forall>n\<in>set (nodes g). D n = {d \<in> set (nodes g). \<forall>p. walk g start p n \<longrightarrow> d \<in> set p})"
  using dom_loop_ok [OF assms over_dom_init [OF assms]] by (simp add: dominators_def dominates_def)

theorem dominators_spec_witness:
  "\<exists>D. dominators two_calls 1 (\<lambda>_. {}) = Some D \<and>
    (\<forall>n\<in>set (nodes two_calls). D n = {d \<in> set (nodes two_calls). \<forall>p. walk two_calls 1 p n \<longrightarrow> d \<in> set p})"
  by (rule dominators_spec [OF wf_two_calls])

text \<open>C24: What \<open>compute_loops\<close> reports: one loop for each target of an edge whose source it dominates, with the
  nodes that reach such a source without passing through the entry.  The entry dominates the whole body,
  and is in it when the source is reachable from the start: then the loop is a natural loop.  The comment
  asks for no more, but every node dominates a node that is not reachable from the start, so each edge from
  such a node counts as a back edge and its target as the entry of a loop, whether there is a cycle or not.\<close>
theorem natural_loops_spec:
  assumes "wf_graph g"
  shows "\<exists>loops. compute_loops g start = Some loops \<and> distinct (map entry loops) \<and>
    (\<forall>n. n \<in> entry ` set loops \<longleftrightarrow> (\<exists>e. n \<in> set (outs g e) \<and> dominates g start n e)) \<and>
    (\<forall>l\<in>set loops.
       back_edge_heads l = {e. entry l \<in> set (outs g e) \<and> dominates g start (entry l) e} \<and>
       body l = {m. \<exists>e\<in>back_edge_heads l. \<exists>p. walk g m p e \<and> entry l \<notin> set (tl p)} \<and>
       (\<forall>m\<in>body l. dominates g start (entry l) m) \<and>
       ((\<exists>e\<in>back_edge_heads l. (start, e) \<in> (edge_rel g)\<^sup>*) \<longrightarrow> entry l \<in> body l)) \<and>
    (\<forall>e n. n \<in> set (outs g e) \<longrightarrow> (start, e) \<notin> (edge_rel g)\<^sup>* \<longrightarrow> (\<exists>l\<in>set loops. entry l = n \<and> e \<in> back_edge_heads l))"
proof -
  obtain D where D: "dominators g start (\<lambda>_. {}) = Some D"
    "\<forall>n\<in>set (nodes g). D n = {d \<in> set (nodes g). dominates g start d n}"
    using dom_loop_ok [OF assms over_dom_init [OF assms], of start] unfolding dominators_def by blast
  have "loops_ok g D {} []" by (simp add: loops_ok_def)
  from loops_from_ok [OF assms this order_refl] obtain loops where loops: "loops_from g D (nodes g) [] = Some loops"
    "loops_ok g D {(e, n). e \<in> set (nodes g) \<and> n \<in> set (outs g e)} loops" by auto
  have P: "{(e, n). e \<in> set (nodes g) \<and> n \<in> set (outs g e)} = edge_rel g"
    using edge_rel_nodes [OF assms] by (auto simp: edge_rel_def)
  have eD: "(e, n) \<in> edge_rel g \<and> n \<in> D e \<longleftrightarrow> n \<in> set (outs g e) \<and> dominates g start n e" for e n
    using D(2) edge_rel_nodes [OF assms, of e n] by (auto simp: edge_rel_def)
  note ok = loops(2) [unfolded P loops_ok_def eD]
  show ?thesis
  proof (intro exI conjI ballI allI impI)
    show "compute_loops g start = Some loops" using D(1) loops(1) by (simp add: compute_loops_def)
    show "distinct (map entry loops)" using ok by blast
    show "n \<in> entry ` set loops \<longleftrightarrow> (\<exists>e. n \<in> set (outs g e) \<and> dominates g start n e)" for n using ok by blast
    fix l assume l: "l \<in> set loops"
    show heads: "back_edge_heads l = {e. entry l \<in> set (outs g e) \<and> dominates g start (entry l) e}" using ok l by blast
    show bdy: "body l = {m. \<exists>e\<in>back_edge_heads l. \<exists>p. walk g m p e \<and> entry l \<notin> set (tl p)}"
      using ok l by (simp add: avoiding_def)
    show "dominates g start (entry l) m" if m: "m \<in> body l" for m
      unfolding dominates_def
    proof (intro allI impI)
      fix q assume q: "walk g start q m"
      from m bdy obtain e p where p: "e \<in> back_edge_heads l" "walk g m p e" "entry l \<notin> set (tl p)" by blast
      have "dominates g start (entry l) e" using p(1) heads by simp
      with walk_append [OF p(2) q] p(3) show "entry l \<in> set q" by (auto simp: dominates_def)
    qed
    assume "\<exists>e\<in>back_edge_heads l. (start, e) \<in> (edge_rel g)\<^sup>*"
    then obtain e q where e: "e \<in> back_edge_heads l" "walk g start q e" using walk_rtrancl by metis
    then have "entry l \<in> set q" using heads by (auto simp: dominates_def)
    from walk_suffix [OF e(2) this] e(1) show "entry l \<in> body l" unfolding bdy by blast
  next
    fix e n assume n: "n \<in> set (outs g e)" "(start, e) \<notin> (edge_rel g)\<^sup>*"
    then have d: "dominates g start n e" using walk_rtrancl [of g start e] by (auto simp: dominates_def)
    have "n \<in> entry ` set loops" using ok n(1) d by blast
    then obtain l where l: "l \<in> set loops" "entry l = n" by blast
    have "back_edge_heads l = {e. entry l \<in> set (outs g e) \<and> dominates g start (entry l) e}" using ok l(1) by blast
    then show "\<exists>l\<in>set loops. entry l = n \<and> e \<in> back_edge_heads l" using l n(1) d by blast
  qed
qed

text \<open>The cycle of 2 and 3 behind the start node 1, and the call from 4 to 5, which are not reachable.\<close>

definition looping_calls :: "nat call_graph" where
  "looping_calls =
     the (Option.bind (calls two_calls 3 2) (\<lambda>g. calls g 4 5))"

lemma calls_edge_rel:
  assumes "wf_graph g"
  shows "\<exists>g'. calls g a b = Some g' \<and> wf_graph g' \<and> edge_rel g' = insert (a, b) (edge_rel g)"
proof -
  from calls_ok [OF assms, of a b] obtain g' where g': "calls g a b = Some g'" "wf_graph g'"
    "\<And>x y. mult g' x y = mult g x y + (if x = a \<and> y = b then 1 else 0)" by blast
  have "(x, y) \<in> edge_rel g' \<longleftrightarrow> (x, y) \<in> insert (a, b) (edge_rel g)" for x y
    using g'(3) [of x y] mult_nonzero [of g x y] mult_nonzero [of g' x y] by (auto simp: edge_rel_def split: if_splits)
  then have "edge_rel g' = insert (a, b) (edge_rel g)" by auto
  with g' show ?thesis by blast
qed

lemma looping_calls_ok: "wf_graph looping_calls" "edge_rel looping_calls = {(1, 2), (2, 3), (3, 2), (4, 5)}"
proof -
  from calls_edge_rel [OF wf_empty, of 1 "2::nat"] obtain g1 where g1: "calls empty_graph 1 (2::nat) = Some g1" "wf_graph g1"
    "edge_rel g1 = insert (1, 2) (edge_rel empty_graph)" by blast
  from calls_edge_rel [OF g1(2), of 2 3] obtain g2 where g2: "calls g1 2 3 = Some g2" "wf_graph g2"
    "edge_rel g2 = insert (2, 3) (edge_rel g1)" by blast
  from calls_edge_rel [OF g2(2), of 3 2] obtain g3 where g3: "calls g2 3 2 = Some g3" "wf_graph g3"
    "edge_rel g3 = insert (3, 2) (edge_rel g2)" by blast
  from calls_edge_rel [OF g3(2), of 4 5] obtain g4 where g4: "calls g3 4 5 = Some g4" "wf_graph g4"
    "edge_rel g4 = insert (4, 5) (edge_rel g3)" by blast
  have two: "two_calls = g2" unfolding two_calls_def g1(1) bind.bind_lunit g2(1) by simp
  have g: "looping_calls = g4" unfolding looping_calls_def two g3(1) bind.bind_lunit g4(1) by simp
  have "edge_rel empty_graph = ({} :: (nat \<times> nat) set)" by (simp add: edge_rel_def empty_graph_def edges_def)
  then have "edge_rel g4 = {(1, 2), (2, 3), (3, 2), (4, 5)}" unfolding g4(3) g3(3) g2(3) g1(3) by auto
  with g g4(2) show "wf_graph looping_calls" "edge_rel looping_calls = {(1, 2), (2, 3), (3, 2), (4, 5)}" by simp_all
qed

theorem natural_loops_spec_witness:
  "\<exists>l k. compute_loops looping_calls 1 = Some [l, k] \<and>
     entry l = 2 \<and> 2 \<in> body l \<and> (\<forall>m\<in>body l. dominates looping_calls 1 2 m) \<and> entry k = 5 \<and> 4 \<in> back_edge_heads k"
proof -
  let ?g = looping_calls
  from natural_loops_spec [OF looping_calls_ok(1), of 1] obtain loops where loops: "compute_loops ?g 1 = Some loops"
    and ex: "\<forall>n. n \<in> entry ` set loops \<longleftrightarrow> (\<exists>e. n \<in> set (outs ?g e) \<and> dominates ?g 1 n e)"
    and each: "\<forall>l\<in>set loops.
       back_edge_heads l = {e. entry l \<in> set (outs ?g e) \<and> dominates ?g 1 (entry l) e} \<and>
       body l = {m. \<exists>e\<in>back_edge_heads l. \<exists>p. walk ?g m p e \<and> entry l \<notin> set (tl p)} \<and>
       (\<forall>m\<in>body l. dominates ?g 1 (entry l) m) \<and>
       ((\<exists>e\<in>back_edge_heads l. (1, e) \<in> (edge_rel ?g)\<^sup>*) \<longrightarrow> entry l \<in> body l)"
    and stray: "\<forall>e n. n \<in> set (outs ?g e) \<longrightarrow> (1, e) \<notin> (edge_rel ?g)\<^sup>* \<longrightarrow> (\<exists>l\<in>set loops. entry l = n \<and> e \<in> back_edge_heads l)"
    by (elim exE conjE)
  have "map_option (map entry) (compute_loops ?g 1) = Some [2, 5]" by code_simp
  then have "map entry loops = [2, 5]" unfolding loops by simp
  then obtain l k where l: "loops = [l, k]" "entry l = 2" "entry k = 5" by auto
  note edge = looping_calls_ok(2)
  have "2 \<in> entry ` set loops" using l(2) unfolding l(1) by force
  with ex obtain e where e: "2 \<in> set (outs ?g e)" "dominates ?g 1 2 e" by blast
  have mem: "l \<in> set loops" "k \<in> set loops" unfolding l(1) by simp_all
  note heads = each [rule_format, OF mem(1), unfolded l(2)]
  have head: "e \<in> back_edge_heads l" using heads e by blast
  have "(e, 2) \<in> edge_rel ?g" using e(1) by (simp add: edge_rel_def)
  then have "e = 1 \<or> e = 3" by (simp add: edge)
  moreover have "(1, 3) \<in> (edge_rel ?g)\<^sup>*"
    by (rule rtrancl_into_rtrancl [OF r_into_rtrancl]) (simp_all add: edge)
  ultimately have "\<exists>e\<in>back_edge_heads l. (1, e) \<in> (edge_rel ?g)\<^sup>*" using head by blast
  then have "2 \<in> body l" using heads by blast
  moreover have "4 \<in> back_edge_heads k"
  proof -
    have "(1, 4) \<notin> (edge_rel ?g)\<^sup>*"
    proof
      assume "(1, 4) \<in> (edge_rel ?g)\<^sup>*"
      then show False by (cases rule: rtranclE) (simp_all add: edge)
    qed
    moreover have "5 \<in> set (outs ?g 4)" using edge by (auto simp: edge_rel_def)
    ultimately obtain l' where l': "l' \<in> set loops" "entry l' = 5" "4 \<in> back_edge_heads l'" using stray by blast
    with l have "l' = k" unfolding l(1) by auto
    with l'(3) show ?thesis by simp
  qed
  moreover have "\<forall>m\<in>body l. dominates ?g 1 2 m" using heads by blast
  ultimately show ?thesis using loops l by blast
qed

text \<open>A graph whose start node 1 calls nothing.\<close>

definition stray_call :: "nat call_graph" where
  "stray_call = the (map_option (\<lambda>g. add g 1) (calls empty_graph 2 3))"

text \<open>Every node dominates the nodes that are not reachable from the start, so a call between
  two such nodes is taken for a back edge: in a graph without a cycle its target is reported as the
  entry of a loop that does not contain it.\<close>
theorem unreachable_calls_are_loops:
  "map_option (\<lambda>loops. (isLoopEntryPoint loops 3, isInLoop loops 0 3, isInLoop loops 0 2))
     (compute_loops stray_call 1) = Some (0, Some False, Some True) \<and>
   acyclic (edge_rel stray_call)"
proof
  show "map_option (\<lambda>loops. (isLoopEntryPoint loops 3, isInLoop loops 0 3, isInLoop loops 0 2))
     (compute_loops stray_call 1) = Some (0, Some False, Some True)"
    by code_simp
  have "edge_rel stray_call \<subseteq> {(2, 3)}"
    by (auto simp: edge_rel_def stray_call_def calls_def add_def empty_graph_def push_edge_def deref_def edges_def
        split: if_split_asm)
  moreover have "acyclic {(2, 3::nat)}"
    by (rule wf_acyclic [OF wf_subset [OF wf_less]]) auto
  ultimately show "acyclic (edge_rel stray_call)" by (rule acyclic_subset [rotated])
qed

end
