(* ===== verification/CallGraph_SCC.thy ===== *)
theory CallGraph_SCC
  imports CallGraph_Updates
begin

text \<open>
  Tarjan's search: it ends, puts out every node once, the nodes of a strongly connected component
  next to each other and after the components they call, and reports a cycle exactly when there is
  one.  The invariant relates the stack, the indices and the low links to the paths of the graph;
  the gray nodes are those whose call of \<open>strongConnect\<close> has not ended.
\<close>

section \<open>Components\<close>

definition is_scc :: "'a call_graph \<Rightarrow> 'a set \<Rightarrow> bool" where
  "is_scc g C \<longleftrightarrow> C \<noteq> {} \<and> (\<forall>x\<in>C. C = {y. (x, y) \<in> (edge_rel g)\<^sup>* \<and> (y, x) \<in> (edge_rel g)\<^sup>*})"

text \<open>A sequence of components, each of which calls only itself and earlier ones.\<close>

definition comps_ok :: "'a call_graph \<Rightarrow> 'a list list \<Rightarrow> bool" where
  "comps_ok g cs \<longleftrightarrow>
     (\<forall>before c after. cs = before @ c # after \<longrightarrow>
        is_scc g (set c) \<and> edge_rel g `` set c \<subseteq> set (concat before) \<union> set c)"

lemma comps_ok_Nil: "comps_ok g []"
  by (simp add: comps_ok_def)

lemma comps_ok_snoc:
  assumes "comps_ok g cs" "is_scc g (set c)" "edge_rel g `` set c \<subseteq> set (concat cs) \<union> set c"
  shows "comps_ok g (cs @ [c])"
  unfolding comps_ok_def
proof (intro allI impI)
  fix before d after assume eq: "cs @ [c] = before @ d # after"
  show "is_scc g (set d) \<and> edge_rel g `` set d \<subseteq> set (concat before) \<union> set d"
  proof (cases after rule: rev_cases)
    case Nil
    with eq assms(2,3) show ?thesis by simp
  next
    case (snoc after' a)
    with eq have "cs = before @ d # after'" by simp
    with assms(1) [unfolded comps_ok_def] show ?thesis by blast
  qed
qed

section \<open>The invariant\<close>

abbreviation idx :: "'a scc_state \<Rightarrow> 'a \<Rightarrow> nat" where
  "idx s \<equiv> get_num (index s)"

abbreviation low :: "'a scc_state \<Rightarrow> 'a \<Rightarrow> nat" where
  "low s \<equiv> get_num (lowlink s)"

abbreviation seen :: "'a scc_state \<Rightarrow> 'a set" where
  "seen s \<equiv> dom (index s)"

abbreviation paths :: "'a call_graph \<Rightarrow> ('a \<times> 'a) set" where
  "paths g \<equiv> (edge_rel g)\<^sup>*"

definition stack_inv :: "'a call_graph \<Rightarrow> 'a scc_state \<Rightarrow> bool" where
  "stack_inv g s \<longleftrightarrow>
     graph s = g \<and> seen s = set (stack s) \<union> set (out s) \<and> set (stack s) \<inter> set (out s) = {} \<and>
     distinct (stack s) \<and> distinct (out s) \<and> onStack s = set (stack s) \<and> seen s \<subseteq> set (nodes g) \<and>
     sorted_wrt (\<lambda>x y. idx s y < idx s x) (stack s) \<and> (\<forall>x\<in>seen s. idx s x < crtIndex s)"

definition link_inv :: "'a call_graph \<Rightarrow> 'a scc_state \<Rightarrow> bool" where
  "link_inv g s \<longleftrightarrow>
     (\<forall>x\<in>set (stack s). low s x \<le> idx s x \<and> (\<exists>z\<in>set (stack s). idx s z = low s x \<and> (x, z) \<in> paths g))"

definition gray_inv :: "'a call_graph \<Rightarrow> 'a set \<Rightarrow> 'a scc_state \<Rightarrow> bool" where
  "gray_inv g gr s \<longleftrightarrow>
     gr \<subseteq> set (stack s) \<and> (\<forall>x\<in>seen s - gr. edge_rel g `` {x} \<subseteq> seen s) \<and>
     (\<forall>x\<in>set (stack s). \<exists>y\<in>gr. (x, y) \<in> paths g \<and> idx s y \<le> idx s x) \<and>
     (\<forall>y\<in>gr. \<forall>x\<in>set (stack s). idx s y \<le> idx s x \<longrightarrow> (y, x) \<in> paths g)"

definition out_inv :: "'a call_graph \<Rightarrow> 'a scc_state \<Rightarrow> bool" where
  "out_inv g s \<longleftrightarrow> edge_rel g `` set (out s) \<subseteq> set (out s) \<and> (\<exists>cs. out s = concat cs \<and> comps_ok g cs)"

definition scc_inv :: "'a call_graph \<Rightarrow> 'a set \<Rightarrow> 'a scc_state \<Rightarrow> bool" where
  "scc_inv g gr s \<longleftrightarrow> stack_inv g s \<and> link_inv g s \<and> gray_inv g gr s \<and> out_inv g s"

lemma stack_invD:
  assumes "stack_inv g s"
  shows "graph s = g" "seen s = set (stack s) \<union> set (out s)" "set (stack s) \<inter> set (out s) = {}"
    "distinct (stack s)" "distinct (out s)" "onStack s = set (stack s)" "seen s \<subseteq> set (nodes g)"
    "sorted_wrt (\<lambda>x y. idx s y < idx s x) (stack s)" "x \<in> seen s \<Longrightarrow> idx s x < crtIndex s"
  using assms unfolding stack_inv_def by blast+

lemma gray_invD:
  assumes "gray_inv g gr s"
  shows "gr \<subseteq> set (stack s)" "x \<in> seen s \<Longrightarrow> x \<notin> gr \<Longrightarrow> (x, y) \<in> edge_rel g \<Longrightarrow> y \<in> seen s"
    "x \<in> set (stack s) \<Longrightarrow> \<exists>y\<in>gr. (x, y) \<in> paths g \<and> idx s y \<le> idx s x"
    "y \<in> gr \<Longrightarrow> x \<in> set (stack s) \<Longrightarrow> idx s y \<le> idx s x \<Longrightarrow> (y, x) \<in> paths g"
  using assms unfolding gray_inv_def by blast+

lemma link_invD:
  assumes "link_inv g s" "x \<in> set (stack s)"
  shows "low s x \<le> idx s x" "\<exists>z\<in>set (stack s). idx s z = low s x \<and> (x, z) \<in> paths g"
  using assms unfolding link_inv_def by blast+

lemma scc_invD:
  assumes "scc_inv g gr s"
  shows "stack_inv g s" "link_inv g s" "gray_inv g gr s" "out_inv g s"
  using assms unfolding scc_inv_def by blast+

text \<open>What a call leaves as it was: the state is extended by new nodes, and only the low links of
  the nodes \<open>X\<close> may have become smaller.\<close>

definition ext :: "'a set \<Rightarrow> 'a scc_state \<Rightarrow> 'a scc_state \<Rightarrow> bool" where
  "ext X s s' \<longleftrightarrow>
     index s \<subseteq>\<^sub>m index s' \<and> crtIndex s \<le> crtIndex s' \<and>
     (\<exists>l. stack s' = l @ stack s \<and> set l \<inter> seen s = {}) \<and>
     (\<exists>r. out s' = out s @ r \<and> set r \<inter> seen s = {}) \<and>
     (\<forall>x\<in>seen s. low s' x \<le> low s x \<and> (x \<notin> X \<longrightarrow> low s' x = low s x))"

lemma extD:
  assumes "ext X s s'"
  shows "index s \<subseteq>\<^sub>m index s'" "crtIndex s \<le> crtIndex s'" "seen s \<subseteq> seen s'"
    "\<exists>l. stack s' = l @ stack s \<and> set l \<inter> seen s = {}" "\<exists>r. out s' = out s @ r \<and> set r \<inter> seen s = {}"
    "x \<in> seen s \<Longrightarrow> x \<notin> X \<Longrightarrow> low s' x = low s x" "x \<in> seen s \<Longrightarrow> low s' x \<le> low s x"
    "x \<in> seen s \<Longrightarrow> idx s' x = idx s x"
proof -
  show "index s \<subseteq>\<^sub>m index s'" "crtIndex s \<le> crtIndex s'"
    "\<exists>l. stack s' = l @ stack s \<and> set l \<inter> seen s = {}" "\<exists>r. out s' = out s @ r \<and> set r \<inter> seen s = {}"
    "x \<in> seen s \<Longrightarrow> x \<notin> X \<Longrightarrow> low s' x = low s x" "x \<in> seen s \<Longrightarrow> low s' x \<le> low s x"
    using assms unfolding ext_def by blast+
  then show "seen s \<subseteq> seen s'" by (simp add: map_le_implies_dom_le)
  show "x \<in> seen s \<Longrightarrow> idx s' x = idx s x"
    using \<open>index s \<subseteq>\<^sub>m index s'\<close> by (simp add: get_num_def map_le_def)
qed

lemma ext_refl: "ext X s s"
  by (simp add: ext_def)

lemma append_chain:
  assumes "\<exists>l. b = l @ a \<and> set l \<inter> A = {}" "\<exists>l. c = l @ b \<and> set l \<inter> B = {}" "A \<subseteq> B"
  shows "\<exists>l. c = l @ a \<and> set l \<inter> A = {}"
proof -
  from assms(1,2) obtain l m where "b = l @ a" "c = m @ b" "set l \<inter> A = {}" "set m \<inter> B = {}" by blast
  then have "c = (m @ l) @ a" "set (m @ l) \<inter> A = {}" using assms(3) by (simp, unfold set_append, blast)
  then show ?thesis by blast
qed

lemma append_chain_back:
  assumes "\<exists>r. b = a @ r \<and> set r \<inter> A = {}" "\<exists>r. c = b @ r \<and> set r \<inter> B = {}" "A \<subseteq> B"
  shows "\<exists>r. c = a @ r \<and> set r \<inter> A = {}"
proof -
  from assms(1,2) obtain l m where "b = a @ l" "c = b @ m" "set l \<inter> A = {}" "set m \<inter> B = {}" by blast
  then have "c = a @ (l @ m)" "set (l @ m) \<inter> A = {}" using assms(3) by (simp, unfold set_append, blast)
  then show ?thesis by blast
qed

lemma ext_trans:
  assumes "ext X s s1" "ext Y s1 s2" "X \<inter> seen s \<subseteq> Z" "Y \<inter> seen s \<subseteq> Z"
  shows "ext Z s s2"
proof -
  note a = extD [OF assms(1)] and b = extD [OF assms(2)]
  have "low s2 x \<le> low s x \<and> (x \<notin> Z \<longrightarrow> low s2 x = low s x)" if x: "x \<in> seen s" for x
  proof
    have x1: "x \<in> seen s1" using x a(3) by blast
    show "low s2 x \<le> low s x" using a(7) [OF x] b(7) [OF x1] by simp
    show "x \<notin> Z \<longrightarrow> low s2 x = low s x"
    proof
      assume "x \<notin> Z"
      then have "x \<notin> X" "x \<notin> Y" using assms(3,4) x by blast+
      then show "low s2 x = low s x" using a(6) [OF x] b(6) [OF x1] by simp
    qed
  qed
  moreover have "index s \<subseteq>\<^sub>m index s2" using a(1) b(1) by (rule map_le_trans)
  moreover have "crtIndex s \<le> crtIndex s2" using a(2) b(2) by simp
  ultimately show ?thesis
    unfolding ext_def using append_chain [OF a(4) b(4) a(3)] append_chain_back [OF a(5) b(5) a(3)] by blast
qed

text \<open>A node found by a call lies on a cycle that the call must report.\<close>

definition cycle_found :: "'a call_graph \<Rightarrow> 'a scc_state \<Rightarrow> 'a scc_state \<Rightarrow> bool" where
  "cycle_found g s s' \<longleftrightarrow>
     (\<exists>x\<in>seen s' - seen s. (x, x) \<in> edge_rel g \<or>
        x \<in> set (out s') \<and> (\<exists>y. y \<noteq> x \<and> (x, y) \<in> paths g \<and> (y, x) \<in> paths g))"

lemma cycle_found_refl: "\<not> cycle_found g s s"
  by (simp add: cycle_found_def)

lemma cycle_found_trans:
  assumes "ext X s s1" "ext Y s1 s2"
  shows "cycle_found g s s2 \<longleftrightarrow> cycle_found g s s1 \<or> cycle_found g s1 s2"
proof -
  note a = extD [OF assms(1)] and b = extD [OF assms(2)]
  have "x \<in> set (out s2) \<longleftrightarrow> x \<in> set (out s1)" if "x \<in> seen s1" for x
    using that b(5) by auto
  moreover have "seen s2 - seen s = (seen s1 - seen s) \<union> (seen s2 - seen s1)" using a(3) b(3) by blast
  ultimately show ?thesis unfolding cycle_found_def by blast
qed

section \<open>Setting a low link\<close>

lemma get_num_upd [simp]: "get_num (m(k \<mapsto> v)) x = (if x = k then v else get_num m x)"
  by (simp add: get_num_def)

lemma setLowLink_simps [simp]:
  "index (setLowLink v w s) = index s" "stack (setLowLink v w s) = stack s" "out (setLowLink v w s) = out s"
  "onStack (setLowLink v w s) = onStack s" "crtIndex (setLowLink v w s) = crtIndex s" "graph (setLowLink v w s) = graph s"
  "low (setLowLink v w s) x = (if x = v then min (low s v) (low s w) else low s x)"
  by (simp_all add: setLowLink_def Let_def)

lemma ext_setLowLink: "ext {v} s (setLowLink v w s)"
  by (auto simp: ext_def)

lemma inv_setLowLink:
  assumes "scc_inv g gr s" "v \<in> set (stack s)" "w \<in> set (stack s)" "(v, w) \<in> paths g"
  shows "scc_inv g gr (setLowLink v w s)"
proof -
  note i = scc_invD [OF assms(1)]
  obtain zv zw where z: "zv \<in> set (stack s)" "idx s zv = low s v" "(v, zv) \<in> paths g"
    "zw \<in> set (stack s)" "idx s zw = low s w" "(w, zw) \<in> paths g"
    using link_invD(2) [OF i(2) assms(2)] link_invD(2) [OF i(2) assms(3)] by blast
  have "(v, zw) \<in> paths g" using assms(4) z(6) by simp
  then have "\<exists>z\<in>set (stack s). idx s z = min (low s v) (low s w) \<and> (v, z) \<in> paths g"
    using z by (cases "low s v \<le> low s w") (auto simp: min_def)
  moreover have "min (low s v) (low s w) \<le> idx s v" using link_invD(1) [OF i(2) assms(2)] by simp
  ultimately have "link_inv g (setLowLink v w s)" using i(2) by (simp add: link_inv_def)
  moreover have "stack_inv g (setLowLink v w s) = stack_inv g s" "gray_inv g gr (setLowLink v w s) = gray_inv g gr s"
    "out_inv g (setLowLink v w s) = out_inv g s"
    unfolding stack_inv_def gray_inv_def out_inv_def setLowLink_simps by (rule refl)+
  ultimately show ?thesis using i by (simp only: scc_inv_def simp_thms)
qed

section \<open>Entering a node\<close>

lemma enter_simps:
  assumes "index s v = None"
  shows "index (enter v s) = (index s)(v \<mapsto> crtIndex s)" "stack (enter v s) = v # stack s" "out (enter v s) = out s"
    "onStack (enter v s) = insert v (onStack s)" "crtIndex (enter v s) = Suc (crtIndex s)" "graph (enter v s) = graph s"
    "lowlink (enter v s) = (lowlink s)(v \<mapsto> crtIndex s)"
  using assms by (simp_all add: enter_def push_def Let_def)

lemma strongConnect_enter:
  assumes "wf_graph g" "graph s = g" "v \<in> set (nodes g)" "index s v = None"
  shows "strongConnect (Suc k) v s =
    Option.bind (visit_callees k v (outs g v) False (enter v s))
      (\<lambda>(found, s). if low s v = idx s v then pop_component v (stack s) found s else Some (found, s))"
proof -
  have "out_edges g v \<noteq> None" using wf_deref(1) [OF assms(1,3)] by (cases "out_edges g v") (auto simp: deref_def)
  then have "getCallees (graph (enter v s)) v = (Some (outs g v), g)"
    using wf_deref(1) [OF assms(1,3)] assms(2) by (auto simp: getCallees_def index_map_def enter_simps [OF assms(4)])
  moreover have "(enter v s)\<lparr>graph := g\<rparr> = enter v s" using enter_simps(6) [OF assms(4)] assms(2) by simp
  ultimately show ?thesis by (simp add: Let_def)
qed

lemma enter_inv:
  assumes "scc_inv g gr s" "v \<in> set (nodes g)" "index s v = None" "\<And>y. y \<in> gr \<Longrightarrow> (y, v) \<in> paths g"
  shows "scc_inv g (insert v gr) (enter v s)" "ext {} s (enter v s)"
proof -
  note i = scc_invD [OF assms(1)] and e = enter_simps [OF assms(3)]
  note st = stack_invD [OF i(1)] and gi = gray_invD [OF i(3)]
  have v: "v \<notin> seen s" using assms(3) by blast
  then have vs: "v \<notin> set (stack s)" "v \<notin> set (out s)" "v \<notin> gr" using st(2) gi(1) by blast+
  have idx: "idx (enter v s) x = (if x = v then crtIndex s else idx s x)" for x by (simp add: e)
  have low: "low (enter v s) x = (if x = v then crtIndex s else low s x)" for x by (simp add: e)
  have lt: "idx s x < crtIndex s" if "x \<in> set (stack s)" for x using st(2,9) that by blast
  have seen: "seen (enter v s) = insert v (seen s)" by (simp add: e)
  have ne: "x \<in> set (stack s) \<Longrightarrow> x \<noteq> v" for x using vs(1) by blast
  have "sorted_wrt (\<lambda>x y. idx (enter v s) y < idx (enter v s) x) (stack s)"
    using st(8) by (rule sorted_wrt_mono_rel [rotated]) (use ne idx in simp)
  moreover have "\<forall>x\<in>insert v (seen s). idx (enter v s) x < Suc (crtIndex s)"
    using st(9) by (auto simp: idx less_Suc_eq)
  ultimately have "stack_inv g (enter v s)"
    unfolding stack_inv_def seen using st vs assms(2) lt ne by (simp add: e(2-6) idx del: dom_fun_upd)
  moreover have "link_inv g (enter v s)"
    unfolding link_inv_def
  proof
    fix x assume x: "x \<in> set (stack (enter v s))"
    show "low (enter v s) x \<le> idx (enter v s) x \<and>
        (\<exists>z\<in>set (stack (enter v s)). idx (enter v s) z = low (enter v s) x \<and> (x, z) \<in> paths g)"
    proof (cases "x = v")
      case True
      then show ?thesis by (simp add: idx low e(2))
    next
      case False
      then have "x \<in> set (stack s)" using x by (simp add: e(2))
      from link_invD [OF i(2) this] ne False show ?thesis by (auto simp: idx low e(2))
    qed
  qed
  moreover have "gray_inv g (insert v gr) (enter v s)"
    unfolding gray_inv_def
  proof (intro conjI ballI impI)
    show "insert v gr \<subseteq> set (stack (enter v s))" using gi(1) by (auto simp: e(2))
    show "edge_rel g `` {x} \<subseteq> seen (enter v s)" if "x \<in> seen (enter v s) - insert v gr" for x
      using that gi(2) [of x] unfolding seen by blast
    show "\<exists>y\<in>insert v gr. (x, y) \<in> paths g \<and> idx (enter v s) y \<le> idx (enter v s) x" if "x \<in> set (stack (enter v s))" for x
    proof (cases "x = v")
      case False
      then have "x \<in> set (stack s)" using that by (simp add: e(2))
      with gi(3) [OF this] gi(1) ne False show ?thesis by (fastforce simp: idx)
    qed auto
    show "(y, x) \<in> paths g" if "y \<in> insert v gr" "x \<in> set (stack (enter v s))" "idx (enter v s) y \<le> idx (enter v s) x" for x y
    proof (cases "x = v")
      case True
      then show ?thesis using that(1) assms(4) by auto
    next
      case False
      then have xs: "x \<in> set (stack s)" using that(2) by (simp add: e(2))
      then have "y \<noteq> v" using that(3) lt [OF xs] False by (auto simp: idx)
      then show ?thesis using gi(4) [OF _ xs] that(1,3) False by (simp add: idx)
    qed
  qed
  moreover have "out_inv g (enter v s)" using i(4) by (simp add: out_inv_def e(3))
  ultimately show "scc_inv g (insert v gr) (enter v s)" by (simp add: scc_inv_def)
  show "ext {} s (enter v s)"
    using v by (auto simp: ext_def e get_num_def map_le_def)
qed

section \<open>The callees of a node\<close>

text \<open>What a call of \<open>strongConnect\<close> for a new node does.\<close>

definition sc_post :: "'a call_graph \<Rightarrow> 'a set \<Rightarrow> 'a \<Rightarrow> 'a scc_state \<Rightarrow> bool \<Rightarrow> 'a scc_state \<Rightarrow> bool" where
  "sc_post g gr v s b s' \<longleftrightarrow>
     scc_inv g gr s' \<and> ext {} s s' \<and> v \<in> seen s' \<and> idx s' v = crtIndex s \<and> (b \<longleftrightarrow> cycle_found g s s') \<and>
     (\<forall>x\<in>seen s' - seen s. (v, x) \<in> paths g) \<and> (v \<notin> set (stack s') \<longrightarrow> low s' v = idx s' v) \<and>
     (\<forall>x\<in>set (stack s') - set (stack s). \<forall>y\<in>set (stack s). (x, y) \<in> edge_rel g \<longrightarrow> low s' v \<le> idx s y)"

definition sc_ok :: "'a call_graph \<Rightarrow> nat \<Rightarrow> bool" where
  "sc_ok g k \<longleftrightarrow>
     (\<forall>v s gr. scc_inv g gr s \<longrightarrow> v \<in> set (nodes g) \<longrightarrow> index s v = None \<longrightarrow> (\<forall>y\<in>gr. (y, v) \<in> paths g) \<longrightarrow>
        card (set (nodes g) - seen s) \<le> k \<longrightarrow>
        (\<exists>b s'. strongConnect k v s = Some (b, s') \<and> sc_post g gr v s b s'))"

text \<open>The loop over the callees of the gray node \<open>v\<close>, above the rest \<open>st0\<close> of the stack.\<close>

definition visit_post ::
  "'a call_graph \<Rightarrow> 'a set \<Rightarrow> 'a \<Rightarrow> 'a list \<Rightarrow> 'a list \<Rightarrow> bool \<Rightarrow> 'a scc_state \<Rightarrow> bool \<Rightarrow> 'a scc_state \<Rightarrow> bool" where
  "visit_post g gr v ns st0 found s found' s' \<longleftrightarrow>
     scc_inv g gr s' \<and> ext {v} s s' \<and> (found' \<longleftrightarrow> found \<or> cycle_found g s s' \<or> v \<in> set ns) \<and>
     (\<forall>x\<in>seen s' - seen s. (v, x) \<in> paths g) \<and> set ns \<subseteq> seen s' \<and>
     (\<forall>y\<in>set ns \<inter> set st0. low s' v \<le> idx s y) \<and>
     (\<forall>x\<in>set (stack s') - set (stack s). \<forall>y\<in>set st0. (x, y) \<in> edge_rel g \<longrightarrow> low s' v \<le> idx s y)"

lemma visit_one:
  assumes "wf_graph g" "sc_ok g k" "scc_inv g gr s" "stack s = l @ v # st0" "v \<in> gr" "gr \<inter> set l = {}"
    "w \<in> set (outs g v)" "card (set (nodes g) - seen s) \<le> k"
  shows "\<exists>found1 s1. visit_callees k v (w # ns) found s = visit_callees k v ns found1 s1 \<and>
    visit_post g gr v [w] st0 found s found1 s1"
proof -
  note i = scc_invD [OF assms(3)]
  note st = stack_invD [OF i(1)] and gi = gray_invD [OF i(3)]
  have vs: "v \<in> set (stack s)" "v \<in> seen s" using assms(4) st(2) by auto
  have vw: "(v, w) \<in> edge_rel g" using assms(7) by (simp add: edge_rel_def)
  then have vwp: "(v, w) \<in> paths g" by blast
  have lowv: "low s v \<le> idx s v" "idx s v < crtIndex s" using link_invD(1) [OF i(2) vs(1)] st(9) [OF vs(2)] by auto
  have st0: "set st0 \<subseteq> set (stack s)" "set st0 \<subseteq> seen s" "v \<notin> set st0" using assms(4) st(2,4) by auto
  show ?thesis
  proof (cases "index s w = None")
    case white: True
    have gw: "(y, w) \<in> paths g" if "y \<in> gr" for y
    proof -
      have "y \<in> insert v (set st0)" using that gi(1) assms(4,6) by auto
      then have "idx s y \<le> idx s v" using st(8) assms(4) by (auto simp: sorted_wrt_append)
      then have "(y, v) \<in> paths g" using gi(4) [OF that vs(1)] by blast
      from this vw show ?thesis by (rule rtrancl_into_rtrancl)
    qed
    have "w \<in> set (nodes g)" using edge_rel_nodes [OF assms(1) vw] by blast
    with assms(2,3,8) white gw obtain b s' where s': "strongConnect k w s = Some (b, s')" "sc_post g gr w s b s'"
      unfolding sc_ok_def by blast
    note p = s'(2) [unfolded sc_post_def]
    have pi: "scc_inv g gr s'" and pe: "ext {} s s'" and pb: "b \<longleftrightarrow> cycle_found g s s'" and pw: "w \<in> seen s'"
      and pl: "w \<notin> set (stack s') \<Longrightarrow> low s' w = idx s' w" "idx s' w = crtIndex s"
      and pr: "\<And>x. x \<in> seen s' - seen s \<Longrightarrow> (w, x) \<in> paths g"
      and ps: "\<And>x y. x \<in> set (stack s') - set (stack s) \<Longrightarrow> y \<in> set (stack s) \<Longrightarrow> (x, y) \<in> edge_rel g \<Longrightarrow> low s' w \<le> idx s y"
      using p by blast+
    note e = extD [OF pe]
    define s1 where "s1 = setLowLink v w s'"
    have low': "low s' v = low s v" using e(6) vs(2) by simp
    have inv: "scc_inv g gr s1"
    proof (cases "w \<in> set (stack s')")
      case True
      have "v \<in> set (stack s')" using e(4) vs(1) by auto
      then show ?thesis unfolding s1_def by (rule inv_setLowLink [OF pi _ True vwp])
    next
      case False
      then have "\<not> low s' w < low s' v" using pl lowv low' by simp
      then have "s1 = s'" by (simp add: s1_def setLowLink_def Let_def)
      with pi show ?thesis by simp
    qed
    have ext: "ext {v} s s1" unfolding s1_def by (rule ext_trans [OF pe ext_setLowLink]) auto
    have wv: "w \<noteq> v" "w \<notin> set st0" using white vs(2) st0(2) by auto
    have "cycle_found g s s1 = cycle_found g s s'" by (simp add: cycle_found_def s1_def)
    moreover have "(v, x) \<in> paths g" if "x \<in> seen s1 - seen s" for x
      using pr [of x] that vwp by (simp add: s1_def)
    moreover have "low s1 v \<le> idx s y" if "x \<in> set (stack s1) - set (stack s)" "y \<in> set st0" "(x, y) \<in> edge_rel g" for x y
      using ps [of x y] that st0(1) by (auto simp: s1_def)
    ultimately have "visit_post g gr v [w] st0 found s (found \<or> b) s1"
      using inv ext pb pw wv unfolding visit_post_def by (simp add: s1_def)
    moreover have "visit_callees k v (w # ns) found s = visit_callees k v ns (found \<or> b) s1"
      using white s'(1) by (simp add: unknown_def s1_def)
    ultimately show ?thesis by blast
  next
    case known: False
    show ?thesis
    proof (cases "w \<in> set (stack s)")
      case True
      define s1 where "s1 = setLowLink v w s"
      have "low s w \<le> idx s w" using link_invD(1) [OF i(2) True] .
      then have "visit_post g gr v [w] st0 found s (if w = v then True else found) s1"
        using inv_setLowLink [OF assms(3) vs(1) True vwp] ext_setLowLink [of v s w] known
        by (auto simp: visit_post_def s1_def cycle_found_def min_def)
      moreover have "visit_callees k v (w # ns) found s = visit_callees k v ns (if w = v then True else found) s1"
        using known True st(6) by (auto simp: unknown_def s1_def)
      ultimately show ?thesis by blast
    next
      case False
      have "visit_post g gr v [w] st0 found s found s"
        using assms(3) ext_refl known False vs(1) st0(1) by (auto simp: visit_post_def cycle_found_refl)
      moreover have "visit_callees k v (w # ns) found s = visit_callees k v ns found s"
        using known False st(6) by (auto simp: unknown_def)
      ultimately show ?thesis by blast
    qed
  qed
qed

lemma visit_all:
  assumes "wf_graph g" "sc_ok g k" "scc_inv g gr s" "stack s = l @ v # st0" "v \<in> gr" "gr \<inter> set l = {}"
    "set ns \<subseteq> set (outs g v)" "card (set (nodes g) - seen s) \<le> k"
  shows "\<exists>found' s'. visit_callees k v ns found s = Some (found', s') \<and> visit_post g gr v ns st0 found s found' s'"
  using assms(3-)
proof (induction ns arbitrary: found s l)
  case Nil
  then show ?case using ext_refl by (fastforce simp: visit_post_def cycle_found_refl)
next
  case (Cons w ns)
  from Cons.prems(5) have w: "w \<in> set (outs g v)" by simp
  from visit_one [OF assms(1,2) Cons.prems(1-4) w Cons.prems(6)] obtain found1 s1 where
    s1: "visit_callees k v (w # ns) found s = visit_callees k v ns found1 s1"
      "visit_post g gr v [w] st0 found s found1 s1" by blast
  have inv1: "scc_inv g gr s1" and ext1: "ext {v} s s1" and f1: "found1 \<longleftrightarrow> found \<or> cycle_found g s s1 \<or> v = w"
    and r1: "\<And>x. x \<in> seen s1 - seen s \<Longrightarrow> (v, x) \<in> paths g" and w1: "w \<in> seen s1"
    and l1: "w \<in> set st0 \<Longrightarrow> low s1 v \<le> idx s w"
    and e1: "\<And>x y. x \<in> set (stack s1) - set (stack s) \<Longrightarrow> y \<in> set st0 \<Longrightarrow> (x, y) \<in> edge_rel g \<Longrightarrow> low s1 v \<le> idx s y"
    using s1(2) unfolding visit_post_def by auto
  note a = extD [OF ext1]
  note st = stack_invD [OF scc_invD(1) [OF Cons.prems(1)]]
  have v: "v \<in> seen s" "set st0 \<subseteq> seen s" using Cons.prems(2) st(2) by auto
  obtain l' where l': "stack s1 = l' @ stack s" "set l' \<inter> seen s = {}" using a(4) by blast
  have "gr \<subseteq> seen s" using gray_invD(1) [OF scc_invD(3) [OF Cons.prems(1)]] st(2) by blast
  then have "gr \<inter> set (l' @ l) = {}" using l'(2) Cons.prems(4) unfolding set_append by blast
  moreover have "stack s1 = (l' @ l) @ v # st0" using l'(1) Cons.prems(2) by simp
  moreover have "card (set (nodes g) - seen s1) \<le> k"
    using Cons.prems(6) card_mono [of "set (nodes g) - seen s" "set (nodes g) - seen s1"] a(3) by (simp add: Diff_mono)
  ultimately obtain found' s' where s': "visit_callees k v ns found1 s1 = Some (found', s')"
    "visit_post g gr v ns st0 found1 s1 found' s'"
    using Cons.IH [OF inv1 _ Cons.prems(3), of "l' @ l" found1] Cons.prems(5) by auto
  have inv2: "scc_inv g gr s'" and ext2: "ext {v} s1 s'" and f2: "found' \<longleftrightarrow> found1 \<or> cycle_found g s1 s' \<or> v \<in> set ns"
    and r2: "\<And>x. x \<in> seen s' - seen s1 \<Longrightarrow> (v, x) \<in> paths g" and w2: "set ns \<subseteq> seen s'"
    and l2: "\<And>y. y \<in> set ns \<inter> set st0 \<Longrightarrow> low s' v \<le> idx s1 y"
    and e2: "\<And>x y. x \<in> set (stack s') - set (stack s1) \<Longrightarrow> y \<in> set st0 \<Longrightarrow> (x, y) \<in> edge_rel g \<Longrightarrow> low s' v \<le> idx s1 y"
    using s'(2) unfolding visit_post_def by blast+
  note b = extD [OF ext2]
  have idx: "idx s1 y = idx s y" if "y \<in> set st0" for y using a(8) that v(2) by blast
  have low: "low s' v \<le> low s1 v" using b(7) v(1) a(3) by blast
  have "visit_post g gr v (w # ns) st0 found s found' s'"
    unfolding visit_post_def
  proof (intro conjI ballI impI)
    show "scc_inv g gr s'" by (rule inv2)
    show "ext {v} s s'" by (rule ext_trans [OF ext1 ext2]) auto
    show "found' \<longleftrightarrow> found \<or> cycle_found g s s' \<or> v \<in> set (w # ns)"
      using f1 f2 cycle_found_trans [OF ext1 ext2] by auto
    show "(v, x) \<in> paths g" if "x \<in> seen s' - seen s" for x using that r1 [of x] r2 [of x] by blast
    show "set (w # ns) \<subseteq> seen s'" using w1 w2 b(3) by auto
    show "low s' v \<le> idx s y" if "y \<in> set (w # ns) \<inter> set st0" for y
      using that l1 l2 [of y] idx [of y] low by (cases "y = w") auto
    show "low s' v \<le> idx s y" if "x \<in> set (stack s') - set (stack s)" "y \<in> set st0" "(x, y) \<in> edge_rel g" for x y
      using that e1 [of x y] e2 [of x y] idx [of y] low by (cases "x \<in> set (stack s1)") auto
  qed
  with s1(1) s'(1) show ?case by auto
qed

section \<open>Leaving a node\<close>

lemma pop_component_eq:
  assumes "v \<notin> set l"
  shows "pop_component v (l @ v # st0) found s =
    Some (found \<or> l \<noteq> [], s\<lparr>stack := st0, onStack := onStack s - set (l @ [v]), out := out s @ l @ [v]\<rparr>)"
  using assms
proof (induction l arbitrary: found s)
  case Nil
  then show ?case by (simp add: Let_def)
next
  case (Cons x l)
  have "onStack s - {x} - insert v (set l) = onStack s - insert v (insert x (set l))" by blast
  moreover have "x \<noteq> v" "v \<notin> set l" using Cons.prems by auto
  ultimately show ?case using Cons.IH by (simp add: Let_def insert_commute)
qed

text \<open>The state when the callees of \<open>v\<close> have been visited.\<close>

lemma leave_unpopped:
  assumes "scc_inv g (insert v gr) s" "stack s = l @ v # st0" "gr \<subseteq> set st0" "edge_rel g `` {v} \<subseteq> seen s"
    "low s v \<noteq> idx s v"
  shows "scc_inv g gr s"
proof -
  note i = scc_invD [OF assms(1)]
  note st = stack_invD [OF i(1)] and gi = gray_invD [OF i(3)]
  have v: "v \<in> set (stack s)" using assms(2) by simp
  from link_invD [OF i(2) v] obtain z where z: "z \<in> set (stack s)" "idx s z < idx s v" "(v, z) \<in> paths g"
    using assms(5) by (metis le_neq_implies_less)
  from gi(3) [OF z(1)] obtain y where y: "y \<in> insert v gr" "(z, y) \<in> paths g" "idx s y \<le> idx s z" by blast
  then have y': "y \<in> gr" "idx s y \<le> idx s v" "(v, y) \<in> paths g" using z by auto
  have "gray_inv g gr s"
    unfolding gray_inv_def
  proof (intro conjI ballI impI)
    show "gr \<subseteq> set (stack s)" using gi(1) by blast
    show "edge_rel g `` {x} \<subseteq> seen s" if "x \<in> seen s - gr" for x
      using that gi(2) [of x] assms(4) by (cases "x = v") auto
    show "\<exists>y\<in>gr. (x, y) \<in> paths g \<and> idx s y \<le> idx s x" if x: "x \<in> set (stack s)" for x
    proof -
      from gi(3) [OF x] obtain u where u: "u \<in> insert v gr" "(x, u) \<in> paths g" "idx s u \<le> idx s x" by blast
      show ?thesis
      proof (cases "u = v")
        case True
        then have "(x, y) \<in> paths g" "idx s y \<le> idx s x" using u y' by (auto intro: rtrancl_trans)
        with y'(1) show ?thesis by blast
      next
        case False
        with u show ?thesis by blast
      qed
    qed
    show "(y, x) \<in> paths g" if "y \<in> gr" "x \<in> set (stack s)" "idx s y \<le> idx s x" for x y
      using gi(4) that by blast
  qed
  with i show ?thesis by (simp add: scc_inv_def)
qed

lemma leave_popped:
  assumes "scc_inv g (insert v gr) s" "stack s = l @ v # st0" "gr \<subseteq> set st0" "edge_rel g `` {v} \<subseteq> seen s"
    "low s v = idx s v" "\<And>x y. x \<in> set (l @ [v]) \<Longrightarrow> y \<in> set st0 \<Longrightarrow> (x, y) \<in> edge_rel g \<Longrightarrow> low s v \<le> idx s y"
    and s': "s' = s\<lparr>stack := st0, onStack := onStack s - set (l @ [v]), out := out s @ l @ [v]\<rparr>"
  shows "scc_inv g gr s'" "is_scc g (set (l @ [v]))"
proof -
  note i = scc_invD [OF assms(1)]
  note st = stack_invD [OF i(1)] and gi = gray_invD [OF i(3)]
  define C where "C = set (l @ [v])"
  have stack: "set (stack s) = C \<union> set st0" using assms(2) by (auto simp: C_def)
  have dis: "C \<inter> set st0 = {}" "v \<notin> set l" "distinct st0" "distinct (l @ [v])" using st(4) assms(2) by (auto simp: C_def)
  have below: "idx s y < idx s v" if "y \<in> set st0" for y
    using st(8) assms(2) that by (auto simp: sorted_wrt_append)
  have above: "idx s v \<le> idx s x" if "x \<in> C" for x
    using st(8) assms(2) that by (auto simp: sorted_wrt_append C_def intro: less_imp_le)
  have oc: "edge_rel g `` set (out s) \<subseteq> set (out s)" using i(4) by (simp add: out_inv_def)
  have closed: "y \<in> C \<union> set (out s)" if "x \<in> C" "(x, y) \<in> edge_rel g" for x y
  proof -
    have xs: "x \<in> seen s" using that(1) stack st(2) by blast
    have "y \<in> seen s"
    proof (cases "x = v")
      case True
      then show ?thesis using that(2) assms(4) by blast
    next
      case False
      then have "x \<notin> insert v gr" using that(1) assms(3) dis(1) by blast
      then show ?thesis using gi(2) [OF xs _ that(2)] by blast
    qed
    moreover have "y \<notin> set st0"
    proof
      assume y: "y \<in> set st0"
      then have "low s v \<le> idx s y" using assms(6) [of x y] that C_def by blast
      then show False using below [OF y] assms(5) by simp
    qed
    ultimately show ?thesis using st(2) stack by blast
  qed
  have closed2: "y \<in> C \<union> set (out s)" if "(x, y) \<in> paths g" "x \<in> C \<union> set (out s)" for x y
    using closed_rtrancl [OF that, of] closed oc by blast
  have vC: "v \<in> C" by (simp add: C_def)
  have vx: "(v, x) \<in> paths g" if "x \<in> C" for x
    using gi(4) [of v x] above [OF that] stack that by blast
  have xv: "(x, v) \<in> paths g" if x: "x \<in> C" for x
  proof -
    from gi(3) [of x] stack x obtain y where y: "y \<in> insert v gr" "(x, y) \<in> paths g" by blast
    from closed2 [OF y(2)] x have "y \<in> C \<union> set (out s)" by blast
    moreover have "y \<notin> set (out s)" using y(1) gi(1) st(3) by blast
    ultimately have "y = v" using y(1) assms(3) dis(1) by blast
    with y(2) show ?thesis by simp
  qed
  have "is_scc g C"
    unfolding is_scc_def
  proof (intro conjI ballI)
    show "C \<noteq> {}" using vC by blast
    fix x assume x: "x \<in> C"
    show "C = {y. (x, y) \<in> paths g \<and> (y, x) \<in> paths g}"
    proof
      show "C \<subseteq> {y. (x, y) \<in> paths g \<and> (y, x) \<in> paths g}"
        using xv vx x by (auto intro: rtrancl_trans)
      show "{y. (x, y) \<in> paths g \<and> (y, x) \<in> paths g} \<subseteq> C"
      proof
        fix y assume y: "y \<in> {y. (x, y) \<in> paths g \<and> (y, x) \<in> paths g}"
        have "y \<notin> set (out s)"
        proof
          assume "y \<in> set (out s)"
          then have "x \<in> set (out s)" using y closed_rtrancl [of y x "edge_rel g" "set (out s)"] oc by blast
          then show False using x stack st(3) by blast
        qed
        then show "y \<in> C" using closed2 [of x y] x y by blast
      qed
    qed
  qed
  then show scc: "is_scc g (set (l @ [v]))" by (simp only: C_def)
  have outC: "set (out s') = set (out s) \<union> C" by (auto simp: s' C_def)
  have "stack_inv g s'"
    unfolding stack_inv_def
  proof (intro conjI)
    show "graph s' = g" using st(1) by (simp add: s')
    show "seen s' = set (stack s') \<union> set (out s')" using st(2) stack outC by (auto simp: s')
    show "set (stack s') \<inter> set (out s') = {}" unfolding outC using st(3) stack dis(1) by (auto simp: s')
    show "distinct (stack s')" using dis(3) by (simp add: s')
    have "set (l @ [v]) \<inter> set (out s) = {}" using st(3) stack C_def by blast
    then show "distinct (out s')" using st(5) dis(4) by (auto simp: s')
    have "set (stack s) - C = set st0" using stack dis(1) by blast
    then show "onStack s' = set (stack s')" using st(6) by (simp add: s' C_def)
    show "seen s' \<subseteq> set (nodes g)" using st(7) by (simp add: s')
    show "sorted_wrt (\<lambda>x y. idx s' y < idx s' x) (stack s')" using st(8) assms(2) by (simp add: s' sorted_wrt_append)
    show "\<forall>x\<in>seen s'. idx s' x < crtIndex s'" using st(9) by (simp add: s')
  qed
  moreover have "link_inv g s'"
    unfolding link_inv_def
  proof
    fix x assume "x \<in> set (stack s')"
    then have x: "x \<in> set st0" "x \<in> set (stack s)" using stack by (auto simp: s')
    from link_invD [OF i(2) x(2)] obtain z where z: "low s x \<le> idx s x" "z \<in> set (stack s)" "idx s z = low s x" "(x, z) \<in> paths g" by blast
    have "idx s z < idx s v" using z below [OF x(1)] by simp
    then have "z \<in> set st0" using z(2) stack above [of z] by auto
    with z show "low s' x \<le> idx s' x \<and> (\<exists>z\<in>set (stack s'). idx s' z = low s' x \<and> (x, z) \<in> paths g)"
      by (auto simp: s')
  qed
  moreover have "gray_inv g gr s'"
    unfolding gray_inv_def
  proof (intro conjI ballI impI)
    show "gr \<subseteq> set (stack s')" using assms(3) by (simp add: s')
    show "edge_rel g `` {x} \<subseteq> seen s'" if "x \<in> seen s' - gr" for x
      using that gi(2) [of x] assms(4) by (cases "x = v") (auto simp: s')
    show "\<exists>y\<in>gr. (x, y) \<in> paths g \<and> idx s' y \<le> idx s' x" if "x \<in> set (stack s')" for x
    proof -
      have x: "x \<in> set st0" "x \<in> set (stack s)" using that stack by (auto simp: s')
      from gi(3) [OF x(2)] obtain y where y: "y \<in> insert v gr" "(x, y) \<in> paths g" "idx s y \<le> idx s x" by blast
      then have "y \<noteq> v" using below [OF x(1)] by auto
      with y show ?thesis by (auto simp: s')
    qed
    show "(y, x) \<in> paths g" if "y \<in> gr" "x \<in> set (stack s')" "idx s' y \<le> idx s' x" for x y
      using gi(4) [of y x] that stack by (simp add: s')
  qed
  moreover have "out_inv g s'"
  proof -
    from i(4) obtain cs where cs: "out s = concat cs" "comps_ok g cs" by (auto simp: out_inv_def)
    have "edge_rel g `` set (l @ [v]) \<subseteq> set (concat cs) \<union> set (l @ [v])"
      unfolding cs(1) [symmetric] C_def [symmetric] using closed by blast
    from comps_ok_snoc [OF cs(2) scc this] have "comps_ok g (cs @ [l @ [v]])" .
    moreover have "out s' = concat (cs @ [l @ [v]])" using cs(1) by (simp add: s')
    moreover have "edge_rel g `` set (out s') \<subseteq> set (out s')" unfolding outC using oc closed by blast
    ultimately show ?thesis unfolding out_inv_def by blast
  qed
  ultimately show "scc_inv g gr s'" by (simp add: scc_inv_def)
qed

section \<open>The whole search\<close>

lemma sc_ok_Suc:
  assumes "wf_graph g" "sc_ok g k"
  shows "sc_ok g (Suc k)"
  unfolding sc_ok_def
proof (intro allI impI)
  fix v s gr
  assume inv: "scc_inv g gr s" and v: "v \<in> set (nodes g)" and new: "index s v = None"
    and reach: "\<forall>y\<in>gr. (y, v) \<in> paths g" and k: "card (set (nodes g) - seen s) \<le> Suc k"
  define se where "se = enter v s"
  note e = enter_simps [OF new, folded se_def]
  have inve: "scc_inv g (insert v gr) se" and exte: "ext {} s se"
    using enter_inv [OF inv v new] reach by (auto simp: se_def)
  note st = stack_invD [OF scc_invD(1) [OF inv]]
  note gi = gray_invD [OF scc_invD(3) [OF inv]]
  have vnew: "v \<notin> seen s" using new by blast
  have seene: "seen se = insert v (seen s)" by (simp add: e)
  have "card (set (nodes g) - seen se) < card (set (nodes g) - seen s)"
    by (rule psubset_card_mono) (use v vnew seene in auto)
  then have ke: "card (set (nodes g) - seen se) \<le> k" using k by simp
  have "stack se = [] @ v # stack s" by (simp add: e)
  from visit_all [OF assms inve this _ _ order_refl ke, of False] obtain found s1 where
    s1: "visit_callees k v (outs g v) False se = Some (found, s1)"
      "visit_post g (insert v gr) v (outs g v) (stack s) False se found s1" by auto
  have inv1: "scc_inv g (insert v gr) s1" and ext1: "ext {v} se s1"
    and f1: "found \<longleftrightarrow> cycle_found g se s1 \<or> v \<in> set (outs g v)"
    and r1: "\<And>x. x \<in> seen s1 - seen se \<Longrightarrow> (v, x) \<in> paths g" and w1: "set (outs g v) \<subseteq> seen s1"
    and l1: "\<And>y. y \<in> set (outs g v) \<inter> set (stack s) \<Longrightarrow> low s1 v \<le> idx se y"
    and e1: "\<And>x y. x \<in> set (stack s1) - set (stack se) \<Longrightarrow> y \<in> set (stack s) \<Longrightarrow> (x, y) \<in> edge_rel g \<Longrightarrow> low s1 v \<le> idx se y"
    using s1(2) unfolding visit_post_def by blast+
  note a = extD [OF ext1]
  obtain l where l: "stack s1 = l @ v # stack s" "set l \<inter> seen se = {}" using a(4) e(2) by auto
  have ext: "ext {} s s1" by (rule ext_trans [OF exte ext1]) (use vnew in auto)
  have vl: "v \<notin> set l" using l(2) seene by blast
  have gst: "gr \<subseteq> set (stack s)" by (rule gi(1))
  have ve: "edge_rel g `` {v} \<subseteq> seen s1" using w1 by (auto simp: edge_rel_def)
  have idxv: "idx s1 v = crtIndex s" using a(8) [of v] seene e(1) by simp
  have idxold: "idx se y = idx s y" if "y \<in> set (stack s)" for y using extD(8) [OF exte, of y] that st(2) by blast
  have lows: "low s1 v \<le> idx s y" if "x \<in> set (l @ [v])" "y \<in> set (stack s)" "(x, y) \<in> edge_rel g" for x y
  proof (cases "x = v")
    case True
    then show ?thesis using l1 [of y] that idxold by (simp add: edge_rel_def)
  next
    case False
    then have "x \<in> set (stack s1) - set (stack se)" using that(1) l seene st(2) by (auto simp: e(2))
    then show ?thesis using e1 [of x y] that idxold by simp
  qed
  have reachv: "(v, x) \<in> paths g" if "x \<in> seen s1 - seen s" for x using that r1 [of x] seene by (cases "x = v") auto
  have step: "strongConnect (Suc k) v s =
      (if low s1 v = idx s1 v then pop_component v (stack s1) found s1 else Some (found, s1))"
    using strongConnect_enter [OF assms(1) st(1) v new, of k] s1(1) by (simp add: se_def)
  have seen1: "seen s1 - seen s = insert v (seen s1 - seen se)" using seene vnew a(3) by auto
  have vself: "v \<in> set (outs g v) \<longleftrightarrow> (v, v) \<in> edge_rel g" by (simp add: edge_rel_def)
  show "\<exists>b s'. strongConnect (Suc k) v s = Some (b, s') \<and> sc_post g gr v s b s'"
  proof (cases "low s1 v = idx s1 v")
    case False
    have inv': "scc_inv g gr s1" by (rule leave_unpopped [OF inv1 l(1) gst ve False])
    have vo: "v \<notin> set (out s1)" using stack_invD(3) [OF scc_invD(1) [OF inv1]] l(1) by auto
    have "cycle_found g s s1 \<longleftrightarrow> found"
      unfolding f1 vself cycle_found_def seen1 using vo by blast
    then have "sc_post g gr v s found s1"
      unfolding sc_post_def using inv' ext idxv reachv l(1) seene a(3) lows by (auto simp: Ball_def)
    with step False show ?thesis by auto
  next
    case True
    define s' where "s' = s1\<lparr>stack := stack s, onStack := onStack s1 - set (l @ [v]), out := out s1 @ l @ [v]\<rparr>"
    have lowl: "low s1 v \<le> idx s1 y" if "x \<in> set (l @ [v])" "y \<in> set (stack s)" "(x, y) \<in> edge_rel g" for x y
      using lows [OF that] extD(8) [OF ext, of y] that(2) st(2) by auto
    have lv: "scc_inv g gr s'" "is_scc g (set (l @ [v]))"
      by (rule leave_popped [OF inv1 l(1) gst ve True _ s'_def]; rule lowl; assumption)+
    have pop: "strongConnect (Suc k) v s = Some (found \<or> l \<noteq> [], s')"
      using step True pop_component_eq [OF vl] l(1) by (simp add: s'_def)
    have seen': "seen s' = seen s1" by (simp add: s'_def)
    have ext': "ext {} s s'"
    proof -
      obtain r where r: "out s1 = out s @ r" "set r \<inter> seen s = {}" using extD(5) [OF ext] by blast
      have "set (r @ l @ [v]) \<inter> seen s = {}" using r(2) l(2) seene vnew by auto
      then have "\<exists>r. out s' = out s @ r \<and> set r \<inter> seen s = {}" using r(1) by (intro exI [of _ "r @ l @ [v]"]) (simp add: s'_def)
      then show ?thesis using ext by (auto simp: ext_def s'_def)
    qed
    have cyc: "(found \<or> l \<noteq> []) = cycle_found g s s'"
    proof (cases "l = []")
      case True
      with lv(2) have only: "y = v" if "(v, y) \<in> paths g" "(y, v) \<in> paths g" for y
        using that unfolding is_scc_def by auto
      have outv: "x \<in> set (out s') \<longleftrightarrow> x \<in> set (out s1)" if "x \<in> seen s1 - seen se" for x
        using that \<open>l = []\<close> seene by (auto simp: s'_def)
      have nov: "\<not> (\<exists>y. y \<noteq> v \<and> (v, y) \<in> paths g \<and> (y, v) \<in> paths g)" using only by blast
      have "cycle_found g s s' \<longleftrightarrow> (v, v) \<in> edge_rel g \<or> cycle_found g se s1"
        unfolding cycle_found_def seen' seen1 bex_simps using outv nov by blast
      then show ?thesis unfolding f1 vself using \<open>l = []\<close> by blast
    next
      case False
      then obtain y where y: "y \<in> set l" "y \<noteq> v" using vl by (cases l) auto
      with lv(2) have "(v, y) \<in> paths g" "(y, v) \<in> paths g" unfolding is_scc_def by auto
      moreover have "v \<in> seen s1 - seen s" using seen1 by blast
      moreover have "v \<in> set (out s')" by (simp add: s'_def)
      ultimately have "cycle_found g s s'" unfolding cycle_found_def seen' using y(2) by blast
      with False show ?thesis by simp
    qed
    have "sc_post g gr v s (found \<or> l \<noteq> []) s'"
      unfolding sc_post_def
    proof (intro conjI ballI impI)
      show "scc_inv g gr s'" "ext {} s s'" "(found \<or> l \<noteq> []) = cycle_found g s s'" by (fact lv(1) ext' cyc)+
      show "v \<in> seen s'" using seen' seen1 by blast
      show "idx s' v = crtIndex s" using idxv by (simp add: s'_def)
      show "(v, x) \<in> paths g" if "x \<in> seen s' - seen s" for x using reachv that seen' by blast
      show "low s' v = idx s' v" using True by (simp add: s'_def)
      show "low s' v \<le> idx s y" if "x \<in> set (stack s') - set (stack s)" for x y using that by (simp add: s'_def)
    qed
    with pop show ?thesis by blast
  qed
qed

lemma sc_ok_all: "wf_graph g \<Longrightarrow> sc_ok g k"
proof (induction k)
  case 0
  have "x \<in> seen s" if "card (set (nodes g) - seen s) \<le> 0" "x \<in> set (nodes g)" for x and s :: "'a scc_state"
    using that by (simp add: card_0_eq [OF finite_Diff] del: card_0_eq) blast
  then show ?case unfolding sc_ok_def by blast
next
  case (Suc k)
  then show ?case using sc_ok_Suc by blast
qed

section \<open>Sorting\<close>

lemma scc_init_inv: "scc_inv g {} (scc_init g [])"
  by (simp add: scc_inv_def stack_inv_def link_inv_def gray_inv_def out_inv_def scc_init_def)
    (rule exI [of _ "[]"], simp add: comps_ok_Nil)

lemma stack_empty: "scc_inv g {} s \<Longrightarrow> stack s = []"
  using gray_invD(3) [OF scc_invD(3), of g "{}" s "hd (stack s)"] by (cases "stack s") auto

lemma on_cycle_iff:
  "(x, x) \<in> E\<^sup>+ \<longleftrightarrow> (x, x) \<in> E \<or> (\<exists>y. y \<noteq> x \<and> (x, y) \<in> E\<^sup>* \<and> (y, x) \<in> E\<^sup>*)"
proof
  assume "(x, x) \<in> E\<^sup>+"
  then obtain y where "(x, y) \<in> E" "(y, x) \<in> E\<^sup>*" by (auto dest: tranclD)
  then show "(x, x) \<in> E \<or> (\<exists>y. y \<noteq> x \<and> (x, y) \<in> E\<^sup>* \<and> (y, x) \<in> E\<^sup>*)" by (cases "y = x") auto
next
  assume "(x, x) \<in> E \<or> (\<exists>y. y \<noteq> x \<and> (x, y) \<in> E\<^sup>* \<and> (y, x) \<in> E\<^sup>*)"
  then show "(x, x) \<in> E\<^sup>+" by (auto elim: rtranclE intro: rtrancl_trancl_trancl dest: rtranclD)
qed

lemma depth_enough: "card (set (nodes g) - A) \<le> Suc (graph_size g)"
proof -
  have "card (set (nodes g) - A) \<le> card (set (nodes g))" by (rule card_mono) auto
  also have "\<dots> \<le> length (nodes g)" by (rule card_length)
  finally show ?thesis by (simp add: graph_size_def)
qed

lemma cycle_when_empty:
  assumes "scc_inv g {} s'"
  shows "cycle_found g s s' \<longleftrightarrow> (\<exists>x\<in>seen s' - seen s. (x, x) \<in> (edge_rel g)\<^sup>+)"
proof -
  have "seen s' = set (out s')" using stack_invD(2) [OF scc_invD(1) [OF assms]] stack_empty [OF assms] by simp
  then show ?thesis unfolding cycle_found_def on_cycle_iff by blast
qed

lemma search_one:
  assumes "wf_graph g" "scc_inv g {} s" "v \<in> set (nodes g)" "v \<notin> set (out s)"
  shows "\<exists>b s'. strongConnect (Suc (graph_size g)) v s = Some (b, s') \<and> scc_inv g {} s' \<and> ext {} s s' \<and> v \<in> set (out s') \<and>
    (b \<longleftrightarrow> cycle_found g s s') \<and> (\<forall>x\<in>set (out s') - set (out s). (v, x) \<in> paths g)"
proof -
  have seen: "scc_inv g {} t \<Longrightarrow> seen t = set (out t)" for t
    using stack_invD(2) [OF scc_invD(1), of g "{}" t] stack_empty [of g t] by simp
  have "index s v = None" using assms(4) seen [OF assms(2)] by blast
  with sc_ok_all [OF assms(1)] assms(2,3) depth_enough [of g "seen s"]
  obtain b s' where s': "strongConnect (Suc (graph_size g)) v s = Some (b, s')" "sc_post g {} v s b s'"
    unfolding sc_ok_def by blast
  from s'(2) [unfolded sc_post_def]
  have p: "scc_inv g {} s'" "ext {} s s'" "v \<in> seen s'" "b \<longleftrightarrow> cycle_found g s s'"
    "\<forall>x\<in>seen s' - seen s. (v, x) \<in> paths g" by blast+
  have "v \<in> set (out s')" "\<forall>x\<in>set (out s') - set (out s). (v, x) \<in> paths g"
    using p(3,5) unfolding seen [OF p(1)] seen [OF assms(2)] by blast+
  with s'(1) p(1,2,4) show ?thesis by blast
qed

lemma sort_from_ok:
  assumes "wf_graph g" "scc_inv g {} s" "set ns \<subseteq> set (nodes g)"
  shows "\<exists>b s'. sort_from (Suc (graph_size g)) ns c s = Some (b, s') \<and> scc_inv g {} s' \<and> ext {} s s' \<and>
    set ns \<subseteq> set (out s') \<and> (b \<longleftrightarrow> c \<or> cycle_found g s s') \<and>
    set (out s') - set (out s) \<subseteq> paths g `` set ns"
  using assms(2,3)
proof (induction ns arbitrary: c s)
  case Nil
  then show ?case using ext_refl by (simp add: cycle_found_refl)
next
  case (Cons v ns)
  show ?case
  proof (cases "v \<in> set (out s)")
    case True
    from Cons.IH [OF Cons.prems(1), of c] Cons.prems(2) obtain b s' where s': "sort_from (Suc (graph_size g)) ns c s = Some (b, s')"
      "scc_inv g {} s'" "ext {} s s'" "set ns \<subseteq> set (out s')" "b \<longleftrightarrow> c \<or> cycle_found g s s'"
      "set (out s') - set (out s) \<subseteq> paths g `` set ns" by auto
    have "v \<in> set (out s')" using True extD(5) [OF s'(3)] by auto
    with s' True show ?thesis by auto
  next
    case False
    have v: "v \<in> set (nodes g)" using Cons.prems(2) by simp
    from search_one [OF assms(1) Cons.prems(1) v False] obtain b1 s1 where s1:
      "strongConnect (Suc (graph_size g)) v s = Some (b1, s1)" "scc_inv g {} s1" "ext {} s s1" "v \<in> set (out s1)"
      "b1 \<longleftrightarrow> cycle_found g s s1" "\<forall>x\<in>set (out s1) - set (out s). (v, x) \<in> paths g" by blast
    from Cons.IH [OF s1(2), of "c \<or> b1"] Cons.prems(2) obtain b s' where s': "sort_from (Suc (graph_size g)) ns (c \<or> b1) s1 = Some (b, s')"
      "scc_inv g {} s'" "ext {} s1 s'" "set ns \<subseteq> set (out s')" "b \<longleftrightarrow> (c \<or> b1) \<or> cycle_found g s1 s'"
      "set (out s') - set (out s1) \<subseteq> paths g `` set ns" by auto
    have "sort_from (Suc (graph_size g)) (v # ns) c s = Some (b, s')" using False s1(1) s'(1) by simp
    moreover have "ext {} s s'" by (rule ext_trans [OF s1(3) s'(3)]) auto
    moreover have "v \<in> set (out s')" using s1(4) extD(5) [OF s'(3)] by auto
    moreover have "b \<longleftrightarrow> c \<or> cycle_found g s s'" using s'(5) s1(5) cycle_found_trans [OF s1(3) s'(3)] by blast
    moreover have "set (out s') - set (out s) \<subseteq> paths g `` set (v # ns)"
    proof
      fix x assume x: "x \<in> set (out s') - set (out s)"
      show "x \<in> paths g `` set (v # ns)" using x s1(6) s'(6) by (cases "x \<in> set (out s1)") auto
    qed
    ultimately show ?thesis using s'(2,4) by auto
  qed
qed

lemma sorted_state:
  assumes "scc_inv g {} s"
  shows "distinct (out s)" "\<exists>cs. out s = concat cs \<and> comps_ok g cs" "edge_rel g `` set (out s) \<subseteq> set (out s)"
    "set (out s) \<subseteq> set (nodes g)" "seen s = set (out s)"
proof -
  note i = scc_invD [OF assms]
  note st = stack_invD [OF i(1)]
  show "seen s = set (out s)" using st(2) stack_empty [OF assms] by simp
  with st(5,7) i(4) show "distinct (out s)" "\<exists>cs. out s = concat cs \<and> comps_ok g cs"
    "edge_rel g `` set (out s) \<subseteq> set (out s)" "set (out s) \<subseteq> set (nodes g)" by (simp_all add: out_inv_def)
qed

section \<open>Properties\<close>

text \<open>C25: Sorting the whole graph ends; the output has every node once, and is a sequence of
  strongly connected components each of which calls only itself and earlier ones; the result tells
  whether the graph has a cycle.\<close>
theorem sort_spec:
  assumes "wf_graph g"
  shows "\<exists>c s cs. sort_all g [] = Some (c, s) \<and> distinct (out s) \<and> set (out s) = set (nodes g) \<and>
    out s = concat cs \<and>
    (\<forall>before comp after. cs = before @ comp # after \<longrightarrow>
       is_scc g (set comp) \<and> edge_rel g `` set comp \<subseteq> set (concat before) \<union> set comp) \<and>
    (c \<longleftrightarrow> \<not> acyclic (edge_rel g))"
proof -
  from sort_from_ok [OF assms scc_init_inv order_refl, of False] obtain c s where
    s: "sort_all g [] = Some (c, s)" "scc_inv g {} s" "set (nodes g) \<subseteq> set (out s)"
      "c \<longleftrightarrow> cycle_found g (scc_init g []) s"
    by (auto simp: sort_all_def)
  note t = sorted_state [OF s(2)]
  from t(2) obtain cs where cs: "out s = concat cs" "comps_ok g cs" by blast
  have out: "set (out s) = set (nodes g)" using s(3) t(4) by blast
  have "seen (scc_init g []) = {}" by (simp add: scc_init_def)
  then have "c \<longleftrightarrow> (\<exists>x\<in>set (nodes g). (x, x) \<in> (edge_rel g)\<^sup>+)" using s(4) cycle_when_empty [OF s(2)] t(5) out by simp
  also have "\<dots> \<longleftrightarrow> \<not> acyclic (edge_rel g)"
    using edge_rel_nodes [OF assms] unfolding acyclic_def by (metis tranclD)
  finally show ?thesis using s(1) t(1) out cs unfolding comps_ok_def by blast
qed

theorem sort_spec_witness:
  "\<exists>c s cs. sort_all two_calls [] = Some (c, s) \<and> distinct (out s) \<and> set (out s) = set (nodes two_calls) \<and>
    out s = concat cs \<and>
    (\<forall>before comp after. cs = before @ comp # after \<longrightarrow>
       is_scc two_calls (set comp) \<and> edge_rel two_calls `` set comp \<subseteq> set (concat before) \<union> set comp) \<and>
    (c \<longleftrightarrow> \<not> acyclic (edge_rel two_calls))"
  by (rule sort_spec [OF wf_two_calls])

text \<open>Sorting from a start node puts out the nodes reachable from it, in the same order of
  components, and tells whether one of them is on a cycle.\<close>
theorem scc_sort_spec:
  assumes "wf_graph g" "start \<in> set (nodes g)"
  shows "\<exists>c s cs. sccSort g start [] = Some (c, s) \<and> distinct (out s) \<and> set (out s) = (edge_rel g)\<^sup>* `` {start} \<and>
    out s = concat cs \<and> comps_ok g cs \<and>
    (c \<longleftrightarrow> (\<exists>x. (start, x) \<in> (edge_rel g)\<^sup>* \<and> (x, x) \<in> (edge_rel g)\<^sup>+))"
proof -
  have "start \<notin> set (out (scc_init g []))" by (simp add: scc_init_def)
  from search_one [OF assms(1) scc_init_inv assms(2) this] obtain c s where
    s: "sccSort g start [] = Some (c, s)" "scc_inv g {} s" "start \<in> set (out s)"
      "c \<longleftrightarrow> cycle_found g (scc_init g []) s" "set (out s) \<subseteq> (edge_rel g)\<^sup>* `` {start}"
    by (auto simp: sccSort_def scc_init_def)
  note t = sorted_state [OF s(2)]
  from t(2) obtain cs where cs: "out s = concat cs" "comps_ok g cs" by blast
  have "(edge_rel g)\<^sup>* `` {start} \<subseteq> set (out s)" using s(3) t(3) closed_rtrancl [of start _ "edge_rel g" "set (out s)"] by blast
  then have out: "set (out s) = (edge_rel g)\<^sup>* `` {start}" using s(5) by blast
  have "seen (scc_init g []) = {}" by (simp add: scc_init_def)
  then have "c \<longleftrightarrow> (\<exists>x\<in>set (out s). (x, x) \<in> (edge_rel g)\<^sup>+)" using s(4) cycle_when_empty [OF s(2)] t(5) by simp
  then have "c \<longleftrightarrow> (\<exists>x. (start, x) \<in> (edge_rel g)\<^sup>* \<and> (x, x) \<in> (edge_rel g)\<^sup>+)" unfolding out by blast
  with s(1) t(1) out cs show ?thesis by blast
qed

theorem scc_sort_spec_witness:
  "\<exists>c s cs. sccSort two_calls 2 [] = Some (c, s) \<and> distinct (out s) \<and> set (out s) = (edge_rel two_calls)\<^sup>* `` {2} \<and>
    out s = concat cs \<and> comps_ok two_calls cs \<and>
    (c \<longleftrightarrow> (\<exists>x. (2, x) \<in> (edge_rel two_calls)\<^sup>* \<and> (x, x) \<in> (edge_rel two_calls)\<^sup>+))"
proof (rule scc_sort_spec [OF wf_two_calls])
  show "2 \<in> set (nodes two_calls)" by code_simp
qed

end
