(* ===== verification/TypeUnify.thy ===== *)
theory TypeUnify
  imports P4Prelude
begin

text \<open>
  Type inference by unification (frontends/p4/typeChecking): the types that the type checker
  compares, substitutions of type variables, the stack of constraints and the rules that solve one
  constraint, either by binding a variable or by adding constraints on the parts of two types.

  Types are canonical.  A type variable is an \<open>IR::ITypeVar\<close>: the code compares the nodes, which
  their declaration number identifies.  Messages are not modelled; an error is the diagnostic
  \<open>ERR_TYPE_ERROR\<close>.
\<close>

section \<open>Types\<close>

datatype tvar = Type_Var string nat | Type_InfInt nat | Type_Any nat

datatype base_type =
    Type_Boolean
  | Type_State
  | Type_Bits nat bool
  | Type_Varbits nat
  | Type_String
  | Type_Void
  | Type_MatchKind
  | Type_Unknown
  | Type_Dontcare

datatype dir = DirNone | DirIn | DirOut | DirInOut

text \<open>A parameter and an argument, over the type of their types.\<close>

datatype 'a param = Param (pname: string) (pdirection: dir) (ptype: 'a) (isOptional: bool) (hasDefault: bool)

datatype 'a arg_info = ArgumentInfo (aname: "string option") (leftValue: bool) (compileTimeConstant: bool) (atype: 'a)

datatype struct_kind = Type_Struct | Type_Header | Type_HeaderUnion | Type_UnknownStruct

datatype method_kind = Type_Method | Type_Action

datatype block_kind = Type_Parser | Type_Control

datatype utype =
    Base base_type
  | TV tvar
  | Type_List "utype list"
  | Type_Tuple "utype list"
  | Type_P4List utype
  | Type_Stack utype nat
  | Type_Set utype
  | Type_Type utype
  | Type_Fragment utype
  | StructLike struct_kind string "(string \<times> utype) list"
  | Type_Enum string
  | Type_SerEnum string utype
  | Type_Newtype string utype
  | Type_Extern string
  | Type_Error
  | Type_ActionEnum nat
  | Type_SpecializedCanonical utype "utype list" utype
  | MethodBase method_kind "tvar list" "utype option" "utype param list"
  | Type_MethodCall "utype list" tvar "utype arg_info list"
  | Type_Package string "tvar list" "utype param list"
  | ArchBlock block_kind string "tvar list" "utype param list"
  | P4Container block_kind string "tvar list" "utype param list"

definition hasOut :: "'a param \<Rightarrow> bool" where
  "hasOut p \<longleftrightarrow> pdirection p = DirOut \<or> pdirection p = DirInOut"

definition omittable :: "'a param \<Rightarrow> bool" where
  "omittable p \<longleftrightarrow> isOptional p \<or> hasDefault p"

text \<open>The name of an \<open>IR::Type_Declaration\<close>.\<close>

fun decl_name :: "utype \<Rightarrow> string option" where
  "decl_name (TV (Type_Var n d)) = Some n"
| "decl_name (StructLike k n fs) = Some n"
| "decl_name (Type_Enum n) = Some n"
| "decl_name (Type_SerEnum n t) = Some n"
| "decl_name (Type_Newtype n t) = Some n"
| "decl_name (Type_Extern n) = Some n"
| "decl_name Type_Error = Some ''error''"
| "decl_name (Type_Package n tps ps) = Some n"
| "decl_name (ArchBlock k n tps ps) = Some n"
| "decl_name (P4Container k n tps ps) = Some n"
| "decl_name _ = None"

text \<open>The variables of a type, with the type parameters of the methods in it.\<close>

primrec tvars :: "utype \<Rightarrow> tvar set" where
  "tvars (Base b) = {}"
| "tvars (TV v) = {v}"
| "tvars (Type_List ts) = \<Union> (set (map tvars ts))"
| "tvars (Type_Tuple ts) = \<Union> (set (map tvars ts))"
| "tvars (Type_P4List t) = tvars t"
| "tvars (Type_Stack t n) = tvars t"
| "tvars (Type_Set t) = tvars t"
| "tvars (Type_Type t) = tvars t"
| "tvars (Type_Fragment t) = tvars t"
| "tvars (StructLike k n fs) = \<Union> (set (map snd (map (map_prod id tvars) fs)))"
| "tvars (Type_Enum n) = {}"
| "tvars (Type_SerEnum n t) = tvars t"
| "tvars (Type_Newtype n t) = tvars t"
| "tvars (Type_Extern n) = {}"
| "tvars Type_Error = {}"
| "tvars (Type_ActionEnum i) = {}"
| "tvars (Type_SpecializedCanonical b as u) = tvars b \<union> \<Union> (set (map tvars as)) \<union> tvars u"
| "tvars (MethodBase k tps r ps) =
     set tps \<union> (case map_option tvars r of None \<Rightarrow> {} | Some V \<Rightarrow> V) \<union> \<Union> (set (map ptype (map (map_param tvars) ps)))"
| "tvars (Type_MethodCall as r args) =
     \<Union> (set (map tvars as)) \<union> {r} \<union> \<Union> (set (map atype (map (map_arg_info tvars) args)))"
| "tvars (Type_Package n tps ps) = set tps \<union> \<Union> (set (map ptype (map (map_param tvars) ps)))"
| "tvars (ArchBlock k n tps ps) = set tps \<union> \<Union> (set (map ptype (map (map_param tvars) ps)))"
| "tvars (P4Container k n tps ps) = set tps \<union> \<Union> (set (map ptype (map (map_param tvars) ps)))"

section \<open>Substitutions\<close>

text \<open>\<open>TypeSubstitution\<close>: the bindings in the order they were made.\<close>

type_synonym binding = "(tvar \<times> utype) list"

definition containsKey :: "binding \<Rightarrow> tvar \<Rightarrow> bool" where
  "containsKey b v \<longleftrightarrow> map_of b v \<noteq> None"

definition setBinding :: "binding \<Rightarrow> tvar \<Rightarrow> utype \<Rightarrow> binding option" where
  "setBinding b v t =
     (case map_of b v of
        Some t' \<Rightarrow> if t' \<noteq> t then None else Some b
      | None \<Rightarrow> Some (b @ [(v, t)]))"

text \<open>\<open>setBindings\<close>: \<open>None\<close> after the error.\<close>

fun setBindings :: "binding \<Rightarrow> tvar list \<Rightarrow> utype list \<Rightarrow> binding option comp" where
  "setBindings b [] [] = ret (Some b)"
| "setBindings b (tp # tps) (t # ts) =
     (if length tps \<noteq> length ts then report (Error ERR_TYPE_ERROR) None
      else case setBinding b tp t of
             None \<Rightarrow> report (Error ERR_TYPE_ERROR) None
           | Some b' \<Rightarrow> setBindings b' tps ts)"
| "setBindings b _ _ = report (Error ERR_TYPE_ERROR) None"

fun simpleCompose :: "binding \<Rightarrow> binding \<Rightarrow> binding comp" where
  "simpleCompose b [] = ret b"
| "simpleCompose b ((v, t) # other) =
     (if containsKey b v then Bug ''Changing binding'' else simpleCompose (b @ [(v, t)]) other)"

text \<open>The visitor that replaces variables.  The type that replaces a variable is visited in turn, and
  the type parameters that are bound are removed.  \<open>None\<close>: the replacement comes back to a variable
  it is replacing, where the visitor stops at a loop or a chain of variables never ends.\<close>

definition seq_pair :: "string \<times> 'a option \<Rightarrow> (string \<times> 'a) option" where
  "seq_pair x = map_option (Pair (fst x)) (snd x)"

definition seq_param :: "'a option param \<Rightarrow> 'a param option" where
  "seq_param p = map_option (\<lambda>t. Param (pname p) (pdirection p) t (isOptional p) (hasDefault p)) (ptype p)"

definition seq_arg :: "'a option arg_info \<Rightarrow> 'a arg_info option" where
  "seq_arg a = map_option (ArgumentInfo (aname a) (leftValue a) (compileTimeConstant a)) (atype a)"

definition seq_option :: "'a option option \<Rightarrow> 'a option option" where
  "seq_option r = (case r of None \<Rightarrow> Some None | Some t \<Rightarrow> map_option Some t)"

primrec substM :: "(tvar \<Rightarrow> utype option) \<Rightarrow> (tvar \<Rightarrow> bool) \<Rightarrow> utype \<Rightarrow> utype option" where
  "substM f keep (Base b) = Some (Base b)"
| "substM f keep (TV v) = f v"
| "substM f keep (Type_List ts) = map_option Type_List (those (map (substM f keep) ts))"
| "substM f keep (Type_Tuple ts) = map_option Type_Tuple (those (map (substM f keep) ts))"
| "substM f keep (Type_P4List t) = map_option Type_P4List (substM f keep t)"
| "substM f keep (Type_Stack t n) = map_option (\<lambda>t. Type_Stack t n) (substM f keep t)"
| "substM f keep (Type_Set t) = map_option Type_Set (substM f keep t)"
| "substM f keep (Type_Type t) = map_option Type_Type (substM f keep t)"
| "substM f keep (Type_Fragment t) = map_option Type_Fragment (substM f keep t)"
| "substM f keep (StructLike k n fs) =
     map_option (StructLike k n) (those (map seq_pair (map (map_prod id (substM f keep)) fs)))"
| "substM f keep (Type_Enum n) = Some (Type_Enum n)"
| "substM f keep (Type_SerEnum n t) = map_option (Type_SerEnum n) (substM f keep t)"
| "substM f keep (Type_Newtype n t) = map_option (Type_Newtype n) (substM f keep t)"
| "substM f keep (Type_Extern n) = Some (Type_Extern n)"
| "substM f keep Type_Error = Some Type_Error"
| "substM f keep (Type_ActionEnum i) = Some (Type_ActionEnum i)"
| "substM f keep (Type_SpecializedCanonical b as u) =
     Option.bind (substM f keep b) (\<lambda>b.
       Option.bind (those (map (substM f keep) as)) (\<lambda>as.
         map_option (Type_SpecializedCanonical b as) (substM f keep u)))"
| "substM f keep (MethodBase k tps r ps) =
     Option.bind (seq_option (map_option (substM f keep) r)) (\<lambda>r.
       map_option (MethodBase k (filter keep tps) r) (those (map seq_param (map (map_param (substM f keep)) ps))))"
| "substM f keep (Type_MethodCall as r args) =
     Option.bind (those (map (substM f keep) as)) (\<lambda>as.
       map_option (Type_MethodCall as r) (those (map seq_arg (map (map_arg_info (substM f keep)) args))))"
| "substM f keep (Type_Package n tps ps) =
     map_option (Type_Package n (filter keep tps)) (those (map seq_param (map (map_param (substM f keep)) ps)))"
| "substM f keep (ArchBlock k n tps ps) =
     map_option (ArchBlock k n (filter keep tps)) (those (map seq_param (map (map_param (substM f keep)) ps)))"
| "substM f keep (P4Container k n tps ps) =
     map_option (P4Container k n (filter keep tps)) (those (map seq_param (map (map_param (substM f keep)) ps)))"

fun replacement :: "nat \<Rightarrow> binding \<Rightarrow> tvar \<Rightarrow> utype option" where
  "replacement 0 b v = None"
| "replacement (Suc n) b v =
     (case map_of b v of
        None \<Rightarrow> Some (TV v)
      | Some t \<Rightarrow> substM (replacement n b) (\<lambda>v. map_of b v = None) t)"

text \<open>No more replacements can be nested than there are bindings.\<close>

definition apply_subst :: "binding \<Rightarrow> utype \<Rightarrow> utype option" where
  "apply_subst b t = substM (replacement (Suc (length b)) b) (\<lambda>v. map_of b v = None) t"

text \<open>\<open>TypeOccursVisitor\<close> looks at variables and integers only.\<close>

definition occurs :: "tvar \<Rightarrow> utype \<Rightarrow> bool" where
  "occurs v t = (case v of Type_Any i \<Rightarrow> False | _ \<Rightarrow> v \<in> tvars t)"

fun strip_newtypes :: "utype \<Rightarrow> utype" where
  "strip_newtypes (Type_Newtype n t) = strip_newtypes t"
| "strip_newtypes t = t"

definition underlying :: "utype \<Rightarrow> utype" where
  "underlying t = (case strip_newtypes t of Type_SerEnum n u \<Rightarrow> u | u \<Rightarrow> u)"

definition fits_InfInt :: "utype \<Rightarrow> bool" where
  "fits_InfInt t =
     (case t of TV (Type_InfInt i) \<Rightarrow> True | Base (Type_Bits n s) \<Rightarrow> True | TV (Type_Any i) \<Rightarrow> True | _ \<Rightarrow> False)"

text \<open>Replacing the new variable in the old bindings, one after the other; the flag tells that a
  binding already implies the new one.\<close>

fun refine_bindings :: "tvar \<Rightarrow> utype \<Rightarrow> binding \<Rightarrow> (bool \<times> binding) comp" where
  "refine_bindings v t [] = ret (False, [])"
| "refine_bindings v t ((x, u) # b) =
     (case apply_subst [(v, t)] u of
        None \<Rightarrow> Bug ''IR loop detected''
      | Some u' \<Rightarrow>
          bind_comp (refine_bindings v t b) (\<lambda>(cycle, b').
            if u' = u then ret (cycle, (x, u) # b')
            else if TV x = u' then ret (True, (x, u) # b')
            else ret (cycle, (x, u') # b')))"

text \<open>\<open>None\<close>: an error message is returned.\<close>

definition compose :: "binding \<Rightarrow> tvar \<Rightarrow> utype \<Rightarrow> binding option comp" where
  "compose b v substitution =
     (if substitution = Base Type_Dontcare then ret (Some b)
      else
        let is_int = (case v of Type_InfInt i \<Rightarrow> True | _ \<Rightarrow> False);
            t = (if is_int then underlying substitution else substitution)
        in if is_int \<and> \<not> fits_InfInt t then ret None
           else if occurs v t then ret None
           else if containsKey b v then Bug ''Two bindings for the same variable''
           else bind_comp (refine_bindings v t b) (\<lambda>(cycle, b').
                  ret (Some (if cycle then b' else b' @ [(v, t)]))))"

end
