(* ===== verification/TypeConstraints.thy ===== *)
theory TypeConstraints
  imports TypeUnify
begin

text \<open>
  Equivalence of types (\<open>TypeMap::equivalent\<close>), the rules that unify two types by adding constraints
  on their parts (typeUnification.cpp) and the loop that solves the constraints
  (typeConstraints.cpp).
\<close>

section \<open>Equivalence\<close>

text \<open>\<open>None\<close>: the check at the end of the function, which fails unless an error was reported.  Two
  nodes of the same value are equal in most cases, and the first test on identity is this equality.\<close>

definition and_then :: "bool option \<Rightarrow> bool option \<Rightarrow> bool option" where
  "and_then a b = (case a of None \<Rightarrow> None | Some False \<Rightarrow> Some False | Some True \<Rightarrow> b)"

fun all_equivalent :: "(utype \<Rightarrow> bool option) list \<Rightarrow> utype list \<Rightarrow> bool option" where
  "all_equivalent (e # es) (r # rs) = and_then (e r) (all_equivalent es rs)"
| "all_equivalent _ _ = Some True"

fun all_fields_equivalent ::
  "(string \<times> (utype \<Rightarrow> bool option)) list \<Rightarrow> (string \<times> utype) list \<Rightarrow> bool option" where
  "all_fields_equivalent ((f, e) # es) ((h, r) # rs) =
     (if f \<noteq> h then Some False else and_then (e r) (all_fields_equivalent es rs))"
| "all_fields_equivalent _ _ = Some True"

fun all_params_equivalent ::
  "(dir \<times> (utype \<Rightarrow> bool option)) list \<Rightarrow> utype param list \<Rightarrow> bool option" where
  "all_params_equivalent ((d, e) # es) (q # qs) =
     (if d \<noteq> pdirection q then Some False
      else and_then (e (ptype q)) (all_params_equivalent es qs))"
| "all_params_equivalent _ _ = Some True"

text \<open>The left type comes first; \<open>ss\<close> is the flag \<open>strictStruct\<close> of the type map.\<close>

primrec equivalent :: "utype \<Rightarrow> bool \<Rightarrow> bool \<Rightarrow> utype \<Rightarrow> bool option" where
  "equivalent (Base b) = (\<lambda>ss strict right. Some (Base b = right))"
| "equivalent (TV v) = (\<lambda>ss strict right. Some (TV v = right))"
| "equivalent (Type_List ls) = (\<lambda>ss strict right.
     if Type_List ls = right then Some True
     else case right of Type_List rs \<Rightarrow> 
         (if length ls \<noteq> length rs then Some False
          else all_equivalent (map (\<lambda>e. e ss (strict \<or> ss)) (map equivalent ls)) rs)
       | _ \<Rightarrow> Some False)"
| "equivalent (Type_Tuple ls) = (\<lambda>ss strict right.
     if Type_Tuple ls = right then Some True
     else case right of Type_Tuple rs \<Rightarrow> 
         (if length ls \<noteq> length rs then Some False
          else all_equivalent (map (\<lambda>e. e ss (strict \<or> ss)) (map equivalent ls)) rs)
       | _ \<Rightarrow> Some False)"
| "equivalent (Type_P4List l) = (\<lambda>ss strict right.
     if Type_P4List l = right then Some True
     else case right of Type_P4List r \<Rightarrow> equivalent l ss (strict \<or> ss) r
       | _ \<Rightarrow> Some False)"
| "equivalent (Type_Stack l n) = (\<lambda>ss strict right.
     if Type_Stack l n = right then Some True
     else case right of Type_Stack r m \<Rightarrow> and_then (equivalent l ss (strict \<or> ss) r) (Some (n = m))
       | _ \<Rightarrow> Some False)"
| "equivalent (Type_Set l) = (\<lambda>ss strict right.
     if Type_Set l = right then Some True
     else case right of Type_Set r \<Rightarrow> equivalent l ss (strict \<or> ss) r
       | _ \<Rightarrow> Some False)"
| "equivalent (Type_Type l) = (\<lambda>ss strict right.
     if Type_Type l = right then Some True
     else case right of Type_Type r \<Rightarrow> equivalent l ss (strict \<or> ss) r
       | _ \<Rightarrow> Some False)"
| "equivalent (Type_Fragment l) = (\<lambda>ss strict right.
     if Type_Fragment l = right then Some True
     else case right of Type_Fragment r \<Rightarrow> equivalent l ss False r
       | _ \<Rightarrow> Some False)"
| "equivalent (StructLike k n fs) = (\<lambda>ss strict right.
     if StructLike k n fs = right then Some True
     else case right of StructLike k' m gs \<Rightarrow> 
         (if k \<noteq> k' then Some False
          else if (strict \<or> ss) \<and> n \<noteq> m \<and> k \<noteq> Type_UnknownStruct then Some False
          else if length fs \<noteq> length gs then Some False
          else all_fields_equivalent (map (\<lambda>(f, e). (f, e ss (strict \<or> ss))) (map (map_prod id equivalent) fs)) gs)
       | _ \<Rightarrow> Some False)"
| "equivalent (Type_Enum n) = (\<lambda>ss strict right. Some (Type_Enum n = right))"
| "equivalent (Type_SerEnum n l) = (\<lambda>ss strict right.
     if Type_SerEnum n l = right then Some True
     else case right of Type_SerEnum m r \<Rightarrow> Some (n = m)
       | _ \<Rightarrow> Some False)"
| "equivalent (Type_Newtype n t) = (\<lambda>ss strict right. Some (Type_Newtype n t = right))"
| "equivalent (Type_Extern n) = (\<lambda>ss strict right. Some (Type_Extern n = right))"
| "equivalent Type_Error = (\<lambda>ss strict right. Some (Type_Error = right))"
| "equivalent (Type_ActionEnum i) = (\<lambda>ss strict right. Some (Type_ActionEnum i = right))"
| "equivalent (Type_SpecializedCanonical l as u) = (\<lambda>ss strict right.
     if Type_SpecializedCanonical l as u = right then Some True
     else case right of Type_SpecializedCanonical r bs w \<Rightarrow> 
         and_then (equivalent l ss (strict \<or> ss) r)
           (if length as \<noteq> length bs then Some False
            else all_equivalent (map (\<lambda>e. e ss (strict \<or> ss)) (map equivalent as)) bs)
       | _ \<Rightarrow> Some False)"
| "equivalent (MethodBase k tps r ps) = (\<lambda>ss strict right.
     if MethodBase k tps r ps = right then Some True
     else case right of MethodBase k' tqs q qs \<Rightarrow> 
         (if k \<noteq> k' then Some False
          else if length tps \<noteq> length tqs then Some False
          else if tps \<noteq> tqs then Some False
          else and_then
                 (case (map_option equivalent r, q) of
                    (None, None) \<Rightarrow> Some True
                  | (Some e, Some u) \<Rightarrow> e ss (strict \<or> ss) u
                  | _ \<Rightarrow> Some False)
                 (if length ps \<noteq> length qs then Some False
                  else all_params_equivalent (map (\<lambda>(d, e). (d, e ss (strict \<or> ss)))
                (map (\<lambda>p. (pdirection p, ptype p)) (map (map_param equivalent) ps))) qs))
       | _ \<Rightarrow> Some False)"
| "equivalent (Type_MethodCall as r args) = (\<lambda>ss strict right.
     if Type_MethodCall as r args = right then Some True
     else case right of Type_MethodCall bs q brgs \<Rightarrow> None
       | _ \<Rightarrow> Some False)"
| "equivalent (Type_Package n tps ps) = (\<lambda>ss strict right.
     if Type_Package n tps ps = right then Some True
     else case right of Type_Package m tqs qs \<Rightarrow> 
         (if length tps \<noteq> length tqs then Some False
          else if tps \<noteq> tqs then Some False
          else if length ps \<noteq> length qs then Some False
          else all_params_equivalent (map (\<lambda>(d, e). (d, e ss (strict \<or> ss)))
                (map (\<lambda>p. (pdirection p, ptype p)) (map (map_param equivalent) ps))) qs)
       | _ \<Rightarrow> Some False)"
| "equivalent (ArchBlock k n tps ps) = (\<lambda>ss strict right.
     if ArchBlock k n tps ps = right then Some True
     else case right of ArchBlock k' m tqs qs \<Rightarrow> 
         (if k \<noteq> k' then Some False
          else if length ps \<noteq> length qs then Some False
          else all_params_equivalent (map (\<lambda>(d, e). (d, e ss (strict \<or> ss)))
                (map (\<lambda>p. (pdirection p, ptype p)) (map (map_param equivalent) ps))) qs)
       | _ \<Rightarrow> Some False)"
| "equivalent (P4Container k n tps ps) = (\<lambda>ss strict right.
     if P4Container k n tps ps = right then Some True
     else case right of P4Container k' m tqs qs \<Rightarrow> 
         (if k \<noteq> k' then Some False
          else if length ps \<noteq> length qs then Some False
          else all_params_equivalent (map (\<lambda>(d, e). (d, e ss (strict \<or> ss)))
                (map (\<lambda>p. (pdirection p, ptype p)) (map (map_param equivalent) ps))) qs)
       | _ \<Rightarrow> Some False)"

section \<open>Constraints\<close>

text \<open>\<open>EqualityConstraint\<close> and, with the flag set, \<open>CanBeImplicitlyCastConstraint\<close>: the right type
  can be used where the left one is expected.\<close>

datatype constraint = Constraint (canBeImplicitlyCast: bool) (cleft: utype) (cright: utype)

text \<open>The flags of the environment: \<open>strictStruct\<close> of the type map, and whether the global variable
  \<open>optarg\<close> of the C library, which unifyCall reads, is set.\<close>

record unify_env =
  strictStruct :: bool
  optarg :: bool

text \<open>\<open>TypeConstraints\<close>.  The head of the list is the constraint that is popped first.\<close>

record tc_state =
  unifiable :: "tvar set"
  pending :: "constraint list"
  definedVariables :: binding
  currentSubstitution :: binding

definition addUnifiableTypeVariable :: "tvar \<Rightarrow> tc_state \<Rightarrow> tc_state" where
  "addUnifiableTypeVariable v s = s\<lparr>unifiable := insert v (unifiable s)\<rparr>"

definition addUnifiableTypeVariables :: "tvar list \<Rightarrow> tc_state \<Rightarrow> tc_state" where
  "addUnifiableTypeVariables vs s = fold addUnifiableTypeVariable vs s"

definition add_constraint :: "constraint \<Rightarrow> tc_state \<Rightarrow> tc_state" where
  "add_constraint c s = s\<lparr>pending := c # pending s\<rparr>"

definition isUnifiableTypeVariable :: "tc_state \<Rightarrow> utype \<Rightarrow> bool" where
  "isUnifiableTypeVariable s t =
     (case t of
        TV v \<Rightarrow>
          if containsKey (definedVariables s) v then False
          else (case v of Type_Var n d \<Rightarrow> v \<in> unifiable s | _ \<Rightarrow> True)
      | _ \<Rightarrow> False)"

text \<open>The result of solving a constraint: the flag is false when an error was reported.\<close>

type_synonym solving = "(bool \<times> tc_state) comp"

abbreviation solved :: "tc_state \<Rightarrow> solving" where
  "solved s \<equiv> ret (True, s)"

abbreviation reportError :: "tc_state \<Rightarrow> solving" where
  "reportError s \<equiv> report (Error ERR_TYPE_ERROR) (False, s)"

definition replaceVariables :: "tc_state \<Rightarrow> utype \<Rightarrow> utype comp" where
  "replaceVariables s t =
     (case apply_subst (definedVariables s) t of None \<Rightarrow> Bug ''IR loop detected'' | Some t' \<Rightarrow> ret t')"

section \<open>Unification of calls, functions and blocks\<close>

definition getParameter :: "utype param list \<Rightarrow> string \<Rightarrow> utype param option" where
  "getParameter ps n = List.find (\<lambda>p. pname p = n) ps"

definition is_Any :: "utype \<Rightarrow> bool" where
  "is_Any t = (case t of TV (Type_Any i) \<Rightarrow> True | _ \<Rightarrow> False)"

text \<open>The arguments of a call, one after the other: \<open>its\<close> are the parameters that positional
  arguments have not used, \<open>left\<close> those that no argument has used.\<close>

fun unifyArguments ::
  "unify_env \<Rightarrow> bool \<Rightarrow> utype param list \<Rightarrow> utype arg_info list \<Rightarrow> utype param list \<Rightarrow> utype param list \<Rightarrow>
     tc_state \<Rightarrow> (bool \<times> utype param list \<times> tc_state) comp" where
  "unifyArguments env k params [] its left s = ret (True, left, s)"
| "unifyArguments env k params (arg # args) its left s =
     (let named = (aname arg \<noteq> None);
          found = (case aname arg of
                     Some n \<Rightarrow> getParameter params n
                   | None \<Rightarrow> (case its of [] \<Rightarrow> None | p # _ \<Rightarrow> Some p));
          fail = report (Error ERR_TYPE_ERROR) (False, left, s)
      in case found of
           None \<Rightarrow> fail
         | Some param \<Rightarrow>
             if pname param \<notin> set (map pname left) then Bug ''Duplicate argument name?''
             else
               let left = filter (\<lambda>p. pname p \<noteq> pname param) left;
                   fail = report (Error ERR_TYPE_ERROR) (False, left, s)
               in if atype arg = Base Type_Dontcare \<and> pdirection param \<noteq> DirOut then fail
                  else if hasOut param \<and> \<not> leftValue arg then fail
                  else if pdirection param = DirNone \<and> \<not> compileTimeConstant arg then fail
                  else if pdirection param \<noteq> DirNone \<and> (case ptype param of Type_Extern n \<Rightarrow> True | _ \<Rightarrow> False) then
                    if optarg env then unifyArguments env k params args its left s else fail
                  else unifyArguments env k params args (if named then its else tl its) left
                         (add_constraint (Constraint (k \<or> \<not> hasOut param) (ptype param) (atype arg)) s))"

fun unifyTypeArguments :: "bool \<Rightarrow> utype list \<Rightarrow> tvar list \<Rightarrow> tc_state \<Rightarrow> tc_state" where
  "unifyTypeArguments k (t # ts) (v # vs) s = unifyTypeArguments k ts vs (add_constraint (Constraint k t (TV v)) s)"
| "unifyTypeArguments k _ _ s = s"

definition unifyCall :: "unify_env \<Rightarrow> constraint \<Rightarrow> tc_state \<Rightarrow> solving" where
  "unifyCall env c s =
     (case cleft c of MethodBase mk tps r ps \<Rightarrow> (case cright c of Type_MethodCall targs rv args \<Rightarrow>
          let k = canBeImplicitlyCast c;
              s = addUnifiableTypeVariables tps s;
              s = add_constraint (Constraint k (case r of None \<Rightarrow> Base Type_Void | Some t \<Rightarrow> t) (TV rv)) s;
              s = addUnifiableTypeVariable rv s;
              s = addUnifiableTypeVariables tps s
          in if length ps < length args then reportError s
             else bind_comp (unifyArguments env k ps args ps ps s) (\<lambda>(ok, left, s).
               if \<not> ok then ret (False, s)
               else if \<not> list_all omittable left then reportError s
               else if targs \<noteq> [] \<and> length tps \<noteq> length targs then reportError s
               else solved (unifyTypeArguments k targs tps s))
        | _ \<Rightarrow> Bug ''CHECK_NULL'')
      | _ \<Rightarrow> Bug ''CHECK_NULL'')"

fun unifyParameters :: "bool \<Rightarrow> utype param list \<Rightarrow> utype param list \<Rightarrow> tc_state \<Rightarrow> solving" where
  "unifyParameters k [] qs s = (if list_all omittable qs then solved s else reportError s)"
| "unifyParameters k (p # ps) [] s = (if omittable p then unifyParameters k ps [] s else reportError s)"
| "unifyParameters k (p # ps) (q # qs) s =
     (if pdirection q \<noteq> pdirection p then reportError s
      else unifyParameters k ps qs (add_constraint (Constraint k (ptype p) (ptype q)) s))"

definition unifyFunctions :: "constraint \<Rightarrow> bool \<Rightarrow> tc_state \<Rightarrow> solving" where
  "unifyFunctions c skipReturnValues s =
     (case cleft c of MethodBase dk dtps dr dps \<Rightarrow> (case cright c of MethodBase sk stps sr sps \<Rightarrow>
          let k = canBeImplicitlyCast c;
              s = addUnifiableTypeVariables dtps s;
              s = addUnifiableTypeVariables stps s
          in if (sr = None) \<noteq> (dr = None) then reportError s
             else
               let s = (case (dr, sr) of
                          (Some d, Some t) \<Rightarrow> if skipReturnValues then s else add_constraint (Constraint k d t) s
                        | _ \<Rightarrow> s)
               in unifyParameters k dps sps s
        | _ \<Rightarrow> Bug ''CHECK_NULL'')
      | _ \<Rightarrow> Bug ''CHECK_NULL'')"

text \<open>\<open>getApplyMethodType\<close> has neither type parameters nor a return type; the constructor of a package
  returns the package.\<close>

definition unifyBlocks :: "constraint \<Rightarrow> tc_state \<Rightarrow> solving" where
  "unifyBlocks c s =
     (let k = canBeImplicitlyCast c
      in case cleft c of
           Type_Package n dtps dps \<Rightarrow>
             (case cright c of
                Type_Package m stps sps \<Rightarrow>
                  let s = addUnifiableTypeVariables stps (addUnifiableTypeVariables dtps s)
                  in if n \<noteq> m then reportError s
                     else unifyFunctions
                            (Constraint k (MethodBase Type_Method dtps (Some (cleft c)) dps)
                                          (MethodBase Type_Method stps (Some (cright c)) sps)) True s
              | ArchBlock sk m stps sps \<Rightarrow> reportError s
              | _ \<Rightarrow> Bug ''CHECK_NULL'')
         | ArchBlock dk n dtps dps \<Rightarrow>
             (case cright c of
                ArchBlock sk m stps sps \<Rightarrow>
                  if dk \<noteq> sk then reportError s
                  else unifyFunctions
                         (Constraint k (MethodBase Type_Method [] None dps) (MethodBase Type_Method [] None sps)) False
                         (addUnifiableTypeVariables stps (addUnifiableTypeVariables dtps s))
              | Type_Package m stps sps \<Rightarrow> reportError s
              | _ \<Rightarrow> Bug ''CHECK_NULL'')
         | _ \<Rightarrow> Bug ''CHECK_NULL'')"

section \<open>Unification of two types\<close>

text \<open>A list or a structure whose last component has the type of \<open>...\<close>.\<close>

definition containsDots :: "utype list \<Rightarrow> bool" where
  "containsDots ts \<longleftrightarrow> ts \<noteq> [] \<and> is_Any (last ts)"

fun add_pairs :: "bool \<Rightarrow> utype list \<Rightarrow> utype list \<Rightarrow> tc_state \<Rightarrow> tc_state" where
  "add_pairs k (d # ds) (t # ts) s = add_pairs k ds ts (add_constraint (Constraint k d t) s)"
| "add_pairs k _ _ s = s"

text \<open>\<open>...\<close> stands for what is missing.\<close>

definition add_dots :: "utype \<Rightarrow> utype \<Rightarrow> tc_state \<Rightarrow> tc_state" where
  "add_dots dotsField dotsType s = add_constraint (Constraint False dotsField (Type_Fragment dotsType)) s"

definition unifyBaseLists :: "bool \<Rightarrow> utype list \<Rightarrow> utype list \<Rightarrow> tc_state \<Rightarrow> solving" where
  "unifyBaseLists k ds ts s =
     (let hasDots = containsDots ts; sourceSize = length ts
      in if length ds \<noteq> sourceSize \<and> \<not> hasDots then reportError s
         else if hasDots then
           solved (add_dots (last ts) (Type_List (drop (sourceSize - 1) ds))
             (add_pairs k (take (sourceSize - 1) ds) (butlast ts) s))
         else solved (add_pairs k ds ts s))"

definition unifyStructList :: "bool \<Rightarrow> string \<Rightarrow> (string \<times> utype) list \<Rightarrow> utype list \<Rightarrow> tc_state \<Rightarrow> solving" where
  "unifyStructList k n fs ts s =
     (let hasDots = containsDots ts; listSize = length ts
      in if length fs \<noteq> listSize \<and> \<not> hasDots then reportError s
         else if hasDots then
           solved (add_dots (last ts) (StructLike Type_UnknownStruct n (drop (listSize - 1) fs))
             (add_pairs k (map snd (take (listSize - 1) fs)) (butlast ts) s))
         else solved (add_pairs k (map snd fs) ts s))"

text \<open>The fields of the destination; the second result holds those that the source does not have.\<close>

fun unifyFields ::
  "bool \<Rightarrow> (string \<times> utype) list \<Rightarrow> (string \<times> utype) list \<Rightarrow> bool \<Rightarrow> tc_state \<Rightarrow>
     (bool \<times> (string \<times> utype) list \<times> tc_state) comp" where
  "unifyFields k [] gs stHasDots s = ret (True, [], s)"
| "unifyFields k ((n, t) # fs) gs stHasDots s =
     (case map_of gs n of
        None \<Rightarrow>
          if stHasDots then
            bind_comp (unifyFields k fs gs stHasDots s) (\<lambda>(ok, missing, s). ret (ok, (n, t) # missing, s))
          else report (Error ERR_TYPE_ERROR) (False, [], s)
      | Some u \<Rightarrow> unifyFields k fs gs stHasDots (add_constraint (Constraint k t u) s))"

definition unifyStructs ::
  "bool \<Rightarrow> bool \<Rightarrow> string \<Rightarrow> (string \<times> utype) list \<Rightarrow> struct_kind \<Rightarrow> string \<Rightarrow> (string \<times> utype) list \<Rightarrow>
     tc_state \<Rightarrow> solving" where
  "unifyStructs ss k n fs sk m gs s =
     (let strctHasDots = containsDots (map snd fs); stHasDots = containsDots (map snd gs)
      in if ss \<and> n \<noteq> m \<and> sk \<noteq> Type_UnknownStruct then reportError s
         else if strctHasDots \<and> stHasDots then reportError s
         else if length fs \<noteq> length gs \<and> \<not> strctHasDots \<and> \<not> stHasDots then reportError s
         else bind_comp (unifyFields k fs gs stHasDots s) (\<lambda>(ok, missing, s).
           if \<not> ok then ret (False, s)
           else if stHasDots then
             (case map_of gs ''...'' of
                None \<Rightarrow> Bug ''CHECK_NULL''
              | Some dotsField \<Rightarrow> solved (add_dots dotsField (StructLike Type_UnknownStruct m missing) s))
           else solved s))"

text \<open>The number of missing elements of a stack is cut to 32 bits.  The loop over a list runs to its
  size minus one, which wraps around for an empty list: \<open>at\<close> throws.\<close>

definition unifyStackList :: "bool \<Rightarrow> utype \<Rightarrow> nat \<Rightarrow> utype list \<Rightarrow> tc_state \<Rightarrow> solving" where
  "unifyStackList k elementType stackSize ts s =
     (let hasDots = containsDots ts; listSize = length ts
      in if stackSize \<noteq> listSize \<and> \<not> hasDots then reportError s
         else if listSize = 0 then Bug ''out of range''
         else
           let s = add_pairs k (replicate (listSize - 1) elementType) (butlast ts) s
           in if hasDots then
                solved (add_dots (last ts) (Type_Stack elementType (nat ((int stackSize - int listSize + 1) mod 2 ^ 32))) s)
              else solved s)"

definition unifyDeclarations :: "utype \<Rightarrow> utype \<Rightarrow> tc_state \<Rightarrow> solving" where
  "unifyDeclarations dest src s =
     (case (decl_name dest, decl_name src) of
        (Some n, Some m) \<Rightarrow> if n \<noteq> m then reportError s else solved s
      | _ \<Rightarrow> reportError s)"

text \<open>The cases for the destination, in the order of the code as far as they overlap; \<open>again\<close> is the
  recursive call.\<close>

definition unify_base ::
  "constraint \<Rightarrow> (constraint \<Rightarrow> tc_state \<Rightarrow> solving) \<Rightarrow> base_type \<Rightarrow> utype \<Rightarrow> tc_state \<Rightarrow> solving" where
  "unify_base c again b src s =
     (let k = canBeImplicitlyCast c; is_bits = (case b of Type_Bits n sg \<Rightarrow> True | _ \<Rightarrow> False)
      in case src of
           TV (Type_InfInt i) \<Rightarrow>
             if is_bits then
               solved (add_constraint (Constraint k (Base b) src) (addUnifiableTypeVariable (Type_InfInt i) s))
             else reportError s
         | Type_SerEnum n t \<Rightarrow> if k \<and> is_bits then again (Constraint k t (Base b)) s else reportError s
         | Base b' \<Rightarrow> if b' = b then solved s else reportError s
         | _ \<Rightarrow> reportError s)"

definition unify_kinds ::
  "unify_env \<Rightarrow> constraint \<Rightarrow> (constraint \<Rightarrow> tc_state \<Rightarrow> solving) \<Rightarrow> utype \<Rightarrow> utype \<Rightarrow> tc_state \<Rightarrow> solving" where
  "unify_kinds env c again dest src s =
     (let k = canBeImplicitlyCast c;
          blocks = (case src of
              P4Container bk n tps ps \<Rightarrow> solved (add_constraint (Constraint k dest (ArchBlock bk n tps ps)) s)
            | Type_Package n tps ps \<Rightarrow> unifyBlocks (Constraint k dest src) s
            | ArchBlock bk n tps ps \<Rightarrow> unifyBlocks (Constraint k dest src) s
            | _ \<Rightarrow> reportError s);
          lists = (\<lambda>ds. case src of
              Type_List ts \<Rightarrow> unifyBaseLists k ds ts s
            | Type_Tuple ts \<Rightarrow> unifyBaseLists k ds ts s
            | _ \<Rightarrow> reportError s)
      in case dest of
           Type_Package n tps ps \<Rightarrow> blocks
         | ArchBlock bk n tps ps \<Rightarrow> blocks
         | MethodBase mk tps r ps \<Rightarrow>
             (case src of
                Type_MethodCall targs rv args \<Rightarrow> unifyCall env c s
              | MethodBase mk' tqs q qs \<Rightarrow> unifyFunctions c False s
              | _ \<Rightarrow> reportError s)
         | Type_List ds \<Rightarrow> lists ds
         | Type_Tuple ds \<Rightarrow> lists ds
         | StructLike dk n fs \<Rightarrow>
             if dk = Type_Struct \<or> dk = Type_Header then
               (case src of
                  Type_List ts \<Rightarrow> unifyStructList k n fs ts s
                | StructLike sk m gs \<Rightarrow> unifyStructs (strictStruct env) k n fs sk m gs s
                | _ \<Rightarrow> reportError s)
             else unifyDeclarations dest src s
         | Base b \<Rightarrow> unify_base c again b src s
         | Type_SerEnum n t \<Rightarrow> if k then solved (add_constraint (Constraint k t src) s) else reportError s
         | Type_Stack e stackSize \<Rightarrow>
             (case src of
                Type_Stack e' srcSize \<Rightarrow>
                  if stackSize \<noteq> srcSize then reportError s else solved (add_constraint (Constraint k e e') s)
              | Type_List ts \<Rightarrow> unifyStackList k e stackSize ts s
              | _ \<Rightarrow> reportError s)
         | Type_P4List e \<Rightarrow>
             (case src of Type_P4List e' \<Rightarrow> solved (add_constraint (Constraint k e e') s) | _ \<Rightarrow> reportError s)
         | _ \<Rightarrow> unifyDeclarations dest src s)"

definition as_Specialized :: "utype \<Rightarrow> (utype \<times> utype list \<times> utype) option" where
  "as_Specialized t = (case t of Type_SpecializedCanonical b as u \<Rightarrow> Some (b, as, u) | _ \<Rightarrow> None)"

definition as_Any :: "utype \<Rightarrow> tvar option" where
  "as_Any t = (case t of TV v \<Rightarrow> (case v of Type_Any i \<Rightarrow> Some v | _ \<Rightarrow> None) | _ \<Rightarrow> None)"

definition unify_types ::
  "unify_env \<Rightarrow> constraint \<Rightarrow> (constraint \<Rightarrow> tc_state \<Rightarrow> solving) \<Rightarrow> utype \<Rightarrow> utype \<Rightarrow> tc_state \<Rightarrow> solving" where
  "unify_types env c again dest src s =
     (let k = canBeImplicitlyCast c
      in case as_Specialized dest of
           Some (db, das, du) \<Rightarrow>
             (case as_Specialized src of
                Some (sb, sas, su) \<Rightarrow>
                  if length das \<noteq> length sas then reportError s
                  else solved (add_pairs k das sas (add_constraint (Constraint k db sb) s))
              | None \<Rightarrow> solved (add_constraint (Constraint k du src) s))
         | None \<Rightarrow>
             (case as_Specialized src of
                Some (sb, sas, su) \<Rightarrow> solved (add_constraint (Constraint k dest su) s)
              | None \<Rightarrow>
                  (case equivalent dest (strictStruct env) False src of
                     None \<Rightarrow> Bug ''Unexpected type check for equivalence''
                   | Some True \<Rightarrow> solved s
                   | Some False \<Rightarrow>
                       if src = Base Type_Dontcare \<or> dest = Base Type_Dontcare then solved s
                       else (case (as_Any src, as_Any dest) of
                               (Some v, _) \<Rightarrow> solved (add_constraint (Constraint k dest src) (addUnifiableTypeVariable v s))
                             | (None, Some v) \<Rightarrow> solved (add_constraint (Constraint k dest src) (addUnifiableTypeVariable v s))
                             | (None, None) \<Rightarrow> unify_kinds env c again dest src s))))"

definition replace_if_var :: "tc_state \<Rightarrow> utype \<Rightarrow> utype comp" where
  "replace_if_var s t = (case t of TV v \<Rightarrow> replaceVariables s t | _ \<Rightarrow> ret t)"

text \<open>The recursive call has a base type on the right and does not call again.\<close>

fun unify :: "nat \<Rightarrow> unify_env \<Rightarrow> constraint \<Rightarrow> tc_state \<Rightarrow> solving" where
  "unify 0 env c s = Bug ''unreachable''"
| "unify (Suc n) env c s =
     bind_comp (replace_if_var s (cright c)) (\<lambda>src.
       bind_comp (replace_if_var s (cleft c)) (\<lambda>dest.
         unify_types env c (unify n env) dest src s))"

text \<open>Two levels of \<open>unify\<close> are enough: a rule is used again only for a constraint with a base type on
  the right, where no rule is used again.\<close>

lemma unify_kinds_Base: "unify_kinds env c f dest (Base b) s = unify_kinds env c g dest (Base b) s"
  by (cases dest) (simp_all add: unify_kinds_def unify_base_def Let_def)

lemma unify_types_Base: "unify_types env c f dest (Base b) s = unify_types env c g dest (Base b) s"
  unfolding unify_types_def unify_kinds_Base [of env c f dest b s g] by (rule refl)

lemma unify_Base: "unify (Suc n) env (Constraint k t (Base b)) s = unify (Suc m) env (Constraint k t (Base b)) s"
  using unify_types_Base [of env "Constraint k t (Base b)" "unify n env" _ b s "unify m env"]
  by (simp add: replace_if_var_def)

lemma unify_types_again:
  assumes "\<And>k t b. f (Constraint k t (Base b)) s = g (Constraint k t (Base b)) s"
  shows "unify_types env c f dest src s = unify_types env c g dest src s"
proof -
  have b: "unify_base c f b src s = unify_base c g b src s" for b
    by (cases src) (simp_all add: unify_base_def assms Let_def split: tvar.split)
  have "unify_kinds env c f dest src s = unify_kinds env c g dest src s"
    by (cases dest) (simp_all add: unify_kinds_def b Let_def)
  then show ?thesis by (simp only: unify_types_def)
qed

lemma unify_fuel: "unify (Suc (Suc n)) env c s = unify 2 env c s"
proof -
  have "unify_types env c (unify (Suc n) env) d t s = unify_types env c (unify (Suc 0) env) d t s" for d t
    by (rule unify_types_again) (rule unify_Base)
  then show ?thesis by (simp add: numeral_2_eq_2)
qed

section \<open>Solving the constraints\<close>

text \<open>Binding the variable \<open>v\<close> to the type on the other side.\<close>

definition bind_variable :: "tvar \<Rightarrow> utype \<Rightarrow> tc_state \<Rightarrow> solving" where
  "bind_variable v other s =
     bind_comp (replaceVariables s other) (\<lambda>t.
       if t = TV v then solved s
       else bind_comp (compose (currentSubstitution s) v t) (\<lambda>r.
         case r of
           None \<Rightarrow> reportError s
         | Some b \<Rightarrow> solved (s\<lparr>currentSubstitution := b\<rparr>)))"

definition solve_constraint :: "unify_env \<Rightarrow> constraint \<Rightarrow> tc_state \<Rightarrow> solving" where
  "solve_constraint env c s =
     (case c of Constraint k left right \<Rightarrow>
        if isUnifiableTypeVariable s left \<and> \<not> is_Any right then
          (case left of TV v \<Rightarrow>
             if left = right then solved s
             else (case map_of (currentSubstitution s) v of
                     None \<Rightarrow> bind_variable v right s
                   | Some leftSubst \<Rightarrow> solved (add_constraint (Constraint k leftSubst right) s))
           | _ \<Rightarrow> solved s)
        else if isUnifiableTypeVariable s right then
          (case right of TV v \<Rightarrow>
             (case map_of (currentSubstitution s) v of
                None \<Rightarrow> bind_variable v left s
              | Some rightSubst \<Rightarrow> solved (add_constraint (Constraint k left rightSubst) s))
           | _ \<Rightarrow> solved s)
        else unify 2 env c s)"

text \<open>The loop need not end; an inner \<open>None\<close> is the null pointer returned after an error.\<close>

partial_function (option) solve_loop :: "unify_env \<Rightarrow> tc_state \<Rightarrow> tc_state option comp option" where
  "solve_loop env s =
     (case pending s of
        [] \<Rightarrow> Some (ret (Some s))
      | c # cs \<Rightarrow>
          (case solve_constraint env c (s\<lparr>pending := cs\<rparr>) of
             Bug m \<Rightarrow> Some (Bug m)
           | Ok ds r \<Rightarrow>
               if \<not> fst r then Some (Ok ds None)
               else Option.bind (solve_loop env (snd r)) (\<lambda>res. Some (bind_comp (Ok ds ()) (\<lambda>_. res)))))"

definition solve :: "unify_env \<Rightarrow> tc_state \<Rightarrow> tc_state option comp option" where
  "solve env s = solve_loop env (s\<lparr>currentSubstitution := []\<rparr>)"

declare solve_loop.simps [code]

end
