(* ===== verification/TypeUnify_Sound.thy ===== *)
theory TypeUnify_Sound
  imports TypeConstraints
begin

text \<open>
  What it means that the constraints have been solved.  An instance of the type variables that
  satisfies the bindings of the returned substitution makes the right side of every constraint
  acceptable for the left one.  Acceptance is an inductive relation on types, modulo the instance.
\<close>

section \<open>Instances\<close>

primrec inst :: "(tvar \<Rightarrow> utype) \<Rightarrow> utype \<Rightarrow> utype" where
  "inst \<theta> (Base b) = Base b"
| "inst \<theta> (TV v) = \<theta> v"
| "inst \<theta> (Type_List ts) = Type_List (map (inst \<theta>) ts)"
| "inst \<theta> (Type_Tuple ts) = Type_Tuple (map (inst \<theta>) ts)"
| "inst \<theta> (Type_P4List t) = Type_P4List (inst \<theta> t)"
| "inst \<theta> (Type_Stack t n) = Type_Stack (inst \<theta> t) n"
| "inst \<theta> (Type_Set t) = Type_Set (inst \<theta> t)"
| "inst \<theta> (Type_Type t) = Type_Type (inst \<theta> t)"
| "inst \<theta> (Type_Fragment t) = Type_Fragment (inst \<theta> t)"
| "inst \<theta> (StructLike k n fs) = StructLike k n (map (map_prod id (inst \<theta>)) fs)"
| "inst \<theta> (Type_Enum n) = Type_Enum n"
| "inst \<theta> (Type_SerEnum n t) = Type_SerEnum n (inst \<theta> t)"
| "inst \<theta> (Type_Newtype n t) = Type_Newtype n (inst \<theta> t)"
| "inst \<theta> (Type_Extern n) = Type_Extern n"
| "inst \<theta> Type_Error = Type_Error"
| "inst \<theta> (Type_ActionEnum i) = Type_ActionEnum i"
| "inst \<theta> (Type_SpecializedCanonical b as u) = Type_SpecializedCanonical (inst \<theta> b) (map (inst \<theta>) as) (inst \<theta> u)"
| "inst \<theta> (MethodBase k tps r ps) = MethodBase k [] (map_option (inst \<theta>) r) (map (map_param (inst \<theta>)) ps)"
| "inst \<theta> (Type_MethodCall as r args) = Type_MethodCall (map (inst \<theta>) as) r (map (map_arg_info (inst \<theta>)) args)"
| "inst \<theta> (Type_Package n tps ps) = Type_Package n [] (map (map_param (inst \<theta>)) ps)"
| "inst \<theta> (ArchBlock k n tps ps) = ArchBlock k n [] (map (map_param (inst \<theta>)) ps)"
| "inst \<theta> (P4Container k n tps ps) = P4Container k n [] (map (map_param (inst \<theta>)) ps)"

definition sat :: "(tvar \<Rightarrow> utype) \<Rightarrow> binding \<Rightarrow> bool" where
  "sat \<theta> b \<longleftrightarrow> (\<forall>(v, t)\<in>set b. \<theta> v = inst \<theta> t)"

lemma sat_simps [simp]:
  "sat \<theta> []" "sat \<theta> ((v, t) # b) \<longleftrightarrow> \<theta> v = inst \<theta> t \<and> sat \<theta> b" "sat \<theta> (b @ b') \<longleftrightarrow> sat \<theta> b \<and> sat \<theta> b'"
  by (auto simp: sat_def)

lemma sat_map_of: "sat \<theta> b \<Longrightarrow> map_of b v = Some t \<Longrightarrow> \<theta> v = inst \<theta> t"
  by (auto simp: sat_def dest: map_of_SomeD)

lemma those_map_eq:
  assumes "those (map f xs) = Some ys" "\<And>x y. x \<in> set xs \<Longrightarrow> f x = Some y \<Longrightarrow> h y = h' x"
  shows "map h ys = map h' xs"
  using assms by (induction xs arbitrary: ys) (auto split: option.splits)

lemma seq_param_inst:
  assumes "seq_param (map_param f p) = Some q" "\<And>t u. t \<in> set_param p \<Longrightarrow> f t = Some u \<Longrightarrow> inst \<theta> u = inst \<theta> t"
  shows "map_param (inst \<theta>) q = map_param (inst \<theta>) p"
  using assms by (cases p) (auto simp: seq_param_def)

lemma seq_arg_inst:
  assumes "seq_arg (map_arg_info f p) = Some q" "\<And>t u. t \<in> set_arg_info p \<Longrightarrow> f t = Some u \<Longrightarrow> inst \<theta> u = inst \<theta> t"
  shows "map_arg_info (inst \<theta>) q = map_arg_info (inst \<theta>) p"
  using assms by (cases p) (auto simp: seq_arg_def)

lemma those_params_inst:
  assumes "those (map seq_param (map (map_param f) ps)) = Some qs"
    "\<And>p t u. p \<in> set ps \<Longrightarrow> t \<in> set_param p \<Longrightarrow> f t = Some u \<Longrightarrow> inst \<theta> u = inst \<theta> t"
  shows "map (map_param (inst \<theta>)) qs = map (map_param (inst \<theta>)) ps"
proof (rule those_map_eq)
  show "those (map (\<lambda>p. seq_param (map_param f p)) ps) = Some qs" using assms(1) by (simp add: comp_def)
  show "map_param (inst \<theta>) q = map_param (inst \<theta>) p" if "p \<in> set ps" "seq_param (map_param f p) = Some q" for p q
    using seq_param_inst [OF that(2)] assms(2) [OF that(1)] by blast
qed

lemma those_args_inst:
  assumes "those (map seq_arg (map (map_arg_info f) ps)) = Some qs"
    "\<And>p t u. p \<in> set ps \<Longrightarrow> t \<in> set_arg_info p \<Longrightarrow> f t = Some u \<Longrightarrow> inst \<theta> u = inst \<theta> t"
  shows "map (map_arg_info (inst \<theta>)) qs = map (map_arg_info (inst \<theta>)) ps"
proof (rule those_map_eq)
  show "those (map (\<lambda>p. seq_arg (map_arg_info f p)) ps) = Some qs" using assms(1) by (simp add: comp_def)
  show "map_arg_info (inst \<theta>) q = map_arg_info (inst \<theta>) p" if "p \<in> set ps" "seq_arg (map_arg_info f p) = Some q" for p q
    using seq_arg_inst [OF that(2)] assms(2) [OF that(1)] by blast
qed

lemma those_fields_inst:
  assumes "those (map seq_pair (map (map_prod id f) fs)) = Some gs"
    "\<And>n t u. (n, t) \<in> set fs \<Longrightarrow> f t = Some u \<Longrightarrow> inst \<theta> u = inst \<theta> t"
  shows "map (map_prod id (inst \<theta>)) gs = map (map_prod id (inst \<theta>)) fs"
proof (rule those_map_eq)
  show "those (map (\<lambda>p. seq_pair (map_prod id f p)) fs) = Some gs" using assms(1) by (simp add: comp_def)
  show "map_prod id (inst \<theta>) q = map_prod id (inst \<theta>) p" if "p \<in> set fs" "seq_pair (map_prod id f p) = Some q" for p q
    using that(2) assms(2) [of "fst p" "snd p"] that(1) by (cases p) (auto simp: seq_pair_def)
qed

text \<open>Replacing variables by types of the same instance keeps the instance.\<close>

lemma substM_inst:
  assumes "\<And>v u. f v = Some u \<Longrightarrow> inst \<theta> u = \<theta> v"
  shows "substM f keep t = Some t' \<Longrightarrow> inst \<theta> t' = inst \<theta> t"
proof (induction t arbitrary: t')
  case (Type_List ts)
  then show ?case by (auto dest!: those_map_eq [where h = "inst \<theta>" and h' = "inst \<theta>"])
next
  case (Type_Tuple ts)
  then show ?case by (auto dest!: those_map_eq [where h = "inst \<theta>" and h' = "inst \<theta>"])
next
  case (StructLike k n fs)
  then obtain gs where gs: "those (map seq_pair (map (map_prod id (substM f keep)) fs)) = Some gs" "t' = StructLike k n gs" by auto
  have "map (map_prod id (inst \<theta>)) gs = map (map_prod id (inst \<theta>)) fs"
    by (rule those_fields_inst [OF gs(1)]) (use StructLike.IH in fastforce)
  then show ?case by (simp add: gs(2))
next
  case (Type_SpecializedCanonical b as u)
  then obtain b' as' u' where e: "substM f keep b = Some b'" "those (map (substM f keep) as) = Some as'"
    "substM f keep u = Some u'" "t' = Type_SpecializedCanonical b' as' u'" by (auto simp: bind_eq_Some_conv)
  have "map (inst \<theta>) as' = map (inst \<theta>) as"
    by (rule those_map_eq [OF e(2)]) (use Type_SpecializedCanonical.IH in blast)
  then show ?case using Type_SpecializedCanonical.IH e by simp
next
  case (MethodBase k tps r ps)
  then obtain r' ps' where e: "seq_option (map_option (substM f keep) r) = Some r'"
    "those (map seq_param (map (map_param (substM f keep)) ps)) = Some ps'" "t' = MethodBase k (filter keep tps) r' ps'"
    by (auto simp: bind_eq_Some_conv)
  have "map (map_param (inst \<theta>)) ps' = map (map_param (inst \<theta>)) ps"
    by (rule those_params_inst [OF e(2)]) (use MethodBase.IH in blast)
  moreover have "map_option (inst \<theta>) r' = map_option (inst \<theta>) r"
    using e(1) MethodBase.IH(1) by (cases r) (auto simp: seq_option_def)
  ultimately show ?case by (simp add: e(3))
next
  case (Type_MethodCall as r args)
  then obtain as' args' where e: "those (map (substM f keep) as) = Some as'"
    "those (map seq_arg (map (map_arg_info (substM f keep)) args)) = Some args'" "t' = Type_MethodCall as' r args'"
    by (auto simp: bind_eq_Some_conv)
  have "map (inst \<theta>) as' = map (inst \<theta>) as"
    by (rule those_map_eq [OF e(1)]) (use Type_MethodCall.IH in blast)
  moreover have "map (map_arg_info (inst \<theta>)) args' = map (map_arg_info (inst \<theta>)) args"
    by (rule those_args_inst [OF e(2)]) (use Type_MethodCall.IH in blast)
  ultimately show ?case by (simp add: e(3))
next
  case (Type_Package n tps ps)
  then obtain ps' where e: "those (map seq_param (map (map_param (substM f keep)) ps)) = Some ps'"
    "t' = Type_Package n (filter keep tps) ps'" by auto
  have "map (map_param (inst \<theta>)) ps' = map (map_param (inst \<theta>)) ps"
    by (rule those_params_inst [OF e(1)]) (use Type_Package.IH in blast)
  then show ?case by (simp add: e(2))
next
  case (ArchBlock k n tps ps)
  then obtain ps' where e: "those (map seq_param (map (map_param (substM f keep)) ps)) = Some ps'"
    "t' = ArchBlock k n (filter keep tps) ps'" by auto
  have "map (map_param (inst \<theta>)) ps' = map (map_param (inst \<theta>)) ps"
    by (rule those_params_inst [OF e(1)]) (use ArchBlock.IH in blast)
  then show ?case by (simp add: e(2))
next
  case (P4Container k n tps ps)
  then obtain ps' where e: "those (map seq_param (map (map_param (substM f keep)) ps)) = Some ps'"
    "t' = P4Container k n (filter keep tps) ps'" by auto
  have "map (map_param (inst \<theta>)) ps' = map (map_param (inst \<theta>)) ps"
    by (rule those_params_inst [OF e(1)]) (use P4Container.IH in blast)
  then show ?case by (simp add: e(2))
qed (use assms in auto)

lemma replacement_inst: "sat \<theta> b \<Longrightarrow> replacement n b v = Some u \<Longrightarrow> inst \<theta> u = \<theta> v"
proof (induction n arbitrary: v u)
  case (Suc n)
  show ?case
  proof (cases "map_of b v")
    case None
    then show ?thesis using Suc.prems by auto
  next
    case (Some t)
    then have "substM (replacement n b) (\<lambda>v. map_of b v = None) t = Some u" using Suc.prems(2) by simp
    then have "inst \<theta> u = inst \<theta> t" by (rule substM_inst [rotated]) (rule Suc.IH [OF Suc.prems(1)])
    then show ?thesis using sat_map_of [OF Suc.prems(1) Some] by simp
  qed
qed simp

lemma apply_subst_inst: "sat \<theta> b \<Longrightarrow> apply_subst b t = Some u \<Longrightarrow> inst \<theta> u = inst \<theta> t"
  unfolding apply_subst_def by (rule substM_inst) (rule replacement_inst)

section \<open>Composition\<close>

lemma substM_TV: "substM f keep u = Some (TV x) \<Longrightarrow> \<exists>w. u = TV w"
  by (cases u) (auto simp: bind_eq_Some_conv)

text \<open>A binding that already implies the new one.\<close>

lemma apply_subst_cycle:
  assumes "apply_subst [(v, t)] u = Some (TV x)" "u \<noteq> TV x"
  shows "u = TV v \<and> t = TV x"
proof -
  from assms(1) substM_TV obtain w where w: "u = TV w" unfolding apply_subst_def by blast
  have r: "replacement (Suc (Suc 0)) [(v, t)] w = Some (TV x)" using assms(1) w by (simp add: apply_subst_def)
  have "w = v"
  proof (rule ccontr)
    assume "w \<noteq> v"
    then have "replacement (Suc (Suc 0)) [(v, t)] w = Some (TV w)" by simp
    with r w assms(2) show False by simp
  qed
  then have s: "substM (replacement (Suc 0) [(v, t)]) (\<lambda>z. map_of [(v, t)] z = None) t = Some (TV x)"
    using r by simp
  with substM_TV obtain y where y: "t = TV y" by blast
  then have ry: "replacement (Suc 0) [(v, t)] y = Some (TV x)" using s by simp
  have "y \<noteq> v"
  proof
    assume "y = v"
    then have "substM (replacement 0 [(v, t)]) (\<lambda>z. map_of [(v, t)] z = None) t = Some (TV x)" using ry by simp
    then show False by (simp add: y)
  qed
  then show ?thesis using ry w y \<open>w = v\<close> by simp
qed

lemma refine_bindings_sound:
  assumes "refine_bindings v t b = Ok ds (cycle, b')" "sat \<theta> b'" "\<not> cycle \<Longrightarrow> \<theta> v = inst \<theta> t"
  shows "sat \<theta> b \<and> \<theta> v = inst \<theta> t"
proof -
  have cyc: "\<theta> v = inst \<theta> t" if "refine_bindings v t b = Ok ds (True, b')" "sat \<theta> b'" for ds b b'
    using that
  proof (induction b arbitrary: ds b')
    case (Cons xu b)
    obtain x u where xu: "xu = (x, u)" by fastforce
    from Cons.prems(1) obtain u' ds1 c b1 where r: "apply_subst [(v, t)] u = Some u'" "refine_bindings v t b = Ok ds1 (c, b1)"
      by (auto simp: xu comp_simps split: option.split_asm)
    show ?case
    proof (cases "u' \<noteq> u \<and> TV x = u'")
      case True
      then have "u = TV v" "t = TV x" using apply_subst_cycle [of v t u x] r(1) by auto
      moreover have "b' = (x, u) # b1" using Cons.prems(1) r True by (auto simp: xu)
      ultimately show ?thesis using Cons.prems(2) by simp
    next
      case False
      then obtain w where "c = True" "b' = (x, w) # b1" using Cons.prems(1) r by (auto simp: xu split: if_split_asm)
      then show ?thesis using Cons.IH [of ds1 b1] r(2) Cons.prems(2) by simp
    qed
  qed simp
  have vt: "\<theta> v = inst \<theta> t" using cyc assms by (cases cycle) auto
  have "sat \<theta> b" if "refine_bindings v t b = Ok ds (cycle, b')" "sat \<theta> b'" for ds b b' cycle
    using that
  proof (induction b arbitrary: ds b' cycle)
    case (Cons xu b)
    obtain x u where xu: "xu = (x, u)" by fastforce
    from Cons.prems(1) obtain u' ds1 c b1 where r: "apply_subst [(v, t)] u = Some u'" "refine_bindings v t b = Ok ds1 (c, b1)"
      by (auto simp: xu comp_simps split: option.split_asm)
    have "inst \<theta> u' = inst \<theta> u" using r(1) by (rule apply_subst_inst [rotated]) (simp add: vt)
    moreover obtain w where "b' = (x, w) # b1" "w = u \<or> w = u'" using Cons.prems(1) r by (auto simp: xu split: if_split_asm)
    ultimately show ?case using Cons.IH [OF r(2)] Cons.prems(2) by (auto simp: xu)
  qed simp
  with assms(1,2) vt show ?thesis by blast
qed

lemma compose_sound:
  assumes "compose b v t = Ok ds (Some b')" "sat \<theta> b'"
  shows "sat \<theta> b \<and> (t = Base Type_Dontcare \<or> \<theta> v = inst \<theta> t \<or>
    (\<exists>i. v = Type_InfInt i) \<and> \<theta> v = inst \<theta> (underlying t))"
proof (cases "t = Base Type_Dontcare")
  case True
  then show ?thesis using assms by (simp add: compose_def)
next
  case False
  define i where "i = (case v of Type_InfInt i \<Rightarrow> True | _ \<Rightarrow> False)"
  define u where "u = (if i then underlying t else t)"
  from assms(1) False have "\<exists>b1. (refine_bindings v u b = Ok ds (True, b1) \<and> b' = b1) \<or>
      (refine_bindings v u b = Ok ds (False, b1) \<and> b' = b1 @ [(v, u)])"
    by (auto simp: compose_def Let_def i_def [symmetric] u_def comp_simps split: if_split_asm)
  then obtain cycle b1 where r: "refine_bindings v u b = Ok ds (cycle, b1)"
    "b' = (if cycle then b1 else b1 @ [(v, u)])"
    by (elim exE disjE conjE) (rule that [of True], assumption, simp, rule that [of False], assumption, simp)
  have "sat \<theta> b1" "\<not> cycle \<Longrightarrow> \<theta> v = inst \<theta> u" using r(2) assms(2) by (auto split: if_split_asm)
  from refine_bindings_sound [OF r(1) this] show ?thesis by (auto simp: u_def i_def split: if_split_asm tvar.split_asm)
qed

end
