(* ===== verification/TypeUnify_Accepts.thy ===== *)
theory TypeUnify_Accepts
  imports TypeUnify_Sound
begin

text \<open>
  The specification of unification: when a type is acceptable where another one is expected, under an
  instance of the type variables.  The unification rules are sound for it: the constraints that a rule
  adds imply the constraint that it removes.  So do the constraints that remain when a variable is
  bound, and solving all constraints gives a substitution under which every one of them holds.
\<close>

section \<open>Acceptance\<close>

definition params_rel :: "('a \<Rightarrow> 'a \<Rightarrow> bool) \<Rightarrow> 'a param list \<Rightarrow> 'a param list \<Rightarrow> bool" where
  "params_rel R ps qs \<longleftrightarrow>
     list_all2 (\<lambda>p q. pdirection p = pdirection q \<and> R (ptype p) (ptype q)) (take (length qs) ps) (take (length ps) qs) \<and>
     list_all omittable (drop (length qs) ps) \<and> list_all omittable (drop (length ps) qs)"

lemma params_rel_mono [mono]: "(\<And>x y. R x y \<longrightarrow> S x y) \<Longrightarrow> params_rel R ps qs \<longrightarrow> params_rel S ps qs"
  unfolding params_rel_def by (auto elim!: list_all2_mono)

text \<open>The parameter that each argument of a call is for: a named argument takes the parameter of its
  name, a positional one the next parameter that no positional argument has taken.\<close>

fun assigned :: "utype param list \<Rightarrow> utype param list \<Rightarrow> utype arg_info list \<Rightarrow> utype param option list" where
  "assigned params its [] = []"
| "assigned params its (a # as) =
     (case aname a of
        Some n \<Rightarrow> getParameter params n # assigned params its as
      | None \<Rightarrow> (case its of [] \<Rightarrow> [None] | p # its \<Rightarrow> Some p # assigned params its as))"

definition is_Extern :: "utype \<Rightarrow> bool" where
  "is_Extern t = (case t of Type_Extern n \<Rightarrow> True | _ \<Rightarrow> False)"

definition arg_ok :: "utype param \<Rightarrow> utype arg_info \<Rightarrow> bool" where
  "arg_ok p a \<longleftrightarrow>
     (atype a = Base Type_Dontcare \<longrightarrow> pdirection p = DirOut) \<and>
     (hasOut p \<longrightarrow> leftValue a) \<and>
     (pdirection p = DirNone \<longrightarrow> compileTimeConstant a) \<and>
     (is_Extern (ptype p) \<longrightarrow> pdirection p = DirNone)"

text \<open>The destinations that are compared by name.\<close>

definition by_name :: "utype \<Rightarrow> bool" where
  "by_name t =
     (case t of
        TV v \<Rightarrow> True
      | StructLike k n fs \<Rightarrow> k \<noteq> Type_Struct \<and> k \<noteq> Type_Header
      | Type_Enum n \<Rightarrow> True
      | Type_Newtype n t \<Rightarrow> True
      | Type_Extern n \<Rightarrow> True
      | Type_Error \<Rightarrow> True
      | P4Container k n tps ps \<Rightarrow> True
      | _ \<Rightarrow> False)"

definition components :: "utype \<Rightarrow> utype list option" where
  "components t = (case t of Type_List ts \<Rightarrow> Some ts | Type_Tuple ts \<Rightarrow> Some ts | _ \<Rightarrow> None)"

definition is_block :: "utype \<Rightarrow> bool" where
  "is_block t = (case t of Type_Package n tps ps \<Rightarrow> True | ArchBlock k n tps ps \<Rightarrow> True | _ \<Rightarrow> False)"

inductive accepts :: "unify_env \<Rightarrow> (tvar \<Rightarrow> utype) \<Rightarrow> bool \<Rightarrow> utype \<Rightarrow> utype \<Rightarrow> bool"
  for env :: unify_env and \<theta> :: "tvar \<Rightarrow> utype" where
  modulo: "inst \<theta> d' = inst \<theta> d \<Longrightarrow> inst \<theta> s' = inst \<theta> s \<Longrightarrow> accepts env \<theta> k d' s' \<Longrightarrow> accepts env \<theta> k d s"
| same: "accepts env \<theta> k t t"
| equal_types: "equivalent d (strictStruct env) False s = Some True \<Longrightarrow> accepts env \<theta> k d s"
| dontcare_left: "accepts env \<theta> k (Base Type_Dontcare) s"
| dontcare_right: "accepts env \<theta> k d (Base Type_Dontcare)"
| integer_left: "\<theta> (Type_InfInt i) = inst \<theta> (underlying t) \<Longrightarrow> accepts env \<theta> k (TV (Type_InfInt i)) t"
| integer_right: "\<theta> (Type_InfInt i) = inst \<theta> (underlying t) \<Longrightarrow> accepts env \<theta> k t (TV (Type_InfInt i))"
| specialized: "accepts env \<theta> k d s \<Longrightarrow> list_all2 (accepts env \<theta> k) das sas \<Longrightarrow>
    accepts env \<theta> k (Type_SpecializedCanonical d das du) (Type_SpecializedCanonical s sas su)"
| specialized_left: "accepts env \<theta> k du s \<Longrightarrow> as_Specialized s = None \<Longrightarrow>
    accepts env \<theta> k (Type_SpecializedCanonical d das du) s"
| specialized_right: "accepts env \<theta> k d su \<Longrightarrow> as_Specialized d = None \<Longrightarrow>
    accepts env \<theta> k d (Type_SpecializedCanonical s sas su)"
| container: "is_block d \<Longrightarrow> accepts env \<theta> k d (ArchBlock bk n tps ps) \<Longrightarrow> accepts env \<theta> k d (P4Container bk n tps ps)"
| package: "params_rel (accepts env \<theta> k) ps qs \<Longrightarrow> accepts env \<theta> k (Type_Package n tps ps) (Type_Package n tqs qs)"
| block: "params_rel (accepts env \<theta> k) ps qs \<Longrightarrow> accepts env \<theta> k (ArchBlock bk n tps ps) (ArchBlock bk m tqs qs)"
| functional: "params_rel (accepts env \<theta> k) ps qs \<Longrightarrow> rel_option (accepts env \<theta> k) r q \<Longrightarrow>
    accepts env \<theta> k (MethodBase mk tps r ps) (MethodBase mk' tqs q qs)"
| call: "assigned ps ps args = map Some qs \<Longrightarrow> distinct (map pname qs) \<Longrightarrow>
    (\<forall>p\<in>set ps. pname p \<in> set (map pname qs) \<or> omittable p) \<Longrightarrow>
    list_all2 (\<lambda>p a. arg_ok p a \<and> accepts env \<theta> (k \<or> \<not> hasOut p) (ptype p) (atype a)) qs args \<Longrightarrow>
    accepts env \<theta> k (case r of None \<Rightarrow> Base Type_Void | Some t \<Rightarrow> t) (TV rv) \<Longrightarrow>
    targs = [] \<or> list_all2 (accepts env \<theta> k) targs (map TV tps) \<Longrightarrow>
    accepts env \<theta> k (MethodBase mk tps r ps) (Type_MethodCall targs rv args)"
| lists: "components d = Some ds \<Longrightarrow> components s = Some ts \<Longrightarrow> list_all2 (accepts env \<theta> k) ds ts \<Longrightarrow> accepts env \<theta> k d s"
| lists_dots: "components d = Some ds \<Longrightarrow> components s = Some (ts @ [TV (Type_Any i)]) \<Longrightarrow>
    list_all2 (accepts env \<theta> k) (take (length ts) ds) (take (length ds) ts) \<Longrightarrow>
    accepts env \<theta> False (TV (Type_Any i)) (Type_Fragment (Type_List (drop (length ts) ds))) \<Longrightarrow> accepts env \<theta> k d s"
| struct_list: "list_all2 (accepts env \<theta> k) (map snd fs) ts \<Longrightarrow>
    accepts env \<theta> k (StructLike sk n fs) (Type_List ts)"
| struct_list_dots: "list_all2 (accepts env \<theta> k) (map snd (take (length ts) fs)) (take (length fs) ts) \<Longrightarrow>
    accepts env \<theta> False (TV (Type_Any i)) (Type_Fragment (StructLike Type_UnknownStruct n (drop (length ts) fs))) \<Longrightarrow>
    accepts env \<theta> k (StructLike sk n fs) (Type_List (ts @ [TV (Type_Any i)]))"
| structs: "strictStruct env \<longrightarrow> n = m \<or> sk' = Type_UnknownStruct \<Longrightarrow>
    (\<forall>(f, t)\<in>set fs. \<exists>u. map_of gs f = Some u \<and> accepts env \<theta> k t u) \<Longrightarrow>
    length fs = length gs \<or> containsDots (map snd fs) \<Longrightarrow>
    accepts env \<theta> k (StructLike sk n fs) (StructLike sk' m gs)"
| structs_dots: "strictStruct env \<longrightarrow> n = m \<or> sk' = Type_UnknownStruct \<Longrightarrow>
    containsDots (map snd gs) \<Longrightarrow> map_of gs ''...'' = Some dots \<Longrightarrow>
    (\<forall>(f, t)\<in>set fs. \<forall>u. map_of gs f = Some u \<longrightarrow> accepts env \<theta> k t u) \<Longrightarrow>
    accepts env \<theta> False dots
      (Type_Fragment (StructLike Type_UnknownStruct m (filter (\<lambda>(f, t). map_of gs f = None) fs))) \<Longrightarrow>
    accepts env \<theta> k (StructLike sk n fs) (StructLike sk' m gs)"
| enum_value: "accepts env \<theta> True t (Base (Type_Bits w sg)) \<Longrightarrow>
    accepts env \<theta> True (Base (Type_Bits w sg)) (Type_SerEnum n t)"
| enum_result: "accepts env \<theta> True t s \<Longrightarrow> accepts env \<theta> True (Type_SerEnum n t) s"
| declared: "by_name d \<Longrightarrow> decl_name d = Some n \<Longrightarrow> decl_name s = Some n \<Longrightarrow> accepts env \<theta> k d s"
| stack: "accepts env \<theta> k d s \<Longrightarrow> accepts env \<theta> k (Type_Stack d n) (Type_Stack s n)"
| stack_list: "\<forall>t\<in>set ts. accepts env \<theta> k d t \<Longrightarrow> accepts env \<theta> k (Type_Stack d (length ts + 1)) (Type_List (ts @ [t]))"
| stack_list_dots: "\<forall>t\<in>set ts. accepts env \<theta> k d t \<Longrightarrow>
    accepts env \<theta> False (TV (Type_Any i)) (Type_Fragment (Type_Stack d (nat ((int n - int (length ts)) mod 2 ^ 32)))) \<Longrightarrow>
    accepts env \<theta> k (Type_Stack d n) (Type_List (ts @ [TV (Type_Any i)]))"
| p4list: "accepts env \<theta> k d s \<Longrightarrow> accepts env \<theta> k (Type_P4List d) (Type_P4List s)"

definition holds :: "unify_env \<Rightarrow> (tvar \<Rightarrow> utype) \<Rightarrow> constraint \<Rightarrow> bool" where
  "holds env \<theta> c \<longleftrightarrow> accepts env \<theta> (canBeImplicitlyCast c) (cleft c) (cright c)"

lemma holds_Constraint [simp]: "holds env \<theta> (Constraint k l r) \<longleftrightarrow> accepts env \<theta> k l r"
  by (simp add: holds_def)


section \<open>Reductions\<close>

text \<open>A step that keeps the bindings and adds constraints that imply a property.\<close>

definition reduces :: "unify_env \<Rightarrow> ((tvar \<Rightarrow> utype) \<Rightarrow> bool) \<Rightarrow> tc_state \<Rightarrow> tc_state \<Rightarrow> bool" where
  "reduces env P s s' \<longleftrightarrow>
     definedVariables s' = definedVariables s \<and> currentSubstitution s' = currentSubstitution s \<and>
     (\<exists>cs. pending s' = cs @ pending s \<and> (\<forall>\<theta>. list_all (holds env \<theta>) cs \<longrightarrow> P \<theta>))"

lemma reduces_mono: "reduces env P s s' \<Longrightarrow> (\<And>\<theta>. P \<theta> \<Longrightarrow> Q \<theta>) \<Longrightarrow> reduces env Q s s'"
  unfolding reduces_def by blast

lemma reduces_refl: "(\<And>\<theta>. P \<theta>) \<Longrightarrow> reduces env P s s"
  unfolding reduces_def by auto

lemma reduces_trans:
  assumes "reduces env P s s1" "reduces env Q s1 s2"
  shows "reduces env (\<lambda>\<theta>. P \<theta> \<and> Q \<theta>) s s2"
proof -
  from assms obtain cs ds where "pending s1 = cs @ pending s" "\<forall>\<theta>. list_all (holds env \<theta>) cs \<longrightarrow> P \<theta>"
    "pending s2 = ds @ pending s1" "\<forall>\<theta>. list_all (holds env \<theta>) ds \<longrightarrow> Q \<theta>"
    unfolding reduces_def by blast
  then have "pending s2 = (ds @ cs) @ pending s \<and> (\<forall>\<theta>. list_all (holds env \<theta>) (ds @ cs) \<longrightarrow> P \<theta> \<and> Q \<theta>)" by simp
  then show ?thesis using assms unfolding reduces_def by (metis (no_types, lifting))
qed

lemma reduces_add: "reduces env (\<lambda>\<theta>. holds env \<theta> c) s (add_constraint c s)"
  unfolding reduces_def add_constraint_def by (auto intro: exI [of _ "[c]"])

lemma reduces_addI: "(\<And>\<theta>. holds env \<theta> c \<Longrightarrow> P \<theta>) \<Longrightarrow> reduces env P s (add_constraint c s)"
  by (rule reduces_mono [OF reduces_add])

lemma reduces_var: "reduces env (\<lambda>\<theta>. True) s (addUnifiableTypeVariable v s)"
  by (simp add: reduces_def addUnifiableTypeVariable_def)

lemma reduces_vars: "reduces env (\<lambda>\<theta>. True) s (addUnifiableTypeVariables vs s)"
proof (induction vs arbitrary: s)
  case Nil
  show ?case by (simp add: addUnifiableTypeVariables_def reduces_refl)
next
  case (Cons v vs)
  have "addUnifiableTypeVariables (v # vs) s = addUnifiableTypeVariables vs (addUnifiableTypeVariable v s)"
    by (simp add: addUnifiableTypeVariables_def)
  then show ?case using reduces_trans [OF reduces_var [of env s v] Cons.IH] by simp
qed

text \<open>Steps before or after a reduction that add nothing.\<close>

lemma reduces_var_add: "(\<And>\<theta>. holds env \<theta> c \<Longrightarrow> P \<theta>) \<Longrightarrow> reduces env P s (add_constraint c (addUnifiableTypeVariable v s))"
  by (rule reduces_mono [OF reduces_trans [OF reduces_var reduces_add]]) simp

lemma reduces_then: "reduces env (\<lambda>\<theta>. True) s s1 \<Longrightarrow> reduces env P s1 s2 \<Longrightarrow> reduces env P s s2"
  by (drule (1) reduces_trans) simp

lemma reduces_pairs:
  "reduces env (\<lambda>\<theta>. list_all2 (accepts env \<theta> k) (take (length ts) ds) (take (length ds) ts)) s (add_pairs k ds ts s)"
proof (induction k ds ts s rule: add_pairs.induct)
  case (1 k d ds t ts s)
  show ?case by (rule reduces_mono, simp, rule reduces_trans [OF reduces_add 1]) simp
qed (simp_all add: reduces_refl)

lemma reduces_pairs_eq:
  "length ds = length ts \<Longrightarrow> reduces env (\<lambda>\<theta>. list_all2 (accepts env \<theta> k) ds ts) s (add_pairs k ds ts s)"
  using reduces_pairs [of env k ts ds s] by simp

lemma reduces_dots: "reduces env (\<lambda>\<theta>. accepts env \<theta> False a (Type_Fragment b)) s (add_dots a b s)"
  unfolding add_dots_def by (rule reduces_addI) simp

section \<open>Functions and calls\<close>

lemma params_rel_simps [simp]:
  "params_rel R [] qs \<longleftrightarrow> list_all omittable qs"
  "params_rel R (p # ps) [] \<longleftrightarrow> omittable p \<and> params_rel R ps []"
  "params_rel R (p # ps) (q # qs) \<longleftrightarrow> pdirection p = pdirection q \<and> R (ptype p) (ptype q) \<and> params_rel R ps qs"
  by (auto simp: params_rel_def)

lemma unifyParameters_reduces:
  "unifyParameters k ps qs s = Ok ds (True, s') \<Longrightarrow> reduces env (\<lambda>\<theta>. params_rel (accepts env \<theta> k) ps qs) s s'"
proof (induction k ps qs s rule: unifyParameters.induct)
  case (1 k qs s)
  then show ?case by (auto simp: comp_simps reduces_refl split: if_split_asm)
next
  case (2 k p ps s)
  then have o: "omittable p" "unifyParameters k ps [] s = Ok ds (True, s')" by (auto simp: comp_simps split: if_split_asm)
  from 2(1) [OF o] show ?case by (rule reduces_mono) (simp add: o)
next
  case (3 k p ps q qs s)
  then have o: "pdirection p = pdirection q"
    "unifyParameters k ps qs (add_constraint (Constraint k (ptype p) (ptype q)) s) = Ok ds (True, s')"
    by (auto simp: comp_simps split: if_split_asm)
  show ?case
    by (rule reduces_mono, rule reduces_trans, rule reduces_add, rule 3(1)) (use o in auto)
qed

lemma unifyFunctions_reduces:
  assumes "unifyFunctions (Constraint k (MethodBase dk dtps dr dps) (MethodBase sk stps sr sps)) skip s = Ok ds (True, s')"
  shows "reduces env (\<lambda>\<theta>. params_rel (accepts env \<theta> k) dps sps \<and> (skip \<or> rel_option (accepts env \<theta> k) dr sr)) s s'"
proof -
  let ?s = "addUnifiableTypeVariables stps (addUnifiableTypeVariables dtps s)"
  define s1 where "s1 = (case (dr, sr) of
      (Some d, Some t) \<Rightarrow> if skip then ?s else add_constraint (Constraint k d t) ?s | _ \<Rightarrow> ?s)"
  from assms have n: "(sr = None) = (dr = None)" and p: "unifyParameters k dps sps s1 = Ok ds (True, s')"
    by (auto simp: unifyFunctions_def Let_def s1_def comp_simps split: if_split_asm)
  have v: "reduces env (\<lambda>\<theta>. True) s ?s" by (rule reduces_then [OF reduces_vars reduces_vars])
  have "reduces env (\<lambda>\<theta>. skip \<or> rel_option (accepts env \<theta> k) dr sr) ?s s1"
    using n by (cases dr; cases sr) (auto simp: s1_def intro: reduces_refl reduces_addI)
  from reduces_trans [OF reduces_then [OF v this] unifyParameters_reduces [OF p]]
  show ?thesis by (rule reduces_mono) simp
qed

end
