(* ===== verification/TypeUnify_Rules.thy ===== *)
theory TypeUnify_Rules
  imports TypeUnify_Accepts
begin

text \<open>
  Every unification rule is sound for acceptance, and so is the loop that solves the constraints.
\<close>

section \<open>Calls\<close>

lemma getParameter_in: "getParameter ps n = Some p \<Longrightarrow> p \<in> set ps \<and> pname p = n"
  by (auto simp: getParameter_def find_Some_iff)

text \<open>What one step of the loop over the arguments has checked.\<close>

lemma unifyArguments_step:
  assumes "unifyArguments env k params (a # as) its left s = Ok ds (True, left', s')" "\<not> optarg env"
  obtains p its' where
    "assigned params its (a # as) = Some p # assigned params its' as" "pname p \<in> set (map pname left)" "arg_ok p a"
    "unifyArguments env k params as its' (filter (\<lambda>q. pname q \<noteq> pname p) left)
       (add_constraint (Constraint (k \<or> \<not> hasOut p) (ptype p) (atype a)) s) = Ok ds (True, left', s')"
proof -
  define found where "found = (case aname a of Some n \<Rightarrow> getParameter params n | None \<Rightarrow> (case its of [] \<Rightarrow> None | p # _ \<Rightarrow> Some p))"
  from assms obtain p where p: "found = Some p"
    by (cases found) (auto simp: Let_def found_def [symmetric] comp_simps)
  let ?its = "if aname a \<noteq> None then its else tl its"
  have "assigned params its (a # as) = Some p # assigned params ?its as"
    using p by (auto simp: found_def split: option.splits list.splits)
  moreover have "pname p \<in> set (map pname left) \<and> arg_ok p a \<and>
    unifyArguments env k params as ?its (filter (\<lambda>q. pname q \<noteq> pname p) left)
       (add_constraint (Constraint (k \<or> \<not> hasOut p) (ptype p) (atype a)) s) = Ok ds (True, left', s')"
    using assms p
    by (simp add: Let_def found_def [symmetric] comp_simps arg_ok_def is_Extern_def split: if_split_asm; blast)
  ultimately show thesis using that by blast
qed

lemma unifyArguments_reduces:
  assumes "unifyArguments env k params args its left s = Ok ds (True, left', s')" "\<not> optarg env"
  shows "\<exists>qs. assigned params its args = map Some qs \<and> distinct (map pname qs) \<and>
    set (map pname qs) \<subseteq> set (map pname left) \<and>
    left' = filter (\<lambda>p. pname p \<notin> set (map pname qs)) left \<and>
    reduces env (\<lambda>\<theta>. list_all2 (\<lambda>p a. arg_ok p a \<and> accepts env \<theta> (k \<or> \<not> hasOut p) (ptype p) (atype a)) qs args) s s'"
  using assms(1)
proof (induction args arbitrary: its left s)
  case Nil
  then show ?case by (auto intro!: exI [of _ "[]"] reduces_refl)
next
  case (Cons a as)
  from Cons.prems assms(2) obtain p its' where st:
    "assigned params its (a # as) = Some p # assigned params its' as" "pname p \<in> set (map pname left)" "arg_ok p a"
    "unifyArguments env k params as its' (filter (\<lambda>q. pname q \<noteq> pname p) left)
       (add_constraint (Constraint (k \<or> \<not> hasOut p) (ptype p) (atype a)) s) = Ok ds (True, left', s')"
    by (rule unifyArguments_step)
  from Cons.IH [OF st(4)] obtain qs where qs: "assigned params its' as = map Some qs" "distinct (map pname qs)"
    "set (map pname qs) \<subseteq> set (map pname (filter (\<lambda>q. pname q \<noteq> pname p) left))"
    "left' = filter (\<lambda>q. pname q \<notin> set (map pname qs)) (filter (\<lambda>q. pname q \<noteq> pname p) left)"
    "reduces env (\<lambda>\<theta>. list_all2 (\<lambda>p a. arg_ok p a \<and> accepts env \<theta> (k \<or> \<not> hasOut p) (ptype p) (atype a)) qs as)
       (add_constraint (Constraint (k \<or> \<not> hasOut p) (ptype p) (atype a)) s) s'" by (elim exE conjE)
  show ?case
  proof (intro exI [of _ "p # qs"] conjI)
    show "assigned params its (a # as) = map Some (p # qs)" using st(1) qs(1) by simp
    show "distinct (map pname (p # qs))" using qs(2,3) by auto
    show "set (map pname (p # qs)) \<subseteq> set (map pname left)" using qs(3) st(2) by auto
    show "left' = filter (\<lambda>q. pname q \<notin> set (map pname (p # qs))) left" using qs(4) by (simp add: conj_commute)
    show "reduces env (\<lambda>\<theta>. list_all2 (\<lambda>p a. arg_ok p a \<and> accepts env \<theta> (k \<or> \<not> hasOut p) (ptype p) (atype a)) (p # qs) (a # as)) s s'"
      by (rule reduces_mono, rule reduces_trans, rule reduces_add, rule qs(5)) (use st(3) in auto)
  qed
qed

lemma unifyTypeArguments_reduces:
  "length targs = length tps \<Longrightarrow>
     reduces env (\<lambda>\<theta>. list_all2 (accepts env \<theta> k) targs (map TV tps)) s (unifyTypeArguments k targs tps s)"
proof (induction targs tps arbitrary: s rule: list_induct2)
  case (Cons t ts v vs)
  show ?case by (simp, rule reduces_mono, rule reduces_trans, rule reduces_add, rule Cons.IH) auto
qed (simp add: reduces_refl)

lemma unifyCall_reduces:
  assumes "unifyCall env (Constraint k (MethodBase mk tps r ps) (Type_MethodCall targs rv args)) s = Ok ds (True, s')"
    "\<not> optarg env"
  shows "reduces env (\<lambda>\<theta>. accepts env \<theta> k (MethodBase mk tps r ps) (Type_MethodCall targs rv args)) s s'"
proof -
  let ?r = "case r of None \<Rightarrow> Base Type_Void | Some t \<Rightarrow> t"
  define s1 where "s1 = add_constraint (Constraint k ?r (TV rv)) (addUnifiableTypeVariables tps s)"
  define s2 where "s2 = addUnifiableTypeVariables tps (addUnifiableTypeVariable rv s1)"
  from assms(1) obtain left s3 ds1 where a: "unifyArguments env k ps args ps ps s2 = Ok ds1 (True, left, s3)"
    and l: "list_all omittable left" and t: "targs = [] \<or> length targs = length tps"
    and s': "s' = unifyTypeArguments k targs tps s3"
    by (auto simp: unifyCall_def Let_def s1_def s2_def comp_simps split: if_split_asm)
  from unifyArguments_reduces [OF a assms(2)] obtain qs where qs: "assigned ps ps args = map Some qs" "distinct (map pname qs)"
    "left = filter (\<lambda>p. pname p \<notin> set (map pname qs)) ps"
    "reduces env (\<lambda>\<theta>. list_all2 (\<lambda>p a. arg_ok p a \<and> accepts env \<theta> (k \<or> \<not> hasOut p) (ptype p) (atype a)) qs args) s2 s3"
    by (elim exE conjE)
  have o: "\<forall>p\<in>set ps. pname p \<in> set (map pname qs) \<or> omittable p" using l qs(3) by (auto simp: list_all_iff)
  have a1: "reduces env (\<lambda>\<theta>. accepts env \<theta> k ?r (TV rv)) s s1"
    unfolding s1_def by (rule reduces_then [OF reduces_vars reduces_addI]) simp
  have a2: "reduces env (\<lambda>\<theta>. True) s1 s2" unfolding s2_def by (rule reduces_then [OF reduces_var reduces_vars])
  have a3: "reduces env (\<lambda>\<theta>. targs = [] \<or> list_all2 (accepts env \<theta> k) targs (map TV tps)) s3 s'"
  proof (cases "targs = []")
    case True
    then show ?thesis unfolding s' by (simp add: reduces_refl)
  next
    case False
    then have "length targs = length tps" using t by simp
    then show ?thesis unfolding s' by (rule reduces_mono [OF unifyTypeArguments_reduces]) simp
  qed
  show ?thesis
  proof (rule reduces_mono [OF reduces_trans [OF a1 reduces_then [OF a2 reduces_trans [OF qs(4) a3]]]])
    fix \<theta>
    assume h: "accepts env \<theta> k ?r (TV rv) \<and>
      list_all2 (\<lambda>p a. arg_ok p a \<and> accepts env \<theta> (k \<or> \<not> hasOut p) (ptype p) (atype a)) qs args \<and>
      (targs = [] \<or> list_all2 (accepts env \<theta> k) targs (map TV tps))"
    show "accepts env \<theta> k (MethodBase mk tps r ps) (Type_MethodCall targs rv args)"
      by (rule accepts.call [OF qs(1,2) o]) (use h in simp_all)
  qed
qed

section \<open>Packages, parsers and controls\<close>

lemma unifyBlocks_reduces:
  assumes "unifyBlocks (Constraint k d src) s = Ok ds (True, s')"
  shows "reduces env (\<lambda>\<theta>. accepts env \<theta> k d src) s s'"
proof -
  have vs: "reduces env (\<lambda>\<theta>. True) s (addUnifiableTypeVariables b (addUnifiableTypeVariables a s))" for a b
    by (rule reduces_then [OF reduces_vars reduces_vars])
  consider (package) n tps ps m tqs qs where "d = Type_Package n tps ps" "src = Type_Package m tqs qs"
    | (block) dk n tps ps sk m tqs qs where "d = ArchBlock dk n tps ps" "src = ArchBlock sk m tqs qs"
    using assms by (simp add: unifyBlocks_def comp_simps split: utype.split_asm)
  then show ?thesis
  proof cases
    case package
    from assms have "n = m" and u: "unifyFunctions (Constraint k (MethodBase Type_Method tps (Some d) ps)
        (MethodBase Type_Method tqs (Some src) qs)) True
        (addUnifiableTypeVariables tqs (addUnifiableTypeVariables tps s)) = Ok ds (True, s')"
      by (auto simp: unifyBlocks_def package Let_def comp_simps split: if_split_asm)
    show ?thesis unfolding package \<open>n = m\<close>
      by (rule reduces_mono [OF reduces_then [OF vs unifyFunctions_reduces [OF u]]]) (blast intro: accepts.package)
  next
    case block
    from assms have "dk = sk" and u: "unifyFunctions (Constraint k (MethodBase Type_Method [] None ps)
        (MethodBase Type_Method [] None qs)) False
        (addUnifiableTypeVariables tqs (addUnifiableTypeVariables tps s)) = Ok ds (True, s')"
      by (auto simp: unifyBlocks_def block Let_def comp_simps split: if_split_asm)
    show ?thesis unfolding block \<open>dk = sk\<close>
      by (rule reduces_mono [OF reduces_then [OF vs unifyFunctions_reduces [OF u]]]) (blast intro: accepts.block)
  qed
qed


section \<open>Lists and structures\<close>

lemma containsDotsE:
  assumes "containsDots ts"
  obtains us i where "ts = us @ [TV (Type_Any i)]"
proof -
  from assms have "ts = butlast ts @ [last ts]" "is_Any (last ts)" by (simp_all add: containsDots_def)
  then show thesis using that by (auto simp: is_Any_def split: utype.split_asm tvar.split_asm)
qed

lemma unifyBaseLists_reduces:
  assumes "unifyBaseLists k ds ts s = Ok es (True, s')" "components d = Some ds" "components src = Some ts"
  shows "reduces env (\<lambda>\<theta>. accepts env \<theta> k d src) s s'"
proof (cases "containsDots ts")
  case True
  then obtain us i where us: "ts = us @ [TV (Type_Any i)]" by (rule containsDotsE)
  have "s' = add_dots (TV (Type_Any i)) (Type_List (drop (length us) ds)) (add_pairs k (take (length us) ds) us s)"
    using assms(1) True by (simp add: unifyBaseLists_def Let_def us comp_simps)
  then have "reduces env (\<lambda>\<theta>. list_all2 (accepts env \<theta> k) (take (length us) (take (length us) ds)) (take (length (take (length us) ds)) us) \<and>
      accepts env \<theta> False (TV (Type_Any i)) (Type_Fragment (Type_List (drop (length us) ds)))) s s'"
    by (simp only:) (rule reduces_trans [OF reduces_pairs reduces_dots])
  moreover have "take (length (take (length us) ds)) us = take (length ds) us" by (simp add: min_def)
  ultimately show ?thesis
    by (elim reduces_mono) (rule accepts.lists_dots [OF assms(2) assms(3) [unfolded us]], simp_all)
next
  case False
  then have "length ds = length ts" "s' = add_pairs k ds ts s"
    using assms(1) by (auto simp: unifyBaseLists_def Let_def comp_simps split: if_split_asm)
  then show ?thesis
    by (simp only:) (rule reduces_mono [OF reduces_pairs_eq], simp_all add: accepts.lists [OF assms(2,3)])
qed

lemma unifyStructList_reduces:
  assumes "unifyStructList k n fs ts s = Ok es (True, s')"
  shows "reduces env (\<lambda>\<theta>. accepts env \<theta> k (StructLike sk n fs) (Type_List ts)) s s'"
proof (cases "containsDots ts")
  case True
  then obtain us i where us: "ts = us @ [TV (Type_Any i)]" by (rule containsDotsE)
  let ?fs = "map snd (take (length us) fs)"
  have "s' = add_dots (TV (Type_Any i)) (StructLike Type_UnknownStruct n (drop (length us) fs)) (add_pairs k ?fs us s)"
    using assms(1) True by (simp add: unifyStructList_def Let_def us comp_simps)
  then have "reduces env (\<lambda>\<theta>. list_all2 (accepts env \<theta> k) (take (length us) ?fs) (take (length ?fs) us) \<and>
      accepts env \<theta> False (TV (Type_Any i)) (Type_Fragment (StructLike Type_UnknownStruct n (drop (length us) fs)))) s s'"
    by (simp only:) (rule reduces_trans [OF reduces_pairs reduces_dots])
  moreover have "take (length ?fs) us = take (length fs) us" "take (length us) ?fs = ?fs" by (simp_all add: min_def)
  ultimately show ?thesis unfolding us
    by (elim reduces_mono) (rule accepts.struct_list_dots, simp_all)
next
  case False
  then have "length (map snd fs) = length ts" "s' = add_pairs k (map snd fs) ts s"
    using assms(1) by (auto simp: unifyStructList_def Let_def comp_simps split: if_split_asm)
  then show ?thesis
    by (simp only:) (rule reduces_mono [OF reduces_pairs_eq], simp_all add: accepts.struct_list)
qed

lemma unifyFields_reduces:
  "unifyFields k fs gs hasd s = Ok es (True, missing, s') \<Longrightarrow>
     missing = filter (\<lambda>(f, t). map_of gs f = None) fs \<and> (\<not> hasd \<longrightarrow> missing = []) \<and>
     reduces env (\<lambda>\<theta>. \<forall>(f, t)\<in>set fs. \<forall>u. map_of gs f = Some u \<longrightarrow> accepts env \<theta> k t u) s s'"
proof (induction k fs gs hasd s arbitrary: es missing s' rule: unifyFields.induct)
  case (1 k gs hasd s)
  then show ?case by (simp add: comp_simps reduces_refl)
next
  case (2 k n t fs gs hasd s)
  show ?case
  proof (cases "map_of gs n")
    case None
    with 2(3) obtain es1 m1 where hasd: "hasd" "unifyFields k fs gs hasd s = Ok es1 (True, m1, s')" "missing = (n, t) # m1"
      by (auto simp: comp_simps split: if_split_asm)
    show ?thesis using 2(1) [OF None hasd(1,2)] None hasd(1,3) by (auto elim: reduces_mono)
  next
    case (Some u)
    with 2(3) have u: "unifyFields k fs gs hasd (add_constraint (Constraint k t u) s) = Ok es (True, missing, s')" by simp
    from 2(2) [OF Some u] have m: "missing = filter (\<lambda>(f, t). map_of gs f = None) fs" "\<not> hasd \<longrightarrow> missing = []"
      and r: "reduces env (\<lambda>\<theta>. \<forall>(f, t)\<in>set fs. \<forall>u. map_of gs f = Some u \<longrightarrow> accepts env \<theta> k t u)
         (add_constraint (Constraint k t u) s) s'" by blast+
    have "reduces env (\<lambda>\<theta>. \<forall>(f, t)\<in>set ((n, t) # fs). \<forall>u. map_of gs f = Some u \<longrightarrow> accepts env \<theta> k t u) s s'"
      by (rule reduces_mono [OF reduces_trans [OF reduces_add r]]) (use Some in auto)
    then show ?thesis using m Some by simp
  qed
qed

lemma unifyStructs_reduces:
  assumes "unifyStructs (strictStruct env) k n fs sk' m gs s = Ok es (True, s')"
  shows "reduces env (\<lambda>\<theta>. accepts env \<theta> k (StructLike sk n fs) (StructLike sk' m gs)) s s'"
proof -
  let ?hasd = "containsDots (map snd gs)"
  from assms obtain es1 missing s1 where c: "strictStruct env \<longrightarrow> n = m \<or> sk' = Type_UnknownStruct"
    "length fs = length gs \<or> containsDots (map snd fs) \<or> ?hasd"
    and u: "unifyFields k fs gs ?hasd s = Ok es1 (True, missing, s1)"
    and f: "(if ?hasd then case map_of gs ''...'' of
               None \<Rightarrow> Bug ''CHECK_NULL''
             | Some dotsField \<Rightarrow> solved (add_dots dotsField (StructLike Type_UnknownStruct m missing) s1)
            else solved s1) = Ok [] (True, s') \<or>
            ?hasd \<and> (\<exists>d. map_of gs ''...'' = Some d \<and> s' = add_dots d (StructLike Type_UnknownStruct m missing) s1) \<or>
            \<not> ?hasd \<and> s' = s1"
    by (auto simp: unifyStructs_def Let_def comp_simps split: if_split_asm option.split_asm)
  note r = unifyFields_reduces [OF u, of env]
  show ?thesis
  proof (cases ?hasd)
    case True
    with f obtain d where d: "map_of gs ''...'' = Some d" "s' = add_dots d (StructLike Type_UnknownStruct m missing) s1"
      by (auto simp: comp_simps split: option.split_asm)
    have "reduces env (\<lambda>\<theta>. (\<forall>(f, t)\<in>set fs. \<forall>u. map_of gs f = Some u \<longrightarrow> accepts env \<theta> k t u) \<and>
        accepts env \<theta> False d (Type_Fragment (StructLike Type_UnknownStruct m missing))) s s'"
      unfolding d(2) by (rule reduces_trans [OF _ reduces_dots]) (use r in blast)
    then show ?thesis
      by (rule reduces_mono) (rule accepts.structs_dots [OF c(1) True d(1)], simp, use r in simp)
  next
    case False
    with f have s': "s' = s1" by (auto simp: comp_simps)
    have all: "\<exists>u. map_of gs f = Some u" if "(f, t) \<in> set fs" for f t
    proof -
      from r False have "filter (\<lambda>(f, t). map_of gs f = None) fs = []" by metis
      with that show ?thesis by (fastforce simp: filter_empty_conv)
    qed
    have "reduces env (\<lambda>\<theta>. \<forall>(f, t)\<in>set fs. \<forall>u. map_of gs f = Some u \<longrightarrow> accepts env \<theta> k t u) s s'"
      using r s' by blast
    then show ?thesis
    proof (rule reduces_mono)
      fix \<theta>
      assume "\<forall>(f, t)\<in>set fs. \<forall>u. map_of gs f = Some u \<longrightarrow> accepts env \<theta> k t u"
      with all have "\<forall>(f, t)\<in>set fs. \<exists>u. map_of gs f = Some u \<and> accepts env \<theta> k t u" by fast
      then show "accepts env \<theta> k (StructLike sk n fs) (StructLike sk' m gs)"
        by (rule accepts.structs [OF c(1)]) (use c(2) False in blast)
    qed
  qed
qed

lemma unifyStackList_reduces:
  assumes "unifyStackList k e n ts s = Ok es (True, s')"
  shows "reduces env (\<lambda>\<theta>. accepts env \<theta> k (Type_Stack e n) (Type_List ts)) s s'"
proof -
  from assms have ne: "ts \<noteq> []" by (auto simp: unifyStackList_def Let_def comp_simps split: if_split_asm)
  have p: "reduces env (\<lambda>\<theta>. \<forall>t\<in>set us. accepts env \<theta> k e t) s (add_pairs k (replicate (length us) e) us s)" for us s
    by (rule reduces_mono [OF reduces_pairs_eq]) (auto simp: list_all2_conv_all_nth in_set_conv_nth)
  show ?thesis
  proof (cases "containsDots ts")
    case True
    then obtain us i where us: "ts = us @ [TV (Type_Any i)]" by (rule containsDotsE)
    have "s' = add_dots (TV (Type_Any i)) (Type_Stack e (nat ((int n - int (length us)) mod 2 ^ 32)))
        (add_pairs k (replicate (length us) e) us s)"
      using assms True by (simp add: unifyStackList_def Let_def us comp_simps)
    then have "reduces env (\<lambda>\<theta>. (\<forall>t\<in>set us. accepts env \<theta> k e t) \<and>
        accepts env \<theta> False (TV (Type_Any i)) (Type_Fragment (Type_Stack e (nat ((int n - int (length us)) mod 2 ^ 32))))) s s'"
      by (simp only:) (rule reduces_trans [OF p reduces_dots])
    then show ?thesis unfolding us by (rule reduces_mono) (rule accepts.stack_list_dots, simp_all)
  next
    case False
    obtain us t where us: "ts = us @ [t]" using ne by (metis append_butlast_last_id)
    have "n = length us + 1" "s' = add_pairs k (replicate (length us) e) us s"
      using assms False by (auto simp: unifyStackList_def Let_def us comp_simps split: if_split_asm)
    then show ?thesis unfolding us
      by (simp only:) (rule reduces_mono [OF p], rule accepts.stack_list)
  qed
qed

end
