(* ===== verification/TypeUnify_Solve.thy ===== *)
theory TypeUnify_Solve
  imports TypeUnify_Rules
begin

text \<open>
  The rules of unification put together, and the loop that solves the constraints: when it returns a
  substitution, every constraint it was given holds under every instance that satisfies it.
\<close>

section \<open>One rule\<close>

text \<open>What is asked of the recursive call, and what holds of the rules then.\<close>

definition rule_sound :: "unify_env \<Rightarrow> (constraint \<Rightarrow> tc_state \<Rightarrow> solving) \<Rightarrow> bool" where
  "rule_sound env rec \<longleftrightarrow>
     (\<forall>k d t s ds s'. rec (Constraint k d t) s = Ok ds (True, s') \<longrightarrow>
        reduces env (\<lambda>\<theta>. sat \<theta> (definedVariables s) \<longrightarrow> accepts env \<theta> k d t) s s')"

lemma reduces_imp: "reduces env P s s' \<Longrightarrow> reduces env (\<lambda>\<theta>. Q \<theta> \<longrightarrow> P \<theta>) s s'"
  by (erule reduces_mono) simp

lemma unify_base_reduces:
  assumes "unify_base (Constraint k l r) rec b src s = Ok ds (True, s')" "rule_sound env rec"
  shows "reduces env (\<lambda>\<theta>. sat \<theta> (definedVariables s) \<longrightarrow> accepts env \<theta> k (Base b) src) s s'"
proof -
  consider (int) i where "src = TV (Type_InfInt i)"
      "s' = add_constraint (Constraint k (Base b) src) (addUnifiableTypeVariable (Type_InfInt i) s)"
    | (enum) w sg n t where "src = Type_SerEnum n t" k "b = Type_Bits w sg" "rec (Constraint True t (Base b)) s = Ok ds (True, s')"
    | (eq) "src = Base b" "s' = s"
    using assms(1)
    by (simp add: unify_base_def Let_def comp_simps split: utype.split_asm tvar.split_asm if_split_asm base_type.split_asm)
  then show ?thesis
  proof cases
    case int
    show ?thesis unfolding int(2) by (rule reduces_imp) (rule reduces_var_add, simp)
  next
    case enum
    from enum(4) assms(2) have "reduces env (\<lambda>\<theta>. sat \<theta> (definedVariables s) \<longrightarrow> accepts env \<theta> True t (Base b)) s s'"
      unfolding rule_sound_def by blast
    then show ?thesis using enum(2) unfolding enum(1,3) by (elim reduces_mono) (auto intro: accepts.enum_value)
  next
    case eq
    show ?thesis unfolding eq by (rule reduces_refl) (simp add: accepts.same)
  qed
qed

lemma unifyDeclarations_reduces:
  assumes "unifyDeclarations d src s = Ok ds (True, s')" "by_name d"
  shows "reduces env (\<lambda>\<theta>. accepts env \<theta> k d src) s s'"
proof -
  from assms(1) obtain n where "decl_name d = Some n" "decl_name src = Some n" "s' = s"
    by (auto simp: unifyDeclarations_def comp_simps split: option.split_asm if_split_asm)
  then show ?thesis using assms(2) by (auto intro!: reduces_refl accepts.declared)
qed


lemma unifyDeclarations_cases:
  assumes "unifyDeclarations d src s = Ok ds (True, s')" "decl_name d \<noteq> None \<longrightarrow> by_name d"
  shows "reduces env (\<lambda>\<theta>. accepts env \<theta> k d src) s s'"
  by (rule unifyDeclarations_reduces [OF assms(1)])
    (use assms in \<open>auto simp: unifyDeclarations_def comp_simps split: option.split_asm\<close>)

lemma unify_blocks_case:
  assumes "(case src of
      P4Container bk n tps ps \<Rightarrow> solved (add_constraint (Constraint k d (ArchBlock bk n tps ps)) s)
    | Type_Package n tps ps \<Rightarrow> unifyBlocks (Constraint k d src) s
    | ArchBlock bk n tps ps \<Rightarrow> unifyBlocks (Constraint k d src) s
    | _ \<Rightarrow> reportError s) = Ok ds (True, s')" "is_block d"
  shows "reduces env (\<lambda>\<theta>. accepts env \<theta> k d src) s s'"
  using assms
  by (cases src) (auto simp: comp_simps intro: unifyBlocks_reduces intro!: reduces_addI accepts.container)

lemma unify_lists_case:
  assumes "(case src of
      Type_List ts \<Rightarrow> unifyBaseLists k ds ts s
    | Type_Tuple ts \<Rightarrow> unifyBaseLists k ds ts s
    | _ \<Rightarrow> reportError s) = Ok es (True, s')" "components d = Some ds"
  shows "reduces env (\<lambda>\<theta>. accepts env \<theta> k d src) s s'"
  using assms
  by (cases src) (auto simp: comp_simps components_def intro!: unifyBaseLists_reduces)


text \<open>The rules for calls and functions look at the constraint again, whose sides are the types that are
  compared unless they are variables.\<close>

definition side :: "utype \<Rightarrow> utype \<Rightarrow> bool" where
  "side l d \<longleftrightarrow> l = d \<or> (\<exists>v. l = TV v)"

lemma unify_methods_case:
  assumes "(case src of
      Type_MethodCall targs rv args \<Rightarrow> unifyCall env (Constraint k l r) s
    | MethodBase mk' tqs q qs \<Rightarrow> unifyFunctions (Constraint k l r) False s
    | _ \<Rightarrow> reportError s) = Ok ds (True, s')"
    and "d = MethodBase mk tps rt ps" "\<not> optarg env" "side l d" "side r src"
  shows "reduces env (\<lambda>\<theta>. accepts env \<theta> k d src) s s'"
proof -
  consider (call) targs rv args where "src = Type_MethodCall targs rv args" "unifyCall env (Constraint k l r) s = Ok ds (True, s')"
    | (method_type) mk' tqs q qs where "src = MethodBase mk' tqs q qs" "unifyFunctions (Constraint k l r) False s = Ok ds (True, s')"
    using assms(1) by (cases src) (auto simp: comp_simps)
  then show ?thesis
  proof cases
    case call
    then have "l = d" "r = src" using assms(4,5) by (auto simp: side_def unifyCall_def split: utype.split_asm)
    with call show ?thesis using assms(2,3) by (auto intro: unifyCall_reduces)
  next
    case method_type
    then have "l = d" "r = src" using assms(4,5) by (auto simp: side_def unifyFunctions_def split: utype.split_asm)
    with method_type(2) have "unifyFunctions (Constraint k (MethodBase mk tps rt ps) (MethodBase mk' tqs q qs)) False s = Ok ds (True, s')"
      by (simp add: assms(2) method_type(1))
    from unifyFunctions_reduces [OF this, of env] show ?thesis
      unfolding assms(2) method_type(1) by (rule reduces_mono) (simp add: accepts.functional)
  qed
qed

lemma unify_struct_case:
  assumes "(if dk = Type_Struct \<or> dk = Type_Header then
      (case src of
         Type_List ts \<Rightarrow> unifyStructList k n fs ts s
       | StructLike sk m gs \<Rightarrow> unifyStructs (strictStruct env) k n fs sk m gs s
       | _ \<Rightarrow> reportError s)
    else unifyDeclarations (StructLike dk n fs) src s) = Ok ds (True, s')"
  shows "reduces env (\<lambda>\<theta>. accepts env \<theta> k (StructLike dk n fs) src) s s'"
proof (cases "dk = Type_Struct \<or> dk = Type_Header")
  case True
  then show ?thesis using assms
    by (cases src) (auto simp: comp_simps intro: unifyStructList_reduces unifyStructs_reduces)
next
  case False
  then show ?thesis using assms by (auto intro!: unifyDeclarations_cases simp: by_name_def)
qed

lemma unify_stack_case:
  assumes "(case src of
      Type_Stack e' srcSize \<Rightarrow>
        if n \<noteq> srcSize then reportError s else solved (add_constraint (Constraint k e e') s)
    | Type_List ts \<Rightarrow> unifyStackList k e n ts s
    | _ \<Rightarrow> reportError s) = Ok ds (True, s')"
  shows "reduces env (\<lambda>\<theta>. accepts env \<theta> k (Type_Stack e n) src) s s'"
  using assms
  by (cases src) (auto simp: comp_simps intro: unifyStackList_reduces intro!: reduces_addI accepts.stack split: if_split_asm)

lemma unify_p4list_case:
  assumes "(case src of Type_P4List e' \<Rightarrow> solved (add_constraint (Constraint k e e') s) | _ \<Rightarrow> reportError s) = Ok ds (True, s')"
  shows "reduces env (\<lambda>\<theta>. accepts env \<theta> k (Type_P4List e) src) s s'"
  using assms by (cases src) (auto simp: comp_simps intro!: reduces_addI accepts.p4list)

lemma unify_kinds_reduces:
  assumes u: "unify_kinds env (Constraint k l r) rec d src s = Ok ds (True, s')" and rec: "rule_sound env rec"
    and o: "\<not> optarg env" and lr: "side l d" "side r src"
  shows "reduces env (\<lambda>\<theta>. sat \<theta> (definedVariables s) \<longrightarrow> accepts env \<theta> k d src) s s'"
proof (cases d)
  case (Base b)
  show ?thesis unfolding Base
    by (rule unify_base_reduces [OF _ rec]) (use u in \<open>simp add: unify_kinds_def Let_def Base\<close>)
next
  case (Type_SerEnum n t)
  have "k" "s' = add_constraint (Constraint k t src) s"
    using u by (auto simp: unify_kinds_def Let_def Type_SerEnum comp_simps split: if_split_asm)
  then show ?thesis unfolding Type_SerEnum by (simp only:) (rule reduces_addI, simp add: accepts.enum_result)
next
  case (MethodBase mk tps rt ps)
  show ?thesis
    by (rule reduces_imp, rule unify_methods_case [OF _ MethodBase o lr])
      (use u in \<open>simp add: unify_kinds_def Let_def MethodBase\<close>)
next
  case (Type_List ts)
  show ?thesis
    by (rule reduces_imp, rule unify_lists_case)
      (use u in \<open>simp_all add: unify_kinds_def Let_def Type_List components_def\<close>)
next
  case (Type_Tuple ts)
  show ?thesis
    by (rule reduces_imp, rule unify_lists_case)
      (use u in \<open>simp_all add: unify_kinds_def Let_def Type_Tuple components_def\<close>)
next
  case (StructLike dk n fs)
  show ?thesis unfolding StructLike
    by (rule reduces_imp, rule unify_struct_case) (use u in \<open>simp add: unify_kinds_def Let_def StructLike\<close>)
next
  case (Type_Stack e n)
  show ?thesis unfolding Type_Stack
    by (rule reduces_imp, rule unify_stack_case) (use u in \<open>simp add: unify_kinds_def Let_def Type_Stack\<close>)
next
  case (Type_P4List e)
  show ?thesis unfolding Type_P4List
    by (rule reduces_imp, rule unify_p4list_case) (use u in \<open>simp add: unify_kinds_def Let_def Type_P4List\<close>)
next
  case (Type_Package n tps ps)
  show ?thesis unfolding Type_Package
    by (rule reduces_imp, rule unify_blocks_case)
      (use u in \<open>simp_all add: unify_kinds_def Let_def Type_Package is_block_def\<close>)
next
  case (ArchBlock bk n tps ps)
  show ?thesis unfolding ArchBlock
    by (rule reduces_imp, rule unify_blocks_case)
      (use u in \<open>simp_all add: unify_kinds_def Let_def ArchBlock is_block_def\<close>)
qed (rule reduces_imp, rule unifyDeclarations_cases, use u in \<open>simp add: unify_kinds_def Let_def\<close>, simp add: by_name_def)+


lemma as_Specialized_Some: "as_Specialized t = Some (b, as, u) \<longleftrightarrow> t = Type_SpecializedCanonical b as u"
  by (cases t) (auto simp: as_Specialized_def)

lemma unify_types_reduces:
  assumes u: "unify_types env (Constraint k l r) rec d src s = Ok ds (True, s')" and rec: "rule_sound env rec"
    and o: "\<not> optarg env" and lr: "side l d" "side r src"
  shows "reduces env (\<lambda>\<theta>. sat \<theta> (definedVariables s) \<longrightarrow> accepts env \<theta> k d src) s s'"
proof (cases "as_Specialized d")
  case (Some x)
  obtain db das du where x: "x = (db, das, du)" by (cases x) auto
  note d = Some [unfolded x as_Specialized_Some]
  show ?thesis
  proof (cases "as_Specialized src")
    case None
    have "s' = add_constraint (Constraint k du src) s" using u by (simp add: unify_types_def Some x None Let_def comp_simps)
    then show ?thesis unfolding d by (simp only:) (rule reduces_addI, simp add: accepts.specialized_left None)
  next
    case s: (Some y)
    obtain sb sas su where y: "y = (sb, sas, su)" by (cases y) auto
    note src = s [unfolded y as_Specialized_Some]
    from u have l: "length das = length sas" and s': "s' = add_pairs k das sas (add_constraint (Constraint k db sb) s)"
      by (auto simp: unify_types_def Some x s y Let_def comp_simps split: if_split_asm)
    show ?thesis unfolding d src s'
      by (rule reduces_mono [OF reduces_trans [OF reduces_add reduces_pairs_eq [OF l]]]) (simp add: accepts.specialized)
  qed
next
  case d: None
  show ?thesis
  proof (cases "as_Specialized src")
    case (Some y)
    obtain sb sas su where y: "y = (sb, sas, su)" by (cases y) auto
    note src = Some [unfolded y as_Specialized_Some]
    have "s' = add_constraint (Constraint k d su) s" using u by (simp add: unify_types_def d Some y Let_def comp_simps)
    then show ?thesis unfolding src by (simp only:) (rule reduces_addI, simp add: accepts.specialized_right d)
  next
    case src: None
    consider (eq) "equivalent d (strictStruct env) False src = Some True" "s' = s"
      | (dontcare) "src = Base Type_Dontcare \<or> d = Base Type_Dontcare" "s' = s"
      | (any) v where "s' = add_constraint (Constraint k d src) (addUnifiableTypeVariable v s)"
      | (kinds) "unify_kinds env (Constraint k l r) rec d src s = Ok ds (True, s')"
      using u by (auto simp: unify_types_def d src Let_def comp_simps split: option.split_asm if_split_asm bool.split_asm)
    then show ?thesis
    proof cases
      case eq
      show ?thesis unfolding eq(2) by (rule reduces_refl) (simp add: accepts.equal_types [OF eq(1)])
    next
      case dontcare
      show ?thesis unfolding dontcare(2)
        by (rule reduces_refl) (use dontcare(1) in \<open>auto intro: accepts.dontcare_left accepts.dontcare_right\<close>)
    next
      case any
      show ?thesis unfolding any by (rule reduces_imp) (rule reduces_var_add, simp)
    next
      case kinds
      then show ?thesis by (rule unify_kinds_reduces [OF _ rec o lr])
    qed
  qed
qed

lemma replace_if_var_side: "replace_if_var s t = Ok ds t' \<Longrightarrow> side t t'"
  by (auto simp: replace_if_var_def side_def comp_simps split: utype.split_asm)

lemma replaceVariables_inst: "replaceVariables s t = Ok ds t' \<Longrightarrow> sat \<theta> (definedVariables s) \<Longrightarrow> inst \<theta> t' = inst \<theta> t"
  by (auto simp: replaceVariables_def comp_simps apply_subst_inst split: option.split_asm)

lemma replace_if_var_inst: "replace_if_var s t = Ok ds t' \<Longrightarrow> sat \<theta> (definedVariables s) \<Longrightarrow> inst \<theta> t' = inst \<theta> t"
  unfolding replace_if_var_def by (cases t) (auto simp: comp_simps dest: replaceVariables_inst)

lemma unify_sound: "\<not> optarg env \<Longrightarrow> rule_sound env (unify n env)"
proof (induction n)
  case (Suc n)
  show ?case unfolding rule_sound_def
  proof (intro allI impI)
    fix k l r s ds s'
    assume "unify (Suc n) env (Constraint k l r) s = Ok ds (True, s')"
    then obtain ds1 ds2 ds3 src d where e: "replace_if_var s r = Ok ds1 src" "replace_if_var s l = Ok ds2 d"
      and u: "unify_types env (Constraint k l r) (unify n env) d src s = Ok ds3 (True, s')"
      by (auto simp: bind_comp_Ok_iff)
    have "reduces env (\<lambda>\<theta>. sat \<theta> (definedVariables s) \<longrightarrow> accepts env \<theta> k d src) s s'"
      by (rule unify_types_reduces [OF u Suc.IH]) (use Suc.prems e in \<open>auto intro: replace_if_var_side\<close>)
    then show "reduces env (\<lambda>\<theta>. sat \<theta> (definedVariables s) \<longrightarrow> accepts env \<theta> k l r) s s'"
      by (rule reduces_mono) (blast intro: accepts.modulo replace_if_var_inst [OF e(1)] replace_if_var_inst [OF e(2)])
  qed
qed (simp add: rule_sound_def)

section \<open>The loop\<close>

lemma modulo_left: "inst \<theta> d' = inst \<theta> d \<Longrightarrow> accepts env \<theta> k d' s \<Longrightarrow> accepts env \<theta> k d s"
  by (erule accepts.modulo [OF _ refl])

lemma modulo_right: "inst \<theta> s' = inst \<theta> s \<Longrightarrow> accepts env \<theta> k d s' \<Longrightarrow> accepts env \<theta> k d s"
  by (erule accepts.modulo [OF refl])

lemma same_instance: "inst \<theta> d = inst \<theta> s \<Longrightarrow> accepts env \<theta> k d s"
  by (erule modulo_left [OF sym]) (rule accepts.same)

lemma isUnifiable_TV: "isUnifiableTypeVariable s t \<Longrightarrow> \<exists>v. t = TV v"
  by (cases t) (auto simp: isUnifiableTypeVariable_def)

lemma bind_variable_sound:
  assumes "bind_variable v t s = Ok ds (True, s')"
  shows "definedVariables s' = definedVariables s \<and> pending s' = pending s \<and>
    (sat \<theta> (currentSubstitution s') \<longrightarrow> sat \<theta> (definedVariables s) \<longrightarrow>
      sat \<theta> (currentSubstitution s) \<and> accepts env \<theta> k (TV v) t \<and> accepts env \<theta> k t (TV v))"
proof -
  from assms obtain ds1 t' where r: "replaceVariables s t = Ok ds1 t'" and
    b: "t' = TV v \<and> s' = s \<or> (\<exists>ds b. compose (currentSubstitution s) v t' = Ok ds (Some b) \<and> s' = s\<lparr>currentSubstitution := b\<rparr>)"
    by (auto simp: bind_variable_def comp_simps split: if_split_asm option.split_asm)
  have i: "inst \<theta> t' = inst \<theta> t" if "sat \<theta> (definedVariables s)" using replaceVariables_inst [OF r that] .
  from b show ?thesis
  proof (elim disjE conjE exE)
    assume "t' = TV v" "s' = s"
    then show ?thesis using i by (auto intro: same_instance)
  next
    fix ds b
    assume c: "compose (currentSubstitution s) v t' = Ok ds (Some b)" "s' = s\<lparr>currentSubstitution := b\<rparr>"
    have "sat \<theta> (currentSubstitution s) \<and> accepts env \<theta> k (TV v) t \<and> accepts env \<theta> k t (TV v)"
      if h: "sat \<theta> b" "sat \<theta> (definedVariables s)"
    proof -
      note i = i [OF h(2)]
      from compose_sound [OF c(1) h(1)] have cs: "sat \<theta> (currentSubstitution s)" and
        "t' = Base Type_Dontcare \<or> \<theta> v = inst \<theta> t' \<or> (\<exists>i. v = Type_InfInt i) \<and> \<theta> v = inst \<theta> (underlying t')" by blast+
      then have "accepts env \<theta> k (TV v) t' \<and> accepts env \<theta> k t' (TV v)"
        by (auto intro: accepts.dontcare_left accepts.dontcare_right accepts.integer_left accepts.integer_right same_instance)
      with i cs show ?thesis by (blast intro: modulo_left modulo_right)
    qed
    then show ?thesis by (simp add: c(2))
  qed
qed

definition advances :: "unify_env \<Rightarrow> constraint \<Rightarrow> tc_state \<Rightarrow> tc_state \<Rightarrow> bool" where
  "advances env c s s' \<longleftrightarrow>
     definedVariables s' = definedVariables s \<and>
     (\<exists>cs. pending s' = cs @ pending s \<and>
       (\<forall>\<theta>. sat \<theta> (currentSubstitution s') \<longrightarrow> sat \<theta> (definedVariables s) \<longrightarrow>
         sat \<theta> (currentSubstitution s) \<and> (list_all (holds env \<theta>) cs \<longrightarrow> holds env \<theta> c)))"

lemma advances_bind_left: "bind_variable v r s = Ok ds (True, s') \<Longrightarrow> advances env (Constraint k (TV v) r) s s'"
  using bind_variable_sound [of v r s ds s'] unfolding advances_def by (auto intro!: exI [of _ "[]"])

lemma advances_bind_right: "bind_variable v l s = Ok ds (True, s') \<Longrightarrow> advances env (Constraint k l (TV v)) s s'"
  using bind_variable_sound [of v l s ds s'] unfolding advances_def by (auto intro!: exI [of _ "[]"])

lemma advances_subst:
  assumes "\<And>\<theta>. sat \<theta> (currentSubstitution s) \<Longrightarrow> holds env \<theta> c' \<Longrightarrow> holds env \<theta> c"
  shows "advances env c s (add_constraint c' s)"
  using assms by (auto simp: advances_def add_constraint_def intro!: exI [of _ "[c']"])

lemma solve_constraint_sound:
  assumes "solve_constraint env c s = Ok ds (True, s')" "\<not> optarg env"
  shows "advances env c s s'"
proof -
  obtain k l r where c: "c = Constraint k l r" by (cases c)
  consider (left) v where "l = TV v" "(if l = r then solved s else
        case map_of (currentSubstitution s) v of
          None \<Rightarrow> bind_variable v r s
        | Some t \<Rightarrow> solved (add_constraint (Constraint k t r) s)) = Ok ds (True, s')"
    | (right) v where "r = TV v" "(case map_of (currentSubstitution s) v of
          None \<Rightarrow> bind_variable v l s
        | Some t \<Rightarrow> solved (add_constraint (Constraint k l t) s)) = Ok ds (True, s')"
    | (unify) "unify 2 env c s = Ok ds (True, s')"
    using assms(1) isUnifiable_TV [of s l] isUnifiable_TV [of s r]
    by (auto simp: solve_constraint_def c simp del: unify.simps split: if_split_asm)
  then show ?thesis
  proof cases
    case left
    consider "l = r" "s' = s" | "bind_variable v r s = Ok ds (True, s')"
      | t where "map_of (currentSubstitution s) v = Some t" "s' = add_constraint (Constraint k t r) s"
      using left(2) by (cases "l = r"; cases "map_of (currentSubstitution s) v") simp_all
    then show ?thesis
    proof cases
      case 1
      then show ?thesis by (simp add: advances_def c accepts.same)
    next
      case 2
      then show ?thesis unfolding c left(1) by (rule advances_bind_left)
    next
      case 3
      show ?thesis unfolding c left(1) 3(2)
        by (rule advances_subst, simp only: holds_Constraint, erule modulo_left [rotated], simp add: sat_map_of [OF _ 3(1)])
    qed
  next
    case right
    consider "bind_variable v l s = Ok ds (True, s')"
      | t where "map_of (currentSubstitution s) v = Some t" "s' = add_constraint (Constraint k l t) s"
      using right(2) by (cases "map_of (currentSubstitution s) v") simp_all
    then show ?thesis
    proof cases
      case 1
      then show ?thesis unfolding c right(1) by (rule advances_bind_right)
    next
      case 2
      show ?thesis unfolding c right(1) 2(2)
        by (rule advances_subst, simp only: holds_Constraint, erule modulo_right [rotated], simp add: sat_map_of [OF _ 2(1)])
    qed
  next
    case unify
    then have "reduces env (\<lambda>\<theta>. sat \<theta> (definedVariables s) \<longrightarrow> accepts env \<theta> k l r) s s'"
      using unify_sound [OF assms(2), of 2] unfolding rule_sound_def c by blast
    then show ?thesis unfolding reduces_def advances_def c by auto
  qed
qed

text \<open>The loop by its last equation: nothing is left, or one constraint is solved and the loop goes on.\<close>

lemma solve_loop_cases:
  assumes "(case pending s of
        [] \<Rightarrow> Some (ret (Some s))
      | c # cs \<Rightarrow>
          (case solve_constraint env c (s\<lparr>pending := cs\<rparr>) of
             Bug m \<Rightarrow> Some (Bug m)
           | Ok ds r \<Rightarrow>
               if \<not> fst r then Some (Ok ds None)
               else Option.bind (loop env (snd r)) (\<lambda>res. Some (bind_comp (Ok ds ()) (\<lambda>_. res))))) = Some (Ok ds (Some s'))"
  obtains "pending s = []" "s' = s"
    | c cs ds1 s1 ds2 where "pending s = c # cs" "solve_constraint env c (s\<lparr>pending := cs\<rparr>) = Ok ds1 (True, s1)"
      "loop env s1 = Some (Ok ds2 (Some s'))"
proof (cases "pending s")
  case Nil
  then have "s' = s" using assms by simp
  with Nil show thesis by (rule that(1))
next
  case (Cons c cs)
  let ?s = "s\<lparr>pending := cs\<rparr>"
  obtain ds1 ok s1 where st: "solve_constraint env c ?s = Ok ds1 (ok, s1)"
    using assms Cons by (cases "solve_constraint env c ?s") auto
  have ok: "ok" using assms Cons st by (cases ok) auto
  obtain y where y: "loop env s1 = Some y" using assms Cons st ok by (cases "loop env s1") auto
  then obtain ds2 where "y = Ok ds2 (Some s')" using assms Cons st ok by (cases y) auto
  with y have "loop env s1 = Some (Ok ds2 (Some s'))" by simp
  moreover have "solve_constraint env c ?s = Ok ds1 (True, s1)" using st ok by simp
  ultimately show thesis using that(2) [OF Cons] by blast
qed

lemma solve_loop_sound:
  assumes "solve_loop env s = Some res" "\<not> optarg env"
  shows "\<forall>ds s'. res = Ok ds (Some s') \<longrightarrow> definedVariables s' = definedVariables s \<and>
    (\<forall>\<theta>. sat \<theta> (currentSubstitution s') \<longrightarrow> sat \<theta> (definedVariables s) \<longrightarrow>
       sat \<theta> (currentSubstitution s) \<and> list_all (holds env \<theta>) (pending s))"
proof -
  have "\<not> optarg env \<longrightarrow> (\<forall>ds s'. res = Ok ds (Some s') \<longrightarrow> definedVariables s' = definedVariables s \<and>
    (\<forall>\<theta>. sat \<theta> (currentSubstitution s') \<longrightarrow> sat \<theta> (definedVariables s) \<longrightarrow>
       sat \<theta> (currentSubstitution s) \<and> list_all (holds env \<theta>) (pending s)))"
  proof (rule solve_loop.raw_induct [OF _ assms(1)], goal_cases)
    case (1 loop e s res)
    show ?case
    proof (intro impI allI)
      fix ds s'
      assume o: "\<not> optarg e" and res: "res = Ok ds (Some s')"
      show "definedVariables s' = definedVariables s \<and>
        (\<forall>\<theta>. sat \<theta> (currentSubstitution s') \<longrightarrow> sat \<theta> (definedVariables s) \<longrightarrow>
           sat \<theta> (currentSubstitution s) \<and> list_all (holds e \<theta>) (pending s))"
        using 1(2) [unfolded res]
      proof (cases rule: solve_loop_cases)
        case 1
        then show ?thesis by simp
      next
        case (2 c cs ds1 s1 ds2)
        from solve_constraint_sound [OF 2(2) o] obtain new where
          "definedVariables s1 = definedVariables s" "pending s1 = new @ cs"
          "\<And>\<theta>. sat \<theta> (currentSubstitution s1) \<Longrightarrow> sat \<theta> (definedVariables s) \<Longrightarrow>
             sat \<theta> (currentSubstitution s) \<and> (list_all (holds e \<theta>) new \<longrightarrow> holds e \<theta> c)"
          unfolding advances_def by auto
        with 1(1) [OF 2(3)] o 2(1) show ?thesis by auto
      qed
    qed
  qed
  with assms(2) show ?thesis by blast
qed

text \<open>C26: if the solver returns a substitution, then every instance of the type variables that satisfies
  its bindings and those of the variables defined before makes every constraint hold: the right type is
  acceptable where the left one is expected.\<close>

theorem unification_sound:
  assumes "solve env s = Some (Ok ds (Some s'))" "\<not> optarg env"
    and "sat \<theta> (currentSubstitution s')" "sat \<theta> (definedVariables s)" "c \<in> set (pending s)"
  shows "accepts env \<theta> (canBeImplicitlyCast c) (cleft c) (cright c)"
  using solve_loop_sound [OF assms(1) [unfolded solve_def] assms(2)] assms(3-5)
  by (auto simp: list_all_iff holds_def)


text \<open>The bindings that the solver returns.\<close>

definition result_bindings :: "tc_state option comp option \<Rightarrow> binding option" where
  "result_bindings r =
     (case r of
        Some (Ok ds (Some s)) \<Rightarrow> Some (currentSubstitution s)
      | _ \<Rightarrow> None)"

lemma result_bindings_Some:
  "result_bindings r = Some b \<Longrightarrow> \<exists>ds s. r = Some (Ok ds (Some s)) \<and> currentSubstitution s = b"
  by (auto simp: result_bindings_def split: option.split_asm comp.split_asm)

text \<open>A call of a generic function with a parameter for a value and one for a tuple, whose arguments are
  an eight-bit value and a tuple of a literal.\<close>

definition sample_call :: tc_state where
  "sample_call =
     (let T = Type_Var ''T'' 1
      in \<lparr>unifiable = {},
          pending = [Constraint False
            (MethodBase Type_Method [T] (Some (TV T))
               [Param ''x'' DirIn (TV T) False False, Param ''y'' DirIn (Type_Tuple [TV T]) False False])
            (Type_MethodCall [] (Type_Var ''R'' 2)
               [ArgumentInfo None False False (Base (Type_Bits 8 False)),
                ArgumentInfo None False True (Type_List [TV (Type_InfInt 3)])])],
          definedVariables = [], currentSubstitution = []\<rparr>)"

abbreviation plain_env :: unify_env where
  "plain_env \<equiv> \<lparr>strictStruct = False, optarg = False\<rparr>"

theorem unification_sound_witness:
  "accepts plain_env (\<lambda>v. Base (Type_Bits 8 False)) False
     (MethodBase Type_Method [Type_Var ''T'' 1] (Some (TV (Type_Var ''T'' 1)))
        [Param ''x'' DirIn (TV (Type_Var ''T'' 1)) False False, Param ''y'' DirIn (Type_Tuple [TV (Type_Var ''T'' 1)]) False False])
     (Type_MethodCall [] (Type_Var ''R'' 2)
        [ArgumentInfo None False False (Base (Type_Bits 8 False)),
         ArgumentInfo None False True (Type_List [TV (Type_InfInt 3)])])"
proof -
  have "result_bindings (solve plain_env sample_call) =
      Some [(Type_Var ''T'' 1, Base (Type_Bits 8 False)), (Type_InfInt 3, Base (Type_Bits 8 False)),
            (Type_Var ''R'' 2, Base (Type_Bits 8 False))]" by code_simp
  from result_bindings_Some [OF this] obtain ds s' where r: "solve plain_env sample_call = Some (Ok ds (Some s'))"
    "currentSubstitution s' = [(Type_Var ''T'' 1, Base (Type_Bits 8 False)), (Type_InfInt 3, Base (Type_Bits 8 False)),
            (Type_Var ''R'' 2, Base (Type_Bits 8 False))]" by (elim exE conjE)
  show ?thesis
    using unification_sound [OF r(1), of "\<lambda>v. Base (Type_Bits 8 False)" "hd (pending sample_call)"] r(2)
    by (simp add: sample_call_def Let_def)
qed

end
