(* ===== verification/TypeUnify_Complete.thy ===== *)
theory TypeUnify_Complete
  imports TypeUnify_Solve
begin

text \<open>
  Completeness on types that are built from base types and variables with tuples, stacks and lists.
  There unification means equality, and the solver decides it: it returns a substitution exactly when
  there is a unifier, and then the substitution is most general.
\<close>

section \<open>Plain types\<close>

inductive pure :: "tvar set \<Rightarrow> utype \<Rightarrow> bool" for U where
  pure_Base: "b \<noteq> Type_Dontcare \<Longrightarrow> pure U (Base b)"
| pure_TV: "v \<in> U \<Longrightarrow> pure U (TV v)"
| pure_Tuple: "(\<forall>t\<in>set ts. pure U t) \<Longrightarrow> pure U (Type_Tuple ts)"
| pure_Stack: "pure U t \<Longrightarrow> pure U (Type_Stack t n)"
| pure_P4List: "pure U t \<Longrightarrow> pure U (Type_P4List t)"

inductive_simps pure_simps [simp]:
  "pure U (Base b)" "pure U (TV v)" "pure U (Type_Tuple ts)" "pure U (Type_Stack t n)" "pure U (Type_P4List t)"

text \<open>The variables are type variables, not integers and not \<open>...\<close>.\<close>

definition plain_vars :: "tvar set \<Rightarrow> bool" where
  "plain_vars U \<longleftrightarrow> (\<forall>v\<in>U. \<exists>n d. v = Type_Var n d)"

lemma pure_not_Any:
  assumes "plain_vars U" "pure U t"
  shows "\<not> is_Any t \<and> as_Any t = None \<and> as_Specialized t = None"
  using assms(2,1) by (cases rule: pure.cases) (auto simp: plain_vars_def is_Any_def as_Any_def as_Specialized_def)

section \<open>Instances of plain types\<close>

lemma size_map_option_le: "x \<in> set xs \<Longrightarrow> f x \<le> size_list f xs"
  by (induction xs) auto

lemma occurs_size:
  "pure U t \<Longrightarrow> v \<in> tvars t \<Longrightarrow> size (\<theta> v) \<le> size (inst \<theta> t) \<and> (t \<noteq> TV v \<longrightarrow> size (\<theta> v) < size (inst \<theta> t))"
proof (induction t rule: pure.induct)
  case (pure_Tuple ts)
  then obtain t where t: "t \<in> set ts" "v \<in> tvars t" by auto
  with pure_Tuple have "size (\<theta> v) \<le> size (inst \<theta> t)" by blast
  also have "size (inst \<theta> t) \<le> size_list size (map (inst \<theta>) ts)"
    using t(1) by (intro size_map_option_le) simp
  finally show ?case by simp
qed auto

lemma those_map_ex:
  "(\<And>x. x \<in> set xs \<Longrightarrow> \<exists>y. f x = Some y \<and> Q y) \<Longrightarrow> \<exists>ys. those (map f xs) = Some ys \<and> (\<forall>y\<in>set ys. Q y)"
proof (induction xs)
  case (Cons x xs)
  from Cons.prems [of x] obtain y where "f x = Some y" "Q y" by auto
  moreover from Cons obtain ys where "those (map f xs) = Some ys" "\<forall>y\<in>set ys. Q y" by auto
  ultimately show ?case by auto
qed simp

lemma substM_pure:
  assumes "pure U t" "\<And>v. v \<in> tvars t \<Longrightarrow> \<exists>u. f v = Some u \<and> pure U u"
  shows "\<exists>u. substM f keep t = Some u \<and> pure U u"
  using assms
proof (induction t rule: pure.induct)
  case (pure_Tuple ts)
  have "\<exists>us. those (map (substM f keep) ts) = Some us \<and> (\<forall>u\<in>set us. pure U u)"
  proof (rule those_map_ex)
    fix t assume "t \<in> set ts"
    moreover from this pure_Tuple(2) have "\<exists>u. f v = Some u \<and> pure U u" if "v \<in> tvars t" for v using that by auto
    ultimately show "\<exists>y. substM f keep t = Some y \<and> pure U y" using pure_Tuple(1) by blast
  qed
  then show ?case by auto
qed auto

lemma replacement_single:
  assumes "pure U t" "v \<notin> tvars t" "w \<in> U"
  shows "\<exists>u. replacement (Suc (Suc 0)) [(v, t)] w = Some u \<and> pure U u"
proof (cases "w = v")
  case True
  have "\<exists>u. substM (replacement (Suc 0) [(v, t)]) (\<lambda>z. map_of [(v, t)] z = None) t = Some u \<and> pure U u"
  proof (rule substM_pure [OF assms(1)])
    fix y assume y: "y \<in> tvars t"
    have "y \<in> U" using assms(1) y by (induction rule: pure.induct) auto
    then show "\<exists>u. replacement (Suc 0) [(v, t)] y = Some u \<and> pure U u" using y assms(2) by auto
  qed
  then show ?thesis using True by simp
qed (use assms(3) in simp)

lemma pure_tvars: "pure U t \<Longrightarrow> tvars t \<subseteq> U"
  by (induction rule: pure.induct) auto

lemma pure_mono: "pure U t \<Longrightarrow> U \<subseteq> W \<Longrightarrow> pure W t"
  by (induction rule: pure.induct) auto

lemma apply_subst_pure:
  assumes "pure U u" "pure U t" "v \<notin> tvars t"
  shows "\<exists>w. apply_subst [(v, t)] u = Some w \<and> pure U w"
  unfolding apply_subst_def
proof (rule substM_pure [OF assms(1)])
  fix w assume "w \<in> tvars u"
  then have "w \<in> U" using pure_tvars [OF assms(1)] by blast
  with replacement_single [OF assms(2,3)] show "\<exists>u. replacement (Suc (length [(v, t)])) [(v, t)] w = Some u \<and> pure U u" by simp
qed

section \<open>Composition\<close>

lemma substM_id: "pure U t \<Longrightarrow> (\<And>v. v \<in> tvars t \<Longrightarrow> f v = Some (TV v)) \<Longrightarrow> substM f keep t = Some t"
proof (induction t rule: pure.induct)
  case (pure_Tuple ts)
  then have "\<forall>t\<in>set ts. substM f keep t = Some t" by auto
  then have "those (map (substM f keep) ts) = Some ts" by (induction ts) auto
  then show ?case by simp
qed auto

lemma apply_subst_Nil: "pure U t \<Longrightarrow> apply_subst [] t = Some t"
  unfolding apply_subst_def by (erule substM_id) simp

lemma replaceVariables_pure: "definedVariables s = [] \<Longrightarrow> pure U t \<Longrightarrow> replaceVariables s t = ret t"
  by (simp add: replaceVariables_def apply_subst_Nil)

text \<open>The bindings of variables to plain types.\<close>

definition plain_bindings :: "tvar set \<Rightarrow> binding \<Rightarrow> bool" where
  "plain_bindings U b \<longleftrightarrow> (\<forall>(v, t)\<in>set b. v \<in> U \<and> pure U t)"

lemma plain_bindings_simps [simp]:
  "plain_bindings U []" "plain_bindings U ((v, t) # b) \<longleftrightarrow> v \<in> U \<and> pure U t \<and> plain_bindings U b"
  "plain_bindings U (b @ c) \<longleftrightarrow> plain_bindings U b \<and> plain_bindings U c"
  by (auto simp: plain_bindings_def)

lemma refine_bindings_complete:
  assumes "pure U t" "v \<notin> tvars t" "plain_bindings U b"
  shows "\<exists>cycle b'. refine_bindings v t b = ret (cycle, b') \<and> plain_bindings U b' \<and>
    (\<forall>\<theta>. sat \<theta> b \<longrightarrow> \<theta> v = inst \<theta> t \<longrightarrow> sat \<theta> b')"
  using assms(3)
proof (induction b)
  case (Cons xu b)
  obtain x u where xu: "xu = (x, u)" by fastforce
  from Cons obtain cycle b' where b': "refine_bindings v t b = ret (cycle, b')" "plain_bindings U b'"
    "\<forall>\<theta>. sat \<theta> b \<longrightarrow> \<theta> v = inst \<theta> t \<longrightarrow> sat \<theta> b'" by (auto simp: xu)
  have "pure U u" "x \<in> U" using Cons.prems by (auto simp: xu)
  from apply_subst_pure [OF this(1) assms(1,2)] obtain w where w: "apply_subst [(v, t)] u = Some w" "pure U w" by blast
  have i: "inst \<theta> w = inst \<theta> u" if "\<theta> v = inst \<theta> t" for \<theta>
    using w(1) by (rule apply_subst_inst [rotated]) (simp add: that)
  define y where "y = (if w = u \<or> TV x = w then u else w)"
  define c where "c = (if w \<noteq> u \<and> TV x = w then True else cycle)"
  have "refine_bindings v t (xu # b) = ret (c, (x, y) # b')"
    using w(1) b'(1) by (cases "w = u"; cases "TV x = w") (simp_all add: xu y_def c_def)
  moreover have "plain_bindings U ((x, y) # b')" using \<open>x \<in> U\<close> \<open>pure U u\<close> w(2) b'(2) by (simp add: y_def)
  moreover have "\<forall>\<theta>. sat \<theta> (xu # b) \<longrightarrow> \<theta> v = inst \<theta> t \<longrightarrow> sat \<theta> ((x, y) # b')"
    using b'(3) i by (simp add: xu y_def)
  ultimately show ?case by blast
qed (auto intro: exI [of _ False])

lemma compose_complete:
  assumes "pure U t" "v \<in> U" "plain_vars U" "plain_bindings U b" "map_of b v = None" "t \<noteq> TV v"
  shows "(\<exists>b'. compose b v t = ret (Some b') \<and> plain_bindings U b' \<and> (\<forall>\<theta>. sat \<theta> b' \<longleftrightarrow> sat \<theta> b \<and> \<theta> v = inst \<theta> t)) \<or>
    compose b v t = ret None \<and> (\<forall>\<theta>. \<theta> v \<noteq> inst \<theta> t)"
proof (cases "v \<in> tvars t")
  case True
  have "\<theta> v \<noteq> inst \<theta> t" for \<theta> using occurs_size [OF assms(1) True, of \<theta>] assms(6) by auto
  moreover have "compose b v t = ret None" using assms True
    by (auto simp: compose_def plain_vars_def occurs_def)
  ultimately show ?thesis by blast
next
  case False
  from refine_bindings_complete [OF assms(1) False assms(4)] obtain cycle b' where
    b': "refine_bindings v t b = ret (cycle, b')" "plain_bindings U b'"
    "\<And>\<theta>. sat \<theta> b \<Longrightarrow> \<theta> v = inst \<theta> t \<Longrightarrow> sat \<theta> b'" by blast
  let ?b = "if cycle then b' else b' @ [(v, t)]"
  obtain n d where v: "v = Type_Var n d" using assms(2,3) by (auto simp: plain_vars_def)
  have "t \<noteq> Base Type_Dontcare" using assms(1) by auto
  then have c: "compose b v t = ret (Some ?b)"
    using False assms(5) b'(1) by (simp add: compose_def occurs_def v containsKey_def)
  have "sat \<theta> b \<and> \<theta> v = inst \<theta> t" if "sat \<theta> ?b" for \<theta>
    by (rule refine_bindings_sound [OF b'(1)]) (use that in \<open>auto split: if_split_asm\<close>)
  moreover have "sat \<theta> ?b" if "sat \<theta> b" "\<theta> v = inst \<theta> t" for \<theta> using b'(3) [OF that] that(2) by simp
  ultimately have "\<forall>\<theta>. sat \<theta> ?b \<longleftrightarrow> sat \<theta> b \<and> \<theta> v = inst \<theta> t" by blast
  moreover have "plain_bindings U ?b" using b'(2) assms(1,2) by simp
  ultimately show ?thesis using c by blast
qed

section \<open>One constraint\<close>

definition unifies :: "(tvar \<Rightarrow> utype) \<Rightarrow> constraint \<Rightarrow> bool" where
  "unifies \<theta> c \<longleftrightarrow> inst \<theta> (cleft c) = inst \<theta> (cright c)"

definition unifier :: "(tvar \<Rightarrow> utype) \<Rightarrow> tc_state \<Rightarrow> bool" where
  "unifier \<theta> s \<longleftrightarrow> sat \<theta> (currentSubstitution s) \<and> list_all (unifies \<theta>) (pending s)"

definition plain_state :: "tvar set \<Rightarrow> tc_state \<Rightarrow> bool" where
  "plain_state U s \<longleftrightarrow>
     plain_vars U \<and> U \<subseteq> unifiable s \<and> definedVariables s = [] \<and> plain_bindings U (currentSubstitution s) \<and>
     list_all (\<lambda>c. pure U (cleft c) \<and> pure U (cright c)) (pending s)"

text \<open>A constraint is replaced by an equivalent problem or refused because it has no unifier.\<close>

definition decided :: "tvar set \<Rightarrow> constraint \<Rightarrow> tc_state \<Rightarrow> solving \<Rightarrow> bool" where
  "decided U c s r \<longleftrightarrow>
     (\<exists>s'. r = solved s' \<and> plain_state U s' \<and> (\<forall>\<theta>. unifier \<theta> s' \<longleftrightarrow> unifies \<theta> c \<and> unifier \<theta> s)) \<or>
     (r = reportError s \<and> (\<forall>\<theta>. \<not> (unifies \<theta> c \<and> unifier \<theta> s)))"

lemma decided_error: "(\<And>\<theta>. unifier \<theta> s \<Longrightarrow> \<not> unifies \<theta> c) \<Longrightarrow> decided U c s (reportError s)"
  by (auto simp: decided_def)

lemma decided_same: "plain_state U s \<Longrightarrow> (\<And>\<theta>. unifies \<theta> c) \<Longrightarrow> decided U c s (solved s)"
  by (auto simp: decided_def)

lemma plain_state_add:
  "plain_state U s \<Longrightarrow> pure U l \<Longrightarrow> pure U r \<Longrightarrow> plain_state U (add_constraint (Constraint k l r) s)"
  by (simp add: plain_state_def add_constraint_def)

lemma unifier_add [simp]: "unifier \<theta> (add_constraint c s) \<longleftrightarrow> unifies \<theta> c \<and> unifier \<theta> s"
  by (auto simp: unifier_def add_constraint_def)

lemma decided_add:
  assumes "plain_state U s" "pure U l" "pure U r"
    "\<And>\<theta>. unifier \<theta> s \<Longrightarrow> unifies \<theta> (Constraint k l r) \<longleftrightarrow> unifies \<theta> c"
  shows "decided U c s (solved (add_constraint (Constraint k l r) s))"
  using assms by (auto simp: decided_def plain_state_add)

lemma add_pairs_plain:
  assumes "length ds = length ts" "plain_state U s" "\<forall>t\<in>set ds. pure U t" "\<forall>t\<in>set ts. pure U t"
  shows "plain_state U (add_pairs k ds ts s) \<and>
    (\<forall>\<theta>. unifier \<theta> (add_pairs k ds ts s) \<longleftrightarrow> map (inst \<theta>) ds = map (inst \<theta>) ts \<and> unifier \<theta> s)"
  using assms
proof (induction ds ts arbitrary: s rule: list_induct2)
  case (Cons d ds t ts)
  have "plain_state U (add_constraint (Constraint k d t) s)" using Cons.prems by (simp add: plain_state_add)
  from Cons.IH [OF this] Cons.prems show ?case by (auto simp: unifies_def)
qed simp

lemma all_equivalent_eq:
  assumes "length ds = length ts" "\<And>d t. d \<in> set ds \<Longrightarrow> t \<in> set ts \<Longrightarrow> e d t = Some (d = t)"
  shows "all_equivalent (map e ds) ts = Some (ds = ts)"
  using assms by (induction ds ts rule: list_induct2) (auto simp: and_then_def split: bool.split)

lemma equivalent_pure: "pure U d \<Longrightarrow> pure U t \<Longrightarrow> equivalent d ss strict t = Some (d = t)"
proof (induction d arbitrary: t strict rule: pure.induct)
  case (pure_Tuple ds)
  from pure_Tuple.prems show ?case
  proof (cases rule: pure.cases)
    case ts: (pure_Tuple ts)
    have "all_equivalent (map (\<lambda>e. e ss (strict \<or> ss)) (map equivalent ds)) ts = Some (ds = ts)" if l: "length ds = length ts"
      unfolding map_map comp_def by (rule all_equivalent_eq [OF l]) (use pure_Tuple.IH ts(2) in blast)
    then show ?thesis by (auto simp: ts(1))
  qed auto
next
  case (pure_Stack d n)
  from pure_Stack(3) show ?case
    by (cases rule: pure.cases) (use pure_Stack(2) in \<open>auto simp: and_then_def split: bool.split\<close>)
next
  case (pure_P4List d)
  from pure_P4List(3) show ?case
    by (cases rule: pure.cases) (use pure_P4List(2) in auto)
qed auto

lemma unify_base_plain:
  assumes "pure U t" "t \<noteq> Base b" "\<forall>v. t \<noteq> TV v"
  shows "unify_base c rec b t s = reportError s"
  using assms by (cases rule: pure.cases) (simp_all add: unify_base_def Let_def)


lemma containsDots_pure: "plain_vars U \<Longrightarrow> \<forall>t\<in>set ts. pure U t \<Longrightarrow> \<not> containsDots ts"
  using pure_not_Any by (auto simp: containsDots_def)

lemma unifyBaseLists_plain:
  assumes "plain_state U s" "\<forall>t\<in>set ds. pure U t" "\<forall>t\<in>set ts. pure U t"
    "\<And>\<theta>. unifies \<theta> c \<longleftrightarrow> map (inst \<theta>) ds = map (inst \<theta>) ts"
  shows "decided U c s (unifyBaseLists k ds ts s)"
proof (cases "length ds = length ts")
  case True
  have "\<not> containsDots ts" using containsDots_pure assms(1,3) by (auto simp: plain_state_def)
  then have "unifyBaseLists k ds ts s = solved (add_pairs k ds ts s)" using True by (simp add: unifyBaseLists_def)
  with add_pairs_plain [OF True assms(1-3)] assms(4) show ?thesis unfolding decided_def by auto
next
  case False
  have "\<not> containsDots ts" using containsDots_pure assms(1,3) by (auto simp: plain_state_def)
  then have "unifyBaseLists k ds ts s = reportError s" using False by (simp add: unifyBaseLists_def)
  moreover have "\<not> unifies \<theta> c" for \<theta> unfolding assms(4) using False by (metis length_map)
  ultimately show ?thesis by (simp add: decided_error)
qed

lemma unify_kinds_plain:
  assumes "plain_state U s" "pure U d" "pure U t" "d \<noteq> t" "\<forall>v. d \<noteq> TV v" "\<forall>v. t \<noteq> TV v"
    and c: "c = Constraint k d t"
  shows "decided U c s (unify_kinds env c rec d t s)"
  using assms(2)
proof (cases rule: pure.cases)
  case (pure_Base b)
  have "unify_kinds env c rec d t s = reportError s"
    using unify_base_plain [OF assms(3), of b] assms(4,6) by (simp add: unify_kinds_def pure_Base Let_def)
  moreover have "\<not> unifies \<theta> c" for \<theta>
    using assms(3) by (cases rule: pure.cases) (use assms(4,6) in \<open>auto simp: c unifies_def pure_Base\<close>)
  ultimately show ?thesis by (simp add: decided_error)
next
  case ds: (pure_Tuple ds)
  from assms(3) show ?thesis
  proof (cases rule: pure.cases)
    case (pure_Tuple ts)
    have "decided U c s (unifyBaseLists k ds ts s)"
      by (rule unifyBaseLists_plain) (use assms ds pure_Tuple in \<open>simp_all add: unifies_def\<close>)
    then show ?thesis by (simp add: unify_kinds_def ds(1) pure_Tuple(1) c Let_def)
  qed (use assms(6) in \<open>auto simp: unify_kinds_def ds(1) c unifies_def Let_def intro!: decided_error\<close>)
next
  case d: (pure_Stack e n)
  from assms(3) show ?thesis
  proof (cases rule: pure.cases)
    case (pure_Stack e' m)
    have "decided U c s (solved (add_constraint (Constraint k e e') s))" if "n = m"
      by (rule decided_add) (use assms(1) d pure_Stack that in \<open>simp_all add: c unifies_def\<close>)
    then show ?thesis by (auto simp: unify_kinds_def d(1) pure_Stack(1) c unifies_def Let_def intro!: decided_error)
  qed (use assms(6) in \<open>auto simp: unify_kinds_def d(1) c unifies_def Let_def intro!: decided_error\<close>)
next
  case d: (pure_P4List e)
  from assms(3) show ?thesis
  proof (cases rule: pure.cases)
    case (pure_P4List e')
    have "decided U c s (solved (add_constraint (Constraint k e e') s))"
      by (rule decided_add) (use assms(1) d pure_P4List in \<open>simp_all add: c unifies_def\<close>)
    then show ?thesis by (simp add: unify_kinds_def d(1) pure_P4List(1) c Let_def)
  qed (use assms(6) in \<open>auto simp: unify_kinds_def d(1) c unifies_def Let_def intro!: decided_error\<close>)
qed (use assms(5) in auto)

lemma unify_plain:
  assumes "plain_state U s" "pure U d" "pure U t" "\<forall>v. d \<noteq> TV v" "\<forall>v. t \<noteq> TV v"
  shows "decided U (Constraint k d t) s (unify (Suc n) env (Constraint k d t) s)"
proof -
  have v: "plain_vars U" using assms(1) by (simp add: plain_state_def)
  have r: "replace_if_var s x = ret x" if "\<forall>v. x \<noteq> TV v" for x using that by (cases x) (auto simp: replace_if_var_def)
  have dc: "d \<noteq> Base Type_Dontcare" "t \<noteq> Base Type_Dontcare" using assms(2,3) by auto
  show ?thesis
  proof (cases "d = t")
    case True
    then have "unify (Suc n) env (Constraint k d t) s = solved s"
      using pure_not_Any [OF v assms(2)] equivalent_pure [OF assms(2,3)] by (simp add: r assms unify_types_def Let_def)
    then show ?thesis using assms(1) True by (simp add: decided_same unifies_def)
  next
    case False
    then have "unify (Suc n) env (Constraint k d t) s = unify_kinds env (Constraint k d t) (unify n env) d t s"
      using pure_not_Any [OF v assms(2)] pure_not_Any [OF v assms(3)] equivalent_pure [OF assms(2,3)] dc
      by (simp add: r assms unify_types_def Let_def split: comp.split)
    then show ?thesis using unify_kinds_plain [OF assms(1,2,3) False assms(4,5) refl] by simp
  qed
qed


section \<open>The loop\<close>

lemma bind_variable_plain:
  assumes "plain_state U s" "v \<in> U" "pure U t" "map_of (currentSubstitution s) v = None"
    and "\<And>\<theta>. unifies \<theta> c \<longleftrightarrow> \<theta> v = inst \<theta> t"
  shows "decided U c s (bind_variable v t s)"
proof (cases "t = TV v")
  case True
  then have "bind_variable v t s = solved s"
    using replaceVariables_pure [of s U t] assms(1,3) by (simp add: bind_variable_def plain_state_def)
  then show ?thesis using assms(1,5) True by (simp add: decided_same)
next
  case False
  have p: "plain_vars U" "plain_bindings U (currentSubstitution s)" "definedVariables s = []"
    using assms(1) by (simp_all add: plain_state_def)
  have b: "bind_variable v t s = bind_comp (compose (currentSubstitution s) v t) (\<lambda>r.
         case r of None \<Rightarrow> reportError s | Some b \<Rightarrow> solved (s\<lparr>currentSubstitution := b\<rparr>))"
    using replaceVariables_pure [OF p(3) assms(3)] False by (simp add: bind_variable_def split: comp.split)
  from compose_complete [OF assms(3,2) p(1,2) assms(4) False] show ?thesis
  proof (elim disjE exE conjE)
    fix b'
    assume *: "compose (currentSubstitution s) v t = ret (Some b')" "plain_bindings U b'"
      "\<forall>\<theta>. sat \<theta> b' \<longleftrightarrow> sat \<theta> (currentSubstitution s) \<and> \<theta> v = inst \<theta> t"
    have "bind_variable v t s = solved (s\<lparr>currentSubstitution := b'\<rparr>)" by (simp add: b *(1))
    moreover have "plain_state U (s\<lparr>currentSubstitution := b'\<rparr>)" using assms(1) *(2) by (simp add: plain_state_def)
    moreover have "unifier \<theta> (s\<lparr>currentSubstitution := b'\<rparr>) \<longleftrightarrow> unifies \<theta> c \<and> unifier \<theta> s" for \<theta>
      using *(3) assms(5) by (auto simp: unifier_def)
    ultimately show ?thesis unfolding decided_def by blast
  next
    assume *: "compose (currentSubstitution s) v t = ret None" "\<forall>\<theta>. \<theta> v \<noteq> inst \<theta> t"
    have "bind_variable v t s = reportError s" by (simp add: b *(1))
    then show ?thesis using *(2) assms(5) by (simp add: decided_error)
  qed
qed

lemma solve_constraint_plain:
  assumes "plain_state U s" "pure U l" "pure U r"
  shows "decided U (Constraint k l r) s (solve_constraint env (Constraint k l r) s)"
proof -
  have p: "plain_vars U" "U \<subseteq> unifiable s" "definedVariables s = []" "plain_bindings U (currentSubstitution s)"
    using assms(1) by (simp_all add: plain_state_def)
  have var: "v \<in> U \<and> isUnifiableTypeVariable s (TV v)" if "pure U (TV v)" for v
    using that p by (auto simp: isUnifiableTypeVariable_def containsKey_def plain_vars_def split: tvar.split)
  have novar: "\<not> isUnifiableTypeVariable s t" if "\<forall>v. t \<noteq> TV v" for t
    using that by (cases t) (auto simp: isUnifiableTypeVariable_def)
  have subst: "pure U t \<and> (\<forall>\<theta>. sat \<theta> (currentSubstitution s) \<longrightarrow> \<theta> v = inst \<theta> t)"
    if "map_of (currentSubstitution s) v = Some t" for v t
    using that p(4) by (auto simp: plain_bindings_def sat_map_of dest!: map_of_SomeD [of _ _ t])
  note any = pure_not_Any [OF p(1) assms(3)]
  show ?thesis
  proof (cases "\<exists>v. l = TV v")
    case True
    then obtain v where l: "l = TV v" by blast
    show ?thesis
    proof (cases "l = r")
      case True
      then have r: "r = TV v" by (simp add: l)
      have "solve_constraint env (Constraint k l r) s = solved s"
        using var [of v] assms(2) any by (simp add: solve_constraint_def l r)
      then show ?thesis using assms(1) True by (simp add: decided_same unifies_def)
    next
      case False
      show ?thesis
      proof (cases "map_of (currentSubstitution s) v")
        case None
        then have "solve_constraint env (Constraint k l r) s = bind_variable v r s"
          using var assms(2) any False by (simp add: solve_constraint_def l)
        then show ?thesis using bind_variable_plain [OF assms(1) _ assms(3) None] var assms(2) by (simp add: l unifies_def)
      next
        case (Some t)
        then have "solve_constraint env (Constraint k l r) s = solved (add_constraint (Constraint k t r) s)"
          using var assms(2) any False by (simp add: solve_constraint_def l)
        moreover have "decided U (Constraint k l r) s (solved (add_constraint (Constraint k t r) s))"
          by (rule decided_add) (use subst [OF Some] assms in \<open>auto simp: l unifies_def unifier_def\<close>)
        ultimately show ?thesis by simp
      qed
    qed
  next
    case lv: False
    show ?thesis
    proof (cases "\<exists>v. r = TV v")
      case True
      then obtain v where r: "r = TV v" by blast
      show ?thesis
      proof (cases "map_of (currentSubstitution s) v")
        case None
        then have "solve_constraint env (Constraint k l r) s = bind_variable v l s"
          using var assms(3) novar lv by (simp add: solve_constraint_def r)
        moreover have "decided U (Constraint k l r) s (bind_variable v l s)"
          by (rule bind_variable_plain [OF assms(1) _ assms(2) None]) (use assms(3) in \<open>auto simp: r unifies_def\<close>)
        ultimately show ?thesis by simp
      next
        case (Some t)
        then have "solve_constraint env (Constraint k l r) s = solved (add_constraint (Constraint k l t) s)"
          using var assms(3) novar lv by (simp add: solve_constraint_def r)
        moreover have "decided U (Constraint k l r) s (solved (add_constraint (Constraint k l t) s))"
          by (rule decided_add) (use subst [OF Some] assms in \<open>auto simp: r unifies_def unifier_def\<close>)
        ultimately show ?thesis by simp
      qed
    next
      case False
      then have "solve_constraint env (Constraint k l r) s = unify (Suc (Suc 0)) env (Constraint k l r) s"
        using novar lv by (simp add: solve_constraint_def numeral_2_eq_2 del: unify.simps)
      then show ?thesis using unify_plain [OF assms] lv False by simp
    qed
  qed
qed


text \<open>The final result of the loop on a plain problem.\<close>

definition solved_plain :: "tc_state \<Rightarrow> tc_state option comp \<Rightarrow> bool" where
  "solved_plain s res \<longleftrightarrow>
     (\<exists>s'. res = ret (Some s') \<and> (\<forall>\<theta>. sat \<theta> (currentSubstitution s') \<longleftrightarrow> unifier \<theta> s)) \<or>
     ((\<exists>ds. res = Ok ds None) \<and> (\<forall>\<theta>. \<not> unifier \<theta> s))"

lemma solved_plain_step:
  assumes "\<forall>\<theta>. unifier \<theta> s' \<longleftrightarrow> unifier \<theta> s" "solved_plain s' res"
  shows "solved_plain s res"
  using assms unfolding solved_plain_def by simp

lemma solve_loop_plain:
  assumes "solve_loop env s = Some res" "plain_state U s"
  shows "solved_plain s res"
proof -
  have "plain_state U s \<longrightarrow> solved_plain s res"
  proof (rule solve_loop.raw_induct [OF _ assms(1)], goal_cases)
    case (1 loop e s res)
    show ?case
    proof (cases "pending s")
      case Nil
      then show ?thesis using 1(2) by (auto simp: solved_plain_def unifier_def)
    next
      case (Cons c cs)
      let ?s = "s\<lparr>pending := cs\<rparr>"
      obtain k l r where c: "c = Constraint k l r" by (cases c)
      show ?thesis
      proof
        assume p: "plain_state U s"
        then have "plain_state U ?s" "pure U l" "pure U r" by (simp_all add: plain_state_def Cons c)
        from solve_constraint_plain [OF this, of k e]
        consider (ok) s' where "solve_constraint e c ?s = solved s'" "plain_state U s'"
            "\<forall>\<theta>. unifier \<theta> s' \<longleftrightarrow> unifies \<theta> c \<and> unifier \<theta> ?s"
          | (error) "solve_constraint e c ?s = reportError ?s" "\<forall>\<theta>. \<not> (unifies \<theta> c \<and> unifier \<theta> ?s)"
          unfolding decided_def c by blast
        then show "solved_plain s res"
        proof cases
          case ok
          obtain res' where l: "loop e s' = Some res'" and res: "res = bind_comp (Ok [] ()) (\<lambda>_. res')"
            using 1(2) Cons ok(1) by (cases "loop e s'") auto
          have "res = res'" using res by (cases res') simp_all
          moreover have "\<forall>\<theta>. unifier \<theta> s' \<longleftrightarrow> unifier \<theta> s" using ok(3) Cons by (simp add: unifier_def conj_left_commute)
          ultimately show ?thesis using 1(1) [OF l] ok(2) solved_plain_step by blast
        next
          case error
          then have "\<exists>ds. res = Ok ds None" using 1(2) Cons by auto
          moreover have "\<not> unifier \<theta> s" for \<theta> using error(2) Cons by (auto simp: unifier_def)
          ultimately show ?thesis by (simp add: solved_plain_def)
        qed
      qed
    qed
  qed
  with assms(2) show ?thesis by blast
qed

text \<open>C27: on types built from base types, variables, tuples, header stacks and lists the solver decides
  unifiability: when it returns, either its substitution describes exactly the unifiers of the
  constraints, or it reports an error and there is no unifier; it does not stop with a failed check.\<close>

theorem unification_most_general:
  assumes "solve env s = Some res" "plain_state U (s\<lparr>currentSubstitution := []\<rparr>)"
  shows "(\<exists>s'. res = ret (Some s') \<and> (\<forall>\<theta>. sat \<theta> (currentSubstitution s') \<longleftrightarrow> list_all (unifies \<theta>) (pending s))) \<or>
    ((\<exists>ds. res = Ok ds None) \<and> (\<forall>\<theta>. \<not> list_all (unifies \<theta>) (pending s)))"
  using solve_loop_plain [OF assms(1) [unfolded solve_def] assms(2)] by (simp add: solved_plain_def unifier_def)

definition plain_problem :: "constraint list \<Rightarrow> tc_state" where
  "plain_problem cs =
     \<lparr>unifiable = {Type_Var ''S'' 1, Type_Var ''T'' 2}, pending = cs, definedVariables = [], currentSubstitution = []\<rparr>"

definition result_fails :: "tc_state option comp option \<Rightarrow> bool" where
  "result_fails r = (case r of Some (Ok ds None) \<Rightarrow> True | _ \<Rightarrow> False)"

lemma result_fails_iff: "result_fails r \<longleftrightarrow> (\<exists>ds. r = Some (Ok ds None))"
  by (auto simp: result_fails_def split: option.split comp.split)

theorem unification_most_general_witness:
  "(\<forall>\<theta>. \<not> list_all (unifies \<theta>)
     [Constraint False (TV (Type_Var ''S'' 1)) (Type_Stack (TV (Type_Var ''T'' 2)) 3),
      Constraint False (Type_Tuple [TV (Type_Var ''S'' 1), TV (Type_Var ''T'' 2)])
        (Type_Tuple [TV (Type_Var ''T'' 2), TV (Type_Var ''T'' 2)])])"
proof -
  let ?s = "plain_problem [Constraint False (TV (Type_Var ''S'' 1)) (Type_Stack (TV (Type_Var ''T'' 2)) 3),
      Constraint False (Type_Tuple [TV (Type_Var ''S'' 1), TV (Type_Var ''T'' 2)])
        (Type_Tuple [TV (Type_Var ''T'' 2), TV (Type_Var ''T'' 2)])]"
  have "result_fails (solve plain_env ?s)" by code_simp
  then obtain ds where r: "solve plain_env ?s = Some (Ok ds None)" unfolding result_fails_iff by blast
  have "plain_state (unifiable ?s) (?s\<lparr>currentSubstitution := []\<rparr>)" by (simp add: plain_problem_def plain_state_def plain_vars_def)
  from unification_most_general [OF r this] show ?thesis by (simp add: plain_problem_def)
qed

end
