(* ===== verification/TypeUnify_Loop.thy ===== *)
theory TypeUnify_Loop
  imports TypeUnify_Complete
begin

text \<open>
  Whether the solver returns.  It does when the right sides of plain constraints have no variables, as
  the types of the arguments of a call usually have none.  It does not always: the bindings of two
  integers to each other make the loop go on for ever.
\<close>

section \<open>Matching\<close>

definition matching :: "tc_state \<Rightarrow> bool" where
  "matching s \<longleftrightarrow> list_all (\<lambda>c. pure {} (cright c)) (pending s) \<and> (\<forall>(v, t)\<in>set (currentSubstitution s). pure {} t)"

definition cost :: "constraint \<Rightarrow> nat" where
  "cost c = 2 * size (cright c) + (case cleft c of TV v \<Rightarrow> 2 | _ \<Rightarrow> 1)"

definition work :: "tc_state \<Rightarrow> nat" where
  "work s = sum_list (map cost (pending s))"

lemma cost_le: "cost (Constraint k l r) \<le> 2 * size r + 2"
  by (simp add: cost_def split: utype.split)

lemma matching_add: "matching (add_constraint (Constraint k l r) s) \<longleftrightarrow> pure {} r \<and> matching s"
  by (auto simp: matching_def add_constraint_def)

lemma work_add: "work (add_constraint c s) = cost c + work s"
  by (simp add: work_def add_constraint_def)

lemma add_pairs_matching:
  assumes "length ds = length ts" "matching s" "\<forall>t\<in>set ts. pure {} t"
  shows "matching (add_pairs k ds ts s) \<and> work (add_pairs k ds ts s) \<le> 2 * size_list size ts + work s"
  using assms
proof (induction ds ts arbitrary: s rule: list_induct2)
  case (Cons d ds t ts)
  have "matching (add_constraint (Constraint k d t) s)" using Cons.prems by (simp add: matching_add)
  from Cons.IH [OF this] Cons.prems have
    "matching (add_pairs k ds ts (add_constraint (Constraint k d t) s))"
    "work (add_pairs k ds ts (add_constraint (Constraint k d t) s)) \<le> 2 * size_list size ts + (cost (Constraint k d t) + work s)"
    by (simp_all add: work_add)
  then show ?case using cost_le [of k d t] by simp
qed simp

text \<open>A step of the loop makes the work less.\<close>

definition descends :: "constraint \<Rightarrow> tc_state \<Rightarrow> solving \<Rightarrow> bool" where
  "descends c s r \<longleftrightarrow> (\<forall>s'. r = solved s' \<longrightarrow> matching s' \<and> work s' < cost c + work s)"

lemma descends_error: "descends c s (reportError s)"
  by (simp add: descends_def)

lemma descends_same: "matching s \<Longrightarrow> descends c s (solved s)"
  by (auto simp: descends_def cost_def split: utype.split)

lemma descends_add:
  "matching s \<Longrightarrow> pure {} r \<Longrightarrow> cost (Constraint k l r) < cost c \<Longrightarrow> descends c s (solved (add_constraint (Constraint k l r) s))"
  by (simp add: descends_def matching_add work_add)

lemma unify_kinds_descends:
  assumes m: "matching s" and p: "pure U d" "pure {} t" "plain_vars U" and n: "d \<noteq> t" "\<forall>v. d \<noteq> TV v" and c: "c = Constraint k d t"
  shows "descends c s (unify_kinds env c rec d t s)"
  using p(1)
proof (cases rule: pure.cases)
  case (pure_Base b)
  have "\<forall>v. t \<noteq> TV v" using p(2) by auto
  then have "unify_kinds env c rec d t s = reportError s"
    using unify_base_plain [OF p(2), of b] n(1) by (simp add: unify_kinds_def pure_Base Let_def)
  then show ?thesis by (simp add: descends_error)
next
  case ds: (pure_Tuple ds)
  from p(2) show ?thesis
  proof (cases rule: pure.cases)
    case (pure_Tuple ts)
    have nd: "\<not> containsDots ts" by (rule containsDots_pure [of "{}"]) (use pure_Tuple in \<open>simp_all add: plain_vars_def\<close>)
    have "descends c s (solved (add_pairs k ds ts s))" if "length ds = length ts"
      using add_pairs_matching [OF that m pure_Tuple(2), of k] by (simp add: descends_def cost_def c ds(1) pure_Tuple(1))
    then show ?thesis
      by (auto simp: unify_kinds_def ds(1) pure_Tuple(1) c Let_def unifyBaseLists_def nd descends_error)
  qed (simp_all add: unify_kinds_def ds(1) Let_def descends_error)
next
  case d: (pure_Stack e i)
  from p(2) show ?thesis
  proof (cases rule: pure.cases)
    case (pure_Stack e' j)
    have "descends c s (solved (add_constraint (Constraint k e e') s))"
      by (rule descends_add [OF m]) (use pure_Stack cost_le [of k e e'] in \<open>simp_all add: c d(1) cost_def\<close>)
    then show ?thesis by (cases "i = j") (simp_all add: unify_kinds_def d(1) pure_Stack(1) c Let_def descends_error)
  qed (simp_all add: unify_kinds_def d(1) Let_def descends_error)
next
  case d: (pure_P4List e)
  from p(2) show ?thesis
  proof (cases rule: pure.cases)
    case (pure_P4List e')
    have "descends c s (solved (add_constraint (Constraint k e e') s))"
      by (rule descends_add [OF m]) (use pure_P4List cost_le [of k e e'] in \<open>simp_all add: c d(1) cost_def\<close>)
    then show ?thesis by (simp add: unify_kinds_def d(1) pure_P4List(1) c Let_def)
  qed (simp_all add: unify_kinds_def d(1) Let_def descends_error)
qed (use n in auto)


lemma unify_descends:
  assumes "matching s" "pure U d" "pure {} t" "plain_vars U" "\<forall>v. d \<noteq> TV v"
  shows "descends (Constraint k d t) s (unify (Suc n) env (Constraint k d t) s)"
proof -
  have r: "replace_if_var s x = ret x" if "\<forall>v. x \<noteq> TV v" for x using that by (cases x) (auto simp: replace_if_var_def)
  have t: "\<forall>v. t \<noteq> TV v" "pure U t" using assms(3) pure_mono [of "{}" t U] by auto
  have dc: "d \<noteq> Base Type_Dontcare" "t \<noteq> Base Type_Dontcare" using assms(2,3) by auto
  note eq = pure_not_Any [OF assms(4,2)] pure_not_Any [OF assms(4) t(2)] equivalent_pure [OF assms(2) t(2)] dc
  show ?thesis
  proof (cases "d = t")
    case True
    then have "unify (Suc n) env (Constraint k d t) s = solved s"
      using eq t(1) by (simp add: r unify_types_def Let_def)
    then show ?thesis using assms(1) by (simp add: descends_same)
  next
    case False
    then have "unify (Suc n) env (Constraint k d t) s = unify_kinds env (Constraint k d t) (unify n env) d t s"
      using eq t(1) assms(5) by (simp add: r unify_types_def Let_def split: comp.split)
    then show ?thesis using unify_kinds_descends [OF assms(1-4) False assms(5) refl] by simp
  qed
qed

lemma bind_variable_descends:
  assumes "plain_state U s" "matching s" "v \<in> U" "pure {} t" "map_of (currentSubstitution s) v = None"
  shows "descends c s (bind_variable v t s)"
proof -
  have p: "plain_vars U" "definedVariables s = []" "pure U t" "t \<noteq> TV v"
    using assms(1,4) pure_mono [of "{}" t U] by (auto simp: plain_state_def)
  have t: "v \<notin> tvars t" using pure_tvars [OF assms(4)] by auto
  have id: "apply_subst [(v, t)] u = Some u" if "pure {} u" for u
    unfolding apply_subst_def by (rule substM_id [OF that]) (use pure_tvars [OF that] in auto)
  have "refine_bindings v t b = ret (False, b)" if "\<forall>(v, t)\<in>set b. pure {} t" for b
    using that by (induction b) (auto simp: id)
  moreover have "\<forall>(v, t)\<in>set (currentSubstitution s). pure {} t" using assms(2) by (simp add: matching_def)
  ultimately have "refine_bindings v t (currentSubstitution s) = ret (False, currentSubstitution s)" by blast
  moreover obtain n d where "v = Type_Var n d" using p(1) assms(3) by (auto simp: plain_vars_def)
  moreover have "t \<noteq> Base Type_Dontcare" using assms(4) by auto
  ultimately have "bind_variable v t s = solved (s\<lparr>currentSubstitution := currentSubstitution s @ [(v, t)]\<rparr>)"
    using replaceVariables_pure [OF p(2,3)] p(4) t assms(5)
    by (simp add: bind_variable_def compose_def occurs_def containsKey_def)
  then show ?thesis using assms(2,4) by (auto simp: descends_def matching_def work_def cost_def split: utype.split)
qed

lemma solve_constraint_descends:
  assumes s: "plain_state U s" "matching s" and p: "pure U l" "pure {} r"
  shows "descends (Constraint k l r) s (solve_constraint env (Constraint k l r) s)"
proof (cases "\<exists>v. l = TV v")
  case True
  then obtain v where l: "l = TV v" by blast
  have v: "v \<in> U" "plain_vars U" "isUnifiableTypeVariable s (TV v)"
    using p(1) s(1) by (auto simp: l isUnifiableTypeVariable_def plain_state_def containsKey_def plain_vars_def split: tvar.split)
  have r: "\<not> is_Any r" "r \<noteq> TV v" using p(2) pure_not_Any [of "{}" r] by (auto simp: plain_vars_def)
  show ?thesis
  proof (cases "map_of (currentSubstitution s) v")
    case None
    then show ?thesis using bind_variable_descends [OF s v(1) p(2) None] r v(3) by (simp add: solve_constraint_def l)
  next
    case (Some t)
    then have "pure {} t" using s(2) by (auto simp: matching_def dest: map_of_SomeD)
    then have "cost (Constraint k t r) < cost (Constraint k l r)" by (auto simp: cost_def l split: utype.split)
    then show ?thesis using descends_add [OF s(2) p(2)] Some r v(3) by (simp add: solve_constraint_def l)
  qed
next
  case False
  have "\<forall>v. r \<noteq> TV v" using p(2) by auto
  with False have "solve_constraint env (Constraint k l r) s = unify (Suc (Suc 0)) env (Constraint k l r) s"
    by (cases l; cases r) (auto simp: solve_constraint_def isUnifiableTypeVariable_def numeral_2_eq_2 simp del: unify.simps)
  then show ?thesis using unify_descends [OF s(2) p] False s(1) by (simp add: plain_state_def)
qed

lemma solve_loop_terminates:
  "plain_state U s \<Longrightarrow> matching s \<Longrightarrow> \<exists>res. solve_loop env s = Some res"
proof (induction "work s" arbitrary: s rule: less_induct)
  case less
  show ?case
  proof (cases "pending s")
    case Nil
    then show ?thesis by (simp add: solve_loop.simps [of env s])
  next
    case (Cons c cs)
    let ?s = "s\<lparr>pending := cs\<rparr>"
    obtain k l r where c: "c = Constraint k l r" by (cases c)
    have p: "plain_state U ?s" "matching ?s" "pure U l" "pure {} r" "pure U r"
      using less.prems pure_mono [of "{}" r U] by (simp_all add: plain_state_def matching_def Cons c)
    have w: "work s = cost c + work ?s" by (simp add: work_def Cons)
    from solve_constraint_plain [OF p(1,3,5), of k env]
    consider s' where "solve_constraint env c ?s = solved s'" "plain_state U s'"
      | "solve_constraint env c ?s = reportError ?s"
      unfolding decided_def c by blast
    then show ?thesis
    proof cases
      case 1
      then have "matching s' \<and> work s' < work s"
        using solve_constraint_descends [OF p(1-4), of k env] w by (simp add: descends_def c)
      with less.hyps 1(2) obtain res where "solve_loop env s' = Some res" by blast
      then show ?thesis using 1(1) by (simp add: solve_loop.simps [of env s] Cons)
    next
      case 2
      then show ?thesis by (simp add: solve_loop.simps [of env s] Cons)
    qed
  qed
qed


text \<open>C28: constraints on types built from base types, variables, tuples, stacks and lists whose right
  sides have no variables are always decided: the solver returns, either with a substitution that
  describes exactly the instances that make both sides of every constraint equal, or with an error when
  there is none.\<close>

theorem matching_decided:
  assumes "plain_state U (s\<lparr>currentSubstitution := []\<rparr>)" "list_all (\<lambda>c. pure {} (cright c)) (pending s)"
  shows "(\<exists>s'. solve env s = Some (ret (Some s')) \<and>
      (\<forall>\<theta>. sat \<theta> (currentSubstitution s') \<longleftrightarrow> list_all (unifies \<theta>) (pending s))) \<or>
    ((\<exists>ds. solve env s = Some (Ok ds None)) \<and> (\<forall>\<theta>. \<not> list_all (unifies \<theta>) (pending s)))"
proof -
  have "matching (s\<lparr>currentSubstitution := []\<rparr>)" using assms(2) by (simp add: matching_def)
  from solve_loop_terminates [OF assms(1) this, of env] obtain res where r: "solve_loop env (s\<lparr>currentSubstitution := []\<rparr>) = Some res" by blast
  from solve_loop_plain [OF this assms(1)] r show ?thesis by (auto simp: solve_def solved_plain_def unifier_def)
qed

theorem matching_decided_witness:
  "\<exists>s'. solve plain_env (plain_problem
      [Constraint False (Type_Tuple [TV (Type_Var ''S'' 1), TV (Type_Var ''T'' 2)])
         (Type_Tuple [Base Type_Boolean, Type_Stack (Base Type_String) 3])]) = Some (ret (Some s')) \<and>
    (\<forall>\<theta>. sat \<theta> (currentSubstitution s') \<longleftrightarrow>
       \<theta> (Type_Var ''S'' 1) = Base Type_Boolean \<and> \<theta> (Type_Var ''T'' 2) = Type_Stack (Base Type_String) 3)"
proof -
  let ?s = "plain_problem [Constraint False (Type_Tuple [TV (Type_Var ''S'' 1), TV (Type_Var ''T'' 2)])
         (Type_Tuple [Base Type_Boolean, Type_Stack (Base Type_String) 3])]"
  let ?\<theta> = "\<lambda>v. if v = Type_Var ''S'' 1 then Base Type_Boolean else Type_Stack (Base Type_String) 3"
  have u: "list_all (unifies \<theta>) (pending ?s) \<longleftrightarrow>
      \<theta> (Type_Var ''S'' 1) = Base Type_Boolean \<and> \<theta> (Type_Var ''T'' 2) = Type_Stack (Base Type_String) 3" for \<theta>
    by (simp add: plain_problem_def unifies_def)
  have "plain_state (unifiable ?s) (?s\<lparr>currentSubstitution := []\<rparr>)" "list_all (\<lambda>c. pure {} (cright c)) (pending ?s)"
    by (simp_all add: plain_problem_def plain_state_def plain_vars_def)
  note d = matching_decided [OF this, of plain_env]
  have "list_all (unifies ?\<theta>) (pending ?s)" unfolding u by simp
  with d obtain s' where "solve plain_env ?s = Some (ret (Some s'))"
    "\<forall>\<theta>. sat \<theta> (currentSubstitution s') \<longleftrightarrow> list_all (unifies \<theta>) (pending ?s)" by blast
  then show ?thesis unfolding u by blast
qed

section \<open>A call that is never solved\<close>

definition solve_step :: "unify_env \<Rightarrow> tc_state \<Rightarrow> tc_state option" where
  "solve_step env s =
     (case pending s of
        [] \<Rightarrow> None
      | c # cs \<Rightarrow>
          (case solve_constraint env c (s\<lparr>pending := cs\<rparr>) of
             Bug m \<Rightarrow> None
           | Ok ds r \<Rightarrow> if fst r then Some (snd r) else None))"

fun solve_steps :: "unify_env \<Rightarrow> nat \<Rightarrow> tc_state \<Rightarrow> tc_state option" where
  "solve_steps env 0 s = Some s"
| "solve_steps env (Suc n) s = Option.bind (solve_step env s) (solve_steps env n)"

text \<open>A set of states in which the loop is caught.\<close>

lemma solve_loop_caught:
  assumes "P s" "\<And>s. P s \<Longrightarrow> \<exists>s'. solve_step env s = Some s' \<and> P s'"
  shows "solve_loop env s = None"
proof (rule ccontr)
  assume "solve_loop env s \<noteq> None"
  then obtain res where "solve_loop env s = Some res" by blast
  then have "(\<forall>s. P s \<longrightarrow> (\<exists>s'. solve_step env s = Some s' \<and> P s')) \<longrightarrow> \<not> P s"
  proof (rule solve_loop.raw_induct [rotated], goal_cases)
    case (1 loop e s res)
    show ?case
    proof (intro impI notI)
      assume step: "\<forall>s. P s \<longrightarrow> (\<exists>s'. solve_step e s = Some s' \<and> P s')" and "P s"
      then obtain s' where s': "solve_step e s = Some s'" "P s'" by blast
      then obtain c cs ds where "pending s = c # cs" "solve_constraint e c (s\<lparr>pending := cs\<rparr>) = Ok ds (True, s')"
        by (auto simp: solve_step_def split: list.split_asm comp.split_asm if_split_asm)
      with 1(2) obtain res' where "loop e s' = Some res'" by (auto simp: bind_eq_Some_conv)
      from 1(1) [OF this] step s'(2) show False by blast
    qed
  qed
  with assms show False by blast
qed

lemma solve_loop_cycle:
  assumes "solve_steps env n s = Some t" "solve_steps env (Suc m) t = Some t"
  shows "solve_loop env s = None"
proof (rule solve_loop_caught)
  show "\<exists>k. solve_steps env k s = Some t" using assms(1) by blast
  fix s
  assume "\<exists>k. solve_steps env k s = Some t"
  then obtain k where k: "solve_steps env k s = Some t" by blast
  show "\<exists>s'. solve_step env s = Some s' \<and> (\<exists>k. solve_steps env k s' = Some t)"
  proof (cases k)
    case 0
    then have "s = t" using k by simp
    with assms(2) show ?thesis by (auto simp: bind_eq_Some_conv)
  next
    case (Suc k')
    with k show ?thesis by (auto simp: bind_eq_Some_conv)
  qed
qed

text \<open>A call \<open>f(i, i, j, k, i, j, k)\<close> of a function with three type parameters, each of which is the type
  of two parameters; \<open>i\<close>, \<open>j\<close> and \<open>k\<close> are integer constants of unknown width.\<close>

definition in_param :: "string \<Rightarrow> utype \<Rightarrow> utype param" where
  "in_param n t = Param n DirIn t False False"

definition int_arg :: "nat \<Rightarrow> utype arg_info" where
  "int_arg i = ArgumentInfo None False True (TV (Type_InfInt i))"

definition hanging_call :: tc_state where
  "hanging_call =
     (let S = Type_Var ''S'' 1; U = Type_Var ''U'' 2; V = Type_Var ''V'' 3
      in \<lparr>unifiable = {},
          pending = [Constraint True
            (MethodBase Type_Method [S, U, V] None
               [in_param ''n'' (Base (Type_Bits 8 False)), in_param ''a'' (TV S), in_param ''b'' (TV S),
                in_param ''c'' (TV U), in_param ''d'' (TV U), in_param ''e'' (TV V), in_param ''f'' (TV V)])
            (Type_MethodCall [] (Type_Var ''R'' 4) (map int_arg [1, 1, 2, 3, 1, 2, 3]))],
          definedVariables = [], currentSubstitution = []\<rparr>)"

text \<open>C29: the solver does not always return.  Given a call of a generic function with seven arguments that
  are three integer constants of unknown width, it binds the types of two of the constants to each other
  and then replaces one by the other for ever.\<close>

theorem solve_hangs: "solve plain_env hanging_call = None"
proof -
  have "solve_steps plain_env 14 hanging_call = Some (the (solve_steps plain_env 14 hanging_call))"
    by code_simp
  moreover have "solve_steps plain_env (Suc 1) (the (solve_steps plain_env 14 hanging_call)) =
      Some (the (solve_steps plain_env 14 hanging_call))"
    by code_simp
  ultimately have "solve_loop plain_env hanging_call = None" by (rule solve_loop_cycle)
  moreover have "hanging_call\<lparr>currentSubstitution := []\<rparr> = hanging_call" by (simp add: hanging_call_def Let_def)
  ultimately show ?thesis by (simp add: solve_def)
qed

end
