(* ===== verification/TypeMap_Canon.thy ===== *)
theory TypeMap_Canon
  imports TypeConstraints
begin

text \<open>
  The rest of the type map that looks at types (frontends/p4/typeMap.cpp): implicit conversions, the
  tables of canonical types and the width of a type.  Equivalence of types is an equivalence relation,
  and so the tables give equivalent types, and only these, the same canonical type.
\<close>

section \<open>Implicit conversions\<close>

text \<open>The type that is converted comes first.  The test on integers looks at the nodes themselves.\<close>

fun all_convertible :: "(utype \<Rightarrow> bool option) list \<Rightarrow> utype list \<Rightarrow> bool option" where
  "all_convertible (e # es) (r # rs) = and_then (e r) (all_convertible es rs)"
| "all_convertible _ _ = Some True"

definition or_else :: "bool option \<Rightarrow> bool option \<Rightarrow> bool option" where
  "or_else a b = (case a of None \<Rightarrow> None | Some True \<Rightarrow> Some True | Some False \<Rightarrow> b)"

definition baselist :: "utype \<Rightarrow> utype list option" where
  "baselist t = (case t of Type_List ts \<Rightarrow> Some ts | Type_Tuple ts \<Rightarrow> Some ts | _ \<Rightarrow> None)"

definition integer_target :: "utype \<Rightarrow> bool" where
  "integer_target t =
     (case t of
        TV v \<Rightarrow> (case v of Type_InfInt i \<Rightarrow> True | _ \<Rightarrow> False)
      | Base b \<Rightarrow> (case b of Type_Bits n s \<Rightarrow> True | _ \<Rightarrow> False)
      | _ \<Rightarrow> False)"

text \<open>The components of a structure or a tuple against those of a list.\<close>

definition convert_all :: "(utype \<Rightarrow> bool option) list \<Rightarrow> utype \<Rightarrow> bool option" where
  "convert_all es target =
     (case baselist target of
        None \<Rightarrow> Some False
      | Some rs \<Rightarrow> if length es \<noteq> length rs then Some False else all_convertible es rs)"

primrec implicitlyConvertibleTo :: "bool \<Rightarrow> utype \<Rightarrow> utype \<Rightarrow> bool option" where
  "implicitlyConvertibleTo ss (Base b) = (\<lambda>target. equivalent (Base b) ss False target)"
| "implicitlyConvertibleTo ss (TV v) = (\<lambda>target. or_else (equivalent (TV v) ss False target)
     (Some ((case v of Type_InfInt i \<Rightarrow> True | _ \<Rightarrow> False) \<and> integer_target target)))"
| "implicitlyConvertibleTo ss (Type_List ts) = (\<lambda>target. equivalent (Type_List ts) ss False target)"
| "implicitlyConvertibleTo ss (Type_Tuple ts) = (\<lambda>target. or_else (equivalent (Type_Tuple ts) ss False target)
     (convert_all (map (implicitlyConvertibleTo ss) ts) target))"
| "implicitlyConvertibleTo ss (Type_P4List t) = (\<lambda>target. equivalent (Type_P4List t) ss False target)"
| "implicitlyConvertibleTo ss (Type_Stack t n) = (\<lambda>target. equivalent (Type_Stack t n) ss False target)"
| "implicitlyConvertibleTo ss (Type_Set t) = (\<lambda>target. equivalent (Type_Set t) ss False target)"
| "implicitlyConvertibleTo ss (Type_Type t) = (\<lambda>target. equivalent (Type_Type t) ss False target)"
| "implicitlyConvertibleTo ss (Type_Fragment t) = (\<lambda>target. equivalent (Type_Fragment t) ss False target)"
| "implicitlyConvertibleTo ss (StructLike k n fs) = (\<lambda>target. or_else (equivalent (StructLike k n fs) ss False target)
     (convert_all (map snd (map (map_prod id (implicitlyConvertibleTo ss)) fs)) target))"
| "implicitlyConvertibleTo ss (Type_Enum n) = (\<lambda>target. equivalent (Type_Enum n) ss False target)"
| "implicitlyConvertibleTo ss (Type_SerEnum n t) = (\<lambda>target. equivalent (Type_SerEnum n t) ss False target)"
| "implicitlyConvertibleTo ss (Type_Newtype n t) = (\<lambda>target. equivalent (Type_Newtype n t) ss False target)"
| "implicitlyConvertibleTo ss (Type_Extern n) = (\<lambda>target. equivalent (Type_Extern n) ss False target)"
| "implicitlyConvertibleTo ss Type_Error = (\<lambda>target. equivalent Type_Error ss False target)"
| "implicitlyConvertibleTo ss (Type_ActionEnum i) = (\<lambda>target. equivalent (Type_ActionEnum i) ss False target)"
| "implicitlyConvertibleTo ss (Type_SpecializedCanonical b as u) =
     (\<lambda>target. equivalent (Type_SpecializedCanonical b as u) ss False target)"
| "implicitlyConvertibleTo ss (MethodBase k tps r ps) = (\<lambda>target. equivalent (MethodBase k tps r ps) ss False target)"
| "implicitlyConvertibleTo ss (Type_MethodCall as r args) = (\<lambda>target. equivalent (Type_MethodCall as r args) ss False target)"
| "implicitlyConvertibleTo ss (Type_Package n tps ps) = (\<lambda>target. equivalent (Type_Package n tps ps) ss False target)"
| "implicitlyConvertibleTo ss (ArchBlock k n tps ps) = (\<lambda>target. equivalent (ArchBlock k n tps ps) ss False target)"
| "implicitlyConvertibleTo ss (P4Container k n tps ps) = (\<lambda>target. equivalent (P4Container k n tps ps) ss False target)"

section \<open>Canonical types\<close>

record canonical_types =
  canonicalStacks :: "utype list"
  canonicalTuples :: "utype list"
  canonicalLists :: "utype list"
  canonicalP4lists :: "utype list"

text \<open>The search for an equivalent type; the inner \<open>None\<close> tells that there is none.\<close>

fun find_equivalent :: "bool \<Rightarrow> utype \<Rightarrow> utype list \<Rightarrow> utype option comp" where
  "find_equivalent ss type [] = ret None"
| "find_equivalent ss type (t # ts) =
     (case equivalent type ss True t of
        None \<Rightarrow> Bug ''Unexpected type check for equivalence''
      | Some True \<Rightarrow> ret (Some t)
      | Some False \<Rightarrow> find_equivalent ss type ts)"

definition searchIn :: "bool \<Rightarrow> utype \<Rightarrow> utype list \<Rightarrow> (utype \<times> utype list) comp" where
  "searchIn ss type table =
     bind_comp (find_equivalent ss type table) (\<lambda>found.
       case found of Some t \<Rightarrow> ret (t, table) | None \<Rightarrow> ret (type, table @ [type]))"

definition getCanonical :: "bool \<Rightarrow> utype \<Rightarrow> canonical_types \<Rightarrow> (utype \<times> canonical_types) comp" where
  "getCanonical ss type m =
     (case type of
        Type_Stack t n \<Rightarrow>
          bind_comp (searchIn ss type (canonicalStacks m)) (\<lambda>(t, ts). ret (t, m\<lparr>canonicalStacks := ts\<rparr>))
      | Type_Tuple us \<Rightarrow>
          bind_comp (searchIn ss type (canonicalTuples m)) (\<lambda>(t, ts). ret (t, m\<lparr>canonicalTuples := ts\<rparr>))
      | Type_List us \<Rightarrow>
          bind_comp (searchIn ss type (canonicalLists m)) (\<lambda>(t, ts). ret (t, m\<lparr>canonicalLists := ts\<rparr>))
      | Type_P4List u \<Rightarrow>
          bind_comp (searchIn ss type (canonicalP4lists m)) (\<lambda>(t, ts). ret (t, m\<lparr>canonicalP4lists := ts\<rparr>))
      | _ \<Rightarrow> Bug ''unexpected type'')"

text \<open>Asking for the canonical types of several types, one after the other.\<close>

fun canonical_all :: "bool \<Rightarrow> utype list \<Rightarrow> canonical_types \<Rightarrow> utype list comp" where
  "canonical_all ss [] m = ret []"
| "canonical_all ss (t # ts) m =
     bind_comp (getCanonical ss t m) (\<lambda>(u, m). bind_comp (canonical_all ss ts m) (\<lambda>us. ret (u # us)))"

section \<open>Equivalence is an equivalence relation\<close>

lemma equivalent_refl [simp]: "equivalent t ss strict t = Some True"
  by (cases t) simp_all

lemma and_then_True [simp]: "and_then a b = Some True \<longleftrightarrow> a = Some True \<and> b = Some True"
  by (auto simp: and_then_def split: option.split bool.split)

lemma all_equivalent_sym:
  assumes "length ls = length rs" "\<And>l r. l \<in> set ls \<Longrightarrow> equivalent l ss st r = equivalent r ss st l"
  shows "all_equivalent (map (\<lambda>e. e ss st) (map equivalent ls)) rs = all_equivalent (map (\<lambda>e. e ss st) (map equivalent rs)) ls"
  using assms
proof (induction ls rs rule: list_induct2)
  case (Cons l ls r rs)
  have "equivalent l ss st r = equivalent r ss st l" by (rule Cons.prems) simp
  moreover have "all_equivalent (map (\<lambda>e. e ss st) (map equivalent ls)) rs = all_equivalent (map (\<lambda>e. e ss st) (map equivalent rs)) ls"
    by (rule Cons.IH) (use Cons.prems in auto)
  ultimately show ?case by (simp only: list.map all_equivalent.simps)
qed simp

lemma all_fields_sym:
  assumes "length ls = length rs" "\<And>f l r. (f, l) \<in> set ls \<Longrightarrow> equivalent l ss st r = equivalent r ss st l"
  shows "all_fields_equivalent (map (\<lambda>(f, e). (f, e ss st)) (map (map_prod id equivalent) ls)) rs =
     all_fields_equivalent (map (\<lambda>(f, e). (f, e ss st)) (map (map_prod id equivalent) rs)) ls"
  using assms
proof (induction ls rs rule: list_induct2)
  case (Cons l ls r rs)
  obtain f a g b where lr: "l = (f, a)" "r = (g, b)" by fastforce
  have "equivalent a ss st b = equivalent b ss st a" by (rule Cons.prems [of f]) (simp add: lr)
  moreover have "all_fields_equivalent (map (\<lambda>(f, e). (f, e ss st)) (map (map_prod id equivalent) ls)) rs =
     all_fields_equivalent (map (\<lambda>(f, e). (f, e ss st)) (map (map_prod id equivalent) rs)) ls"
    by (rule Cons.IH) (use Cons.prems in auto)
  ultimately show ?case
    by (simp only: lr list.map map_prod_simp case_prod_conv all_fields_equivalent.simps id_def eq_commute [of f g])
qed simp

lemma all_params_sym:
  assumes "length ps = length qs" "\<And>p l r. p \<in> set ps \<Longrightarrow> l \<in> set_param p \<Longrightarrow> equivalent l ss st r = equivalent r ss st l"
  shows "all_params_equivalent (map (\<lambda>(d, e). (d, e ss st)) (map (\<lambda>p. (pdirection p, ptype p)) (map (map_param equivalent) ps))) qs =
     all_params_equivalent (map (\<lambda>(d, e). (d, e ss st)) (map (\<lambda>p. (pdirection p, ptype p)) (map (map_param equivalent) qs))) ps"
  using assms
proof (induction ps qs rule: list_induct2)
  case (Cons p ps q qs)
  have "equivalent (ptype p) ss st (ptype q) = equivalent (ptype q) ss st (ptype p)"
    by (rule Cons.prems [of p]) (simp_all add: param.set_sel)
  moreover have "all_params_equivalent (map (\<lambda>(d, e). (d, e ss st)) (map (\<lambda>p. (pdirection p, ptype p)) (map (map_param equivalent) ps))) qs =
     all_params_equivalent (map (\<lambda>(d, e). (d, e ss st)) (map (\<lambda>p. (pdirection p, ptype p)) (map (map_param equivalent) qs))) ps"
    by (rule Cons.IH) (use Cons.prems in auto)
  ultimately show ?case
    by (simp only: list.map param.map_sel case_prod_conv all_params_equivalent.simps eq_commute [of "pdirection p"])
qed simp


lemma equivalent_sym: "equivalent l ss strict r = equivalent r ss strict l"
proof (induction l arbitrary: r strict)
  case (Type_List ls)
  show ?case
  proof (cases r)
    case r: (Type_List rs)
    have "all_equivalent (map (\<lambda>e. e ss (strict \<or> ss)) (map equivalent ls)) rs =
        all_equivalent (map (\<lambda>e. e ss (strict \<or> ss)) (map equivalent rs)) ls" if "length ls = length rs"
      by (rule all_equivalent_sym [OF that]) (rule Type_List.IH)
    then show ?thesis by (simp add: r eq_commute [of ls] eq_commute [of "length ls"] del: map_map)
  qed simp_all
next
  case (Type_Tuple ls)
  show ?case
  proof (cases r)
    case r: (Type_Tuple rs)
    have "all_equivalent (map (\<lambda>e. e ss (strict \<or> ss)) (map equivalent ls)) rs =
        all_equivalent (map (\<lambda>e. e ss (strict \<or> ss)) (map equivalent rs)) ls" if "length ls = length rs"
      by (rule all_equivalent_sym [OF that]) (rule Type_Tuple.IH)
    then show ?thesis by (simp add: r eq_commute [of ls] eq_commute [of "length ls"] del: map_map)
  qed simp_all
next
  case (StructLike k n fs)
  show ?case
  proof (cases r)
    case r: (StructLike k' m gs)
    have "all_fields_equivalent (map (\<lambda>(f, e). (f, e ss (strict \<or> ss))) (map (map_prod id equivalent) fs)) gs =
        all_fields_equivalent (map (\<lambda>(f, e). (f, e ss (strict \<or> ss))) (map (map_prod id equivalent) gs)) fs"
      if "length fs = length gs"
      by (rule all_fields_sym [OF that]) (use StructLike in fastforce)
    then show ?thesis by (auto simp: r simp del: map_map)
  qed simp_all
next
  case (ArchBlock k n tps ps)
  show ?case
  proof (cases r)
    case r: (ArchBlock k' m tqs qs)
    have "all_params_equivalent (map (\<lambda>(d, e). (d, e ss (strict \<or> ss))) (map (\<lambda>p. (pdirection p, ptype p)) (map (map_param equivalent) ps))) qs =
        all_params_equivalent (map (\<lambda>(d, e). (d, e ss (strict \<or> ss))) (map (\<lambda>p. (pdirection p, ptype p)) (map (map_param equivalent) qs))) ps"
      if "length ps = length qs"
      by (rule all_params_sym [OF that]) (rule ArchBlock.IH)
    then show ?thesis by (auto simp: r simp del: map_map)
  qed simp_all
next
  case (P4Container k n tps ps)
  show ?case
  proof (cases r)
    case r: (P4Container k' m tqs qs)
    have "all_params_equivalent (map (\<lambda>(d, e). (d, e ss (strict \<or> ss))) (map (\<lambda>p. (pdirection p, ptype p)) (map (map_param equivalent) ps))) qs =
        all_params_equivalent (map (\<lambda>(d, e). (d, e ss (strict \<or> ss))) (map (\<lambda>p. (pdirection p, ptype p)) (map (map_param equivalent) qs))) ps"
      if "length ps = length qs"
      by (rule all_params_sym [OF that]) (rule P4Container.IH)
    then show ?thesis by (auto simp: r simp del: map_map)
  qed simp_all
next
  case (Type_Package n tps ps)
  show ?case
  proof (cases r)
    case r: (Type_Package m tqs qs)
    have "all_params_equivalent (map (\<lambda>(d, e). (d, e ss (strict \<or> ss))) (map (\<lambda>p. (pdirection p, ptype p)) (map (map_param equivalent) ps))) qs =
        all_params_equivalent (map (\<lambda>(d, e). (d, e ss (strict \<or> ss))) (map (\<lambda>p. (pdirection p, ptype p)) (map (map_param equivalent) qs))) ps"
      if "length ps = length qs"
      by (rule all_params_sym [OF that]) (rule Type_Package.IH)
    then show ?thesis by (auto simp: r simp del: map_map)
  qed simp_all
next
  case (Type_SpecializedCanonical b as u)
  show ?case
  proof (cases r)
    case r: (Type_SpecializedCanonical c bs w)
    have "all_equivalent (map (\<lambda>e. e ss (strict \<or> ss)) (map equivalent as)) bs =
        all_equivalent (map (\<lambda>e. e ss (strict \<or> ss)) (map equivalent bs)) as" if "length as = length bs"
      by (rule all_equivalent_sym [OF that]) (rule Type_SpecializedCanonical.IH(2))
    then show ?thesis using Type_SpecializedCanonical.IH(1) [of "strict \<or> ss" c]
      by (auto simp: r simp del: map_map)
  qed simp_all
next
  case (MethodBase k tps q ps)
  show ?case
  proof (cases r)
    case r: (MethodBase k' tqs q' qs)
    have "all_params_equivalent (map (\<lambda>(d, e). (d, e ss (strict \<or> ss))) (map (\<lambda>p. (pdirection p, ptype p)) (map (map_param equivalent) ps))) qs =
        all_params_equivalent (map (\<lambda>(d, e). (d, e ss (strict \<or> ss))) (map (\<lambda>p. (pdirection p, ptype p)) (map (map_param equivalent) qs))) ps"
      if "length ps = length qs"
      by (rule all_params_sym [OF that]) (rule MethodBase.IH(2))
    moreover have "(case (map_option equivalent q, q') of (None, None) \<Rightarrow> Some True
          | (Some e, Some u) \<Rightarrow> e ss (strict \<or> ss) u | _ \<Rightarrow> Some False) =
        (case (map_option equivalent q', q) of (None, None) \<Rightarrow> Some True
          | (Some e, Some u) \<Rightarrow> e ss (strict \<or> ss) u | _ \<Rightarrow> Some False)"
      using MethodBase.IH(1) by (cases q; cases q') auto
    ultimately show ?thesis by (auto simp: r simp del: map_map)
  qed simp_all
next
  case (Type_Stack l n)
  then show ?case by (cases r) (auto simp: eq_commute [of n])
qed (case_tac [!] r, auto simp: eq_commute)

abbreviation eqv :: "bool \<Rightarrow> bool \<Rightarrow> utype \<Rightarrow> utype \<Rightarrow> bool" where
  "eqv ss st l r \<equiv> equivalent l ss st r = Some True"

lemma all_equivalent_True:
  "length ls = length rs \<Longrightarrow>
     all_equivalent (map (\<lambda>e. e ss st) (map equivalent ls)) rs = Some True \<longleftrightarrow> list_all2 (eqv ss st) ls rs"
  by (induction ls rs rule: list_induct2) auto

lemma all_fields_True:
  "length ls = length rs \<Longrightarrow>
     all_fields_equivalent (map (\<lambda>(f, e). (f, e ss st)) (map (map_prod id equivalent) ls)) rs = Some True \<longleftrightarrow>
     list_all2 (rel_prod (=) (eqv ss st)) ls rs"
proof (induction ls rs rule: list_induct2)
  case (Cons l ls r rs)
  then show ?case by (cases l; cases r) auto
qed simp

lemma all_params_True:
  "length ps = length qs \<Longrightarrow>
     all_params_equivalent (map (\<lambda>(d, e). (d, e ss st)) (map (\<lambda>p. (pdirection p, ptype p)) (map (map_param equivalent) ps))) qs = Some True \<longleftrightarrow>
     list_all2 (\<lambda>p q. pdirection p = pdirection q \<and> eqv ss st (ptype p) (ptype q)) ps qs"
proof (induction ps qs rule: list_induct2)
  case (Cons p ps q qs)
  then show ?case by (simp add: param.map_sel)
qed simp

lemma eqv_list_trans:
  assumes "list_all2 (eqv ss st) ls ms" "list_all2 (eqv ss st) ms rs"
    "\<And>l m r. l \<in> set ls \<Longrightarrow> eqv ss st l m \<Longrightarrow> eqv ss st m r \<Longrightarrow> eqv ss st l r"
  shows "list_all2 (eqv ss st) ls rs"
  using assms unfolding list_all2_conv_all_nth by (metis nth_mem)

lemma eqv_fields_trans:
  assumes "list_all2 (rel_prod (=) (eqv ss st)) ls ms" "list_all2 (rel_prod (=) (eqv ss st)) ms rs"
    "\<And>f l m r. (f, l) \<in> set ls \<Longrightarrow> eqv ss st l m \<Longrightarrow> eqv ss st m r \<Longrightarrow> eqv ss st l r"
  shows "list_all2 (rel_prod (=) (eqv ss st)) ls rs"
  unfolding list_all2_conv_all_nth
proof (intro conjI allI impI)
  show "length ls = length rs" using assms(1,2) by (simp add: list_all2_conv_all_nth)
  fix i
  assume i: "i < length ls"
  then have "rel_prod (=) (eqv ss st) (ls ! i) (ms ! i)" "rel_prod (=) (eqv ss st) (ms ! i) (rs ! i)"
    using assms(1,2) by (auto simp: list_all2_conv_all_nth)
  then show "rel_prod (=) (eqv ss st) (ls ! i) (rs ! i)"
    using assms(3) nth_mem [OF i] by (cases "ls ! i"; cases "ms ! i"; cases "rs ! i") auto
qed

lemma eqv_params_trans:
  assumes "list_all2 (\<lambda>p q. pdirection p = pdirection q \<and> eqv ss st (ptype p) (ptype q)) ps qs"
    "list_all2 (\<lambda>p q. pdirection p = pdirection q \<and> eqv ss st (ptype p) (ptype q)) qs us"
    "\<And>p l m r. p \<in> set ps \<Longrightarrow> l \<in> set_param p \<Longrightarrow> eqv ss st l m \<Longrightarrow> eqv ss st m r \<Longrightarrow> eqv ss st l r"
  shows "list_all2 (\<lambda>p q. pdirection p = pdirection q \<and> eqv ss st (ptype p) (ptype q)) ps us"
  unfolding list_all2_conv_all_nth
proof (intro conjI allI impI)
  show "length ps = length us" using assms(1,2) by (simp add: list_all2_conv_all_nth)
  fix i
  assume i: "i < length ps"
  then have h: "pdirection (ps ! i) = pdirection (qs ! i)" "eqv ss st (ptype (ps ! i)) (ptype (qs ! i))"
    "pdirection (qs ! i) = pdirection (us ! i)" "eqv ss st (ptype (qs ! i)) (ptype (us ! i))"
    using assms(1,2) by (auto simp: list_all2_conv_all_nth)
  show "eqv ss st (ptype (ps ! i)) (ptype (us ! i))"
    by (rule assms(3) [OF nth_mem [OF i] _ h(2,4)]) (simp add: param.set_sel)
  show "pdirection (ps ! i) = pdirection (us ! i)" using h by simp
qed

lemma eqv_simps:
  "eqv ss st (Base b) r \<longleftrightarrow> r = Base b"
  "eqv ss st (TV v) r \<longleftrightarrow> r = TV v"
  "eqv ss st (Type_P4List l) r \<longleftrightarrow> (\<exists>u. r = Type_P4List u \<and> eqv ss (st \<or> ss) l u)"
  "eqv ss st (Type_Stack l i) r \<longleftrightarrow> (\<exists>u. r = Type_Stack u i \<and> eqv ss (st \<or> ss) l u)"
  "eqv ss st (Type_Set l) r \<longleftrightarrow> (\<exists>u. r = Type_Set u \<and> eqv ss (st \<or> ss) l u)"
  "eqv ss st (Type_Type l) r \<longleftrightarrow> (\<exists>u. r = Type_Type u \<and> eqv ss (st \<or> ss) l u)"
  "eqv ss st (Type_Fragment l) r \<longleftrightarrow> (\<exists>u. r = Type_Fragment u \<and> eqv ss False l u)"
  "eqv ss st (Type_Enum n) r \<longleftrightarrow> r = Type_Enum n"
  "eqv ss st (Type_SerEnum n l) r \<longleftrightarrow> (\<exists>u. r = Type_SerEnum n u)"
  "eqv ss st (Type_Newtype n l) r \<longleftrightarrow> r = Type_Newtype n l"
  "eqv ss st (Type_Extern n) r \<longleftrightarrow> r = Type_Extern n"
  "eqv ss st Type_Error r \<longleftrightarrow> r = Type_Error"
  "eqv ss st (Type_ActionEnum i) r \<longleftrightarrow> r = Type_ActionEnum i"
  "eqv ss st (Type_MethodCall as q args) r \<longleftrightarrow> r = Type_MethodCall as q args"
  by (cases r; auto)+

lemma eqv_List:
  "eqv ss st (Type_List ls) r \<longleftrightarrow> (\<exists>rs. r = Type_List rs \<and> list_all2 (eqv ss (st \<or> ss)) ls rs)"
  "eqv ss st (Type_Tuple ls) r \<longleftrightarrow> (\<exists>rs. r = Type_Tuple rs \<and> list_all2 (eqv ss (st \<or> ss)) ls rs)"
  by (cases r; auto simp: all_equivalent_True list_all2_lengthD list.rel_refl simp del: map_map)+

lemma eqv_fields_refl [simp]: "list_all2 (rel_prod (=) (eqv ss st)) fs fs"
  by (rule list.rel_refl) (simp add: prod.rel_refl)

lemma eqv_StructLike:
  "eqv ss st (StructLike k n fs) r \<longleftrightarrow>
     (\<exists>m gs. r = StructLike k m gs \<and> (st \<or> ss \<longrightarrow> k \<noteq> Type_UnknownStruct \<longrightarrow> n = m) \<and>
        list_all2 (rel_prod (=) (eqv ss (st \<or> ss))) fs gs)"
  by (cases r; auto simp: all_fields_True list_all2_lengthD list.rel_refl simp del: map_map)

lemma eqv_params:
  "eqv ss st (Type_Package n tps ps) r \<longleftrightarrow>
     (\<exists>m qs. r = Type_Package m tps qs \<and>
        list_all2 (\<lambda>p q. pdirection p = pdirection q \<and> eqv ss (st \<or> ss) (ptype p) (ptype q)) ps qs)"
  "eqv ss st (ArchBlock k n tps ps) r \<longleftrightarrow>
     (\<exists>m tqs qs. r = ArchBlock k m tqs qs \<and>
        list_all2 (\<lambda>p q. pdirection p = pdirection q \<and> eqv ss (st \<or> ss) (ptype p) (ptype q)) ps qs)"
  "eqv ss st (P4Container k n tps ps) r \<longleftrightarrow>
     (\<exists>m tqs qs. r = P4Container k m tqs qs \<and>
        list_all2 (\<lambda>p q. pdirection p = pdirection q \<and> eqv ss (st \<or> ss) (ptype p) (ptype q)) ps qs)"
  by (cases r; auto simp: all_params_True list_all2_lengthD list.rel_refl simp del: map_map)+

lemma eqv_Specialized:
  "eqv ss st (Type_SpecializedCanonical b as u) r \<longleftrightarrow>
     (\<exists>c bs w. r = Type_SpecializedCanonical c bs w \<and> eqv ss (st \<or> ss) b c \<and> list_all2 (eqv ss (st \<or> ss)) as bs)"
  by (cases r; auto simp: all_equivalent_True list_all2_lengthD list.rel_refl simp del: map_map)

lemma eqv_MethodBase:
  "eqv ss st (MethodBase k tps q ps) r \<longleftrightarrow>
     (\<exists>q' qs. r = MethodBase k tps q' qs \<and> rel_option (eqv ss (st \<or> ss)) q q' \<and>
        list_all2 (\<lambda>p q. pdirection p = pdirection q \<and> eqv ss (st \<or> ss) (ptype p) (ptype q)) ps qs)"
  by (cases r; auto simp: all_params_True list_all2_lengthD list.rel_refl option.rel_refl simp del: map_map
      split: option.splits)

lemma equivalent_trans: "eqv ss strict l m \<Longrightarrow> eqv ss strict m r \<Longrightarrow> eqv ss strict l r"
proof (induction l arbitrary: m r strict)
  case (Type_List ls)
  then obtain ms rs where r: "r = Type_List rs"
    and l: "list_all2 (eqv ss (strict \<or> ss)) ls ms" "list_all2 (eqv ss (strict \<or> ss)) ms rs"
    unfolding eqv_List(1) by (elim exE conjE) (simp only: eqv_List(1), blast)
  show ?case unfolding r eqv_List by (rule exI, rule conjI, rule refl, rule eqv_list_trans [OF l], rule Type_List.IH)
next
  case (Type_Tuple ls)
  then obtain ms rs where r: "r = Type_Tuple rs"
    and l: "list_all2 (eqv ss (strict \<or> ss)) ls ms" "list_all2 (eqv ss (strict \<or> ss)) ms rs"
    unfolding eqv_List(2) by (elim exE conjE) (simp only: eqv_List(2), blast)
  show ?case unfolding r eqv_List by (rule exI, rule conjI, rule refl, rule eqv_list_trans [OF l], rule Type_Tuple.IH)
next
  case (StructLike k n fs)
  from StructLike.prems(1) obtain n1 gs where m: "m = StructLike k n1 gs" "strict \<or> ss \<longrightarrow> k \<noteq> Type_UnknownStruct \<longrightarrow> n = n1"
    and l1: "list_all2 (rel_prod (=) (eqv ss (strict \<or> ss))) fs gs" unfolding eqv_StructLike by blast
  from StructLike.prems(2) obtain n2 hs where r: "r = StructLike k n2 hs" "strict \<or> ss \<longrightarrow> k \<noteq> Type_UnknownStruct \<longrightarrow> n1 = n2"
    and l2: "list_all2 (rel_prod (=) (eqv ss (strict \<or> ss))) gs hs" unfolding eqv_StructLike m by blast
  have "list_all2 (rel_prod (=) (eqv ss (strict \<or> ss))) fs hs"
    by (rule eqv_fields_trans [OF l1 l2]) (rule StructLike.IH, auto)
  with m r show ?case unfolding eqv_StructLike by blast
next
  case (Type_Package n tps ps)
  then obtain n1 qs n2 us where r: "r = Type_Package n2 tps us"
    and l: "list_all2 (\<lambda>p q. pdirection p = pdirection q \<and> eqv ss (strict \<or> ss) (ptype p) (ptype q)) ps qs"
      "list_all2 (\<lambda>p q. pdirection p = pdirection q \<and> eqv ss (strict \<or> ss) (ptype p) (ptype q)) qs us"
    unfolding eqv_params(1) by (elim exE conjE) (simp only: eqv_params(1), blast)
  show ?case unfolding r eqv_params by (rule exI, rule exI, rule conjI, rule refl, rule eqv_params_trans [OF l], rule Type_Package.IH)
next
  case (ArchBlock k n tps ps)
  then obtain n1 tqs qs n2 tus us where r: "r = ArchBlock k n2 tus us"
    and l: "list_all2 (\<lambda>p q. pdirection p = pdirection q \<and> eqv ss (strict \<or> ss) (ptype p) (ptype q)) ps qs"
      "list_all2 (\<lambda>p q. pdirection p = pdirection q \<and> eqv ss (strict \<or> ss) (ptype p) (ptype q)) qs us"
    unfolding eqv_params(2) by (elim exE conjE) (simp only: eqv_params(2), blast)
  show ?case unfolding r eqv_params by (rule exI, rule exI, rule exI, rule conjI, rule refl, rule eqv_params_trans [OF l], rule ArchBlock.IH)
next
  case (P4Container k n tps ps)
  then obtain n1 tqs qs n2 tus us where r: "r = P4Container k n2 tus us"
    and l: "list_all2 (\<lambda>p q. pdirection p = pdirection q \<and> eqv ss (strict \<or> ss) (ptype p) (ptype q)) ps qs"
      "list_all2 (\<lambda>p q. pdirection p = pdirection q \<and> eqv ss (strict \<or> ss) (ptype p) (ptype q)) qs us"
    unfolding eqv_params(3) by (elim exE conjE) (simp only: eqv_params(3), blast)
  show ?case unfolding r eqv_params by (rule exI, rule exI, rule exI, rule conjI, rule refl, rule eqv_params_trans [OF l], rule P4Container.IH)
next
  case (Type_SpecializedCanonical b as u)
  then obtain b1 as1 b2 as2 w where r: "r = Type_SpecializedCanonical b2 as2 w"
    and b: "eqv ss (strict \<or> ss) b b1" "eqv ss (strict \<or> ss) b1 b2"
    and l: "list_all2 (eqv ss (strict \<or> ss)) as as1" "list_all2 (eqv ss (strict \<or> ss)) as1 as2"
    unfolding eqv_Specialized by (elim exE conjE) (simp only: eqv_Specialized, blast)
  have b2: "eqv ss (strict \<or> ss) b b2" using Type_SpecializedCanonical.IH(1) b by blast
  show ?case unfolding r eqv_Specialized by (rule exI, rule exI, rule exI, rule conjI, rule refl, rule conjI, rule b2, rule eqv_list_trans [OF l], rule Type_SpecializedCanonical.IH(2))
next
  case (MethodBase k tps q ps)
  then obtain q1 qs q2 us where r: "r = MethodBase k tps q2 us"
    and o: "rel_option (eqv ss (strict \<or> ss)) q q1" "rel_option (eqv ss (strict \<or> ss)) q1 q2"
    and l: "list_all2 (\<lambda>p q. pdirection p = pdirection q \<and> eqv ss (strict \<or> ss) (ptype p) (ptype q)) ps qs"
      "list_all2 (\<lambda>p q. pdirection p = pdirection q \<and> eqv ss (strict \<or> ss) (ptype p) (ptype q)) qs us"
    unfolding eqv_MethodBase by (elim exE conjE) (simp only: eqv_MethodBase, blast)
  have q2: "rel_option (eqv ss (strict \<or> ss)) q q2"
  proof (cases q)
    case None
    with o show ?thesis by auto
  next
    case (Some t)
    with o obtain t1 t2 where t: "q1 = Some t1" "q2 = Some t2" "eqv ss (strict \<or> ss) t t1" "eqv ss (strict \<or> ss) t1 t2"
      by (auto simp: option_rel_Some1)
    have "eqv ss (strict \<or> ss) t t2" by (rule MethodBase.IH(1) [OF _ t(3,4)]) (simp add: Some)
    with Some t(2) show ?thesis by simp
  qed
  show ?case unfolding r eqv_MethodBase by (rule exI, rule exI, rule conjI, rule refl, rule conjI, rule q2, rule eqv_params_trans [OF l], rule MethodBase.IH(2))
next
  case (Type_P4List l)
  then obtain u w where r: "r = Type_P4List w" and l: "eqv ss (strict \<or> ss) l u" "eqv ss (strict \<or> ss) u w"
    unfolding eqv_simps(3) by (elim exE conjE) (simp only: eqv_simps(3), blast)
  show ?case unfolding r eqv_simps using Type_P4List.IH [OF l] by blast
next
  case (Type_Stack l n)
  then obtain u w where r: "r = Type_Stack w n" and l: "eqv ss (strict \<or> ss) l u" "eqv ss (strict \<or> ss) u w"
    unfolding eqv_simps(4) by (elim exE conjE) (simp only: eqv_simps(4), blast)
  show ?case unfolding r eqv_simps using Type_Stack.IH [OF l] by blast
next
  case (Type_Set l)
  then obtain u w where r: "r = Type_Set w" and l: "eqv ss (strict \<or> ss) l u" "eqv ss (strict \<or> ss) u w"
    unfolding eqv_simps(5) by (elim exE conjE) (simp only: eqv_simps(5), blast)
  show ?case unfolding r eqv_simps using Type_Set.IH [OF l] by blast
next
  case (Type_Type l)
  then obtain u w where r: "r = Type_Type w" and l: "eqv ss (strict \<or> ss) l u" "eqv ss (strict \<or> ss) u w"
    unfolding eqv_simps(6) by (elim exE conjE) (simp only: eqv_simps(6), blast)
  show ?case unfolding r eqv_simps using Type_Type.IH [OF l] by blast
next
  case (Type_Fragment l)
  then obtain u w where r: "r = Type_Fragment w" and l: "eqv ss False l u" "eqv ss False u w"
    unfolding eqv_simps(7) by (elim exE conjE) (simp only: eqv_simps(7), blast)
  show ?case unfolding r eqv_simps using Type_Fragment.IH [OF l] by blast
next
  case (Type_SerEnum n l)
  then obtain u where "m = Type_SerEnum n u" unfolding eqv_simps by blast
  with Type_SerEnum.prems(2) show ?case by (simp only: eqv_simps)
next
  case (Type_Newtype n l)
  then have "m = Type_Newtype n l" unfolding eqv_simps by blast
  with Type_Newtype.prems(2) show ?case by simp
next
  case (Type_MethodCall as q args)
  then have "m = Type_MethodCall as q args" unfolding eqv_simps by blast
  with Type_MethodCall.prems(2) show ?case by simp
qed (auto simp only: eqv_simps)


section \<open>The tables of canonical types\<close>

fun the_table :: "canonical_types \<Rightarrow> utype \<Rightarrow> utype list" where
  "the_table m (Type_Stack t n) = canonicalStacks m"
| "the_table m (Type_Tuple ts) = canonicalTuples m"
| "the_table m (Type_List ts) = canonicalLists m"
| "the_table m (Type_P4List t) = canonicalP4lists m"
| "the_table m _ = []"

text \<open>No two types of a table are equivalent.\<close>

definition canonical :: "bool \<Rightarrow> canonical_types \<Rightarrow> bool" where
  "canonical ss m \<longleftrightarrow> (\<forall>t. sorted_wrt (\<lambda>a b. \<not> eqv ss True a b) (the_table m t))"

lemma the_table_eqv: "eqv ss st t u \<Longrightarrow> the_table m t = the_table m u"
  by (cases t; cases u) simp_all

lemma eqv_sym: "eqv ss st t u \<Longrightarrow> eqv ss st u t"
  by (subst equivalent_sym)

lemma find_equivalent_Ok:
  "find_equivalent ss t ts = Ok ds r \<Longrightarrow>
     (case r of Some u \<Rightarrow> u \<in> set ts \<and> eqv ss True t u | None \<Rightarrow> \<forall>u\<in>set ts. \<not> eqv ss True t u)"
  by (induction ts arbitrary: ds) (auto split: option.split_asm bool.split_asm option.split)

lemma searchIn_Ok:
  assumes "searchIn ss t ts = Ok ds (u, ts')"
  shows "eqv ss True t u \<and> u \<in> set ts' \<and> set ts \<subseteq> set ts' \<and>
    (sorted_wrt (\<lambda>a b. \<not> eqv ss True a b) ts \<longrightarrow> sorted_wrt (\<lambda>a b. \<not> eqv ss True a b) ts')"
proof -
  from assms obtain ds1 r where f: "find_equivalent ss t ts = Ok ds1 r" and
    r: "(case r of Some u \<Rightarrow> (u, ts) | None \<Rightarrow> (t, ts @ [t])) = (u, ts')"
    by (auto simp: searchIn_def bind_comp_Ok_iff split: option.split_asm)
  show ?thesis
  proof (cases r)
    case None
    with find_equivalent_Ok [OF f] have "\<forall>u\<in>set ts. \<not> eqv ss True u t" using eqv_sym by auto
    with None r show ?thesis by (auto simp: sorted_wrt_append)
  next
    case (Some x)
    with find_equivalent_Ok [OF f] r show ?thesis by auto
  qed
qed

text \<open>A request searches one table and changes only this one.\<close>

lemma getCanonical_table:
  assumes "getCanonical ss t m = Ok ds (u, m')"
  shows "\<exists>ds ts. searchIn ss t (the_table m t) = Ok ds (u, ts) \<and> the_table m' t = ts \<and>
    (\<forall>x. the_table m x = the_table m t \<and> the_table m' x = ts \<or> the_table m' x = the_table m x)"
proof -
  have all: "\<forall>x. P x" if "\<And>x n. P (Type_Stack x n)" "\<And>xs. P (Type_Tuple xs)" "\<And>xs. P (Type_List xs)" "\<And>x. P (Type_P4List x)"
    "\<And>x. (\<forall>m. the_table m x = []) \<Longrightarrow> P x" for P
  proof
    fix x show "P x" using that by (cases x) simp_all
  qed
  have "(\<exists>t1 n. t = Type_Stack t1 n) \<or> (\<exists>us. t = Type_Tuple us) \<or> (\<exists>us. t = Type_List us) \<or> (\<exists>t1. t = Type_P4List t1)"
    using assms by (cases t) (simp_all add: getCanonical_def)
  then show ?thesis
  proof (elim disjE exE)
    fix t1 n assume t: "t = Type_Stack t1 n"
    with assms obtain ds1 ts where "searchIn ss t (canonicalStacks m) = Ok ds1 (u, ts)" "m' = m\<lparr>canonicalStacks := ts\<rparr>"
      by (auto simp: getCanonical_def bind_comp_Ok_iff)
    then show ?thesis by (intro exI [of _ ds1] exI [of _ ts] conjI all) (simp_all add: t)
  next
    fix us assume t: "t = Type_Tuple us"
    with assms obtain ds1 ts where "searchIn ss t (canonicalTuples m) = Ok ds1 (u, ts)" "m' = m\<lparr>canonicalTuples := ts\<rparr>"
      by (auto simp: getCanonical_def bind_comp_Ok_iff)
    then show ?thesis by (intro exI [of _ ds1] exI [of _ ts] conjI all) (simp_all add: t)
  next
    fix us assume t: "t = Type_List us"
    with assms obtain ds1 ts where "searchIn ss t (canonicalLists m) = Ok ds1 (u, ts)" "m' = m\<lparr>canonicalLists := ts\<rparr>"
      by (auto simp: getCanonical_def bind_comp_Ok_iff)
    then show ?thesis by (intro exI [of _ ds1] exI [of _ ts] conjI all) (simp_all add: t)
  next
    fix t1 assume t: "t = Type_P4List t1"
    with assms obtain ds1 ts where "searchIn ss t (canonicalP4lists m) = Ok ds1 (u, ts)" "m' = m\<lparr>canonicalP4lists := ts\<rparr>"
      by (auto simp: getCanonical_def bind_comp_Ok_iff)
    then show ?thesis by (intro exI [of _ ds1] exI [of _ ts] conjI all) (simp_all add: t)
  qed
qed

lemma getCanonical_Ok:
  assumes "getCanonical ss t m = Ok ds (u, m')"
  shows "eqv ss True t u \<and> u \<in> set (the_table m' t) \<and> (\<forall>x. set (the_table m x) \<subseteq> set (the_table m' x)) \<and>
    (canonical ss m \<longrightarrow> canonical ss m')"
proof -
  from getCanonical_table [OF assms] obtain ds1 ts where s: "searchIn ss t (the_table m t) = Ok ds1 (u, ts)" "the_table m' t = ts"
    "\<And>x. the_table m x = the_table m t \<and> the_table m' x = ts \<or> the_table m' x = the_table m x" by blast
  note u = searchIn_Ok [OF s(1)]
  have "set (the_table m x) \<subseteq> set (the_table m' x)" for x using s(3) [of x] u by auto
  moreover have "canonical ss m'" if "canonical ss m"
    unfolding canonical_def
  proof
    fix x
    show "sorted_wrt (\<lambda>a b. \<not> eqv ss True a b) (the_table m' x)"
      using s(3) [of x] u that unfolding canonical_def by metis
  qed
  ultimately show ?thesis using u s(2) by blast
qed

lemma canonical_all_Ok:
  "canonical_all ss ts m = Ok ds us \<Longrightarrow> canonical ss m \<Longrightarrow>
     \<exists>m'. canonical ss m' \<and> (\<forall>x. set (the_table m x) \<subseteq> set (the_table m' x)) \<and>
       list_all2 (\<lambda>t u. eqv ss True t u \<and> u \<in> set (the_table m' t)) ts us"
proof (induction ts arbitrary: m ds us)
  case Nil
  then show ?case by auto
next
  case (Cons t ts)
  from Cons.prems(1) obtain ds1 u m1 ds2 vs where c: "getCanonical ss t m = Ok ds1 (u, m1)"
    "canonical_all ss ts m1 = Ok ds2 vs" "us = u # vs" by (auto simp: bind_comp_Ok_iff)
  note g = getCanonical_Ok [OF c(1)]
  from Cons.IH [OF c(2)] g Cons.prems(2) obtain m' where m': "canonical ss m'"
    "\<forall>x. set (the_table m1 x) \<subseteq> set (the_table m' x)"
    "list_all2 (\<lambda>t u. eqv ss True t u \<and> u \<in> set (the_table m' t)) ts vs" by blast
  have "\<forall>x. set (the_table m x) \<subseteq> set (the_table m' x)" using g m'(2) by blast
  moreover have "u \<in> set (the_table m' t)" "eqv ss True t u" using g m'(2) by blast+
  ultimately show ?case unfolding c(3) using m'(1,3) by (auto intro!: exI [of _ m'])
qed

lemma canonical_unique:
  assumes "canonical ss m" "u \<in> set (the_table m t)" "v \<in> set (the_table m t)" "eqv ss True u v"
  shows "u = v"
proof -
  let ?ts = "the_table m t"
  from assms(2,3) obtain i j where ij: "i < length ?ts" "j < length ?ts" "u = ?ts ! i" "v = ?ts ! j"
    by (metis in_set_conv_nth)
  have s: "\<not> eqv ss True (?ts ! a) (?ts ! b)" if "a < b" "b < length ?ts" for a b
    using assms(1) that unfolding canonical_def sorted_wrt_iff_nth_less by blast
  have "\<not> i < j" using s [of i j] ij assms(4) by auto
  moreover have "\<not> j < i" using s [of j i] ij eqv_sym [OF assms(4)] by auto
  ultimately show ?thesis using ij by simp
qed

definition empty_types :: canonical_types where
  "empty_types = \<lparr>canonicalStacks = [], canonicalTuples = [], canonicalLists = [], canonicalP4lists = []\<rparr>"

text \<open>C30: the type map gives every tuple, list and header stack an equivalent canonical type, and however
  many requests lie between, two types have the same canonical type exactly when they are equivalent.\<close>

theorem getCanonical_spec:
  assumes "canonical_all ss ts empty_types = Ok ds us" "i < length ts" "j < length ts"
  shows "length us = length ts \<and> equivalent (ts ! i) ss True (us ! i) = Some True \<and>
    (us ! i = us ! j \<longleftrightarrow> equivalent (ts ! i) ss True (ts ! j) = Some True)"
proof -
  have "canonical ss empty_types"
    unfolding canonical_def
  proof
    fix t show "sorted_wrt (\<lambda>a b. \<not> eqv ss True a b) (the_table empty_types t)"
      by (cases t) (simp_all add: empty_types_def)
  qed
  from canonical_all_Ok [OF assms(1) this] obtain m where m: "canonical ss m"
    "list_all2 (\<lambda>t u. eqv ss True t u \<and> u \<in> set (the_table m t)) ts us" by blast
  from m(2) have l: "length us = length ts" by (simp add: list_all2_lengthD)
  have e: "eqv ss True (ts ! k) (us ! k) \<and> us ! k \<in> set (the_table m (ts ! k))" if "k < length ts" for k
    using list_all2_nthD [OF m(2) that] by blast
  have "eqv ss True (ts ! i) (ts ! j)" if "us ! i = us ! j"
    using e [OF assms(2)] e [OF assms(3)] eqv_sym equivalent_trans that by metis
  moreover have "us ! i = us ! j" if t: "eqv ss True (ts ! i) (ts ! j)"
  proof (rule canonical_unique [OF m(1)])
    show "us ! i \<in> set (the_table m (ts ! i))" using e [OF assms(2)] by blast
    show "us ! j \<in> set (the_table m (ts ! i))" using e [OF assms(3)] by (simp only: the_table_eqv [OF t])
    show "eqv ss True (us ! i) (us ! j)"
      using e [OF assms(2)] e [OF assms(3)] eqv_sym equivalent_trans t by metis
  qed
  ultimately show ?thesis using l e [OF assms(2)] by blast
qed

theorem getCanonical_spec_witness:
  "equivalent (Type_Tuple [StructLike Type_Struct ''A'' [(''x'', Base Type_Boolean)]]) True True
     (Type_Tuple [StructLike Type_Struct ''B'' [(''x'', Base Type_Boolean)]]) \<noteq> Some True"
proof -
  let ?t = "\<lambda>n. Type_Tuple [StructLike Type_Struct n [(''x'', Base Type_Boolean)]]"
  have c: "canonical_all True [?t ''A'', ?t ''B''] empty_types = Ok [] [?t ''A'', ?t ''B'']" by code_simp
  show ?thesis using getCanonical_spec [OF c, of 0 1] by simp
qed

end
