(* ===== verification/TypeMap_Width.thy ===== *)
theory TypeMap_Width
  imports TypeMap_Canon
begin

text \<open>
  The width of a type in bits (\<open>TypeMap::widthBits\<close>).  The largest width of a type with fields of
  varying length bounds the smallest one, and a type has the one exactly when it has the other.  The
  code computes with \<open>int\<close>; sums and products that do not fit are not modelled.
\<close>

fun field_widths :: "int comp list \<Rightarrow> int \<Rightarrow> int comp" where
  "field_widths [] result = ret result"
| "field_widths (f # fs) result = bind_comp f (\<lambda>w. if w < 0 then ret w else field_widths fs (result + w))"

fun max_widths :: "int comp list \<Rightarrow> int \<Rightarrow> int comp" where
  "max_widths [] result = ret result"
| "max_widths (f # fs) result = bind_comp f (\<lambda>w. if w < 0 then ret w else max_widths fs (max w result))"

abbreviation no_width :: "int comp" where
  "no_width \<equiv> report (Error ERR_UNSUPPORTED) (-1)"

text \<open>The types of values and of type expressions are looked at in the same way, except that a
  \<open>varbit\<close> is recognized by the type that is given and not by its meaning.\<close>

definition hides_width :: "utype \<Rightarrow> bool" where
  "hides_width t = (case t of Base b \<Rightarrow> (case b of Type_Varbits n \<Rightarrow> True | _ \<Rightarrow> False) | Type_Type u \<Rightarrow> True | _ \<Rightarrow> False)"

primrec widthBits :: "bool \<Rightarrow> utype \<Rightarrow> int comp" where
  "widthBits mx (Base b) =
     (case b of
        Type_Bits n s \<Rightarrow> ret (int n)
      | Type_Boolean \<Rightarrow> ret 1
      | Type_Varbits n \<Rightarrow> ret (if mx then int n else 0)
      | _ \<Rightarrow> no_width)"
| "widthBits mx (TV v) = no_width"
| "widthBits mx (Type_List ts) = no_width"
| "widthBits mx (Type_Tuple ts) = field_widths (map (widthBits mx) ts) 0"
| "widthBits mx (Type_P4List t) = no_width"
| "widthBits mx (Type_Stack t n) = bind_comp (widthBits mx t) (\<lambda>w. ret (w * int n))"
| "widthBits mx (Type_Set t) = no_width"
| "widthBits mx (Type_Type t) = (if hides_width t then no_width else widthBits mx t)"
| "widthBits mx (Type_Fragment t) = no_width"
| "widthBits mx (StructLike k n fs) =
     (if k = Type_HeaderUnion then max_widths (map snd (map (map_prod id (widthBits mx)) fs)) 0
      else field_widths (map snd (map (map_prod id (widthBits mx)) fs)) 0)"
| "widthBits mx (Type_Enum n) = no_width"
| "widthBits mx (Type_SerEnum n t) = widthBits mx t"
| "widthBits mx (Type_Newtype n t) = widthBits mx t"
| "widthBits mx (Type_Extern n) = no_width"
| "widthBits mx Type_Error = no_width"
| "widthBits mx (Type_ActionEnum i) = no_width"
| "widthBits mx (Type_SpecializedCanonical b as u) = no_width"
| "widthBits mx (MethodBase k tps r ps) = no_width"
| "widthBits mx (Type_MethodCall as r args) = no_width"
| "widthBits mx (Type_Package n tps ps) = no_width"
| "widthBits mx (ArchBlock k n tps ps) = no_width"
| "widthBits mx (P4Container k n tps ps) = no_width"

text \<open>The results for the smallest and for the largest width: they report the same errors, and a negative
  result stands for an error.\<close>

definition widths :: "int comp \<Rightarrow> int comp \<Rightarrow> bool" where
  "widths c d \<longleftrightarrow>
     (\<exists>ds v w. c = Ok ds v \<and> d = Ok ds w \<and> v \<le> w \<and> (v < 0 \<longleftrightarrow> w < 0) \<and> (ds = [] \<longrightarrow> 0 \<le> v))"

lemma widths_Ok [simp]: "widths (Ok ds v) (Ok es w) \<longleftrightarrow> ds = es \<and> v \<le> w \<and> (v < 0 \<longleftrightarrow> w < 0) \<and> (ds = [] \<longrightarrow> 0 \<le> v)"
  by (auto simp: widths_def)

lemma widths_fields: "list_all2 widths cs ds \<Longrightarrow> 0 \<le> r \<Longrightarrow> r \<le> r' \<Longrightarrow> widths (field_widths cs r) (field_widths ds r')"
proof (induction cs ds arbitrary: r r' rule: list_all2_induct)
  case (Cons c cs d ds)
  from Cons.hyps(1) obtain es v w where c: "c = Ok es v" "d = Ok es w" "v \<le> w" "v < 0 \<longleftrightarrow> w < 0" "es = [] \<longrightarrow> 0 \<le> v"
    unfolding widths_def by blast
  show ?case
  proof (cases "v < 0")
    case True
    then show ?thesis using c by auto
  next
    case False
    then have "widths (field_widths cs (r + v)) (field_widths ds (r' + w))" using c Cons.prems by (intro Cons.IH) auto
    then obtain es' v' w' where "field_widths cs (r + v) = Ok es' v'" "field_widths ds (r' + w) = Ok es' w'"
      "v' \<le> w'" "v' < 0 \<longleftrightarrow> w' < 0" "es' = [] \<longrightarrow> 0 \<le> v'" unfolding widths_def by blast
    then show ?thesis using c False by simp
  qed
qed simp

lemma widths_max: "list_all2 widths cs ds \<Longrightarrow> 0 \<le> r \<Longrightarrow> r \<le> r' \<Longrightarrow> widths (max_widths cs r) (max_widths ds r')"
proof (induction cs ds arbitrary: r r' rule: list_all2_induct)
  case (Cons c cs d ds)
  from Cons.hyps(1) obtain es v w where c: "c = Ok es v" "d = Ok es w" "v \<le> w" "v < 0 \<longleftrightarrow> w < 0" "es = [] \<longrightarrow> 0 \<le> v"
    unfolding widths_def by blast
  show ?case
  proof (cases "v < 0")
    case True
    then show ?thesis using c by auto
  next
    case False
    then have "widths (max_widths cs (max v r)) (max_widths ds (max w r'))" using c Cons.prems by (intro Cons.IH) auto
    then obtain es' v' w' where "max_widths cs (max v r) = Ok es' v'" "max_widths ds (max w r') = Ok es' w'"
      "v' \<le> w'" "v' < 0 \<longleftrightarrow> w' < 0" "es' = [] \<longrightarrow> 0 \<le> v'" unfolding widths_def by blast
    then show ?thesis using c False by simp
  qed
qed simp

lemma widths_stack: "widths c d \<Longrightarrow> widths (bind_comp c (\<lambda>w. ret (w * int n))) (bind_comp d (\<lambda>w. ret (w * int n)))"
  unfolding widths_def by (auto simp: mult_less_0_iff intro!: mult_right_mono)

lemma widthBits_widths: "widths (widthBits False t) (widthBits True t)"
proof (induction t)
  case (Base b)
  show ?case by (cases b) simp_all
next
  case (Type_Tuple ts)
  then show ?case by (auto intro!: widths_fields simp: list_all2_conv_all_nth)
next
  case (StructLike k n fs)
  have "list_all2 widths (map snd (map (map_prod id (widthBits False)) fs)) (map snd (map (map_prod id (widthBits True)) fs))"
    using StructLike by (auto simp: list_all2_conv_all_nth) (metis nth_mem prod.collapse snds.intros)
  then show ?case by (simp add: widths_fields widths_max)
next
  case (Type_Stack t n)
  then show ?case by (simp add: widths_stack del: bind_comp.simps)
qed simp_all

text \<open>the smallest and the largest width of a type are computed alike: both computations report the
  same errors, and if one fails so does the other; the smallest width is at most the largest, and a
  result without an error is not negative.\<close>

theorem widthBits_bounds:
  "\<exists>ds v w. widthBits False t = Ok ds v \<and> widthBits True t = Ok ds w \<and> v \<le> w \<and> (v < 0 \<longleftrightarrow> w < 0) \<and>
     \<not> (ds = [] \<and> v < 0)"
  using widthBits_widths [of t] unfolding widths_def by (auto simp: not_less)

end
