(* ===== verification/FeatureExtractor.thy ===== *)
theory FeatureExtractor
  imports P4Prelude "HOL-Library.AList"
begin

text \<open>
  The feature extractor of the back end lacpp_be (p4feature_extractor.h and .cpp): it collects the
  actions and tables of the ingress and the egress control, the sizes of the fields of structures and
  headers, and writes the former as JSON.

  The program is what the extractor looks at: names, the number of statements of an action, the texts
  of the action list, the keys and the size of a table.  An unordered map is the list of its entries,
  whose order is not specified by the code.
\<close>

section \<open>What the extractor reads\<close>

text \<open>The type of a field: a name, a stack with the text of its elements' type, or another type with its
  text.  \<open>width_bits\<close> of the last two is the number, or \<open>None\<close> when the method throws, as it does for a
  type of unknown size.\<close>

datatype field_type = FT_Name string | FT_Stack string "nat option" | FT_Other string "nat option"

fun type_text :: "field_type \<Rightarrow> string" where
  "type_text (FT_Name n) = n"
| "type_text (FT_Stack n w) = n"
| "type_text (FT_Other n w) = n"

definition width_of :: "nat option \<Rightarrow> nat comp" where
  "width_of w = (case w of None \<Rightarrow> Bug ''width_bits() on type with unknown size'' | Some n \<Rightarrow> ret n)"

record table_decl =
  table_name :: string
  action_list :: "string list option"
  key_elements :: "(string \<times> string) list option"
  size_property :: "nat option"

datatype control_local =
    P4Action string nat
  | P4Table table_decl
  | OtherLocal

datatype top_object =
    P4Control string "(string \<times> string) list" "control_local list"
  | StructDecl string "(string \<times> field_type) list"
  | HeaderDecl string "(string \<times> field_type) list"
  | OtherObject

section \<open>The state\<close>

datatype gress = INGRESS | EGRESS | NONE

datatype match_types = EXACT | TERNARY | LPM

record action_info =
  action_name :: string
  op_num :: nat

record table_info =
  tname :: string
  tsize :: nat
  tactions :: "string list"
  matches_of :: "(match_types \<times> string list) list"

record gress_info =
  gtype :: gress
  gactions :: "(string \<times> action_info) list"
  gtables :: "(string \<times> table_info) list"
  field_to_type :: "(string \<times> string) list"

type_synonym field_sizes = "(string \<times> (string \<times> nat)) list"

record type_sizes =
  struct_fields :: "(string \<times> field_sizes) list"
  header_fields :: "(string \<times> field_sizes) list"

record fe_state =
  gresses :: "(gress \<times> gress_info) list"
  curGress :: gress
  curAct :: "action_info option"
  curTable :: "table_info option"
  type_map :: type_sizes

definition fe_init :: fe_state where
  "fe_init = \<lparr>gresses = [], curGress = NONE, curAct = None, curTable = None,
     type_map = \<lparr>struct_fields = [], header_fields = []\<rparr>\<rparr>"

text \<open>\<open>operator[]\<close> makes an empty entry when there is none.\<close>

definition entry_of :: "('a \<times> 'b list) list \<Rightarrow> 'a \<Rightarrow> 'b list" where
  "entry_of m k = (case map_of m k of None \<Rightarrow> [] | Some v \<Rightarrow> v)"

definition addStructField :: "string \<Rightarrow> string \<Rightarrow> string \<Rightarrow> nat \<Rightarrow> type_sizes \<Rightarrow> type_sizes" where
  "addStructField s f t w m =
     m\<lparr>struct_fields := AList.update s (AList.update f (t, w) (entry_of (struct_fields m) s)) (struct_fields m)\<rparr>"

definition addHeaderField :: "string \<Rightarrow> string \<Rightarrow> string \<Rightarrow> nat \<Rightarrow> type_sizes \<Rightarrow> type_sizes" where
  "addHeaderField s f t w m =
     m\<lparr>header_fields := AList.update s (AList.update f (t, w) (entry_of (header_fields m) s)) (header_fields m)\<rparr>"

definition hasStruct :: "string \<Rightarrow> type_sizes \<Rightarrow> bool" where
  "hasStruct s m \<longleftrightarrow> map_of (struct_fields m) s \<noteq> None"

section \<open>Helpers\<close>

text \<open>\<open>gresses.at(curGress)\<close> throws when there is no entry.\<close>

definition cur_info :: "fe_state \<Rightarrow> gress_info comp" where
  "cur_info s = (case map_of (gresses s) (curGress s) of None \<Rightarrow> Bug ''out_of_range'' | Some g \<Rightarrow> ret g)"

definition set_cur_info :: "gress_info \<Rightarrow> fe_state \<Rightarrow> fe_state" where
  "set_cur_info g s = s\<lparr>gresses := AList.update (curGress s) g (gresses s)\<rparr>"

definition init_action_info :: "string \<Rightarrow> fe_state \<Rightarrow> fe_state comp" where
  "init_action_info name s =
     (if curGress s = NONE then Bug ''action should appear in a control block of a gress''
      else if curAct s \<noteq> None then Bug ''There exists initialized action''
      else bind_comp (cur_info s) (\<lambda>g.
        if map_of (gactions g) name \<noteq> None then Bug ''duplicate action name''
        else ret (s\<lparr>curAct := Some \<lparr>action_name = name, op_num = 0\<rparr>\<rparr>)))"

definition end_action_info :: "fe_state \<Rightarrow> fe_state comp" where
  "end_action_info s =
     (case curAct s of
        None \<Rightarrow> Bug ''No action initialized''
      | Some a \<Rightarrow> bind_comp (cur_info s) (\<lambda>g.
          ret ((set_cur_info (g\<lparr>gactions := AList.update (action_name a) a (gactions g)\<rparr>) s)\<lparr>curAct := None\<rparr>)))"

definition init_table_info :: "string \<Rightarrow> fe_state \<Rightarrow> fe_state comp" where
  "init_table_info name s =
     (if curGress s = NONE then Bug ''tables should appear in a control block of a gress''
      else if curTable s \<noteq> None then Bug ''There exists initialized table''
      else bind_comp (cur_info s) (\<lambda>g.
        if map_of (gtables g) name \<noteq> None then Bug ''duplicate action name''
        else ret (s\<lparr>curTable := Some \<lparr>tname = name, tsize = 0, tactions = [], matches_of = []\<rparr>\<rparr>)))"

definition end_table_info :: "fe_state \<Rightarrow> fe_state comp" where
  "end_table_info s =
     (case curTable s of
        None \<Rightarrow> Bug ''No table initialized''
      | Some t \<Rightarrow> bind_comp (cur_info s) (\<lambda>g.
          ret ((set_cur_info (g\<lparr>gtables := AList.update (tname t) t (gtables g)\<rparr>) s)\<lparr>curTable := None\<rparr>)))"

section \<open>The handlers\<close>

definition preorder_P4Action :: "string \<Rightarrow> nat \<Rightarrow> fe_state \<Rightarrow> fe_state comp" where
  "preorder_P4Action name statements s =
     bind_comp (init_action_info name s) (\<lambda>s.
       end_action_info (s\<lparr>curAct := map_option (\<lambda>a. a\<lparr>op_num := statements\<rparr>) (curAct s)\<rparr>))"

fun collect_keys :: "(string \<times> string) list \<Rightarrow> (match_types \<times> string list) list \<Rightarrow> (match_types \<times> string list) list comp" where
  "collect_keys [] ms = ret ms"
| "collect_keys ((key, type) # ks) ms =
     (if type = ''exact'' then collect_keys ks (AList.update EXACT (entry_of ms EXACT @ [key]) ms)
      else if type = ''ternary'' then collect_keys ks (AList.update TERNARY (entry_of ms TERNARY @ [key]) ms)
      else if type = ''lpm'' then collect_keys ks (AList.update LPM (entry_of ms LPM @ [key]) ms)
      else Bug ''Unknown match type'')"

definition preorder_P4Table :: "table_decl \<Rightarrow> fe_state \<Rightarrow> fe_state comp" where
  "preorder_P4Table c s =
     bind_comp (init_table_info (table_name c) s) (\<lambda>s.
       bind_comp (collect_keys (case key_elements c of None \<Rightarrow> [] | Some ks \<Rightarrow> ks) []) (\<lambda>ms.
         end_table_info (s\<lparr>curTable := map_option (\<lambda>t.
           t\<lparr>tactions := (case action_list c of None \<Rightarrow> [] | Some as \<Rightarrow> as),
             matches_of := ms,
             tsize := (case size_property c of None \<Rightarrow> 512 | Some n \<Rightarrow> n)\<rparr>) (curTable s)\<rparr>)))"

text \<open>The declarations in a control; the extractor prunes all other nodes.\<close>

fun visit_locals :: "control_local list \<Rightarrow> fe_state \<Rightarrow> fe_state comp" where
  "visit_locals [] s = ret s"
| "visit_locals (P4Action n k # ls) s = bind_comp (preorder_P4Action n k s) (visit_locals ls)"
| "visit_locals (P4Table c # ls) s = bind_comp (preorder_P4Table c s) (visit_locals ls)"
| "visit_locals (OtherLocal # ls) s = visit_locals ls s"

definition empty_gress :: "gress \<Rightarrow> gress_info" where
  "empty_gress g = \<lparr>gtype = g, gactions = [], gtables = [], field_to_type = []\<rparr>"

text \<open>\<open>insert\<close> keeps an entry that is there.\<close>

definition enter_gress :: "gress \<Rightarrow> fe_state \<Rightarrow> fe_state" where
  "enter_gress g s =
     s\<lparr>curGress := g, gresses := (if map_of (gresses s) g = None then gresses s @ [(g, empty_gress g)] else gresses s)\<rparr>"

fun add_parameters :: "(string \<times> string) list \<Rightarrow> fe_state \<Rightarrow> fe_state comp" where
  "add_parameters [] s = ret s"
| "add_parameters ((p, t) # ps) s =
     bind_comp (cur_info s) (\<lambda>g.
       add_parameters ps (set_cur_info (g\<lparr>field_to_type := AList.update p t (field_to_type g)\<rparr>) s))"

definition gress_of_name :: "string \<Rightarrow> gress option" where
  "gress_of_name n = (if n = ''ingress'' then Some INGRESS else if n = ''egress'' then Some EGRESS else None)"

definition preorder_P4Control :: "string \<Rightarrow> (string \<times> string) list \<Rightarrow> control_local list \<Rightarrow> fe_state \<Rightarrow> fe_state comp" where
  "preorder_P4Control type_name params ls s =
     (case gress_of_name type_name of
        None \<Rightarrow> ret s
      | Some g \<Rightarrow> bind_comp (add_parameters params (enter_gress g s)) (visit_locals ls))"

fun add_struct_fields :: "string \<Rightarrow> (string \<times> field_type) list \<Rightarrow> type_sizes \<Rightarrow> type_sizes comp" where
  "add_struct_fields s [] m = ret m"
| "add_struct_fields s ((f, FT_Other t w) # fs) m =
     bind_comp (width_of w) (\<lambda>n. add_struct_fields s fs (addStructField s f t n m))"
| "add_struct_fields s ((f, _) # fs) m = add_struct_fields s fs m"

definition preorder_Type_Struct :: "string \<Rightarrow> (string \<times> field_type) list \<Rightarrow> fe_state \<Rightarrow> fe_state comp" where
  "preorder_Type_Struct n fs s =
     (if hasStruct n (type_map s) then Bug ''Type already exists in type map''
      else bind_comp (add_struct_fields n fs (type_map s)) (\<lambda>m. ret (s\<lparr>type_map := m\<rparr>)))"

text \<open>The variable \<open>width_bits\<close> lives across the fields and keeps its value at a named type.\<close>

fun add_header_fields :: "string \<Rightarrow> (string \<times> field_type) list \<Rightarrow> nat \<Rightarrow> type_sizes \<Rightarrow> type_sizes comp" where
  "add_header_fields h [] width_bits m = ret m"
| "add_header_fields h ((f, t) # fs) width_bits m =
     bind_comp (case t of FT_Name n \<Rightarrow> ret width_bits | FT_Stack n w \<Rightarrow> width_of w | FT_Other n w \<Rightarrow> width_of w)
       (\<lambda>width_bits. add_header_fields h fs width_bits (addHeaderField h f (type_text t) width_bits m))"

definition preorder_Type_Header :: "string \<Rightarrow> (string \<times> field_type) list \<Rightarrow> fe_state \<Rightarrow> fe_state comp" where
  "preorder_Type_Header n fs s =
     bind_comp (add_header_fields n fs 0 (type_map s)) (\<lambda>m. ret (s\<lparr>type_map := m\<rparr>))"

fun preorder_P4Program :: "top_object list \<Rightarrow> fe_state \<Rightarrow> fe_state comp" where
  "preorder_P4Program [] s = ret s"
| "preorder_P4Program (P4Control n ps ls # objs) s = bind_comp (preorder_P4Control n ps ls s) (preorder_P4Program objs)"
| "preorder_P4Program (StructDecl n fs # objs) s = bind_comp (preorder_Type_Struct n fs s) (preorder_P4Program objs)"
| "preorder_P4Program (HeaderDecl n fs # objs) s = bind_comp (preorder_Type_Header n fs s) (preorder_P4Program objs)"
| "preorder_P4Program (OtherObject # objs) s = preorder_P4Program objs s"

section \<open>JSON\<close>

datatype json = JString string | JNat nat | JArray "json list" | JObject "(string \<times> json) list"

fun json_of_match :: "match_types \<Rightarrow> json" where
  "json_of_match EXACT = JString ''exact''"
| "json_of_match LPM = JString ''lpm''"
| "json_of_match TERNARY = JString ''ternary''"

fun gress_text :: "gress \<Rightarrow> string" where
  "gress_text INGRESS = ''ingress''"
| "gress_text EGRESS = ''egress''"
| "gress_text NONE = ''ternary''"

definition json_of_action :: "action_info \<Rightarrow> json" where
  "json_of_action a = JObject [(''name'', JString (action_name a)), (''op_num'', JNat (op_num a))]"

text \<open>A map whose keys are not strings is an array of pairs.\<close>

definition json_of_table :: "table_info \<Rightarrow> json" where
  "json_of_table t =
     JObject [(''name'', JString (tname t)), (''size'', JNat (tsize t)),
       (''actions'', JArray (map JString (tactions t))),
       (''matches'', JArray (map (\<lambda>(m, ks). JArray [json_of_match m, JArray (map JString ks)]) (matches_of t)))]"

definition json_of_gress :: "gress_info \<Rightarrow> json" where
  "json_of_gress g =
     JObject [(''type'', JString (gress_text (gtype g))),
       (''actions'', JObject (map (\<lambda>(k, v). (k, json_of_action v)) (gactions g))),
       (''tables'', JObject (map (\<lambda>(k, v). (k, json_of_table v)) (gtables g)))]"

definition features_json :: "fe_state \<Rightarrow> json" where
  "features_json s = JObject (map (\<lambda>(k, v). (gress_text k, json_of_gress v)) (gresses s))"

end
