(* ===== verification/FeatureExtractor_Spec.thy ===== *)
theory FeatureExtractor_Spec
  imports FeatureExtractor
begin

text \<open>
  What the feature extractor finds: for the ingress and the egress control the actions with their
  numbers of statements and the tables with their actions, keys and sizes.  It stops with a failed check
  exactly when a name is declared twice in the controls of a gress, a match kind is unknown or a
  structure with a field of known width is declared again.
\<close>

section \<open>The features of a program\<close>

definition actions_of :: "control_local list \<Rightarrow> (string \<times> nat) list" where
  "actions_of ls = concat (map (\<lambda>l. case l of P4Action n k \<Rightarrow> [(n, k)] | _ \<Rightarrow> []) ls)"

definition tables_of :: "control_local list \<Rightarrow> table_decl list" where
  "tables_of ls = concat (map (\<lambda>l. case l of P4Table c \<Rightarrow> [c] | _ \<Rightarrow> []) ls)"

definition controls_of :: "gress \<Rightarrow> top_object list \<Rightarrow> control_local list list" where
  "controls_of g P = concat (map (\<lambda>x. case x of
     P4Control n ps ls \<Rightarrow> if gress_of_name n = Some g then [ls] else [] | _ \<Rightarrow> []) P)"

definition headers_of :: "top_object list \<Rightarrow> (string \<times> field_type) list list" where
  "headers_of P = concat (map (\<lambda>x. case x of HeaderDecl n fs \<Rightarrow> [fs] | _ \<Rightarrow> []) P)"

definition structs_of :: "top_object list \<Rightarrow> (string \<times> (string \<times> field_type) list) list" where
  "structs_of P = concat (map (\<lambda>x. case x of StructDecl n fs \<Rightarrow> [(n, fs)] | _ \<Rightarrow> []) P)"

lemma of_simps [simp]:
  "actions_of [] = []" "actions_of (P4Action n k # ls) = (n, k) # actions_of ls" "actions_of (P4Table c # ls) = actions_of ls"
  "actions_of (OtherLocal # ls) = actions_of ls" "actions_of (xs @ ys) = actions_of xs @ actions_of ys"
  "tables_of [] = []" "tables_of (P4Action n k # ls) = tables_of ls" "tables_of (P4Table c # ls) = c # tables_of ls"
  "tables_of (OtherLocal # ls) = tables_of ls" "tables_of (xs @ ys) = tables_of xs @ tables_of ys"
  "controls_of g [] = []" "controls_of g (P @ Q) = controls_of g P @ controls_of g Q"
  "structs_of [] = []" "structs_of (P @ Q) = structs_of P @ structs_of Q"
  "headers_of [] = []" "headers_of (P @ Q) = headers_of P @ headers_of Q"
  by (simp_all add: actions_of_def tables_of_def controls_of_def structs_of_def headers_of_def)

definition kind_of_text :: "string \<Rightarrow> match_types option" where
  "kind_of_text t = (if t = ''exact'' then Some EXACT else if t = ''ternary'' then Some TERNARY else if t = ''lpm'' then Some LPM else None)"

definition keys_of :: "table_decl \<Rightarrow> (string \<times> string) list" where
  "keys_of c = (case key_elements c of None \<Rightarrow> [] | Some ks \<Rightarrow> ks)"

definition table_ok :: "table_decl \<Rightarrow> bool" where
  "table_ok c \<longleftrightarrow> (\<forall>(k, t)\<in>set (keys_of c). kind_of_text t \<noteq> None)"

definition table_features :: "table_decl \<Rightarrow> string \<times> table_info \<Rightarrow> bool" where
  "table_features c e \<longleftrightarrow>
     fst e = table_name c \<and> tname (snd e) = table_name c \<and>
     tsize (snd e) = (case size_property c of None \<Rightarrow> 512 | Some n \<Rightarrow> n) \<and>
     tactions (snd e) = (case action_list c of None \<Rightarrow> [] | Some as \<Rightarrow> as) \<and>
     (\<forall>m. entry_of (matches_of (snd e)) m = map fst (filter (\<lambda>(k, t). kind_of_text t = Some m) (keys_of c)))"

definition action_features :: "string \<times> nat \<Rightarrow> string \<times> action_info" where
  "action_features a = (fst a, \<lparr>action_name = fst a, op_num = snd a\<rparr>)"

definition gress_features :: "control_local list \<Rightarrow> gress_info \<Rightarrow> bool" where
  "gress_features ls i \<longleftrightarrow>
     gactions i = map action_features (actions_of ls) \<and> list_all2 table_features (tables_of ls) (gtables i)"

definition locals_ok :: "control_local list \<Rightarrow> bool" where
  "locals_ok ls \<longleftrightarrow>
     distinct (map fst (actions_of ls)) \<and> distinct (map table_name (tables_of ls)) \<and> list_all table_ok (tables_of ls)"

text \<open>A structure is remembered by its fields that are neither of a named type nor stacks; their widths
  must be known, and in a header those of stacks as well.\<close>

definition is_FT_Other :: "field_type \<Rightarrow> bool" where
  "is_FT_Other t = (case t of FT_Other n w \<Rightarrow> True | _ \<Rightarrow> False)"

definition recorded :: "(string \<times> field_type) list \<Rightarrow> bool" where
  "recorded fs \<longleftrightarrow> list_ex (\<lambda>(f, t). is_FT_Other t) fs"

definition struct_sized :: "(string \<times> field_type) list \<Rightarrow> bool" where
  "struct_sized fs \<longleftrightarrow> list_all (\<lambda>(f, t). case t of FT_Other n w \<Rightarrow> w \<noteq> None | _ \<Rightarrow> True) fs"

definition header_sized :: "(string \<times> field_type) list \<Rightarrow> bool" where
  "header_sized fs \<longleftrightarrow> list_all (\<lambda>(f, t). case t of FT_Other n w \<Rightarrow> w \<noteq> None | FT_Stack n w \<Rightarrow> w \<noteq> None | _ \<Rightarrow> True) fs"

definition program_ok :: "top_object list \<Rightarrow> bool" where
  "program_ok P \<longleftrightarrow>
     (\<forall>g. locals_ok (concat (controls_of g P))) \<and>
     sorted_wrt (\<lambda>a b. recorded (snd a) \<longrightarrow> fst a \<noteq> fst b) (structs_of P) \<and>
     list_all (\<lambda>(n, fs). struct_sized fs) (structs_of P) \<and> list_all header_sized (headers_of P)"

section \<open>Maps as lists of entries\<close>

lemma update_new: "map_of m k = None \<Longrightarrow> AList.update k v m = m @ [(k, v)]"
  by (induction m) (auto split: if_split_asm)

lemma entry_of_update: "entry_of (AList.update k v m) k' = (if k = k' then v else entry_of m k')"
  by (simp add: entry_of_def update_conv)

section \<open>Keys\<close>

lemma collect_keys_known:
  "\<forall>(k, t)\<in>set ks. kind_of_text t \<noteq> None \<Longrightarrow>
     \<exists>ms'. collect_keys ks ms = ret ms' \<and>
       (\<forall>m. entry_of ms' m = entry_of ms m @ map fst (filter (\<lambda>(k, t). kind_of_text t = Some m) ks))"
proof (induction ks arbitrary: ms)
  case (Cons kt ks)
  obtain k t where kt: "kt = (k, t)" by fastforce
  from Cons.prems obtain m where m: "kind_of_text t = Some m" by (auto simp: kt)
  have "collect_keys ((k, t) # ks) ms = collect_keys ks (AList.update m (entry_of ms m @ [k]) ms)"
    using m by (auto simp: kind_of_text_def split: if_split_asm)
  with Cons.IH [of "AList.update m (entry_of ms m @ [k]) ms"] Cons.prems m show ?case
    by (auto simp: kt entry_of_update)
qed simp

lemma collect_keys_unknown:
  "\<not> (\<forall>(k, t)\<in>set ks. kind_of_text t \<noteq> None) \<Longrightarrow> collect_keys ks ms = Bug ''Unknown match type''"
proof (induction ks ms rule: collect_keys.induct)
  case (2 key type ks ms)
  then show ?case by (cases "kind_of_text type") (auto simp: kind_of_text_def split: if_split_asm)
qed simp

section \<open>The declarations of a control\<close>

text \<open>The state between two declarations of a control, with what has been collected for its gress.\<close>

definition in_gress :: "gress \<Rightarrow> gress_info \<Rightarrow> fe_state \<Rightarrow> bool" where
  "in_gress g i s \<longleftrightarrow> g \<noteq> NONE \<and> curGress s = g \<and> curAct s = None \<and> curTable s = None \<and> map_of (gresses s) g = Some i"

definition put :: "gress_info \<Rightarrow> fe_state \<Rightarrow> fe_state" where
  "put i s = s\<lparr>gresses := AList.update (curGress s) i (gresses s)\<rparr>"

lemma in_gress_put [simp]: "in_gress g i s \<Longrightarrow> in_gress g j (put j s)"
  by (simp add: in_gress_def put_def update_conv)

lemma put_put [simp]: "put j (put i s) = put j s"
  by (simp add: put_def AList.update_last)

lemma action_step:
  assumes "in_gress g i s"
  shows "preorder_P4Action n k s =
    (if map_of (gactions i) n = None then ret (put (i\<lparr>gactions := gactions i @ [action_features (n, k)]\<rparr>) s)
     else Bug ''duplicate action name'')"
  using assms
  by (simp add: preorder_P4Action_def init_action_info_def end_action_info_def cur_info_def in_gress_def put_def
      set_cur_info_def update_new action_features_def)

lemma table_step:
  assumes "in_gress g i s"
  shows "if map_of (gtables i) (table_name c) = None \<and> table_ok c
    then \<exists>e. table_features c e \<and> preorder_P4Table c s = ret (put (i\<lparr>gtables := gtables i @ [e]\<rparr>) s)
    else \<exists>m. preorder_P4Table c s = Bug m"
proof (cases "map_of (gtables i) (table_name c) = None")
  case new: True
  show ?thesis
  proof (cases "table_ok c")
    case True
    from collect_keys_known [OF True [unfolded table_ok_def], of "[]"] obtain ms where ms: "collect_keys (keys_of c) [] = ret ms"
      "\<And>m. entry_of ms m = map fst (filter (\<lambda>(k, t). kind_of_text t = Some m) (keys_of c))" by (auto simp: entry_of_def)
    let ?t = "\<lparr>tname = table_name c, tsize = (case size_property c of None \<Rightarrow> 512 | Some n \<Rightarrow> n),
      tactions = (case action_list c of None \<Rightarrow> [] | Some as \<Rightarrow> as), matches_of = ms\<rparr>"
    have "preorder_P4Table c s = ret (put (i\<lparr>gtables := gtables i @ [(table_name c, ?t)]\<rparr>) s)"
      using assms new ms(1)
      by (simp add: preorder_P4Table_def init_table_info_def end_table_info_def cur_info_def in_gress_def put_def
          set_cur_info_def update_new keys_of_def)
    moreover have "table_features c (table_name c, ?t)" by (simp add: table_features_def ms(2))
    ultimately show ?thesis using new True by auto
  next
    case False
    then have "collect_keys (keys_of c) [] = Bug ''Unknown match type''" unfolding table_ok_def by (rule collect_keys_unknown)
    then show ?thesis using assms new False
      by (simp add: preorder_P4Table_def init_table_info_def cur_info_def in_gress_def keys_of_def)
  qed
next
  case False
  then show ?thesis using assms by (auto simp: preorder_P4Table_def init_table_info_def cur_info_def in_gress_def)
qed


lemma put_same [simp]: "in_gress g i s \<Longrightarrow> put i s = s"
  by (simp add: in_gress_def put_def AList.update_triv)

lemma actions_free: "gress_features ls i \<Longrightarrow> map_of (gactions i) n = None \<longleftrightarrow> n \<notin> fst ` set (actions_of ls)"
  by (auto simp: gress_features_def map_of_eq_None_iff action_features_def image_iff)

lemma tables_free:
  assumes "gress_features ls i"
  shows "map_of (gtables i) n = None \<longleftrightarrow> n \<notin> table_name ` set (tables_of ls)"
proof -
  from assms have "list_all2 table_features (tables_of ls) (gtables i)" by (simp add: gress_features_def)
  then have "map fst (gtables i) = map table_name (tables_of ls)"
    by (induction rule: list_all2_induct) (simp_all add: table_features_def)
  then have "fst ` set (gtables i) = table_name ` set (tables_of ls)" by (metis set_map)
  then show ?thesis by (simp add: map_of_eq_None_iff)
qed

lemma visit_locals_spec:
  assumes "in_gress g i s" "gress_features done i" "locals_ok done"
  shows "if locals_ok (done @ ls)
    then \<exists>j. visit_locals ls s = ret (put j s) \<and> gress_features (done @ ls) j \<and> gtype j = gtype i
    else \<exists>m. visit_locals ls s = Bug m"
  using assms
proof (induction ls arbitrary: "done" i s)
  case Nil
  then show ?case by (auto intro!: exI [of _ i])
next
  case (Cons l ls)
  show ?case
  proof (cases l)
    case (P4Action n k)
    show ?thesis
    proof (cases "map_of (gactions i) n = None")
      case True
      let ?j = "i\<lparr>gactions := gactions i @ [action_features (n, k)]\<rparr>"
      have st: "preorder_P4Action n k s = ret (put ?j s)" using action_step [OF Cons.prems(1)] True by simp
      have f: "gress_features (done @ [l]) ?j" using Cons.prems(2) by (simp add: gress_features_def P4Action)
      have "locals_ok (done @ [l])"
        using Cons.prems(3) True actions_free [OF Cons.prems(2)] by (auto simp: locals_ok_def P4Action)
      note ih = Cons.IH [OF in_gress_put [OF Cons.prems(1)] f this]
      have "visit_locals (l # ls) s = visit_locals ls (put ?j s)" by (simp add: P4Action st split: comp.split)
      with ih show ?thesis by (cases "locals_ok (done @ l # ls)") simp_all
    next
      case False
      then have "\<not> locals_ok (done @ l # ls)"
        using actions_free [OF Cons.prems(2)] by (auto simp: locals_ok_def P4Action)
      moreover have "preorder_P4Action n k s = Bug ''duplicate action name''"
        using action_step [OF Cons.prems(1), of n k] False by (simp only: if_False)
      ultimately show ?thesis by (simp add: P4Action)
    qed
  next
    case (P4Table c)
    note st = table_step [OF Cons.prems(1), of c]
    show ?thesis
    proof (cases "map_of (gtables i) (table_name c) = None \<and> table_ok c")
      case True
      with st obtain e where e: "table_features c e" "preorder_P4Table c s = ret (put (i\<lparr>gtables := gtables i @ [e]\<rparr>) s)" by auto
      let ?j = "i\<lparr>gtables := gtables i @ [e]\<rparr>"
      have f: "gress_features (done @ [l]) ?j" using Cons.prems(2) e(1) by (simp add: gress_features_def P4Table list_all2_appendI)
      have "locals_ok (done @ [l])"
        using Cons.prems(3) True tables_free [OF Cons.prems(2)] by (auto simp: locals_ok_def P4Table)
      note ih = Cons.IH [OF in_gress_put [OF Cons.prems(1)] f this]
      have "visit_locals (l # ls) s = visit_locals ls (put ?j s)" by (simp add: P4Table e(2) split: comp.split)
      with ih show ?thesis by (cases "locals_ok (done @ l # ls)") simp_all
    next
      case False
      then have "\<not> locals_ok (done @ l # ls)"
        using tables_free [OF Cons.prems(2)] by (auto simp: locals_ok_def P4Table)
      moreover from st False obtain m where "preorder_P4Table c s = Bug m" by (auto simp only: if_False)
      ultimately show ?thesis by (simp add: P4Table)
    qed
  next
    case OtherLocal
    have "gress_features (done @ [l]) i" "locals_ok (done @ [l])"
      using Cons.prems by (simp_all add: OtherLocal gress_features_def locals_ok_def)
    from Cons.IH [OF Cons.prems(1) this] show ?thesis by (cases "locals_ok (done @ l # ls)") (simp_all add: OtherLocal)
  qed
qed

lemma add_parameters_spec:
  "in_gress g i s \<Longrightarrow> \<exists>j. add_parameters ps s = ret (put j s) \<and> gactions j = gactions i \<and> gtables j = gtables i \<and> gtype j = gtype i"
proof (induction ps arbitrary: i s)
  case Nil
  then show ?case by (auto intro!: exI [of _ i])
next
  case (Cons pt ps)
  obtain p t where pt: "pt = (p, t)" by fastforce
  let ?i = "i\<lparr>field_to_type := AList.update p t (field_to_type i)\<rparr>"
  have "add_parameters (pt # ps) s = add_parameters ps (put ?i s)"
    using Cons.prems by (simp add: pt cur_info_def in_gress_def set_cur_info_def put_def split: comp.split)
  with Cons.IH [OF in_gress_put [OF Cons.prems], of ?i] show ?case by auto
qed


section \<open>Fields\<close>

lemma hasStruct_add: "hasStruct n (addStructField s f t w m) \<longleftrightarrow> n = s \<or> hasStruct n m"
  by (simp add: hasStruct_def addStructField_def update_conv)

lemma hasStruct_add_header [simp]: "hasStruct n (addHeaderField s f t w m) \<longleftrightarrow> hasStruct n m"
  by (simp add: hasStruct_def addHeaderField_def)

lemma add_struct_fields_spec:
  "if struct_sized fs
   then \<exists>m'. add_struct_fields s fs m = ret m' \<and> (\<forall>n. hasStruct n m' \<longleftrightarrow> hasStruct n m \<or> n = s \<and> recorded fs)
   else \<exists>msg. add_struct_fields s fs m = Bug msg"
proof (induction s fs m rule: add_struct_fields.induct)
  case (2 s f t w fs m)
  show ?case
  proof (cases w)
    case None
    then show ?thesis by (simp add: struct_sized_def width_of_def)
  next
    case (Some n)
    have "add_struct_fields s ((f, FT_Other t w) # fs) m = add_struct_fields s fs (addStructField s f t n m)"
      by (simp add: Some width_of_def split: comp.split)
    moreover have "struct_sized ((f, FT_Other t w) # fs) \<longleftrightarrow> struct_sized fs" by (simp add: struct_sized_def Some)
    moreover have "width_of w = Ok [] n" by (simp add: Some width_of_def)
    ultimately show ?thesis using 2 [of "[]" n]
      by (cases "struct_sized fs") (auto simp: hasStruct_add recorded_def is_FT_Other_def)
  qed
qed (auto simp: struct_sized_def recorded_def is_FT_Other_def)

lemma add_header_fields_spec:
  "if header_sized fs
   then \<exists>m'. add_header_fields h fs w m = ret m' \<and> (\<forall>n. hasStruct n m' \<longleftrightarrow> hasStruct n m)
   else \<exists>msg. add_header_fields h fs w m = Bug msg"
proof (induction h fs w m rule: add_header_fields.induct)
  case (2 h f t fs w m)
  let ?w = "case t of FT_Name n \<Rightarrow> ret w | FT_Stack n w \<Rightarrow> width_of w | FT_Other n w \<Rightarrow> width_of w"
  show ?case
  proof (cases ?w)
    case (Bug msg)
    then have "\<not> header_sized ((f, t) # fs)"
      by (cases t) (auto simp: header_sized_def width_of_def split: option.split_asm)
    then show ?thesis using Bug by simp
  next
    case (Ok ds n)
    then have "ds = []" "header_sized ((f, t) # fs) \<longleftrightarrow> header_sized fs"
      by (cases t; auto simp: header_sized_def width_of_def split: option.split_asm)+
    moreover from this Ok have "add_header_fields h ((f, t) # fs) w m = add_header_fields h fs n (addHeaderField h f (type_text t) n m)"
      by (simp split: comp.split)
    ultimately show ?thesis using 2 [OF Ok] by (cases "header_sized fs") simp_all
  qed
qed (simp add: header_sized_def)

section \<open>Programs\<close>

text \<open>The state after a part of the program.\<close>

definition extracted :: "top_object list \<Rightarrow> fe_state \<Rightarrow> bool" where
  "extracted P s \<longleftrightarrow>
     curAct s = None \<and> curTable s = None \<and>
     (\<forall>g. case map_of (gresses s) g of
        None \<Rightarrow> controls_of g P = []
      | Some i \<Rightarrow> controls_of g P \<noteq> [] \<and> gtype i = g \<and> gress_features (concat (controls_of g P)) i) \<and>
     (\<forall>n. hasStruct n (type_map s) \<longleftrightarrow> (\<exists>fs. (n, fs) \<in> set (structs_of P) \<and> recorded fs))"

lemma enter_gress_in:
  assumes "extracted P s" "g \<noteq> NONE"
  shows "\<exists>i. in_gress g i (enter_gress g s) \<and> gtype i = g \<and> gress_features (concat (controls_of g P)) i"
proof (cases "map_of (gresses s) g")
  case None
  with assms have "controls_of g P = []" unfolding extracted_def by (auto split: option.split_asm dest: spec [of _ g])
  moreover have "map_of (gresses s @ [(g, empty_gress g)]) g = Some (empty_gress g)"
    using None by (simp add: map_add_def)
  ultimately have "in_gress g (empty_gress g) (enter_gress g s)" "gress_features (concat (controls_of g P)) (empty_gress g)"
    using assms None by (simp_all add: in_gress_def enter_gress_def extracted_def empty_gress_def gress_features_def)
  then show ?thesis by (auto simp: empty_gress_def)
next
  case (Some i)
  with assms(1) have "gtype i = g \<and> gress_features (concat (controls_of g P)) i"
    unfolding extracted_def by (auto split: option.split_asm dest: spec [of _ g])
  then show ?thesis using assms Some by (auto simp: in_gress_def enter_gress_def extracted_def intro!: exI [of _ i])
qed


lemma controls_of_single:
  "controls_of g [P4Control n ps ls] = (if gress_of_name n = Some g then [ls] else [])"
  "controls_of g [StructDecl n fs] = []" "controls_of g [HeaderDecl n fs] = []" "controls_of g [OtherObject] = []"
  "structs_of [P4Control n ps ls] = []" "structs_of [StructDecl n fs] = [(n, fs)]" "structs_of [HeaderDecl n fs] = []"
  "structs_of [OtherObject] = []"
  "headers_of [P4Control n ps ls] = []" "headers_of [StructDecl n fs] = []" "headers_of [HeaderDecl n fs] = [fs]"
  "headers_of [OtherObject] = []"
  by (simp_all add: controls_of_def structs_of_def headers_of_def)

lemma gress_of_name_not_NONE: "gress_of_name n = Some g \<Longrightarrow> g \<noteq> NONE"
  by (auto simp: gress_of_name_def split: if_split_asm)

lemma control_step:
  assumes e: "extracted P s" and ok: "program_ok P" and g: "gress_of_name n = Some g"
  shows "if program_ok (P @ [P4Control n ps ls])
    then \<exists>s'. preorder_P4Control n ps ls s = ret s' \<and> extracted (P @ [P4Control n ps ls]) s'
    else \<exists>m. preorder_P4Control n ps ls s = Bug m"
proof -
  let ?done = "concat (controls_of g P)" and ?s = "enter_gress g s"
  from enter_gress_in [OF e gress_of_name_not_NONE [OF g]] obtain i where
    i: "in_gress g i ?s" "gtype i = g" "gress_features ?done i" by blast
  from add_parameters_spec [OF i(1), of ps] obtain j where j: "add_parameters ps ?s = ret (put j ?s)"
    "gress_features ?done j" "gtype j = g" using i(2,3) by (auto simp: gress_features_def)
  have d: "locals_ok ?done" using ok by (simp add: program_ok_def)
  have pk: "program_ok (P @ [P4Control n ps ls]) \<longleftrightarrow> locals_ok (?done @ ls)"
    using ok g by (auto simp: program_ok_def controls_of_single)
  have v: "preorder_P4Control n ps ls s = visit_locals ls (put j ?s)"
    by (simp add: preorder_P4Control_def g j(1) split: comp.split)
  note vl = visit_locals_spec [OF in_gress_put [OF i(1)] j(2) d, of ls]
  show ?thesis
  proof (cases "locals_ok (?done @ ls)")
    case True
    with vl j(3) obtain k where k: "visit_locals ls (put j ?s) = ret (put k ?s)" "gress_features (?done @ ls) k" "gtype k = g" by auto
    have m: "map_of (gresses (put k ?s)) g' = (if g' = g then Some k else map_of (gresses s) g')" for g'
      by (simp add: put_def enter_gress_def update_conv map_add_def split: option.split)
    have c: "controls_of g' (P @ [P4Control n ps ls]) = (if g' = g then controls_of g P @ [ls] else controls_of g' P)" for g'
      using g by (simp add: controls_of_single)
    have "extracted (P @ [P4Control n ps ls]) (put k ?s)"
      using e k(2,3) unfolding extracted_def m c by (simp add: put_def enter_gress_def controls_of_single)
    then show ?thesis using True pk v k(1) by auto
  next
    case False
    then show ?thesis using vl pk v by auto
  qed
qed

lemma extracted_types:
  assumes "extracted P s" "\<And>g. controls_of g [x] = []"
    "\<And>n. hasStruct n m \<longleftrightarrow> hasStruct n (type_map s) \<or> (\<exists>fs. (n, fs) \<in> set (structs_of [x]) \<and> recorded fs)"
  shows "extracted (P @ [x]) (s\<lparr>type_map := m\<rparr>)"
proof -
  have c: "controls_of g (P @ [x]) = controls_of g P" for g using assms(2) by simp
  show ?thesis using assms(1) unfolding extracted_def c by (auto simp: assms(3))
qed

lemma extracted_same:
  assumes "extracted P s" "\<And>g. controls_of g [x] = []" "structs_of [x] = []"
  shows "extracted (P @ [x]) s"
  using extracted_types [OF assms(1), of x "type_map s"] assms(2,3) by simp

lemma program_Nil [simp]: "preorder_P4Program [] = ret"
  by (rule ext) simp

lemma object_step:
  assumes e: "extracted P s" and ok: "program_ok P"
  shows "if program_ok (P @ [x])
    then \<exists>s'. preorder_P4Program [x] s = ret s' \<and> extracted (P @ [x]) s'
    else \<exists>m. preorder_P4Program [x] s = Bug m"
proof (cases x)
  case (P4Control n ps ls)
  show ?thesis
  proof (cases "gress_of_name n")
    case None
    then have "extracted (P @ [x]) s" by (intro extracted_same [OF e]) (simp_all add: P4Control controls_of_single)
    moreover have "program_ok (P @ [x])"
      using ok None by (simp add: P4Control program_ok_def controls_of_single)
    ultimately show ?thesis by (simp add: P4Control preorder_P4Control_def None)
  next
    case (Some g)
    from control_step [OF e ok Some, of ps ls] show ?thesis
      by (cases "program_ok (P @ [x])") (auto simp: P4Control)
  qed
next
  case (StructDecl n fs)
  have old: "hasStruct n (type_map s) \<longleftrightarrow> (\<exists>fs. (n, fs) \<in> set (structs_of P) \<and> recorded fs)"
    using e by (simp add: extracted_def)
  have pk: "program_ok (P @ [x]) \<longleftrightarrow> \<not> hasStruct n (type_map s) \<and> struct_sized fs"
    using ok unfolding old by (auto simp: program_ok_def StructDecl controls_of_single sorted_wrt_append)
  have v: "preorder_P4Program [x] s = preorder_Type_Struct n fs s" by (simp add: StructDecl)
  note f = add_struct_fields_spec [of fs n "type_map s"]
  show ?thesis
  proof (cases "hasStruct n (type_map s)")
    case True
    then show ?thesis unfolding v pk by (simp add: preorder_Type_Struct_def)
  next
    case new: False
    show ?thesis
    proof (cases "struct_sized fs")
      case True
      with f obtain m where m: "add_struct_fields n fs (type_map s) = ret m"
        "\<And>k. hasStruct k m \<longleftrightarrow> hasStruct k (type_map s) \<or> k = n \<and> recorded fs" by auto
      have "extracted (P @ [x]) (s\<lparr>type_map := m\<rparr>)"
        by (rule extracted_types [OF e]) (auto simp: StructDecl controls_of_single m(2))
      then show ?thesis unfolding v pk using new True m(1) by (simp add: preorder_Type_Struct_def)
    next
      case False
      with f obtain msg where "add_struct_fields n fs (type_map s) = Bug msg" by auto
      then show ?thesis unfolding v pk using new False by (simp add: preorder_Type_Struct_def)
    qed
  qed
next
  case (HeaderDecl n fs)
  have pk: "program_ok (P @ [x]) \<longleftrightarrow> header_sized fs"
    using ok by (auto simp: program_ok_def HeaderDecl controls_of_single)
  have v: "preorder_P4Program [x] s = preorder_Type_Header n fs s" by (simp add: HeaderDecl)
  note f = add_header_fields_spec [of fs n 0 "type_map s"]
  show ?thesis
  proof (cases "header_sized fs")
    case True
    with f obtain m where m: "add_header_fields n fs 0 (type_map s) = ret m" "\<And>k. hasStruct k m \<longleftrightarrow> hasStruct k (type_map s)" by auto
    have "extracted (P @ [x]) (s\<lparr>type_map := m\<rparr>)"
      by (rule extracted_types [OF e]) (auto simp: HeaderDecl controls_of_single m(2))
    then show ?thesis unfolding v pk using True m(1) by (simp add: preorder_Type_Header_def)
  next
    case False
    with f obtain msg where "add_header_fields n fs 0 (type_map s) = Bug msg" by auto
    then show ?thesis unfolding v pk using False by (simp add: preorder_Type_Header_def)
  qed
next
  case OtherObject
  have "extracted (P @ [x]) s" by (rule extracted_same [OF e]) (simp_all add: OtherObject controls_of_single)
  moreover have "program_ok (P @ [x])"
    using ok by (simp add: OtherObject program_ok_def controls_of_single)
  ultimately show ?thesis by (simp add: OtherObject)
qed

lemma program_Cons: "preorder_P4Program (x # xs) s = bind_comp (preorder_P4Program [x] s) (preorder_P4Program xs)"
  by (cases x) (simp_all split: comp.split)

lemma program_ok_prefix:
  assumes "program_ok (P @ Q)" shows "program_ok P"
proof -
  have "locals_ok xs" if "locals_ok (xs @ ys)" for xs ys using that by (simp add: locals_ok_def)
  then show ?thesis using assms unfolding program_ok_def by (auto simp: sorted_wrt_append)
qed

lemma program_spec:
  "extracted P s \<Longrightarrow> program_ok P \<Longrightarrow>
     if program_ok (P @ Q)
     then \<exists>s'. preorder_P4Program Q s = ret s' \<and> extracted (P @ Q) s'
     else \<exists>m. preorder_P4Program Q s = Bug m"
proof (induction Q arbitrary: P s)
  case (Cons x Q)
  show ?case
  proof (cases "program_ok (P @ [x])")
    case True
    with object_step [OF Cons.prems, of x] obtain s' where s': "preorder_P4Program [x] s = ret s'" "extracted (P @ [x]) s'" by auto
    have "preorder_P4Program (x # Q) s = preorder_P4Program Q s'"
      by (subst program_Cons) (simp add: s'(1) split: comp.split)
    with Cons.IH [OF s'(2) True] show ?thesis by (cases "program_ok (P @ x # Q)") simp_all
  next
    case False
    with object_step [OF Cons.prems, of x] obtain m where m: "preorder_P4Program [x] s = Bug m" by auto
    have "preorder_P4Program (x # Q) s = Bug m" by (subst program_Cons) (simp add: m)
    moreover have "\<not> program_ok (P @ x # Q)" using False program_ok_prefix [of "P @ [x]" Q] by auto
    ultimately show ?thesis by simp
  qed
qed auto


text \<open>C31: the feature extractor stops with a failed check exactly when a name is declared twice in the
  controls of one gress, a match kind is unknown, a structure with a recorded field is declared again or a
  width is not known.  Otherwise it finds, for the ingress and for the egress controls together, the
  actions with their numbers of statements in the order of the program, and the tables with their
  actions, their keys by match kind and their sizes, 512 when none is given.\<close>

theorem features_spec:
  "if program_ok P
   then \<exists>s. preorder_P4Program P fe_init = ret s \<and>
     (\<forall>g. case map_of (gresses s) g of
        None \<Rightarrow> controls_of g P = []
      | Some i \<Rightarrow> controls_of g P \<noteq> [] \<and> gtype i = g \<and>
          gactions i = map action_features (actions_of (concat (controls_of g P))) \<and>
          list_all2 table_features (tables_of (concat (controls_of g P))) (gtables i))
   else \<exists>m. preorder_P4Program P fe_init = Bug m"
proof -
  have "program_ok []" "extracted [] fe_init"
    by (simp_all add: program_ok_def locals_ok_def extracted_def fe_init_def hasStruct_def)
  note e = program_spec [OF this(2,1), of P, unfolded append_Nil]
  show ?thesis
  proof (cases "program_ok P")
    case True
    with e obtain s where s: "preorder_P4Program P fe_init = ret s" "extracted P s" by auto
    from s(2) show ?thesis using s(1) True unfolding extracted_def gress_features_def by (simp only: if_True) blast
  qed (use e in simp)
qed

text \<open>A header field of a named type is given the width of the field before it.\<close>

theorem named_field_width:
  "preorder_P4Program [HeaderDecl ''h'' [(''a'', FT_Other ''bit<8>'' (Some 8)), (''b'', FT_Name ''T'')]] fe_init =
     ret (fe_init\<lparr>type_map := \<lparr>struct_fields = [], header_fields = [(''h'', [(''a'', ''bit<8>'', 8), (''b'', ''T'', 8)])]\<rparr>\<rparr>)"
  by code_simp

end
