(* ===== verification/BitRange.thy ===== *)
theory BitRange
  imports P4Prelude "HOL-Library.Signed_Division"
begin

text \<open>
  Ranges of bits and bytes (lib/bitrange.h, lib/bitrange.cpp): half-open and closed ranges with their
  unit and their order.  The template parameters are arguments of the operations that use them.  An
  \<open>int\<close> is an integer; as the comments of the header say, the operations do not guard against overflow.
\<close>

section \<open>Division\<close>

text \<open>The paths for a power of two that the compiler knows are left out; they shift and mask, which gives the
  same results (\<open>division_by_power_of_two\<close>).\<close>

definition divideFloor :: "int \<Rightarrow> int \<Rightarrow> int" where
  "divideFloor dividend divisor =
     (let quotient = dividend sdiv divisor; remainder = dividend smod divisor
      in if remainder \<noteq> 0 \<and> (remainder < 0) \<noteq> (divisor < 0) then quotient - 1 else quotient)"

definition modulo :: "int \<Rightarrow> int \<Rightarrow> int" where
  "modulo dividend divisor = (dividend smod divisor) * (if (dividend < 0) \<noteq> (divisor < 0) then -1 else 1)"

definition moduloFloor :: "int \<Rightarrow> int \<Rightarrow> int" where
  "moduloFloor dividend divisor =
     (let remainder = modulo dividend divisor
      in if remainder = 0 \<or> 0 \<le> dividend then remainder else divisor - remainder)"

section \<open>Half-open ranges\<close>

datatype RangeUnit = Bit | Byte

datatype Endian = Network | Little

record HalfOpenRange =
  lo :: int
  hi :: int

definition half_open :: "int \<Rightarrow> int \<Rightarrow> HalfOpenRange" where
  "half_open l h = \<lparr>lo = l, hi = h\<rparr>"

definition half_open_FromTo :: "int \<Rightarrow> int \<Rightarrow> HalfOpenRange" where
  "half_open_FromTo from to = half_open from (to + 1)"

definition half_open_StartLen :: "int \<Rightarrow> int \<Rightarrow> HalfOpenRange" where
  "half_open_StartLen start len = half_open start (start + len)"

definition half_open_ZeroToMax :: HalfOpenRange where
  "half_open_ZeroToMax = half_open 0 (2 ^ 31 - 1)"

definition half_open_MinToMax :: HalfOpenRange where
  "half_open_MinToMax = half_open (- (2 ^ 31)) (2 ^ 31 - 1)"

definition range_size :: "HalfOpenRange \<Rightarrow> int" where
  "range_size r = hi r - lo r"

definition range_empty :: "HalfOpenRange \<Rightarrow> bool" where
  "range_empty r \<longleftrightarrow> lo r = hi r"

definition canonicalize :: "HalfOpenRange \<Rightarrow> HalfOpenRange" where
  "canonicalize r = (if range_empty r then half_open 0 0 else r)"

definition loByte :: "RangeUnit \<Rightarrow> HalfOpenRange \<Rightarrow> int" where
  "loByte u r = (if range_empty r then 0 else if u = Byte then lo r else divideFloor (lo r) 8)"

definition hiByte :: "RangeUnit \<Rightarrow> HalfOpenRange \<Rightarrow> int" where
  "hiByte u r = (if range_empty r then 0 else if u = Byte then hi r - 1 else divideFloor (hi r - 1) 8)"

definition nextByte :: "RangeUnit \<Rightarrow> HalfOpenRange \<Rightarrow> int" where
  "nextByte u r = (if range_empty r then 0 else hiByte u r + 1)"

definition toUnit :: "RangeUnit \<Rightarrow> RangeUnit \<Rightarrow> HalfOpenRange \<Rightarrow> HalfOpenRange" where
  "toUnit u dest r =
     (if dest = u then half_open (lo r) (hi r)
      else if range_empty r then half_open 0 0
      else case dest of
             Bit \<Rightarrow> half_open (lo r * 8) (hi r * 8)
           | Byte \<Rightarrow> half_open (loByte u r) (nextByte u r))"

definition toOrder :: "Endian \<Rightarrow> Endian \<Rightarrow> int \<Rightarrow> HalfOpenRange \<Rightarrow> HalfOpenRange" where
  "toOrder ord dest spaceSize r =
     (if dest = ord then half_open (lo r) (hi r) else half_open (spaceSize - hi r) (spaceSize - lo r))"

definition resizedToBits :: "RangeUnit \<Rightarrow> int \<Rightarrow> HalfOpenRange \<Rightarrow> HalfOpenRange" where
  "resizedToBits u sz r =
     (if range_empty r then half_open 0 sz
      else let asBits = toUnit u Bit r in half_open (lo asBits) (lo asBits + sz))"

definition resizedToBytes :: "RangeUnit \<Rightarrow> int \<Rightarrow> HalfOpenRange \<Rightarrow> HalfOpenRange" where
  "resizedToBytes u sz r =
     (let resizedLo = (if range_empty r then 0 else lo r)
      in if u = Byte then half_open resizedLo (resizedLo + sz) else half_open resizedLo (resizedLo + sz * 8))"

definition shiftedByBits :: "RangeUnit \<Rightarrow> int \<Rightarrow> HalfOpenRange \<Rightarrow> HalfOpenRange" where
  "shiftedByBits u off r =
     (if range_empty r then half_open 0 0
      else let asBits = toUnit u Bit r in half_open (lo asBits + off) (hi asBits + off))"

definition shiftedByBytes :: "RangeUnit \<Rightarrow> int \<Rightarrow> HalfOpenRange \<Rightarrow> HalfOpenRange" where
  "shiftedByBytes u off r =
     (if range_empty r then half_open 0 0
      else if u = Byte then half_open (lo r + off) (hi r + off)
      else half_open (lo r + off * 8) (hi r + off * 8))"

definition isLoAligned :: "RangeUnit \<Rightarrow> HalfOpenRange \<Rightarrow> bool" where
  "isLoAligned u r \<longleftrightarrow> (if range_empty r \<or> u = Byte then True else moduloFloor (lo r) 8 = 0)"

definition isHiAligned :: "RangeUnit \<Rightarrow> HalfOpenRange \<Rightarrow> bool" where
  "isHiAligned u r \<longleftrightarrow> (if range_empty r \<or> u = Byte then True else moduloFloor (hi r) 8 = 0)"

definition range_equal :: "HalfOpenRange \<Rightarrow> HalfOpenRange \<Rightarrow> bool" where
  "range_equal r other \<longleftrightarrow> (if range_empty r then range_empty other else lo other = lo r \<and> hi other = hi r)"

definition containsIndex :: "HalfOpenRange \<Rightarrow> int \<Rightarrow> bool" where
  "containsIndex r i \<longleftrightarrow> i \<ge> lo r \<and> i < hi r"

definition intersectWith :: "HalfOpenRange \<Rightarrow> HalfOpenRange \<Rightarrow> HalfOpenRange" where
  "intersectWith r a =
     (let rv = half_open (max (lo r) (lo a)) (min (hi r) (hi a))
      in if hi rv \<le> lo rv then half_open 0 0 else rv)"

definition containsRange :: "HalfOpenRange \<Rightarrow> HalfOpenRange \<Rightarrow> bool" where
  "containsRange r other \<longleftrightarrow> range_equal (intersectWith r other) other"

definition overlaps :: "HalfOpenRange \<Rightarrow> HalfOpenRange \<Rightarrow> bool" where
  "overlaps r a \<longleftrightarrow> \<not> range_empty (intersectWith r a)"

definition unionWith :: "HalfOpenRange \<Rightarrow> HalfOpenRange \<Rightarrow> HalfOpenRange" where
  "unionWith r a =
     (if range_empty r then half_open (lo a) (hi a)
      else if lo a = hi a then r
      else half_open (min (lo r) (lo a)) (max (hi r) (hi a)))"

definition range_less :: "HalfOpenRange \<Rightarrow> HalfOpenRange \<Rightarrow> bool" where
  "range_less r other \<longleftrightarrow> (if lo r \<noteq> lo other then lo r < lo other else hi r < hi other)"

definition range_minus :: "HalfOpenRange \<Rightarrow> HalfOpenRange \<Rightarrow> HalfOpenRange \<times> HalfOpenRange" where
  "range_minus left right =
     (let none = half_open 0 0; intersect = intersectWith left right
      in if range_empty intersect then (if lo left < lo right then (left, none) else (none, left))
         else (if lo left = lo intersect then none else half_open_FromTo (lo left) (lo intersect - 1),
               if hi left = hi intersect then none else half_open_FromTo (hi intersect) (hi left - 1)))"

section \<open>Closed ranges\<close>

record ClosedRange =
  first_index :: int
  last_index :: int

definition closed :: "int \<Rightarrow> int \<Rightarrow> ClosedRange" where
  "closed l h = \<lparr>first_index = l, last_index = h\<rparr>"

definition closed_StartLen :: "int \<Rightarrow> int \<Rightarrow> ClosedRange" where
  "closed_StartLen start len = closed start (start + len - 1)"

definition closed_of_half_open :: "HalfOpenRange \<Rightarrow> ClosedRange comp" where
  "closed_of_half_open r =
     (if range_empty r then Bug ''can't convert empty range to Closed'' else ret (closed (lo r) (hi r - 1)))"

definition toHalfOpenRange :: "ClosedRange \<Rightarrow> HalfOpenRange" where
  "toHalfOpenRange r = half_open (first_index r) (last_index r + 1)"

definition toClosedRange :: "HalfOpenRange \<Rightarrow> ClosedRange option" where
  "toClosedRange r = (if range_empty r then None else Some (closed (lo r) (hi r - 1)))"

definition closed_size :: "ClosedRange \<Rightarrow> int" where
  "closed_size r = last_index r - first_index r + 1"

definition closed_loByte :: "RangeUnit \<Rightarrow> ClosedRange \<Rightarrow> int" where
  "closed_loByte u r = (if u = Byte then first_index r else divideFloor (first_index r) 8)"

definition closed_hiByte :: "RangeUnit \<Rightarrow> ClosedRange \<Rightarrow> int" where
  "closed_hiByte u r = (if u = Byte then last_index r else divideFloor (last_index r) 8)"

definition closed_nextByte :: "RangeUnit \<Rightarrow> ClosedRange \<Rightarrow> int" where
  "closed_nextByte u r = closed_hiByte u r + 1"

definition closed_toUnit :: "RangeUnit \<Rightarrow> RangeUnit \<Rightarrow> ClosedRange \<Rightarrow> ClosedRange" where
  "closed_toUnit u dest r =
     (if dest = u then closed (first_index r) (last_index r)
      else case dest of
             Bit \<Rightarrow> closed (first_index r * 8) (last_index r * 8 + 7)
           | Byte \<Rightarrow> closed (closed_loByte u r) (closed_hiByte u r))"

definition closed_toOrder :: "Endian \<Rightarrow> Endian \<Rightarrow> int \<Rightarrow> ClosedRange \<Rightarrow> ClosedRange comp" where
  "closed_toOrder ord dest spaceSize r =
     (if spaceSize \<le> 0 then Bug ''Can't represent an empty range''
      else if dest = ord then ret (closed (first_index r) (last_index r))
      else ret (closed ((spaceSize - 1) - last_index r) ((spaceSize - 1) - first_index r)))"

definition closed_resizedToBits :: "RangeUnit \<Rightarrow> int \<Rightarrow> ClosedRange \<Rightarrow> ClosedRange comp" where
  "closed_resizedToBits u sz r =
     (if sz = 0 then Bug ''Resizing ClosedRange to zero size''
      else let asBits = closed_toUnit u Bit r in ret (closed (first_index asBits) (first_index asBits + sz - 1)))"

definition closed_resizedToBytes :: "RangeUnit \<Rightarrow> int \<Rightarrow> ClosedRange \<Rightarrow> ClosedRange comp" where
  "closed_resizedToBytes u sz r =
     (if sz = 0 then Bug ''Resizing ClosedRange to zero size''
      else if u = Byte then ret (closed (first_index r) (first_index r + sz - 1))
      else ret (closed (first_index r) (first_index r + sz * 8 - 1)))"

definition closed_shiftedByBits :: "RangeUnit \<Rightarrow> int \<Rightarrow> ClosedRange \<Rightarrow> ClosedRange" where
  "closed_shiftedByBits u off r =
     (let asBits = closed_toUnit u Bit r in closed (first_index asBits + off) (last_index asBits + off))"

definition closed_shiftedByBytes :: "RangeUnit \<Rightarrow> int \<Rightarrow> ClosedRange \<Rightarrow> ClosedRange" where
  "closed_shiftedByBytes u off r =
     (if u = Byte then closed (first_index r + off) (last_index r + off)
      else closed (first_index r + off * 8) (last_index r + off * 8))"

definition closed_isLoAligned :: "RangeUnit \<Rightarrow> ClosedRange \<Rightarrow> bool" where
  "closed_isLoAligned u r \<longleftrightarrow> (if u = Byte then True else moduloFloor (first_index r) 8 = 0)"

definition closed_isHiAligned :: "RangeUnit \<Rightarrow> ClosedRange \<Rightarrow> bool" where
  "closed_isHiAligned u r \<longleftrightarrow> (if u = Byte then True else moduloFloor (last_index r + 1) 8 = 0)"

definition closed_containsIndex :: "ClosedRange \<Rightarrow> int \<Rightarrow> bool" where
  "closed_containsIndex r i \<longleftrightarrow> i \<ge> first_index r \<and> i \<le> last_index r"

definition closed_intersectWith :: "ClosedRange \<Rightarrow> ClosedRange \<Rightarrow> HalfOpenRange" where
  "closed_intersectWith r a =
     intersectWith (half_open (first_index r) (last_index r + 1)) (half_open (first_index a) (last_index a + 1))"

definition closed_containsRange :: "ClosedRange \<Rightarrow> ClosedRange \<Rightarrow> bool" where
  "closed_containsRange r other \<longleftrightarrow>
     (let intersection = closed_intersectWith r other
      in lo intersection = first_index other \<and> range_size intersection = closed_size other)"

definition closed_overlaps :: "ClosedRange \<Rightarrow> ClosedRange \<Rightarrow> bool" where
  "closed_overlaps r a \<longleftrightarrow> \<not> range_empty (closed_intersectWith r a)"

definition closed_unionWith :: "ClosedRange \<Rightarrow> ClosedRange \<Rightarrow> ClosedRange" where
  "closed_unionWith r a = closed (min (first_index r) (first_index a)) (max (last_index r) (last_index a))"

text \<open>\<open>operator&=\<close> converts the half-open result back.\<close>

definition closed_intersect_assign :: "ClosedRange \<Rightarrow> ClosedRange \<Rightarrow> ClosedRange comp" where
  "closed_intersect_assign r a = closed_of_half_open (closed_intersectWith r a)"

definition closed_less :: "ClosedRange \<Rightarrow> ClosedRange \<Rightarrow> bool" where
  "closed_less r other \<longleftrightarrow>
     (if first_index r \<noteq> first_index other then first_index r < first_index other else last_index r < last_index other)"

definition closed_minus :: "ClosedRange \<Rightarrow> ClosedRange \<Rightarrow> HalfOpenRange \<times> HalfOpenRange" where
  "closed_minus left right = range_minus (toHalfOpenRange left) (toHalfOpenRange right)"

section \<open>Text\<close>

fun decimal_nat :: "nat \<Rightarrow> string" where
  "decimal_nat n = (if n < 10 then [char_of (48 + n)] else decimal_nat (n div 10) @ [char_of (48 + n mod 10)])"

definition decimal :: "int \<Rightarrow> string" where
  "decimal i = (if i < 0 then CHR ''-'' # decimal_nat (nat (- i)) else decimal_nat (nat i))"

definition toStream :: "RangeUnit \<Rightarrow> Endian \<Rightarrow> int \<Rightarrow> int \<Rightarrow> bool \<Rightarrow> string" where
  "toStream u ord l h is_closed =
     (let (l, h) = (if ord = Little then (h, l) else (l, h))
      in (case u of Bit \<Rightarrow> ''bit'' | Byte \<Rightarrow> ''byte'') @
         (if \<not> is_closed \<and> ord = Little then ''('' else ''['') @
         decimal l @ (if l \<noteq> h then ''..'' @ decimal h else '''') @
         (if \<not> is_closed \<and> ord = Network then '')'' else '']''))"

definition formatAsSlice :: "RangeUnit \<Rightarrow> Endian \<Rightarrow> int \<Rightarrow> ClosedRange \<Rightarrow> string comp" where
  "formatAsSlice u ord spaceSize r =
     bind_comp (closed_toOrder ord Little spaceSize r) (\<lambda>r.
       let l = (if u = Byte then first_index r * 8 else first_index r);
           h = (if u = Byte then last_index r * 8 + 7 else last_index r)
       in ret (''['' @ decimal h @ '':'' @ decimal l @ '']''))"

end
