(* ===== verification/BitRange_Props.thy ===== *)
theory BitRange_Props
  imports BitRange
begin

unbundle bit_operations_syntax

text \<open>
  Ranges are intervals of integers.  The operations on half-open ranges are the operations on intervals,
  the conversions of units and orders are the images of the indices, and closed ranges agree with the
  half-open ranges of the same elements.
\<close>

section \<open>Division\<close>

lemma divideFloor_pos: "0 < n \<Longrightarrow> divideFloor d n = d div n"
proof -
  assume n: "0 < n"
  have e: "d = n * (d sdiv n) + d smod n" by (metis sdiv_mult_smod_eq mult.commute)
  show ?thesis
  proof (cases "0 \<le> d")
    case True
    then have "0 \<le> d smod n" "d smod n < n" using n smod_int_compares(1,2) by auto
    then show ?thesis using int_div_pos_eq [OF e] n by (simp add: divideFloor_def Let_def)
  next
    case False
    then have r: "d smod n \<le> 0" "- n < d smod n" using n smod_int_compares(3,4) by auto
    show ?thesis
    proof (cases "d smod n = 0")
      case True
      then show ?thesis using int_div_pos_eq [OF e] n by (simp add: divideFloor_def Let_def)
    next
      case False
      have "d = n * (d sdiv n - 1) + (d smod n + n)" using e by (simp add: algebra_simps)
      from int_div_pos_eq [OF this] show ?thesis using r False n by (simp add: divideFloor_def Let_def)
    qed
  qed
qed

lemma moduloFloor_pos: "0 < n \<Longrightarrow> moduloFloor d n = d mod n"
proof -
  assume n: "0 < n"
  have e: "d = n * (d sdiv n) + d smod n" by (metis sdiv_mult_smod_eq mult.commute)
  show ?thesis
  proof (cases "0 \<le> d")
    case True
    then show ?thesis using n smod_mod_positive [of d n] by (simp add: moduloFloor_def modulo_def Let_def)
  next
    case False
    then have r: "d smod n \<le> 0" "- n < d smod n" using n smod_int_compares(3,4) by auto
    show ?thesis
    proof (cases "d smod n = 0")
      case True
      then have "d mod n = 0" using e by (metis add.right_neutral mod_mult_self1_is_0)
      then show ?thesis using True by (simp add: moduloFloor_def modulo_def Let_def)
    next
      case nz: False
      have "d = n * (d sdiv n - 1) + (d smod n + n)" using e by (simp add: algebra_simps)
      from int_mod_pos_eq [OF this] have "d mod n = d smod n + n" using r nz n by simp
      then show ?thesis using False nz n by (simp add: moduloFloor_def modulo_def Let_def)
    qed
  qed
qed

text \<open>For a power of two the shift and the mask of the compiled code give the same results.\<close>

lemma division_by_power_of_two:
  "divideFloor d (2 ^ k) = drop_bit k d" "moduloFloor d (2 ^ k) = d AND mask k"
  by (simp_all add: divideFloor_pos moduloFloor_pos drop_bit_eq_div take_bit_eq_mod flip: take_bit_eq_mask)

text \<open>The remainder for a negative divisor is not the one that goes with the quotient: it does not grow
  with the dividend.\<close>

lemma moduloFloor_negative:
  "divideFloor 6 (-8) = divideFloor 7 (-8) \<and> moduloFloor 6 (-8) = -6 \<and> moduloFloor 7 (-8) = -7"
  by (simp add: divideFloor_def moduloFloor_def modulo_def Let_def signed_divide_int_def signed_modulo_int_def)

section \<open>Half-open ranges\<close>

definition elems :: "HalfOpenRange \<Rightarrow> int set" where
  "elems r = {lo r ..< hi r}"

lemma half_open_sel [simp]: "lo (half_open l h) = l" "hi (half_open l h) = h"
  by (simp_all add: half_open_def)

lemma elems_half_open [simp]: "elems (half_open l h) = {l ..< h}"
  by (simp add: elems_def)

lemma empty_elems: "lo r \<le> hi r \<Longrightarrow> range_empty r \<longleftrightarrow> elems r = {}"
  by (auto simp: range_empty_def elems_def)

lemma elems_intersect: "elems (intersectWith r a) = elems r \<inter> elems a"
  by (auto simp: intersectWith_def Let_def elems_def)

lemma intersect_ordered: "lo (intersectWith r a) \<le> hi (intersectWith r a)"
  by (auto simp: intersectWith_def Let_def)

lemma equal_elems:
  assumes "lo r \<le> hi r" "lo a \<le> hi a"
  shows "range_equal r a \<longleftrightarrow> elems r = elems a"
proof (cases "range_empty r")
  case True
  then show ?thesis using empty_elems [OF assms(1)] empty_elems [OF assms(2)] by (auto simp: range_equal_def)
next
  case False
  then have "lo r < hi r" using assms(1) by (simp add: range_empty_def)
  then show ?thesis using False by (auto simp: range_equal_def elems_def set_eq_subset ivl_subset)
qed

lemma elems_union:
  assumes "lo r \<le> hi r" "lo a \<le> hi a"
  shows "elems r \<union> elems a \<subseteq> elems (unionWith r a) \<and>
    (\<forall>x y. elems r \<union> elems a \<subseteq> {x ..< y} \<longrightarrow> elems (unionWith r a) \<subseteq> {x ..< y})"
proof (cases "range_empty r \<or> range_empty a")
  case True
  then show ?thesis by (auto simp: unionWith_def elems_def range_empty_def)
next
  case False
  then have l: "lo r < hi r" "lo a < hi a" using assms by (simp_all add: range_empty_def)
  then have u: "elems (unionWith r a) = {min (lo r) (lo a) ..< max (hi r) (hi a)}"
    by (simp add: unionWith_def range_empty_def)
  have "{min (lo r) (lo a) ..< max (hi r) (hi a)} \<subseteq> {x ..< y}" if "elems r \<union> elems a \<subseteq> {x ..< y}" for x y
    using that l unfolding elems_def Un_subset_iff ivl_subset by linarith
  moreover have "elems r \<union> elems a \<subseteq> {min (lo r) (lo a) ..< max (hi r) (hi a)}"
    unfolding elems_def Un_subset_iff ivl_subset by linarith
  ultimately show ?thesis unfolding u by blast
qed

lemma elems_minus:
  assumes "lo r \<le> hi r" "lo a \<le> hi a" "range_minus r a = (lower, upper)"
  shows "elems lower \<union> elems upper = elems r - elems a \<and> (\<forall>x\<in>elems lower. \<forall>y\<in>elems upper. x < y)"
proof (cases "range_empty (intersectWith r a)")
  case True
  then have "elems r \<inter> elems a = {}" using empty_elems [OF intersect_ordered] elems_intersect by blast
  with assms(3) True show ?thesis by (auto simp: range_minus_def Let_def split: if_split_asm)
next
  case False
  then have i: "intersectWith r a = half_open (max (lo r) (lo a)) (min (hi r) (hi a))" "max (lo r) (lo a) < min (hi r) (hi a)"
    by (auto simp: intersectWith_def Let_def range_empty_def split: if_split_asm)
  with assms(3) False show ?thesis
    by (auto simp: range_minus_def Let_def half_open_FromTo_def elems_def split: if_split_asm)
qed

text \<open>C32: the operations on half-open ranges are those on intervals: intersection, the smallest interval
  around two ranges, subtraction with the lower part before the upper one, membership, inclusion, overlap
  and size.\<close>

theorem range_operations:
  assumes "lo r \<le> hi r" "lo a \<le> hi a"
  shows "elems (intersectWith r a) = elems r \<inter> elems a \<and>
    elems r \<union> elems a \<subseteq> elems (unionWith r a) \<and>
    (\<forall>x y. elems r \<union> elems a \<subseteq> {x ..< y} \<longrightarrow> elems (unionWith r a) \<subseteq> {x ..< y}) \<and>
    elems (fst (range_minus r a)) \<union> elems (snd (range_minus r a)) = elems r - elems a \<and>
    (\<forall>x\<in>elems (fst (range_minus r a)). \<forall>y\<in>elems (snd (range_minus r a)). x < y) \<and>
    (\<forall>i. containsIndex r i \<longleftrightarrow> i \<in> elems r) \<and> (containsRange r a \<longleftrightarrow> elems a \<subseteq> elems r) \<and>
    (overlaps r a \<longleftrightarrow> elems r \<inter> elems a \<noteq> {}) \<and> range_size r = int (card (elems r))"
proof -
  have c: "containsRange r a \<longleftrightarrow> elems a \<subseteq> elems r"
    unfolding containsRange_def equal_elems [OF intersect_ordered assms(2)] elems_intersect by blast
  have o: "overlaps r a \<longleftrightarrow> elems r \<inter> elems a \<noteq> {}"
    unfolding overlaps_def empty_elems [OF intersect_ordered] elems_intersect by blast
  have z: "range_size r = int (card (elems r))" using assms(1) by (simp add: range_size_def elems_def)
  have i: "\<forall>i. containsIndex r i \<longleftrightarrow> i \<in> elems r" by (auto simp: containsIndex_def elems_def)
  note u = elems_union [OF assms] and m = elems_minus [OF assms prod.collapse [symmetric]]
  show ?thesis
    using c o z i u m elems_intersect [of r a] by (intro conjI) (elim conjE, assumption)+
qed

theorem range_operations_witness:
  "elems (fst (range_minus (half_open 0 10) (half_open 3 5))) \<union> elems (snd (range_minus (half_open 0 10) (half_open 3 5))) =
     {0 ..< 10} - {3 ..< 5}"
  using range_operations [of "half_open 0 10" "half_open 3 5"] by simp


section \<open>Units and orders\<close>

lemma bytes_of_bits:
  fixes l h :: int
  assumes "l < h"
  shows "{l div 8 ..< (h - 1) div 8 + 1} = (\<lambda>i. i div 8) ` {l ..< h}"
proof (intro equalityI subsetI)
  fix b
  assume b: "b \<in> {l div 8 ..< (h - 1) div 8 + 1}"
  show "b \<in> (\<lambda>i. i div 8) ` {l ..< h}"
  proof (cases "8 * b \<le> l")
    case True
    then have "l div 8 = b" using b by auto
    then show ?thesis using assms by auto
  next
    case False
    then have "8 * b \<in> {l ..< h}" using b by auto
    then show ?thesis by (intro image_eqI [of _ _ "8 * b"]) simp_all
  qed
next
  fix b
  assume "b \<in> (\<lambda>i. i div 8) ` {l ..< h}"
  then show "b \<in> {l div 8 ..< (h - 1) div 8 + 1}" by (auto simp: zdiv_mono1)
qed

lemma in_bytes: "i div 8 \<in> {l ..< h} \<longleftrightarrow> i \<in> {l * 8 ..< h * 8}" for i l h :: int
  by (auto; presburger)

lemma elems_toUnit:
  assumes "lo r \<le> hi r"
  shows "elems (toUnit Bit Byte r) = (\<lambda>i. i div 8) ` elems r" "elems (toUnit Byte Bit r) = {i. i div 8 \<in> elems r}"
proof -
  show "elems (toUnit Bit Byte r) = (\<lambda>i. i div 8) ` elems r"
  proof (cases "lo r = hi r")
    case True
    then show ?thesis by (simp add: toUnit_def range_empty_def elems_def)
  next
    case False
    then have "lo r < hi r" using assms by simp
    with bytes_of_bits [OF this] show ?thesis
      by (simp add: toUnit_def range_empty_def elems_def loByte_def nextByte_def hiByte_def divideFloor_pos)
  qed
  show "elems (toUnit Byte Bit r) = {i. i div 8 \<in> elems r}"
  proof (cases "lo r = hi r")
    case True
    then show ?thesis by (simp add: toUnit_def range_empty_def elems_def)
  next
    case False
    then show ?thesis
      unfolding elems_def in_bytes Collect_mem_eq by (simp add: toUnit_def range_empty_def)
  qed
qed

lemma mirror_interval: "(\<lambda>i. n - 1 - i) ` {l ..< h} = {n - h ..< n - l}" for n l h :: int
proof (intro equalityI subsetI)
  fix x
  assume "x \<in> {n - h ..< n - l}"
  then show "x \<in> (\<lambda>i. n - 1 - i) ` {l ..< h}" by (intro image_eqI [of _ _ "n - 1 - x"]) simp_all
next
  fix x
  assume "x \<in> (\<lambda>i. n - 1 - i) ` {l ..< h}"
  then obtain i where "x = n - 1 - i" "l \<le> i" "i < h" by (elim imageE) simp
  then show "x \<in> {n - h ..< n - l}" by simp
qed

lemma elems_toOrder: "ord \<noteq> dest \<Longrightarrow> elems (toOrder ord dest n r) = (\<lambda>i. n - 1 - i) ` elems r"
  unfolding elems_def [of r] mirror_interval by (auto simp: toOrder_def)

text \<open>Converting a range of bits to bytes gives the bytes of its bits, converting bytes to bits gives all
  their bits and is undone by the conversion back; a range of bits comes back from bytes exactly when both
  of its ends are aligned.  Changing the order mirrors the indices in the space, twice is the identity.\<close>

lemma range_conversions:
  assumes "lo r \<le> hi r"
  shows "elems (toUnit Bit Byte r) = (\<lambda>i. i div 8) ` elems r \<and>
    elems (toUnit Byte Bit r) = {i. i div 8 \<in> elems r} \<and>
    range_equal (toUnit Bit Byte (toUnit Byte Bit r)) r \<and>
    (range_equal (toUnit Byte Bit (toUnit Bit Byte r)) r \<longleftrightarrow> isLoAligned Bit r \<and> isHiAligned Bit r) \<and>
    elems (toOrder Network Little n r) = (\<lambda>i. n - 1 - i) ` elems r \<and>
    toOrder Little Network n (toOrder Network Little n r) = r"
proof (intro conjI elems_toUnit assms elems_toOrder)
  have d: "(h * 8 - 1) div 8 + 1 = h" for h :: int by presburger
  show "range_equal (toUnit Bit Byte (toUnit Byte Bit r)) r"
    by (cases "lo r = hi r")
      (simp_all add: toUnit_def range_empty_def range_equal_def loByte_def nextByte_def hiByte_def divideFloor_pos d)
  show "range_equal (toUnit Byte Bit (toUnit Bit Byte r)) r \<longleftrightarrow> isLoAligned Bit r \<and> isHiAligned Bit r"
  proof (cases "lo r = hi r")
    case True
    then show ?thesis by (simp add: toUnit_def range_empty_def range_equal_def isLoAligned_def isHiAligned_def)
  next
    case False
    let ?l = "lo r div 8" and ?h = "(hi r - 1) div 8 + 1"
    have n: "?l \<noteq> ?h" using assms False zdiv_mono1 [of "lo r" "hi r - 1" 8] by simp
    have "toUnit Byte Bit (toUnit Bit Byte r) = half_open (?l * 8) (?h * 8)"
      using False n by (simp add: toUnit_def range_empty_def loByte_def nextByte_def hiByte_def divideFloor_pos)
    then have "range_equal (toUnit Byte Bit (toUnit Bit Byte r)) r \<longleftrightarrow> lo r = ?l * 8 \<and> hi r = ?h * 8"
      using n by (simp add: range_equal_def range_empty_def)
    also have "\<dots> \<longleftrightarrow> lo r mod 8 = 0 \<and> hi r mod 8 = 0" by presburger
    finally show ?thesis using False by (simp add: isLoAligned_def isHiAligned_def range_empty_def moduloFloor_pos)
  qed
  show "toOrder Little Network n (toOrder Network Little n r) = r" by (simp add: toOrder_def half_open_def)
qed simp

lemma range_conversions_witness:
  "elems (toUnit Bit Byte (half_open (-3) 12)) = (\<lambda>i. i div 8) ` {-3 ..< 12} \<and> toUnit Bit Byte (half_open (-3) 12) = half_open (-1) 2"
  using range_conversions [of "half_open (-3) 12" 0]
  by (simp add: toUnit_def range_empty_def loByte_def nextByte_def hiByte_def divideFloor_pos)

section \<open>Closed ranges\<close>

lemma toHalfOpen_elems: "elems (toHalfOpenRange c) = {first_index c .. last_index c}"
  by (auto simp: toHalfOpenRange_def)

lemma closed_sel [simp]: "first_index (closed l h) = l" "last_index (closed l h) = h"
  by (simp_all add: closed_def)

text \<open>The operations on closed ranges are those on the half-open ranges of the same elements.\<close>

lemma closed_half_open:
  assumes "first_index c \<le> last_index c" "first_index d \<le> last_index d"
  shows "closed_intersectWith c d = intersectWith (toHalfOpenRange c) (toHalfOpenRange d)"
    "closed_overlaps c d = overlaps (toHalfOpenRange c) (toHalfOpenRange d)"
    "closed_size c = range_size (toHalfOpenRange c)"
    "toHalfOpenRange (closed_unionWith c d) = unionWith (toHalfOpenRange c) (toHalfOpenRange d)"
    "toHalfOpenRange (closed_toUnit u v c) = toUnit u v (toHalfOpenRange c)"
    "0 < n \<Longrightarrow> closed_toOrder ord dest n c = ret e \<Longrightarrow> toHalfOpenRange e = toOrder ord dest n (toHalfOpenRange c)"
    "closed_containsRange c d = containsRange (toHalfOpenRange c) (toHalfOpenRange d)"
    "toClosedRange (toHalfOpenRange c) = Some c"
proof -
  show "closed_intersectWith c d = intersectWith (toHalfOpenRange c) (toHalfOpenRange d)"
    by (simp add: closed_intersectWith_def toHalfOpenRange_def)
  then show "closed_overlaps c d = overlaps (toHalfOpenRange c) (toHalfOpenRange d)"
    by (simp add: closed_overlaps_def overlaps_def)
  show "closed_size c = range_size (toHalfOpenRange c)" by (simp add: closed_size_def range_size_def toHalfOpenRange_def)
  show "toHalfOpenRange (closed_unionWith c d) = unionWith (toHalfOpenRange c) (toHalfOpenRange d)"
    using assms by (auto simp: closed_unionWith_def unionWith_def toHalfOpenRange_def range_empty_def max_def half_open_def)
  show "toHalfOpenRange (closed_toUnit u v c) = toUnit u v (toHalfOpenRange c)"
    using assms by (cases u; cases v)
      (auto simp: closed_toUnit_def toUnit_def toHalfOpenRange_def range_empty_def closed_loByte_def closed_hiByte_def
        loByte_def nextByte_def hiByte_def half_open_def)
  show "toHalfOpenRange e = toOrder ord dest n (toHalfOpenRange c)" if "0 < n" "closed_toOrder ord dest n c = ret e"
    using that by (auto simp: closed_toOrder_def toOrder_def toHalfOpenRange_def half_open_def split: if_split_asm)
  show "closed_containsRange c d = containsRange (toHalfOpenRange c) (toHalfOpenRange d)"
    using assms by (auto simp: closed_containsRange_def containsRange_def closed_intersectWith_def toHalfOpenRange_def
        range_equal_def range_empty_def range_size_def closed_size_def intersectWith_def Let_def half_open_def)
  show "toClosedRange (toHalfOpenRange c) = Some c"
    using assms by (simp add: toClosedRange_def toHalfOpenRange_def range_empty_def closed_def)
qed

end
