(* ===== verification/BitRange_Iter.thy ===== *)
theory BitRange_Iter
  imports BitRange BitVec_Ops
begin

text \<open>
  The iterator \<open>bitranges\<close> of lib/bitrange.h over the contiguous ranges of a bit vector.  It is read off
  the iterator of the bit vector, whose index is -1 at the end.
\<close>

section \<open>The iterator\<close>

record ranges_iter =
  it_valid :: bool
  it_ptr :: int
  it_range :: "int \<times> int"

text \<open>\<open>bitref::operator bool\<close>: the index -1 is beyond every vector.\<close>

definition bitref_bool :: "bitvec \<Rightarrow> int \<Rightarrow> bool" where
  "bitref_bool v p \<longleftrightarrow> 0 \<le> p \<and> getbit v (nat p)"

text \<open>The loop of \<open>operator++\<close>.\<close>

function extend_range :: "bitvec \<Rightarrow> int \<Rightarrow> int \<Rightarrow> int \<times> int" where
  "extend_range v snd_i p =
     (let q = bitref_next v p
      in if bitref_bool v q \<and> snd_i + 1 = q then extend_range v (snd_i + 1) q else (snd_i, q))"
  by auto
termination
  by (relation "measure (\<lambda>(v, snd_i, p). nat (64 * int (length v) - snd_i))")
    (auto simp: bitref_bool_def dest!: getbit_length)

declare extend_range.simps [simp del]

definition iter_incr :: "bitvec \<Rightarrow> ranges_iter \<Rightarrow> ranges_iter" where
  "iter_incr v it =
     (if bitref_bool v (it_ptr it) then
        let (snd_i, p) = extend_range v (it_ptr it) (it_ptr it)
        in it\<lparr>it_ptr := p, it_range := (it_ptr it, snd_i)\<rparr>
      else it\<lparr>it_valid := False\<rparr>)"

definition iter_make :: "bitvec \<Rightarrow> int \<Rightarrow> ranges_iter" where
  "iter_make v p = iter_incr v \<lparr>it_valid = True, it_ptr = p, it_range = (0, 0)\<rparr>"

definition iter_eq :: "ranges_iter \<Rightarrow> ranges_iter \<Rightarrow> bool" where
  "iter_eq it a \<longleftrightarrow> it_valid it = it_valid a \<and> it_ptr it = it_ptr a"

text \<open>The loop \<open>for (auto br : bitranges(v))\<close>.\<close>

partial_function (option) ranges_loop :: "bitvec \<Rightarrow> ranges_iter \<Rightarrow> (int \<times> int) list option" where
  "ranges_loop v it =
     (if iter_eq it (iter_make v (- 1)) then Some []
      else Option.bind (ranges_loop v (iter_incr v it)) (\<lambda>rs. Some (it_range it # rs)))"

definition bitranges :: "bitvec \<Rightarrow> (int \<times> int) list option" where
  "bitranges v = ranges_loop v (iter_make v (min_index v))"

section \<open>The ranges\<close>

lemma first_bit_cases:
  assumes "first_bit P n p"
  obtains "p = -1" "\<forall>i\<ge>n. \<not> P i" | m where "p = int m" "n \<le> m" "P m" "\<forall>i. n \<le> i \<and> i < m \<longrightarrow> \<not> P i"
  using assms by (auto simp: first_bit_def)

lemma bitref_bool_first: "first_bit (getbit v) n p \<Longrightarrow> bitref_bool v p \<longleftrightarrow> p \<noteq> -1"
  by (auto simp: first_bit_def bitref_bool_def)

lemma extend_range_spec:
  "getbit v l \<Longrightarrow> \<exists>h q. extend_range v (int l) (int l) = (int h, q) \<and> l \<le> h \<and>
     (\<forall>i. l \<le> i \<and> i \<le> h \<longrightarrow> getbit v i) \<and> first_bit (getbit v) (Suc (Suc h)) q \<and> \<not> getbit v (Suc h)"
proof (induction "64 * length v - l" arbitrary: l rule: less_induct)
  case less
  let ?q = "bitref_next v (int l)"
  have f: "first_bit (getbit v) (Suc l) ?q" using bitref_next_first [of "int l" v] by (simp add: nat_add_distrib)
  show ?case
  proof (cases "getbit v (Suc l)")
    case True
    with f have q: "?q = int (Suc l)" by (elim first_bit_cases) (auto simp: le_less)
    have "64 * length v - Suc l < 64 * length v - l" using getbit_length [OF less(2)] by simp
    from less(1) [OF this True] obtain h q where h: "extend_range v (int (Suc l)) (int (Suc l)) = (int h, q)" "Suc l \<le> h"
      "\<forall>i. Suc l \<le> i \<and> i \<le> h \<longrightarrow> getbit v i" "first_bit (getbit v) (Suc (Suc h)) q" "\<not> getbit v (Suc h)" by blast
    have "extend_range v (int l) (int l) = (int h, q)"
      using q True h(1) by (subst extend_range.simps) (simp add: bitref_bool_def add.commute nat_add_distrib)
    moreover have "getbit v i" if "l \<le> i" "i \<le> h" for i using that h(3) less(2) by (cases "i = l") auto
    ultimately show ?thesis using h by (intro exI [of _ h] exI [of _ q]) auto
  next
    case False
    have n: "first_bit (getbit v) (Suc (Suc l)) ?q"
      using f False unfolding first_bit_def by (metis Suc_leD Suc_leI le_less)
    have "?q \<noteq> int l + 1" using n by (auto simp: first_bit_def)
    then have "extend_range v (int l) (int l) = (int l, ?q)" by (subst extend_range.simps) (simp add: Let_def)
    then show ?thesis using n False less(2) by (intro exI [of _ l] exI [of _ ?q]) (auto simp: le_antisym)
  qed
qed

definition range_bits :: "(int \<times> int) list \<Rightarrow> nat set" where
  "range_bits rs = (\<Union>(a, b)\<in>set rs. {nat a .. nat b})"

text \<open>The ranges in ascending order, none empty and with a gap after each.\<close>

definition separated :: "(int \<times> int) list \<Rightarrow> bool" where
  "separated rs \<longleftrightarrow> sorted_wrt (\<lambda>r s. snd r + 1 < fst s) rs \<and> (\<forall>r\<in>set rs. 0 \<le> fst r \<and> fst r \<le> snd r)"

lemma ranges_loop_spec:
  "first_bit (getbit v) n p \<Longrightarrow>
     \<exists>rs. ranges_loop v (iter_incr v \<lparr>it_valid = True, it_ptr = p, it_range = r\<rparr>) = Some rs \<and>
       range_bits rs = {i. n \<le> i \<and> getbit v i} \<and> separated rs \<and> (\<forall>r\<in>set rs. int n \<le> fst r)"
proof (induction "64 * length v - n" arbitrary: n p r rule: less_induct)
  case less
  have e: "iter_make v (-1) = \<lparr>it_valid = False, it_ptr = -1, it_range = (0, 0)\<rparr>"
    by (simp add: iter_make_def iter_incr_def bitref_bool_def)
  from less(2) show ?case
  proof (cases rule: first_bit_cases)
    case 1
    then have "ranges_loop v (iter_incr v \<lparr>it_valid = True, it_ptr = p, it_range = r\<rparr>) = Some []"
      by (subst ranges_loop.simps) (simp add: iter_incr_def bitref_bool_def iter_eq_def e)
    then show ?thesis using 1 by (simp add: range_bits_def separated_def)
  next
    case (2 l)
    obtain h q where h: "extend_range v (int l) (int l) = (int h, q)" "l \<le> h" "\<forall>i. l \<le> i \<and> i \<le> h \<longrightarrow> getbit v i"
      "first_bit (getbit v) (Suc (Suc h)) q" "\<not> getbit v (Suc h)" using extend_range_spec [OF 2(3)] by blast
    have "64 * length v - Suc (Suc h) < 64 * length v - n" using getbit_length [OF 2(3)] 2(2) h(2) by simp
    from less(1) [OF this h(4)] obtain rs where rs:
      "ranges_loop v (iter_incr v \<lparr>it_valid = True, it_ptr = q, it_range = (int l, int h)\<rparr>) = Some rs"
      "range_bits rs = {i. Suc (Suc h) \<le> i \<and> getbit v i}" "separated rs" "\<forall>r\<in>set rs. int (Suc (Suc h)) \<le> fst r" by blast
    have "iter_incr v \<lparr>it_valid = True, it_ptr = p, it_range = r\<rparr> = \<lparr>it_valid = True, it_ptr = q, it_range = (int l, int h)\<rparr>"
      using 2(1,3) h(1) by (simp add: iter_incr_def bitref_bool_def)
    then have "ranges_loop v (iter_incr v \<lparr>it_valid = True, it_ptr = p, it_range = r\<rparr>) = Some ((int l, int h) # rs)"
      using rs(1) by (subst ranges_loop.simps) (simp add: iter_eq_def e)
    moreover have "range_bits ((int l, int h) # rs) = {i. n \<le> i \<and> getbit v i}"
    proof (intro set_eqI)
      fix i
      consider "i < l" | "l \<le> i" "i \<le> h" | "i = Suc h" | "Suc (Suc h) \<le> i" by linarith
      then show "i \<in> range_bits ((int l, int h) # rs) \<longleftrightarrow> i \<in> {i. n \<le> i \<and> getbit v i}"
        using 2(2,4) h(2,3,5) rs(2) by cases (auto simp: range_bits_def)
    qed
    moreover have "separated ((int l, int h) # rs)" using rs(3,4) h(2) by (auto simp: separated_def)
    ultimately show ?thesis using rs(4) 2(2) h(2) by (intro exI [of _ "(int l, int h) # rs"]) auto
  qed
qed

text \<open>C33: the loop over the ranges of a bit vector ends; its ranges have the bits of the vector and are
  maximal: they are in ascending order with at least one clear bit between two of them.\<close>

theorem bitranges_spec: "\<exists>rs. bitranges v = Some rs \<and> range_bits rs = {i. getbit v i} \<and> separated rs"
  using ranges_loop_spec [of v 0 "min_index v" "(0, 0)"] bv_ffs_first [of v 0]
  by (auto simp: bitranges_def iter_make_def min_index_def)

end
