(* ===== verification/TypeCheck.thy ===== *)
theory TypeCheck
  imports TypeConstraints ConstFold
begin

text \<open>
  Type checking of expressions (frontends/p4/typeChecking/typeCheckExpr.cpp and typeChecker.cpp): the
  visitor computes the type of each node from the types of its children, inserts the casts that the
  language leaves implicit, folds operations on integers of arbitrary precision and keeps the sets of
  compile-time constants and of left values of the type map.

  A checked expression is the expression the visitor returns, with the types recorded on its nodes,
  and its entries in the type map.  A node without a type is one for which an error was reported: the code
  returns it in silence when \<open>errorCount()\<close> is positive and hits a BUG otherwise (\<open>getType\<close>), so the checker
  counts the errors as it goes along.
  Unification is that of \<open>TypeConstraints\<close>: the types of expressions are embedded in the types it works
  on, where each occurrence of \<open>int\<close> is a variable of its own.

  Calls, structure expressions and header stacks are checked elsewhere: here they have the type that
  is recorded on them.  The second check of a folded expression (\<open>learn\<close>) and the texts of the messages
  are left out.
\<close>

section \<open>The state of the checker\<close>

datatype tdecl =
    Variable p4type
  | Parameter dir p4type
  | ConstantDecl p4type
  | InstanceDecl p4type
  | IdDecl p4type
  | ParserState
  | TableDecl string p4type
  | TypeDecl
  | OtherDecl p4type

record tc_env =
  folder :: cf_env
  getDeclaration :: "string \<Rightarrow> tdecl option"
  unifying :: unify_env
  readOnly :: bool
  checkArrays :: bool
  errorOnNullDecls :: bool
  inParser :: bool
  currentTable :: "string option"
  errorsSoFar :: nat

record checked =
  node :: expr
  typeOf :: "p4type option"
  isConst :: bool
  isLeft :: bool

definition untyped :: "expr \<Rightarrow> checked" where
  "untyped e = \<lparr>node = e, typeOf = None, isConst = False, isLeft = False\<rparr>"

abbreviation typeError :: "'a \<Rightarrow> 'a comp" where
  "typeError x \<equiv> report (Error ERR_TYPE_ERROR) x"

text \<open>Going on after a step that reports an error by \<open>None\<close>.\<close>

definition bind_some :: "'a option comp \<Rightarrow> 'b \<Rightarrow> ('a \<Rightarrow> 'b comp) \<Rightarrow> 'b comp" where
  "bind_some m d f = bind_comp m (\<lambda>r. case r of None \<Rightarrow> ret d | Some x \<Rightarrow> f x)"

lemma bind_some_cong [fundef_cong]:
  "m = m' \<Longrightarrow> d = d' \<Longrightarrow> (\<And>ds x. m' = Ok ds (Some x) \<Longrightarrow> f x = g x) \<Longrightarrow> bind_some m d f = bind_some m' d' g"
  unfolding bind_some_def by (intro bind_comp_cong) (auto split: option.split)

text \<open>\<open>counted env m f\<close> goes on with \<open>f\<close> in an environment that has counted the errors of \<open>m\<close>.\<close>

definition counted :: "tc_env \<Rightarrow> 'a comp \<Rightarrow> (tc_env \<Rightarrow> 'a \<Rightarrow> 'b comp) \<Rightarrow> 'b comp" where
  "counted env m f =
     (case m of
        Bug e \<Rightarrow> Bug e
      | Ok ds x \<Rightarrow> bind_comp m (f (env\<lparr>errorsSoFar := errorsSoFar env + errorCount ds\<rparr>)))"

lemma counted_cong [fundef_cong]:
  "env = env' \<Longrightarrow> m = m' \<Longrightarrow> (\<And>env ds x. m' = Ok ds x \<Longrightarrow> f env x = g env x) \<Longrightarrow> counted env m f = counted env' m' g"
  by (cases m') (simp_all add: counted_def)

lemma counted_ret [simp]: "counted env (ret x) f = f env x"
  by (cases "f env x") (simp_all add: counted_def)

text \<open>\<open>getType\<close> of a node that has none.\<close>

definition no_type :: "tc_env \<Rightarrow> checked \<Rightarrow> checked comp" where
  "no_type env r = (if errorsSoFar env = 0 then Bug ''Could not find type of'' else ret r)"

definition absent :: "tc_env \<Rightarrow> expr \<Rightarrow> checked comp" where
  "absent env e = no_type env (untyped e)"

definition reject :: "expr \<Rightarrow> checked comp" where
  "reject e = typeError (untyped e)"

definition typed_node :: "expr \<Rightarrow> p4type \<Rightarrow> bool \<Rightarrow> bool \<Rightarrow> checked comp" where
  "typed_node e t c l = ret \<lparr>node = e, typeOf = Some t, isConst = c, isLeft = l\<rparr>"

text \<open>\<open>getTypeType\<close> of the type below a serializable enum.\<close>

fun to_SerEnum :: "p4type \<Rightarrow> p4type option" where
  "to_SerEnum (Type_SerEnum n t ms) = Some t"
| "to_SerEnum t = None"

definition strip_SerEnum :: "p4type \<Rightarrow> p4type" where
  "strip_SerEnum t = (case to_SerEnum t of Some u \<Rightarrow> u | None \<Rightarrow> t)"

definition constantFold :: "tc_env \<Rightarrow> expr \<Rightarrow> expr comp" where
  "constantFold env e = (if readOnly env then ret e else fold_expr (folder env) False e)"

text \<open>The result of folder is a compile-time constant for the checker.\<close>

definition folded :: "tc_env \<Rightarrow> expr \<Rightarrow> checked comp" where
  "folded env e = bind_comp (constantFold env e) (\<lambda>r. typed_node r (type_of r) True False)"

section \<open>Unification of the types of expressions\<close>

text \<open>The occurrences of \<open>int\<close> are numbered from left to right.\<close>

fun embed :: "nat \<Rightarrow> p4type \<Rightarrow> utype \<times> nat"
  and embeds :: "nat \<Rightarrow> p4type list \<Rightarrow> utype list \<times> nat"
  and embed_fields :: "nat \<Rightarrow> (string \<times> p4type) list \<Rightarrow> (string \<times> utype) list \<times> nat" where
  "embed n Type_Unknown = (Base TypeUnify.Type_Unknown, n)"
| "embed n Type_Boolean = (Base TypeUnify.Type_Boolean, n)"
| "embed n Type_String = (Base TypeUnify.Type_String, n)"
| "embed n Type_InfInt = (TV (TypeUnify.Type_InfInt n), Suc n)"
| "embed n (Type_Bits w s) = (Base (TypeUnify.Type_Bits (nat w) s), n)"
| "embed n (Type_Varbits w) = (Base (TypeUnify.Type_Varbits (nat w)), n)"
| "embed n Type_Error = (TypeUnify.Type_Error, n)"
| "embed n Type_MatchKind = (Base TypeUnify.Type_MatchKind, n)"
| "embed n (Type_Enum name ms) = (TypeUnify.Type_Enum name, n)"
| "embed n (Type_SerEnum name t ms) = (let (u, k) = embed n t in (TypeUnify.Type_SerEnum name u, k))"
| "embed n (Type_Struct name fs) = (let (us, k) = embed_fields n fs in (StructLike TypeUnify.Type_Struct name us, k))"
| "embed n (Type_Header name fs) = (let (us, k) = embed_fields n fs in (StructLike TypeUnify.Type_Header name us, k))"
| "embed n (Type_Stack t sz) = (let (u, k) = embed n t in (TypeUnify.Type_Stack u (nat sz), k))"
| "embed n (Type_List ts) = (let (us, k) = embeds n ts in (TypeUnify.Type_List us, k))"
| "embed n (Type_Set t) = (let (u, k) = embed n t in (TypeUnify.Type_Set u, k))"
| "embed n (Type_Newtype name t) = (let (u, k) = embed n t in (TypeUnify.Type_Newtype name u, k))"
| "embed n (Type_Name name) = (Type_Extern name, n)"
| "embed n (Type_Other name) = (Type_Extern name, n)"
| "embeds n [] = ([], n)"
| "embeds n (t # ts) = (let (u, k) = embed n t; (us, m) = embeds k ts in (u # us, m))"
| "embed_fields n [] = ([], n)"
| "embed_fields n ((f, t) # fs) = (let (u, k) = embed n t; (us, m) = embed_fields k fs in ((f, u) # us, m))"

definition p4_equivalent :: "tc_env \<Rightarrow> p4type \<Rightarrow> p4type \<Rightarrow> bool comp" where
  "p4_equivalent env l r =
     (let (u, k) = embed 0 l; (v, m) = embed k r
      in case equivalent u (strictStruct (unifying env)) False v of
           None \<Rightarrow> Bug ''Unexpected type check for equivalence''
         | Some b \<Rightarrow> ret b)"

text \<open>\<open>unifyBase\<close>: \<open>None\<close> after an error.  The types contain no variables but the integers, so the solver
  returns; that it might not is the last case.\<close>

definition unifyBase :: "tc_env \<Rightarrow> bool \<Rightarrow> p4type \<Rightarrow> p4type \<Rightarrow> binding option comp" where
  "unifyBase env allowCasts destType srcType =
     (let (dest, k) = embed 0 destType; (src, m) = embed k srcType
      in if src = dest then ret (Some [])
         else case solve (unifying env)
                \<lparr>unifiable = {}, pending = [Constraint allowCasts dest src], definedVariables = [], currentSubstitution = []\<rparr> of
                Some res \<Rightarrow> bind_comp res (\<lambda>s. ret (map_option currentSubstitution s))
              | None \<Rightarrow> Bug ''unification does not return'')"

text \<open>\<open>ConstantTypeSubstitution\<close>: the constants of the expression whose type is a variable bound by the
  substitution get the type that replaces it.  The number is that of the first occurrence of \<open>int\<close> in
  the type of the expression.\<close>

fun follow :: "nat \<Rightarrow> binding \<Rightarrow> utype \<Rightarrow> utype comp" where
  "follow 0 tvs repl = Bug ''Cycle in substitutions''"
| "follow (Suc n) tvs repl =
     (case repl of
        TV v \<Rightarrow> (case map_of tvs v of None \<Rightarrow> ret repl
                 | Some next \<Rightarrow> if next = repl then Bug ''Cycle in substitutions'' else follow n tvs next)
      | _ \<Rightarrow> ret repl)"

fun p4_of :: "utype \<Rightarrow> p4type" where
  "p4_of (TV (TypeUnify.Type_InfInt i)) = Type_InfInt"
| "p4_of (Base (TypeUnify.Type_Bits w s)) = Type_Bits (int w) s"
| "p4_of t = Type_Other ''type''"

definition convert_constant :: "binding \<Rightarrow> nat \<Rightarrow> int \<Rightarrow> nat \<Rightarrow> expr comp" where
  "convert_constant tvs n value base =
     bind_comp (follow (Suc (length tvs)) tvs (TV (TypeUnify.Type_InfInt n))) (\<lambda>repl.
       if repl = TV (TypeUnify.Type_InfInt n) then ret (Constant Type_InfInt value base)
       else mk_constant (p4_of repl) value base False)"

fun convert :: "binding \<Rightarrow> nat \<Rightarrow> expr \<Rightarrow> (expr \<times> nat) comp"
  and converts :: "binding \<Rightarrow> nat \<Rightarrow> expr list \<Rightarrow> (expr list \<times> nat) comp" where
  "convert tvs n (Constant Type_InfInt v b) =
     bind_comp (convert_constant tvs n v b) (\<lambda>c. ret (c, Suc n))"
| "convert tvs n (ListExpression t es) =
     bind_comp (converts tvs n es) (\<lambda>(es', k). ret (ListExpression (Type_List (map type_of es')) es', k))"
| "convert tvs n e = ret (e, snd (embed n (type_of e)))"
| "converts tvs n [] = ret ([], n)"
| "converts tvs n (e # es) =
     bind_comp (convert tvs n e) (\<lambda>(e', k). bind_comp (converts tvs k es) (\<lambda>(es', m). ret (e' # es', m)))"

text \<open>Unification of two expressions, which are converted unless the substitution is the identity.\<close>

definition unify_convert :: "tc_env \<Rightarrow> p4type \<Rightarrow> p4type \<Rightarrow> expr \<Rightarrow> expr \<Rightarrow> (expr \<times> expr) option comp" where
  "unify_convert env destType srcType dest src =
     bind_comp (unifyBase env False destType srcType) (\<lambda>res.
       case res of
         None \<Rightarrow> ret None
       | Some tvs \<Rightarrow>
           if tvs = [] then ret (Some (dest, src))
           else bind_comp (convert tvs 0 dest) (\<lambda>(dest', _).
                bind_comp (convert tvs (snd (embed 0 destType)) src) (\<lambda>(src', _). ret (Some (dest', src')))))"

section \<open>Leaves\<close>

definition postorder_Constant :: "p4type \<Rightarrow> int \<Rightarrow> nat \<Rightarrow> checked comp" where
  "postorder_Constant t v b =
     (if t = Type_Unknown then Bug ''Could not find type'' else typed_node (Constant t v b) t True False)"

definition postorder_BoolLiteral :: "bool \<Rightarrow> checked comp" where
  "postorder_BoolLiteral b = typed_node (BoolLiteral b) Type_Boolean True False"

definition postorder_StringLiteral :: "string \<Rightarrow> checked comp" where
  "postorder_StringLiteral s = typed_node (StringLiteral s) Type_String True False"

text \<open>A type used as an expression has a type that no operation accepts.  \<open>Type_Unknown\<close> stands for a name
  to which no type was given.\<close>

definition postorder_TypeNameExpression :: "tc_env \<Rightarrow> p4type \<Rightarrow> checked comp" where
  "postorder_TypeNameExpression env t =
     (if t = Type_Unknown then absent env (TypeNameExpression t)
      else typed_node (TypeNameExpression t) (Type_Other ''type'') True False)"

definition postorder_DefaultExpression :: "checked comp" where
  "postorder_DefaultExpression = typed_node (DefaultExpression (Type_Other ''dontcare'')) (Type_Other ''dontcare'') True False"

text \<open>A path gets the type of its declaration.  A declaration without a type (\<open>Type_Unknown\<close>) is one that was
  rejected: the path has none either, but is in the sets of constants or left values already.\<close>

definition path_node :: "tc_env \<Rightarrow> p4type \<Rightarrow> string \<Rightarrow> p4type \<Rightarrow> bool \<Rightarrow> bool \<Rightarrow> checked comp" where
  "path_node env t0 p t c l =
     (if t = Type_Unknown then no_type env \<lparr>node = PathExpression t0 p, typeOf = None, isConst = c, isLeft = l\<rparr>
      else typed_node (PathExpression t p) t c l)"

definition postorder_PathExpression :: "tc_env \<Rightarrow> p4type \<Rightarrow> string \<Rightarrow> checked comp" where
  "postorder_PathExpression env t0 p =
     (let e = PathExpression t0 p
      in case getDeclaration env p of
           None \<Rightarrow> if errorOnNullDecls env then reject e else Bug ''null declaration''
         | Some (TableDecl name t) \<Rightarrow>
             if currentTable env = Some name then reject e else path_node env t0 p t False False
         | Some ParserState \<Rightarrow> typed_node (PathExpression (Type_Other ''state'') p) (Type_Other ''state'') False False
         | Some (Variable t) \<Rightarrow> path_node env t0 p t False True
         | Some (Parameter d t) \<Rightarrow> path_node env t0 p t (d = DirNone) (d = DirInOut \<or> d = DirOut)
         | Some (ConstantDecl t) \<Rightarrow> path_node env t0 p t True False
         | Some (InstanceDecl t) \<Rightarrow> path_node env t0 p t True False
         | Some (IdDecl t) \<Rightarrow> path_node env t0 p t (t = Type_Error \<or> t = Type_MatchKind) False
         | Some TypeDecl \<Rightarrow> reject e
         | Some (OtherDecl t) \<Rightarrow> path_node env t0 p t False False)"

text \<open>What another part of the checker has put into the type map.\<close>

definition checked_elsewhere :: "expr \<Rightarrow> checked comp" where
  "checked_elsewhere e = (if type_of e = Type_Unknown then ret (untyped e) else typed_node e (type_of e) False False)"

section \<open>Binary operators\<close>

definition binaryBool :: "tc_env \<Rightarrow> binop \<Rightarrow> checked \<Rightarrow> checked \<Rightarrow> checked comp" where
  "binaryBool env b l r =
     (let e = Binary b Type_Unknown (node l) (node r)
      in case (typeOf l, typeOf r) of
           (Some lt, Some rt) \<Rightarrow>
             if lt \<noteq> Type_Boolean \<or> rt \<noteq> Type_Boolean then reject e
             else typed_node (Binary b Type_Boolean (node l) (node r)) Type_Boolean (isConst l \<and> isConst r) False
         | _ \<Rightarrow> absent env e)"

definition as_bits :: "p4type \<Rightarrow> (int \<times> bool) option" where
  "as_bits t = (case t of Type_Bits w s \<Rightarrow> Some (w, s) | _ \<Rightarrow> None)"

text \<open>A cast that the checker inserts, folded if its operand is a compile-time constant.\<close>

definition insert_cast :: "tc_env \<Rightarrow> p4type \<Rightarrow> checked \<Rightarrow> expr comp" where
  "insert_cast env t x = (if isConst x then constantFold env (Cast t (node x)) else ret (Cast t (node x)))"

definition cast_if :: "bool \<Rightarrow> tc_env \<Rightarrow> p4type \<Rightarrow> checked \<Rightarrow> expr comp" where
  "cast_if doCast env t x = (if doCast then insert_cast env t x else ret (node x))"

definition binaryArith :: "tc_env \<Rightarrow> binop \<Rightarrow> checked \<Rightarrow> checked \<Rightarrow> checked comp" where
  "binaryArith env b l r =
     (let e = Binary b Type_Unknown (node l) (node r)
      in case (typeOf l, typeOf r) of
           (Some lt0, Some rt0) \<Rightarrow>
             if b = Add \<and> lt0 = Type_String \<and> rt0 = Type_String then reject e
             else
               let castLeft = (to_SerEnum lt0 \<noteq> None); castRight = (to_SerEnum rt0 \<noteq> None);
                   lt = strip_SerEnum lt0; rt = strip_SerEnum rt0;
                   bl = as_bits lt; br = as_bits rt
               in if bl = None \<and> lt \<noteq> Type_InfInt then reject e
                  else if br = None \<and> rt \<noteq> Type_InfInt then reject e
                  else if lt = Type_InfInt \<and> rt = Type_InfInt then
                    folded env (Binary b Type_InfInt (node l) (node r))
                  else if bl \<noteq> None \<and> br \<noteq> None \<and> map_option fst bl \<noteq> map_option fst br then reject e
                  else if bl \<noteq> None \<and> br \<noteq> None \<and> map_option snd bl \<noteq> map_option snd br then reject e
                  else
                    let doLeft = ((bl = None \<and> br \<noteq> None) \<or> castLeft); leftType = (if castLeft \<and> br = None then lt else rt);
                        doRight = ((bl \<noteq> None \<and> br = None) \<or> castRight); rightType = (if castRight \<and> bl = None then rt else lt);
                        resultType = (if doRight then rightType else if doLeft then leftType else lt)
                    in bind_comp (cast_if doLeft env leftType l) (\<lambda>l'.
                       bind_comp (cast_if doRight env rightType r) (\<lambda>r'.
                         typed_node (Binary b resultType l' r') resultType (isConst l \<and> isConst r) False))
         | _ \<Rightarrow> absent env e)"

definition negative_constant :: "expr \<Rightarrow> bool" where
  "negative_constant e \<longleftrightarrow> (case to_Constant e of Some (t, v, b) \<Rightarrow> v < 0 | None \<Rightarrow> False)"

definition is_signed :: "p4type \<Rightarrow> bool" where
  "is_signed t = (case as_bits t of Some (w, s) \<Rightarrow> s | None \<Rightarrow> False)"

definition unsBinaryArith :: "tc_env \<Rightarrow> binop \<Rightarrow> checked \<Rightarrow> checked \<Rightarrow> checked comp" where
  "unsBinaryArith env b l r =
     (let e = Binary b Type_Unknown (node l) (node r)
      in case (typeOf l, typeOf r) of
           (Some lt, Some rt) \<Rightarrow>
             if is_signed (strip_SerEnum lt) then reject e
             else if is_signed (strip_SerEnum rt) then reject e
             else if negative_constant (node l) then reject e
             else if negative_constant (node r) then reject e
             else binaryArith env b l r
         | _ \<Rightarrow> absent env e)"

text \<open>The checks of a constant shift amount; a positive amount of a signed type gets the unsigned type.
  \<open>None\<close>: an error was reported.\<close>

definition constant_amount :: "p4type \<Rightarrow> p4type \<Rightarrow> expr \<Rightarrow> (expr \<times> p4type) option comp" where
  "constant_amount lt rt amt =
     (case to_Constant amt of
        None \<Rightarrow> ret (Some (amt, rt))
      | Some (t, v, b) \<Rightarrow>
          if \<not> fitsInt v then typeError None
          else if v < 0 then typeError None
          else bind_comp (case as_bits lt of
                            Some (w, s) \<Rightarrow> Ok (if v \<ge> w then [Warning WARN_OVERFLOW] else []) ()
                          | None \<Rightarrow> ret ()) (\<lambda>_.
               case as_bits rt of
                 Some (w, True) \<Rightarrow>
                   bind_comp (mk_constant (Type_Bits w False) v b False) (\<lambda>amt'. ret (Some (amt', Type_Bits w False)))
               | _ \<Rightarrow> ret (Some (amt, rt))))"

definition tc_shift :: "tc_env \<Rightarrow> binop \<Rightarrow> checked \<Rightarrow> checked \<Rightarrow> checked comp" where
  "tc_shift env b l r =
     (let e = Binary b Type_Unknown (node l) (node r)
      in case (typeOf l, typeOf r) of
           (Some lt0, Some rt0) \<Rightarrow>
             let lt = strip_SerEnum lt0
             in bind_comp (constant_amount lt rt0 (node r)) (\<lambda>amount.
                  case amount of
                    None \<Rightarrow> ret (untyped e)
                  | Some (amt, rt) \<Rightarrow>
                      if is_signed rt then reject e
                      else if as_bits lt = None \<and> lt \<noteq> Type_InfInt then reject e
                      else if lt = Type_InfInt \<and> rt \<noteq> Type_InfInt \<and> \<not> isConst r then reject e
                      else if isConst l \<and> isConst r then folded env (Binary b lt (node l) amt)
                      else typed_node (Binary b lt (node l) amt) lt False False)
         | _ \<Rightarrow> absent env e)"

definition tc_concat :: "tc_env \<Rightarrow> checked \<Rightarrow> checked \<Rightarrow> checked comp" where
  "tc_concat env l r =
     (let e = Binary Concat Type_Unknown (node l) (node r)
      in case (typeOf l, typeOf r) of
           (Some lt0, Some rt0) \<Rightarrow>
             if lt0 = Type_String \<and> rt0 = Type_String then
               typed_node (Binary Concat Type_String (node l) (node r)) Type_String (isConst l \<and> isConst r) False
             else
               let lt = strip_SerEnum lt0; rt = strip_SerEnum rt0
               in (case (as_bits lt, as_bits rt) of
                     (Some (wl, sl), Some (wr, sr)) \<Rightarrow>
                       bind_comp (Type_Bits_get (folder env) (wl + wr) sl) (\<lambda>t.
                         typed_node
                           (Binary Concat t (if to_SerEnum lt0 \<noteq> None then Cast lt (node l) else node l)
                              (if to_SerEnum rt0 \<noteq> None then Cast rt (node r) else node r))
                           t (isConst l \<and> isConst r) False)
                   | _ \<Rightarrow>
                       Ok (Error ERR_TYPE_ERROR #
                           (if lt \<noteq> Type_String \<and> rt \<noteq> Type_String \<and> (lt = Type_InfInt \<or> rt = Type_InfInt)
                            then [Error ERR_TYPE_ERROR] else [])) (untyped e))
         | _ \<Rightarrow> absent env e)"

text \<open>\<open>..\<close> and \<open>&&&\<close>.\<close>

definition typeSet :: "tc_env \<Rightarrow> (p4type \<Rightarrow> expr \<Rightarrow> expr \<Rightarrow> expr) \<Rightarrow> checked \<Rightarrow> checked \<Rightarrow> checked comp" where
  "typeSet env mk l r =
     (let e = mk Type_Unknown (node l) (node r)
      in case (typeOf l, typeOf r) of
           (Some lt0, Some rt0) \<Rightarrow>
             let lt = strip_SerEnum lt0; rt = strip_SerEnum rt0; bl = as_bits lt; br = as_bits rt
             in if bl = None \<and> lt \<noteq> Type_InfInt then reject e
                else if br = None \<and> rt \<noteq> Type_InfInt then reject e
                else if bl \<noteq> None \<and> br \<noteq> None then
                  (if bl \<noteq> br then reject e
                   else typed_node (mk (Type_Set lt0) (node l) (node r)) (Type_Set lt0) (isConst l \<and> isConst r) False)
                else if br \<noteq> None then
                  typed_node (mk (Type_Set rt) (Cast rt (node l)) (node r)) (Type_Set rt) (isConst r) False
                else if bl \<noteq> None then
                  typed_node (mk (Type_Set lt0) (node l) (Cast lt (node r))) (Type_Set lt0) (isConst l) False
                else typed_node (mk (Type_Set lt0) (node l) (node r)) (Type_Set lt0) (isConst l \<and> isConst r) False
         | _ \<Rightarrow> absent env e)"

section \<open>Comparisons\<close>

fun is_Other :: "p4type \<Rightarrow> bool" where
  "is_Other (Type_Other n) = True"
| "is_Other t = False"

fun is_Varbits :: "p4type \<Rightarrow> bool" where
  "is_Varbits (Type_Varbits w) = True"
| "is_Varbits t = False"

text \<open>Actions, tables and externs are \<open>Type_Other\<close>.  A type \<open>Type_Varbits\<close> is a base type, for which
  the second test of the code allows what the first one has excluded.\<close>

definition tc_compare :: "tc_env \<Rightarrow> p4type \<Rightarrow> p4type \<Rightarrow> expr \<Rightarrow> expr \<Rightarrow> (expr \<times> expr) option comp" where
  "tc_compare env lt rt l r =
     (if is_Other lt \<or> is_Other rt then typeError None
      else bind_comp (p4_equivalent env lt rt) (\<lambda>eq.
        if eq \<and> \<not> is_Varbits lt then ret (Some (l, r))
        else if is_Varbits lt \<and> is_Varbits rt \<and> eq then ret (Some (l, r))
        else if is_Type_BaseList lt \<and> is_Type_BaseList rt then unify_convert env lt rt l r
        else case to_SerEnum rt of
               Some t \<Rightarrow> bind_comp (p4_equivalent env lt t) (\<lambda>eq. if eq then ret (Some (l, r)) else typeError None)
             | None \<Rightarrow>
                 if struct_fields lt \<noteq> None \<and> is_Type_BaseList rt then unify_convert env lt rt l r
                 else if is_Type_BaseList lt \<and> struct_fields rt \<noteq> None then
                   bind_comp (unify_convert env rt lt r l) (\<lambda>p. ret (map_option prod.swap p))
                 else typeError None))"

text \<open>A cast inserted here is not recorded as a compile-time constant.\<close>

definition relation :: "tc_env \<Rightarrow> binop \<Rightarrow> checked \<Rightarrow> checked \<Rightarrow> checked comp" where
  "relation env b l r =
     (case (typeOf l, typeOf r) of
        (Some lt0, Some rt0) \<Rightarrow>
          let lt = strip_SerEnum lt0; rt = strip_SerEnum rt0
          in if lt = Type_InfInt \<and> rt = Type_InfInt then folded env (Binary b Type_Boolean (node l) (node r))
             else
               let castLeft = (lt = Type_InfInt \<and> as_bits rt \<noteq> None); castRight = (rt = Type_InfInt \<and> as_bits lt \<noteq> None);
                   l' = (if castLeft then Cast rt (node l) else node l);
                   r' = (if castRight then Cast lt (node r) else node r);
                   lt' = (if castLeft then rt else lt); rt' = (if castRight then lt else rt);
                   const = (isConst l \<and> isConst r \<and> \<not> castLeft \<and> \<not> castRight);
                   e = Binary b Type_Unknown l' r'
               in if b = Equ \<or> b = Neq then
                    bind_comp (tc_compare env lt' rt' l' r') (\<lambda>res.
                      case res of
                        None \<Rightarrow> ret (untyped e)
                      | Some (l'', r'') \<Rightarrow> typed_node (Binary b Type_Boolean l'' r'') Type_Boolean const False)
                  else if as_bits lt' = None \<or> as_bits rt' = None \<or> lt' \<noteq> rt' then reject e
                  else typed_node (Binary b Type_Boolean l' r') Type_Boolean const False
      | _ \<Rightarrow> absent env (Binary b Type_Unknown (node l) (node r)))"

section \<open>Unary operators\<close>

text \<open>After the error the code goes on to fold a constant operand.\<close>

definition postorder_Unary :: "tc_env \<Rightarrow> unop \<Rightarrow> checked \<Rightarrow> checked comp" where
  "postorder_Unary env u x =
     (case typeOf x of
        None \<Rightarrow> absent env (Unary u Type_Unknown (node x))
      | Some t0 \<Rightarrow>
          let t = (if u = LNot then t0 else strip_SerEnum t0);
              ok = (case u of
                      LNot \<Rightarrow> t = Type_Boolean
                    | Neg \<Rightarrow> t = Type_InfInt \<or> as_bits t \<noteq> None
                    | UPlus \<Rightarrow> t = Type_InfInt \<or> as_bits t \<noteq> None
                    | Cmpl \<Rightarrow> as_bits t \<noteq> None)
          in if ok then
               (if isConst x then folded env (Unary u t (node x)) else typed_node (Unary u t (node x)) t False False)
             else
               bind_comp (typeError ()) (\<lambda>_.
                 if isConst x then bind_comp (constantFold env (Unary u Type_Unknown (node x))) (\<lambda>r. ret (untyped r))
                 else ret (untyped (Unary u Type_Unknown (node x)))))"

section \<open>Casts\<close>

definition canCastBetween :: "tc_env \<Rightarrow> p4type \<Rightarrow> p4type \<Rightarrow> bool comp" where
  "canCastBetween env dest src =
     (if is_Other src then ret False
      else bind_comp (p4_equivalent env src dest) (\<lambda>same.
        if same then ret True
        else bind_comp (case dest of Type_Newtype n t \<Rightarrow> p4_equivalent env t src | _ \<Rightarrow> ret False) (\<lambda>newtype.
          if newtype then ret True
          else case src of
                 Type_Bits w s \<Rightarrow>
                   (case dest of
                      Type_Bits w' s' \<Rightarrow> ret (w = w' \<or> s = s')
                    | Type_Boolean \<Rightarrow> ret (w = 1 \<and> \<not> s)
                    | Type_SerEnum n t ms \<Rightarrow> p4_equivalent env src t
                    | Type_InfInt \<Rightarrow> ret True
                    | _ \<Rightarrow> ret False)
               | Type_Boolean \<Rightarrow> (case dest of Type_Bits w' s' \<Rightarrow> ret (w' = 1 \<and> \<not> s') | _ \<Rightarrow> ret False)
               | Type_InfInt \<Rightarrow> ret (as_bits dest \<noteq> None \<or> dest = Type_Boolean \<or> dest = Type_InfInt)
               | Type_Newtype n t \<Rightarrow> p4_equivalent env dest t
               | Type_SerEnum n t ms \<Rightarrow>
                   (case dest of
                      Type_Bits w' s' \<Rightarrow> p4_equivalent env t dest
                    | Type_SerEnum n' t' ms' \<Rightarrow> p4_equivalent env t t'
                    | _ \<Rightarrow> ret False)
               | _ \<Rightarrow> ret False)))"

fun strip_Newtype :: "p4type \<Rightarrow> p4type" where
  "strip_Newtype (Type_Newtype n t) = strip_Newtype t"
| "strip_Newtype t = t"

text \<open>\<open>assignment\<close>: the source of an assignment, converted to the type of the destination.  Lists are
  converted to structures, stacks and lists of the type, component by component.\<close>

lemma size_zip_type: "(t, x) \<in> set (zip ts es) \<Longrightarrow> size (t::p4type) < Suc (size_list size ts)"
  by (meson in_set_zipE less_Suc_eq_le order_refl size_list_estimation')

lemma size_field_type: "(f, t) \<in> set fs \<Longrightarrow> size (t::p4type) < Suc (size_list (size_prod (\<lambda>_. 0) size) fs)"
  by (rule le_imp_less_Suc, rule size_list_estimation' [of "(f, t)"]) simp_all

lemma size_struct_field: "struct_fields d = Some fs \<Longrightarrow> (f, t) \<in> set fs \<Longrightarrow> size t < size d"
  by (cases d) (auto dest: size_field_type)

lemma size_zip_struct: "struct_fields d = Some fs \<Longrightarrow> ((f, t), x) \<in> set (zip fs es) \<Longrightarrow> size t < size d"
  by (auto dest: set_zip_leftD size_struct_field)

lemma size_field_of: "Some fs = struct_fields d \<Longrightarrow> (f, t) \<in> set fs \<Longrightarrow> 3 * size t + 2 < 3 * size d"
  using size_struct_field [of d fs f t] by simp

lemma size_zip_of: "Some fs = struct_fields d \<Longrightarrow> ((f, t), x) \<in> set (zip fs es) \<Longrightarrow> 3 * size t + 2 < 3 * size d"
  using size_zip_struct [of d fs f t x es] by simp

fun is_list :: "expr \<Rightarrow> bool" where
  "is_list (ListExpression t es) = True"
| "is_list e = False"

function assignment :: "tc_env \<Rightarrow> p4type \<Rightarrow> expr \<Rightarrow> expr comp"
  and struct_assignment :: "tc_env \<Rightarrow> p4type \<Rightarrow> expr \<Rightarrow> expr comp" where
  "assignment env destType e =
     (if destType = Type_Unknown then Bug ''Unknown destination type''
      else if destType = Type_Other ''dontcare'' \<or> type_of e = Type_Unknown then ret e
      else
        let initType = type_of e
        in bind_comp (unifyBase env True destType initType) (\<lambda>res.
             case res of
               None \<Rightarrow> ret e
             | Some tvs \<Rightarrow>
                 bind_comp (if tvs = [] then ret e
                            else bind_comp (convert tvs (snd (embed 0 destType)) e) (\<lambda>(e', _). ret e')) (\<lambda>e1.
                 bind_comp (p4_equivalent env destType initType) (\<lambda>eq.
                   if to_SerEnum destType \<noteq> None \<and> \<not> eq then typeError e1
                   else
                     let e2 = (if initType = Type_InfInt \<and> destType \<noteq> Type_InfInt then Cast destType e1 else e1)
                     in if struct_fields destType \<noteq> None then struct_assignment env destType e2
                        else case (destType, e2) of
                               (Type_List ts, ListExpression lt es) \<Rightarrow>
                                 if length ts \<noteq> length es then typeError e2
                                 else bind_comp (mapM_comp (\<lambda>(t, x). assignment env t x) (zip ts es)) (\<lambda>es'.
                                      ret (if es' = es then e2 else ListExpression destType es'))
                             | (Type_Stack t n, ListExpression lt es) \<Rightarrow>
                                 if n \<noteq> int (length es) then typeError e2
                                 else bind_comp (mapM_comp (assignment env t) es) (\<lambda>es'.
                                      ret (HeaderStackExpression destType es'))
                             | _ \<Rightarrow> ret e2))))"
| "struct_assignment env destType e =
     (case (struct_fields destType, e) of
        (Some fs, StructExpression t comps) \<Rightarrow>
          if is_Header t then ret e
          else if length fs \<noteq> length comps then typeError e
          else bind_comp (mapM_comp (\<lambda>(f, ft).
                 case map_of comps f of
                   None \<Rightarrow> Bug ''null component''
                 | Some x \<Rightarrow> bind_comp (assignment env ft x) (\<lambda>x'. ret (f, x'))) fs) (\<lambda>comps'.
               ret (if (\<forall>(f, x) \<in> set comps'. map_of comps f = Some x) then e else StructExpression destType comps'))
      | (Some fs, ListExpression t es) \<Rightarrow>
          if length fs \<noteq> length es then typeError e
          else bind_comp (mapM_comp (\<lambda>((f, ft), x). bind_comp (assignment env ft x) (\<lambda>x'. ret (f, x'))) (zip fs es)) (\<lambda>comps.
               bind_comp (struct_assignment env destType (StructExpression destType comps)) (\<lambda>_.
                 ret (StructExpression destType comps)))
      | _ \<Rightarrow> ret e)"
  by pat_completeness auto
termination
proof (relation "measure (\<lambda>x. case x of
      Inl (env, d, e) \<Rightarrow> 3 * size d + 2 | Inr (env, d, e) \<Rightarrow> 3 * size d + (if is_list e then 1 else 0))",
    goal_cases)
qed (auto dest!: size_zip_type dest: size_field_of size_zip_of split: if_splits)

declare assignment.simps [simp del] struct_assignment.simps [simp del]

text \<open>A cast to a structure with another operand than a list, and one to a type that is not in the
  list below, is not supported.\<close>

definition castable :: "p4type \<Rightarrow> bool" where
  "castable t = (case t of Type_Bits w s \<Rightarrow> True | Type_Boolean \<Rightarrow> True | Type_Newtype n u \<Rightarrow> True
     | Type_SerEnum n u ms \<Rightarrow> True | Type_InfInt \<Rightarrow> True | _ \<Rightarrow> False)"

fun is_Stack :: "p4type \<Rightarrow> bool" where
  "is_Stack (Type_Stack t n) = True"
| "is_Stack t = False"

definition postorder_Cast :: "tc_env \<Rightarrow> p4type \<Rightarrow> checked \<Rightarrow> checked comp" where
  "postorder_Cast env castType x =
     (case typeOf x of
        None \<Rightarrow> absent env (Cast castType (node x))
      | Some sourceType \<Rightarrow>
          if (struct_fields castType \<noteq> None \<or> is_Stack castType) \<and> is_list (node x) then
            bind_comp (assignment env castType (node x)) (\<lambda>e. typed_node e (type_of e) (isConst x) False)
          else if \<not> castable castType then reject (Cast castType (node x))
          else bind_comp (canCastBetween env castType sourceType) (\<lambda>ok.
            if ok then typed_node (Cast castType (node x)) castType (isConst x) False
            else
              let destType = strip_Newtype castType
              in bind_comp (unifyBase env False destType sourceType) (\<lambda>res.
                   case res of
                     None \<Rightarrow> ret (untyped (Cast castType (node x)))
                   | Some tvs \<Rightarrow>
                       bind_comp (if tvs = [] then ret (node x)
                                  else bind_comp (convert tvs (snd (embed 0 destType)) (node x)) (\<lambda>(e, _). ret e)) (\<lambda>rhs.
                       bind_comp (canCastBetween env castType (if rhs \<noteq> node x then castType else sourceType)) (\<lambda>ok.
                       bind_comp (if ok then ret () else typeError ()) (\<lambda>_.
                         typed_node (Cast castType rhs) castType (isConst x) False))))))"

section \<open>Slices, conditional expressions and indexing\<close>

text \<open>An index that is a member of a serializable enum is replaced by its constant.  \<open>None\<close>: an error was
  reported.\<close>

definition slice_index_of :: "tc_env \<Rightarrow> bool \<Rightarrow> checked \<Rightarrow> expr option comp" where
  "slice_index_of env mustResolve x =
     (if typeOf x = None \<and> errorsSoFar env = 0 then Bug ''Could not find type of''
      else if Option.bind (typeOf x) to_SerEnum = None then ret (Some (node x))
      else bind_comp (EnumInstance_resolve (node x)) (\<lambda>ei.
        case ei of
          None \<Rightarrow> Bug ''CHECK_NULL(ei)''
        | Some (SerEnumInstance t n v) \<Rightarrow> ret (Some v)
        | Some (SimpleEnumInstance t n) \<Rightarrow> if mustResolve then typeError None else ret (Some (node x))))"

definition postorder_Slice :: "tc_env \<Rightarrow> checked \<Rightarrow> checked \<Rightarrow> checked \<Rightarrow> checked comp" where
  "postorder_Slice env x h l =
     (let e = Slice Type_Unknown (node x) (node h) (node l)
      in case typeOf x of
           None \<Rightarrow> absent env e
         | Some t0 \<Rightarrow>
             case as_bits (strip_SerEnum t0) of
               None \<Rightarrow> reject e
             | Some (sz, sg) \<Rightarrow>
                 bind_some (slice_index_of env True h) (untyped e) (\<lambda>e1.
                 bind_some (slice_index_of env True l) (untyped e) (\<lambda>e2.
                   case (to_Constant e1, to_Constant e2) of
                     (Some (tH, m, bH), Some (tL, l, bL)) \<Rightarrow>
                       if \<not> fitsInt m \<or> \<not> fitsInt l \<or> m < 0 \<or> l < 0 \<or> m \<ge> sz \<or> l \<ge> sz \<or> l > m then reject e
                       else bind_comp (Type_Bits_get (folder env) (m - l + 1) False) (\<lambda>t.
                         if isConst x then folded env (Slice t (node x) e1 e2)
                         else typed_node (Slice t (node x) e1 e2) t False (isLeft x))
                   | _ \<Rightarrow> reject e)))"

definition postorder_PlusSlice :: "tc_env \<Rightarrow> checked \<Rightarrow> checked \<Rightarrow> checked \<Rightarrow> checked comp" where
  "postorder_PlusSlice env x l w =
     (let e = PlusSlice Type_Unknown (node x) (node l) (node w)
      in case typeOf x of
           None \<Rightarrow> absent env e
         | Some t0 \<Rightarrow>
             if as_bits (strip_SerEnum t0) = None then reject e
             else
               bind_some (slice_index_of env False l) (untyped e) (\<lambda>e1.
               bind_some (slice_index_of env True w) (untyped e) (\<lambda>e2.
                 case to_Constant e2 of
                   None \<Rightarrow> reject e
                 | Some (tW, n, bW) \<Rightarrow>
                     if \<not> fitsInt n \<or> n < 0 then reject e
                     else bind_comp (Type_Bits_get (folder env) n False) (\<lambda>t.
                       if isConst x \<and> isConst l then folded env (PlusSlice t (node x) e1 e2)
                       else typed_node (PlusSlice t (node x) e1 e2) t False (isLeft x)))))"

definition postorder_Mux :: "tc_env \<Rightarrow> checked \<Rightarrow> checked \<Rightarrow> checked \<Rightarrow> checked comp" where
  "postorder_Mux env c a b =
     (let e = Mux Type_Unknown (node c) (node a) (node b)
      in case (typeOf c, typeOf a, typeOf b) of
           (Some firstType, Some secondType, Some thirdType) \<Rightarrow>
             if firstType \<noteq> Type_Boolean then reject e
             else if secondType = Type_InfInt \<and> thirdType = Type_InfInt then reject e
             else counted env (unifyBase env False secondType thirdType) (\<lambda>env res.
               case res of
                 None \<Rightarrow> ret (untyped e)
               | Some tvs \<Rightarrow>
                   let finish = (\<lambda>t a' b'.
                         if isConst c \<and> isConst a \<and> isConst b then folded env (Mux t (node c) a' b')
                         else typed_node (Mux t (node c) a' b') t False False)
                   in if tvs = [] then finish secondType (node a) (node b)
                      else counted env (convert tvs 0 (node a)) (\<lambda>env (a', _).
                           counted env (convert tvs (snd (embed 0 secondType)) (node b)) (\<lambda>env (b', _).
                             if 0 < errorsSoFar env then ret (untyped e)
                             else finish (if a' = node a then secondType else type_of a') a' b')))
         | _ \<Rightarrow> absent env e)"

definition postorder_ArrayIndex :: "tc_env \<Rightarrow> checked \<Rightarrow> checked \<Rightarrow> checked comp" where
  "postorder_ArrayIndex env l r =
     (let e = ArrayIndex Type_Unknown (node l) (node r)
      in case (typeOf l, typeOf r) of
           (Some lt, Some rt) \<Rightarrow>
             let check = (is_Stack lt \<and> checkArrays env)
             in bind_comp (case to_Constant (node r) of
                     None \<Rightarrow> ret (Some (- 1))
                   | Some (t, v, b) \<Rightarrow>
                       if check \<and> \<not> fitsInt v then typeError None
                       else bind_comp (asInt v) (\<lambda>i. if check \<and> i < 0 then typeError None else ret (Some i))) (\<lambda>i.
                  case i of
                    None \<Rightarrow> ret (untyped e)
                  | Some index \<Rightarrow>
                      if index < 0 \<and> as_bits rt = None \<and> to_SerEnum rt = None \<and> rt \<noteq> Type_InfInt then reject e
                      else case lt of
                             Type_Stack et n \<Rightarrow>
                               if check \<and> index \<ge> 0 \<and> index \<ge> n then reject e
                               else typed_node (ArrayIndex et (node l) (node r)) et False (isLeft l)
                           | Type_List ts \<Rightarrow>
                               if index < 0 then reject e
                               else if nat index \<ge> length ts then reject e
                               else typed_node (ArrayIndex (ts ! nat index) (node l) (node r)) (ts ! nat index)
                                      (isConst l) (isLeft l)
                           | _ \<Rightarrow> reject e)
         | _ \<Rightarrow> absent env e)"

fun list_type :: "p4type list \<Rightarrow> p4type" where
  "list_type ts =
     (if \<exists>t\<in>set ts. (case t of Type_Set u \<Rightarrow> True | _ \<Rightarrow> False)
      then Type_Set (Type_List (map (\<lambda>t. case t of Type_Set u \<Rightarrow> u | _ \<Rightarrow> t) ts))
      else Type_List ts)"

definition postorder_ListExpression :: "tc_env \<Rightarrow> checked list \<Rightarrow> checked comp" where
  "postorder_ListExpression env xs =
     (case those (map typeOf xs) of
        None \<Rightarrow> absent env (ListExpression Type_Unknown (map node xs))
      | Some ts \<Rightarrow>
          typed_node (ListExpression (list_type ts) (map node xs)) (list_type ts) (list_all isConst xs) False)"

text \<open>A member that is not called.  The fields \<open>next\<close>, \<open>last\<close>, \<open>size\<close> and \<open>lastIndex\<close> of a stack are
  built in.  The tags of \<open>error\<close> are not part of the type.\<close>

definition enum_tag :: "p4type \<Rightarrow> string \<Rightarrow> bool option" where
  "enum_tag t m =
     (case t of
        Type_Enum n ms \<Rightarrow> Some (m \<in> set ms)
      | Type_SerEnum n u ms \<Rightarrow> Some (map_of ms m \<noteq> None)
      | Type_Error \<Rightarrow> Some True
      | _ \<Rightarrow> None)"

definition postorder_Member :: "tc_env \<Rightarrow> checked \<Rightarrow> string \<Rightarrow> checked comp" where
  "postorder_Member env x m =
     (let e = Member Type_Unknown (node x) m; mk = (\<lambda>t. typed_node (Member t (node x) m) t)
      in case typeOf x of
           None \<Rightarrow> absent env e
         | Some t \<Rightarrow>
             case node x of
               TypeNameExpression base \<Rightarrow>
                 (case enum_tag base m of
                    None \<Rightarrow> reject e
                  | Some True \<Rightarrow> mk base (isConst x) False
                  | Some False \<Rightarrow> bind_comp (typeError ()) (\<lambda>_. mk t (isConst x) False))
             | _ \<Rightarrow>
                 (case struct_fields t of
                    Some fs \<Rightarrow>
                      (case map_of fs m of None \<Rightarrow> reject e | Some ft \<Rightarrow> mk ft (isConst x) (isLeft x))
                  | None \<Rightarrow>
                      (case t of
                         Type_Stack et n \<Rightarrow>
                           if m = ''next'' \<or> m = ''last'' then
                             (if \<not> inParser env then reject e else mk et False (isLeft x \<and> m = ''next''))
                           else if m = ''size'' then mk (Type_Bits 32 False) False False
                           else if m = ''lastIndex'' then
                             (if \<not> inParser env then reject e else mk (Type_Bits 32 False) False False)
                           else if m = ''push_front'' \<or> m = ''pop_front'' then
                             bind_comp (Ok ((if inParser env then [Error ERR_TYPE_ERROR] else []) @
                                 (if \<not> isLeft x then [Error ERR_TYPE_ERROR] else [])) ()) (\<lambda>_.
                               mk (Type_Other ''method'') False False)
                           else reject e
                       | _ \<Rightarrow> reject e)))"

section \<open>The visitor\<close>

definition postorder_Binary :: "tc_env \<Rightarrow> binop \<Rightarrow> checked \<Rightarrow> checked \<Rightarrow> checked comp" where
  "postorder_Binary env b l r =
     (if b = LAnd \<or> b = LOr then binaryBool env b l r
      else if b = Shl \<or> b = Shr then tc_shift env b l r
      else if b = Div \<or> b = Mod then unsBinaryArith env b l r
      else if b = Concat then tc_concat env l r
      else if is_relation b then relation env b l r
      else binaryArith env b l r)"

text \<open>The components of a list, from left to right.\<close>

fun counted_all :: "tc_env \<Rightarrow> (tc_env \<Rightarrow> 'a \<Rightarrow> 'b comp) \<Rightarrow> 'a list \<Rightarrow> 'b list comp" where
  "counted_all env f [] = ret []"
| "counted_all env f (x # xs) = counted env (f env x) (\<lambda>env y. bind_comp (counted_all env f xs) (\<lambda>ys. ret (y # ys)))"

lemma counted_all_cong [fundef_cong]:
  "env = env' \<Longrightarrow> xs = ys \<Longrightarrow> (\<And>env x. x \<in> set ys \<Longrightarrow> f env x = g env x) \<Longrightarrow> counted_all env f xs = counted_all env' g ys"
proof (induction xs arbitrary: env env' ys)
  case (Cons x xs)
  then show ?case by (cases ys) (auto intro!: counted_cong)
qed auto

fun check :: "tc_env \<Rightarrow> expr \<Rightarrow> checked comp" where
  "check env (Constant t v b) = postorder_Constant t v b"
| "check env (BoolLiteral b) = postorder_BoolLiteral b"
| "check env (StringLiteral s) = postorder_StringLiteral s"
| "check env (PathExpression t p) = postorder_PathExpression env t p"
| "check env (TypeNameExpression t) = postorder_TypeNameExpression env t"
| "check env (DefaultExpression t) = postorder_DefaultExpression"
| "check env (ListExpression t es) = counted env (counted_all env check es) postorder_ListExpression"
| "check env (Unary u t x) = counted env (check env x) (\<lambda>env. postorder_Unary env u)"
| "check env (Cast t x) = counted env (check env x) (\<lambda>env. postorder_Cast env t)"
| "check env (Member t x m) = counted env (check env x) (\<lambda>env x'. postorder_Member env x' m)"
| "check env (Binary b t l r) =
     counted env (check env l) (\<lambda>env l'. counted env (check env r) (\<lambda>env. postorder_Binary env b l'))"
| "check env (ArrayIndex t l r) =
     counted env (check env l) (\<lambda>env l'. counted env (check env r) (\<lambda>env. postorder_ArrayIndex env l'))"
| "check env (Range t l r) =
     counted env (check env l) (\<lambda>env l'. counted env (check env r) (\<lambda>env. typeSet env Range l'))"
| "check env (Mask t l r) =
     counted env (check env l) (\<lambda>env l'. counted env (check env r) (\<lambda>env. typeSet env Mask l'))"
| "check env (Mux t c a b) =
     counted env (check env c) (\<lambda>env c'. counted env (check env a) (\<lambda>env a'.
       counted env (check env b) (\<lambda>env. postorder_Mux env c' a')))"
| "check env (Slice t x h l) =
     counted env (check env x) (\<lambda>env x'. counted env (check env h) (\<lambda>env h'.
       counted env (check env l) (\<lambda>env. postorder_Slice env x' h')))"
| "check env (PlusSlice t x l w) =
     counted env (check env x) (\<lambda>env x'. counted env (check env l) (\<lambda>env l'.
       counted env (check env w) (\<lambda>env. postorder_PlusSlice env x' l')))"
| "check env e = checked_elsewhere e"

end
