(* ===== verification/ConstFold_Typed.thy ===== *)
theory ConstFold_Typed
  imports ConstFold_Correct StrengthRed_Pass
begin

text \<open>
  Constant folding keeps expressions typed: the types recorded on the folded expression are those of
  its values, so the folder may run between type checking and strength reduction.
\<close>

section \<open>The shapes of a folded node\<close>

definition is_literal :: "expr \<Rightarrow> bool" where
  "is_literal e \<longleftrightarrow> to_Constant e \<noteq> None \<or> to_BoolLiteral e \<noteq> None \<or> to_StringLiteral e \<noteq> None"

lemma is_literal_simps [simp]:
  "is_literal (Constant t v b)" "is_literal (BoolLiteral p)" "is_literal (StringLiteral s)"
  by (simp_all add: is_literal_def)

lemma evals_StringLiteral [simp]: "evals \<rho> (StringLiteral s) v \<longleftrightarrow> v = StrV s"
  by (auto simp: evals_iff)

lemma literal_evals: "is_literal e \<Longrightarrow> eval \<rho> e = Some v \<Longrightarrow> width_ok v \<Longrightarrow> evals \<rho> e v"
  by (cases e) (auto simp: is_literal_def evals_Constant)

lemma evals_width_ok: "evals \<rho> e v \<Longrightarrow> width_ok v"
  by (simp add: evals_iff has_type_def)

definition folds_to :: "expr \<Rightarrow> expr \<Rightarrow> bool" where
  "folds_to e e' \<longleftrightarrow> e' = e \<or> is_literal e'"

lemma mk_constant_literal: "mk_constant t v b nw = Ok ds e \<Longrightarrow> is_literal e"
  by (auto simp: mk_constant_def elim!: bind_comp_OkE)

lemma folds_to_simps [simp]: "folds_to e e" "is_literal e' \<Longrightarrow> folds_to e e'"
  by (simp_all add: folds_to_def)

lemmas fold_splits = option.split_asm if_split_asm prod.split_asm operands.split_asm comp.split_asm

lemma fold_Unary_shape:
  "fold_Cmpl cf t x = Ok ds e' \<Longrightarrow> folds_to (Unary Cmpl t x) e'"
  "fold_Neg cf t x = Ok ds e' \<Longrightarrow> folds_to (Unary Neg t x) e'"
  "fold_UPlus cf t x = Ok ds e' \<Longrightarrow> folds_to (Unary UPlus t x) e'"
  "fold_LNot cf t x = Ok ds e' \<Longrightarrow> folds_to (Unary LNot t x) e'"
  by (auto simp: fold_Cmpl_def fold_Neg_def fold_UPlus_def fold_LNot_def elim!: bind_comp_OkE
      split: fold_splits dest!: mk_constant_literal)

lemma binary_shape: "binary cf b t l r sat = Ok ds e' \<Longrightarrow> folds_to (Binary b t l r) e'"
  by (auto simp: binary_def Let_def elim!: bind_comp_OkE split: fold_splits dest!: mk_constant_literal)

lemma compare_shape: "compare cf b t l r = Ok ds e' \<Longrightarrow> folds_to (Binary b t l r) e'"
  by (subst (asm) compare.simps)
    (auto simp: Let_def elim!: bind_comp_OkE split: fold_splits dest!: binary_shape)

lemma shift_constant_shape: "shift_constant cf b t v k n = Ok ds e' \<Longrightarrow> is_literal e'"
  by (auto simp: shift_constant_def Let_def elim!: bind_comp_OkE split: fold_splits dest!: mk_constant_literal)

lemma fold_Concat_shape: "fold_Concat cf t l r = Ok ds e' \<Longrightarrow> folds_to (Binary Concat t l r) e'"
  by (auto simp: fold_Concat_def Let_def elim!: bind_comp_OkE split: fold_splits dest!: mk_constant_literal)

lemma shift_shape: "shift cf b t l r = Ok ds e' \<Longrightarrow> folds_to (Binary b t l r) e' \<or> e' = l"
  by (auto simp: shift_def Let_def elim!: bind_comp_OkE split: fold_splits dest!: shift_constant_shape)

lemma fold_logical_shape:
  "fold_LAnd cf t l r = Ok ds e' \<Longrightarrow>
     folds_to (Binary LAnd t l r) e' \<or> e' = r \<and> (\<exists>d. getConstant cf l = Ok d (Some (BoolLiteral True)))"
  "fold_LOr cf t l r = Ok ds e' \<Longrightarrow>
     folds_to (Binary LOr t l r) e' \<or> e' = r \<and> (\<exists>d. getConstant cf l = Ok d (Some (BoolLiteral False)))"
  by (auto simp: fold_LAnd_def fold_LOr_def elim!: bind_comp_OkE split: fold_splits)

lemma slice_constant_shape: "slice_constant cf v b l w = Ok ds e' \<Longrightarrow> is_literal e'"
  by (auto simp: slice_constant_def Let_def elim!: bind_comp_OkE dest!: mk_constant_literal)

lemma fold_Slice_shape: "fold_Slice cf t x h l = Ok ds e' \<Longrightarrow> folds_to (Slice t x h l) e'"
  by (auto simp: fold_Slice_def Let_def elim!: bind_comp_OkE split: fold_splits dest!: slice_constant_shape)

lemma fold_PlusSlice_shape: "fold_PlusSlice cf t x l w = Ok ds e' \<Longrightarrow> folds_to (PlusSlice t x l w) e'"
  by (auto simp: fold_PlusSlice_def Let_def elim!: bind_comp_OkE split: fold_splits dest!: slice_constant_shape)

lemma fold_Mux_shape:
  assumes "fold_Mux cf t c a b = Ok ds e'"
  shows "e' = Mux t c a b \<or> (\<exists>d p. getConstant cf c = Ok d (Some (BoolLiteral p)) \<and> e' = (if p then a else b))"
proof -
  from assms obtain d r d' where r: "getConstant cf c = Ok d r"
    "(case r of None \<Rightarrow> ret (Mux t c a b)
      | Some cond \<Rightarrow>
          case to_BoolLiteral cond of None \<Rightarrow> report (Error ERR_EXPECTED) (Mux t c a b)
          | Some v \<Rightarrow> ret (if v then a else b)) = Ok d' e'"
    unfolding fold_Mux_def by (elim bind_comp_OkE) blast
  show ?thesis
  proof (cases "\<exists>p. r = Some (BoolLiteral p)")
    case True
    with r show ?thesis by fastforce
  next
    case False
    with r(2) show ?thesis by (auto split: option.split_asm)
  qed
qed

lemma EnumInstance_resolve_literal: "EnumInstance_resolve e = Ok ds (Some (SerEnumInstance t n v)) \<Longrightarrow> is_literal v"
  by (induction e rule: EnumInstance_resolve.induct) (auto split: p4type.split_asm option.split_asm)

lemma cast_shapes:
  "cast_to_bits t w sg x c = Ok ds e' \<Longrightarrow> folds_to (Cast t x) e'"
  "cast_to_int x c = Ok ds e' \<Longrightarrow> folds_to (Cast Type_InfInt x) e'"
  "cast_to_bool x c = Ok ds e' \<Longrightarrow> folds_to (Cast Type_Boolean x) e'"
  by (auto simp: cast_to_bits_def cast_to_int_def cast_to_bool_def Let_def elim!: bind_comp_OkE
      split: fold_splits enum_instance.split_asm dest!: mk_constant_literal EnumInstance_resolve_literal)

lemma fold_Cast_shape:
  assumes "fold_Cast cf t x = Ok ds e'"
  shows "folds_to (Cast t x) e' \<or>
     (\<exists>d c d'. struct_fields t \<noteq> None \<and> getConstant cf x = Ok d (Some c) \<and> CloneConstants c = Ok d' e')"
proof -
  from assms consider "e' = Cast t x" | d c d' where "getConstant cf x = Ok d (Some c)"
      "(case to_Type_Bits t of
         Some (w, sg) \<Rightarrow> cast_to_bits t w sg x c
       | None \<Rightarrow> (if t = Type_InfInt then cast_to_int x c
           else if t = Type_Boolean then cast_to_bool x c
           else if struct_fields t \<noteq> None then CloneConstants c
           else ret (Cast t x))) = Ok d' e'"
    unfolding fold_Cast_def by (auto elim!: bind_comp_OkE split: option.split_asm)
  then show ?thesis
    by cases (auto split: option.split_asm prod.split_asm if_split_asm dest: cast_shapes)
qed

lemma fold_Binary_shape:
  "fold_Binary cf b t l r = Ok ds e' \<Longrightarrow>
     folds_to (Binary b t l r) e' \<or> e' = l \<and> (b = Shl \<or> b = Shr) \<or>
     e' = r \<and> (\<exists>d. b = LAnd \<and> getConstant cf l = Ok d (Some (BoolLiteral True)) \<or>
       b = LOr \<and> getConstant cf l = Ok d (Some (BoolLiteral False)))"
  by (cases b) (auto simp: fold_Binary_def dest: binary_shape compare_shape shift_shape fold_Concat_shape fold_logical_shape)

section \<open>Cloning constants\<close>

lemma clone_Constant_keeps: "clone_Constant e = Ok ds e' \<Longrightarrow> evals \<rho> e v \<Longrightarrow> evals \<rho> e' v"
proof (cases "is_literal e'")
  case True
  assume c: "clone_Constant e = Ok ds e'" and v: "evals \<rho> e v"
  have "eval \<rho> e' = Some v" using clone_Constant_refines [OF c] v by (auto simp: evals_def refines_def)
  with True evals_width_ok [OF v] show ?thesis by (blast intro: literal_evals)
next
  case False
  assume c: "clone_Constant e = Ok ds e'" and v: "evals \<rho> e v"
  from c False have "e' = e" by (cases e) (auto split: p4type.split_asm dest!: mk_constant_literal)
  with v show ?thesis by simp
qed

lemma CloneConstants_TypeName: "CloneConstants (TypeNameExpression t) = ret (TypeNameExpression t)"
  by (simp add: CloneConstants.simps visit_children_def)

lemma mapM_keeps:
  assumes "mapM_comp f xs = Ok ds ys" "\<And>x d y. x \<in> set xs \<Longrightarrow> f x = Ok d y \<Longrightarrow> keeps \<rho> x y"
  shows "list_all2 (keeps \<rho>) xs ys"
  by (rule list.rel_mono_strong [OF mapM_comp_Ok_diags [OF assms(1)]]) (use assms(2) in blast)

lemma CloneConstants_keeps: "wf_env \<rho> \<Longrightarrow> CloneConstants e = Ok ds e' \<Longrightarrow> evals \<rho> e v \<Longrightarrow> evals \<rho> e' v"
proof (induction e arbitrary: ds e' v rule: expr_children_induct)
  case (children e)
  then obtain d1 cs d2 where m: "mapM_comp CloneConstants (children e) = Ok d1 cs"
    "clone_Constant (with_children e cs) = Ok d2 e'"
    by (subst (asm) CloneConstants.simps) (auto simp: visit_children_def elim!: bind_comp_OkE split: comp.split_asm)
  have "list_all2 (keeps \<rho>) (children e) cs"
    by (rule mapM_keeps [OF m(1)]) (use children.IH children.prems(1) CloneConstants_TypeName in \<open>auto simp: keeps_def\<close>)
  from with_children_keeps [OF this children.prems(3,1)] clone_Constant_keeps [OF m(2)] show ?case by blast
qed

lemma getConstant_keeps:
  assumes "getConstant cf e = Ok ds (Some c)" "wf_env \<rho>" "evals \<rho> e v"
  shows "evals \<rho> c v"
proof (cases "\<exists>t x. e = Cast t x")
  case True
  then obtain t x where e: "e = Cast t x" by blast
  with assms(1) obtain d where "CloneConstants e = Ok d c" by (auto elim!: bind_comp_OkE split: if_split_asm)
  with CloneConstants_keeps [OF assms(2) _ assms(3)] show ?thesis by blast
next
  case False
  with getConstant_cases [OF assms(1)] assms(3) show ?thesis by auto
qed

section \<open>The pass\<close>

text \<open>The recorded constants and the policy give typed expressions.\<close>

definition cf_typed :: "sem_env \<Rightarrow> cf_env \<Rightarrow> bool" where
  "cf_typed \<rho> cf \<longleftrightarrow>
     (\<forall>t p r v. hook cf (PathExpression t p) = Some r \<longrightarrow> eval \<rho> r = Some v \<longrightarrow> evals \<rho> r v) \<and>
     (\<forall>d c v. constants cf d = Some c \<longrightarrow> eval \<rho> c = Some v \<longrightarrow> evals \<rho> c v)"

lemma fold_PathExpression_keeps:
  assumes f: "fold_PathExpression cf a t p = Ok ds e'" and ok: "cf_ok \<rho> cf" "cf_typed \<rho> cf" "wf_env \<rho>"
    and v: "evals \<rho> (PathExpression t p) v"
  shows "evals \<rho> e' v"
proof (cases "e' = PathExpression t p")
  case False
  have e': "eval \<rho> e' = Some v" using fold_PathExpression_refines [OF f ok(1)] v refinesD by (auto simp: evals_def)
  show ?thesis
  proof (cases "hook cf (PathExpression t p)")
    case (Some r)
    then have "e' = r" using f by (simp add: fold_PathExpression_def)
    with Some ok(2) e' show ?thesis by (auto simp: cf_typed_def)
  next
    case None
    with f False obtain rm d ty init c where c: "refMap cf = Some rm" "rm p = Some (Declaration_Constant d ty init)"
      "constants cf d = Some c" "CloneConstants c = Ok ds e'"
      by (auto simp: fold_PathExpression_def Let_def split: option.split_asm decl.split_asm if_split_asm)
    have "var_val \<rho> p = Some v" using v by (simp add: evals_def)
    with ok(1) c(1-3) have "eval \<rho> c = Some v" unfolding cf_ok_def by blast
    with ok(2) c(3) have "evals \<rho> c v" by (auto simp: cf_typed_def)
    with CloneConstants_keeps [OF ok(3) c(4)] show ?thesis by blast
  qed
qed (use v in simp)

lemma fold_Member_keeps:
  assumes f: "fold_Member cf ty t x m = Ok ds e'" and wf: "wf_env \<rho>" and v: "evals \<rho> (Member t x m) v"
    and st: "\<And>et n. ty = Type_Stack et n \<Longrightarrow> m \<noteq> ''size''"
  shows "evals \<rho> e' v"
proof (cases "e' = Member t x m")
  case False
  have "(case (ty, m = ''size'') of (Type_Stack et n, True) \<Rightarrow> A et n | _ \<Rightarrow> B) = B" for A and B :: "expr comp"
    using st by (cases ty; cases "m = ''size''") auto
  with f False obtain d0 d1 c where c: "getConstant cf x = Ok d0 (Some c)" "member_of_constant ty t x m c = Ok d1 e'"
    by (auto simp: fold_Member_def elim!: bind_comp_OkE split: option.split_asm if_split_asm)
  have nt: "x \<noteq> TypeNameExpression t'" for t' using c(1) by auto
  from v obtain u where u: "evals \<rho> x u" "field_val m u = Some v" using evals_Member [OF nt] by auto
  note cu = getConstant_keeps [OF c(1) wf u(1)]
  from c(2) False consider (list) lt es where "c = ListExpression lt es"
    | (struct) s fs y where "c = StructExpression s fs" "map_of fs m = Some y" "CloneConstants y = Ok d1 e'"
    by (auto simp: member_of_constant_def split: option.split_asm if_split_asm)
  then show ?thesis
  proof cases
    case list
    with cu u(2) show ?thesis by (auto simp: evals_lists)
  next
    case struct
    with cu obtain vs where vs: "list_all2 (evals \<rho>) (map snd fs) vs" "u = StructV (zip (map fst fs) vs)"
      by (auto simp: evals_lists)
    then have "list_all2 (\<lambda>f v. evals \<rho> (snd f) v) fs vs" by (simp add: list_all2_map1)
    then have "map_of fs m = Some y \<Longrightarrow> map_of (zip (map fst fs) vs) m = Some v \<Longrightarrow> evals \<rho> y v"
      by (induction rule: list_all2_induct) (auto split: if_split_asm)
    with vs(2) u(2) struct(2) have "evals \<rho> y v" by simp
    with CloneConstants_keeps [OF wf struct(3)] show ?thesis by blast
  qed
qed (use v in simp)

lemma folds_to_evals:
  "folds_to e e' \<Longrightarrow> evals \<rho> e v \<Longrightarrow> eval \<rho> e' = Some v \<Longrightarrow> evals \<rho> e' v"
  by (auto simp: folds_to_def intro: literal_evals dest: evals_width_ok)

lemma fold_Cast_keeps:
  assumes f: "fold_Cast cf t x = Ok ds e'" and wf: "wf_env \<rho>" and v: "evals \<rho> (Cast t x) v"
  shows "evals \<rho> e' v"
proof -
  have e': "eval \<rho> e' = Some v" using fold_Cast_refines [OF f] v by (auto simp: evals_def refines_def)
  from fold_Cast_shape [OF f] show ?thesis
  proof
    assume "folds_to (Cast t x) e'"
    with v e' show ?thesis by (rule folds_to_evals [rotated])
  next
    assume "\<exists>d c d'. struct_fields t \<noteq> None \<and> getConstant cf x = Ok d (Some c) \<and> CloneConstants c = Ok d' e'"
    then obtain d c d' fs where c: "struct_fields t = Some fs" "getConstant cf x = Ok d (Some c)"
      "CloneConstants c = Ok d' e'" by auto
    from v obtain u where "evals \<rho> x u" "cast_val t u = Some v" by (auto simp: evals_Cast)
    then have "evals \<rho> x v" using struct_fields_cast [OF c(1)] by simp
    with getConstant_keeps [OF c(2) wf] CloneConstants_keeps [OF wf c(3)] show ?thesis by blast
  qed
qed

lemma getConstant_BoolLiteral:
  assumes "getConstant cf e = Ok d (Some (BoolLiteral p))" "evals \<rho> e v"
  shows "v = BoolV p"
proof -
  have "eval \<rho> (BoolLiteral p) = Some v" using getConstant_eval [OF assms(1)] assms(2) unfolding evals_def by blast
  then show ?thesis by simp
qed

lemma postorder_keeps:
  assumes p: "postorder cf a orig e = Ok ds e'" and ok: "cf_ok \<rho> cf" "cf_typed \<rho> cf" "wf_env \<rho>"
    and v: "evals \<rho> e v"
    and m: "\<And>t x m et n. e = Member t x m \<Longrightarrow> type_of (hd (children orig)) = Type_Stack et n \<Longrightarrow> m \<noteq> ''size''"
  shows "evals \<rho> e' v"
proof -
  have e': "eval \<rho> e' = Some v"
    using postorder_eval [OF p ok(1,3) _ m] v by (auto simp: evals_def)
  note lit = folds_to_evals [OF _ v e']
  show ?thesis
  proof (cases e)
    case (Unary u t x)
    with p lit show ?thesis by (cases u) (auto simp: postorder_def dest: fold_Unary_shape)
  next
    case (Binary b t l r)
    with p have "fold_Binary cf b t l r = Ok ds e'" by (simp add: postorder_def)
    then consider "evals \<rho> e' v" | "e' = l" "b = Shl \<or> b = Shr" | d where "e' = r"
      "b = LAnd \<and> getConstant cf l = Ok d (Some (BoolLiteral True)) \<or> b = LOr \<and> getConstant cf l = Ok d (Some (BoolLiteral False))"
      using fold_Binary_shape Binary lit by blast
    then show ?thesis
    proof cases
      case 2
      with v Binary obtain x where "evals \<rho> l x" by (auto simp: evals_Binary)
      with e' 2 show ?thesis by (simp add: evals_def)
    next
      case 3
      with v Binary show ?thesis by (auto simp: evals_LAnd evals_LOr dest: getConstant_BoolLiteral)
    qed
  next
    case (PathExpression t p')
    with p have "fold_PathExpression cf a t p' = Ok ds e'" by (simp add: postorder_def)
    from fold_PathExpression_keeps [OF this ok v [unfolded PathExpression]] show ?thesis .
  next
    case (Member t x m')
    with p have "fold_Member cf (type_of (hd (children orig))) t x m' = Ok ds e'" by (simp add: postorder_def)
    from fold_Member_keeps [OF this ok(3) v [unfolded Member] m [OF Member]] show ?thesis .
  next
    case (Cast t x)
    with p have "fold_Cast cf t x = Ok ds e'" by (simp add: postorder_def)
    from fold_Cast_keeps [OF this ok(3) v [unfolded Cast]] show ?thesis .
  next
    case (Mux t c x y)
    with p have "fold_Mux cf t c x y = Ok ds e'" by (simp add: postorder_def)
    from fold_Mux_shape [OF this] show ?thesis
    proof
      assume "\<exists>d q. getConstant cf c = Ok d (Some (BoolLiteral q)) \<and> e' = (if q then x else y)"
      then obtain d q where q: "getConstant cf c = Ok d (Some (BoolLiteral q))" "e' = (if q then x else y)" by blast
      with v Mux show ?thesis by (auto simp: evals_Mux dest: getConstant_BoolLiteral [OF q(1)])
    qed (use Mux v in simp)
  next
    case (Slice t x h l)
    with p lit show ?thesis by (auto simp: postorder_def dest: fold_Slice_shape)
  next
    case (PlusSlice t x l w)
    with p lit show ?thesis by (auto simp: postorder_def dest: fold_PlusSlice_shape)
  qed (use p v in \<open>auto simp: postorder_def\<close>)
qed

lemma fold_ArrayIndex_cases:
  assumes "fold_ArrayIndex cf ty t l r = Ok ds e'" "e' \<noteq> ArrayIndex t l r"
  obtains d0 ct cv cb d1 idx d2 lt es d3 where "getConstant cf r = Ok d0 (Some (Constant ct cv cb))"
    "getConstant cf l = Ok d1 (Some (ListExpression lt es))" "asInt cv = Ok d2 idx" "fitsInt cv" "0 \<le> idx"
    "nat idx < length es" "CloneConstants (es ! nat idx) = Ok d3 e'"
  using assms
  by (auto simp: fold_ArrayIndex_def Let_def bind_eq_Some_conv elim!: bind_comp_OkE
      split: option.split_asm if_split_asm)

lemma fold_ArrayIndex_keeps:
  assumes f: "fold_ArrayIndex cf ty t l r = Ok ds e'" and wf: "wf_env \<rho>" and v: "evals \<rho> (ArrayIndex t l r) v"
  shows "evals \<rho> e' v"
proof (cases "e' = ArrayIndex t l r")
  case False
  obtain d0 ct cv cb d1 idx d2 lt es d3 where
    r: "getConstant cf r = Ok d0 (Some (Constant ct cv cb))" and
    l: "getConstant cf l = Ok d1 (Some (ListExpression lt es))" and
    i: "asInt cv = Ok d2 idx" "fitsInt cv" "0 \<le> idx" "nat idx < length es" and
    e: "CloneConstants (es ! nat idx) = Ok d3 e'" by (rule fold_ArrayIndex_cases [OF f False])
  from v obtain x y k where x: "evals \<rho> l x" "evals \<rho> r y" "index_val y = Some k" "nth_val x k = Some v"
    by (auto simp: evals_ArrayIndex)
  have "eval \<rho> (Constant ct cv cb) = Some y" using getConstant_keeps [OF r wf x(2)] by (simp add: evals_def)
  then have "k = cv" using x(3) by (rule index_val_Constant)
  moreover have "idx = cv" using i by (auto simp: asInt_def)
  moreover obtain vs where vs: "x = TupleV vs" "list_all2 (evals \<rho>) es vs"
    using getConstant_keeps [OF l wf x(1)] by (auto simp: evals_lists)
  ultimately have "evals \<rho> (es ! nat idx) v"
    using x(4) i(4) by (auto simp: list_all2_conv_all_nth split: if_split_asm)
  with CloneConstants_keeps [OF wf e] show ?thesis by blast
qed (use v in simp)

lemma fold_expr_TypeName: "fold_expr cf a (TypeNameExpression t) = ret (TypeNameExpression t)"
  by (simp add: fold_expr.simps visit_children_def postorder_def)

lemma fold_expr_keeps_if:
  assumes "fold_expr cf a e = Ok ds e'" "cf_ok \<rho> cf" "cf_typed \<rho> cf" "wf_env \<rho>" "typesKnown cf \<longrightarrow> sizes_ok \<rho> e"
    "evals \<rho> e v"
  shows "evals \<rho> e' v"
  using assms
proof (induction e arbitrary: a ds e' v rule: expr_children_induct)
  case (children e)
  note ok = children.prems(2-4)
  have sub: "typesKnown cf \<longrightarrow> sizes_ok \<rho> x" if "x \<in> set (children e)" for x
    using children.prems(5) that by (subst (asm) sizes_ok.simps) (auto simp: list_all_iff)
  have IH: "keeps \<rho> x y" if "x \<in> set (children e)" "fold_expr cf b x = Ok d y" for x y b d
    using children.IH [OF that ok sub [OF that(1)]] that(2) fold_expr_TypeName by (auto simp: keeps_def)
  show ?case
  proof (cases "\<exists>t l r. e = ArrayIndex t l r")
    case True
    then obtain t l r where e: "e = ArrayIndex t l r" by blast
    with children.prems(1) obtain d1 l' d2 r' d3 where
      f: "fold_expr cf a l = Ok d1 l'" "fold_expr cf False r = Ok d2 r'"
        "fold_ArrayIndex cf (type_of l) t l' r' = Ok d3 e'"
      by (subst (asm) fold_expr.simps) (auto elim!: bind_comp_OkE)
    with e IH have "list_all2 (keeps \<rho>) (children e) [l', r']" by auto
    from with_children_keeps [OF this children.prems(6) ok(3)] e have "evals \<rho> (ArrayIndex t l' r') v" by simp
    with fold_ArrayIndex_keeps [OF f(3) ok(3)] show ?thesis by blast
  next
    case False
    with children.prems(1) obtain d1 cs d2 where m: "mapM_comp (fold_expr cf a) (children e) = Ok d1 cs"
      "postorder cf a e (with_children e cs) = Ok d2 e'"
      by (subst (asm) fold_expr.simps)
        (cases e; auto simp: visit_children_def elim!: bind_comp_OkE split: comp.split_asm)
    have "list_all2 (keeps \<rho>) (children e) cs" by (rule mapM_keeps [OF m(1)]) (rule IH)
    from with_children_keeps [OF this children.prems(6) ok(3)] have w: "evals \<rho> (with_children e cs) v" .
    show ?thesis
    proof (cases "typesKnown cf \<or> (\<forall>t x n. with_children e cs \<noteq> Member t x n)")
      case True
      show ?thesis
      proof (rule postorder_keeps [OF m(2) ok w])
        fix t x n et k
        assume mm: "with_children e cs = Member t x n" "type_of (hd (children e)) = Type_Stack et k"
        then obtain x0 where e: "e = Member t x0 n" by (cases e) auto
        have "sizes_ok \<rho> e" using True mm(1) children.prems(5) by blast
        with children.prems(6) mm e show "n \<noteq> ''size''" by (subst (asm) sizes_ok.simps) (auto simp: evals_def)
      qed
    next
      case False
      then have "e' = with_children e cs" using m(2) by (auto simp: postorder_def fold_Member_def)
      then show ?thesis using w by simp
    qed
  qed
qed

lemma fold_expr_keeps:
  assumes "fold_expr cf a e = Ok ds e'" "cf_ok \<rho> cf" "cf_typed \<rho> cf" "wf_env \<rho>" "sizes_ok \<rho> e" "evals \<rho> e v"
  shows "evals \<rho> e' v"
  using fold_expr_keeps_if [OF assms(1-4) _ assms(6)] assms(5) by blast

section \<open>Members named \<open>size\<close>\<close>

text \<open>The folder takes such a member of an expression with the type of a stack for the size of the
  stack.  Expressions without them stay without them.\<close>

fun no_size :: "expr \<Rightarrow> bool" where
  "no_size (ListExpression t es) = list_all no_size es"
| "no_size (StructExpression t fs) = list_all (\<lambda>f. no_size (snd f)) fs"
| "no_size (HeaderStackExpression t es) = list_all no_size es"
| "no_size (Unary u t x) = no_size x"
| "no_size (Cast t x) = no_size x"
| "no_size (Member t x m) = (m \<noteq> ''size'' \<and> no_size x)"
| "no_size (Binary b t l r) = (no_size l \<and> no_size r)"
| "no_size (ArrayIndex t l r) = (no_size l \<and> no_size r)"
| "no_size (Range t l r) = (no_size l \<and> no_size r)"
| "no_size (Mask t l r) = (no_size l \<and> no_size r)"
| "no_size (Mux t c a b) = (no_size c \<and> no_size a \<and> no_size b)"
| "no_size (Slice t x h l) = (no_size x \<and> no_size h \<and> no_size l)"
| "no_size (PlusSlice t x l w) = (no_size x \<and> no_size l \<and> no_size w)"
| "no_size (MethodCallExpression t mi x es) = (no_size x \<and> list_all no_size es)"
| "no_size (ConstructorCallExpression t es) = list_all no_size es"
| "no_size e = True"

lemma no_size_children: "no_size e \<Longrightarrow> x \<in> set (children e) \<Longrightarrow> no_size x"
  by (cases e) (auto simp: list_all_iff)

lemma no_size_sizes_ok: "no_size e \<Longrightarrow> sizes_ok \<rho> e"
proof (induction e rule: expr_children_induct)
  case (children e)
  then have "list_all (sizes_ok \<rho>) (children e)" using no_size_children by (auto simp: list_all_iff)
  with children.prems show ?case by (subst sizes_ok.simps) (cases e; auto split: p4type.splits)
qed

lemma no_size_literal [simp]: "is_literal e \<Longrightarrow> no_size e"
  by (cases e) (simp_all add: is_literal_def)

lemma no_size_with_children:
  assumes n: "no_size e" and cs: "list_all no_size cs" "length cs = length (children e)"
  shows "no_size (with_children e cs)"
proof (cases e)
  case (StructExpression t fs)
  with cs show ?thesis by (auto simp: list_all_iff dest!: set_zip_rightD)
next
  case (MethodCallExpression t m x as)
  with cs obtain y ys where "cs = y # ys" by (cases cs) auto
  with cs MethodCallExpression show ?thesis by simp
next
  case (Mux t x l r)
  with cs obtain c1 c2 c3 where "cs = [c1, c2, c3]" by (auto simp: length_Suc_conv)
  with cs Mux show ?thesis by simp
next
  case (Slice t x l r)
  with cs obtain c1 c2 c3 where "cs = [c1, c2, c3]" by (auto simp: length_Suc_conv)
  with cs Slice show ?thesis by simp
next
  case (PlusSlice t x l r)
  with cs obtain c1 c2 c3 where "cs = [c1, c2, c3]" by (auto simp: length_Suc_conv)
  with cs PlusSlice show ?thesis by simp
qed (use assms in \<open>auto simp: length_Suc_conv\<close>)

lemma mapM_list_all:
  assumes "mapM_comp f xs = Ok ds ys" "\<And>x d y. x \<in> set xs \<Longrightarrow> f x = Ok d y \<Longrightarrow> P y"
  shows "list_all P ys" "length ys = length xs"
proof -
  have "list_all2 (\<lambda>x y. P y) xs ys"
    by (rule list.rel_mono_strong [OF mapM_comp_Ok_diags [OF assms(1)]]) (use assms(2) in blast)
  then show "list_all P ys" "length ys = length xs"
    by (auto simp: list_all2_conv_all_nth list_all_length)
qed

lemma clone_Constant_no_size: "clone_Constant e = Ok ds e' \<Longrightarrow> no_size e \<Longrightarrow> no_size e'"
  by (cases e) (auto split: p4type.split_asm dest!: mk_constant_literal)

lemma CloneConstants_no_size: "CloneConstants e = Ok ds e' \<Longrightarrow> no_size e \<Longrightarrow> no_size e'"
proof (induction e arbitrary: ds e' rule: expr_children_induct)
  case (children e)
  then obtain d1 cs d2 where m: "mapM_comp CloneConstants (children e) = Ok d1 cs"
    "clone_Constant (with_children e cs) = Ok d2 e'"
    by (subst (asm) CloneConstants.simps) (auto simp: visit_children_def elim!: bind_comp_OkE split: comp.split_asm)
  from mapM_list_all [OF m(1), of no_size] children.IH no_size_children [OF children.prems(2)]
    no_size_with_children [OF children.prems(2)]
  have "no_size (with_children e cs)" by blast
  with clone_Constant_no_size [OF m(2)] show ?case by blast
qed

lemma getConstant_no_size:
  assumes "getConstant cf e = Ok ds (Some c)" "no_size e"
  shows "no_size c"
proof (cases "\<exists>t x. e = Cast t x")
  case True
  then obtain t x where e: "e = Cast t x" by blast
  with assms(1) obtain d where "CloneConstants e = Ok d c" by (auto elim!: bind_comp_OkE split: if_split_asm)
  with CloneConstants_no_size [OF _ assms(2)] show ?thesis by blast
next
  case False
  with getConstant_cases [OF assms(1)] assms(2) show ?thesis by auto
qed

definition cf_no_size :: "cf_env \<Rightarrow> bool" where
  "cf_no_size cf \<longleftrightarrow> (\<forall>t p r. hook cf (PathExpression t p) = Some r \<longrightarrow> no_size r) \<and>
     (\<forall>d c. constants cf d = Some c \<longrightarrow> no_size c)"

lemma fold_Member_no_size:
  assumes "fold_Member cf ty t x m = Ok ds e'" "no_size (Member t x m)"
  shows "no_size e'"
proof (cases "e' = Member t x m")
  case False
  have m: "m \<noteq> ''size''" using assms(2) by simp
  then have "(case (ty, m = ''size'') of (Type_Stack et n, True) \<Rightarrow> A et n | _ \<Rightarrow> B) = B" for A and B :: "expr comp"
    by (cases ty) auto
  with assms(1) False obtain d0 d1 c where c: "getConstant cf x = Ok d0 (Some c)" "member_of_constant ty t x m c = Ok d1 e'"
    by (auto simp: fold_Member_def elim!: bind_comp_OkE split: option.split_asm if_split_asm)
  have n: "no_size c" using getConstant_no_size [OF c(1)] assms(2) by simp
  from c(2) False consider (list) lt es i where "c = ListExpression lt es" "i < length es" "CloneConstants (es ! i) = Ok d1 e'"
    | (struct) st fs y where "c = StructExpression st fs" "map_of fs m = Some y" "CloneConstants y = Ok d1 e'"
    by (auto simp: member_of_constant_def split: option.split_asm if_split_asm)
  then show ?thesis
  proof cases
    case list
    with n have "no_size (es ! i)" by (simp add: list_all_length)
    with list(3) show ?thesis by (rule CloneConstants_no_size)
  next
    case struct
    with n have "no_size y" by (auto simp: list_all_iff dest!: map_of_SomeD)
    with struct(3) show ?thesis by (rule CloneConstants_no_size)
  qed
qed (use assms in simp)

lemma fold_Cast_no_size:
  assumes "fold_Cast cf t x = Ok ds e'" "no_size x"
  shows "no_size e'"
  using fold_Cast_shape [OF assms(1)] assms(2) getConstant_no_size CloneConstants_no_size
  by (auto simp: folds_to_def)

lemma fold_PathExpression_no_size:
  "fold_PathExpression cf a t p = Ok ds e' \<Longrightarrow> cf_no_size cf \<Longrightarrow> no_size e'"
  by (auto simp: fold_PathExpression_def cf_no_size_def Let_def split: option.split_asm decl.split_asm if_split_asm
      intro: CloneConstants_no_size)

lemma fold_ArrayIndex_no_size:
  assumes f: "fold_ArrayIndex cf ty t l r = Ok ds e'" "no_size (ArrayIndex t l r)"
  shows "no_size e'"
proof (cases "e' = ArrayIndex t l r")
  case False
  obtain d0 ct cv cb d1 idx d2 lt es d3 where "getConstant cf r = Ok d0 (Some (Constant ct cv cb))" and
    l: "getConstant cf l = Ok d1 (Some (ListExpression lt es))" and "asInt cv = Ok d2 idx" "fitsInt cv" "0 \<le> idx" and
    i: "nat idx < length es" and e: "CloneConstants (es ! nat idx) = Ok d3 e'"
    by (rule fold_ArrayIndex_cases [OF f(1) False])
  with getConstant_no_size [OF l(1)] f(2) i have "no_size (es ! nat idx)" by (simp add: list_all_length)
  with e show ?thesis by (rule CloneConstants_no_size)
qed (use f in simp)

lemma postorder_no_size:
  assumes p: "postorder cf a orig e = Ok ds e'" and n: "no_size e" and cf: "cf_no_size cf"
  shows "no_size e'"
proof (cases e)
  case (Unary u t x)
  with p n show ?thesis by (cases u) (auto simp: postorder_def folds_to_def dest!: fold_Unary_shape)
next
  case (Binary b t l r)
  with p have "fold_Binary cf b t l r = Ok ds e'" by (simp add: postorder_def)
  with fold_Binary_shape [OF this] n Binary show ?thesis by (auto simp: folds_to_def)
next
  case (PathExpression t q)
  with p cf fold_PathExpression_no_size show ?thesis by (auto simp: postorder_def)
next
  case (Member t x m)
  with p have "fold_Member cf (type_of (hd (children orig))) t x m = Ok ds e'" by (simp add: postorder_def)
  with fold_Member_no_size n Member show ?thesis by blast
next
  case (Cast t x)
  with p n fold_Cast_no_size show ?thesis by (auto simp: postorder_def)
next
  case (Mux t c x y)
  with p have "fold_Mux cf t c x y = Ok ds e'" by (simp add: postorder_def)
  from fold_Mux_shape [OF this] n Mux show ?thesis by auto
next
  case (Slice t x h l)
  with p n show ?thesis by (auto simp: postorder_def folds_to_def dest!: fold_Slice_shape)
next
  case (PlusSlice t x l w)
  with p n show ?thesis by (auto simp: postorder_def folds_to_def dest!: fold_PlusSlice_shape)
qed (use p n in \<open>auto simp: postorder_def\<close>)

lemma fold_expr_no_size: "fold_expr cf a e = Ok ds e' \<Longrightarrow> no_size e \<Longrightarrow> cf_no_size cf \<Longrightarrow> no_size e'"
proof (induction e arbitrary: a ds e' rule: expr_children_induct)
  case (children e)
  note sub = no_size_children [OF children.prems(2)]
  show ?case
  proof (cases "\<exists>t l r. e = ArrayIndex t l r")
    case True
    then obtain t l r where e: "e = ArrayIndex t l r" by blast
    with children.prems(1) obtain d1 l' d2 r' d3 where
      f: "fold_expr cf a l = Ok d1 l'" "fold_expr cf False r = Ok d2 r'"
        "fold_ArrayIndex cf (type_of l) t l' r' = Ok d3 e'"
      by (subst (asm) fold_expr.simps) (auto elim!: bind_comp_OkE)
    from e have "l \<in> set (children e)" "r \<in> set (children e)" by auto
    with children.IH [OF _ f(1) sub children.prems(3)] children.IH [OF _ f(2) sub children.prems(3)]
    have "no_size (ArrayIndex t l' r')" by simp
    with f(3) show ?thesis by (rule fold_ArrayIndex_no_size)
  next
    case False
    with children.prems(1) obtain d1 cs d2 where m: "mapM_comp (fold_expr cf a) (children e) = Ok d1 cs"
      "postorder cf a e (with_children e cs) = Ok d2 e'"
      by (subst (asm) fold_expr.simps)
        (cases e; auto simp: visit_children_def elim!: bind_comp_OkE split: comp.split_asm)
    have "list_all no_size cs" "length cs = length (children e)"
      by (rule mapM_list_all [OF m(1), of no_size]; use children.IH children.prems(3) sub in blast)+
    from no_size_with_children [OF children.prems(2) this] have "no_size (with_children e cs)" .
    with postorder_no_size [OF m(2)] children.prems(3) show ?thesis by blast
  qed
qed

end
