(* ===== verification/TypeCheck_Sound.thy ===== *)
theory TypeCheck_Sound
  imports TypeCheck ConstFold_Typed
begin

text \<open>
  Type checking is sound: an expression that the checker accepts evaluates as before, the types that it
  records are those of the values, and the operands of arithmetic have one type.  That is what strength
  reduction relies on.  The scope of the theorem leaves out the conversions of constants inside lists
  and conditional expressions, casts to new types and structures, and what is checked elsewhere.
\<close>

section \<open>Values of a type\<close>

lemma size_zip_val [termination_simp]: "(v, t) \<in> set (zip vs ts) \<Longrightarrow> size (v::val) < Suc (size_list size vs)"
  by (meson in_set_zipE less_Suc_eq_le order_refl size_list_estimation')

fun conform :: "val \<Rightarrow> p4type \<Rightarrow> bool" where
  "conform (TupleV vs) t =
     (case t of
        Type_List ts \<Rightarrow> length vs = length ts \<and> list_all (\<lambda>(v, u). conform v u) (zip vs ts)
      | Type_Stack u n \<Rightarrow> list_all (\<lambda>v. conform v u) vs
      | _ \<Rightarrow> False)"
| "conform (StructV fs) t =
     (case struct_fields t of
        None \<Rightarrow> False
      | Some fts \<Rightarrow> list_all (\<lambda>f. case map_of fts (fst f) of None \<Rightarrow> False | Some u \<Rightarrow> conform (snd f) u) fs)"
| "conform (EnumV n m) t = (case t of Type_Enum k ms \<Rightarrow> k = n | _ \<Rightarrow> False)"
| "conform v t = has_type v t"

lemma conform_has_type: "conform v t \<Longrightarrow> has_type v t"
  by (cases v) (auto simp: has_type_composite)

definition scalar :: "p4type \<Rightarrow> bool" where
  "scalar t \<longleftrightarrow> as_bits t \<noteq> None \<or> t = Type_Boolean \<or> t = Type_String \<or> t = Type_InfInt"

fun scalar_val :: "val \<Rightarrow> bool" where
  "scalar_val (BitsV w s a) = True"
| "scalar_val (InfV a) = True"
| "scalar_val (BoolV b) = True"
| "scalar_val (StrV s) = True"
| "scalar_val v = False"

lemma as_bits_Some [simp]: "as_bits t = Some (w, s) \<longleftrightarrow> t = Type_Bits w s"
  by (cases t) (auto simp: as_bits_def)

lemma as_bits_Bits [simp]: "as_bits (Type_Bits w s) = Some (w, s)" "as_bits Type_InfInt = None"
  by (simp_all add: as_bits_def)

lemma as_bits_not_None: "as_bits t \<noteq> None \<longleftrightarrow> (\<exists>w s. t = Type_Bits w s)"
  by (cases t) (auto simp: as_bits_def)

lemma scalar_conform: "scalar_val v \<Longrightarrow> conform v t \<longleftrightarrow> has_type v t"
  by (cases v) auto

lemma conform_scalar: "conform v t \<Longrightarrow> scalar t \<Longrightarrow> scalar_val v"
  by (cases v) (auto simp: scalar_def as_bits_def split: p4type.split_asm)

text \<open>No value has the type of a serializable enum: they are outside the evaluation.\<close>

lemma conform_SerEnum: "conform v t \<Longrightarrow> to_SerEnum t = None \<and> strip_SerEnum t = t"
proof (cases t)
  case (Type_SerEnum n u ms)
  moreover assume "conform v t"
  ultimately show ?thesis by (cases v) auto
qed (simp_all add: strip_SerEnum_def)

lemma conform_simps:
  "conform v Type_Boolean \<longleftrightarrow> (\<exists>b. v = BoolV b)"
  "conform v Type_InfInt \<longleftrightarrow> (\<exists>a. v = InfV a)"
  "conform v Type_String \<longleftrightarrow> (\<exists>a. v = StrV a)"
  "conform v (Type_Bits w s) \<longleftrightarrow> (\<exists>k a. v = BitsV k s a \<and> w = int k \<and> w \<le> 2147483647)"
  "\<not> conform v (Type_Set u)" "\<not> conform v (Type_Newtype n u)" "\<not> conform v (Type_Other n)"
  by (cases v; auto)+

section \<open>What is assumed of the environment\<close>

fun decl_type :: "tdecl \<Rightarrow> p4type" where
  "decl_type (Variable t) = t"
| "decl_type (Parameter d t) = t"
| "decl_type (ConstantDecl t) = t"
| "decl_type (InstanceDecl t) = t"
| "decl_type (IdDecl t) = t"
| "decl_type (TableDecl n t) = t"
| "decl_type (OtherDecl t) = t"
| "decl_type ParserState = Type_Other ''state''"
| "decl_type TypeDecl = Type_Other ''type''"

text \<open>The values of the variables have the declared types; the constants that the folder has recorded
  are typed.\<close>

definition tc_ok :: "sem_env \<Rightarrow> tc_env \<Rightarrow> bool" where
  "tc_ok \<rho> env \<longleftrightarrow> wf_env \<rho> \<and> cf_ok \<rho> (folder env) \<and> cf_typed \<rho> (folder env) \<and> cf_no_size (folder env) \<and>
     (\<forall>p d v. getDeclaration env p = Some d \<longrightarrow> var_val \<rho> p = Some v \<longrightarrow> conform v (decl_type d))"

definition sound :: "sem_env \<Rightarrow> expr \<Rightarrow> checked \<Rightarrow> bool" where
  "sound \<rho> e r \<longleftrightarrow> (\<forall>t. typeOf r = Some t \<longrightarrow>
     no_size (node r) \<and> (\<forall>v. eval \<rho> e = Some v \<longrightarrow> evals \<rho> (node r) v \<and> conform v t))"

lemma soundI:
  assumes "\<And>t. typeOf r = Some t \<Longrightarrow> no_size (node r)"
    and "\<And>t v. typeOf r = Some t \<Longrightarrow> eval \<rho> e = Some v \<Longrightarrow> evals \<rho> (node r) v \<and> conform v t"
  shows "sound \<rho> e r"
  using assms by (simp add: sound_def)

lemma soundD:
  assumes "sound \<rho> e r" "typeOf r = Some t"
  shows "no_size (node r)" "eval \<rho> e = Some v \<Longrightarrow> evals \<rho> (node r) v" "eval \<rho> e = Some v \<Longrightarrow> conform v t"
  using assms by (auto simp: sound_def)

lemma sound_untyped [simp]: "sound \<rho> e (untyped e')"
  by (simp add: sound_def untyped_def)

text \<open>A node that is left without a type.\<close>

lemma absent_Ok [simp]: "absent env e = Ok ds r \<longleftrightarrow> 0 < errorsSoFar env \<and> ds = [] \<and> r = untyped e"
  by (auto simp: absent_def no_type_def)

lemma no_type_OkD: "no_type env x = Ok ds r \<Longrightarrow> 0 < errorsSoFar env \<and> ds = [] \<and> r = x"
  by (auto simp: no_type_def split: if_split_asm)

text \<open>The count of the errors only matters to the nodes without a type; while there are no errors the
  environment stays the same.\<close>

lemma tc_ok_count [simp]: "tc_ok \<rho> (env\<lparr>errorsSoFar := n\<rparr>) = tc_ok \<rho> env"
  by (simp add: tc_ok_def)

lemma countedE:
  assumes "counted env m f = Ok ds y" "no_error ds"
  obtains d1 x d2 where "m = Ok d1 x" "f env x = Ok d2 y" "ds = d1 @ d2" "no_error d1" "no_error d2"
proof -
  from assms(1) obtain d1 x where m: "m = Ok d1 x" by (cases m) (simp_all add: counted_def)
  with assms(1) obtain d2 where f: "f (env\<lparr>errorsSoFar := errorsSoFar env + errorCount d1\<rparr>) x = Ok d2 y" "ds = d1 @ d2"
    unfolding counted_def m comp.case by (elim bind_comp_OkE) simp
  with assms(2) have "no_error d1" "no_error d2" by simp_all
  moreover from this(1) have "errorCount d1 = 0" by (simp add: no_error_errorCount)
  ultimately show thesis using that [OF m _ f(2)] f(1) by simp
qed

lemma counted_all_clean:
  "counted_all env f xs = Ok ds ys \<Longrightarrow> no_error ds \<Longrightarrow> mapM_comp (f env) xs = Ok ds ys"
proof (induction xs arbitrary: ds ys)
  case (Cons x xs)
  from Cons(2) obtain d1 z d2 where z: "f env x = Ok d1 z" "ds = d1 @ d2" "no_error d2"
    "bind_comp (counted_all env f xs) (\<lambda>ys. ret (z # ys)) = Ok d2 ys"
    unfolding counted_all.simps using Cons(3) by (elim countedE) blast+
  from z(4) obtain zs where "counted_all env f xs = Ok d2 zs" "ys = z # zs" by (elim bind_comp_OkE) simp
  with Cons(1) z show ?case by simp
qed simp

lemma typed_node_OkD: "typed_node e t c l = Ok ds r \<Longrightarrow> ds = [] \<and> node r = e \<and> typeOf r = Some t"
  by (auto simp: typed_node_def)

lemma reject_OkD: "reject e = Ok ds r \<Longrightarrow> r = untyped e \<and> \<not> no_error ds"
  by (auto simp: reject_def no_error_def)

lemma sound_typed_node:
  assumes "typed_node e' t c l = Ok ds r" "no_size e'"
    and "\<And>v. eval \<rho> e = Some v \<Longrightarrow> evals \<rho> e' v \<and> conform v t"
  shows "sound \<rho> e r"
  using typed_node_OkD [OF assms(1)] assms(2,3) by (auto intro!: soundI)

text \<open>Folding a node whose values are scalars.\<close>

lemma sound_folded:
  assumes f: "folded env e' = Ok ds r" and ok: "tc_ok \<rho> env" and n: "no_size e'"
    and v: "\<And>v. eval \<rho> e = Some v \<Longrightarrow> evals \<rho> e' v \<and> scalar_val v"
  shows "sound \<rho> e r"
proof -
  from f obtain ds1 where r: "constantFold env e' = Ok ds1 (node r)" "typeOf r = Some (type_of (node r))"
    by (auto simp: folded_def typed_node_def elim!: bind_comp_OkE)
  show ?thesis
  proof (cases "readOnly env")
    case True
    with r(1) have "node r = e'" by (simp add: constantFold_def)
    with r(2) n v show ?thesis by (auto intro!: soundI simp: scalar_conform evals_type)
  next
    case False
    with r(1) have f: "fold_expr (folder env) False e' = Ok ds1 (node r)" by (simp add: constantFold_def)
    show ?thesis
    proof (rule soundI)
      show "no_size (node r)" using fold_expr_no_size [OF f n] ok by (simp add: tc_ok_def)
      fix t v
      assume "typeOf r = Some t" "eval \<rho> e = Some v"
      moreover from v [OF this(2)] have "evals \<rho> (node r) v"
        using fold_expr_keeps [OF f _ _ _ no_size_sizes_ok [OF n]] ok by (simp add: tc_ok_def)
      ultimately show "evals \<rho> (node r) v \<and> conform v t"
        using r(2) v evals_type by (auto simp: scalar_conform)
    qed
  qed
qed

section \<open>Leaves\<close>

lemma postorder_Constant_sound:
  assumes "postorder_Constant t v b = Ok ds r" "\<And>w s. t = Type_Bits w s \<Longrightarrow> w \<le> 2147483647"
  shows "sound \<rho> (Constant t v b) r"
proof -
  from assms(1) have r: "typed_node (Constant t v b) t True False = Ok ds r"
    by (simp add: postorder_Constant_def split: if_split_asm)
  show ?thesis by (rule sound_typed_node [OF r]) (use assms(2) in \<open>auto simp: evals_Constant eval_Constant_iff\<close>)
qed

lemma postorder_PathExpression_sound:
  assumes "postorder_PathExpression env t p = Ok ds r" "tc_ok \<rho> env"
  shows "sound \<rho> (PathExpression t p) r"
proof (cases "getDeclaration env p")
  case None
  with assms(1) show ?thesis by (auto simp: postorder_PathExpression_def split: if_split_asm dest!: reject_OkD)
next
  case (Some d)
  show ?thesis
  proof (cases "typeOf r")
    case (Some u)
    with assms(1) \<open>getDeclaration env p = Some d\<close> have r: "node r = PathExpression u p" "u = decl_type d"
      by (auto simp: postorder_PathExpression_def path_node_def Let_def untyped_def split: tdecl.split_asm if_split_asm
          dest!: typed_node_OkD reject_OkD no_type_OkD)
    with assms(2) \<open>getDeclaration env p = Some d\<close> Some show ?thesis
      by (auto intro!: soundI simp: evals_iff tc_ok_def conform_has_type)
  qed (simp add: sound_def)
qed

lemma literals_sound:
  "postorder_BoolLiteral p = Ok ds r \<Longrightarrow> sound \<rho> (BoolLiteral p) r"
  "postorder_StringLiteral s = Ok ds r \<Longrightarrow> sound \<rho> (StringLiteral s) r"
  "postorder_TypeNameExpression env u = Ok ds r \<Longrightarrow> sound \<rho> (TypeNameExpression u) r"
  "postorder_DefaultExpression = Ok ds r \<Longrightarrow> sound \<rho> (DefaultExpression u) r"
  by (auto simp: postorder_BoolLiteral_def postorder_StringLiteral_def postorder_TypeNameExpression_def
      postorder_DefaultExpression_def elim!: sound_typed_node split: if_split_asm)

text \<open>A node whose type another part of the checker has recorded.\<close>

definition typed_elsewhere :: "sem_env \<Rightarrow> expr \<Rightarrow> bool" where
  "typed_elsewhere \<rho> e \<longleftrightarrow>
     (case eval \<rho> e of None \<Rightarrow> True | Some v \<Rightarrow> typed \<rho> e \<and> conform v (type_of e))"

lemma checked_elsewhere_sound:
  assumes "checked_elsewhere e = Ok ds r" "typed_elsewhere \<rho> e" "no_size e"
  shows "sound \<rho> e r"
  using assms by (auto simp: checked_elsewhere_def typed_elsewhere_def evals_def split: if_split_asm
      elim!: sound_typed_node)

section \<open>Binary operators\<close>

lemma strip_value: "conform v t \<Longrightarrow> conform v (strip_SerEnum t)"
  by (simp add: conform_SerEnum)

lemma binaryBool_sound:
  assumes c: "binaryBool env b l r = Ok ds x" and s: "sound \<rho> e1 l" "sound \<rho> e2 r" and b: "b = LAnd \<or> b = LOr"
  shows "sound \<rho> (Binary b t e1 e2) x"
proof (cases "typeOf l = Some Type_Boolean \<and> typeOf r = Some Type_Boolean")
  case True
  with c have x: "typed_node (Binary b Type_Boolean (node l) (node r)) Type_Boolean (isConst l \<and> isConst r) False = Ok ds x"
    by (simp add: binaryBool_def)
  note d = soundD [OF s(1) True [THEN conjunct1]] soundD [OF s(2) True [THEN conjunct2]]
  show ?thesis
  proof (rule sound_typed_node [OF x])
    fix v
    assume "eval \<rho> (Binary b t e1 e2) = Some v"
    with b d show "evals \<rho> (Binary b Type_Boolean (node l) (node r)) v \<and> conform v Type_Boolean"
      by (auto simp: evals_LAnd evals_LOr bind_eq_Some_conv split: if_split_asm) blast+
  qed (use d in simp)
next
  case False
  with c show ?thesis by (auto simp: binaryBool_def Let_def split: option.split_asm if_split_asm dest!: reject_OkD)
qed

text \<open>The types of the values of a cast that the checker inserts around an integer.\<close>

lemma insert_cast_evals:
  assumes c: "insert_cast env (Type_Bits (int w) s) x = Ok ds e'" and ok: "tc_ok \<rho> env" and n: "no_size (node x)"
    and v: "evals \<rho> (node x) (InfV a)" "s \<longrightarrow> 0 < w" "int w \<le> 2147483647"
  shows "evals \<rho> e' (BitsV w s (norm w s a))"
proof -
  have e: "evals \<rho> (Cast (Type_Bits (int w) s) (node x)) (BitsV w s (norm w s a))"
    using v by (auto simp: evals_Cast)
  show ?thesis
  proof (cases "isConst x \<and> \<not> readOnly env")
    case True
    with c have "fold_expr (folder env) False (Cast (Type_Bits (int w) s) (node x)) = Ok ds e'"
      by (simp add: insert_cast_def constantFold_def)
    from fold_expr_keeps [OF this _ _ _ no_size_sizes_ok e] ok n show ?thesis by (simp add: tc_ok_def)
  next
    case False
    with c e show ?thesis by (auto simp: insert_cast_def constantFold_def split: if_split_asm)
  qed
qed

lemma insert_cast_no_size:
  "insert_cast env t x = Ok ds e' \<Longrightarrow> tc_ok \<rho> env \<Longrightarrow> no_size (node x) \<Longrightarrow> no_size e'"
  by (auto simp: insert_cast_def constantFold_def tc_ok_def split: if_split_asm dest!: fold_expr_no_size)

text \<open>An operation has recorded a type only if its operands have types.  A value of the source is made of
  values of the operands.\<close>

lemma operandsE:
  assumes "eval \<rho> (Binary b t e1 e2) = Some v" "b \<noteq> LAnd" "b \<noteq> LOr" "sound \<rho> e1 l" "sound \<rho> e2 r"
    "typeOf l = Some lt" "typeOf r = Some rt"
  obtains x y where "eval \<rho> e1 = Some x" "eval \<rho> e2 = Some y" "binop_val b x y = Some v"
    "evals \<rho> (node l) x" "evals \<rho> (node r) y" "conform x lt" "conform y rt"
  using assms(1) unfolding eval_Binary_strict [OF assms(2,3)]
  by (auto simp: bind_eq_Some_conv soundD [OF assms(4,6)] soundD [OF assms(5,7)] intro: that)

lemma folded_no_size: "folded env e' = Ok ds x \<Longrightarrow> tc_ok \<rho> env \<Longrightarrow> no_size e' \<Longrightarrow> no_size (node x)"
  by (auto simp: folded_def typed_node_def constantFold_def tc_ok_def split: if_split_asm
      elim!: bind_comp_OkE dest: fold_expr_no_size)

text \<open>A binary operation whose operands have values of one type.\<close>

lemma evals_BinaryI:
  "evals \<rho> l x \<Longrightarrow> evals \<rho> r y \<Longrightarrow> binop_val b x y = Some v \<Longrightarrow> has_type v t \<Longrightarrow> \<not> arithmetic b \<Longrightarrow>
     b \<noteq> LAnd \<Longrightarrow> b \<noteq> LOr \<Longrightarrow> evals \<rho> (Binary b t l r) v"
  by (auto simp: evals_Binary)

lemma binop_scalar: "binop_val b x y = Some v \<Longrightarrow> scalar_val x \<Longrightarrow> scalar_val y \<Longrightarrow> scalar_val v"
  by (cases x; cases y) 
    (auto simp: binop_val_def split: if_split_asm option.split_asm elim!: shift_val.elims)

lemma same_type_arith:
  assumes "evals \<rho> l x" "evals \<rho> r y" "binop_val b x y = Some v" "has_type x t" "has_type y t" "t = Type_InfInt \<or> t = Type_Bits w s"
    "b \<noteq> LAnd" "b \<noteq> LOr" "b \<noteq> Equ" "b \<noteq> Neq" "b \<noteq> Shl" "b \<noteq> Shr" "b \<noteq> Concat" "\<not> is_relation b"
  shows "evals \<rho> (Binary b t l r) v \<and> conform v t \<and> scalar_val v"
proof -
  from assms(3,9-14) obtain k p q where u: "unify_ints x y = Some (k, p, q)"
    and v: "(\<exists>z. arith b p q = Some z \<and> v = int_val k z) \<or> (\<exists>w s z. k = Some (w, s) \<and> v = BitsV w s z)"
    by (auto simp: binop_val_def is_relation_def split: if_split_asm option.split_asm)
  have "has_type v t \<and> scalar_val v" using unify_same_type [OF assms(4,5) u] v assms(4) by auto
  moreover have "type_of l = t" "type_of r = t"
    using evals_type [OF assms(1)] evals_type [OF assms(2)] assms(4-6) unify_same_type [OF assms(4,5) u] by auto
  ultimately show ?thesis using assms(1-3,7,8) by (auto simp: evals_Binary scalar_conform)
qed

definition arith_op :: "binop \<Rightarrow> bool" where
  "arith_op b \<longleftrightarrow> b \<notin> {LAnd, LOr, Equ, Neq, Shl, Shr, Concat} \<and> \<not> is_relation b"

lemma cast_if_no_size:
  "cast_if c env t x = Ok ds e' \<Longrightarrow> tc_ok \<rho> env \<Longrightarrow> no_size (node x) \<Longrightarrow> no_size e'"
  by (auto simp: cast_if_def split: if_split_asm dest: insert_cast_no_size)

lemma if_reject: "(if c then reject e else m) = Ok ds x \<Longrightarrow> typeOf x = Some u \<Longrightarrow> \<not> c \<and> m = Ok ds x"
  by (auto simp: untyped_def split: if_split_asm dest!: reject_OkD)

lemma if_OkE: "(if c then a else b) = Ok ds x \<Longrightarrow> (a = Ok ds x \<Longrightarrow> P) \<Longrightarrow> (b = Ok ds x \<Longrightarrow> P) \<Longrightarrow> P"
  by (simp split: if_split_asm)

text \<open>What is left of \<^const>\<open>binaryArith\<close> when it succeeds.\<close>

lemma binaryArith_cases:
  assumes c: "binaryArith env b l r = Ok ds x" and t: "typeOf x = Some u" "typeOf l = Some lt" "typeOf r = Some rt"
  obtains
    (inf) "strip_SerEnum lt = Type_InfInt" "strip_SerEnum rt = Type_InfInt" "folded env (Binary b Type_InfInt (node l) (node r)) = Ok ds x"
  | (cast) doLeft doRight leftType rightType ds1 ds2 l' r' where
      "cast_if doLeft env leftType l = Ok ds1 l'" "cast_if doRight env rightType r = Ok ds2 r'"
      "node x = Binary b u l' r'"
      "to_SerEnum lt = None \<Longrightarrow> to_SerEnum rt = None \<Longrightarrow>
         (\<not> doLeft \<and> \<not> doRight \<and> lt = rt \<and> u = lt \<and> as_bits lt \<noteq> None) \<or>
         (doLeft \<and> \<not> doRight \<and> lt = Type_InfInt \<and> leftType = rt \<and> u = rt \<and> as_bits rt \<noteq> None) \<or>
         (\<not> doLeft \<and> doRight \<and> rt = Type_InfInt \<and> rightType = lt \<and> u = lt \<and> as_bits lt \<noteq> None)"
proof -
  note c0 = c [unfolded binaryArith_def Let_def t option.case prod.case]
  note c1 = if_reject [OF c0 t(1), THEN conjunct2]
  note c2 = if_reject [OF c1 t(1), THEN conjunct2] and f1 = if_reject [OF c1 t(1), THEN conjunct1]
  note c3 = if_reject [OF c2 t(1), THEN conjunct2] and f2 = if_reject [OF c2 t(1), THEN conjunct1]
  show thesis
  proof (cases "strip_SerEnum lt = Type_InfInt \<and> strip_SerEnum rt = Type_InfInt")
    case True
    then show thesis using c3 by (intro inf) auto
  next
    case False
    note c4 = c3 [unfolded if_not_P [OF False]]
    note c5 = if_reject [OF c4 t(1), THEN conjunct2] and f5 = if_reject [OF c4 t(1), THEN conjunct1]
    note c6 = if_reject [OF c5 t(1), THEN conjunct2] and f6 = if_reject [OF c5 t(1), THEN conjunct1]
    show thesis using c6
    proof (elim bind_comp_OkE, goal_cases)
      case (1 ds1 l' ds2 ds3 r' ds4)
      note a = typed_node_OkD [OF 1(4)]
      show thesis
      proof (rule cast [OF 1(1) 1(3)], goal_cases)
        case 1
        show ?case using a t(1) by simp
      next
        case n: 2
        then have n': "strip_SerEnum lt = lt" "strip_SerEnum rt = rt" by (simp_all add: strip_SerEnum_def)
        note facts = f1 [unfolded n n'] f2 [unfolded n n'] f5 [unfolded n n'] f6 [unfolded n n']
          False [unfolded n n'] a [unfolded n n'] t(1)
        have "lt = Type_InfInt \<or> (\<exists>w s. lt = Type_Bits w s)" "rt = Type_InfInt \<or> (\<exists>w s. rt = Type_Bits w s)"
          using facts(1,2) as_bits_not_None by blast+
        with facts(3-) n n' show ?case by (elim disjE exE) simp_all
      qed
    qed
  qed
qed

lemma binaryArith_no_size:
  assumes "binaryArith env b l r = Ok ds x" "tc_ok \<rho> env" "no_size (node l)" "no_size (node r)"
    "typeOf x = Some u" "typeOf l = Some lt" "typeOf r = Some rt"
  shows "no_size (node x)"
  using assms(1,5-7)
proof (cases rule: binaryArith_cases)
  case inf
  with folded_no_size [OF _ assms(2)] assms(3,4) show ?thesis by simp
next
  case cast
  with cast_if_no_size [OF _ assms(2)] assms(3,4) show ?thesis by auto
qed

lemma binop_val_norm:
  assumes "b \<notin> {Equ, Neq, Shl, Shr, Concat}"
  shows "binop_val b (InfV a) (BitsV w s c) = binop_val b (BitsV w s (norm w s a)) (BitsV w s c)"
    "binop_val b (BitsV w s c) (InfV a) = binop_val b (BitsV w s c) (BitsV w s (norm w s a))"
  using assms by (auto simp: binop_val_def)

text \<open>An operand of type \<open>int\<close> beside a sized one, and its value.\<close>

lemma cast_if_evals:
  assumes c: "cast_if True env t x = Ok ds e'" and ok: "tc_ok \<rho> env" and n: "no_size (node x)"
    and p: "evals \<rho> (node x) p" "conform p Type_InfInt" and q: "evals \<rho> y q" "conform q t" "as_bits t \<noteq> None"
  obtains a w s k where "p = InfV a" "t = Type_Bits (int w) s" "evals \<rho> e' (BitsV w s (norm w s a))" "q = BitsV w s k"
proof -
  from q(2,3) obtain w s k where q': "q = BitsV w s k" "t = Type_Bits (int w) s" "int w \<le> 2147483647"
    by (auto simp: as_bits_not_None conform_simps)
  from p(2) obtain a where p': "p = InfV a" by (auto simp: conform_simps)
  have wf: "wf_env \<rho>" using ok by (simp add: tc_ok_def)
  from evals_wf [OF wf q(1)] q'(1) have "s \<longrightarrow> 0 < w" by (auto simp: in_range_def)
  with insert_cast_evals [of env w s x ds e' \<rho> a] c ok n p p' q' show thesis
    by (intro that [of a w s k]) (auto simp: cast_if_def)
qed

lemma binaryArith_sound:
  assumes c: "binaryArith env b l r = Ok ds x" and ok: "tc_ok \<rho> env" and s: "sound \<rho> e1 l" "sound \<rho> e2 r"
    and b: "arith_op b"
  shows "sound \<rho> (Binary b t e1 e2) x"
proof (cases "typeOf x")
  case (Some u)
  with c obtain lt rt where t: "typeOf l = Some lt" "typeOf r = Some rt"
    by (auto simp: binaryArith_def Let_def untyped_def split: option.split_asm)
  note d = soundD [OF s(1) t(1)] soundD [OF s(2) t(2)]
  have n: "no_size (node x)" using binaryArith_no_size [OF c ok d(1) d(4) Some t] .
  have b': "b \<noteq> LAnd" "b \<noteq> LOr" "b \<noteq> Equ" "b \<noteq> Neq" "b \<noteq> Shl" "b \<noteq> Shr" "b \<noteq> Concat" "\<not> is_relation b"
    using b by (auto simp: arith_op_def)
  have "evals \<rho> (node x) v \<and> conform v u" if "eval \<rho> (Binary b t e1 e2) = Some v" for v
  proof -
    from operandsE [OF that b'(1,2) s t] obtain p q where
      e: "eval \<rho> e1 = Some p" "eval \<rho> e2 = Some q" "binop_val b p q = Some v"
      "evals \<rho> (node l) p" "evals \<rho> (node r) q" "conform p lt" "conform q rt" by blast
    note wf = evals_wf [OF _ e(4)] evals_wf [OF _ e(5)]
    have wfe: "wf_env \<rho>" using ok by (simp add: tc_ok_def)
    from conform_SerEnum [OF e(6)] conform_SerEnum [OF e(7)] have
      ns: "to_SerEnum lt = None" "strip_SerEnum lt = lt" "to_SerEnum rt = None" "strip_SerEnum rt = rt" by auto
    show ?thesis using c Some t
    proof (cases rule: binaryArith_cases)
      case inf
      with ns e(6,7) have h: "has_type p Type_InfInt" "has_type q Type_InfInt" by (auto dest: conform_has_type)
      with same_type_arith [OF e(4,5,3) h _ b'] have "evals \<rho> (Binary b Type_InfInt (node l) (node r)) v \<and> scalar_val v" by simp
      then have "sound \<rho> (Binary b Type_InfInt (node l) (node r)) x"
        by (intro sound_folded [OF inf(3) ok]) (use d in \<open>auto simp: evals_def\<close>)
      with \<open>evals \<rho> (Binary b Type_InfInt (node l) (node r)) v \<and> scalar_val v\<close> Some show ?thesis
        by (auto simp: sound_def evals_def)
    next
      case (cast doLeft doRight leftType rightType ds1 ds2 l' r')
      have op: "b \<notin> {Equ, Neq, Shl, Shr, Concat}" using b by (auto simp: arith_op_def)
      have fin: ?thesis if "evals \<rho> l' p'" "evals \<rho> r' q'" "binop_val b p' q' = Some v" "has_type p' u" "has_type q' u"
        "u = Type_Bits w k" for p' q' w k
        using same_type_arith [OF that(1-5) _ b'] that(6) cast(3) by auto
      from cast(4) [OF ns(1,3)] consider
        (none) "\<not> doLeft" "\<not> doRight" "lt = rt" "u = lt" "as_bits lt \<noteq> None"
      | (left) "doLeft" "\<not> doRight" "lt = Type_InfInt" "leftType = rt" "u = rt" "as_bits rt \<noteq> None"
      | (right) "\<not> doLeft" "doRight" "rt = Type_InfInt" "rightType = lt" "u = lt" "as_bits lt \<noteq> None" by blast
      then show ?thesis
      proof cases
        case none
        with cast(1,2) have "l' = node l" "r' = node r" by (auto simp: cast_if_def)
        with none e fin [of p q] conform_has_type show ?thesis by (auto simp: as_bits_not_None)
      next
        case left
        with cast(1,2) have r': "r' = node r" and l: "cast_if True env rt l = Ok ds1 l'" by (auto simp: cast_if_def)
        from cast_if_evals [OF l ok d(1) e(4) e(6) [unfolded left(3)] e(5,7) left(6)] obtain a w k j where
          *: "p = InfV a" "rt = Type_Bits (int w) k" "evals \<rho> l' (BitsV w k (norm w k a))" "q = BitsV w k j" .
        with r' e left fin [of "BitsV w k (norm w k a)" q] binop_val_norm [OF op] show ?thesis by auto
      next
        case right
        with cast(1,2) have l': "l' = node l" and r: "cast_if True env lt r = Ok ds2 r'" by (auto simp: cast_if_def)
        from cast_if_evals [OF r ok d(4) e(5) e(7) [unfolded right(3)] e(4,6) right(6)] obtain a w k j where
          *: "q = InfV a" "lt = Type_Bits (int w) k" "evals \<rho> r' (BitsV w k (norm w k a))" "p = BitsV w k j" .
        with l' e right fin [of p "BitsV w k (norm w k a)"] binop_val_norm [OF op] show ?thesis by auto
      qed
    qed
  qed
  with n Some show ?thesis by (intro soundI) auto
qed (simp add: sound_def)

lemma unsBinaryArith_sound:
  assumes c: "unsBinaryArith env b l r = Ok ds x" and "tc_ok \<rho> env" "sound \<rho> e1 l" "sound \<rho> e2 r" "arith_op b"
  shows "sound \<rho> (Binary b t e1 e2) x"
proof (cases "typeOf x")
  case (Some u)
  with c obtain lt rt where t: "typeOf l = Some lt" "typeOf r = Some rt"
    by (auto simp: unsBinaryArith_def Let_def untyped_def split: option.split_asm)
  note c0 = c [unfolded unsBinaryArith_def Let_def t option.case prod.case]
  note c1 = if_reject [OF c0 Some, THEN conjunct2]
  note c2 = if_reject [OF c1 Some, THEN conjunct2]
  note c3 = if_reject [OF c2 Some, THEN conjunct2]
  note c4 = if_reject [OF c3 Some, THEN conjunct2]
  show ?thesis by (rule binaryArith_sound [OF c4 assms(2-)])
qed (simp add: sound_def)

text \<open>Shifts: the amount keeps its value when it becomes unsigned.\<close>

lemma constant_amount_cases:
  assumes "constant_amount lt rt e = Ok ds (Some (amt, rt'))"
  obtains (same) "amt = e" "rt' = rt"
  | (unsigned) t0 v b w where "to_Constant e = Some (t0, v, b)" "0 \<le> v" "rt = Type_Bits w True" "rt' = Type_Bits w False"
      "0 \<le> w" "amt = Constant (Type_Bits w False) (norm (nat w) False v) b"
  using assms
  by (auto simp: constant_amount_def split: option.split_asm if_split_asm prod.split_asm bool.split_asm comp.split_asm
      elim!: bind_comp_OkE mk_constant_OkD)

lemma constant_amount_evals:
  assumes c: "constant_amount lt rt e = Ok ds (Some (amt, rt'))" and y: "evals \<rho> e y" "conform y rt"
    and n: "shift_amount y = Some n"
  shows "\<exists>y'. evals \<rho> amt y' \<and> shift_amount y' = Some n"
  using c
proof (cases rule: constant_amount_cases)
  case same
  with y n show ?thesis by blast
next
  case (unsigned t0 v b w)
  then have e: "e = Constant t0 v b" by simp
  with y unsigned(3) have "t0 = Type_Bits w True" "w \<le> 2147483647" "in_range (nat w) True v" "y = BitsV (nat w) True v"
    by (auto simp: evals_Constant eval_Constant_iff conform_simps)
  moreover from this(3) unsigned(2) have "in_range (nat w) False v"
    by (auto simp: in_range_def elim!: order.strict_trans2)
  ultimately show ?thesis using unsigned n by (auto simp: evals_Constant norm_id intro!: exI [of _ "BitsV (nat w) False v"])
qed

lemma tc_shift_sound:
  assumes c: "tc_shift env b l r = Ok ds x" and ok: "tc_ok \<rho> env" and s: "sound \<rho> e1 l" "sound \<rho> e2 r"
    and b: "b = Shl \<or> b = Shr"
  shows "sound \<rho> (Binary b t e1 e2) x"
proof (cases "typeOf x")
  case (Some u)
  with c obtain lt rt where t: "typeOf l = Some lt" "typeOf r = Some rt"
    by (auto simp: tc_shift_def Let_def untyped_def split: option.split_asm)
  note d = soundD [OF s(1) t(1)] soundD [OF s(2) t(2)]
  from c Some obtain d1 amt rt' d2 where
    amt: "constant_amount (strip_SerEnum lt) rt (node r) = Ok d1 (Some (amt, rt'))" and
    m: "(if is_signed rt' then reject (Binary b Type_Unknown (node l) (node r))
         else if as_bits (strip_SerEnum lt) = None \<and> strip_SerEnum lt \<noteq> Type_InfInt
              then reject (Binary b Type_Unknown (node l) (node r))
         else if strip_SerEnum lt = Type_InfInt \<and> rt' \<noteq> Type_InfInt \<and> \<not> isConst r
              then reject (Binary b Type_Unknown (node l) (node r))
         else if isConst l \<and> isConst r then folded env (Binary b (strip_SerEnum lt) (node l) amt)
         else typed_node (Binary b (strip_SerEnum lt) (node l) amt) (strip_SerEnum lt) False False) = Ok d2 x"
    by (simp add: tc_shift_def Let_def t untyped_def) (auto elim!: bind_comp_OkE split: option.split_asm)
  note m1 = if_reject [OF m Some, THEN conjunct2]
  note m2 = if_reject [OF m1 Some, THEN conjunct2] and f = if_reject [OF m1 Some, THEN conjunct1]
  note m3 = if_reject [OF m2 Some, THEN conjunct2]
  have n: "no_size (Binary b (strip_SerEnum lt) (node l) amt)"
    using amt by (cases rule: constant_amount_cases) (use d in auto)
  have v: "evals \<rho> (Binary b (strip_SerEnum lt) (node l) amt) v \<and> conform v (strip_SerEnum lt) \<and> scalar_val v"
    if e: "eval \<rho> (Binary b t e1 e2) = Some v" for v
  proof -
    from operandsE [OF e _ _ s t] b obtain p q where
      e: "binop_val b p q = Some v" "evals \<rho> (node l) p" "evals \<rho> (node r) q" "conform p lt" "conform q rt"
      by blast
    from e(1) b obtain k where k: "shift_amount q = Some k" "shift_val b p k = Some v"
      by (auto simp: binop_val_def bind_eq_Some_conv)
    from constant_amount_evals [OF amt e(3,5) k(1)] obtain q' where
      q': "evals \<rho> amt q'" "shift_amount q' = Some k" by blast
    have p: "has_type p (strip_SerEnum lt)" using conform_has_type strip_value e(4) by blast
    with shift_val_type [OF k(2)] have "has_type v (strip_SerEnum lt)" by simp
    moreover have "scalar_val v" using k(2) by (auto elim: shift_val.elims)
    moreover have "binop_val b p q' = Some v" using k(2) q'(2) b by (auto simp: binop_val_def)
    ultimately show ?thesis using e(2) q'(1) b
      by (auto simp: arithmetic_def scalar_conform intro!: evals_BinaryI)
  qed
  show ?thesis
  proof (cases "isConst l \<and> isConst r")
    case True
    with m3 v show ?thesis by (intro sound_folded [OF _ ok n]) auto
  next
    case False
    with m3 v n show ?thesis by (auto elim!: sound_typed_node)
  qed
qed (simp add: sound_def)

lemma tc_concat_cases:
  assumes c: "tc_concat env l r = Ok ds x" "no_error ds" and t: "typeOf x = Some u" "typeOf l = Some lt" "typeOf r = Some rt"
  obtains (string) "lt = Type_String" "rt = Type_String" "u = Type_String" "node x = Binary Concat Type_String (node l) (node r)"
  | (bits) wl sl wr sr l' r' where "strip_SerEnum lt = Type_Bits wl sl" "strip_SerEnum rt = Type_Bits wr sr"
      "wl + wr \<le> maximumWidth (folder env)" "u = Type_Bits (wl + wr) sl" "node x = Binary Concat u l' r'"
      "to_SerEnum lt = None \<Longrightarrow> l' = node l" "to_SerEnum rt = None \<Longrightarrow> r' = node r"
      "no_size l' = no_size (node l)" "no_size r' = no_size (node r)"
proof (cases "lt = Type_String \<and> rt = Type_String")
  case True
  with c(1) t string show thesis by (auto simp: tc_concat_def dest!: typed_node_OkD)
next
  case False
  define L where "L = (if to_SerEnum lt \<noteq> None then Cast (strip_SerEnum lt) (node l) else node l)"
  define R where "R = (if to_SerEnum rt \<noteq> None then Cast (strip_SerEnum rt) (node r) else node r)"
  note c0 = c(1) [unfolded tc_concat_def Let_def t option.case prod.case if_not_P [OF False], folded L_def R_def]
  from c0 t(1) obtain wl sl wr sr d1 d2 w where b: "as_bits (strip_SerEnum lt) = Some (wl, sl)" "as_bits (strip_SerEnum rt) = Some (wr, sr)"
    "Type_Bits_get (folder env) (wl + wr) sl = Ok d1 w" "typed_node (Binary Concat w L R) w (isConst l \<and> isConst r) False = Ok d2 x"
    "ds = d1 @ d2"
    by (auto simp: untyped_def split: option.split_asm prod.split_asm elim!: bind_comp_OkE)
  from b(3,5) c(2) have "w = Type_Bits (wl + wr) sl" "wl + wr \<le> maximumWidth (folder env)"
    by (auto simp: Type_Bits_get_def no_error_def split: if_split_asm)
  with b typed_node_OkD [OF b(4)] t(1) show thesis
    by (intro bits [of wl sl wr sr L R]) (auto simp: L_def R_def)
qed

lemma tc_concat_sound:
  assumes c: "tc_concat env l r = Ok ds x" "no_error ds" and ok: "tc_ok \<rho> env" and s: "sound \<rho> e1 l" "sound \<rho> e2 r"
  shows "sound \<rho> (Binary Concat t e1 e2) x"
proof (cases "typeOf x")
  case (Some u)
  with c obtain lt rt where t: "typeOf l = Some lt" "typeOf r = Some rt"
    by (auto simp: tc_concat_def Let_def untyped_def split: option.split_asm)
  note d = soundD [OF s(1) t(1)] soundD [OF s(2) t(2)]
  have n: "no_size (node x)" using c Some t by (cases rule: tc_concat_cases) (use d in auto)
  have "evals \<rho> (node x) v \<and> conform v u" if e: "eval \<rho> (Binary Concat t e1 e2) = Some v" for v
  proof -
    from operandsE [OF e _ _ s t] obtain p q where
      e: "binop_val Concat p q = Some v" "evals \<rho> (node l) p" "evals \<rho> (node r) q" "conform p lt" "conform q rt"
      by blast
    from conform_SerEnum [OF e(4)] conform_SerEnum [OF e(5)] have
      ns: "to_SerEnum lt = None" "strip_SerEnum lt = lt" "to_SerEnum rt = None" "strip_SerEnum rt = rt" by auto
    from e(1) have concat_val: "concat_val p q = Some v" by (simp add: binop_val_def)
    from c Some t show ?thesis
    proof (cases rule: tc_concat_cases)
      case string
      with e concat_val show ?thesis by (auto simp: conform_simps arithmetic_def intro!: evals_BinaryI)
    next
      case (bits wl sl wr sr l' r')
      with ns e(4,5) obtain w w' i j where pq: "p = BitsV w sl i" "q = BitsV w' sr j" "wl = int w" "wr = int w'"
        by (auto simp: conform_simps)
      moreover have "wl + wr \<le> 2147483647" using bits(3) ok by (simp add: tc_ok_def cf_ok_def)
      ultimately show ?thesis using bits ns e concat_val
        by (auto simp: arithmetic_def intro!: evals_BinaryI)
    qed
  qed
  with n Some show ?thesis by (intro soundI) auto
qed (simp add: sound_def)

text \<open>Sets have no value; only their nodes have to be well formed.\<close>

lemma typeSet_sound:
  assumes c: "typeSet env mk l r = Ok ds x" and s: "sound \<rho> e1 l" "sound \<rho> e2 r"
    and mk: "\<And>t a b. no_size (mk t a b) \<longleftrightarrow> no_size a \<and> no_size b" and e: "eval \<rho> e = None"
  shows "sound \<rho> e x"
proof (cases "typeOf x")
  case (Some u)
  with c obtain lt rt where t: "typeOf l = Some lt" "typeOf r = Some rt"
    by (auto simp: typeSet_def Let_def untyped_def split: option.split_asm)
  note d = soundD(1) [OF s(1) t(1)] soundD(1) [OF s(2) t(2)]
  note c0 = c [unfolded typeSet_def Let_def t option.case prod.case]
  note c1 = if_reject [OF c0 Some, THEN conjunct2]
  note c2 = if_reject [OF c1 Some, THEN conjunct2]
  from c2 Some have "no_size (node x)"
    by (auto simp: mk d untyped_def split: if_split_asm dest!: typed_node_OkD reject_OkD)
  with e show ?thesis by (simp add: sound_def)
qed (simp add: sound_def)

section \<open>Comparisons\<close>

text \<open>Operands that are not lists are compared as they are.\<close>

lemma tc_compare_same:
  assumes "tc_compare env lt rt l r = Ok ds (Some (l', r'))" "\<not> is_Type_BaseList lt" "\<not> is_Type_BaseList rt"
  shows "l' = l \<and> r' = r"
  using assms by (auto simp: tc_compare_def split: if_split_asm option.split_asm elim!: bind_comp_OkE)

lemma val_eq_norm:
  "val_eq (InfV a) (BitsV w s c) = val_eq (BitsV w s (norm w s a)) (BitsV w s c)"
  "val_eq (BitsV w s c) (InfV a) = val_eq (BitsV w s c) (BitsV w s (norm w s a))"
  by simp_all

lemma binop_val_relation_norm:
  assumes "is_relation b"
  shows "binop_val b (InfV a) (BitsV w s c) = binop_val b (BitsV w s (norm w s a)) (BitsV w s c)"
    "binop_val b (BitsV w s c) (InfV a) = binop_val b (BitsV w s c) (BitsV w s (norm w s a))"
  using assms by (auto simp: binop_val_def is_relation_def)

lemma binop_val_relation: "binop_val b x y = Some v \<Longrightarrow> is_relation b \<Longrightarrow> \<exists>p. v = BoolV p"
  by (auto simp: binop_val_def is_relation_def split: option.split_asm if_split_asm)

text \<open>The cast of an integer to the type of the other operand.\<close>

lemma Cast_int_evals:
  assumes ok: "tc_ok \<rho> env" and p: "evals \<rho> l p" "conform p Type_InfInt" and q: "evals \<rho> r q" "conform q t" "as_bits t \<noteq> None"
  obtains a w s k where "p = InfV a" "t = Type_Bits (int w) s" "evals \<rho> (Cast t l) (BitsV w s (norm w s a))" "q = BitsV w s k"
proof -
  from q(2,3) obtain w s k where q': "q = BitsV w s k" "t = Type_Bits (int w) s" "int w \<le> 2147483647"
    by (auto simp: as_bits_not_None conform_simps)
  from p(2) obtain a where p': "p = InfV a" by (auto simp: conform_simps)
  have wf: "wf_env \<rho>" using ok by (simp add: tc_ok_def)
  from evals_wf [OF wf q(1)] q'(1) have "s \<longrightarrow> 0 < w" by (auto simp: in_range_def)
  with p p' q' show thesis by (intro that [of a w s k]) (auto simp: evals_Cast)
qed

text \<open>Comparisons of lists, whose constants are converted, are left out.\<close>

definition comparable :: "binop \<Rightarrow> checked \<Rightarrow> checked \<Rightarrow> bool" where
  "comparable b l r \<longleftrightarrow> (b = Equ \<or> b = Neq \<longrightarrow>
     (\<forall>t \<in> set_option (typeOf l) \<union> set_option (typeOf r). \<not> is_Type_BaseList (strip_SerEnum t)))"

lemma relation_node:
  assumes c: "relation env b l r = Ok ds x" and t: "typeOf x = Some u" "typeOf l = Some lt" "typeOf r = Some rt"
    and cmp: "comparable b l r"
  obtains (inf) "strip_SerEnum lt = Type_InfInt" "strip_SerEnum rt = Type_InfInt"
      "folded env (Binary b Type_Boolean (node l) (node r)) = Ok ds x"
  | (node) "u = Type_Boolean" "node x = Binary b Type_Boolean
       (if strip_SerEnum lt = Type_InfInt \<and> as_bits (strip_SerEnum rt) \<noteq> None then Cast (strip_SerEnum rt) (node l) else node l)
       (if strip_SerEnum rt = Type_InfInt \<and> as_bits (strip_SerEnum lt) \<noteq> None then Cast (strip_SerEnum lt) (node r) else node r)"
proof (cases "strip_SerEnum lt = Type_InfInt \<and> strip_SerEnum rt = Type_InfInt")
  case True
  with c inf t show thesis by (simp add: relation_def)
next
  case False
  define LT where "LT = (if strip_SerEnum lt = Type_InfInt \<and> as_bits (strip_SerEnum rt) \<noteq> None then strip_SerEnum rt else strip_SerEnum lt)"
  define RT where "RT = (if strip_SerEnum rt = Type_InfInt \<and> as_bits (strip_SerEnum lt) \<noteq> None then strip_SerEnum lt else strip_SerEnum rt)"
  define L where "L = (if strip_SerEnum lt = Type_InfInt \<and> as_bits (strip_SerEnum rt) \<noteq> None then Cast (strip_SerEnum rt) (node l) else node l)"
  define R where "R = (if strip_SerEnum rt = Type_InfInt \<and> as_bits (strip_SerEnum lt) \<noteq> None then Cast (strip_SerEnum lt) (node r) else node r)"
  note c0 = c [unfolded relation_def Let_def t option.case prod.case if_not_P [OF False], folded LT_def RT_def L_def R_def]
  have nl: "\<not> is_Type_BaseList LT" "\<not> is_Type_BaseList RT" if "b = Equ \<or> b = Neq"
    using cmp that t by (auto simp: comparable_def LT_def RT_def)
  show thesis
  proof (cases "b = Equ \<or> b = Neq")
    case True
    with c0 t(1) tc_compare_same [OF _ nl [OF True]] show thesis
      by (intro node [folded L_def R_def]) (auto simp: untyped_def split: option.split_asm elim!: bind_comp_OkE dest!: typed_node_OkD)
  next
    case False
    with c0 t(1) show thesis
      by (intro node [folded L_def R_def]) (auto simp: untyped_def split: if_split_asm dest!: typed_node_OkD reject_OkD)
  qed
qed

lemma relation_sound:
  assumes c: "relation env b l r = Ok ds x" and ok: "tc_ok \<rho> env" and s: "sound \<rho> e1 l" "sound \<rho> e2 r"
    and b: "is_relation b" and cmp: "comparable b l r"
  shows "sound \<rho> (Binary b t e1 e2) x"
proof (cases "typeOf x")
  case (Some u)
  with c obtain lt rt where t: "typeOf l = Some lt" "typeOf r = Some rt"
    by (auto simp: relation_def Let_def untyped_def split: option.split_asm)
  note d = soundD [OF s(1) t(1)] soundD [OF s(2) t(2)]
  have b': "b \<noteq> LAnd" "b \<noteq> LOr" "\<not> arithmetic b" using b by (auto simp: is_relation_def arithmetic_def)
  have op: "\<exists>p q. binop_val b p q = Some v \<and> evals \<rho> (node l) p \<and> evals \<rho> (node r) q \<and> conform p lt \<and> conform q rt \<and>
      (\<exists>k. v = BoolV k) \<and> strip_SerEnum lt = lt \<and> strip_SerEnum rt = rt"
    if e: "eval \<rho> (Binary b t e1 e2) = Some v" for v
    using operandsE [OF e b'(1,2) s t] binop_val_relation [OF _ b] conform_SerEnum by metis
  from c Some t cmp show ?thesis
  proof (cases rule: relation_node)
    case inf
    show ?thesis
    proof (rule sound_folded [OF inf(3) ok])
      fix v assume "eval \<rho> (Binary b t e1 e2) = Some v"
      from op [OF this] show "evals \<rho> (Binary b Type_Boolean (node l) (node r)) v \<and> scalar_val v"
        by (auto intro!: evals_BinaryI [OF _ _ _ _ b'(3,1,2)])
    qed (use d in auto)
  next
    case node
    have "evals \<rho> (node x) v \<and> conform v u" if e: "eval \<rho> (Binary b t e1 e2) = Some v" for v
    proof -
      from op [OF e] obtain p q k where o: "binop_val b p q = Some v" "evals \<rho> (node l) p" "evals \<rho> (node r) q"
        "conform p lt" "conform q rt" "v = BoolV k" "strip_SerEnum lt = lt" "strip_SerEnum rt = rt" by blast
      consider (left) "lt = Type_InfInt" "as_bits rt \<noteq> None" | (right) "rt = Type_InfInt" "as_bits lt \<noteq> None"
        | (none) "\<not> (lt = Type_InfInt \<and> as_bits rt \<noteq> None)" "\<not> (rt = Type_InfInt \<and> as_bits lt \<noteq> None)" by blast
      then show ?thesis
      proof cases
        case left
        from Cast_int_evals [OF ok o(2) o(4) [unfolded left(1)] o(3,5) left(2)] obtain a w s j where
          "p = InfV a" "rt = Type_Bits (int w) s" "evals \<rho> (Cast rt (node l)) (BitsV w s (norm w s a))" "q = BitsV w s j" .
        with left o node binop_val_relation_norm [OF b] show ?thesis
          by (auto intro!: evals_BinaryI [OF _ _ _ _ b'(3,1,2)])
      next
        case right
        from Cast_int_evals [OF ok o(3) o(5) [unfolded right(1)] o(2,4) right(2)] obtain a w s j where
          "q = InfV a" "lt = Type_Bits (int w) s" "evals \<rho> (Cast lt (node r)) (BitsV w s (norm w s a))" "p = BitsV w s j" .
        with right o node binop_val_relation_norm [OF b] show ?thesis
          by (auto intro!: evals_BinaryI [OF _ _ _ _ b'(3,1,2)])
      next
        case none
        with o node have "node x = Binary b Type_Boolean (node l) (node r)" by (simp only: if_not_P if_False)
        with o node show ?thesis by (auto intro!: evals_BinaryI [OF _ _ _ _ b'(3,1,2)])
      qed
    qed
    moreover have "no_size (node x)" using node(2) d by (simp split: if_split)
    ultimately show ?thesis using Some by (intro soundI) auto
  qed
qed (simp add: sound_def)

section \<open>Unary operators, casts and slices\<close>

lemma unop_val_scalar: "unop_val u x = Some v \<Longrightarrow> scalar_val v \<and> (has_type x t \<longrightarrow> has_type v t)"
  by (auto elim!: unop_val.elims)

lemma postorder_Unary_sound:
  assumes c: "postorder_Unary env u x = Ok ds r" "no_error ds" and ok: "tc_ok \<rho> env" and s: "sound \<rho> e x"
  shows "sound \<rho> (Unary u t e) r"
proof (cases "typeOf r")
  case (Some k)
  with c obtain t0 where t: "typeOf x = Some t0"
    by (auto simp: postorder_Unary_def Let_def untyped_def split: option.split_asm)
  define T where "T = (if u = LNot then t0 else strip_SerEnum t0)"
  note d = soundD [OF s t]
  have v: "evals \<rho> (Unary u T (node x)) v \<and> scalar_val v \<and> conform v T" if "eval \<rho> (Unary u t e) = Some v" for v
  proof -
    from that d obtain y where y: "evals \<rho> (node x) y" "conform y t0" "unop_val u y = Some v"
      by (auto simp: bind_eq_Some_conv)
    then have "has_type y T" using conform_has_type strip_value by (auto simp: T_def)
    with unop_val_scalar [OF y(3)] y show ?thesis by (auto simp: evals_Unary scalar_conform)
  qed
  have "(if isConst x then folded env (Unary u T (node x)) else typed_node (Unary u T (node x)) T False False) = Ok ds r"
    using c by (auto simp: postorder_Unary_def t Let_def T_def [symmetric] no_error_def
        split: if_split_asm unop.split_asm comp.split_asm elim!: bind_comp_OkE)
  then show ?thesis using v d by (auto intro: sound_folded [OF _ ok] elim!: sound_typed_node split: if_split_asm)
qed (simp add: sound_def)

text \<open>A direct cast between types with values; the others convert their operand.\<close>

definition direct_cast :: "tc_env \<Rightarrow> p4type \<Rightarrow> checked \<Rightarrow> bool" where
  "direct_cast env t x \<longleftrightarrow>
     (case t of Type_Bits w s \<Rightarrow> w \<le> 2147483647 | Type_Boolean \<Rightarrow> True | Type_InfInt \<Rightarrow> True | _ \<Rightarrow> False) \<and>
     (case typeOf x of None \<Rightarrow> True | Some u \<Rightarrow> result_of (canCastBetween env t u) = Some True)"

lemma cast_val_type:
  assumes "cast_val t y = Some v" "t = Type_Boolean \<or> t = Type_InfInt \<or> (\<exists>w s. t = Type_Bits w s \<and> w \<le> 2147483647)"
  shows "scalar_val v \<and> has_type v t"
  using assms by (auto elim!: cast_val.elims split: if_split_asm)

lemma postorder_Cast_sound:
  assumes c: "postorder_Cast env t x = Ok ds r" and s: "sound \<rho> e x" and dc: "direct_cast env t x"
  shows "sound \<rho> (Cast t e) r"
proof (cases "typeOf x")
  case (Some u)
  note d = soundD [OF s Some]
  from dc have t: "t = Type_Boolean \<or> t = Type_InfInt \<or> (\<exists>w s. t = Type_Bits w s \<and> w \<le> 2147483647)"
    by (auto simp: direct_cast_def split: p4type.split_asm)
  then have "struct_fields t = None" "\<not> is_Stack t" "castable t" by (auto simp: castable_def)
  moreover from dc Some obtain d1 where "canCastBetween env t u = Ok d1 True"
    by (auto simp: direct_cast_def result_of_Some_iff)
  ultimately obtain d2 where r: "typed_node (Cast t (node x)) t (isConst x) False = Ok d2 r"
    using c by (auto simp: postorder_Cast_def Some split: comp.split_asm elim!: bind_comp_OkE)
  show ?thesis
  proof (rule sound_typed_node [OF r])
    fix v assume "eval \<rho> (Cast t e) = Some v"
    with d obtain y where "evals \<rho> (node x) y" "cast_val t y = Some v" by (auto simp: bind_eq_Some_conv)
    with cast_val_type [OF _ t] show "evals \<rho> (Cast t (node x)) v \<and> conform v t"
      by (auto simp: evals_Cast scalar_conform)
  qed (use d in simp)
qed (use c in \<open>auto simp: postorder_Cast_def\<close>)

text \<open>An index has no value when it is a member of a serializable enum.\<close>

lemma slice_index_of_cases:
  assumes i: "slice_index_of env m x = Ok ds (Some e')" and s: "sound \<rho> e x" and t: "typeOf x = Some u"
  shows "no_size e' \<and> (\<forall>y. eval \<rho> e = Some y \<longrightarrow> evals \<rho> e' y)"
proof (cases "to_SerEnum u")
  case None
  with i t soundD [OF s t] show ?thesis by (auto simp: slice_index_of_def)
next
  case (Some k)
  with soundD(3) [OF s t] conform_SerEnum have "eval \<rho> e = None" by (cases "eval \<rho> e") fastforce+
  moreover have "no_size e'" using i t Some soundD(1) [OF s t]
    by (auto simp: slice_index_of_def split: option.split_asm if_split_asm enum_instance.split_asm
        elim!: bind_comp_OkE dest!: EnumInstance_resolve_literal intro: no_size_literal)
  ultimately show ?thesis by simp
qed

lemma bind_some_OkE:
  assumes "bind_some m (untyped e) f = Ok ds r" "typeOf r = Some t"
  obtains d1 x d2 where "m = Ok d1 (Some x)" "f x = Ok d2 r" "ds = d1 @ d2"
  using assms by (auto simp: bind_some_def untyped_def split: option.split_asm elim!: bind_comp_OkE)

lemma constant_index: "evals \<rho> e y \<Longrightarrow> to_Constant e = Some (t, v, b) \<Longrightarrow> index_val y = Some i \<Longrightarrow> i = v"
  by (auto simp: evals_Constant eval_Constant_iff)

lemma evals_sliceI:
  "evals \<rho> x z \<Longrightarrow> evals \<rho> h y \<Longrightarrow> index_val y = Some i \<Longrightarrow> evals \<rho> l q \<Longrightarrow> index_val q = Some j \<Longrightarrow>
     slice_val z i j = Some v \<Longrightarrow> has_type v t \<Longrightarrow> i \<le> 4294967295 \<Longrightarrow> evals \<rho> (Slice t x h l) v"
  "evals \<rho> x z \<Longrightarrow> evals \<rho> l y \<Longrightarrow> index_val y = Some i \<Longrightarrow> evals \<rho> w q \<Longrightarrow> index_val q = Some j \<Longrightarrow>
     slice_val z (i + j - 1) i = Some v \<Longrightarrow> has_type v t \<Longrightarrow> i + j - 1 \<le> 4294967295 \<Longrightarrow> evals \<rho> (PlusSlice t x l w) v"
  unfolding evals_Slice evals_PlusSlice by blast+

lemma postorder_Slice_sound:
  assumes c: "postorder_Slice env x h l = Ok ds r" and ok: "tc_ok \<rho> env"
    and s: "sound \<rho> e x" "sound \<rho> e1 h" "sound \<rho> e2 l"
    and t: "typeOf h = Some hty" "typeOf l = Some lty"
  shows "sound \<rho> (Slice t e e1 e2) r"
proof (cases "typeOf r")
  case (Some k)
  let ?e = "Slice Type_Unknown (node x) (node h) (node l)"
  from c Some obtain t0 where t0: "typeOf x = Some t0"
    by (auto simp: postorder_Slice_def Let_def untyped_def split: option.split_asm)
  note d = soundD [OF s(1) t0]
  from c Some obtain w sg where b: "strip_SerEnum t0 = Type_Bits w sg"
    by (auto simp: postorder_Slice_def Let_def t0 untyped_def split: option.split_asm dest!: reject_OkD)
  from c obtain d1 h' d2 l' d3 where i: "slice_index_of env True h = Ok d1 (Some h')" "slice_index_of env True l = Ok d2 (Some l')"
    and m: "(case (to_Constant h', to_Constant l') of
               (Some (tH, m, bH), Some (tL, l, bL)) \<Rightarrow>
                 if \<not> fitsInt m \<or> \<not> fitsInt l \<or> m < 0 \<or> l < 0 \<or> m \<ge> w \<or> l \<ge> w \<or> l > m then reject ?e
                 else bind_comp (Type_Bits_get (folder env) (m - l + 1) False) (\<lambda>t.
                   if isConst x then folded env (Slice t (node x) h' l')
                   else typed_node (Slice t (node x) h' l') t False (isLeft x))
             | _ \<Rightarrow> reject ?e) = Ok d3 r"
    by (auto simp: postorder_Slice_def Let_def t0 b elim!: bind_some_OkE [OF _ Some])
  from m Some obtain tH m bH tL n bL where k: "to_Constant h' = Some (tH, m, bH)" "to_Constant l' = Some (tL, n, bL)"
    by (auto simp: untyped_def split: option.split_asm dest!: reject_OkD)
  note m1 = if_reject [OF m [unfolded k option.case prod.case] Some]
  then have rng: "fitsInt m" "0 \<le> n" "n \<le> m" "m < w" by auto
  from m1 obtain d4 d5 where m2: "(if isConst x then folded env (Slice (Type_Bits (m - n + 1) False) (node x) h' l')
       else typed_node (Slice (Type_Bits (m - n + 1) False) (node x) h' l') (Type_Bits (m - n + 1) False) False (isLeft x)) = Ok d5 r"
    by (auto simp: Type_Bits_get_def split: comp.split_asm)
  note ih = slice_index_of_cases [OF i(1) s(2) t(1)] slice_index_of_cases [OF i(2) s(3) t(2)]
  have v: "evals \<rho> (Slice (Type_Bits (m - n + 1) False) (node x) h' l') v \<and> scalar_val v \<and> conform v (Type_Bits (m - n + 1) False)"
    if e: "eval \<rho> (Slice t e e1 e2) = Some v" for v
  proof -
    from e d obtain y p q i j where y: "evals \<rho> (node x) y" "conform y t0" "eval \<rho> e1 = Some p" "index_val p = Some i"
      "eval \<rho> e2 = Some q" "index_val q = Some j" "slice_val y i j = Some v"
      by (auto simp: bind_eq_Some_conv)
    with ih have pq: "evals \<rho> h' p" "evals \<rho> l' q" by blast+
    with k y have ij: "i = m" "j = n" using constant_index by blast+
    from strip_value [OF y(2)] b obtain a where a: "y = BitsV (nat w) sg a" "w \<le> 2147483647"
      by (auto simp: conform_simps)
    with y(7) ij rng have v: "v = BitsV (nat (m - n + 1)) False (bits_of a (nat n) (nat (m - n + 1)))"
      by (auto simp: slice_val_def split: if_split_asm)
    moreover have "m - n + 1 \<le> 2147483647" "m \<le> 4294967295" using rng a(2) by auto
    ultimately have "has_type v (Type_Bits (m - n + 1) False)" "i \<le> 4294967295" using ij rng by auto
    with evals_sliceI(1) [OF y(1) pq(1) y(4) pq(2) y(6,7)] v show ?thesis by (simp add: scalar_conform)
  qed
  show ?thesis using m2 v d ih by (auto intro: sound_folded [OF _ ok] elim!: sound_typed_node split: if_split_asm)
qed (simp add: sound_def)

lemma postorder_PlusSlice_sound:
  assumes c: "postorder_PlusSlice env x l w = Ok ds r" and ok: "tc_ok \<rho> env"
    and s: "sound \<rho> e x" "sound \<rho> e1 l" "sound \<rho> e2 w"
    and t: "typeOf l = Some lty" "typeOf w = Some wty"
  shows "sound \<rho> (PlusSlice t e e1 e2) r"
proof (cases "typeOf r")
  case (Some k)
  let ?e = "PlusSlice Type_Unknown (node x) (node l) (node w)"
  from c Some obtain t0 where t0: "typeOf x = Some t0"
    by (auto simp: postorder_PlusSlice_def Let_def untyped_def split: option.split_asm)
  note d = soundD [OF s(1) t0]
  from c Some obtain sz sg where b: "strip_SerEnum t0 = Type_Bits sz sg"
    by (auto simp: postorder_PlusSlice_def Let_def t0 untyped_def as_bits_not_None split: if_split_asm dest!: reject_OkD)
  from c obtain d1 l' d2 w' d3 where i: "slice_index_of env False l = Ok d1 (Some l')" "slice_index_of env True w = Ok d2 (Some w')"
    and m: "(case to_Constant w' of
               None \<Rightarrow> reject ?e
             | Some (tW, n, bW) \<Rightarrow>
                 if \<not> fitsInt n \<or> n < 0 then reject ?e
                 else bind_comp (Type_Bits_get (folder env) n False) (\<lambda>t.
                   if isConst x \<and> isConst l then folded env (PlusSlice t (node x) l' w')
                   else typed_node (PlusSlice t (node x) l' w') t False (isLeft x))) = Ok d3 r"
    by (auto simp: postorder_PlusSlice_def Let_def t0 b elim!: bind_some_OkE [OF _ Some])
  from m Some obtain tW n bW where k: "to_Constant w' = Some (tW, n, bW)"
    by (auto simp: untyped_def split: option.split_asm dest!: reject_OkD)
  note m1 = if_reject [OF m [unfolded k option.case prod.case] Some]
  then have rng: "fitsInt n" "0 \<le> n" by auto
  from m1 obtain d4 d5 where m2: "(if isConst x \<and> isConst l then folded env (PlusSlice (Type_Bits n False) (node x) l' w')
       else typed_node (PlusSlice (Type_Bits n False) (node x) l' w') (Type_Bits n False) False (isLeft x)) = Ok d5 r"
    by (auto simp: Type_Bits_get_def split: comp.split_asm)
  note ih = slice_index_of_cases [OF i(1) s(2) t(1)] slice_index_of_cases [OF i(2) s(3) t(2)]
  have v: "evals \<rho> (PlusSlice (Type_Bits n False) (node x) l' w') v \<and> scalar_val v \<and> conform v (Type_Bits n False)"
    if e: "eval \<rho> (PlusSlice t e e1 e2) = Some v" for v
  proof -
    from e d obtain y p q i j where y: "evals \<rho> (node x) y" "conform y t0" "eval \<rho> e1 = Some p" "index_val p = Some i"
      "eval \<rho> e2 = Some q" "index_val q = Some j" "slice_val y (i + j - 1) i = Some v"
      by (auto simp: bind_eq_Some_conv)
    with ih have pq: "evals \<rho> l' p" "evals \<rho> w' q" by blast+
    with k y have ij: "j = n" using constant_index by blast
    from strip_value [OF y(2)] b obtain a where a: "y = BitsV (nat sz) sg a" "sz \<le> 2147483647"
      by (auto simp: conform_simps)
    with y(7) ij rng have v: "v = BitsV (nat n) False (bits_of a (nat i) (nat n))" "i + n - 1 < int (nat sz)"
      by (auto simp: slice_val_def split: if_split_asm)
    moreover have "i + n - 1 \<le> 4294967295" "n \<le> 2147483647" using rng a(2) v(2) by (auto simp: fitsInt_def split: if_split_asm)
    ultimately have "has_type v (Type_Bits n False)" "i + j - 1 \<le> 4294967295" using ij rng by auto
    with evals_sliceI(2) [OF y(1) pq(1) y(4) pq(2) y(6,7)] v show ?thesis by (simp add: scalar_conform)
  qed
  show ?thesis using m2 v d ih by (auto intro: sound_folded [OF _ ok] elim!: sound_typed_node split: if_split_asm)
qed (simp add: sound_def)

section \<open>Conditional expressions and composite values\<close>

text \<open>Branches of one type with values that are not composite: nothing is converted.\<close>

definition same_scalar :: "checked \<Rightarrow> checked \<Rightarrow> bool" where
  "same_scalar a b \<longleftrightarrow> (case (typeOf a, typeOf b) of (Some t, Some u) \<Rightarrow> t = u \<and> scalar t | _ \<Rightarrow> True)"

lemma unifyBase_same:
  assumes "scalar t" "t \<noteq> Type_InfInt"
  shows "unifyBase env k t t = ret (Some [])"
  using assms by (auto simp: unifyBase_def scalar_def as_bits_not_None)

lemma postorder_Mux_sound:
  assumes c: "postorder_Mux env x a b = Ok ds r" and ok: "tc_ok \<rho> env"
    and s: "sound \<rho> e x" "sound \<rho> e1 a" "sound \<rho> e2 b" and sc: "same_scalar a b"
  shows "sound \<rho> (Mux t e e1 e2) r"
proof (cases "typeOf r")
  case (Some k)
  from c Some obtain tx u tb where t: "typeOf x = Some tx" "typeOf a = Some u" "typeOf b = Some tb"
    by (auto simp: postorder_Mux_def Let_def untyped_def split: option.split_asm)
  with sc have u: "tb = u" "scalar u" by (auto simp: same_scalar_def)
  note c0 = c [unfolded postorder_Mux_def Let_def t option.case prod.case]
  note c1 = if_reject [OF c0 Some]
  note c2 = if_reject [OF c1 [THEN conjunct2] Some]
  from c1 c2 u have tx: "tx = Type_Boolean" "u \<noteq> Type_InfInt" by auto
  with c2 u have m: "(if isConst x \<and> isConst a \<and> isConst b then folded env (Mux u (node x) (node a) (node b))
      else typed_node (Mux u (node x) (node a) (node b)) u False False) = Ok ds r"
    by (auto simp: unifyBase_same Let_def split: if_split_asm comp.split_asm)
  note d = soundD [OF s(1) t(1)] soundD [OF s(2) t(2)] soundD [OF s(3) t(3)]
  have v: "evals \<rho> (Mux u (node x) (node a) (node b)) v \<and> scalar_val v \<and> conform v u"
    if e: "eval \<rho> (Mux t e e1 e2) = Some v" for v
  proof -
    from e [unfolded eval.simps] obtain p where "Option.bind (eval \<rho> e) bool_val = Some p"
      "(if p then eval \<rho> e1 else eval \<rho> e2) = Some v" unfolding bind_eq_Some_conv by blast
    then have p: "eval \<rho> e = Some (BoolV p)" "eval \<rho> (if p then e1 else e2) = Some v"
      by (simp_all add: bind_eq_Some_conv split: if_split_asm)
    have x: "evals \<rho> (node x) (BoolV p)" by (rule d(2) [OF p(1)])
    show ?thesis
    proof (cases p)
      case True
      with p(2) d(5,6) have "evals \<rho> (node a) v" "conform v u" by simp_all
      with x True conform_scalar [OF _ u(2)] conform_has_type show ?thesis by (simp add: evals_Mux)
    next
      case False
      with p(2) d(8,9) u(1) have "evals \<rho> (node b) v" "conform v u" by simp_all
      with x False conform_scalar [OF _ u(2)] conform_has_type show ?thesis by (simp add: evals_Mux)
    qed
  qed
  show ?thesis using m v d by (auto intro: sound_folded [OF _ ok] elim!: sound_typed_node split: if_split_asm)
qed (simp add: sound_def)

lemma conform_nth:
  assumes "conform x t" "nth_val x i = Some v"
  shows "(\<exists>u n. t = Type_Stack u n \<and> conform v u) \<or>
    (\<exists>ts. t = Type_List ts \<and> 0 \<le> i \<and> nat i < length ts \<and> conform v (ts ! nat i))"
  using assms by (cases x; cases t) (auto simp: list_all_length split: if_split_asm)

lemma index_node_type:
  assumes c: "postorder_ArrayIndex env l r = Ok ds x" "no_error ds"
    and t: "typeOf x = Some k" "typeOf l = Some lt" "typeOf r = Some rt"
  shows "node x = ArrayIndex k (node l) (node r) \<and>
    ((\<exists>n. lt = Type_Stack k n) \<or>
     (\<exists>ts t v b. lt = Type_List ts \<and> to_Constant (node r) = Some (t, v, b) \<and> nat v < length ts \<and> k = ts ! nat v))"
proof -
  have i: "i = v" if "asInt v = Ok d i" "no_error d" for v i d
    using that by (auto simp: asInt_def no_error_def split: if_split_asm)
  define chk where "chk = (is_Stack lt \<and> checkArrays env)"
  let ?A = "case to_Constant (node r) of
       None \<Rightarrow> ret (Some (- 1))
     | Some (t, v, b) \<Rightarrow> if chk \<and> \<not> fitsInt v then typeError None
         else bind_comp (asInt v) (\<lambda>i. if chk \<and> i < 0 then typeError None else ret (Some i))"
  note c0 = c(1) [unfolded postorder_ArrayIndex_def Let_def t option.case prod.case, folded chk_def]
  from c0 obtain d1 m d2 where A: "?A = Ok d1 m" and B0: "ds = d1 @ d2"
    and B1: "(case m of None \<Rightarrow> ret (untyped (ArrayIndex Type_Unknown (node l) (node r)))
      | Some index \<Rightarrow>
          if index < 0 \<and> as_bits rt = None \<and> to_SerEnum rt = None \<and> rt \<noteq> Type_InfInt then reject (ArrayIndex Type_Unknown (node l) (node r))
          else case lt of
             Type_Stack et n \<Rightarrow>
               if chk \<and> index \<ge> 0 \<and> index \<ge> n then reject (ArrayIndex Type_Unknown (node l) (node r))
               else typed_node (ArrayIndex et (node l) (node r)) et False (isLeft l)
           | Type_List ts \<Rightarrow>
               if index < 0 then reject (ArrayIndex Type_Unknown (node l) (node r))
               else if nat index \<ge> length ts then reject (ArrayIndex Type_Unknown (node l) (node r))
               else typed_node (ArrayIndex (ts ! nat index) (node l) (node r)) (ts ! nat index) (isConst l) (isLeft l)
           | _ \<Rightarrow> reject (ArrayIndex Type_Unknown (node l) (node r))) = Ok d2 x"
    by (elim bind_comp_OkE) blast
  from B1 t(1) obtain j where m: "m = Some j" by (cases m) (auto simp: untyped_def)
  have j: "j = - 1 \<or> (\<exists>t b. to_Constant (node r) = Some (t, j, b))"
    using A c(2) B0 unfolding m
    by (auto split: option.split_asm prod.split_asm if_split_asm elim!: bind_comp_OkE dest: i)
  note B2 = if_reject [OF B1 [unfolded m option.case] t(1), THEN conjunct2]
  show ?thesis
  proof (cases "\<exists>et n. lt = Type_Stack et n")
    case True
    then obtain et n where lt: "lt = Type_Stack et n" by blast
    note B3 = if_reject [OF B2 [unfolded lt p4type.case] t(1), THEN conjunct2]
    from typed_node_OkD [OF B3] lt t(1) show ?thesis by simp
  next
    case False
    then obtain ts where lt: "lt = Type_List ts"
      using B2 t(1) by (cases lt) (auto simp: untyped_def dest!: reject_OkD)
    note B3 = if_reject [OF B2 [unfolded lt p4type.case] t(1)]
    note B4 = if_reject [OF B3 [THEN conjunct2] t(1)]
    from typed_node_OkD [OF B4 [THEN conjunct2]] B3 B4 lt t(1) j show ?thesis by auto
  qed
qed

lemma postorder_ArrayIndex_sound:
  assumes c: "postorder_ArrayIndex env l r = Ok ds x" "no_error ds" and s: "sound \<rho> e1 l" "sound \<rho> e2 r"
  shows "sound \<rho> (ArrayIndex t e1 e2) x"
proof (cases "typeOf x")
  case (Some k)
  from c Some obtain lt rt where t: "typeOf l = Some lt" "typeOf r = Some rt"
    by (auto simp: postorder_ArrayIndex_def Let_def untyped_def split: option.split_asm)
  note d = soundD [OF s(1) t(1)] soundD [OF s(2) t(2)]
  note k = index_node_type [OF c Some t]
  show ?thesis
  proof (rule soundI)
    show "no_size (node x)" using k d by simp
    fix u v assume u: "typeOf x = Some u" and "eval \<rho> (ArrayIndex t e1 e2) = Some v"
    with d obtain y z i where y: "evals \<rho> (node l) y" "conform y lt" "evals \<rho> (node r) z" "index_val z = Some i" "nth_val y i = Some v"
      by (auto simp: bind_eq_Some_conv)
    from conform_nth [OF y(2,5)] k constant_index [OF y(3) _ y(4)] have "conform v k" by auto
    with y k u Some conform_has_type show "evals \<rho> (node x) v \<and> conform v u" by (auto simp: evals_ArrayIndex)
  qed
qed (simp add: sound_def)

lemma those_Some: "those xs = Some ys \<longleftrightarrow> xs = map Some ys"
  by (induction xs arbitrary: ys) (auto split: option.split)

lemma sound_list:
  assumes "list_all2 (sound \<rho>) es xs" "map typeOf xs = map Some ts"
  shows "list_all no_size (map node xs)"
    "map (eval \<rho>) es = map Some vs \<Longrightarrow> list_all2 (evals \<rho>) (map node xs) vs \<and> length vs = length ts \<and> list_all (\<lambda>(v, t). conform v t) (zip vs ts)"
  using assms
proof (induction arbitrary: ts vs rule: list_all2_induct)
  case (Cons e es x xs)
  {
    case 1
    with Cons soundD(1) [OF Cons.hyps(1)] show ?case by (cases ts) auto
  next
    case 2
    then obtain t ts' v vs' where "ts = t # ts'" "vs = v # vs'" by (cases ts; cases vs) auto
    with 2 Cons.IH(2) [of vs' ts'] soundD(2,3) [OF Cons.hyps(1)] show ?case by auto
  }
qed simp_all

text \<open>A list with a set among its elements has no value.\<close>

lemma list_type_values:
  assumes "length vs = length ts" "list_all (\<lambda>(v, t). conform v t) (zip vs ts)"
  shows "list_type ts = Type_List ts"
proof -
  have "t \<noteq> Type_Set u" if "t \<in> set ts" for t u
    using that assms conform_simps(5) by (fastforce simp: in_set_conv_nth list_all_length)
  then show ?thesis by (auto split: p4type.split)
qed

lemma postorder_ListExpression_sound:
  assumes c: "postorder_ListExpression env xs = Ok ds r" and s: "list_all2 (sound \<rho>) es xs"
  shows "sound \<rho> (ListExpression t es) r"
proof (cases "those (map typeOf xs)")
  case (Some ts)
  with c have r: "typed_node (ListExpression (list_type ts) (map node xs)) (list_type ts) (list_all isConst xs) False = Ok ds r"
    by (simp add: postorder_ListExpression_def)
  from Some have ts: "map typeOf xs = map Some ts" by (simp add: those_Some)
  note d = sound_list [OF s ts]
  show ?thesis
  proof (rule sound_typed_node [OF r])
    show "no_size (ListExpression (list_type ts) (map node xs))" using d(1) by simp
    fix v assume "eval \<rho> (ListExpression t es) = Some v"
    then obtain vs where vs: "map (eval \<rho>) es = map Some vs" "v = TupleV vs" by (auto simp: all_some_Some_iff)
    with d(2) [OF vs(1)] list_type_values [of vs ts] show "evals \<rho> (ListExpression (list_type ts) (map node xs)) v \<and> conform v (list_type ts)"
      by (simp add: evals_lists del: list_type.simps)
  qed
qed (use c in \<open>auto simp: postorder_ListExpression_def\<close>)

lemma postorder_Member_cases:
  assumes c: "postorder_Member env x m = Ok ds r" "no_error ds" and t: "typeOf r = Some u" "typeOf x = Some t0"
  obtains (tag) base where "node x = TypeNameExpression base" "u = base" "node r = Member u (node x) m"
  | (field) fs where "\<And>b. node x \<noteq> TypeNameExpression b" "struct_fields t0 = Some fs" "map_of fs m = Some u" "node r = Member u (node x) m"
  | (stack) k n where "\<And>b. node x \<noteq> TypeNameExpression b" "t0 = Type_Stack k n" "node r = Member u (node x) m"
proof (cases "\<exists>base. node x = TypeNameExpression base")
  case True
  then obtain base where b: "node x = TypeNameExpression base" by blast
  with c t tag show thesis
    by (auto simp: postorder_Member_def Let_def untyped_def no_error_def split: option.split_asm bool.split_asm comp.split_asm
        dest!: reject_OkD typed_node_OkD elim!: bind_comp_OkE)
next
  case False
  then have nt: "node x \<noteq> TypeNameExpression b" for b by blast
  have skip: "(case node x of TypeNameExpression b \<Rightarrow> f b | _ \<Rightarrow> g) = g" for f :: "p4type \<Rightarrow> checked comp" and g
    using nt by (cases "node x") auto
  note c0 = c(1) [unfolded postorder_Member_def Let_def t option.case skip]
  show thesis
  proof (cases "struct_fields t0")
    case (Some fs)
    with c0 t(1) field [OF nt Some] show thesis
      by (auto simp: untyped_def split: option.split_asm dest!: reject_OkD typed_node_OkD)
  next
    case None
    then obtain k n where t0: "t0 = Type_Stack k n"
      using c0 t(1) by (cases t0) (auto simp: untyped_def dest!: reject_OkD)
    have rej: False if "reject e = Ok d r" for e d
      using that t(1) by (auto simp: untyped_def dest!: reject_OkD)
    have tn: "node r = Member u (node x) m" if "typed_node (Member k (node x) m) k c l = Ok d r" for k c l d
      using that t(1) by (auto dest!: typed_node_OkD)
    have bn: "node r = Member u (node x) m" if "bind_comp (Ok d0 ()) (\<lambda>_. typed_node (Member k (node x) m) k c l) = Ok d r" for k c l d d0
      using that tn by (auto split: comp.split_asm)
    have "node r = Member u (node x) m"
      using c0 [unfolded t0 struct_fields.simps option.case p4type.case] by (elim if_OkE) (blast intro: tn bn dest: rej)+
    then show thesis by (rule stack [OF nt t0])
  qed
qed

lemma field_conform:
  "conform x t \<Longrightarrow> struct_fields t = Some fts \<Longrightarrow> map_of fts m = Some u \<Longrightarrow> field_val m x = Some v \<Longrightarrow> conform v u"
  by (cases x) (fastforce simp: list_all_iff dest: map_of_SomeD split: option.split_asm)+

text \<open>A tag of an enum: the type recorded on the source node, when it has one, is that of the enum.\<close>

definition member_ok :: "p4type \<Rightarrow> expr \<Rightarrow> string \<Rightarrow> bool" where
  "member_ok t e m \<longleftrightarrow> m \<noteq> ''size'' \<and>
     (case (t, e) of (Type_Enum n ms, TypeNameExpression t') \<Rightarrow> t' = t | _ \<Rightarrow> True)"

lemma postorder_Member_sound:
  assumes c: "postorder_Member env x m = Ok ds r" "no_error ds" and s: "sound \<rho> e x"
    and m: "member_ok t e m" and e: "\<And>t'. e = TypeNameExpression t' \<Longrightarrow> node x = e"
  shows "sound \<rho> (Member t e m) r"
proof (cases "typeOf r")
  case (Some u)
  with c obtain t0 where t: "typeOf x = Some t0"
    by (auto simp: postorder_Member_def Let_def untyped_def split: option.split_asm)
  note d = soundD [OF s t]
  have n: "node r = Member u (node x) m"
    using c Some t by (cases rule: postorder_Member_cases) auto
  have "evals \<rho> (Member u (node x) m) v \<and> conform v u" if v: "eval \<rho> (Member t e m) = Some v" for v
  proof (cases "\<exists>b. e = TypeNameExpression b")
    case True
    then obtain b where b: "e = TypeNameExpression b" "node x = TypeNameExpression b" using e by blast
    with v m obtain k ms where k: "t = Type_Enum k ms" "b = t" "v = EnumV k m"
      by (auto simp: member_ok_def split: p4type.split_asm)
    from c Some t have "u = b" by (cases rule: postorder_Member_cases) (use b in auto)
    with k b show ?thesis by (auto simp: evals_iff typed.simps [of _ "TypeNameExpression b" for b])
  next
    case False
    with v d obtain y where y: "evals \<rho> (node x) y" "conform y t0" "field_val m y = Some v"
      by (auto simp: eval_Member_field bind_eq_Some_conv)
    from y(1) have nt: "node x \<noteq> TypeNameExpression b" for b by (auto simp: evals_def)
    from c Some t have "conform v u"
    proof (cases rule: postorder_Member_cases)
      case (field fs)
      with y field_conform show ?thesis by blast
    next
      case (stack k n)
      with y show ?thesis by (cases y) auto
    qed (use nt in blast)
    with y nt conform_has_type show ?thesis by (auto simp: evals_Member)
  qed
  moreover have "no_size (node r)" using n m d(1) by (simp add: member_ok_def)
  ultimately show ?thesis using n Some by (auto intro: soundI)
qed (simp add: sound_def)

end
