(* ===== verification/TypeCheck_Errors.thy ===== *)
theory TypeCheck_Errors
  imports TypeCheck_Sound
begin

text \<open>
  The error paths of the type checker: unification that fails has reported an error, and so a node is
  left without a type only if an error was reported, by the checker or before it.  The converse of \<open>no_error\<close> is what a client of the
  checker relies on: it looks at the number of errors and not at the types.
\<close>

section \<open>Unification reports its failures\<close>

definition reports :: "(bool \<times> 'a) comp \<Rightarrow> bool" where
  "reports m \<longleftrightarrow> (\<forall>ds x. m = Ok ds (False, x) \<longrightarrow> \<not> no_error ds)"

lemma no_error_Cons [simp]: "no_error (d # ds) \<longleftrightarrow> (\<forall>t. d \<noteq> Error t) \<and> no_error ds"
  by (auto simp: no_error_def)

lemma reports_simps [simp]:
  "reports (Bug m)" "reports (ret (True, x))" "reports (report (Error k) y)" "reports (Ok ds (True, x))"
  by (auto simp: reports_def)

lemma reports_bind: "(\<And>ds x. m = Ok ds x \<Longrightarrow> reports (f x)) \<Longrightarrow> reports (bind_comp m f)"
  by (auto simp: reports_def elim!: bind_comp_OkE)

text \<open>A step that hands on the failure of the step before.\<close>

lemma reports_bind_ok:
  assumes "reports m" "\<And>x. reports (f (True, x))" "\<And>x ds y. f (False, x) = Ok ds (True, y) \<Longrightarrow> False"
  shows "reports (bind_comp m f)"
  unfolding reports_def
proof (intro allI impI)
  fix ds y
  assume "bind_comp m f = Ok ds (False, y)"
  then obtain d1 p d2 where "m = Ok d1 p" "f p = Ok d2 (False, y)" "ds = d1 @ d2" by (elim bind_comp_OkE) blast
  with assms(1,2) show "\<not> no_error ds" by (cases "fst p"; cases p) (auto simp: reports_def)
qed

lemma reports_if: "(c \<Longrightarrow> reports a) \<Longrightarrow> (\<not> c \<Longrightarrow> reports b) \<Longrightarrow> reports (if c then a else b)"
  by simp

lemma reports_option: "reports a \<Longrightarrow> (\<And>x. m = Some x \<Longrightarrow> reports (f x)) \<Longrightarrow> reports (case m of None \<Rightarrow> a | Some x \<Rightarrow> f x)"
  by (cases m) simp_all

lemma unifyArguments_reports: "reports (unifyArguments env k params args its left s)"
proof (induction args arbitrary: its left s)
  case (Cons arg args)
  show ?case unfolding unifyArguments.simps Let_def
    by (intro reports_option reports_if) (simp_all add: Cons.IH)
qed simp

lemma unifyCall_reports: "reports (unifyCall env c s)"
  by (auto simp: unifyCall_def Let_def split: utype.split intro!: reports_bind_ok unifyArguments_reports)

lemma unifyParameters_reports: "reports (unifyParameters k ps qs s)"
  by (induction k ps qs s rule: unifyParameters.induct) auto

lemma unifyFunctions_reports: "reports (unifyFunctions c r s)"
  by (auto simp: unifyFunctions_def Let_def unifyParameters_reports split: utype.split)

lemma unifyBlocks_reports: "reports (unifyBlocks c s)"
  by (auto simp: unifyBlocks_def Let_def unifyFunctions_reports split: utype.split)

lemma unifyFields_reports: "reports (unifyFields k fs gs d s)"
proof (induction k fs gs d s rule: unifyFields.induct)
  case (2 k n t fs gs stHasDots s)
  show ?case
  proof (cases "map_of gs n")
    case None
    show ?thesis
    proof (cases stHasDots)
      case True
      with 2 None show ?thesis by (auto intro!: reports_bind_ok)
    qed (use None in simp)
  qed (use 2 in simp)
qed simp

lemma unifyStructs_reports: "reports (unifyStructs ss k n fs sk m gs s)"
  by (auto simp: unifyStructs_def Let_def split: option.split intro!: reports_bind_ok unifyFields_reports)

lemma unify_lists_reports:
  "reports (unifyBaseLists k ds ts s)" "reports (unifyStructList k n fs ts s)" "reports (unifyStackList k e sz ts s)"
  "reports (unifyDeclarations d t s)"
  by (auto simp: unifyBaseLists_def unifyStructList_def unifyStackList_def unifyDeclarations_def Let_def split: option.split)

lemmas unify_reports = unifyCall_reports unifyFunctions_reports unifyBlocks_reports unifyStructs_reports unify_lists_reports

lemma unify_base_reports: "(\<And>c s. reports (again c s)) \<Longrightarrow> reports (unify_base c again b src s)"
  by (cases src) (auto simp: unify_base_def Let_def split: tvar.split)

lemma unify_kinds_reports:
  assumes "\<And>c s. reports (again c s)"
  shows "reports (unify_kinds env c again dest src s)"
  by (cases dest; cases src) (simp_all add: unify_kinds_def Let_def unify_reports unify_base_reports assms)

lemma unify_types_reports:
  assumes "\<And>c s. reports (again c s)"
  shows "reports (unify_types env c again dest src s)"
  unfolding unify_types_def Let_def
  by (auto simp: unify_kinds_reports assms split: option.split bool.split prod.split)

lemma unify_all_reports: "reports (unify n env c s)"
  by (induction n arbitrary: c s) (auto intro!: reports_bind unify_types_reports)

lemma bind_variable_reports: "reports (bind_variable v t s)"
  by (auto simp: bind_variable_def split: option.split intro!: reports_bind)

lemma solve_constraint_reports: "reports (solve_constraint env c s)"
  by (auto simp: solve_constraint_def bind_variable_reports unify_all_reports
      split: constraint.split utype.split option.split)

text \<open>The solver returns the null pointer only after an error.\<close>

definition null_reported :: "'a option comp \<Rightarrow> bool" where
  "null_reported m \<longleftrightarrow> (\<forall>ds. m = Ok ds None \<longrightarrow> \<not> no_error ds)"

lemma null_reported_simps [simp]:
  "null_reported (Bug m)" "null_reported (ret (Some x))" "null_reported (report (Error k) y)" "null_reported (Ok ds (Some x))"
  by (auto simp: null_reported_def)

lemma null_reported_bind:
  "(\<And>ds x. m = Ok ds x \<Longrightarrow> no_error ds \<Longrightarrow> null_reported (f x)) \<Longrightarrow> null_reported (bind_comp m f)"
  by (auto simp: null_reported_def elim!: bind_comp_OkE)

lemma solve_loop_reports:
  assumes "solve_loop env s = Some res"
  shows "null_reported res"
proof (rule solve_loop.raw_induct [OF _ assms], goal_cases)
  case (1 loop e s res)
  show ?case
  proof (cases "pending s")
    case (Cons c cs)
    let ?m = "solve_constraint e c (s\<lparr>pending := cs\<rparr>)"
    show ?thesis
    proof (cases ?m)
      case (Ok ds r)
      show ?thesis
      proof (cases "fst r")
        case True
        with 1(2) Cons Ok obtain res' where "loop e (snd r) = Some res'" "res = bind_comp (Ok ds ()) (\<lambda>_. res')"
          by (cases "loop e (snd r)") auto
        moreover from 1(1) this(1) have "null_reported res'" .
        ultimately show ?thesis by (cases res') (auto simp: null_reported_def)
      next
        case False
        with solve_constraint_reports [of e c "s\<lparr>pending := cs\<rparr>"] Ok have "\<not> no_error ds"
          by (cases r) (auto simp: reports_def)
        with 1(2) Cons Ok False show ?thesis by (auto simp: null_reported_def)
      qed
    qed (use 1(2) Cons in auto)
  qed (use 1(2) in auto)
qed

lemma unifyBase_reports: "null_reported (unifyBase env k dest src)"
proof -
  have "null_reported (bind_comp res (\<lambda>s. ret (map_option currentSubstitution s)))" if "solve u s = Some res" for u s res
    using solve_loop_reports [OF that [unfolded solve_def]] by (auto simp: null_reported_def elim!: bind_comp_OkE)
  then show ?thesis by (auto simp: unifyBase_def split: option.split prod.split)
qed

text \<open>A failure of the step before is the failure of the whole.\<close>

lemma null_reported_option:
  assumes "null_reported m" "\<And>x. null_reported (f (Some x))" "\<And>ds y. f None \<noteq> Ok ds (Some y)"
  shows "null_reported (bind_comp m f)"
  unfolding null_reported_def
proof (intro allI impI)
  fix ds
  assume "bind_comp m f = Ok ds None"
  then obtain d1 p d2 where "m = Ok d1 p" "f p = Ok d2 None" "ds = d1 @ d2" by (elim bind_comp_OkE) blast
  with assms(1,2) show "\<not> no_error ds" by (cases p) (auto simp: null_reported_def)
qed

lemma unify_convert_reports: "null_reported (unify_convert env dt st d s)"
  unfolding unify_convert_def
  by (rule null_reported_option [OF unifyBase_reports]) (auto intro!: null_reported_bind split: prod.split)

lemma null_reported_if: "null_reported a \<Longrightarrow> null_reported b \<Longrightarrow> null_reported (if c then a else b)"
  by simp

lemma null_reported_case: "null_reported a \<Longrightarrow> (\<And>x. null_reported (f x)) \<Longrightarrow> null_reported (case m of None \<Rightarrow> a | Some x \<Rightarrow> f x)"
  by (cases m) simp_all

lemma unify_swap_reports: "null_reported (bind_comp (unify_convert env dt st d s) (\<lambda>p. ret (map_option prod.swap p)))"
  by (rule null_reported_option [OF unify_convert_reports]) simp_all

lemma tc_compare_reports: "null_reported (tc_compare env lt rt l r)"
  unfolding tc_compare_def
  by (intro unify_swap_reports null_reported_if null_reported_case null_reported_bind unify_convert_reports) simp_all

lemma constant_amount_reports: "null_reported (constant_amount lt rt e)"
  unfolding constant_amount_def
  by (intro null_reported_case null_reported_if null_reported_bind; auto split: option.split prod.split bool.split intro!: null_reported_bind simp del: bind_comp.simps)

lemma slice_index_of_reports: "null_reported (slice_index_of env m x)"
  unfolding slice_index_of_def
  by (auto intro!: null_reported_bind split: option.split enum_instance.split)

section \<open>A node without a type\<close>

definition accounted :: "checked comp \<Rightarrow> bool" where
  "accounted m \<longleftrightarrow> (\<forall>ds x. m = Ok ds x \<longrightarrow> no_error ds \<longrightarrow> typeOf x \<noteq> None)"

lemma accounted_simps [simp]:
  "accounted (Bug m)" "accounted (typed_node e t c l)" "accounted (reject e)"
  by (auto simp: accounted_def typed_node_def reject_def)

lemma accounted_bind: "(\<And>ds x. m = Ok ds x \<Longrightarrow> no_error ds \<Longrightarrow> accounted (f x)) \<Longrightarrow> accounted (bind_comp m f)"
  by (auto simp: accounted_def elim!: bind_comp_OkE)

lemma accounted_folded [simp]: "accounted (folded env e)"
  by (auto simp: folded_def intro: accounted_bind)

lemma accounted_option:
  assumes "null_reported m" "\<And>x. accounted (f x)"
  shows "accounted (bind_comp m (\<lambda>r. case r of None \<Rightarrow> g | Some x \<Rightarrow> f x))" "accounted (bind_some m d f)"
  using assms by (auto simp: bind_some_def accounted_def null_reported_def split: option.split_asm elim!: bind_comp_OkE)

lemma accounted_counted:
  "(\<And>ds x. m = Ok ds x \<Longrightarrow> no_error ds \<Longrightarrow> accounted (f env x)) \<Longrightarrow> accounted (counted env m f)"
  unfolding accounted_def by (blast elim: countedE)

lemma accounted_counted_option:
  assumes "null_reported m" "\<And>x. accounted (f env x)"
  shows "accounted (counted env m (\<lambda>env r. case r of None \<Rightarrow> g env | Some x \<Rightarrow> f env x))"
proof (rule accounted_counted)
  fix ds x
  assume "m = Ok ds x" "no_error ds"
  with assms show "accounted (case x of None \<Rightarrow> g env | Some x \<Rightarrow> f env x)" by (cases x) (auto simp: null_reported_def)
qed

lemma accounted_absent [simp]: "errorsSoFar env = 0 \<Longrightarrow> accounted (absent env e)" "errorsSoFar env = 0 \<Longrightarrow> accounted (no_type env x)"
  by (simp_all add: absent_def no_type_def)

lemma accounted_if: "(c \<Longrightarrow> accounted a) \<Longrightarrow> (\<not> c \<Longrightarrow> accounted b) \<Longrightarrow> accounted (if c then a else b)"
  by simp

lemma accounted_case: "accounted a \<Longrightarrow> (\<And>x. accounted (f x)) \<Longrightarrow> accounted (case m of None \<Rightarrow> a | Some x \<Rightarrow> f x)"
  by (cases m) simp_all

lemma accounted_error [simp]: "accounted (bind_comp (typeError x) f)"
  by (auto simp: accounted_def split: comp.split_asm)

lemmas accounted_intros = accounted_if accounted_case accounted_bind accounted_option

lemma binary_accounted:
  assumes "typeOf l = Some lt" "typeOf r = Some rt"
  shows "accounted (binaryBool env b l r)" "accounted (binaryArith env b l r)" "accounted (unsBinaryArith env b l r)"
    "accounted (tc_shift env b l r)" "accounted (typeSet env mk l r)" "accounted (relation env b l r)"
proof -
  show "accounted (binaryBool env b l r)" using assms by (simp add: binaryBool_def Let_def)
  show a: "accounted (binaryArith env b l r)" 
    unfolding binaryArith_def Let_def assms option.case prod.case by (intro accounted_intros) simp_all
  show "accounted (unsBinaryArith env b l r)"
    unfolding unsBinaryArith_def Let_def assms option.case prod.case by (simp add: a)
  show "accounted (tc_shift env b l r)"
    unfolding tc_shift_def Let_def assms option.case prod.case
    by (intro accounted_option(1) constant_amount_reports) (auto simp: prod.case_eq_if intro!: accounted_if)
  show "accounted (typeSet env mk l r)"
    unfolding typeSet_def Let_def assms option.case prod.case by (intro accounted_if) simp_all
  show "accounted (relation env b l r)"
    unfolding relation_def Let_def assms option.case prod.case
    by (intro accounted_if accounted_option(1) tc_compare_reports) (simp_all add: prod.case_eq_if)
qed

lemma tc_concat_accounted:
  assumes "typeOf l = Some lt" "typeOf r = Some rt"
  shows "accounted (tc_concat env l r)"
proof -
  have "accounted (Ok (Error ERR_TYPE_ERROR # ds) x)" for ds x by (simp add: accounted_def)
  then show ?thesis
    unfolding tc_concat_def Let_def assms option.case prod.case
    by (intro accounted_if) (auto split: option.split intro!: accounted_bind)
qed

lemma postorder_Binary_accounted:
  "typeOf l = Some lt \<Longrightarrow> typeOf r = Some rt \<Longrightarrow> accounted (postorder_Binary env b l r)"
  by (simp add: postorder_Binary_def binary_accounted tc_concat_accounted)

lemma unary_accounted:
  assumes "typeOf x = Some t"
  shows "accounted (postorder_Unary env u x)" "accounted (postorder_Cast env c x)"
proof -
  show "accounted (postorder_Unary env u x)"
    unfolding postorder_Unary_def Let_def assms option.case
    by (intro accounted_if) (simp_all del: bind_comp.simps)
  show "accounted (postorder_Cast env c x)"
    unfolding postorder_Cast_def Let_def assms option.case
    by (intro accounted_if accounted_bind accounted_option(1) unifyBase_reports) simp_all
qed

lemma accounted_constants:
  "(\<And>p q. accounted (f p q)) \<Longrightarrow> accounted (case (to_Constant a, to_Constant b) of (Some p, Some q) \<Rightarrow> f p q | _ \<Rightarrow> reject e)"
  by (auto split: option.split)

lemma slices_accounted:
  assumes "typeOf x = Some t"
  shows "accounted (postorder_Slice env x h l)" "accounted (postorder_PlusSlice env x h l)"
proof -
  show "accounted (postorder_Slice env x h l)"
    unfolding postorder_Slice_def Let_def assms option.case
    by (intro accounted_case accounted_option(2) slice_index_of_reports)
      (auto split: option.split prod.split intro!: accounted_if accounted_bind accounted_option(2) slice_index_of_reports)
  show "accounted (postorder_PlusSlice env x h l)"
    unfolding postorder_PlusSlice_def Let_def assms option.case
    by (intro accounted_if accounted_case accounted_option(2) slice_index_of_reports)
      (auto split: prod.split intro!: accounted_if accounted_bind)
qed

lemma postorder_Mux_accounted:
  assumes "errorsSoFar env = 0" "typeOf c = Some t" "typeOf a = Some u" "typeOf b = Some v"
  shows "accounted (postorder_Mux env c a b)"
  unfolding postorder_Mux_def Let_def assms(2-4) option.case prod.case
  by (intro accounted_if accounted_counted_option unifyBase_reports accounted_counted)
    (auto simp: assms(1) split: prod.split intro!: accounted_counted accounted_if)

lemma postorder_ArrayIndex_accounted:
  assumes "typeOf l = Some lt" "typeOf r = Some rt"
  shows "accounted (postorder_ArrayIndex env l r)"
  unfolding postorder_ArrayIndex_def Let_def assms option.case prod.case
proof (rule accounted_option(1), goal_cases)
  case 1
  show ?case by (auto split: option.split prod.split intro!: null_reported_bind simp del: bind_comp.simps)
next
  case (2 i)
  show ?case by (cases lt) (simp_all add: accounted_if)
qed

lemma those_None: "those xs = None \<longleftrightarrow> None \<in> set xs"
  by (induction xs) (auto split: option.split)

lemma postorder_ListExpression_accounted:
  "(\<And>x. x \<in> set xs \<Longrightarrow> typeOf x \<noteq> None) \<Longrightarrow> errorsSoFar env = 0 \<Longrightarrow> accounted (postorder_ListExpression env xs)"
  by (cases "those (map typeOf xs)") (fastforce simp: postorder_ListExpression_def those_None)+

lemma postorder_Member_accounted:
  assumes "typeOf x = Some t"
  shows "accounted (postorder_Member env x m)"
proof -
  have struct: "accounted (case struct_fields t of
      Some fs \<Rightarrow> (case map_of fs m of None \<Rightarrow> reject e | Some ft \<Rightarrow> typed_node (f ft) ft (c1 ft) (c2 ft))
    | None \<Rightarrow> (case t of Type_Stack et n \<Rightarrow> g et n | _ \<Rightarrow> reject e))"
    if "\<And>et n. accounted (g et n)" for e f c1 c2 g
    using that by (cases t) (auto split: option.split)
  show ?thesis
    unfolding postorder_Member_def Let_def assms option.case
  proof (cases "node x")
    case (TypeNameExpression base)
    then show "accounted (case node x of TypeNameExpression base \<Rightarrow> (case enum_tag base m of None \<Rightarrow> reject (Member Type_Unknown (node x) m)
        | Some True \<Rightarrow> typed_node (Member base (node x) m) base (isConst x) False
        | Some False \<Rightarrow> bind_comp (typeError ()) (\<lambda>_. typed_node (Member t (node x) m) t (isConst x) False)) | _ \<Rightarrow> g)" for g
      by (auto split: option.split bool.split simp del: bind_comp.simps)
  qed (simp_all only: expr.case, (rule struct, intro accounted_if accounted_bind accounted_simps)+)
qed

lemma leaf_accounted:
  assumes "errorsSoFar env = 0"
  shows "accounted (postorder_PathExpression env t p)" "accounted (postorder_TypeNameExpression env t)"
  using assms by (auto simp: postorder_PathExpression_def postorder_TypeNameExpression_def path_node_def Let_def
      split: option.split tdecl.split)

section \<open>The visitor\<close>

text \<open>The children that the checker visits.\<close>

fun visited :: "expr \<Rightarrow> expr list" where
  "visited (StructExpression t fs) = []"
| "visited (HeaderStackExpression t es) = []"
| "visited (MethodCallExpression t m x es) = []"
| "visited (ConstructorCallExpression t es) = []"
| "visited e = children e"

lemma size_visited: "x \<in> set (visited e) \<Longrightarrow> size x < size e"
  using size_children [of x e] by (cases e) auto

text \<open>What is checked elsewhere has a type.\<close>

definition elsewhere :: "expr \<Rightarrow> bool" where
  "elsewhere e \<longleftrightarrow> (case e of StructExpression t fs \<Rightarrow> True | HeaderStackExpression t es \<Rightarrow> True | InvalidHeader t \<Rightarrow> True
     | MethodCallExpression t m x es \<Rightarrow> True | ConstructorCallExpression t es \<Rightarrow> True | _ \<Rightarrow> False)"

function annotated :: "expr \<Rightarrow> bool" where
  "annotated e = ((elsewhere e \<longrightarrow> type_of e \<noteq> Type_Unknown) \<and> list_all annotated (visited e))"
  by auto
termination
  by (relation "measure size") (auto dest: size_visited)

declare annotated.simps [simp del]

lemma check_accounted:
  assumes count: "errorsSoFar env = 0"
  shows "check env e = Ok ds r \<Longrightarrow> no_error ds \<Longrightarrow> annotated e \<Longrightarrow> typeOf r \<noteq> None"
proof (induction e arbitrary: ds r rule: expr_children_induct)
  case (children e)
  from children.prems(3) have ann: "elsewhere e \<longrightarrow> type_of e \<noteq> Type_Unknown" "\<And>x. x \<in> set (visited e) \<Longrightarrow> annotated x"
    using annotated.simps [of e] unfolding list_all_iff by blast+
  have IH: "\<exists>t. typeOf x' = Some t" if "x \<in> set (visited e)" "check env x = Ok d x'" "no_error d" for x x' d
    using children.IH [OF _ that(2,3) ann(2) [OF that(1)]] that(1) by (cases e) auto
  have fin: "typeOf r \<noteq> None" if "accounted m" "m = Ok d r" "no_error d" for m d
    using that by (auto simp: accounted_def)
  note c = children.prems(1,2)
  show ?case
  proof (cases e)
    case (Constant t v b)
    with c show ?thesis by (auto simp: postorder_Constant_def typed_node_def split: if_split_asm)
  next
    case (PathExpression t p)
    with c fin [OF leaf_accounted(1) [OF count]] show ?thesis by simp
  next
    case (TypeNameExpression t)
    with c fin [OF leaf_accounted(2) [OF count]] show ?thesis by simp
  next
    case (ListExpression t es)
    with c obtain d1 xs d2 where m: "counted_all env check es = Ok d1 xs" "postorder_ListExpression env xs = Ok d2 r"
      "no_error d1" "no_error d2"
      by (auto elim: countedE)
    note m1 = counted_all_clean [OF m(1,3)]
    have "list_all2 (\<lambda>x y. typeOf y \<noteq> None) es xs"
    proof (rule list.rel_mono_strong [OF mapM_comp_Ok_diags [OF m1]])
      fix x y assume "x \<in> set es" "\<exists>d. check env x = Ok d y \<and> set d \<subseteq> set d1"
      then obtain d where "check env x = Ok d y" "no_error d" using m(3) by (auto intro: no_error_mono)
      with IH \<open>x \<in> set es\<close> ListExpression show "typeOf y \<noteq> None" by auto
    qed
    then have "typeOf x \<noteq> None" if "x \<in> set xs" for x
      using that by (auto simp: list_all2_conv_all_nth in_set_conv_nth)
    from fin [OF postorder_ListExpression_accounted [OF this count] m(2,4)] show ?thesis .
  next
    case (Unary u t x)
    with c obtain d1 x' d2 where x: "check env x = Ok d1 x'" "postorder_Unary env u x' = Ok d2 r" "ds = d1 @ d2"
      by (auto elim!: countedE)
    with IH [of x d1 x'] Unary c(2) fin [OF unary_accounted(1)] show ?thesis by auto
  next
    case (Cast t x)
    with c obtain d1 x' d2 where x: "check env x = Ok d1 x'" "postorder_Cast env t x' = Ok d2 r" "ds = d1 @ d2"
      by (auto elim!: countedE)
    with IH [of x d1 x'] Cast c(2) fin [OF unary_accounted(2)] show ?thesis by auto
  next
    case (Member t x m)
    with c obtain d1 x' d2 where x: "check env x = Ok d1 x'" "postorder_Member env x' m = Ok d2 r" "ds = d1 @ d2"
      by (auto elim!: countedE)
    with IH [of x d1 x'] Member c(2) fin [OF postorder_Member_accounted] show ?thesis by auto
  next
    case (Binary b t e1 e2)
    with c obtain d1 l d2 r' d3 where x: "check env e1 = Ok d1 l" "check env e2 = Ok d2 r'"
      "postorder_Binary env b l r' = Ok d3 r" "ds = d1 @ d2 @ d3" by (auto elim!: countedE)
    with IH [of e1 d1 l] IH [of e2 d2 r'] Binary c(2) fin [OF postorder_Binary_accounted] show ?thesis by auto
  next
    case (ArrayIndex t e1 e2)
    with c obtain d1 l d2 r' d3 where x: "check env e1 = Ok d1 l" "check env e2 = Ok d2 r'"
      "postorder_ArrayIndex env l r' = Ok d3 r" "ds = d1 @ d2 @ d3" by (auto elim!: countedE)
    with IH [of e1 d1 l] IH [of e2 d2 r'] ArrayIndex c(2) fin [OF postorder_ArrayIndex_accounted] show ?thesis by auto
  next
    case (Range t e1 e2)
    with c obtain d1 l d2 r' d3 where x: "check env e1 = Ok d1 l" "check env e2 = Ok d2 r'"
      "typeSet env Range l r' = Ok d3 r" "ds = d1 @ d2 @ d3" by (auto elim!: countedE)
    with IH [of e1 d1 l] IH [of e2 d2 r'] Range c(2) fin [OF binary_accounted(5)] show ?thesis by auto
  next
    case (Mask t e1 e2)
    with c obtain d1 l d2 r' d3 where x: "check env e1 = Ok d1 l" "check env e2 = Ok d2 r'"
      "typeSet env Mask l r' = Ok d3 r" "ds = d1 @ d2 @ d3" by (auto elim!: countedE)
    with IH [of e1 d1 l] IH [of e2 d2 r'] Mask c(2) fin [OF binary_accounted(5)] show ?thesis by auto
  next
    case (Mux t e1 e2 e3)
    with c obtain d1 x d2 a d3 b d4 where "check env e1 = Ok d1 x" "check env e2 = Ok d2 a" "check env e3 = Ok d3 b"
      "postorder_Mux env x a b = Ok d4 r" "ds = d1 @ d2 @ d3 @ d4" by (auto elim!: countedE)
    with IH [of e1 d1 x] IH [of e2 d2 a] IH [of e3 d3 b] Mux c(2) fin [OF postorder_Mux_accounted [OF count]] show ?thesis by auto
  next
    case (Slice t e1 e2 e3)
    with c obtain d1 x d2 a d3 b d4 where "check env e1 = Ok d1 x" "check env e2 = Ok d2 a" "check env e3 = Ok d3 b"
      "postorder_Slice env x a b = Ok d4 r" "ds = d1 @ d2 @ d3 @ d4" by (auto elim!: countedE)
    with IH [of e1 d1 x] Slice c(2) fin [OF slices_accounted(1)] show ?thesis by auto
  next
    case (PlusSlice t e1 e2 e3)
    with c obtain d1 x d2 a d3 b d4 where "check env e1 = Ok d1 x" "check env e2 = Ok d2 a" "check env e3 = Ok d3 b"
      "postorder_PlusSlice env x a b = Ok d4 r" "ds = d1 @ d2 @ d3 @ d4" by (auto elim!: countedE)
    with IH [of e1 d1 x] PlusSlice c(2) fin [OF slices_accounted(2)] show ?thesis by auto
  qed (use c ann(1) in \<open>auto simp: elsewhere_def checked_elsewhere_def typed_node_def postorder_BoolLiteral_def
      postorder_StringLiteral_def postorder_TypeNameExpression_def postorder_DefaultExpression_def split: if_split_asm\<close>)
qed

text \<open>An example with \<open>inout bit<8> x\<close>, \<open>bit<8> y\<close>, \<open>in bit<2> i\<close>, \<open>bool b\<close> and \<open>const int k = 3\<close>.\<close>

definition tc_example_cf :: cf_env where
  "tc_example_cf = \<lparr>refMap = Some (\<lambda>p. if p = ''k'' then Some (Declaration_Constant 0 Type_InfInt (inf_constant 3))
       else Some (Declaration_Other p)),
     typesKnown = False, warnings = True, hook = \<lambda>e. None,
     constants = (\<lambda>d. if d = 0 then Some (inf_constant 3) else None), maximumWidth = 2048\<rparr>"

definition tc_example_env :: tc_env where
  "tc_example_env = \<lparr>folder = tc_example_cf,
     getDeclaration = (\<lambda>p. if p = ''x'' then Some (Parameter DirInOut b8) else if p = ''y'' then Some (Variable b8)
       else if p = ''i'' then Some (Parameter DirIn (Type_Bits 2 False)) else if p = ''b'' then Some (Variable Type_Boolean)
       else if p = ''k'' then Some (ConstantDecl Type_InfInt) else None),
     unifying = \<lparr>strictStruct = False, optarg = False\<rparr>, readOnly = False, checkArrays = True, errorOnNullDecls = True,
     inParser = False, currentTable = None, errorsSoFar = 0\<rparr>"

abbreviation var :: "string \<Rightarrow> expr" where "var \<equiv> PathExpression Type_Unknown"
abbreviation bin :: "binop \<Rightarrow> expr \<Rightarrow> expr \<Rightarrow> expr" where "bin b \<equiv> Binary b Type_Unknown"


definition ill_typed :: expr where
  "ill_typed = bin Add (bin Mul (var ''x'') (inf_constant 2)) (Cast (Type_Bits 4 True) (var ''b''))"

definition diags_and_type :: "checked comp \<Rightarrow> (diag list \<times> p4type option) option" where
  "diags_and_type m = (case m of Ok ds r \<Rightarrow> Some (ds, typeOf r) | Bug m \<Rightarrow> None)"


end
