(* ===== verification/TypeCheck_Safe.thy ===== *)
theory TypeCheck_Safe
  imports TypeCheck_Errors
begin

text \<open>
  The visitor as a whole: an expression that the checker accepts without an error keeps its value, and
  the types it records are those of the values, so that strength reduction may follow.  The theories
  before have one lemma for each operation; here they are put together by induction on the expression.
\<close>

section \<open>The scope\<close>

text \<open>What is asked of a node, given what the checker makes of its operands.\<close>

definition with_checked :: "tc_env \<Rightarrow> expr \<Rightarrow> (checked \<Rightarrow> bool) \<Rightarrow> bool" where
  "with_checked env e P = (case check env e of Ok ds x \<Rightarrow> P x | Bug m \<Rightarrow> True)"

fun node_ok :: "sem_env \<Rightarrow> tc_env \<Rightarrow> expr \<Rightarrow> bool" where
  "node_ok \<rho> env (Constant t v b) = (case t of Type_Bits w s \<Rightarrow> w \<le> 2147483647 | _ \<Rightarrow> True)"
| "node_ok \<rho> env (Cast t x) = with_checked env x (direct_cast env t)"
| "node_ok \<rho> env (Member t x m) = member_ok t x m"
| "node_ok \<rho> env (Binary b t l r) = with_checked env l (\<lambda>l'. with_checked env r (comparable b l'))"
| "node_ok \<rho> env (Mux t c a b) = with_checked env a (\<lambda>a'. with_checked env b (same_scalar a'))"
| "node_ok \<rho> env (StructExpression t fs) = (typed_elsewhere \<rho> (StructExpression t fs) \<and> no_size (StructExpression t fs))"
| "node_ok \<rho> env (HeaderStackExpression t es) =
     (typed_elsewhere \<rho> (HeaderStackExpression t es) \<and> no_size (HeaderStackExpression t es))"
| "node_ok \<rho> env (MethodCallExpression t m x es) =
     (typed_elsewhere \<rho> (MethodCallExpression t m x es) \<and> no_size (MethodCallExpression t m x es))"
| "node_ok \<rho> env (ConstructorCallExpression t es) = no_size (ConstructorCallExpression t es)"
| "node_ok \<rho> env e = True"

function in_scope :: "sem_env \<Rightarrow> tc_env \<Rightarrow> expr \<Rightarrow> bool" where
  "in_scope \<rho> env e = (node_ok \<rho> env e \<and> list_all (in_scope \<rho> env) (visited e))"
  by auto
termination
  by (relation "measure (\<lambda>(\<rho>, env, e). size e)") (auto dest: size_visited)

declare in_scope.simps [simp del]

section \<open>The visitor\<close>

lemma postorder_Binary_sound:
  assumes c: "postorder_Binary env b l r = Ok ds x" "no_error ds" and ok: "tc_ok \<rho> env"
    and s: "sound \<rho> e1 l" "sound \<rho> e2 r" and cmp: "comparable b l r"
  shows "sound \<rho> (Binary b t e1 e2) x"
proof -
  consider (bool) "b = LAnd \<or> b = LOr" | (shift) "b = Shl \<or> b = Shr" | (div) "b = Div \<or> b = Mod"
    | (concat) "b = Concat" | (rel) "is_relation b" | (arith) "arith_op b" "\<not> is_relation b"
    by (auto simp: arith_op_def is_relation_def)
  then show ?thesis
  proof cases
    case bool
    with c binaryBool_sound [OF _ s] show ?thesis by (simp add: postorder_Binary_def)
  next
    case shift
    with c tc_shift_sound [OF _ ok s] show ?thesis by (auto simp: postorder_Binary_def)
  next
    case div
    with c unsBinaryArith_sound [OF _ ok s] show ?thesis
      by (auto simp: postorder_Binary_def arith_op_def is_relation_def)
  next
    case concat
    with c tc_concat_sound [OF _ _ ok s] show ?thesis by (simp add: postorder_Binary_def)
  next
    case rel
    with c relation_sound [OF _ ok s rel cmp] show ?thesis by (auto simp: postorder_Binary_def is_relation_def)
  next
    case arith
    then have "b \<noteq> LAnd" "b \<noteq> LOr" "b \<noteq> Shl" "b \<noteq> Shr" "b \<noteq> Concat" by (auto simp: arith_op_def)
    with c(1) arith binaryArith_sound [OF _ ok s arith(1)] unsBinaryArith_sound [OF _ ok s arith(1)]
    show ?thesis by (auto simp: postorder_Binary_def split: if_split_asm)
  qed
qed

lemma check_TypeNameExpression: "check env (TypeNameExpression t) = Ok ds r \<Longrightarrow> node r = TypeNameExpression t"
  by (auto simp: postorder_TypeNameExpression_def typed_node_def untyped_def split: if_split_asm)

lemma check_sound:
  assumes "check env e = Ok ds r" "no_error ds" "tc_ok \<rho> env" "in_scope \<rho> env e" "annotated e" "errorsSoFar env = 0"
  shows "sound \<rho> e r"
  using assms(1-5)
proof (induction e arbitrary: ds r rule: expr_children_induct)
  case (children e)
  note ok = children.prems(3)
  from children.prems(4) have scope: "node_ok \<rho> env e" "\<And>x. x \<in> set (visited e) \<Longrightarrow> in_scope \<rho> env x"
    using in_scope.simps [of \<rho> env e] by (simp_all only: list_all_iff Ball_def conj_ac)
  from children.prems(5) have ann: "annotated x" if "x \<in> set (visited e)" for x
    using annotated.simps [of e] that unfolding list_all_iff by blast
  have IH: "sound \<rho> x x'" if "x \<in> set (visited e)" "check env x = Ok d x'" "no_error d" for x x' d
    using children.IH [OF _ that(2,3) ok scope(2) [OF that(1)] ann [OF that(1)]] that(1) by (cases e) auto
  note c = children.prems(1,2)
  show ?case
  proof (cases e)
    case (Constant t v b)
    have w: "w \<le> 2147483647" if "t = Type_Bits w s" for w s using scope(1) Constant that by simp
    from c(1) Constant have "postorder_Constant t v b = Ok ds r" by simp
    from postorder_Constant_sound [OF this w] Constant show ?thesis by blast
  next
    case (BoolLiteral p)
    with c literals_sound(1) show ?thesis by simp
  next
    case (StringLiteral s)
    with c literals_sound(2) show ?thesis by simp
  next
    case (PathExpression t p)
    with c postorder_PathExpression_sound [OF _ ok] show ?thesis by simp
  next
    case (TypeNameExpression t)
    with c literals_sound(3) show ?thesis by simp
  next
    case (DefaultExpression t)
    with c literals_sound(4) show ?thesis by simp
  next
    case (ListExpression t es)
    with c obtain d1 xs d2 where m: "counted_all env check es = Ok d1 xs" "postorder_ListExpression env xs = Ok d2 r"
      "no_error d1" by (auto elim: countedE)
    have "list_all2 (sound \<rho>) es xs"
      by (rule list.rel_mono_strong [OF mapM_comp_Ok_diags [OF counted_all_clean [OF m(1,3)]]])
        (use IH ListExpression m(3) in \<open>auto intro: no_error_mono\<close>)
    from postorder_ListExpression_sound [OF m(2) this] ListExpression show ?thesis by simp
  next
    case (Unary u t x)
    with c obtain d1 x' d2 where "check env x = Ok d1 x'" "postorder_Unary env u x' = Ok d2 r" "ds = d1 @ d2"
      by (auto elim!: countedE)
    with c(2) Unary IH [of x d1 x'] postorder_Unary_sound [OF _ _ ok] show ?thesis by simp
  next
    case (Cast t x)
    with c obtain d1 x' d2 where "check env x = Ok d1 x'" "postorder_Cast env t x' = Ok d2 r" "ds = d1 @ d2"
      by (auto elim!: countedE)
    with c(2) Cast IH [of x d1 x'] scope(1) postorder_Cast_sound [of env t x' d2 r \<rho> x] show ?thesis
      by (simp add: with_checked_def)
  next
    case (Member t x m)
    with c obtain d1 x' d2 where x: "check env x = Ok d1 x'" "postorder_Member env x' m = Ok d2 r" "ds = d1 @ d2"
      by (auto elim!: countedE)
    have "node x' = x" if "x = TypeNameExpression b" for b
      using check_TypeNameExpression x(1) that by blast
    with x c(2) Member IH [of x d1 x'] scope(1) postorder_Member_sound [of env x' m d2 r \<rho> x t] show ?thesis by simp
  next
    case (Binary b t e1 e2)
    with c obtain d1 l d2 r' d3 where "check env e1 = Ok d1 l" "check env e2 = Ok d2 r'"
      "postorder_Binary env b l r' = Ok d3 r" "ds = d1 @ d2 @ d3" by (auto elim!: countedE)
    with c(2) Binary IH [of e1 d1 l] IH [of e2 d2 r'] scope(1) postorder_Binary_sound [OF _ _ ok] show ?thesis
      by (simp add: with_checked_def)
  next
    case (ArrayIndex t e1 e2)
    with c obtain d1 l d2 r' d3 where "check env e1 = Ok d1 l" "check env e2 = Ok d2 r'"
      "postorder_ArrayIndex env l r' = Ok d3 r" "ds = d1 @ d2 @ d3" by (auto elim!: countedE)
    with c(2) ArrayIndex IH [of e1 d1 l] IH [of e2 d2 r'] postorder_ArrayIndex_sound show ?thesis by simp
  next
    case (Range t e1 e2)
    with c obtain d1 l d2 r' d3 where "check env e1 = Ok d1 l" "check env e2 = Ok d2 r'"
      "typeSet env Range l r' = Ok d3 r" "ds = d1 @ d2 @ d3" by (auto elim!: countedE)
    with c(2) Range IH [of e1 d1 l] IH [of e2 d2 r'] typeSet_sound [of env Range l r' d3 r \<rho> e1 e2] show ?thesis by simp
  next
    case (Mask t e1 e2)
    with c obtain d1 l d2 r' d3 where "check env e1 = Ok d1 l" "check env e2 = Ok d2 r'"
      "typeSet env Mask l r' = Ok d3 r" "ds = d1 @ d2 @ d3" by (auto elim!: countedE)
    with c(2) Mask IH [of e1 d1 l] IH [of e2 d2 r'] typeSet_sound [of env Mask l r' d3 r \<rho> e1 e2] show ?thesis by simp
  next
    case (Mux t e1 e2 e3)
    with c obtain d1 x d2 a d3 b d4 where "check env e1 = Ok d1 x" "check env e2 = Ok d2 a" "check env e3 = Ok d3 b"
      "postorder_Mux env x a b = Ok d4 r" "ds = d1 @ d2 @ d3 @ d4" by (auto elim!: countedE)
    with c(2) Mux IH [of e1 d1 x] IH [of e2 d2 a] IH [of e3 d3 b] scope(1) postorder_Mux_sound [OF _ ok]
    show ?thesis by (simp add: with_checked_def)
  next
    case (Slice t e1 e2 e3)
    with c obtain d1 x d2 a d3 b d4 where x: "check env e1 = Ok d1 x" "check env e2 = Ok d2 a" "check env e3 = Ok d3 b"
      "postorder_Slice env x a b = Ok d4 r" "ds = d1 @ d2 @ d3 @ d4" by (auto elim!: countedE)
    with c(2) Slice ann check_accounted [OF assms(6) x(2)] check_accounted [OF assms(6) x(3)]
    obtain u v where "typeOf a = Some u" "typeOf b = Some v" by auto
    with x c(2) Slice IH [of e1 d1 x] IH [of e2 d2 a] IH [of e3 d3 b] postorder_Slice_sound [OF _ ok]
    show ?thesis by simp
  next
    case (PlusSlice t e1 e2 e3)
    with c obtain d1 x d2 a d3 b d4 where x: "check env e1 = Ok d1 x" "check env e2 = Ok d2 a" "check env e3 = Ok d3 b"
      "postorder_PlusSlice env x a b = Ok d4 r" "ds = d1 @ d2 @ d3 @ d4" by (auto elim!: countedE)
    with c(2) PlusSlice ann check_accounted [OF assms(6) x(2)] check_accounted [OF assms(6) x(3)]
    obtain u v where "typeOf a = Some u" "typeOf b = Some v" by auto
    with x c(2) PlusSlice IH [of e1 d1 x] IH [of e2 d2 a] IH [of e3 d3 b] postorder_PlusSlice_sound [OF _ ok]
    show ?thesis by simp
  qed (use c scope(1) checked_elsewhere_sound in \<open>auto simp: typed_elsewhere_def\<close>)
qed

section \<open>What the checker promises\<close>

definition tc_example_vals :: sem_env where
  "tc_example_vals = \<lparr>var_val = (\<lambda>p. if p = ''x'' then Some (BitsV 8 False 77)
       else if p = ''y'' then Some (BitsV 8 False 5) else if p = ''i'' then Some (BitsV 2 False 3)
       else if p = ''b'' then Some (BoolV False) else if p = ''k'' then Some (InfV 3) else None),
     call_val = \<lambda>m v as. None\<rparr>"

lemma example_count: "errorsSoFar tc_example_env = 0"
  by (simp add: tc_example_env_def)

lemma tc_ok_example: "tc_ok tc_example_vals tc_example_env"
  by (auto simp: tc_ok_def tc_example_vals_def tc_example_env_def tc_example_cf_def wf_env_def cf_ok_def cf_typed_def
      cf_no_size_def in_range_def split: if_split_asm)

text \<open>C34: type checking is sound on the expressions of its scope. When no error has been counted before and the
  checker reports none, the expression has a type; the expression that the checker returns, with its casts
  and folded constants, evaluates to the value of the source; the types recorded on its nodes are those of
  the values, and the operands of arithmetic have one type, which is what strength reduction asks for.  The
  conditions: the nodes that other parts of the checker type carry their types (\<open>annotated\<close>), and these are
  the types of their values; the values of the variables have the declared types, and the constants recorded
  by the folder have the values of their declarations (\<open>tc_ok\<close>); and no node has one of the shapes that
  \<open>in_scope\<close> leaves out - comparisons with a list, branches of a conditional expression that are not of one
  scalar type (see \<open>mux_of_int_and_bits\<close> below), casts other than direct casts to \<open>bool\<close>, \<open>int\<close> and sized
  types, constants and casts of a width that does not fit in an \<open>int\<close>, members named \<open>size\<close>, and members of
  an enumeration that are written with the name of another.\<close>

theorem type_checking_sound:
  assumes "check env e = Ok ds r" "no_error ds" "annotated e" "tc_ok \<rho> env" "in_scope \<rho> env e" "errorsSoFar env = 0"
    and "eval \<rho> e = Some v"
  shows "\<exists>t. typeOf r = Some t \<and> eval \<rho> (node r) = Some v \<and> typed \<rho> (node r) \<and> conform v t"
proof -
  obtain t where t: "typeOf r = Some t" using check_accounted [OF assms(6,1-3)] by blast
  from soundD(2,3) [OF check_sound [OF assms(1,2,4,5,3,6)] t assms(7)] t show ?thesis by (simp add: evals_def)
qed

definition tc_example :: expr where
  "tc_example = bin Concat
     (Mux Type_Unknown (bin Equ (bin Add (var ''x'') (var ''k'')) (bin Mul (inf_constant 16) (var ''y'')))
        (Cast b8 (Slice Type_Unknown (var ''x'') (inf_constant 5) (inf_constant 2)))
        (bin BAnd (bin Shl (var ''y'') (var ''k'')) (inf_constant 15)))
     (var ''i'')"

definition tc_result :: expr where
  "tc_result = Binary Concat (Type_Bits 10 False)
     (Mux b8
        (Binary Equ Type_Boolean
           (Binary Add b8 (PathExpression b8 ''x'') (Constant b8 3 10))
           (Binary Mul b8 (Constant b8 16 10) (PathExpression b8 ''y'')))
        (Cast b8 (Slice (Type_Bits 4 False) (PathExpression b8 ''x'') (inf_constant 5) (inf_constant 2)))
        (Binary BAnd b8 (Binary Shl b8 (PathExpression b8 ''y'') (PathExpression Type_InfInt ''k'')) (Constant b8 15 10)))
     (PathExpression (Type_Bits 2 False) ''i'')"

lemma check_example:
  "check tc_example_env tc_example =
     Ok [] \<lparr>node = tc_result, typeOf = Some (Type_Bits 10 False), isConst = False, isLeft = False\<rparr>"
  by code_simp

lemma example_in_scope: "in_scope tc_example_vals tc_example_env tc_example" "annotated tc_example"
  by code_simp+

theorem type_checking_sound_witness:
  "eval tc_example_vals tc_result = Some (BitsV 10 False 15) \<and> typed tc_example_vals tc_result"
proof -
  have "eval tc_example_vals tc_example = Some (BitsV 10 False 15)" by code_simp
  from type_checking_sound [OF check_example _ example_in_scope(2) tc_ok_example example_in_scope(1) example_count this]
  show ?thesis by simp
qed

text \<open>C35: strength reduction after type checking. An expression that the checker accepts without an error,
  under the conditions of the soundness of type checking above, can be handed to strength reduction: what
  comes out, when that reports no error either and meets none of the shapes for which it is not exact
  (\<open>sr_exact\<close>), has the value of the source and is typed.\<close>

theorem checked_then_reduced:
  assumes "check env e = Ok ds r" "no_error ds" "annotated e" "tc_ok \<rho> env" "in_scope \<rho> env e" "errorsSoFar env = 0"
    and "sr_expr enableSub (node r) = Ok ds' e'" "no_error ds'" "sr_exact enableSub (node r)"
    and "eval \<rho> e = Some v"
  shows "eval \<rho> e' = Some v \<and> typed \<rho> e'"
proof -
  obtain t where t: "typeOf r = Some t" using check_accounted [OF assms(6,1-3)] by blast
  have "evals \<rho> (node r) v" using soundD(2) [OF check_sound [OF assms(1,2,4,5,3,6)] t assms(10)] .
  with sr_expr_evals [OF assms(7-9)] assms(4) show ?thesis by (simp add: evals_def tc_ok_def)
qed

definition tc_reduced :: expr where
  "tc_reduced = Binary Concat (Type_Bits 10 False)
     (Mux b8
        (Binary Equ Type_Boolean
           (Binary Add b8 (PathExpression b8 ''x'') (Constant b8 3 10))
           (Binary Shl b8 (PathExpression b8 ''y'') (inf_constant 4)))
        (Cast b8 (Slice (Type_Bits 4 False) (PathExpression b8 ''x'') (inf_constant 5) (inf_constant 2)))
        (Binary BAnd b8 (Binary Shl b8 (PathExpression b8 ''y'') (PathExpression Type_InfInt ''k'')) (Constant b8 15 10)))
     (PathExpression (Type_Bits 2 False) ''i'')"

theorem checked_then_reduced_witness:
  "eval tc_example_vals tc_reduced = Some (BitsV 10 False 15) \<and> typed tc_example_vals tc_reduced"
proof -
  have e: "eval tc_example_vals tc_example = Some (BitsV 10 False 15)" by code_simp
  have s: "sr_expr True (node \<lparr>node = tc_result, typeOf = Some (Type_Bits 10 False), isConst = False, isLeft = False\<rparr>) = Ok [] tc_reduced"
    by code_simp
  have x: "sr_exact True (node \<lparr>node = tc_result, typeOf = Some (Type_Bits 10 False), isConst = False, isLeft = False\<rparr>)"
    by code_simp
  from checked_then_reduced [OF check_example _ example_in_scope(2) tc_ok_example example_in_scope(1) example_count s _ x e]
  show ?thesis by simp
qed

text \<open>The amount of a shift may have any type that is not signed, a boolean for example.\<close>

lemma shift_by_boolean:
  "check tc_example_env (bin Shl (var ''x'') (var ''b'')) =
     Ok [] \<lparr>node = Binary Shl b8 (PathExpression b8 ''x'') (PathExpression Type_Boolean ''b''), typeOf = Some b8,
       isConst = False, isLeft = False\<rparr>"
  by code_simp

text \<open>The branches of a conditional expression.\<close>

lemma unifyBase_int:
  "unifyBase env False Type_InfInt (Type_Bits w s) = ret (Some [(TypeUnify.Type_InfInt 0, Base (TypeUnify.Type_Bits (nat w) s))])"
  by (simp add: unifyBase_def Let_def solve_def solve_loop.simps solve_constraint_def isUnifiableTypeVariable_def containsKey_def
      is_Any_def bind_variable_def replaceVariables_def apply_subst_def compose_def underlying_def fits_InfInt_def occurs_def)

text \<open>A conditional expression with one branch of type \<open>int\<close> and one sized branch. When the \<open>int\<close>
  branch is not a literal there is nothing to convert: the expression is accepted without a cast, keeps
  the type \<open>int\<close> and evaluates, when the condition is false, to a sized value.\<close>

theorem mux_of_int_and_bits:
  assumes "typeOf c = Some Type_Boolean" "typeOf a = Some Type_InfInt" "typeOf b = Some (Type_Bits w s)"
    and "to_Constant (node a) = None" "to_Constant (node b) = None" "\<not> is_list (node a)" "\<not> is_list (node b)"
    and "type_of (node a) = Type_InfInt" "type_of (node b) = Type_Bits w s" "\<not> isConst c"
    and "eval \<rho> (node c) = Some (BoolV False)" "eval \<rho> (node b) = Some (BitsV k s n)" "errorsSoFar env = 0"
  shows "\<exists>r. postorder_Mux env c a b = Ok [] r \<and> typeOf r = Some Type_InfInt \<and>
    eval \<rho> (node r) = Some (BitsV k s n) \<and> \<not> typed \<rho> (node r)"
proof -
  have conv: "convert tvs i e = ret (e, snd (embed i (type_of e)))" if "to_Constant e = None" "\<not> is_list e" for tvs i e
    using that by (cases "(tvs, i, e)" rule: convert.cases) auto
  let ?r = "\<lparr>node = Mux Type_InfInt (node c) (node a) (node b), typeOf = Some Type_InfInt, isConst = False, isLeft = False\<rparr>"
  have "postorder_Mux env c a b = Ok [] ?r"
    using assms(1-10,13) by (simp add: postorder_Mux_def Let_def unifyBase_int conv typed_node_def)
  moreover have v: "eval \<rho> (node ?r) = Some (BitsV k s n)" using assms(11,12) by simp
  moreover have "\<not> typed \<rho> (node ?r)" using v by (subst typed.simps) simp
  ultimately show ?thesis by (intro exI [of _ ?r]) simp
qed

theorem mux_of_int_and_bits_witness:
  "\<exists>r. check tc_example_env (Mux Type_Unknown (var ''b'') (Cast Type_InfInt (var ''x'')) (var ''y'')) = Ok [] r \<and>
    typeOf r = Some Type_InfInt \<and> eval tc_example_vals (node r) = Some (BitsV 8 False 5)"
proof -
  let ?c = "\<lparr>node = PathExpression Type_Boolean ''b'', typeOf = Some Type_Boolean, isConst = False, isLeft = True\<rparr>"
  let ?a = "\<lparr>node = Cast Type_InfInt (PathExpression b8 ''x''), typeOf = Some Type_InfInt, isConst = False, isLeft = False\<rparr>"
  let ?b = "\<lparr>node = PathExpression b8 ''y'', typeOf = Some b8, isConst = False, isLeft = True\<rparr>"
  have c: "check tc_example_env (var ''b'') = Ok [] ?c" "check tc_example_env (Cast Type_InfInt (var ''x'')) = Ok [] ?a"
    "check tc_example_env (var ''y'') = Ok [] ?b" by code_simp+
  have v: "eval tc_example_vals (node ?c) = Some (BoolV False)" "eval tc_example_vals (node ?b) = Some (BitsV 8 False 5)"
    by code_simp+
  from mux_of_int_and_bits [of ?c ?a ?b 8 False tc_example_vals 8 5 tc_example_env] v example_count
  obtain r where "postorder_Mux tc_example_env ?c ?a ?b = Ok [] r" "typeOf r = Some Type_InfInt"
    "eval tc_example_vals (node r) = Some (BitsV 8 False 5)" by auto
  with c show ?thesis by (simp del: check.simps(9) add: check.simps(15))
qed

end
