(* ===== verification/HashVec.thy ===== *)
theory HashVec
  imports BitMatrix
begin

text \<open>
  Hash tables that keep their entries in the order of insertion (lib/hashvec.{h,cpp}) and the two
  containers made of them, \<open>hvec_map\<close> and \<open>hvec_set\<close> (lib/hvec_map.h, lib/hvec_set.h).  The entries are
  in a vector; the hash array holds, at the slot where the search for its key ends, one more than the
  index of an entry; erased entries stay in the vector and are marked in a bit vector.

  The virtual operations of \<open>hash_vector_base\<close> on entries are the fields of \<open>hv_class\<close>, with the hashing
  and the comparison of keys, which are template parameters.  Sizes and indices are natural numbers; the
  elements of the hash array are cut to their width, and the count of collisions is a 64-bit number,
  because it can wrap.  The variants for several entries with one key (\<open>ismulti\<close>) have no client and are
  left out.
\<close>

section \<open>The state\<close>

record ('k, 'e) hv_class =
  hashfn :: "'k \<Rightarrow> nat"
  cmpfn :: "'k \<Rightarrow> 'k \<Rightarrow> bool"
  getkey :: "'e \<Rightarrow> 'k"
  blank :: 'e

text \<open>\<open>info\<close> is the number of the format: one, two or four bytes for each element of the hash array.\<close>

record 'e hvec =
  info :: nat
  htab :: "nat list"
  log_hashsize :: nat
  collisions :: "64 word"
  inuse :: nat
  erased :: bitvec
  hdata :: "'e list"

abbreviation hashsize :: "'e hvec \<Rightarrow> nat" where "hashsize h \<equiv> length (htab h)"

abbreviation limit :: "'e hvec \<Rightarrow> nat" where "limit h \<equiv> length (hdata h)"

abbreviation is_erased :: "'e hvec \<Rightarrow> nat \<Rightarrow> bool" where "is_erased h \<equiv> getbit (erased h)"

definition hashelsize :: "nat \<Rightarrow> nat" where
  "hashelsize fmt = 2 ^ fmt"

definition maxset :: "nat \<Rightarrow> nat" where
  "maxset fmt = (if fmt = 0 then 255 else if fmt = 1 then 65535 else 4294967295)"

definition gethash :: "'e hvec \<Rightarrow> nat \<Rightarrow> nat" where
  "gethash h i = htab h ! i"

definition sethash :: "'e hvec \<Rightarrow> nat \<Rightarrow> nat \<Rightarrow> 'e hvec" where
  "sethash h i v = h\<lparr>htab := (htab h)[i := v mod 2 ^ (8 * hashelsize (info h))]\<rparr>"

text \<open>The table has a function for each logarithm from 4 to 32; below that it holds null pointers.\<close>

definition mod_hashsize :: "nat \<Rightarrow> nat \<Rightarrow> nat" where
  "mod_hashsize log x = (if 4 \<le> log \<and> log \<le> 32 then x mod (2 ^ log - 1) else undefined)"

text \<open>A new array of zeros.\<close>

definition allochash :: "nat \<Rightarrow> 'e hvec \<Rightarrow> 'e hvec" where
  "allochash n h = h\<lparr>htab := replicate n 0\<rparr>"

definition resizedata :: "('k, 'e) hv_class \<Rightarrow> 'e hvec \<Rightarrow> nat \<Rightarrow> 'e hvec" where
  "resizedata c h n = h\<lparr>hdata := take n (hdata h) @ replicate (n - limit h) (blank c)\<rparr>"

definition moveentry :: "'e hvec \<Rightarrow> nat \<Rightarrow> nat \<Rightarrow> 'e hvec" where
  "moveentry h to from = h\<lparr>hdata := (hdata h)[to := hdata h ! from]\<rparr>"

section \<open>Construction\<close>

function grow_size :: "nat \<Rightarrow> nat \<Rightarrow> nat \<Rightarrow> nat \<times> nat" where
  "grow_size capacity n log =
     (if n div 2 < capacity then grow_size capacity (n + (n + 1)) (log + 1) else (n, log))"
  by auto
termination
  by (relation "measure (\<lambda>(capacity, n, log). 2 * capacity + 2 - n)") auto

declare grow_size.simps [simp del]

function pick_format :: "nat \<Rightarrow> nat \<Rightarrow> nat comp" where
  "pick_format capacity fmt =
     (if maxset fmt < capacity then if fmt < 2 then pick_format capacity (Suc fmt) else Bug ''capacity exceeds max''
      else ret fmt)"
  by auto
termination
  by (relation "measure (\<lambda>(capacity, fmt). 2 - fmt)") auto

declare pick_format.simps [simp del]

definition hash_vector_base :: "nat \<Rightarrow> 'e hvec comp" where
  "hash_vector_base capacity =
     (let (n, log) = grow_size capacity 15 4
      in if n + 1 \<noteq> 2 ^ log then Bug ''hash corrupt''
         else bind_comp (pick_format capacity 0) (\<lambda>fmt.
           ret \<lparr>info = fmt, htab = replicate n 0, log_hashsize = log, collisions = 0, inuse = 0,
                erased = bv_empty, hdata = []\<rparr>))"

definition hv_clear :: "'e hvec \<Rightarrow> 'e hvec" where
  "hv_clear h = allochash 15 (h\<lparr>info := 0, collisions := 0, log_hashsize := 4, inuse := 0, erased := bv_clear (erased h)\<rparr>)"

section \<open>Search\<close>

text \<open>The result is the index plus one, or 0, with the slot and the collisions of the cache.\<close>

definition continues :: "('k, 'e) hv_class \<Rightarrow> 'e hvec \<Rightarrow> 'k \<Rightarrow> nat \<Rightarrow> bool" where
  "continues c h key idx =
     (idx \<noteq> 0 \<and> (is_erased h (idx - 1) \<or> \<not> cmpfn c key (getkey c (hdata h ! (idx - 1)))))"

function find_loop :: "('k, 'e) hv_class \<Rightarrow> 'e hvec \<Rightarrow> 'k \<Rightarrow> nat \<Rightarrow> nat \<Rightarrow> nat \<times> nat \<times> nat" where
  "find_loop c h key hash coll =
     (let idx = gethash h hash
      in if continues c h key idx
         then if hashsize h \<le> Suc coll then (0, hash, Suc coll)
              else find_loop c h key (if Suc hash = hashsize h then 0 else Suc hash) (Suc coll)
         else (idx, hash, coll))"
  by auto
termination
  by (relation "measure (\<lambda>(c, h, key, hash, coll). hashsize h - coll)") auto

declare find_loop.simps [simp del]

definition hv_find :: "('k, 'e) hv_class \<Rightarrow> 'e hvec \<Rightarrow> 'k \<Rightarrow> nat \<times> nat \<times> nat" where
  "hv_find c h key = find_loop c h key (mod_hashsize (log_hashsize h) (hashfn c key)) 0"

section \<open>Rehashing\<close>

fun redo_loop :: "('k, 'e) hv_class \<Rightarrow> bitvec \<Rightarrow> nat list \<Rightarrow> nat \<Rightarrow> 'e hvec \<Rightarrow> ('e hvec \<times> nat) comp" where
  "redo_loop c old [] j h = ret (h, j)"
| "redo_loop c old (i # is) j h =
     (if getbit old i then redo_loop c old is j h
      else case hv_find c h (getkey c (hdata h ! i)) of (idx, slot, coll) \<Rightarrow>
        if idx \<noteq> 0 then Bug ''duplicate keys in hash_vector_base::redo_hash''
        else let h = (if j \<noteq> i then moveentry h j i else h);
                 h = sethash h slot (Suc j)
             in redo_loop c old is (Suc j) (h\<lparr>collisions := collisions h + of_nat coll\<rparr>))"

definition redo_hash :: "('k, 'e) hv_class \<Rightarrow> 'e hvec \<Rightarrow> 'e hvec comp" where
  "redo_hash c h =
     bind_comp (redo_loop c (erased h) [0..<limit h] 0
                  (h\<lparr>htab := replicate (hashsize h) 0, collisions := 0, erased := bv_clear (erased h)\<rparr>))
       (\<lambda>(h, j). ret ((resizedata c h j)\<lparr>inuse := j\<rparr>))"

definition expand_hash :: "'e hvec \<Rightarrow> 'e hvec comp" where
  "expand_hash h =
     (let n = hashsize h + (hashsize h + 1); log = log_hashsize h + 1
      in if n AND (n + 1) \<noteq> 0 \<or> n + 1 \<noteq> 2 ^ log then Bug ''hash corruption''
         else ret (allochash n (h\<lparr>log_hashsize := log\<rparr>)))"

section \<open>Insertion and removal\<close>

text \<open>The first half of \<open>hv_insert\<close>: the search, after which the table may be hashed again.\<close>

definition insert_slot :: "('k, 'e) hv_class \<Rightarrow> 'e hvec \<Rightarrow> 'k \<Rightarrow> ('e hvec \<times> nat) comp" where
  "insert_slot c h key =
     (case hv_find c h key of (idx, slot, coll) \<Rightarrow>
        let h = h\<lparr>collisions := collisions h + of_nat coll\<rparr>
        in if hashsize h div 2 < unat (collisions h)
           then bind_comp
                  (if inuse h * 3 < limit h * 2 then ret h
                   else if inuse h * 10 < hashsize h then ret h
                   else expand_hash h)
                  (\<lambda>h. bind_comp (redo_hash c h) (\<lambda>h. ret (h, fst (snd (hv_find c h key)))))
           else ret (h, slot))"

text \<open>The second half: room for the new index, and the index itself.\<close>

definition insert_index :: "('k, 'e) hv_class \<Rightarrow> 'e hvec \<Rightarrow> 'k \<Rightarrow> nat \<Rightarrow> 'e hvec comp" where
  "insert_index c h key slot =
     bind_comp (if hashsize h \<le> limit h then expand_hash h else ret h) (\<lambda>h1.
       bind_comp (if maxset (info h1) \<le> limit h1
                  then if info h1 = 2 then Bug ''hash_vector overflow'' else ret (h1\<lparr>info := info h1 + 1\<rparr>)
                  else ret h1) (\<lambda>h2.
         bind_comp (if hashsize h \<le> limit h \<or> maxset (info h1) \<le> limit h1
                    then bind_comp (redo_hash c (allochash (hashsize h2) h2)) (\<lambda>h3. ret (h3, fst (snd (hv_find c h3 key))))
                    else ret (h2, slot)) (\<lambda>(h4, slot).
           ret ((sethash h4 slot (limit h4 + 1))\<lparr>inuse := inuse h4 + 1\<rparr>))))"

text \<open>The result \<open>-1\<close> is \<open>None\<close>: the caller has to append the entry.\<close>

definition hv_insert :: "('k, 'e) hv_class \<Rightarrow> 'e hvec \<Rightarrow> 'k \<Rightarrow> ('e hvec \<times> nat option) comp" where
  "hv_insert c h key =
     bind_comp (insert_slot c h key) (\<lambda>(h, slot).
       let idx = gethash h slot
       in if idx = 0 then bind_comp (insert_index c h key slot) (\<lambda>h. ret (h, None))
          else if is_erased h (idx - 1) then ret (h\<lparr>inuse := inuse h + 1\<rparr>, Some (idx - 1))
          else ret (h, Some (idx - 1)))"

definition hv_remove :: "('k, 'e) hv_class \<Rightarrow> 'e hvec \<Rightarrow> 'k \<Rightarrow> 'e hvec \<times> nat option" where
  "hv_remove c h key =
     (case hv_find c h key of (_, slot, coll) \<Rightarrow>
        let idx = gethash h slot
        in if idx \<noteq> 0 then
             let h = (if \<not> is_erased h (idx - 1) then h\<lparr>inuse := inuse h - 1\<rparr> else h);
                 h = (if idx = limit h
                      then (sethash (resizedata c h (idx - 1)) slot 0)\<lparr>collisions := collisions h - of_nat coll\<rparr>
                      else h\<lparr>erased := bitref_assign (erased h) (idx - 1) True\<rparr>)
             in (h, Some (idx - 1))
           else (h, None))"

section \<open>Iterators\<close>

function iter_next :: "'e hvec \<Rightarrow> nat \<Rightarrow> nat" where
  "iter_next h idx = (if is_erased h (Suc idx) then iter_next h (Suc idx) else Suc idx)"
  by auto
termination
proof (relation "measure (\<lambda>(h, idx). 64 * length (erased h) - idx)")
  fix h :: "'e hvec" and idx
  assume "is_erased h (Suc idx)"
  then show "((h, Suc idx), h, idx) \<in> measure (\<lambda>(h, idx). 64 * length (erased h) - idx)"
    by (auto simp: getbit_nth)
qed simp

declare iter_next.simps [simp del]

text \<open>Going below the first entry is undefined.\<close>

fun iter_prev :: "'e hvec \<Rightarrow> nat \<Rightarrow> nat option" where
  "iter_prev h 0 = None"
| "iter_prev h (Suc i) = (if is_erased h i then iter_prev h i else Some i)"

definition hv_begin :: "'e hvec \<Rightarrow> nat" where
  "hv_begin h = bv_ffz (erased h) 0"

definition hv_end :: "'e hvec \<Rightarrow> nat" where
  "hv_end h = limit h"

lemma iter_next_gt: "idx < iter_next h idx"
  by (induction h idx rule: iter_next.induct) (subst iter_next.simps, auto)

text \<open>The entries from \<open>idx\<close> to the end, as a loop over the container sees them.\<close>

function hv_range :: "'e hvec \<Rightarrow> nat \<Rightarrow> 'e list" where
  "hv_range h idx = (if idx < hv_end h then hdata h ! idx # hv_range h (iter_next h idx) else [])"
  by auto
termination
  by (relation "measure (\<lambda>(h, idx). limit h - idx)") (auto simp: hv_end_def iter_next_gt diff_less_mono2)

declare hv_range.simps [simp del]

fun equal_from :: "'e hvec \<Rightarrow> nat \<Rightarrow> 'e list \<Rightarrow> bool" where
  "equal_from h it [] = True"
| "equal_from h it (e # es) = (if e \<noteq> hdata h ! it then False else equal_from h (iter_next h it) es)"

text \<open>Both containers.\<close>

definition hv_equal :: "'e hvec \<Rightarrow> 'e hvec \<Rightarrow> bool" where
  "hv_equal h a = (if inuse h \<noteq> inuse a then False else equal_from h (hv_begin h) (hv_range a (hv_begin a)))"

definition hv_is_empty :: "'e hvec \<Rightarrow> bool" where
  "hv_is_empty h = (inuse h = 0)"

definition hv_size :: "'e hvec \<Rightarrow> nat" where
  "hv_size h = inuse h"

section \<open>The map\<close>

text \<open>\<open>hvec_map\<close>: an entry is a key with a value; \<open>eql\<close> and \<open>hf\<close> are the template parameters \<open>PRED\<close> and
  \<open>HASH\<close>, \<open>k0\<close> and \<open>v0\<close> the values \<open>KEY()\<close> and \<open>VAL()\<close>.\<close>

definition hvec_map :: "('k \<Rightarrow> nat) \<Rightarrow> ('k \<Rightarrow> 'k \<Rightarrow> bool) \<Rightarrow> 'k \<Rightarrow> 'v \<Rightarrow> ('k, 'k \<times> 'v) hv_class" where
  "hvec_map hf eql k0 v0 = \<lparr>hashfn = hf, cmpfn = eql, getkey = fst, blank = (k0, v0)\<rparr>"

text \<open>\<open>find\<close> gives an iterator, which is an index.\<close>

definition map_find :: "('k, 'e) hv_class \<Rightarrow> 'e hvec \<Rightarrow> 'k \<Rightarrow> nat" where
  "map_find c h k = (let idx = fst (hv_find c h k) in if idx \<noteq> 0 then idx - 1 else hv_end h)"

definition map_count :: "('k, 'e) hv_class \<Rightarrow> 'e hvec \<Rightarrow> 'k \<Rightarrow> nat" where
  "map_count c h k = (if 0 < fst (hv_find c h k) then 1 else 0)"

text \<open>\<open>None\<close> is the exception \<open>out_of_range\<close>.\<close>

definition map_at :: "('k, 'k \<times> 'v) hv_class \<Rightarrow> ('k \<times> 'v) hvec \<Rightarrow> 'k \<Rightarrow> 'v option" where
  "map_at c h k =
     (let idx = fst (hv_find c h k)
      in if idx = 0 \<or> is_erased h (idx - 1) then None else Some (snd (hdata h ! (idx - 1))))"

definition push_entry :: "'e hvec \<Rightarrow> 'e \<Rightarrow> 'e hvec" where
  "push_entry h e = h\<lparr>hdata := hdata h @ [e]\<rparr>"

definition reuse_entry :: "'e hvec \<Rightarrow> nat \<Rightarrow> 'e \<Rightarrow> 'e hvec" where
  "reuse_entry h idx e = h\<lparr>erased := bitref_assign (erased h) idx False, hdata := (hdata h)[idx := e]\<rparr>"

text \<open>\<open>insert\<close>: the table, the place of the entry and whether it is new.\<close>

definition map_insert :: "('k, 'e) hv_class \<Rightarrow> 'e hvec \<Rightarrow> 'e \<Rightarrow> ('e hvec \<times> nat \<times> bool) comp" where
  "map_insert c h v =
     bind_comp (hv_insert c h (getkey c v)) (\<lambda>(h, r).
       case r of
         None \<Rightarrow> ret (push_entry h v, limit h, True)
       | Some idx \<Rightarrow>
           if is_erased h idx then ret (reuse_entry h idx v, idx, True) else ret (h, idx, False))"

text \<open>\<open>operator[]\<close>: the table and the place of the value.\<close>

definition map_index :: "('k, 'k \<times> 'v) hv_class \<Rightarrow> ('k \<times> 'v) hvec \<Rightarrow> 'k \<Rightarrow> (('k \<times> 'v) hvec \<times> nat) comp" where
  "map_index c h k =
     bind_comp (hv_insert c h k) (\<lambda>(h, r).
       case r of
         None \<Rightarrow> ret (push_entry h (k, snd (blank c)), limit h)
       | Some idx \<Rightarrow>
           if is_erased h idx then ret (reuse_entry h idx (k, snd (blank c)), idx) else ret (h, idx))"

text \<open>An assignment \<open>m[k] = v\<close>.\<close>

definition map_assign :: "('k, 'k \<times> 'v) hv_class \<Rightarrow> ('k \<times> 'v) hvec \<Rightarrow> 'k \<Rightarrow> 'v \<Rightarrow> ('k \<times> 'v) hvec comp" where
  "map_assign c h k v =
     bind_comp (map_index c h k) (\<lambda>(h, idx). ret (h\<lparr>hdata := (hdata h)[idx := (fst (hdata h ! idx), v)]\<rparr>))"

text \<open>\<open>emplace\<close> of a key that is copied overwrites the value of a present key; of a key that is moved
  it does not.\<close>

definition map_emplace_copy ::
  "('k, 'k \<times> 'v) hv_class \<Rightarrow> ('k \<times> 'v) hvec \<Rightarrow> 'k \<Rightarrow> 'v \<Rightarrow> (('k \<times> 'v) hvec \<times> nat \<times> bool) comp" where
  "map_emplace_copy c h k v =
     bind_comp (hv_insert c h k) (\<lambda>(h, r).
       case r of
         None \<Rightarrow> ret (push_entry h (k, v), limit h, True)
       | Some idx \<Rightarrow>
           if is_erased h idx then ret (reuse_entry h idx (k, v), idx, True)
           else ret (h\<lparr>hdata := (hdata h)[idx := (fst (hdata h ! idx), v)]\<rparr>, idx, False))"

definition map_emplace_move ::
  "('k, 'k \<times> 'v) hv_class \<Rightarrow> ('k \<times> 'v) hvec \<Rightarrow> 'k \<Rightarrow> 'v \<Rightarrow> (('k \<times> 'v) hvec \<times> nat \<times> bool) comp" where
  "map_emplace_move c h k v =
     bind_comp (hv_insert c h k) (\<lambda>(h, r).
       case r of
         None \<Rightarrow> ret (push_entry h (k, v), limit h, True)
       | Some idx \<Rightarrow>
           if is_erased h idx then ret (reuse_entry h idx (k, v), idx, True) else ret (h, idx, False))"

text \<open>\<open>erase\<close> of an iterator, which gives the next one, and of a key, which gives the number of entries it
  claims to have erased.\<close>

definition map_erase_at :: "('k, 'e) hv_class \<Rightarrow> 'e hvec \<Rightarrow> nat \<Rightarrow> 'e hvec \<times> nat" where
  "map_erase_at c h idx =
     (let h = h\<lparr>erased := bitref_assign (erased h) idx True, hdata := (hdata h)[idx := blank c]\<rparr>
      in (h\<lparr>inuse := inuse h - 1\<rparr>, iter_next h idx))"

definition map_erase :: "('k, 'e) hv_class \<Rightarrow> 'e hvec \<Rightarrow> 'k \<Rightarrow> 'e hvec \<times> nat" where
  "map_erase c h k =
     (case hv_remove c h k of
        (h, None) \<Rightarrow> (h, 0)
      | (h, Some idx) \<Rightarrow> (if idx < limit h then h\<lparr>hdata := (hdata h)[idx := blank c]\<rparr> else h, 1))"

definition map_clear :: "'e hvec \<Rightarrow> 'e hvec" where
  "map_clear h = (hv_clear h)\<lparr>hdata := []\<rparr>"

fun map_insert_range :: "('k, 'e) hv_class \<Rightarrow> 'e hvec \<Rightarrow> 'e list \<Rightarrow> 'e hvec comp" where
  "map_insert_range c h [] = ret h"
| "map_insert_range c h (v # vs) = bind_comp (map_insert c h v) (\<lambda>(h, _). map_insert_range c h vs)"

definition map_of_list :: "('k, 'e) hv_class \<Rightarrow> 'e list \<Rightarrow> 'e hvec comp" where
  "map_of_list c vs = bind_comp (hash_vector_base (length vs)) (\<lambda>h. map_insert_range c h vs)"

text \<open>Copy assignment clears the destination and inserts the entries of the source.\<close>

definition map_copy :: "('k, 'e) hv_class \<Rightarrow> 'e hvec \<Rightarrow> 'e hvec \<Rightarrow> 'e hvec comp" where
  "map_copy c h that = map_insert_range c (map_clear h) (hv_range that (hv_begin that))"

section \<open>The set\<close>

text \<open>\<open>hvec_set\<close>: an entry is a key.\<close>

definition hvec_set :: "('k \<Rightarrow> nat) \<Rightarrow> ('k \<Rightarrow> 'k \<Rightarrow> bool) \<Rightarrow> 'k \<Rightarrow> ('k, 'k) hv_class" where
  "hvec_set hf eql k0 = \<lparr>hashfn = hf, cmpfn = eql, getkey = (\<lambda>k. k), blank = k0\<rparr>"

definition set_insert :: "('k, 'k) hv_class \<Rightarrow> 'k hvec \<Rightarrow> 'k \<Rightarrow> ('k hvec \<times> nat \<times> bool) comp" where
  "set_insert c h v =
     bind_comp (hv_insert c h v) (\<lambda>(h, r).
       case r of
         None \<Rightarrow> ret (push_entry h v, limit h, True)
       | Some idx \<Rightarrow>
           if is_erased h idx then ret (reuse_entry h idx v, idx, True) else ret (h, idx, False))"

definition set_erase_at :: "('k, 'k) hv_class \<Rightarrow> 'k hvec \<Rightarrow> nat \<Rightarrow> 'k hvec \<times> nat" where
  "set_erase_at c h idx =
     (let h = h\<lparr>erased := bitref_assign (erased h) idx True, hdata := (hdata h)[idx := blank c]\<rparr>
      in (h\<lparr>inuse := inuse h - 1\<rparr>, iter_next h idx))"

definition set_erase :: "('k, 'k) hv_class \<Rightarrow> 'k hvec \<Rightarrow> 'k \<Rightarrow> 'k hvec \<times> nat" where
  "set_erase c h k =
     (case hv_remove c h k of
        (h, None) \<Rightarrow> (h, 0)
      | (h, Some idx) \<Rightarrow> (if idx < limit h then h\<lparr>hdata := (hdata h)[idx := blank c]\<rparr> else h, 1))"

definition set_front :: "'k hvec \<Rightarrow> 'k" where
  "set_front h = hdata h ! hv_begin h"

definition set_back :: "'k hvec \<Rightarrow> 'k option" where
  "set_back h = map_option (\<lambda>i. hdata h ! i) (iter_prev h (hv_end h))"

end
