(* ===== verification/HashVec_Find.thy ===== *)
theory HashVec_Find
  imports HashVec
begin

text \<open>
  The search in a hash table with linear probing.  A table indexes the first \<open>n\<close> entries of its vector:
  each has a slot of its own, and the slots before it in the order in which its key is searched hold
  entries that are older.  The search then finds the entry of a key, and otherwise the free slot where it
  belongs, unless all slots are taken.
\<close>

section \<open>The parameters\<close>

text \<open>What the template parameters promise: \<open>PRED\<close> is an equivalence that \<open>HASH\<close> respects.\<close>

definition hash_ok :: "('k, 'e) hv_class \<Rightarrow> bool" where
  "hash_ok c \<longleftrightarrow> equivp (cmpfn c) \<and> (\<forall>x y. cmpfn c x y \<longrightarrow> hashfn c x = hashfn c y)"

lemma hash_ok_refl [simp]: "hash_ok c \<Longrightarrow> cmpfn c x x"
  by (simp add: hash_ok_def equivp_reflp)

lemma hash_ok_sym: "hash_ok c \<Longrightarrow> cmpfn c x y \<Longrightarrow> cmpfn c y x"
  by (simp add: hash_ok_def equivp_symp)

lemma hash_ok_trans: "hash_ok c \<Longrightarrow> cmpfn c x y \<Longrightarrow> cmpfn c y z \<Longrightarrow> cmpfn c x z"
  unfolding hash_ok_def by (blast intro: equivp_transp)

lemma hash_ok_hash: "hash_ok c \<Longrightarrow> cmpfn c x y \<Longrightarrow> hashfn c x = hashfn c y"
  by (simp add: hash_ok_def)

section \<open>Probing\<close>

abbreviation ekey :: "('k, 'e) hv_class \<Rightarrow> 'e hvec \<Rightarrow> nat \<Rightarrow> 'k" where
  "ekey c h i \<equiv> getkey c (hdata h ! i)"

definition probe :: "('k, 'e) hv_class \<Rightarrow> 'e hvec \<Rightarrow> 'k \<Rightarrow> nat \<Rightarrow> nat" where
  "probe c h k d = (hashfn c k + d) mod hashsize h"

text \<open>The array has the size of its logarithm, at most \<open>INT_MAX\<close>, above which the code is not meant to work.\<close>

definition sized :: "'e hvec \<Rightarrow> bool" where
  "sized h \<longleftrightarrow> hashsize h + 1 = 2 ^ log_hashsize h \<and> 4 \<le> log_hashsize h \<and> log_hashsize h \<le> 31"

lemma sized_pos: "sized h \<Longrightarrow> 0 < hashsize h"
proof (rule ccontr)
  assume s: "sized h" and "\<not> 0 < hashsize h"
  then have "hashsize h = 0" by simp
  with s have "(2::nat) ^ log_hashsize h = 1" "log_hashsize h \<noteq> 0" unfolding sized_def by (metis add_0, linarith)
  then show False by simp
qed

lemma probe_less [simp]: "0 < hashsize h \<Longrightarrow> probe c h k d < hashsize h"
  by (simp add: probe_def)

lemma probe_Suc: "0 < hashsize h \<Longrightarrow> probe c h k (Suc d) = (if Suc (probe c h k d) = hashsize h then 0 else Suc (probe c h k d))"
  by (simp add: probe_def mod_Suc)

lemma probe_inj: "d < hashsize h \<Longrightarrow> e < hashsize h \<Longrightarrow> probe c h k d = probe c h k e \<Longrightarrow> d = e"
proof (induction d e rule: linorder_wlog)
  case (le d e)
  have "hashsize h dvd (hashfn c k + e) - (hashfn c k + d)"
    using le mod_eq_dvd_iff_nat [of "hashfn c k + d" "hashfn c k + e" "hashsize h"] by (simp add: probe_def)
  then show ?case using le by (auto dest: dvd_imp_le)
next
  case (sym a b)
  then show ?case by simp
qed

lemma probe_surj: "0 < hashsize h \<Longrightarrow> s < hashsize h \<Longrightarrow> \<exists>d<hashsize h. probe c h k d = s"
proof -
  assume h: "0 < hashsize h" "s < hashsize h"
  have "inj_on (probe c h k) {..<hashsize h}" by (auto intro!: inj_onI dest: probe_inj)
  moreover have "probe c h k ` {..<hashsize h} \<subseteq> {..<hashsize h}" using h(1) by auto
  ultimately have "probe c h k ` {..<hashsize h} = {..<hashsize h}" by (intro endo_inj_surj) auto
  then show ?thesis using h(2) by (metis imageE lessThan_iff)
qed

lemma find_loop_stops:
  assumes "0 < hashsize h" "d < hashsize h" "\<not> continues c h k (gethash h (probe c h k d))"
    and "\<And>e. coll \<le> e \<Longrightarrow> e < d \<Longrightarrow> continues c h k (gethash h (probe c h k e))" "coll \<le> d"
  shows "find_loop c h k (probe c h k coll) coll = (gethash h (probe c h k d), probe c h k d, d)"
  using assms(4,5)
proof (induction "d - coll" arbitrary: coll)
  case 0
  then have "coll = d" by simp
  then show ?case using assms by (subst find_loop.simps) simp
next
  case (Suc n)
  have "find_loop c h k (probe c h k (Suc coll)) (Suc coll) = (gethash h (probe c h k d), probe c h k d, d)"
    using Suc by simp
  moreover have "continues c h k (gethash h (probe c h k coll))" "Suc coll < hashsize h" using Suc assms(2) by auto
  ultimately show ?case by (subst find_loop.simps) (simp add: probe_Suc [OF assms(1)])
qed

lemma find_loop_full:
  assumes "0 < hashsize h" "\<And>e. e < hashsize h \<Longrightarrow> continues c h k (gethash h (probe c h k e))" "coll < hashsize h"
  shows "find_loop c h k (probe c h k coll) coll = (0, probe c h k (hashsize h - 1), hashsize h)"
  using assms(3)
proof (induction "hashsize h - coll" arbitrary: coll)
  case (Suc n)
  show ?case
  proof (cases "Suc coll = hashsize h")
    case True
    then have "coll = hashsize h - 1" by simp
    then show ?thesis using assms(2) [OF Suc(3)] True by (subst find_loop.simps) simp
  next
    case False
    then have "find_loop c h k (probe c h k (Suc coll)) (Suc coll) = (0, probe c h k (hashsize h - 1), hashsize h)"
      using Suc by simp
    then show ?thesis using assms(2) [OF Suc(3)] Suc(3) False
      by (subst find_loop.simps) (simp add: probe_Suc [OF assms(1)])
  qed
qed simp

lemma hv_find_loop: "sized h \<Longrightarrow> hv_find c h k = find_loop c h k (probe c h k 0) 0"
proof -
  assume s: "sized h"
  then have "2 ^ log_hashsize h - 1 = hashsize h" unfolding sized_def by (metis diff_add_inverse2)
  then show ?thesis using s by (simp add: hv_find_def mod_hashsize_def probe_def sized_def)
qed

section \<open>Tables\<close>

definition placed :: "('k, 'e) hv_class \<Rightarrow> 'e hvec \<Rightarrow> nat \<Rightarrow> bool" where
  "placed c h i \<longleftrightarrow>
     (\<exists>d<hashsize h. gethash h (probe c h (ekey c h i) d) = Suc i \<and>
        (\<forall>e<d. 0 < gethash h (probe c h (ekey c h i) e) \<and> gethash h (probe c h (ekey c h i) e) \<le> i))"

definition live :: "'e hvec \<Rightarrow> nat \<Rightarrow> nat \<Rightarrow> bool" where
  "live h n i \<longleftrightarrow> i < n \<and> \<not> is_erased h i"

text \<open>The key is that of an entry among the first \<open>n\<close>.\<close>

definition present :: "('k, 'e) hv_class \<Rightarrow> 'e hvec \<Rightarrow> nat \<Rightarrow> 'k \<Rightarrow> bool" where
  "present c h n k \<longleftrightarrow> (\<exists>i. live h n i \<and> cmpfn c k (ekey c h i))"

definition slots_ok :: "'e hvec \<Rightarrow> nat \<Rightarrow> bool" where
  "slots_ok h n \<longleftrightarrow>
     (\<forall>s<hashsize h. gethash h s \<le> n) \<and>
     (\<forall>s<hashsize h. \<forall>t<hashsize h. gethash h s = gethash h t \<longrightarrow> 0 < gethash h s \<longrightarrow> s = t) \<and>
     (\<forall>i<n. \<exists>s<hashsize h. gethash h s = Suc i)"

definition hkeys_ok :: "('k, 'e) hv_class \<Rightarrow> 'e hvec \<Rightarrow> nat \<Rightarrow> bool" where
  "hkeys_ok c h n \<longleftrightarrow>
     (\<forall>i. live h n i \<longrightarrow> placed c h i) \<and>
     (\<forall>i j. live h n i \<longrightarrow> live h n j \<longrightarrow> cmpfn c (ekey c h i) (ekey c h j) \<longrightarrow> i = j)"

definition htable_ok :: "('k, 'e) hv_class \<Rightarrow> 'e hvec \<Rightarrow> nat \<Rightarrow> bool" where
  "htable_ok c h n \<longleftrightarrow> sized h \<and> slots_ok h n \<and> hkeys_ok c h n"

lemma table_pos: "htable_ok c h n \<Longrightarrow> 0 < hashsize h"
  by (rule sized_pos) (simp add: htable_ok_def)

text \<open>Every entry has one slot.\<close>

lemma slots_image: "slots_ok h n \<Longrightarrow> {1..n} = gethash h ` {s. s < hashsize h \<and> 0 < gethash h s}"
proof (intro equalityI subsetI)
  fix x assume "slots_ok h n" "x \<in> {1..n}"
  then obtain s where "s < hashsize h" "gethash h s = Suc (x - 1)" unfolding slots_ok_def
    by (metis One_nat_def Suc_diff_1 atLeastAtMost_iff less_eq_Suc_le)
  then show "x \<in> gethash h ` {s. s < hashsize h \<and> 0 < gethash h s}" using \<open>x \<in> {1..n}\<close> by (auto intro!: image_eqI)
qed (auto simp: slots_ok_def Suc_le_eq)

lemma slots_card: "slots_ok h n \<Longrightarrow> card {s. s < hashsize h \<and> 0 < gethash h s} = n"
proof -
  assume s: "slots_ok h n"
  then have "inj_on (gethash h) {s. s < hashsize h \<and> 0 < gethash h s}" by (auto simp: slots_ok_def inj_on_def)
  then show ?thesis using card_image slots_image [OF s] by (metis card_atLeastAtMost diff_Suc_1)
qed

lemma slots_le: "slots_ok h n \<Longrightarrow> n \<le> hashsize h"
  using card_mono [of "{..<hashsize h}" "{s. s < hashsize h \<and> 0 < gethash h s}"] by (force simp: slots_card)

lemma slots_free: "slots_ok h n \<Longrightarrow> n < hashsize h \<Longrightarrow> \<exists>s<hashsize h. gethash h s = 0"
proof (rule ccontr)
  assume s: "slots_ok h n" "n < hashsize h" and "\<not> (\<exists>s<hashsize h. gethash h s = 0)"
  then have "{s. s < hashsize h \<and> 0 < gethash h s} = {..<hashsize h}" by auto
  then show False using slots_card [OF s(1)] s(2) by simp
qed

lemma slots_taken: "slots_ok h (hashsize h) \<Longrightarrow> s < hashsize h \<Longrightarrow> 0 < gethash h s"
proof -
  assume s: "slots_ok h (hashsize h)" "s < hashsize h"
  have "{s. s < hashsize h \<and> 0 < gethash h s} = {..<hashsize h}"
    using slots_card [OF s(1)] by (intro card_subset_eq) auto
  then show ?thesis using s(2) by blast
qed

section \<open>The search\<close>

lemma table_matches:
  assumes "hash_ok c" "htable_ok c h n" "live h n i" "cmpfn c k (ekey c h i)" "0 < idx" "idx \<le> n" "\<not> continues c h k idx"
  shows "idx = Suc i"
proof -
  have "live h n (idx - 1)" "cmpfn c k (ekey c h (idx - 1))" using assms by (auto simp: continues_def live_def)
  moreover from this have "cmpfn c (ekey c h (idx - 1)) (ekey c h i)"
    using assms hash_ok_trans hash_ok_sym by metis
  ultimately have "idx - 1 = i" using assms unfolding htable_ok_def hkeys_ok_def by blast
  then show ?thesis using assms by simp
qed

lemma find_present:
  assumes "hash_ok c" "htable_ok c h n" "live h n i" "cmpfn c k (ekey c h i)"
  obtains slot coll where "hv_find c h k = (Suc i, slot, coll)" "slot < hashsize h" "gethash h slot = Suc i"
proof -
  have s: "sized h" "0 < hashsize h" using assms table_pos by (auto simp: htable_ok_def)
  have p: "probe c h (ekey c h i) d = probe c h k d" for d
    using hash_ok_hash [OF assms(1,4)] by (simp add: probe_def)
  have "placed c h i" using assms by (simp add: htable_ok_def hkeys_ok_def)
  then obtain d where d: "d < hashsize h" "gethash h (probe c h k d) = Suc i"
    "\<And>e. e < d \<Longrightarrow> 0 < gethash h (probe c h k e) \<and> gethash h (probe c h k e) \<le> i"
    unfolding placed_def p by blast
  have "\<not> continues c h k (Suc i)" using assms by (simp add: continues_def live_def)
  moreover have "continues c h k (gethash h (probe c h k e))" if "e < d" for e
    using table_matches [OF assms, of "gethash h (probe c h k e)"] d(3) [OF that] assms(3) by (fastforce simp: live_def)
  ultimately have "hv_find c h k = (Suc i, probe c h k d, d)"
    using find_loop_stops [of h d c k 0] d s by (simp add: hv_find_loop)
  then show ?thesis using that d s by simp
qed

lemma absent_continues: "\<not> present c h n k \<Longrightarrow> 0 < idx \<Longrightarrow> idx \<le> n \<Longrightarrow> continues c h k idx"
  by (auto simp: continues_def present_def live_def)

lemma find_absent:
  assumes "htable_ok c h n" "\<not> present c h n k" "n < hashsize h"
  obtains d where "hv_find c h k = (0, probe c h k d, d)" "d < hashsize h" "gethash h (probe c h k d) = 0"
    "\<And>e. e < d \<Longrightarrow> 0 < gethash h (probe c h k e)"
proof -
  have s: "sized h" "0 < hashsize h" "slots_ok h n" using assms table_pos by (auto simp: htable_ok_def)
  obtain d0 where d0: "d0 < hashsize h" "gethash h (probe c h k d0) = 0"
    using slots_free [OF s(3) assms(3)] probe_surj [OF s(2), of _ c k] by metis
  define d where "d = (LEAST d. gethash h (probe c h k d) = 0)"
  have d: "d < hashsize h" "gethash h (probe c h k d) = 0" "\<And>e. e < d \<Longrightarrow> 0 < gethash h (probe c h k e)"
    using d0 LeastI [of "\<lambda>d. gethash h (probe c h k d) = 0"] Least_le [of "\<lambda>d. gethash h (probe c h k d) = 0"]
      not_less_Least [of _ "\<lambda>d. gethash h (probe c h k d) = 0"] unfolding d_def by (blast intro: le_less_trans)+
  have "continues c h k (gethash h (probe c h k e))" if "e < d" for e
    using s d(3) [OF that] by (intro absent_continues [OF assms(2)]) (auto simp: slots_ok_def)
  moreover have "\<not> continues c h k (gethash h (probe c h k d))" using d by (simp add: continues_def)
  ultimately have "hv_find c h k = (0, probe c h k d, d)"
    using find_loop_stops [of h d c k 0] d s by (simp add: hv_find_loop)
  then show ?thesis using that d by simp
qed

text \<open>In a full table the search for an absent key ends at a slot that is taken.\<close>

lemma find_full:
  assumes "htable_ok c h (hashsize h)" "\<not> present c h (hashsize h) k"
  shows "hv_find c h k = (0, probe c h k (hashsize h - 1), hashsize h)"
    and "0 < gethash h (probe c h k (hashsize h - 1))"
proof -
  have s: "sized h" "0 < hashsize h" "slots_ok h (hashsize h)" using assms table_pos by (auto simp: htable_ok_def)
  then show "0 < gethash h (probe c h k (hashsize h - 1))" by (simp add: slots_taken)
  have "continues c h k (gethash h (probe c h k e))" if "e < hashsize h" for e
    using s slots_taken [OF s(3)] by (intro absent_continues [OF assms(2)]) (auto simp: slots_ok_def)
  then show "hv_find c h k = (0, probe c h k (hashsize h - 1), hashsize h)"
    using find_loop_full [of h c k 0] s by (simp add: hv_find_loop)
qed

lemma find_iff:
  assumes "hash_ok c" "htable_ok c h n" "fst (hv_find c h k) = idx"
  shows "idx \<noteq> 0 \<longleftrightarrow> present c h n k"
    and "idx \<noteq> 0 \<Longrightarrow> live h n (idx - 1) \<and> cmpfn c k (ekey c h (idx - 1))"
proof -
  have "n \<le> hashsize h" using assms by (simp add: htable_ok_def slots_le)
  have "idx = 0" if a: "\<not> present c h n k"
  proof (cases "n = hashsize h")
    case True
    then show ?thesis using find_full(1) [of c h k] assms a by simp
  next
    case False
    then obtain d where "hv_find c h k = (0, probe c h k d, d)"
      using find_absent [OF assms(2) a] \<open>n \<le> hashsize h\<close> by auto
    then show ?thesis using assms by simp
  qed
  moreover have "\<exists>i. idx = Suc i \<and> live h n i \<and> cmpfn c k (ekey c h i)" if p: "present c h n k"
  proof -
    obtain i where i: "live h n i" "cmpfn c k (ekey c h i)" using p by (auto simp: present_def)
    then obtain slot coll where "hv_find c h k = (Suc i, slot, coll)" by (rule find_present [OF assms(1,2)])
    then show ?thesis using assms i by auto
  qed
  ultimately show "idx \<noteq> 0 \<longleftrightarrow> present c h n k"
    and "idx \<noteq> 0 \<Longrightarrow> live h n (idx - 1) \<and> cmpfn c k (ekey c h (idx - 1))" by fastforce+
qed

end
