(* ===== verification/HashVec_Spec.thy ===== *)
theory HashVec_Spec
  imports HashVec_Find
begin

text \<open>
  Rehashing and insertion.  The abstraction of a table is the list of its live entries in the order of
  insertion; rehashing keeps it, insertion appends to it.
\<close>

section \<open>The entries and the invariant\<close>

definition entries :: "'e hvec \<Rightarrow> 'e list" where
  "entries h = map (\<lambda>i. hdata h ! i) (filter (\<lambda>i. \<not> is_erased h i) [0..<limit h])"

text \<open>No two entries have equal keys.\<close>

definition keys_differ :: "('k, 'e) hv_class \<Rightarrow> 'e list \<Rightarrow> bool" where
  "keys_differ c = sorted_wrt (\<lambda>a b. \<not> cmpfn c (getkey c a) (getkey c b))"

definition has_key :: "('k, 'e) hv_class \<Rightarrow> 'e list \<Rightarrow> 'k \<Rightarrow> bool" where
  "has_key c es k \<longleftrightarrow> (\<exists>e\<in>set es. cmpfn c k (getkey c e))"

text \<open>The collisions may wrap, but not in a full table.\<close>

definition coll_ok :: "'e hvec \<Rightarrow> bool" where
  "coll_ok h \<longleftrightarrow> (limit h = hashsize h \<longrightarrow> unat (collisions h) + hashsize h < 2 ^ 64)"

text \<open>A table grows only while its size is at most ten times the number of its entries: with so many
  entries the size stays within the bound of \<open>sized\<close>.\<close>

abbreviation max_entries :: nat where "max_entries \<equiv> 214748364"

definition hv_ok :: "('k, 'e) hv_class \<Rightarrow> 'e hvec \<Rightarrow> bool" where
  "hv_ok c h \<longleftrightarrow>
     htable_ok c h (limit h) \<and> (\<forall>i. is_erased h i \<longrightarrow> i < limit h) \<and> inuse h = length (entries h) \<and>
     limit h \<le> maxset (info h) \<and> info h \<le> 2 \<and> coll_ok h \<and> limit h \<le> max_entries"

lemma set_entries: "set (entries h) = {hdata h ! i | i. live h (limit h) i}"
  by (auto simp: entries_def live_def)

lemma present_entries: "present c h (limit h) k \<longleftrightarrow> has_key c (entries h) k"
  by (auto simp: present_def has_key_def set_entries)

lemma length_entries: "length (entries h) \<le> limit h"
  unfolding entries_def by (metis length_filter_le length_map length_upt minus_nat.diff_0)

lemma keys_differ_entries: "htable_ok c h (limit h) \<Longrightarrow> keys_differ c (entries h)"
proof -
  assume t: "htable_ok c h (limit h)"
  let ?is = "filter (\<lambda>i. \<not> is_erased h i) [0..<limit h]"
  have "sorted_wrt (<) ?is" by (intro sorted_wrt_filter sorted_wrt_upt)
  then have "sorted_wrt (\<lambda>i j. \<not> cmpfn c (ekey c h i) (ekey c h j)) ?is"
  proof (rule sorted_wrt_mono_rel [rotated])
    fix i j assume ij: "i \<in> set ?is" "j \<in> set ?is" "i < j"
    then have "live h (limit h) i" "live h (limit h) j" by (auto simp: live_def)
    then show "\<not> cmpfn c (ekey c h i) (ekey c h j)" using t ij(3) unfolding htable_ok_def hkeys_ok_def by fastforce
  qed
  then show ?thesis by (simp add: keys_differ_def entries_def sorted_wrt_map)
qed

lemma entries_cong: "hdata h' = hdata h \<Longrightarrow> erased h' = erased h \<Longrightarrow> entries h' = entries h"
  by (simp add: entries_def)

lemma htable_ok_cong:
  "htab h' = htab h \<Longrightarrow> log_hashsize h' = log_hashsize h \<Longrightarrow> erased h' = erased h \<Longrightarrow> hdata h' = hdata h \<Longrightarrow>
     htable_ok c h' n = htable_ok c h n"
  by (simp add: htable_ok_def sized_def slots_ok_def hkeys_ok_def live_def placed_def probe_def gethash_def)

lemma maxset_power: "info h \<le> 2 \<Longrightarrow> n \<le> maxset (info h) \<Longrightarrow> n mod 2 ^ (8 * hashelsize (info h)) = n"
proof -
  assume i: "info h \<le> 2" and n: "n \<le> maxset (info h)"
  from i consider "info h = 0" | "info h = 1" | "info h = 2" by linarith
  then show ?thesis using n by cases (simp_all add: maxset_def hashelsize_def)
qed

lemma maxset_bound: "maxset fmt \<le> 4294967295"
  by (simp add: maxset_def)

section \<open>A new entry\<close>

lemma table_place:
  assumes "hash_ok c" "htable_ok c h n" "\<not> present c h n k" "hv_find c h k = (idx, slot, coll)" "n < hashsize h"
    and h': "htab h' = (htab h)[slot := Suc n]" "log_hashsize h' = log_hashsize h" "getkey c (hdata h' ! n) = k"
    "\<And>i. i < n \<Longrightarrow> is_erased h' i = is_erased h i" "\<not> is_erased h' n" "\<And>i. i < n \<Longrightarrow> hdata h' ! i = hdata h ! i"
  shows "htable_ok c h' (Suc n)"
proof -
  obtain d where d: "hv_find c h k = (0, probe c h k d, d)" "d < hashsize h" "gethash h (probe c h k d) = 0"
    "\<And>e. e < d \<Longrightarrow> 0 < gethash h (probe c h k e)"
    using find_absent [OF assms(2,3,5)] by blast
  have slot: "slot = probe c h k d" "slot < hashsize h" "gethash h slot = 0" using assms(4) d table_pos [OF assms(2)] by auto
  have size: "hashsize h' = hashsize h" using h' by simp
  have probe: "probe c h' x e = probe c h x e" for x e using size by (simp add: probe_def)
  have get: "gethash h' s = (if s = slot then Suc n else gethash h s)" if "s < hashsize h" for s
    using h' that by (auto simp: gethash_def)
  have ok: "slots_ok h n" "hkeys_ok c h n" "sized h" using assms by (auto simp: htable_ok_def)
  have live: "live h' (Suc n) i \<longleftrightarrow> live h n i \<or> i = n" for i
    using h' by (auto simp: live_def less_Suc_eq)
  have key: "ekey c h' i = (if i = n then k else ekey c h i)" if "live h' (Suc n) i" for i
    using h' that by (auto simp: live_def less_Suc_eq)
  have "slots_ok h' (Suc n)"
    unfolding slots_ok_def size
  proof (intro conjI allI impI)
    fix s assume "s < hashsize h"
    then show "gethash h' s \<le> Suc n" using ok(1) by (auto simp: get slots_ok_def le_Suc_eq)
  next
    fix s t assume st: "s < hashsize h" "t < hashsize h" "gethash h' s = gethash h' t" "0 < gethash h' s"
    have "gethash h s \<le> n" "gethash h t \<le> n" using ok(1) st by (auto simp: slots_ok_def)
    then show "s = t" using st ok(1) by (auto simp: get slots_ok_def split: if_splits)
  next
    fix i assume "i < Suc n"
    show "\<exists>s<hashsize h. gethash h' s = Suc i"
    proof (cases "i = n")
      case True
      then show ?thesis using slot by (auto simp: get)
    next
      case False
      then obtain s where "s < hashsize h" "gethash h s = Suc i" using ok(1) \<open>i < Suc n\<close> by (auto simp: slots_ok_def less_Suc_eq)
      then show ?thesis using slot by (intro exI [of _ s]) (auto simp: get)
    qed
  qed
  moreover have "placed c h' i" if l: "live h' (Suc n) i" for i
  proof (cases "i = n")
    case True
    have "0 < gethash h (probe c h k e) \<and> gethash h (probe c h k e) \<le> n" if "e < d" for e
      using d(4) [OF that] ok(1) table_pos [OF assms(2)] by (auto simp: slots_ok_def)
    moreover have "probe c h k e \<noteq> slot" if "e < d" for e using d(4) [OF that] slot by auto
    ultimately show ?thesis unfolding placed_def size probe
      using slot d(2) True h'(3) table_pos [OF assms(2)] by (intro exI [of _ d]) (auto simp: get)
  next
    case False
    then have "placed c h i" using l live ok(2) by (auto simp: hkeys_ok_def)
    then obtain e where "e < hashsize h" "gethash h (probe c h (ekey c h i) e) = Suc i"
      "\<forall>f<e. 0 < gethash h (probe c h (ekey c h i) f) \<and> gethash h (probe c h (ekey c h i) f) \<le> i"
      by (auto simp: placed_def)
    then show ?thesis unfolding placed_def size probe
      using slot False key [OF l] table_pos [OF assms(2)] by (intro exI [of _ e]) (auto simp: get)
  qed
  moreover have "i = j" if l: "live h' (Suc n) i" "live h' (Suc n) j" "cmpfn c (ekey c h' i) (ekey c h' j)" for i j
  proof -
    have "cmpfn c (ekey c h' j) (ekey c h' i)" using hash_ok_sym [OF assms(1) l(3)] .
    then show ?thesis using l(3) assms(3) ok(2) key [OF l(1)] key [OF l(2)] l(1,2) unfolding live present_def hkeys_ok_def
      by (auto split: if_splits)
  qed
  ultimately show ?thesis using ok(3) h' size by (simp add: htable_ok_def hkeys_ok_def sized_def)
qed

lemma absent_coll:
  assumes "htable_ok c h n" "\<not> present c h n k" "n < hashsize h" "hv_find c h k = (idx, slot, coll)"
  shows "coll \<le> n" "idx = 0" "gethash h slot = 0" "slot < hashsize h"
proof -
  obtain d where d: "hv_find c h k = (0, probe c h k d, d)" "d < hashsize h" "gethash h (probe c h k d) = 0"
    "\<And>e. e < d \<Longrightarrow> 0 < gethash h (probe c h k e)"
    using find_absent [OF assms(1-3)] by blast
  show "idx = 0" "gethash h slot = 0" "slot < hashsize h" using assms(4) d table_pos [OF assms(1)] by auto
  have "inj_on (probe c h k) {..<d}" using d(2) by (intro inj_onI) (metis lessThan_iff less_trans probe_inj)
  moreover have "probe c h k ` {..<d} \<subseteq> {s. s < hashsize h \<and> 0 < gethash h s}" using d table_pos [OF assms(1)] by auto
  ultimately have "d \<le> n"
    using slots_card [of h n] assms(1) card_inj_on_le [of "probe c h k" "{..<d}" "{s. s < hashsize h \<and> 0 < gethash h s}"]
    by (auto simp: htable_ok_def)
  then show "coll \<le> n" using assms(4) d by simp
qed

section \<open>Rehashing\<close>

lemma unat_add_of_nat: "unat (a + of_nat d :: 64 word) \<le> unat a + d"
proof -
  have "unat (a + of_nat d :: 64 word) = (unat a + d mod 2 ^ 64) mod 2 ^ 64" by (simp add: unat_word_ariths(1) unat_of_nat)
  also have "\<dots> \<le> unat a + d mod 2 ^ 64" by (rule mod_less_eq_dividend)
  also have "\<dots> \<le> unat a + d" by simp
  finally show ?thesis .
qed

definition kept :: "bitvec \<Rightarrow> 'e list \<Rightarrow> nat list \<Rightarrow> 'e list" where
  "kept old xs is = map (\<lambda>t. xs ! t) (filter (\<lambda>t. \<not> getbit old t) is)"

lemma redo_loop_ok:
  assumes "hash_ok c" "htable_ok c h j" "j \<le> i" "i \<le> l \<and> l \<le> limit h" "\<And>t. \<not> is_erased h t"
    and "es = take j (hdata h) @ kept old (hdata h) [i..<l]"
    and "keys_differ c es" "length es \<le> hashsize h" "length es \<le> maxset (info h)" "info h \<le> 2"
    and "unat (collisions h) \<le> j * j"
  shows "\<exists>h'. redo_loop c old [i..<l] j h = Ok [] (h', length es) \<and> take (length es) (hdata h') = es \<and>
    htable_ok c h' (length es) \<and> limit h' = limit h \<and> hashsize h' = hashsize h \<and> log_hashsize h' = log_hashsize h \<and>
    info h' = info h \<and> erased h' = erased h \<and> length es \<le> limit h \<and> unat (collisions h') \<le> length es * length es"
  using assms(2-)
proof (induction "l - i" arbitrary: i j h)
  case 0
  then have "j \<le> limit h" by simp
  then have "es = take j (hdata h)" "length es = j" using 0 by (auto simp: kept_def)
  then show ?case using 0 by simp
next
  case (Suc n)
  then have i: "i < l" "[i..<l] = i # [Suc i..<l]" by (auto simp: upt_conv_Cons)
  show ?case
  proof (cases "getbit old i")
    case True
    then have "kept old (hdata h) [i..<l] = kept old (hdata h) [Suc i..<l]" by (simp add: kept_def i)
    then show ?thesis using Suc(1) [where i = "Suc i" and j = j and h = h] Suc(2-) True by (simp add: i)
  next
    case False
    define k where "k = getkey c (hdata h ! i)"
    obtain idx slot coll where f: "hv_find c h k = (idx, slot, coll)" by (cases "hv_find c h k")
    have es: "es = take j (hdata h) @ hdata h ! i # kept old (hdata h) [Suc i..<l]"
      using Suc False by (simp add: kept_def i)
    have j: "j < limit h" using Suc i by simp
    then have room: "j < hashsize h" "Suc j \<le> maxset (info h)" using Suc(9,10) by (auto simp: es)
    have "\<not> cmpfn c (getkey c e) k" if "e \<in> set (take j (hdata h))" for e
      using Suc(8) that unfolding es keys_differ_def sorted_wrt_append k_def by auto
    then have ab: "\<not> present c h j k"
      using hash_ok_sym [OF assms(1)] j unfolding present_def live_def by (metis in_set_conv_nth length_take min.absorb4 nth_take)
    note coll = absent_coll [OF Suc(3) ab room(1) f]
    define h' where "h' = (sethash (if j \<noteq> i then moveentry h j i else h) slot (Suc j))\<lparr>collisions := collisions h + of_nat coll\<rparr>"
    have h': "htab h' = (htab h)[slot := Suc j]" "hdata h' = (hdata h)[j := hdata h ! i]"
      "log_hashsize h' = log_hashsize h" "info h' = info h" "erased h' = erased h" "collisions h' = collisions h + of_nat coll"
      using room Suc(11) by (auto simp: h'_def sethash_def moveentry_def maxset_power)
    have "htable_ok c h' (Suc j)"
      using Suc(6) by (intro table_place [OF assms(1) Suc(3) ab f room(1)]) (auto simp: h' k_def j)
    moreover have "es = take (Suc j) (hdata h') @ kept old (hdata h') [Suc i..<l]"
      using j Suc(4) by (auto simp: es h' kept_def take_Suc_conv_app_nth)
    moreover have "unat (collisions h') \<le> Suc j * Suc j"
      using unat_add_of_nat [of "collisions h" coll] coll(1) Suc(12) by (simp add: h')
    moreover have "redo_loop c old [i..<l] j h = redo_loop c old [Suc i..<l] (Suc j) h'"
      using False coll f by (auto simp: i h'_def k_def Let_def moveentry_def sethash_def)
    ultimately show ?thesis using Suc(1) [where i = "Suc i" and j = "Suc j" and h = h'] Suc(2-) i by (simp add: h')
  qed
qed

definition rehashed :: "('k, 'e) hv_class \<Rightarrow> 'e hvec \<Rightarrow> 'e hvec \<Rightarrow> bool" where
  "rehashed c h h' \<longleftrightarrow>
     hv_ok c h' \<and> hdata h' = entries h \<and> (\<forall>i. \<not> is_erased h' i) \<and> hashsize h' = hashsize h \<and>
     log_hashsize h' = log_hashsize h \<and> info h' = info h \<and> unat (collisions h') \<le> limit h' * limit h'"

lemma entries_unerased: "(\<And>i. \<not> is_erased h i) \<Longrightarrow> entries h = hdata h"
  by (simp add: entries_def map_nth)

lemma rehashed_entries: "rehashed c h h' \<Longrightarrow> entries h' = entries h"
  by (simp add: rehashed_def entries_unerased)

lemma squares_small: "n \<le> maxset fmt \<Longrightarrow> n * n + n < 2 ^ 64"
proof -
  assume "n \<le> maxset fmt"
  then have "n \<le> 4294967295" using maxset_bound order_trans by blast
  then have "n * (n + 1) \<le> 4294967295 * 4294967296" by (intro mult_le_mono) simp_all
  then show ?thesis by simp
qed

lemma redo_hash_ok:
  assumes "hash_ok c" "sized h" "keys_differ c (entries h)" "length (entries h) \<le> hashsize h"
    "length (entries h) \<le> maxset (info h)" "info h \<le> 2" "length (entries h) \<le> max_entries"
  shows "\<exists>h'. redo_hash c h = Ok [] h' \<and> rehashed c h h'"
proof -
  define g where "g = h\<lparr>htab := replicate (hashsize h) 0, collisions := 0, erased := bv_clear (erased h)\<rparr>"
  have g: "hashsize g = hashsize h" "hdata g = hdata h" "log_hashsize g = log_hashsize h" "info g = info h" "collisions g = 0"
    "\<And>t. \<not> is_erased g t" "\<And>s. s < hashsize h \<Longrightarrow> gethash g s = 0"
    by (simp_all add: g_def bv_clear_def gethash_def)
  have "htable_ok c g 0"
    using assms(2) g by (simp add: htable_ok_def sized_def slots_ok_def hkeys_ok_def live_def)
  moreover have e: "entries h = take 0 (hdata g) @ kept (erased h) (hdata g) [0..<limit h]"
    by (simp add: entries_def kept_def g)
  ultimately obtain h' where h': "redo_loop c (erased h) [0..<limit h] 0 g = Ok [] (h', length (entries h))"
    "take (length (entries h)) (hdata h') = entries h" "htable_ok c h' (length (entries h))" "limit h' = limit h"
    "hashsize h' = hashsize h" "log_hashsize h' = log_hashsize h" "info h' = info h" "erased h' = erased g"
    "length (entries h) \<le> limit h" "unat (collisions h') \<le> length (entries h) * length (entries h)"
    using redo_loop_ok [OF assms(1) \<open>htable_ok c g 0\<close>, of 0 "limit h" "entries h" "erased h"] assms g by auto
  define f where "f = (resizedata c h' (length (entries h)))\<lparr>inuse := length (entries h)\<rparr>"
  have f: "htab f = htab h'" "hdata f = entries h" "erased f = erased g" "collisions f = collisions h'" "info f = info h"
    "log_hashsize f = log_hashsize h" "inuse f = length (entries h)"
    using h' by (simp_all add: f_def resizedata_def)
  have "htable_ok c f (length (entries h))"
  proof -
    have "gethash f = gethash h'" using f by (intro ext) (simp add: gethash_def)
    moreover have "hdata f ! i = hdata h' ! i" if "i < length (entries h)" for i using that f h'(2) by (metis nth_take)
    moreover have "probe c f = probe c h'" using f by (intro ext) (simp add: probe_def)
    ultimately show ?thesis using h'(3) f h' unfolding htable_ok_def sized_def slots_ok_def hkeys_ok_def live_def placed_def by auto
  qed
  moreover have n: "\<not> is_erased f i" for i using f g by simp
  moreover have "coll_ok f" using h'(10) f squares_small [OF assms(5)] by (auto simp: coll_ok_def)
  moreover have "redo_hash c h = Ok [] f" using h'(1) by (simp add: redo_hash_def f_def flip: g_def)
  ultimately show ?thesis using f assms h' by (intro exI [of _ f]) (simp add: rehashed_def hv_ok_def entries_unerased)
qed

section \<open>Growing\<close>

lemma power_and_pred: "n + 1 = 2 ^ l \<Longrightarrow> n AND (n + 1) = (0::nat)"
proof -
  assume n: "n + 1 = 2 ^ l"
  then have "n = mask l" by (simp add: mask_eq_exp_minus_1)
  moreover have "mask l AND 2 ^ l = (0::nat)" by (rule bit_eqI) (auto simp: bit_simps)
  ultimately show ?thesis using n by simp
qed

lemma expand_hash_ok:
  assumes "sized h" "hashsize h < 2147483647"
  obtains h' where "expand_hash h = Ok [] h'" "sized h'" "hashsize h' = hashsize h + (hashsize h + 1)" "hdata h' = hdata h"
    "erased h' = erased h" "info h' = info h" "inuse h' = inuse h"
proof -
  define n where "n = hashsize h + (hashsize h + 1)"
  have n: "n + 1 = 2 ^ (log_hashsize h + 1)" using assms by (simp add: n_def sized_def)
  then have "n AND (n + 1) = 0" by (rule power_and_pred)
  with n have e: "expand_hash h = Ok [] (allochash n (h\<lparr>log_hashsize := log_hashsize h + 1\<rparr>))"
    unfolding expand_hash_def Let_def n_def [symmetric] by simp
  have "(2::nat) ^ log_hashsize h < 2 ^ 31" using assms by (simp add: sized_def)
  then have "log_hashsize h < 31" by (rule power_less_imp_less_exp [rotated]) simp
  then have "sized (allochash n (h\<lparr>log_hashsize := log_hashsize h + 1\<rparr>))"
    using n assms by (simp add: sized_def allochash_def)
  then show ?thesis by (rule that [OF e]) (simp_all add: allochash_def n_def)
qed

end
