(* ===== verification/HashVec_Ops.thy ===== *)
theory HashVec_Ops
  imports HashVec_Spec
begin

text \<open>
  Insertion and removal on the list of entries: insertion appends an entry whose key is new and changes
  nothing otherwise, removal takes out the entry of a key, provided that the key is present or a slot of
  the table is free.
\<close>

section \<open>Insertion\<close>

lemma hv_okD:
  assumes "hv_ok c h"
  shows "htable_ok c h (limit h)" "sized h" "keys_differ c (entries h)" "inuse h = length (entries h)"
    "limit h \<le> maxset (info h)" "info h \<le> 2" "limit h \<le> hashsize h" "\<And>i. is_erased h i \<Longrightarrow> i < limit h" "coll_ok h"
    "limit h \<le> max_entries"
  using assms keys_differ_entries [of c h] slots_le [of h "limit h"] by (auto simp: hv_ok_def htable_ok_def)

text \<open>The entry of a present key, or a free slot for an absent one.\<close>

definition slot_for :: "('k, 'e) hv_class \<Rightarrow> 'e hvec \<Rightarrow> 'k \<Rightarrow> nat \<Rightarrow> bool" where
  "slot_for c h k slot \<longleftrightarrow>
     (if has_key c (entries h) k
      then \<exists>i. live h (limit h) i \<and> cmpfn c k (ekey c h i) \<and> gethash h slot = Suc i
      else limit h < hashsize h \<and> gethash h slot = 0 \<and> slot = fst (snd (hv_find c h k)))"

lemma find_slot_for:
  assumes "hash_ok c" "hv_ok c h" "has_key c (entries h) k \<or> limit h < hashsize h"
  shows "slot_for c h k (fst (snd (hv_find c h k)))"
proof (cases "has_key c (entries h) k")
  case True
  then obtain i where i: "live h (limit h) i" "cmpfn c k (ekey c h i)" unfolding present_entries [symmetric] present_def by blast
  obtain slot coll where "hv_find c h k = (Suc i, slot, coll)" "gethash h slot = Suc i"
    using find_present [OF assms(1) hv_okD(1) [OF assms(2)] i] .
  then show ?thesis using True i by (auto simp: slot_for_def)
next
  case False
  then have "\<not> present c h (limit h) k" by (simp add: present_entries)
  from absent_coll(3) [OF hv_okD(1) [OF assms(2)] this] False assms(3)
  show ?thesis by (cases "hv_find c h k") (auto simp: slot_for_def)
qed

lemma slot_for_collisions [simp]: "slot_for c (h\<lparr>collisions := n\<rparr>) k slot = slot_for c h k slot"
proof -
  have "continues c (h\<lparr>collisions := n\<rparr>) k idx = continues c h k idx" for idx by (simp add: continues_def)
  then have "find_loop c (h\<lparr>collisions := n\<rparr>) k s coll = find_loop c h k s coll" for s coll
    by (induction c h k s coll rule: find_loop.induct) (subst (1 2) find_loop.simps, simp add: gethash_def Let_def)
  then show ?thesis by (simp add: slot_for_def entries_def live_def gethash_def hv_find_def)
qed

text \<open>The array is never filled with a count of collisions that could wrap.\<close>

definition coll_room :: "'e hvec \<Rightarrow> bool" where
  "coll_room h \<longleftrightarrow> (hashsize h \<le> Suc (limit h) \<longrightarrow> unat (collisions h) + hashsize h < 2 ^ 64)"

lemma rehashed_room: "rehashed c h h' \<Longrightarrow> coll_room h'"
proof -
  assume r: "rehashed c h h'"
  then have ok: "hv_ok c h'" and u: "unat (collisions h') \<le> limit h' * limit h'" by (auto simp: rehashed_def)
  have "limit h' * limit h' + limit h' < 2 ^ 64 - 1"
  proof -
    have "limit h' \<le> 4294967295" using hv_okD(5) [OF ok] maxset_bound order_trans by blast
    then have "limit h' * (limit h' + 1) \<le> 4294967295 * 4294967296" by (intro mult_le_mono) simp_all
    then show ?thesis by simp
  qed
  then show ?thesis using u by (simp add: coll_room_def)
qed

lemma insert_slot_eq:
  assumes "hv_find c h k = (idx, slot, coll)" "g = h\<lparr>collisions := collisions h + of_nat coll\<rparr>"
  shows "insert_slot c h k =
    (if hashsize g div 2 < unat (collisions g)
     then bind_comp
            (if inuse g * 3 < limit g * 2 then ret g else if inuse g * 10 < hashsize g then ret g else expand_hash g)
            (\<lambda>h. bind_comp (redo_hash c h) (\<lambda>h. ret (h, fst (snd (hv_find c h k)))))
     else ret (g, slot))"
  by (simp add: insert_slot_def assms Let_def)

lemma insert_slot_ok:
  assumes ok: "hash_ok c" "hv_ok c h"
  shows "\<exists>h' slot. insert_slot c h k = Ok [] (h', slot) \<and> hv_ok c h' \<and> entries h' = entries h \<and> limit h' \<le> limit h \<and>
    slot_for c h' k slot \<and> coll_room h'"
proof -
  obtain idx slot coll where f: "hv_find c h k = (idx, slot, coll)" by (cases "hv_find c h k")
  define g where "g = h\<lparr>collisions := collisions h + of_nat coll\<rparr>"
  have g: "sized g" "entries g = entries h" "hashsize g = hashsize h" "limit g = limit h" "inuse g = inuse h" "info g = info h"
    using hv_okD(2) [OF ok(2)] by (simp_all add: g_def sized_def entries_def)
  note eq = insert_slot_eq [OF f g_def]
  note D = hv_okD [OF ok(2)]
  show ?thesis
  proof (cases "hashsize h div 2 < unat (collisions g)")
    case True
    have redo: "\<exists>h'. redo_hash c g' = Ok [] h' \<and> hv_ok c h' \<and> entries h' = entries h \<and> limit h' \<le> limit h \<and>
        slot_for c h' k (fst (snd (hv_find c h' k))) \<and> coll_room h'"
      if g': "sized g'" "entries g' = entries h" "length (entries h) < hashsize g'" "info g' = info h" for g'
    proof -
      have "length (entries h) \<le> limit h" by (rule length_entries)
      then obtain h' where "redo_hash c g' = Ok [] h'" and r: "rehashed c g' h'"
        using redo_hash_ok [OF ok(1) g'(1)] g' D by fastforce
      moreover have "hv_ok c h'" "limit h' < hashsize h'" "limit h' \<le> limit h"
        using r g' length_entries [of h] by (auto simp: rehashed_def)
      ultimately show ?thesis
        using find_slot_for [OF ok(1), of h' k] rehashed_entries [OF r] rehashed_room [OF r] g' by auto
    qed
    consider "inuse h * 3 < limit h * 2" | "\<not> inuse h * 3 < limit h * 2" "inuse h * 10 < hashsize h"
      | "\<not> inuse h * 3 < limit h * 2" "\<not> inuse h * 10 < hashsize h" by blast
    then show ?thesis
    proof cases
      case 1
      then obtain h' where "redo_hash c g = Ok [] h'" "hv_ok c h'" "entries h' = entries h" "limit h' \<le> limit h"
        "slot_for c h' k (fst (snd (hv_find c h' k)))" "coll_room h'"
        using redo [of g] g D by auto
      then show ?thesis using True 1 by (simp add: eq g)
    next
      case 2
      then obtain h' where "redo_hash c g = Ok [] h'" "hv_ok c h'" "entries h' = entries h" "limit h' \<le> limit h"
        "slot_for c h' k (fst (snd (hv_find c h' k)))" "coll_room h'"
        using redo [of g] g D by auto
      then show ?thesis using True 2 by (simp add: eq g)
    next
      case 3
      obtain g' where g': "expand_hash g = Ok [] g'" "sized g'" "hashsize g' = hashsize g + (hashsize g + 1)"
        "hdata g' = hdata g" "erased g' = erased g" "info g' = info g"
        using 3 D(4,10) length_entries [of h] by (auto simp: g intro: expand_hash_ok [OF g(1)])
      have "entries g' = entries h" using entries_cong [OF g'(4,5)] g by simp
      then obtain h' where "redo_hash c g' = Ok [] h'" "hv_ok c h'" "entries h' = entries h" "limit h' \<le> limit h"
        "slot_for c h' k (fst (snd (hv_find c h' k)))" "coll_room h'"
        using redo [of g'] g' g D length_entries [of h] by auto
      then show ?thesis using True 3 g' by (simp add: eq g)
    qed
  next
    case False
    have "limit h < hashsize h" if a: "\<not> has_key c (entries h) k"
    proof (rule ccontr)
      assume "\<not> limit h < hashsize h"
      then have l: "limit h = hashsize h" using D by simp
      have "coll = hashsize h"
        using find_full(1) [of c h k] D(1) a f unfolding l [symmetric] present_entries by simp
      moreover have "unat (collisions h) + hashsize h < 2 ^ 64" using D(9) l by (simp add: coll_ok_def)
      ultimately have "unat (collisions g) = unat (collisions h) + hashsize h"
        by (simp add: g_def unat_word_ariths(1) unat_of_nat)
      moreover have "0 < hashsize h" using D(2) by (rule sized_pos)
      ultimately show False using False by linarith
    qed
    then have "slot_for c h k slot" using find_slot_for [OF ok, of k] f by auto
    moreover have room: "coll_room g"
    proof -
      have "hashsize h < 2 ^ 62" if "hashsize h \<le> Suc (limit h)"
        using that D(5) maxset_bound [of "info h"] by simp
      then show ?thesis using False g by (auto simp: coll_room_def)
    qed
    moreover have "hv_ok c g"
    proof -
      have "coll_ok g" using room g by (simp add: coll_ok_def coll_room_def)
      moreover have "htable_ok c g (limit g)" using D(1) g htable_ok_cong [of g h c "limit h"] by (simp add: g_def)
      ultimately show ?thesis using D g by (auto simp: hv_ok_def g_def)
    qed
    ultimately show ?thesis using False g by (auto simp: eq g_def)
  qed
qed

text \<open>Writing the new index and appending the entry.\<close>

lemma push_ok:
  assumes ok: "hash_ok c" "hv_ok c h" "coll_room h"
    and new: "\<not> has_key c (entries h) (getkey c e)" "slot_for c h (getkey c e) slot" "limit h < maxset (info h)" "limit h < max_entries"
    and h': "h' = push_entry ((sethash h slot (limit h + 1))\<lparr>inuse := inuse h + 1\<rparr>) e"
  shows "hv_ok c h'" "entries h' = entries h @ [e]" "limit h' = Suc (limit h)"
proof -
  note D = hv_okD [OF ok(2)]
  obtain idx coll where f: "hv_find c h (getkey c e) = (idx, slot, coll)" and room: "limit h < hashsize h"
    using new by (cases "hv_find c h (getkey c e)") (auto simp: slot_for_def)
  have h': "htab h' = (htab h)[slot := Suc (limit h)]" "hdata h' = hdata h @ [e]" "erased h' = erased h" "info h' = info h"
    "inuse h' = Suc (inuse h)" "log_hashsize h' = log_hashsize h" "collisions h' = collisions h"
    using new(3) D by (simp_all add: h' push_entry_def sethash_def maxset_power)
  have n: "\<not> is_erased h (limit h)" using D(8) by blast
  have "htable_ok c h' (Suc (limit h))"
    using new(1) n by (intro table_place [OF ok(1) D(1) _ f room]) (auto simp: h' present_entries nth_append)
  moreover show e: "entries h' = entries h @ [e]"
    using n by (auto simp: entries_def h' nth_append intro!: arg_cong [where f = "\<lambda>f. map f _"] map_cong)
  moreover have "coll_ok h'" using ok(3) by (auto simp: coll_ok_def coll_room_def h')
  ultimately show "hv_ok c h'" using D new(3,4) by (auto simp: hv_ok_def h' less_SucI)
  show "limit h' = Suc (limit h)" by (simp add: h')
qed

lemma insert_index_ok:
  assumes ok: "hash_ok c" "hv_ok c h" "coll_room h"
    and new: "\<not> has_key c (entries h) k" "slot_for c h k slot" "limit h < max_entries"
  shows "\<exists>h2 slot2. insert_index c h k slot = Ok [] ((sethash h2 slot2 (limit h2 + 1))\<lparr>inuse := inuse h2 + 1\<rparr>) \<and>
    hv_ok c h2 \<and> coll_room h2 \<and> entries h2 = entries h \<and> slot_for c h2 k slot2 \<and> limit h2 < maxset (info h2) \<and>
    limit h2 \<le> limit h"
proof -
  note D = hv_okD [OF ok(2)]
  have room: "limit h < hashsize h" using new by (simp add: slot_for_def)
  show ?thesis
  proof (cases "maxset (info h) \<le> limit h")
    case False
    then show ?thesis using room ok new
      by (intro exI [of _ h] exI [of _ slot]) (simp add: insert_index_def)
  next
    case True
    then have "info h \<noteq> 2" using new(3) by (auto simp: maxset_def)
    then have i: "info h \<noteq> 2" "info h < 2" using D(6) by auto
    define g where "g = allochash (hashsize h) (h\<lparr>info := info h + 1\<rparr>)"
    have m: "maxset (info h) < maxset (Suc (info h))" using i by (cases "info h") (auto simp: maxset_def)
    have "entries g = entries h" by (rule entries_cong) (simp_all add: g_def allochash_def)
    moreover have "sized g" "hashsize g = hashsize h" "info g = Suc (info h)"
      using D by (simp_all add: g_def sized_def allochash_def)
    moreover have "length (entries h) \<le> limit h" by (rule length_entries)
    ultimately obtain h2 where h2: "redo_hash c g = Ok [] h2" and r: "rehashed c g h2"
      using redo_hash_ok [OF ok(1), of g] D m i by fastforce
    have "hv_ok c h2" "limit h2 = length (entries h)" "hashsize h2 = hashsize h" "info h2 = Suc (info h)" "entries h2 = entries h"
      using r rehashed_entries [OF r] \<open>entries g = entries h\<close> \<open>hashsize g = _\<close> \<open>info g = _\<close> by (auto simp: rehashed_def)
    moreover from this have "slot_for c h2 k (fst (snd (hv_find c h2 k)))"
      using find_slot_for [OF ok(1), of h2 k] room \<open>length (entries h) \<le> limit h\<close> by auto
    moreover have "limit h2 < maxset (info h2)" using calculation \<open>length (entries h) \<le> limit h\<close> D m by simp
    ultimately show ?thesis
      using True room i h2 rehashed_room [OF r] \<open>length (entries h) \<le> limit h\<close>
      by (intro exI [of _ h2] exI [of _ "fst (snd (hv_find c h2 k))"]) (simp add: insert_index_def allochash_def g_def)
  qed
qed

text \<open>A present key: the table stays, up to rehashing, and the index is that of its entry.\<close>

lemma hv_insert_present:
  assumes "hash_ok c" "hv_ok c h" "has_key c (entries h) k"
  shows "\<exists>h' i. hv_insert c h k = Ok [] (h', Some i) \<and> hv_ok c h' \<and> entries h' = entries h \<and> limit h' \<le> limit h \<and>
    live h' (limit h') i \<and> cmpfn c k (ekey c h' i)"
proof -
  obtain h' slot where h': "insert_slot c h k = Ok [] (h', slot)" "hv_ok c h'" "entries h' = entries h" "limit h' \<le> limit h"
    "slot_for c h' k slot" using insert_slot_ok [OF assms(1,2)] by blast
  then obtain i where "live h' (limit h') i" "cmpfn c k (ekey c h' i)" "gethash h' slot = Suc i"
    using assms(3) by (auto simp: slot_for_def)
  then show ?thesis using h' by (auto simp: hv_insert_def live_def)
qed

lemma hv_insert_absent:
  assumes "hash_ok c" "hv_ok c h" "\<not> has_key c (entries h) k" "limit h < max_entries"
  shows "\<exists>h'. hv_insert c h k = Ok [] (h', None) \<and>
    (\<forall>e. getkey c e = k \<longrightarrow> hv_ok c (push_entry h' e) \<and> entries (push_entry h' e) = entries h @ [e]) \<and> limit h' \<le> limit h \<and>
    \<not> is_erased h' (limit h')"
proof -
  obtain h1 slot where h1: "insert_slot c h k = Ok [] (h1, slot)" "hv_ok c h1" "entries h1 = entries h" "limit h1 \<le> limit h"
    "slot_for c h1 k slot" "coll_room h1" using insert_slot_ok [OF assms(1,2)] by blast
  obtain h2 slot2 where h2: "insert_index c h1 k slot = Ok [] ((sethash h2 slot2 (limit h2 + 1))\<lparr>inuse := inuse h2 + 1\<rparr>)"
    "hv_ok c h2" "coll_room h2" "entries h2 = entries h1" "slot_for c h2 k slot2" "limit h2 < maxset (info h2)" "limit h2 \<le> limit h1"
    using insert_index_ok [OF assms(1) h1(2,6) _ h1(5)] assms h1 by auto
  have "gethash h1 slot = 0" using h1 assms by (auto simp: slot_for_def)
  moreover have "\<not> is_erased h2 (limit h2)" using hv_okD(8) [OF h2(2)] by blast
  ultimately show ?thesis using h1 h2 assms push_ok [OF assms(1) h2(2,3) _ _ h2(6) _ refl]
    by (auto simp: hv_insert_def sethash_def)
qed

lemma map_insert_present:
  assumes "hash_ok c" "hv_ok c h" "has_key c (entries h) (getkey c v)"
  shows "\<exists>h' i. map_insert c h v = Ok [] (h', i, False) \<and> hv_ok c h' \<and> entries h' = entries h \<and> limit h' \<le> limit h \<and>
    live h' (limit h') i \<and> cmpfn c (getkey c v) (ekey c h' i)"
  using hv_insert_present [OF assms] by (auto simp: map_insert_def live_def)

lemma map_insert_absent:
  assumes "hash_ok c" "hv_ok c h" "\<not> has_key c (entries h) (getkey c v)" "limit h < max_entries"
  shows "\<exists>h' i. map_insert c h v = Ok [] (h', i, True) \<and> hv_ok c h' \<and> entries h' = entries h @ [v] \<and> limit h' \<le> Suc (limit h) \<and>
    live h' (limit h') i \<and> hdata h' ! i = v"
proof -
  obtain h' where h': "hv_insert c h (getkey c v) = Ok [] (h', None)" "hv_ok c (push_entry h' v)"
    "entries (push_entry h' v) = entries h @ [v]" "limit h' \<le> limit h" "\<not> is_erased h' (limit h')"
    using hv_insert_absent [OF assms] by blast
  then show ?thesis using h' by (auto simp: map_insert_def push_entry_def live_def)
qed

end
