(* ===== verification/HashVec_Refine.thy ===== *)
theory HashVec_Refine
  imports HashVec_Ops
begin

text \<open>
  Removal, iteration, and the containers as a whole: \<open>hvec_map\<close> and \<open>hvec_set\<close> refine lists of entries in
  the order of insertion, except that erasing an absent key from a full table erases another entry.
\<close>

section \<open>Removal\<close>

definition entries_in :: "'e hvec \<Rightarrow> nat list \<Rightarrow> 'e list" where
  "entries_in h is = map (\<lambda>i. hdata h ! i) (filter (\<lambda>i. \<not> is_erased h i) is)"

lemma entries_split:
  assumes "live h (limit h) i"
  shows "entries h = entries_in h [0..<i] @ hdata h ! i # entries_in h [Suc i..<limit h]"
proof -
  have "[0..<limit h] = [0..<i] @ i # [Suc i..<limit h]"
    using assms by (metis live_def less_imp_le_nat upt_add_eq_append upt_conv_Cons le_add_diff_inverse zero_le add_0)
  then show ?thesis using assms by (simp add: entries_def entries_in_def live_def)
qed

lemma filter_key:
  assumes "hash_ok c" "keys_differ c (xs @ e # ys)" "cmpfn c k (getkey c e)"
  shows "filter (\<lambda>e. \<not> cmpfn c k (getkey c e)) (xs @ e # ys) = xs @ ys"
proof -
  have "\<not> cmpfn c k (getkey c x)" if "x \<in> set (xs @ ys)" for x
  proof
    assume "cmpfn c k (getkey c x)"
    then have "cmpfn c (getkey c x) (getkey c e)" "cmpfn c (getkey c e) (getkey c x)"
      using assms hash_ok_sym hash_ok_trans by metis+
    then show False using assms(2) that by (auto simp: keys_differ_def sorted_wrt_append)
  qed
  then show ?thesis using assms(3) by (auto simp: filter_id_conv)
qed

text \<open>An entry that is marked as erased, or was already.\<close>

lemma upt_split: "i < n \<Longrightarrow> [0..<n] = [0..<i] @ i # [Suc i..<n]"
  by (metis less_imp_le_nat upt_add_eq_append upt_conv_Cons le_add_diff_inverse zero_le add_0)

lemma mark_entries:
  assumes "i < limit h" "erased h' = bitref_assign (erased h) i True" "hdata h' = (hdata h)[i := e]"
  shows "entries h' = entries_in h [0..<i] @ entries_in h [Suc i..<limit h]"
proof -
  have er: "is_erased h' j \<longleftrightarrow> j = i \<or> is_erased h j" for j by (simp add: assms getbit_assign)
  have "filter (\<lambda>j. \<not> is_erased h' j) [0..<i] = filter (\<lambda>j. \<not> is_erased h j) [0..<i]"
    "filter (\<lambda>j. \<not> is_erased h' j) [Suc i..<limit h] = filter (\<lambda>j. \<not> is_erased h j) [Suc i..<limit h]"
    by (auto simp: er intro!: filter_cong)
  moreover have "is_erased h' i" by (simp add: er)
  moreover have "limit h' = limit h" by (simp add: assms)
  ultimately have "filter (\<lambda>j. \<not> is_erased h' j) [0..<limit h'] =
      filter (\<lambda>j. \<not> is_erased h j) [0..<i] @ filter (\<lambda>j. \<not> is_erased h j) [Suc i..<limit h]"
    using upt_split [OF assms(1)] by simp
  then show ?thesis unfolding entries_def entries_in_def by (auto simp: assms)
qed

lemma entries_skip:
  "i < limit h \<Longrightarrow> is_erased h i \<Longrightarrow> entries h = entries_in h [0..<i] @ entries_in h [Suc i..<limit h]"
  by (simp add: entries_def entries_in_def upt_split)

lemma mark_ok:
  assumes "hv_ok c h" "live h (limit h) i"
    and h': "htab h' = htab h" "log_hashsize h' = log_hashsize h" "info h' = info h" "collisions h' = collisions h"
      "erased h' = bitref_assign (erased h) i True" "hdata h' = (hdata h)[i := e]" "inuse h' = inuse h - 1"
  shows "hv_ok c h'" "entries h' = entries_in h [0..<i] @ entries_in h [Suc i..<limit h]"
proof -
  note D = hv_okD [OF assms(1)]
  have er: "is_erased h' j \<longleftrightarrow> j = i \<or> is_erased h j" for j by (simp add: h' getbit_assign)
  show e: "entries h' = entries_in h [0..<i] @ entries_in h [Suc i..<limit h]"
    by (rule mark_entries [OF _ h'(5,6)]) (use assms(2) in \<open>simp add: live_def\<close>)
  have live: "live h' n j \<longleftrightarrow> live h n j \<and> j \<noteq> i" for j n by (auto simp: live_def er)
  have "htable_ok c h' (limit h)"
    using D(1) unfolding htable_ok_def sized_def slots_ok_def hkeys_ok_def live placed_def probe_def gethash_def h' by auto
  moreover have "inuse h' = length (entries h')"
    using D(4) entries_split [OF assms(2)] by (simp add: e h')
  moreover have "\<forall>j. is_erased h' j \<longrightarrow> j < limit h" using D(8) assms(2) by (auto simp: er live_def)
  ultimately show "hv_ok c h'" using D by (simp add: hv_ok_def h' coll_ok_def)
qed

text \<open>The last entry, which leaves the vector.\<close>

lemma shrink_ok:
  assumes "hv_ok c h" "live h (limit h) i" "Suc i = limit h" "slot < hashsize h" "gethash h slot = Suc i"
    and h': "htab h' = (htab h)[slot := 0]" "log_hashsize h' = log_hashsize h" "info h' = info h"
      "erased h' = erased h" "hdata h' = take i (hdata h)" "inuse h' = inuse h - 1"
  shows "hv_ok c h'" "entries h' = entries_in h [0..<i] @ entries_in h [Suc i..<limit h]"
proof -
  note D = hv_okD [OF assms(1)]
  show e: "entries h' = entries_in h [0..<i] @ entries_in h [Suc i..<limit h]"
    using assms(3) by (auto simp: entries_def entries_in_def h' intro!: map_cong)
  have size: "hashsize h' = hashsize h" by (simp add: h')
  have probe: "probe c h' x d = probe c h x d" for x d by (simp add: probe_def size)
  have get: "gethash h' s = (if s = slot then 0 else gethash h s)" if "s < hashsize h" for s
    using that by (auto simp: gethash_def h')
  have ok: "slots_ok h (Suc i)" "hkeys_ok c h (Suc i)" "sized h" using D(1) assms(3) by (auto simp: htable_ok_def)
  have only: "gethash h s \<noteq> Suc i" if "s < hashsize h" "s \<noteq> slot" for s
    using ok(1) that assms(4,5) unfolding slots_ok_def by (metis zero_less_Suc)
  have live: "live h' i j \<longleftrightarrow> live h (Suc i) j \<and> j \<noteq> i" for j by (auto simp: live_def h')
  have key: "ekey c h' j = ekey c h j" if "j < i" for j using that by (simp add: h')
  have "slots_ok h' i"
    unfolding slots_ok_def size
  proof (intro conjI allI impI)
    fix s assume s: "s < hashsize h"
    have "gethash h s \<le> Suc i" using ok(1) s by (auto simp: slots_ok_def)
    then show "gethash h' s \<le> i" using only [OF s] by (auto simp: get s le_Suc_eq)
  next
    fix s t assume st: "s < hashsize h" "t < hashsize h" "gethash h' s = gethash h' t" "0 < gethash h' s"
    then have "gethash h s = gethash h t" "0 < gethash h s" by (auto simp: get split: if_splits)
    then show "s = t" using ok(1) st(1,2) unfolding slots_ok_def by blast
  next
    fix j assume "j < i"
    then obtain s where "s < hashsize h" "gethash h s = Suc j" using ok(1) unfolding slots_ok_def by (metis less_SucI)
    then show "\<exists>s<hashsize h. gethash h' s = Suc j" using assms(5) \<open>j < i\<close> by (intro exI [of _ s]) (auto simp: get)
  qed
  moreover have "placed c h' j" if l: "live h' i j" for j
  proof -
    have j: "j < i" using l by (simp add: live_def)
    have "placed c h j" using l live ok(2) by (auto simp: hkeys_ok_def)
    then obtain d where d: "d < hashsize h" "gethash h (probe c h (ekey c h j) d) = Suc j"
      "\<forall>e<d. 0 < gethash h (probe c h (ekey c h j) e) \<and> gethash h (probe c h (ekey c h j) e) \<le> j" by (auto simp: placed_def)
    have p: "probe c h x e < hashsize h" for x e using sized_pos [OF ok(3)] by simp
    have "gethash h' (probe c h (ekey c h j) d) = Suc j" using d(2) j assms(5) p by (auto simp: get)
    moreover have "gethash h' (probe c h (ekey c h j) e) = gethash h (probe c h (ekey c h j) e)" if "e < d" for e
      using d(3) that j assms(5) p by (auto simp: get)
    ultimately show ?thesis unfolding placed_def size probe key [OF j] using d by (intro exI [of _ d]) auto
  qed
  moreover have "j = m" if "live h' i j" "live h' i m" "cmpfn c (ekey c h' j) (ekey c h' m)" for j m
    using that ok(2) key unfolding live hkeys_ok_def by (metis live_def less_SucE)
  ultimately have "htable_ok c h' i" using ok(3) size h' by (simp add: htable_ok_def hkeys_ok_def sized_def)
  moreover have "inuse h' = length (entries h')"
    using D(4) entries_split [OF assms(2)] by (simp add: e h')
  moreover have "\<forall>j. is_erased h' j \<longrightarrow> j < i"
    using D(8) assms(2,3) by (metis h'(4) less_SucE live_def)
  moreover have "limit h' = i" "i < hashsize h" using assms(3) D(7) by (auto simp: h')
  ultimately show "hv_ok c h'" using D assms(3) by (simp add: hv_ok_def h' coll_ok_def)
qed

lemma map_erase_present:
  assumes ok: "hash_ok c" "hv_ok c h" and p: "has_key c (entries h) k"
  shows "\<exists>h'. map_erase c h k = (h', 1) \<and> hv_ok c h' \<and> entries h' = filter (\<lambda>e. \<not> cmpfn c k (getkey c e)) (entries h) \<and>
    limit h' \<le> limit h"
proof -
  obtain i where i: "live h (limit h) i" "cmpfn c k (ekey c h i)"
    using p unfolding present_entries [symmetric] present_def by blast
  obtain slot coll where f: "hv_find c h k = (Suc i, slot, coll)" "slot < hashsize h" "gethash h slot = Suc i"
    using find_present [OF ok(1) hv_okD(1) [OF ok(2)] i] .
  have fi: "filter (\<lambda>e. \<not> cmpfn c k (getkey c e)) (entries h) = entries_in h [0..<i] @ entries_in h [Suc i..<limit h]"
    using filter_key [OF ok(1) _ i(2)] hv_okD(3) [OF ok(2)] entries_split [OF i(1)] by simp
  show ?thesis
  proof (cases "Suc i = limit h")
    case True
    define h' where "h' = (sethash (resizedata c (h\<lparr>inuse := inuse h - 1\<rparr>) i) slot 0)\<lparr>collisions := collisions h - of_nat coll\<rparr>"
    have "limit h - Suc 0 = i" "hdata h \<noteq> []" using True by auto
    then have "hv_remove c h k = (h', Some i)" using f i True
      by (simp add: hv_remove_def live_def h'_def Let_def)
    moreover have "\<not> i < limit h'" using True by (simp add: h'_def sethash_def resizedata_def)
    ultimately have "map_erase c h k = (h', 1)" by (simp add: map_erase_def)
    moreover have "hv_ok c h'" "entries h' = entries_in h [0..<i] @ entries_in h [Suc i..<limit h]"
      using shrink_ok [OF ok(2) i(1) True f(2,3), of h'] True by (simp_all add: h'_def sethash_def resizedata_def)
    moreover have "limit h' \<le> limit h" using True by (simp add: h'_def sethash_def resizedata_def)
    ultimately show ?thesis using fi by auto
  next
    case False
    define h' where "h' = h\<lparr>inuse := inuse h - 1, erased := bitref_assign (erased h) i True, hdata := (hdata h)[i := blank c]\<rparr>"
    have "map_erase c h k = (h', 1)" using f i False
      by (simp add: map_erase_def hv_remove_def live_def h'_def Let_def)
    moreover have "hv_ok c h'" "entries h' = entries_in h [0..<i] @ entries_in h [Suc i..<limit h]"
      using mark_ok [OF ok(2) i(1), of h' "blank c"] by (simp_all add: h'_def)
    ultimately show ?thesis using fi by (simp add: h'_def)
  qed
qed

lemma map_erase_absent:
  assumes ok: "hash_ok c" "hv_ok c h" and a: "\<not> has_key c (entries h) k" "limit h < hashsize h"
  shows "map_erase c h k = (h, 0)"
proof -
  obtain idx slot coll where f: "hv_find c h k = (idx, slot, coll)" by (cases "hv_find c h k")
  have "gethash h slot = 0"
    using absent_coll(3) [OF hv_okD(1) [OF ok(2)] _ a(2) f] a(1) by (simp add: present_entries)
  then show ?thesis using f by (simp add: map_erase_def hv_remove_def)
qed

text \<open>In a full table the entry of the slot where the search gave up is erased.\<close>

lemma shrink_entries:
  "Suc i = limit h \<Longrightarrow> erased h' = erased h \<Longrightarrow> hdata h' = take i (hdata h) \<Longrightarrow>
     entries h' = entries_in h [0..<i] @ entries_in h [Suc i..<limit h]"
  by (auto simp: entries_def entries_in_def intro!: map_cong)

lemma map_erase_full:
  assumes ok: "hash_ok c" "hv_ok c h" and a: "\<not> has_key c (entries h) k" "limit h = hashsize h"
  obtains i h' where "i < limit h" "gethash h (probe c h k (hashsize h - 1)) = Suc i" "map_erase c h k = (h', 1)"
    "entries h' = entries_in h [0..<i] @ entries_in h [Suc i..<limit h]" "inuse h' = length (entries h')"
    "\<not> is_erased h i \<Longrightarrow> hv_ok c h'"
proof -
  note D = hv_okD [OF ok(2)]
  define slot where "slot = probe c h k (hashsize h - 1)"
  have f: "hv_find c h k = (0, slot, hashsize h)" "0 < gethash h slot"
    using find_full [of c h k] D(1) a unfolding a(2) [symmetric] present_entries slot_def by simp_all
  have slot: "slot < hashsize h" using sized_pos [OF D(2)] by (simp add: slot_def)
  then obtain i where i: "gethash h slot = Suc i" "i < limit h"
    using f(2) D(1) unfolding htable_ok_def slots_ok_def by (metis Suc_le_lessD gr0_implies_Suc)
  define g where "g = (if is_erased h i then h else h\<lparr>inuse := inuse h - 1\<rparr>)"
  have g: "hdata g = hdata h" "erased g = erased h" "htab g = htab h" "info g = info h" "log_hashsize g = log_hashsize h"
    "collisions g = collisions h" "inuse g = (if is_erased h i then inuse h else inuse h - 1)" by (simp_all add: g_def)
  have size: "inuse g = length (entries_in h [0..<i] @ entries_in h [Suc i..<limit h])"
    using D(4) entries_skip [OF i(2)] entries_split [of h i] i(2) by (auto simp: g live_def)
  have remove: "hv_remove c h k =
      (if Suc i = limit g then (sethash (resizedata c g i) slot 0)\<lparr>collisions := collisions g - of_nat (hashsize h)\<rparr>
       else g\<lparr>erased := bitref_assign (erased g) i True\<rparr>, Some i)"
    unfolding hv_remove_def f(1) prod.case Let_def i(1) diff_Suc_1 by (cases "is_erased h i") (simp_all add: g_def)
  show ?thesis
  proof (cases "Suc i = limit h")
    case True
    define h' where "h' = (sethash (resizedata c g i) slot 0)\<lparr>collisions := collisions g - of_nat (hashsize h)\<rparr>"
    have "hv_remove c h k = (h', Some i)" by (simp add: remove True h'_def g)
    moreover have "\<not> i < limit h'" using True by (simp add: h'_def sethash_def resizedata_def g)
    ultimately have m: "map_erase c h k = (h', 1)" by (simp add: map_erase_def)
    have h': "htab h' = (htab h)[slot := 0]" "log_hashsize h' = log_hashsize h" "info h' = info h" "erased h' = erased h"
      "hdata h' = take i (hdata h)" "inuse h' = inuse g"
      using True by (simp_all add: h'_def sethash_def resizedata_def g)
    have "hv_ok c h'" if "\<not> is_erased h i"
      using that i shrink_ok(1) [OF ok(2) _ True slot i(1) h'(1-5)] h'(6) by (simp add: live_def g)
    then show ?thesis using that [of i h'] i m shrink_entries [OF True h'(4,5)] h'(6) size by (simp add: slot_def)
  next
    case False
    define h' where "h' = g\<lparr>erased := bitref_assign (erased h) i True, hdata := (hdata h)[i := blank c]\<rparr>"
    have m: "map_erase c h k = (h', 1)" using i(2) False
      by (simp add: map_erase_def remove h'_def g)
    have e: "entries h' = entries_in h [0..<i] @ entries_in h [Suc i..<limit h]"
      by (rule mark_entries [OF i(2)]) (simp_all add: h'_def)
    have "hv_ok c h'" if "\<not> is_erased h i"
      using that i mark_ok(1) [OF ok(2), of i h' "blank c"] by (simp add: live_def h'_def g)
    then show ?thesis using that [of i h'] i m e size by (simp add: slot_def h'_def)
  qed
qed

lemma map_erase_at_ok:
  assumes "hv_ok c h" "live h (limit h) i"
  shows "hv_ok c (fst (map_erase_at c h i))"
    "entries (fst (map_erase_at c h i)) = entries_in h [0..<i] @ entries_in h [Suc i..<limit h]"
proof -
  have "fst (map_erase_at c h i) =
      h\<lparr>erased := bitref_assign (erased h) i True, hdata := (hdata h)[i := blank c], inuse := inuse h - 1\<rparr>"
    by (simp add: map_erase_at_def Let_def)
  then show "hv_ok c (fst (map_erase_at c h i))"
    "entries (fst (map_erase_at c h i)) = entries_in h [0..<i] @ entries_in h [Suc i..<limit h]"
    using mark_ok [OF assms, of "fst (map_erase_at c h i)" "blank c"] by simp_all
qed

section \<open>Construction and clearing\<close>

lemma grow_size_ok:
  "n + 1 = 2 ^ l \<Longrightarrow> 4 \<le> l \<Longrightarrow> l \<le> 31 \<Longrightarrow> m \<le> 1073741823 \<Longrightarrow>
     case grow_size m n l of (n', l') \<Rightarrow> n' + 1 = 2 ^ l' \<and> 4 \<le> l' \<and> l' \<le> 31"
proof (induction m n l rule: grow_size.induct)
  case (1 m n l)
  show ?case
  proof (cases "n div 2 < m")
    case True
    have "n + (n + 1) + 1 = 2 ^ (l + 1)" using 1(2) by simp
    moreover have "l + 1 \<le> 31"
    proof -
      have "(2::nat) ^ l < 2 ^ 31" using 1(2,5) True by simp
      then have "l < 31" by (rule power_less_imp_less_exp [rotated]) simp
      then show ?thesis by simp
    qed
    ultimately have "case grow_size m (n + (n + 1)) (l + 1) of (n', l') \<Rightarrow> n' + 1 = 2 ^ l' \<and> 4 \<le> l' \<and> l' \<le> 31"
      using 1(1) [OF True] 1(3,5) by simp
    moreover have "grow_size m n l = grow_size m (n + (n + 1)) (l + 1)" using True by (subst grow_size.simps) (rule if_P)
    ultimately show ?thesis by (simp only:)
  next
    case False
    then show ?thesis using 1 by (subst grow_size.simps) simp
  qed
qed

lemma pick_format_ok: "m \<le> 4294967295 \<Longrightarrow> \<exists>fmt\<le>2. pick_format m 0 = ret fmt"
  by (simp add: pick_format.simps [of m 0] pick_format.simps [of m "Suc 0"] pick_format.simps [of m "Suc (Suc 0)"] maxset_def
        split: if_splits)

lemma empty_entries: "hdata h = [] \<Longrightarrow> entries h = []"
  by (simp add: entries_def)

lemma empty_ok:
  assumes "sized h" "hdata h = []" "inuse h = 0" "info h \<le> 2" "\<And>i. \<not> is_erased h i" "htab h = replicate n 0"
  shows "hv_ok c h"
  using assms sized_pos [OF assms(1)]
  by (auto simp: hv_ok_def htable_ok_def slots_ok_def hkeys_ok_def live_def entries_def coll_ok_def gethash_def)

lemma hash_vector_base_ok:
  assumes "capacity \<le> 1073741823"
  shows "\<exists>h. hash_vector_base capacity = ret h \<and> hv_ok c h \<and> entries h = [] \<and> limit h = 0"
proof -
  obtain n l where g: "grow_size capacity 15 4 = (n, l)" by (cases "grow_size capacity 15 4")
  have n: "n + 1 = 2 ^ l" "4 \<le> l" "l \<le> 31" using grow_size_ok [of 15 4 capacity] g assms by auto
  obtain fmt where fmt: "fmt \<le> 2" "pick_format capacity 0 = ret fmt" using pick_format_ok [of capacity] assms by auto
  let ?h = "\<lparr>info = fmt, htab = replicate n 0, log_hashsize = l, collisions = 0, inuse = 0, erased = bv_empty, hdata = []\<rparr>"
  have "\<not> getbit bv_empty i" for i using getbit_zeros [of 1 i] by simp
  then have "hv_ok c ?h" "entries ?h = []" using n fmt empty_ok [of ?h n c] empty_entries [of ?h] by (simp_all add: sized_def)
  then show ?thesis using g n fmt by (simp add: hash_vector_base_def)
qed

lemma map_clear_ok: "hv_ok c (map_clear h)" "entries (map_clear h) = []" "limit (map_clear h) = 0"
proof -
  have "sized (map_clear h)" "hdata (map_clear h) = []" "inuse (map_clear h) = 0" "info (map_clear h) \<le> 2"
    "\<And>i. \<not> is_erased (map_clear h) i" "htab (map_clear h) = replicate 15 0"
    by (simp_all add: map_clear_def hv_clear_def allochash_def sized_def bv_clear_def)
  then show "hv_ok c (map_clear h)" "entries (map_clear h) = []" "limit (map_clear h) = 0" by (simp_all add: empty_ok empty_entries)
qed

section \<open>Look-up and iteration\<close>

lemma find_spec:
  assumes "hash_ok c" "hv_ok c h"
  shows "fst (hv_find c h k) \<noteq> 0 \<longleftrightarrow> has_key c (entries h) k"
    "fst (hv_find c h k) = Suc i \<Longrightarrow> live h (limit h) i \<and> cmpfn c k (ekey c h i)"
  using find_iff [OF assms(1) hv_okD(1) [OF assms(2)] refl, of k] by (simp_all add: present_entries)

lemma iter_next_spec:
  "\<not> is_erased h (iter_next h i) \<and> i < iter_next h i \<and> (\<forall>j. i < j \<longrightarrow> j < iter_next h i \<longrightarrow> is_erased h j)"
proof (induction h i rule: iter_next.induct)
  case (1 h i)
  show ?case
  proof (cases "is_erased h (Suc i)")
    case True
    then show ?thesis using 1 by (subst (1 2 3) iter_next.simps) (auto, metis Suc_lessI)
  next
    case False
    then show ?thesis by (subst (1 2 3) iter_next.simps) auto
  qed
qed

lemma entries_in_skip: "(\<forall>j. i \<le> j \<longrightarrow> j < n \<longrightarrow> is_erased h j) \<Longrightarrow> i \<le> n \<Longrightarrow> n \<le> m \<Longrightarrow> entries_in h [i..<m] = entries_in h [n..<m]"
proof (induction "n - i" arbitrary: i)
  case (Suc d)
  have "d = n - Suc i" "Suc i \<le> n" "\<forall>j. Suc i \<le> j \<longrightarrow> j < n \<longrightarrow> is_erased h j" "is_erased h i" using Suc(2-) by auto
  moreover have "[i..<m] = i # [Suc i..<m]" using Suc(2,5) by (intro upt_conv_Cons) simp
  ultimately show ?case using Suc(1) [of "Suc i"] Suc(5) by (simp add: entries_in_def)
qed simp

lemma iter_next_limit:
  assumes "hv_ok c h" "i < limit h"
  shows "iter_next h i \<le> limit h"
proof (rule ccontr)
  assume "\<not> iter_next h i \<le> limit h"
  then have "is_erased h (limit h)" using iter_next_spec [of h i] assms(2) by simp
  then show False using hv_okD(8) [OF assms(1)] by blast
qed

lemma hv_range_entries:
  assumes "hv_ok c h" "i \<le> limit h" "i < limit h \<longrightarrow> \<not> is_erased h i"
  shows "hv_range h i = entries_in h [i..<limit h]"
  using assms
proof (induction h i rule: hv_range.induct)
  case (1 h i)
  show ?case
  proof (cases "i < limit h")
    case True
    have n: "iter_next h i \<le> limit h" by (rule iter_next_limit [OF 1(2) True])
    have "entries_in h [Suc i..<limit h] = entries_in h [iter_next h i..<limit h]"
      using iter_next_spec [of h i] n by (intro entries_in_skip) auto
    moreover have "hv_range h (iter_next h i) = entries_in h [iter_next h i..<limit h]"
      using 1(1) True 1(2) n iter_next_spec [of h i] by (simp add: hv_end_def)
    ultimately show ?thesis using True 1(4) by (subst hv_range.simps) (simp add: hv_end_def entries_in_def upt_conv_Cons)
  next
    case False
    then show ?thesis using 1 by (subst hv_range.simps) (simp add: hv_end_def entries_in_def)
  qed
qed

lemma hv_begin_spec:
  assumes "hv_ok c h"
  shows "hv_begin h \<le> limit h" "\<not> is_erased h (hv_begin h)" "\<And>j. j < hv_begin h \<Longrightarrow> is_erased h j"
proof -
  have f: "first_bit (\<lambda>i. \<not> is_erased h i) 0 (int (hv_begin h))" unfolding hv_begin_def by (rule bv_ffz_first)
  then show e: "\<not> is_erased h (hv_begin h)" "\<And>j. j < hv_begin h \<Longrightarrow> is_erased h j" by (auto simp: first_bit_def)
  show "hv_begin h \<le> limit h" using e(2) [of "limit h"] hv_okD(8) [OF assms] by (meson le_less_linear less_irrefl)
qed

lemma hv_range_begin: "hv_ok c h \<Longrightarrow> hv_range h (hv_begin h) = entries h"
proof -
  assume ok: "hv_ok c h"
  note b = hv_begin_spec [OF ok]
  have "hv_range h (hv_begin h) = entries_in h [hv_begin h..<limit h]" using b by (intro hv_range_entries [OF ok]) auto
  also have "\<dots> = entries_in h [0..<limit h]" using b by (intro entries_in_skip [symmetric]) auto
  finally show ?thesis by (simp add: entries_in_def entries_def)
qed

lemma equal_from_range:
  assumes "hv_ok c h" "i \<le> limit h" "i < limit h \<longrightarrow> \<not> is_erased h i" "length es \<le> length (hv_range h i)"
  shows "equal_from h i es \<longleftrightarrow> es = take (length es) (hv_range h i)"
  using assms
proof (induction es arbitrary: i)
  case (Cons e es)
  then have i: "i < limit h" by (auto simp: hv_range.simps [of h i] hv_end_def split: if_splits)
  then have r: "hv_range h i = hdata h ! i # hv_range h (iter_next h i)" by (subst hv_range.simps) (simp add: hv_end_def)
  then have "equal_from h (iter_next h i) es \<longleftrightarrow> es = take (length es) (hv_range h (iter_next h i))"
    using Cons i iter_next_limit [OF Cons(2) i] iter_next_spec [of h i] by simp
  then show ?case by (simp add: r)
qed simp

lemma hv_equal_spec:
  assumes "hv_ok c h" "hv_ok c a"
  shows "hv_equal h a \<longleftrightarrow> entries h = entries a"
proof (cases "inuse h = inuse a")
  case True
  note b = hv_begin_spec [OF assms(1)]
  have "length (entries h) = length (entries a)" using True assms by (simp add: hv_okD(4))
  then show ?thesis
    using True equal_from_range [OF assms(1), of "hv_begin h" "entries a"] b
    by (auto simp: hv_equal_def hv_range_begin [OF assms(1)] hv_range_begin [OF assms(2)])
next
  case False
  then show ?thesis using assms by (auto simp: hv_equal_def hv_okD(4))
qed

end
