(* ===== verification/HashVec_Props.thy ===== *)
theory HashVec_Props
  imports HashVec_Refine
begin

text \<open>
  The containers against lists: a sequence of operations on an \<open>hvec_map\<close>, up to the number that its indices allow,
  leaves it with the entries that the same operations leave in a list, in the order of insertion.  The one exception is what \<open>erase\<close> does
  with an absent key in a table without a free slot.
\<close>

section \<open>Overwriting a value\<close>

lemma overwrite_ok:
  assumes "hv_ok c h" "live h (limit h) i" "getkey c e = ekey c h i"
    and h': "h' = h\<lparr>hdata := (hdata h)[i := e]\<rparr>"
  shows "hv_ok c h'" "entries h' = entries_in h [0..<i] @ e # entries_in h [Suc i..<limit h]"
proof -
  note D = hv_okD [OF assms(1)]
  have i: "i < limit h" using assms(2) by (simp add: live_def)
  have key: "ekey c h' j = ekey c h j" for j using assms(3) i by (cases "j = i") (auto simp: h')
  have live: "live h' n j = live h n j" for n j by (simp add: live_def h')
  have "htable_ok c h' (limit h)"
    using D(1) unfolding htable_ok_def sized_def slots_ok_def hkeys_ok_def live placed_def key by (simp add: h' probe_def gethash_def)
  moreover have "[0..<limit h] = [0..<i] @ i # [Suc i..<limit h]"
    using i by (metis less_imp_le_nat upt_add_eq_append upt_conv_Cons le_add_diff_inverse zero_le add_0)
  then show e: "entries h' = entries_in h [0..<i] @ e # entries_in h [Suc i..<limit h]"
    using assms(2) i by (auto simp: entries_def entries_in_def h' live_def)
  moreover have "length (entries h') = length (entries h)" by (simp add: e entries_split [OF assms(2)])
  ultimately show "hv_ok c h'" using D by (simp add: hv_ok_def h' coll_ok_def)
qed

text \<open>The list with the entry of the key \<open>k\<close> replaced.\<close>

definition replace_entry :: "('k, 'e) hv_class \<Rightarrow> 'k \<Rightarrow> ('e \<Rightarrow> 'e) \<Rightarrow> 'e list \<Rightarrow> 'e list" where
  "replace_entry c k f es = map (\<lambda>e. if cmpfn c k (getkey c e) then f e else e) es"

lemma replace_entry_split:
  assumes "hash_ok c" "keys_differ c (xs @ e # ys)" "cmpfn c k (getkey c e)"
  shows "replace_entry c k f (xs @ e # ys) = xs @ f e # ys"
proof -
  have "\<not> cmpfn c k (getkey c x)" if "x \<in> set (xs @ ys)" for x
  proof
    assume "cmpfn c k (getkey c x)"
    then have "cmpfn c (getkey c x) (getkey c e)" "cmpfn c (getkey c e) (getkey c x)"
      using assms hash_ok_sym hash_ok_trans by metis+
    then show False using assms(2) that by (auto simp: keys_differ_def sorted_wrt_append)
  qed
  then show ?thesis using assms(3) by (auto simp: replace_entry_def intro!: map_idI)
qed

lemma overwrite_entry:
  assumes "hash_ok c" "hv_ok c h" "live h (limit h) i" "cmpfn c k (ekey c h i)" "getkey c (f (hdata h ! i)) = ekey c h i"
  shows "hv_ok c (h\<lparr>hdata := (hdata h)[i := f (hdata h ! i)]\<rparr>)"
    "entries (h\<lparr>hdata := (hdata h)[i := f (hdata h ! i)]\<rparr>) = replace_entry c k f (entries h)"
  using overwrite_ok [OF assms(2,3,5) refl] hv_okD(3) [OF assms(2)]
  by (simp_all add: entries_split [OF assms(3)] replace_entry_split [OF assms(1) _ assms(4)])

section \<open>Operations on maps\<close>

lemma map_hash_ok: "equivp eql \<Longrightarrow> (\<And>x y. eql x y \<Longrightarrow> hf x = hf y) \<Longrightarrow> hash_ok (hvec_map hf eql k0 v0)"
  by (simp add: hash_ok_def hvec_map_def)

lemma hvec_map_sel [simp]:
  "getkey (hvec_map hf eql k0 v0) = fst" "cmpfn (hvec_map hf eql k0 v0) = eql" "blank (hvec_map hf eql k0 v0) = (k0, v0)"
  by (simp_all add: hvec_map_def)

lemma map_index_present:
  assumes "hash_ok c" "hv_ok c h" "has_key c (entries h) k" "getkey c = fst"
  shows "\<exists>h' i. map_index c h k = Ok [] (h', i) \<and> hv_ok c h' \<and> entries h' = entries h \<and> limit h' \<le> limit h \<and>
    live h' (limit h') i \<and> cmpfn c k (ekey c h' i)"
  using hv_insert_present [OF assms(1-3)] by (auto simp: map_index_def live_def)

lemma map_index_absent:
  assumes "hash_ok c" "hv_ok c h" "\<not> has_key c (entries h) k" "limit h < max_entries" "getkey c = fst"
  shows "\<exists>h' i. map_index c h k = Ok [] (h', i) \<and> hv_ok c h' \<and> entries h' = entries h @ [(k, snd (blank c))] \<and>
    limit h' \<le> Suc (limit h) \<and> live h' (limit h') i \<and> hdata h' ! i = (k, snd (blank c))"
proof -
  obtain h' where h': "hv_insert c h k = Ok [] (h', None)" "hv_ok c (push_entry h' (k, snd (blank c)))"
    "entries (push_entry h' (k, snd (blank c))) = entries h @ [(k, snd (blank c))]" "limit h' \<le> limit h" "\<not> is_erased h' (limit h')"
    using hv_insert_absent [OF assms(1-4)] assms(5) by (metis fst_conv)
  then show ?thesis by (auto simp: map_index_def push_entry_def live_def)
qed

text \<open>The list that an assignment leaves.\<close>

definition list_assign :: "('k, 'k \<times> 'v) hv_class \<Rightarrow> 'k \<Rightarrow> 'v \<Rightarrow> ('k \<times> 'v) list \<Rightarrow> ('k \<times> 'v) list" where
  "list_assign c k v es = (if has_key c es k then replace_entry c k (\<lambda>e. (fst e, v)) es else es @ [(k, v)])"

lemma replace_last:
  "\<not> has_key c es k \<Longrightarrow> cmpfn c k (getkey c e) \<Longrightarrow> replace_entry c k f (es @ [e]) = es @ [f e]"
  by (auto simp: has_key_def replace_entry_def intro!: map_idI)

lemma map_assign_ok:
  assumes ok: "hash_ok c" "hv_ok c h" and c: "getkey c = fst" and l: "limit h < max_entries"
  shows "\<exists>h'. map_assign c h k v = Ok [] h' \<and> hv_ok c h' \<and> entries h' = list_assign c k v (entries h) \<and> limit h' \<le> Suc (limit h)"
proof (cases "has_key c (entries h) k")
  case True
  then obtain h' i where "map_index c h k = Ok [] (h', i)" "hv_ok c h'" "entries h' = entries h" "limit h' \<le> limit h"
    "live h' (limit h') i" "cmpfn c k (ekey c h' i)" using map_index_present [OF ok _ c] by blast
  then show ?thesis using True overwrite_entry [OF ok(1), of h' i k "\<lambda>e. (fst e, v)"] c
    by (simp add: map_assign_def list_assign_def)
next
  case False
  then obtain h' i where h': "map_index c h k = Ok [] (h', i)" "hv_ok c h'" "entries h' = entries h @ [(k, snd (blank c))]"
    "limit h' \<le> Suc (limit h)" "live h' (limit h') i" "hdata h' ! i = (k, snd (blank c))"
    using map_index_absent [OF ok _ l c] by blast
  have "cmpfn c k (ekey c h' i)" using h' c ok(1) by simp
  then show ?thesis using h' False overwrite_entry [OF ok(1) h'(2,5), of k "\<lambda>e. (fst e, v)"] c ok(1)
      replace_last [OF False, of "(k, snd (blank c))" "\<lambda>e. (fst e, v)"]
    by (simp add: map_assign_def list_assign_def)
qed

lemma map_emplace_copy_ok:
  assumes ok: "hash_ok c" "hv_ok c h" and c: "getkey c = fst" and l: "limit h < max_entries"
  shows "\<exists>h' i new. map_emplace_copy c h k v = Ok [] (h', i, new) \<and> hv_ok c h' \<and>
    entries h' = list_assign c k v (entries h) \<and> limit h' \<le> Suc (limit h) \<and> new = (\<not> has_key c (entries h) k)"
proof (cases "has_key c (entries h) k")
  case True
  then obtain h' i where "hv_insert c h k = Ok [] (h', Some i)" "hv_ok c h'" "entries h' = entries h" "limit h' \<le> limit h"
    "live h' (limit h') i" "cmpfn c k (ekey c h' i)" using hv_insert_present [OF ok] by blast
  then show ?thesis using True overwrite_entry [OF ok(1), of h' i k "\<lambda>e. (fst e, v)"] c
    by (auto simp: map_emplace_copy_def list_assign_def live_def)
next
  case False
  then obtain h' where "hv_insert c h k = Ok [] (h', None)" "hv_ok c (push_entry h' (k, v))"
    "entries (push_entry h' (k, v)) = entries h @ [(k, v)]" "limit h' \<le> limit h" "\<not> is_erased h' (limit h')"
    using hv_insert_absent [OF ok False l] c by (metis fst_conv)
  then show ?thesis using False by (auto simp: map_emplace_copy_def list_assign_def push_entry_def)
qed

text \<open>The other \<open>emplace\<close> is \<open>insert\<close>, as is \<open>insert\<close> of a set.\<close>

lemma map_emplace_move_insert: "getkey c = fst \<Longrightarrow> map_emplace_move c h k v = map_insert c h (k, v)"
  by (simp add: map_emplace_move_def map_insert_def)

lemma set_insert_map: "getkey c = (\<lambda>k. k) \<Longrightarrow> set_insert c h v = map_insert c h v"
  by (simp add: set_insert_def map_insert_def)

lemma set_erase_map: "set_erase c h k = map_erase c h k"
  by (simp add: set_erase_def map_erase_def)

lemma set_erase_at_map: "set_erase_at c h i = map_erase_at c h i"
  by (simp add: set_erase_at_def map_erase_at_def)

section \<open>Copies\<close>

lemma map_insert_range_ok:
  assumes "hash_ok c" "hv_ok c h" "keys_differ c (entries h @ vs)" "limit h + length vs \<le> max_entries"
  shows "\<exists>h'. map_insert_range c h vs = Ok [] h' \<and> hv_ok c h' \<and> entries h' = entries h @ vs"
  using assms(2-)
proof (induction vs arbitrary: h)
  case (Cons v vs)
  have "\<not> cmpfn c (getkey c e) (getkey c v)" if "e \<in> set (entries h)" for e
    using Cons(3) that by (auto simp: keys_differ_def sorted_wrt_append)
  then have a: "\<not> has_key c (entries h) (getkey c v)" using hash_ok_sym [OF assms(1)] by (auto simp: has_key_def)
  obtain h' i where h': "map_insert c h v = Ok [] (h', i, True)" "hv_ok c h'" "entries h' = entries h @ [v]" "limit h' \<le> Suc (limit h)"
    using map_insert_absent [OF assms(1) Cons(2) a] Cons(4) by auto
  then show ?case using Cons(1) [of h'] Cons(3,4) by auto
qed simp

lemma map_copy_ok:
  assumes "hash_ok c" "hv_ok c that"
  shows "\<exists>h'. map_copy c h that = Ok [] h' \<and> hv_ok c h' \<and> hv_equal h' that"
proof -
  have "length (entries that) \<le> max_entries" using length_entries [of that] hv_okD(10) [OF assms(2)] by linarith
  then obtain h' where "map_insert_range c (map_clear h) (entries that) = Ok [] h'" "hv_ok c h'" "entries h' = entries that"
    using map_insert_range_ok [OF assms(1) map_clear_ok(1), of h "entries that"] hv_okD(3) [OF assms(2)]
    by (auto simp: map_clear_ok)
  then show ?thesis using assms(2) by (simp add: map_copy_def hv_range_begin hv_equal_spec)
qed

lemma map_of_list_ok:
  assumes "hash_ok c" "keys_differ c vs" "length vs \<le> max_entries"
  shows "\<exists>h'. map_of_list c vs = Ok [] h' \<and> hv_ok c h' \<and> entries h' = vs"
proof -
  obtain h where "hash_vector_base (length vs) = ret h" "hv_ok c h" "entries h = []" "limit h = 0"
    using hash_vector_base_ok [of "length vs" c] assms(3) by auto
  then show ?thesis using map_insert_range_ok [OF assms(1), of h vs] assms(2,3) by (auto simp: map_of_list_def)
qed

section \<open>Look-up in a map\<close>

definition lookup :: "('k, 'k \<times> 'v) hv_class \<Rightarrow> ('k \<times> 'v) list \<Rightarrow> 'k \<Rightarrow> 'v option" where
  "lookup c es k = map_option snd (List.find (\<lambda>e. cmpfn c k (fst e)) es)"

lemma lookup_none: "getkey c = fst \<Longrightarrow> lookup c es k = None \<longleftrightarrow> \<not> has_key c es k"
  by (auto simp: lookup_def has_key_def find_None_iff)

lemma lookup_split:
  assumes "hash_ok c" "getkey c = fst" "keys_differ c (xs @ e # ys)" "cmpfn c k (fst e)"
  shows "lookup c (xs @ e # ys) k = Some (snd e)"
proof -
  have "\<not> cmpfn c k (fst x)" if "x \<in> set xs" for x
  proof
    assume "cmpfn c k (fst x)"
    then have "cmpfn c (fst x) (fst e)" using assms hash_ok_sym hash_ok_trans by metis
    then show False using assms(2,3) that by (auto simp: keys_differ_def sorted_wrt_append)
  qed
  then have "List.find (\<lambda>e. cmpfn c k (fst e)) xs = None" by (auto simp: find_None_iff)
  then show ?thesis using assms(4) by (induction xs) (auto simp: lookup_def split: if_splits)
qed

lemma map_at_lookup:
  assumes "hash_ok c" "hv_ok c h" "getkey c = fst"
  shows "map_at c h k = lookup c (entries h) k"
proof (cases "fst (hv_find c h k)")
  case 0
  then show ?thesis using find_spec(1) [OF assms(1,2), of k] lookup_none [OF assms(3), of "entries h" k]
    by (simp add: map_at_def)
next
  case (Suc i)
  then have i: "live h (limit h) i" "cmpfn c k (ekey c h i)" using find_spec(2) [OF assms(1,2)] by auto
  then show ?thesis using Suc assms(3) lookup_split [OF assms(1,3)] hv_okD(3) [OF assms(2)]
    by (simp add: map_at_def live_def entries_split [OF i(1)])
qed

lemma map_count_has_key:
  "hash_ok c \<Longrightarrow> hv_ok c h \<Longrightarrow> map_count c h k = (if has_key c (entries h) k then 1 else 0)"
  using find_spec(1) [of c h k] by (simp add: map_count_def)

section \<open>Histories\<close>

text \<open>\<open>EmplaceMove\<close> is the \<open>emplace\<close> of a key that is moved, \<open>EraseFound\<close> the erasure of the iterator that \<open>find\<close>
  returns, unless that is the end.\<close>

datatype ('k, 'v) map_op =
    Insert 'k 'v
  | Assign 'k 'v
  | Emplace 'k 'v
  | EmplaceMove 'k 'v
  | Erase 'k
  | EraseFound 'k
  | Clear

fun apply_op :: "('k, 'k \<times> 'v) hv_class \<Rightarrow> ('k, 'v) map_op \<Rightarrow> ('k \<times> 'v) hvec \<Rightarrow> ('k \<times> 'v) hvec comp" where
  "apply_op c (Insert k v) h = bind_comp (map_insert c h (k, v)) (\<lambda>(h, _). ret h)"
| "apply_op c (Assign k v) h = map_assign c h k v"
| "apply_op c (Emplace k v) h = bind_comp (map_emplace_copy c h k v) (\<lambda>(h, _). ret h)"
| "apply_op c (EmplaceMove k v) h = bind_comp (map_emplace_move c h k v) (\<lambda>(h, _). ret h)"
| "apply_op c (Erase k) h = ret (fst (map_erase c h k))"
| "apply_op c (EraseFound k) h =
     ret (let i = map_find c h k in if i = hv_end h then h else fst (map_erase_at c h i))"
| "apply_op c Clear h = ret (map_clear h)"

fun apply_ops :: "('k, 'k \<times> 'v) hv_class \<Rightarrow> ('k, 'v) map_op list \<Rightarrow> ('k \<times> 'v) hvec \<Rightarrow> ('k \<times> 'v) hvec comp" where
  "apply_ops c [] h = ret h"
| "apply_ops c (p # ps) h = bind_comp (apply_op c p h) (\<lambda>h. apply_ops c ps h)"

text \<open>The same on a list.\<close>

fun list_op :: "('k, 'k \<times> 'v) hv_class \<Rightarrow> ('k, 'v) map_op \<Rightarrow> ('k \<times> 'v) list \<Rightarrow> ('k \<times> 'v) list" where
  "list_op c (Insert k v) es = (if has_key c es k then es else es @ [(k, v)])"
| "list_op c (Assign k v) es = list_assign c k v es"
| "list_op c (Emplace k v) es = list_assign c k v es"
| "list_op c (EmplaceMove k v) es = (if has_key c es k then es else es @ [(k, v)])"
| "list_op c (Erase k) es = filter (\<lambda>e. \<not> cmpfn c k (fst e)) es"
| "list_op c (EraseFound k) es = filter (\<lambda>e. \<not> cmpfn c k (fst e)) es"
| "list_op c Clear es = []"

text \<open>A key is only erased when it is present or the table has a free slot.\<close>

fun erases_safely :: "('k, 'k \<times> 'v) hv_class \<Rightarrow> ('k, 'v) map_op list \<Rightarrow> ('k \<times> 'v) hvec \<Rightarrow> bool" where
  "erases_safely c [] h \<longleftrightarrow> True"
| "erases_safely c (p # ps) h \<longleftrightarrow>
     (case p of Erase k \<Rightarrow> has_key c (entries h) k \<or> limit h < hashsize h | _ \<Rightarrow> True) \<and>
     (case apply_op c p h of Ok ds h' \<Rightarrow> erases_safely c ps h' | Bug m \<Rightarrow> True)"

lemma filter_absent: "getkey c = fst \<Longrightarrow> \<not> has_key c es k \<Longrightarrow> filter (\<lambda>e. \<not> cmpfn c k (fst e)) es = es"
  by (auto simp: has_key_def filter_id_conv)

lemma erase_found_ok:
  assumes ok: "hash_ok c" "hv_ok c h" and c: "getkey c = fst"
  shows "\<exists>h'. apply_op c (EraseFound k) h = Ok [] h' \<and> hv_ok c h' \<and>
    entries h' = filter (\<lambda>e. \<not> cmpfn c k (fst e)) (entries h) \<and> limit h' \<le> limit h"
proof (cases "fst (hv_find c h k)")
  case 0
  then show ?thesis
    using find_spec(1) [OF ok, of k] filter_absent [OF c] ok by (simp add: map_find_def hv_end_def)
next
  case (Suc i)
  then have i: "live h (limit h) i" "cmpfn c k (ekey c h i)" using find_spec(2) [OF ok] by auto
  have "filter (\<lambda>e. \<not> cmpfn c k (fst e)) (entries h) = entries_in h [0..<i] @ entries_in h [Suc i..<limit h]"
    using filter_key [OF ok(1) _ i(2)] hv_okD(3) [OF ok(2)] entries_split [OF i(1)] c by simp
  moreover have "map_find c h k = i" "i \<noteq> hv_end h" using Suc i(1) by (auto simp: map_find_def hv_end_def live_def)
  moreover have "limit (fst (map_erase_at c h i)) = limit h" by (simp add: map_erase_at_def Let_def)
  ultimately show ?thesis using map_erase_at_ok [OF ok(2) i(1)] by simp
qed

lemma apply_op_ok:
  assumes ok: "hash_ok c" "hv_ok c h" and c: "getkey c = fst" and l: "limit h < max_entries"
    and s: "erases_safely c [p] h"
  shows "\<exists>h'. apply_op c p h = Ok [] h' \<and> hv_ok c h' \<and> entries h' = list_op c p (entries h) \<and> limit h' \<le> Suc (limit h)"
proof (cases p)
  case (Insert k v)
  show ?thesis
  proof (cases "has_key c (entries h) k")
    case True
    then show ?thesis using map_insert_present [OF ok, of "(k, v)"] c Insert by auto
  next
    case False
    then show ?thesis using map_insert_absent [OF ok _ l, of "(k, v)"] c Insert by auto
  qed
next
  case (Assign k v)
  then show ?thesis using map_assign_ok [OF ok c l] by simp
next
  case (Emplace k v)
  then show ?thesis using map_emplace_copy_ok [OF ok c l, of k v] by auto
next
  case (EmplaceMove k v)
  show ?thesis
  proof (cases "has_key c (entries h) k")
    case True
    then show ?thesis
      using map_insert_present [OF ok, of "(k, v)"] c EmplaceMove by (auto simp: map_emplace_move_insert)
  next
    case False
    then show ?thesis
      using map_insert_absent [OF ok _ l, of "(k, v)"] c EmplaceMove by (auto simp: map_emplace_move_insert)
  qed
next
  case (EraseFound k)
  then show ?thesis using erase_found_ok [OF ok c, of k] by auto
next
  case (Erase k)
  show ?thesis
  proof (cases "has_key c (entries h) k")
    case True
    then show ?thesis using map_erase_present [OF ok True] c Erase by auto
  next
    case False
    then have "filter (\<lambda>e. \<not> cmpfn c k (fst e)) (entries h) = entries h" by (rule filter_absent [OF c])
    then show ?thesis using map_erase_absent [OF ok False] s Erase False ok by simp
  qed
next
  case Clear
  then show ?thesis by (simp add: map_clear_ok)
qed

lemma apply_ops_ok:
  assumes "hash_ok c" "hv_ok c h" "getkey c = fst" "limit h + length ps \<le> max_entries" "erases_safely c ps h"
  shows "\<exists>h'. apply_ops c ps h = Ok [] h' \<and> hv_ok c h' \<and> entries h' = fold (list_op c) ps (entries h)"
  using assms(2,4,5)
proof (induction ps arbitrary: h)
  case (Cons p ps)
  have "erases_safely c [p] h" using Cons(4) by (auto split: comp.splits)
  then obtain h' where h': "apply_op c p h = Ok [] h'" "hv_ok c h'" "entries h' = list_op c p (entries h)" "limit h' \<le> Suc (limit h)"
    using apply_op_ok [OF assms(1) Cons(2) assms(3)] Cons(3) by fastforce
  then obtain g where "apply_ops c ps h' = Ok [] g" "hv_ok c g" "entries g = fold (list_op c) ps (entries h')"
    using Cons(1) [of h'] Cons(3,4) by auto
  then show ?case using h' by simp
qed simp

section \<open>Properties\<close>

text \<open>C37: An \<open>hvec_map\<close> that is made for at most 1073741823 entries and used by at most 214748364 operations of
  these kinds - \<open>insert\<close>, an assignment through \<open>operator[]\<close>, \<open>emplace\<close> of a key that is copied or moved,
  \<open>erase\<close> of a key or of the iterator that \<open>find\<close> returns, \<open>clear\<close> - behaves like the list on which the
  same operations are done: iteration gives the list, in the order of insertion, \<open>size\<close> its length and \<open>at\<close>
  the values of its keys.  The hash may be any that the comparison respects.  \<open>erase\<close> of a key is only used
  while the key is present or a slot is free.  With these bounds the hash array has at most \<open>INT_MAX\<close> slots.\<close>

theorem hvec_map_history:
  assumes "equivp eql" "\<forall>x y. eql x y \<longrightarrow> hf x = hf y" "c = hvec_map hf eql k0 v0"
    and "capacity \<le> 1073741823" "length ops \<le> max_entries"
    and "hash_vector_base capacity = ret h0" "erases_safely c ops h0"
  shows "\<exists>h. apply_ops c ops h0 = ret h \<and> hv_range h (hv_begin h) = fold (list_op c) ops [] \<and>
    hv_size h = length (fold (list_op c) ops []) \<and> (\<forall>k. map_at c h k = lookup c (fold (list_op c) ops []) k)"
proof -
  have c: "hash_ok c" "getkey c = fst" using assms(2,3) map_hash_ok [OF assms(1), of hf k0 v0] by auto
  have h0: "hv_ok c h0" "entries h0 = []" "limit h0 = 0" using hash_vector_base_ok [OF assms(4), of c] assms(6) by auto
  obtain h where h: "apply_ops c ops h0 = ret h" "hv_ok c h" "entries h = fold (list_op c) ops []"
    using apply_ops_ok [OF c(1) h0(1) c(2) _ assms(7)] h0 assms(5) by auto
  show ?thesis using h hv_range_begin [OF h(2)] hv_okD(4) [OF h(2)] map_at_lookup [OF c(1) h(2) c(2)]
    by (intro exI [of _ h]) (simp add: hv_size_def)
qed

definition example_class :: "(nat, nat \<times> nat) hv_class" where
  "example_class = hvec_map (\<lambda>k. k) (=) 0 0"

definition example_table :: "(nat \<times> nat) hvec" where
  "example_table = \<lparr>info = 0, htab = replicate 15 0, log_hashsize = 4, collisions = 0, inuse = 0, erased = bv_empty, hdata = []\<rparr>"

theorem hvec_map_history_witness:
  "\<exists>h. apply_ops example_class [Insert 3 30, Assign 18 1, Erase 3, Emplace 18 7, Insert 5 2, EmplaceMove 9 4, EraseFound 9] example_table = ret h \<and>
     hv_range h (hv_begin h) = [(18, 7), (5, 2)] \<and> hv_size h = 2 \<and> map_at example_class h 18 = Some 7"
proof -
  let ?ops = "[Insert 3 30, Assign 18 1, Erase 3, Emplace 18 7, Insert 5 (2::nat), EmplaceMove 9 4, EraseFound 9]"
  have "hash_vector_base 0 = ret example_table" by code_simp
  moreover have "erases_safely example_class ?ops example_table" by code_simp
  moreover have "fold (list_op example_class) ?ops [] = [(18, 7), (5, 2)]"
    "lookup example_class [(18, 7), (5, 2)] 18 = Some (7::nat)" by code_simp+
  ultimately show ?thesis
    using hvec_map_history [OF identity_equivp _ example_class_def, of 0 ?ops example_table] by auto
qed

text \<open>C38: The erasure of an absent key leaves a table that has a free slot unchanged and answers 0.  In a table
  without a free slot it answers 1 and erases the entry whose index is in the last slot of the search, the
  one before the slot where the search began: the live entries are those of the table without that entry, and
  unless the entry was erased before the size decreases and its key is no longer found.\<close>

theorem erase_of_absent_key:
  assumes "hash_ok c" "hv_ok c h" "map_count c h k = 0"
  shows "if limit h < hashsize h then map_erase c h k = (h, 0)
    else \<exists>i<limit h. gethash h ((hashfn c k + (hashsize h - 1)) mod hashsize h) = Suc i \<and>
      (case map_erase c h k of (h', n) \<Rightarrow>
         n = 1 \<and> entries h' = entries_in h [0..<i] @ entries_in h [Suc i..<limit h] \<and> hv_size h' = length (entries h') \<and>
         (\<not> is_erased h i \<longrightarrow> hv_size h = Suc (hv_size h') \<and> map_count c h' (ekey c h i) = 0))"
proof -
  have a: "\<not> has_key c (entries h) k" using map_count_has_key [OF assms(1,2), of k] assms(3) by (auto split: if_splits)
  show ?thesis
  proof (cases "limit h < hashsize h")
    case True
    then show ?thesis using map_erase_absent [OF assms(1,2) a] by simp
  next
    case False
    then have full: "limit h = hashsize h" using hv_okD(7) [OF assms(2)] by simp
    obtain i h' where i: "i < limit h" "gethash h (probe c h k (hashsize h - 1)) = Suc i" "map_erase c h k = (h', 1)"
      "entries h' = entries_in h [0..<i] @ entries_in h [Suc i..<limit h]" "inuse h' = length (entries h')"
      "\<not> is_erased h i \<longrightarrow> hv_ok c h'"
      by (rule map_erase_full [OF assms(1,2) a full]) (rule that, (assumption | rule impI)+)
    have "hv_size h = Suc (hv_size h') \<and> map_count c h' (ekey c h i) = 0" if e: "\<not> is_erased h i"
    proof
      have l: "live h (limit h) i" using i(1) e by (simp add: live_def)
      note split = entries_split [OF l]
      show "hv_size h = Suc (hv_size h')" using hv_okD(4) [OF assms(2)] i(4,5) split by (simp add: hv_size_def)
      have "entries h' = filter (\<lambda>e. \<not> cmpfn c (ekey c h i) (getkey c e)) (entries h)"
        using filter_key [OF assms(1)] hv_okD(3) [OF assms(2)] assms(1) i(4) by (simp add: split)
      then have "\<not> has_key c (entries h') (ekey c h i)" by (simp add: has_key_def)
      then show "map_count c h' (ekey c h i) = 0" using map_count_has_key [OF assms(1), of h'] i(6) e by simp
    qed
    then show ?thesis using i False by (auto simp: probe_def hv_size_def)
  qed
qed

text \<open>After the numbers 0 to 14 were inserted into an empty \<open>hvec_set\<close> of unsigned numbers, whose hash is the
  identity, erasing 20 removes 4.\<close>

definition full_set_class :: "(nat, nat) hv_class" where
  "full_set_class = hvec_set (\<lambda>k. k) (=) 0"

definition full_set :: "nat hvec comp" where
  "full_set = bind_comp (hash_vector_base 0) (\<lambda>h. map_insert_range full_set_class h [0..<15])"

lemma full_set_ok: "\<exists>h. full_set = Ok [] h \<and> hv_ok full_set_class h"
proof -
  have c: "hash_ok full_set_class" "getkey full_set_class = (\<lambda>k. k)" "cmpfn full_set_class = (=)"
    using identity_equivp by (simp_all add: hash_ok_def full_set_class_def hvec_set_def)
  obtain h0 where "hash_vector_base 0 = ret h0" "hv_ok full_set_class h0" "entries h0 = []" "limit h0 = 0"
    using hash_vector_base_ok [of 0 full_set_class] by auto
  moreover have "keys_differ full_set_class [0..<15]"
    unfolding keys_differ_def c by (rule sorted_wrt_mono_rel [OF _ sorted_wrt_upt]) auto
  ultimately show ?thesis using map_insert_range_ok [OF c(1), of h0 "[0..<15]"] by (auto simp: full_set_def)
qed

theorem erase_of_absent_key_witness:
  "\<exists>h h'. full_set = Ok [] h \<and> map_count full_set_class h 20 = 0 \<and> set_erase full_set_class h 20 = (h', 1) \<and>
     hv_size h = 15 \<and> hv_size h' = 14 \<and> map_count full_set_class h' 4 = 0"
proof -
  obtain h where h: "full_set = Ok [] h" "hv_ok full_set_class h" using full_set_ok by blast
  have "case full_set of Ok ds h \<Rightarrow> limit h = 15 \<and> hashsize h = 15 \<and> map_count full_set_class h 20 = 0 \<and>
      gethash h 4 = Suc 4 \<and> \<not> is_erased h 4 \<and> ekey full_set_class h 4 = 4 \<and> hv_size h = 15 | Bug m \<Rightarrow> False"
    by code_simp
  then have v: "limit h = 15" "hashsize h = 15" "map_count full_set_class h 20 = 0" "gethash h 4 = Suc 4" "\<not> is_erased h 4"
    "ekey full_set_class h 4 = 4" "hv_size h = 15" by (simp_all add: h(1))
  have "hash_ok full_set_class" using identity_equivp by (simp add: hash_ok_def full_set_class_def hvec_set_def)
  moreover have "hashfn full_set_class 20 = 20" by (simp add: full_set_class_def hvec_set_def)
  ultimately show ?thesis using erase_of_absent_key [OF _ h(2) v(3)] h(1) v
    by (cases "map_erase full_set_class h 20") (auto simp: set_erase_map)
qed

text \<open>Two containers compare as equal when they have equal entries in the same order.\<close>

theorem equality_is_ordered:
  "hv_ok c h \<Longrightarrow> hv_ok c a \<Longrightarrow> hv_equal h a \<longleftrightarrow> hv_range h (hv_begin h) = hv_range a (hv_begin a)"
  by (simp add: hv_equal_spec hv_range_begin)

end
