(* ===== verification/PassManager.thy ===== *)
theory PassManager
  imports P4Prelude
begin

text \<open>
  Pass managers (ir/pass_manager.{h,cpp}).  A manager runs its passes one after the other on the program;
  a pass that throws a backtrack trigger sends it back to an earlier pass that can handle it, with the
  program as it was before that pass.  The variants run their passes repeatedly, until a condition holds,
  or only if one does.

  A pass is what it does to the program and to the state of the compiler, which has the errors reported so
  far.  A program is compared with the one before by address in the code; visitors give back the node they
  were given unless it changes, so the model compares nodes.  \<open>None\<close> is a run that does not return.
  Debug hooks, logging and the use of memory are left out, and so is \<open>early_exit\<close>, by which a pass ends
  the manager that runs it.
\<close>

section \<open>Passes\<close>

text \<open>A pass returns a node, which may be null, throws a trigger or stops at a failed check.\<close>

datatype ('n, 't) outcome = Returned "'n option" | Triggered 't | Stopped string

text \<open>\<open>handler\<close> is present for a \<open>Backtrack\<close>: whether it can handle a trigger.\<close>

record ('n, 's, 't) pass =
  pass_name :: string
  run :: "'n \<Rightarrow> 's \<Rightarrow> (('n, 't) outcome \<times> 's) option"
  handler :: "('t \<Rightarrow> 's \<Rightarrow> bool \<times> 's) option"
  never :: bool

text \<open>\<open>VisitFunctor\<close>, for a lambda that is used as a pass.\<close>

definition visit_functor :: "('n \<Rightarrow> 's \<Rightarrow> 'n option \<times> 's) \<Rightarrow> ('n, 's, 't) pass" where
  "visit_functor f =
     \<lparr>pass_name = ''VisitFunctor'', run = (\<lambda>p s. case f p s of (r, s') \<Rightarrow> Some (Returned r, s')), handler = None, never = False\<rparr>"

text \<open>\<open>DynamicVisitor\<close>.\<close>

definition dynamic_visitor :: "('n, 's, 't) pass option \<Rightarrow> ('n, 's, 't) pass" where
  "dynamic_visitor v =
     \<lparr>pass_name = ''DynamicVisitor'',
      run = (\<lambda>p s. case v of None \<Rightarrow> Some (Returned (Some p), s) | Some v \<Rightarrow> run v p s), handler = None, never = False\<rparr>"

text \<open>\<open>OnBacktrack\<close>: \<open>f\<close> is run on the triggers of the type it is for.\<close>

definition on_backtrack :: "('t \<Rightarrow> ('s \<Rightarrow> 's) option) \<Rightarrow> ('n, 's, 't) pass" where
  "on_backtrack f =
     \<lparr>pass_name = ''OnBacktrack'', run = (\<lambda>p s. Some (Returned (Some p), s)),
      handler = Some (\<lambda>t s. case f t of Some g \<Rightarrow> (True, g s) | None \<Rightarrow> (False, s)), never = False\<rparr>"

section \<open>The manager\<close>

text \<open>\<open>errors\<close> is \<open>errorCount\<close>.\<close>

record ('n, 's, 't) manager =
  passes :: "('n, 's, 't) pass list"
  stop_on_error :: bool

text \<open>Excluding the passes of given names; the code throws for a name that no pass has.\<close>

fun removePasses :: "('n, 's, 't) pass list \<Rightarrow> string list \<Rightarrow> string + ('n, 's, 't) pass list" where
  "removePasses ps [] = Inr ps"
| "removePasses ps (x # xs) =
     (if \<exists>p\<in>set ps. pass_name p = x then removePasses (filter (\<lambda>p. pass_name p \<noteq> x) ps) xs
      else Inl (''Trying to exclude unknown pass '' @ [CHR 0x27] @ x @ [CHR 0x27]))"

definition saves :: "('n, 's, 't) pass \<Rightarrow> bool" where
  "saves v = (case handler v of None \<Rightarrow> False | Some b \<Rightarrow> \<not> never v)"

text \<open>Going back over the saved programs after pass \<open>it\<close> threw: the pass that handles the trigger and
  the program it starts from.  The entry of the handling pass stays on the stack.\<close>

fun unwind ::
  "('n, 's, 't) pass list \<Rightarrow> 't \<Rightarrow> nat \<Rightarrow> (nat \<times> 'n) list \<Rightarrow> 's \<Rightarrow> (nat \<times> 'n \<times> (nat \<times> 'n) list) option \<times> 's" where
  "unwind ps t it [] s = (None, s)"
| "unwind ps t it ((i, p) # backup) s =
     (if i = it then unwind ps t it backup s
      else case handler (ps ! i) of
             None \<Rightarrow> (None, s)
           | Some b \<Rightarrow>
               (case b t s of (ok, s') \<Rightarrow>
                  if ok then (Some (i, p, (i, p) # backup), s') else unwind ps t i backup s'))"

partial_function (option) apply_loop ::
  "('s \<Rightarrow> nat) \<Rightarrow> ('n, 's, 't) manager \<Rightarrow> nat \<Rightarrow> nat \<Rightarrow> 'n \<Rightarrow> (nat \<times> 'n) list \<Rightarrow> 's \<Rightarrow> (('n, 't) outcome \<times> 's) option" where
  "apply_loop errors m initial it program backup s =
     (if it < length (passes m) then
        let v = passes m ! it;
            backup = (if saves v then (it, program) # backup else backup)
        in Option.bind (run v program s) (\<lambda>(r, s).
             case r of
               Returned q \<Rightarrow>
                 (case q of
                    None \<Rightarrow> Some (Returned None, s)
                  | Some program \<Rightarrow>
                      if stop_on_error m \<and> initial < errors s then Some (Returned (Some program), s)
                      else apply_loop errors m initial (Suc it) program backup s)
             | Triggered t \<Rightarrow>
                 (case unwind (passes m) t it backup s of
                    (None, s) \<Rightarrow> Some (Triggered t, s)
                  | (Some (i, program, backup), s) \<Rightarrow> apply_loop errors m initial i program backup s)
             | Stopped e \<Rightarrow> Some (Stopped e, s))
      else Some (Returned (Some program), s))"

declare apply_loop.simps [code]

definition apply_visitor ::
  "('s \<Rightarrow> nat) \<Rightarrow> ('n, 's, 't) manager \<Rightarrow> 'n \<Rightarrow> 's \<Rightarrow> (('n, 't) outcome \<times> 's) option" where
  "apply_visitor errors m program s = apply_loop errors m (errors s) 0 program [] s"

text \<open>\<open>backtrack\<close> asks the passes in turn.\<close>

fun manager_backtrack :: "('n, 's, 't) pass list \<Rightarrow> 't \<Rightarrow> 's \<Rightarrow> bool \<times> 's" where
  "manager_backtrack [] t s = (False, s)"
| "manager_backtrack (v # vs) t s =
     (case handler v of
        None \<Rightarrow> manager_backtrack vs t s
      | Some b \<Rightarrow> (case b t s of (ok, s') \<Rightarrow> if ok then (True, s') else manager_backtrack vs t s'))"

definition never_backtracks :: "('n, 's, 't) manager \<Rightarrow> bool" where
  "never_backtracks m = list_all (\<lambda>v. case handler v of None \<Rightarrow> True | Some b \<Rightarrow> never v) (passes m)"

text \<open>A manager is a pass again.\<close>

definition manager_pass ::
  "string \<Rightarrow> ('n, 's, 't) manager \<Rightarrow> ('n \<Rightarrow> 's \<Rightarrow> (('n, 't) outcome \<times> 's) option) \<Rightarrow> ('n, 's, 't) pass" where
  "manager_pass n m f =
     \<lparr>pass_name = n, run = f, handler = Some (manager_backtrack (passes m)), never = never_backtracks m\<rparr>"

section \<open>Repetition\<close>

text \<open>\<open>PassRepeated\<close>: until nothing changes; \<open>repeats\<close> of 0 sets no limit.\<close>

partial_function (option) repeated_loop ::
  "('s \<Rightarrow> nat) \<Rightarrow> ('n, 's, 't) manager \<Rightarrow> nat \<Rightarrow> nat \<Rightarrow> nat \<Rightarrow> 'n \<Rightarrow> 's \<Rightarrow> (('n, 't) outcome \<times> 's) option" where
  "repeated_loop errors m repeats initial iterations program s =
     Option.bind (apply_visitor errors m program s) (\<lambda>(r, s).
       case r of
         Returned q \<Rightarrow>
           (let done = (q = Some program \<or> q = None)
            in if stop_on_error m \<and> initial < errors s then Some (Returned (Some program), s)
               else
                 let iterations = Suc iterations;
                     done = (done \<or> repeats \<noteq> 0 \<and> repeats < iterations)
                 in case q of
                      None \<Rightarrow> Some (Returned None, s)
                    | Some newprogram \<Rightarrow>
                        if done then Some (Returned (Some newprogram), s)
                        else repeated_loop errors m repeats initial iterations newprogram s)
       | _ \<Rightarrow> Some (r, s))"

declare repeated_loop.simps [code]

definition pass_repeated ::
  "('s \<Rightarrow> nat) \<Rightarrow> ('n, 's, 't) manager \<Rightarrow> nat \<Rightarrow> 'n \<Rightarrow> 's \<Rightarrow> (('n, 't) outcome \<times> 's) option" where
  "pass_repeated errors m repeats program s = repeated_loop errors m repeats (errors s) 0 program s"

text \<open>\<open>PassRepeatUntil\<close>: at least once; the passes after a null node are run on a null node, which the
  visitors do not accept.\<close>

partial_function (option) repeat_until ::
  "('s \<Rightarrow> nat) \<Rightarrow> ('n, 's, 't) manager \<Rightarrow> ('s \<Rightarrow> bool) \<Rightarrow> 'n \<Rightarrow> 's \<Rightarrow> (('n, 't) outcome \<times> 's) option" where
  "repeat_until errors m until program s =
     Option.bind (apply_visitor errors m program s) (\<lambda>(r, s).
       case r of
         Returned q \<Rightarrow>
           (if until s then Some (r, s)
            else case q of
                   None \<Rightarrow> Some (Stopped ''null program'', s)
                 | Some newprogram \<Rightarrow> repeat_until errors m until newprogram s)
       | _ \<Rightarrow> Some (r, s))"

declare repeat_until.simps [code]

definition pass_if ::
  "('s \<Rightarrow> nat) \<Rightarrow> ('n, 's, 't) manager \<Rightarrow> ('s \<Rightarrow> bool) \<Rightarrow> 'n \<Rightarrow> 's \<Rightarrow> (('n, 't) outcome \<times> 's) option" where
  "pass_if errors m cond program s =
     (if cond s then apply_visitor errors m program s else Some (Returned (Some program), s))"

end
