(* ===== verification/PassManager_Props.thy ===== *)
theory PassManager_Props
  imports PassManager
begin

text \<open>
  What a manager does to the program, given what its passes do: a relation that every pass keeps between
  the program before and after is kept by the manager, also when it backtracks; without triggers the
  manager is the sequence of its passes; and repetition ends when every pass that changes the program makes
  it smaller.
\<close>

section \<open>Backtracking\<close>

lemma unwind_saved: "unwind ps t it backup s = (Some (i, p, backup'), s') \<Longrightarrow> (i, p) \<in> set backup \<and> set backup' \<subseteq> set backup"
proof (induction backup arbitrary: it s)
  case (Cons b backup)
  obtain j q where b: "b = (j, q)" by (cases b)
  show ?case
  proof (cases "j = it")
    case True
    then show ?thesis using Cons(1) [of it s] Cons(2) b by auto
  next
    case False
    with Cons(2) b obtain g ok s1 where g: "handler (ps ! j) = Some g" "g t s = (ok, s1)"
      by (cases "handler (ps ! j)"; cases "the (handler (ps ! j)) t s") auto
    show ?thesis
    proof (cases ok)
      case True
      then show ?thesis using Cons(2) b False g by auto
    next
      case ok: False
      then show ?thesis using Cons(1) [of j s1] Cons(2) b False g by auto
    qed
  qed
qed simp

text \<open>The passes, each once and in their order, take \<open>p\<close> to \<open>q\<close>.\<close>

fun in_order :: "('n, 's, 't) pass list \<Rightarrow> 'n \<Rightarrow> 'n \<Rightarrow> bool" where
  "in_order [] p q = (q = p)"
| "in_order (v # vs) p q = (\<exists>r s s'. run v p s = Some (Returned (Some r), s') \<and> in_order vs r q)"

lemma in_order_append: "in_order (xs @ ys) p q \<longleftrightarrow> (\<exists>r. in_order xs p r \<and> in_order ys r q)"
  by (induction xs arbitrary: p) auto

lemma in_order_next:
  assumes "in_order (take it ps) p program" "it < length ps" "run (ps ! it) program s = Some (Returned (Some q), s')"
  shows "in_order (take (Suc it) ps) p q"
  using assms by (auto simp: take_Suc_conv_app_nth in_order_append)

definition saved_in_order :: "('n, 's, 't) pass list \<Rightarrow> 'n \<Rightarrow> (nat \<times> 'n) list \<Rightarrow> bool" where
  "saved_in_order ps p backup \<longleftrightarrow> (\<forall>(i, b)\<in>set backup. i < length ps \<and> in_order (take i ps) p b)"

definition ends_in_order ::
  "('s \<Rightarrow> nat) \<Rightarrow> ('n, 's, 't) manager \<Rightarrow> nat \<Rightarrow> 'n \<Rightarrow> ('n, 't) outcome \<times> 's \<Rightarrow> bool" where
  "ends_in_order errors m initial p y \<longleftrightarrow> (\<forall>q. fst y = Returned (Some q) \<longrightarrow>
     (\<exists>n\<le>length (passes m). in_order (take n (passes m)) p q \<and>
       (n = length (passes m) \<or> stop_on_error m \<and> initial < errors (snd y))))"

lemma loop_in_order:
  assumes "apply_loop errors m initial it program backup s = Some y" "it \<le> length (passes m)"
    "in_order (take it (passes m)) p program" "saved_in_order (passes m) p backup"
  shows "ends_in_order errors m initial p y"
proof -
  have "it \<le> length (passes m) \<longrightarrow> in_order (take it (passes m)) p program \<longrightarrow> saved_in_order (passes m) p backup \<longrightarrow>
    ends_in_order errors m initial p y"
  proof (rule apply_loop.raw_induct [OF _ assms(1)], goal_cases)
  case (1 self errors m initial it program backup s y)
  have "ends_in_order errors m initial p y"
    if H: "it \<le> length (passes m)" "in_order (take it (passes m)) p program" "saved_in_order (passes m) p backup"
  proof (cases "it < length (passes m)")
    case False
    then show ?thesis using 1(2) H by (auto simp: ends_in_order_def)
  next
    case it: True
    define b where "b = (if saves (passes m ! it) then (it, program) # backup else backup)"
    have b: "saved_in_order (passes m) p b" using H it by (auto simp: b_def saved_in_order_def)
    obtain r s1 where r: "run (passes m ! it) program s = Some (r, s1)"
      using 1(2) it by (cases "run (passes m ! it) program s") auto
    note y = 1(2) [simplified it if_True Let_def r, folded b_def, simplified]
    show ?thesis
    proof (cases r)
      case (Returned o1)
      show ?thesis
      proof (cases o1)
        case None
        then show ?thesis using y Returned by (auto simp: ends_in_order_def)
      next
        case (Some q1)
        have q1: "in_order (take (Suc it) (passes m)) p q1" using in_order_next [OF H(2) it] r Returned Some by simp
        show ?thesis
        proof (cases "stop_on_error m \<and> initial < errors s1")
          case True
          then show ?thesis using y Returned Some q1 it by (auto simp: ends_in_order_def intro!: exI [of _ "Suc it"])
        next
          case False
          then have "self errors m initial (Suc it) q1 b s1 = Some y" using y Returned Some by (simp add: if_not_P)
          from 1(1) [OF this] show ?thesis using it q1 b by simp
        qed
      qed
    next
      case (Triggered t)
      show ?thesis
      proof (cases "fst (unwind (passes m) t it b s1)")
        case None
        then show ?thesis using y Triggered by (cases "unwind (passes m) t it b s1") (auto simp: ends_in_order_def)
      next
        case (Some x)
        then obtain i p1 b1 s2 where u: "unwind (passes m) t it b s1 = (Some (i, p1, b1), s2)"
          by (cases x; cases "unwind (passes m) t it b s1") auto
        then have "self errors m initial i p1 b1 s2 = Some y" using y Triggered by simp
        moreover have "i < length (passes m)" "in_order (take i (passes m)) p p1" "saved_in_order (passes m) p b1"
          using unwind_saved [OF u] b by (auto simp: saved_in_order_def)
        ultimately show ?thesis using 1(1) by simp
      qed
    next
      case (Stopped e)
      then show ?thesis using y by (auto simp: ends_in_order_def)
    qed
  qed
  then show ?case by blast
  qed
  then show ?thesis using assms by blast
qed

lemma manager_ends_in_order:
  "apply_visitor errors m p s = Some y \<Longrightarrow> ends_in_order errors m (errors s) p y"
  using loop_in_order [of errors m "errors s" 0 p "[]" s y p] by (simp add: apply_visitor_def saved_in_order_def)

text \<open>Every pass of the manager relates the program it is given to the one it returns.\<close>

locale related_passes =
  fixes R :: "'n \<Rightarrow> 'n \<Rightarrow> bool" and ps :: "('n, 's, 't) pass list"
  assumes refl: "R p p" and trans: "R p q \<Longrightarrow> R q r \<Longrightarrow> R p r"
    and pass: "v \<in> set ps \<Longrightarrow> run v p s = Some (Returned (Some q), s') \<Longrightarrow> R p q"
begin

lemma in_order_related: "set vs \<subseteq> set ps \<Longrightarrow> in_order vs p q \<Longrightarrow> R p q"
proof (induction vs arbitrary: p)
  case Nil
  then show ?case by (simp add: refl)
next
  case (Cons v vs)
  then obtain r s s' where "run v p s = Some (Returned (Some r), s')" "in_order vs r q" by auto
  then show ?case using Cons pass [of v p s r s'] trans by auto
qed

lemma manager_related:
  assumes "passes m = ps" "apply_visitor errors m p s = Some (Returned (Some q), s')"
  shows "R p q"
proof -
  obtain n where "in_order (take n (passes m)) p q"
    using manager_ends_in_order [OF assms(2)] by (auto simp: ends_in_order_def)
  then show ?thesis using in_order_related [OF set_take_subset] assms(1) by blast
qed

lemma repeated_loop_related:
  assumes "repeated_loop errors m repeats initial n program s = Some y" "passes m = ps" "fst y = Returned (Some q)"
    and "R p program"
  shows "R p q"
proof -
  have "passes m = ps \<longrightarrow> fst y = Returned (Some q) \<longrightarrow> R p program \<longrightarrow> R p q"
  proof (rule repeated_loop.raw_induct [OF _ assms(1)], goal_cases)
  case (1 self errors m repeats initial n program s y)
  have "R p q" if H: "passes m = ps" "fst y = Returned (Some q)" "R p program"
  proof -
  from 1 obtain r s1 where r: "apply_visitor errors m program s = Some (r, s1)" by (auto simp: bind_eq_Some_conv)
  show ?thesis
  proof (cases r)
    case (Returned o1)
    show ?thesis
    proof (cases o1)
      case None
      then show ?thesis using 1(2) H r Returned by (auto simp: Let_def split: if_splits)
    next
      case (Some q1)
      then have "R p q1" using manager_related [OF H(1)] r Returned H(3) trans by blast
      then show ?thesis using 1 H r Returned Some by (auto simp: Let_def split: if_splits)
    qed
  qed (use 1(2) H r in auto)
  qed
  then show ?case by blast
  qed
  then show ?thesis using assms by blast
qed

lemma repeated_related:
  "passes m = ps \<Longrightarrow> pass_repeated errors m repeats p s = Some (Returned (Some q), s') \<Longrightarrow> R p q"
  using repeated_loop_related [of errors m repeats "errors s" 0 p s "(Returned (Some q), s')" q p] refl
  by (simp add: pass_repeated_def)

lemma until_related:
  assumes "repeat_until errors m until program s = Some y" "passes m = ps" "fst y = Returned (Some q)" "R p program"
  shows "R p q"
proof -
  have "passes m = ps \<longrightarrow> fst y = Returned (Some q) \<longrightarrow> R p program \<longrightarrow> R p q"
  proof (rule repeat_until.raw_induct [OF _ assms(1)], goal_cases)
  case (1 self errors m until program s y)
  have "R p q" if H: "passes m = ps" "fst y = Returned (Some q)" "R p program"
  proof -
  from 1 obtain r s1 where r: "apply_visitor errors m program s = Some (r, s1)" by (auto simp: bind_eq_Some_conv)
  show ?thesis
  proof (cases r)
    case (Returned o1)
    show ?thesis
    proof (cases o1)
      case None
      then show ?thesis using 1(2) H r Returned by (auto split: if_splits)
    next
      case (Some q1)
      then have "R p q1" using manager_related [OF H(1)] r Returned H(3) trans by blast
      then show ?thesis using 1 H r Returned Some by (auto split: if_splits)
    qed
  qed (use 1(2) H r in auto)
  qed
  then show ?case by blast
  qed
  then show ?thesis using assms by blast
qed

end

section \<open>Sequences\<close>

text \<open>The passes in turn, up to the first one that reports an error, returns null, throws or stops.\<close>

fun run_all :: "('s \<Rightarrow> nat) \<Rightarrow> bool \<Rightarrow> nat \<Rightarrow> ('n, 's, 't) pass list \<Rightarrow> 'n \<Rightarrow> 's \<Rightarrow> (('n, 't) outcome \<times> 's) option" where
  "run_all errors stop initial [] program s = Some (Returned (Some program), s)"
| "run_all errors stop initial (v # vs) program s =
     Option.bind (run v program s) (\<lambda>(r, s).
       case r of
         Returned (Some q) \<Rightarrow>
           if stop \<and> initial < errors s then Some (Returned (Some q), s) else run_all errors stop initial vs q s
       | _ \<Rightarrow> Some (r, s))"

definition no_triggers :: "('n, 's, 't) pass list \<Rightarrow> bool" where
  "no_triggers ps \<longleftrightarrow> (\<forall>v\<in>set ps. \<forall>p s t s'. run v p s \<noteq> Some (Triggered t, s'))"

lemma loop_run_all:
  assumes "no_triggers (passes m)" "it \<le> length (passes m)"
  shows "apply_loop errors m initial it program backup s = run_all errors (stop_on_error m) initial (drop it (passes m)) program s"
  using assms(2)
proof (induction "length (passes m) - it" arbitrary: it program backup s)
  case 0
  then show ?case by (subst apply_loop.simps) simp
next
  case (Suc n)
  then have it: "it < length (passes m)" by simp
  have drop: "drop it (passes m) = passes m ! it # drop (Suc it) (passes m)" using it by (simp add: Cons_nth_drop_Suc)
  have nt: "run (passes m ! it) program s \<noteq> Some (Triggered t, s')" for t s' using assms(1) it by (auto simp: no_triggers_def)
  show ?case
  proof (cases "run (passes m ! it) program s")
    case None
    then show ?thesis using it by (subst apply_loop.simps) (simp add: drop Let_def)
  next
    case (Some r)
    obtain o1 s1 where "r = (o1, s1)" by (cases r)
    then show ?thesis using Some it nt [of _ s1] Suc(1) [of "Suc it"] Suc(2)
      by (subst apply_loop.simps, cases o1) (auto simp: drop Let_def split: option.split)
  qed
qed

lemma manager_sequence:
  "no_triggers (passes m) \<Longrightarrow> apply_visitor errors m p s = run_all errors (stop_on_error m) (errors s) (passes m) p s"
  by (simp add: apply_visitor_def loop_run_all)

section \<open>Repetition ends\<close>

text \<open>A pass gives back the program, or one of a smaller measure, or stops.\<close>

definition shrinks :: "('n \<Rightarrow> nat) \<Rightarrow> 'n \<Rightarrow> ('n, 't) outcome \<Rightarrow> bool" where
  "shrinks \<mu> p r \<longleftrightarrow> (\<exists>e. r = Stopped e) \<or> (\<exists>q. r = Returned (Some q) \<and> (q = p \<or> \<mu> q < \<mu> p))"

locale shrinking_passes =
  fixes \<mu> :: "'n \<Rightarrow> nat" and ps :: "('n, 's, 't) pass list"
  assumes pass_returns: "v \<in> set ps \<Longrightarrow> \<exists>r s'. run v p s = Some (r, s') \<and> shrinks \<mu> p r"
begin

lemma run_all_shrinks:
  "set vs \<subseteq> set ps \<Longrightarrow> \<exists>r s'. run_all errors stop initial vs p s = Some (r, s') \<and> shrinks \<mu> p r"
proof (induction vs arbitrary: p s)
  case Nil
  then show ?case by (simp add: shrinks_def)
next
  case (Cons v vs)
  obtain r s1 where r: "run v p s = Some (r, s1)" "shrinks \<mu> p r" using pass_returns [of v p s] Cons(2) by auto
  from r(2) consider e where "r = Stopped e" | q where "r = Returned (Some q)" "q = p \<or> \<mu> q < \<mu> p"
    by (auto simp: shrinks_def)
  then show ?case
  proof cases
    case 1
    then show ?thesis using r by (simp add: shrinks_def)
  next
    case (2 q)
    obtain r2 s2 where r2: "run_all errors stop initial vs q s1 = Some (r2, s2)" "shrinks \<mu> q r2"
      using Cons(1) [of q s1] Cons(2) by auto
    have "shrinks \<mu> p r2" using r2(2) 2(2) by (auto simp: shrinks_def)
    then show ?thesis using r 2 r2(1) by (cases "stop \<and> initial < errors s1") (auto simp: shrinks_def)
  qed
qed

lemma shrinking_no_triggers: "no_triggers ps"
proof -
  have "run v p s \<noteq> Some (Triggered t, s')" if "v \<in> set ps" for v p s t s'
    using pass_returns [OF that, of p s] by (auto simp: shrinks_def)
  then show ?thesis by (simp add: no_triggers_def)
qed

lemma manager_shrinks: "passes m = ps \<Longrightarrow> \<exists>r s'. apply_visitor errors m p s = Some (r, s') \<and> shrinks \<mu> p r"
  using run_all_shrinks [of ps] shrinking_no_triggers by (simp add: manager_sequence)

text \<open>Without a limit and without new errors the result is a fixed point.\<close>

lemma repeated_loop_returns:
  assumes "passes m = ps"
  shows "\<exists>r s'. repeated_loop errors m repeats initial n p s = Some (r, s') \<and> shrinks \<mu> p r \<and>
    (\<forall>q. r = Returned (Some q) \<longrightarrow> repeats = 0 \<longrightarrow> \<not> (stop_on_error m \<and> initial < errors s') \<longrightarrow>
       (\<exists>s1. apply_visitor errors m q s1 = Some (Returned (Some q), s')))"
proof (induction "\<mu> p" arbitrary: p s n rule: less_induct)
  case less
  obtain r s1 where r: "apply_visitor errors m p s = Some (r, s1)" "shrinks \<mu> p r" using manager_shrinks [OF assms] by blast
  from r(2) consider e where "r = Stopped e" | q where "r = Returned (Some q)" "q = p \<or> \<mu> q < \<mu> p"
    by (auto simp: shrinks_def)
  then show ?case
  proof cases
    case 1
    then show ?thesis using r by (subst repeated_loop.simps) (simp add: shrinks_def)
  next
    case (2 q)
    show ?thesis
    proof (cases "stop_on_error m \<and> initial < errors s1")
      case True
      then show ?thesis using r 2 by (subst repeated_loop.simps) (simp add: shrinks_def Let_def)
    next
      case error: False
      show ?thesis
      proof (cases "q = p \<or> repeats \<noteq> 0 \<and> repeats < Suc n")
        case True
        then have "repeated_loop errors m repeats initial n p s = Some (Returned (Some q), s1)"
          using r 2 error by (subst repeated_loop.simps) (auto simp: Let_def)
        then show ?thesis using 2 r True by (auto simp: shrinks_def)
      next
        case False
        then have "repeated_loop errors m repeats initial n p s = repeated_loop errors m repeats initial (Suc n) q s1"
          using r 2 error by (subst repeated_loop.simps) (auto simp: Let_def)
        moreover have "\<mu> q < \<mu> p" using False 2 by auto
        moreover have "shrinks \<mu> p r2" if "shrinks \<mu> q r2" for r2 :: "('n, 't) outcome"
          using that \<open>\<mu> q < \<mu> p\<close> by (auto simp: shrinks_def)
        ultimately show ?thesis using less [of q "Suc n" s1] by metis
      qed
    qed
  qed
qed

lemma repeated_returns:
  assumes "passes m = ps"
  shows "\<exists>r s'. pass_repeated errors m repeats p s = Some (r, s') \<and> shrinks \<mu> p r \<and>
    (\<forall>q. r = Returned (Some q) \<longrightarrow> repeats = 0 \<longrightarrow> \<not> (stop_on_error m \<and> errors s < errors s') \<longrightarrow>
       (\<exists>s1. apply_visitor errors m q s1 = Some (Returned (Some q), s')))"
  using repeated_loop_returns [OF assms, of errors repeats "errors s" 0 p s] by (simp add: pass_repeated_def)

end

text \<open>With a limit there are at most \<open>repeats + 1\<close> rounds.\<close>

lemma repeated_loop_limit:
  assumes "repeats \<noteq> 0" "\<And>p s. apply_visitor errors m p s \<noteq> None"
  shows "repeated_loop errors m repeats initial n p s \<noteq> None"
proof (induction "Suc repeats - n" arbitrary: n p s rule: less_induct)
  case less
  obtain r s1 where r: "apply_visitor errors m p s = Some (r, s1)" using assms(2) [of p s] by auto
  show ?case
  proof (cases r)
    case (Returned o1)
    show ?thesis
    proof (cases o1)
      case None
      then show ?thesis using r Returned by (subst repeated_loop.simps) (simp add: Let_def)
    next
      case (Some q)
      then show ?thesis using r Returned less [of "Suc n" q s1] assms(1)
        by (subst repeated_loop.simps) (auto simp: Let_def)
    qed
  qed (use r in \<open>subst repeated_loop.simps, simp\<close>)+
qed

section \<open>Properties\<close>

text \<open>C39: A manager whose passes throw backtrack triggers gives what its passes make of the program when each of
  them is run once, in their order: going back to a pass restores the program from before that pass.  Passes
  are missing at the end only when one of them reported an error and the manager stops at errors.\<close>

theorem manager_in_order:
  assumes "apply_visitor errors m p s = Some (Returned (Some q), s')"
  shows "\<exists>n\<le>length (passes m). in_order (take n (passes m)) p q \<and>
    (n = length (passes m) \<or> stop_on_error m \<and> errors s < errors s')"
  using manager_ends_in_order [OF assms] by (simp add: ends_in_order_def)

text \<open>A pass that tries something else after it was sent back once, and one that cannot use what it tried first.\<close>

definition choosing :: "(nat, nat, unit) pass" where
  "choosing =
     \<lparr>pass_name = ''choosing'', run = (\<lambda>p s. Some (Returned (Some (if s = 0 then p + 2 else p + 1)), s)),
      handler = Some (\<lambda>t s. (True, Suc s)), never = False\<rparr>"

definition doubling :: "(nat, nat, unit) pass" where
  "doubling =
     \<lparr>pass_name = ''doubling'',
      run = (\<lambda>p s. Some (if p = 7 then Triggered () else Returned (Some (2 * p)), s)), handler = None, never = False\<rparr>"

lemma manager_in_order_witness:
  "\<exists>n\<le>2. in_order (take n [choosing, doubling]) 5 12 \<and> (n = 2 \<or> False)"
proof -
  let ?m = "\<lparr>passes = [choosing, doubling], stop_on_error = True\<rparr>"
  have "apply_visitor (\<lambda>s. 0) ?m 5 0 = Some (Returned (Some 12), 1)"
    by (simp add: apply_visitor_def choosing_def doubling_def saves_def apply_loop.simps)
  from manager_in_order [OF this] show ?thesis by (simp add: numeral_2_eq_2)
qed

end
