(* ===== verification/OptimizeExpr.thy ===== *)
theory OptimizeExpr
  imports PassManager_Props ConstFold_Typed
begin

text \<open>
  \<open>optimizeExpression\<close> (frontends/p4/optimizeExpressions.h): strength reduction and constant folding in
  turn until neither changes the expression.  It ends because each rewriting of either pass makes the
  expression smaller, in a measure that counts an operator by what it can be rewritten to.
\<close>

section \<open>The passes\<close>

text \<open>The state is the list of the diagnostics.\<close>

definition transform :: "string \<Rightarrow> (expr \<Rightarrow> expr comp) \<Rightarrow> (expr, diag list, unit) pass" where
  "transform n f =
     \<lparr>pass_name = n,
      run = (\<lambda>e s. Some (case f e of Bug m \<Rightarrow> (Stopped m, s) | Ok ds e' \<Rightarrow> (Returned (Some e'), s @ ds))),
      handler = None, never = False\<rparr>"

text \<open>Without a type map neither manager runs the type checker.  The folder looks up the paths of an
  expression itself; there is no scope around it, so it finds no declaration and reports an error for
  each path.  An expression with paths ends in the BUG of \<open>optimizeExpression\<close>, unless strength reduction has
  removed them before.\<close>

definition folding_env :: "int \<Rightarrow> cf_env" where
  "folding_env w =
     \<lparr>refMap = Some (\<lambda>p. None), typesKnown = False, warnings = False, hook = (\<lambda>e. None), constants = (\<lambda>d. None),
      maximumWidth = w\<rparr>"

definition StrengthReduction :: "bool \<Rightarrow> (expr, diag list, unit) manager" where
  "StrengthReduction enableSub = \<lparr>passes = [transform ''StrengthReduction'' (sr_expr enableSub)], stop_on_error = True\<rparr>"

definition ConstantFolding :: "cf_env \<Rightarrow> (expr, diag list, unit) manager" where
  "ConstantFolding cf = \<lparr>passes = [transform ''DoConstantFolding'' (fold_expr cf False)], stop_on_error = True\<rparr>"

definition optimize_passes :: "int \<Rightarrow> (expr, diag list, unit) manager" where
  "optimize_passes w =
     \<lparr>passes =
        [manager_pass ''StrengthReduction'' (StrengthReduction True) (apply_visitor errorCount (StrengthReduction True)),
         manager_pass ''ConstantFolding'' (ConstantFolding (folding_env w))
           (apply_visitor errorCount (ConstantFolding (folding_env w)))],
      stop_on_error = True\<rparr>"

text \<open>\<open>s\<close> are the diagnostics before the call, \<open>w\<close> the largest width that the target supports.\<close>

definition optimizeExpression :: "int \<Rightarrow> expr \<Rightarrow> diag list \<Rightarrow> expr comp option" where
  "optimizeExpression w node s =
     Option.bind (pass_repeated errorCount (optimize_passes w) 0 node s) (\<lambda>(r, s').
       case r of
         Returned (Some e) \<Rightarrow>
           (if errorCount s' = 0 then Some (Ok s' e)
            else Some (Bug ''Encountered errors while trying to optimize expressions.''))
       | Returned None \<Rightarrow> Some (Bug ''null'')
       | Triggered t \<Rightarrow> Some (Bug ''trigger'')
       | Stopped m \<Rightarrow> Some (Bug m))"

section \<open>The measure\<close>

fun weight :: "binop \<Rightarrow> nat" where
  "weight Sub = 2"
| "weight Shl = 2"
| "weight Shr = 2"
| "weight Mul = 3"
| "weight Div = 3"
| "weight Mod = 2"
| "weight Concat = 2"
| "weight b = 1"

fun emeasure :: "expr \<Rightarrow> nat" where
  "emeasure (ListExpression t es) = Suc (sum_list (map emeasure es))"
| "emeasure (StructExpression t fs) = Suc (sum_list (map (\<lambda>f. emeasure (snd f)) fs))"
| "emeasure (HeaderStackExpression t es) = Suc (sum_list (map emeasure es))"
| "emeasure (Unary u t x) = Suc (emeasure x)"
| "emeasure (Cast t x) = Suc (emeasure x)"
| "emeasure (Member t x m) = Suc (emeasure x)"
| "emeasure (Binary b t l r) =
     (if b = BXor then 2 * (emeasure l + emeasure r) + 1 else emeasure l + emeasure r + weight b)"
| "emeasure (ArrayIndex t l r) = emeasure l + emeasure r + 1"
| "emeasure (Range t l r) = emeasure l + emeasure r + 1"
| "emeasure (Mask t l r) = emeasure l + emeasure r + 1"
| "emeasure (Mux t c a b) = emeasure c + emeasure a + emeasure b + 1"
| "emeasure (Slice t x h l) = 3 * emeasure x + emeasure h + emeasure l + 1"
| "emeasure (PlusSlice t x l w) = 3 * emeasure x + emeasure l + emeasure w + 2"
| "emeasure (MethodCallExpression t m x as) = emeasure x + sum_list (map emeasure as) + 1"
| "emeasure (ConstructorCallExpression t as) = Suc (sum_list (map emeasure as))"
| "emeasure e = 1"

lemma weight_pos [simp]: "0 < weight b"
  by (cases b) auto

lemma emeasure_pos [simp]: "0 < emeasure e"
  by (cases e) (auto simp: add_pos_pos)

lemma emeasure_ge [simp]: "Suc 0 \<le> emeasure e"
  by (simp add: Suc_le_eq)

definition smaller :: "expr \<Rightarrow> expr \<Rightarrow> bool" where
  "smaller e e' \<longleftrightarrow> e' = e \<or> emeasure e' < emeasure e"

lemma smaller_refl [simp]: "smaller e e"
  by (simp add: smaller_def)

lemma smaller_trans: "smaller a b \<Longrightarrow> smaller b c \<Longrightarrow> smaller a c"
  by (auto simp: smaller_def)

lemma smaller_le: "smaller e e' \<Longrightarrow> emeasure e' \<le> emeasure e"
  by (auto simp: smaller_def)

lemma smaller_list:
  "list_all2 smaller xs ys \<Longrightarrow> ys = xs \<or> sum_list (map emeasure ys) < sum_list (map emeasure xs)"
  by (induction rule: list_all2_induct) (auto simp: smaller_def)

lemma smaller_list_le: "list_all2 smaller xs ys \<Longrightarrow> sum_list (map emeasure ys) \<le> sum_list (map emeasure xs)"
  using smaller_list by fastforce

lemma mapM_comp_list_all2: "mapM_comp f xs = Ok ds ys \<Longrightarrow> list_all2 (\<lambda>x y. \<exists>d. f x = Ok d y) xs ys"
  by (rule list_all2_mono [OF mapM_comp_Ok_diags]) auto

lemma smaller_with_children: "list_all2 smaller (children e) cs \<Longrightarrow> smaller e (with_children e cs)"
proof (cases e)
  case (StructExpression t fs)
  assume c: "list_all2 smaller (children e) cs"
  then have l: "length cs = length fs" using StructExpression by (auto dest: list_all2_lengthD)
  have "sum_list (map (\<lambda>f. emeasure (snd f)) (zip (map fst fs) cs)) = sum_list (map emeasure cs)"
    using l by (simp add: comp_def flip: map_map [of emeasure snd, unfolded comp_def])
  moreover have "zip (map fst fs) (map snd fs) = fs" by (simp add: zip_map_fst_snd)
  ultimately show ?thesis using smaller_list [OF c] StructExpression by (auto simp: smaller_def comp_def)
next
  case (MethodCallExpression t m x as)
  assume c: "list_all2 smaller (children e) cs"
  then obtain y ys where "cs = y # ys" "smaller x y" "list_all2 smaller as ys"
    using MethodCallExpression by (auto simp: list_all2_Cons1)
  then show ?thesis using smaller_list [of as ys] MethodCallExpression by (auto simp: smaller_def)
next
  case (ListExpression t es)
  assume "list_all2 smaller (children e) cs"
  then show ?thesis using smaller_list ListExpression by (fastforce simp: smaller_def)
next
  case (HeaderStackExpression t es)
  assume "list_all2 smaller (children e) cs"
  then show ?thesis using smaller_list HeaderStackExpression by (fastforce simp: smaller_def)
next
  case (ConstructorCallExpression t es)
  assume "list_all2 smaller (children e) cs"
  then show ?thesis using smaller_list ConstructorCallExpression by (fastforce simp: smaller_def)
qed (auto simp: smaller_def list_all2_Cons1)

lemma smaller_visit:
  assumes "visit_children f e = Ok ds e1" "\<And>x d y. x \<in> set (children e) \<Longrightarrow> f x = Ok d y \<Longrightarrow> smaller x y"
  shows "smaller e e1"
proof -
  obtain d cs where c: "mapM_comp f (children e) = Ok d cs" "e1 = with_children e cs"
    using assms(1) by (auto simp: visit_children_def comp_simps)
  have "list_all2 smaller (children e) cs"
    using mapM_comp_list_all2 [OF c(1)] assms(2) by (auto elim: list.rel_mono_strong)
  then show ?thesis using c(2) smaller_with_children by simp
qed

section \<open>Strength reduction makes expressions smaller\<close>

lemma emeasure_constant: "mk_constant t v b n = Ok ds e \<Longrightarrow> emeasure e = 1"
  by (auto simp: mk_constant_def comp_simps)

lemma emeasure_gt1:
  "emeasure l < emeasure (Binary b t l r)" "emeasure r < emeasure (Binary b t l r)" "1 < emeasure (Binary b t l r)"
proof -
  have "1 \<le> emeasure l" "1 \<le> emeasure r" "1 \<le> weight b" using weight_pos [of b] by (simp_all add: Suc_le_eq)
  then show "emeasure l < emeasure (Binary b t l r)" "emeasure r < emeasure (Binary b t l r)" "1 < emeasure (Binary b t l r)"
    by (cases "b = BXor"; simp; linarith)+
qed

lemma sr_Cmpl_smaller: "sr_Cmpl t x = Ok ds e \<Longrightarrow> smaller (Unary Cmpl t x) e"
  by (auto simp: sr_Cmpl_def smaller_def split: option.splits)

lemma sr_BAnd_smaller: "sr_BAnd t l r = Ok ds e \<Longrightarrow> smaller (Binary BAnd t l r) e"
  by (auto simp: sr_BAnd_def comp_simps smaller_def Let_def emeasure_gt1 split: if_splits option.splits)

lemma sr_BOr_smaller: "sr_BOr t l r = Ok ds e \<Longrightarrow> smaller (Binary BOr t l r) e"
  by (auto simp: sr_BOr_def comp_simps smaller_def Let_def emeasure_gt1 split: if_splits option.splits)

lemma sr_BXor_smaller: "sr_BXor t l r = Ok ds e \<Longrightarrow> smaller (Binary BXor t l r) e"
  by (auto simp: sr_BXor_def comp_simps smaller_def Let_def emeasure_gt1 dest!: emeasure_constant
        split: if_splits option.splits)

lemma sr_LAnd_smaller: "sr_LAnd t l r = Ok ds e \<Longrightarrow> smaller (Binary LAnd t l r) e"
  by (auto simp: sr_LAnd_def smaller_def split: if_splits)

lemma sr_LOr_smaller: "sr_LOr t l r = Ok ds e \<Longrightarrow> smaller (Binary LOr t l r) e"
  by (auto simp: sr_LOr_def smaller_def split: if_splits)

lemma sr_Equ_smaller: "sr_Equ t l r = Ok ds e \<Longrightarrow> smaller (Binary Equ t l r) e"
  by (auto simp: sr_Equ_def smaller_def split: if_splits)

lemma sr_Neq_smaller: "sr_Neq t l r = Ok ds e \<Longrightarrow> smaller (Binary Neq t l r) e"
  by (auto simp: sr_Neq_def smaller_def split: if_splits)

lemma sr_LNot_smaller: "sr_LNot t x = Ok ds e \<Longrightarrow> smaller (Unary LNot t x) e"
proof -
  have "weight b' = weight b" "b \<noteq> BXor" "b' \<noteq> BXor" if "negated_relation b = Some b'" for b b'
    using that by (cases b; auto)+
  then show "sr_LNot t x = Ok ds e \<Longrightarrow> smaller (Unary LNot t x) e"
    by (auto simp: sr_LNot_def smaller_def split: expr.splits unop.splits option.splits)
qed

lemma sr_Sub_smaller: "sr_Sub en t l r = Ok ds e \<Longrightarrow> smaller (Binary Sub t l r) e"
  by (auto simp: sr_Sub_def comp_simps smaller_def Let_def dest!: emeasure_constant split: if_splits option.splits bool.splits)

lemma sr_Add_smaller: "sr_Add t l r = Ok ds e \<Longrightarrow> smaller (Binary Add t l r) e"
  by (auto simp: sr_Add_def smaller_def split: if_splits)

lemma sr_shift_smaller: "b \<in> {Shl, Shr} \<Longrightarrow> sr_shift b t l r = Ok ds e \<Longrightarrow> smaller (Binary b t l r) e"
  by (auto simp: sr_shift_def smaller_def split: if_splits option.splits)

lemma sr_Mul_smaller: "sr_Mul t l r = Ok ds e \<Longrightarrow> smaller (Binary Mul t l r) e"
  by (auto simp: sr_Mul_def smaller_def Let_def less_Suc_eq_le split: if_splits)

lemma sr_Div_smaller: "sr_Div t l r = Ok ds e \<Longrightarrow> smaller (Binary Div t l r) e"
  by (auto simp: sr_Div_def smaller_def less_Suc_eq_le split: if_splits)

lemma sr_Mod_smaller: "sr_Mod t l r = Ok ds e \<Longrightarrow> smaller (Binary Mod t l r) e"
  by (auto simp: sr_Mod_def comp_simps smaller_def Let_def less_Suc_eq_le dest!: emeasure_constant split: if_splits)

lemma sr_Range_smaller: "sr_Range t l r = Ok ds e \<Longrightarrow> smaller (Range t l r) e"
  by (auto simp: sr_Range_def smaller_def split: if_splits option.splits)

lemma sr_Mask_smaller: "sr_Mask t l r = Ok ds e \<Longrightarrow> smaller (Mask t l r) e"
  by (auto simp: sr_Mask_def comp_simps smaller_def split: if_splits)

lemma sr_Mux_smaller: "sr_Mux t c a b = Ok ds e \<Longrightarrow> smaller (Mux t c a b) e"
  by (auto simp: sr_Mux_def smaller_def split: if_splits option.splits)

lemma sr_Concat_smaller: "sr_Concat t l r = Ok ds e \<Longrightarrow> smaller (Binary Concat t l r) e"
  by (auto simp: sr_Concat_def smaller_def split: if_splits)

lemma sr_ArrayIndex_smaller: "sr_ArrayIndex t l r = Ok ds e \<Longrightarrow> smaller (ArrayIndex t l r) e"
proof -
  have "emeasure (es ! n) \<le> sum_list (map emeasure es)" if "n < length es" for es n
    using that by (intro member_le_sum_list) auto
  then show "sr_ArrayIndex t l r = Ok ds e \<Longrightarrow> smaller (ArrayIndex t l r) e"
    by (auto simp: sr_ArrayIndex_def comp_simps smaller_def Let_def less_Suc_eq_le not_le
          intro!: trans_le_add1 le_SucI split: expr.splits option.splits if_splits)
qed

section \<open>Slices\<close>

text \<open>The operands of a slice after a step.\<close>

definition operands_smaller :: "expr \<times> expr \<times> expr \<Rightarrow> expr \<times> expr \<times> expr \<Rightarrow> bool" where
  "operands_smaller x y =
     (case (x, y) of ((e0, e1, e2), (f0, f1, f2)) \<Rightarrow>
        y = x \<or> emeasure f0 < emeasure e0 \<and> emeasure f1 \<le> emeasure e1 \<and> emeasure f2 \<le> emeasure e2)"

definition step_smaller :: "p4type \<Rightarrow> expr \<times> expr \<times> expr \<Rightarrow> slice_step \<Rightarrow> bool" where
  "step_smaller t x s =
     (case s of Done e \<Rightarrow> (case x of (e0, e1, e2) \<Rightarrow> smaller (Slice t e0 e1 e2) e)
      | Go f0 f1 f2 \<Rightarrow> operands_smaller x (f0, f1, f2))"

lemma operands_smaller_trans: "operands_smaller x y \<Longrightarrow> operands_smaller y z \<Longrightarrow> operands_smaller x z"
  by (auto simp: operands_smaller_def split: prod.splits)

lemma operands_smaller_slice:
  "operands_smaller (e0, e1, e2) (f0, f1, f2) \<Longrightarrow> smaller (Slice t e0 e1 e2) (Slice t f0 f1 f2)"
  by (auto simp: operands_smaller_def smaller_def)

lemma operands_step:
  "operands_smaller x y \<Longrightarrow> step_smaller t y s \<Longrightarrow> step_smaller t x s"
  by (auto simp: step_smaller_def intro: smaller_trans operands_smaller_slice operands_smaller_trans split: slice_step.splits prod.splits)

lemma slice_shift_operand:
  "slice_shift e0 = Ok ds (Some (n, x)) \<Longrightarrow> \<exists>b t k. e0 = Binary b t x k \<and> weight b = 2 \<and> b \<noteq> BXor"
  by (auto simp: slice_shift_def comp_simps split: expr.splits option.splits if_splits)

lemma shifted_slice_smaller:
  assumes "shifted_slice t e0 e1 e2 x w hi lo n = Ok ds s" "e0 = Binary b bt x k" "weight b = 2" "b \<noteq> BXor"
  shows "step_smaller t (e0, e1, e2) s"
  using assms(1) emeasure_ge [of k] emeasure_ge [of e1] emeasure_ge [of e2] assms(3,4)
  by (auto simp: assms(2) shifted_slice_def comp_simps step_smaller_def operands_smaller_def smaller_def dest!: emeasure_constant
        split: if_splits)

lemma step_smaller_same [simp]: "step_smaller t (e0, e1, e2) (Go e0 e1 e2)" "step_smaller t (e0, e1, e2) (Done (Slice t e0 e1 e2))"
  by (simp_all add: step_smaller_def operands_smaller_def)

lemma sr_slice_shift_smaller:
  assumes "sr_slice_shift t e0 e1 e2 = Ok ds s"
  shows "step_smaller t (e0, e1, e2) s"
proof -
  obtain d1 r d2 where r: "slice_shift e0 = Ok d1 r"
    "(case r of None \<Rightarrow> ret (Go e0 e1 e2)
       | Some (shift_amt, shift_of) \<Rightarrow>
         case to_Type_Bits (type_of shift_of) of None \<Rightarrow> ret (Done (Slice t e0 e1 e2))
         | Some (w, isSigned) \<Rightarrow>
           if isSigned \<and> to_Binary Shr e0 \<noteq> None then ret (Done (Slice t e0 e1 e2))
           else
             bind_comp (slice_index e1) (\<lambda>hi. bind_comp (slice_index e2) (\<lambda>lo.
             bind_comp (checked_int (lo + shift_amt)) (\<lambda>_.
             bind_comp (checked_int (hi + shift_amt)) (\<lambda>_.
               shifted_slice t e0 e1 e2 shift_of w hi lo shift_amt))))) = Ok d2 s"
    using assms unfolding sr_slice_shift_def by (rule bind_comp_OkE)
  show ?thesis
  proof (cases r)
    case None
    then show ?thesis using r(2) by auto
  next
    case (Some nx)
    obtain n x where nx: "nx = (n, x)" by (cases nx)
    obtain b bt k where e0: "e0 = Binary b bt x k" "weight b = 2" "b \<noteq> BXor"
      using slice_shift_operand [of e0 d1 n x] r(1) Some nx by auto
    show ?thesis
    proof (cases "to_Type_Bits (type_of x)")
      case None
      then show ?thesis using r(2) Some nx by auto
    next
      case bits: (Some ws)
      obtain w sg where ws: "ws = (w, sg)" by (cases ws)
      show ?thesis
      proof (cases "sg \<and> to_Binary Shr e0 \<noteq> None")
        case True
        then show ?thesis using r(2) Some nx bits ws by (auto split: if_splits)
      next
        case False
        then obtain d hi lo where "shifted_slice t e0 e1 e2 x w hi lo n = Ok d s"
          using r(2) Some nx bits ws by (auto elim!: bind_comp_OkE simp del: to_Type_Bits_Some split: if_splits)
        then show ?thesis by (rule shifted_slice_smaller [OF _ e0])
      qed
    qed
  qed
qed

lemma step_left:
  "step_smaller t (l, f1, f2) s \<Longrightarrow> emeasure f1 \<le> emeasure e1 \<Longrightarrow> emeasure f2 \<le> emeasure e2 \<Longrightarrow>
     step_smaller t (Binary b bt l r, e1, e2) s"
  by (erule operands_step [rotated]) (use emeasure_gt1(1) [of l b bt r] in \<open>simp add: operands_smaller_def\<close>)

lemma step_right:
  "step_smaller t (r, e1, e2) s \<Longrightarrow> step_smaller t (Binary b bt l r, e1, e2) s"
  by (erule operands_step [rotated]) (use emeasure_gt1(2) [of r b bt l] in \<open>simp add: operands_smaller_def\<close>)

lemma concat_of_slices:
  "step_smaller t (Binary Concat bt l r, e1, e2) (Done (Binary Concat t (Slice_mk l h1 l1) (Slice_mk r h2 l2)))"
proof -
  have "1 \<le> emeasure e1" "1 \<le> emeasure e2" by simp_all
  then show ?thesis by (simp add: step_smaller_def smaller_def Slice_mk_def del: emeasure_ge)
qed

lemma sr_slice_concat_smaller: "sr_slice_concat t e0 e1 e2 = Ok ds s \<Longrightarrow> step_smaller t (e0, e1, e2) s"
proof (induction t e0 e1 e2 arbitrary: ds s rule: sr_slice_concat.induct)
  case (1 t b bt l r e1 e2)
  show ?case
  proof (cases "b = Concat")
    case False
    then show ?thesis using 1(3) by auto
  next
    case b: True
    obtain w d1 lo d2 where w: "width_bits (type_of r) = Ok d1 w" "slice_index e2 = Ok d2 lo"
      using 1(3) b by (auto simp: bind_comp_Ok_iff Let_def split: comp.split_asm)
    show ?thesis
    proof (cases "lo \<ge> uint32 w")
      case lo: True
      show ?thesis
      proof (cases "hasSideEffects r")
        case True
        then show ?thesis using 1(3) b w lo by (auto simp: bind_comp_Ok_iff Let_def split: comp.split_asm)
      next
        case False
        then obtain hi d3 d4 where hi: "slice_index e1 = Ok d3 hi"
          "sr_slice_concat t l (inf_constant (uint32 (hi - uint32 w))) (inf_constant (uint32 (lo - uint32 w))) = Ok d4 s"
          using 1(3) b w lo by (auto simp: bind_comp_Ok_iff Let_def split: comp.split_asm)
        then have "step_smaller t (l, inf_constant (uint32 (hi - uint32 w)), inf_constant (uint32 (lo - uint32 w))) s"
          using 1(1) [OF _ w(1) refl w(2) lo False] b by auto
        then show ?thesis by (rule step_left) simp_all
      qed
    next
      case lo: False
      obtain hi d3 where hi: "slice_index e1 = Ok d3 hi"
        using 1(3) b w lo by (auto simp: bind_comp_Ok_iff Let_def split: comp.split_asm)
      show ?thesis
      proof (cases "hi < uint32 w")
        case True
        show ?thesis
        proof (cases "hasSideEffects l")
          case se: True
          then show ?thesis using 1(3) b w lo hi True by (auto simp: bind_comp_Ok_iff Let_def split: comp.split_asm)
        next
          case False
          then obtain d4 where "sr_slice_concat t r e1 e2 = Ok d4 s"
            using 1(3) b w lo hi True by (auto simp: bind_comp_Ok_iff Let_def split: comp.split_asm)
          then have "step_smaller t (r, e1, e2) s" using 1(2) [OF _ w(1) refl w(2) _ hi True False] b lo by auto
          then show ?thesis by (rule step_right)
        qed
      next
        case False
        then have "s = Done (Binary Concat t (Slice_mk l (hi - uint32 w) 0) (Slice_mk r (uint32 w - 1) lo))"
          using 1(3) b w lo hi by (auto simp: bind_comp_Ok_iff Let_def split: comp.split_asm)
        then show ?thesis by (simp add: b concat_of_slices)
      qed
    qed
  qed
qed auto

lemma sr_slice_cast_smaller: "sr_slice_cast e0 e1 = Ok ds e \<Longrightarrow> e = e0 \<or> emeasure e < emeasure e0"
proof (induction e0 e1 arbitrary: ds rule: sr_slice_cast.induct)
  case (1 ct x e1)
  then show ?case by (fastforce simp: comp_simps split: option.splits if_splits)
qed auto

lemma sr_slice_slice_smaller: "sr_slice_slice e0 e1 e2 = Ok ds y \<Longrightarrow> operands_smaller (e0, e1, e2) y"
  using emeasure_ge [of e1] emeasure_ge [of e2]
  by (auto simp: sr_slice_slice_def operands_smaller_def comp_simps split: expr.splits if_splits)

lemma sr_slice_full_smaller: "sr_slice_full t e0 e1 e2 = Ok ds e \<Longrightarrow> smaller (Slice t e0 e1 e2) e"
  using emeasure_ge [of e0]
  by (auto simp: sr_slice_full_def smaller_def comp_simps split: if_splits option.splits)

lemma sr_Slice_smaller:
  assumes "sr_Slice t e0 e1 e2 = Ok ds e"
  shows "smaller (Slice t e0 e1 e2) e"
proof -
  obtain d1 s1 d2 where s1: "sr_slice_shift t e0 e1 e2 = Ok d1 s1"
    "(case s1 of Done e \<Rightarrow> ret e
       | Go e0 e1 e2 \<Rightarrow>
         bind_comp (sr_slice_concat t e0 e1 e2) (\<lambda>s2.
           case s2 of Done e \<Rightarrow> ret e
           | Go e0 e1 e2 \<Rightarrow>
             bind_comp (sr_slice_cast e0 e1) (\<lambda>e0.
             bind_comp (sr_slice_slice e0 e1 e2) (\<lambda>(e0, e1, e2). sr_slice_full t e0 e1 e2)))) = Ok d2 e"
    using assms unfolding sr_Slice_def by (rule bind_comp_OkE)
  note p1 = sr_slice_shift_smaller [OF s1(1)]
  show ?thesis
  proof (cases s1)
    case (Done x)
    then show ?thesis using p1 s1(2) by (simp add: step_smaller_def)
  next
    case (Go f0 f1 f2)
    then obtain d3 s2 d4 where s2: "sr_slice_concat t f0 f1 f2 = Ok d3 s2"
      "(case s2 of Done e \<Rightarrow> ret e
           | Go e0 e1 e2 \<Rightarrow>
             bind_comp (sr_slice_cast e0 e1) (\<lambda>e0.
             bind_comp (sr_slice_slice e0 e1 e2) (\<lambda>(e0, e1, e2). sr_slice_full t e0 e1 e2))) = Ok d4 e"
      using s1(2) by (auto elim: bind_comp_OkE)
    have o1: "operands_smaller (e0, e1, e2) (f0, f1, f2)" using p1 Go by (simp add: step_smaller_def)
    have p2: "step_smaller t (e0, e1, e2) s2" using operands_step [OF o1 sr_slice_concat_smaller [OF s2(1)]] .
    show ?thesis
    proof (cases s2)
      case (Done x)
      then show ?thesis using p2 s2(2) by (simp add: step_smaller_def)
    next
      case (Go g0 g1 g2)
      then obtain d5 h0 d6 i0 i1 i2 d7 where h: "sr_slice_cast g0 g1 = Ok d5 h0" "sr_slice_slice h0 g1 g2 = Ok d6 (i0, i1, i2)"
        "sr_slice_full t i0 i1 i2 = Ok d7 e"
        using s2(2) by (auto elim!: bind_comp_OkE)
      have "operands_smaller (e0, e1, e2) (g0, g1, g2)" using p2 Go by (simp add: step_smaller_def)
      moreover have "operands_smaller (g0, g1, g2) (h0, g1, g2)"
        using sr_slice_cast_smaller [OF h(1)] by (auto simp: operands_smaller_def)
      moreover have "operands_smaller (h0, g1, g2) (i0, i1, i2)" by (rule sr_slice_slice_smaller [OF h(2)])
      ultimately have "operands_smaller (e0, e1, e2) (i0, i1, i2)" by (blast intro: operands_smaller_trans)
      then show ?thesis using sr_slice_full_smaller [OF h(3)] operands_smaller_slice smaller_trans by blast
    qed
  qed
qed

lemma plus_slice_shift_smaller:
  assumes "plus_slice_shift b mv e0 e1 = Some (f0, f1)" "b \<in> {Shl, Shr}" "weight mv \<le> 2" "mv \<noteq> BXor"
  shows "(f0, f1) = (e0, e1) \<or> 3 * emeasure f0 + emeasure f1 < 3 * emeasure e0 + emeasure e1"
proof -
  have "3 * emeasure x + (emeasure e1 + emeasure k + weight mv) < 3 * (emeasure x + emeasure k + 2) + emeasure e1" for x k
    using assms(3) by simp
  then show ?thesis
    using assms by (auto simp: plus_slice_shift_def mk_binary_untyped_def split: option.splits if_splits)
qed

lemma sr_PlusSlice_smaller:
  assumes "sr_PlusSlice t e0 e1 e2 = Ok ds e"
  shows "smaller (PlusSlice t e0 e1 e2) e"
proof (cases "to_Constant e1 \<noteq> None \<and> to_Constant e2 \<noteq> None")
  case True
  then obtain t1 v1 b1 t2 v2 b2 where c: "to_Constant e1 = Some (t1, v1, b1)" "to_Constant e2 = Some (t2, v2, b2)" by auto
  then obtain t' h l d where "sr_Slice t' e0 (inf_constant h) (inf_constant l) = Ok d e"
    using assms by (auto simp: sr_PlusSlice_def bind_comp_Ok_iff simp del: to_node_Some)
  from smaller_le [OF sr_Slice_smaller [OF this]] have "emeasure e \<le> 3 * emeasure e0 + 3" by simp
  moreover have "1 \<le> emeasure e1" "1 \<le> emeasure e2" by simp_all
  ultimately show ?thesis by (simp add: smaller_def del: emeasure_ge)
next
  case False
  then have e: "e = (case plus_slice_shift Shr Add e0 e1 of
                 None \<Rightarrow> PlusSlice t e0 e1 e2
               | Some (e0', e1') \<Rightarrow>
                   (case plus_slice_shift Shl Sub e0' e1' of
                      None \<Rightarrow> PlusSlice t e0' e1' e2
                    | Some (e0'', e1'') \<Rightarrow> PlusSlice t e0'' e1'' e2))"
    using assms by (auto simp: sr_PlusSlice_def simp del: to_node_Some split: option.splits)
  show ?thesis
  proof (cases "plus_slice_shift Shr Add e0 e1")
    case None
    then show ?thesis by (simp add: e)
  next
    case (Some f)
    obtain f0 f1 where f: "f = (f0, f1)" by (cases f)
    have 1: "(f0, f1) = (e0, e1) \<or> 3 * emeasure f0 + emeasure f1 < 3 * emeasure e0 + emeasure e1"
      using plus_slice_shift_smaller [of Shr Add e0 e1 f0 f1] Some f by simp
    show ?thesis
    proof (cases "plus_slice_shift Shl Sub f0 f1")
      case None
      then show ?thesis using 1 Some f by (auto simp: e smaller_def)
    next
      case g: (Some g)
      obtain g0 g1 where gg: "g = (g0, g1)" by (cases g)
      have "(g0, g1) = (f0, f1) \<or> 3 * emeasure g0 + emeasure g1 < 3 * emeasure f0 + emeasure f1"
        using plus_slice_shift_smaller [of Shl Sub f0 f1 g0 g1] g gg by simp
      then show ?thesis using 1 Some f g gg by (auto simp: e smaller_def)
    qed
  qed
qed

lemma sr_expr_smaller: "sr_expr en e = Ok ds e' \<Longrightarrow> smaller e e'"
proof (induction e arbitrary: ds e' rule: expr_children_induct)
  case (children e)
  obtain d1 e1 d2 where e1: "visit_children (sr_expr en) e = Ok d1 e1" "sr_postorder en e1 = Ok d2 e'"
    using children(2) by (subst (asm) sr_expr.simps) (rule bind_comp_OkE)
  have "smaller e e1" using smaller_visit [OF e1(1)] children(1) by blast
  moreover have "smaller e1 e'" using e1(2) unfolding sr_postorder_def
    by (auto split: expr.splits unop.splits binop.splits
        simp: sr_UPlus_def smaller_def [of "Unary UPlus t x" x for t x]
        intro: sr_Cmpl_smaller sr_LNot_smaller sr_BAnd_smaller sr_BOr_smaller sr_BXor_smaller sr_LAnd_smaller sr_LOr_smaller
          sr_Equ_smaller sr_Neq_smaller sr_Sub_smaller sr_Add_smaller sr_shift_smaller sr_Mul_smaller sr_Div_smaller
          sr_Mod_smaller sr_Concat_smaller sr_Range_smaller sr_Mask_smaller sr_Mux_smaller sr_ArrayIndex_smaller
          sr_Slice_smaller sr_PlusSlice_smaller)
  ultimately show ?case by (rule smaller_trans)
qed

end
