(* ===== verification/OptimizeExpr_Ends.thy ===== *)
theory OptimizeExpr_Ends
  imports OptimizeExpr
begin

text \<open>
  Constant folding makes expressions smaller too, so the repetition of the two passes ends; and since each
  of them keeps the values of expressions, so does \<open>optimizeExpression\<close>.
\<close>

section \<open>Constant folding makes expressions smaller\<close>

text \<open>A folder without types and without recorded constants, as \<open>optimizeExpression\<close> makes it.\<close>

definition bare :: "cf_env \<Rightarrow> bool" where
  "bare cf \<longleftrightarrow> \<not> typesKnown cf \<and> (\<forall>e. hook cf e = None) \<and> (\<forall>d. constants cf d = None)"

lemma same_with_children:
  "list_all2 (\<lambda>x y. emeasure y = emeasure x) (children e) cs \<Longrightarrow> emeasure (with_children e cs) = emeasure e"
proof -
  have l: "sum_list (map emeasure ys) = sum_list (map emeasure xs)" if "list_all2 (\<lambda>x y. emeasure y = emeasure x) xs ys" for xs ys
    using that by (induction rule: list_all2_induct) auto
  assume c: "list_all2 (\<lambda>x y. emeasure y = emeasure x) (children e) cs"
  show ?thesis
  proof (cases e)
    case (StructExpression t fs)
    then have "length cs = length fs" using c by (auto dest: list_all2_lengthD)
    then have "sum_list (map (\<lambda>f. emeasure (snd f)) (zip (map fst fs) cs)) = sum_list (map emeasure cs)"
      by (simp add: comp_def flip: map_map [of emeasure snd, unfolded comp_def])
    then show ?thesis using l [OF c] StructExpression by (simp add: comp_def)
  qed (use c l in \<open>auto simp: list_all2_Cons1\<close>)
qed

lemma emeasure_CloneConstants: "CloneConstants e = Ok ds e' \<Longrightarrow> emeasure e' = emeasure e"
proof (induction e arbitrary: ds e' rule: expr_children_induct)
  case (children e)
  then obtain d1 e1 d2 where e1: "visit_children CloneConstants e = Ok d1 e1" "clone_Constant e1 = Ok d2 e'"
    by (subst (asm) CloneConstants.simps) (auto elim: bind_comp_OkE)
  then obtain d3 cs where cs: "mapM_comp CloneConstants (children e) = Ok d3 cs" "e1 = with_children e cs"
    by (auto simp: visit_children_def comp_simps)
  have "list_all2 (\<lambda>x y. emeasure y = emeasure x) (children e) cs"
    using mapM_comp_list_all2 [OF cs(1)] children(1) by (auto elim: list.rel_mono_strong)
  then have "emeasure e1 = emeasure e" using cs(2) same_with_children by simp
  moreover have "emeasure e' = emeasure e1" using e1(2)
    by (cases e1) (auto dest: emeasure_constant split: p4type.splits)
  ultimately show ?case by simp
qed

lemma getConstant_measure: "getConstant cf e = Ok ds (Some c) \<Longrightarrow> emeasure c = emeasure e"
  by (cases e) (auto simp: comp_simps simp del: emeasure.simps dest: emeasure_CloneConstants
        split: if_splits option.splits decl.splits)

text \<open>What a computation yields when it returns.\<close>

definition yields :: "('a \<Rightarrow> bool) \<Rightarrow> 'a comp \<Rightarrow> bool" where
  "yields P m \<longleftrightarrow> (\<forall>ds a. m = Ok ds a \<longrightarrow> P a)"

lemma yields_simps [simp]: "yields P (Ok ds a) = P a" "yields P (Bug m)"
  by (simp_all add: yields_def)

lemma yields_prefix [simp]: "yields P (case m of Bug x \<Rightarrow> Bug x | Ok ds x \<Rightarrow> Ok (ds0 @ ds) x) = yields P m"
  by (cases m) simp_all

lemma yieldsD: "yields P m \<Longrightarrow> m = Ok ds a \<Longrightarrow> P a"
  by (simp add: yields_def)

lemma yields_bind: "(\<And>a. yields P (f a)) \<Longrightarrow> yields P (bind_comp m f)"
  by (auto simp: yields_def bind_comp_Ok_iff)

lemma yields_bind_Ok: "(\<And>d a. m = Ok d a \<Longrightarrow> yields P (f a)) \<Longrightarrow> yields P (bind_comp m f)"
  by (fastforce simp: yields_def bind_comp_Ok_iff)

lemma yields_constant: "1 < emeasure e \<Longrightarrow> yields (smaller e) (mk_constant t v b n)"
  by (auto simp: yields_def smaller_def dest: emeasure_constant)

lemma smaller_literal: "1 < emeasure e \<Longrightarrow> emeasure e' = 1 \<Longrightarrow> smaller e e'"
  by (simp add: smaller_def)

lemma operands_gt1 [simp]:
  "Suc 0 < emeasure (Unary u t x)" "Suc 0 < emeasure (Cast t x)" "Suc 0 < emeasure (Binary b t l r)"
  "Suc 0 < emeasure (Slice t e0 e1 e2)" "Suc 0 < emeasure (PlusSlice t e0 e1 e2)" "Suc 0 < emeasure (Mux t e0 e1 e2)"
  using emeasure_gt1(3) [of b t l r] by (simp_all del: emeasure.simps(7))

lemma smaller_operand [simp]:
  "smaller (Binary b t l r) l" "smaller (Binary b t l r) r" "smaller (Mux t c l r) l" "smaller (Mux t c l r) r"
  using emeasure_gt1(1,2) [of _ b t] by (simp_all add: smaller_def del: emeasure.simps(7))

lemmas yields_rules = yields_bind yields_constant smaller_literal

lemma fold_unary_yields:
  "yields (smaller (Unary Cmpl t x)) (fold_Cmpl cf t x)" "yields (smaller (Unary Neg t x)) (fold_Neg cf t x)"
  "yields (smaller (Unary UPlus t x)) (fold_UPlus cf t x)" "yields (smaller (Unary LNot t x)) (fold_LNot cf t x)"
  unfolding fold_Cmpl_def fold_Neg_def fold_UPlus_def fold_LNot_def
  by (auto intro!: yields_rules simp del: emeasure.simps(4) split: option.split)

lemma binary_yields: "yields (smaller (Binary b t l r)) (binary cf b t l r sat)"
  unfolding binary_def Let_def
  by (auto intro!: yields_rules simp del: emeasure.simps(7) split: option.split operands.split)

lemma compare_yields:
  assumes "bare cf"
  shows "yields (smaller (Binary b t l r)) (compare cf b t l r)"
  by (subst compare.simps)
    (use assms in \<open>auto simp: bare_def Let_def simp del: emeasure.simps(7) intro!: yields_rules binary_yields split: option.split\<close>)

lemma fold_LAnd_yields: "yields (smaller (Binary LAnd t l r)) (fold_LAnd cf t l r)"
  unfolding fold_LAnd_def by (auto intro!: yields_rules simp del: emeasure.simps(7) split: option.split)

lemma fold_LOr_yields: "yields (smaller (Binary LOr t l r)) (fold_LOr cf t l r)"
  unfolding fold_LOr_def by (auto intro!: yields_rules simp del: emeasure.simps(7) split: option.split)

lemma shift_yields: "yields (smaller (Binary b t l r)) (shift cf b t l r)"
  unfolding shift_def shift_constant_def Let_def
  by (auto intro!: yields_rules simp del: emeasure.simps(7) split: option.split)

lemma fold_Concat_yields: "yields (smaller (Binary Concat t l r)) (fold_Concat cf t l r)"
  unfolding fold_Concat_def Let_def
  by (auto intro!: yields_rules simp del: emeasure.simps(7) split: option.split)

lemma fold_Binary_yields: "bare cf \<Longrightarrow> yields (smaller (Binary b t l r)) (fold_Binary cf b t l r)"
  by (cases b) (simp_all add: fold_Binary_def fold_LAnd_yields fold_LOr_yields compare_yields shift_yields
      fold_Concat_yields binary_yields)

lemma fold_Slice_yields: "yields (smaller (Slice t e0 e1 e2)) (fold_Slice cf t e0 e1 e2)"
  unfolding fold_Slice_def slice_constant_def Let_def
  by (auto intro!: yields_rules simp del: emeasure.simps(12) split: option.split)

lemma fold_PlusSlice_yields: "yields (smaller (PlusSlice t e0 e1 e2)) (fold_PlusSlice cf t e0 e1 e2)"
  unfolding fold_PlusSlice_def slice_constant_def Let_def
  by (auto intro!: yields_rules simp del: emeasure.simps(13) split: option.split)

lemma fold_Mux_yields: "yields (smaller (Mux t c a b)) (fold_Mux cf t c a b)"
  unfolding fold_Mux_def by (auto intro!: yields_rules simp del: emeasure.simps(11) split: option.split)

lemma fold_Member_yields: "bare cf \<Longrightarrow> yields (smaller (Member t x m)) (fold_Member cf ty t x m)"
  by (auto simp: fold_Member_def bare_def)

lemma fold_ArrayIndex_yields: "bare cf \<Longrightarrow> yields (smaller (ArrayIndex t l r)) (fold_ArrayIndex cf ty t l r)"
  by (auto simp: fold_ArrayIndex_def bare_def)

lemma fold_PathExpression_yields: "bare cf \<Longrightarrow> yields (smaller (PathExpression t p)) (fold_PathExpression cf a t p)"
  by (auto simp: fold_PathExpression_def bare_def Let_def split: option.split decl.split)

lemma EnumInstance_measure: "EnumInstance_resolve x = Ok ds (Some (SerEnumInstance et n v)) \<Longrightarrow> emeasure v = 1"
  by (induction x rule: EnumInstance_resolve.induct) (auto split: p4type.splits option.splits)

lemma cast_to_bits_yields: "yields (smaller (Cast t e)) (cast_to_bits t w s e x)"
  unfolding cast_to_bits_def
  by (auto intro!: yields_rules yields_bind_Ok simp del: emeasure.simps(5) dest: EnumInstance_measure
      split: option.split enum_instance.split)

lemma fold_Cast_yields: "yields (smaller (Cast t x)) (fold_Cast cf t x)"
proof -
  have "yields (smaller (Cast t x)) (CloneConstants c)" if "getConstant cf x = Ok d (Some c)" for d c
    using getConstant_measure [OF that] emeasure_CloneConstants by (auto simp: yields_def smaller_def)
  moreover have "yields (smaller (Cast Type_InfInt x)) (cast_to_int x c)" for c
    unfolding cast_to_int_def by (auto intro!: yields_rules simp del: emeasure.simps(5) split: option.split)
  moreover have "yields (smaller (Cast Type_Boolean x)) (cast_to_bool x c)" for c
    unfolding cast_to_bool_def Let_def by (auto intro!: yields_rules simp del: emeasure.simps(5) split: option.split)
  ultimately show ?thesis
    unfolding fold_Cast_def by (auto intro!: yields_bind_Ok cast_to_bits_yields split: option.split)
qed

lemma postorder_yields: "bare cf \<Longrightarrow> yields (smaller e) (postorder cf a orig e)"
  unfolding postorder_def
  by (auto split: expr.split unop.split
      intro: fold_unary_yields fold_Binary_yields fold_Slice_yields fold_PlusSlice_yields fold_Member_yields
        fold_Mux_yields fold_Cast_yields fold_PathExpression_yields)

lemma fold_expr_smaller:
  assumes "bare cf"
  shows "fold_expr cf a e = Ok ds e' \<Longrightarrow> smaller e e'"
proof (induction e arbitrary: a ds e' rule: expr_children_induct)
  case (children e)
  show ?case
  proof (cases "\<exists>t l r. e = ArrayIndex t l r")
    case True
    then obtain t l r where e: "e = ArrayIndex t l r" by blast
    obtain d1 l' d2 r' d3 where "fold_expr cf a l = Ok d1 l'" "fold_expr cf False r = Ok d2 r'"
      and p: "fold_ArrayIndex cf (type_of l) t l' r' = Ok d3 e'"
      using children(2) by (subst (asm) fold_expr.simps) (auto simp: e elim!: bind_comp_OkE)
    then have "smaller l l'" "smaller r r'" using children(1) by (auto simp: e)
    then have "smaller e (ArrayIndex t l' r')" by (auto simp: e smaller_def)
    then show ?thesis using yieldsD [OF fold_ArrayIndex_yields [OF assms] p] smaller_trans by blast
  next
    case False
    obtain d1 e1 d2 where e1: "visit_children (fold_expr cf a) e = Ok d1 e1" "postorder cf a e e1 = Ok d2 e'"
      using children(2) False by (subst (asm) fold_expr.simps) (cases e; auto elim!: bind_comp_OkE)
    have "smaller e e1" using smaller_visit [OF e1(1)] children(1) by blast
    then show ?thesis using yieldsD [OF postorder_yields [OF assms] e1(2)] smaller_trans by blast
  qed
qed

section \<open>The repetition ends\<close>

lemma bare_folding_env: "bare (folding_env w)"
  by (simp add: bare_def folding_env_def)

lemma transform_returns:
  assumes "\<And>e ds e'. f e = Ok ds e' \<Longrightarrow> smaller e e'"
  shows "\<exists>r s'. run (transform n f) e s = Some (r, s') \<and> shrinks emeasure e r"
proof (cases "f e")
  case (Ok ds e')
  then show ?thesis using assms [OF Ok] by (simp add: transform_def shrinks_def smaller_def)
qed (simp add: transform_def shrinks_def)

interpretation sr_pass: shrinking_passes emeasure "passes (StrengthReduction en)"
proof
  fix v :: "(expr, diag list, unit) pass" and e s
  assume "v \<in> set (passes (StrengthReduction en))"
  then have v: "v = transform ''StrengthReduction'' (sr_expr en)" by (simp add: StrengthReduction_def)
  show "\<exists>r s'. run v e s = Some (r, s') \<and> shrinks emeasure e r"
    unfolding v by (rule transform_returns) (erule sr_expr_smaller)
qed

interpretation cf_pass: shrinking_passes emeasure "passes (ConstantFolding (folding_env w))"
proof
  fix v :: "(expr, diag list, unit) pass" and e s
  assume "v \<in> set (passes (ConstantFolding (folding_env w)))"
  then have v: "v = transform ''DoConstantFolding'' (fold_expr (folding_env w) False)" by (simp add: ConstantFolding_def)
  show "\<exists>r s'. run v e s = Some (r, s') \<and> shrinks emeasure e r"
    unfolding v by (rule transform_returns) (erule fold_expr_smaller [OF bare_folding_env])
qed

interpretation both: shrinking_passes emeasure "passes (optimize_passes w)"
proof
  fix v :: "(expr, diag list, unit) pass" and e s
  assume "v \<in> set (passes (optimize_passes w))"
  then have "run v = apply_visitor errorCount (StrengthReduction True) \<or>
      run v = apply_visitor errorCount (ConstantFolding (folding_env w))"
    by (auto simp: optimize_passes_def manager_pass_def)
  then show "\<exists>r s'. run v e s = Some (r, s') \<and> shrinks emeasure e r"
    using sr_pass.manager_shrinks [OF refl, of errorCount] cf_pass.manager_shrinks [OF refl, of errorCount] by metis
qed

section \<open>Paths\<close>

text \<open>The folder reports each path of an expression.\<close>

fun is_path :: "expr \<Rightarrow> bool" where
  "is_path (PathExpression t p) = True"
| "is_path e = False"

function has_path :: "expr \<Rightarrow> bool" where
  "has_path e = (is_path e \<or> list_ex has_path (children e))"
  by auto
termination
  by (relation "measure size") (auto simp: size_children)

declare has_path.simps [simp del]

lemma fold_expr_paths: "fold_expr (folding_env w) False e = Ok ds e' \<Longrightarrow> no_error ds \<Longrightarrow> \<not> has_path e"
proof (induction e arbitrary: ds e' rule: expr_children_induct)
  case (children e)
  have "\<exists>d y. fold_expr (folding_env w) False x = Ok d y \<and> no_error d" if x: "x \<in> set (children e)" for x
  proof (cases "\<exists>t l r. e = ArrayIndex t l r")
    case True
    then show ?thesis using children(2,3) x by (subst (asm) fold_expr.simps) (auto elim!: bind_comp_OkE)
  next
    case False
    obtain d1 e1 d2 where e1: "visit_children (fold_expr (folding_env w) False) e = Ok d1 e1" "ds = d1 @ d2"
      using children(2) False by (subst (asm) fold_expr.simps) (cases e; auto elim!: bind_comp_OkE)
    then obtain cs where "mapM_comp (fold_expr (folding_env w) False) (children e) = Ok d1 cs"
      by (auto simp: visit_children_def comp_simps)
    from mapM_comp_Ok_diags [OF this] x obtain y d where "fold_expr (folding_env w) False x = Ok d y" "set d \<subseteq> set d1"
      by (auto simp: list_all2_conv_all_nth in_set_conv_nth)
    then show ?thesis using children(3) e1(2) by (auto simp: no_error_def)
  qed
  then have "\<not> list_ex has_path (children e)" using children(1) by (fastforce simp: list_ex_iff)
  moreover have "\<not> is_path e"
  proof
    assume "is_path e"
    then obtain t p where "e = PathExpression t p" by (cases e) auto
    then have "ds = [Error ERR_NOT_FOUND]" using children(2)
      by (subst (asm) fold_expr.simps)
        (simp add: visit_children_def postorder_def fold_PathExpression_def folding_env_def)
    then show False using children(3) by (simp add: no_error_def)
  qed
  ultimately show ?case by (simp add: has_path.simps [of e])
qed

section \<open>One round\<close>

lemma single_pass:
  "apply_visitor errorCount \<lparr>passes = [transform n f], stop_on_error = b\<rparr> e s =
     Some (case f e of Bug m \<Rightarrow> (Stopped m, s) | Ok ds e' \<Rightarrow> (Returned (Some e'), s @ ds))"
proof -
  have "no_triggers [transform n f]" by (auto simp: no_triggers_def transform_def split: comp.splits)
  then show ?thesis by (subst manager_sequence) (simp_all add: transform_def split: comp.split)
qed

lemma round:
  "apply_visitor errorCount (optimize_passes w) e s =
     Some (case sr_expr True e of Bug m \<Rightarrow> (Stopped m, s) | Ok d1 e1 \<Rightarrow>
       (if 0 < errorCount d1 then (Returned (Some e1), s @ d1)
        else case fold_expr (folding_env w) False e1 of Bug m \<Rightarrow> (Stopped m, s @ d1) | Ok d2 e2 \<Rightarrow>
          (Returned (Some e2), s @ d1 @ d2)))"
proof -
  have n: "no_triggers (passes (optimize_passes w))" by (rule both.shrinking_no_triggers)
  have "apply_visitor errorCount (optimize_passes w) e s =
      run_all errorCount True (errorCount s) (passes (optimize_passes w)) e s"
    using manager_sequence [OF n] by (simp add: optimize_passes_def)
  also have "\<dots> = Some (case sr_expr True e of Bug m \<Rightarrow> (Stopped m, s) | Ok d1 e1 \<Rightarrow>
       (if 0 < errorCount d1 then (Returned (Some e1), s @ d1)
        else case fold_expr (folding_env w) False e1 of Bug m \<Rightarrow> (Stopped m, s @ d1) | Ok d2 e2 \<Rightarrow>
          (Returned (Some e2), s @ d1 @ d2)))"
    by (simp add: optimize_passes_def manager_pass_def StrengthReduction_def ConstantFolding_def single_pass split: comp.split)
  finally show ?thesis .
qed

section \<open>The value is kept\<close>

text \<open>No round meets one of the shapes for which strength reduction is not exact; the rounds end, so that
  as many as the measure are enough.\<close>

fun exact_rounds :: "int \<Rightarrow> nat \<Rightarrow> expr \<Rightarrow> bool" where
  "exact_rounds w 0 e = True"
| "exact_rounds w (Suc n) e =
     (sr_exact True e \<and>
      (case sr_expr True e of Bug m \<Rightarrow> True | Ok d1 e1 \<Rightarrow>
        (case fold_expr (folding_env w) False e1 of Bug m \<Rightarrow> True | Ok d2 e2 \<Rightarrow> e2 = e \<or> exact_rounds w n e2)))"

lemma round_Returned:
  assumes "apply_visitor errorCount (optimize_passes w) e s = Some (Returned (Some e'), s')" "errorCount s' = 0"
  shows "\<exists>d1 e1 d2. sr_expr True e = Ok d1 e1 \<and> no_error d1 \<and> fold_expr (folding_env w) False e1 = Ok d2 e' \<and> no_error d2"
proof (cases "sr_expr True e")
  case (Bug m)
  then show ?thesis using assms(1) by (simp add: round)
next
  case (Ok d1 e1)
  show ?thesis
  proof (cases "0 < errorCount d1")
    case True
    then have "s' = s @ d1" using assms(1) Ok by (simp add: round)
    then show ?thesis using True assms(2) by simp
  next
    case False
    then show ?thesis using assms Ok
      by (cases "fold_expr (folding_env w) False e1") (auto simp: round simp flip: no_error_errorCount)
  qed
qed

lemma round_evals:
  assumes r: "apply_visitor errorCount (optimize_passes w) e s = Some (Returned (Some e'), s')" "errorCount s' = 0"
    and "sr_exact True e" "wf_env \<rho>" "w < 2147483647" "evals \<rho> e v"
  shows "evals \<rho> e' v"
proof -
  obtain d1 e1 d2 where d: "sr_expr True e = Ok d1 e1" "no_error d1" "fold_expr (folding_env w) False e1 = Ok d2 e'"
    using round_Returned [OF r] by blast
  have "evals \<rho> e1 v" by (rule sr_expr_evals [OF d(1,2) assms(3,4,6)])
  moreover have "cf_ok \<rho> (folding_env w)" using assms(5) by (simp add: cf_ok_def folding_env_def)
  moreover have "cf_typed \<rho> (folding_env w)" by (simp add: cf_typed_def folding_env_def)
  ultimately show ?thesis using fold_expr_keeps_if [OF d(3) _ _ assms(4)] by (simp add: folding_env_def)
qed

lemma exact_rounds_Suc:
  assumes "exact_rounds w (Suc n) e" "apply_visitor errorCount (optimize_passes w) e s = Some (Returned (Some e'), s')"
    "errorCount s' = 0"
  shows "sr_exact True e" "e' = e \<or> exact_rounds w n e'"
  using assms(1) round_Returned [OF assms(2,3)] by (auto split: comp.splits)

lemma errorCount_round:
  "apply_visitor errorCount (optimize_passes w) e s = Some (r, s') \<Longrightarrow> errorCount s \<le> errorCount s'"
  by (auto simp: round split: comp.splits if_splits)

lemma errorCount_repeated:
  "repeated_loop errorCount (optimize_passes w) 0 k n e s = Some (r, s') \<Longrightarrow> errorCount s \<le> errorCount s'"
proof (induction "emeasure e" arbitrary: e s n rule: less_induct)
  case less
  obtain r1 s1 where r: "apply_visitor errorCount (optimize_passes w) e s = Some (r1, s1)" "shrinks emeasure e r1"
    using both.manager_shrinks [OF refl] by blast
  note s1 = errorCount_round [OF r(1)]
  note loop = less(2) [unfolded repeated_loop.simps [of _ _ _ _ _ e], unfolded r(1), simplified]
  from r(2) consider m where "r1 = Stopped m" | q where "r1 = Returned (Some q)" "q = e \<or> emeasure q < emeasure e"
    by (auto simp: shrinks_def)
  then show ?case
  proof cases
    case (2 q)
    then show ?thesis using loop s1 less(1) [of q _ s1] by (fastforce simp: Let_def split: if_splits)
  qed (use loop s1 in auto)
qed

lemma repeated_evals:
  assumes "wf_env \<rho>" "w < 2147483647"
  shows "repeated_loop errorCount (optimize_passes w) 0 0 n e s = Some (Returned (Some e'), s') \<Longrightarrow> errorCount s' = 0 \<Longrightarrow>
    exact_rounds w m e \<Longrightarrow> emeasure e \<le> m \<Longrightarrow> evals \<rho> e v \<Longrightarrow> evals \<rho> e' v"
proof (induction m arbitrary: e s n)
  case 0
  then show ?case using emeasure_pos [of e] by simp
next
  case (Suc m)
  obtain r s1 where r: "apply_visitor errorCount (optimize_passes w) e s = Some (r, s1)" "shrinks emeasure e r"
    using both.manager_shrinks [OF refl] by blast
  note loop = Suc(2) [unfolded repeated_loop.simps [of _ _ _ _ _ e], unfolded r(1), simplified]
  from r(2) consider m where "r = Stopped m" | q where "r = Returned (Some q)" "q = e \<or> emeasure q < emeasure e"
    by (auto simp: shrinks_def)
  then show ?case
  proof cases
    case (2 q)
    note r1 = r(1) [unfolded 2(1)]
    have "errorCount s1 = 0"
    proof (cases "0 < errorCount s1")
      case True
      then have "s1 = s'" using loop 2(1) by (auto simp: optimize_passes_def Let_def)
      then show ?thesis using Suc(3) by simp
    qed simp
    note keeps = round_evals [OF r1 this exact_rounds_Suc(1) [OF Suc(4) r1 this] assms Suc(6)]
      and q = exact_rounds_Suc(2) [OF Suc(4) r1 this]
    show ?thesis
    proof (cases "q = e")
      case True
      then show ?thesis using loop 2(1) Suc(6) \<open>errorCount s1 = 0\<close> by (simp add: Let_def)
    next
      case False
      then have "repeated_loop errorCount (optimize_passes w) 0 0 (Suc n) q s1 = Some (Returned (Some e'), s')"
        using loop 2(1) \<open>errorCount s1 = 0\<close> by (simp add: Let_def)
      moreover have "emeasure q \<le> m" using 2(2) False Suc(5) by auto
      ultimately show ?thesis using Suc(1) [of "Suc n" q s1] Suc(3) q keeps False by blast
    qed
  qed (use loop in auto)
qed

text \<open>Constant folding alone keeps the value in every round, whatever its manager does.\<close>

definition value_kept :: "sem_env \<Rightarrow> val \<Rightarrow> int \<Rightarrow> expr \<Rightarrow> expr \<Rightarrow> bool" where
  "value_kept \<rho> v w e e' \<longleftrightarrow> (wf_env \<rho> \<longrightarrow> w < 2147483647 \<longrightarrow> evals \<rho> e v \<longrightarrow> evals \<rho> e' v)"

interpretation folding: related_passes "value_kept \<rho> v w" "passes (ConstantFolding (folding_env w))"
proof
  fix u :: "(expr, diag list, unit) pass" and e s e' s'
  assume "u \<in> set (passes (ConstantFolding (folding_env w)))" and r: "run u e s = Some (Returned (Some e'), s')"
  then have u: "u = transform ''DoConstantFolding'' (fold_expr (folding_env w) False)" by (simp add: ConstantFolding_def)
  then obtain ds where d: "fold_expr (folding_env w) False e = Ok ds e'"
    using r by (auto simp: transform_def split: comp.splits)
  have "cf_typed \<rho> (folding_env w)" by (simp add: cf_typed_def folding_env_def)
  then show "value_kept \<rho> v w e e'"
    using fold_expr_keeps_if [OF d] by (auto simp: value_kept_def cf_ok_def folding_env_def)
qed (auto simp: value_kept_def)

lemma repeated_folding_keeps:
  assumes "pass_repeated errors (ConstantFolding (folding_env w)) repeats e s = Some (Returned (Some e'), s')"
    "wf_env \<rho>" "w < 2147483647" "evals \<rho> e v"
  shows "evals \<rho> e' v"
  using folding.repeated_related [OF refl assms(1)] assms(2-4) by (simp add: value_kept_def)

section \<open>Properties\<close>

lemma smaller_antisym: "smaller e e' \<Longrightarrow> smaller e' e \<Longrightarrow> e' = e"
  by (auto simp: smaller_def)

lemma round_fixed:
  assumes "apply_visitor errorCount (optimize_passes w) e s = Some (Returned (Some e), s')" "errorCount s' = 0"
  shows "\<exists>d1 d2. sr_expr True e = Ok d1 e \<and> fold_expr (folding_env w) False e = Ok d2 e \<and> no_error d1 \<and> no_error d2"
proof -
  obtain d1 e1 d2 where d: "sr_expr True e = Ok d1 e1" "fold_expr (folding_env w) False e1 = Ok d2 e" "no_error d1" "no_error d2"
    using round_Returned [OF assms] by blast
  then have "e1 = e"
    using smaller_antisym sr_expr_smaller fold_expr_smaller [OF bare_folding_env] by blast
  then show ?thesis using d by blast
qed

text \<open>C3: The optimisation of an expression ends, for every expression, although its passes are repeated without
  a limit: each change makes the expression smaller in a fixed measure.  When it returns an expression, and
  not the BUG for errors, there are no errors, neither strength reduction nor constant folding changes that
  expression further or reports an error for it, and it contains no path: a path that strength reduction does
  not remove is reported as not declared and leads to the BUG.\<close>

theorem optimizeExpression_ends:
  "\<exists>r. optimizeExpression w e s = Some r \<and>
     (case r of
        Bug m \<Rightarrow> True
      | Ok ds e' \<Rightarrow> errorCount ds = 0 \<and> smaller e e' \<and> \<not> has_path e' \<and>
          (\<exists>d1 d2. sr_expr True e' = Ok d1 e' \<and> fold_expr (folding_env w) False e' = Ok d2 e' \<and>
             errorCount d1 = 0 \<and> errorCount d2 = 0))"
proof -
  obtain r s' where r: "pass_repeated errorCount (optimize_passes w) 0 e s = Some (r, s')" "shrinks emeasure e r"
    and fixed: "\<forall>q. r = Returned (Some q) \<longrightarrow> \<not> errorCount s < errorCount s' \<longrightarrow>
      (\<exists>s1. apply_visitor errorCount (optimize_passes w) q s1 = Some (Returned (Some q), s'))"
    using both.repeated_returns [OF refl, of errorCount w 0 e s] by blast
  from r(2) consider m where "r = Stopped m" | q where "r = Returned (Some q)" "smaller e q"
    by (auto simp: shrinks_def smaller_def)
  then show ?thesis
  proof cases
    case (2 q)
    show ?thesis
    proof (cases "errorCount s' = 0")
      case True
      then obtain d1 d2 where "sr_expr True q = Ok d1 q" "fold_expr (folding_env w) False q = Ok d2 q" "no_error d1" "no_error d2"
        using 2(1) fixed round_fixed [OF _ True, of w q] by fastforce
      then show ?thesis using r(1) 2 True fold_expr_paths [of w q d2 q]
        by (auto simp: optimizeExpression_def no_error_errorCount)
    qed (use r(1) 2 in \<open>simp add: optimizeExpression_def\<close>)
  qed (use r in \<open>simp add: optimizeExpression_def\<close>)
qed

text \<open>C4: When the optimisation of an expression returns one, and not the BUG for errors, it keeps the value and
  the type of the expression in every environment in which the expression has a value, provided that no round
  meets a shape for which strength reduction is not exact.\<close>

theorem optimizeExpression_sound:
  assumes "optimizeExpression w e s = Some (Ok ds e')" "exact_rounds w (emeasure e) e"
    and "wf_env \<rho>" "w < 2147483647" "typed \<rho> e" "eval \<rho> e = Some v"
  shows "typed \<rho> e' \<and> eval \<rho> e' = Some v"
proof -
  obtain r s' where r: "pass_repeated errorCount (optimize_passes w) 0 e s = Some (r, s')"
    using assms(1) by (auto simp: optimizeExpression_def bind_eq_Some_conv)
  then have ok: "r = Returned (Some e')" "errorCount s' = 0"
    using assms(1) by (auto simp: optimizeExpression_def split: outcome.splits option.splits if_splits)
  have "errorCount s = 0" using errorCount_repeated [OF r [unfolded pass_repeated_def]] ok(2) by simp
  then have "evals \<rho> e' v"
    using repeated_evals [OF assms(3,4) r [unfolded pass_repeated_def ok(1) \<open>errorCount s = 0\<close>] ok(2) assms(2) order_refl]
      assms(5,6) by (simp add: evals_def)
  then show ?thesis by (simp add: evals_def)
qed

text \<open>The second round reduces the multiplication that the first one has made possible.  The other operand
  is a field of a structure.\<close>

definition oe_leaf :: expr where
  "oe_leaf = Member b8 (StructExpression (Type_Struct ''s'' [(''y'', b8)]) [(''y'', Constant b8 5 10)]) ''y''"

definition oe_first :: expr where
  "oe_first = Binary Mul b8 oe_leaf (Binary Add b8 (Constant b8 2 10) (Constant b8 2 10))"

definition oe_second :: expr where
  "oe_second = Binary Mul b8 oe_leaf (Constant b8 4 10)"

definition oe_third :: expr where
  "oe_third = Binary Shl b8 oe_leaf (inf_constant 2)"

lemma oe_rounds:
  "sr_expr True oe_first = Ok [] oe_first" "fold_expr (folding_env 2048) False oe_first = Ok [] oe_second"
  "sr_expr True oe_second = Ok [] oe_third" "fold_expr (folding_env 2048) False oe_third = Ok [] oe_third"
  "sr_expr True oe_third = Ok [] oe_third"
  by code_simp+

lemma oe_distinct: "oe_second \<noteq> oe_first" "oe_third \<noteq> oe_second"
  by (simp_all add: oe_first_def oe_second_def oe_third_def)

lemma optimizeExpression_example: "optimizeExpression 2048 oe_first [] = Some (Ok [] oe_third)"
  using oe_distinct by (simp add: optimizeExpression_def pass_repeated_def repeated_loop.simps round oe_rounds Let_def)

text \<open>A path is reported, and that is the BUG.\<close>

lemma optimizeExpression_path:
  "optimizeExpression 2048 (PathExpression b8 ''y'') [] = Some (Bug ''Encountered errors while trying to optimize expressions.'')"
proof -
  have "sr_expr True (PathExpression b8 ''y'') = Ok [] (PathExpression b8 ''y'')"
    "fold_expr (folding_env 2048) False (PathExpression b8 ''y'') = Ok [Error ERR_NOT_FOUND] (PathExpression b8 ''y'')" by code_simp+
  then show ?thesis
    by (simp add: optimizeExpression_def pass_repeated_def repeated_loop.simps round Let_def errorCount_def)
qed

lemma optimizeExpression_sound_witness: "typed sr_env oe_third \<and> eval sr_env oe_third = Some (BitsV 8 False 20)"
proof (rule optimizeExpression_sound [OF optimizeExpression_example _ wf_sr_env])
  show "exact_rounds 2048 (emeasure oe_first) oe_first" by code_simp
  show "typed sr_env oe_first" by code_simp
  show "eval sr_env oe_first = Some (BitsV 8 False 20)" by code_simp
qed simp

end
