(* ===== verification/SliceAssign.thy ===== *)
theory SliceAssign
  imports StrengthRed_Pass
begin

text \<open>
  Two passes on assignments.  SimplifyBitwise (midend/simplifyBitwise.{h,cpp}) replaces an assignment of
  \<open>(a & maskA) | (b & maskB)\<close> with disjoint masks by assignments to the slices of its left side;
  DoRemoveLeftSlices (midend/removeLeftSlices.cpp) replaces an assignment to a slice by one to the whole.
  What an assignment does is a change of the environment that gives the values of variables.  The new
  assignments of SimplifyBitwise are visited again in the code; only one that takes the whole of an operand can
  match again, and the model has one application.
\<close>

section \<open>Assignments\<close>

datatype assign_op = Plain | OpAssign binop

text \<open>\<open>AssignmentStatement\<close> and the classes of \<open>OpAssignmentStatement\<close>: left and right side.\<close>

datatype assign_stmt = Assignment assign_op expr expr

section \<open>SimplifyBitwise\<close>

text \<open>A position that the code keeps in an \<open>int\<close>: the \<open>~0U\<close> of a failed scan becomes -1.  Positions are
  below \<open>2 ^ 31\<close>.\<close>

definition int_pos :: "nat \<Rightarrow> int" where
  "int_pos n = (if n < 2 ^ 31 then int n else -1)"

definition to_unsigned :: "int \<Rightarrow> nat" where
  "to_unsigned i = nat (i mod 2 ^ 32)"

lemma bit_msb: "bit v i \<Longrightarrow> i \<le> msb v" for v :: nat
proof (rule ccontr)
  assume b: "bit v i" "\<not> i \<le> msb v"
  then have "0 < v" by (cases v) auto
  then have "v < 2 ^ (msb v + 1)" using msb_bounds by blast
  also have "(2::nat) ^ (msb v + 1) \<le> 2 ^ i" using b(2) by (intro power_increasing) auto
  finally show False using b(1) by (simp add: bit_nat_def)
qed

lemma msb_bit: "0 < v \<Longrightarrow> bit v (msb v)" for v :: nat
  using msb_bounds [of v] by (simp add: bit_nat_def) (metis Suc_1 div_less_iff_less_mult div_nat_eqI lessI
      mult.commute nat_mult_1 numeral_2_eq_2 odd_one plus_1_eq_Suc power_Suc zero_less_numeral zero_less_power)

lemma scan1_loop_spec:
  "0 < v \<Longrightarrow> p \<le> msb v \<Longrightarrow>
    p \<le> scan1_loop v p \<and> bit v (scan1_loop v p) \<and> (\<forall>i. p \<le> i \<longrightarrow> i < scan1_loop v p \<longrightarrow> \<not> bit v i)"
proof (induction v p rule: scan1_loop.induct)
  case (1 v p)
  show ?case
  proof (cases "msb v \<le> p \<or> bit v p")
    case True
    then have "scan1_loop v p = p" by (subst scan1_loop.simps) simp
    then show ?thesis using True 1(2,3) msb_bit [of v] by auto
  next
    case False
    then have "scan1_loop v p = scan1_loop v (Suc p)" by (subst scan1_loop.simps) simp
    then show ?thesis using False 1 by (auto simp: Suc_le_eq) (metis le_neq_implies_less)
  qed
qed

lemma scan1_positive_spec:
  assumes "scan1_positive v p = q"
  shows "q \<noteq> UINT_MAX \<Longrightarrow> p \<le> q \<and> bit v q \<and> (\<forall>i. p \<le> i \<longrightarrow> i < q \<longrightarrow> \<not> bit v i)"
    "q = UINT_MAX \<Longrightarrow> \<forall>i. bit v i \<longrightarrow> i < UINT_MAX \<Longrightarrow> \<forall>i\<ge>p. \<not> bit v i"
proof -
  have "(v = 0 \<or> msb v < p) \<and> q = UINT_MAX \<or>
      0 < v \<and> p \<le> q \<and> bit v q \<and> (\<forall>i. p \<le> i \<longrightarrow> i < q \<longrightarrow> \<not> bit v i)"
    using assms scan1_loop_spec [of v p] bit_lsb [of v] not_bit_below_lsb [of _ v]
    by (cases "v = 0 \<or> msb v < p") (auto simp: scan1_positive_def not_less split: if_splits)
  moreover have "\<not> bit v i" if "v = 0 \<or> msb v < p" "p \<le> i" for i
    using that bit_msb [of v i] by auto
  ultimately show "q \<noteq> UINT_MAX \<Longrightarrow> p \<le> q \<and> bit v q \<and> (\<forall>i. p \<le> i \<longrightarrow> i < q \<longrightarrow> \<not> bit v i)"
    "q = UINT_MAX \<Longrightarrow> \<forall>i. bit v i \<longrightarrow> i < UINT_MAX \<Longrightarrow> \<forall>i\<ge>p. \<not> bit v i"
    by blast+
qed

text \<open>The scans on integers of either sign.\<close>

lemma scan1_spec:
  assumes "scan1 m p = q"
  shows "q < 2 ^ 31 \<Longrightarrow> p \<le> q \<and> bit m q \<and> (\<forall>i. p \<le> i \<longrightarrow> i < q \<longrightarrow> \<not> bit m i)"
    "0 \<le> m \<Longrightarrow> \<not> q < 2 ^ 31 \<Longrightarrow> \<forall>i. bit m i \<longrightarrow> i < 2 ^ 31 \<Longrightarrow> \<forall>i\<ge>p. \<not> bit m i"
proof -
  have neg: "bit (nat (- m - 1)) i = (\<not> bit m i)" if "m < 0" for i
    using that bit_not_int_iff [of m i] by (simp add: bit_nat_iff not_int_def)
  have pos: "bit (nat m) i = bit m i" if "0 \<le> m" for i
    using that by (simp add: bit_nat_iff)
  show "q < 2 ^ 31 \<Longrightarrow> p \<le> q \<and> bit m q \<and> (\<forall>i. p \<le> i \<longrightarrow> i < q \<longrightarrow> \<not> bit m i)"
  proof (cases "m < 0")
    case True
    then show ?thesis using assms scan0_positive_spec [of p "nat (- m - 1)"] by (auto simp: scan1_def neg)
  next
    case False
    assume "q < 2 ^ 31"
    then show ?thesis using False assms scan1_positive_spec(1) [of "nat m" p q] by (simp add: scan1_def pos)
  qed
  show "\<forall>i\<ge>p. \<not> bit m i" if "0 \<le> m" "\<not> q < 2 ^ 31" "\<forall>i. bit m i \<longrightarrow> i < 2 ^ 31"
  proof (cases "q = UINT_MAX")
    case True
    have "\<forall>i. bit (nat m) i \<longrightarrow> i < UINT_MAX" using that(1,3) by (auto simp: pos)
    then show ?thesis using True assms that(1) scan1_positive_spec(2) [of "nat m" p q] by (simp add: scan1_def pos)
  next
    case False
    then have "bit m q" using assms that(1) scan1_positive_spec(1) [of "nat m" p q] by (simp add: scan1_def pos)
    then show ?thesis using that(2,3) by blast
  qed
qed

lemma scan0_NOT: "scan0 m p = scan1 (NOT m) p"
  by (simp add: scan0_def scan1_def not_int_def)

text \<open>The loop of \<open>assignSlices\<close>: the ranges of contiguous ones, as it passes them to \<open>Slice::make\<close>.\<close>

function slice_ranges :: "int \<Rightarrow> int \<Rightarrow> (int \<times> int) list" where
  "slice_ranges ones one_pos =
     (if 0 \<le> one_pos then
        let zero_pos = int_pos (scan0 ones (nat one_pos))
        in (one_pos, zero_pos - 1) # slice_ranges ones (int_pos (scan1 ones (to_unsigned zero_pos)))
      else [])"
  by pat_completeness auto

definition above :: "int \<Rightarrow> int \<Rightarrow> int" where
  "above m p = (if m < 0 then NOT m else m) div 2 ^ nat p"

lemma above_nonneg: "0 \<le> above m p"
  by (auto simp: above_def pos_imp_zdiv_nonneg_iff not_int_def)

lemma above_less:
  assumes "0 \<le> p" "p < q" "0 < above m p"
  shows "above m q < above m p"
proof -
  define k where "k = nat q - nat p"
  have q: "nat q = nat p + k" "0 < k" using assms(1,2) by (auto simp: k_def)
  have "above m q = above m p div 2 ^ k" by (simp add: above_def q power_add zdiv_zmult2_eq)
  also have "\<dots> < above m p" using assms(3) q(2) by (intro int_div_less_self) (auto simp: one_less_power)
  finally show ?thesis .
qed

lemma above_pos: "0 \<le> p \<Longrightarrow> bit (if m < 0 then NOT m else m) (nat q) \<Longrightarrow> p \<le> q \<Longrightarrow> 0 < above m p"
proof -
  assume a: "0 \<le> p" "bit (if m < 0 then NOT m else m) (nat q)" "p \<le> q"
  then have "bit (above m p) (nat q - nat p)" by (simp add: above_def bit_simps flip: drop_bit_eq_div)
  then have "above m p \<noteq> 0" by auto
  then show ?thesis using above_nonneg [of m p] by simp
qed

lemma next_range:
  assumes "0 \<le> p" "q = int_pos (scan1 m (to_unsigned (int_pos (scan0 m (nat p)))))" "0 \<le> q"
  shows "p < q \<and> 0 < above m p"
proof -
  define z where "z = int_pos (scan0 m (nat p))"
  have qs: "scan1 m (to_unsigned z) < 2 ^ 31" "q = int (scan1 m (to_unsigned z))"
    using assms(2,3) by (auto simp: z_def int_pos_def split: if_splits)
  have z0: "0 \<le> z"
  proof (rule ccontr)
    assume "\<not> 0 \<le> z"
    then have "to_unsigned z = UINT_MAX" by (auto simp: z_def int_pos_def to_unsigned_def split: if_splits)
    then show False using scan1_spec(1) [OF refl qs(1)] qs(1) by simp
  qed
  then have z: "scan0 m (nat p) < 2 ^ 31" "z = int (scan0 m (nat p))" "to_unsigned z = scan0 m (nat p)"
    by (auto simp: z_def int_pos_def to_unsigned_def split: if_splits)
  have s0: "nat p \<le> nat z" "\<not> bit m (nat z)" using scan1_spec(1) [OF refl z(1) [unfolded scan0_NOT]] z
    by (auto simp: scan0_NOT bit_not_int_iff)
  have s1: "nat z \<le> nat q" "bit m (nat q)" using scan1_spec(1) [OF refl qs(1)] qs z by auto
  have pq: "p < q" using s0 s1 assms(1,3) z0 by (cases "p = q") auto
  moreover have "0 < above m p"
  proof (cases "m < 0")
    case True
    then show ?thesis using above_pos [of p m z] s0 assms(1) z0 by (auto simp: bit_not_int_iff)
  next
    case False
    then show ?thesis using above_pos [of p m q] s1 assms(1) pq by auto
  qed
  ultimately show ?thesis by blast
qed

termination slice_ranges
proof (relation "measure (\<lambda>(m, p). if p < 0 then 0 else Suc (nat (above m p)))")
  fix m p z
  assume p: "0 \<le> p" and z: "z = int_pos (scan0 m (nat p))"
  define q where "q = int_pos (scan1 m (to_unsigned z))"
  show "((m, int_pos (scan1 m (to_unsigned z))), m, p) \<in> measure (\<lambda>(m, p). if p < 0 then 0 else Suc (nat (above m p)))"
  proof (cases "0 \<le> q")
    case True
    then show ?thesis using next_range [OF p, of q m] above_less [OF p, of q m] p z above_nonneg [of m q]
      by (auto simp: q_def)
  next
    case False
    then show ?thesis using p by (auto simp: q_def)
  qed
qed simp

declare slice_ranges.simps [simp del]

definition assignSlices :: "assign_op \<Rightarrow> expr \<Rightarrow> expr \<Rightarrow> int \<Rightarrow> assign_stmt list comp" where
  "assignSlices op left e m =
     mapM_comp (\<lambda>(lo, hi).
       bind_comp (Slice_make left lo (int (to_unsigned hi))) (\<lambda>left_slice.
       bind_comp (Slice_make e lo (int (to_unsigned hi))) (\<lambda>right_slice.
         ret (Assignment op left_slice right_slice))))
       (slice_ranges m (int_pos (scan1 m 0)))"

text \<open>The pattern \<open>a & mask\<close> (ir/pattern.h), in either order, and \<open>(a & maskA) | (b & maskB)\<close>; the second
  order of the latter matches nothing that the first does not.\<close>

fun match_masked :: "expr \<Rightarrow> (expr \<times> int) option" where
  "match_masked (Binary BAnd t l r) =
     (case r of
        Constant t' v b \<Rightarrow> Some (l, v)
      | _ \<Rightarrow> (case l of Constant t' v b \<Rightarrow> Some (r, v) | _ \<Rightarrow> None))"
| "match_masked e = None"

fun match_two_masked :: "expr \<Rightarrow> ((expr \<times> int) \<times> (expr \<times> int)) option" where
  "match_two_masked (Binary BOr t l r) =
     (case (match_masked l, match_masked r) of (Some x, Some y) \<Rightarrow> Some (x, y) | _ \<Rightarrow> None)"
| "match_two_masked e = None"

fun SimplifyBitwise :: "assign_stmt \<Rightarrow> assign_stmt list comp" where
  "SimplifyBitwise (Assignment op left right) =
     (if op \<in> {Plain, OpAssign BAnd, OpAssign BOr, OpAssign BXor} then
        case match_two_masked right of
          None \<Rightarrow> ret [Assignment op left right]
        | Some ((a, maskA), (b, maskB)) \<Rightarrow>
            if maskA AND maskB \<noteq> 0 then ret [Assignment op left right]
            else
              bind_comp (assignSlices op left a maskA) (\<lambda>sa.
              bind_comp (assignSlices op left b maskB) (\<lambda>sb.
              bind_comp (width_bits (type_of left)) (\<lambda>w.
                let parameter_mask = push_bit (nat w) 1 - 1;
                    parameter_mask = parameter_mask AND NOT maskA;
                    parameter_mask = parameter_mask AND NOT maskB
                in if parameter_mask \<noteq> 0 then
                     bind_comp (assignSlices op left (inf_constant 0) parameter_mask) (\<lambda>sx. ret (sa @ sb @ sx))
                   else ret (sa @ sb))))
      else ret [Assignment op left right])"

section \<open>DoRemoveLeftSlices\<close>

text \<open>\<open>typeMap\<close> is \<open>getType\<close> of the type map.  The new nodes have the types that their constructors give them.\<close>

fun DoRemoveLeftSlices :: "(expr \<Rightarrow> p4type) \<Rightarrow> assign_stmt \<Rightarrow> assign_stmt comp" where
  "DoRemoveLeftSlices typeMap (Assignment Plain (Slice t e0 e1 e2) right) =
     bind_comp (slice_index e1) (\<lambda>h.
     bind_comp (slice_index e2) (\<lambda>l.
       case maskFromSlice (nat h) (nat l) of
         None \<Rightarrow> Bug ''Invalid mask''
       | Some m \<Rightarrow>
           let type = typeMap e0
           in bind_comp (mk_constant type m 16 False) (\<lambda>msk.
                let cmpl = Unary Cmpl (type_of msk) msk;
                    and1 = mk_binary_untyped BAnd e0 cmpl;
                    cast = Cast type right;
                    sh = Binary Shl (type_of cast) cast (inf_constant l);
                    and2 = mk_binary_untyped BAnd sh msk;
                    rhs = mk_binary_untyped BOr and1 and2
                in ret (Assignment Plain e0 rhs))))"
| "DoRemoveLeftSlices typeMap s = ret s"

end
