(* ===== verification/SliceAssign_Sound.thy ===== *)
theory SliceAssign_Sound
  imports SliceAssign
begin

text \<open>
  What the assignments of SliceAssign do: they store a value at a variable, a field or an element of it, or
  at a slice of these.  Both passes keep what an assignment does; SimplifyBitwise only if the operands of
  the right side do not read the variable that is assigned, which it does not test.
\<close>

section \<open>Storing values\<close>

definition set_bits :: "int \<Rightarrow> nat \<Rightarrow> nat \<Rightarrow> int \<Rightarrow> int" where
  "set_bits x l n b = concat_bit l x (concat_bit n b (drop_bit (l + n) x))"

lemma bit_set_bits: "bit (set_bits x l n b) i \<longleftrightarrow> (if l \<le> i \<and> i < l + n then bit b (i - l) else bit x i)"
  by (auto simp: set_bits_def bit_concat_bit_iff bit_simps)

fun set_field :: "string \<Rightarrow> val \<Rightarrow> (string \<times> val) list \<Rightarrow> (string \<times> val) list" where
  "set_field m v [] = []"
| "set_field m v ((k, u) # fs) = (if k = m then (k, v) # fs else (k, u) # set_field m v fs)"

lemma map_of_set_field: "map_of fs m \<noteq> None \<Longrightarrow> map_of (set_field m v fs) m = Some v"
  by (induction fs) auto

lemma set_field_twice [simp]: "set_field m v' (set_field m v fs) = set_field m v' fs"
  by (induction fs) auto

lemma set_field_same: "map_of fs m = Some v \<Longrightarrow> set_field m v fs = fs"
  by (induction fs) auto

lemma set_field_None: "map_of (set_field m v fs) m = None \<longleftrightarrow> map_of fs m = None"
  by (induction fs) auto

fun store :: "sem_env \<Rightarrow> expr \<Rightarrow> val \<Rightarrow> sem_env option" where
  "store \<rho> (PathExpression t p) v = Some (\<rho>\<lparr>var_val := (var_val \<rho>)(p \<mapsto> v)\<rparr>)"
| "store \<rho> (Member t e m) v =
     (case eval \<rho> e of
        Some (StructV fs) \<Rightarrow> if map_of fs m = None then None else store \<rho> e (StructV (set_field m v fs))
      | _ \<Rightarrow> None)"
| "store \<rho> (ArrayIndex t e i) v =
     (case (eval \<rho> e, Option.bind (eval \<rho> i) index_val) of
        (Some (TupleV vs), Some k) \<Rightarrow>
          if 0 \<le> k \<and> nat k < length vs then store \<rho> e (TupleV (vs[nat k := v])) else None
      | _ \<Rightarrow> None)"
| "store \<rho> (Slice t e h l) v =
     (case (eval \<rho> e, Option.bind (eval \<rho> h) index_val, Option.bind (eval \<rho> l) index_val, v) of
        (Some (BitsV w s x), Some hi, Some lo, BitsV n s' b) \<Rightarrow>
          if 0 \<le> lo \<and> lo \<le> hi \<and> hi < int w \<and> int n = hi - lo + 1 \<and> \<not> s'
          then store \<rho> e (BitsV w s (norm w s (set_bits x (nat lo) n b))) else None
      | _ \<Rightarrow> None)"
| "store \<rho> e v = None"

text \<open>What an assignment does to the environment.\<close>

definition op_val :: "assign_op \<Rightarrow> val \<Rightarrow> val \<Rightarrow> val option" where
  "op_val op x y = (case op of Plain \<Rightarrow> Some y | OpAssign b \<Rightarrow> binop_val b x y)"

fun effect :: "sem_env \<Rightarrow> assign_stmt \<Rightarrow> sem_env option" where
  "effect \<rho> (Assignment op l r) =
     Option.bind (eval \<rho> l) (\<lambda>x. Option.bind (eval \<rho> r) (\<lambda>y. Option.bind (op_val op x y) (store \<rho> l)))"

fun effect_all :: "sem_env \<Rightarrow> assign_stmt list \<Rightarrow> sem_env option" where
  "effect_all \<rho> [] = Some \<rho>"
| "effect_all \<rho> (a # as) = Option.bind (effect \<rho> a) (\<lambda>\<rho>. effect_all \<rho> as)"

lemma effect_all_append: "effect_all \<rho> (as @ bs) = Option.bind (effect_all \<rho> as) (\<lambda>\<rho>. effect_all \<rho> bs)"
  by (induction as arbitrary: \<rho>) (auto split: Option.bind_splits)

section \<open>Places\<close>

text \<open>A variable, a field of a place or an element of it at a constant index.\<close>

fun place :: "expr \<Rightarrow> bool" where
  "place (PathExpression t p) = True"
| "place (Member t e m) = place e"
| "place (ArrayIndex t e i) = (place e \<and> (case i of Constant t' k b \<Rightarrow> True | _ \<Rightarrow> False))"
| "place e = False"

fun root :: "expr \<Rightarrow> string" where
  "root (PathExpression t p) = p"
| "root (Member t e m) = root e"
| "root (ArrayIndex t e i) = root e"
| "root e = []"

lemma eval_Member_place: "place e \<Longrightarrow> eval \<rho> (Member t e m) = Option.bind (eval \<rho> e) (field_val m)"
  by (rule eval_Member_field) auto

lemma eval_Constant_env: "eval \<rho> (Constant t k b) = eval \<rho>' (Constant t k b)"
  by (cases t) auto

lemma store_place:
  "place l \<Longrightarrow> eval \<rho> l = Some u \<Longrightarrow> \<exists>\<rho>'. store \<rho> l v = Some \<rho>' \<and> eval \<rho>' l = Some v"
proof (induction l arbitrary: u v rule: place.induct)
  case (2 t e m)
  then obtain fs where fs: "eval \<rho> e = Some (StructV fs)" "map_of fs m = Some u"
    by (auto simp: eval_Member_place bind_eq_Some_conv elim!: field_val.elims)
  obtain \<rho>' where "store \<rho> e (StructV (set_field m v fs)) = Some \<rho>'" "eval \<rho>' e = Some (StructV (set_field m v fs))"
    using 2(1) [of "StructV fs" "StructV (set_field m v fs)"] 2(2) fs by auto
  then show ?case using fs 2(2) by (auto simp: eval_Member_place map_of_set_field)
next
  case (3 t e i)
  then obtain t' k b where i: "i = Constant t' k b" "place e" by (cases i) auto
  obtain vs j where vs: "eval \<rho> e = Some (TupleV vs)" "Option.bind (eval \<rho> i) index_val = Some j" "0 \<le> j" "nat j < length vs"
    using 3(3) by (auto simp: bind_eq_Some_conv elim!: nth_val.elims split: if_splits)
  obtain \<rho>' where "store \<rho> e (TupleV (vs[nat j := v])) = Some \<rho>'" "eval \<rho>' e = Some (TupleV (vs[nat j := v]))"
    using 3(1) [OF i(2) vs(1), of "TupleV (vs[nat j := v])"] by auto
  moreover have "eval \<rho>' i = eval \<rho> i" unfolding i by (rule eval_Constant_env)
  ultimately show ?case using vs by (auto simp del: eval.simps(1-3) simp: bind_eq_Some_conv)
qed auto

lemma store_store:
  "place l \<Longrightarrow> store \<rho> l v = Some \<rho>' \<Longrightarrow> store \<rho>' l v' = store \<rho> l v'"
proof (induction l arbitrary: v v' rule: place.induct)
  case (2 t e m)
  then obtain fs where fs: "eval \<rho> e = Some (StructV fs)" "map_of fs m \<noteq> None"
    "store \<rho> e (StructV (set_field m v fs)) = Some \<rho>'"
    by (auto split: option.splits val.splits if_splits)
  have "eval \<rho>' e = Some (StructV (set_field m v fs))"
    using store_place [of e \<rho> "StructV fs" "StructV (set_field m v fs)"] 2(2) fs by auto
  then show ?case using fs 2(1) [OF _ fs(3)] 2(2) by (auto simp: set_field_None)
next
  case (3 t e i)
  then obtain t' k b where i: "i = Constant t' k b" "place e" by (cases i) auto
  obtain vs j where vs: "eval \<rho> e = Some (TupleV vs)" "Option.bind (eval \<rho> i) index_val = Some j" "0 \<le> j" "nat j < length vs"
    "store \<rho> e (TupleV (vs[nat j := v])) = Some \<rho>'"
    using 3(3) by (auto split: option.splits val.splits if_splits)
  have "eval \<rho>' e = Some (TupleV (vs[nat j := v]))"
    using store_place [of e \<rho> "TupleV vs" "TupleV (vs[nat j := v])"] i vs by auto
  moreover have "eval \<rho>' i = eval \<rho> i" unfolding i by (rule eval_Constant_env)
  ultimately show ?case using vs 3(1) [OF i(2) vs(5)] by (simp del: eval.simps)
qed auto

lemma store_same: "place l \<Longrightarrow> eval \<rho> l = Some v \<Longrightarrow> store \<rho> l v = Some \<rho>"
proof (induction l arbitrary: v rule: place.induct)
  case (1 t p)
  then have "(var_val \<rho>)(p \<mapsto> v) = var_val \<rho>" by auto
  then show ?case by simp
next
  case (2 t e m)
  then obtain fs where fs: "eval \<rho> e = Some (StructV fs)" "map_of fs m = Some v"
    by (auto simp: eval_Member_place bind_eq_Some_conv elim!: field_val.elims)
  then show ?case using 2(1) [of "StructV fs"] 2(2) by (simp add: set_field_same)
next
  case (3 t e i)
  obtain vs j where vs: "eval \<rho> e = Some (TupleV vs)" "Option.bind (eval \<rho> i) index_val = Some j" "0 \<le> j" "nat j < length vs"
      "v = vs ! nat j"
    using 3(3) by (auto simp: bind_eq_Some_conv elim!: nth_val.elims split: if_splits)
  then show ?case using 3(1) [of "TupleV vs"] 3(2) by simp
qed auto

lemma store_frame:
  "place l \<Longrightarrow> store \<rho> l v = Some \<rho>' \<Longrightarrow> call_val \<rho>' = call_val \<rho> \<and> (\<forall>y. y \<noteq> root l \<longrightarrow> var_val \<rho>' y = var_val \<rho> y)"
proof (induction l arbitrary: v rule: place.induct)
  case (2 t e m)
  then show ?case by (auto split: option.splits val.splits if_splits)
next
  case (3 t e i)
  then show ?case by (auto split: option.splits val.splits if_splits)
qed auto

section \<open>Variables that an expression reads\<close>

function reads :: "expr \<Rightarrow> string list" where
  "reads e = (case e of PathExpression t p \<Rightarrow> [p] | _ \<Rightarrow> []) @ concat (map reads (children e))"
  by auto
termination
  by (relation "measure size") (auto simp: size_children)

declare reads.simps [simp del]

lemma reads_PathExpression [simp]: "reads (PathExpression t p) = [p]"
  by (simp add: reads.simps)

lemma reads_Constant [simp]: "reads (Constant t k b) = []"
  by (simp add: reads.simps)

lemma reads_Slice [simp]: "reads (Slice t e h l) = reads e @ reads h @ reads l"
  by (subst reads.simps) simp

lemma reads_children: "x \<in> set (children e) \<Longrightarrow> set (reads x) \<subseteq> set (reads e)"
  by (subst (2) reads.simps) auto

definition same_on :: "string list \<Rightarrow> sem_env \<Rightarrow> sem_env \<Rightarrow> bool" where
  "same_on vs \<rho> \<rho>' \<longleftrightarrow> call_val \<rho>' = call_val \<rho> \<and> (\<forall>y\<in>set vs. var_val \<rho>' y = var_val \<rho> y)"

lemma eval_frame: "same_on (reads e) \<rho> \<rho>' \<Longrightarrow> eval \<rho>' e = eval \<rho> e"
proof (induction e rule: expr_children_induct)
  case (children e)
  have IH: "eval \<rho>' x = eval \<rho> x" if "x \<in> set (children e)" for x
    using children.IH [OF that] children.prems reads_children [OF that] by (auto simp: same_on_def)
  show ?case
  proof (cases e)
    case (PathExpression t p)
    then show ?thesis using children.prems by (simp add: same_on_def)
  next
    case (Constant t k b)
    then show ?thesis using eval_Constant_env by metis
  next
    case (ListExpression t es)
    then show ?thesis using IH by (simp cong: map_cong)
  next
    case (StructExpression t fs)
    have "eval \<rho>' (snd f) = eval \<rho> (snd f)" if "f \<in> set fs" for f
      using IH [of "snd f"] StructExpression that by simp
    then show ?thesis using StructExpression by (simp cong: map_cong)
  next
    case (HeaderStackExpression t es)
    then show ?thesis using IH by (simp cong: map_cong)
  next
    case (Member t x m)
    then show ?thesis using IH [of x] by (cases x) auto
  next
    case (Binary b t l r)
    then show ?thesis using IH [of l] IH [of r] by (cases b) (auto cong: Option.bind_cong if_cong)
  next
    case (MethodCallExpression t m x as)
    then show ?thesis using IH children.prems by (simp add: same_on_def cong: map_cong Option.bind_cong)
  qed (use IH in \<open>auto cong: Option.bind_cong if_cong\<close>)
qed

lemma store_eval_other:
  assumes "place l" "store \<rho> l v = Some \<rho>'" "root l \<notin> set (reads e)"
  shows "eval \<rho>' e = eval \<rho> e"
proof (rule eval_frame)
  have "y \<noteq> root l" if "y \<in> set (reads e)" for y using assms(3) that by blast
  then show "same_on (reads e) \<rho> \<rho>'" using store_frame [OF assms(1,2)] by (simp add: same_on_def)
qed

section \<open>Slices of a place\<close>

lemma norm_set_bits: "in_range w False x \<Longrightarrow> l + n \<le> w \<Longrightarrow> norm w False (set_bits x l n b) = set_bits x l n b"
proof -
  assume a: "in_range w False x" "l + n \<le> w"
  have x: "i < w" if "bit x i" for i
    using a(1) that by (metis bit_take_bit_iff in_range_def take_bit_int_eq_self)
  have "take_bit w (set_bits x l n b) = set_bits x l n b"
    using a(2) by (intro bit_eqI) (auto simp: bit_take_bit_iff bit_set_bits dest: x)
  then show ?thesis by (simp add: norm_def take_bit_eq_mod)
qed

lemma store_slice:
  assumes "eval \<rho> l = Some (BitsV w False x)" "in_range w False x" "0 \<le> lo" "lo \<le> hi" "hi < int w" "n = nat (hi - lo + 1)"
  shows "store \<rho> (Slice_mk l hi lo) (BitsV n False b) = store \<rho> l (BitsV w False (set_bits x (nat lo) n b))"
proof -
  have "nat lo + n \<le> w" using assms by auto
  then show ?thesis using assms by (simp add: Slice_mk_def norm_set_bits)
qed

lemma eval_Slice_mk:
  assumes "eval \<rho> e = Some (BitsV w s x)" "0 \<le> lo" "lo \<le> hi" "hi < int w"
  shows "eval \<rho> (Slice_mk e hi lo) = Some (BitsV (nat (hi - lo + 1)) False (bits_of x (nat lo) (nat (hi - lo + 1))))"
  using assms by (simp add: Slice_mk_def slice_val_def)

text \<open>Where \<open>Slice::make\<close> gives the slice of the value: it mistakes the parts of a \<open>PlusSlice\<close>.\<close>

fun sliceable :: "expr \<Rightarrow> bool" where
  "sliceable (PlusSlice t e l n) = False"
| "sliceable (Slice t (PlusSlice t' e l n) h k) = False"
| "sliceable e = True"

lemma slice_of_slice:
  assumes "slice_val v h l = Some (BitsV w s x)" "0 \<le> lo" "lo \<le> hi" "hi < int w"
  shows "slice_val v (hi + l) (lo + l) = Some (BitsV (nat (hi - lo + 1)) False (bits_of x (nat lo) (nat (hi - lo + 1))))"
proof -
  have x: "0 \<le> l" "l \<le> h" "w = nat (h - l + 1)" using assms(1) by (auto simp: slice_val_iff)
  have "nat lo + nat (hi - lo + 1) \<le> nat (h - l + 1)" using assms(2-4) x by simp
  then have "bits_of (bits_of a (nat l) (nat (h - l + 1))) (nat lo) (nat (hi - lo + 1)) = bits_of a (nat (lo + l)) (nat (hi - lo + 1))"
    for a using assms(2) x(1) by (simp add: bits_of_bits_of nat_add_distrib add.commute)
  then show ?thesis using assms x by (auto simp: slice_val_iff)
qed

lemma Slice_make_rest_value:
  assumes "Slice_make_rest e lo hi = Ok ds e'" "sliceable e" "evals \<rho> e (BitsV w False x)" "0 \<le> lo" "lo \<le> hi" "hi < int w"
  shows "eval \<rho> e' = Some (BitsV (nat (hi - lo + 1)) False (bits_of x (nat lo) (nat (hi - lo + 1)))) \<and>
    set (reads e') \<subseteq> set (reads e)"
proof (cases "\<exists>t e0 e1 e2. e = Slice t e0 e1 e2")
  case True
  then obtain t e0 e1 e2 where e: "e = Slice t e0 e1 e2" by blast
  obtain d1 l d2 h where i: "slice_index e2 = Ok d1 l" "slice_index e1 = Ok d2 h" and e': "e' = Slice_mk e0 (hi + l) (lo + l)"
    using assms(1,2) by (auto simp: e Slice_make_rest_def comp_simps split: if_splits expr.splits)
  obtain v h' l' where v: "eval \<rho> e0 = Some v" "Option.bind (eval \<rho> e1) index_val = Some h'"
      "Option.bind (eval \<rho> e2) index_val = Some l'" "slice_val v h' l' = Some (BitsV w False x)" "h' \<le> 4294967295"
    using assms(3) by (auto simp: e evals_iff bind_eq_Some_conv)
  have r: "0 \<le> l'" "l' \<le> h'" using v(4) by (auto simp: slice_val_iff)
  have k: "l = l'" "h = h'" using i v(2,3,5) r
    by (auto simp: asUnsigned_def comp_simps eval_Constant_iff bind_eq_Some_conv elim!: slice_index.elims split: if_splits)
  have "set (reads e0) \<subseteq> set (reads e)" by (rule reads_children) (simp add: e)
  moreover have "eval \<rho> e' = slice_val v (hi + l) (lo + l)" using v(1) by (simp add: e' Slice_mk_def)
  moreover have "reads e' = reads e0" by (simp add: e' Slice_mk_def)
  ultimately show ?thesis using slice_of_slice [OF v(4) assms(4-6)] k by simp
next
  case False
  then have "e' = Slice_mk e hi lo" using assms(1,2) by (auto simp: Slice_make_rest_def comp_simps split: expr.splits)
  then show ?thesis using eval_Slice_mk assms(3-6) by (auto simp: evals_def Slice_mk_def)
qed

lemma Slice_make_value:
  assumes "Slice_make e lo hi = Ok ds e'" "sliceable e" "evals \<rho> e (BitsV w False x)" "in_range w False x"
    and "0 \<le> lo" "lo \<le> hi" "hi < int w"
  shows "eval \<rho> e' = Some (BitsV (nat (hi - lo + 1)) False (bits_of x (nat lo) (nat (hi - lo + 1)))) \<and>
    set (reads e') \<subseteq> set (reads e)"
proof (cases "\<exists>t k b. e = Constant t k b")
  case True
  then obtain t k b where e: "e = Constant t k b" by blast
  have "k = x" using assms(3) by (auto simp: e evals_Constant eval_Constant_iff)
  then have e': "e' = Constant (Type_Bits (hi - lo + 1) False) (bits_of x (nat lo) (nat (hi - lo + 1))) 10"
    using assms(1) by (auto simp: e Slice_make_def Let_def bits_of_def drop_bit_eq_div push_bit_eq_mult and_mask_eq_mod
        split: if_splits)
  have "in_range (nat (hi - lo + 1)) False (bits_of x (nat lo) (nat (hi - lo + 1)))"
    using bits_of_bound by (simp add: in_range_def)
  then show ?thesis using assms(6) by (simp add: e')
next
  case False
  have t: "type_of e = Type_Bits (int w) False" using evals_type [OF assms(3)] by (simp add: has_type_def)
  have m: "Slice_make e lo hi = (if lo = 0 \<and> hi = int w - 1 then ret e else Slice_make_rest e lo hi)"
    using False assms(5-7) t by (cases e) (simp_all add: Slice_make_def Let_def split: comp.split)
  show ?thesis
  proof (cases "lo = 0 \<and> hi = int w - 1")
    case True
    then have "e' = e" using assms(1) m by simp
    moreover have "bits_of x 0 w = x" using assms(4) by (intro bits_of_all) (auto simp: in_range_def)
    ultimately show ?thesis using True assms(3) by (simp add: evals_def)
  next
    case whole: False
    then have "Slice_make_rest e lo hi = Ok ds e'" using assms(1) m by (simp add: if_not_P)
    from Slice_make_rest_value [OF this assms(2,3,5-7)] show ?thesis .
  qed
qed

lemma Slice_make_place:
  assumes "Slice_make l lo hi = Ok ds l'" "place l" "type_of l = Type_Bits (int w) False" "0 \<le> lo" "lo \<le> hi" "hi < int w"
  shows "l' = (if lo = 0 \<and> hi = int w - 1 then l else Slice_mk l hi lo)"
  using assms by (cases l) (auto simp: Slice_make_def Slice_make_rest_def Let_def comp_simps split: if_splits)

section \<open>Assigning to the ranges of a mask\<close>

text \<open>The operation of an assignment on single bits.\<close>

fun op_bit :: "assign_op \<Rightarrow> bool \<Rightarrow> bool \<Rightarrow> bool" where
  "op_bit (OpAssign BAnd) p q = (p \<and> q)"
| "op_bit (OpAssign BOr) p q = (p \<or> q)"
| "op_bit (OpAssign BXor) p q = (p \<noteq> q)"
| "op_bit op p q = q"

fun op_int :: "assign_op \<Rightarrow> int \<Rightarrow> int \<Rightarrow> int" where
  "op_int (OpAssign BAnd) x y = x AND y"
| "op_int (OpAssign BOr) x y = x OR y"
| "op_int (OpAssign BXor) x y = x XOR y"
| "op_int op x y = y"

definition bitwise_ops :: "assign_op set" where
  "bitwise_ops = {Plain, OpAssign BAnd, OpAssign BOr, OpAssign BXor}"

lemma bit_op_int: "op \<in> bitwise_ops \<Longrightarrow> bit (op_int op x y) i = op_bit op (bit x i) (bit y i)"
  by (auto simp: bitwise_ops_def bit_simps)

lemma in_range_take_bit: "in_range w False x \<longleftrightarrow> take_bit w x = x"
  by (simp add: in_range_def take_bit_int_eq_self_iff)

lemma in_range_bits: "in_range w False x \<Longrightarrow> bit x i \<Longrightarrow> i < w"
  unfolding in_range_take_bit by (metis bit_take_bit_iff)

lemma in_rangeI: "(\<And>i. bit x i \<Longrightarrow> i < w) \<Longrightarrow> in_range w False x"
  unfolding in_range_take_bit by (rule bit_eqI) (auto simp: bit_take_bit_iff)

lemma in_range_op_int:
  "op \<in> bitwise_ops \<Longrightarrow> in_range w False x \<Longrightarrow> in_range w False y \<Longrightarrow> in_range w False (op_int op x y)"
  by (auto simp: bitwise_ops_def in_range_take_bit)

lemma op_val_bits:
  assumes "op \<in> bitwise_ops" "in_range n False x" "in_range n False y"
  shows "op_val op (BitsV n False x) (BitsV n False y) = Some (BitsV n False (op_int op x y))"
  using assms in_range_op_int [OF assms] norm_id [OF in_range_op_int [OF assms]]
  by (auto simp: bitwise_ops_def op_val_def binop_val_def)

definition covered :: "(int \<times> int) list \<Rightarrow> nat \<Rightarrow> bool" where
  "covered rs i \<longleftrightarrow> (\<exists>(lo, hi)\<in>set rs. lo \<le> int i \<and> int i \<le> hi)"

definition ranges_ok :: "nat \<Rightarrow> (int \<times> int) list \<Rightarrow> bool" where
  "ranges_ok w rs \<longleftrightarrow> (\<forall>(lo, hi)\<in>set rs. 0 \<le> lo \<and> lo \<le> hi \<and> hi < int w) \<and> sorted_wrt (\<lambda>(l, h) (l', h'). h < l') rs"

text \<open>The slices of the right side, which do not change when the place is assigned.\<close>

definition slices_of :: "expr \<Rightarrow> nat \<Rightarrow> int \<Rightarrow> string \<Rightarrow> sem_env \<Rightarrow> bool" where
  "slices_of e w y r \<rho> \<longleftrightarrow> (\<forall>lo hi ds e'. Slice_make e lo hi = Ok ds e' \<longrightarrow> 0 \<le> lo \<longrightarrow> lo \<le> hi \<longrightarrow> hi < int w \<longrightarrow>
     eval \<rho> e' = Some (BitsV (nat (hi - lo + 1)) False (bits_of y (nat lo) (nat (hi - lo + 1)))) \<and> r \<notin> set (reads e'))"

lemma slices_of_store:
  "slices_of e w y (root l) \<rho> \<Longrightarrow> place l \<Longrightarrow> store \<rho> l v = Some \<rho>' \<Longrightarrow> slices_of e w y (root l) \<rho>'"
  unfolding slices_of_def using store_eval_other by metis

lemma in_range_bits_of: "in_range n False (bits_of x l n)"
  using bits_of_bound by (simp add: in_range_def)

lemma effect_slice:
  assumes "Slice_make l lo hi = Ok ds l'" "place l" "type_of l = Type_Bits (int w) False" "0 \<le> lo" "lo \<le> hi" "hi < int w"
    and "eval \<rho> l = Some (BitsV w False x)" "in_range w False x" "op \<in> bitwise_ops" "n = nat (hi - lo + 1)"
    and "eval \<rho> e' = Some (BitsV n False b)" "in_range n False b"
  shows "effect \<rho> (Assignment op l' e') =
    store \<rho> l (BitsV w False (set_bits x (nat lo) n (op_int op (bits_of x (nat lo) n) b)))"
proof (cases "lo = 0 \<and> hi = int w - 1")
  case True
  then have n: "n = w" using assms(10) by simp
  have r: "in_range w False (op_int op x b)" using in_range_op_int assms(8,9,12) n by simp
  have "set_bits x 0 w (op_int op x b) = op_int op x b"
    using in_range_bits [OF r] in_range_bits [OF assms(8)] by (intro bit_eqI) (auto simp: bit_set_bits)
  moreover have "bits_of x 0 w = x" using assms(8) by (intro bits_of_all) (auto simp: in_range_def)
  moreover have "l' = l" using Slice_make_place [OF assms(1-6)] True by simp
  ultimately show ?thesis using True n assms(7,11) op_val_bits [OF assms(9,8)] assms(12) by simp
next
  case False
  then have l': "l' = Slice_mk l hi lo" using Slice_make_place [OF assms(1-6)] by auto
  have "eval \<rho> l' = Some (BitsV n False (bits_of x (nat lo) n))"
    using eval_Slice_mk [OF assms(7,4-6)] by (simp add: l' assms(10))
  then show ?thesis
    using assms(11) op_val_bits [OF assms(9) in_range_bits_of assms(12)] store_slice [OF assms(7,8,4-6,10)]
    by (simp add: l')
qed

lemma effect_ranges:
  assumes "place l" "type_of l = Type_Bits (int w) False" "op \<in> bitwise_ops"
  shows "mapM_comp (\<lambda>(lo, hi).
       bind_comp (Slice_make l lo (int (to_unsigned hi))) (\<lambda>left_slice.
       bind_comp (Slice_make e lo (int (to_unsigned hi))) (\<lambda>right_slice.
         ret (Assignment op left_slice right_slice)))) rs = Ok ds sts \<Longrightarrow> ranges_ok w rs \<Longrightarrow> w < 2 ^ 32 \<Longrightarrow>
     eval \<rho> l = Some (BitsV w False x) \<Longrightarrow> in_range w False x \<Longrightarrow> slices_of e w y (root l) \<rho> \<Longrightarrow>
     \<exists>x'. effect_all \<rho> sts = store \<rho> l (BitsV w False x') \<and> in_range w False x' \<and>
       (\<forall>i. bit x' i = (if covered rs i then op_bit op (bit x i) (bit y i) else bit x i))"
proof (induction rs arbitrary: ds sts \<rho> x)
  case Nil
  then show ?case using store_same [OF assms(1) Nil(4)] by (intro exI [of _ x]) (simp add: covered_def)
next
  case (Cons r rs)
  obtain lo hi where r: "r = (lo, hi)" by (cases r)
  have b: "0 \<le> lo" "lo \<le> hi" "hi < int w" using Cons(3) by (auto simp: r ranges_ok_def)
  have hi: "int (to_unsigned hi) = hi" using b Cons(4) by (simp add: to_unsigned_def)
  obtain d1 l' d2 e' d3 sts' where s: "Slice_make l lo hi = Ok d1 l'" "Slice_make e lo hi = Ok d2 e'"
      "sts = Assignment op l' e' # sts'" and rest: "mapM_comp (\<lambda>(lo, hi).
       bind_comp (Slice_make l lo (int (to_unsigned hi))) (\<lambda>left_slice.
       bind_comp (Slice_make e lo (int (to_unsigned hi))) (\<lambda>right_slice.
         ret (Assignment op left_slice right_slice)))) rs = Ok d3 sts'"
    using Cons(2) by (auto simp: r hi comp_simps)
  define n where "n = nat (hi - lo + 1)"
  have e': "eval \<rho> e' = Some (BitsV n False (bits_of y (nat lo) n))"
    using Cons(7) s(2) b by (simp add: slices_of_def n_def)
  define x1 where "x1 = set_bits x (nat lo) n (op_int op (bits_of x (nat lo) n) (bits_of y (nat lo) n))"
  have x1: "bit x1 i = (if lo \<le> int i \<and> int i \<le> hi then op_bit op (bit x i) (bit y i) else bit x i)" for i
  proof (cases "lo \<le> int i \<and> int i \<le> hi")
    case True
    then have "nat lo \<le> i" "i < nat lo + n" "i - nat lo < n" using b by (auto simp: n_def)
    then show ?thesis using True by (simp add: x1_def bit_set_bits bit_op_int [OF assms(3)] bit_bits_of)
  next
    case False
    then have "\<not> (nat lo \<le> i \<and> i < nat lo + n)" using b by (auto simp: n_def)
    then show ?thesis using False by (auto simp: x1_def bit_set_bits)
  qed
  have x1_range: "in_range w False x1"
    using in_range_bits [OF Cons(6)] b by (intro in_rangeI) (auto simp: x1 split: if_splits)
  have ex: "effect \<rho> (Assignment op l' e') = store \<rho> l (BitsV w False x1)"
    using effect_slice [OF s(1) assms(1,2) b Cons(5,6) assms(3) n_def e' in_range_bits_of] by (simp add: x1_def)
  obtain \<rho>1 where \<rho>1: "store \<rho> l (BitsV w False x1) = Some \<rho>1" "eval \<rho>1 l = Some (BitsV w False x1)"
    using store_place [OF assms(1) Cons(5)] by blast
  have "ranges_ok w rs" using Cons(3) by (auto simp: ranges_ok_def)
  then obtain x' where x': "effect_all \<rho>1 sts' = store \<rho>1 l (BitsV w False x')" "in_range w False x'"
      "\<forall>i. bit x' i = (if covered rs i then op_bit op (bit x1 i) (bit y i) else bit x1 i)"
    using Cons(1) [OF rest _ Cons(4) \<rho>1(2) x1_range slices_of_store [OF Cons(7) assms(1) \<rho>1(1)]] by blast
  have disj: "\<not> covered rs i" if "lo \<le> int i" "int i \<le> hi" for i
    using Cons(3) that by (fastforce simp: r ranges_ok_def covered_def)
  have "bit x' i = (if covered (r # rs) i then op_bit op (bit x i) (bit y i) else bit x i)" for i
    using x'(3) x1 [of i] disj [of i] by (auto simp: covered_def r)
  moreover have "effect_all \<rho> sts = store \<rho> l (BitsV w False x')"
    using s(3) ex \<rho>1(1) x'(1) store_store [OF assms(1) \<rho>1(1)] by simp
  ultimately show ?case using x'(2) by blast
qed

text \<open>The ranges cover the ones of the mask.\<close>

lemma slice_ranges_spec:
  "0 \<le> m \<Longrightarrow> \<forall>i. bit m i \<longrightarrow> i < w \<Longrightarrow> w < 2 ^ 31 \<Longrightarrow> (0 \<le> p \<Longrightarrow> bit m (nat p)) \<Longrightarrow>
    ranges_ok w (slice_ranges m p) \<and> (\<forall>(lo, hi)\<in>set (slice_ranges m p). p \<le> lo) \<and>
    (\<forall>i. covered (slice_ranges m p) i \<longleftrightarrow> 0 \<le> p \<and> p \<le> int i \<and> bit m i)"
proof (induction m p rule: slice_ranges.induct)
  case (1 m p)
  show ?case
  proof (cases "0 \<le> p")
    case False
    then have "slice_ranges m p = []" by (subst slice_ranges.simps) simp
    then show ?thesis using False by (simp add: ranges_ok_def covered_def)
  next
    case p: True
    define k where "k = scan0 m (nat p)"
    have pos: "bit (nat m) i = bit m i" for i using 1(2) by (simp add: bit_nat_iff)
    have k: "nat p \<le> k" "\<not> bit m k" "\<And>i. nat p \<le> i \<Longrightarrow> i < k \<Longrightarrow> bit m i"
      using scan0_positive_spec [of "nat p" "nat m"] 1(2) by (auto simp: k_def scan0_def pos)
    have "nat p < w" using 1(3,5) p by blast
    then have kw: "k \<le> w" using k(3) [of w] 1(3) by force
    then have z: "int_pos (scan0 m (nat p)) = int k" "to_unsigned (int k) = k"
      using 1(4) by (simp_all add: k_def [symmetric] int_pos_def to_unsigned_def)
    have pk: "p < int k" using k(1,2) 1(5) [OF p] p by (cases "nat p = k") auto
    define q where "q = int_pos (scan1 m k)"
    have rs: "slice_ranges m p = (p, int k - 1) # slice_ranges m q"
      using p by (subst slice_ranges.simps) (simp add: z q_def)
    have q: "0 \<le> q \<Longrightarrow> bit m (nat q) \<and> int k < q" "\<forall>i. k \<le> i \<longrightarrow> bit m i \<longrightarrow> 0 \<le> q \<and> q \<le> int i"
    proof -
      show "bit m (nat q) \<and> int k < q" if "0 \<le> q"
      proof -
        have "scan1 m k < 2 ^ 31" "nat q = scan1 m k" using that by (auto simp: q_def int_pos_def split: if_splits)
        then have "k \<le> nat q \<and> bit m (nat q)" using scan1_spec(1) [OF refl, of m k] by simp
        then show ?thesis using k(2) that by (cases "nat q = k") auto
      qed
      show "\<forall>i. k \<le> i \<longrightarrow> bit m i \<longrightarrow> 0 \<le> q \<and> q \<le> int i"
      proof (cases "scan1 m k < 2 ^ 31")
        case True
        then show ?thesis using scan1_spec(1) [OF refl True] by (auto simp: q_def int_pos_def not_less [symmetric])
      next
        case False
        have "\<forall>i. bit m i \<longrightarrow> i < 2 ^ 31" using 1(3,4) by force
        then show ?thesis using scan1_spec(2) [OF refl 1(2) False] by blast
      qed
    qed
    have IH: "ranges_ok w (slice_ranges m q)" "\<forall>(lo, hi)\<in>set (slice_ranges m q). q \<le> lo"
      "\<And>i. covered (slice_ranges m q) i \<longleftrightarrow> 0 \<le> q \<and> q \<le> int i \<and> bit m i"
      using 1(1) [OF p refl 1(2-4)] q(1) by (auto simp: z q_def)
    have e: "slice_ranges m q = []" if "\<not> 0 \<le> q" using that by (subst slice_ranges.simps) simp
    have "int k \<le> lo" if "(lo, hi) \<in> set (slice_ranges m q)" for lo hi
      using that IH(2) q(1) e by (cases "0 \<le> q") fastforce+
    then have "ranges_ok w (slice_ranges m p)" "\<forall>(lo, hi)\<in>set (slice_ranges m p). p \<le> lo"
      using IH(1) pk p kw by (fastforce simp: ranges_ok_def rs)+
    moreover have "covered (slice_ranges m p) i \<longleftrightarrow> p \<le> int i \<and> bit m i" for i
    proof -
      have "covered (slice_ranges m p) i \<longleftrightarrow> p \<le> int i \<and> i < k \<or> 0 \<le> q \<and> q \<le> int i \<and> bit m i"
        using IH(3) [of i] by (auto simp: covered_def rs)
      then show ?thesis using k(3) [of i] q pk p by (cases "i < k") (auto simp: nat_le_iff)
    qed
    ultimately show ?thesis using p by blast
  qed
qed

lemma assignSlices_effect:
  assumes "assignSlices op l e m = Ok ds sts" "place l" "type_of l = Type_Bits (int w) False" "op \<in> bitwise_ops"
    and "in_range w False m" "w < 2 ^ 31" "eval \<rho> l = Some (BitsV w False x)" "in_range w False x"
    and "slices_of e w y (root l) \<rho>"
  shows "\<exists>x'. effect_all \<rho> sts = store \<rho> l (BitsV w False x') \<and> in_range w False x' \<and>
    (\<forall>i. bit x' i = (if bit m i then op_bit op (bit x i) (bit y i) else bit x i))"
proof -
  have m: "0 \<le> m" "\<forall>i. bit m i \<longrightarrow> i < w" using assms(5) in_range_bits by (auto simp: in_range_def)
  define p where "p = int_pos (scan1 m 0)"
  have p: "0 \<le> p \<Longrightarrow> bit m (nat p)"
    using scan1_spec(1) [OF refl, of m 0] by (auto simp: p_def int_pos_def split: if_splits)
  note rs = slice_ranges_spec [OF m assms(6) p]
  have "covered (slice_ranges m p) i \<longleftrightarrow> bit m i" for i
  proof (cases "0 \<le> p")
    case True
    then have "bit m i \<Longrightarrow> p \<le> int i" using scan1_spec(1) [OF refl, of m 0]
      by (auto simp: p_def int_pos_def not_less [symmetric] split: if_splits)
    then show ?thesis using rs True by blast
  next
    case False
    have "\<forall>i. bit m i \<longrightarrow> i < 2 ^ 31" using m(2) assms(6) by force
    then have "\<not> bit m i" using scan1_spec(2) [OF refl m(1), of 0] False by (auto simp: p_def int_pos_def split: if_splits)
    then show ?thesis using rs by blast
  qed
  then show ?thesis
    using effect_ranges [OF assms(2-4) assms(1) [unfolded assignSlices_def, folded p_def] _ _ assms(7-9)] rs assms(6) by simp
qed

section \<open>SimplifyBitwise keeps assignments\<close>

text \<open>The right side has unsigned operands of the width of the place, which do not read the variable that is
  assigned, and masks of that width.\<close>

definition operand_ok :: "expr \<Rightarrow> expr \<times> int \<Rightarrow> bool" where
  "operand_ok l x = (case x of (a, m) \<Rightarrow>
     (case type_of l of
        Type_Bits w s \<Rightarrow> type_of a = Type_Bits w False \<and> in_range (nat w) False m
      | _ \<Rightarrow> False) \<and> sliceable a \<and> root l \<notin> set (reads a))"

fun splittable :: "assign_stmt \<Rightarrow> bool" where
  "splittable (Assignment op l r) =
     (place l \<and> (case match_two_masked r of None \<Rightarrow> True | Some (x, y) \<Rightarrow> operand_ok l x \<and> operand_ok l y))"

lemma masked_value:
  assumes "match_masked e = Some (a, m)" "evals \<rho> e v" "type_of a = Type_Bits (int w) False" "in_range w False m" "wf_env \<rho>"
  shows "\<exists>y. evals \<rho> a (BitsV w False y) \<and> in_range w False y \<and> v = BitsV w False (y AND m)"
proof -
  obtain t l r where e: "e = Binary BAnd t l r" using assms(1) by (cases e rule: match_masked.cases) auto
  obtain u z where z: "evals \<rho> l u" "evals \<rho> r z" "binop_val BAnd u z = Some v" "type_of l = type_of r"
    using assms(2) by (auto simp: e evals_Binary arithmetic_def)
  from assms(1) consider t' b where "r = Constant t' m b" "a = l" | t' b where "l = Constant t' m b" "a = r"
    by (auto simp: e split: expr.splits)
  then obtain y' c where "evals \<rho> a y'" "{y', c} = {u, z}" "c = BitsV w False m"
    and v: "binop_val BAnd y' c = Some v \<or> binop_val BAnd c y' = Some v"
  proof cases
    case 1
    then have "z = BitsV w False m" using z(2,4) assms(3,4) by (auto simp: evals_Constant)
    then show ?thesis using that [of u z] 1 z by auto
  next
    case 2
    then have "u = BitsV w False m" using z(1,4) assms(3,4) by (auto simp: evals_Constant)
    then show ?thesis using that [of z u] 2 z by auto
  qed
  moreover have "has_type y' (Type_Bits (int w) False)" using evals_type [OF \<open>evals \<rho> a y'\<close>] assms(3) by simp
  ultimately obtain y where y: "y' = BitsV w False y"
    by (cases y') (auto simp: has_type_def binop_val_def)
  have "wf_val y'" using eval_wf [OF assms(5)] \<open>evals \<rho> a y'\<close> by (auto simp: evals_def)
  then have r: "in_range w False y" by (simp add: y)
  have "in_range w False (y AND m)" using r assms(4) by (simp add: in_range_take_bit)
  then have "v = BitsV w False (y AND m)"
    using v \<open>c = BitsV w False m\<close> norm_id by (auto simp: y binop_val_def and.commute)
  then show ?thesis using \<open>evals \<rho> a y'\<close> y r by blast
qed

lemma slices_of_operand:
  assumes "evals \<rho> a (BitsV w False y)" "in_range w False y" "sliceable a" "r \<notin> set (reads a)"
  shows "slices_of a w y r \<rho>"
  unfolding slices_of_def using Slice_make_value [OF _ assms(3,1,2)] assms(4) by blast

lemma slices_of_zero: "slices_of (inf_constant 0) w 0 r \<rho>"
  by (auto simp: slices_of_def Slice_make_def bits_of_def Let_def in_range_def split: if_splits)

lemma two_masked_value:
  assumes "match_two_masked e = Some (x, y)" "evals \<rho> e v" "operand_ok l x" "operand_ok l y"
    "type_of l = Type_Bits (int w) False" "wf_env \<rho>"
  shows "\<exists>p q. slices_of (fst x) w p (root l) \<rho> \<and> slices_of (fst y) w q (root l) \<rho> \<and>
    in_range w False (snd x) \<and> in_range w False (snd y) \<and>
    v = BitsV w False ((p AND snd x) OR (q AND snd y)) \<and> in_range w False ((p AND snd x) OR (q AND snd y))"
proof -
  obtain t e1 e2 where e: "e = Binary BOr t e1 e2" "match_masked e1 = Some x" "match_masked e2 = Some y"
    using assms(1) by (cases e rule: match_two_masked.cases) (auto split: option.splits)
  obtain a m b k where xy: "x = (a, m)" "y = (b, k)" by (cases x, cases y)
  obtain u z where z: "evals \<rho> e1 u" "evals \<rho> e2 z" "binop_val BOr u z = Some v"
    using assms(2) by (auto simp: e(1) evals_Binary)
  have ok: "type_of a = Type_Bits (int w) False" "in_range w False m" "sliceable a" "root l \<notin> set (reads a)"
    "type_of b = Type_Bits (int w) False" "in_range w False k" "sliceable b" "root l \<notin> set (reads b)"
    using assms(3-5) by (auto simp: xy operand_ok_def)
  obtain p where p: "evals \<rho> a (BitsV w False p)" "in_range w False p" "u = BitsV w False (p AND m)"
    using masked_value [OF e(2) [unfolded xy] z(1) ok(1,2) assms(6)] by blast
  obtain q where q: "evals \<rho> b (BitsV w False q)" "in_range w False q" "z = BitsV w False (q AND k)"
    using masked_value [OF e(3) [unfolded xy] z(2) ok(5,6) assms(6)] by blast
  have r: "in_range w False ((p AND m) OR (q AND k))" using p q ok(2,6) by (simp add: in_range_take_bit)
  then have "v = BitsV w False ((p AND m) OR (q AND k))" using z(3) p(3) q(3) norm_id by (simp add: binop_val_def)
  then show ?thesis using r slices_of_operand [OF p(1,2) ok(3,4)] slices_of_operand [OF q(1,2) ok(7,8)] ok xy
    by (intro exI [of _ p] exI [of _ q]) simp
qed

text \<open>The three groups of slices together.\<close>

lemma effect_groups:
  assumes "assignSlices op l a m = Ok d1 sa" "assignSlices op l b k = Ok d2 sb" "assignSlices op l (inf_constant 0) z = Ok d3 sx"
    and "place l" "type_of l = Type_Bits (int w) False" "op \<in> bitwise_ops" "w < 2 ^ 31"
    and "eval \<rho> l = Some (BitsV w False x)" "in_range w False x"
    and "slices_of a w p (root l) \<rho>" "slices_of b w q (root l) \<rho>"
    and "in_range w False m" "in_range w False k" "in_range w False z"
    and "m AND k = 0" "\<And>i. bit z i \<longleftrightarrow> i < w \<and> \<not> bit m i \<and> \<not> bit k i" "in_range w False ((p AND m) OR (q AND k))"
  shows "effect_all \<rho> (sa @ sb @ sx) = store \<rho> l (BitsV w False (op_int op x ((p AND m) OR (q AND k))))"
proof -
  obtain x1 where x1: "effect_all \<rho> sa = store \<rho> l (BitsV w False x1)" "in_range w False x1"
      "\<forall>i. bit x1 i = (if bit m i then op_bit op (bit x i) (bit p i) else bit x i)"
    using assignSlices_effect [OF assms(1,4-6,12,7-10)] by blast
  obtain \<rho>1 where r1: "store \<rho> l (BitsV w False x1) = Some \<rho>1" "eval \<rho>1 l = Some (BitsV w False x1)"
    using store_place [OF assms(4,8)] by blast
  obtain x2 where x2: "effect_all \<rho>1 sb = store \<rho>1 l (BitsV w False x2)" "in_range w False x2"
      "\<forall>i. bit x2 i = (if bit k i then op_bit op (bit x1 i) (bit q i) else bit x1 i)"
    using assignSlices_effect [OF assms(2,4-6,13,7) r1(2) x1(2) slices_of_store [OF assms(11,4) r1(1)]] by blast
  obtain \<rho>2 where r2: "store \<rho>1 l (BitsV w False x2) = Some \<rho>2" "eval \<rho>2 l = Some (BitsV w False x2)"
    using store_place [OF assms(4) r1(2)] by blast
  obtain x3 where x3: "effect_all \<rho>2 sx = store \<rho>2 l (BitsV w False x3)" "in_range w False x3"
      "\<forall>i. bit x3 i = (if bit z i then op_bit op (bit x2 i) (bit (0::int) i) else bit x2 i)"
    using assignSlices_effect [OF assms(3,4-6,14,7) r2(2) x2(2) slices_of_zero] by blast
  have disj: "\<not> (bit m i \<and> bit k i)" for i using assms(15) by (metis bit_and_iff bit_0_eq bot_apply bot_bool_def)
  let ?v = "op_int op x ((p AND m) OR (q AND k))"
  have v: "in_range w False ?v" by (rule in_range_op_int [OF assms(6,9,17)])
  have "x3 = ?v"
  proof (rule bit_eqI)
    fix i
    show "bit x3 i \<longleftrightarrow> bit ?v i"
    proof (cases "i < w")
      case True
      then show ?thesis using disj [of i]
        by (simp add: x3(3) x2(3) x1(3) assms(16) bit_op_int [OF assms(6)] bit_simps split: if_splits) blast?
    next
      case False
      then show ?thesis using in_range_bits [OF v] in_range_bits [OF x3(2)] by blast
    qed
  qed
  then show ?thesis using x1(1) r1(1) x2(1) r2(1) x3(1) store_store [OF assms(4) r1(1)] store_store [OF assms(4) r2(1)]
    by (simp add: effect_all_append)
qed

text \<open>C9: SimplifyBitwise keeps what an assignment of a typed expression to a variable of type \<open>bit<w>\<close> does: the
  assignments to slices that replace \<open>l = (a & maskA) | (b & maskB)\<close>, one for each run of ones of the masks
  and of the bits that neither mask has, leave the variables as the assignment does, also for \<open>&=\<close>, \<open>|=\<close> and
  \<open>^=\<close>.  The conditions, when the right side has this form (\<open>splittable\<close>): the left side is a variable, a field
  of one or an element of one at a constant index; the operands have its type \<open>bit<w>\<close> and the masks fit in it;
  the operands are not slices of the form \<open>a[n+:w]\<close>, of which \<open>Slice::make\<close> makes another slice; and they do not
  read the variable that is assigned.\<close>

theorem simplify_bitwise_keeps:
  assumes "SimplifyBitwise (Assignment op l r) = Ok ds sts" "splittable (Assignment op l r)"
    and "wf_env \<rho>" "typed \<rho> l" "typed \<rho> r" "eval \<rho> l = Some (BitsV w False x)" "eval \<rho> r = Some v"
  shows "effect_all \<rho> sts = effect \<rho> (Assignment op l r)"
proof (cases "op \<in> bitwise_ops \<and> (\<exists>a m b k. match_two_masked r = Some ((a, m), (b, k)) \<and> m AND k = 0)")
  case False
  then have "sts = [Assignment op l r]"
    using assms(1) by (auto simp: bitwise_ops_def split: option.splits prod.splits if_splits)
  then show ?thesis by simp
next
  case True
  then obtain a m b k where r: "op \<in> bitwise_ops" "match_two_masked r = Some ((a, m), (b, k))" "m AND k = 0" by blast
  have l: "place l" "operand_ok l (a, m)" "operand_ok l (b, k)" using assms(2) r(2) by auto
  have t: "type_of l = Type_Bits (int w) False" "w < 2 ^ 31"
    using evals_type [of \<rho> l "BitsV w False x"] assms(4,6) by (auto simp: evals_def has_type_def)
  have x: "in_range w False x" using eval_wf [OF assms(3,6)] by simp
  obtain p q where p: "slices_of a w p (root l) \<rho>" "slices_of b w q (root l) \<rho>" "in_range w False m" "in_range w False k"
      "v = BitsV w False ((p AND m) OR (q AND k))" "in_range w False ((p AND m) OR (q AND k))"
    using two_masked_value [OF r(2) _ l(2,3) t(1) assms(3), of v] assms(5,7) by (auto simp: evals_def)
  define z where "z = (push_bit w 1 - 1) AND NOT m AND NOT k"
  have z: "bit z i \<longleftrightarrow> i < w \<and> \<not> bit m i \<and> \<not> bit k i" for i
    by (simp add: z_def bit_and_int_iff bit_not_int_iff push_bit_eq_mult bit_mask_iff flip: mask_eq_exp_minus_1)
  have zr: "in_range w False z" by (rule in_rangeI) (simp add: z)
  obtain d1 sa d2 sb where s: "assignSlices op l a m = Ok d1 sa" "assignSlices op l b k = Ok d2 sb"
    and sx: "(z \<noteq> 0 \<and> (\<exists>d3 sx. assignSlices op l (inf_constant 0) z = Ok d3 sx \<and> sts = sa @ sb @ sx)) \<or> z = 0 \<and> sts = sa @ sb"
    using assms(1) r t(1) by (auto simp: bitwise_ops_def comp_simps z_def Let_def and.assoc split: if_splits comp.splits)
  have zero: "assignSlices op l (inf_constant 0) 0 = Ok [] []"
    by (simp add: assignSlices_def scan1_def scan1_positive_def int_pos_def slice_ranges.simps)
  obtain d3 sx where "assignSlices op l (inf_constant 0) z = Ok d3 sx" "sts = sa @ sb @ sx"
    using sx zero by (cases "z = 0") auto
  then have "effect_all \<rho> sts = store \<rho> l (BitsV w False (op_int op x ((p AND m) OR (q AND k))))"
    using effect_groups [OF s _ l(1) t(1) r(1) t(2) assms(6) x p(1-4) zr r(3) z p(6)] by blast
  then show ?thesis using assms(6,7) p(5) op_val_bits [OF r(1) x p(6)] by simp
qed

abbreviation x8 :: expr where "x8 \<equiv> PathExpression b8 ''x''"
abbreviation y8 :: expr where "y8 \<equiv> PathExpression b8 ''y''"

definition masked :: "expr \<Rightarrow> int \<Rightarrow> expr" where
  "masked e m = Binary BAnd b8 e (Constant b8 m 16)"

lemma scan_examples:
  "scan1 240 0 = 4" "scan0 240 4 = 8" "scan1 240 8 = UINT_MAX" "scan1 14 0 = 1" "scan0 14 1 = 4" "scan1 14 4 = UINT_MAX"
  "scan1 15 0 = 0" "scan0 15 0 = 4" "scan1 15 4 = UINT_MAX" "scan1 1 0 = 0" "scan0 1 0 = 1" "scan1 1 1 = UINT_MAX"
  by (simp_all add: scan1_def scan0_def scan1_positive_def scan0_positive.simps lsb.simps msb.simps bit_numeral_simps
      bit_0 bit_Suc_0_iff)

lemma range_end: "slice_ranges m (int_pos UINT_MAX) = []"
  by (subst slice_ranges.simps) (simp add: int_pos_def)

lemma range_step:
  "scan0 m p = z \<Longrightarrow> z < 2 ^ 31 \<Longrightarrow> p < 2 ^ 31 \<Longrightarrow>
     slice_ranges m (int_pos p) = (int p, int z - 1) # slice_ranges m (int_pos (scan1 m z))"
  by (subst slice_ranges.simps) (simp add: int_pos_def to_unsigned_def)

lemma ranges_examples:
  "slice_ranges 240 (int_pos (scan1 240 0)) = [(4, 7)]" "slice_ranges 14 (int_pos (scan1 14 0)) = [(1, 3)]"
  "slice_ranges 15 (int_pos (scan1 15 0)) = [(0, 3)]" "slice_ranges 1 (int_pos (scan1 1 0)) = [(0, 0)]"
  by (simp_all add: scan_examples range_end range_step [OF scan_examples(2)] range_step [OF scan_examples(5)]
      range_step [OF scan_examples(8)] range_step [OF scan_examples(11)] del: One_nat_def)

lemma slices_example:
  "SimplifyBitwise (Assignment (OpAssign BXor) x8 (Binary BOr b8 (masked (Cast b8 y8) 240) (masked y8 14))) =
     Ok [] [Assignment (OpAssign BXor) (Slice_mk x8 7 4) (Slice_mk (Cast b8 y8) 7 4),
       Assignment (OpAssign BXor) (Slice_mk x8 3 1) (Slice_mk y8 3 1),
       Assignment (OpAssign BXor) (Slice_mk x8 0 0) (Constant (Type_Bits 1 False) 0 10)]"
  by (simp add: masked_def assignSlices_def ranges_examples Slice_make_def Slice_make_rest_def Let_def to_unsigned_def)

lemma simplify_bitwise_keeps_witness:
  "effect_all sr_env
     [Assignment (OpAssign BXor) (Slice_mk x8 7 4) (Slice_mk (Cast b8 y8) 7 4),
      Assignment (OpAssign BXor) (Slice_mk x8 3 1) (Slice_mk y8 3 1),
      Assignment (OpAssign BXor) (Slice_mk x8 0 0) (Constant (Type_Bits 1 False) 0 10)] =
   effect sr_env (Assignment (OpAssign BXor) x8 (Binary BOr b8 (masked (Cast b8 y8) 240) (masked y8 14)))"
proof (rule simplify_bitwise_keeps [OF slices_example _ wf_sr_env])
  show "splittable (Assignment (OpAssign BXor) x8 (Binary BOr b8 (masked (Cast b8 y8) 240) (masked y8 14)))" by code_simp
  show "typed sr_env x8" by code_simp
  show "typed sr_env (Binary BOr b8 (masked (Cast b8 y8) 240) (masked y8 14))" by code_simp
  show "eval sr_env x8 = Some (BitsV 8 False 77)" by code_simp
  show "eval sr_env (Binary BOr b8 (masked (Cast b8 y8) 240) (masked y8 14)) = Some (BitsV 8 False 4)" by code_simp
qed

text \<open>The exchange of the halves of a variable \<open>p\<close> of \<open>2 n\<close> bits,
  \<open>p = ((p >> n) & low) | ((p << n) & high)\<close>, and what SimplifyBitwise makes of it.\<close>

definition half_swap :: "string \<Rightarrow> nat \<Rightarrow> assign_stmt" where
  "half_swap p n =
     (let t = Type_Bits (int (2 * n)) False; x = PathExpression t p
      in Assignment Plain x
           (Binary BOr t (Binary BAnd t (Binary Shr t x (inf_constant (int n))) (Constant t (mask n) 16))
              (Binary BAnd t (Binary Shl t x (inf_constant (int n))) (Constant t (push_bit n (mask n)) 16))))"

definition half_slices :: "string \<Rightarrow> nat \<Rightarrow> assign_stmt list" where
  "half_slices p n =
     (let t = Type_Bits (int (2 * n)) False; x = PathExpression t p
      in [Assignment Plain (Slice_mk x (int n - 1) 0) (Slice_mk (Binary Shr t x (inf_constant (int n))) (int n - 1) 0),
          Assignment Plain (Slice_mk x (2 * int n - 1) (int n))
            (Slice_mk (Binary Shl t x (inf_constant (int n))) (2 * int n - 1) (int n))])"

lemma scan1_eq:
  assumes "0 \<le> m" "\<And>i. bit m i \<Longrightarrow> i < 2 ^ 31" "p \<le> q" "bit m q" "\<And>i. p \<le> i \<Longrightarrow> i < q \<Longrightarrow> \<not> bit m i"
  shows "scan1 m p = q"
proof -
  have "scan1 m p < 2 ^ 31" using scan1_spec(2) [OF refl assms(1), of p] assms(2-4) by blast
  from scan1_spec(1) [OF refl this] assms(3-5) show ?thesis by (meson le_less_linear linorder_neqE_nat)
qed

lemma scan0_eq:
  assumes "0 \<le> m" "p \<le> q" "\<not> bit m q" "\<And>i. p \<le> i \<Longrightarrow> i < q \<Longrightarrow> bit m i" "q < 2 ^ 31"
  shows "scan0 m p = q"
proof -
  have "NOT m < 0" using assms(1) by simp
  then have z: "p \<le> scan0 m p \<and> \<not> bit m (scan0 m p) \<and> (\<forall>i. p \<le> i \<and> i < scan0 m p \<longrightarrow> bit m i)"
    using scan0_positive_spec [of p "nat m"] assms(1) by (simp add: scan0_NOT scan1_def not_int_def bit_nat_iff)
  then show ?thesis using assms(2-4) by (meson le_less_linear linorder_neqE_nat)
qed

lemma no_more_ranges:
  assumes "0 \<le> m" "\<And>i. bit m i \<Longrightarrow> i < p" "p \<le> 2 ^ 31"
  shows "slice_ranges m (int_pos (scan1 m p)) = []"
proof -
  have "\<not> scan1 m p < 2 ^ 31" using scan1_spec(1) [OF refl, of m p] assms(2) by fastforce
  then show ?thesis by (subst slice_ranges.simps) (simp add: int_pos_def)
qed

lemma bit_push_mask: "bit (push_bit l (mask n) :: int) i \<longleftrightarrow> l \<le> i \<and> i < l + n"
  by (auto simp: bit_simps)

lemma one_range:
  assumes "0 < n" "l + n < 2 ^ 31"
  shows "slice_ranges (push_bit l (mask n)) (int_pos (scan1 (push_bit l (mask n)) 0)) = [(int l, int (l + n) - 1)]"
proof -
  let ?m = "push_bit l (mask n) :: int"
  have b: "bit ?m i \<Longrightarrow> i < 2 ^ 31" for i using assms(2) by (simp add: bit_push_mask)
  have s: "scan1 ?m 0 = l" by (rule scan1_eq) (use assms b in \<open>auto simp: bit_push_mask\<close>)
  have z: "scan0 ?m l = l + n" by (rule scan0_eq) (use assms in \<open>auto simp: bit_push_mask\<close>)
  have "slice_ranges ?m (int_pos (scan1 ?m (l + n))) = []"
    by (rule no_more_ranges) (use assms in \<open>auto simp: bit_push_mask\<close>)
  then show ?thesis using range_step [OF z] assms by (simp add: s)
qed

lemma half_swap_slices:
  assumes "0 < n" "2 * n < 2 ^ 31"
  shows "SimplifyBitwise (half_swap p n) = Ok [] (half_slices p n)"
proof -
  have "(mask n :: int) AND push_bit n (mask n) = 0" by (rule bit_eqI) (auto simp: bit_simps)
  moreover have "(push_bit (2 * n) 1 - 1) AND NOT (mask n) AND NOT (push_bit n (mask n)) = (0::int)"
  proof -
    have "push_bit (2 * n) 1 - 1 = (mask (2 * n) :: int)" by (simp add: mask_eq_exp_minus_1 push_bit_eq_mult)
    moreover have "(mask (2 * n) :: int) AND NOT (mask n) AND NOT (push_bit n (mask n)) = 0"
      by (rule bit_eqI) (auto simp: bit_simps)
    ultimately show ?thesis by simp
  qed
  moreover have "slice_ranges (mask n) (int_pos (scan1 (mask n) 0)) = [(0, int n - 1)]" using one_range [of n 0] assms by simp
  moreover have "slice_ranges (push_bit n (mask n)) (int_pos (scan1 (push_bit n (mask n)) 0)) = [(int n, 2 * int n - 1)]"
    using one_range [of n n] assms by simp
  ultimately show ?thesis using assms
    by (simp add: half_swap_def half_slices_def Let_def assignSlices_def Slice_make_def Slice_make_rest_def to_unsigned_def
        nat_mult_distrib and.assoc)
qed

lemma half_bits:
  assumes "in_range (2 * n) False x"
  shows "bit (drop_bit n x) i \<longleftrightarrow> bit x (i + n)" "bit (take_bit n x) i \<longleftrightarrow> i < n \<and> bit x i"
    "\<not> (i \<ge> n \<and> bit (drop_bit n x) i)" "take_bit n (drop_bit n x) = drop_bit n x"
    "concat_bit n (drop_bit n x) y = x div 2 ^ n + 2 ^ n * y"
proof -
  note x = in_range_bits [OF assms]
  show "bit (drop_bit n x) i \<longleftrightarrow> bit x (i + n)" "bit (take_bit n x) i \<longleftrightarrow> i < n \<and> bit x i"
    by (simp_all add: bit_simps add.commute)
  have high: "\<not> (i \<ge> n \<and> bit (drop_bit n x) i)" for i using x [of "i + n"] by (auto simp: bit_simps add.commute)
  then show "\<not> (i \<ge> n \<and> bit (drop_bit n x) i)" .
  show th: "take_bit n (drop_bit n x) = drop_bit n x"
    by (rule bit_eqI) (use high in \<open>auto simp: bit_take_bit_iff not_le [symmetric]\<close>)
  show "concat_bit n (drop_bit n x) y = x div 2 ^ n + 2 ^ n * y"
    by (simp add: concat_bit_eq th push_bit_eq_mult mult.commute flip: drop_bit_eq_div)
qed

lemma norm_unsigned: "norm w False y = take_bit w y"
  by (simp add: norm_def take_bit_eq_mod)

lemma eval_half_shifts:
  assumes "var_val \<rho> p = Some (BitsV (2 * n) False y)"
  defines "t \<equiv> Type_Bits (int (2 * n)) False"
  shows "eval \<rho> (Binary Shr t (PathExpression t p) (inf_constant (int n))) = Some (BitsV (2 * n) False (drop_bit n y))"
    "eval \<rho> (Binary Shl t (PathExpression t p) (inf_constant (int n))) = Some (BitsV (2 * n) False (take_bit (2 * n) (push_bit n y)))"
  using assms(1) by (simp_all add: binop_val_def drop_bit_eq_div push_bit_eq_mult norm_unsigned)

text \<open>The assignment exchanges the halves; the two assignments that are made of it do not.\<close>

lemma half_swap_effect:
  assumes v: "var_val \<rho> p = Some (BitsV (2 * n) False x)" and x: "in_range (2 * n) False x"
  shows "effect \<rho> (half_swap p n) =
    Some (\<rho>\<lparr>var_val := (var_val \<rho>)(p \<mapsto> BitsV (2 * n) False (concat_bit n (drop_bit n x) (take_bit n x)))\<rparr>)"
proof -
  have "norm (2 * n) False (drop_bit n x AND mask n OR take_bit (2 * n) (push_bit n x) AND push_bit n (mask n)) =
      concat_bit n (drop_bit n x) (take_bit n x)"
    unfolding norm_unsigned
    by (rule bit_eqI) (use in_range_bits [OF x] in \<open>auto simp: bit_simps half_bits(1,2) [OF x] bit_concat_bit_iff\<close>)
  moreover have "norm (2 * n) False (drop_bit n x AND mask n) = drop_bit n x AND mask n"
    "norm (2 * n) False (take_bit (2 * n) (push_bit n x) AND push_bit n (mask n)) =
       take_bit (2 * n) (push_bit n x) AND push_bit n (mask n)"
    unfolding norm_unsigned by (rule bit_eqI, auto simp: bit_simps)+
  moreover have "in_range (2 * n) False (mask n)" "in_range (2 * n) False (push_bit n (mask n))"
    by (rule in_rangeI, auto simp: bit_simps)+
  moreover have "nat (2 * int n) = 2 * n" by simp
  ultimately show ?thesis using eval_half_shifts [OF v] v
    by (simp add: half_swap_def Let_def op_val_def binop_val_def)
qed

lemma half_slices_effect:
  assumes n: "0 < n" and v: "var_val \<rho> p = Some (BitsV (2 * n) False x)" and x: "in_range (2 * n) False x"
  shows "effect_all \<rho> (half_slices p n) =
    Some (\<rho>\<lparr>var_val := (var_val \<rho>)(p \<mapsto> BitsV (2 * n) False (concat_bit n (drop_bit n x) (drop_bit n x)))\<rparr>)"
proof -
  define t where "t = Type_Bits (int (2 * n)) False"
  define w where "w = PathExpression t p"
  define x1 where "x1 = set_bits x 0 n (bits_of (drop_bit n x) 0 n)"
  define \<rho>a where "\<rho>a = \<rho>\<lparr>var_val := (var_val \<rho>)(p \<mapsto> BitsV (2 * n) False x1)\<rparr>"
  note b = in_range_bits [OF x] half_bits [OF x]
  have x1: "in_range (2 * n) False x1"
    by (rule in_rangeI) (use b(1) in \<open>auto simp: x1_def bit_set_bits bit_bits_of b(2) split: if_splits\<close>)
  have s1: "effect \<rho> (Assignment Plain (Slice_mk w (int n - 1) 0) (Slice_mk (Binary Shr t w (inf_constant (int n))) (int n - 1) 0)) =
      Some \<rho>a"
    using n v x store_slice [of \<rho> w "2 * n" x 0 "int n - 1" n "bits_of (drop_bit n x) 0 n"]
      eval_Slice_mk [OF eval_half_shifts(1) [OF v], of 0 "int n - 1"] eval_Slice_mk [of \<rho> w "2 * n" False x 0 "int n - 1"]
    by (simp add: op_val_def w_def t_def x1_def \<rho>a_def)
  have a: "var_val \<rho>a p = Some (BitsV (2 * n) False x1)" by (simp add: \<rho>a_def)
  have "set_bits x1 n n (bits_of (take_bit (2 * n) (push_bit n x1)) n n) = concat_bit n (drop_bit n x) (drop_bit n x)"
    by (rule bit_eqI) (use b(1,4) in \<open>auto simp: x1_def bit_set_bits bit_bits_of bit_simps bit_concat_bit_iff\<close>)
  then have "effect \<rho>a (Assignment Plain (Slice_mk w (2 * int n - 1) (int n))
      (Slice_mk (Binary Shl t w (inf_constant (int n))) (2 * int n - 1) (int n))) =
      Some (\<rho>\<lparr>var_val := (var_val \<rho>)(p \<mapsto> BitsV (2 * n) False (concat_bit n (drop_bit n x) (drop_bit n x)))\<rparr>)"
    using n a x1 store_slice [of \<rho>a w "2 * n" x1 "int n" "2 * int n - 1" n "bits_of (take_bit (2 * n) (push_bit n x1)) n n"]
      eval_Slice_mk [OF eval_half_shifts(2) [OF a], of "int n" "2 * int n - 1"]
      eval_Slice_mk [of \<rho>a w "2 * n" False x1 "int n" "2 * int n - 1"]
    by (simp add: op_val_def w_def t_def \<rho>a_def)
  with s1 show ?thesis by (simp add: half_slices_def Let_def t_def w_def del: effect.simps)
qed

text \<open>C11: An operand that reads the variable breaks SimplifyBitwise. The exchange of the halves of a variable of
  \<open>2 n\<close> bits becomes two assignments of which the second reads what the first has written: after them both
  halves are the high half of the old value, while the assignment exchanges the halves.  They agree only if
  the halves were equal.\<close>

theorem halves_not_exchanged:
  assumes "0 < n" "2 * n < 2 ^ 31" "var_val \<rho> p = Some (BitsV (2 * n) False x)" "in_range (2 * n) False x"
  shows "\<exists>sts \<rho>1 \<rho>2. SimplifyBitwise (half_swap p n) = Ok [] sts \<and>
    effect_all \<rho> sts = Some \<rho>1 \<and> var_val \<rho>1 p = Some (BitsV (2 * n) False (x div 2 ^ n + 2 ^ n * (x div 2 ^ n))) \<and>
    effect \<rho> (half_swap p n) = Some \<rho>2 \<and> var_val \<rho>2 p = Some (BitsV (2 * n) False (x div 2 ^ n + 2 ^ n * (x mod 2 ^ n))) \<and>
    (\<rho>1 = \<rho>2 \<longleftrightarrow> x mod 2 ^ n = x div 2 ^ n)"
proof -
  note c = half_bits(5) [OF assms(4)]
  let ?\<rho> = "\<lambda>y. \<rho>\<lparr>var_val := (var_val \<rho>)(p \<mapsto> BitsV (2 * n) False (concat_bit n (drop_bit n x) y))\<rparr>"
  have "?\<rho> y = ?\<rho> z \<longleftrightarrow> y = z" for y z
  proof
    assume "?\<rho> y = ?\<rho> z"
    then have "var_val (?\<rho> y) p = var_val (?\<rho> z) p" by simp
    then show "y = z" by (simp add: c)
  qed simp
  then have same: "?\<rho> (drop_bit n x) = ?\<rho> (take_bit n x) \<longleftrightarrow> x mod 2 ^ n = x div 2 ^ n"
    by (metis drop_bit_eq_div take_bit_eq_mod)
  have vals: "var_val (?\<rho> (drop_bit n x)) p = Some (BitsV (2 * n) False (x div 2 ^ n + 2 ^ n * (x div 2 ^ n)))"
    "var_val (?\<rho> (take_bit n x)) p = Some (BitsV (2 * n) False (x div 2 ^ n + 2 ^ n * (x mod 2 ^ n)))"
    unfolding c by (simp_all add: drop_bit_eq_div take_bit_eq_mod)
  show ?thesis
    using half_swap_slices [OF assms(1,2), of p] half_slices_effect [OF assms(1,3,4)] half_swap_effect [OF assms(3,4)] same vals
    by blast
qed

theorem halves_not_exchanged_witness:
  "\<exists>\<rho>1 \<rho>2. effect_all sr_env (half_slices ''x'' 4) = Some \<rho>1 \<and> var_val \<rho>1 ''x'' = Some (BitsV 8 False 0x44) \<and>
     effect sr_env (half_swap ''x'' 4) = Some \<rho>2 \<and> var_val \<rho>2 ''x'' = Some (BitsV 8 False 0xD4)"
proof -
  have v: "var_val sr_env ''x'' = Some (BitsV (2 * 4) False 77)" "in_range (2 * 4) False 77" by code_simp+
  from halves_not_exchanged [OF _ _ v] half_swap_slices [of 4 "''x''"] show ?thesis by auto
qed


section \<open>DoRemoveLeftSlices keeps assignments\<close>

lemma norm_bitsI: "(\<And>i. i < w \<Longrightarrow> bit a i = bit b i) \<Longrightarrow> norm w s a = norm w s b"
  by (rule norm_cong) (metis bit_eqI bit_take_bit_iff take_bit_eq_mod)

text \<open>C10: DoRemoveLeftSlices keeps what an assignment to a slice does, for a variable of either sign: the
  masked and shifted value replaces the bits of the slice and no others.\<close>

theorem remove_left_slices_keeps:
  assumes "DoRemoveLeftSlices typeMap (Assignment Plain (Slice t l e1 e2) r) = Ok ds a" "typeMap l = Type_Bits (int w) s"
    and "eval \<rho> l = Some (BitsV w s x)" "in_range w s x" "w < 2 ^ 31"
    and "effect \<rho> (Assignment Plain (Slice t l e1 e2) r) = Some \<rho>'"
  shows "effect \<rho> a = Some \<rho>'"
proof -
  obtain d1 h d2 k m d3 msk where c: "slice_index e1 = Ok d1 h" "slice_index e2 = Ok d2 k"
      "maskFromSlice (nat h) (nat k) = Some m" "mk_constant (Type_Bits (int w) s) m 16 False = Ok d3 msk"
    and a: "a = Assignment Plain l (mk_binary_untyped BOr (mk_binary_untyped BAnd l (Unary Cmpl (type_of msk) msk))
      (mk_binary_untyped BAnd (Binary Shl (Type_Bits (int w) s) (Cast (Type_Bits (int w) s) r) (inf_constant k)) msk))"
    using assms(1) by (auto simp: assms(2) comp_simps Let_def split: option.splits)
  obtain hi lo n b where i: "Option.bind (eval \<rho> e1) index_val = Some hi" "Option.bind (eval \<rho> e2) index_val = Some lo"
      "eval \<rho> r = Some (BitsV n False b)" "0 \<le> lo" "lo \<le> hi" "hi < int w" "int n = hi - lo + 1"
    and st: "store \<rho> l (BitsV w s (norm w s (set_bits x (nat lo) n b))) = Some \<rho>'"
    using assms(6) by (auto simp: bind_eq_Some_conv op_val_def assms(3) split: option.splits val.splits if_splits)
  have hk: "h = hi" "k = lo" using c(1,2) i assms(5)
    by (auto simp: asUnsigned_def comp_simps eval_Constant_iff bind_eq_Some_conv elim!: slice_index.elims split: if_splits)
  have m: "bit m j \<longleftrightarrow> lo \<le> int j \<and> int j \<le> hi" for j
    using c(3) i(4,5) bit_slice_mask [of "nat lo" "nat hi" j]
    by (auto simp: hk maskFromSlice_eq nat_le_iff le_nat_iff)
  have msk: "eval \<rho> msk = Some (BitsV w s (norm w s m))"
    using eval_mk_constant_bits [OF c(4), of \<rho>] by simp
  let ?y = "norm w s ((norm w s (x AND norm w s (NOT (norm w s m)))) OR
     (norm w s (norm w s (norm w s b * 2 ^ nat lo) AND norm w s m)))"
  have "eval \<rho> (Cast (Type_Bits (int w) s) r) = Some (BitsV w s (norm w s b))"
    using i(3-6) by simp
  then have rhs: "effect \<rho> a = store \<rho> l (BitsV w s ?y)"
    using msk assms(3) i(4) by (simp add: a hk mk_binary_untyped_def binop_val_def op_val_def)
  have "?y = norm w s (set_bits x (nat lo) n b)"
  proof (rule norm_bitsI)
    fix j assume j: "j < w"
    show "bit (norm w s (x AND norm w s (NOT (norm w s m))) OR
       norm w s (norm w s (norm w s b * 2 ^ nat lo) AND norm w s m)) j = bit (set_bits x (nat lo) n b) j"
      using j i(4,5,7) m [of j] bit_norm [of "j - nat lo" w s b]
      by (auto simp: bit_or_int_iff bit_and_int_iff bit_norm bit_not_int_iff bit_set_bits bit_push_bit_iff simp flip: push_bit_eq_mult)
  qed
  then show ?thesis using rhs st by simp
qed

lemma remove_left_slices_keeps_witness:
  "effect sr_env (Assignment Plain x8
       (Binary BOr b8 (Binary BAnd b8 x8 (Unary Cmpl b8 (Constant b8 120 16)))
         (Binary BAnd b8 (Binary Shl b8 (Cast b8 (Constant (Type_Bits 4 False) 5 10)) (inf_constant 3)) (Constant b8 120 16)))) =
     Some (sr_env\<lparr>var_val := (var_val sr_env)(''x'' \<mapsto> BitsV 8 False 0x2D)\<rparr>)"
proof (rule remove_left_slices_keeps)
  show "DoRemoveLeftSlices (\<lambda>e. b8) (Assignment Plain (Slice (Type_Bits 4 False) x8 (inf_constant 6) (inf_constant 3))
       (Constant (Type_Bits 4 False) 5 10)) = Ok [] (Assignment Plain x8
       (Binary BOr b8 (Binary BAnd b8 x8 (Unary Cmpl b8 (Constant b8 120 16)))
         (Binary BAnd b8 (Binary Shl b8 (Cast b8 (Constant (Type_Bits 4 False) 5 10)) (inf_constant 3)) (Constant b8 120 16))))"
    by code_simp
  show "b8 = Type_Bits (int 8) False" by simp
  show "eval sr_env x8 = Some (BitsV 8 False 77)" by code_simp
  have e: "eval sr_env (Constant (Type_Bits 4 False) 5 10) = Some (BitsV 4 False 5)"
    "norm 8 False (set_bits 77 3 4 5) = 0x2D" "in_range 8 False 77" by code_simp+
  then show "in_range 8 False 77" by simp
  show "effect sr_env (Assignment Plain (Slice (Type_Bits 4 False) x8 (inf_constant 6) (inf_constant 3))
      (Constant (Type_Bits 4 False) 5 10)) = Some (sr_env\<lparr>var_val := (var_val sr_env)(''x'' \<mapsto> BitsV 8 False 0x2D)\<rparr>)"
    using e \<open>eval sr_env x8 = Some (BitsV 8 False 77)\<close> by (simp add: op_val_def slice_val_def)
qed simp

end
