(* ===== verification/Spec2Isabelle.thy ===== *)
theory Spec2Isabelle
  imports SelectRange_Correct StrengthRed_Pass BitMatrix SatElim TernaryMatch CallGraph_Dom CallGraph_SCC TypeUnify_Loop TypeMap_Width FeatureExtractor_Spec BitRange_Props BitRange_Iter TypeCheck_Safe HashVec_Props OptimizeExpr_Ends SliceAssign_Sound
begin

text \<open>
  A verification development for p4c, the reference compiler for P4.

  \<^bold>\<open>The program.\<close>  The front end parses a P4 program into the intermediate representation of ir/,
  infers and checks the types (frontends/p4/typeChecking), and rewrites the program by a sequence of
  passes, among them constant folding (frontends/common) and strength reduction (frontends/p4).  The mid
  end (midend/) lowers the program further, and a back end (backends/) produces the code of a target.  The
  library lib/ has the containers and integer routines that all of them use.  The development models
  the core that decides what a program means: expressions, their types, the passes that rewrite
  expressions, the solver of type constraints, the analysis of call graphs, and the data structures
  below them, together with the one analysis of the back end lacpp_be, which is this repository's own.

  \<^bold>\<open>How the code is modelled.\<close>  A computation of the compiler is a value of \<open>comp\<close> (P4Prelude):
  \<open>Ok ds x\<close> is the result \<open>x\<close> with the diagnostics \<open>ds\<close> that were reported on the way, \<open>Bug m\<close> is a failed
  BUG, BUG_CHECK or CHECK_NULL.  \<open>big_int\<close> is \<open>int\<close>; machine words whose width matters are words (the units
  of a bit vector); an \<open>int\<close> of the code that only counts is an integer or a natural number, which the
  text of each theory says.  Where the code asks how many errors have been reported (\<open>errorCount\<close>), the count
  is that of the diagnostics so far, to which the checker adds the errors reported before it
  (\<open>errorsSoFar\<close>).  Nodes are values: the code compares nodes by address in a few places, and the
  theories say what stands for the address.  Loops are structural or have a measure; where the code does
  not end on every input the loop is a \<open>partial_function\<close>, so that not returning is the value \<open>None\<close>.

  \<^bold>\<open>The theories.\<close>
  \<^item> P4Prelude: the results above, facts on integers, bits and lists that are shared, and the
    collections of simp rules.
  \<^item> BigInt: lib/big_int_util.h and .cpp (masks, shifts, scans, logarithms, text to integer).
  \<^item> IR_Expr: the types and expressions of ir/type.def and ir/expression.def that the passes look at,
    constants with their overflow handling and operators, \<open>Slice::make\<close>.
  \<^item> P4Sem: the specification of the passes, an evaluation of expressions over values that carry their
    width and sign.  What the language leaves to the target (calls, reads of invalid stack elements) is
    part of the environment.
  \<^item> ConstFold, ConstFold_Correct, ConstFold_Stmt, ConstFold_Typed: the class DoConstantFolding
    (frontends/common/constantFolding.cpp), one definition per visitor; each keeps the value of the node
    (\<open>constant_folding_sound\<close>), and its types; select expressions, if and switch statements.
  \<^item> StrengthRed, StrengthRed_Typed, StrengthRed_Correct, StrengthRed_Slice, StrengthRed_Pass: the class
    DoStrengthReduction (frontends/p4/strengthReduction.cpp).  The rewritings read the recorded types, so
    \<open>typed\<close> says that these are the types of the values; \<open>sr_exact\<close> excludes the three shapes for which the
    pass is wrong, each of which has a counterexample.
  \<^item> SelectRange, SelectRange_Correct: the pass ReplaceSelectRange (midend/replaceSelectRange.cpp) and the
    exactness of the masks it computes.
  \<^item> SliceAssign, SliceAssign_Sound: midend/simplifyBitwise.{h,cpp} and midend/removeLeftSlices.cpp, from
    assignments of masked values to assignments to slices and back, against the effect of assignments on
    variables, fields and elements; \<open>halves_not_exchanged\<close> shows for every even width why the first needs
    operands that do not read the variable.
  \<^item> SatElim: midend/saturationElim.cpp and the bounds of ir/irutils.cpp.
  \<^item> BitVec, BitVec_Spec, BitVec_Ops, BitVec_Arith, BitVec_Shift, BitVec_Props: lib/bitvec.h and .cpp.  A
    vector is the list of its words and refines the non-negative integer \<open>bv_val\<close>.
  \<^item> BitMatrix: lib/ltbitmatrix.h and lib/symbitmatrix.h over the bit vectors, of which they use the
    interface \<open>bit_store\<close>.
  \<^item> TernaryMatch: lib/match.h and .cpp, pairs of masks with their text.  \<open>documented_match\<close> is the formula
    of the comment, which agrees with the code on values that fit in the width only.
  \<^item> BitRange, BitRange_Props, BitRange_Iter: lib/bitrange.h, ranges of bits and bytes as intervals of
    integers, and the loop over the contiguous ranges of a bit vector.
  \<^item> CallGraph, CallGraph_Updates, CallGraph_Dom, CallGraph_SCC: frontends/p4/callGraph.h, with
    reachability, dominators and Tarjan's sort against their textbook definitions, and the loops that are
    reported: the natural loops, and those that the edges between unreachable nodes make.
  \<^item> TypeUnify, TypeConstraints: types, substitutions and the solver of type constraints
    (typeSubstitution.cpp, typeConstraints.cpp, typeUnification.cpp); TypeUnify_Sound, TypeUnify_Accepts,
    TypeUnify_Rules, TypeUnify_Solve: what a solution means, and that the solver only returns solutions;
    TypeUnify_Complete, TypeUnify_Loop: most general solutions and termination.
  \<^item> TypeMap_Canon, TypeMap_Width: frontends/p4/typeMap.cpp, equivalence, canonical types, conversions,
    widths.
  \<^item> TypeCheck, TypeCheck_Sound, TypeCheck_Errors, TypeCheck_Safe: the type checker on expressions
    (typeCheckExpr.cpp and parts of typeChecker.cpp), which calls the solver; under the conditions of
    \<open>in_scope\<close> an accepted expression keeps its value and has the recorded types, and a node without a type
    comes with an error here or before.
  \<^item> HashVec, HashVec_Find, HashVec_Spec, HashVec_Ops, HashVec_Refine, HashVec_Props: lib/hashvec.h and
    .cpp, lib/hvec_map.h, lib/hvec_set.h.  A table is its hash array, its entries and the bit vector of the
    erased ones; it refines a list of entries in the order of insertion, as long as the tables of hash
    functions and the indices suffice (at most 214748364 operations on a table made for at most 1073741823
    entries) and no absent key is erased from a full table, for which \<open>erase_of_absent_key\<close> says what happens.
  \<^item> PassManager, PassManager_Props: ir/pass_manager.h and .cpp over abstract passes, with backtracking as
    a run through a stack of saved programs.
  \<^item> OptimizeExpr, OptimizeExpr_Ends: \<open>optimizeExpression\<close> (frontends/p4/optimizeExpressions.h), which
    repeats the modelled strength reduction and constant folding; \<open>emeasure\<close> is what both decrease.  The folder
    has no names to resolve there and reports each path as not found, so only expressions without paths
    are returned; the others meet the BUG_CHECK on the error count.
  \<^item> FeatureExtractor, FeatureExtractor_Spec: backends/lacpp_be/p4feature_extractor.cpp.

  \<^bold>\<open>How the parts fit together.\<close>  The type checker establishes \<open>typed\<close>, constant folding keeps it, strength
  reduction relies on it: \<open>checked_then_reduced\<close> composes the first and the last, and ConstFold_Typed
  supplies the step between them.  The checker's folding of integer operations is the constant folder of
  ConstFold.  \<open>optimizeExpression\<close> runs the folder and strength reduction as passes of a manager, through the
  interfaces \<open>shrinking_passes\<close> and \<open>related_passes\<close>.  Range replacement evaluates select expressions as the folder does.  Matrices, the ranges
  of a bit vector and the marks of erased entries in a hash table rest on the properties of bit vectors.

  \<^bold>\<open>Bounds and fuel.\<close>  \<open>unify\<close> has fuel 2: replacing a type variable by its binding is the only call of
  a rule on itself, and a bound variable has been replaced when a rule is entered, so the second level is
  the last (\<open>unify_fuel\<close>: more fuel changes nothing).  \<open>apply_subst\<close>
  follows as many bindings as there are, plus one: a longer chain repeats a variable, for which the
  code would not end, and the value \<open>None\<close> says so.  \<open>follow\<close> (TypeCheck) has the same bound and the code's
  own BUG at its end.  \<open>solve_loop\<close>, \<open>reachable_loop\<close>, \<open>dom_loop\<close>, \<open>back_search\<close>, \<open>ranges_loop\<close> and
  \<open>chkmask_loop\<close>, \<open>apply_loop\<close>, \<open>repeated_loop\<close> and \<open>repeat_until\<close> are partial; that they return is proved where it is true (\<open>matching_decided\<close>,
  \<open>reachable_spec\<close>, \<open>dominators_spec\<close>, \<open>natural_loops_spec\<close>, \<open>bitranges_spec\<close>, \<open>ternary_print_parse\<close>,
  \<open>optimizeExpression_ends\<close>) and
  refuted where it is not (\<open>solve_hangs\<close>, \<open>decimal_match_text\<close>).

  \<^bold>\<open>Not modelled.\<close>  The type checker on calls, statements and top-level objects, and the name
  resolution before it; parsing, printing and the P4-14 front end; the passes on whole controls and
  parsers (inlining, definitions and uses, specialisation, the other passes of midend/); the
  generator of the node classes and the visitors generated from it; the evaluator; the
  control-plane interface; the back ends but for the feature extractor; p4tools.  These are large
  components of their own, many of them about names, statements and the layout of target tables rather
  than about the values modelled here.  Messages are kept as diagnostics without their texts; source
  positions and logging are left out.
\<close>

end
